(* ===== verification/Kernel_Prelude.thy ===== *)
theory Kernel_Prelude
  imports Main "HOL-Library.Word" "HOL-Library.Monad_Syntax"
begin

text \<open>
  Shared material of the development: the error codes of the kernel, the convention for
  panics, and doubly linked segments.

  \<^item> Every kernel routine that can fail returns an \<^verbatim>\<open>errno\<close> (\<open>EZERO\<close> stands for the
    C value 0, success).
  \<^item> A routine that can reach a call of \<^verbatim>\<open>panic\<close> returns an \<open>option\<close>; \<open>None\<close> is the
    panic. The \<open>do\<close> notation of the option monad then reads like the C code: a
    panic in a callee ends the caller.
  \<^item> A C structure that is linked into lists through its own fields is modelled in the
    style of Burstall: one function per field, from addresses to values. \<open>dseg\<close>
    describes a doubly linked segment in such a memory.
\<close>

unbundle bit_operations_syntax

section \<open>Error codes\<close>

datatype errno =
    EZERO | ENOENT | EACCES | EPERM | E2BIG | EBUSY | ECHILD | EEXIST | EFAULT | EFBIG
  | EINTR | EINVAL | ENOMEM | EMFILE | EMLINK | EAGAIN | ENAMETOOLONG | ENFILE | ENODEV
  | ENOEXEC | EIO | ENOSPC | ENOSYS | ENOTDIR | ENOTEMPTY | ENOTTY | EPIPE | EROFS | ESPIPE
  | ESRCH | EXDEV | ERANGE | EBADF | EISDIR | EDEADLK | ENXIO | ETXTBSY
  | EMOUNTED | ENODESKTOP | EBADM | ENSYM | ENOKS | EBADKSD

section \<open>Doubly linked segments\<close>

text \<open>
  \<open>headp xs e\<close> is the pointer to the first element of \<open>xs\<close> (or \<open>e\<close> when there is none),
  \<open>lastp xs p\<close> the pointer to the last. \<open>dseg nx pv p xs e\<close> says that the elements of
  \<open>xs\<close> are linked in this order by the fields \<open>nx\<close> and \<open>pv\<close>, that the first one points
  back to \<open>p\<close> and the last one forward to \<open>e\<close>.
\<close>

fun headp :: "'a list \<Rightarrow> 'a option \<Rightarrow> 'a option" where
  "headp [] e = e"
| "headp (x # xs) e = Some x"

fun lastp :: "'a list \<Rightarrow> 'a option \<Rightarrow> 'a option" where
  "lastp [] p = p"
| "lastp (x # xs) p = lastp xs (Some x)"

fun dseg :: "('a \<Rightarrow> 'a option) \<Rightarrow> ('a \<Rightarrow> 'a option) \<Rightarrow> 'a option \<Rightarrow> 'a list \<Rightarrow> 'a option \<Rightarrow> bool" where
  "dseg nx pv p [] e = True"
| "dseg nx pv p (x # xs) e = (pv x = p \<and> nx x = headp xs e \<and> dseg nx pv (Some x) xs e)"

lemma headp_append [simp]: "headp (xs @ ys) e = headp xs (headp ys e)"
  by (cases xs) auto

lemma lastp_append [simp]: "lastp (xs @ ys) p = lastp ys (lastp xs p)"
  by (induction xs arbitrary: p) auto

lemma headp_None_iff [simp]: "headp xs None = None \<longleftrightarrow> xs = []"
  by (cases xs) auto

lemma headp_Some_neq_None [simp]: "headp xs (Some x) \<noteq> None"
  by (cases xs) auto

lemma lastp_Some_neq_None [simp]: "lastp xs (Some x) \<noteq> None"
  by (induction xs arbitrary: x) auto

lemma lastp_None_iff [simp]: "lastp xs None = None \<longleftrightarrow> xs = []"
  by (cases xs) auto

lemma headp_Some_iff: "headp xs None = Some x \<longleftrightarrow> (\<exists>ys. xs = x # ys)"
  by (cases xs) auto

lemma lastp_Some_iff: "lastp xs None = Some x \<longleftrightarrow> (\<exists>ys. xs = ys @ [x])"
  by (induction xs rule: rev_induct) auto

lemma headp_memD: "headp xs p = Some y \<Longrightarrow> y \<in> set xs \<or> p = Some y"
  by (cases xs) auto

lemma lastp_memD: "lastp xs p = Some y \<Longrightarrow> y \<in> set xs \<or> p = Some y"
  by (induction xs arbitrary: p) auto

lemma dseg_append:
  "dseg nx pv p (xs @ ys) e \<longleftrightarrow> dseg nx pv p xs (headp ys e) \<and> dseg nx pv (lastp xs p) ys e"
  by (induction xs arbitrary: p) auto

lemma dseg_nx_frame [simp]: "a \<notin> set xs \<Longrightarrow> dseg (nx(a := v)) pv p xs e = dseg nx pv p xs e"
  by (induction xs arbitrary: p) auto

lemma dseg_pv_frame [simp]: "a \<notin> set xs \<Longrightarrow> dseg nx (pv(a := v)) p xs e = dseg nx pv p xs e"
  by (induction xs arbitrary: p) auto

text \<open>Relinking the two ends of a segment.\<close>

lemma dseg_set_prev:
  "dseg nx pv p (x # xs) e \<Longrightarrow> x \<notin> set xs \<Longrightarrow> dseg nx (pv(x := q)) q (x # xs) e"
  by simp

lemma dseg_set_next:
  "dseg nx pv p (xs @ [x]) e \<Longrightarrow> x \<notin> set xs \<Longrightarrow> dseg (nx(x := q)) pv p (xs @ [x]) q"
  by (simp add: dseg_append)

lemma dseg_next:
  "dseg nx pv p (xs @ x # ys) e \<Longrightarrow> nx x = headp ys e"
  by (simp add: dseg_append)

lemma dseg_prev:
  "dseg nx pv p (xs @ x # ys) e \<Longrightarrow> pv x = lastp xs p"
  by (simp add: dseg_append)

text \<open>A segment that ends in a null pointer is determined by its first pointer, so it never
  meets itself.\<close>

lemma dseg_unique:
  "dseg nx pv p xs None \<Longrightarrow> dseg nx pv q ys None \<Longrightarrow> headp xs None = headp ys None \<Longrightarrow> xs = ys"
proof (induction xs arbitrary: p q ys)
  case Nil
  then have "headp ys None = None" by simp
  then show ?case by simp
next
  case (Cons x xs)
  then obtain zs where ys: "ys = x # zs" by (cases ys) auto
  with Cons.prems have "dseg nx pv (Some x) xs None" "dseg nx pv (Some x) zs None"
      "headp xs None = headp zs None" by auto
  then show ?case using Cons.IH ys by blast
qed

lemma dseg_distinct: "dseg nx pv p xs None \<Longrightarrow> distinct xs"
proof (induction xs arbitrary: p)
  case Nil
  show ?case by simp
next
  case (Cons x xs)
  have "x \<notin> set xs"
  proof
    assume "x \<in> set xs"
    then obtain ys zs where xs: "xs = ys @ x # zs" by (meson split_list)
    with Cons.prems have "dseg nx pv (lastp ys (Some x)) (x # zs) None"
      by (auto simp: dseg_append)
    with Cons.prems have "x # xs = x # zs"
      using dseg_unique [of nx pv p "x # xs" "lastp ys (Some x)" "x # zs"] by simp
    with xs show False by (simp add: list_eq_iff_nth_eq)
  qed
  with Cons show ?case by auto
qed

lemma set_remove1_distinct: "distinct xs \<Longrightarrow> set (remove1 x xs) = set xs - {x}"
  by (simp add: set_remove1_eq)

lemma remove1_mid: "x \<notin> set ys \<Longrightarrow> remove1 x (ys @ x # zs) = ys @ zs"
  by (simp add: remove1_append)

section \<open>Interfaces of the list implementations\<close>

text \<open>
  \<open>iter_opt f xs s\<close> runs a fallible operation for the elements of \<open>xs\<close> in turn;
  \<open>drain f n s\<close> takes \<open>n\<close> elements out.
\<close>

primrec iter_opt :: "('a \<Rightarrow> 's \<Rightarrow> 's option) \<Rightarrow> 'a list \<Rightarrow> 's \<Rightarrow> 's option" where
  "iter_opt f [] s = Some s"
| "iter_opt f (x # xs) s = Option.bind (f x s) (iter_opt f xs)"

primrec drain :: "('s \<Rightarrow> 'a option \<times> 's) \<Rightarrow> nat \<Rightarrow> 's \<Rightarrow> 'a list \<times> 's" where
  "drain f 0 s = ([], s)"
| "drain f (Suc n) s =
     (case f s of
        (None, s1) \<Rightarrow> ([], s1)
      | (Some x, s1) \<Rightarrow> (case drain f n s1 of (xs, s2) \<Rightarrow> (x # xs, s2)))"

lemma find_upt_Some_iff:
  "List.find P [0..<n] = Some i \<longleftrightarrow> i < n \<and> P i \<and> (\<forall>j < i. \<not> P j)"
  by (auto simp: find_Some_iff)

lemma find_upt_None_iff: "List.find P [0..<n] = None \<longleftrightarrow> (\<forall>j < n. \<not> P j)"
  by (auto simp: find_None_iff)

text \<open>
  A store of named lists with no element on two lists or twice on one. The kernel has two
  implementations: the lists of \<^verbatim>\<open>lib/list.c\<close> and the task queues of \<^verbatim>\<open>kern/task.c\<close>.
\<close>

locale list_store =
  fixes rep :: "'s \<Rightarrow> ('q \<Rightarrow> 'a list) \<Rightarrow> bool"
    and append :: "'q \<Rightarrow> 'a \<Rightarrow> 's \<Rightarrow> 's option"
    and remove :: "'q \<Rightarrow> 'a \<Rightarrow> 's \<Rightarrow> 's option"
  assumes rep_distinct: "rep s L \<Longrightarrow> distinct (L q)"
    and rep_disjoint: "rep s L \<Longrightarrow> x \<in> set (L q) \<Longrightarrow> x \<in> set (L q') \<Longrightarrow> q = q'"
    and rep_append: "rep s L \<Longrightarrow> (\<And>q'. x \<notin> set (L q')) \<Longrightarrow>
          \<exists>s'. append q x s = Some s' \<and> rep s' (L(q := L q @ [x]))"
    and rep_remove: "rep s L \<Longrightarrow> x \<in> set (L q) \<Longrightarrow>
          \<exists>s'. remove q x s = Some s' \<and> rep s' (L(q := remove1 x (L q)))"
begin

lemma append_all:
  "rep s L \<Longrightarrow> distinct xs \<Longrightarrow> \<forall>x \<in> set xs. \<forall>q'. x \<notin> set (L q') \<Longrightarrow>
   \<exists>s'. iter_opt (append q) xs s = Some s' \<and> rep s' (L(q := L q @ xs))"
proof (induction xs arbitrary: s L)
  case Nil
  then show ?case by simp
next
  case (Cons x xs)
  obtain s1 where s1: "append q x s = Some s1" "rep s1 (L(q := L q @ [x]))"
    using rep_append [OF Cons.prems(1), of x q] Cons.prems(3) by auto
  have "\<forall>y \<in> set xs. \<forall>q'. y \<notin> set ((L(q := L q @ [x])) q')" using Cons.prems(2,3) by auto
  then obtain s' where "iter_opt (append q) xs s1 = Some s'"
      "rep s' ((L(q := L q @ [x]))(q := (L(q := L q @ [x])) q @ xs))"
    using Cons.IH [OF s1(2)] Cons.prems(2) by (metis distinct.simps(2))
  then have "iter_opt (append q) (x # xs) s = Some s'" "rep s' (L(q := L q @ x # xs))"
    using s1(1) by simp_all
  then show ?case by blast
qed

text \<open>Taking an element out and appending it moves it to the end, whatever list it was on.\<close>

lemma move_to_end:
  assumes "rep s L" and "x \<in> set (L p)"
  shows "\<exists>s' s''. remove p x s = Some s' \<and> append q x s' = Some s'' \<and>
           rep s'' ((L(p := remove1 x (L p)))(q := (L(p := remove1 x (L p))) q @ [x]))"
proof -
  obtain s' where s': "remove p x s = Some s'" "rep s' (L(p := remove1 x (L p)))"
    using rep_remove [OF assms] by blast
  have "x \<notin> set ((L(p := remove1 x (L p))) q')" for q'
    using rep_distinct [OF assms(1), of p] rep_disjoint [OF assms, of q'] by auto
  then show ?thesis using s' rep_append [OF s'(2), of x q] by blast
qed

lemma remove_all:
  "rep s L \<Longrightarrow> distinct xs \<Longrightarrow> set xs \<subseteq> set (L q) \<Longrightarrow>
   \<exists>s'. iter_opt (remove q) xs s = Some s' \<and> rep s' (L(q := filter (\<lambda>x. x \<notin> set xs) (L q)))"
proof (induction xs arbitrary: s L)
  case Nil
  then show ?case by (simp add: fun_upd_idem)
next
  case (Cons x xs)
  then obtain s1 where s1: "remove q x s = Some s1" "rep s1 (L(q := remove1 x (L q)))"
    using rep_remove by (metis list.set_intros(1) subsetD)
  have r: "remove1 x (L q) = filter (\<lambda>y. y \<noteq> x) (L q)"
    using distinct_remove1_removeAll [OF rep_distinct [OF Cons.prems(1)]]
    by (auto simp: removeAll_filter_not_eq intro!: filter_cong)
  have "set xs \<subseteq> set ((L(q := remove1 x (L q))) q)" using Cons.prems(2,3) by (auto simp: r)
  then obtain s' where "iter_opt (remove q) xs s1 = Some s'"
      "rep s' ((L(q := remove1 x (L q)))(q := filter (\<lambda>y. y \<notin> set xs) (remove1 x (L q))))"
    using Cons.IH [OF s1(2)] Cons.prems(2) by (metis distinct.simps(2) fun_upd_same)
  moreover have "filter (\<lambda>y. y \<notin> set xs) (remove1 x (L q)) = filter (\<lambda>y. y \<notin> set (x # xs)) (L q)"
    by (auto simp: r intro: filter_cong)
  ultimately have "iter_opt (remove q) (x # xs) s = Some s'"
      "rep s' (L(q := filter (\<lambda>y. y \<notin> set (x # xs)) (L q)))"
    using s1(1) by simp_all
  then show ?case by blast
qed

end

text \<open>A store of queues: the head can be taken off.\<close>

locale fifo_queues = list_store rep append remove
  for rep :: "'s \<Rightarrow> ('q \<Rightarrow> 'a list) \<Rightarrow> bool" and append remove +
  fixes dequeue :: "'q \<Rightarrow> 's \<Rightarrow> 'a option \<times> 's"
  assumes dequeue_nil: "rep s L \<Longrightarrow> L q = [] \<Longrightarrow> dequeue q s = (None, s)"
    and dequeue_cons: "rep s L \<Longrightarrow> L q = x # xs \<Longrightarrow>
          \<exists>s'. dequeue q s = (Some x, s') \<and> rep s' (L(q := xs))"
begin

lemma drain_all:
  "rep s L \<Longrightarrow> length (L q) \<le> n \<Longrightarrow> \<exists>s'. drain (dequeue q) n s = (L q, s') \<and> rep s' (L(q := []))"
proof (induction n arbitrary: s L)
  case 0
  then show ?case by (simp add: fun_upd_idem)
next
  case (Suc n)
  show ?case
  proof (cases "L q")
    case Nil
    then show ?thesis using dequeue_nil [OF Suc.prems(1)] Suc.prems(1) by (simp add: fun_upd_idem)
  next
    case (Cons x xs)
    then obtain s1 where "dequeue q s = (Some x, s1)" "rep s1 (L(q := xs))"
      using dequeue_cons [OF Suc.prems(1)] by blast
    moreover from this obtain s' where "drain (dequeue q) n s1 = (xs, s')" "rep s' ((L(q := xs))(q := []))"
      using Suc.IH [of s1 "L(q := xs)"] Suc.prems(2) Cons by (metis Suc_le_mono fun_upd_same length_Cons)
    ultimately have "drain (dequeue q) (Suc n) s = (L q, s')" "rep s' (L(q := []))"
      using Cons by simp_all
    then show ?thesis by blast
  qed
qed

text \<open>First in, first out: what is appended comes out after what was there, in order.\<close>

lemma fifo:
  assumes "rep s L" and "distinct xs" and "\<forall>x \<in> set xs. \<forall>q'. x \<notin> set (L q')"
  shows "\<exists>s' s''. iter_opt (append q) xs s = Some s' \<and>
           drain (dequeue q) (length (L q) + length xs) s' = (L q @ xs, s'') \<and> rep s'' (L(q := []))"
proof -
  obtain s' where s': "iter_opt (append q) xs s = Some s'" "rep s' (L(q := L q @ xs))"
    using append_all [OF assms] by blast
  then show ?thesis using drain_all [OF s'(2), of q "length (L q) + length xs"] by auto
qed

end

text \<open>A store whose lists also grow at the front, as the block cache needs for its LRU order.\<close>

locale deque_store = list_store rep append remove
  for rep :: "'s \<Rightarrow> ('q \<Rightarrow> 'a list) \<Rightarrow> bool" and append remove +
  fixes prepend :: "'q \<Rightarrow> 'a \<Rightarrow> 's \<Rightarrow> 's option"
  assumes rep_prepend: "rep s L \<Longrightarrow> (\<And>q'. x \<notin> set (L q')) \<Longrightarrow>
          \<exists>s'. prepend q x s = Some s' \<and> rep s' (L(q := x # L q))"
begin

lemma move_to_front:
  assumes "rep s L" and "x \<in> set (L q)"
  shows "\<exists>s' s''. remove q x s = Some s' \<and> prepend q x s' = Some s'' \<and>
           rep s'' (L(q := x # remove1 x (L q)))"
proof -
  obtain s' where s': "remove q x s = Some s'" "rep s' (L(q := remove1 x (L q)))"
    using rep_remove [OF assms] by blast
  have "x \<notin> set ((L(q := remove1 x (L q))) q')" for q'
    using rep_distinct [OF assms(1), of q] rep_disjoint [OF assms, of q'] by auto
  then obtain s'' where "prepend q x s' = Some s''" "rep s'' (L(q := x # remove1 x (L q)))"
    using rep_prepend [OF s'(2), of x q] by auto
  then show ?thesis using s'(1) by blast
qed

end

end
