(* ===== verification/Linked_List.thy ===== *)
theory Linked_List
  imports Kernel_Prelude
begin

text \<open>
  The intrusive doubly linked lists of \<^verbatim>\<open>lib/list.c\<close> and \<^verbatim>\<open>include/list.h\<close>.

  A list head (\<^verbatim>\<open>struct list\<close>) is named by a value of type \<open>'l\<close>, an element by a value of
  type \<open>'a\<close>. The code keeps a \<^verbatim>\<open>struct list_item\<close> at the fixed offset \<^verbatim>\<open>elem_off\<close> inside
  each element and converts between the two pointers by adding and subtracting that
  offset, a bijection; the model names an item by its element, so the two
  conversions are the identity and \<^verbatim>\<open>_list_get\<close> disappears. A null pointer is \<open>None\<close>;
  a call of \<^verbatim>\<open>__libc_panic\<close> is the result \<open>None\<close>.
\<close>

section \<open>Memory and operations\<close>

record ('l, 'a) lmem =
  l_first :: "'l \<Rightarrow> 'a option"
  l_last :: "'l \<Rightarrow> 'a option"
  i_next :: "'a \<Rightarrow> 'a option"
  i_prev :: "'a \<Rightarrow> 'a option"

definition list_init :: "'l \<Rightarrow> ('l, 'a) lmem \<Rightarrow> ('l, 'a) lmem" where
  "list_init li m = m\<lparr>l_first := (l_first m)(li := None), l_last := (l_last m)(li := None)\<rparr>"

text \<open>The branch of \<^verbatim>\<open>list_ib\<close> and \<^verbatim>\<open>list_ia\<close> for an empty list.\<close>

definition list_only :: "'l \<Rightarrow> 'a \<Rightarrow> ('l, 'a) lmem \<Rightarrow> ('l, 'a) lmem option" where
  "list_only li e2 m =
     (if l_first m li \<noteq> None then None
      else Some (m\<lparr>l_first := (l_first m)(li := Some e2), l_last := (l_last m)(li := Some e2),
                   i_prev := (i_prev m)(e2 := None), i_next := (i_next m)(e2 := None)\<rparr>))"

definition list_ib :: "'l \<Rightarrow> 'a option \<Rightarrow> 'a \<Rightarrow> ('l, 'a) lmem \<Rightarrow> ('l, 'a) lmem option" where
  "list_ib li elem1 e2 m =
     (case elem1 of
        None \<Rightarrow> list_only li e2 m
      | Some e1 \<Rightarrow>
          let m1 = m\<lparr>i_next := (i_next m)(e2 := Some e1)\<rparr>;
              m2 = m1\<lparr>i_prev := (i_prev m1)(e2 := i_prev m1 e1)\<rparr>;
              m3 = (case i_prev m2 e1 of
                      Some p \<Rightarrow> m2\<lparr>i_next := (i_next m2)(p := Some e2)\<rparr>
                    | None \<Rightarrow> m2\<lparr>l_first := (l_first m2)(li := Some e2)\<rparr>)
          in Some (m3\<lparr>i_prev := (i_prev m3)(e1 := Some e2)\<rparr>))"

definition list_ia :: "'l \<Rightarrow> 'a option \<Rightarrow> 'a \<Rightarrow> ('l, 'a) lmem \<Rightarrow> ('l, 'a) lmem option" where
  "list_ia li elem1 e2 m =
     (case elem1 of
        None \<Rightarrow> list_only li e2 m
      | Some e1 \<Rightarrow>
          let m1 = m\<lparr>i_next := (i_next m)(e2 := i_next m e1)\<rparr>;
              m2 = m1\<lparr>i_prev := (i_prev m1)(e2 := Some e1)\<rparr>;
              m3 = (case i_next m2 e1 of
                      Some n \<Rightarrow> m2\<lparr>i_prev := (i_prev m2)(n := Some e2)\<rparr>
                    | None \<Rightarrow> m2\<lparr>l_last := (l_last m2)(li := Some e2)\<rparr>)
          in Some (m3\<lparr>i_next := (i_next m3)(e1 := Some e2)\<rparr>))"

definition list_app :: "'l \<Rightarrow> 'a \<Rightarrow> ('l, 'a) lmem \<Rightarrow> ('l, 'a) lmem option" where
  "list_app li e m = list_ia li (l_last m li) e m"

definition list_pre :: "'l \<Rightarrow> 'a \<Rightarrow> ('l, 'a) lmem \<Rightarrow> ('l, 'a) lmem option" where
  "list_pre li e m = list_ib li (l_first m li) e m"

definition list_rm :: "'l \<Rightarrow> 'a \<Rightarrow> ('l, 'a) lmem \<Rightarrow> ('l, 'a) lmem" where
  "list_rm li e m =
     (let m1 = (if l_first m li = Some e then m\<lparr>l_first := (l_first m)(li := i_next m e)\<rparr> else m);
          m2 = (if l_last m1 li = Some e then m1\<lparr>l_last := (l_last m1)(li := i_prev m1 e)\<rparr> else m1);
          m3 = (case i_next m2 e of
                  Some n \<Rightarrow> m2\<lparr>i_prev := (i_prev m2)(n := i_prev m2 e)\<rparr> | None \<Rightarrow> m2)
      in case i_prev m3 e of
           Some p \<Rightarrow> m3\<lparr>i_next := (i_next m3)(p := i_next m3 e)\<rparr> | None \<Rightarrow> m3)"

definition list_next :: "'a option \<Rightarrow> ('l, 'a) lmem \<Rightarrow> 'a option option" where
  "list_next elem m = (case elem of None \<Rightarrow> None | Some e \<Rightarrow> Some (i_next m e))"

definition list_prev :: "'a option \<Rightarrow> ('l, 'a) lmem \<Rightarrow> 'a option option" where
  "list_prev elem m = (case elem of None \<Rightarrow> None | Some e \<Rightarrow> Some (i_prev m e))"

text \<open>
  The loop of \<^verbatim>\<open>list_check\<close>: \<open>i\<close> walks the list, \<open>p\<close> follows it, \<open>f\<close> runs at twice the
  speed. The loop may run forever in a memory with infinitely many elements, so its
  result is an option: \<open>Some True\<close> is a normal return, \<open>Some False\<close> a panic.
\<close>

partial_function (option) list_check_loop ::
    "('a \<Rightarrow> 'a option) \<Rightarrow> ('a \<Rightarrow> 'a option) \<Rightarrow> 'a option \<Rightarrow> 'a option \<Rightarrow> 'a option \<Rightarrow> bool option" where
  "list_check_loop nx pv i p f =
     (case i of
        None \<Rightarrow> Some True
      | Some x \<Rightarrow>
          if pv x \<noteq> p then Some False
          else (case f of
                  None \<Rightarrow> list_check_loop nx pv (nx x) (Some x) None
                | Some y \<Rightarrow>
                    (case nx y of
                       None \<Rightarrow> list_check_loop nx pv (nx x) (Some x) None
                     | Some z \<Rightarrow>
                         if nx x = nx z then Some False
                         else list_check_loop nx pv (nx x) (Some x) (nx z))))"

definition list_check :: "'l \<Rightarrow> ('l, 'a) lmem \<Rightarrow> bool option" where
  "list_check li m = list_check_loop (i_next m) (i_prev m) (l_first m li) None (l_first m li)"

text \<open>
  The \<^verbatim>\<open>for\<close> loops over a list. \<open>list_walk\<close> collects the elements that
  \<^verbatim>\<open>for (b = list_first(l); b; b = list_next(l, b))\<close> visits; \<open>list_search\<close> is the loop of
  \<^verbatim>\<open>blk_get\<close>, which looks for the first element with a property and panics after \<open>n\<close>
  elements (its \<^verbatim>\<open>loop_det\<close> counter).
\<close>

partial_function (option) list_walk :: "('a \<Rightarrow> 'a option) \<Rightarrow> 'a option \<Rightarrow> 'a list option" where
  "list_walk nx b =
     (case b of None \<Rightarrow> Some []
      | Some x \<Rightarrow> Option.bind (list_walk nx (nx x)) (\<lambda>xs. Some (x # xs)))"

fun list_search :: "('a \<Rightarrow> 'a option) \<Rightarrow> ('a \<Rightarrow> bool) \<Rightarrow> nat \<Rightarrow> 'a option \<Rightarrow> 'a option option" where
  "list_search nx P n None = Some None"
| "list_search nx P 0 (Some x) = None"
| "list_search nx P (Suc n) (Some x) =
     (if P x then Some (Some x) else list_search nx P n (nx x))"

section \<open>Representation of a list in memory\<close>

definition lrep :: "('l, 'a) lmem \<Rightarrow> 'l \<Rightarrow> 'a list \<Rightarrow> bool" where
  "lrep m li xs \<longleftrightarrow>
     l_first m li = headp xs None \<and> l_last m li = lastp xs None \<and>
     dseg (i_next m) (i_prev m) None xs None \<and> distinct xs"

lemma lrep_distinct: "lrep m li xs \<Longrightarrow> distinct xs"
  by (simp add: lrep_def)

lemma lrep_first: "lrep m li xs \<Longrightarrow> l_first m li = headp xs None"
  by (simp add: lrep_def)

lemma lrep_last: "lrep m li xs \<Longrightarrow> l_last m li = lastp xs None"
  by (simp add: lrep_def)

lemma lrep_init: "lrep (list_init li m) li []"
  by (simp add: lrep_def list_init_def)

lemma list_only_lrep:
  "lrep m li [] \<Longrightarrow> \<exists>m'. list_only li x m = Some m' \<and> lrep m' li [x]"
  by (auto simp: lrep_def list_only_def)

text \<open>Insertion after and before an element that is in the list.\<close>

lemma list_ia_lrep:
  assumes "lrep m li (xs @ y # ys)" and "x \<notin> set (xs @ y # ys)"
  shows "\<exists>m'. list_ia li (Some y) x m = Some m' \<and> lrep m' li (xs @ y # x # ys)"
  using assms by (cases ys) (auto simp: lrep_def list_ia_def Let_def dseg_append)

lemma list_ib_lrep:
  assumes "lrep m li (xs @ y # ys)" and "x \<notin> set (xs @ y # ys)"
  shows "\<exists>m'. list_ib li (Some y) x m = Some m' \<and> lrep m' li (xs @ x # y # ys)"
  using assms
  by (cases xs rule: rev_cases) (auto simp: lrep_def list_ib_def Let_def dseg_append)

lemma list_app_lrep:
  assumes "lrep m li xs" and "x \<notin> set xs"
  shows "\<exists>m'. list_app li x m = Some m' \<and> lrep m' li (xs @ [x])"
proof (cases xs rule: rev_cases)
  case Nil
  with assms list_only_lrep [of m li x] show ?thesis
    by (simp add: list_app_def list_ia_def lrep_last)
next
  case (snoc ys y)
  with assms list_ia_lrep [of m li ys y "[]" x] show ?thesis
    by (simp add: list_app_def lrep_last)
qed

lemma list_pre_lrep:
  assumes "lrep m li xs" and "x \<notin> set xs"
  shows "\<exists>m'. list_pre li x m = Some m' \<and> lrep m' li (x # xs)"
proof (cases xs)
  case Nil
  with assms list_only_lrep [of m li x] show ?thesis
    by (simp add: list_pre_def list_ib_def lrep_first)
next
  case (Cons y ys)
  with assms list_ib_lrep [of m li "[]" y ys x] show ?thesis
    by (simp add: list_pre_def lrep_first)
qed

lemma list_rm_lrep_mid:
  assumes "lrep m li (xs @ y # ys)"
  shows "lrep (list_rm li y m) li (xs @ ys)"
  using assms
  by (cases xs rule: rev_cases; cases ys)
    (auto simp: lrep_def list_rm_def Let_def dseg_append dest!: headp_memD lastp_memD)

lemma list_rm_lrep:
  assumes "lrep m li xs" and "x \<in> set xs"
  shows "lrep (list_rm li x m) li (remove1 x xs)"
proof -
  from assms(2) obtain ys zs where xs: "xs = ys @ x # zs" and "x \<notin> set ys"
    by (meson split_list_first)
  with list_rm_lrep_mid [of m li ys x zs] assms(1) show ?thesis
    by (simp add: remove1_mid)
qed

text \<open>
  Removing an element whose item is zeroed and that is not on the list does nothing:
  this is what happens to the buffers that \<^verbatim>\<open>blk_add\<close> puts on no hash list.
\<close>

lemma list_rm_detached:
  assumes "lrep m li xs" and "x \<notin> set xs" and "i_next m x = None" and "i_prev m x = None"
  shows "list_rm li x m = m"
proof -
  from assms(1,2) have "l_first m li \<noteq> Some x" and "l_last m li \<noteq> Some x"
    by (auto simp: lrep_def headp_Some_iff lastp_Some_iff)
  with assms(3,4) show ?thesis by (simp add: list_rm_def Let_def)
qed

text \<open>The operations on one list leave every list with other elements alone.\<close>

lemma list_only_frame:
  "list_only li x m = Some m' \<Longrightarrow> lrep m lj zs \<Longrightarrow> li \<noteq> lj \<Longrightarrow> x \<notin> set zs \<Longrightarrow> lrep m' lj zs"
  by (auto simp: lrep_def list_only_def split: if_splits)

lemma list_app_frame:
  assumes "lrep m li xs" and "list_app li x m = Some m'" and "lrep m lj zs" and "li \<noteq> lj"
    and "x \<notin> set zs" and "set xs \<inter> set zs = {}"
  shows "lrep m' lj zs"
proof (cases xs rule: rev_cases)
  case Nil
  with assms list_only_frame [of li x m m' lj zs] show ?thesis
    by (simp add: list_app_def list_ia_def lrep_last)
next
  case (snoc ys y)
  with assms show ?thesis
    by (auto simp: list_app_def list_ia_def lrep_def Let_def dseg_append)
qed

lemma list_pre_frame:
  assumes "lrep m li xs" and "list_pre li x m = Some m'" and "lrep m lj zs" and "li \<noteq> lj"
    and "x \<notin> set zs" and "set xs \<inter> set zs = {}"
  shows "lrep m' lj zs"
proof (cases xs)
  case Nil
  with assms list_only_frame [of li x m m' lj zs] show ?thesis
    by (simp add: list_pre_def list_ib_def lrep_first)
next
  case (Cons y ys)
  with assms show ?thesis
    by (auto simp: list_pre_def list_ib_def lrep_def Let_def)
qed

lemma list_rm_frame:
  assumes "lrep m li (xs @ y # ys)" and "lrep m lj zs" and "li \<noteq> lj"
    and "set (xs @ y # ys) \<inter> set zs = {}"
  shows "lrep (list_rm li y m) lj zs"
  using assms
  by (cases xs rule: rev_cases; cases ys)
    (auto simp: lrep_def list_rm_def Let_def dseg_append dest!: headp_memD lastp_memD)

text \<open>Elements that are on no list keep their items.\<close>

lemma list_rm_other:
  assumes "lrep m li xs" and "y \<in> set xs" and "x \<notin> set xs"
  shows "i_next (list_rm li y m) x = i_next m x" "i_prev (list_rm li y m) x = i_prev m x"
proof -
  from assms(2) obtain ys zs where xs: "xs = ys @ y # zs" by (meson split_list)
  show "i_next (list_rm li y m) x = i_next m x" "i_prev (list_rm li y m) x = i_prev m x"
    using assms(1,3) unfolding xs
    by (cases ys rule: rev_cases; cases zs; auto simp: lrep_def list_rm_def Let_def dseg_append)+
qed

lemma list_pre_other:
  assumes "lrep m li xs" and "list_pre li y m = Some m'" and "x \<notin> set xs" and "x \<noteq> y"
  shows "i_next m' x = i_next m x" "i_prev m' x = i_prev m x"
  using assms by (cases xs; auto simp: lrep_def list_pre_def list_ib_def list_only_def Let_def)+

text \<open>Walking a list with \<^verbatim>\<open>list_next\<close> and \<^verbatim>\<open>list_prev\<close>.\<close>

lemma list_next_lrep:
  "lrep m li (xs @ y # ys) \<Longrightarrow> list_next (Some y) m = Some (headp ys None)"
  by (auto simp: lrep_def list_next_def dseg_append)

lemma list_prev_lrep:
  "lrep m li (xs @ y # ys) \<Longrightarrow> list_prev (Some y) m = Some (lastp xs None)"
  by (auto simp: lrep_def list_prev_def dseg_append)

section \<open>The loops over a list\<close>

lemma list_walk_dseg: "dseg nx pv p xs None \<Longrightarrow> list_walk nx (headp xs None) = Some xs"
proof (induction xs arbitrary: p)
  case Nil
  show ?case by (simp add: list_walk.simps)
next
  case (Cons x xs)
  then have "nx x = headp xs None" and "dseg nx pv (Some x) xs None" by simp_all
  then show ?case using Cons.IH by (simp add: list_walk.simps [of nx "Some x"])
qed

lemma list_walk_lrep: "lrep m li xs \<Longrightarrow> list_walk (i_next m) (l_first m li) = Some xs"
  by (auto simp: lrep_def intro: list_walk_dseg)

lemma list_search_dseg:
  "dseg nx pv p xs None \<Longrightarrow> length xs \<le> n \<Longrightarrow>
   list_search nx P n (headp xs None) = Some (find P xs)"
proof (induction xs arbitrary: p n)
  case Nil
  show ?case by simp
next
  case (Cons x xs)
  from Cons.prems obtain k where n: "n = Suc k" and "length xs \<le> k" by (cases n) auto
  moreover from Cons.prems have "nx x = headp xs None" and "dseg nx pv (Some x) xs None" by simp_all
  ultimately show ?case using Cons.IH by simp
qed

lemma list_search_lrep:
  "lrep m li xs \<Longrightarrow> length xs \<le> n \<Longrightarrow>
   list_search (i_next m) P n (l_first m li) = Some (find P xs)"
  by (auto simp: lrep_def intro: list_search_dseg)

section \<open>The consistency check\<close>

text \<open>
  On a well-formed list the fast pointer of \<^verbatim>\<open>list_check\<close> is always strictly ahead (or at
  the end), so the check neither panics nor loops.
\<close>

lemma list_check_loop_dseg:
  "dseg nx pv p xs None \<Longrightarrow> distinct xs \<Longrightarrow>
   list_check_loop nx pv (headp xs None) p (headp (drop k xs) None) = Some True"
proof (induction xs arbitrary: p k)
  case Nil
  show ?case by (simp add: list_check_loop.simps)
next
  case (Cons x xs)
  from Cons.prems have x: "pv x = p" "nx x = headp xs None" "dseg nx pv (Some x) xs None" "distinct xs"
    by simp_all
  have IH: "list_check_loop nx pv (headp xs None) (Some x) (headp (drop j xs) None) = Some True" for j
    using Cons.IH x by blast
  have end_case: "list_check_loop nx pv (headp xs None) (Some x) None = Some True"
    using IH [of "length xs"] by simp
  show ?case
  proof (cases "Suc k < length (x # xs)")
    case False
    then have len: "length (drop k (x # xs)) \<le> 1" by simp
    consider "drop k (x # xs) = []" | y where "drop k (x # xs) = [y]"
      using len by (cases "drop k (x # xs)") (auto simp del: length_drop drop_eq_Nil)
    then show ?thesis
    proof cases
      case 1
      with x end_case show ?thesis by (simp add: list_check_loop.simps [of _ _ "Some x"])
    next
      case 2
      then have "x # xs = take k (x # xs) @ y # []" by (metis append_take_drop_id)
      with Cons.prems(1) have "nx y = None" by (metis dseg_next headp.simps(1))
      with 2 x end_case show ?thesis by (simp add: list_check_loop.simps [of _ _ "Some x"])
    qed
  next
    case True
    then have k: "Suc k < length (x # xs)" .
    define y z where "y = (x # xs) ! k" and "z = (x # xs) ! Suc k"
    have d: "drop k (x # xs) = y # z # drop (Suc k) xs"
      using k Cons_nth_drop_Suc [of k "x # xs"] Cons_nth_drop_Suc [of k xs]
      by (simp add: y_def z_def)
    have split: "x # xs = take k (x # xs) @ y # z # drop (Suc k) xs"
      by (metis append_take_drop_id d)
    have "nx y = Some z" using Cons.prems(1) split by (metis dseg_next headp.simps(2))
    moreover have nz: "nx z = headp (drop (Suc k) xs) None"
      using Cons.prems(1) split by (metis append.assoc append_Cons append_Nil dseg_next)
    moreover have "headp xs None \<noteq> headp (drop (Suc k) xs) None"
    proof
      assume eq: "headp xs None = headp (drop (Suc k) xs) None"
      from k obtain a as where xs: "xs = a # as" by (cases xs) auto
      with eq have "a \<in> set (drop k as)" using headp_memD [of "drop k as" None a] by auto
      with xs x(4) show False by (auto dest: in_set_dropD)
    qed
    ultimately show ?thesis using d x IH [of "Suc k"]
      by (simp add: list_check_loop.simps [of _ _ "Some x"])
  qed
qed

lemma list_check_lrep: "lrep m li xs \<Longrightarrow> list_check li m = Some True"
  using list_check_loop_dseg [of "i_next m" "i_prev m" None xs 0]
  by (simp add: lrep_def list_check_def)

lemma list_check_loop_sound:
  assumes "list_check_loop nx pv i p f = Some r" and "r"
  shows "\<exists>xs. i = headp xs None \<and> dseg nx pv p xs None"
proof -
  have "r \<longrightarrow> (\<exists>xs. i = headp xs None \<and> dseg nx pv p xs None)"
  proof (rule list_check_loop.raw_induct [where P = "\<lambda>nx pv i p f r. r \<longrightarrow> (\<exists>xs. i = headp xs None \<and> dseg nx pv p xs None)", OF _ assms(1)])
    fix loop :: "('a \<Rightarrow> 'a option) \<Rightarrow> ('a \<Rightarrow> 'a option) \<Rightarrow> 'a option \<Rightarrow> 'a option \<Rightarrow> 'a option \<Rightarrow> bool option"
    fix nx pv :: "'a \<Rightarrow> 'a option" and i p f r
    assume IH: "\<And>nx pv i p f r. loop nx pv i p f = Some r \<Longrightarrow>
        r \<longrightarrow> (\<exists>xs. i = headp xs None \<and> dseg nx pv p xs None)"
      and eq: "(case i of None \<Rightarrow> Some True
        | Some x \<Rightarrow> if pv x \<noteq> p then Some False
            else (case f of None \<Rightarrow> loop nx pv (nx x) (Some x) None
                  | Some y \<Rightarrow> (case nx y of None \<Rightarrow> loop nx pv (nx x) (Some x) None
                     | Some z \<Rightarrow> if nx x = nx z then Some False else loop nx pv (nx x) (Some x) (nx z)))) = Some r"
    show "r \<longrightarrow> (\<exists>xs. i = headp xs None \<and> dseg nx pv p xs None)"
    proof
      assume r
      show "\<exists>xs. i = headp xs None \<and> dseg nx pv p xs None"
      proof (cases i)
        case None
        then show ?thesis by (intro exI [of _ "[]"]) simp
      next
        case (Some x)
        with eq \<open>r\<close> obtain f' where "pv x = p" and "loop nx pv (nx x) (Some x) f' = Some r"
          by (auto split: if_splits option.splits)
        with IH \<open>r\<close> obtain xs where "nx x = headp xs None" "dseg nx pv (Some x) xs None" by blast
        with Some \<open>pv x = p\<close> show ?thesis by (intro exI [of _ "x # xs"]) simp
      qed
    qed
  qed
  with assms(2) show ?thesis by blast
qed

text \<open>soundness and completeness of the check.\<close>

theorem list_check_iff:
  "list_check li m = Some True \<longleftrightarrow>
   (\<exists>xs. l_first m li = headp xs None \<and> dseg (i_next m) (i_prev m) None xs None)"
proof
  assume "list_check li m = Some True"
  then show "\<exists>xs. l_first m li = headp xs None \<and> dseg (i_next m) (i_prev m) None xs None"
    unfolding list_check_def by (rule list_check_loop_sound) simp
next
  assume "\<exists>xs. l_first m li = headp xs None \<and> dseg (i_next m) (i_prev m) None xs None"
  then show "list_check li m = Some True"
    using list_check_loop_dseg [where k = 0] dseg_distinct unfolding list_check_def by fastforce
qed

section \<open>The lists as a store\<close>

text \<open>All lists of a memory at once; no element is on two lists.\<close>

definition lists_rep :: "('l, 'a) lmem \<Rightarrow> ('l \<Rightarrow> 'a list) \<Rightarrow> bool" where
  "lists_rep m L \<longleftrightarrow>
     (\<forall>li. lrep m li (L li)) \<and> (\<forall>x li lj. x \<in> set (L li) \<longrightarrow> x \<in> set (L lj) \<longrightarrow> li = lj)"

lemma lists_repI:
  assumes "lists_rep m L" and "lrep m' li ys"
    and "\<And>lj. lj \<noteq> li \<Longrightarrow> lrep m' lj (L lj)"
    and "\<And>x lj. x \<in> set ys \<Longrightarrow> lj \<noteq> li \<Longrightarrow> x \<notin> set (L lj)"
  shows "lists_rep m' (L(li := ys))"
  using assms unfolding lists_rep_def by auto

lemma lists_rep_lrep: "lists_rep m L \<Longrightarrow> lrep m li (L li)"
  by (simp add: lists_rep_def)

lemma lists_rep_disjoint:
  "lists_rep m L \<Longrightarrow> li \<noteq> lj \<Longrightarrow> set (L li) \<inter> set (L lj) = {}"
  unfolding lists_rep_def by blast

lemma lists_rep_app:
  assumes "lists_rep m L" and "\<And>lj. x \<notin> set (L lj)"
  shows "\<exists>m'. list_app li x m = Some m' \<and> lists_rep m' (L(li := L li @ [x]))"
proof -
  note r = lists_rep_lrep [OF assms(1)]
  obtain m' where m': "list_app li x m = Some m'" "lrep m' li (L li @ [x])"
    using list_app_lrep [OF r assms(2)] by blast
  have "lists_rep m' (L(li := L li @ [x]))"
  proof (rule lists_repI [OF assms(1) m'(2)])
    show "lrep m' lj (L lj)" if "lj \<noteq> li" for lj
      using list_app_frame [OF r m'(1) r] that assms(2) lists_rep_disjoint [OF assms(1)] by metis
  qed (use assms(2) lists_rep_disjoint [OF assms(1)] in auto)
  with m'(1) show ?thesis by blast
qed

lemma lists_rep_pre:
  assumes "lists_rep m L" and "\<And>lj. x \<notin> set (L lj)"
  shows "\<exists>m'. list_pre li x m = Some m' \<and> lists_rep m' (L(li := x # L li))"
proof -
  note r = lists_rep_lrep [OF assms(1)]
  obtain m' where m': "list_pre li x m = Some m'" "lrep m' li (x # L li)"
    using list_pre_lrep [OF r assms(2)] by blast
  have "lists_rep m' (L(li := x # L li))"
  proof (rule lists_repI [OF assms(1) m'(2)])
    show "lrep m' lj (L lj)" if "lj \<noteq> li" for lj
      using list_pre_frame [OF r m'(1) r] that assms(2) lists_rep_disjoint [OF assms(1)] by metis
  qed (use assms(2) lists_rep_disjoint [OF assms(1)] in auto)
  with m'(1) show ?thesis by blast
qed

lemma lists_rep_rm:
  assumes "lists_rep m L" and "x \<in> set (L li)"
  shows "lists_rep (list_rm li x m) (L(li := remove1 x (L li)))"
proof (rule lists_repI [OF assms(1)])
  note r = lists_rep_lrep [OF assms(1)]
  show "lrep (list_rm li x m) li (remove1 x (L li))" by (rule list_rm_lrep [OF r assms(2)])
  from assms(2) obtain ys zs where L: "L li = ys @ x # zs" by (meson split_list)
  show "lrep (list_rm li x m) lj (L lj)" if "lj \<noteq> li" for lj
  proof (rule list_rm_frame)
    show "lrep m li (ys @ x # zs)" using r [of li] L by simp
    show "set (ys @ x # zs) \<inter> set (L lj) = {}"
      using lists_rep_disjoint [OF assms(1), of li lj] that L by auto
  qed (use r that in auto)
  show "y \<notin> set (L lj)" if "y \<in> set (remove1 x (L li))" "lj \<noteq> li" for y lj
    using that lists_rep_disjoint [OF assms(1), of lj li] set_remove1_subset [of x "L li"] by blast
qed

interpretation ll: deque_store lists_rep list_app "\<lambda>li x m. Some (list_rm li x m)" list_pre
proof (unfold_locales, goal_cases)
  case (1 m L q)
  then show ?case by (rule lrep_distinct [OF lists_rep_lrep])
next
  case (2 m L x q q')
  then show ?case by (auto simp: lists_rep_def)
next
  case (3 m L x q)
  then show ?case by (rule lists_rep_app)
next
  case (4 m L x q)
  then show ?case by (simp add: lists_rep_rm del: fun_upd_apply)
next
  case (5 m L x q)
  then show ?case by (rule lists_rep_pre)
qed

text \<open>
  On a memory that holds well-linked lists, taking an element off its list and putting it in
  front (what the block cache does to its LRU list on every hit) succeeds, keeps every list
  well linked, and changes exactly the order of that one list.
\<close>

theorem list_move_front:
  assumes "lists_rep m L" and "x \<in> set (L li)"
  shows "\<exists>m'. list_pre li x (list_rm li x m) = Some m' \<and>
           lists_rep m' (L(li := x # remove1 x (L li)))"
  using ll.move_to_front [OF assms] by blast

definition example_lists :: "(nat, nat) lmem" where
  "example_lists =
     \<lparr>l_first = (\<lambda>_. None)(0 := Some 1), l_last = (\<lambda>_. None)(0 := Some 3),
      i_next = (\<lambda>_. None)(1 := Some 2, 2 := Some 3), i_prev = (\<lambda>_. None)(2 := Some 1, 3 := Some 2)\<rparr>"

lemma example_lists_rep: "lists_rep example_lists ((\<lambda>_. [])(0 := [1, 2, 3]))"
  by (auto simp: lists_rep_def lrep_def example_lists_def)

theorem list_move_front_witness:
  "\<exists>m'. list_pre 0 2 (list_rm 0 2 example_lists) = Some m' \<and>
     lists_rep m' ((\<lambda>_. [])(0 := [2, 1, 3]))"
  using list_move_front [OF example_lists_rep, of 2 0] by simp

end
