(* ===== verification/Task_Queue.thy ===== *)
theory Task_Queue
  imports Kernel_Prelude
begin

text \<open>
  The task queues of \<^verbatim>\<open>kern/task.c\<close> (\<^verbatim>\<open>struct task_queue\<close> of
  \<^verbatim>\<open>include/kern/task_queue.h\<close>): a task is linked into at most one queue through the fields
  \<^verbatim>\<open>prev\<close>, \<^verbatim>\<open>next\<close> and \<^verbatim>\<open>queue\<close> of \<^verbatim>\<open>struct task\<close>.

  A task is named by its slot in the task table (the address of its structure is a
  function of the slot), a queue by its address: the ready queue of a priority
  (\<open>Ready i\<close> is \<^verbatim>\<open>&ready_queue[i]\<close>), the queue of tasks that poll several files
  (\<^verbatim>\<open>fs_pollq\<close>), or a wait queue embedded in another object. The record \<open>tqmem\<close> holds the
  link fields; the task state extends it, so the operations apply to the
  whole kernel state. A dereference of a null pointer and a panic are \<open>None\<close>.
\<close>

section \<open>Links and operations\<close>

type_synonym tid = nat

datatype qid = Ready nat | Pollq | Waitq nat | Ptyq nat nat

fun is_ready :: "qid \<Rightarrow> bool" where
  "is_ready (Ready i) = True"
| "is_ready q = False"

record tqmem =
  t_next :: "tid \<Rightarrow> tid option"
  t_prev :: "tid \<Rightarrow> tid option"
  t_queue :: "tid \<Rightarrow> qid option"
  q_first :: "qid \<Rightarrow> tid option"
  q_last :: "qid \<Rightarrow> tid option"
  q_name :: "qid \<Rightarrow> string"

definition task_qinit :: "qid \<Rightarrow> string \<Rightarrow> 'z tqmem_scheme \<Rightarrow> 'z tqmem_scheme" where
  "task_qinit tq nm s =
     s\<lparr>q_first := (q_first s)(tq := None), q_last := (q_last s)(tq := None),
       q_name := (q_name s)(tq := nm)\<rparr>"

definition task_insert :: "qid \<Rightarrow> tid \<Rightarrow> 'z tqmem_scheme \<Rightarrow> 'z tqmem_scheme option" where
  "task_insert tq t s =
     (if t_queue s t \<noteq> None then None
      else if q_first s tq = None then
        Some (s\<lparr>q_first := (q_first s)(tq := Some t), q_last := (q_last s)(tq := Some t),
                t_prev := (t_prev s)(t := None), t_next := (t_next s)(t := None),
                t_queue := (t_queue s)(t := Some tq)\<rparr>)
      else do {
        l \<leftarrow> q_last s tq;
        let s1 = s\<lparr>t_prev := (t_prev s)(t := Some l), t_next := (t_next s)(t := None),
                   t_queue := (t_queue s)(t := Some tq)\<rparr>;
        let s2 = s1\<lparr>t_next := (t_next s1)(l := Some t)\<rparr>;
        Some (s2\<lparr>q_last := (q_last s2)(tq := Some t)\<rparr>)
      })"

definition unlink_task :: "tid \<Rightarrow> 'z tqmem_scheme \<Rightarrow> 'z tqmem_scheme" where
  "unlink_task t s =
     s\<lparr>t_queue := (t_queue s)(t := None), t_prev := (t_prev s)(t := None),
       t_next := (t_next s)(t := None)\<rparr>"

definition task_dequeue :: "qid \<Rightarrow> 'z tqmem_scheme \<Rightarrow> tid option \<times> 'z tqmem_scheme" where
  "task_dequeue tq s =
     (case q_first s tq of
        None \<Rightarrow> (None, s)
      | Some t \<Rightarrow>
          let s1 = s\<lparr>q_first := (q_first s)(tq := t_next s t)\<rparr>;
              s2 = (case q_first s1 tq of
                      Some f \<Rightarrow> s1\<lparr>t_prev := (t_prev s1)(f := None)\<rparr>
                    | None \<Rightarrow> s1\<lparr>q_last := (q_last s1)(tq := None)\<rparr>)
          in (Some t, unlink_task t s2))"

definition task_remove :: "tid \<Rightarrow> 'z tqmem_scheme \<Rightarrow> 'z tqmem_scheme option" where
  "task_remove t s = do {
     tq \<leftarrow> t_queue s t;
     if q_first s tq = Some t then
       if q_last s tq = Some t then
         Some ((unlink_task t s)\<lparr>q_first := (q_first s)(tq := None), q_last := (q_last s)(tq := None)\<rparr>)
       else do {
         n \<leftarrow> t_next s t;
         let s1 = s\<lparr>q_first := (q_first s)(tq := Some n), t_prev := (t_prev s)(n := None)\<rparr>;
         Some (unlink_task t s1)
       }
     else if q_last s tq = Some t then do {
       p \<leftarrow> t_prev s t;
       let s1 = s\<lparr>q_last := (q_last s)(tq := Some p), t_next := (t_next s)(p := None)\<rparr>;
       Some (unlink_task t s1)
     }
     else do {
       p \<leftarrow> t_prev s t;
       n \<leftarrow> t_next s t;
       let s1 = s\<lparr>t_next := (t_next s)(p := Some n)\<rparr>;
       let s2 = s1\<lparr>t_prev := (t_prev s1)(n := Some p)\<rparr>;
       Some (unlink_task t s2)
     }
   }"

section \<open>The queues a memory represents\<close>

text \<open>
  \<open>tq_inv s L\<close>: every queue \<open>q\<close> holds exactly the tasks \<open>L q\<close>, in this order, with
  consistent links in both directions, and the field \<^verbatim>\<open>queue\<close> of a task names the queue
  it is on.
\<close>

definition tq_inv :: "'z tqmem_scheme \<Rightarrow> (qid \<Rightarrow> tid list) \<Rightarrow> bool" where
  "tq_inv s L \<longleftrightarrow>
     (\<forall>q. q_first s q = headp (L q) None \<and> q_last s q = lastp (L q) None \<and>
          dseg (t_next s) (t_prev s) None (L q) None) \<and>
     (\<forall>t q. t_queue s t = Some q \<longleftrightarrow> t \<in> set (L q))"

lemma tq_inv_queue: "tq_inv s L \<Longrightarrow> t_queue s t = Some q \<longleftrightarrow> t \<in> set (L q)"
  by (simp add: tq_inv_def)

lemma tq_inv_noqueue: "tq_inv s L \<Longrightarrow> t_queue s t = None \<longleftrightarrow> (\<forall>q. t \<notin> set (L q))"
  by (metis not_None_eq tq_inv_queue)

lemma tq_inv_distinct: "tq_inv s L \<Longrightarrow> distinct (L q)"
  by (meson dseg_distinct tq_inv_def)

lemma tq_inv_disjoint: "tq_inv s L \<Longrightarrow> t \<in> set (L q) \<Longrightarrow> t \<in> set (L q') \<Longrightarrow> q = q'"
  by (metis option.inject tq_inv_queue)

lemma tq_inv_first: "tq_inv s L \<Longrightarrow> q_first s q = headp (L q) None"
  by (simp add: tq_inv_def)

lemma tq_inv_last: "tq_inv s L \<Longrightarrow> q_last s q = lastp (L q) None"
  by (simp add: tq_inv_def)

lemma tq_inv_dseg: "tq_inv s L \<Longrightarrow> dseg (t_next s) (t_prev s) None (L q) None"
  by (simp add: tq_inv_def)

lemma tq_invI:
  assumes "\<And>q. q_first s q = headp (L q) None" and "\<And>q. q_last s q = lastp (L q) None"
    and "\<And>q. dseg (t_next s) (t_prev s) None (L q) None"
    and "\<And>t q. t_queue s t = Some q \<longleftrightarrow> t \<in> set (L q)"
  shows "tq_inv s L"
  using assms by (simp add: tq_inv_def)

text \<open>The representation determines the queues: the abstraction is a function.\<close>

lemma tq_inv_unique:
  assumes "tq_inv s L" and "tq_inv s M"
  shows "L = M"
proof
  fix q
  have "headp (L q) None = headp (M q) None"
    using tq_inv_first [OF assms(1), of q] tq_inv_first [OF assms(2), of q] by simp
  then show "L q = M q"
    using dseg_unique [OF tq_inv_dseg [OF assms(1)] tq_inv_dseg [OF assms(2)]] by blast
qed

lemma task_insert_inv:
  assumes "tq_inv s L" and "\<And>q. t \<notin> set (L q)"
  shows "\<exists>s'. task_insert tq t s = Some s' \<and> tq_inv s' (L(tq := L tq @ [t]))"
proof -
  have nq: "t_queue s t = None" using assms by (simp add: tq_inv_noqueue)
  show ?thesis
  proof (cases "L tq" rule: rev_cases)
    case Nil
    with nq assms show ?thesis
      by (auto simp: task_insert_def tq_inv_first [OF assms(1)] tq_inv_last [OF assms(1)]
            tq_inv_dseg [OF assms(1)] tq_inv_queue [OF assms(1)]
          intro!: tq_invI split: if_splits)
  next
    case (snoc ys l)
    have l: "l \<notin> set (L q)" if "q \<noteq> tq" for q
      using that snoc assms(1) tq_inv_disjoint [of s L l q tq] by auto
    have ds: "dseg (t_next s) (t_prev s) None (ys @ [l]) None"
      using assms(1) snoc by (metis tq_inv_dseg)
    have t: "t \<notin> set ys" "t \<noteq> l" "l \<notin> set ys"
      using assms(2) [of tq] snoc tq_inv_distinct [OF assms(1), of tq] by auto
    have q: "q_first s tq \<noteq> None" "q_last s tq = Some l"
      using assms(1) snoc by (simp_all add: tq_inv_first tq_inv_last del: not_None_eq)
    show ?thesis
      using nq q l ds t assms(2) snoc
      by (auto simp: task_insert_def Let_def dseg_append tq_inv_first [OF assms(1)]
            tq_inv_last [OF assms(1)] tq_inv_dseg [OF assms(1)] tq_inv_queue [OF assms(1)]
          intro!: tq_invI split: if_splits)
  qed
qed

lemma task_dequeue_empty: "tq_inv s L \<Longrightarrow> L tq = [] \<Longrightarrow> task_dequeue tq s = (None, s)"
  by (simp add: task_dequeue_def tq_inv_first)

lemma task_dequeue_inv:
  assumes "tq_inv s L" and "L tq = t # ts"
  shows "\<exists>s'. task_dequeue tq s = (Some t, s') \<and> tq_inv s' (L(tq := ts))"
proof -
  have nin: "x \<notin> set (L q)" if "x \<in> set (t # ts)" "q \<noteq> tq" for x q
    using that assms tq_inv_disjoint [of s L x q tq] by auto
  have ds: "dseg (t_next s) (t_prev s) None (t # ts) None"
    using assms by (metis tq_inv_dseg)
  have d: "distinct (t # ts)" using assms by (metis tq_inv_distinct)
  have f: "q_first s tq = Some t" using assms by (simp add: tq_inv_first)
  have tn: "t_queue s x = Some tq" if "x \<in> set (t # ts)" for x
    using that assms by (simp add: tq_inv_queue)
  show ?thesis
    using f ds d nin assms
    by (cases ts)
      (auto simp: task_dequeue_def unlink_task_def Let_def tq_inv_first [OF assms(1)]
         tq_inv_last [OF assms(1)] tq_inv_dseg [OF assms(1)] tq_inv_queue [OF assms(1)]
       intro!: tq_invI split: if_splits)
qed

lemma task_remove_inv:
  assumes "tq_inv s L" and "t \<in> set (L tq)"
  shows "\<exists>s'. task_remove t s = Some s' \<and> tq_inv s' (L(tq := remove1 t (L tq)))"
proof -
  from assms(2) obtain ys zs where L: "L tq = ys @ t # zs" and ty: "t \<notin> set ys"
    by (meson split_list_first)
  have nin: "x \<notin> set (L q)" if "x \<in> set (L tq)" "q \<noteq> tq" for x q
    using that assms tq_inv_disjoint [of s L x q tq] by auto
  have ds: "dseg (t_next s) (t_prev s) None (ys @ t # zs) None"
    using assms L by (metis tq_inv_dseg)
  have d: "distinct (ys @ t # zs)" using assms L by (metis tq_inv_distinct)
  have q: "t_queue s t = Some tq" using assms by (simp add: tq_inv_queue)
  have fl: "q_first s tq = headp (ys @ t # zs) None" "q_last s tq = lastp (ys @ t # zs) None"
    using assms(1) L by (auto simp: tq_inv_first tq_inv_last)
  have r: "remove1 t (L tq) = ys @ zs" using L ty by (simp add: remove1_mid)
  have "\<exists>s'. task_remove t s = Some s' \<and> t_queue s' = (t_queue s)(t := None) \<and>
      (\<forall>q. q_first s' q = headp ((L(tq := ys @ zs)) q) None \<and>
           q_last s' q = lastp ((L(tq := ys @ zs)) q) None \<and>
           dseg (t_next s') (t_prev s') None ((L(tq := ys @ zs)) q) None)"
    using q fl ds d nin L
    by (cases ys rule: rev_cases; cases zs)
      (auto simp: task_remove_def unlink_task_def Let_def dseg_append tq_inv_first [OF assms(1)]
         tq_inv_last [OF assms(1)] tq_inv_dseg [OF assms(1)] dest!: headp_memD lastp_memD)
  then obtain s' where s': "task_remove t s = Some s'" "t_queue s' = (t_queue s)(t := None)"
      "tq_inv s' (L(tq := ys @ zs)) \<longleftrightarrow>
         (\<forall>x q. t_queue s' x = Some q \<longleftrightarrow> x \<in> set ((L(tq := ys @ zs)) q))"
    by (auto simp: tq_inv_def)
  have "t_queue s' x = Some q' \<longleftrightarrow> x \<in> set ((L(tq := ys @ zs)) q')" for x q'
    using s'(2) d nin [of t] L tq_inv_queue [OF assms(1), of x q'] by auto
  with s' show ?thesis unfolding r by blast
qed

text \<open>The three operations change the links and nothing else.\<close>

lemma task_insert_frame:
  "task_insert tq t s = Some s' \<Longrightarrow> tqmem.more s' = tqmem.more s \<and> q_name s' = q_name s"
  by (auto simp: task_insert_def Let_def split: if_splits Option.bind_splits)

lemma task_dequeue_frame:
  "task_dequeue tq s = (r, s') \<Longrightarrow> tqmem.more s' = tqmem.more s \<and> q_name s' = q_name s"
  by (auto simp: task_dequeue_def unlink_task_def Let_def split: option.splits)

lemma task_remove_frame:
  "task_remove t s = Some s' \<Longrightarrow> tqmem.more s' = tqmem.more s \<and> q_name s' = q_name s"
  by (auto simp: task_remove_def unlink_task_def Let_def split: if_splits Option.bind_splits)

section \<open>The task queues as a store of queues\<close>

interpretation tq: fifo_queues tq_inv task_insert "\<lambda>_. task_remove" task_dequeue
proof (unfold_locales, goal_cases)
  case (1 s L q)
  then show ?case by (rule tq_inv_distinct)
next
  case (2 s L x q q')
  then show ?case by (rule tq_inv_disjoint)
next
  case (3 s L x q)
  then show ?case by (rule task_insert_inv)
next
  case (4 s L x q)
  then show ?case by (rule task_remove_inv)
next
  case (5 s L q)
  then show ?case by (rule task_dequeue_empty)
next
  case (6 s L q x xs)
  then show ?case by (rule task_dequeue_inv)
qed

text \<open>
  C4: The task queues are first-in first-out. Inserting tasks that are on no queue never panics,
  and dequeuing afterwards returns the tasks that were waiting before, then the new ones,
  each in order of insertion; all other queues are untouched.
\<close>

theorem task_queue_fifo:
  assumes "tq_inv s L" and "distinct ts" and "\<forall>t \<in> set ts. \<forall>q. t \<notin> set (L q)"
  shows "\<exists>s' s''. iter_opt (task_insert tq) ts s = Some s' \<and>
           drain (task_dequeue tq) (length (L tq) + length ts) s' = (L tq @ ts, s'') \<and>
           tq_inv s'' (L(tq := []))"
  by (rule tq.fifo [OF assms])

definition empty_queues :: tqmem where
  "empty_queues =
     \<lparr>t_next = (\<lambda>_. None), t_prev = (\<lambda>_. None), t_queue = (\<lambda>_. None),
      q_first = (\<lambda>_. None), q_last = (\<lambda>_. None), q_name = (\<lambda>_. [])\<rparr>"

lemma empty_queues_inv: "tq_inv empty_queues (\<lambda>_. [])"
  by (simp add: tq_inv_def empty_queues_def)

theorem task_queue_fifo_witness:
  "\<exists>s' s''. iter_opt (task_insert Pollq) [5, 3, 9] empty_queues = Some s' \<and>
     drain (task_dequeue Pollq) 3 s' = ([5, 3, 9], s'') \<and> tq_inv s'' ((\<lambda>_. [])(Pollq := []))"
  using task_queue_fifo [OF empty_queues_inv, of "[5, 3, 9]" Pollq] by (simp add: numeral_3_eq_3)

text \<open>
  \<^verbatim>\<open>task_remove\<close> takes a task out of the middle of whatever queue it is on and a following
  \<^verbatim>\<open>task_insert\<close> puts it at the tail of another one: both succeed, the order of the other tasks
  is kept, and the queues stay well linked.
\<close>

theorem task_requeue:
  assumes "tq_inv s L" and "t \<in> set (L p)"
  shows "\<exists>s' s''. task_remove t s = Some s' \<and> task_insert q t s' = Some s'' \<and>
           tq_inv s'' ((L(p := remove1 t (L p)))(q := (L(p := remove1 t (L p))) q @ [t]))"
  by (rule tq.move_to_end [OF assms])

theorem task_requeue_witness:
  "\<exists>s0 s' s''. iter_opt (task_insert Pollq) [5, 3, 9] empty_queues = Some s0 \<and>
     task_remove 3 s0 = Some s' \<and> task_insert (Ready 7) 3 s' = Some s'' \<and>
     tq_inv s'' ((\<lambda>_. [])(Pollq := [5, 9], Ready 7 := [3]))"
proof -
  obtain s0 where "iter_opt (task_insert Pollq) [5, 3, 9] empty_queues = Some s0"
      "tq_inv s0 ((\<lambda>_. [])(Pollq := [5, 3, 9]))"
    using tq.append_all [OF empty_queues_inv, of "[5, 3, 9]" Pollq] by auto
  then show ?thesis using task_requeue [of s0 "(\<lambda>_. [])(Pollq := [5, 3, 9])" 3 Pollq "Ready 7"] by simp
qed

end
