(* ===== verification/Task.thy ===== *)
theory Task
  imports Task_Queue
begin

text \<open>
  Tasks (\<^verbatim>\<open>include/kern/task.h\<close>, \<^verbatim>\<open>kern/task.c\<close>): the task structure, the task table, process
  identifiers, suspending and resuming tasks.

  \<open>kstate\<close> collects the global variables of \<^verbatim>\<open>kern/task.c\<close> and \<^verbatim>\<open>kern/sched.c\<close>. The task table
  \<^verbatim>\<open>task[]\<close> maps a slot to the fixed address of its structure or to a null pointer:
  \<open>slot s i\<close> says that \<^verbatim>\<open>task[i]\<close> is not null and \<open>tsk s i\<close> is the structure (without the
  link fields, which \<open>tqmem\<close> holds). Kernel stacks, page directories, FPU state and the
  window system's part of the structure are not modelled; \<^verbatim>\<open>pg_atmem\<close>, which maps the pages
  of a new structure, is the argument \<open>atmem\<close>. Interrupts are disabled in
  the critical sections of these routines, so each runs as one step.
\<close>

section \<open>Constants and structures\<close>

abbreviation (input) TASK_MAX :: nat where "TASK_MAX \<equiv> 64"
abbreviation (input) PID_RESTART :: int where "PID_RESTART \<equiv> 1024"
abbreviation (input) PID_MAX :: int where "PID_MAX \<equiv> 16383"
abbreviation (input) WAIT_NOINTR :: int where "WAIT_NOINTR \<equiv> 1"
abbreviation (input) WAIT_INTR :: int where "WAIT_INTR \<equiv> 2"
abbreviation (input) TASK_PRIO_USER :: int where "TASK_PRIO_USER \<equiv> 32"
abbreviation (input) TASK_PRIO_LOW :: int where "TASK_PRIO_LOW \<equiv> 63"
abbreviation (input) TIME_SLICE :: int where "TIME_SLICE \<equiv> 10"
abbreviation (input) TIME_SLICE_MAX :: int where "TIME_SLICE_MAX \<equiv> 50"
abbreviation (input) SIGMAX :: nat where "SIGMAX \<equiv> 32"
abbreviation (input) SIGKILL :: nat where "SIGKILL \<equiv> 9"
abbreviation (input) SIGSTOP :: nat where "SIGSTOP \<equiv> 10"
abbreviation (input) SIGSEGV :: nat where "SIGSEGV \<equiv> 11"
abbreviation (input) SIGCONT :: nat where "SIGCONT \<equiv> 12"
abbreviation (input) SIGCHLD :: nat where "SIGCHLD \<equiv> 18"
abbreviation (input) SIGEVT :: nat where "SIGEVT \<equiv> 29"
abbreviation (input) SIGEXEC :: nat where "SIGEXEC \<equiv> 30"
abbreviation (input) SIGSTK :: nat where "SIGSTK \<equiv> 31"
abbreviation (input) SIGOOM :: nat where "SIGOOM \<equiv> 32"
abbreviation (input) EVT_MAX :: int where "EVT_MAX \<equiv> 256"

datatype handler = SIG_DFL | SIG_IGN | Handler nat

text \<open>
  \<^verbatim>\<open>struct event\<close>: \<open>ev_u0\<close> is the first word of its union, which holds \<^verbatim>\<open>sig\<close> in a signal
  event and \<^verbatim>\<open>win.type\<close> in a window event; \<open>ev_rest\<close> stands for the other members.
\<close>

record event =
  ev_type :: int
  ev_proc :: handler
  ev_u0 :: int
  ev_more :: int
  ev_rest :: "int list"

record fs_desc =
  fd_file :: "nat option"
  fd_cloexec :: int

record task =
  parent :: tid
  cputime_cnt :: int
  cputime :: int
  euid :: int
  egid :: int
  ruid :: int
  rgid :: int
  pid :: int
  exec_name :: string
  exec_arg :: string
  exec_arg_size :: int
  exec :: bool
  exit_status :: int
  exited :: bool
  time_slice :: int
  priority :: int
  paused :: int
  stopped :: bool
  file_desc :: "nat \<Rightarrow> fs_desc"
  cwd :: string
  tty :: string
  multipoll :: int
  ocwd :: bool
  signal_received :: "nat \<Rightarrow> bool"
  signal_handler :: "nat \<Rightarrow> handler"
  signal_use_event :: "nat \<Rightarrow> bool"
  signal_pending :: bool
  alarm_repeat :: nat
  alarm_ticks :: nat
  alarm :: int
  event :: "nat \<Rightarrow> event"
  unseen_events :: int
  event_count :: int
  event_high :: int
  first_event :: int
  last_event :: int
  pg_count :: nat

record kstate = tqmem +
  slot :: "nat \<Rightarrow> bool"
  tsk :: "tid \<Rightarrow> task"
  curr :: "tid option"
  init :: tid
  task_pcount :: int
  task_count :: int
  resched :: bool
  switch_freq :: int
  switch_cnt :: int
  last_pid :: int

definition zero_event :: event where
  "zero_event = \<lparr>ev_type = 0, ev_proc = SIG_DFL, ev_u0 = 0, ev_more = 0, ev_rest = []\<rparr>"

definition zero_desc :: fs_desc where
  "zero_desc = \<lparr>fd_file = None, fd_cloexec = 0\<rparr>"

text \<open>The structure after \<^verbatim>\<open>memset(ts, 0, sizeof *ts)\<close>. (The null parent pointer is slot 0.)\<close>

definition zero_task :: task where
  "zero_task =
     \<lparr>parent = 0, cputime_cnt = 0, cputime = 0, euid = 0, egid = 0, ruid = 0, rgid = 0, pid = 0,
      exec_name = [], exec_arg = [], exec_arg_size = 0, exec = False, exit_status = 0,
      exited = False, time_slice = 0, priority = 0, paused = 0, stopped = False,
      file_desc = (\<lambda>_. zero_desc), cwd = [], tty = [], multipoll = 0, ocwd = False,
      signal_received = (\<lambda>_. False), signal_handler = (\<lambda>_. SIG_DFL),
      signal_use_event = (\<lambda>_. False), signal_pending = False,
      alarm_repeat = 0, alarm_ticks = 0, alarm = 0, event = (\<lambda>_. zero_event),
      unseen_events = 0, event_count = 0, event_high = 0, first_event = 0, last_event = 0,
      pg_count = 0\<rparr>"

definition upd_task :: "tid \<Rightarrow> (task \<Rightarrow> task) \<Rightarrow> 'z kstate_scheme \<Rightarrow> 'z kstate_scheme" where
  "upd_task t f s = s\<lparr>tsk := (tsk s)(t := f (tsk s t))\<rparr>"

definition rq :: "'z kstate_scheme \<Rightarrow> tid \<Rightarrow> qid" where
  "rq s t = Ready (nat (priority (tsk s t)))"

section \<open>Process identifiers and the task table\<close>

definition pid_used :: "'z kstate_scheme \<Rightarrow> int \<Rightarrow> bool" where
  "pid_used s p = list_ex (\<lambda>i. slot s i \<and> pid (tsk s i) = p) [0..<TASK_MAX]"

definition next_pid :: "int \<Rightarrow> int" where
  "next_pid l = (if l + 1 > PID_MAX then PID_RESTART else l + 1)"

text \<open>The restart loop of \<^verbatim>\<open>newpid\<close>; \<open>None\<close> would be a loop that never ends.\<close>

partial_function (option) newpid_loop :: "(int \<Rightarrow> bool) \<Rightarrow> int \<Rightarrow> int option" where
  "newpid_loop used l =
     (if used (next_pid l) then newpid_loop used (next_pid l) else Some (next_pid l))"

definition newpid :: "'z kstate_scheme \<Rightarrow> (int \<times> 'z kstate_scheme) option" where
  "newpid s = do {
     p \<leftarrow> newpid_loop (pid_used s) (last_pid s);
     Some (p, s\<lparr>last_pid := p\<rparr>)
   }"

definition task_getslot ::
    "(nat \<Rightarrow> errno) \<Rightarrow> 'z kstate_scheme \<Rightarrow> errno \<times> nat option \<times> 'z kstate_scheme" where
  "task_getslot atmem s =
     (case List.find (\<lambda>i. \<not> slot s i) [0..<TASK_MAX] of
        None \<Rightarrow> (EAGAIN, None, s)
      | Some i \<Rightarrow>
          if atmem i \<noteq> EZERO then (atmem i, None, s)
          else (EZERO, Some i,
                (unlink_task i s)\<lparr>tsk := (tsk s)(i := zero_task), slot := (slot s)(i := True)\<rparr>))"

definition task_putslot :: "nat \<Rightarrow> 'z kstate_scheme \<Rightarrow> 'z kstate_scheme" where
  "task_putslot i s = s\<lparr>slot := (slot s)(i := False)\<rparr>"

definition task_find :: "int \<Rightarrow> 'z kstate_scheme \<Rightarrow> errno \<times> tid option" where
  "task_find p s =
     (case List.find (\<lambda>i. slot s i \<and> pid (tsk s i) = p) [0..<TASK_MAX] of
        None \<Rightarrow> (ESRCH, None) | Some i \<Rightarrow> (EZERO, Some i))"

definition task_set_prio :: "int \<Rightarrow> 'z kstate_scheme \<Rightarrow> 'z kstate_scheme option" where
  "task_set_prio prio s =
     (if prio < 0 \<or> prio > TASK_PRIO_LOW then None
      else do { c \<leftarrow> curr s; Some (upd_task c (priority_update (\<lambda>_. prio)) s) })"

text \<open>
  \<^verbatim>\<open>task_init\<close>. The results of \<^verbatim>\<open>pg_adget\<close>, \<^verbatim>\<open>pg_atmem\<close> and \<^verbatim>\<open>pg_newdir\<close> are arguments.
\<close>

definition task_init ::
    "errno \<Rightarrow> (nat \<Rightarrow> errno) \<Rightarrow> errno \<Rightarrow> 'z kstate_scheme \<Rightarrow> 'z kstate_scheme option" where
  "task_init adget atmem newdir s =
     (if adget \<noteq> EZERO then None
      else
        let s1 = fold (\<lambda>i. task_qinit (Ready i) ''ready'') [0..<64] (s\<lparr>slot := (\<lambda>_. False)\<rparr>)
        in case task_getslot atmem s1 of
             (EZERO, Some i, s2) \<Rightarrow> do {
               let s3 = upd_task i (\<lambda>u. u\<lparr>priority := TASK_PRIO_USER, last_event := -1, parent := i\<rparr>)
                          (s2\<lparr>curr := Some i, init := i\<rparr>);
               (p, s4) \<leftarrow> newpid s3;
               let s5 = upd_task i (pid_update (\<lambda>_. p)) s4;
               if newdir \<noteq> EZERO then None
               else Some ((upd_task i (signal_handler_update
                      (\<lambda>_ k. if k = SIGCONT - 1 then SIG_DFL else SIG_IGN)) s5)
                    \<lparr>task_pcount := 0, task_count := 1\<rparr>)
             }
           | _ \<Rightarrow> None)"

section \<open>Resuming a task\<close>

definition resumed :: "task \<Rightarrow> task" where
  "resumed u = u\<lparr>time_slice := TIME_SLICE, paused := 0\<rparr>"

definition check_resched :: "tid \<Rightarrow> 'z kstate_scheme \<Rightarrow> 'z kstate_scheme" where
  "check_resched t s =
     (case curr s of
        None \<Rightarrow> s
      | Some c \<Rightarrow> if priority (tsk s t) < priority (tsk s c) then s\<lparr>resched := True\<rparr> else s)"

definition task_resume :: "tid \<Rightarrow> 'z kstate_scheme \<Rightarrow> 'z kstate_scheme option" where
  "task_resume t s =
     (if exited (tsk s t) then None
      else if paused (tsk s t) \<noteq> 0 then
        let s2 = (upd_task t resumed s)\<lparr>task_pcount := task_pcount s - 1\<rparr>
        in if task_pcount s2 < 0 then None
           else do {
             s4 \<leftarrow> (if t_queue s2 t \<noteq> None then task_remove t s2 else Some s2);
             s5 \<leftarrow> (if curr s4 \<noteq> Some t then task_insert (rq s4 t) t s4 else Some s4);
             Some (check_resched t s5)
           }
      else Some s)"

text \<open>
  \<^verbatim>\<open>while (t = task_dequeue(&tq), t != NULL) task_resume(t);\<close>, the loop with which mutexes,
  message queues, pipes and \<^verbatim>\<open>fs_state\<close> wake every task of a wait queue.
\<close>

partial_function (option) wake_all :: "qid \<Rightarrow> 'z kstate_scheme \<Rightarrow> 'z kstate_scheme option" where
  "wake_all tq s =
     (case task_dequeue tq s of
        (None, s1) \<Rightarrow> Some s1
      | (Some t, s1) \<Rightarrow> Option.bind (task_resume t s1) (wake_all tq))"

section \<open>Fresh process identifiers\<close>

lemma next_pid_iter:
  "0 \<le> l \<Longrightarrow> l \<le> PID_MAX \<Longrightarrow> k \<le> 65 \<Longrightarrow>
   (next_pid ^^ k) l = (if l + int k \<le> PID_MAX then l + int k else l + int k - 15360)"
  by (induction k) (auto simp: next_pid_def)

lemma next_pid_inj:
  assumes "0 \<le> l" and "l \<le> PID_MAX"
  shows "inj_on (\<lambda>k. (next_pid ^^ Suc k) l) {0..<65}"
proof (rule inj_onI)
  fix i j :: nat
  assume "i \<in> {0..<65}" "j \<in> {0..<65}" "(next_pid ^^ Suc i) l = (next_pid ^^ Suc j) l"
  then show "i = j"
    using next_pid_iter [OF assms, of "Suc i"] next_pid_iter [OF assms, of "Suc j"]
    by (auto split: if_splits)
qed

lemma pid_used_card: "finite {p. pid_used s p} \<and> card {p. pid_used s p} \<le> TASK_MAX"
proof -
  have sub: "{p. pid_used s p} \<subseteq> (\<lambda>i. pid (tsk s i)) ` {0..<TASK_MAX}"
    by (auto simp: pid_used_def list_ex_iff)
  have "card {p. pid_used s p} \<le> card ((\<lambda>i. pid (tsk s i)) ` {0..<TASK_MAX})"
    by (rule card_mono [OF _ sub]) simp
  also have "\<dots> \<le> card {0..<TASK_MAX}" by (rule card_image_le) simp
  finally show ?thesis using finite_subset [OF sub] by simp
qed

lemma newpid_loop_reach:
  "\<not> used ((next_pid ^^ Suc k) l) \<Longrightarrow> \<forall>j < k. used ((next_pid ^^ Suc j) l) \<Longrightarrow>
   newpid_loop used l = Some ((next_pid ^^ Suc k) l)"
proof (induction k arbitrary: l)
  case 0
  then show ?case by (simp add: newpid_loop.simps)
next
  case (Suc k)
  have swap: "(next_pid ^^ Suc i) l = (next_pid ^^ i) (next_pid l)" for i
    by (simp only: funpow_Suc_right o_apply)
  have "used ((next_pid ^^ Suc 0) l)" using Suc.prems(2) by blast
  then have used: "used (next_pid l)" by simp
  have "newpid_loop used (next_pid l) = Some ((next_pid ^^ Suc k) (next_pid l))"
  proof (rule Suc.IH)
    show "\<not> used ((next_pid ^^ Suc k) (next_pid l))"
      using Suc.prems(1) by (simp only: swap not_False_eq_True)
    show "\<forall>j < k. used ((next_pid ^^ Suc j) (next_pid l))"
      using Suc.prems(2) by (metis Suc_mono swap)
  qed
  then show ?case using used by (simp only: newpid_loop.simps [of used l] swap if_True)
qed

lemma newpid_loop_total:
  assumes "0 \<le> l" and "l \<le> PID_MAX" and "finite {p. used p}" and "card {p. used p} \<le> TASK_MAX"
  shows "\<exists>p. newpid_loop used l = Some p \<and> \<not> used p \<and> 1 \<le> p \<and> p \<le> PID_MAX"
proof -
  let ?f = "\<lambda>k. (next_pid ^^ Suc k) l"
  have "\<exists>k < 65. \<not> used (?f k)"
  proof (rule ccontr)
    assume "\<not> (\<exists>k < 65. \<not> used (?f k))"
    then have "?f ` {0..<65} \<subseteq> {p. used p}" by auto
    then have "card (?f ` {0..<65}) \<le> card {p. used p}" by (rule card_mono [OF assms(3)])
    with card_image [OF next_pid_inj [OF assms(1,2)]] assms(4) show False by simp
  qed
  then obtain k0 where k0: "k0 < 65" "\<not> used (?f k0)" by blast
  define k where "k = (LEAST k. \<not> used (?f k))"
  have k: "\<not> used (?f k)" "\<forall>j < k. used (?f j)" "k < 65"
  proof -
    show "\<not> used (?f k)" unfolding k_def by (rule LeastI) (rule k0(2))
    show "\<forall>j < k. used (?f j)" unfolding k_def using not_less_Least by blast
    have "k \<le> k0" unfolding k_def by (rule Least_le) (rule k0(2))
    with k0(1) show "k < 65" by simp
  qed
  have "1 \<le> ?f k \<and> ?f k \<le> PID_MAX"
    using next_pid_iter [OF assms(1,2), of "Suc k"] k(3) assms(1,2) by auto
  with newpid_loop_reach [OF k(1,2)] k(1) show ?thesis by blast
qed

lemma newpid_total:
  assumes "0 \<le> last_pid s" and "last_pid s \<le> PID_MAX"
  obtains p where "newpid s = Some (p, s\<lparr>last_pid := p\<rparr>)" and "1 \<le> p" and "p \<le> PID_MAX"
    and "\<And>i. i < TASK_MAX \<Longrightarrow> slot s i \<Longrightarrow> pid (tsk s i) \<noteq> p"
proof -
  obtain p where p: "newpid_loop (pid_used s) (last_pid s) = Some p" "\<not> pid_used s p"
      "1 \<le> p" "p \<le> PID_MAX"
    using newpid_loop_total [OF assms, of "pid_used s"] pid_used_card by blast
  show ?thesis
  proof (rule that [OF _ p(3,4)])
    show "newpid s = Some (p, s\<lparr>last_pid := p\<rparr>)" unfolding newpid_def p(1) by simp
    show "pid (tsk s i) \<noteq> p" if "i < TASK_MAX" "slot s i" for i
      using p(2) that by (auto simp: pid_used_def list_ex_iff)
  qed
qed

section \<open>The task table\<close>

text \<open>The tasks that exist and have not exited, and those of them that sleep.\<close>

definition alive :: "'z kstate_scheme \<Rightarrow> tid set" where
  "alive s = {t. t < TASK_MAX \<and> slot s t \<and> \<not> exited (tsk s t)}"

definition sleeping :: "'z kstate_scheme \<Rightarrow> tid set" where
  "sleeping s = {t \<in> alive s. paused (tsk s t) \<noteq> 0}"

lemma finite_alive [simp]: "finite (alive s)"
  by (simp add: alive_def)

lemma finite_sleeping [simp]: "finite (sleeping s)"
  by (simp add: sleeping_def)

text \<open>
  The invariant of the scheduler's data. The two counters count the live tasks and the
  sleeping ones; a ready queue holds only live tasks that are not paused, a wait queue
  only live tasks that are; and every live task that is neither paused
  nor running is on a ready queue, so that it will be scheduled.
\<close>

definition kcore :: "'z kstate_scheme \<Rightarrow> (qid \<Rightarrow> tid list) \<Rightarrow> bool" where
  "kcore s L \<longleftrightarrow>
     task_count s = int (card (alive s)) \<and>
     task_pcount s = int (card (sleeping s)) \<and>
     (\<forall>q t. t \<in> set (L q) \<longrightarrow> t \<in> alive s) \<and>
     (\<forall>i t. t \<in> set (L (Ready i)) \<longrightarrow> i < 64 \<and> paused (tsk s t) = 0) \<and>
     (\<forall>q t. t \<in> set (L q) \<longrightarrow> \<not> is_ready q \<longrightarrow> paused (tsk s t) \<noteq> 0) \<and>
     (\<forall>t \<in> alive s. paused (tsk s t) = 0 \<longrightarrow> curr s \<noteq> Some t \<longrightarrow> (\<exists>i. t \<in> set (L (Ready i)))) \<and>
     (\<forall>t \<in> alive s. 0 \<le> priority (tsk s t) \<and> priority (tsk s t) \<le> TASK_PRIO_LOW)"

definition kinv :: "'z kstate_scheme \<Rightarrow> (qid \<Rightarrow> tid list) \<Rightarrow> bool" where
  "kinv s L \<longleftrightarrow> tq_inv s L \<and> kcore s L"

text \<open>A task is running: \<^verbatim>\<open>curr\<close> is live, not paused and on no queue.\<close>

definition running :: "'z kstate_scheme \<Rightarrow> (qid \<Rightarrow> tid list) \<Rightarrow> bool" where
  "running s L \<longleftrightarrow>
     (case curr s of None \<Rightarrow> False
      | Some c \<Rightarrow> c \<in> alive s \<and> paused (tsk s c) = 0 \<and> (\<forall>q. c \<notin> set (L q)))"

lemma tq_inv_cong:
  "t_next s' = t_next s \<Longrightarrow> t_prev s' = t_prev s \<Longrightarrow> t_queue s' = t_queue s \<Longrightarrow>
   q_first s' = q_first s \<Longrightarrow> q_last s' = q_last s \<Longrightarrow> tq_inv s' L = tq_inv s L"
  by (simp add: tq_inv_def)

lemma alive_cong: "slot s' = slot s \<Longrightarrow> tsk s' = tsk s \<Longrightarrow> alive s' = alive s"
  by (simp add: alive_def)

lemma sleeping_cong: "slot s' = slot s \<Longrightarrow> tsk s' = tsk s \<Longrightarrow> sleeping s' = sleeping s"
  by (simp add: sleeping_def alive_def)

text \<open>The fields of the kernel state that the queue operations do not touch.\<close>

definition same_tasks :: "'z kstate_scheme \<Rightarrow> 'z kstate_scheme \<Rightarrow> bool" where
  "same_tasks s s' \<longleftrightarrow> tqmem.more s' = tqmem.more s \<and> q_name s' = q_name s"

lemma same_tasks_fields:
  assumes "same_tasks s s'"
  shows "slot s' = slot s" "tsk s' = tsk s" "curr s' = curr s" "init s' = init s"
    "task_pcount s' = task_pcount s" "task_count s' = task_count s" "resched s' = resched s"
    "switch_freq s' = switch_freq s" "switch_cnt s' = switch_cnt s" "last_pid s' = last_pid s"
    "q_name s' = q_name s" "kstate.more s' = kstate.more s"
  using assms by (cases s; cases s'; simp add: same_tasks_def)+

lemma same_tasks_refl [simp]: "same_tasks s s"
  by (simp add: same_tasks_def)

lemma same_tasks_trans: "same_tasks s t \<Longrightarrow> same_tasks t u \<Longrightarrow> same_tasks s u"
  by (simp add: same_tasks_def)

lemma kcore_same_tasks:
  assumes "same_tasks s s'"
  shows "kcore s' L = kcore s L"
  using same_tasks_fields [OF assms] alive_cong [of s' s] sleeping_cong [of s' s]
  by (simp add: kcore_def)

lemma kcore_counts:
  "kcore s L \<Longrightarrow> task_count s = int (card (alive s)) \<and> task_pcount s = int (card (sleeping s))"
  by (simp add: kcore_def)

lemma kcore_queued_alive: "kcore s L \<Longrightarrow> t \<in> set (L q) \<Longrightarrow> t \<in> alive s"
  by (auto simp: kcore_def)

lemma kcore_ready: "kcore s L \<Longrightarrow> t \<in> set (L (Ready i)) \<Longrightarrow> i < 64 \<and> paused (tsk s t) = 0"
  by (auto simp: kcore_def)

lemma kcore_waiting: "kcore s L \<Longrightarrow> t \<in> set (L q) \<Longrightarrow> \<not> is_ready q \<Longrightarrow> paused (tsk s t) \<noteq> 0"
  by (auto simp: kcore_def)

lemma kcore_runnable:
  "kcore s L \<Longrightarrow> t \<in> alive s \<Longrightarrow> paused (tsk s t) = 0 \<Longrightarrow> curr s \<noteq> Some t \<Longrightarrow>
   \<exists>i. t \<in> set (L (Ready i))"
  by (auto simp: kcore_def)

lemma kcore_priority:
  "kcore s L \<Longrightarrow> t \<in> alive s \<Longrightarrow> 0 \<le> priority (tsk s t) \<and> priority (tsk s t) \<le> TASK_PRIO_LOW"
  by (auto simp: kcore_def)

lemmas kcore_facts = kcore_counts kcore_queued_alive kcore_ready kcore_waiting kcore_runnable
  kcore_priority

lemma kcoreI:
  assumes "task_count s = int (card (alive s))" and "task_pcount s = int (card (sleeping s))"
    and "\<And>q t. t \<in> set (L q) \<Longrightarrow> t \<in> alive s"
    and "\<And>i t. t \<in> set (L (Ready i)) \<Longrightarrow> i < 64 \<and> paused (tsk s t) = 0"
    and "\<And>q t. t \<in> set (L q) \<Longrightarrow> \<not> is_ready q \<Longrightarrow> paused (tsk s t) \<noteq> 0"
    and "\<And>t. t \<in> alive s \<Longrightarrow> paused (tsk s t) = 0 \<Longrightarrow> curr s \<noteq> Some t \<Longrightarrow> \<exists>i. t \<in> set (L (Ready i))"
    and "\<And>t. t \<in> alive s \<Longrightarrow> 0 \<le> priority (tsk s t) \<and> priority (tsk s t) \<le> TASK_PRIO_LOW"
  shows "kcore s L"
  using assms by (simp add: kcore_def)

text \<open>
  Taking a task off whatever queue it is on, and putting it on a queue: the operations as
  they act on all queues at once.
\<close>

lemma remove_if_queued:
  assumes "tq_inv s L"
  shows "\<exists>s'. (if t_queue s t \<noteq> None then task_remove t s else Some s) = Some s' \<and>
           tq_inv s' (\<lambda>q. remove1 t (L q)) \<and> same_tasks s s'"
proof (cases "t_queue s t")
  case None
  then have "(\<lambda>q. remove1 t (L q)) = L"
    using assms by (auto simp: tq_inv_noqueue remove1_idem)
  with None assms show ?thesis by simp
next
  case (Some q)
  then have q: "t \<in> set (L q)" using assms by (simp add: tq_inv_queue)
  obtain s' where s': "task_remove t s = Some s'" "tq_inv s' (L(q := remove1 t (L q)))"
    using task_remove_inv [OF assms q] by blast
  have "L(q := remove1 t (L q)) = (\<lambda>q. remove1 t (L q))"
  proof
    fix q'
    have "t \<notin> set (L q')" if "q' \<noteq> q" using that q tq_inv_disjoint [OF assms q, of q'] by auto
    then show "(L(q := remove1 t (L q))) q' = remove1 t (L q')" by (simp add: remove1_idem)
  qed
  with s' Some task_remove_frame [OF s'(1)] show ?thesis by (simp add: same_tasks_def)
qed

lemma not_in_remove1: "tq_inv s L \<Longrightarrow> t \<notin> set (remove1 t (L q))"
  using tq_inv_distinct [of s L q] by (simp add: set_remove1_eq)

section \<open>Resuming keeps the invariant\<close>

definition resume_queues :: "'z kstate_scheme \<Rightarrow> tid \<Rightarrow> (qid \<Rightarrow> tid list) \<Rightarrow> qid \<Rightarrow> tid list" where
  "resume_queues s t L =
     (let L1 = (\<lambda>q. remove1 t (L q))
      in if curr s = Some t then L1 else L1(rq s t := L1 (rq s t) @ [t]))"

lemma kcore_resume:
  assumes "kcore s L" and "t \<in> sleeping s" and "tq_inv s L"
    and s': "tsk s' = (tsk s)(t := resumed (tsk s t))" "slot s' = slot s" "curr s' = curr s"
      "task_count s' = task_count s" "task_pcount s' = task_pcount s - 1"
  shows "kcore s' (resume_queues s t L)"
proof -
  have t: "t \<in> alive s" "paused (tsk s t) \<noteq> 0" using assms(2) by (auto simp: sleeping_def)
  have al: "alive s' = alive s" using t s' by (auto simp: alive_def resumed_def)
  have sl: "sleeping s' = sleeping s - {t}"
    using s' by (auto simp: sleeping_def al resumed_def)
  have pc: "task_pcount s' = int (card (sleeping s'))"
  proof -
    have "Suc (card (sleeping s - {t})) = card (sleeping s)"
      using assms(2) by (simp only: card_Suc_Diff1 finite_sleeping)
    then show ?thesis using kcore_counts [OF assms(1)] s'(5) sl by simp
  qed
  have nr: "t \<notin> set (L (Ready i))" for i
    using kcore_ready [OF assms(1)] t(2) by blast
  have pr: "0 \<le> priority (tsk s t)" "priority (tsk s t) \<le> TASK_PRIO_LOW"
    using kcore_priority [OF assms(1) t(1)] by auto
  have mem: "x \<in> set (resume_queues s t L q) \<longleftrightarrow>
      x \<in> set (L q) \<and> x \<noteq> t \<or> x = t \<and> curr s \<noteq> Some t \<and> q = rq s t" for x q
    by (auto simp: resume_queues_def Let_def set_remove1_distinct [OF tq_inv_distinct [OF assms(3)]])
  show ?thesis
  proof (rule kcoreI)
    show "task_count s' = int (card (alive s'))" using kcore_counts [OF assms(1)] s' al by simp
    show "task_pcount s' = int (card (sleeping s'))" by (rule pc)
  next
    fix q x assume x: "x \<in> set (resume_queues s t L q)"
    then show "x \<in> alive s'" using kcore_queued_alive [OF assms(1)] t al by (auto simp: mem)
    show "paused (tsk s' x) \<noteq> 0" if "\<not> is_ready q"
      using x that kcore_waiting [OF assms(1)] s'(1) by (auto simp: mem rq_def)
  next
    fix i x assume "x \<in> set (resume_queues s t L (Ready i))"
    then show "i < 64 \<and> paused (tsk s' x) = 0"
      using kcore_ready [OF assms(1)] pr s'(1) by (auto simp: mem rq_def resumed_def)
  next
    fix x assume x: "x \<in> alive s'"
    show "\<exists>i. x \<in> set (resume_queues s t L (Ready i))"
      if "paused (tsk s' x) = 0" "curr s' \<noteq> Some x"
      using x that kcore_runnable [OF assms(1), of x] s' al
      by (cases "x = t") (auto simp: mem rq_def)
    show "0 \<le> priority (tsk s' x) \<and> priority (tsk s' x) \<le> TASK_PRIO_LOW"
      using x kcore_priority [OF assms(1), of x] s' al by (auto simp: resumed_def)
  qed
qed

lemma task_resume_awake: "t \<in> alive s \<Longrightarrow> paused (tsk s t) = 0 \<Longrightarrow> task_resume t s = Some s"
  by (simp add: task_resume_def alive_def)

lemma task_resume_kinv:
  assumes "kinv s L" and "t \<in> sleeping s"
  shows "\<exists>s'. task_resume t s = Some s' \<and> kinv s' (resume_queues s t L) \<and>
           tsk s' = (tsk s)(t := resumed (tsk s t)) \<and> slot s' = slot s \<and> curr s' = curr s \<and>
           init s' = init s \<and> last_pid s' = last_pid s \<and>
           resched s' = (resched s \<or> (\<exists>c. curr s = Some c \<and> priority (tsk s t) < priority (tsk s c)))"
proof -
  have tq: "tq_inv s L" and kc: "kcore s L" using assms(1) by (auto simp: kinv_def)
  have t: "t \<in> alive s" "paused (tsk s t) \<noteq> 0" using assms(2) by (auto simp: sleeping_def)
  define s2 where "s2 = (upd_task t resumed s)\<lparr>task_pcount := task_pcount s - 1\<rparr>"
  have s2: "tsk s2 = (tsk s)(t := resumed (tsk s t))" "slot s2 = slot s" "curr s2 = curr s"
      "task_count s2 = task_count s" "task_pcount s2 = task_pcount s - 1" "init s2 = init s"
      "last_pid s2 = last_pid s" "resched s2 = resched s"
    by (simp_all add: s2_def upd_task_def)
  have tq2: "tq_inv s2 L" using tq by (simp add: s2_def upd_task_def cong: tq_inv_cong)
  obtain s4 where s4: "(if t_queue s2 t \<noteq> None then task_remove t s2 else Some s2) = Some s4"
      "tq_inv s4 (\<lambda>q. remove1 t (L q))" "same_tasks s2 s4"
    using remove_if_queued [OF tq2] by blast
  note f4 = same_tasks_fields [OF s4(3)]
  have "rq s4 t = rq s t" using f4 s2 by (simp add: rq_def resumed_def)
  moreover have nin: "\<And>q. t \<notin> set ((\<lambda>q. remove1 t (L q)) q)"
    using not_in_remove1 [OF tq] by simp
  ultimately have "\<exists>s5. (if curr s4 \<noteq> Some t then task_insert (rq s4 t) t s4 else Some s4) = Some s5 \<and>
      tq_inv s5 (resume_queues s t L) \<and> same_tasks s4 s5"
    using task_insert_inv [OF s4(2) nin, of "rq s4 t"] s4(2) f4 s2
      task_insert_frame [of "rq s4 t" t s4]
    by (auto simp: resume_queues_def Let_def same_tasks_def)
  then obtain s5 where s5: "(if curr s4 \<noteq> Some t then task_insert (rq s4 t) t s4 else Some s4) = Some s5"
      "tq_inv s5 (resume_queues s t L)" "same_tasks s4 s5" by blast
  note f5 = same_tasks_fields [OF s5(3)]
  have "kcore s2 (resume_queues s t L)" by (rule kcore_resume [OF kc assms(2) tq s2(1-5)])
  then have kc5: "kcore s5 (resume_queues s t L)"
    using kcore_same_tasks [OF same_tasks_trans [OF s4(3) s5(3)]] by blast
  define s6 where "s6 = check_resched t s5"
  have s6: "kinv s6 (resume_queues s t L)"
    using s5(2) kc5
    by (auto simp: s6_def check_resched_def kinv_def kcore_def alive_def sleeping_def
        cong: tq_inv_cong split: option.splits)
  have pc: "\<not> task_pcount s2 < 0"
    using kcore_counts [OF kc] assms(2) s2 by (cases "card (sleeping s)") auto
  have "task_resume t s = Some s6"
    using t pc s4(1) s5(1)
    by (simp add: task_resume_def alive_def s2_def [symmetric] s6_def Let_def del: not_None_eq)
  moreover have "tsk s6 = (tsk s)(t := resumed (tsk s t)) \<and> slot s6 = slot s \<and> curr s6 = curr s \<and>
      init s6 = init s \<and> last_pid s6 = last_pid s \<and>
      resched s6 = (resched s \<or> (\<exists>c. curr s = Some c \<and> priority (tsk s t) < priority (tsk s c)))"
    using f4 f5 s2 by (auto simp: s6_def check_resched_def resumed_def split: option.splits)
  ultimately show ?thesis using s6 by blast
qed

text \<open>
  Waking a wait queue empties it: each of its tasks leaves in order and goes to the tail of
  the ready queue of its priority.
\<close>

lemma task_resume_waiting:
  assumes "kinv s L" and "L tq = t # ts" and "\<not> is_ready tq"
  shows "\<exists>s1 s2. task_dequeue tq s = (Some t, s1) \<and> task_resume t s1 = Some s2 \<and>
           kinv s2 (resume_queues s t L) \<and> resume_queues s t L tq = ts \<and>
           tsk s2 = (tsk s)(t := resumed (tsk s t)) \<and> slot s2 = slot s \<and> curr s2 = curr s"
proof -
  have tq: "tq_inv s L" and kc: "kcore s L" using assms(1) by (auto simp: kinv_def)
  obtain s1 where s1: "task_dequeue tq s = (Some t, s1)" "tq_inv s1 (L(tq := ts))"
    using task_dequeue_inv [OF tq assms(2)] by blast
  have st: "same_tasks s s1" using task_dequeue_frame [OF s1(1)] by (simp add: same_tasks_def)
  note f = same_tasks_fields [OF st]
  have d: "distinct (t # ts)" using tq_inv_distinct [OF tq, of tq] assms(2) by simp
  have nt: "t \<notin> set (L q)" if "q \<noteq> tq" for q
    using that tq_inv_disjoint [OF tq, of t tq q] assms(2) by auto
  have L1: "L(tq := ts) = (\<lambda>q. remove1 t (L q))"
    using assms(2) nt by (auto simp: fun_eq_iff remove1_idem)
  have "kcore s1 (L(tq := ts))"
  proof -
    have "kcore s (L(tq := ts))"
    proof (rule kcoreI)
      show "\<exists>i. x \<in> set ((L(tq := ts)) (Ready i))"
        if "x \<in> alive s" "paused (tsk s x) = 0" "curr s \<noteq> Some x" for x
        using kcore_runnable [OF kc that] assms(3) by fastforce
    next
      fix q x assume "x \<in> set ((L(tq := ts)) q)"
      then have "x \<in> set (L q)" using assms(2) by (auto split: if_splits)
      then show "x \<in> alive s" "\<not> is_ready q \<Longrightarrow> paused (tsk s x) \<noteq> 0"
        using kcore_queued_alive [OF kc] kcore_waiting [OF kc] by blast+
    next
      fix i x assume "x \<in> set ((L(tq := ts)) (Ready i))"
      then have "x \<in> set (L (Ready i))" using assms(3) by (auto split: if_splits)
      then show "i < 64 \<and> paused (tsk s x) = 0" by (rule kcore_ready [OF kc])
    qed (use kcore_counts [OF kc] kcore_priority [OF kc] in auto)
    then show ?thesis using kcore_same_tasks [OF st] by blast
  qed
  then have k1: "kinv s1 (L(tq := ts))" using s1(2) by (simp add: kinv_def)
  have sl: "t \<in> sleeping s1"
    using kcore_queued_alive [OF kc, of t tq] kcore_waiting [OF kc, of t tq] assms(2,3) f
    by (auto simp: sleeping_def alive_def)
  have "resume_queues s1 t (L(tq := ts)) = resume_queues s t L"
    using f d nt by (auto simp: resume_queues_def Let_def L1 rq_def fun_eq_iff)
       (metis L1 distinct.simps(2) fun_upd_apply remove1_idem)+
  moreover have "resume_queues s t L tq = ts"
    using assms(2,3) by (auto simp: resume_queues_def Let_def rq_def)
  ultimately show ?thesis
    using task_resume_kinv [OF k1 sl] s1(1) f by auto
qed

lemma resume_queues_cong:
  "curr s' = curr s \<Longrightarrow> priority (tsk s' t) = priority (tsk s t) \<Longrightarrow>
   resume_queues s' t L = resume_queues s t L"
  by (simp add: resume_queues_def rq_def Let_def)

lemma paused_resumed [simp]: "paused (resumed u) = 0"
  by (simp add: resumed_def)

lemma priority_resumed [simp]: "priority (resumed u) = priority u"
  by (simp add: resumed_def)

lemma wake_all_kinv:
  assumes "kinv s L" and "\<not> is_ready tq"
  shows "\<exists>s'. wake_all tq s = Some s' \<and> kinv s' (fold (resume_queues s) (L tq) L) \<and>
           fold (resume_queues s) (L tq) L tq = [] \<and>
           tsk s' = (\<lambda>x. if x \<in> set (L tq) then resumed (tsk s x) else tsk s x) \<and>
           slot s' = slot s \<and> curr s' = curr s"
  using assms(1)
proof (induction "L tq" arbitrary: s L)
  case Nil
  then have "task_dequeue tq s = (None, s)"
    using task_dequeue_empty [of s L tq] by (simp add: kinv_def)
  with Nil show ?case by (auto simp: wake_all.simps [of tq s])
next
  case (Cons t ts)
  obtain s1 s2 where s2: "task_dequeue tq s = (Some t, s1)" "task_resume t s1 = Some s2"
      "kinv s2 (resume_queues s t L)" "resume_queues s t L tq = ts"
      "tsk s2 = (tsk s)(t := resumed (tsk s t))" "slot s2 = slot s" "curr s2 = curr s"
    using task_resume_waiting [OF Cons.prems Cons.hyps(2) [symmetric] assms(2)] by blast
  have step: "wake_all tq s = wake_all tq s2"
    by (simp add: wake_all.simps [of tq s] s2)
  have pr: "priority (tsk s2 x) = priority (tsk s x)" for x by (simp add: s2(5))
  have cong: "resume_queues s2 = resume_queues s"
    using resume_queues_cong [OF s2(7) pr] by (simp add: fun_eq_iff)
  have rr: "resumed (resumed u) = resumed u" for u by (simp add: resumed_def)
  obtain s' where "wake_all tq s2 = Some s'"
      "kinv s' (fold (resume_queues s2) ts (resume_queues s t L))"
      "fold (resume_queues s2) ts (resume_queues s t L) tq = []"
      "tsk s' = (\<lambda>x. if x \<in> set ts then resumed (tsk s2 x) else tsk s2 x)"
      "slot s' = slot s2" "curr s' = curr s2"
    using Cons.hyps(1) [OF s2(4) [symmetric] s2(3)] s2(4) by auto
  then show ?case
    using Cons.hyps(2) [symmetric] s2 step cong rr by auto
qed

section \<open>The state after booting\<close>

text \<open>Static storage before \<^verbatim>\<open>task_init\<close>: every pointer null, every counter 0.\<close>

definition zero_state :: kstate where
  "zero_state =
     \<lparr>t_next = (\<lambda>_. None), t_prev = (\<lambda>_. None), t_queue = (\<lambda>_. None),
      q_first = (\<lambda>_. None), q_last = (\<lambda>_. None), q_name = (\<lambda>_. []),
      slot = (\<lambda>_. False), tsk = (\<lambda>_. zero_task), curr = None, init = 0,
      task_pcount = 0, task_count = 0, resched = False, switch_freq = 0, switch_cnt = 0, last_pid = 0\<rparr>"

definition boot_task :: task where
  "boot_task = zero_task\<lparr>priority := TASK_PRIO_USER, last_event := -1, pid := 1,
     signal_handler := (\<lambda>k. if k = SIGCONT - 1 then SIG_DFL else SIG_IGN)\<rparr>"

definition boot_state :: kstate where
  "boot_state = zero_state\<lparr>q_name := (\<lambda>q. case q of Ready i \<Rightarrow> if i < 64 then ''ready'' else [] | _ \<Rightarrow> []),
     slot := (\<lambda>i. i = 0), tsk := (\<lambda>_. zero_task)(0 := boot_task), curr := Some 0,
     task_count := 1, last_pid := 1\<rparr>"

lemma fold_qinit:
  "fold (\<lambda>i. task_qinit (Ready i) nm) is s =
     s\<lparr>q_first := (\<lambda>q. if q \<in> Ready ` set is then None else q_first s q),
       q_last := (\<lambda>q. if q \<in> Ready ` set is then None else q_last s q),
       q_name := (\<lambda>q. if q \<in> Ready ` set is then nm else q_name s q)\<rparr>"
  by (induction "is" arbitrary: s) (auto simp: task_qinit_def fun_eq_iff)

lemma boot_alive: "alive boot_state = {0}"
  by (auto simp: alive_def boot_state_def zero_state_def boot_task_def zero_task_def)

lemma task_init_boot: "task_init EZERO (\<lambda>_. EZERO) EZERO zero_state = Some boot_state"
proof -
  let ?s1 = "fold (\<lambda>i. task_qinit (Ready i) ''ready'') [0..<64] (zero_state\<lparr>slot := (\<lambda>_. False)\<rparr>)"
  let ?s2 = "?s1\<lparr>slot := (\<lambda>i. i = 0)\<rparr>"
  have f: "List.find (\<lambda>i. \<not> slot ?s1 i) [0..<TASK_MAX] = Some 0"
    by (simp add: find_upt_Some_iff fold_qinit)
  have g: "task_getslot (\<lambda>_. EZERO) ?s1 = (EZERO, Some 0, ?s2)"
    unfolding task_getslot_def f by (auto simp: fold_qinit unlink_task_def zero_state_def fun_eq_iff)
  let ?s3 = "upd_task 0 (\<lambda>u. u\<lparr>priority := TASK_PRIO_USER, last_event := -1, parent := 0\<rparr>)
               (?s2\<lparr>curr := Some 0, init := 0\<rparr>)"
  have "\<not> pid_used ?s3 1"
    by (simp add: pid_used_def list_ex_iff upd_task_def fold_qinit zero_state_def zero_task_def)
  then have "newpid ?s3 = Some (1, ?s3\<lparr>last_pid := 1\<rparr>)"
    by (simp add: newpid_def newpid_loop.simps next_pid_def upd_task_def fold_qinit zero_state_def)
  then show ?thesis
    unfolding task_init_def g Let_def
    by (auto simp: boot_state_def boot_task_def upd_task_def fold_qinit zero_state_def zero_task_def
          fun_eq_iff image_iff split: qid.splits)
qed

lemma boot_kinv: "kinv boot_state (\<lambda>_. [])" "running boot_state (\<lambda>_. [])"
proof -
  note al = boot_alive
  have sl: "sleeping boot_state = {}"
    unfolding sleeping_def al by (simp add: boot_state_def boot_task_def zero_task_def)
  show "kinv boot_state (\<lambda>_. [])"
    unfolding kinv_def kcore_def al sl
    by (auto simp: tq_inv_def boot_state_def zero_state_def boot_task_def zero_task_def)
  show "running boot_state (\<lambda>_. [])"
    unfolding running_def al by (simp add: boot_state_def boot_task_def zero_task_def)
qed

text \<open>
  Booting: on zeroed static storage and with memory available, \<^verbatim>\<open>task_init\<close> does not panic
  and leaves the init process, pid 1, running alone in a state that satisfies the invariant
  of the scheduler's data.
\<close>

theorem task_init_boots:
  "\<exists>s. task_init EZERO (\<lambda>_. EZERO) EZERO zero_state = Some s \<and> kinv s (\<lambda>_. []) \<and>
     running s (\<lambda>_. []) \<and> curr s = Some 0 \<and> pid (tsk s 0) = 1 \<and> alive s = {0}"
  using task_init_boot boot_kinv boot_alive by (auto simp: boot_state_def boot_task_def)

text \<open>
  \<^verbatim>\<open>newpid\<close> terminates for every task table, wraps around at \<^verbatim>\<open>PID_MAX\<close>, and returns a process
  identifier in range that no slot of the table uses (not even a zombie's).
\<close>

theorem newpid_fresh:
  assumes "0 \<le> last_pid s" and "last_pid s \<le> PID_MAX"
  shows "\<exists>p. newpid s = Some (p, s\<lparr>last_pid := p\<rparr>) \<and> 1 \<le> p \<and> p \<le> PID_MAX \<and> \<not> pid_used s p"
proof -
  obtain p where "newpid s = Some (p, s\<lparr>last_pid := p\<rparr>)" "1 \<le> p" "p \<le> PID_MAX"
      "\<And>i. i < TASK_MAX \<Longrightarrow> slot s i \<Longrightarrow> pid (tsk s i) \<noteq> p"
    using newpid_total [OF assms] by blast
  then show ?thesis by (auto simp: pid_used_def list_ex_iff)
qed

theorem newpid_fresh_witness:
  "\<exists>p. newpid (boot_state\<lparr>last_pid := PID_MAX\<rparr>) = Some (p, boot_state\<lparr>last_pid := p\<rparr>) \<and>
     1 \<le> p \<and> p \<le> PID_MAX \<and> \<not> pid_used (boot_state\<lparr>last_pid := PID_MAX\<rparr>) p"
  using newpid_fresh [of "boot_state\<lparr>last_pid := PID_MAX\<rparr>"] by simp

text \<open>
  A state with three tasks: 0 runs, 1 is ready, 2 sleeps on the wait queue \<open>Waitq 0\<close> and
  has a better priority than the other two.
\<close>

definition example_state :: kstate where
  "example_state = boot_state\<lparr>
     t_queue := (\<lambda>_. None)(1 := Some (Ready 32), 2 := Some (Waitq 0)),
     q_first := (\<lambda>_. None)(Ready 32 := Some 1, Waitq 0 := Some 2),
     q_last := (\<lambda>_. None)(Ready 32 := Some 1, Waitq 0 := Some 2),
     slot := (\<lambda>i. i < 3),
     tsk := (\<lambda>_. zero_task)(0 := boot_task, 1 := boot_task\<lparr>pid := 2\<rparr>,
              2 := boot_task\<lparr>pid := 3, priority := 10, paused := WAIT_INTR\<rparr>),
     task_count := 3, task_pcount := 1, last_pid := 3\<rparr>"

abbreviation example_queues :: "qid \<Rightarrow> tid list" where
  "example_queues \<equiv> (\<lambda>_. [])(Ready 32 := [1], Waitq 0 := [2])"

lemmas example_defs = example_state_def boot_state_def zero_state_def boot_task_def zero_task_def

lemma example_alive: "alive example_state = {0, 1, 2}"
  by (auto simp: alive_def example_defs)

lemma example_sleeping: "sleeping example_state = {2}"
  unfolding sleeping_def example_alive by (auto simp: example_defs)

lemma example_curr: "curr example_state = Some 0"
  by (simp add: example_defs)

lemma example_kinv: "kinv example_state example_queues"
  unfolding kinv_def kcore_def example_alive example_sleeping
  by (auto simp: tq_inv_def example_defs)

lemma example_running: "running example_state example_queues"
  unfolding running_def example_alive by (auto simp: example_defs)

text \<open>
  C3: Waking a wait queue (the loop with which mutexes, pipes and message queues release their
  waiters) terminates without a panic, empties the queue, clears \<^verbatim>\<open>paused\<close> of exactly the
  tasks that waited there, puts each of them on a ready queue, and keeps the invariant.
\<close>

theorem wake_all_wakes:
  assumes "kinv s L" and "\<not> is_ready tq"
  shows "\<exists>s' L'. wake_all tq s = Some s' \<and> kinv s' L' \<and> L' tq = [] \<and> curr s' = curr s \<and>
           (\<forall>t. tsk s' t = (if t \<in> set (L tq) then resumed (tsk s t) else tsk s t)) \<and>
           (\<forall>t. t \<in> set (L tq) \<longrightarrow> curr s \<noteq> Some t \<longrightarrow> (\<exists>i. t \<in> set (L' (Ready i))))"
proof -
  define L' where "L' = fold (resume_queues s) (L tq) L"
  obtain s' where s': "wake_all tq s = Some s'" "kinv s' L'" "L' tq = []"
      "tsk s' = (\<lambda>x. if x \<in> set (L tq) then resumed (tsk s x) else tsk s x)"
      "slot s' = slot s" "curr s' = curr s"
    using wake_all_kinv [OF assms] unfolding L'_def by blast
  have "\<exists>i. t \<in> set (L' (Ready i))" if t: "t \<in> set (L tq)" "curr s \<noteq> Some t" for t
  proof (rule kcore_runnable)
    show "kcore s' L'" using s'(2) by (simp add: kinv_def)
    have "t \<in> alive s" using kcore_queued_alive t(1) assms(1) by (auto simp: kinv_def)
    then show "t \<in> alive s'" using t(1) s'(4,5) by (auto simp: alive_def resumed_def)
    show "paused (tsk s' t) = 0" using t(1) s'(4) by (simp add: resumed_def)
    show "curr s' \<noteq> Some t" using t(2) s'(6) by simp
  qed
  then show ?thesis using s' by auto
qed

theorem wake_all_wakes_witness:
  "\<exists>s' L'. wake_all (Waitq 0) example_state = Some s' \<and> kinv s' L' \<and> L' (Waitq 0) = [] \<and>
     paused (tsk s' 2) = 0 \<and> (\<exists>i. 2 \<in> set (L' (Ready i)))"
  using wake_all_wakes [OF example_kinv, of "Waitq 0"]
  by (simp add: example_curr) (metis (no_types) paused_resumed)

end
