(* ===== verification/Sched.thy ===== *)
theory Sched
  imports Task
begin

text \<open>
  The scheduler (\<^verbatim>\<open>kern/sched.c\<close>) and \<^verbatim>\<open>task_suspend\<close> (\<^verbatim>\<open>kern/task.c\<close>).

  \<^verbatim>\<open>sched\<close> switches kernel stacks, so the routine that calls it continues only when its
  task is chosen again. The model follows the processor: \<open>sched s\<close> is the state
  in which the processor leaves \<^verbatim>\<open>sched\<close>, with \<open>curr\<close> the task that runs. When every
  task sleeps the processor waits for an interrupt (\<^verbatim>\<open>hlt\<close>) with \<^verbatim>\<open>curr\<close> null; this is the
  outcome \<open>Halted\<close>, and \<open>sched_resume\<close> is the rest of the routine, which runs once an
  interrupt has resumed a task. Page directories, FPU state and the stack switch
  itself are not modelled.
\<close>

datatype outcome = Halted | Running

text \<open>The loop over the ready queues, from the highest priority (0) to the lowest.\<close>

fun dequeue_first :: "nat list \<Rightarrow> 'z kstate_scheme \<Rightarrow> tid option \<times> 'z kstate_scheme" where
  "dequeue_first [] s = (None, s)"
| "dequeue_first (i # is) s =
     (case task_dequeue (Ready i) s of
        (Some t, s1) \<Rightarrow> (Some t, s1)
      | (None, s1) \<Rightarrow> dequeue_first is s1)"

definition add_slice :: "int \<Rightarrow> int" where
  "add_slice ts = (if ts + TIME_SLICE > TIME_SLICE_MAX then TIME_SLICE_MAX else ts + TIME_SLICE)"

partial_function (option) sched_pick :: "'z kstate_scheme \<Rightarrow> (tid \<times> 'z kstate_scheme) option" where
  "sched_pick s =
     (case dequeue_first [0..<64] s of
        (None, s1) \<Rightarrow> None
      | (Some t, s1) \<Rightarrow>
          let s2 = upd_task t (\<lambda>u. u\<lparr>time_slice := add_slice (time_slice u)\<rparr>) s1
          in if time_slice (tsk s2 t) < 0 then Option.bind (task_insert (rq s2 t) t s2) sched_pick
             else if exited (tsk s2 t) \<or> paused (tsk s2 t) \<noteq> 0 then None
             else Some (t, s2))"

definition sched_resume :: "tid \<Rightarrow> 'z kstate_scheme \<Rightarrow> (outcome \<times> 'z kstate_scheme) option" where
  "sched_resume prev s = do {
     (t, s1) \<leftarrow> sched_pick s;
     Some (Running,
       (if prev \<noteq> t then s1\<lparr>switch_cnt := switch_cnt s1 + 1, curr := Some t\<rparr> else s1\<lparr>curr := Some t\<rparr>))
   }"

definition sched_leave :: "tid \<Rightarrow> 'z kstate_scheme \<Rightarrow> 'z kstate_scheme option" where
  "sched_leave prev s =
     (let s1 = s\<lparr>curr := None\<rparr>
      in if \<not> exited (tsk s1 prev) \<and> paused (tsk s1 prev) = 0 then task_insert (rq s1 prev) prev s1
         else Some s1)"

definition sched :: "'z kstate_scheme \<Rightarrow> (outcome \<times> 'z kstate_scheme) option" where
  "sched s = do {
     prev \<leftarrow> curr s;
     let s1 = s\<lparr>resched := False\<rparr>;
     if task_pcount s1 + 1 = task_count s1 \<and> paused (tsk s1 prev) = 0 \<and> \<not> exited (tsk s1 prev)
     then Some (Running, upd_task prev (time_slice_update (\<lambda>_. TIME_SLICE)) s1)
     else do {
       s2 \<leftarrow> sched_leave prev s1;
       if task_count s2 = task_pcount s2 then Some (Halted, s2) else sched_resume prev s2
     }
   }"

text \<open>
  \<^verbatim>\<open>task_suspend\<close> up to the moment the processor leaves the first \<^verbatim>\<open>sched()\<close>. \<open>Inl EINTR\<close>: it
  returned to its caller at once. \<open>Inr r\<close>: the task sleeps and the processor went on
  with outcome \<open>r\<close>; when the task runs again its \<^verbatim>\<open>paused\<close> is 0 (\<^verbatim>\<open>task_resume\<close> clears it
  before queueing the task), the loop ends and \<^verbatim>\<open>task_suspend\<close> returns 0.
\<close>

definition suspend_enter ::
    "qid option \<Rightarrow> int \<Rightarrow> 'z kstate_scheme \<Rightarrow> (errno option \<times> 'z kstate_scheme) option" where
  "suspend_enter tq type s = do {
     c \<leftarrow> curr s;
     if paused (tsk s c) \<noteq> 0 then None
     else if (case tq of Some (Ready i) \<Rightarrow> True | _ \<Rightarrow> False) then None
     else if type \<noteq> WAIT_INTR \<and> type \<noteq> WAIT_NOINTR then None
     else if (signal_pending (tsk s c) \<or> unseen_events (tsk s c) \<noteq> 0) \<and> \<not> stopped (tsk s c) \<and> type = WAIT_INTR
     then Some (Some EINTR, upd_task c (unseen_events_update (\<lambda>_. 0)) s)
     else do {
       let s1 = (upd_task c (paused_update (\<lambda>_. type)) s)\<lparr>task_pcount := task_pcount s + 1\<rparr>;
       s2 \<leftarrow> (case tq of Some q \<Rightarrow> task_insert q c s1 | None \<Rightarrow> Some s1);
       Some (None, s2)
     }
   }"

definition task_suspend ::
    "qid option \<Rightarrow> int \<Rightarrow> 'z kstate_scheme \<Rightarrow> ((errno + outcome) \<times> 'z kstate_scheme) option" where
  "task_suspend tq type s = do {
     (r, s1) \<leftarrow> suspend_enter tq type s;
     (case r of
        Some e \<Rightarrow> Some (Inl e, s1)
      | None \<Rightarrow> do { (r2, s2) \<leftarrow> sched s1; Some (Inr r2, s2) })
   }"

section \<open>Leaving and entering the ready queues\<close>

lemma alive_curr [simp]: "alive (s\<lparr>curr := c\<rparr>) = alive s"
  by (simp add: alive_def)

lemma sleeping_curr [simp]: "sleeping (s\<lparr>curr := c\<rparr>) = sleeping s"
  by (simp add: sleeping_def)

lemma tq_inv_curr [simp]: "tq_inv (s\<lparr>curr := c\<rparr>) L = tq_inv s L"
  by (rule tq_inv_cong) simp_all

lemma kcore_dequeue:
  assumes "kcore s L" and "curr s = None" and "L (Ready i) = t # ts"
  shows "kcore (s\<lparr>curr := Some t\<rparr>) (L(Ready i := ts))"
proof (rule kcoreI)
  fix q x assume "x \<in> set ((L(Ready i := ts)) q)"
  then have "x \<in> set (L q)" using assms(3) by (auto split: if_splits)
  then show "x \<in> alive (s\<lparr>curr := Some t\<rparr>)"
    "\<not> is_ready q \<Longrightarrow> paused (tsk (s\<lparr>curr := Some t\<rparr>) x) \<noteq> 0"
    using kcore_queued_alive [OF assms(1)] kcore_waiting [OF assms(1)] by auto
next
  fix j x assume "x \<in> set ((L(Ready i := ts)) (Ready j))"
  then have "x \<in> set (L (Ready j))" using assms(3) by (auto split: if_splits)
  then show "j < 64 \<and> paused (tsk (s\<lparr>curr := Some t\<rparr>) x) = 0"
    using kcore_ready [OF assms(1)] by simp
next
  fix x assume x: "x \<in> alive (s\<lparr>curr := Some t\<rparr>)" "paused (tsk (s\<lparr>curr := Some t\<rparr>) x) = 0"
    "curr (s\<lparr>curr := Some t\<rparr>) \<noteq> Some x"
  then obtain j where "x \<in> set (L (Ready j))" using kcore_runnable [OF assms(1), of x] assms(2) by auto
  with x(3) assms(3) show "\<exists>j. x \<in> set ((L(Ready i := ts)) (Ready j))"
    by (intro exI [of _ j]) auto
qed (use kcore_counts [OF assms(1)] kcore_priority [OF assms(1)] in auto)

lemma kcore_requeue:
  assumes "kcore s L" and "curr s = Some t" and "t \<in> alive s" and "paused (tsk s t) = 0"
  shows "kcore (s\<lparr>curr := None\<rparr>) (L(rq s t := L (rq s t) @ [t]))"
proof -
  have pr: "0 \<le> priority (tsk s t)" "priority (tsk s t) \<le> TASK_PRIO_LOW"
    using kcore_priority [OF assms(1,3)] by auto
  let ?M = "L(rq s t := L (rq s t) @ [t])"
  have mem: "x \<in> set (?M q) \<longleftrightarrow> x \<in> set (L q) \<or> x = t \<and> q = rq s t" for x q by auto
  show ?thesis
  proof (rule kcoreI)
    fix q x assume "x \<in> set (?M q)"
    then have "x \<in> set (L q) \<or> x = t \<and> q = rq s t" by (simp only: mem)
    then show "x \<in> alive (s\<lparr>curr := None\<rparr>)"
      "\<not> is_ready q \<Longrightarrow> paused (tsk (s\<lparr>curr := None\<rparr>) x) \<noteq> 0"
      using kcore_queued_alive [OF assms(1)] kcore_waiting [OF assms(1)] assms(3)
      by (auto simp: rq_def)
  next
    fix j x assume "x \<in> set (?M (Ready j))"
    then have "x \<in> set (L (Ready j)) \<or> x = t \<and> Ready j = rq s t" by (simp only: mem)
    then show "j < 64 \<and> paused (tsk (s\<lparr>curr := None\<rparr>) x) = 0"
      using kcore_ready [OF assms(1)] pr assms(4) by (auto simp: rq_def)
  next
    fix x assume "x \<in> alive (s\<lparr>curr := None\<rparr>)" "paused (tsk (s\<lparr>curr := None\<rparr>) x) = 0"
    then show "\<exists>j. x \<in> set (?M (Ready j))"
      using kcore_runnable [OF assms(1), of x] assms(2) unfolding mem
      by (cases "x = t") (auto simp: rq_def)
  qed (use kcore_counts [OF assms(1)] kcore_priority [OF assms(1)] in auto)
qed

text \<open>A task that sleeps or has exited gives the processor away without being queued.\<close>

lemma kcore_leave:
  assumes "kcore s L" and "\<And>c. curr s = Some c \<Longrightarrow> c \<notin> alive s \<or> paused (tsk s c) \<noteq> 0"
  shows "kcore (s\<lparr>curr := None\<rparr>) L"
proof (rule kcoreI)
  fix x assume "x \<in> alive (s\<lparr>curr := None\<rparr>)" "paused (tsk (s\<lparr>curr := None\<rparr>) x) = 0"
  then show "\<exists>i. x \<in> set (L (Ready i))"
    using kcore_runnable [OF assms(1), of x] assms(2) [of x] by fastforce
qed (use kcore_counts [OF assms(1)] kcore_queued_alive [OF assms(1)] kcore_waiting [OF assms(1)]
       kcore_ready [OF assms(1)] kcore_priority [OF assms(1)] in auto)

text \<open>The time slice plays no role in the invariant.\<close>

definition slices_only :: "'z kstate_scheme \<Rightarrow> 'z kstate_scheme \<Rightarrow> bool" where
  "slices_only s s' \<longleftrightarrow>
     (\<forall>u. tsk s' u = (tsk s u)\<lparr>time_slice := time_slice (tsk s' u)\<rparr>) \<and>
     slot s' = slot s \<and> curr s' = curr s \<and> init s' = init s \<and> task_count s' = task_count s \<and>
     task_pcount s' = task_pcount s \<and> resched s' = resched s \<and> switch_cnt s' = switch_cnt s \<and>
     last_pid s' = last_pid s"

lemma slices_only_refl [simp]: "slices_only s s"
  by (simp add: slices_only_def)

lemma slices_only_trans: "slices_only s t \<Longrightarrow> slices_only t u \<Longrightarrow> slices_only s u"
  unfolding slices_only_def by (metis (no_types, lifting) task.surjective task.update_convs(15))

lemma slices_only_task:
  assumes "slices_only s s'"
  shows "exited (tsk s' u) = exited (tsk s u)" "paused (tsk s' u) = paused (tsk s u)"
    "priority (tsk s' u) = priority (tsk s u)"
proof -
  have *: "tsk s' u = (tsk s u)\<lparr>time_slice := time_slice (tsk s' u)\<rparr>"
    using assms by (simp add: slices_only_def)
  show "exited (tsk s' u) = exited (tsk s u)" "paused (tsk s' u) = paused (tsk s u)"
    "priority (tsk s' u) = priority (tsk s u)"
    by (subst *, simp)+
qed

lemma slices_only_alive: "slices_only s s' \<Longrightarrow> alive s' = alive s"
  by (simp add: alive_def slices_only_task) (simp add: slices_only_def)

lemma slices_only_sleeping: "slices_only s s' \<Longrightarrow> sleeping s' = sleeping s"
  by (simp add: sleeping_def slices_only_task slices_only_alive)

lemma slices_only_kcore: "slices_only s s' \<Longrightarrow> kcore s' L = kcore s L"
  by (simp add: kcore_def slices_only_task slices_only_alive slices_only_sleeping)
     (simp add: slices_only_def)

lemma same_tasks_slices:
  assumes "same_tasks s s'"
  shows "slices_only s s'"
  using same_tasks_fields [OF assms] by (simp add: slices_only_def)

lemma upd_task_slices: "slices_only s (upd_task t (\<lambda>u. u\<lparr>time_slice := f u\<rparr>) s)"
  by (simp add: slices_only_def upd_task_def)

section \<open>Choosing the next task\<close>

lemma dequeue_first_found:
  "tq_inv s L \<Longrightarrow> a \<le> i \<Longrightarrow> i < b \<Longrightarrow> L (Ready i) \<noteq> [] \<Longrightarrow>
   \<exists>j t ts s1. L (Ready j) = t # ts \<and> (\<forall>k. a \<le> k \<longrightarrow> k < j \<longrightarrow> L (Ready k) = []) \<and>
     dequeue_first [a..<b] s = (Some t, s1) \<and> tq_inv s1 (L(Ready j := ts)) \<and> same_tasks s s1"
proof (induction "b - a" arbitrary: a)
  case 0
  then show ?case by simp
next
  case (Suc n)
  then have ab: "[a..<b] = a # [Suc a..<b]" by (simp add: upt_conv_Cons)
  show ?case
  proof (cases "L (Ready a)")
    case Nil
    then have e: "task_dequeue (Ready a) s = (None, s)" using Suc.prems task_dequeue_empty by blast
    have "Suc a \<le> i" using Suc.prems Nil by (cases "a = i") auto
    moreover have "n = b - Suc a" using Suc.hyps(2) by simp
    ultimately obtain j t ts s1 where IH: "L (Ready j) = t # ts"
        "\<forall>k. Suc a \<le> k \<longrightarrow> k < j \<longrightarrow> L (Ready k) = []"
        "dequeue_first [Suc a..<b] s = (Some t, s1)" "tq_inv s1 (L(Ready j := ts))" "same_tasks s s1"
      using Suc.hyps(1) [of "Suc a"] Suc.prems by blast
    have "\<forall>k. a \<le> k \<longrightarrow> k < j \<longrightarrow> L (Ready k) = []"
      using IH(2) Nil by (metis Suc_leI le_neq_implies_less)
    with IH e ab show ?thesis by force
  next
    case (Cons t ts)
    then obtain s1 where s1: "task_dequeue (Ready a) s = (Some t, s1)" "tq_inv s1 (L(Ready a := ts))"
      using task_dequeue_inv Suc.prems(1) by blast
    then have "same_tasks s s1" using task_dequeue_frame [OF s1(1)] by (simp add: same_tasks_def)
    with Cons s1 ab show ?thesis by force
  qed
qed

lemma dequeue_first_kinv:
  assumes "kinv s L" and "curr s = None" and "L (Ready i) \<noteq> []"
  shows "\<exists>j t ts s1. L (Ready j) = t # ts \<and> (\<forall>k < j. L (Ready k) = []) \<and>
     dequeue_first [0..<64] s = (Some t, s1) \<and> tq_inv s1 (L(Ready j := ts)) \<and> same_tasks s s1 \<and>
     kcore (s1\<lparr>curr := Some t\<rparr>) (L(Ready j := ts))"
proof -
  have tq: "tq_inv s L" and kc: "kcore s L" using assms(1) by (auto simp: kinv_def)
  have "i < 64" using assms(3) kcore_ready [OF kc, of "hd (L (Ready i))" i] by auto
  then obtain j t ts s1 where *: "L (Ready j) = t # ts" "\<forall>k < j. L (Ready k) = []"
      "dequeue_first [0..<64] s = (Some t, s1)" "tq_inv s1 (L(Ready j := ts))" "same_tasks s s1"
    using dequeue_first_found [OF tq, of 0 i 64] assms(3) by auto
  have "same_tasks (s\<lparr>curr := Some t\<rparr>) (s1\<lparr>curr := Some t\<rparr>)"
    using *(5) by (cases s; cases s1) (simp add: same_tasks_def)
  then have "kcore (s1\<lparr>curr := Some t\<rparr>) (L(Ready j := ts))"
    using kcore_dequeue [OF kc assms(2) *(1)] kcore_same_tasks by blast
  with * show ?thesis by blast
qed

definition by_prio :: "'z kstate_scheme \<Rightarrow> (qid \<Rightarrow> tid list) \<Rightarrow> bool" where
  "by_prio s L \<longleftrightarrow> (\<forall>i x. x \<in> set (L (Ready i)) \<longrightarrow> nat (priority (tsk s x)) = i)"

definition is_queued_ready :: "(qid \<Rightarrow> tid list) \<Rightarrow> tid \<Rightarrow> bool" where
  "is_queued_ready L x \<longleftrightarrow> (\<exists>i. x \<in> set (L (Ready i)))"

definition picked :: "'z kstate_scheme \<Rightarrow> (qid \<Rightarrow> tid list) \<Rightarrow> tid \<Rightarrow> 'z kstate_scheme \<Rightarrow> (qid \<Rightarrow> tid list) \<Rightarrow> bool" where
  "picked s L t s' L' \<longleftrightarrow>
     slices_only s s' \<and> tq_inv s' L' \<and> kcore (s'\<lparr>curr := Some t\<rparr>) L' \<and> 0 \<le> time_slice (tsk s' t) \<and>
     is_queued_ready L t \<and> (\<forall>q. t \<notin> set (L' q)) \<and>
     (\<forall>x. is_queued_ready L' x \<longleftrightarrow> is_queued_ready L x \<and> x \<noteq> t) \<and>
     (\<forall>q. \<not> is_ready q \<longrightarrow> L' q = L q) \<and>
     (by_prio s L \<longrightarrow> by_prio s L' \<and>
        (\<forall>x. is_queued_ready L x \<longrightarrow> nat (priority (tsk s t)) \<le> nat (priority (tsk s x))))"

text \<open>What the negative time slices still owe; every pass through the loop pays some of it.\<close>

definition debt :: "'z kstate_scheme \<Rightarrow> nat" where
  "debt s = (\<Sum>t \<in> alive s. nat (- time_slice (tsk s t)))"

lemma debt_decreases:
  assumes "t \<in> alive s" and "alive s' = alive s" and "add_slice (time_slice (tsk s t)) < 0"
    and "\<And>u. time_slice (tsk s' u) = (if u = t then add_slice (time_slice (tsk s t)) else time_slice (tsk s u))"
  shows "debt s' < debt s"
  unfolding debt_def assms(2)
proof (rule sum_strict_mono_ex1)
  show "\<forall>x \<in> alive s. nat (- time_slice (tsk s' x)) \<le> nat (- time_slice (tsk s x))"
    using assms(3) by (auto simp: assms(4) add_slice_def split: if_splits)
  show "\<exists>a \<in> alive s. nat (- time_slice (tsk s' a)) < nat (- time_slice (tsk s a))"
    using assms(1,3) by (intro bexI [of _ t]) (auto simp: assms(4) add_slice_def split: if_splits)
qed simp

lemma sched_pick_found:
  assumes "L (Ready j) = t # ts" and "\<forall>k < j. L (Ready k) = []"
    and "tq_inv s L" and "slices_only s s2" and "tq_inv s2 (L(Ready j := ts))"
    and "kcore (s2\<lparr>curr := Some t\<rparr>) (L(Ready j := ts))" and "0 \<le> time_slice (tsk s2 t)"
  shows "picked s L t s2 (L(Ready j := ts))"
proof -
  have nt: "t \<notin> set ((L(Ready j := ts)) q)" for q
    using assms(1,3) tq_inv_distinct [OF assms(3), of "Ready j"]
      tq_inv_disjoint [OF assms(3), of t "Ready j" q] by auto
  have st: "set ((L(Ready j := ts)) q) = set (L q) - {t}" for q
    using nt [of q] assms(1) by (cases "q = Ready j") auto
  have rd: "is_queued_ready (L(Ready j := ts)) x \<longleftrightarrow> is_queued_ready L x \<and> x \<noteq> t" for x
    unfolding is_queued_ready_def st by blast
  have pr: "nat (priority (tsk s t)) \<le> nat (priority (tsk s x))" if "by_prio s L" "is_queued_ready L x" for x
  proof -
    from that(2) obtain k where k: "x \<in> set (L (Ready k))" by (auto simp: is_queued_ready_def)
    with assms(2) have "j \<le> k" by (metis empty_iff empty_set linorder_not_less)
    moreover have "nat (priority (tsk s x)) = k" "nat (priority (tsk s t)) = j"
      using that(1) k assms(1) by (auto simp: by_prio_def)
    ultimately show ?thesis by simp
  qed
  have "by_prio s (L(Ready j := ts))" if "by_prio s L"
    using that assms(1) by (auto simp: by_prio_def)
  moreover have "is_queued_ready L t"
    unfolding is_queued_ready_def using assms(1) by (intro exI [of _ j]) simp
  ultimately show ?thesis
    using assms nt rd pr by (auto simp: picked_def)
qed

text \<open>A task put back at the tail of its ready queue: the set of ready tasks is the same.\<close>

lemma picked_requeue:
  assumes "L (Ready j) = t # ts" and "tq_inv s L" and "slices_only s s3"
    and L3: "L3 = (L(Ready j := ts))(rq s t := (L(Ready j := ts)) (rq s t) @ [t])"
    and "picked s3 L3 u s' L'"
  shows "picked s L u s' L'"
proof -
  have m3: "x \<in> set (L3 q) \<longleftrightarrow> x \<in> set ((L(Ready j := ts)) q) \<or> x = t \<and> q = rq s t" for x q
    by (auto simp: L3)
  have tj: "t \<in> set (L (Ready j))" using assms(1) by simp
  have rd: "is_queued_ready L3 x \<longleftrightarrow> is_queued_ready L x" for x
  proof
    assume "is_queued_ready L3 x"
    then obtain k where "x \<in> set (L3 (Ready k))" by (auto simp: is_queued_ready_def)
    then have "x \<in> set (L (Ready k)) \<or> x = t" using assms(1) unfolding m3 by (auto split: if_splits)
    then show "is_queued_ready L x" using tj unfolding is_queued_ready_def by blast
  next
    assume "is_queued_ready L x"
    then obtain k where "x \<in> set (L (Ready k))" by (auto simp: is_queued_ready_def)
    then have "x \<in> set (L3 (Ready k)) \<or> x = t" using assms(1) unfolding m3 by (cases "k = j") auto
    moreover have "t \<in> set (L3 (Ready (nat (priority (tsk s t)))))" unfolding m3 by (simp add: rq_def)
    ultimately show "is_queued_ready L3 x" unfolding is_queued_ready_def by blast
  qed
  have bp: "by_prio s3 M \<longleftrightarrow> by_prio s M" for M
    by (simp add: by_prio_def slices_only_task [OF assms(3)])
  have "by_prio s L3" if "by_prio s L"
    using that assms(1) unfolding by_prio_def m3 by (auto simp: rq_def split: if_splits)
  moreover have "L3 q = L q" if "\<not> is_ready q" for q
    using that by (auto simp: L3 rq_def)
  moreover have "nat (priority (tsk s3 x)) = nat (priority (tsk s x))" for x
    by (simp add: slices_only_task [OF assms(3)])
  ultimately show ?thesis
    using assms(5) slices_only_trans [OF assms(3)] by (auto simp: picked_def rd bp)
qed

lemma sched_pick_kinv:
  assumes "kinv s L" and "curr s = None" and "is_queued_ready L x"
  shows "\<exists>t s' L'. sched_pick s = Some (t, s') \<and> picked s L t s' L'"
  using assms
proof (induction "debt s" arbitrary: s L x rule: less_induct)
  case less
  have tq: "tq_inv s L" and kc: "kcore s L" using less.prems(1) by (auto simp: kinv_def)
  from less.prems(3) obtain i where "x \<in> set (L (Ready i))" by (auto simp: is_queued_ready_def)
  then have "L (Ready i) \<noteq> []" by auto
  then obtain j t ts s1 where j: "L (Ready j) = t # ts" "\<forall>k < j. L (Ready k) = []"
      "dequeue_first [0..<64] s = (Some t, s1)" "tq_inv s1 (L(Ready j := ts))" "same_tasks s s1"
      "kcore (s1\<lparr>curr := Some t\<rparr>) (L(Ready j := ts))"
    using dequeue_first_kinv [OF less.prems(1,2)] by blast
  define s2 where "s2 = upd_task t (\<lambda>u. u\<lparr>time_slice := add_slice (time_slice u)\<rparr>) s1"
  have so: "slices_only s s2"
    unfolding s2_def by (rule slices_only_trans [OF same_tasks_slices [OF j(5)] upd_task_slices])
  have tq2: "tq_inv s2 (L(Ready j := ts))"
    using j(4) by (simp add: s2_def upd_task_def cong: tq_inv_cong)
  have kc2: "kcore (s2\<lparr>curr := Some t\<rparr>) (L(Ready j := ts))"
  proof -
    have "slices_only (s1\<lparr>curr := Some t\<rparr>) (s2\<lparr>curr := Some t\<rparr>)"
      by (simp add: s2_def slices_only_def upd_task_def)
    then show ?thesis using j(6) slices_only_kcore by blast
  qed
  have ta: "t \<in> alive s" "paused (tsk s t) = 0"
    using kcore_queued_alive [OF kc, of t "Ready j"] kcore_ready [OF kc, of t j] j(1) by auto
  have ts2: "exited (tsk s2 t) = exited (tsk s t)" "paused (tsk s2 t) = paused (tsk s t)"
      "time_slice (tsk s2 t) = add_slice (time_slice (tsk s t))"
    using same_tasks_fields(2) [OF j(5)] by (simp_all add: s2_def upd_task_def)
  note unfold = sched_pick.simps [of s] j(3) s2_def [symmetric]
  show ?case
  proof (cases "time_slice (tsk s2 t) < 0")
    case False
    then have "sched_pick s = Some (t, s2)"
      using ta ts2 by (simp add: unfold Let_def alive_def)
    moreover have "picked s L t s2 (L(Ready j := ts))"
      using sched_pick_found [OF j(1,2) tq so tq2 kc2] False by simp
    ultimately show ?thesis by blast
  next
    case True
    have nt: "t \<notin> set ((L(Ready j := ts)) q)" for q
      using j(1) tq_inv_distinct [OF tq, of "Ready j"] tq_inv_disjoint [OF tq, of t "Ready j" q] by auto
    have rq: "rq s2 t = rq s t" by (simp add: rq_def slices_only_task [OF so])
    define L3 where "L3 = (L(Ready j := ts))(rq s t := (L(Ready j := ts)) (rq s t) @ [t])"
    obtain s3 where s3: "task_insert (rq s2 t) t s2 = Some s3" "tq_inv s3 L3"
      using task_insert_inv [OF tq2 nt, of "rq s2 t"] unfolding L3_def rq by blast
    have st: "same_tasks s2 s3" using task_insert_frame [OF s3(1)] by (simp add: same_tasks_def)
    have so3: "slices_only s s3" by (rule slices_only_trans [OF so same_tasks_slices [OF st]])
    have "kcore (s2\<lparr>curr := None\<rparr>) L3"
      using kcore_requeue [OF kc2, of t] ta slices_only_alive [OF so]
      by (simp add: slices_only_task [OF so] L3_def rq [symmetric] rq_def)
    moreover have "s2\<lparr>curr := None\<rparr> = s2" using so less.prems(2) by (simp add: slices_only_def)
    ultimately have k3: "kinv s3 L3" using s3(2) kcore_same_tasks [OF st] by (simp add: kinv_def)
    have d: "debt s3 < debt s"
    proof (rule debt_decreases [OF ta(1) slices_only_alive [OF so3]])
      show "add_slice (time_slice (tsk s t)) < 0" using True ts2 by simp
      show "time_slice (tsk s3 u) = (if u = t then add_slice (time_slice (tsk s t)) else time_slice (tsk s u))" for u
        using same_tasks_fields(2) [OF st] same_tasks_fields(2) [OF j(5)] by (simp add: s2_def upd_task_def)
    qed
    have c3: "curr s3 = None" using so3 less.prems(2) by (simp add: slices_only_def)
    have "is_queued_ready L3 t"
      unfolding is_queued_ready_def L3_def rq_def by (intro exI [of _ "nat (priority (tsk s t))"]) simp
    then obtain u s' L' where IH: "sched_pick s3 = Some (u, s')" "picked s3 L3 u s' L'"
      using less.hyps [OF d k3 c3] by blast
    have "sched_pick s = Some (u, s')"
      using True s3(1) IH(1) by (simp add: unfold Let_def)
    then show ?thesis using picked_requeue [OF j(1) tq so3 L3_def IH(2)] by blast
  qed
qed

section \<open>The whole scheduler\<close>

lemma running_not_queued: "running s L \<Longrightarrow> curr s = Some c \<Longrightarrow> c \<in> alive s \<and> paused (tsk s c) = 0 \<and> (\<forall>q. c \<notin> set (L q))"
  by (simp add: running_def)

lemma sched_leave_kinv:
  assumes "kinv s L" and "curr s = Some c"
    and "c \<in> alive s \<Longrightarrow> paused (tsk s c) = 0 \<Longrightarrow> \<forall>q. c \<notin> set (L q)"
    and "slot s c" and "c < TASK_MAX"
  shows "\<exists>s2 L2. sched_leave c s = Some s2 \<and> kinv s2 L2 \<and> curr s2 = None \<and>
           tsk s2 = tsk s \<and> slot s2 = slot s \<and> resched s2 = resched s \<and>
           task_count s2 = task_count s \<and> task_pcount s2 = task_pcount s \<and>
           (by_prio s L \<longrightarrow> by_prio s2 L2) \<and> (\<forall>q. \<not> is_ready q \<longrightarrow> L2 q = L q)"
proof -
  have tq: "tq_inv s L" and kc: "kcore s L" using assms(1) by (auto simp: kinv_def)
  show ?thesis
  proof (cases "\<not> exited (tsk s c) \<and> paused (tsk s c) = 0")
    case True
    then have c: "c \<in> alive s" using assms(4,5) by (simp add: alive_def)
    let ?s1 = "s\<lparr>curr := None\<rparr>" and ?L2 = "L(rq s c := L (rq s c) @ [c])"
    have tq1: "tq_inv ?s1 L" using tq by simp
    have rq: "rq ?s1 c = rq s c" by (simp add: rq_def)
    obtain s2 where s2: "task_insert (rq s c) c ?s1 = Some s2" "tq_inv s2 ?L2"
      using task_insert_inv [OF tq1, of c "rq s c"] assms(3) c True by blast
    have st: "same_tasks ?s1 s2" using task_insert_frame [OF s2(1)] by (simp add: same_tasks_def)
    have "kinv s2 ?L2"
      using kcore_requeue [OF kc assms(2) c] True s2(2) kcore_same_tasks [OF st] by (simp add: kinv_def)
    moreover have "by_prio s2 ?L2" if "by_prio s L"
      using that same_tasks_fields(2) [OF st] by (auto simp: by_prio_def rq_def)
    moreover have "sched_leave c s = Some s2" using True s2(1) rq by (simp add: sched_leave_def Let_def)
    moreover have "\<forall>q. \<not> is_ready q \<longrightarrow> ?L2 q = L q" by (auto simp: rq_def)
    ultimately show ?thesis using same_tasks_fields [OF st] by auto
  next
    case False
    then have "kcore (s\<lparr>curr := None\<rparr>) L"
      using kcore_leave [OF kc] assms(2) by (auto simp: alive_def)
    then have "kinv (s\<lparr>curr := None\<rparr>) L" using tq by (simp add: kinv_def)
    moreover have "sched_leave c s = Some (s\<lparr>curr := None\<rparr>)"
      using False by (auto simp: sched_leave_def Let_def)
    moreover have "by_prio s L \<longrightarrow> by_prio (s\<lparr>curr := None\<rparr>) L" by (simp add: by_prio_def)
    ultimately show ?thesis by force
  qed
qed

lemma sleeping_subset: "sleeping s \<subseteq> alive s"
  by (auto simp: sleeping_def)

lemma sched_resume_kinv:
  assumes "kinv s L" and "curr s = None" and "task_count s \<noteq> task_pcount s"
  shows "\<exists>s' L'. sched_resume prev s = Some (Running, s') \<and> kinv s' L' \<and> running s' L' \<and>
           resched s' = resched s \<and> slot s' = slot s \<and> (\<forall>q. \<not> is_ready q \<longrightarrow> L' q = L q) \<and>
           (\<forall>u. tsk s' u = (tsk s u)\<lparr>time_slice := time_slice (tsk s' u)\<rparr>) \<and>
           (by_prio s L \<longrightarrow> (\<forall>t u. curr s' = Some t \<longrightarrow> u \<in> alive s \<longrightarrow> paused (tsk s u) = 0 \<longrightarrow>
              priority (tsk s t) \<le> priority (tsk s u)))"
proof -
  have kc: "kcore s L" using assms(1) by (simp add: kinv_def)
  have "sleeping s \<noteq> alive s" using assms(3) kcore_counts [OF kc] by auto
  then obtain x where "x \<in> alive s" "x \<notin> sleeping s" using sleeping_subset by blast
  then have "is_queued_ready L x"
    using kcore_runnable [OF kc, of x] assms(2) by (auto simp: sleeping_def is_queued_ready_def)
  then obtain t s1 L1 where p: "sched_pick s = Some (t, s1)" "picked s L t s1 L1"
    using sched_pick_kinv [OF assms(1,2)] by blast
  define s' where "s' = (if prev \<noteq> t then s1\<lparr>switch_cnt := switch_cnt s1 + 1, curr := Some t\<rparr> else s1\<lparr>curr := Some t\<rparr>)"
  have so: "slices_only s s1" and q: "\<forall>q. t \<notin> set (L1 q)" "is_queued_ready L t"
    using p(2) by (auto simp: picked_def)
  have t: "t \<in> alive s" "paused (tsk s t) = 0"
    using q(2) kcore_queued_alive [OF kc] kcore_ready [OF kc] by (auto simp: is_queued_ready_def)
  have f: "tsk s' = tsk s1" "slot s' = slot s1" "curr s' = Some t" "resched s' = resched s1"
    by (auto simp: s'_def)
  have "kinv s' L1"
    using p(2) by (auto simp: s'_def picked_def kinv_def kcore_def alive_def sleeping_def cong: tq_inv_cong)
  moreover have "running s' L1"
    using f t q(1) slices_only_task [OF so] so by (simp add: running_def alive_def slices_only_def)
  moreover have "sched_resume prev s = Some (Running, s')"
    using p(1) by (simp add: sched_resume_def s'_def)
  moreover have "priority (tsk s t) \<le> priority (tsk s u)"
    if "by_prio s L" "u \<in> alive s" "paused (tsk s u) = 0" for u
  proof -
    have "is_queued_ready L u"
      using kcore_runnable [OF kc that(2,3)] assms(2) by (simp add: is_queued_ready_def)
    then have "nat (priority (tsk s t)) \<le> nat (priority (tsk s u))"
      using p(2) that(1) by (auto simp: picked_def)
    moreover have "0 \<le> priority (tsk s u)" using kcore_priority [OF kc that(2)] by blast
    ultimately show ?thesis by linarith
  qed
  moreover have "\<forall>q. \<not> is_ready q \<longrightarrow> L1 q = L q" using p(2) by (simp add: picked_def)
  ultimately show ?thesis using f so by (auto simp: slices_only_def)
qed

text \<open>What a call of \<^verbatim>\<open>sched\<close> guarantees of the state in which the processor goes on.\<close>

definition scheduled :: "outcome \<Rightarrow> 'z kstate_scheme \<Rightarrow> (qid \<Rightarrow> tid list) \<Rightarrow> bool" where
  "scheduled r s L \<longleftrightarrow>
     kinv s L \<and> \<not> resched s \<and>
     (case r of Running \<Rightarrow> running s L | Halted \<Rightarrow> curr s = None \<and> alive s = sleeping s)"

lemma tq_inv_resched [simp]: "tq_inv (s\<lparr>resched := b\<rparr>) L = tq_inv s L"
  by (rule tq_inv_cong) simp_all

lemma kcore_resched [simp]: "kcore (s\<lparr>resched := b\<rparr>) L = kcore s L"
  by (simp add: kcore_def alive_def sleeping_def)

lemma sched_kinv:
  assumes "kinv s L" and "curr s = Some c" and "slot s c" and "c < TASK_MAX"
    and "c \<in> alive s \<Longrightarrow> paused (tsk s c) = 0 \<Longrightarrow> \<forall>q. c \<notin> set (L q)"
  shows "\<exists>r s' L'. sched s = Some (r, s') \<and> scheduled r s' L' \<and> slot s' = slot s \<and>
           (\<forall>q. \<not> is_ready q \<longrightarrow> L' q = L q) \<and>
           (\<forall>u. tsk s' u = (tsk s u)\<lparr>time_slice := time_slice (tsk s' u)\<rparr>) \<and>
           (by_prio s L \<longrightarrow> (\<forall>t u. curr s' = Some t \<longrightarrow> u \<in> alive s \<longrightarrow> paused (tsk s u) = 0 \<longrightarrow>
              priority (tsk s t) \<le> priority (tsk s u)))"
proof -
  let ?s1 = "s\<lparr>resched := False\<rparr>"
  have k1: "kinv ?s1 L" using assms(1) by (simp add: kinv_def)
  have kc: "kcore s L" using assms(1) by (simp add: kinv_def)
  show ?thesis
  proof (cases "task_pcount s + 1 = task_count s \<and> paused (tsk s c) = 0 \<and> \<not> exited (tsk s c)")
    case True
    then have c: "c \<in> alive s" using assms(3,4) by (simp add: alive_def)
    let ?s' = "upd_task c (time_slice_update (\<lambda>_. TIME_SLICE)) ?s1"
    have so: "slices_only ?s1 ?s'" by (simp add: slices_only_def upd_task_def)
    have "kinv ?s' L"
      using k1 slices_only_kcore [OF so] by (simp add: kinv_def upd_task_def cong: tq_inv_cong)
    moreover have "running ?s' L"
      using assms(2,5) c True by (simp add: running_def upd_task_def alive_def)
    moreover have "sched s = Some (Running, ?s')" using True assms(2) by (simp add: sched_def)
    moreover have "u = c" if "u \<in> alive s" "paused (tsk s u) = 0" for u
    proof -
      have "card (alive s) = Suc (card (sleeping s))" using True kcore_counts [OF kc] by linarith
      moreover have "sleeping s \<subseteq> alive s - {c}" using sleeping_subset True by (auto simp: sleeping_def)
      moreover have "card (alive s - {c}) = card (alive s) - 1" using c by simp
      ultimately have "sleeping s = alive s - {c}" by (intro card_subset_eq) auto
      then show ?thesis using that by (auto simp: sleeping_def)
    qed
    ultimately show ?thesis using assms(2)
      by (intro exI [of _ Running] exI [of _ ?s'] exI [of _ L])
         (auto simp: scheduled_def upd_task_def)
  next
    case False
    obtain s2 L2 where s2: "sched_leave c ?s1 = Some s2" "kinv s2 L2" "curr s2 = None" "tsk s2 = tsk s"
        "slot s2 = slot s" "\<not> resched s2" "task_count s2 = task_count s" "task_pcount s2 = task_pcount s"
        "by_prio s L \<longrightarrow> by_prio s2 L2" "\<forall>q. \<not> is_ready q \<longrightarrow> L2 q = L q"
    proof -
      have bp: "by_prio ?s1 L = by_prio s L" by (simp add: by_prio_def)
      have "\<exists>s2 L2. sched_leave c ?s1 = Some s2 \<and> kinv s2 L2 \<and> curr s2 = None \<and>
           tsk s2 = tsk ?s1 \<and> slot s2 = slot ?s1 \<and> resched s2 = resched ?s1 \<and>
           task_count s2 = task_count ?s1 \<and> task_pcount s2 = task_pcount ?s1 \<and>
           (by_prio ?s1 L \<longrightarrow> by_prio s2 L2) \<and> (\<forall>q. \<not> is_ready q \<longrightarrow> L2 q = L q)"
        by (rule sched_leave_kinv [OF k1]) (use assms in \<open>simp_all add: alive_def\<close>)
      moreover have "tsk ?s1 = tsk s" "slot ?s1 = slot s" "\<not> resched ?s1"
          "task_count ?s1 = task_count s" "task_pcount ?s1 = task_pcount s" by simp_all
      ultimately show thesis using that unfolding bp by metis
    qed
    have al: "alive s2 = alive s" using s2(4,5) by (simp add: alive_def)
    have unf: "sched s = (if task_count s = task_pcount s then Some (Halted, s2) else sched_resume c s2)"
      using False s2(1,7,8) assms(2) by (auto simp: sched_def)
    show ?thesis
    proof (cases "task_count s = task_pcount s")
      case True
      have "alive s2 = sleeping s2"
        using True kcore_counts [of s2 L2] s2(2,7,8) card_subset_eq [OF finite_alive sleeping_subset, of s2]
        by (simp add: kinv_def)
      then have "scheduled Halted s2 L2" using s2 by (simp add: scheduled_def)
      then show ?thesis using unf True s2 by (intro exI [of _ Halted] exI [of _ s2] exI [of _ L2]) simp
    next
      case False
      then obtain s' L' where s': "sched_resume c s2 = Some (Running, s')" "kinv s' L'" "running s' L'"
          "resched s' = resched s2" "slot s' = slot s2" "\<forall>q. \<not> is_ready q \<longrightarrow> L' q = L2 q"
          "\<forall>u. tsk s' u = (tsk s2 u)\<lparr>time_slice := time_slice (tsk s' u)\<rparr>"
          "by_prio s2 L2 \<longrightarrow> (\<forall>t u. curr s' = Some t \<longrightarrow> u \<in> alive s2 \<longrightarrow> paused (tsk s2 u) = 0 \<longrightarrow>
              priority (tsk s2 t) \<le> priority (tsk s2 u))"
        using sched_resume_kinv [OF s2(2,3), of c] s2(7,8) by auto
      then have "scheduled Running s' L'" using s2(6) by (simp add: scheduled_def)
      then show ?thesis using unf False s' s2 al
        by (intro exI [of _ Running] exI [of _ s'] exI [of _ L']) simp
    qed
  qed
qed

abbreviation (input) kept :: "'z kstate_scheme \<Rightarrow> tid \<times> 'z" where
  "kept s \<equiv> (init s, kstate.more s)"

lemma dequeue_first_kept: "dequeue_first is s = (r, s') \<Longrightarrow> kept s' = kept s"
proof (induction "is" s rule: dequeue_first.induct)
  case (2 i "is" s)
  obtain r1 s1 where s1: "task_dequeue (Ready i) s = (r1, s1)" by fastforce
  have "kept s1 = kept s"
    using task_dequeue_frame [OF s1] same_tasks_fields(4,12) [of s s1] by (simp add: same_tasks_def)
  then show ?case using 2 s1 by (auto split: option.splits)
qed simp

lemma task_insert_kept: "task_insert q t s = Some s' \<Longrightarrow> kept s' = kept s"
  using task_insert_frame [of q t s s'] same_tasks_fields(4,12) [of s s'] by (simp add: same_tasks_def)

lemma sched_pick_kept:
  assumes "sched_pick s = Some (t, s')"
  shows "kept s' = kept s"
proof -
  have "kept (snd (t, s')) = kept s"
  proof (rule sched_pick.raw_induct [where P = "\<lambda>s r. kept (snd r) = kept s", OF _ assms])
    fix pick and s :: "'a kstate_scheme" and r
    assume IH: "\<And>s r. pick s = Some r \<Longrightarrow> kept (snd r) = kept s"
      and *: "(case dequeue_first [0..<64] s of
           (None, s1) \<Rightarrow> None
         | (Some t, s1) \<Rightarrow>
             let s2 = upd_task t (\<lambda>u. u\<lparr>time_slice := add_slice (time_slice u)\<rparr>) s1
             in if time_slice (tsk s2 t) < 0 then Option.bind (task_insert (rq s2 t) t s2) pick
                else if exited (tsk s2 t) \<or> paused (tsk s2 t) \<noteq> 0 then None
                else Some (t, s2)) = Some r"
    then obtain t1 s1 where d: "dequeue_first [0..<64] s = (Some t1, s1)"
      by (auto split: prod.splits option.splits)
    let ?s2 = "upd_task t1 (\<lambda>u. u\<lparr>time_slice := add_slice (time_slice u)\<rparr>) s1"
    have "kept ?s2 = kept s" using dequeue_first_kept [OF d] by (simp add: upd_task_def)
    moreover have "(\<exists>s3. task_insert (rq ?s2 t1) t1 ?s2 = Some s3 \<and> pick s3 = Some r) \<or> r = (t1, ?s2)"
      using * d by (auto simp: Let_def split: if_splits Option.bind_splits)
    ultimately show "kept (snd r) = kept s" using IH task_insert_kept by fastforce
  qed
  then show ?thesis by simp
qed

lemma sched_kept:
  assumes "sched s = Some (r, s')"
  shows "kept s' = kept s"
proof -
  obtain c where c: "curr s = Some c" using assms by (auto simp: sched_def split: Option.bind_splits)
  consider "s' = upd_task c (time_slice_update (\<lambda>_. TIME_SLICE)) (s\<lparr>resched := False\<rparr>)"
    | s2 where "sched_leave c (s\<lparr>resched := False\<rparr>) = Some s2" "s' = s2 \<or> sched_resume c s2 = Some (r, s')"
    using assms c by (auto simp: sched_def Let_def split: if_splits Option.bind_splits)
  then show ?thesis
  proof cases
    case 1
    then show ?thesis by (simp add: upd_task_def)
  next
    case 2
    have "kept s2 = kept s"
      using 2(1) by (auto simp: sched_leave_def Let_def split: if_splits dest!: task_insert_kept)
    moreover have "kept s' = kept s2" if "sched_resume c s2 = Some (r, s')"
      using that by (auto simp: sched_resume_def split: Option.bind_splits if_splits dest!: sched_pick_kept)
    ultimately show ?thesis using 2(2) by auto
  qed
qed

lemma task_suspend_kept:
  assumes "task_suspend tq type s = Some (r, s')"
  shows "kept s' = kept s"
proof -
  obtain e s1 where s1: "suspend_enter tq type s = Some (e, s1)"
      "s' = s1 \<or> (\<exists>r2. sched s1 = Some (r2, s'))"
    using assms by (auto simp: task_suspend_def split: Option.bind_splits option.splits)
  have "kept s1 = kept s"
    using s1(1) by (auto simp: suspend_enter_def upd_task_def Let_def split: if_splits Option.bind_splits option.splits
        dest!: task_insert_kept)
  then show ?thesis using s1(2) sched_kept by fastforce
qed

section \<open>Going to sleep\<close>

definition sleep_queues :: "qid option \<Rightarrow> tid \<Rightarrow> (qid \<Rightarrow> tid list) \<Rightarrow> qid \<Rightarrow> tid list" where
  "sleep_queues tq c L = (case tq of Some q \<Rightarrow> L(q := L q @ [c]) | None \<Rightarrow> L)"

lemma kcore_suspend:
  assumes "kcore s L" and "curr s = Some c" and "c \<in> alive s" and "paused (tsk s c) = 0"
    and "\<forall>q. c \<notin> set (L q)" and "type \<noteq> 0" and "\<And>q. tq = Some q \<Longrightarrow> \<not> is_ready q"
  shows "kcore ((upd_task c (paused_update (\<lambda>_. type)) s)\<lparr>task_pcount := task_pcount s + 1\<rparr>) (sleep_queues tq c L)"
    (is "kcore ?s1 ?M")
proof -
  have al: "alive ?s1 = alive s" by (auto simp: alive_def upd_task_def)
  have sl: "sleeping ?s1 = insert c (sleeping s)"
    using assms(3,6) by (auto simp: sleeping_def al) (auto simp: upd_task_def split: if_splits)
  have cs: "c \<notin> sleeping s" using assms(4) by (simp add: sleeping_def)
  have mem: "x \<in> set (?M q) \<longleftrightarrow> x \<in> set (L q) \<or> x = c \<and> tq = Some q" for x q
    by (auto simp: sleep_queues_def split: option.splits)
  have tk: "paused (tsk ?s1 x) = (if x = c then type else paused (tsk s x))"
      "priority (tsk ?s1 x) = priority (tsk s x)" for x
    by (auto simp: upd_task_def)
  show ?thesis
  proof (rule kcoreI)
    show "task_count ?s1 = int (card (alive ?s1))" "task_pcount ?s1 = int (card (sleeping ?s1))"
      unfolding al sl using kcore_counts [OF assms(1)] cs by (simp_all add: upd_task_def)
  next
    fix q x assume "x \<in> set (?M q)"
    then have "x \<in> set (L q) \<or> x = c \<and> tq = Some q" by (simp only: mem)
    then show "x \<in> alive ?s1" "\<not> is_ready q \<Longrightarrow> paused (tsk ?s1 x) \<noteq> 0"
      using kcore_queued_alive [OF assms(1)] kcore_waiting [OF assms(1)] assms(3,6)
      unfolding al tk by auto
  next
    fix j x assume "x \<in> set (?M (Ready j))"
    then have "x \<in> set (L (Ready j))" using assms(7) by (auto simp: mem)
    then show "j < 64 \<and> paused (tsk ?s1 x) = 0"
      using kcore_ready [OF assms(1)] assms(5) unfolding tk by auto
  next
    fix x assume x: "x \<in> alive ?s1" "paused (tsk ?s1 x) = 0" "curr ?s1 \<noteq> Some x"
    then have "x \<noteq> c" using assms(6) unfolding tk by auto
    then show "\<exists>j. x \<in> set (?M (Ready j))"
      using x kcore_runnable [OF assms(1), of x] assms(2) unfolding al tk mem by auto
  next
    fix x assume "x \<in> alive ?s1"
    then show "0 \<le> priority (tsk ?s1 x) \<and> priority (tsk ?s1 x) \<le> TASK_PRIO_LOW"
      using kcore_priority [OF assms(1)] unfolding al tk by auto
  qed
qed

definition interrupted :: "int \<Rightarrow> task \<Rightarrow> bool" where
  "interrupted type u \<longleftrightarrow> (signal_pending u \<or> unseen_events u \<noteq> 0) \<and> \<not> stopped u \<and> type = WAIT_INTR"

lemma suspend_enter_interrupted:
  assumes "curr s = Some c" and "paused (tsk s c) = 0" and "\<And>q. tq = Some q \<Longrightarrow> \<not> is_ready q"
    and "type = WAIT_INTR \<or> type = WAIT_NOINTR" and "interrupted type (tsk s c)"
  shows "suspend_enter tq type s = Some (Some EINTR, upd_task c (unseen_events_update (\<lambda>_. 0)) s)"
proof -
  have "\<not> (case tq of Some (Ready i) \<Rightarrow> True | _ \<Rightarrow> False)"
    using assms(3) by (auto split: option.splits qid.splits)
  then show ?thesis using assms(1,2,4,5) by (auto simp: suspend_enter_def interrupted_def)
qed

lemma suspend_enter_kinv:
  assumes "kinv s L" and "running s L" and "curr s = Some c" and "\<And>q. tq = Some q \<Longrightarrow> \<not> is_ready q"
    and "type = WAIT_INTR \<or> type = WAIT_NOINTR" and "\<not> interrupted type (tsk s c)"
  shows "\<exists>s'. suspend_enter tq type s = Some (None, s') \<and> kinv s' (sleep_queues tq c L) \<and>
           curr s' = Some c \<and> slot s' = slot s \<and> tsk s' = (tsk s)(c := (tsk s c)\<lparr>paused := type\<rparr>)"
proof -
  have tq: "tq_inv s L" and kc: "kcore s L" using assms(1) by (auto simp: kinv_def)
  have c: "c \<in> alive s" "paused (tsk s c) = 0" "\<forall>q. c \<notin> set (L q)"
    using running_not_queued [OF assms(2,3)] by auto
  have nr: "\<not> (case tq of Some (Ready i) \<Rightarrow> True | _ \<Rightarrow> False)"
    using assms(4) by (auto split: option.splits qid.splits)
  let ?s1 = "(upd_task c (paused_update (\<lambda>_. type)) s)\<lparr>task_pcount := task_pcount s + 1\<rparr>"
  have k1: "kcore ?s1 (sleep_queues tq c L)"
    using kcore_suspend [OF kc assms(3) c _ assms(4)] assms(5) by auto
  have tq1: "tq_inv ?s1 L" using tq by (simp add: upd_task_def cong: tq_inv_cong)
  have f1: "tsk ?s1 = (tsk s)(c := (tsk s c)\<lparr>paused := type\<rparr>)" "slot ?s1 = slot s" "curr ?s1 = curr s"
    by (simp_all add: upd_task_def)
  have unf: "suspend_enter tq type s =
      Option.bind (case tq of Some q \<Rightarrow> task_insert q c ?s1 | None \<Rightarrow> Some ?s1) (\<lambda>s2. Some (None, s2))"
    using nr c(2) assms(3,5,6) by (auto simp: suspend_enter_def interrupted_def Let_def)
  show ?thesis
  proof (cases tq)
    case None
    then show ?thesis using unf k1 tq1 f1 assms(3) by (simp add: kinv_def sleep_queues_def)
  next
    case (Some q)
    obtain s2 where s2: "task_insert q c ?s1 = Some s2" "tq_inv s2 (L(q := L q @ [c]))"
      using task_insert_inv [OF tq1, of c q] c(3) by blast
    have st: "same_tasks ?s1 s2" using task_insert_frame [OF s2(1)] by (simp add: same_tasks_def)
    have "kinv s2 (sleep_queues tq c L)"
      using s2(2) k1 kcore_same_tasks [OF st] Some by (simp add: kinv_def sleep_queues_def)
    then show ?thesis using unf s2(1) f1 assms(3) Some same_tasks_fields [OF st] by simp
  qed
qed

lemma task_suspend_enters:
  assumes "kinv s L" and "running s L" and "curr s = Some c" and "\<not> is_ready q"
    and "type = WAIT_INTR \<or> type = WAIT_NOINTR" and "\<not> interrupted type (tsk s c)"
  shows "\<exists>r s' L'. task_suspend (Some q) type s = Some (Inr r, s') \<and> scheduled r s' L' \<and>
                paused (tsk s' c) = type \<and> curr s' \<noteq> Some c \<and> L' q = L q @ [c] \<and>
                (\<forall>p. \<not> is_ready p \<longrightarrow> p \<noteq> q \<longrightarrow> L' p = L p) \<and> alive s' = alive s \<and>
                (\<forall>u. u \<noteq> c \<longrightarrow> paused (tsk s' u) = paused (tsk s u))"
proof -
  obtain s1 where s1: "suspend_enter (Some q) type s = Some (None, s1)" "kinv s1 (sleep_queues (Some q) c L)"
      "curr s1 = Some c" "slot s1 = slot s" "tsk s1 = (tsk s)(c := (tsk s c)\<lparr>paused := type\<rparr>)"
    using suspend_enter_kinv [OF assms(1-3) _ assms(5,6), of "Some q"] assms(4) by auto
  have c: "slot s1 c" "c < TASK_MAX" "paused (tsk s1 c) = type" "type \<noteq> 0"
    using running_not_queued [OF assms(2,3)] s1(4,5) assms(5) by (auto simp: alive_def)
  obtain r s' L' where s': "sched s1 = Some (r, s')" "scheduled r s' L'"
      "slot s' = slot s1"
      "\<forall>p. \<not> is_ready p \<longrightarrow> L' p = sleep_queues (Some q) c L p"
      "\<forall>u. tsk s' u = (tsk s1 u)\<lparr>time_slice := time_slice (tsk s' u)\<rparr>"
    using sched_kinv [OF s1(2,3) c(1,2)] c(3,4) by auto
  have f: "paused (tsk s' u) = paused (tsk s1 u)" "exited (tsk s' u) = exited (tsk s1 u)" for u
    by (subst s'(5) [rule_format], simp)+
  have al: "alive s' = alive s" using f(2) s'(3) s1(4,5) by (auto simp: alive_def)
  have p: "paused (tsk s' c) = type"
    using f(1) [of c] c(3) by simp
  then have "curr s' \<noteq> Some c"
    using s'(2) c(4) by (cases r) (auto simp: scheduled_def running_def)
  moreover have "paused (tsk s' u) = paused (tsk s u)" if "u \<noteq> c" for u using f(1) s1(5) that by simp
  ultimately show ?thesis
    using s1(1) s' p al assms(4) by (auto simp: task_suspend_def sleep_queues_def)
qed

section \<open>Correctness of the scheduler\<close>

text \<open>
  C1: \<^verbatim>\<open>sched\<close> always comes to a decision. Called with a current task that either runs, sleeps or
  has exited, it terminates without a panic (in particular its loop over tasks with
  negative time slices ends), clears \<^verbatim>\<open>resched\<close>, keeps the invariant, changes nothing of a
  task but its time slice, and either runs a live task that is not paused or
  halts because every task sleeps.
\<close>

theorem sched_decides:
  assumes "kinv s L" and "curr s = Some c" and "slot s c" and "c < TASK_MAX"
    and "c \<in> alive s \<Longrightarrow> paused (tsk s c) = 0 \<Longrightarrow> \<forall>q. c \<notin> set (L q)"
  shows "\<exists>r s' L'. sched s = Some (r, s') \<and> scheduled r s' L' \<and> slot s' = slot s \<and>
           (\<forall>q. \<not> is_ready q \<longrightarrow> L' q = L q) \<and>
           (\<forall>u. tsk s' u = (tsk s u)\<lparr>time_slice := time_slice (tsk s' u)\<rparr>)"
  using sched_kinv [OF assms] by blast

theorem sched_decides_witness:
  "\<exists>r s' L'. sched example_state = Some (r, s') \<and> scheduled r s' L' \<and>
     L' (Waitq 0) = [2]"
proof -
  have "\<exists>r s' L'. sched example_state = Some (r, s') \<and> scheduled r s' L' \<and> slot s' = slot example_state \<and>
      (\<forall>q. \<not> is_ready q \<longrightarrow> L' q = example_queues q) \<and>
      (\<forall>u. tsk s' u = (tsk example_state u)\<lparr>time_slice := time_slice (tsk s' u)\<rparr>)"
    by (rule sched_decides [OF example_kinv, of 0]) (auto simp: example_defs)
  then obtain r s' L' where "sched example_state = Some (r, s')" "scheduled r s' L'"
      "\<forall>q. \<not> is_ready q \<longrightarrow> L' q = example_queues q" by blast
  then show ?thesis by (intro exI [of _ r] exI [of _ s'] exI [of _ L']) simp
qed

text \<open>
  Strict priorities. When the ready queues are filed by priority, the task that \<^verbatim>\<open>sched\<close> runs has
  the best (smallest) priority of all live tasks that are not paused.
\<close>

theorem sched_best_priority:
  assumes "kinv s L" and "running s L" and "curr s = Some c" and "by_prio s L"
  shows "\<exists>s' t. sched s = Some (Running, s') \<and> curr s' = Some t \<and> t \<in> alive s \<and> paused (tsk s t) = 0 \<and>
           (\<forall>u. u \<in> alive s \<longrightarrow> paused (tsk s u) = 0 \<longrightarrow> priority (tsk s t) \<le> priority (tsk s u))"
proof -
  have c: "c \<in> alive s" "paused (tsk s c) = 0" "\<forall>q. c \<notin> set (L q)"
    using running_not_queued [OF assms(2,3)] by auto
  then have sc: "slot s c" "c < TASK_MAX" by (simp_all add: alive_def)
  obtain r s' L' where s': "sched s = Some (r, s')" "scheduled r s' L'" "slot s' = slot s"
      "\<forall>u. tsk s' u = (tsk s u)\<lparr>time_slice := time_slice (tsk s' u)\<rparr>"
      "\<forall>t u. curr s' = Some t \<longrightarrow> u \<in> alive s \<longrightarrow> paused (tsk s u) = 0 \<longrightarrow> priority (tsk s t) \<le> priority (tsk s u)"
    using sched_kinv [OF assms(1,3) sc c(3)] assms(4) by blast
  have f: "exited (tsk s' u) = exited (tsk s u)" "paused (tsk s' u) = paused (tsk s u)" for u
    using s'(4) [rule_format, of u] by (metis task.select_convs(14) task.surjective task.update_convs(15))
      (metis s'(4) task.select_convs(17) task.surjective task.update_convs(15))
  have al: "alive s' = alive s" using s'(3) f by (simp add: alive_def)
  have "r = Running"
  proof (rule ccontr)
    assume "r \<noteq> Running"
    then have "alive s' = sleeping s'" using s'(2) by (cases r) (simp_all add: scheduled_def)
    then show False using c al f by (auto simp: sleeping_def)
  qed
  then obtain t where "curr s' = Some t" "t \<in> alive s'" "paused (tsk s' t) = 0"
    using s'(2) by (auto simp: scheduled_def running_def split: option.splits)
  then show ?thesis using s' \<open>r = Running\<close> al f by auto
qed

theorem sched_best_priority_witness:
  "\<exists>s' t. sched example_state = Some (Running, s') \<and> curr s' = Some t \<and> t \<in> {0, 1}"
proof -
  have "by_prio example_state example_queues" by (simp add: by_prio_def example_defs)
  moreover have "curr example_state = Some 0" by (simp add: example_defs)
  ultimately obtain s' t where "sched example_state = Some (Running, s')" "curr s' = Some t"
      "t \<in> alive example_state" "paused (tsk example_state t) = 0"
    using sched_best_priority [OF example_kinv example_running] by blast
  moreover have "paused (tsk example_state 2) \<noteq> 0" by (simp add: example_defs)
  ultimately show ?thesis using example_alive by auto
qed

text \<open>
  C2: \<^verbatim>\<open>task_suspend\<close> called by the running task with a wait queue. If a signal or an unseen event is
  pending, the wait is interruptible and the task is not stopped, it returns \<^verbatim>\<open>EINTR\<close> at once and
  only clears \<^verbatim>\<open>unseen_events\<close>. Otherwise it never returns at once: the task is marked
  paused, appended to the wait queue, and the processor goes on with another task (or
  halts), in a state that satisfies the invariant.
\<close>

theorem task_suspend_sleeps:
  assumes "kinv s L" and "running s L" and "curr s = Some c" and "\<not> is_ready q"
    and "type = WAIT_INTR \<or> type = WAIT_NOINTR"
  shows "if interrupted type (tsk s c)
         then task_suspend (Some q) type s = Some (Inl EINTR, upd_task c (unseen_events_update (\<lambda>_. 0)) s)
         else \<exists>r s' L'. task_suspend (Some q) type s = Some (Inr r, s') \<and> scheduled r s' L' \<and>
                paused (tsk s' c) = type \<and> curr s' \<noteq> Some c \<and> L' q = L q @ [c] \<and>
                (\<forall>p. \<not> is_ready p \<longrightarrow> p \<noteq> q \<longrightarrow> L' p = L p)"
proof (cases "interrupted type (tsk s c)")
  case True
  then show ?thesis
    using suspend_enter_interrupted [of s c "Some q" type] assms running_not_queued [OF assms(2,3)]
    by (simp add: task_suspend_def)
next
  case False
  then show ?thesis using task_suspend_enters [OF assms False] by auto
qed

theorem task_suspend_sleeps_witness:
  "\<exists>r s' L'. task_suspend (Some (Waitq 0)) WAIT_INTR example_state = Some (Inr r, s') \<and>
     scheduled r s' L' \<and> L' (Waitq 0) = [2, 0] \<and> paused (tsk s' 0) = WAIT_INTR"
proof -
  have "\<not> interrupted WAIT_INTR (tsk example_state 0)" by (simp add: interrupted_def example_defs)
  moreover have "curr example_state = Some 0" by (simp add: example_defs)
  ultimately show ?thesis
    using task_suspend_sleeps [OF example_kinv example_running, of 0 "Waitq 0" WAIT_INTR] by auto
qed

end
