(* ===== verification/Signal.thy ===== *)
theory Signal
  imports Sched
begin

text \<open>
  Signals (\<^verbatim>\<open>kern/signal.c\<close>), the event queue of a task (\<^verbatim>\<open>kern/event.c\<close>) and the system calls
  \<^verbatim>\<open>kill\<close>, \<^verbatim>\<open>signal\<close> and \<^verbatim>\<open>_evt_wait\<close> (\<^verbatim>\<open>kern/syscall.c\<close>).

  A signal number is an \<open>int\<close>; entry \<open>sig - 1\<close> of the arrays of \<^verbatim>\<open>struct task\<close> belongs to it.
  \<^verbatim>\<open>signal_handle\<close> runs on the way back to user mode. It either returns, having pushed frames for
  handlers on the user stack (the model lists them), or ends the task: \<^verbatim>\<open>task_exit\<close> does
  not return, so the default action of a deadly signal is the value \<open>Die\<close> with the exit status.
\<close>

section \<open>Sending\<close>

definition signal_send_k :: "tid \<Rightarrow> int \<Rightarrow> 'z kstate_scheme \<Rightarrow> (errno \<times> 'z kstate_scheme) option" where
  "signal_send_k p sig s =
     (if sig < 0 \<or> sig > int SIGMAX then Some (EINVAL, s)
      else if sig = 0 then Some (EZERO, s)
      else
        let n = nat sig in
        if exited (tsk s p) \<or> signal_handler (tsk s p) (n - 1) = SIG_IGN then Some (EZERO, s)
        else do {
          s1 \<leftarrow> (if n = SIGCONT \<or> n = SIGKILL then
                   let s0 = upd_task p (stopped_update (\<lambda>_. False)) s
                   in if paused (tsk s0 p) = WAIT_INTR then task_resume p s0 else Some s0
                 else Some s);
          let s2 = (if n = SIGSTOP then upd_task p (stopped_update (\<lambda>_. True)) s1 else s1);
          let s3 = upd_task p (\<lambda>u. u\<lparr>signal_received := (signal_received u)(n - 1 := True),
                                   signal_pending := True\<rparr>) s2;
          s4 \<leftarrow> (if paused (tsk s3 p) = WAIT_INTR then task_resume p s3 else Some s3);
          Some (EZERO, s4)
        })"

definition signal_send :: "tid \<Rightarrow> int \<Rightarrow> 'z kstate_scheme \<Rightarrow> (errno \<times> 'z kstate_scheme) option" where
  "signal_send p sig s = do {
     c \<leftarrow> curr s;
     if euid (tsk s c) \<noteq> 0 \<and> euid (tsk s c) \<noteq> euid (tsk s p) then Some (EPERM, s)
     else signal_send_k p sig s
   }"

definition signal_fatal :: "tid \<Rightarrow> int \<Rightarrow> 'z kstate_scheme \<Rightarrow> (errno \<times> 'z kstate_scheme) option" where
  "signal_fatal p sig s =
     (if sig < 0 \<or> sig > int SIGMAX then Some (EINVAL, s)
      else if sig = 0 then Some (EZERO, s)
      else
        let n = nat sig;
            s1 = (if signal_handler (tsk s p) (n - 1) = SIG_IGN
                  then upd_task p (signal_handler_update (\<lambda>h. h(n - 1 := SIG_DFL))) s else s)
        in signal_send_k p sig s1)"

definition signal_raise :: "int \<Rightarrow> 'z kstate_scheme \<Rightarrow> (errno \<times> 'z kstate_scheme) option" where
  "signal_raise sig s = do { c \<leftarrow> curr s; signal_send_k c sig s }"

definition signal_raise_fatal :: "int \<Rightarrow> 'z kstate_scheme \<Rightarrow> (errno \<times> 'z kstate_scheme) option" where
  "signal_raise_fatal sig s = do { c \<leftarrow> curr s; signal_fatal c sig s }"

section \<open>Events\<close>

definition send_event :: "tid \<Rightarrow> event \<Rightarrow> 'z kstate_scheme \<Rightarrow> (errno \<times> 'z kstate_scheme) option" where
  "send_event t e s =
     (if event_count (tsk s t) \<ge> EVT_MAX then Some (EAGAIN, s)
      else
        let s1 = upd_task t (\<lambda>u. u\<lparr>event_count := event_count u + 1, unseen_events := unseen_events u + 1,
                                 last_event := (last_event u + 1) mod EVT_MAX\<rparr>) s;
            cnt = event_count (tsk s1 t);
            i = last_event (tsk s1 t);
            s2 = (if cnt > event_high (tsk s1 t) then upd_task t (event_high_update (\<lambda>_. cnt)) s1 else s1);
            s3 = upd_task t (event_update (\<lambda>ev. ev(nat i := e))) s2
        in do { (_, s4) \<leftarrow> signal_send_k t (int SIGEVT) s3; Some (EZERO, s4) })"

abbreviation (input) E_WINGUI :: int where "E_WINGUI \<equiv> 1"
abbreviation (input) E_SIGNAL :: int where "E_SIGNAL \<equiv> 2"
abbreviation (input) WIN_E_PTR_MOVE :: int where "WIN_E_PTR_MOVE \<equiv> 3"

text \<open>
  The loop of \<^verbatim>\<open>sys__evt_wait\<close> that sets \<^verbatim>\<open>win.more\<close> in a pointer movement when another one is
  queued behind it. It looks at \<^verbatim>\<open>win.type\<close> of every event, whatever its type.
\<close>

fun more_moves :: "task \<Rightarrow> nat \<Rightarrow> int \<Rightarrow> bool" where
  "more_moves u 0 i = False"
| "more_moves u (Suc cnt) i =
     (if ev_u0 (event u (nat i)) = WIN_E_PTR_MOVE then True else more_moves u cnt ((i + 1) mod EVT_MAX))"

definition mark_more :: "task \<Rightarrow> task" where
  "mark_more u =
     (let f = nat (first_event u); e = event u f
      in if ev_type e = E_WINGUI \<and> ev_u0 e = WIN_E_PTR_MOVE \<and>
            more_moves u (nat (event_count u - 1)) ((first_event u + 1) mod EVT_MAX)
         then u\<lparr>event := (event u)(f := e\<lparr>ev_more := 1\<rparr>)\<rparr> else u)"

text \<open>
  The part of \<^verbatim>\<open>sys__evt_wait\<close> after its loop; \<open>cpy\<close> is the result of copying the event to user
  memory. The event is returned to the user as the second component.
\<close>

definition evt_take :: "errno \<Rightarrow> tid \<Rightarrow> 'z kstate_scheme \<Rightarrow> (errno + event) \<times> 'z kstate_scheme" where
  "evt_take cpy c s =
     (let s1 = upd_task c mark_more s;
          e = event (tsk s1 c) (nat (first_event (tsk s1 c)))
      in if cpy \<noteq> EZERO then (Inl cpy, s1)
         else (Inr e, upd_task c (\<lambda>u. u\<lparr>first_event := (first_event u + 1) mod EVT_MAX,
                                        unseen_events := 0, event_count := event_count u - 1\<rparr>) s1))"

definition sys_evt_count :: "'z kstate_scheme \<Rightarrow> (int \<times> 'z kstate_scheme) option" where
  "sys_evt_count s = do {
     c \<leftarrow> curr s;
     Some (event_count (tsk s c), upd_task c (unseen_events_update (\<lambda>_. 0)) s)
   }"

text \<open>
  \<^verbatim>\<open>sys__evt_wait\<close>: \<open>Inl r\<close> is a return to the caller, \<open>Inr r\<close> the processor's outcome when the task
  went to sleep on the queue \<open>tq\<close>; the loop is entered again when the task runs.
\<close>

partial_function (option) sys_evt_wait ::
    "qid \<Rightarrow> errno \<Rightarrow> 'z kstate_scheme \<Rightarrow> (((errno + event) + outcome) \<times> 'z kstate_scheme) option" where
  "sys_evt_wait tq cpy s =
     (case curr s of
        None \<Rightarrow> None
      | Some c \<Rightarrow>
          if event_count (tsk s c) = 0 then
            if signal_pending (tsk s c) then Some (Inl (Inl EINTR), s)
            else (case task_suspend (Some tq) WAIT_INTR s of
                    None \<Rightarrow> None
                  | Some (Inl e, s1) \<Rightarrow> sys_evt_wait tq cpy s1
                  | Some (Inr r, s1) \<Rightarrow> Some (Inr r, s1))
          else (case evt_take cpy c s of (r, s1) \<Rightarrow> Some (Inl r, s1)))"

section \<open>Handling\<close>

datatype sigact = Cont | Die nat

definition core_signals :: "nat list" where
  "core_signals = [3, 4, 5, 6, 7, 8, 11, 31, 32]"

definition signal_default :: "(nat \<Rightarrow> errno) \<Rightarrow> nat \<Rightarrow> sigact" where
  "signal_default dump_core i =
     (if i \<in> {SIGSTOP, SIGCONT, SIGCHLD, SIGEVT} then Cont
      else if i \<in> set core_signals then (if dump_core (i + 128) \<noteq> EZERO then Die i else Die (i + 128))
      else Die i)"

type_synonym frames = "(nat \<times> handler) list"

text \<open>
  Pushing a word on the user's stack. Every push goes to the next lower address, so what the copy of the \<open>n\<close>-th word does is a function \<open>tu\<close> of \<open>n\<close>: the
  result of \<^verbatim>\<open>tucpy\<close>, and whether its check of the address raised \<^verbatim>\<open>SIGSEGV\<close> (\<^verbatim>\<open>range_chk\<close> and \<^verbatim>\<open>uga\<close> in \<^verbatim>\<open>umem.c\<close>). \<^verbatim>\<open>upush\<close> raises \<^verbatim>\<open>SIGSTK\<close> when the
  copy failed, and \<^verbatim>\<open>signal_push\<close> goes on all the same.
\<close>

type_synonym ustack = "nat \<Rightarrow> errno \<times> bool"

definition upush :: "ustack \<Rightarrow> nat \<Rightarrow> 'z kstate_scheme \<Rightarrow> 'z kstate_scheme option" where
  "upush tu n s = do {
     s1 \<leftarrow> (if snd (tu n) then map_option snd (signal_raise (int SIGSEGV) s) else Some s);
     if fst (tu n) \<noteq> EZERO then map_option snd (signal_raise (int SIGSTK) s1) else Some s1
   }"

definition signal_push :: "ustack \<Rightarrow> nat \<Rightarrow> 'z kstate_scheme \<Rightarrow> 'z kstate_scheme option" where
  "signal_push tu n s = do {
     s1 \<leftarrow> upush tu n s;
     s2 \<leftarrow> upush tu (n + 1) s1;
     upush tu (n + 2) s2
   }"

definition signal_dispatch :: "ustack \<Rightarrow> nat \<Rightarrow> tid \<Rightarrow> nat \<Rightarrow> 'z kstate_scheme \<Rightarrow> (frames \<times> 'z kstate_scheme) option" where
  "signal_dispatch tu n c nr s = do {
     let h = signal_handler (tsk s c) (nr - 1);
     (fr, s1) \<leftarrow>
       (if signal_use_event (tsk s c) (nr - 1) then do {
          (_, s1) \<leftarrow> send_event c (zero_event\<lparr>ev_type := E_SIGNAL, ev_u0 := int nr, ev_proc := h\<rparr>) s;
          Some ([], s1)
        }
        else do {
          s1 \<leftarrow> signal_push tu n s;
          Some ([(nr, h)], s1)
        });
     Some (fr, upd_task c (signal_handler_update (\<lambda>g. g(nr - 1 := SIG_DFL))) s1)
   }"

text \<open>The \<^verbatim>\<open>for\<close> loop over the signals, and the \<^verbatim>\<open>while\<close> loop around it; \<open>n\<close> words have been pushed before.\<close>

fun signal_pass ::
    "(nat \<Rightarrow> errno) \<Rightarrow> ustack \<Rightarrow> nat \<Rightarrow> tid \<Rightarrow> nat list \<Rightarrow> 'z kstate_scheme \<Rightarrow> (sigact \<times> frames \<times> 'z kstate_scheme) option" where
  "signal_pass dump tu n c [] s = Some (Cont, [], s)"
| "signal_pass dump tu n c (i # is) s =
     (if \<not> signal_received (tsk s c) (i - 1) then signal_pass dump tu n c is s
      else
        let s1 = upd_task c (signal_received_update (\<lambda>r. r(i - 1 := False))) s
        in case signal_handler (tsk s1 c) (i - 1) of
             SIG_IGN \<Rightarrow> signal_pass dump tu n c is s1
           | SIG_DFL \<Rightarrow> (case signal_default dump i of
                          Cont \<Rightarrow> signal_pass dump tu n c is s1
                        | Die st \<Rightarrow> Some (Die st, [], s1))
           | Handler h \<Rightarrow> do {
               (fr, s2) \<leftarrow> signal_dispatch tu n c i s1;
               (r, fr2, s3) \<leftarrow> signal_pass dump tu (n + 3 * length fr) c is s2;
               Some (r, fr @ fr2, s3)
             })"

partial_function (option) signal_handle ::
    "(nat \<Rightarrow> errno) \<Rightarrow> ustack \<Rightarrow> nat \<Rightarrow> 'z kstate_scheme \<Rightarrow> (sigact \<times> frames \<times> 'z kstate_scheme) option" where
  "signal_handle dump tu n s =
     (case curr s of
        None \<Rightarrow> None
      | Some c \<Rightarrow>
          if \<not> signal_pending (tsk s c) then Some (Cont, [], s)
          else
            (case signal_pass dump tu n c [1..<Suc SIGMAX] (upd_task c (signal_pending_update (\<lambda>_. False)) s) of
               None \<Rightarrow> None
             | Some (Die st, fr, s1) \<Rightarrow> Some (Die st, fr, s1)
             | Some (Cont, fr, s1) \<Rightarrow>
                 Option.bind (signal_handle dump tu (n + 3 * length fr) s1) (\<lambda>(r, fr2, s2). Some (r, fr @ fr2, s2))))"

section \<open>System calls\<close>

text \<open>The loop of \<^verbatim>\<open>sys_kill\<close> over the task table, and \<^verbatim>\<open>sys_kill\<close>.\<close>

fun kill_loop :: "int \<Rightarrow> int \<Rightarrow> tid list \<Rightarrow> errno \<Rightarrow> 'z kstate_scheme \<Rightarrow> (errno \<times> 'z kstate_scheme) option" where
  "kill_loop p sig [] err s = Some (err, s)"
| "kill_loop p sig (i # is) err s =
     (if slot s i \<and> (pid (tsk s i) = p \<or> p = -1) \<and> \<not> (p = -1 \<and> (curr s = Some i \<or> init s = i)) then do {
        (e, s1) \<leftarrow> signal_send i sig s;
        kill_loop p sig is (if err = EZERO \<or> err = ESRCH then e else err) s1
      }
      else kill_loop p sig is err s)"

definition sys_kill :: "int \<Rightarrow> int \<Rightarrow> 'z kstate_scheme \<Rightarrow> (errno \<times> 'z kstate_scheme) option" where
  "sys_kill p sig s =
     (if p = 0 then do { c \<leftarrow> curr s; signal_send c sig s }
      else kill_loop p sig [0..<TASK_MAX] ESRCH s)"

text \<open>The exited children of the current task, handed to init or announced to the task.\<close>

fun chld_loop :: "bool \<Rightarrow> tid list \<Rightarrow> 'z kstate_scheme \<Rightarrow> 'z kstate_scheme option" where
  "chld_loop ignore [] s = Some s"
| "chld_loop ignore (i # is) s = do {
     c \<leftarrow> curr s;
     s1 \<leftarrow> (if slot s i \<and> parent (tsk s i) = c \<and> exited (tsk s i) then
              (if ignore then map_option snd (signal_send_k (init s) (int SIGCHLD) (upd_task i (parent_update (\<lambda>_. init s)) s))
               else map_option snd (signal_raise (int SIGCHLD) s))
            else Some s);
     chld_loop ignore is s1
   }"

definition setup_chld :: "handler \<Rightarrow> 'z kstate_scheme \<Rightarrow> 'z kstate_scheme option" where
  "setup_chld h s =
     (case h of
        SIG_IGN \<Rightarrow> if curr s = Some (init s) then Some s else chld_loop True [0..<TASK_MAX] s
      | SIG_DFL \<Rightarrow> Some s
      | Handler a \<Rightarrow> chld_loop False [0..<TASK_MAX] s)"

text \<open>
  \<^verbatim>\<open>sys_signal\<close> accepts \<open>sig = 0\<close> and then accesses \<^verbatim>\<open>signal_handler[-1]\<close>, before the start of the
  array: \<open>None\<close>.
\<close>

definition sys_signal :: "int \<Rightarrow> handler \<Rightarrow> 'z kstate_scheme \<Rightarrow> ((errno + handler) \<times> 'z kstate_scheme) option" where
  "sys_signal sig handler s =
     (if sig < 0 \<or> sig > int SIGMAX then Some (Inl EINVAL, s)
      else if (sig = int SIGKILL \<or> sig = int SIGSTOP) \<and> handler \<noteq> SIG_DFL then Some (Inl EINVAL, s)
      else do {
        c \<leftarrow> curr s;
        let h = (if (sig = int SIGEVT \<or> sig = int SIGCONT) \<and> handler = SIG_IGN then SIG_DFL else handler);
        if sig = 0 then None
        else do {
          let n = nat sig - 1;
          let prev = signal_handler (tsk s c) n;
          let s1 = upd_task c (\<lambda>u. u\<lparr>signal_handler := (signal_handler u)(n := h),
                                  signal_use_event := (signal_use_event u)(n := False)\<rparr>) s;
          s2 \<leftarrow> (if sig = int SIGCHLD then setup_chld h s1 else Some s1);
          Some (Inr prev, s2)
        }
      })"

definition sys_evt_signal :: "int \<Rightarrow> handler \<Rightarrow> 'z kstate_scheme \<Rightarrow> (errno \<times> 'z kstate_scheme) option" where
  "sys_evt_signal sig handler s =
     (if sig < 1 \<or> sig > int SIGMAX then Some (EINVAL, s)
      else if (sig = int SIGKILL \<or> sig = int SIGSTOP) \<and> handler \<noteq> SIG_DFL then Some (EZERO, s)
      else do {
        c \<leftarrow> curr s;
        let h = (if sig = int SIGCONT \<and> handler = SIG_IGN then SIG_DFL else handler);
        let n = nat sig - 1;
        let s1 = upd_task c (\<lambda>u. u\<lparr>signal_handler := (signal_handler u)(n := h),
                                signal_use_event := (signal_use_event u)(n := True)\<rparr>) s;
        s2 \<leftarrow> (if sig = int SIGCHLD then setup_chld h s1 else Some s1);
        Some (EZERO, s2)
      })"

section \<open>Steps that keep the scheduler's data consistent\<close>

text \<open>
  What sending signals and events does to the kernel state, seen from the scheduler: tasks may
  become ready, and nothing else of what the invariant speaks about changes.
\<close>

definition evolves ::
    "'z kstate_scheme \<Rightarrow> (qid \<Rightarrow> tid list) \<Rightarrow> 'z kstate_scheme \<Rightarrow> (qid \<Rightarrow> tid list) \<Rightarrow> bool" where
  "evolves s L s' L' \<longleftrightarrow>
     kinv s' L' \<and> slot s' = slot s \<and> curr s' = curr s \<and> init s' = init s \<and> last_pid s' = last_pid s \<and>
     (\<forall>u. exited (tsk s' u) = exited (tsk s u) \<and> parent (tsk s' u) = parent (tsk s u) \<and>
          priority (tsk s' u) = priority (tsk s u) \<and> pid (tsk s' u) = pid (tsk s u) \<and>
          euid (tsk s' u) = euid (tsk s u) \<and> (paused (tsk s u) = 0 \<longrightarrow> paused (tsk s' u) = 0)) \<and>
     (running s L \<longrightarrow> running s' L')"

lemma evolves_refl: "kinv s L \<Longrightarrow> evolves s L s L"
  by (simp add: evolves_def)

lemma evolves_trans: "evolves s L s' L' \<Longrightarrow> evolves s' L' s'' L'' \<Longrightarrow> evolves s L s'' L''"
  by (simp add: evolves_def)

lemma evolves_kinv: "evolves s L s' L' \<Longrightarrow> kinv s' L'"
  by (simp add: evolves_def)

lemma evolves_fields:
  "evolves s L s' L' \<Longrightarrow> slot s' = slot s \<and> curr s' = curr s \<and> init s' = init s \<and>
     exited (tsk s' u) = exited (tsk s u) \<and> euid (tsk s' u) = euid (tsk s u) \<and>
     parent (tsk s' u) = parent (tsk s u) \<and> pid (tsk s' u) = pid (tsk s u)"
  by (simp add: evolves_def)

lemma evolves_alive: "evolves s L s' L' \<Longrightarrow> alive s' = alive s"
  by (simp add: evolves_def alive_def)

text \<open>An update of the fields that the scheduler does not look at.\<close>

definition harmless :: "(task \<Rightarrow> task) \<Rightarrow> bool" where
  "harmless f \<longleftrightarrow> (\<forall>u. exited (f u) = exited u \<and> parent (f u) = parent u \<and> priority (f u) = priority u \<and>
     pid (f u) = pid u \<and> euid (f u) = euid u \<and> paused (f u) = paused u)"

lemma harmless_kcore:
  assumes "harmless f"
  shows "kcore (upd_task t f s) L = kcore s L"
proof -
  have "alive (upd_task t f s) = alive s" using assms by (auto simp: alive_def upd_task_def harmless_def)
  moreover from this have "sleeping (upd_task t f s) = sleeping s"
    using assms by (auto simp: sleeping_def upd_task_def harmless_def)
  moreover have "paused (tsk (upd_task t f s) u) = paused (tsk s u)"
      "priority (tsk (upd_task t f s) u) = priority (tsk s u)" for u
    using assms by (auto simp: upd_task_def harmless_def)
  ultimately show ?thesis by (simp add: kcore_def) (simp add: upd_task_def)
qed

lemma evolves_upd:
  assumes "kinv s L" and "harmless f"
  shows "evolves s L (upd_task t f s) L"
proof -
  have "tq_inv (upd_task t f s) L" using assms(1) by (simp add: kinv_def upd_task_def cong: tq_inv_cong)
  then have "kinv (upd_task t f s) L" using assms(1) harmless_kcore [OF assms(2), of t s L] by (simp add: kinv_def)
  then show ?thesis using assms(2)
    by (auto simp: evolves_def upd_task_def harmless_def running_def alive_def split: option.splits)
qed

lemma running_resume:
  assumes "running s L" and "tsk s' = (tsk s)(t := resumed (tsk s t))" and "slot s' = slot s"
    and "curr s' = curr s"
  shows "running s' (resume_queues s t L)"
  using assms set_remove1_subset [of t]
  by (auto simp: running_def resume_queues_def Let_def alive_def resumed_def split: option.splits if_splits)

lemma evolves_resume:
  assumes "kinv s L" and "t \<in> alive s"
  shows "\<exists>s' L'. task_resume t s = Some s' \<and> evolves s L s' L' \<and>
           tsk s' = (tsk s)(t := if paused (tsk s t) = 0 then tsk s t else resumed (tsk s t))"
proof (cases "paused (tsk s t) = 0")
  case True
  then show ?thesis using task_resume_awake [OF assms(2)] evolves_refl [OF assms(1)] by auto
next
  case False
  then have "t \<in> sleeping s" using assms(2) by (simp add: sleeping_def)
  then obtain s' where s': "task_resume t s = Some s'" "kinv s' (resume_queues s t L)"
      "tsk s' = (tsk s)(t := resumed (tsk s t))" "slot s' = slot s" "curr s' = curr s"
      "init s' = init s" "last_pid s' = last_pid s"
    using task_resume_kinv [OF assms(1)] by blast
  have "evolves s L s' (resume_queues s t L)"
    using s' running_resume [of s L s' t] by (auto simp: evolves_def resumed_def)
  then show ?thesis using s' False by auto
qed

lemma harmless_simps [simp]:
  "harmless (stopped_update f)" "harmless (signal_handler_update g)"
  "harmless (signal_received_update r)" "harmless (signal_pending_update b)"
  "harmless (unseen_events_update i)" "harmless (event_high_update i)" "harmless (event_update ev)"
  by (auto simp: harmless_def)

section \<open>Delivery of a signal\<close>

definition sent :: "nat \<Rightarrow> task \<Rightarrow> task \<Rightarrow> bool" where
  "sent n u v \<longleftrightarrow>
     signal_received v = (signal_received u)(n - 1 := True) \<and> signal_pending v \<and>
     signal_handler v = signal_handler u \<and> signal_use_event v = signal_use_event u \<and>
     paused v = (if paused u = WAIT_INTR then 0 else paused u) \<and>
     stopped v = (if n = SIGSTOP then True else if n = SIGCONT \<or> n = SIGKILL then False else stopped u) \<and>
     event v = event u \<and> event_count v = event_count u \<and> first_event v = first_event u \<and>
     last_event v = last_event u \<and> unseen_events v = unseen_events u \<and> event_high v = event_high u"

lemma resume_if_intr:
  assumes "kinv s L" and "p \<in> alive s"
  shows "\<exists>s' L'. (if paused (tsk s p) = WAIT_INTR then task_resume p s else Some s) = Some s' \<and>
           evolves s L s' L' \<and>
           tsk s' = (tsk s)(p := if paused (tsk s p) = WAIT_INTR then resumed (tsk s p) else tsk s p)"
  using evolves_resume [OF assms] evolves_refl [OF assms(1)] by auto

lemma signal_send_k_sent:
  assumes "kinv s L" and "p \<in> alive s" and "1 \<le> n" and "n \<le> SIGMAX"
    and "signal_handler (tsk s p) (n - 1) \<noteq> SIG_IGN"
  shows "\<exists>s' L'. signal_send_k p (int n) s = Some (EZERO, s') \<and> evolves s L s' L' \<and>
           sent n (tsk s p) (tsk s' p) \<and> (\<forall>u. u \<noteq> p \<longrightarrow> tsk s' u = tsk s u)"
proof -
  define k where "k \<longleftrightarrow> n = SIGCONT \<or> n = SIGKILL"
  have "\<exists>s1 L1. (if k then let s0 = upd_task p (stopped_update (\<lambda>_. False)) s
                   in if paused (tsk s0 p) = WAIT_INTR then task_resume p s0 else Some s0
                 else Some s) = Some s1 \<and> evolves s L s1 L1 \<and>
          tsk s1 = (tsk s)(p := if k then (if paused (tsk s p) = WAIT_INTR
            then resumed ((tsk s p)\<lparr>stopped := False\<rparr>) else (tsk s p)\<lparr>stopped := False\<rparr>) else tsk s p)"
  proof (cases k)
    case True
    let ?s0 = "upd_task p (stopped_update (\<lambda>_. False)) s"
    have e0: "evolves s L ?s0 L" by (rule evolves_upd [OF assms(1)]) simp
    obtain s1 L1 where "(if paused (tsk ?s0 p) = WAIT_INTR then task_resume p ?s0 else Some ?s0) = Some s1"
        "evolves ?s0 L s1 L1"
        "tsk s1 = (tsk ?s0)(p := if paused (tsk ?s0 p) = WAIT_INTR then resumed (tsk ?s0 p) else tsk ?s0 p)"
      using resume_if_intr [OF evolves_kinv [OF e0]] assms(2) evolves_alive [OF e0] by blast
    moreover have "evolves s L s1 L1" by (rule evolves_trans [OF e0]) fact
    ultimately show ?thesis using True by (auto simp: upd_task_def)
  qed (use evolves_refl [OF assms(1)] in auto)
  then obtain s1 L1 where s1: "(if k then let s0 = upd_task p (stopped_update (\<lambda>_. False)) s
                   in if paused (tsk s0 p) = WAIT_INTR then task_resume p s0 else Some s0
                 else Some s) = Some s1" "evolves s L s1 L1"
      "tsk s1 = (tsk s)(p := if k then (if paused (tsk s p) = WAIT_INTR
            then resumed ((tsk s p)\<lparr>stopped := False\<rparr>) else (tsk s p)\<lparr>stopped := False\<rparr>) else tsk s p)"
    by blast
  define f where "f = (\<lambda>u::task. u\<lparr>signal_received := (signal_received u)(n - 1 := True), signal_pending := True\<rparr>)"
  define s2 where "s2 = (if n = SIGSTOP then upd_task p (stopped_update (\<lambda>_. True)) s1 else s1)"
  have e2: "evolves s L s2 L1"
    unfolding s2_def using s1(2) evolves_trans [OF s1(2) evolves_upd [OF evolves_kinv [OF s1(2)]]] by simp
  have hf: "harmless f" by (simp add: harmless_def f_def)
  note e3 = evolves_trans [OF e2 evolves_upd [OF evolves_kinv [OF e2] hf, of p]]
  obtain s4 L4 where s4: "(if paused (tsk (upd_task p f s2) p) = WAIT_INTR then task_resume p (upd_task p f s2)
        else Some (upd_task p f s2)) = Some s4" "evolves (upd_task p f s2) L1 s4 L4"
      "tsk s4 = (tsk (upd_task p f s2))(p := if paused (tsk (upd_task p f s2) p) = WAIT_INTR
         then resumed (tsk (upd_task p f s2) p) else tsk (upd_task p f s2) p)"
    using resume_if_intr [OF evolves_kinv [OF e3], of p] evolves_alive [OF e3] assms(2) by blast
  have "signal_send_k p (int n) s = Some (EZERO, s4)"
  proof -
    have g: "signal_handler (tsk s p) (nat (int n) - 1) \<noteq> SIG_IGN" "\<not> exited (tsk s p)"
        "\<not> (int n < 0 \<or> int n > int SIGMAX)" "int n \<noteq> 0"
      using assms(2-5) by (simp_all add: alive_def)
    show ?thesis
      unfolding signal_send_k_def Let_def nat_int
      using g s1(1) s4(1) unfolding k_def f_def s2_def Let_def by simp
  qed
  moreover have "sent n (tsk s p) (tsk s4 p) \<and> (\<forall>u. u \<noteq> p \<longrightarrow> tsk s4 u = tsk s u)"
    using s1(3) s4(3) by (auto simp: sent_def s2_def f_def k_def upd_task_def resumed_def)
  ultimately show ?thesis using evolves_trans [OF e3 s4(2)] by blast
qed

lemma signal_send_k_evolves:
  assumes "kinv s L" and "slot s p" and "p < TASK_MAX"
  shows "\<exists>e s' L'. signal_send_k p sig s = Some (e, s') \<and> evolves s L s' L'"
proof (cases "sig \<le> 0 \<or> sig > int SIGMAX \<or> exited (tsk s p) \<or> signal_handler (tsk s p) (nat sig - 1) = SIG_IGN")
  case True
  then have "\<exists>e. signal_send_k p sig s = Some (e, s)"
    unfolding signal_send_k_def Let_def by (cases "sig = 0") auto
  then show ?thesis using evolves_refl [OF assms(1)] by blast
next
  case False
  then have "p \<in> alive s" using assms by (simp add: alive_def)
  then show ?thesis using signal_send_k_sent [OF assms(1), of p "nat sig"] False by fastforce
qed

section \<open>Events and the handling of signals\<close>

definition queued_event :: "event \<Rightarrow> task \<Rightarrow> task" where
  "queued_event e u =
     (let i = (last_event u + 1) mod EVT_MAX
      in u\<lparr>event_count := event_count u + 1, unseen_events := unseen_events u + 1, last_event := i,
           event_high := (if event_count u + 1 > event_high u then event_count u + 1 else event_high u),
           event := (event u)(nat i := e)\<rparr>)"

lemma harmless_queued [simp]: "harmless (queued_event e)"
  by (simp add: harmless_def queued_event_def Let_def)

lemma send_event_unfold:
  "send_event t e s =
     (if event_count (tsk s t) \<ge> EVT_MAX then Some (EAGAIN, s)
      else Option.bind (signal_send_k t (int SIGEVT) (upd_task t (queued_event e) s)) (\<lambda>(_, s4). Some (EZERO, s4)))"
proof -
  have "(let s1 = upd_task t (\<lambda>u. u\<lparr>event_count := event_count u + 1, unseen_events := unseen_events u + 1,
                                 last_event := (last_event u + 1) mod EVT_MAX\<rparr>) s;
            cnt = event_count (tsk s1 t);
            i = last_event (tsk s1 t);
            s2 = (if cnt > event_high (tsk s1 t) then upd_task t (event_high_update (\<lambda>_. cnt)) s1 else s1)
        in upd_task t (event_update (\<lambda>ev. ev(nat i := e))) s2) = upd_task t (queued_event e) s"
    by (cases "tsk s t") (auto simp: upd_task_def queued_event_def Let_def)
  then show ?thesis by (simp only: send_event_def Let_def)
qed

text \<open>What a task's own signal state goes through while an event is sent to it.\<close>

definition poked :: "task \<Rightarrow> task \<Rightarrow> bool" where
  "poked u v \<longleftrightarrow>
     signal_handler v = signal_handler u \<and> signal_use_event v = signal_use_event u \<and>
     (signal_pending u \<longrightarrow> signal_pending v) \<and>
     (\<not> signal_pending v \<longrightarrow> signal_received v = signal_received u)"

lemma send_event_evolves:
  assumes "kinv s L" and "slot s t" and "t < TASK_MAX"
  shows "\<exists>r s' L'. send_event t e s = Some (r, s') \<and> evolves s L s' L' \<and> poked (tsk s t) (tsk s' t)"
proof (cases "event_count (tsk s t) \<ge> EVT_MAX")
  case True
  then show ?thesis using evolves_refl [OF assms(1)] by (simp add: send_event_def poked_def) blast
next
  case False
  let ?s3 = "upd_task t (queued_event e) s"
  have e3: "evolves s L ?s3 L" by (rule evolves_upd [OF assms(1)]) simp
  have q: "signal_handler (tsk ?s3 t) = signal_handler (tsk s t)" "exited (tsk ?s3 t) = exited (tsk s t)"
      "signal_use_event (tsk ?s3 t) = signal_use_event (tsk s t)" "signal_pending (tsk ?s3 t) = signal_pending (tsk s t)"
      "signal_received (tsk ?s3 t) = signal_received (tsk s t)"
    by (simp_all add: upd_task_def queued_event_def Let_def)
  show ?thesis
  proof (cases "exited (tsk s t) \<or> signal_handler (tsk s t) (SIGEVT - 1) = SIG_IGN")
    case True
    then have "signal_send_k t (int SIGEVT) ?s3 = Some (EZERO, ?s3)"
      using q by (simp add: signal_send_k_def)
    then show ?thesis
      using False e3 q by (auto simp: send_event_unfold poked_def)
  next
    case F2: False
    have "t \<in> alive ?s3" using assms(2,3) F2 q(2) by (simp add: alive_def upd_task_def)
    then obtain s4 L4 where s4: "signal_send_k t (int SIGEVT) ?s3 = Some (EZERO, s4)" "evolves ?s3 L s4 L4"
        "sent SIGEVT (tsk ?s3 t) (tsk s4 t)"
      using signal_send_k_sent [OF evolves_kinv [OF e3], of t SIGEVT] F2 q(1) by auto
    then show ?thesis
      using False q evolves_trans [OF e3 s4(2)] by (auto simp: send_event_unfold poked_def sent_def)
  qed
qed

definition handled :: "task \<Rightarrow> nat set" where
  "handled u = {i. i < SIGMAX \<and> signal_handler u i \<noteq> SIG_DFL \<and> signal_handler u i \<noteq> SIG_IGN}"

lemma finite_handled [simp]: "finite (handled u)"
  by (simp add: handled_def)

lemma poked_trans: "poked u v \<Longrightarrow> poked v w \<Longrightarrow> poked u w"
  by (auto simp: poked_def)

lemma signal_raise_evolves:
  assumes "kinv s L" and "running s L" and "curr s = Some c" and "1 \<le> n" and "n \<le> SIGMAX"
  shows "\<exists>s' L'. map_option snd (signal_raise (int n) s) = Some s' \<and> evolves s L s' L' \<and> poked (tsk s c) (tsk s' c)"
proof (cases "signal_handler (tsk s c) (n - 1) = SIG_IGN")
  case True
  then show ?thesis using assms evolves_refl [OF assms(1)] by (auto simp: signal_raise_def signal_send_k_def poked_def)
next
  case False
  have "c \<in> alive s" using running_not_queued [OF assms(2,3)] by blast
  then obtain s' L' where "signal_send_k c (int n) s = Some (EZERO, s')" "evolves s L s' L'" "sent n (tsk s c) (tsk s' c)"
    using signal_send_k_sent [OF assms(1) _ assms(4,5) False] by blast
  then show ?thesis using assms(3) by (auto simp: signal_raise_def poked_def sent_def)
qed

lemma upush_evolves:
  assumes "kinv s L" and "running s L" and "curr s = Some c"
  shows "\<exists>s' L'. upush tu n s = Some s' \<and> evolves s L s' L' \<and> poked (tsk s c) (tsk s' c)"
proof -
  have refl: "evolves s L s L \<and> poked (tsk s c) (tsk s c)" if "kinv s L" for s :: "'a kstate_scheme" and L
    using evolves_refl [OF that] by (simp add: poked_def)
  obtain s1 L1 where s1: "(if snd (tu n) then map_option snd (signal_raise (int SIGSEGV) s) else Some s) = Some s1"
      "evolves s L s1 L1" "poked (tsk s c) (tsk s1 c)"
    using signal_raise_evolves [OF assms, of SIGSEGV] refl [OF assms(1)] by (cases "snd (tu n)") auto
  have r1: "kinv s1 L1" "running s1 L1" "curr s1 = Some c" using s1(2) assms(2,3) by (simp_all add: evolves_def)
  obtain s2 L2 where s2: "(if fst (tu n) \<noteq> EZERO then map_option snd (signal_raise (int SIGSTK) s1) else Some s1) = Some s2"
      "evolves s1 L1 s2 L2" "poked (tsk s1 c) (tsk s2 c)"
    using signal_raise_evolves [OF r1, of SIGSTK] refl [OF r1(1)] by (cases "fst (tu n) \<noteq> EZERO") auto
  have "upush tu n s = Some s2" unfolding upush_def s1(1) by (simp add: s2(1))
  then show ?thesis using evolves_trans [OF s1(2) s2(2)] poked_trans [OF s1(3) s2(3)] by blast
qed

lemma signal_push_evolves:
  assumes "kinv s L" and "running s L" and "curr s = Some c"
  shows "\<exists>s' L'. signal_push tu n s = Some s' \<and> evolves s L s' L' \<and> poked (tsk s c) (tsk s' c)"
proof -
  have go: "kinv s' L'" "running s' L'" "curr s' = Some c" if "evolves s L s' L'" for s' L'
    using that assms(2,3) by (simp_all add: evolves_def)
  obtain s1 L1 where s1: "upush tu n s = Some s1" "evolves s L s1 L1" "poked (tsk s c) (tsk s1 c)"
    using upush_evolves [OF assms] by blast
  obtain s2 L2 where s2: "upush tu (n + 1) s1 = Some s2" "evolves s1 L1 s2 L2" "poked (tsk s1 c) (tsk s2 c)"
    using upush_evolves [OF go [OF s1(2)]] by blast
  note e2 = evolves_trans [OF s1(2) s2(2)] and p2 = poked_trans [OF s1(3) s2(3)]
  obtain s3 L3 where s3: "upush tu (n + 2) s2 = Some s3" "evolves s2 L2 s3 L3" "poked (tsk s2 c) (tsk s3 c)"
    using upush_evolves [OF go [OF e2]] by blast
  show ?thesis using s1(1) s2(1) s3(1) evolves_trans [OF e2 s3(2)] poked_trans [OF p2 s3(3)] by (auto simp: signal_push_def)
qed

lemma signal_dispatch_evolves:
  assumes "kinv s L" and "running s L" and "curr s = Some c"
  shows "\<exists>fr s' L'. signal_dispatch tu n c nr s = Some (fr, s') \<and> evolves s L s' L' \<and>
           signal_handler (tsk s' c) = (signal_handler (tsk s c))(nr - 1 := SIG_DFL) \<and>
           (signal_pending (tsk s c) \<longrightarrow> signal_pending (tsk s' c)) \<and>
           (\<not> signal_pending (tsk s' c) \<longrightarrow> signal_received (tsk s' c) = signal_received (tsk s c))"
proof -
  let ?g = "signal_handler_update (\<lambda>g. g(nr - 1 := SIG_DFL))"
  have c: "slot s c" "c < TASK_MAX" using running_not_queued [OF assms(2,3)] by (auto simp: alive_def)
  have fin: "evolves s L (upd_task c ?g s1) L1 \<and>
      signal_handler (tsk (upd_task c ?g s1) c) = (signal_handler (tsk s c))(nr - 1 := SIG_DFL) \<and>
      (signal_pending (tsk s c) \<longrightarrow> signal_pending (tsk (upd_task c ?g s1) c)) \<and>
      (\<not> signal_pending (tsk (upd_task c ?g s1) c) \<longrightarrow>
         signal_received (tsk (upd_task c ?g s1) c) = signal_received (tsk s c))"
    if "evolves s L s1 L1" "poked (tsk s c) (tsk s1 c)" for s1 L1
    using evolves_trans [OF that(1) evolves_upd [OF evolves_kinv [OF that(1)], of ?g c]] that(2)
    by (simp add: poked_def upd_task_def)
  show ?thesis
  proof (cases "signal_use_event (tsk s c) (nr - 1)")
    case True
    define e where "e = zero_event\<lparr>ev_type := E_SIGNAL, ev_u0 := int nr, ev_proc := signal_handler (tsk s c) (nr - 1)\<rparr>"
    obtain r s1 L1 where "send_event c e s = Some (r, s1)" "evolves s L s1 L1" "poked (tsk s c) (tsk s1 c)"
      using send_event_evolves [OF assms(1) c] by blast
    then show ?thesis using fin [of s1 L1] True unfolding e_def signal_dispatch_def Let_def by auto
  next
    case False
    obtain s1 L1 where "signal_push tu n s = Some s1" "evolves s L s1 L1" "poked (tsk s c) (tsk s1 c)"
      using signal_push_evolves [OF assms] by blast
    then show ?thesis using fin [of s1 L1] False unfolding signal_dispatch_def Let_def by auto
  qed
qed

text \<open>One pass over the signals, for the running task.\<close>

definition pass_ok :: "nat list \<Rightarrow> sigact \<Rightarrow> task \<Rightarrow> task \<Rightarrow> bool" where
  "pass_ok is r u v \<longleftrightarrow>
     handled v \<subseteq> handled u \<and> (signal_pending u \<longrightarrow> signal_pending v) \<and>
     (signal_pending v \<longrightarrow> \<not> signal_pending u \<longrightarrow> handled v \<subset> handled u) \<and>
     (r = Cont \<longrightarrow> \<not> signal_pending v \<longrightarrow>
        (\<forall>j. signal_received v j \<longrightarrow> signal_received u j \<and> Suc j \<notin> set is))"

lemma pass_ok_step:
  assumes "pass_ok is r v w" and "handled v \<subseteq> handled u"
    and "signal_pending u \<longrightarrow> signal_pending v" and "signal_pending v \<longrightarrow> \<not> signal_pending u \<longrightarrow> handled v \<subset> handled u"
    and "\<not> signal_pending v \<longrightarrow> signal_received v = (signal_received u)(i - 1 := False)" and "1 \<le> i"
  shows "pass_ok (i # is) r u w"
  using assms unfolding pass_ok_def by (auto simp: fun_upd_def split: if_splits)

lemma signal_pass_evolves:
  "kinv s L \<Longrightarrow> running s L \<Longrightarrow> curr s = Some c \<Longrightarrow> \<forall>i \<in> set is. 1 \<le> i \<and> i \<le> SIGMAX \<Longrightarrow>
   \<exists>r fr s' L'. signal_pass dump tu n c is s = Some (r, fr, s') \<and> evolves s L s' L' \<and>
     pass_ok is r (tsk s c) (tsk s' c)"
proof (induction "is" arbitrary: s L n)
  case Nil
  then show ?case using evolves_refl [OF Nil.prems(1)] by (simp add: pass_ok_def) blast
next
  case (Cons i "is")
  note prems = Cons.prems
  have i: "1 \<le> i" "i \<le> SIGMAX" and "is": "\<forall>i \<in> set is. 1 \<le> i \<and> i \<le> SIGMAX" using prems(4) by auto
  show ?case
  proof (cases "signal_received (tsk s c) (i - 1)")
    case False
    obtain r fr s' L' where IH: "signal_pass dump tu n c is s = Some (r, fr, s')" "evolves s L s' L'"
        "pass_ok is r (tsk s c) (tsk s' c)"
      using Cons.IH [OF prems(1-3) "is"] by blast
    have "pass_ok (i # is) r (tsk s c) (tsk s' c)"
      using False i(1) by (intro pass_ok_step [OF IH(3)]) (auto simp: fun_upd_idem)
    with IH False show ?thesis by auto
  next
    case True
    let ?s1 = "upd_task c (signal_received_update (\<lambda>r. r(i - 1 := False))) s"
    have e1: "evolves s L ?s1 L" by (rule evolves_upd [OF prems(1)]) simp
    have r1: "kinv ?s1 L" "running ?s1 L" "curr ?s1 = Some c"
      using e1 prems(2,3) by (simp_all add: evolves_def)
    have f1: "signal_handler (tsk ?s1 c) = signal_handler (tsk s c)"
        "signal_pending (tsk ?s1 c) = signal_pending (tsk s c)"
        "signal_received (tsk ?s1 c) = (signal_received (tsk s c))(i - 1 := False)"
      by (simp_all add: upd_task_def)
    then have h1: "handled (tsk ?s1 c) = handled (tsk s c)" by (simp add: handled_def)
    obtain r fr s' L' where IH: "signal_pass dump tu n c is ?s1 = Some (r, fr, s')" "evolves ?s1 L s' L'"
        "pass_ok is r (tsk ?s1 c) (tsk s' c)"
      using Cons.IH [OF r1 "is"] by blast
    have ok: "pass_ok (i # is) r (tsk s c) (tsk s' c)"
      by (rule pass_ok_step [OF IH(3)]) (unfold f1 h1, use i(1) in auto)
    have plain: ?thesis if "signal_pass dump tu n c (i # is) s = signal_pass dump tu n c is ?s1"
      using that IH(1) evolves_trans [OF e1 IH(2)] ok by auto
    show ?thesis
    proof (cases "signal_handler (tsk ?s1 c) (i - 1)")
      case SIG_IGN
      then show ?thesis using True by (intro plain) simp
    next
      case SIG_DFL
      show ?thesis
      proof (cases "signal_default dump i")
        case Cont
        then show ?thesis using True SIG_DFL by (intro plain) simp
      next
        case (Die st)
        have "pass_ok (i # is) (Die st) (tsk s c) (tsk ?s1 c)" unfolding pass_ok_def f1 h1 by simp
        then show ?thesis using True SIG_DFL Die e1 by auto
      qed
    next
      case (Handler a)
      obtain fr2 s2 L2 where s2: "signal_dispatch tu n c i ?s1 = Some (fr2, s2)" "evolves ?s1 L s2 L2"
          "signal_handler (tsk s2 c) = (signal_handler (tsk ?s1 c))(i - 1 := SIG_DFL)"
          "signal_pending (tsk ?s1 c) \<longrightarrow> signal_pending (tsk s2 c)"
          "\<not> signal_pending (tsk s2 c) \<longrightarrow> signal_received (tsk s2 c) = signal_received (tsk ?s1 c)"
        using signal_dispatch_evolves [OF r1] by blast
      have h2: "handled (tsk s2 c) \<subset> handled (tsk s c)"
      proof -
        have "handled (tsk s2 c) = handled (tsk s c) - {i - 1}"
          unfolding handled_def s2(3) f1(1) by (auto split: if_splits)
        moreover have "i - 1 \<in> handled (tsk s c)" using Handler i unfolding f1(1) by (simp add: handled_def)
        ultimately show ?thesis by auto
      qed
      have e2: "evolves s L s2 L2" by (rule evolves_trans [OF e1 s2(2)])
      then have r2: "kinv s2 L2" "running s2 L2" "curr s2 = Some c"
        using prems(2,3) by (simp_all add: evolves_def)
      obtain r fr3 s3 L3 where s3: "signal_pass dump tu (n + 3 * length fr2) c is s2 = Some (r, fr3, s3)" "evolves s2 L2 s3 L3"
          "pass_ok is r (tsk s2 c) (tsk s3 c)"
        using Cons.IH [OF r2 "is"] by blast
      have "pass_ok (i # is) r (tsk s c) (tsk s3 c)"
        using h2 s2(4,5) i(1) unfolding f1 by (intro pass_ok_step [OF s3(3)]) auto
      then show ?thesis using True Handler s2(1) s3(1) evolves_trans [OF e2 s3(2)] by auto
    qed
  qed
qed

lemma signal_handle_evolves:
  "kinv s L \<Longrightarrow> running s L \<Longrightarrow> curr s = Some c \<Longrightarrow>
   \<exists>r fr s' L'. signal_handle dump tu n s = Some (r, fr, s') \<and> evolves s L s' L' \<and>
     (r = Cont \<longrightarrow> \<not> signal_pending (tsk s' c) \<and>
        (signal_pending (tsk s c) \<longrightarrow> (\<forall>j < SIGMAX. \<not> signal_received (tsk s' c) j)))"
proof (induction "card (handled (tsk s c))" arbitrary: s L n rule: less_induct)
  case less
  note prems = less.prems
  show ?case
  proof (cases "signal_pending (tsk s c)")
    case False
    then show ?thesis
      using evolves_refl [OF prems(1)] prems(3) by (auto simp: signal_handle.simps [of dump tu n s])
  next
    case True
    let ?s0 = "upd_task c (signal_pending_update (\<lambda>_. False)) s"
    have e0: "evolves s L ?s0 L" by (rule evolves_upd [OF prems(1)]) simp
    have r0: "kinv ?s0 L" "running ?s0 L" "curr ?s0 = Some c"
      using e0 prems(2,3) by (simp_all add: evolves_def)
    obtain r fr s1 L1 where s1: "signal_pass dump tu n c [1..<Suc SIGMAX] ?s0 = Some (r, fr, s1)"
        "evolves ?s0 L s1 L1" "pass_ok [1..<Suc SIGMAX] r (tsk ?s0 c) (tsk s1 c)"
      using signal_pass_evolves [OF r0, of "[1..<Suc SIGMAX]" dump tu n] by auto
    have e1: "evolves s L s1 L1" by (rule evolves_trans [OF e0 s1(2)])
    have h0: "handled (tsk ?s0 c) = handled (tsk s c)" "\<not> signal_pending (tsk ?s0 c)"
      by (simp_all add: handled_def upd_task_def)
    have unf: "signal_handle dump tu n s =
        (case r of Die st \<Rightarrow> Some (Die st, fr, s1)
         | Cont \<Rightarrow> Option.bind (signal_handle dump tu (n + 3 * length fr) s1) (\<lambda>(r, fr2, s2). Some (r, fr @ fr2, s2)))"
      unfolding signal_handle.simps [of dump tu n s]
      by (cases r) (simp_all only: prems(3) True s1(1) option.case prod.case sigact.case
            not_True_eq_False if_False)
    show ?thesis
    proof (cases r)
      case (Die st)
      then show ?thesis using e1 by (simp add: unf) blast
    next
      case Cont
      have r1: "kinv s1 L1" "running s1 L1" "curr s1 = Some c"
        using e1 prems(2,3) by (simp_all add: evolves_def)
      show ?thesis
      proof (cases "signal_pending (tsk s1 c)")
        case False
        then have "signal_handle dump tu (n + 3 * length fr) s1 = Some (Cont, [], s1)"
          using r1(3) by (simp add: signal_handle.simps [of dump tu "n + 3 * length fr" s1])
        moreover have "\<forall>j < SIGMAX. \<not> signal_received (tsk s1 c) j"
        proof (intro allI impI notI)
          fix j assume "j < SIGMAX" "signal_received (tsk s1 c) j"
          then have "Suc j \<notin> set [1..<Suc SIGMAX]" using s1(3) Cont False by (simp only: pass_ok_def simp_thms)
          then show False using \<open>j < SIGMAX\<close> by simp
        qed
        ultimately show ?thesis using Cont e1 False by (auto simp: unf)
      next
        case pend: True
        then have "handled (tsk s1 c) \<subset> handled (tsk s c)"
          using s1(3) h0 by (simp only: pass_ok_def simp_thms)
        then have "card (handled (tsk s1 c)) < card (handled (tsk s c))"
          by (rule psubset_card_mono [OF finite_handled])
        then obtain r2 fr2 s2 L2 where s2: "signal_handle dump tu (n + 3 * length fr) s1 = Some (r2, fr2, s2)" "evolves s1 L1 s2 L2"
            "r2 = Cont \<longrightarrow> \<not> signal_pending (tsk s2 c) \<and>
               (signal_pending (tsk s1 c) \<longrightarrow> (\<forall>j < SIGMAX. \<not> signal_received (tsk s2 c) j))"
          using less.hyps [OF _ r1] by blast
        then show ?thesis using Cont evolves_trans [OF e1 s2(2)] pend by (auto simp: unf)
      qed
    qed
  qed
qed

section \<open>The event queue as a ring buffer\<close>

text \<open>
  The queue of a task occupies \<open>event_count\<close> slots of the array from \<open>first_event\<close> on;
  \<open>last_event\<close> is the slot before the next free one.
\<close>

definition ring :: "task \<Rightarrow> bool" where
  "ring u \<longleftrightarrow> 0 \<le> event_count u \<and> event_count u \<le> EVT_MAX \<and> 0 \<le> first_event u \<and> first_event u < EVT_MAX \<and>
     (last_event u + 1) mod EVT_MAX = (first_event u + event_count u) mod EVT_MAX"

definition evq :: "task \<Rightarrow> event list" where
  "evq u = map (\<lambda>i. event u (nat ((first_event u + int i) mod EVT_MAX))) [0..<nat (event_count u)]"

lemma length_evq: "ring u \<Longrightarrow> int (length (evq u)) = event_count u"
  by (simp add: evq_def ring_def)

lemma ring_slots_inj:
  fixes f :: int
  assumes "0 \<le> f" and "f < 256" and "i < n" and "n < 256"
  shows "nat ((f + int i) mod 256) \<noteq> nat ((f + int n) mod 256)"
proof
  assume "nat ((f + int i) mod 256) = nat ((f + int n) mod 256)"
  then have "(f + int i) mod 256 = (f + int n) mod 256" by simp
  then have "256 dvd (f + int i) - (f + int n)" by (rule mod_eq_dvd_iff [THEN iffD1])
  then have "256 dvd (int n - int i)" by (simp add: dvd_diff_commute)
  then show False using assms by (auto dest!: zdvd_imp_le)
qed

lemma queued_event_evq:
  assumes "ring u" and "event_count u < EVT_MAX"
  shows "ring (queued_event e u)" "evq (queued_event e u) = evq u @ [e]"
proof -
  have i: "(last_event u + 1) mod EVT_MAX = (first_event u + event_count u) mod EVT_MAX"
    and n: "0 \<le> event_count u" using assms(1) by (simp_all add: ring_def)
  have s: "((first_event u + event_count u) mod EVT_MAX + 1) mod EVT_MAX =
      (first_event u + (event_count u + 1)) mod EVT_MAX" by presburger
  show "ring (queued_event e u)"
    using assms n s by (simp add: ring_def queued_event_def Let_def i)
  have cnt: "nat (event_count u + 1) = Suc (nat (event_count u))" using n by simp
  have "event (queued_event e u) (nat ((first_event u + int k) mod EVT_MAX)) =
      event u (nat ((first_event u + int k) mod EVT_MAX))" if "k < nat (event_count u)" for k
  proof -
    have "nat ((first_event u + int k) mod 256) \<noteq> nat ((first_event u + int (nat (event_count u))) mod 256)"
      using assms that by (intro ring_slots_inj) (auto simp: ring_def)
    then show ?thesis using n i by (simp add: queued_event_def Let_def)
  qed
  moreover have "event (queued_event e u) (nat ((first_event u + event_count u) mod EVT_MAX)) = e"
    using i by (simp add: queued_event_def Let_def)
  moreover have "event_count (queued_event e u) = event_count u + 1"
      "first_event (queued_event e u) = first_event u"
    by (simp_all add: queued_event_def Let_def)
  ultimately show "evq (queued_event e u) = evq u @ [e]"
    using n by (simp add: evq_def cnt)
qed

lemma evq_cong:
  "event v = event u \<Longrightarrow> event_count v = event_count u \<Longrightarrow> first_event v = first_event u \<Longrightarrow>
   last_event v = last_event u \<Longrightarrow> evq v = evq u \<and> ring v = ring u"
  by (simp add: evq_def ring_def)

lemma send_event_evq:
  assumes "kinv s L" and "slot s t" and "t < TASK_MAX" and "ring (tsk s t)" and "event_count (tsk s t) < EVT_MAX"
  shows "\<exists>s' L'. send_event t e s = Some (EZERO, s') \<and> evolves s L s' L' \<and>
           ring (tsk s' t) \<and> evq (tsk s' t) = evq (tsk s t) @ [e] \<and> (\<forall>u. u \<noteq> t \<longrightarrow> tsk s' u = tsk s u)"
proof -
  let ?s3 = "upd_task t (queued_event e) s"
  have e3: "evolves s L ?s3 L" by (rule evolves_upd [OF assms(1)]) simp
  have t3: "tsk ?s3 t = queued_event e (tsk s t)" "\<forall>u. u \<noteq> t \<longrightarrow> tsk ?s3 u = tsk s u"
    by (simp_all add: upd_task_def)
  note q = queued_event_evq [OF assms(4,5), of e]
  have unf: "send_event t e s = Option.bind (signal_send_k t (int SIGEVT) ?s3) (\<lambda>(_, s4). Some (EZERO, s4))"
    using assms(5) by (simp add: send_event_unfold)
  show ?thesis
  proof (cases "exited (tsk ?s3 t) \<or> signal_handler (tsk ?s3 t) (SIGEVT - 1) = SIG_IGN")
    case True
    then have "signal_send_k t (int SIGEVT) ?s3 = Some (EZERO, ?s3)"
      by (simp add: signal_send_k_def)
    then show ?thesis using unf e3 q t3 by auto
  next
    case False
    have "t \<in> alive ?s3" using assms(2,3) False by (simp add: alive_def upd_task_def)
    then obtain s4 L4 where s4: "signal_send_k t (int SIGEVT) ?s3 = Some (EZERO, s4)" "evolves ?s3 L s4 L4"
        "sent SIGEVT (tsk ?s3 t) (tsk s4 t)" "\<forall>u. u \<noteq> t \<longrightarrow> tsk s4 u = tsk ?s3 u"
      using signal_send_k_sent [OF evolves_kinv [OF e3], of t SIGEVT] False by auto
    have "evq (tsk s4 t) = evq (tsk ?s3 t)" "ring (tsk s4 t) = ring (tsk ?s3 t)"
      using s4(3) evq_cong [of "tsk s4 t" "tsk ?s3 t"] by (auto simp: sent_def)
    then show ?thesis
      using unf s4 evolves_trans [OF e3 s4(2)] q t3 by auto
  qed
qed

lemma more_moves_iff:
  "more_moves u n (i mod EVT_MAX) \<longleftrightarrow> (\<exists>k < n. ev_u0 (event u (nat ((i + int k) mod EVT_MAX))) = WIN_E_PTR_MOVE)"
proof (induction n arbitrary: i)
  case 0
  then show ?case by simp
next
  case (Suc n)
  have "more_moves u n ((i mod EVT_MAX + 1) mod EVT_MAX) = more_moves u n ((i + 1) mod EVT_MAX)"
    by (simp add: mod_add_left_eq)
  moreover define Q where "Q k \<longleftrightarrow> ev_u0 (event u (nat ((i + int k) mod EVT_MAX))) = WIN_E_PTR_MOVE" for k
  moreover have "(\<exists>k < Suc n. Q k) \<longleftrightarrow> Q 0 \<or> (\<exists>k < n. Q (Suc k))"
    by (auto simp: less_Suc_eq_0_disj)
  moreover have "i + int (Suc k) = i + 1 + int k" for k by simp
  ultimately show ?case using Suc.IH [of "i + 1"] by (simp add: add.assoc)
qed

definition more_marked :: "event \<Rightarrow> event list \<Rightarrow> event" where
  "more_marked e es =
     (if ev_type e = E_WINGUI \<and> ev_u0 e = WIN_E_PTR_MOVE \<and> (\<exists>x \<in> set es. ev_u0 x = WIN_E_PTR_MOVE)
      then e\<lparr>ev_more := 1\<rparr> else e)"

lemma mark_more_evq:
  assumes "ring u" and "evq u = e # es"
  shows "ring (mark_more u)" "evq (mark_more u) = more_marked e es # es"
    "event_count (mark_more u) = event_count u" "first_event (mark_more u) = first_event u"
proof -
  define n where "n = nat (event_count u)"
  have n: "n \<noteq> 0" "int n = event_count u" using assms by (auto simp: evq_def ring_def n_def)
  then obtain m where m: "n = Suc m" by (cases n) auto
  define g where "g i = nat ((first_event u + int i) mod EVT_MAX)" for i
  have g0: "g 0 = nat (first_event u)" using assms(1) by (simp add: g_def ring_def)
  have up: "evq u = map (\<lambda>i. event u (g i)) [0..<Suc m]"
    unfolding evq_def g_def using m by (simp add: n_def)
  have e: "e = event u (nat (first_event u))"
    using assms(2) up g0 by (simp add: upt_conv_Cons del: upt_Suc)
  have es: "es = map (\<lambda>i. event u (g i)) [1..<Suc m]"
    using assms(2) up by (simp add: upt_conv_Cons del: upt_Suc)
  have mm: "more_moves u (nat (event_count u - 1)) ((first_event u + 1) mod EVT_MAX) \<longleftrightarrow>
      (\<exists>x \<in> set es. ev_u0 x = WIN_E_PTR_MOVE)"
  proof -
    have "nat (event_count u - 1) = m" using n m by simp
    moreover have "first_event u + 1 + int k = first_event u + int (Suc k)" for k by simp
    moreover have "set es = (\<lambda>k. event u (g (Suc k))) ` {0..<m}"
      unfolding es map_Suc_upt [symmetric, of 0 m, simplified One_nat_def [symmetric]] by auto
    ultimately show ?thesis unfolding more_moves_iff g_def by (auto simp: add.assoc)
  qed
  have ev: "mark_more u = u\<lparr>event := (event u)(nat (first_event u) := more_marked e es)\<rparr>"
    unfolding mark_more_def more_marked_def mm Let_def e by auto
  have d: "g i \<noteq> nat (first_event u)" if "i \<in> set [1..<Suc m]" for i
  proof -
    have "g 0 \<noteq> g i" unfolding g_def using that n m assms(1)
      by (cases "i < 256") (use ring_slots_inj [of "first_event u" 0 i] in \<open>auto simp: ring_def\<close>)
    then show ?thesis using g0 by simp
  qed
  show "ring (mark_more u)" "event_count (mark_more u) = event_count u"
      "first_event (mark_more u) = first_event u"
    using assms(1) by (simp_all add: ev ring_def)
  have "evq (mark_more u) = map (\<lambda>i. event (mark_more u) (g i)) (0 # [1..<Suc m])"
    unfolding evq_def g_def ev using m by (simp add: n_def upt_conv_Cons del: upt_Suc)
  also have "\<dots> = more_marked e es # es"
    using d by (simp add: ev g0 es del: upt_Suc)
  finally show "evq (mark_more u) = more_marked e es # es" .
qed

lemma evt_pop:
  assumes "ring u" and "evq u = e # es"
  defines "v \<equiv> u\<lparr>first_event := (first_event u + 1) mod EVT_MAX, unseen_events := 0, event_count := event_count u - 1\<rparr>"
  shows "ring v" "evq v = es" "event u (nat (first_event u)) = e"
proof -
  define n where "n = nat (event_count u)"
  have n: "n \<noteq> 0" "int n = event_count u" using assms by (auto simp: evq_def ring_def n_def)
  then obtain m where m: "n = Suc m" by (cases n) auto
  have up: "evq u = map (\<lambda>i. event u (nat ((first_event u + int i) mod EVT_MAX))) (0 # map Suc [0..<m])"
    unfolding evq_def using m by (simp add: n_def map_Suc_upt upt_conv_Cons del: upt_Suc)
  then show "event u (nat (first_event u)) = e" using assms(1,2) by (simp add: ring_def)
  have "((first_event u + 1) mod 256 + (event_count u - 1)) mod 256 = (first_event u + event_count u) mod 256"
    by (simp add: mod_add_left_eq)
  then show "ring v" using assms(1) n m by (auto simp: v_def ring_def)
  have "((first_event u + 1) mod 256 + int k) mod 256 = (first_event u + int (Suc k)) mod 256" for k
    by (simp add: mod_add_left_eq) (simp add: add.assoc)
  moreover have "nat (event_count u - 1) = m" using n m by simp
  ultimately show "evq v = es" using up assms(2) by (simp add: v_def evq_def comp_def)
qed

section \<open>Correctness\<close>

text \<open>
  C5: A signal reaches its target. When the caller may send it (root, or the same effective user) and
  the target is alive and does not ignore it, \<^verbatim>\<open>signal_send\<close> succeeds, records the signal and
  marks it pending; a target that waits interruptibly is woken and, unless it is the
  caller, is on a ready queue. \<^verbatim>\<open>SIGSTOP\<close> stops the target, \<^verbatim>\<open>SIGCONT\<close> and \<^verbatim>\<open>SIGKILL\<close> continue it. No
  other task changes and the scheduler's invariant is kept.
\<close>

theorem signal_delivered:
  assumes "kinv s L" and "curr s = Some c" and "euid (tsk s c) = 0 \<or> euid (tsk s c) = euid (tsk s p)"
    and "p \<in> alive s" and "1 \<le> n" and "n \<le> SIGMAX" and "signal_handler (tsk s p) (n - 1) \<noteq> SIG_IGN"
  shows "\<exists>s' L'. signal_send p (int n) s = Some (EZERO, s') \<and> kinv s' L' \<and>
           sent n (tsk s p) (tsk s' p) \<and> (\<forall>u. u \<noteq> p \<longrightarrow> tsk s' u = tsk s u) \<and>
           (paused (tsk s p) = WAIT_INTR \<longrightarrow> p \<noteq> c \<longrightarrow> (\<exists>i. p \<in> set (L' (Ready i))))"
proof -
  obtain s' L' where s': "signal_send_k p (int n) s = Some (EZERO, s')" "evolves s L s' L'"
      "sent n (tsk s p) (tsk s' p)" "\<forall>u. u \<noteq> p \<longrightarrow> tsk s' u = tsk s u"
    using signal_send_k_sent [OF assms(1,4-7)] by blast
  have "\<exists>i. p \<in> set (L' (Ready i))" if "paused (tsk s p) = WAIT_INTR" "p \<noteq> c"
  proof (rule kcore_runnable)
    show "kcore s' L'" using evolves_kinv [OF s'(2)] by (simp add: kinv_def)
    show "p \<in> alive s'" using assms(4) evolves_alive [OF s'(2)] by simp
    show "paused (tsk s' p) = 0" using s'(3) that(1) by (simp add: sent_def)
    show "curr s' \<noteq> Some p" using s'(2) assms(2) that(2) by (auto simp: evolves_def)
  qed
  then show ?thesis
    using s' evolves_kinv [OF s'(2)] assms(2,3) by (auto simp: signal_send_def)
qed

lemma example_handlers: "signal_handler (tsk example_state 2) 11 = SIG_DFL" "euid (tsk example_state 0) = 0"
    "paused (tsk example_state 2) = WAIT_INTR"
  by (simp_all add: example_defs)

theorem signal_delivered_witness:
  "\<exists>s' L'. signal_send 2 (int SIGCONT) example_state = Some (EZERO, s') \<and> kinv s' L' \<and>
     signal_received (tsk s' 2) 11 \<and> paused (tsk s' 2) = 0 \<and> (\<exists>i. 2 \<in> set (L' (Ready i)))"
proof -
  obtain s' L' where "signal_send 2 (int SIGCONT) example_state = Some (EZERO, s')" "kinv s' L'"
      "sent SIGCONT (tsk example_state 2) (tsk s' 2)" "\<exists>i. 2 \<in> set (L' (Ready i))"
    using signal_delivered [OF example_kinv example_curr, of 2 SIGCONT] example_alive example_handlers by auto
  then show ?thesis using example_handlers by (auto simp: sent_def)
qed

text \<open>
  C6: A signal that must not be sent changes nothing: \<^verbatim>\<open>EPERM\<close> when the caller is neither root nor the
  target's user, otherwise \<^verbatim>\<open>EINVAL\<close> for a number out of range, and success without effect for the
  null signal, a target that has exited and a signal that the target ignores.
\<close>

theorem signal_refused:
  assumes "curr s = Some c"
  shows "(euid (tsk s c) \<noteq> 0 \<and> euid (tsk s c) \<noteq> euid (tsk s p) \<longrightarrow> signal_send p sig s = Some (EPERM, s)) \<and>
     (euid (tsk s c) = 0 \<or> euid (tsk s c) = euid (tsk s p) \<longrightarrow>
        (sig < 0 \<or> sig > int SIGMAX \<longrightarrow> signal_send p sig s = Some (EINVAL, s)) \<and>
        (sig = 0 \<or> 0 < sig \<and> sig \<le> int SIGMAX \<and>
           (exited (tsk s p) \<or> signal_handler (tsk s p) (nat sig - 1) = SIG_IGN) \<longrightarrow>
         signal_send p sig s = Some (EZERO, s)))"
proof (cases "euid (tsk s c) \<noteq> 0 \<and> euid (tsk s c) \<noteq> euid (tsk s p)")
  case True
  then show ?thesis using assms by (simp add: signal_send_def)
next
  case False
  then have "signal_send p sig s = signal_send_k p sig s" using assms by (auto simp: signal_send_def)
  moreover have "signal_send_k p sig s = Some (EINVAL, s)" if "sig < 0 \<or> sig > int SIGMAX"
    using that by (simp add: signal_send_k_def)
  moreover have "signal_send_k p sig s = Some (EZERO, s)" if "sig = 0" using that by (simp add: signal_send_k_def)
  moreover have "signal_send_k p sig s = Some (EZERO, s)"
    if "0 < sig" "sig \<le> int SIGMAX" "exited (tsk s p) \<or> signal_handler (tsk s p) (nat sig - 1) = SIG_IGN"
    using that unfolding signal_send_k_def Let_def by simp
  ultimately show ?thesis using False by auto
qed

theorem signal_refused_witness:
  "signal_send 2 33 example_state = Some (EINVAL, example_state) \<and>
   signal_send 2 1 example_state = Some (EZERO, example_state) \<and>
   signal_send 2 1 (upd_task 0 (euid_update (\<lambda>_. 7)) example_state) =
     Some (EPERM, upd_task 0 (euid_update (\<lambda>_. 7)) example_state)"
proof -
  have h: "signal_handler (tsk example_state 2) 0 = SIG_IGN" by (simp add: example_defs)
  have c: "curr (upd_task 0 (euid_update (\<lambda>_. 7)) example_state) = Some 0"
    by (simp add: upd_task_def example_curr)
  have p: "euid (tsk (upd_task 0 (euid_update (\<lambda>_. 7)) example_state) 0) = 7"
      "euid (tsk (upd_task 0 (euid_update (\<lambda>_. 7)) example_state) 2) = 0"
    by (simp_all add: upd_task_def example_defs)
  show ?thesis
    using signal_refused [OF example_curr, of 2 33] signal_refused [OF example_curr, of 2 1]
      signal_refused [OF c, of 2 1] h p example_handlers(2) by simp
qed

text \<open>
  C7: \<^verbatim>\<open>signal_handle\<close> terminates, although handling a signal can raise signals for the task itself: \<^verbatim>\<open>SIGEVT\<close> when it is handled by an event, \<^verbatim>\<open>SIGSTK\<close> and
  \<^verbatim>\<open>SIGSEGV\<close> whenever a word cannot be pushed on the user's stack. Whichever pushes fail, it returns or ends the task, without a panic. When
  it returns, no signal is pending and (if one was) every received signal has been dealt with; the scheduler's invariant is kept.
\<close>

theorem signal_handle_terminates:
  assumes "kinv s L" and "running s L" and "curr s = Some c"
  shows "\<exists>r fr s' L'. signal_handle dump tu n s = Some (r, fr, s') \<and> kinv s' L' \<and> running s' L' \<and>
           (r = Cont \<longrightarrow> \<not> signal_pending (tsk s' c) \<and>
              (signal_pending (tsk s c) \<longrightarrow> (\<forall>j < SIGMAX. \<not> signal_received (tsk s' c) j)))"
  using signal_handle_evolves [OF assms, of dump tu n] assms(2) unfolding evolves_def by blast

text \<open>The current task has received a signal that it handles, and its stack cannot be written to.\<close>

definition example_signalled :: kstate where
  "example_signalled = upd_task 0 (\<lambda>u. u\<lparr>signal_received := (signal_received u)(15 := True), signal_pending := True,
     signal_handler := (signal_handler u)(15 := Handler 64, SIGSTK - 1 := Handler 65)\<rparr>) example_state"

theorem signal_handle_terminates_witness:
  "signal_pending (tsk example_signalled 0) \<and>
   (\<exists>r fr s' L'. signal_handle (\<lambda>_. EZERO) (\<lambda>_. (EFAULT, True)) 0 example_signalled = Some (r, fr, s') \<and> kinv s' L' \<and> running s' L' \<and>
     (r = Cont \<longrightarrow> \<not> signal_pending (tsk s' 0) \<and> (\<forall>j < SIGMAX. \<not> signal_received (tsk s' 0) j)))"
proof -
  have e: "evolves example_state example_queues example_signalled example_queues" unfolding example_signalled_def
    by (rule evolves_upd [OF example_kinv]) (simp add: harmless_def)
  have p: "signal_pending (tsk example_signalled 0)" by (simp add: example_signalled_def upd_task_def)
  show ?thesis
    using signal_handle_terminates [OF evolves_kinv [OF e], of 0 "\<lambda>_. EZERO" "\<lambda>_. (EFAULT, True)" 0] e example_running example_curr p
    by (simp add: evolves_def)
qed

text \<open>
  \<^verbatim>\<open>send_event\<close> appends to the event queue of a task, and refuses with \<^verbatim>\<open>EAGAIN\<close>, changing nothing,
  exactly when the queue holds \<^verbatim>\<open>EVT_MAX\<close> events; the ring buffer stays consistent, wherever its
  indices wrap around.
\<close>

theorem send_event_appends:
  assumes "kinv s L" and "t \<in> alive s" and "ring (tsk s t)"
  shows "if length (evq (tsk s t)) = 256 then send_event t e s = Some (EAGAIN, s)
         else \<exists>s' L'. send_event t e s = Some (EZERO, s') \<and> kinv s' L' \<and> ring (tsk s' t) \<and>
                evq (tsk s' t) = evq (tsk s t) @ [e] \<and> (\<forall>u. u \<noteq> t \<longrightarrow> tsk s' u = tsk s u)"
proof (cases "length (evq (tsk s t)) = 256")
  case True
  then show ?thesis using length_evq [OF assms(3)] by (simp add: send_event_def)
next
  case False
  then have "event_count (tsk s t) < EVT_MAX" using length_evq [OF assms(3)] assms(3) by (simp add: ring_def)
  then show ?thesis
    using send_event_evq [OF assms(1) _ _ assms(3), of e] assms(2) False evolves_kinv
    by (auto simp: alive_def) blast
qed

lemma example_ring: "ring (tsk example_state t)" "evq (tsk example_state t) = []" if "t < 3"
proof -
  have "t = 0 \<or> t = 1 \<or> t = 2" using that by auto
  then show "ring (tsk example_state t)" "evq (tsk example_state t) = []"
    by (auto simp: ring_def evq_def example_defs)
qed

theorem send_event_appends_witness:
  "\<exists>s' L'. send_event 2 zero_event example_state = Some (EZERO, s') \<and> kinv s' L' \<and>
     evq (tsk s' 2) = [zero_event]"
  using send_event_appends [OF example_kinv, of 2 zero_event] example_alive example_ring [of 2] by auto

text \<open>
  \<^verbatim>\<open>sys__evt_wait\<close> hands out the events in the order in which they were sent. With a queue \<open>e # es\<close>
  it returns \<open>e\<close> (with \<^verbatim>\<open>more\<close> set when it is a pointer movement and another one follows) and leaves
  \<open>es\<close>; when the copy to user memory fails it returns that error and the queue keeps its length.
\<close>

theorem evt_wait_takes_first:
  assumes "curr s = Some c" and "ring (tsk s c)" and "evq (tsk s c) = e # es"
  shows "\<exists>s'. sys_evt_wait tq cpy s =
             Some (Inl (if cpy = EZERO then Inr (more_marked e es) else Inl cpy), s') \<and>
           ring (tsk s' c) \<and> evq (tsk s' c) = (if cpy = EZERO then es else more_marked e es # es)"
proof -
  have n: "event_count (tsk s c) \<noteq> 0" using assms(3) by (auto simp: evq_def)
  note mm = mark_more_evq [OF assms(2,3)]
  note pop = evt_pop [OF mm(1,2)]
  show ?thesis
    using n assms(1) pop mm by (simp add: sys_evt_wait.simps [of tq] evt_take_def Let_def upd_task_def)
qed

lemma example_event:
  "curr (upd_task 0 (queued_event zero_event) example_state) = Some 0"
  "ring (tsk (upd_task 0 (queued_event zero_event) example_state) 0)"
  "evq (tsk (upd_task 0 (queued_event zero_event) example_state) 0) = [zero_event]"
proof -
  have "event_count (tsk example_state 0) < EVT_MAX" by (simp add: example_defs)
  then show "ring (tsk (upd_task 0 (queued_event zero_event) example_state) 0)"
    "evq (tsk (upd_task 0 (queued_event zero_event) example_state) 0) = [zero_event]"
    using queued_event_evq [of "tsk example_state 0" zero_event] example_ring [of 0]
    by (simp_all add: upd_task_def)
qed (simp add: upd_task_def example_curr)

theorem evt_wait_takes_first_witness:
  "\<exists>s'. sys_evt_wait (Waitq 1) EZERO (upd_task 0 (queued_event zero_event) example_state) =
      Some (Inl (Inr zero_event), s') \<and> evq (tsk s' 0) = []"
  using evt_wait_takes_first [OF example_event, of "Waitq 1" EZERO] by (auto simp: more_marked_def)

text \<open>
  With an empty queue \<^verbatim>\<open>sys__evt_wait\<close> either fails with \<^verbatim>\<open>EINTR\<close>, because a signal is pending, or
  puts the task to sleep on its wait queue; it does not spin, even when \<^verbatim>\<open>task_suspend\<close> returns
  early because of stale \<^verbatim>\<open>unseen_events\<close>.
\<close>

theorem evt_wait_blocks:
  assumes "kinv s L" and "running s L" and "curr s = Some c" and "\<not> is_ready tq"
    and "ring (tsk s c)" and "evq (tsk s c) = []"
  shows "if signal_pending (tsk s c) then sys_evt_wait tq cpy s = Some (Inl (Inl EINTR), s)
         else \<exists>r s' L'. sys_evt_wait tq cpy s = Some (Inr r, s') \<and> scheduled r s' L' \<and>
                paused (tsk s' c) = WAIT_INTR \<and> L' tq = L tq @ [c]"
proof -
  have n: "event_count (tsk s c) = 0" using length_evq [OF assms(5)] assms(6) by simp
  have sleep: "\<exists>r s' L'. sys_evt_wait tq cpy t = Some (Inr r, s') \<and> scheduled r s' L' \<and>
      paused (tsk s' c) = WAIT_INTR \<and> L' tq = L tq @ [c]"
    if t: "kinv t L" "running t L" "curr t = Some c" "\<not> interrupted WAIT_INTR (tsk t c)"
      "event_count (tsk t c) = 0" "\<not> signal_pending (tsk t c)" for t :: "'a kstate_scheme"
  proof -
    obtain r s' L' where "task_suspend (Some tq) WAIT_INTR t = Some (Inr r, s')" "scheduled r s' L'"
        "paused (tsk s' c) = WAIT_INTR" "L' tq = L tq @ [c]"
      using task_suspend_enters [OF t(1-3) assms(4) _ t(4)] by auto
    then show ?thesis using t(3,5,6) by (auto simp: sys_evt_wait.simps [of tq cpy t])
  qed
  show ?thesis
  proof (cases "signal_pending (tsk s c)")
    case True
    then show ?thesis using n assms(3) by (simp add: sys_evt_wait.simps [of tq cpy s])
  next
    case np: False
    show ?thesis
    proof (cases "interrupted WAIT_INTR (tsk s c)")
      case False
      then show ?thesis using sleep [OF assms(1-3) False n np] np by simp
    next
      case True
      let ?t = "upd_task c (unseen_events_update (\<lambda>_. 0)) s"
      have e: "evolves s L ?t L" by (rule evolves_upd [OF assms(1)]) simp
      have f: "event_count (tsk ?t c) = 0" "\<not> signal_pending (tsk ?t c)" "\<not> interrupted WAIT_INTR (tsk ?t c)"
        using n np by (simp_all add: upd_task_def interrupted_def)
      have k: "kinv ?t L" "running ?t L" "curr ?t = Some c"
        using e assms(2,3) by (simp_all add: evolves_def)
      have "suspend_enter (Some tq) WAIT_INTR s = Some (Some EINTR, ?t)"
        using suspend_enter_interrupted [of s c "Some tq" WAIT_INTR] True assms(3,4)
          running_not_queued [OF assms(2,3)] by simp
      then have "sys_evt_wait tq cpy s = sys_evt_wait tq cpy ?t"
        using n np assms(3) by (simp add: sys_evt_wait.simps [of tq cpy s] task_suspend_def)
      then show ?thesis using sleep [OF k f(3,1,2)] np by simp
    qed
  qed
qed

theorem evt_wait_blocks_witness:
  "\<exists>r s' L'. sys_evt_wait (Waitq 1) EZERO example_state = Some (Inr r, s') \<and> scheduled r s' L' \<and>
     L' (Waitq 1) = [0]"
proof -
  have "\<not> signal_pending (tsk example_state 0)" by (simp add: example_defs)
  then show ?thesis
    using evt_wait_blocks [OF example_kinv example_running example_curr, of "Waitq 1" EZERO] example_ring [of 0]
    by auto
qed

section \<open>Sending to many tasks\<close>

definition accepts :: "nat \<Rightarrow> 'z kstate_scheme \<Rightarrow> tid \<Rightarrow> tid \<Rightarrow> bool" where
  "accepts n s c i \<longleftrightarrow>
     i \<in> alive s \<and> (euid (tsk s c) = 0 \<or> euid (tsk s c) = euid (tsk s i)) \<and>
     signal_handler (tsk s i) (n - 1) \<noteq> SIG_IGN"

definition targeted :: "int \<Rightarrow> 'z kstate_scheme \<Rightarrow> tid \<Rightarrow> tid \<Rightarrow> bool" where
  "targeted p s c i \<longleftrightarrow> (if p = -1 then i \<noteq> c \<and> i \<noteq> init s else pid (tsk s i) = p)"

definition marked :: "nat \<Rightarrow> 'z kstate_scheme \<Rightarrow> tid \<Rightarrow> bool" where
  "marked n s i \<longleftrightarrow> signal_received (tsk s i) (n - 1) \<and> signal_pending (tsk s i)"

lemma signal_send_one:
  assumes "kinv s L" and "curr s = Some c" and "slot s i" and "i < TASK_MAX" and "1 \<le> n" and "n \<le> SIGMAX"
  shows "\<exists>e s' L'. signal_send i (int n) s = Some (e, s') \<and> evolves s L s' L' \<and>
           (\<forall>u. signal_handler (tsk s' u) = signal_handler (tsk s u)) \<and>
           (\<forall>u. marked n s u \<longrightarrow> marked n s' u) \<and> (accepts n s c i \<longrightarrow> marked n s' i)"
proof (cases "accepts n s c i")
  case True
  note acc = True [unfolded accepts_def]
  then obtain s' L' where s': "signal_send_k i (int n) s = Some (EZERO, s')" "evolves s L s' L'"
      "sent n (tsk s i) (tsk s' i)" "\<forall>u. u \<noteq> i \<longrightarrow> tsk s' u = tsk s u"
    using signal_send_k_sent [OF assms(1) _ assms(5,6)] by blast
  have "signal_send i (int n) s = Some (EZERO, s')" using acc assms(2) s'(1) by (auto simp: signal_send_def)
  moreover have "\<forall>u. signal_handler (tsk s' u) = signal_handler (tsk s u)"
    using s'(3,4) by (metis sent_def)
  moreover have m: "marked n s' i" using s'(3) by (simp add: marked_def sent_def)
  moreover have "\<forall>u. marked n s u \<longrightarrow> marked n s' u" using s'(4) m by (metis marked_def)
  ultimately show ?thesis using s'(2) by blast
next
  case False
  have "\<exists>e. signal_send i (int n) s = Some (e, s)"
  proof (cases "euid (tsk s c) = 0 \<or> euid (tsk s c) = euid (tsk s i)")
    case True
    then have "exited (tsk s i) \<or> signal_handler (tsk s i) (n - 1) = SIG_IGN"
      using False assms(3,4) by (auto simp: alive_def accepts_def)
    then have "signal_send_k i (int n) s = Some (EZERO, s)"
      using assms(5,6) by (simp add: signal_send_k_def Let_def)
    then show ?thesis using True assms(2) by (auto simp: signal_send_def)
  qed (use assms(2) in \<open>simp add: signal_send_def\<close>)
  then show ?thesis using evolves_refl [OF assms(1)] False by blast
qed

lemma evolves_accepts:
  assumes "evolves s L s' L'" and "\<forall>u. signal_handler (tsk s' u) = signal_handler (tsk s u)"
  shows "accepts n s' c i = accepts n s c i" "targeted p s' c i = targeted p s c i"
  using evolves_fields [OF assms(1)] evolves_alive [OF assms(1)] assms(2)
  by (simp_all add: accepts_def targeted_def)

lemma kill_loop_evolves:
  "kinv s L \<Longrightarrow> curr s = Some c \<Longrightarrow> \<forall>i \<in> set is. i < TASK_MAX \<Longrightarrow> 1 \<le> n \<Longrightarrow> n \<le> SIGMAX \<Longrightarrow>
   \<exists>e s' L'. kill_loop p (int n) is err s = Some (e, s') \<and> evolves s L s' L' \<and>
     (\<forall>u. marked n s u \<longrightarrow> marked n s' u) \<and>
     (\<forall>i \<in> set is. targeted p s c i \<and> accepts n s c i \<longrightarrow> marked n s' i)"
proof (induction "is" arbitrary: s L err)
  case Nil
  then show ?case using evolves_refl [OF Nil.prems(1)] by auto
next
  case (Cons i "is")
  note prems = Cons.prems
  have "is": "\<forall>i \<in> set is. i < TASK_MAX" using prems(3) by simp
  show ?case
  proof (cases "slot s i \<and> targeted p s c i")
    case True
    obtain e s1 L1 where s1: "signal_send i (int n) s = Some (e, s1)" "evolves s L s1 L1"
        "\<forall>u. signal_handler (tsk s1 u) = signal_handler (tsk s u)" "\<forall>u. marked n s u \<longrightarrow> marked n s1 u"
        "accepts n s c i \<longrightarrow> marked n s1 i"
      using signal_send_one [OF prems(1,2) _ _ prems(4,5), of i] True prems(3) by auto
    have k1: "kinv s1 L1" "curr s1 = Some c" using s1(2) prems(2) by (simp_all add: evolves_def)
    obtain e2 s2 L2 where s2:
        "kill_loop p (int n) is (if err = EZERO \<or> err = ESRCH then e else err) s1 = Some (e2, s2)"
        "evolves s1 L1 s2 L2" "\<forall>u. marked n s1 u \<longrightarrow> marked n s2 u"
        "\<forall>i \<in> set is. targeted p s1 c i \<and> accepts n s1 c i \<longrightarrow> marked n s2 i"
      using Cons.IH [OF k1 "is" prems(4,5)] by blast
    have "kill_loop p (int n) (i # is) err s = Some (e2, s2)"
      using True s1(1) s2(1) prems(2) by (auto simp: targeted_def split: if_splits)
    then show ?thesis
      using s1 s2 evolves_trans [OF s1(2) s2(2)] evolves_accepts [OF s1(2,3)] by (metis set_ConsD)
  next
    case False
    obtain e2 s2 L2 where s2: "kill_loop p (int n) is err s = Some (e2, s2)"
        "evolves s L s2 L2" "\<forall>u. marked n s u \<longrightarrow> marked n s2 u"
        "\<forall>i \<in> set is. targeted p s c i \<and> accepts n s c i \<longrightarrow> marked n s2 i"
      using Cons.IH [OF prems(1,2) "is" prems(4,5)] by blast
    have "kill_loop p (int n) (i # is) err s = Some (e2, s2)"
      using False s2(1) prems(2) by (auto simp: targeted_def split: if_splits)
    moreover have "\<not> (targeted p s c i \<and> accepts n s c i)"
      using False by (auto simp: accepts_def alive_def)
    ultimately show ?thesis using s2 by (metis set_ConsD)
  qed
qed

text \<open>
  \<^verbatim>\<open>kill\<close> with a pid, or with -1 for every task but the caller and init, goes through the whole task
  table without a panic and marks the signal as received by every targeted task that is alive, does
  not ignore it and that the caller may signal; a refusal by one task does not stop the loop.
\<close>

theorem sys_kill_reaches:
  assumes "kinv s L" and "curr s = Some c" and "p \<noteq> 0" and "1 \<le> n" and "n \<le> SIGMAX"
  shows "\<exists>e s' L'. sys_kill p (int n) s = Some (e, s') \<and> kinv s' L' \<and>
           (\<forall>i. targeted p s c i \<and> accepts n s c i \<longrightarrow> marked n s' i)"
proof -
  obtain e s' L' where k: "kill_loop p (int n) [0..<TASK_MAX] ESRCH s = Some (e, s')" "evolves s L s' L'"
      "\<forall>i \<in> set [0..<TASK_MAX]. targeted p s c i \<and> accepts n s c i \<longrightarrow> marked n s' i"
    using kill_loop_evolves [OF assms(1,2) _ assms(4,5), of "[0..<TASK_MAX]" p ESRCH] by auto
  moreover have "i \<in> set [0..<TASK_MAX]" if "accepts n s c i" for i
    using that by (simp add: accepts_def alive_def)
  ultimately show ?thesis using assms(3) k evolves_kinv [OF k(2)] unfolding sys_kill_def by auto
qed

theorem sys_kill_reaches_witness:
  "\<exists>e s' L'. sys_kill (-1) (int SIGCONT) example_state = Some (e, s') \<and> kinv s' L' \<and>
     marked SIGCONT s' 1 \<and> marked SIGCONT s' 2"
proof -
  have "accepts SIGCONT example_state 0 i \<and> targeted (-1) example_state 0 i" if "i = 1 \<or> i = 2" for i
    using that unfolding accepts_def targeted_def example_alive by (auto simp: example_defs)
  then show ?thesis
    using sys_kill_reaches [OF example_kinv example_curr, of "-1" SIGCONT] by auto
qed

end
