(* ===== verification/Fs_Path.thy ===== *)
theory Fs_Path
  imports Kernel_Prelude
begin

text \<open>
  Path names (\<^verbatim>\<open>kern/fs/main.c\<close>): \<^verbatim>\<open>fs_fqname\<close>, which turns a path into a fully qualified one, and
  \<^verbatim>\<open>fs_pathfs\<close>, which finds the mounted file system that a qualified path belongs to.

  A C string is the list of its characters before the terminating NUL. The buffers have
  \<^verbatim>\<open>PATH_MAX\<close> bytes, so a string in one of them is shorter than that.
\<close>

abbreviation (input) PATH_MAX :: nat where "PATH_MAX \<equiv> 256"
abbreviation slash :: char where "slash \<equiv> CHR ''/''"

section \<open>Qualified names\<close>

text \<open>\<^verbatim>\<open>strrchr(buf, '/')\<close>, and the string cut there.\<close>

definition cut_last :: "string \<Rightarrow> string option" where
  "cut_last buf =
     (case dropWhile (\<lambda>c. c \<noteq> slash) (rev buf) of [] \<Rightarrow> None | _ # r \<Rightarrow> Some (rev r))"

function fq_loop :: "string \<Rightarrow> string \<Rightarrow> errno + string" where
  "fq_loop buf src =
     (if src = [] then Inr buf
      else
        let src1 = dropWhile (\<lambda>c. c = slash) src;
            comp = takeWhile (\<lambda>c. c \<noteq> slash) src1;
            rest = dropWhile (\<lambda>c. c \<noteq> slash) src1
        in if comp = [] \<or> comp = ''.'' then fq_loop buf rest
           else if comp = ''..'' then
             fq_loop (case cut_last buf of None \<Rightarrow> buf | Some p \<Rightarrow> p) rest
           else if length buf + length comp + 1 \<ge> PATH_MAX then Inl ENAMETOOLONG
           else fq_loop (buf @ slash # comp) rest)"
  by pat_completeness auto

lemma dropWhile_head: "dropWhile P xs = y # ys \<Longrightarrow> \<not> P y"
  by (simp add: dropWhile_eq_Cons_conv)

lemma rest_shorter:
  assumes "src \<noteq> []"
  shows "length (dropWhile (\<lambda>c. c \<noteq> slash) (dropWhile (\<lambda>c. c = slash) src)) < length src"
proof (cases "dropWhile (\<lambda>c. c = slash) src")
  case Nil
  show ?thesis unfolding Nil using assms by simp
next
  case (Cons x xs)
  then have "x \<noteq> slash" by (rule dropWhile_head)
  then have "length (dropWhile (\<lambda>c. c \<noteq> slash) (x # xs)) \<le> length xs"
    by (simp add: length_dropWhile_le)
  also have "\<dots> < length src"
    using Cons length_dropWhile_le [of "\<lambda>c. c = slash" src] by simp
  finally show ?thesis using Cons by simp
qed

termination fq_loop
  by (relation "measure (\<lambda>(buf, src). length src)") (auto simp: rest_shorter)

declare fq_loop.simps [simp del]

definition fs_fqname :: "string \<Rightarrow> string \<Rightarrow> string \<Rightarrow> errno + string" where
  "fs_fqname cwd tty path =
     (let (buf, src) = (if path \<noteq> [] \<and> hd path = slash then ([], tl path)
                        else (if length cwd \<ge> 2 then cwd else [], path))
      in case fq_loop buf src of
           Inl e \<Rightarrow> Inl e
         | Inr buf1 \<Rightarrow>
             let buf2 = (if buf1 = [] then [slash] else buf1)
             in Inr (if buf2 = ''/dev/tty'' \<and> tty \<noteq> [] then tty else buf2))"

section \<open>What a path means\<close>

text \<open>
  The reference: a path is a list of names; an absolute one starts from the root, a relative one
  from the working directory; \<open>.\<close> stays, \<open>..\<close> goes up (and stays at the root).
\<close>

definition render :: "string list \<Rightarrow> string" where
  "render cs = concat (map (\<lambda>c. slash # c) cs)"

lemma length_dropWhile_less [termination_simp]: "length (dropWhile P xs) < Suc (length xs)"
  by (simp add: le_imp_less_Suc length_dropWhile_le)

fun names :: "string \<Rightarrow> string list" where
  "names [] = []"
| "names (c # cs) =
     (if c = slash then names cs
      else (c # takeWhile (\<lambda>c. c \<noteq> slash) cs) # names (dropWhile (\<lambda>c. c \<noteq> slash) cs))"

definition good_name :: "string \<Rightarrow> bool" where
  "good_name c \<longleftrightarrow> c \<noteq> [] \<and> c \<noteq> ''.'' \<and> c \<noteq> ''..'' \<and> slash \<notin> set c"

fun walk :: "string list \<Rightarrow> string list \<Rightarrow> string list option" where
  "walk cs [] = Some cs"
| "walk cs (n # ns) =
     (if n = ''.'' then walk cs ns
      else if n = ''..'' then walk (butlast cs) ns
      else if length (render (cs @ [n])) \<ge> PATH_MAX then None
      else walk (cs @ [n]) ns)"

lemma render_simps [simp]: "render [] = []" "render (c # cs) = slash # c @ render cs"
    "render (xs @ ys) = render xs @ render ys"
  by (simp_all add: render_def)

lemma render_eq_Nil [simp]: "render cs = [] \<longleftrightarrow> cs = []"
  by (cases cs) auto

lemma names_nil_slash: "names (dropWhile (\<lambda>c. c = slash) src) = names src"
  by (induction src) auto

lemma cut_last_render:
  assumes "slash \<notin> set c"
  shows "cut_last (render cs @ slash # c) = Some (render cs)"
proof -
  have "dropWhile (\<lambda>x. x \<noteq> slash) (rev (render cs @ slash # c)) = slash # rev (render cs)"
    using assms by (simp add: dropWhile_append)
  then show ?thesis by (simp add: cut_last_def)
qed

lemma fq_loop_walk:
  "\<forall>c \<in> set cs. slash \<notin> set c \<Longrightarrow>
   fq_loop (render cs) src = (case walk cs (names src) of None \<Rightarrow> Inl ENAMETOOLONG | Some ds \<Rightarrow> Inr (render ds))"
proof (induction "length src" arbitrary: src cs rule: less_induct)
  case less
  show ?case
  proof (cases "src = []")
    case True
    then show ?thesis by (simp add: fq_loop.simps [of _ "[]"])
  next
    case False
    define src1 where "src1 = dropWhile (\<lambda>c. c = slash) src"
    define comp where "comp = takeWhile (\<lambda>c. c \<noteq> slash) src1"
    define rest where "rest = dropWhile (\<lambda>c. c \<noteq> slash) src1"
    have short: "length rest < length src" unfolding rest_def src1_def by (rule rest_shorter [OF False])
    have ns: "slash \<notin> set comp" unfolding comp_def by (auto dest: set_takeWhileD)
    have nm: "names src = (if comp = [] then [] else comp # names rest)" and rn: "comp = [] \<longrightarrow> rest = []"
    proof -
      have *: "names src = names src1" unfolding src1_def by (rule names_nil_slash [symmetric])
      show "names src = (if comp = [] then [] else comp # names rest)"
      proof (cases src1)
        case (Cons x xs)
        then have "x \<noteq> slash" unfolding src1_def by (rule dropWhile_head)
        then show ?thesis using * Cons by (simp add: comp_def rest_def)
      qed (use * in \<open>simp add: comp_def\<close>)
      show "comp = [] \<longrightarrow> rest = []"
      proof (cases src1)
        case (Cons x xs)
        then have "x \<noteq> slash" unfolding src1_def by (rule dropWhile_head)
        then show ?thesis using Cons by (simp add: comp_def)
      qed (simp add: rest_def)
    qed
    have unf: "fq_loop (render cs) src =
        (if comp = [] \<or> comp = ''.'' then fq_loop (render cs) rest
         else if comp = ''..'' then fq_loop (case cut_last (render cs) of None \<Rightarrow> render cs | Some p \<Rightarrow> p) rest
         else if length (render cs) + length comp + 1 \<ge> PATH_MAX then Inl ENAMETOOLONG
         else fq_loop (render cs @ slash # comp) rest)"
      using False unfolding comp_def rest_def src1_def by (subst fq_loop.simps) (simp only: Let_def if_False)
    have cut: "(case cut_last (render cs) of None \<Rightarrow> render cs | Some p \<Rightarrow> p) = render (butlast cs)"
    proof (cases cs rule: rev_cases)
      case Nil
      then show ?thesis by (simp add: cut_last_def)
    next
      case (snoc ds d)
      then show ?thesis using less.prems cut_last_render [of d ds] by simp
    qed
    have IH: "fq_loop (render ds) rest =
        (case walk ds (names rest) of None \<Rightarrow> Inl ENAMETOOLONG | Some es \<Rightarrow> Inr (render es))"
      if "\<forall>c \<in> set ds. slash \<notin> set c" for ds using less.hyps [OF short that] .
    have app: "render cs @ slash # comp = render (cs @ [comp])" by simp
    have len: "length (render (cs @ [comp])) = length (render cs) + length comp + 1" by simp
    show ?thesis
      unfolding unf cut app nm
      using IH [of cs] IH [of "butlast cs"] IH [of "cs @ [comp]"] less.prems ns rn len
      by (auto dest: in_set_butlastD)
  qed
qed

section \<open>The file system of a path\<close>

text \<open>
  \<^verbatim>\<open>struct fs\<close>, an entry of the mount table \<^verbatim>\<open>fs_fs\<close>. \<^verbatim>\<open>prefix_l\<close> is always the length of \<^verbatim>\<open>prefix\<close>;
  \<^verbatim>\<open>type\<close> and \<^verbatim>\<open>dev\<close> are indices into the tables of file system types and block devices.
\<close>

record fs =
  prefix :: string
  removable :: bool
  read_only :: bool
  no_atime :: bool
  insecure :: bool
  active :: bool
  in_use :: bool
  unmount_time :: int
  fs_type :: "nat option"
  fs_dev :: "nat option"

definition prefix_matches :: "fs \<Rightarrow> string \<Rightarrow> bool" where
  "prefix_matches f path \<longleftrightarrow>
     length (prefix f) \<le> length path \<and> take (length (prefix f)) path = prefix f \<and>
     (length (prefix f) = length path \<or> path ! length (prefix f) = slash)"

fun pathfs_loop :: "(nat \<times> fs) list \<Rightarrow> string \<Rightarrow> nat option \<Rightarrow> nat \<Rightarrow> nat option \<times> nat" where
  "pathfs_loop [] path f l = (f, l)"
| "pathfs_loop ((i, e) # es) path f l =
     (if \<not> in_use e \<or> length (prefix e) < l \<or> \<not> prefix_matches e path then pathfs_loop es path f l
      else pathfs_loop es path (Some i) (length (prefix e)))"

definition fs_pathfs :: "fs list \<Rightarrow> string \<Rightarrow> errno + (nat \<times> nat)" where
  "fs_pathfs fs_fs path =
     (case pathfs_loop (enumerate 0 fs_fs) path None 0 of
        (None, _) \<Rightarrow> Inl ENOENT
      | (Some i, l) \<Rightarrow> Inr (i, l + length (takeWhile (\<lambda>c. c = slash) (drop l path))))"

text \<open>
  \<^verbatim>\<open>fs_parsename4\<close>: the file system, the name inside it and the qualified name. \<open>activate\<close> is
  \<^verbatim>\<open>fs_activate\<close>, which mounts a removable file system on demand.
\<close>

definition fs_parsename4 ::
    "(nat \<Rightarrow> 's \<Rightarrow> (errno \<times> 's) option) \<Rightarrow> fs list \<Rightarrow> string \<Rightarrow> string \<Rightarrow> string \<Rightarrow> 's \<Rightarrow>
     ((errno + (nat \<times> string \<times> string)) \<times> 's) option" where
  "fs_parsename4 activate fs_fs cwd tty path s =
     (case fs_fqname cwd tty path of
        Inl e \<Rightarrow> Some (Inl e, s)
      | Inr fq \<Rightarrow>
          (case fs_pathfs fs_fs fq of
             Inl e \<Rightarrow> Some (Inl e, s)
           | Inr (i, l) \<Rightarrow> do {
               (e, s1) \<leftarrow> activate i s;
               Some (if e \<noteq> EZERO then (Inl e, s1) else (Inr (i, drop l fq, fq), s1))
             }))"

section \<open>Canonical paths\<close>

definition shown :: "string list \<Rightarrow> string" where
  "shown cs = (if cs = [] then [slash] else render cs)"

definition plain_name :: "string \<Rightarrow> bool" where
  "plain_name n \<longleftrightarrow> n \<noteq> [] \<and> slash \<notin> set n"

lemma plain_names: "\<forall>n \<in> set (names p). plain_name n"
  by (induction p rule: names.induct) (auto simp: plain_name_def dest: set_takeWhileD)

lemma walk_canonical:
  "walk cs ns = Some ds \<Longrightarrow> \<forall>c \<in> set cs. good_name c \<Longrightarrow> length (render cs) < PATH_MAX \<Longrightarrow>
   \<forall>n \<in> set ns. plain_name n \<Longrightarrow> (\<forall>d \<in> set ds. good_name d) \<and> length (render ds) < PATH_MAX"
proof (induction cs ns rule: walk.induct)
  case (2 cs n ns)
  have b: "length (render (butlast cs)) < PATH_MAX"
    using 2(6) by (cases cs rule: rev_cases) auto
  have gb: "\<forall>c \<in> set (butlast cs). good_name c" using 2(5) by (auto dest: in_set_butlastD)
  have pl: "\<forall>n \<in> set ns. plain_name n" "plain_name n" using 2(7) by auto
  consider "n = ''.''" | "n = ''..''" | "good_name n"
    using pl(2) by (auto simp: good_name_def plain_name_def)
  then show ?case
  proof cases
    case 1
    then show ?thesis using 2(1) 2(4-6) pl(1) by simp
  next
    case 2
    then show ?thesis using "2.IH"(2) "2.prems"(1) gb b pl(1) by simp
  next
    case 3
    then have n: "n \<noteq> ''.''" "n \<noteq> ''..''" by (auto simp: good_name_def)
    have step: "walk cs (n # ns) = (if length (render (cs @ [n])) \<ge> PATH_MAX then None else walk (cs @ [n]) ns)"
      by (simp only: walk.simps n if_False)
    have len: "\<not> length (render (cs @ [n])) \<ge> PATH_MAX"
    proof
      assume "length (render (cs @ [n])) \<ge> PATH_MAX"
      then show False using "2.prems"(1) unfolding step by (simp only: if_True option.distinct)
    qed
    have w: "walk (cs @ [n]) ns = Some ds"
      using "2.prems"(1) unfolding step if_not_P [OF len] .
    have "\<forall>c \<in> set (cs @ [n]). good_name c" using "2.prems"(2) 3 by auto
    moreover have "length (render (cs @ [n])) < PATH_MAX" using len by linarith
    ultimately show ?thesis by (rule "2.IH"(3) [OF n len w _ _ pl(1)])
  qed
qed simp

lemma names_render:
  "\<forall>c \<in> set cs. good_name c \<Longrightarrow> names (render cs) = cs"
proof (induction cs)
  case (Cons c cs)
  obtain x xs where c: "c = x # xs" "x \<noteq> slash" "slash \<notin> set xs"
    using Cons.prems by (cases c) (auto simp: good_name_def)
  have "takeWhile (\<lambda>c. c \<noteq> slash) (xs @ render cs) = xs \<and> dropWhile (\<lambda>c. c \<noteq> slash) (xs @ render cs) = render cs"
    using c(3) by (cases cs) (auto simp: takeWhile_append dropWhile_append)
  then show ?case using Cons c by simp
qed simp

lemma walk_good:
  "\<forall>n \<in> set ns. good_name n \<Longrightarrow> length (render (cs @ ns)) < PATH_MAX \<Longrightarrow> walk cs ns = Some (cs @ ns)"
  by (induction cs ns rule: walk.induct) (auto simp: good_name_def)

lemma fs_fqname_walk:
  assumes "\<forall>c \<in> set cs. good_name c"
  shows "fs_fqname (shown cs) tty path =
     (case walk (if path \<noteq> [] \<and> hd path = slash then [] else cs) (names path) of
        None \<Rightarrow> Inl ENAMETOOLONG
      | Some ds \<Rightarrow> Inr (if shown ds = ''/dev/tty'' \<and> tty \<noteq> [] then tty else shown ds))"
proof -
  have w: "(if length (shown cs) \<ge> 2 then shown cs else []) = render cs"
    using assms by (cases cs) (auto simp: shown_def good_name_def Suc_le_eq)
  have nosl: "\<forall>c \<in> set cs. slash \<notin> set c" using assms by (simp add: good_name_def)
  show ?thesis
  proof (cases "path \<noteq> [] \<and> hd path = slash")
    case True
    then obtain p where p: "path = slash # p" by (cases path) auto
    show ?thesis
      using fq_loop_walk [of "[]" p]
      by (cases "walk [] (names p)") (simp_all add: fs_fqname_def p shown_def Let_def)
  next
    case False
    have "fs_fqname (shown cs) tty path =
        (case fq_loop (render cs) path of Inl e \<Rightarrow> Inl e
         | Inr buf1 \<Rightarrow> let buf2 = (if buf1 = [] then [slash] else buf1)
             in Inr (if buf2 = ''/dev/tty'' \<and> tty \<noteq> [] then tty else buf2))"
      unfolding fs_fqname_def if_not_P [OF False] w by simp
    then show ?thesis
      unfolding if_not_P [OF False]
      using fq_loop_walk [OF nosl, of path]
      by (cases "walk cs (names path)") (simp_all add: shown_def Let_def)
  qed
qed

section \<open>Correctness\<close>

text \<open>
  \<^verbatim>\<open>fs_fqname\<close> computes the path that the names mean: starting from the root for an absolute path
  and from the working directory otherwise, \<open>.\<close> is dropped, \<open>..\<close> removes the last component (and is
  dropped at the root), repeated and trailing slashes vanish, every other name is
  appended; \<^verbatim>\<open>ENAMETOOLONG\<close> is returned exactly when some intermediate result would not fit in
  \<^verbatim>\<open>PATH_MAX\<close> bytes. The name \<^verbatim>\<open>/dev/tty\<close> is replaced by the caller's terminal.
\<close>

theorem fqname_meaning:
  assumes "\<forall>c \<in> set cs. good_name c"
  shows "fs_fqname (shown cs) tty path =
     (case walk (if path \<noteq> [] \<and> hd path = slash then [] else cs) (names path) of
        None \<Rightarrow> Inl ENAMETOOLONG
      | Some ds \<Rightarrow> Inr (if shown ds = ''/dev/tty'' \<and> tty \<noteq> [] then tty else shown ds))"
  by (rule fs_fqname_walk [OF assms])

theorem fqname_meaning_witness:
  "fs_fqname ''/home/u'' [] ''.././/x/'' = Inr ''/home/x'' \<and>
   fs_fqname ''/home/u'' ''/dev/con0'' ''/dev/../../dev/tty'' = Inr ''/dev/con0''"
proof -
  have g: "\<forall>c \<in> set [''home'', ''u'']. good_name c" by (simp add: good_name_def)
  have sh: "shown [''home'', ''u''] = ''/home/u''" by (simp add: shown_def)
  show ?thesis
    using fqname_meaning [OF g, of "[]" "''.././/x/''"]
      fqname_meaning [OF g, of "''/dev/con0''" "''/dev/../../dev/tty''"]
    unfolding sh by (simp add: shown_def)
qed

text \<open>
  C8: A qualified name is canonical and fits: it is the rendering of a list of names none of which is
  empty, \<open>.\<close> or \<open>..\<close>, it is shorter than \<^verbatim>\<open>PATH_MAX\<close>, and qualifying it again, from any working
  directory, gives the same name. The only exception is a path that means \<^verbatim>\<open>/dev/tty\<close> for a task with a terminal: the result is the name of
  the terminal exactly as the task has it, canonical or not.
\<close>

theorem fqname_canonical:
  assumes "\<forall>c \<in> set cs. good_name c" and "length (render cs) < PATH_MAX"
    and "fs_fqname (shown cs) tty path = Inr q" and "\<forall>c \<in> set cs'. good_name c"
  shows "if tty \<noteq> [] \<and> fs_fqname (shown cs) [] path = Inr ''/dev/tty'' then q = tty
         else (\<exists>ds. (\<forall>d \<in> set ds. good_name d) \<and> q = shown ds) \<and> length q < PATH_MAX \<and>
              fs_fqname (shown cs') tty q = Inr q"
proof -
  let ?start = "if path \<noteq> [] \<and> hd path = slash then [] else cs"
  obtain ds where w: "walk ?start (names path) = Some ds" and q: "q = (if shown ds = ''/dev/tty'' \<and> tty \<noteq> [] then tty else shown ds)"
    using assms(3) fs_fqname_walk [OF assms(1), of tty path]
    by (auto split: option.splits if_splits)
  have bare: "fs_fqname (shown cs) [] path = Inr (shown ds)" using fs_fqname_walk [OF assms(1), of "[]" path] w by simp
  have st: "\<forall>c \<in> set ?start. good_name c" "length (render ?start) < PATH_MAX" using assms(1,2) by simp_all
  have g: "\<forall>d \<in> set ds. good_name d" and l: "length (render ds) < PATH_MAX"
    using walk_canonical [OF w st plain_names] by blast+
  have hd: "shown ds \<noteq> [] \<and> hd (shown ds) = slash" by (cases ds) (simp_all add: shown_def)
  have nm: "names (shown ds) = ds" using names_render [OF g] by (cases ds) (simp_all add: shown_def)
  have "walk [] (names (shown ds)) = Some ds" using walk_good [of ds "[]"] g l nm by simp
  then have "fs_fqname (shown cs') tty (shown ds) = Inr (if shown ds = ''/dev/tty'' \<and> tty \<noteq> [] then tty else shown ds)"
    using fs_fqname_walk [OF assms(4), of tty "shown ds"] hd by simp
  moreover have "length (shown ds) < PATH_MAX" using l by (cases ds) (simp_all add: shown_def)
  ultimately show ?thesis using g q bare by auto
qed

theorem fqname_canonical_witness:
  "fs_fqname ''/a'' ''/dev/con0'' ''b/../c'' = Inr ''/a/c'' \<and> fs_fqname ''/'' ''/dev/con0'' ''/a/c'' = Inr ''/a/c''"
proof -
  have g: "\<forall>c \<in> set [''a'']. good_name c" by (simp add: good_name_def)
  have sh: "shown [''a''] = ''/a''" "shown [] = ''/''" by (simp_all add: shown_def)
  have q: "fs_fqname ''/a'' tty ''b/../c'' = Inr ''/a/c''" for tty
    using fs_fqname_walk [OF g, of tty "''b/../c''"] unfolding sh by (simp add: shown_def)
  then show ?thesis
    using fqname_canonical [OF g, of "''/dev/con0''" "''b/../c''" "''/a/c''" "[]"] unfolding sh by simp
qed

lemma pathfs_loop_best:
  "pathfs_loop es path f l = (r, m) \<Longrightarrow> (f = None \<longrightarrow> l = 0) \<Longrightarrow>
   l \<le> m \<and> (f \<noteq> None \<longrightarrow> r \<noteq> None) \<and>
   (r = f \<and> m = l \<or> (\<exists>i e. (i, e) \<in> set es \<and> in_use e \<and> prefix_matches e path \<and> r = Some i \<and> m = length (prefix e))) \<and>
   (\<forall>i e. (i, e) \<in> set es \<longrightarrow> in_use e \<longrightarrow> prefix_matches e path \<longrightarrow> length (prefix e) \<le> m \<and> r \<noteq> None)"
proof (induction es path f l rule: pathfs_loop.induct)
  case (2 i e es path f l)
  show ?case
  proof (cases "\<not> in_use e \<or> length (prefix e) < l \<or> \<not> prefix_matches e path")
    case True
    then have "pathfs_loop es path f l = (r, m)" using 2(3) by simp
    from 2(1) [OF True this 2(4)] True 2(4) show ?thesis by (auto simp del: not_None_eq)
  next
    case False
    then have "pathfs_loop es path (Some i) (length (prefix e)) = (r, m)" using 2(3) by simp
    from 2(2) [OF False this] False show ?thesis by (auto simp del: not_None_eq)
  qed
qed auto

text \<open>
  \<^verbatim>\<open>fs_pathfs\<close> finds the innermost mounted file system: one that is in use, whose mount point is the
  path or one of its ancestors (never a mere string prefix of a component), and no other such
  mount point is longer. It fails with \<^verbatim>\<open>ENOENT\<close> only when there is none; what follows the returned
  length is the rest of the path without leading slashes.
\<close>

theorem pathfs_innermost:
  "case fs_pathfs fs_fs path of
     Inl e \<Rightarrow> e = ENOENT \<and> (\<forall>f \<in> set fs_fs. \<not> (in_use f \<and> prefix_matches f path))
   | Inr (i, l) \<Rightarrow> i < length fs_fs \<and> in_use (fs_fs ! i) \<and> prefix_matches (fs_fs ! i) path \<and>
       (\<forall>f \<in> set fs_fs. in_use f \<and> prefix_matches f path \<longrightarrow> length (prefix f) \<le> length (prefix (fs_fs ! i))) \<and>
       drop l path = dropWhile (\<lambda>c. c = slash) (drop (length (prefix (fs_fs ! i))) path)"
proof -
  obtain r m where rm: "pathfs_loop (enumerate 0 fs_fs) path None 0 = (r, m)" by fastforce
  have en: "(i, e) \<in> set (enumerate 0 fs_fs) \<longleftrightarrow> i < length fs_fs \<and> fs_fs ! i = e" for i e
    by (auto simp: in_set_enumerate_eq)
  note best = pathfs_loop_best [OF rm, unfolded en]
  show ?thesis
  proof (cases r)
    case None
    then show ?thesis
      using best rm by (auto simp: fs_pathfs_def in_set_conv_nth)
  next
    case (Some i)
    have dw: "drop (m + length (takeWhile (\<lambda>c. c = slash) (drop m path))) path =
        dropWhile (\<lambda>c. c = slash) (drop m path)"
      by (simp add: dropWhile_eq_drop add.commute)
    have "i < length fs_fs \<and> in_use (fs_fs ! i) \<and> prefix_matches (fs_fs ! i) path \<and> m = length (prefix (fs_fs ! i))"
      using best Some by auto
    moreover have "length (prefix f) \<le> m" if "f \<in> set fs_fs" "in_use f" "prefix_matches f path" for f
      using best that by (auto simp: in_set_conv_nth)
    ultimately show ?thesis using rm Some dw by (auto simp: fs_pathfs_def)
  qed
qed

definition example_mounts :: "fs list" where
  "example_mounts = map (\<lambda>p. \<lparr>prefix = p, removable = False, read_only = False, no_atime = False,
     insecure = False, active = True, in_use = True, unmount_time = 0, fs_type = Some 0, fs_dev = None\<rparr>)
     [[], ''/mnt'', ''/mnt/cd'']"

theorem pathfs_innermost_witness:
  "\<exists>l. fs_pathfs example_mounts ''/mnt/cdrom/x'' = Inr (1, l) \<and> drop l ''/mnt/cdrom/x'' = ''cdrom/x''"
proof -
  have r: "fs_pathfs example_mounts ''/mnt/cdrom/x'' = Inr (1, 5)"
    by (simp add: fs_pathfs_def example_mounts_def prefix_matches_def)
  then show ?thesis using pathfs_innermost [of example_mounts "''/mnt/cdrom/x''"] by simp
qed

end
