(* ===== verification/Fs_File.thy ===== *)
theory Fs_File
  imports Signal Fs_Path
begin

text \<open>
  Open files (\<^verbatim>\<open>kern/fs/fdesc.c\<close>) and file system objects (\<^verbatim>\<open>kern/fs/main.c\<close>, \<^verbatim>\<open>kern/fs/misc.c\<close>): descriptor
  tables, the table of open files with its reference counts, the table of in-core objects, access
  permissions, poll state and notifications.

  \<open>fstate\<close> extends the kernel state with the tables of \<^verbatim>\<open>include/kern/fs.h\<close>. An entry of a table is named
  by its index; \<open>PipeFs\<close> is the static \<^verbatim>\<open>pipe_fs\<close>. The operations of a file system type are called through
  pointers in the code; here they are arguments (\<open>getfso\<close>, \<open>putfso\<close>, \<open>syncfso\<close>, ...), functions
  of the object's index. The wait queues of a pipe object \<open>i\<close> are \<open>Waitq (2 * i)\<close> (readers) and
  \<open>Waitq (2 * i + 1)\<close> (writers), the queue \<^verbatim>\<open>fs_pollq\<close> is \<open>Pollq\<close>.
\<close>

section \<open>Tables\<close>

abbreviation (input) OPEN_MAX :: nat where "OPEN_MAX \<equiv> 64"
abbreviation (input) FS_MAXFS :: nat where "FS_MAXFS \<equiv> 16"
abbreviation (input) FS_MAXFSO :: nat where "FS_MAXFSO \<equiv> 256"
abbreviation (input) FS_MAXFILE :: nat where "FS_MAXFILE \<equiv> 256"
abbreviation (input) R_OK :: "32 word" where "R_OK \<equiv> 4"
abbreviation (input) W_OK :: "32 word" where "W_OK \<equiv> 2"
abbreviation (input) X_OK :: "32 word" where "X_OK \<equiv> 1"

datatype fsref = Fs nat | PipeFs

record fs_file =
  ff_refcnt :: int
  ff_fso :: "nat option"
  ff_offset :: nat
  ff_omode :: nat

record fso =
  no_seek :: bool
  o_refcnt :: int
  o_dirty :: bool
  o_fs :: fsref
  o_index :: int
  nlink :: int
  o_uid :: int
  o_gid :: int
  atime :: int
  ctime :: int
  mtime :: int
  o_blocks :: int
  o_mode :: "32 word"
  o_size :: nat
  o_rdev :: int
  reader_count :: int
  writer_count :: int
  polling :: "tid option"
  pollcnt :: int
  o_state :: "32 word"
  write_p :: nat
  read_p :: nat
  p_buf :: "8 word list"

record fstate = kstate +
  fs_file :: "nat \<Rightarrow> fs_file"
  fs_fso :: "nat \<Rightarrow> fso"
  fs_fso_high :: nat
  fs_fs :: "fs list"

definition zero_file :: fs_file where
  "zero_file = \<lparr>ff_refcnt = 0, ff_fso = None, ff_offset = 0, ff_omode = 0\<rparr>"

definition zero_fso :: fso where
  "zero_fso = \<lparr>no_seek = False, o_refcnt = 0, o_dirty = False, o_fs = Fs 0, o_index = 0, nlink = 0,
     o_uid = 0, o_gid = 0, atime = 0, ctime = 0, mtime = 0, o_blocks = 0, o_mode = 0, o_size = 0,
     o_rdev = 0, reader_count = 0, writer_count = 0, polling = None, pollcnt = 0, o_state = 0,
     write_p = 0, read_p = 0, p_buf = []\<rparr>"

definition upd_fso :: "nat \<Rightarrow> (fso \<Rightarrow> fso) \<Rightarrow> 'z fstate_scheme \<Rightarrow> 'z fstate_scheme" where
  "upd_fso i f s = s\<lparr>fs_fso := (fs_fso s)(i := f (fs_fso s i))\<rparr>"

definition upd_file :: "nat \<Rightarrow> (fs_file \<Rightarrow> fs_file) \<Rightarrow> 'z fstate_scheme \<Rightarrow> 'z fstate_scheme" where
  "upd_file i f s = s\<lparr>fs_file := (fs_file s)(i := f (fs_file s i))\<rparr>"

definition fds :: "'z fstate_scheme \<Rightarrow> tid \<Rightarrow> nat \<Rightarrow> nat option" where
  "fds s t d = fd_file (file_desc (tsk s t) d)"

section \<open>File system objects\<close>

text \<open>The reader and writer counts that an open file with mode \<^verbatim>\<open>omode\<close> stands for.\<close>

definition reads :: "nat \<Rightarrow> bool" where
  "reads omode \<longleftrightarrow> omode mod 8 = 0 \<or> omode mod 8 = 2"

definition writes :: "nat \<Rightarrow> bool" where
  "writes omode \<longleftrightarrow> omode mod 8 = 1 \<or> omode mod 8 = 2"

definition count_open :: "int \<Rightarrow> nat \<Rightarrow> fso \<Rightarrow> fso" where
  "count_open k omode o' =
     o'\<lparr>reader_count := reader_count o' + (if reads omode then k else 0),
        writer_count := writer_count o' + (if writes omode then k else 0)\<rparr>"

definition fs_getfso ::
    "(nat \<Rightarrow> 'z fstate_scheme \<Rightarrow> (errno \<times> 'z fstate_scheme) option) \<Rightarrow> errno \<Rightarrow> fsref \<Rightarrow> int \<Rightarrow>
     'z fstate_scheme \<Rightarrow> ((errno + nat) \<times> 'z fstate_scheme) option" where
  "fs_getfso getfso atmem fs index s =
     (case List.find (\<lambda>i. o_refcnt (fs_fso s i) \<noteq> 0 \<and> index \<noteq> -1 \<and> o_index (fs_fso s i) = index \<and>
                          o_fs (fs_fso s i) = fs) [0..<fs_fso_high s] of
        Some i \<Rightarrow> Some (Inr i, upd_fso i (\<lambda>p. p\<lparr>o_refcnt := o_refcnt p + 1\<rparr>) s)
      | None \<Rightarrow>
          (case (case List.find (\<lambda>i. o_refcnt (fs_fso s i) = 0) (rev [0..<fs_fso_high s]) of
                   Some n \<Rightarrow> Inr (n, s)
                 | None \<Rightarrow>
                     if fs_fso_high s \<ge> FS_MAXFSO then Inl ENOMEM
                     else if atmem \<noteq> EZERO then Inl atmem
                     else Inr (fs_fso_high s, s\<lparr>fs_fso_high := fs_fso_high s + 1\<rparr>)) of
             Inl e \<Rightarrow> Some (Inl e, s)
           | Inr (n, s1) \<Rightarrow> do {
               (e, s2) \<leftarrow> getfso n (upd_fso n (\<lambda>_. zero_fso\<lparr>o_index := index, o_refcnt := 1, o_fs := fs\<rparr>) s1);
               Some (if e \<noteq> EZERO then (Inl e, upd_fso n (o_refcnt_update (\<lambda>_. 0)) s2) else (Inr n, s2))
             }))"

definition fs_putfso ::
    "(nat \<Rightarrow> 'z fstate_scheme \<Rightarrow> 'z fstate_scheme option) \<Rightarrow> nat option \<Rightarrow> 'z fstate_scheme \<Rightarrow>
     'z fstate_scheme option" where
  "fs_putfso putfso fo s =
     (case fo of
        None \<Rightarrow> Some s
      | Some i \<Rightarrow>
          if o_refcnt (fs_fso s i) = 0 then None
          else do {
            s1 \<leftarrow> (if o_refcnt (fs_fso s i) = 1 then putfso i s else Some s);
            Some (upd_fso i (\<lambda>p. p\<lparr>o_refcnt := o_refcnt p - 1\<rparr>) s1)
          })"

definition fs_state :: "nat \<Rightarrow> 32 word \<Rightarrow> 'z fstate_scheme \<Rightarrow> 'z fstate_scheme option" where
  "fs_state f st s =
     (if o_state (fs_fso s f) = st then Some s
      else
        let s1 = upd_fso f (o_state_update (\<lambda>_. st)) s
        in case polling (fs_fso s1 f) of
             Some t \<Rightarrow> task_resume t s1
           | None \<Rightarrow> if pollcnt (fs_fso s1 f) \<noteq> 0 then wake_all Pollq s1 else Some s1)"

definition fs_setstate :: "nat \<Rightarrow> 32 word \<Rightarrow> 'z fstate_scheme \<Rightarrow> 'z fstate_scheme option" where
  "fs_setstate f st s = fs_state f (o_state (fs_fso s f) OR st) s"

definition fs_clrstate :: "nat \<Rightarrow> 32 word \<Rightarrow> 'z fstate_scheme \<Rightarrow> 'z fstate_scheme option" where
  "fs_clrstate f st s = fs_state f (o_state (fs_fso s f) AND NOT st) s"

section \<open>Open files and descriptors\<close>

definition fs_getfile :: "nat option \<Rightarrow> nat \<Rightarrow> 'z fstate_scheme \<Rightarrow> (errno + nat) \<times> 'z fstate_scheme" where
  "fs_getfile fo omode s =
     (case List.find (\<lambda>i. ff_refcnt (fs_file s i) = 0) [0..<FS_MAXFILE] of
        None \<Rightarrow> (Inl ENFILE, s)
      | Some i \<Rightarrow>
          let s1 = upd_file i (\<lambda>_. zero_file\<lparr>ff_refcnt := 1, ff_fso := fo, ff_omode := omode\<rparr>) s
          in (Inr i, (case fo of None \<Rightarrow> s1 | Some o' \<Rightarrow> upd_fso o' (count_open 1 omode) s1)))"

definition fs_putfile ::
    "(nat \<Rightarrow> 'z fstate_scheme \<Rightarrow> 'z fstate_scheme option) \<Rightarrow> nat \<Rightarrow> 'z fstate_scheme \<Rightarrow> 'z fstate_scheme option" where
  "fs_putfile putfso f s =
     (if ff_refcnt (fs_file s f) = 0 then None
      else if ff_refcnt (fs_file s f) = 1 then do {
        s1 \<leftarrow> (let om = ff_omode (fs_file s f) in
               if reads om \<or> writes om then
                 (case ff_fso (fs_file s f) of None \<Rightarrow> None | Some o' \<Rightarrow> Some (upd_fso o' (count_open (-1) om) s))
               else Some s);
        s2 \<leftarrow> fs_putfso putfso (ff_fso (fs_file s f)) s1;
        Some (upd_file f (\<lambda>p. p\<lparr>ff_refcnt := ff_refcnt p - 1\<rparr>) s2)
      }
      else Some (upd_file f (\<lambda>p. p\<lparr>ff_refcnt := ff_refcnt p - 1\<rparr>) s))"

definition fs_getfd :: "nat \<Rightarrow> 'z fstate_scheme \<Rightarrow> ((errno + nat) \<times> 'z fstate_scheme) option" where
  "fs_getfd file s = do {
     c \<leftarrow> curr s;
     (case List.find (\<lambda>d. fds s c d = None) [0..<OPEN_MAX] of
        None \<Rightarrow> Some (Inl EMFILE, s)
      | Some d \<Rightarrow> Some (Inr d, upd_task c (file_desc_update (\<lambda>t. t(d := \<lparr>fd_file = Some file, fd_cloexec = 0\<rparr>))) s))
   }"

definition fs_putfd ::
    "(nat \<Rightarrow> 'z fstate_scheme \<Rightarrow> 'z fstate_scheme option) \<Rightarrow> nat \<Rightarrow> 'z fstate_scheme \<Rightarrow>
     (errno \<times> 'z fstate_scheme) option" where
  "fs_putfd putfso d s = do {
     c \<leftarrow> curr s;
     if d \<ge> OPEN_MAX then Some (EBADF, s)
     else (case fds s c d of
             None \<Rightarrow> Some (EBADF, s)
           | Some f \<Rightarrow> do {
               s1 \<leftarrow> fs_putfile putfso f s;
               Some (EZERO, upd_task c (file_desc_update (\<lambda>t. t(d := zero_desc))) s1)
             })
   }"

text \<open>\<^verbatim>\<open>fs_newtask\<close>: the new task \<open>p\<close> shares the open files of the current one.\<close>

definition fs_newtask :: "tid \<Rightarrow> 'z fstate_scheme \<Rightarrow> 'z fstate_scheme option" where
  "fs_newtask p s = do {
     c \<leftarrow> curr s;
     let s1 = upd_task p (\<lambda>u. u\<lparr>file_desc := file_desc (tsk s c), cwd := cwd (tsk s c), tty := tty (tsk s c),
                              ocwd := ocwd (tsk s c)\<rparr>) s;
     Some (fold (\<lambda>d s. case fds s p d of None \<Rightarrow> s | Some f \<Rightarrow> upd_file f (\<lambda>p. p\<lparr>ff_refcnt := ff_refcnt p + 1\<rparr>) s)
             [0..<OPEN_MAX] s1)
   }"

fun close_all ::
    "(nat \<Rightarrow> 'z fstate_scheme \<Rightarrow> 'z fstate_scheme option) \<Rightarrow> nat list \<Rightarrow> 'z fstate_scheme \<Rightarrow>
     'z fstate_scheme option" where
  "close_all putfso [] s = Some s"
| "close_all putfso (d # ds) s = do {
     c \<leftarrow> curr s;
     s1 \<leftarrow> (if fds s c d \<noteq> None then map_option snd (fs_putfd putfso d s) else Some s);
     close_all putfso ds s1
   }"

definition fs_clean ::
    "(nat \<Rightarrow> 'z fstate_scheme \<Rightarrow> 'z fstate_scheme option) \<Rightarrow> 'z fstate_scheme \<Rightarrow> 'z fstate_scheme option" where
  "fs_clean putfso s = do {
     c \<leftarrow> curr s;
     close_all putfso [0..<OPEN_MAX] (upd_task c (multipoll_update (\<lambda>_. 0)) s)
   }"

section \<open>Permissions and notifications\<close>

text \<open>The constants are 0444, 0222, 0111; 0400, 0200, 0100; 040, 020, 010; 04, 02, 01.\<close>

definition perm_bits :: "bool \<Rightarrow> fso \<Rightarrow> int \<Rightarrow> int \<Rightarrow> (32 word \<times> 32 word \<times> 32 word)" where
  "perm_bits insec o' uid gid =
     (if insec then (292, 146, 73)
      else if o_uid o' = uid then (256, 128, 64)
      else if o_gid o' = gid then (32, 16, 8)
      else (4, 2, 1))"

definition fs_of :: "'z fstate_scheme \<Rightarrow> fso \<Rightarrow> fs" where
  "fs_of s o' = (case o_fs o' of Fs i \<Rightarrow> fs_fs s ! i
     | PipeFs \<Rightarrow> \<lparr>prefix = [], removable = False, read_only = False, no_atime = True, insecure = False,
                active = False, in_use = True, unmount_time = 0, fs_type = None, fs_dev = None\<rparr>)"

definition fs_chk_perm ::
    "(nat \<Rightarrow> 32 word \<Rightarrow> int \<Rightarrow> int \<Rightarrow> 'z fstate_scheme \<Rightarrow> errno) \<Rightarrow> nat \<Rightarrow> 32 word \<Rightarrow> int \<Rightarrow> int \<Rightarrow> 'z fstate_scheme \<Rightarrow> errno" where
  "fs_chk_perm chk_perm i mode uid gid s =
     (let o' = fs_fso s i; f = fs_of s o'; (r, w, x) = perm_bits (insecure f) o' uid gid
      in if mode AND W_OK \<noteq> 0 \<and> read_only f then EROFS
         else if uid = 0 then EZERO
         else if mode AND R_OK \<noteq> 0 \<and> o_mode o' AND r = 0 then EACCES
         else if mode AND W_OK \<noteq> 0 \<and> o_mode o' AND w = 0 then EACCES
         else if mode AND X_OK \<noteq> 0 \<and> o_mode o' AND x = 0 then EACCES
         else chk_perm i mode uid gid s)"

definition fs_fdaccess ::
    "(nat \<Rightarrow> 32 word \<Rightarrow> int \<Rightarrow> int \<Rightarrow> 'z fstate_scheme \<Rightarrow> errno) \<Rightarrow> nat \<Rightarrow> 32 word \<Rightarrow> 'z fstate_scheme \<Rightarrow> errno option" where
  "fs_fdaccess chk_perm d mode s = do {
     c \<leftarrow> curr s;
     if d \<ge> OPEN_MAX then Some EBADF
     else (case fds s c d of
             None \<Rightarrow> Some EBADF
           | Some f \<Rightarrow>
               let om = ff_omode (fs_file s f) in
               if mode AND R_OK \<noteq> 0 \<and> \<not> reads om then Some EBADF
               else if mode AND W_OK \<noteq> 0 \<and> \<not> writes om then Some EBADF
               else if mode AND X_OK \<noteq> 0 then Some EINVAL
               else (case ff_fso (fs_file s f) of
                       None \<Rightarrow> Some EZERO
                     | Some i \<Rightarrow> Some (fs_chk_perm chk_perm i mode (euid (tsk s c)) (egid (tsk s c)) s)))
   }"

abbreviation (input) E_FNOTIF :: int where "E_FNOTIF \<equiv> 3"

fun notify_loop :: "string \<Rightarrow> tid list \<Rightarrow> 'z fstate_scheme \<Rightarrow> 'z fstate_scheme option" where
  "notify_loop dir [] s = Some s"
| "notify_loop dir (t # ts) s =
     (if slot s t \<and> ocwd (tsk s t) \<and> cwd (tsk s t) = dir then do {
        (_, s1) \<leftarrow> send_event t (zero_event\<lparr>ev_type := E_FNOTIF\<rparr>) s;
        notify_loop dir ts s1
      }
      else notify_loop dir ts s)"

definition fs_notify :: "string \<Rightarrow> 'z fstate_scheme \<Rightarrow> 'z fstate_scheme option" where
  "fs_notify path s = do { dir \<leftarrow> cut_last path; notify_loop dir [0..<TASK_MAX] s }"

section \<open>Reference counts\<close>

text \<open>The descriptors, of all tasks in the table, that refer to an open file.\<close>

definition file_refs :: "'z fstate_scheme \<Rightarrow> nat \<Rightarrow> int" where
  "file_refs s f = (\<Sum>t | t < TASK_MAX \<and> slot s t. \<Sum>d < OPEN_MAX. of_bool (fds s t d = Some f))"

definition refs_ok :: "'z fstate_scheme \<Rightarrow> bool" where
  "refs_ok s \<longleftrightarrow> (\<forall>f. ff_refcnt (fs_file s f) = file_refs s f)"

text \<open>The open files that refer to an object; an object may be held by others too.\<close>

definition fso_refs :: "'z fstate_scheme \<Rightarrow> nat \<Rightarrow> int" where
  "fso_refs s i = (\<Sum>f < FS_MAXFILE. of_bool (ff_refcnt (fs_file s f) \<noteq> 0 \<and> ff_fso (fs_file s f) = Some i))"

definition objs_ok :: "'z fstate_scheme \<Rightarrow> bool" where
  "objs_ok s \<longleftrightarrow>
     (\<forall>i. fso_refs s i \<le> o_refcnt (fs_fso s i)) \<and>
     (\<forall>f. ff_refcnt (fs_file s f) \<noteq> 0 \<longrightarrow> f < FS_MAXFILE \<and> ff_fso (fs_file s f) \<noteq> None)"

lemma file_refs_nonneg: "0 \<le> file_refs s f"
  by (simp add: file_refs_def sum_nonneg)

lemma sum_upd:
  fixes g h :: "'a \<Rightarrow> int"
  assumes "finite A" and "x \<in> A" and "\<And>y. y \<noteq> x \<Longrightarrow> h y = g y"
  shows "sum h A = sum g A - g x + h x"
proof -
  have "sum h A = h x + sum h (A - {x})" "sum g A = g x + sum g (A - {x})"
    using assms(1,2) by (simp_all add: sum.remove)
  moreover have "sum h (A - {x}) = sum g (A - {x})" using assms(3) by (intro sum.cong) auto
  ultimately show ?thesis by simp
qed

lemma file_refs_upd:
  assumes "slot s' = slot s" and "slot s c" and "c < TASK_MAX" and "d < OPEN_MAX"
    and "\<And>t e. (t, e) \<noteq> (c, d) \<Longrightarrow> fds s' t e = fds s t e"
  shows "file_refs s' f = file_refs s f - of_bool (fds s c d = Some f) + of_bool (fds s' c d = Some f)"
proof -
  let ?g = "\<lambda>s t. \<Sum>d < OPEN_MAX. of_bool (fds s t d = Some f) :: int"
  have c: "?g s' c = ?g s c - of_bool (fds s c d = Some f) + of_bool (fds s' c d = Some f)"
    using assms(4,5) by (intro sum_upd) auto
  have o: "?g s' t = ?g s t" if "t \<noteq> c" for t
    using assms(5) that by (intro sum.cong) auto
  have "file_refs s' f = (\<Sum>t | t < TASK_MAX \<and> slot s t. ?g s' t)"
    unfolding file_refs_def assms(1) by (rule refl)
  also have "\<dots> = (\<Sum>t | t < TASK_MAX \<and> slot s t. ?g s t) - ?g s c + ?g s' c"
    using o assms(2,3) by (intro sum_upd) auto
  also have "(\<Sum>t | t < TASK_MAX \<and> slot s t. ?g s t) = file_refs s f"
    unfolding file_refs_def by (rule refl)
  finally show ?thesis using c by linarith
qed

lemma fso_refs_upd:
  assumes "f < FS_MAXFILE" and "\<And>g. g \<noteq> f \<Longrightarrow> fs_file s' g = fs_file s g"
  shows "fso_refs s' i = fso_refs s i
      - of_bool (ff_refcnt (fs_file s f) \<noteq> 0 \<and> ff_fso (fs_file s f) = Some i)
      + of_bool (ff_refcnt (fs_file s' f) \<noteq> 0 \<and> ff_fso (fs_file s' f) = Some i)"
  unfolding fso_refs_def using assms by (intro sum_upd) auto

text \<open>Changes that leave everything alone that the scheduler looks at.\<close>

definition kquiet :: "'z fstate_scheme \<Rightarrow> 'z fstate_scheme \<Rightarrow> bool" where
  "kquiet s s' \<longleftrightarrow>
     t_next s' = t_next s \<and> t_prev s' = t_prev s \<and> t_queue s' = t_queue s \<and> q_first s' = q_first s \<and>
     q_last s' = q_last s \<and> slot s' = slot s \<and> curr s' = curr s \<and> init s' = init s \<and>
     task_count s' = task_count s \<and> task_pcount s' = task_pcount s \<and> last_pid s' = last_pid s \<and>
     (\<forall>u. tsk s' u = (tsk s u)\<lparr>file_desc := file_desc (tsk s' u), multipoll := multipoll (tsk s' u)\<rparr>)"

lemma kquiet_refl: "kquiet s s"
  by (simp add: kquiet_def)

lemma kquiet_trans:
  assumes "kquiet s t" and "kquiet t u"
  shows "kquiet s u"
proof -
  have "tsk u x = (tsk s x)\<lparr>file_desc := file_desc (tsk u x), multipoll := multipoll (tsk u x)\<rparr>" for x
  proof -
    have 1: "tsk u x = (tsk t x)\<lparr>file_desc := file_desc (tsk u x), multipoll := multipoll (tsk u x)\<rparr>"
      and 2: "tsk t x = (tsk s x)\<lparr>file_desc := file_desc (tsk t x), multipoll := multipoll (tsk t x)\<rparr>"
      using assms by (auto simp: kquiet_def)
    show ?thesis by (subst 1, subst 2) simp
  qed
  then show ?thesis using assms by (simp add: kquiet_def)
qed

lemma kquiet_task:
  assumes "kquiet s s'"
  shows "exited (tsk s' u) = exited (tsk s u)" "parent (tsk s' u) = parent (tsk s u)"
    "priority (tsk s' u) = priority (tsk s u)" "pid (tsk s' u) = pid (tsk s u)" "euid (tsk s' u) = euid (tsk s u)"
    "paused (tsk s' u) = paused (tsk s u)" "signal_handler (tsk s' u) = signal_handler (tsk s u)"
proof -
  have e: "tsk s' u = (tsk s u)\<lparr>file_desc := file_desc (tsk s' u), multipoll := multipoll (tsk s' u)\<rparr>"
    using assms by (simp add: kquiet_def)
  show "exited (tsk s' u) = exited (tsk s u)" "parent (tsk s' u) = parent (tsk s u)"
    "priority (tsk s' u) = priority (tsk s u)" "pid (tsk s' u) = pid (tsk s u)" "euid (tsk s' u) = euid (tsk s u)"
    "paused (tsk s' u) = paused (tsk s u)" "signal_handler (tsk s' u) = signal_handler (tsk s u)"
    by (subst e, simp)+
qed

lemma kquiet_evolves:
  assumes "kinv s L" and "kquiet s s'"
  shows "evolves s L s' L"
proof -
  note f = kquiet_task [OF assms(2)]
  have al: "alive s' = alive s" and sl: "sleeping s' = sleeping s"
    using assms(2) f by (simp_all add: alive_def sleeping_def kquiet_def)
  have "tq_inv s' L = tq_inv s L" using assms(2) by (intro tq_inv_cong) (simp_all add: kquiet_def)
  moreover have "kcore s' L = kcore s L" using assms(2) f by (simp add: kcore_def al sl) (simp add: kquiet_def)
  ultimately have "kinv s' L" using assms(1) by (simp add: kinv_def)
  moreover have "running s' L = running s L" using assms(2) f al by (simp add: running_def kquiet_def split: option.splits)
  ultimately show ?thesis using assms(2) f by (simp add: evolves_def) (simp add: kquiet_def)
qed

lemma kquiet_fso:
  "kquiet s (upd_fso i f s)" "kquiet s (upd_file i g s)" "kquiet s (upd_task c (file_desc_update h) s)"
  "kquiet s (upd_task c (multipoll_update m) s)"
  by (auto simp: kquiet_def upd_fso_def upd_file_def upd_task_def)

text \<open>The references to an object that are not from open files.\<close>

definition other_refs :: "'z fstate_scheme \<Rightarrow> nat \<Rightarrow> int" where
  "other_refs s i = o_refcnt (fs_fso s i) - fso_refs s i"

lemma objs_ok_other: "objs_ok s \<longleftrightarrow> (\<forall>i. 0 \<le> other_refs s i) \<and> (\<forall>f. ff_refcnt (fs_file s f) \<noteq> 0 \<longrightarrow> f < FS_MAXFILE \<and> ff_fso (fs_file s f) \<noteq> None)"
  by (simp add: objs_ok_def other_refs_def)

text \<open>What closing may change outside the tables of files and objects: tasks may be woken.\<close>

definition moves :: "'z fstate_scheme \<Rightarrow> 'z fstate_scheme \<Rightarrow> bool" where
  "moves s s' \<longleftrightarrow> slot s' = slot s \<and> curr s' = curr s \<and> (\<forall>L. kinv s L \<longrightarrow> (\<exists>L'. evolves s L s' L'))"

lemma moves_trans: "moves s s' \<Longrightarrow> moves s' s'' \<Longrightarrow> moves s s''"
  unfolding moves_def using evolves_trans evolves_kinv by metis

lemma kquiet_moves: "kquiet s s' \<Longrightarrow> moves s s'"
  unfolding moves_def using kquiet_evolves by (auto simp: kquiet_def)

text \<open>A reference to an object is given up.\<close>

definition let_go :: "nat \<Rightarrow> 'z fstate_scheme \<Rightarrow> 'z fstate_scheme \<Rightarrow> bool" where
  "let_go i s s' \<longleftrightarrow> moves s s' \<and> fds s' = fds s \<and> fs_file s' = fs_file s \<and>
     (\<forall>j. o_refcnt (fs_fso s' j) = o_refcnt (fs_fso s j) - of_bool (j = i))"

text \<open>
  The contract of the file systems with the layer of open files: under an invariant \<open>inv\<close> of the file systems, an object that is referred to
  can be let go, which keeps the invariant; and the invariant does not depend on the tables of this layer.
\<close>

locale fso_driver =
  fixes putfso :: "nat \<Rightarrow> 'z fstate_scheme \<Rightarrow> 'z fstate_scheme option" and inv :: "'z fstate_scheme \<Rightarrow> bool"
  assumes put_law: "\<lbrakk>inv s; 1 \<le> o_refcnt (fs_fso s i)\<rbrakk> \<Longrightarrow> \<exists>s'. fs_putfso putfso (Some i) s = Some s' \<and> inv s' \<and> let_go i s s'"
    and inv_file: "inv s \<Longrightarrow> inv (upd_file f g s)"
    and inv_count: "inv s \<Longrightarrow> inv (upd_fso i (count_open d om) s)"
    and inv_desc: "inv s \<Longrightarrow> inv (upd_task c (file_desc_update h) s)"
    and inv_poll: "inv s \<Longrightarrow> inv (upd_task c (multipoll_update m) s)"
begin

text \<open>Dropping a reference to an open file: the count of the object follows exactly.\<close>

lemma putfile_refs:
  assumes "inv s" and "objs_ok s" and "ff_refcnt (fs_file s f) > 0"
  shows "\<exists>s'. fs_putfile putfso f s = Some s' \<and> inv s' \<and> moves s s' \<and> fds s' = fds s \<and> objs_ok s' \<and> other_refs s' = other_refs s \<and>
           (\<forall>g. ff_refcnt (fs_file s' g) = ff_refcnt (fs_file s g) - of_bool (g = f))"
proof -
  have f: "f < FS_MAXFILE" "ff_fso (fs_file s f) \<noteq> None" using assms(2,3) unfolding objs_ok_def by (auto dest: spec [of _ f])
  obtain i where i: "ff_fso (fs_file s f) = Some i" using f(2) by auto
  let ?dec = "\<lambda>p. p\<lparr>ff_refcnt := ff_refcnt p - 1\<rparr>"
  have fdu: "fds (upd_file f ?dec u) = fds u" "fds (upd_fso i h u) = fds u"
    for u :: "'z fstate_scheme" and h by (simp_all add: fds_def upd_file_def upd_fso_def fun_eq_iff)
  show ?thesis
  proof (cases "ff_refcnt (fs_file s f) = 1")
    case False
    let ?s' = "upd_file f ?dec s"
    have "fso_refs ?s' j = fso_refs s j" for j
      using fso_refs_upd [OF f(1), of ?s' s j] False assms(3) by (auto simp: upd_file_def)
    then have o: "other_refs ?s' = other_refs s" by (simp add: other_refs_def fun_eq_iff upd_file_def)
    then have "objs_ok ?s'" using assms(2,3) unfolding objs_ok_other by (auto simp: upd_file_def)
    then show ?thesis using False assms(1,3) o kquiet_moves [OF kquiet_fso(2)] inv_file fdu(1) by (auto simp: fs_putfile_def upd_file_def)
  next
    case True
    define om where "om = ff_omode (fs_file s f)"
    define s1 where "s1 = (if reads om \<or> writes om then upd_fso i (count_open (-1) om) s else s)"
    have s1: "moves s s1" "inv s1" "fds s1 = fds s" "fs_file s1 = fs_file s" "\<And>j. o_refcnt (fs_fso s1 j) = o_refcnt (fs_fso s j)"
      using kquiet_moves [OF kquiet_fso(1)] kquiet_moves [OF kquiet_refl] assms(1) inv_count fdu(2)
      by (auto simp: s1_def upd_fso_def count_open_def)
    have "fso_refs s i \<ge> (\<Sum>g \<in> {f}. of_bool (ff_refcnt (fs_file s g) \<noteq> 0 \<and> ff_fso (fs_file s g) = Some i))"
      unfolding fso_refs_def by (rule sum_mono2) (use f in auto)
    then have "1 \<le> o_refcnt (fs_fso s1 i)" using True i assms(2) s1(5) [of i] by (auto simp: objs_ok_def dest: spec [of _ i])
    then obtain s2 where s2: "fs_putfso putfso (Some i) s1 = Some s2" "inv s2" "let_go i s1 s2" using put_law s1(2) by blast
    let ?s' = "upd_file f ?dec s2"
    have "fds ?s' = fds s" "inv ?s'" using s2(2,3) s1(3) fdu(1) inv_file by (simp_all add: let_go_def)
    moreover have "fs_file ?s' = (fs_file s)(f := ?dec (fs_file s f))"
        "\<And>j. o_refcnt (fs_fso ?s' j) = o_refcnt (fs_fso s j) - of_bool (j = i)"
      using s2(3) s1(4,5) by (auto simp: let_go_def upd_file_def)
    ultimately have t: "fs_file ?s' = (fs_file s)(f := ?dec (fs_file s f))" "fds ?s' = fds s" "inv ?s'"
        "\<And>j. o_refcnt (fs_fso ?s' j) = o_refcnt (fs_fso s j) - of_bool (j = i)" by blast+
    have m: "moves s ?s'" using moves_trans [OF s1(1)] moves_trans [OF _ kquiet_moves [OF kquiet_fso(2)]] s2(3) unfolding let_go_def by blast
    have p: "fs_putfile putfso f s = Some ?s'"
      using True i s2(1) by (cases "reads om \<or> writes om") (auto simp: fs_putfile_def om_def [symmetric] s1_def Let_def)
    have "fso_refs ?s' j = fso_refs s j - of_bool (j = i)" for j
      using fso_refs_upd [OF f(1), of ?s' s j] t(1) True i by auto
    then have o: "other_refs ?s' = other_refs s" using t(4) by (simp add: other_refs_def fun_eq_iff)
    then have "objs_ok ?s'" using assms(2) t(1) f unfolding objs_ok_other by auto
    then show ?thesis using p t o m by (intro exI [of _ ?s']) simp
  qed
qed

lemma putfd_refs:
  assumes "inv s" and "refs_ok s" and "objs_ok s" and "curr s = Some c" and "slot s c" and "c < TASK_MAX"
    and "d < OPEN_MAX" and "fds s c d = Some f"
  shows "\<exists>s'. fs_putfd putfso d s = Some (EZERO, s') \<and> inv s' \<and> moves s s' \<and> refs_ok s' \<and> objs_ok s' \<and> other_refs s' = other_refs s \<and>
           (\<forall>t e. fds s' t e = (if (t, e) = (c, d) then None else fds s t e))"
proof -
  have "file_refs s f \<ge> 1"
  proof -
    let ?g = "\<lambda>t. \<Sum>d < OPEN_MAX. of_bool (fds s t d = Some f) :: int"
    have "1 \<le> (\<Sum>e \<in> {d}. of_bool (fds s c e = Some f) :: int)" using assms(8) by simp
    also have "\<dots> \<le> ?g c" by (rule sum_mono2) (use assms(7) in auto)
    also have "\<dots> = (\<Sum>t \<in> {c}. ?g t)" by simp
    also have "\<dots> \<le> file_refs s f"
      unfolding file_refs_def by (rule sum_mono2) (use assms(5,6) in \<open>auto simp: sum_nonneg\<close>)
    finally show ?thesis .
  qed
  then have pos: "ff_refcnt (fs_file s f) > 0" using assms(2) by (simp add: refs_ok_def)
  obtain s1 where s1: "fs_putfile putfso f s = Some s1" "inv s1" "moves s s1" "fds s1 = fds s" "objs_ok s1" "other_refs s1 = other_refs s"
      "\<forall>g. ff_refcnt (fs_file s1 g) = ff_refcnt (fs_file s g) - of_bool (g = f)"
    using putfile_refs [OF assms(1,3) pos] by blast
  let ?s' = "upd_task c (file_desc_update (\<lambda>t. t(d := zero_desc))) s1"
  have m: "moves s ?s'" using moves_trans [OF s1(3) kquiet_moves [OF kquiet_fso(3)]] .
  have fd: "fds ?s' t e = (if (t, e) = (c, d) then None else fds s t e)" for t e
    unfolding s1(4) [symmetric] by (auto simp: fds_def upd_task_def zero_desc_def)
  have ff: "fs_file ?s' = fs_file s1" "fs_fso ?s' = fs_fso s1" "slot ?s' = slot s" using m by (simp_all add: upd_task_def moves_def)
  have "file_refs ?s' g = file_refs s g - of_bool (g = f)" for g
    using file_refs_upd [OF ff(3) assms(5-7), of g] fd assms(8) by auto
  then have "refs_ok ?s'" using assms(2) s1(7) ff by (simp add: refs_ok_def)
  moreover have "objs_ok ?s'" using s1(5) unfolding objs_ok_def fso_refs_def ff .
  moreover have "other_refs ?s' = other_refs s" unfolding s1(6) [symmetric] by (simp add: other_refs_def fso_refs_def ff fun_eq_iff)
  ultimately show ?thesis using s1(1) assms(4,7,8) fd m inv_desc [OF s1(2)] by (simp add: fs_putfd_def)
qed

lemma close_all_refs:
  "inv s \<Longrightarrow> refs_ok s \<Longrightarrow> objs_ok s \<Longrightarrow> curr s = Some c \<Longrightarrow> slot s c \<Longrightarrow> c < TASK_MAX \<Longrightarrow> \<forall>d \<in> set ds. d < OPEN_MAX \<Longrightarrow>
   \<exists>s'. close_all putfso ds s = Some s' \<and> inv s' \<and> moves s s' \<and> refs_ok s' \<and> objs_ok s' \<and> other_refs s' = other_refs s \<and>
     (\<forall>t e. fds s' t e = (if t = c \<and> e \<in> set ds then None else fds s t e))"
proof (induction ds arbitrary: s)
  case Nil
  then show ?case using kquiet_moves [OF kquiet_refl] by auto
next
  case (Cons d ds)
  note prems = Cons.prems
  have "\<exists>s1. (if fds s c d \<noteq> None then map_option snd (fs_putfd putfso d s) else Some s) = Some s1 \<and> inv s1 \<and> moves s s1 \<and>
      refs_ok s1 \<and> objs_ok s1 \<and> other_refs s1 = other_refs s \<and> (\<forall>t e. fds s1 t e = (if (t, e) = (c, d) then None else fds s t e))"
  proof (cases "fds s c d")
    case None
    then show ?thesis using prems(1-3) kquiet_moves [OF kquiet_refl] by auto
  next
    case (Some f)
    then show ?thesis using putfd_refs [OF prems(1-6) _ Some] prems(7) by auto
  qed
  then obtain s1 where s1: "(if fds s c d \<noteq> None then map_option snd (fs_putfd putfso d s) else Some s) = Some s1" "inv s1" "moves s s1"
      "refs_ok s1" "objs_ok s1" "other_refs s1 = other_refs s" "\<forall>t e. fds s1 t e = (if (t, e) = (c, d) then None else fds s t e)"
    by blast
  have c1: "curr s1 = Some c" "slot s1 c" using s1(3) prems(4,5) by (simp_all add: moves_def)
  have ds: "\<forall>d \<in> set ds. d < OPEN_MAX" using prems(7) by simp
  obtain s' where s': "close_all putfso ds s1 = Some s'" "inv s'" "moves s1 s'" "refs_ok s'" "objs_ok s'" "other_refs s' = other_refs s1"
      "\<forall>t e. fds s' t e = (if t = c \<and> e \<in> set ds then None else fds s1 t e)"
    using Cons.IH [OF s1(2,4,5) c1 prems(6) ds] by blast
  have "close_all putfso (d # ds) s = Some s'" using prems(4) s1(1) s'(1) by simp
  then show ?case using s'(2-7) s1(6,7) moves_trans [OF s1(3) s'(3)] by auto
qed

lemma clean_works:
  assumes "inv s" and "refs_ok s" and "objs_ok s" and "curr s = Some c" and "slot s c" and "c < TASK_MAX"
  shows "\<exists>s'. fs_clean putfso s = Some s' \<and> inv s' \<and> moves s s' \<and> refs_ok s' \<and> objs_ok s' \<and> other_refs s' = other_refs s \<and>
           (\<forall>t d. fds s' t d = (if t = c \<and> d < OPEN_MAX then None else fds s t d))"
proof -
  let ?s0 = "upd_task c (multipoll_update (\<lambda>_. 0)) s"
  have f: "fds ?s0 = fds s" "slot ?s0 = slot s" "curr ?s0 = curr s" "fs_file ?s0 = fs_file s" "fs_fso ?s0 = fs_fso s"
    by (simp_all add: fds_def upd_task_def fun_eq_iff)
  have r: "refs_ok ?s0" using assms(2) unfolding refs_ok_def file_refs_def f .
  have o: "objs_ok ?s0" using assms(3) unfolding objs_ok_def fso_refs_def f .
  have r0: "other_refs ?s0 = other_refs s" by (simp add: other_refs_def fso_refs_def f fun_eq_iff)
  have c: "curr ?s0 = Some c" "slot ?s0 c" using assms(4,5) f by simp_all
  obtain s' where "close_all putfso [0..<OPEN_MAX] ?s0 = Some s'" "inv s'" "moves ?s0 s'" "refs_ok s'" "objs_ok s'" "other_refs s' = other_refs ?s0"
      "\<forall>t e. fds s' t e = (if t = c \<and> e \<in> set [0..<OPEN_MAX] then None else fds ?s0 t e)"
    using close_all_refs [OF inv_poll [OF assms(1)] r o c assms(6), of "[0..<OPEN_MAX]"] by auto
  then show ?thesis using assms(4) f(1) r0 moves_trans [OF kquiet_moves [OF kquiet_fso(4)]] by (auto simp: fs_clean_def)
qed

end

text \<open>\<^verbatim>\<open>pipe_putfso\<close> (\<^verbatim>\<open>kern/fs/pipe.c\<close>) only frees the buffer of the pipe.\<close>

definition pipe_putfso :: "nat \<Rightarrow> 'z fstate_scheme \<Rightarrow> 'z fstate_scheme option" where
  "pipe_putfso i s = Some (upd_fso i (p_buf_update (\<lambda>_. [])) s)"

interpretation pipe_driver: fso_driver pipe_putfso "\<lambda>_. True"
proof unfold_locales
  fix s :: "'z fstate_scheme" and i
  assume r: "1 \<le> o_refcnt (fs_fso s i)"
  let ?s1 = "if o_refcnt (fs_fso s i) = 1 then upd_fso i (p_buf_update (\<lambda>_. [])) s else s"
  let ?s' = "upd_fso i (\<lambda>p. p\<lparr>o_refcnt := o_refcnt p - 1\<rparr>) ?s1"
  have "kquiet s ?s1" by (simp add: kquiet_fso(1) kquiet_refl)
  then have "moves s ?s'" by (rule kquiet_moves [OF kquiet_trans [OF _ kquiet_fso(1)]])
  then have "let_go i s ?s'" by (auto simp: let_go_def upd_fso_def fds_def fun_eq_iff)
  moreover have "fs_putfso pipe_putfso (Some i) s = Some ?s'" using r by (auto simp: fs_putfso_def pipe_putfso_def)
  ultimately show "\<exists>s'. fs_putfso pipe_putfso (Some i) s = Some s' \<and> True \<and> let_go i s s'" by blast
qed simp_all

lemma fold_newtask:
  "distinct ds \<Longrightarrow>
   fold (\<lambda>d s. case fds s p d of None \<Rightarrow> s | Some f \<Rightarrow> upd_file f (\<lambda>p. p\<lparr>ff_refcnt := ff_refcnt p + 1\<rparr>) s) ds s =
     s\<lparr>fs_file := (\<lambda>f. (fs_file s f)\<lparr>ff_refcnt := ff_refcnt (fs_file s f) +
          (\<Sum>d \<in> set ds. of_bool (fds s p d = Some f))\<rparr>)\<rparr>"
proof (induction ds arbitrary: s)
  case (Cons d ds)
  show ?case
  proof (cases "fds s p d")
    case None
    then show ?thesis using Cons by (simp add: fun_eq_iff)
  next
    case (Some g)
    let ?s1 = "upd_file g (\<lambda>p. p\<lparr>ff_refcnt := ff_refcnt p + 1\<rparr>) s"
    have "fds ?s1 = fds s" by (simp add: fds_def upd_file_def fun_eq_iff)
    then show ?thesis
      using Cons Some by (auto simp: upd_file_def fun_eq_iff)
  qed
qed (simp add: fun_eq_iff)

lemma newtask_refs:
  assumes "refs_ok s" and "curr s = Some c" and "p \<noteq> c" and "slot s p" and "p < TASK_MAX"
    and "\<forall>d < OPEN_MAX. fds s p d = None"
  shows "\<exists>s'. fs_newtask p s = Some s' \<and> refs_ok s' \<and> (\<forall>d. fds s' p d = fds s c d) \<and>
           (\<forall>t. t \<noteq> p \<longrightarrow> tsk s' t = tsk s t) \<and> curr s' = curr s \<and> slot s' = slot s \<and> fs_fso s' = fs_fso s \<and>
           cwd (tsk s' p) = cwd (tsk s c) \<and>
           (\<exists>ff. s' = (upd_task p (\<lambda>u. u\<lparr>file_desc := file_desc (tsk s c), cwd := cwd (tsk s c),
              tty := tty (tsk s c), ocwd := ocwd (tsk s c)\<rparr>) s)\<lparr>fs_file := ff\<rparr>)"
proof -
  define s1 where "s1 = upd_task p (\<lambda>u. u\<lparr>file_desc := file_desc (tsk s c), cwd := cwd (tsk s c),
     tty := tty (tsk s c), ocwd := ocwd (tsk s c)\<rparr>) s"
  define s' where "s' = s1\<lparr>fs_file := (\<lambda>f. (fs_file s1 f)\<lparr>ff_refcnt := ff_refcnt (fs_file s1 f) +
     (\<Sum>d \<in> set [0..<OPEN_MAX]. of_bool (fds s1 p d = Some f))\<rparr>)\<rparr>"
  have n: "fs_newtask p s = Some s'"
    unfolding fs_newtask_def s'_def using assms(2) fold_newtask [of "[0..<OPEN_MAX]" p s1]
    by (simp add: s1_def Let_def)
  have fd: "fds s' t d = (if t = p then fds s c d else fds s t d)" for t d
    by (simp add: s'_def s1_def fds_def upd_task_def)
  have sl: "slot s' = slot s" by (simp add: s'_def s1_def upd_task_def)
  have "file_refs s' f = file_refs s f + (\<Sum>d < OPEN_MAX. of_bool (fds s c d = Some f))" for f
  proof -
    let ?g = "\<lambda>s t. \<Sum>d < OPEN_MAX. of_bool (fds s t d = Some f) :: int"
    have "file_refs s' f = (\<Sum>t | t < TASK_MAX \<and> slot s t. ?g s' t)"
      unfolding file_refs_def sl by (rule refl)
    also have "\<dots> = (\<Sum>t | t < TASK_MAX \<and> slot s t. ?g s t) - ?g s p + ?g s' p"
      using assms(4,5) fd by (intro sum_upd) auto
    also have "(\<Sum>t | t < TASK_MAX \<and> slot s t. ?g s t) = file_refs s f"
      unfolding file_refs_def by (rule refl)
    also have "?g s p = 0" using assms(6) by simp
    also have "?g s' p = ?g s c" using fd by simp
    finally show ?thesis by simp
  qed
  moreover have "ff_refcnt (fs_file s' f) = ff_refcnt (fs_file s f) + (\<Sum>d < OPEN_MAX. of_bool (fds s c d = Some f))" for f
    by (simp add: s'_def s1_def fds_def upd_task_def atLeast0LessThan)
  ultimately have "refs_ok s'" using assms(1) by (simp add: refs_ok_def)
  moreover have "\<forall>t. t \<noteq> p \<longrightarrow> tsk s' t = tsk s t" "curr s' = curr s" "fs_fso s' = fs_fso s"
      "cwd (tsk s' p) = cwd (tsk s c)"
    by (simp_all add: s'_def s1_def upd_task_def)
  moreover have "\<exists>ff. s' = s1\<lparr>fs_file := ff\<rparr>" unfolding s'_def by blast
  ultimately show ?thesis using n fd sl unfolding s1_def by auto
qed

text \<open>The descriptors that a new task shares are of files that are open already, so that the objects keep their references.\<close>

lemma newtask_objs:
  assumes "refs_ok s" and "curr s = Some c" and "slot s c" and "c < TASK_MAX" and "fs_newtask p s = Some s'"
  shows "objs_ok s' = objs_ok s" "other_refs s' = other_refs s"
proof -
  define u where "u = upd_task p (\<lambda>u. u\<lparr>file_desc := file_desc (tsk s c), cwd := cwd (tsk s c), tty := tty (tsk s c), ocwd := ocwd (tsk s c)\<rparr>) s"
  define n where "n f = (\<Sum>d < OPEN_MAX. of_bool (fds s c d = Some f) :: int)" for f
  have fd: "fds u p d = fds s c d" for d by (simp add: u_def fds_def upd_task_def)
  have s': "s' = u\<lparr>fs_file := (\<lambda>f. (fs_file s f)\<lparr>ff_refcnt := ff_refcnt (fs_file s f) + n f\<rparr>)\<rparr>"
    using assms(2,5) fold_newtask [of "[0..<OPEN_MAX]" p u] unfolding fs_newtask_def u_def [symmetric] fd
    by (simp add: Let_def n_def atLeast0LessThan) (simp add: u_def upd_task_def)
  have le: "0 \<le> n f" "n f \<le> ff_refcnt (fs_file s f)" for f
  proof -
    show "0 \<le> n f" by (simp add: n_def sum_nonneg)
    have "(\<Sum>t \<in> {c}. \<Sum>d < OPEN_MAX. of_bool (fds s t d = Some f) :: int) \<le> file_refs s f"
      unfolding file_refs_def by (rule sum_mono2) (use assms(3,4) in \<open>auto simp: sum_nonneg\<close>)
    then show "n f \<le> ff_refcnt (fs_file s f)" using assms(1) by (simp add: n_def refs_ok_def)
  qed
  have nz: "ff_refcnt (fs_file s' f) \<noteq> 0 \<longleftrightarrow> ff_refcnt (fs_file s f) \<noteq> 0" for f using le [of f] by (auto simp: s')
  have "fs_fso s' = fs_fso s" "ff_fso (fs_file s' f) = ff_fso (fs_file s f)" for f by (simp_all add: s' u_def upd_task_def)
  then show "objs_ok s' = objs_ok s" "other_refs s' = other_refs s"
    unfolding objs_ok_def other_refs_def fso_refs_def nz by simp_all
qed

section \<open>Correctness\<close>

text \<open>
  C9: No descriptor leaks when a task ends. If every open file counts exactly the descriptors that refer
  to it, and the file systems can let go of the objects that are referred to (\<open>fso_driver\<close>, with its invariant
  \<open>I\<close>), \<^verbatim>\<open>fs_clean\<close> runs to the end without a panic, closes every descriptor of the current task and no
  other, and the counts are exact again: a file whose last descriptor was there becomes free, and every object
  loses exactly one reference for each open file on it that is gone.
\<close>

theorem fs_clean_closes:
  assumes "fso_driver putfso I" and "I s" and "refs_ok s" and "objs_ok s" and "curr s = Some c" and "slot s c" and "c < TASK_MAX"
  shows "\<exists>s'. fs_clean putfso s = Some s' \<and> I s' \<and> refs_ok s' \<and> objs_ok s' \<and>
           (\<forall>i. o_refcnt (fs_fso s' i) - fso_refs s' i = o_refcnt (fs_fso s i) - fso_refs s i) \<and>
           (\<forall>t d. fds s' t d = (if t = c \<and> d < OPEN_MAX then None else fds s t d))"
  using fso_driver.clean_works [OF assms] by (auto simp: other_refs_def fun_eq_iff)

text \<open>
  A new task shares the open files of its parent: \<^verbatim>\<open>fs_newtask\<close> gives it the same descriptors and
  working directory, raises the count of each file by the number of descriptors copied, and
  leaves the counts exact.
\<close>

theorem fs_newtask_shares:
  assumes "refs_ok s" and "curr s = Some c" and "p \<noteq> c" and "slot s p" and "p < TASK_MAX"
    and "\<forall>d < OPEN_MAX. fds s p d = None"
  shows "\<exists>s'. fs_newtask p s = Some s' \<and> refs_ok s' \<and> (\<forall>d. fds s' p d = fds s c d) \<and>
           (\<forall>t. t \<noteq> p \<longrightarrow> tsk s' t = tsk s t) \<and> cwd (tsk s' p) = cwd (tsk s c)"
  using newtask_refs [OF assms] by metis

text \<open>
  Two tasks; descriptor 3 of task 0 is file 5, which is open for reading on object 7.
\<close>

definition example_files :: fstate where
  "example_files = kstate.extend
     (example_state\<lparr>tsk := (tsk example_state)(0 := boot_task\<lparr>file_desc :=
        (\<lambda>_. zero_desc)(3 := \<lparr>fd_file = Some 5, fd_cloexec = 0\<rparr>)\<rparr>)\<rparr>)
     \<lparr>fs_file = (\<lambda>_. zero_file)(5 := zero_file\<lparr>ff_refcnt := 1, ff_fso := Some 7\<rparr>),
      fs_fso = (\<lambda>_. zero_fso)(7 := zero_fso\<lparr>o_refcnt := 1, reader_count := 1, o_fs := PipeFs\<rparr>),
      fs_fso_high = 8, fs_fs = []\<rparr>"

lemma example_fds: "fds example_files t d = (if t = 0 \<and> d = 3 then Some 5 else None)"
  by (auto simp: fds_def example_files_def kstate.extend_def kstate.defs example_defs zero_desc_def)

lemma example_files_simps:
  "slot example_files t \<longleftrightarrow> t < 3" "curr example_files = Some 0"
  "fs_file example_files f = (if f = 5 then zero_file\<lparr>ff_refcnt := 1, ff_fso := Some 7\<rparr> else zero_file)"
  "fs_fso example_files i = (if i = 7 then zero_fso\<lparr>o_refcnt := 1, reader_count := 1, o_fs := PipeFs\<rparr> else zero_fso)"
  by (auto simp: example_files_def kstate.extend_def kstate.defs example_defs)

lemma example_fso_refs: "fso_refs example_files i = of_bool (i = 7)"
proof -
  have "fso_refs example_files i = (\<Sum>f < FS_MAXFILE. if f = 5 then of_bool (i = 7) else 0 :: int)"
    unfolding fso_refs_def by (intro sum.cong) (auto simp: example_files_simps zero_file_def)
  then show ?thesis by simp
qed

lemma example_refs: "refs_ok example_files" "objs_ok example_files"
proof -
  have a: "{t. t < TASK_MAX \<and> slot example_files t} = {0, 1, 2}" by (auto simp: example_files_simps)
  have b: "(\<Sum>d < OPEN_MAX. of_bool (fds example_files t d = Some f)) = (of_bool (t = 0 \<and> f = 5) :: int)" for t f
  proof (cases "t = 0 \<and> f = 5")
    case True
    then have "(\<Sum>d < OPEN_MAX. of_bool (fds example_files t d = Some f)) = (\<Sum>d < OPEN_MAX. if d = 3 then 1 else 0 :: int)"
      by (intro sum.cong) (auto simp: example_fds)
    then show ?thesis using True by simp
  qed (auto simp: example_fds)
  show "refs_ok example_files"
    unfolding refs_ok_def file_refs_def a b by (auto simp: example_files_simps zero_file_def)
  show "objs_ok example_files"
    unfolding objs_ok_def example_fso_refs by (auto simp: example_files_simps zero_file_def zero_fso_def)
qed

theorem fs_newtask_shares_witness:
  "\<exists>s'. fs_newtask 1 example_files = Some s' \<and> refs_ok s' \<and> fds s' 1 3 = Some 5"
  using fs_newtask_shares [OF example_refs(1), of 0 1] by (auto simp: example_files_simps example_fds)

text \<open>
  The object table holds at most one object per file: two entries in use with the same file system and
  the same index (other than -1, which anonymous objects have) are the same entry.
\<close>

definition unique_objs :: "'z fstate_scheme \<Rightarrow> bool" where
  "unique_objs s \<longleftrightarrow>
     (\<forall>i j. i < fs_fso_high s \<longrightarrow> j < fs_fso_high s \<longrightarrow> o_refcnt (fs_fso s i) \<noteq> 0 \<longrightarrow> o_refcnt (fs_fso s j) \<noteq> 0 \<longrightarrow>
        o_index (fs_fso s i) \<noteq> -1 \<longrightarrow> o_index (fs_fso s i) = o_index (fs_fso s j) \<longrightarrow>
        o_fs (fs_fso s i) = o_fs (fs_fso s j) \<longrightarrow> i = j) \<and>
     (\<forall>i. 0 \<le> o_refcnt (fs_fso s i)) \<and> fs_fso_high s \<le> FS_MAXFSO"

definition keeps_identity :: "(nat \<Rightarrow> 'z fstate_scheme \<Rightarrow> (errno \<times> 'z fstate_scheme) option) \<Rightarrow> bool" where
  "keeps_identity g \<longleftrightarrow> (\<forall>n s. \<exists>e s'. g n s = Some (e, s') \<and> fs_fso_high s' = fs_fso_high s \<and>
     (\<forall>i. o_refcnt (fs_fso s' i) = o_refcnt (fs_fso s i) \<and> o_fs (fs_fso s' i) = o_fs (fs_fso s i) \<and>
          o_index (fs_fso s' i) = o_index (fs_fso s i)))"

definition is_obj :: "'z fstate_scheme \<Rightarrow> fsref \<Rightarrow> int \<Rightarrow> nat \<Rightarrow> bool" where
  "is_obj s fs index i \<longleftrightarrow> i < fs_fso_high s \<and> o_refcnt (fs_fso s i) \<noteq> 0 \<and> o_index (fs_fso s i) = index \<and>
     o_fs (fs_fso s i) = fs"

lemma find_rev_upt:
  "List.find P (rev [0..<n]) = Some i \<Longrightarrow> i < n \<and> P i"
  "List.find P (rev [0..<n]) = None \<longleftrightarrow> (\<forall>i < n. \<not> P i)"
  by (auto simp: find_Some_iff find_None_iff)
    (metis add_diff_cancel_left' diff_Suc_less diff_less_mono2 length_rev length_upt less_nat_zero_code
       nth_mem minus_nat.diff_0 not_gr_zero set_rev set_upt atLeastLessThan_iff)+

lemma fresh_obj:
  assumes "unique_objs s" and "keeps_identity g" and "n < fs_fso_high s1" and "fs_fso_high s1 \<le> FS_MAXFSO"
    and "fs_fso s1 = fs_fso s" and "fs_fso_high s \<le> fs_fso_high s1"
    and "\<And>i. i < fs_fso_high s1 \<Longrightarrow> i \<noteq> n \<Longrightarrow> i < fs_fso_high s"
    and "index \<noteq> -1 \<Longrightarrow> \<forall>i. \<not> is_obj s fs index i"
  shows "\<exists>e s2. g n (upd_fso n (\<lambda>_. zero_fso\<lparr>o_index := index, o_refcnt := 1, o_fs := fs\<rparr>) s1) = Some (e, s2) \<and>
           (e = EZERO \<longrightarrow> unique_objs s2 \<and> is_obj s2 fs index n) \<and>
           unique_objs (upd_fso n (o_refcnt_update (\<lambda>_. 0)) s2)"
proof -
  let ?s1 = "upd_fso n (\<lambda>_. zero_fso\<lparr>o_index := index, o_refcnt := 1, o_fs := fs\<rparr>) s1"
  obtain e s2 where s2: "g n ?s1 = Some (e, s2)" "fs_fso_high s2 = fs_fso_high ?s1"
      "\<forall>i. o_refcnt (fs_fso s2 i) = o_refcnt (fs_fso ?s1 i) \<and> o_fs (fs_fso s2 i) = o_fs (fs_fso ?s1 i) \<and>
          o_index (fs_fso s2 i) = o_index (fs_fso ?s1 i)"
    using assms(2) unfolding keeps_identity_def by blast
  have h: "fs_fso_high s2 = fs_fso_high s1" using s2(2) by (simp add: upd_fso_def)
  have f: "o_refcnt (fs_fso s2 i) = (if i = n then 1 else o_refcnt (fs_fso s i))"
      "o_fs (fs_fso s2 i) = (if i = n then fs else o_fs (fs_fso s i))"
      "o_index (fs_fso s2 i) = (if i = n then index else o_index (fs_fso s i))" for i
    using s2(3) assms(5) by (simp_all add: upd_fso_def zero_fso_def)
  have nob: "index = -1 \<or> \<not> (o_refcnt (fs_fso s i) \<noteq> 0 \<and> o_index (fs_fso s i) = index \<and> o_fs (fs_fso s i) = fs)"
    if "i < fs_fso_high s" for i using assms(8) that by (auto simp: is_obj_def)
  have u1: "unique_objs s2"
    unfolding unique_objs_def h
  proof (intro conjI allI impI)
    fix i j
    assume ij: "i < fs_fso_high s1" "j < fs_fso_high s1" "o_refcnt (fs_fso s2 i) \<noteq> 0" "o_refcnt (fs_fso s2 j) \<noteq> 0"
      "o_index (fs_fso s2 i) \<noteq> -1" "o_index (fs_fso s2 i) = o_index (fs_fso s2 j)"
      "o_fs (fs_fso s2 i) = o_fs (fs_fso s2 j)"
    show "i = j"
    proof (cases "i = n \<or> j = n")
      case True
      then show ?thesis using ij nob [of i] nob [of j] assms(7) [of i] assms(7) [of j] by (auto simp: f split: if_splits)
    next
      case False
      then show ?thesis using ij assms(7) [of i] assms(7) [of j] assms(1) unfolding unique_objs_def by (simp add: f)
    qed
  next
    show "0 \<le> o_refcnt (fs_fso s2 i)" for i using assms(1) by (simp add: f unique_objs_def)
  qed (rule assms(4))
  have u2: "unique_objs (upd_fso n (o_refcnt_update (\<lambda>_. 0)) s2)"
    using u1 unfolding unique_objs_def by (auto simp: upd_fso_def)
  show ?thesis using s2(1) u1 u2 assms(3) h f by (auto simp: is_obj_def)
qed

text \<open>
  \<^verbatim>\<open>fs_getfso\<close> returns the object of a file, the one in core if there is one, and never makes a
  second one: if the object table has no two entries for the same file before, it has none afterwards,
  whether the file was in core, a free entry was reused, the table grew, or reading the object failed.
\<close>

theorem fs_getfso_unique:
  assumes "unique_objs s" and "keeps_identity g"
  shows "\<exists>r s'. fs_getfso g atmem fs index s = Some (r, s') \<and> unique_objs s' \<and>
           (case r of Inr i \<Rightarrow> is_obj s' fs index i \<and> (\<forall>j. index \<noteq> -1 \<longrightarrow> is_obj s fs index j \<longrightarrow> i = j)
            | Inl e \<Rightarrow> e \<noteq> EZERO \<and> (index \<noteq> -1 \<longrightarrow> (\<forall>j. \<not> is_obj s fs index j)))"
proof -
  define P where "P i \<longleftrightarrow> o_refcnt (fs_fso s i) \<noteq> 0 \<and> index \<noteq> -1 \<and> o_index (fs_fso s i) = index \<and> o_fs (fs_fso s i) = fs" for i
  show ?thesis
  proof (cases "List.find P [0..<fs_fso_high s]")
    case (Some i)
    then have i: "i < fs_fso_high s" "P i" by (auto simp: find_upt_Some_iff)
    let ?s' = "upd_fso i (\<lambda>p. p\<lparr>o_refcnt := o_refcnt p + 1\<rparr>) s"
    have nn: "0 \<le> o_refcnt (fs_fso s i)" using assms(1) by (simp add: unique_objs_def)
    have "unique_objs ?s'"
      using assms(1) i(2) unfolding unique_objs_def P_def by (auto simp: upd_fso_def split: if_splits)
    moreover have "is_obj ?s' fs index i" using i nn by (auto simp: is_obj_def P_def upd_fso_def)
    moreover have "i = j" if "is_obj s fs index j" for j
      using assms(1) that i unfolding unique_objs_def is_obj_def P_def by metis
    ultimately show ?thesis
      using Some unfolding fs_getfso_def P_def [symmetric] by auto
  next
    case None
    then have no: "index \<noteq> -1 \<Longrightarrow> \<forall>i. \<not> is_obj s fs index i"
      by (auto simp: find_upt_None_iff P_def is_obj_def)
    have le: "fs_fso_high s \<le> FS_MAXFSO" using assms(1) by (simp add: unique_objs_def)
    have fin: ?thesis if *: "fs_getfso g atmem fs index s =
          Option.bind (g n (upd_fso n (\<lambda>_. zero_fso\<lparr>o_index := index, o_refcnt := 1, o_fs := fs\<rparr>) s1))
            (\<lambda>(e, s2). Some (if e \<noteq> EZERO then (Inl e, upd_fso n (o_refcnt_update (\<lambda>_. 0)) s2) else (Inr n, s2)))"
        "n < fs_fso_high s1" "fs_fso_high s1 \<le> FS_MAXFSO" "fs_fso s1 = fs_fso s" "fs_fso_high s \<le> fs_fso_high s1"
        "\<And>i. i < fs_fso_high s1 \<Longrightarrow> i \<noteq> n \<Longrightarrow> i < fs_fso_high s" for n s1
    proof -
      obtain e s2 where "g n (upd_fso n (\<lambda>_. zero_fso\<lparr>o_index := index, o_refcnt := 1, o_fs := fs\<rparr>) s1) = Some (e, s2)"
          "e = EZERO \<longrightarrow> unique_objs s2 \<and> is_obj s2 fs index n"
          "unique_objs (upd_fso n (o_refcnt_update (\<lambda>_. 0)) s2)"
        using fresh_obj [OF assms *(2-6) no] by blast
      then show ?thesis using *(1) no by (cases "e = EZERO") auto
    qed
    show ?thesis
    proof (cases "List.find (\<lambda>i. o_refcnt (fs_fso s i) = 0) (rev [0..<fs_fso_high s])")
      case (Some n)
      show ?thesis
        by (rule fin [of n s])
          (use None Some find_rev_upt(1) [OF Some] le in \<open>simp_all add: fs_getfso_def P_def [symmetric]\<close>)
    next
      case N2: None
      show ?thesis
      proof (cases "fs_fso_high s \<ge> FS_MAXFSO \<or> atmem \<noteq> EZERO")
        case True
        then have "\<exists>e. fs_getfso g atmem fs index s = Some (Inl e, s) \<and> e \<noteq> EZERO"
          using None N2 by (auto simp: fs_getfso_def P_def [symmetric])
        then show ?thesis using assms(1) no by auto
      next
        case False
        show ?thesis
          by (rule fin [of "fs_fso_high s" "s\<lparr>fs_fso_high := fs_fso_high s + 1\<rparr>"])
            (use None N2 False in \<open>simp_all add: fs_getfso_def P_def [symmetric]\<close>)
      qed
    qed
  qed
qed

theorem fs_getfso_unique_witness:
  "\<exists>r s'. fs_getfso (\<lambda>n s. Some (EZERO, s)) EZERO (Fs 2) 17 example_files = Some (r, s') \<and> unique_objs s'"
proof -
  have "unique_objs example_files"
    unfolding unique_objs_def by (auto simp: example_files_simps zero_fso_def example_files_def
        kstate.extend_def kstate.defs split: if_splits)
  moreover have "keeps_identity (\<lambda>n s. Some (EZERO, s))" by (simp add: keeps_identity_def)
  ultimately show ?thesis using fs_getfso_unique by blast
qed

text \<open>The position of the permission bits that apply to a user.\<close>

definition perm_shift :: "fso \<Rightarrow> int \<Rightarrow> int \<Rightarrow> nat" where
  "perm_shift o' uid gid = (if o_uid o' = uid then 6 else if o_gid o' = gid then 3 else 0)"

lemma and_word_bit: "(w :: 32 word) AND 2 ^ k = 0 \<longleftrightarrow> \<not> bit w k" if "k < 32"
  using that by (simp add: and_exp_eq_0_iff_not_bit)

lemma and_word_bits:
  "(w :: 32 word) AND 256 = 0 \<longleftrightarrow> \<not> bit w 8" "w AND 128 = 0 \<longleftrightarrow> \<not> bit w 7" "w AND 64 = 0 \<longleftrightarrow> \<not> bit w 6"
  "w AND 32 = 0 \<longleftrightarrow> \<not> bit w 5" "w AND 16 = 0 \<longleftrightarrow> \<not> bit w 4" "w AND 8 = 0 \<longleftrightarrow> \<not> bit w 3"
  "w AND 4 = 0 \<longleftrightarrow> \<not> bit w 2" "w AND 2 = 0 \<longleftrightarrow> \<not> bit w 1" "w AND 1 = 0 \<longleftrightarrow> \<not> bit w 0"
  using and_word_bit [of 8 w] and_word_bit [of 7 w] and_word_bit [of 6 w] and_word_bit [of 5 w]
    and_word_bit [of 4 w] and_word_bit [of 3 w] and_word_bit [of 2 w] and_word_bit [of 1 w] and_word_bit [of 0 w]
  by simp_all

text \<open>
  \<^verbatim>\<open>fs_chk_perm\<close> grants an access exactly as it should: a write to a read-only file system is refused
  even to root; otherwise root may do anything; any other user needs, for each of read, write and
  execute that is asked for, the bit of exactly one class, the owner's if the user owns the
  object, else the group's if the group matches, else the others'; and the file system must agree.
\<close>

theorem fs_chk_perm_grants:
  assumes "\<not> insecure (fs_of s (fs_fso s i))"
  shows "fs_chk_perm chk i mode uid gid s = EZERO \<longleftrightarrow>
     \<not> (bit mode 1 \<and> read_only (fs_of s (fs_fso s i))) \<and>
     (uid = 0 \<or> (\<forall>k < 3. bit mode k \<longrightarrow> bit (o_mode (fs_fso s i)) (k + perm_shift (fs_fso s i) uid gid)) \<and>
               chk i mode uid gid s = EZERO)"
proof -
  have three: "(\<forall>k < 3. Q k) \<longleftrightarrow> Q 0 \<and> Q 1 \<and> Q 2" for Q :: "nat \<Rightarrow> bool"
    by (auto simp: less_Suc_eq numeral_3_eq_3 numeral_2_eq_2)
  have chain: "(if A then EROFS else if B then EZERO else if C then EACCES else if D then EACCES
      else if E then EACCES else z) = EZERO \<longleftrightarrow> \<not> A \<and> (B \<or> \<not> C \<and> \<not> D \<and> \<not> E \<and> z = EZERO)" for A B C D E z
    by simp
  obtain r w x where p: "perm_bits (insecure (fs_of s (fs_fso s i))) (fs_fso s i) uid gid = (r, w, x)"
    by (metis prod_cases3)
  have b: "o_mode (fs_fso s i) AND r = 0 \<longleftrightarrow> \<not> bit (o_mode (fs_fso s i)) (2 + perm_shift (fs_fso s i) uid gid)"
      "o_mode (fs_fso s i) AND w = 0 \<longleftrightarrow> \<not> bit (o_mode (fs_fso s i)) (1 + perm_shift (fs_fso s i) uid gid)"
      "o_mode (fs_fso s i) AND x = 0 \<longleftrightarrow> \<not> bit (o_mode (fs_fso s i)) (0 + perm_shift (fs_fso s i) uid gid)"
    using p assms by (auto simp: perm_bits_def perm_shift_def and_word_bits numeral_2_eq_2 split: if_splits)
  show ?thesis
    unfolding fs_chk_perm_def Let_def p prod.case chain b three and_word_bits by blast
qed

theorem fs_chk_perm_grants_witness:
  "fs_chk_perm (\<lambda>_ _ _ _ _. EZERO) 7 4 5 5 (upd_fso 7 (\<lambda>o'. o'\<lparr>o_uid := 5, o_mode := 256\<rparr>) example_files) = EZERO \<and>
   fs_chk_perm (\<lambda>_ _ _ _ _. EZERO) 7 4 5 5 (upd_fso 7 (\<lambda>o'. o'\<lparr>o_uid := 5, o_mode := 36\<rparr>) example_files) \<noteq> EZERO"
proof -
  let ?s = "\<lambda>m. upd_fso 7 (\<lambda>o'. o'\<lparr>o_uid := 5, o_mode := m\<rparr>) example_files"
  have f: "fs_fso (?s m) 7 = zero_fso\<lparr>o_refcnt := 1, reader_count := 1, o_fs := PipeFs, o_uid := 5, o_mode := m\<rparr>" for m
    by (simp add: upd_fso_def example_files_simps)
  have g: "insecure (fs_of (?s m) (fs_fso (?s m) 7)) = False" "read_only (fs_of (?s m) (fs_fso (?s m) 7)) = False" for m
    by (simp_all add: f fs_of_def)
  have b: "bit (4 :: 32 word) 2" "bit (256 :: 32 word) 8" "\<not> bit (36 :: 32 word) 8"
      "\<not> bit (4 :: 32 word) 0" "\<not> bit (4 :: 32 word) 1"
    by (simp_all add: bit_numeral_rec)
  have three: "(\<forall>k < 3. Q k) \<longleftrightarrow> Q 0 \<and> Q 1 \<and> Q 2" for Q :: "nat \<Rightarrow> bool"
    by (auto simp: less_Suc_eq numeral_3_eq_3 numeral_2_eq_2)
  show ?thesis
    using fs_chk_perm_grants [of "?s 256" 7 "\<lambda>_ _ _ _ _. EZERO" 4 5 5]
      fs_chk_perm_grants [of "?s 36" 7 "\<lambda>_ _ _ _ _. EZERO" 4 5 5]
    unfolding three by (simp add: g b f perm_shift_def fs_of_def)
qed

text \<open>
  \<^verbatim>\<open>fs_notify\<close> compares the working directory of a task with the part of the path before its last slash.
  For an object in the root directory that part is empty, while the working directory of a task
  there is \<open>/\<close>: nobody is ever notified.
\<close>

lemma fs_notify_root_silent:
  assumes "slash \<notin> set name" and "\<forall>t. cwd (tsk s t) \<noteq> []"
  shows "fs_notify (slash # name) s = Some s"
proof -
  have "cut_last (slash # name) = Some []" using cut_last_render [OF assms(1), of "[]"] by simp
  moreover have "notify_loop [] ts s = Some s" for ts
    using assms(2) by (induction ts) auto
  ultimately show ?thesis by (simp add: fs_notify_def)
qed

end
