(* ===== verification/Wakeup.thy ===== *)
theory Wakeup
  imports Signal
begin

text \<open>
  What every operation that releases sleeping tasks has in common. Pipes, poll queues, mutexes and message
  queues wake tasks one by one with \<^verbatim>\<open>task_resume\<close> or a whole wait queue with the loop \<open>wake_all\<close>; both are
  steps of the relation \<open>woken\<close>, which composes, so that the operations built from them are, too.
\<close>

definition woken ::
    "'z kstate_scheme \<Rightarrow> (qid \<Rightarrow> tid list) \<Rightarrow> 'z kstate_scheme \<Rightarrow> (qid \<Rightarrow> tid list) \<Rightarrow> bool" where
  "woken s L s' L' \<longleftrightarrow>
     kinv s' L' \<and> kstate.more s' = kstate.more s \<and> slot s' = slot s \<and> curr s' = curr s \<and>
     (\<forall>u. tsk s' u = tsk s u \<or> paused (tsk s u) \<noteq> 0 \<and> tsk s' u = resumed (tsk s u)) \<and>
     (\<forall>q. \<not> is_ready q \<longrightarrow> set (L' q) \<subseteq> set (L q)) \<and>
     (\<forall>q u. \<not> is_ready q \<longrightarrow> u \<in> set (L q) \<longrightarrow> u \<in> set (L' q) \<or> paused (tsk s' u) = 0) \<and>
     (running s L \<longrightarrow> running s' L')"

lemma woken_refl: "kinv s L \<Longrightarrow> woken s L s L"
  by (simp add: woken_def)

lemma woken_kinv: "woken s L s' L' \<Longrightarrow> kinv s' L'"
  by (simp add: woken_def)

lemma woken_trans:
  assumes "woken s L t M" and "woken t M u N"
  shows "woken s L u N"
proof -
  have "tsk u x = tsk s x \<or> paused (tsk s x) \<noteq> 0 \<and> tsk u x = resumed (tsk s x)" for x
    using assms unfolding woken_def by (metis paused_resumed)
  moreover have "set (N q) \<subseteq> set (L q)" if "\<not> is_ready q" for q
    using assms that unfolding woken_def by blast
  moreover have "x \<in> set (N q) \<or> paused (tsk u x) = 0" if "\<not> is_ready q" "x \<in> set (L q)" for q x
    using assms that unfolding woken_def by (metis paused_resumed)
  ultimately show ?thesis using assms by (simp add: woken_def)
qed

lemma woken_task:
  assumes "woken s L s' L'"
  shows "exited (tsk s' t) = exited (tsk s t)" "priority (tsk s' t) = priority (tsk s t)"
    "signal_pending (tsk s' t) = signal_pending (tsk s t)" "unseen_events (tsk s' t) = unseen_events (tsk s t)"
    "file_desc (tsk s' t) = file_desc (tsk s t)" "paused (tsk s t) = 0 \<Longrightarrow> tsk s' t = tsk s t"
proof -
  have "tsk s' t = tsk s t \<or> paused (tsk s t) \<noteq> 0 \<and> tsk s' t = resumed (tsk s t)"
    using assms by (simp add: woken_def)
  then show "exited (tsk s' t) = exited (tsk s t)" "priority (tsk s' t) = priority (tsk s t)"
    "signal_pending (tsk s' t) = signal_pending (tsk s t)" "unseen_events (tsk s' t) = unseen_events (tsk s t)"
    "file_desc (tsk s' t) = file_desc (tsk s t)" "paused (tsk s t) = 0 \<Longrightarrow> tsk s' t = tsk s t"
    by (auto simp: resumed_def)
qed

lemma woken_alive: "woken s L s' L' \<Longrightarrow> alive s' = alive s"
  using woken_task(1) [of s L s' L'] by (simp add: alive_def woken_def)

lemma woken_queue_empty: "woken s L s' L' \<Longrightarrow> \<not> is_ready q \<Longrightarrow> L q = [] \<Longrightarrow> L' q = []"
  unfolding woken_def by (metis empty_set set_empty subset_empty)

text \<open>A task that has been resumed and does not run is on a ready queue.\<close>

lemma woken_ready:
  assumes "woken s L s' L'" and "t \<in> alive s" and "paused (tsk s' t) = 0" and "curr s \<noteq> Some t"
  shows "\<exists>i. t \<in> set (L' (Ready i))"
proof (rule kcore_runnable)
  show "kcore s' L'" using assms(1) by (simp add: woken_def kinv_def)
  show "t \<in> alive s'" using woken_alive [OF assms(1)] assms(2) by simp
  show "paused (tsk s' t) = 0" by (rule assms(3))
  show "curr s' \<noteq> Some t" using assms(1,4) by (simp add: woken_def)
qed

section \<open>Frames\<close>

text \<open>The invariant does not look at the fields that an extension of the kernel state adds.\<close>

lemma kinv_cong:
  assumes "t_next s' = t_next s" and "t_prev s' = t_prev s" and "t_queue s' = t_queue s" and "q_first s' = q_first s"
    and "q_last s' = q_last s" and "slot s' = slot s" and "tsk s' = tsk s" and "curr s' = curr s"
    and "task_count s' = task_count s" and "task_pcount s' = task_pcount s"
  shows "kinv s' L = kinv s L" "running s' L = running s L" "alive s' = alive s"
proof -
  show al: "alive s' = alive s" using assms(6,7) by (simp add: alive_def)
  show "kinv s' L = kinv s L"
    using tq_inv_cong [of s' s L] assms by (simp add: kinv_def kcore_def sleeping_def al)
  show "running s' L = running s L" using assms by (simp add: running_def al split: option.splits)
qed

lemma check_resched_more [simp]: "kstate.more (check_resched t s) = kstate.more s"
  by (simp add: check_resched_def split: option.splits)

lemma task_resume_more:
  assumes "task_resume t s = Some s'"
  shows "kstate.more s' = kstate.more s"
proof (cases "paused (tsk s t) = 0")
  case False
  let ?s2 = "(upd_task t resumed s)\<lparr>task_pcount := task_pcount s - 1\<rparr>"
  obtain s4 s5 where s4: "(if t_queue ?s2 t \<noteq> None then task_remove t ?s2 else Some ?s2) = Some s4"
      "(if curr s4 \<noteq> Some t then task_insert (rq s4 t) t s4 else Some s4) = Some s5" "s' = check_resched t s5"
    using assms False by (auto simp: task_resume_def Let_def split: if_splits Option.bind_splits)
  have "same_tasks ?s2 s4" using s4(1) task_remove_frame [of t ?s2] by (auto simp: same_tasks_def split: if_splits)
  moreover have "same_tasks s4 s5" using s4(2) task_insert_frame [of _ t s4] by (auto simp: same_tasks_def split: if_splits)
  ultimately show ?thesis using s4(3) by (simp add: same_tasks_fields(12) upd_task_def)
qed (use assms in \<open>auto simp: task_resume_def split: if_splits\<close>)

lemma task_resume_tsk:
  assumes "task_resume t s = Some s'"
  shows "tsk s' = (if paused (tsk s t) = 0 then tsk s else (tsk s)(t := resumed (tsk s t)))"
proof (cases "paused (tsk s t) = 0")
  case False
  let ?s2 = "(upd_task t resumed s)\<lparr>task_pcount := task_pcount s - 1\<rparr>"
  obtain s4 s5 where s4: "(if t_queue ?s2 t \<noteq> None then task_remove t ?s2 else Some ?s2) = Some s4"
      "(if curr s4 \<noteq> Some t then task_insert (rq s4 t) t s4 else Some s4) = Some s5" "s' = check_resched t s5"
    using assms False by (auto simp: task_resume_def Let_def split: if_splits Option.bind_splits)
  have "same_tasks ?s2 s4" using s4(1) task_remove_frame [of t ?s2] by (auto simp: same_tasks_def split: if_splits)
  moreover have "same_tasks s4 s5" using s4(2) task_insert_frame [of _ t s4] by (auto simp: same_tasks_def split: if_splits)
  moreover have "tsk s' = tsk s5" using s4(3) by (simp add: check_resched_def split: option.splits)
  ultimately show ?thesis using False by (simp add: same_tasks_fields(2) upd_task_def)
qed (use assms in \<open>auto simp: task_resume_def split: if_splits\<close>)

text \<open>A signal changes of a task only what \<open>\<pi>\<close> does not see, and nothing outside the state of the scheduler.\<close>

lemma signal_send_k_keeps:
  fixes s :: "'z kstate_scheme" and \<pi> :: "task \<Rightarrow> 'b"
  assumes st: "\<And>u x. \<pi> (stopped_update (\<lambda>_. x) u) = \<pi> u"
    and rc: "\<And>u r. \<pi> (u\<lparr>signal_received := r, signal_pending := True\<rparr>) = \<pi> u" and re: "\<And>u. \<pi> (resumed u) = \<pi> u"
    and "signal_send_k p sig s = Some (e, s')"
  shows "\<pi> (tsk s' u) = \<pi> (tsk s u)" "kstate.more s' = kstate.more s"
proof -
  define keeps where "keeps a b \<longleftrightarrow> (\<forall>u. \<pi> (tsk b u) = \<pi> (tsk a u)) \<and> kstate.more b = kstate.more a" for a b :: "'z kstate_scheme"
  have tr: "keeps a b \<Longrightarrow> keeps b c \<Longrightarrow> keeps a c" for a b c by (simp add: keeps_def)
  have rs: "task_resume t a = Some b \<Longrightarrow> keeps a b" for t a b
    using task_resume_tsk [of t a b] task_resume_more [of t a b] re by (auto simp: keeps_def)
  have up: "keeps a (upd_task p f a)" if "\<And>u. \<pi> (f u) = \<pi> u" for f a
    using that by (simp add: keeps_def upd_task_def)
  have "keeps s s'"
  proof (cases "sig \<le> 0 \<or> sig > int SIGMAX \<or> exited (tsk s p) \<or> signal_handler (tsk s p) (nat sig - 1) = SIG_IGN")
    case True
    then show ?thesis using assms(4) by (auto simp: signal_send_k_def keeps_def Let_def split: if_splits)
  next
    case False
    let ?n = "nat sig" and ?s0 = "upd_task p (stopped_update (\<lambda>_. False)) s"
    define g where "g u = u\<lparr>signal_received := (signal_received u)(?n - 1 := True), signal_pending := True\<rparr>" for u :: task
    obtain s1 where s1: "(if ?n = SIGCONT \<or> ?n = SIGKILL then
            if paused (tsk ?s0 p) = WAIT_INTR then task_resume p ?s0 else Some ?s0 else Some s) = Some s1"
      and s4: "(let s2 = (if ?n = SIGSTOP then upd_task p (stopped_update (\<lambda>_. True)) s1 else s1);
                    s3 = upd_task p g s2
                in if paused (tsk s3 p) = WAIT_INTR then task_resume p s3 else Some s3) = Some s'"
      using assms(4) False by (auto simp: signal_send_k_def Let_def g_def [abs_def] split: if_splits Option.bind_splits)
    have k0: "keeps s ?s0" by (rule up) (rule st)
    have k1: "keeps s s1" using s1 k0 tr [OF k0 rs] by (auto simp: keeps_def split: if_splits)
    define s2 where "s2 = (if ?n = SIGSTOP then upd_task p (stopped_update (\<lambda>_. True)) s1 else s1)"
    have "keeps s1 s2" using up [of "stopped_update (\<lambda>_. True)" s1] st by (simp add: s2_def keeps_def)
    moreover have "keeps s2 (upd_task p g s2)" by (rule up) (simp add: g_def rc)
    ultimately have k2: "keeps s1 (upd_task p g s2)" by (rule tr)
    have "(if paused (tsk (upd_task p g s2) p) = WAIT_INTR then task_resume p (upd_task p g s2)
           else Some (upd_task p g s2)) = Some s'"
      using s4 unfolding Let_def s2_def [symmetric] .
    then have "keeps s1 s'" using k2 tr [OF k2 rs] by (auto split: if_splits)
    then show ?thesis by (rule tr [OF k1])
  qed
  then show "\<pi> (tsk s' u) = \<pi> (tsk s u)" "kstate.more s' = kstate.more s" by (simp_all add: keeps_def)
qed

lemma wake_all_more:
  assumes "wake_all tq s = Some s'"
  shows "kstate.more s' = kstate.more s"
proof (rule wake_all.raw_induct [where P = "\<lambda>tq s s'. kstate.more s' = kstate.more s", OF _ assms])
  fix wake and tq and s s' :: "'a kstate_scheme"
  assume IH: "\<And>tq s s'. wake tq s = Some s' \<Longrightarrow> kstate.more s' = kstate.more s"
    and *: "(case task_dequeue tq s of (None, s1) \<Rightarrow> Some s1
             | (Some t, s1) \<Rightarrow> Option.bind (task_resume t s1) (wake tq)) = Some s'"
  obtain r s1 where d: "task_dequeue tq s = (r, s1)" by fastforce
  have m: "kstate.more s1 = kstate.more s"
    using task_dequeue_frame [OF d] by (intro same_tasks_fields(12)) (simp add: same_tasks_def)
  show "kstate.more s' = kstate.more s"
    using * d m by (auto dest!: IH task_resume_more split: option.splits Option.bind_splits)
qed

section \<open>Steps\<close>

lemma resume_queues_set:
  "set (resume_queues s t L q) \<subseteq> insert t (set (L q))"
  "\<not> is_ready q \<Longrightarrow> set (resume_queues s t L q) \<subseteq> set (L q)"
  by (auto simp: resume_queues_def Let_def rq_def dest: set_mp [OF set_remove1_subset])

lemma resume_queues_keep: "u \<in> set (L q) \<Longrightarrow> u \<noteq> t \<Longrightarrow> u \<in> set (resume_queues s t L q)"
  by (auto simp: resume_queues_def Let_def)

lemma fold_resume_queues_keep:
  "u \<in> set (L q) \<Longrightarrow> u \<notin> set ts \<Longrightarrow> u \<in> set (fold (resume_queues s) ts L q)"
  by (induction ts arbitrary: L) (auto intro: resume_queues_keep)

lemma fold_resume_queues_set:
  "set (fold (resume_queues s) ts L q) \<subseteq> set ts \<union> set (L q)"
  "\<not> is_ready q \<Longrightarrow> set (fold (resume_queues s) ts L q) \<subseteq> set (L q)"
proof -
  show "set (fold (resume_queues s) ts L q) \<subseteq> set ts \<union> set (L q)"
  proof (induction ts arbitrary: L)
    case (Cons t ts)
    show ?case using Cons.IH [of "resume_queues s t L"] resume_queues_set(1) [of s t L q] by auto
  qed simp
  show "set (fold (resume_queues s) ts L q) \<subseteq> set (L q)" if "\<not> is_ready q"
  proof (induction ts arbitrary: L)
    case (Cons t ts)
    show ?case using Cons.IH [of "resume_queues s t L"] resume_queues_set(2) [OF that, of s t L] by auto
  qed simp
qed

lemma resume_woken:
  assumes "kinv s L" and "t \<in> alive s"
  shows "\<exists>s' L'. task_resume t s = Some s' \<and> woken s L s' L' \<and> paused (tsk s' t) = 0"
proof (cases "paused (tsk s t) = 0")
  case True
  then show ?thesis using task_resume_awake [OF assms(2)] woken_refl [OF assms(1)] by auto
next
  case False
  then have "t \<in> sleeping s" using assms(2) by (simp add: sleeping_def)
  then obtain s' where s': "task_resume t s = Some s'" "kinv s' (resume_queues s t L)"
      "tsk s' = (tsk s)(t := resumed (tsk s t))" "slot s' = slot s" "curr s' = curr s"
    using task_resume_kinv [OF assms(1)] by blast
  then have "woken s L s' (resume_queues s t L)"
    using running_resume [of s L s' t] task_resume_more [OF s'(1)] False resume_queues_keep [of _ L _ t s]
    by (auto simp: woken_def dest!: set_mp [OF resume_queues_set(2)])
  then show ?thesis using s' by auto
qed

lemma wake_all_woken:
  assumes "kinv s L" and "\<not> is_ready tq"
  shows "\<exists>s' L'. wake_all tq s = Some s' \<and> woken s L s' L' \<and> L' tq = [] \<and>
           (\<forall>t \<in> set (L tq). paused (tsk s' t) = 0)"
proof -
  define L' where "L' = fold (resume_queues s) (L tq) L"
  obtain s' where s': "wake_all tq s = Some s'" "kinv s' L'" "L' tq = []"
      "tsk s' = (\<lambda>x. if x \<in> set (L tq) then resumed (tsk s x) else tsk s x)"
      "slot s' = slot s" "curr s' = curr s"
    using wake_all_kinv [OF assms] unfolding L'_def by blast
  have p: "paused (tsk s x) \<noteq> 0" if "x \<in> set (L tq)" for x
    using kcore_waiting that assms by (auto simp: kinv_def)
  have "running s' L'" if r: "running s L"
  proof -
    obtain c where c: "curr s = Some c" "c \<in> alive s" "paused (tsk s c) = 0" "\<And>q. c \<notin> set (L q)"
      using r by (auto simp: running_def split: option.splits)
    then have "c \<notin> set (L' q)" for q using fold_resume_queues_set(1) [of s "L tq" L q] by (auto simp: L'_def)
    then show ?thesis using c s'(4-6) by (simp add: running_def alive_def)
  qed
  moreover have "set (L' q) \<subseteq> set (L q)" if "\<not> is_ready q" for q
    unfolding L'_def by (rule fold_resume_queues_set(2) [OF that])
  moreover have "u \<in> set (L' q) \<or> paused (tsk s' u) = 0" if "u \<in> set (L q)" for q u
    using fold_resume_queues_keep [of u L q "L tq" s] that s'(4) by (auto simp: L'_def)
  ultimately have "woken s L s' L'"
    using s' wake_all_more [OF s'(1)] p by (simp add: woken_def)
  then show ?thesis using s' by (auto simp: resumed_def)
qed

end
