(* ===== verification/Process.thy ===== *)
theory Process
  imports Fs_File Wakeup
begin

text \<open>
  The life of a task: \<^verbatim>\<open>task_creat\<close> and \<^verbatim>\<open>task_exit\<close> (\<^verbatim>\<open>kern/task.c\<close>), \<^verbatim>\<open>do_fork\<close> (\<^verbatim>\<open>kern/fork.c\<close>), the
  system calls \<^verbatim>\<open>__xwait\<close>, \<^verbatim>\<open>nice\<close>, \<^verbatim>\<open>_exit\<close> and \<^verbatim>\<open>_exec\<close> (\<^verbatim>\<open>kern/syscall.c\<close>).

  The results of the routines that allocate pages and page directories, copy the address space
  (\<^verbatim>\<open>copy_pages\<close>) or copy to user memory (\<^verbatim>\<open>tucpy\<close>) are arguments. The window system's part of a task
  (\<^verbatim>\<open>win_newtask\<close>, \<^verbatim>\<open>win_detach\<close>), the user memory (\<^verbatim>\<open>uclean\<close>), the kernel stack and the FPU state are not
  modelled.
\<close>

section \<open>Creating tasks\<close>

definition reset_signals :: "task \<Rightarrow> task" where
  "reset_signals u =
     u\<lparr>signal_pending := False,
       signal_handler := (\<lambda>i. if i < SIGMAX \<and> signal_handler u i \<noteq> SIG_IGN then SIG_DFL else signal_handler u i),
       signal_received := (\<lambda>i. if i < SIGMAX \<and> signal_handler u i \<noteq> SIG_IGN then False else signal_received u i)\<rparr>"

text \<open>The assignment \<^verbatim>\<open>*p = *curr\<close> copies the link fields too.\<close>

definition copy_task :: "tid \<Rightarrow> tid \<Rightarrow> 'z kstate_scheme \<Rightarrow> 'z kstate_scheme" where
  "copy_task p c s =
     s\<lparr>tsk := (tsk s)(p := tsk s c), t_next := (t_next s)(p := t_next s c),
       t_prev := (t_prev s)(p := t_prev s c), t_queue := (t_queue s)(p := t_queue s c)\<rparr>"

definition task_creat ::
    "(nat \<Rightarrow> errno) \<Rightarrow> errno \<Rightarrow> string \<Rightarrow> string \<Rightarrow> int \<Rightarrow> 'z fstate_scheme \<Rightarrow>
     ((errno + int) \<times> 'z fstate_scheme) option" where
  "task_creat atmem newdir name arg arg_size s = do {
     c \<leftarrow> curr s;
     (case fs_fqname (cwd (tsk s c)) (tty (tsk s c)) name of
        Inl e \<Rightarrow> Some (Inl e, s)
      | Inr fqn \<Rightarrow>
          (case task_getslot atmem s of
             (e, None, s1) \<Rightarrow> Some (Inl e, s1)
           | (_, Some i, s1) \<Rightarrow> do {
               let s2 = copy_task i c s1;
               (p, s3) \<leftarrow> newpid (upd_task i (parent_update (\<lambda>_. c)) s2);
               let s4 = upd_task i (\<lambda>u. u\<lparr>pid := p, time_slice := -1, priority := priority (tsk s3 c),
                          alarm_repeat := 0, alarm := 0, unseen_events := 0, event_count := 0,
                          first_event := 0, last_event := -1, pg_count := 0\<rparr>) s3;
               if newdir \<noteq> EZERO then Some (Inl newdir, task_putslot i s4)
               else do {
                 let s5 = upd_task i (\<lambda>u. u\<lparr>exec_arg_size := arg_size, exec_name := fqn, exec_arg := arg\<rparr>) s4;
                 s6 \<leftarrow> fs_newtask i s5;
                 let s7 = upd_task i reset_signals s6;
                 s8 \<leftarrow> task_insert (rq s7 i) i s7;
                 Some (Inr p, s8\<lparr>task_count := task_count s8 + 1\<rparr>)
               }
             }))
   }"

definition fork_fields :: "task \<Rightarrow> task \<Rightarrow> task" where
  "fork_fields c u =
     u\<lparr>euid := euid c, egid := egid c, ruid := ruid c, rgid := rgid c, pg_count := pg_count c,
       event_high := event_high c, priority := priority c,
       signal_received := (\<lambda>i. if i < SIGMAX then signal_received c i else signal_received u i),
       signal_handler := (\<lambda>i. if i < SIGMAX then signal_handler c i else signal_handler u i),
       signal_use_event := (\<lambda>i. if i < SIGMAX then signal_use_event c i else signal_use_event u i),
       signal_pending := signal_pending c, exec_name := exec_name c\<rparr>"

definition do_fork ::
    "(nat \<Rightarrow> errno) \<Rightarrow> errno \<Rightarrow> 'z fstate_scheme \<Rightarrow> ((errno + int) \<times> 'z fstate_scheme) option" where
  "do_fork atmem copy_pages s = do {
     c \<leftarrow> curr s;
     (case task_getslot atmem s of
        (e, None, s1) \<Rightarrow> Some (Inl e, s1)
      | (_, Some i, s1) \<Rightarrow> do {
          let s2 = s1\<lparr>task_count := task_count s1 + 1\<rparr>;
          s3 \<leftarrow> task_insert (rq s2 i) i s2;
          (p, s4) \<leftarrow> newpid (upd_task i (parent_update (\<lambda>_. c)) s3);
          let s5 = upd_task i (\<lambda>u. fork_fields (tsk s4 c) (u\<lparr>pid := p\<rparr>)) s4;
          s6 \<leftarrow> fs_newtask i s5;
          if copy_pages \<noteq> EZERO then do {
            (_, s7) \<leftarrow> signal_fatal i (int SIGOOM) s6;
            Some (Inl copy_pages, s7)
          }
          else Some (Inr p, s6)
        })
   }"

section \<open>Exiting and waiting\<close>

text \<open>The loop of \<^verbatim>\<open>task_exit\<close> that gives the children of the task to init.\<close>

fun reparent :: "tid \<Rightarrow> tid list \<Rightarrow> 'z kstate_scheme \<Rightarrow> 'z kstate_scheme option" where
  "reparent c [] s = Some s"
| "reparent c (i # is) s =
     (if slot s i \<and> parent (tsk s i) = c then do {
        let s1 = upd_task i (parent_update (\<lambda>_. init s)) s;
        s2 \<leftarrow> (if exited (tsk s1 i) then map_option snd (signal_send_k (init s1) (int SIGCHLD) s1) else Some s1);
        reparent c is s2
      }
      else reparent c is s)"

definition exit_notify :: "tid \<Rightarrow> 'z kstate_scheme \<Rightarrow> 'z kstate_scheme option" where
  "exit_notify c s =
     (if signal_handler (tsk s (parent (tsk s c))) (SIGCHLD - 1) \<noteq> SIG_IGN
      then map_option snd (signal_send_k (parent (tsk s c)) (int SIGCHLD) s)
      else map_option snd (signal_send_k (init s) (int SIGCHLD) (upd_task c (parent_update (\<lambda>_. init s)) s)))"

definition exit_mark :: "int \<Rightarrow> tid \<Rightarrow> 'z kstate_scheme \<Rightarrow> 'z kstate_scheme" where
  "exit_mark status c s =
     upd_task c (\<lambda>u. u\<lparr>exit_status := status, exited := True\<rparr>) (s\<lparr>task_count := task_count s - 1\<rparr>)"

definition task_exit ::
    "(nat \<Rightarrow> 'z fstate_scheme \<Rightarrow> 'z fstate_scheme option) \<Rightarrow> int \<Rightarrow> 'z fstate_scheme \<Rightarrow>
     (outcome \<times> 'z fstate_scheme) option" where
  "task_exit putfso status s = do {
     c \<leftarrow> curr s;
     if exited (tsk s c) then Some (Running, s)
     else if c = init s then None
     else do {
       s1 \<leftarrow> fs_clean putfso s;
       s2 \<leftarrow> reparent c [0..<TASK_MAX] s1;
       s3 \<leftarrow> exit_notify c s2;
       if task_count s3 - 1 < 0 then None
       else sched (exit_mark status c s3)
     }
   }"

definition sys_exit ::
    "(nat \<Rightarrow> 'z fstate_scheme \<Rightarrow> 'z fstate_scheme option) \<Rightarrow> int \<Rightarrow> 'z fstate_scheme \<Rightarrow>
     (outcome \<times> 'z fstate_scheme) option" where
  "sys_exit putfso status s = task_exit putfso ((status mod 256) * 256) s"

text \<open>
  \<^verbatim>\<open>sys___xwait\<close>: the loop over the task table yields the first exited child that is waited for, or
  whether there are children at all. \<open>Inl r\<close> is a return to the caller (the status of a child, \<open>None\<close>
  for \<^verbatim>\<open>WNOHANG\<close>), \<open>Inr\<close> the processor's outcome when the task sleeps; \<^verbatim>\<open>EINTR\<close> follows the sleep.
\<close>

record xstatus =
  xs_exec_name :: string
  xs_status :: int
  xs_pid :: int

definition is_child :: "int \<Rightarrow> tid \<Rightarrow> 'z kstate_scheme \<Rightarrow> nat \<Rightarrow> bool" where
  "is_child p c s i \<longleftrightarrow> slot s i \<and> parent (tsk s i) = c \<and> \<not> (p > 0 \<and> pid (tsk s i) \<noteq> p)"

definition sys_xwait ::
    "qid \<Rightarrow> errno \<Rightarrow> int \<Rightarrow> bool \<Rightarrow> 'z kstate_scheme \<Rightarrow>
     (((errno + xstatus option) + outcome) \<times> 'z kstate_scheme) option" where
  "sys_xwait tq cpy p nohang s = do {
     c \<leftarrow> curr s;
     (case List.find (\<lambda>i. is_child p c s i \<and> exited (tsk s i)) [0..<TASK_MAX] of
        Some i \<Rightarrow>
          if cpy \<noteq> EZERO then Some (Inl (Inl cpy), s)
          else Some (Inl (Inr (Some \<lparr>xs_exec_name = exec_name (tsk s i), xs_status = exit_status (tsk s i),
                                    xs_pid = pid (tsk s i)\<rparr>)), task_putslot i s)
      | None \<Rightarrow>
          if list_ex (is_child p c s) [0..<TASK_MAX] then
            if nohang then Some (Inl (if cpy \<noteq> EZERO then Inl cpy else Inr None), s)
            else (case task_suspend (Some tq) WAIT_INTR s of
                    None \<Rightarrow> None
                  | Some (Inl e, s1) \<Rightarrow> Some (Inl (Inl EINTR), s1)
                  | Some (Inr r, s1) \<Rightarrow> Some (Inr r, s1))
          else Some (Inl (Inl ECHILD), s))
   }"

text \<open>The addition in \<^verbatim>\<open>sys_nice\<close> is on 32-bit integers and wraps around.\<close>

definition wrap32 :: "int \<Rightarrow> int" where
  "wrap32 x = (x + 2 ^ 31) mod 2 ^ 32 - 2 ^ 31"

definition sys_nice :: "int \<Rightarrow> 'z kstate_scheme \<Rightarrow> ((errno + int) \<times> 'z kstate_scheme) option" where
  "sys_nice inc s = do {
     c \<leftarrow> curr s;
     let old = priority (tsk s c);
     if inc < 0 \<and> euid (tsk s c) \<noteq> 0 then Some (Inl EPERM, s)
     else do {
       let prio = wrap32 (old + inc);
       let prio1 = (if prio > TASK_PRIO_LOW then TASK_PRIO_LOW else if prio < 0 then 0 else prio);
       s1 \<leftarrow> task_set_prio prio1 s;
       Some (Inr old, s1)
     }
   }"

section \<open>A new task in the table\<close>

lemma tq_inv_detached:
  assumes "tq_inv s L" and "\<And>q. i \<notin> set (L q)"
    and "t_next s' = (t_next s)(i := x)" and "t_prev s' = (t_prev s)(i := y)" and "t_queue s' = (t_queue s)(i := None)"
    and "q_first s' = q_first s" and "q_last s' = q_last s"
  shows "tq_inv s' L"
proof (rule tq_invI)
  fix q
  show "dseg (t_next s') (t_prev s') None (L q) None"
    using tq_inv_dseg [OF assms(1), of q] assms(2) [of q] by (simp add: assms(3,4))
next
  fix t q
  show "t_queue s' t = Some q \<longleftrightarrow> t \<in> set (L q)"
    using tq_inv_queue [OF assms(1), of t q] assms(2) by (auto simp: assms(5))
qed (use tq_inv_first [OF assms(1)] tq_inv_last [OF assms(1)] in \<open>simp_all add: assms(6,7)\<close>)

lemma kcore_new:
  assumes "kcore s L" and "i < TASK_MAX" and "\<not> slot s i" and "curr s \<noteq> Some i" and "j < 64"
    and s': "slot s' = (slot s)(i := True)" "curr s' = curr s" "task_count s' = task_count s + 1"
      "task_pcount s' = task_pcount s"
    and old: "\<And>t. t \<noteq> i \<Longrightarrow> exited (tsk s' t) = exited (tsk s t) \<and> paused (tsk s' t) = paused (tsk s t) \<and>
               priority (tsk s' t) = priority (tsk s t)"
    and new: "\<not> exited (tsk s' i)" "paused (tsk s' i) = 0" "0 \<le> priority (tsk s' i)"
      "priority (tsk s' i) \<le> TASK_PRIO_LOW"
  shows "kcore s' (L(Ready j := L (Ready j) @ [i]))"
proof -
  have al: "alive s' = insert i (alive s)" using assms(2,3) s'(1) old new(1) by (auto simp: alive_def)
  have ni: "i \<notin> alive s" using assms(3) by (simp add: alive_def)
  have sl: "sleeping s' = sleeping s"
  proof -
    have "paused (tsk s' x) = paused (tsk s x)" if "x \<in> alive s" for x using old [of x] ni that by auto
    then show ?thesis using new(2) unfolding sleeping_def al by auto
  qed
  let ?M = "L(Ready j := L (Ready j) @ [i])"
  have mem: "x \<in> set (?M q) \<longleftrightarrow> x \<in> set (L q) \<or> x = i \<and> q = Ready j" for x q by auto
  show ?thesis
  proof (rule kcoreI)
    show "task_count s' = int (card (alive s'))" "task_pcount s' = int (card (sleeping s'))"
      unfolding al sl using kcore_counts [OF assms(1)] ni s'(3,4) by simp_all
  next
    fix q x assume "x \<in> set (?M q)"
    then have x: "x \<in> set (L q) \<or> x = i \<and> q = Ready j" by (simp only: mem)
    then show "x \<in> alive s'" "\<not> is_ready q \<Longrightarrow> paused (tsk s' x) \<noteq> 0"
      using kcore_queued_alive [OF assms(1), of x q] kcore_waiting [OF assms(1), of x q] old [of x] ni new(2)
      unfolding al by (cases "x = i"; auto)+
  next
    fix k x assume "x \<in> set (?M (Ready k))"
    then have "x \<in> set (L (Ready k)) \<or> x = i \<and> k = j" by (simp only: mem qid.inject)
    then show "k < 64 \<and> paused (tsk s' x) = 0"
      using kcore_ready [OF assms(1), of x k] old [of x] new(2) assms(5) by (cases "x = i") auto
  next
    fix x assume "x \<in> alive s'" "paused (tsk s' x) = 0" "curr s' \<noteq> Some x"
    then show "\<exists>k. x \<in> set (?M (Ready k))"
      using kcore_runnable [OF assms(1), of x] old [of x] s'(2) unfolding mem al by (cases "x = i") auto
  next
    fix x assume "x \<in> alive s'"
    then show "0 \<le> priority (tsk s' x) \<and> priority (tsk s' x) \<le> TASK_PRIO_LOW"
      using kcore_priority [OF assms(1), of x] old [of x] new(3,4) unfolding al by (cases "x = i") auto
  qed
qed

lemma getslot_cases:
  obtains (full) "task_getslot atmem s = (EAGAIN, None, s)" "\<forall>i < TASK_MAX. slot s i"
  | (nomem) i where "task_getslot atmem s = (atmem i, None, s)" "atmem i \<noteq> EZERO" "i < TASK_MAX" "\<not> slot s i"
  | (ok) i where "task_getslot atmem s = (EZERO, Some i,
        (unlink_task i s)\<lparr>tsk := (tsk s)(i := zero_task), slot := (slot s)(i := True)\<rparr>)"
      "i < TASK_MAX" "\<not> slot s i" "\<forall>j < i. slot s j"
proof (cases "List.find (\<lambda>i. \<not> slot s i) [0..<TASK_MAX]")
  case None
  then have "task_getslot atmem s = (EAGAIN, None, s)" by (simp add: task_getslot_def)
  moreover have "\<forall>i < TASK_MAX. slot s i" using None by (simp add: find_upt_None_iff)
  ultimately show ?thesis by (rule full)
next
  case (Some i)
  then have i: "i < TASK_MAX" "\<not> slot s i" "\<forall>j < i. slot s j" by (auto simp: find_upt_Some_iff)
  show ?thesis
  proof (cases "atmem i = EZERO")
    case True
    then show ?thesis using Some i by (intro ok [of i]) (simp_all add: task_getslot_def)
  next
    case False
    then show ?thesis using Some i by (intro nomem [of i]) (simp_all add: task_getslot_def)
  qed
qed

text \<open>The state after a successful \<^verbatim>\<open>task_getslot\<close>.\<close>

definition with_slot :: "nat \<Rightarrow> 'z kstate_scheme \<Rightarrow> 'z kstate_scheme" where
  "with_slot i s = (unlink_task i s)\<lparr>tsk := (tsk s)(i := zero_task), slot := (slot s)(i := True)\<rparr>"

lemma with_slot_fields [simp]:
  "tsk (with_slot i s) = (tsk s)(i := zero_task)" "slot (with_slot i s) = (slot s)(i := True)"
  "curr (with_slot i s) = curr s" "init (with_slot i s) = init s" "last_pid (with_slot i s) = last_pid s"
  "task_count (with_slot i s) = task_count s" "task_pcount (with_slot i s) = task_pcount s"
  "kstate.more (with_slot i s) = kstate.more s" "t_queue (with_slot i s) i = None"
  by (simp_all add: with_slot_def unlink_task_def)

lemma with_slot_tq:
  assumes "kinv s L" and "\<not> slot s i"
  shows "tq_inv (with_slot i s) L" "\<And>q. i \<notin> set (L q)"
proof -
  have tq: "tq_inv s L" and kc: "kcore s L" using assms(1) by (auto simp: kinv_def)
  show ni: "i \<notin> set (L q)" for q using kcore_queued_alive [OF kc, of i q] assms(2) by (auto simp: alive_def)
  have "tq_inv (unlink_task i s) L" by (rule tq_inv_detached [OF tq ni]) (simp_all add: unlink_task_def)
  then show "tq_inv (with_slot i s) L" by (simp add: with_slot_def cong: tq_inv_cong)
qed

lemma refs_ok_with_slot:
  fixes s :: "'z fstate_scheme"
  assumes "refs_ok s" and "\<not> slot s i"
  shows "refs_ok (with_slot i s)"
proof -
  have fd: "fds (with_slot i s) t d = (if t = i then None else fds s t d)" for t d
    by (simp add: fds_def zero_task_def zero_desc_def)
  have ff: "fs_file (with_slot i s) = fs_file s" by (simp add: with_slot_def unlink_task_def)
  have "file_refs (with_slot i s) f = file_refs s f" for f
  proof -
    let ?A = "{t. t < TASK_MAX \<and> slot s t}" and ?B = "{t. t < TASK_MAX \<and> slot (with_slot i s) t}"
    have "file_refs (with_slot i s) f = (\<Sum>t \<in> ?A. \<Sum>d < OPEN_MAX. of_bool (fds (with_slot i s) t d = Some f))"
      unfolding file_refs_def by (rule sum.mono_neutral_right) (auto simp: fd)
    also have "\<dots> = file_refs s f"
      unfolding file_refs_def using assms(2) by (intro sum.cong) (auto simp: fd)
    finally show ?thesis .
  qed
  then show ?thesis using assms(1) by (simp add: refs_ok_def ff)
qed

lemma refs_ok_cong:
  fixes s s' :: "'z fstate_scheme"
  assumes "fs_file s' = fs_file s" and "slot s' = slot s" and "\<And>t. file_desc (tsk s' t) = file_desc (tsk s t)"
  shows "refs_ok s' = refs_ok s"
  using assms by (simp add: refs_ok_def file_refs_def fds_def)

lemma fs_of_more:
  assumes "kstate.more s' = kstate.more s"
  shows "fs_file s' = fs_file s" "fs_fso s' = fs_fso s"
  using assms by (cases s; cases s'; simp)+

text \<open>The new task of a successful fork.\<close>

lemma do_fork_state:
  fixes s :: "'z fstate_scheme"
  assumes k: "kinv s L" and r: "running s L" and c: "curr s = Some c" and rf: "refs_ok s"
    and lp: "0 \<le> last_pid s" "last_pid s \<le> PID_MAX"
    and g: "task_getslot atmem s = (EZERO, Some i, with_slot i s)" "i < TASK_MAX" "\<not> slot s i"
  shows "\<exists>p s'. do_fork atmem EZERO s = Some (Inr p, s') \<and> kinv s' (L(Ready 0 := L (Ready 0) @ [i])) \<and>
           refs_ok s' \<and> objs_ok s' = objs_ok s \<and> other_refs s' = other_refs s \<and>
           1 \<le> p \<and> p \<le> PID_MAX \<and> \<not> pid_used s p \<and> slot s' = (slot s)(i := True) \<and> curr s' = curr s \<and>
           init s' = init s \<and> (\<forall>t. t \<noteq> i \<longrightarrow> tsk s' t = tsk s t) \<and>
           tsk s' i = (fork_fields (tsk s c) (zero_task\<lparr>parent := c, pid := p\<rparr>))\<lparr>file_desc := file_desc (tsk s c),
              cwd := cwd (tsk s c), tty := tty (tsk s c), ocwd := ocwd (tsk s c)\<rparr>"
proof -
  have kc: "kcore s L" using k by (simp add: kinv_def)
  have ca: "c \<in> alive s" "paused (tsk s c) = 0" using running_not_queued [OF r c] by auto
  then have ic: "i \<noteq> c" using g(3) by (auto simp: alive_def)
  note w = with_slot_tq [OF k g(3)]
  define s2 where "s2 = (with_slot i s)\<lparr>task_count := task_count s + 1\<rparr>"
  have tq2: "tq_inv s2 L" using w(1) by (simp add: s2_def cong: tq_inv_cong)
  have rq2: "rq s2 i = Ready 0" by (simp add: rq_def s2_def zero_task_def)
  obtain s3 where s3: "task_insert (Ready 0) i s2 = Some s3" "tq_inv s3 (L(Ready 0 := L (Ready 0) @ [i]))"
    using task_insert_inv [OF tq2 w(2)] by blast
  have st: "same_tasks s2 s3" using task_insert_frame [OF s3(1)] by (simp add: same_tasks_def)
  note f3 = same_tasks_fields [OF st]
  have ff3: "fs_file s3 = fs_file s" "fs_fso s3 = fs_fso s"
    using fs_of_more [of s3 "with_slot i s"] fs_of_more [of "with_slot i s" s] f3(12) by (simp_all add: s2_def)
  define s3b where "s3b = upd_task i (parent_update (\<lambda>_. c)) s3"
  obtain p where p: "newpid s3b = Some (p, s3b\<lparr>last_pid := p\<rparr>)" "1 \<le> p" "p \<le> PID_MAX"
      "\<And>t. t < TASK_MAX \<Longrightarrow> slot s3b t \<Longrightarrow> pid (tsk s3b t) \<noteq> p"
    using newpid_total [of s3b] lp f3(10) by (auto simp: s3b_def upd_task_def s2_def)
  define s5 where "s5 = upd_task i (\<lambda>u. fork_fields (tsk s3b c) (u\<lparr>pid := p\<rparr>)) (s3b\<lparr>last_pid := p\<rparr>)"
  have t5: "tsk s5 = (tsk s)(i := fork_fields (tsk s c) (zero_task\<lparr>parent := c, pid := p\<rparr>))"
    using f3(2) ic by (simp add: s5_def s3b_def upd_task_def s2_def)
  have f5: "slot s5 = (slot s)(i := True)" "curr s5 = Some c" "init s5 = init s"
      "task_count s5 = task_count s + 1" "task_pcount s5 = task_pcount s" "fs_file s5 = fs_file s" "fs_fso s5 = fs_fso s"
      "t_next s5 = t_next s3" "t_prev s5 = t_prev s3" "t_queue s5 = t_queue s3" "q_first s5 = q_first s3" "q_last s5 = q_last s3"
    using f3 ff3 c by (simp_all add: s5_def s3b_def upd_task_def s2_def)
  have fd5: "fds s5 i d = None" for d
    by (simp add: fds_def t5 fork_fields_def zero_task_def zero_desc_def)
  have rf5: "refs_ok s5"
  proof -
    have "fs_file s5 = fs_file (with_slot i s)" using f5(6) fs_of_more [of "with_slot i s" s] by simp
    moreover have "file_desc (tsk s5 t) = file_desc (tsk (with_slot i s) t)" for t by (simp add: t5 fork_fields_def)
    ultimately show ?thesis
      using refs_ok_cong [of s5 "with_slot i s"] f5(1) refs_ok_with_slot [OF rf g(3)] by simp
  qed
  obtain s6 ff where s6: "fs_newtask i s5 = Some s6" "refs_ok s6"
      "s6 = (upd_task i (\<lambda>u. u\<lparr>file_desc := file_desc (tsk s5 c), cwd := cwd (tsk s5 c),
              tty := tty (tsk s5 c), ocwd := ocwd (tsk s5 c)\<rparr>) s5)\<lparr>fs_file := ff\<rparr>"
    using newtask_refs [OF rf5 f5(2) ic _ g(2)] fd5 f5(1) by auto
  have "objs_ok s5 = objs_ok s" "other_refs s5 = other_refs s" using f5(6,7) by (simp_all add: objs_ok_def other_refs_def fso_refs_def fun_eq_iff)
  then have ob: "objs_ok s6 = objs_ok s" "other_refs s6 = other_refs s"
    using newtask_objs [OF rf5 f5(2) _ _ s6(1)] ca(1) ic f5(1) by (auto simp: alive_def)
  have t6: "tsk s6 = (tsk s)(i := (fork_fields (tsk s c) (zero_task\<lparr>parent := c, pid := p\<rparr>))\<lparr>file_desc := file_desc (tsk s c),
              cwd := cwd (tsk s c), tty := tty (tsk s c), ocwd := ocwd (tsk s c)\<rparr>)"
    using ic unfolding s6(3) by (simp add: upd_task_def t5)
  have f6: "slot s6 = (slot s)(i := True)" "curr s6 = curr s" "init s6 = init s"
      "task_count s6 = task_count s + 1" "task_pcount s6 = task_pcount s"
    using f5 c unfolding s6(3) by (simp_all add: upd_task_def)
  have "tq_inv s6 (L(Ready 0 := L (Ready 0) @ [i]))"
    using s3(2) f5(8-12) unfolding s6(3) by (simp add: upd_task_def cong: tq_inv_cong)
  moreover have "kcore s6 (L(Ready 0 := L (Ready 0) @ [i]))"
    using kcore_priority [OF kc ca(1)] ic c
    by (intro kcore_new [OF kc g(2,3)]) (auto simp: t6 f6 fork_fields_def zero_task_def)
  ultimately have k6: "kinv s6 (L(Ready 0 := L (Ready 0) @ [i]))" by (simp add: kinv_def)
  have np: "\<not> pid_used s p"
  proof
    assume "pid_used s p"
    then obtain t where t: "t < TASK_MAX" "slot s t" "pid (tsk s t) = p" by (auto simp: pid_used_def list_ex_iff)
    then have "t \<noteq> i" using g(3) by auto
    then show False using p(4) [of t] t f3(1,2) by (simp add: s3b_def upd_task_def s2_def)
  qed
  have "do_fork atmem EZERO s = Some (Inr p, s6)"
    using c s3(1) p(1) s6(1) rq2
    by (simp add: do_fork_def g(1) Let_def s2_def [symmetric] s3b_def [symmetric] s5_def)
  then show ?thesis using k6 s6(2) ob p(2,3) np f6 t6 c by simp
qed

text \<open>\<^verbatim>\<open>fs_newtask\<close> overwrites the descriptor table, whatever \<^verbatim>\<open>*p = *curr\<close> put there.\<close>

lemma fs_newtask_overwrites:
  assumes "curr s = Some c" and "p \<noteq> c"
  shows "fs_newtask p (upd_task p (file_desc_update f) s) = fs_newtask p s"
  using assms by (simp add: fs_newtask_def upd_task_def Let_def)

definition creat_fields :: "tid \<Rightarrow> int \<Rightarrow> string \<Rightarrow> string \<Rightarrow> int \<Rightarrow> task \<Rightarrow> task" where
  "creat_fields c p fqn arg arg_size u = reset_signals (u\<lparr>parent := c, pid := p, time_slice := -1,
     alarm_repeat := 0, alarm := 0, unseen_events := 0, event_count := 0, first_event := 0, last_event := -1,
     pg_count := 0, exec_arg_size := arg_size, exec_name := fqn, exec_arg := arg\<rparr>)"

lemma task_creat_state:
  fixes s :: "'z fstate_scheme"
  assumes k: "kinv s L" and r: "running s L" and c: "curr s = Some c" and rf: "refs_ok s"
    and lp: "0 \<le> last_pid s" "last_pid s \<le> PID_MAX"
    and g: "task_getslot atmem s = (EZERO, Some i, with_slot i s)" "i < TASK_MAX" "\<not> slot s i"
    and q: "fs_fqname (cwd (tsk s c)) (tty (tsk s c)) name = Inr fqn"
  shows "\<exists>p s'. task_creat atmem EZERO name arg n s = Some (Inr p, s') \<and>
           kinv s' (L(rq s c := L (rq s c) @ [i])) \<and> refs_ok s' \<and> 1 \<le> p \<and> p \<le> PID_MAX \<and> \<not> pid_used s p \<and>
           slot s' = (slot s)(i := True) \<and> curr s' = curr s \<and> init s' = init s \<and>
           (\<forall>t. t \<noteq> i \<longrightarrow> tsk s' t = tsk s t) \<and> tsk s' i = creat_fields c p fqn arg n (tsk s c)"
proof -
  have kc: "kcore s L" using k by (simp add: kinv_def)
  have ca: "c \<in> alive s" "paused (tsk s c) = 0" "\<forall>q. c \<notin> set (L q)" using running_not_queued [OF r c] by auto
  then have ic: "i \<noteq> c" using g(3) by (auto simp: alive_def)
  note w = with_slot_tq [OF k g(3)]
  have qc: "t_queue (with_slot i s) c = None" using tq_inv_noqueue [OF w(1), of c] ca(3) by simp
  define s2 where "s2 = upd_task i (parent_update (\<lambda>_. c)) (copy_task i c (with_slot i s))"
  have tq2: "tq_inv s2 L"
    by (rule tq_inv_detached [OF w]) (use qc in \<open>simp_all add: s2_def copy_task_def upd_task_def\<close>)
  have t2: "tsk s2 = (tsk s)(i := (tsk s c)\<lparr>parent := c\<rparr>)" "slot s2 = (slot s)(i := True)" "last_pid s2 = last_pid s"
    using ic by (simp_all add: s2_def copy_task_def upd_task_def)
  obtain p where p: "newpid s2 = Some (p, s2\<lparr>last_pid := p\<rparr>)" "1 \<le> p" "p \<le> PID_MAX"
      "\<And>t. t < TASK_MAX \<Longrightarrow> slot s2 t \<Longrightarrow> pid (tsk s2 t) \<noteq> p"
    using newpid_total [of s2] lp t2(3) by auto
  define s4 where "s4 = upd_task i (\<lambda>u. u\<lparr>pid := p, time_slice := -1, priority := priority (tsk s c),
      alarm_repeat := 0, alarm := 0, unseen_events := 0, event_count := 0, first_event := 0, last_event := -1,
      pg_count := 0\<rparr>) (s2\<lparr>last_pid := p\<rparr>)"
  define s5 where "s5 = upd_task i (\<lambda>u. u\<lparr>exec_arg_size := n, exec_name := fqn, exec_arg := arg\<rparr>) s4"
  define s5b where "s5b = upd_task i (file_desc_update (\<lambda>_ _. zero_desc)) s5"
  have f5: "slot s5b = (slot s)(i := True)" "curr s5b = Some c" "fs_file s5b = fs_file (with_slot i s)"
      "tsk s5b c = tsk s c" "\<And>t. t \<noteq> i \<Longrightarrow> tsk s5b t = tsk s t"
    using c ic by (simp_all add: s5b_def s5_def s4_def upd_task_def t2 s2_def copy_task_def)
  have fd5: "file_desc (tsk s5b i) = (\<lambda>_. zero_desc)" by (simp add: s5b_def upd_task_def)
  have rf5: "refs_ok s5b"
  proof -
    have "file_desc (tsk s5b t) = file_desc (tsk (with_slot i s) t)" for t
      using fd5 f5(5) [of t] by (cases "t = i") (simp_all add: zero_task_def)
    then show ?thesis using refs_ok_cong [of s5b "with_slot i s"] f5(1,3) refs_ok_with_slot [OF rf g(3)] by simp
  qed
  have "\<forall>d < OPEN_MAX. fds s5b i d = None" by (simp add: fds_def fd5 zero_desc_def)
  then obtain s6 ff where s6: "fs_newtask i s5b = Some s6" "refs_ok s6"
      "s6 = (upd_task i (\<lambda>u. u\<lparr>file_desc := file_desc (tsk s5b c), cwd := cwd (tsk s5b c),
              tty := tty (tsk s5b c), ocwd := ocwd (tsk s5b c)\<rparr>) s5b)\<lparr>fs_file := ff\<rparr>"
    using newtask_refs [OF rf5 f5(2) ic _ g(2)] f5(1) by auto
  have n5: "fs_newtask i s5 = Some s6"
    using s6(1) fs_newtask_overwrites [of s5 c i "\<lambda>_ _. zero_desc"] f5(2) ic
    by (simp add: s5b_def upd_task_def)
  define s7 where "s7 = upd_task i reset_signals s6"
  have t7: "tsk s7 = (tsk s)(i := creat_fields c p fqn arg n (tsk s c))"
    unfolding s7_def s6(3) using ic
    by (simp add: upd_task_def s5b_def s5_def s4_def t2 creat_fields_def fun_eq_iff)
  have f7: "slot s7 = (slot s)(i := True)" "curr s7 = Some c" "init s7 = init s" "task_count s7 = task_count s"
      "task_pcount s7 = task_pcount s"
    using c unfolding s7_def s6(3) by (simp_all add: upd_task_def s5b_def s5_def s4_def t2 s2_def copy_task_def)
  have tq7: "tq_inv s7 L"
    using tq2 unfolding s7_def s6(3) by (simp add: upd_task_def s5b_def s5_def s4_def cong: tq_inv_cong)
  have rq7: "rq s7 i = rq s c" by (simp add: rq_def t7 creat_fields_def reset_signals_def)
  obtain s8 where s8: "task_insert (rq s c) i s7 = Some s8" "tq_inv s8 (L(rq s c := L (rq s c) @ [i]))"
    using task_insert_inv [OF tq7 w(2)] by blast
  have st: "same_tasks s7 s8" using task_insert_frame [OF s8(1)] by (simp add: same_tasks_def)
  note f8 = same_tasks_fields [OF st]
  define s' where "s' = s8\<lparr>task_count := task_count s8 + 1\<rparr>"
  have f': "tsk s' = tsk s7" "slot s' = slot s7" "curr s' = curr s7" "init s' = init s7"
      "task_count s' = task_count s7 + 1" "task_pcount s' = task_pcount s7" "fs_file s' = fs_file s6"
    using f8 fs_of_more(1) [OF f8(12)] by (simp_all add: s'_def) (simp add: s7_def upd_task_def)
  have pr: "0 \<le> priority (tsk s c)" "priority (tsk s c) \<le> TASK_PRIO_LOW" using kcore_priority [OF kc ca(1)] by auto
  have "kcore s' (L(rq s c := L (rq s c) @ [i]))"
    unfolding rq_def using ic c ca pr
    by (intro kcore_new [OF kc g(2,3)])
      (auto simp: f' f7 t7 creat_fields_def reset_signals_def alive_def)
  then have k': "kinv s' (L(rq s c := L (rq s c) @ [i]))"
    using s8(2) by (simp add: kinv_def s'_def cong: tq_inv_cong)
  have rf': "refs_ok s'"
  proof -
    have "file_desc (tsk s' t) = file_desc (tsk s6 t)" for t
      unfolding f'(1) by (simp add: s7_def upd_task_def reset_signals_def)
    moreover have "slot s' = slot s6" unfolding f'(2) by (simp add: s7_def upd_task_def)
    ultimately show ?thesis using refs_ok_cong [of s' s6] f'(7) s6(2) by simp
  qed
  have np: "\<not> pid_used s p"
  proof
    assume "pid_used s p"
    then obtain t where t: "t < TASK_MAX" "slot s t" "pid (tsk s t) = p" by (auto simp: pid_used_def list_ex_iff)
    then have "t \<noteq> i" using g(3) by auto
    then show False using p(4) [of t] t t2(1,2) by simp
  qed
  have pc: "priority (tsk s2 c) = priority (tsk s c)" using t2(1) ic by simp
  have "task_creat atmem EZERO name arg n s = Some (Inr p, s')"
    using c p(1) n5 s8(1) rq7 pc
    by (simp add: task_creat_def q g(1) Let_def s2_def [symmetric] s4_def [symmetric] s5_def [symmetric]
        s7_def [symmetric] s'_def)
  then show ?thesis using k' rf' p(2,3) np f' f7 t7 c by simp
qed

section \<open>Exiting\<close>

text \<open>
  The family of tasks: init is alive, and the parent of every task in the table (a zombie included) is a
  task that is alive and so can wait for it.
\<close>

definition family :: "'z kstate_scheme \<Rightarrow> bool" where
  "family s \<longleftrightarrow> init s \<in> alive s \<and> (\<forall>t < TASK_MAX. slot s t \<longrightarrow> parent (tsk s t) \<in> alive s)"

text \<open>What the steps of exiting after the files are closed do to the tasks.\<close>

definition kstep ::
    "'z kstate_scheme \<Rightarrow> (qid \<Rightarrow> tid list) \<Rightarrow> 'z kstate_scheme \<Rightarrow> (qid \<Rightarrow> tid list) \<Rightarrow> bool" where
  "kstep s L s' L' \<longleftrightarrow>
     kinv s' L' \<and> slot s' = slot s \<and> curr s' = curr s \<and> init s' = init s \<and> alive s' = alive s \<and>
     (running s L \<longrightarrow> running s' L') \<and> kstate.more s' = kstate.more s \<and> (\<forall>u. file_desc (tsk s' u) = file_desc (tsk s u))"

lemma kstep_trans: "kstep s L s' L' \<Longrightarrow> kstep s' L' s'' L'' \<Longrightarrow> kstep s L s'' L''"
  by (simp add: kstep_def)

lemma kstep_refl: "kinv s L \<Longrightarrow> kstep s L s L"
  by (simp add: kstep_def)

lemma kstep_kinv: "kstep s L s' L' \<Longrightarrow> kinv s' L'"
  by (simp add: kstep_def)

lemma kstep_parent:
  assumes "kinv s L"
  shows "kstep s L (upd_task i (parent_update f) s) L"
proof -
  let ?s' = "upd_task i (parent_update f) s"
  have al: "alive ?s' = alive s" by (auto simp: alive_def upd_task_def)
  have sl: "sleeping ?s' = sleeping s" unfolding sleeping_def al by (auto simp: upd_task_def)
  have f: "exited (tsk ?s' u) = exited (tsk s u)" "paused (tsk ?s' u) = paused (tsk s u)"
      "priority (tsk ?s' u) = priority (tsk s u)" for u by (auto simp: upd_task_def)
  have "tq_inv ?s' L = tq_inv s L" by (rule tq_inv_cong) (simp_all add: upd_task_def)
  moreover have "kcore ?s' L = kcore s L" by (simp add: kcore_def al sl f) (simp add: upd_task_def)
  ultimately have "kinv ?s' L" using assms by (simp add: kinv_def)
  moreover have "running ?s' L = running s L"
    unfolding running_def al f by (simp add: upd_task_def)
  ultimately show ?thesis using al by (simp add: kstep_def) (simp add: upd_task_def)
qed

lemma send_kstep:
  assumes "kinv s L" and "p \<in> alive s"
  shows "\<exists>s' L'. map_option snd (signal_send_k p sig s) = Some s' \<and> kstep s L s' L' \<and>
           (\<forall>u. parent (tsk s' u) = parent (tsk s u))"
proof -
  obtain e s' L' where s': "signal_send_k p sig s = Some (e, s')" "evolves s L s' L'"
    using signal_send_k_evolves [OF assms(1), of p sig] assms(2) by (auto simp: alive_def)
  have "kstep s L s' L'"
    using s'(2) evolves_alive [OF s'(2)] signal_send_k_keeps [of file_desc, OF _ _ _ s'(1)]
    by (simp add: evolves_def kstep_def resumed_def)
  then show ?thesis using s' by (auto simp: evolves_def)
qed

lemma reparent_kstep:
  "kinv s L \<Longrightarrow> init s \<in> alive s \<Longrightarrow>
   \<exists>s' L'. reparent c is s = Some s' \<and> kstep s L s' L' \<and>
     (\<forall>u. parent (tsk s' u) = (if u \<in> set is \<and> slot s u \<and> parent (tsk s u) = c then init s else parent (tsk s u)))"
proof (induction "is" arbitrary: s L)
  case Nil
  then show ?case using kstep_refl [OF Nil.prems(1)] by auto
next
  case (Cons i "is")
  show ?case
  proof (cases "slot s i \<and> parent (tsk s i) = c")
    case False
    then show ?thesis using Cons.IH [OF Cons.prems] by auto
  next
    case True
    let ?s1 = "upd_task i (parent_update (\<lambda>_. init s)) s"
    have k1: "kstep s L ?s1 L" by (rule kstep_parent [OF Cons.prems(1)])
    have in1: "init ?s1 = init s" "init s \<in> alive ?s1" using k1 Cons.prems(2) by (simp_all add: kstep_def)
    obtain s2 L2 where s2: "(if exited (tsk ?s1 i) then map_option snd (signal_send_k (init ?s1) (int SIGCHLD) ?s1)
          else Some ?s1) = Some s2" "kstep ?s1 L s2 L2" "\<forall>u. parent (tsk s2 u) = parent (tsk ?s1 u)"
      using send_kstep [OF kstep_kinv [OF k1] in1(2), of "int SIGCHLD"] kstep_refl [OF kstep_kinv [OF k1]] in1(1)
      by (cases "exited (tsk ?s1 i)") auto
    have k2: "kstep s L s2 L2" by (rule kstep_trans [OF k1 s2(2)])
    have in2: "init s2 = init s" "init s2 \<in> alive s2" using k2 Cons.prems(2) by (simp_all add: kstep_def)
    obtain s3 L3 where s3: "reparent c is s2 = Some s3" "kstep s2 L2 s3 L3"
        "\<forall>u. parent (tsk s3 u) = (if u \<in> set is \<and> slot s2 u \<and> parent (tsk s2 u) = c then init s2 else parent (tsk s2 u))"
      using Cons.IH [OF kstep_kinv [OF k2] in2(2)] by blast
    have sl: "slot s2 = slot s" using k2 by (simp add: kstep_def)
    have "\<forall>u. parent (tsk s3 u) = (if u \<in> set (i # is) \<and> slot s u \<and> parent (tsk s u) = c then init s else parent (tsk s u))"
      using s3(3) s2(3) True sl in2(1) by (auto simp: upd_task_def)
    then show ?thesis using True s2(1) s3(1) kstep_trans [OF k2 s3(2)] by (auto simp: Let_def)
  qed
qed

lemma exit_notify_kstep:
  assumes "kinv s L" and "init s \<in> alive s" and "parent (tsk s c) \<in> alive s"
  shows "\<exists>s' L'. exit_notify c s = Some s' \<and> kstep s L s' L' \<and>
           (\<forall>u. u \<noteq> c \<longrightarrow> parent (tsk s' u) = parent (tsk s u)) \<and>
           (parent (tsk s' c) = parent (tsk s c) \<or> parent (tsk s' c) = init s)"
proof (cases "signal_handler (tsk s (parent (tsk s c))) (SIGCHLD - 1) \<noteq> SIG_IGN")
  case True
  then show ?thesis
    using send_kstep [OF assms(1,3), of "int SIGCHLD"] unfolding exit_notify_def if_P [OF True] by blast
next
  case False
  let ?s1 = "upd_task c (parent_update (\<lambda>_. init s)) s"
  have k1: "kstep s L ?s1 L" by (rule kstep_parent [OF assms(1)])
  then have "init s \<in> alive ?s1" using assms(2) by (simp add: kstep_def)
  then obtain s2 L2 where "map_option snd (signal_send_k (init s) (int SIGCHLD) ?s1) = Some s2" "kstep ?s1 L s2 L2"
      "\<forall>u. parent (tsk s2 u) = parent (tsk ?s1 u)"
    using send_kstep [OF kstep_kinv [OF k1]] by blast
  moreover from this have "kstep s L s2 L2" using kstep_trans [OF k1] by blast
  ultimately show ?thesis unfolding exit_notify_def if_not_P [OF False] by (auto simp: upd_task_def)
qed

lemma exit_mark_kinv:
  assumes "kinv s L" and "running s L" and "curr s = Some c"
  shows "kinv (exit_mark status c s) L" "alive (exit_mark status c s) = alive s - {c}" "0 \<le> task_count s - 1"
proof -
  have tq: "tq_inv s L" and kc: "kcore s L" using assms(1) by (auto simp: kinv_def)
  have c: "c \<in> alive s" "paused (tsk s c) = 0" "\<forall>q. c \<notin> set (L q)" using running_not_queued [OF assms(2,3)] by auto
  let ?s' = "exit_mark status c s"
  show al: "alive ?s' = alive s - {c}" by (auto simp: alive_def exit_mark_def upd_task_def)
  have f: "paused (tsk ?s' u) = paused (tsk s u)" "priority (tsk ?s' u) = priority (tsk s u)" for u
    by (auto simp: exit_mark_def upd_task_def)
  have sl: "sleeping ?s' = sleeping s" using c(2) unfolding sleeping_def al f by auto
  have cd: "card (alive s) = Suc (card (alive s - {c}))" using card_Suc_Diff1 [OF finite_alive c(1)] by simp
  show "0 \<le> task_count s - 1" using kcore_counts [OF kc] cd by simp
  have "kcore ?s' L"
  proof (rule kcoreI)
    show "task_count ?s' = int (card (alive ?s'))" "task_pcount ?s' = int (card (sleeping ?s'))"
      unfolding al sl using kcore_counts [OF kc] cd by (simp_all add: exit_mark_def upd_task_def)
  next
    fix q x assume x: "x \<in> set (L q)"
    then have "x \<noteq> c" using c(3) by auto
    then show "x \<in> alive ?s'" "\<not> is_ready q \<Longrightarrow> paused (tsk ?s' x) \<noteq> 0"
      using kcore_queued_alive [OF kc x] kcore_waiting [OF kc x] unfolding al f by auto
  next
    fix x assume "x \<in> alive ?s'" "paused (tsk ?s' x) = 0" "curr ?s' \<noteq> Some x"
    then show "\<exists>i. x \<in> set (L (Ready i))"
      using kcore_runnable [OF kc, of x] unfolding al f by (simp add: exit_mark_def upd_task_def)
  qed (use kcore_ready [OF kc] kcore_priority [OF kc] in \<open>auto simp: al f\<close>)
  moreover have "tq_inv ?s' L" using tq by (simp add: exit_mark_def upd_task_def cong: tq_inv_cong)
  ultimately show "kinv ?s' L" by (simp add: kinv_def)
qed

text \<open>\<^verbatim>\<open>task_exit\<close> from the moment when the files of the task are closed.\<close>

lemma exit_closed:
  assumes k: "kinv s L" "running s L" and c: "curr s = Some c" "c \<noteq> init s" and fam: "family s"
  shows "\<exists>r s' L'. do {
       s2 \<leftarrow> reparent c [0..<TASK_MAX] s;
       s3 \<leftarrow> exit_notify c s2;
       if task_count s3 - 1 < 0 then None else sched (exit_mark status c s3)
     } = Some (r, s') \<and> scheduled r s' L' \<and> exited (tsk s' c) \<and> exit_status (tsk s' c) = status \<and> slot s' = slot s \<and> init s' = init s \<and>
     alive s' = alive s - {c} \<and> curr s' \<noteq> Some c \<and> kstate.more s' = kstate.more s \<and> (\<forall>u. file_desc (tsk s' u) = file_desc (tsk s u)) \<and>
     (\<forall>u < TASK_MAX. slot s u \<longrightarrow> u \<noteq> c \<longrightarrow> parent (tsk s' u) = (if parent (tsk s u) = c then init s else parent (tsk s u))) \<and>
     parent (tsk s' c) \<in> {parent (tsk s c), init s} \<and> family s'"
proof -
  have ca: "c \<in> alive s" using running_not_queued [OF k(2) c(1)] by auto
  then have sc: "slot s c" "c < TASK_MAX" "\<not> exited (tsk s c)" by (simp_all add: alive_def)
  have in1: "init s \<in> alive s" using fam by (simp add: family_def)
  obtain s2 L2 where s2: "reparent c [0..<TASK_MAX] s = Some s2" "kstep s L s2 L2"
      "\<forall>u. parent (tsk s2 u) = (if u \<in> set [0..<TASK_MAX] \<and> slot s u \<and> parent (tsk s u) = c then init s else parent (tsk s u))"
    using reparent_kstep [OF k(1) in1] by blast
  have f2: "slot s2 = slot s" "init s2 = init s" "alive s2 = alive s" "curr s2 = Some c"
    using s2(2) c by (simp_all add: kstep_def)
  have p2: "parent (tsk s2 u) \<in> alive s - {c}" if "u < TASK_MAX" "slot s u" for u
    using s2(3) that fam c(2) by (auto simp: family_def)
  have in2: "init s2 \<in> alive s2" "parent (tsk s2 c) \<in> alive s2" using fam f2 p2 sc by (auto simp: family_def)
  obtain s3 L3 where s3: "exit_notify c s2 = Some s3" "kstep s2 L2 s3 L3"
      "\<forall>u. u \<noteq> c \<longrightarrow> parent (tsk s3 u) = parent (tsk s2 u)"
      "parent (tsk s3 c) = parent (tsk s2 c) \<or> parent (tsk s3 c) = init s2"
    using exit_notify_kstep [OF kstep_kinv [OF s2(2)] in2] by blast
  have k3: "kstep s L s3 L3" by (rule kstep_trans [OF s2(2) s3(2)])
  have r3: "kinv s3 L3" "running s3 L3" "curr s3 = Some c" "slot s3 = slot s" "init s3 = init s" "alive s3 = alive s"
      "kstate.more s3 = kstate.more s" "\<And>u. file_desc (tsk s3 u) = file_desc (tsk s u)"
    using k3 k c by (simp_all add: kstep_def)
  let ?s4 = "exit_mark status c s3"
  note k4 = exit_mark_kinv [OF r3(1-3)]
  have f4: "curr ?s4 = Some c" "slot ?s4 = slot s" "init ?s4 = init s" "exited (tsk ?s4 c)" "exit_status (tsk ?s4 c) = status"
      "\<And>u. parent (tsk ?s4 u) = parent (tsk s3 u)" "kstate.more ?s4 = kstate.more s" "\<And>u. file_desc (tsk ?s4 u) = file_desc (tsk s u)"
    using r3 by (simp_all add: exit_mark_def upd_task_def)
  have al4: "alive ?s4 = alive s - {c}" using k4(2) r3(6) by simp
  obtain r' s' L' where s': "sched ?s4 = Some (r', s')" "scheduled r' s' L'" "slot s' = slot ?s4"
      "\<forall>u. tsk s' u = (tsk ?s4 u)\<lparr>time_slice := time_slice (tsk s' u)\<rparr>"
    using sched_kinv [OF k4(1) f4(1)] f4(2) sc al4 by auto
  have t': "exited (tsk s' u) = exited (tsk ?s4 u)" "exit_status (tsk s' u) = exit_status (tsk ?s4 u)"
      "parent (tsk s' u) = parent (tsk ?s4 u)" "file_desc (tsk s' u) = file_desc (tsk ?s4 u)" for u
    by (subst s'(4) [rule_format], simp)+
  have al': "alive s' = alive s - {c}" using al4 s'(3) t'(1) by (simp add: alive_def)
  have in': "init s' = init s" "kstate.more s' = kstate.more s" using sched_kept [OF s'(1)] f4(3,7) by simp_all
  have cu: "curr s' \<noteq> Some c"
    using s'(2) al' by (cases r') (auto simp: scheduled_def running_def split: option.splits)
  have fm: "family s'"
    unfolding family_def al' in'(1) s'(3) f4(2) t'(3) f4(6)
    using p2 s3(3,4) fam c(2) f2(2) by (metis DiffI family_def singletonD)
  have "parent (tsk s c) \<noteq> c" if "parent (tsk s2 c) = parent (tsk s c)" using p2 [OF sc(2,1)] that by auto
  then have pc: "parent (tsk s' c) \<in> {parent (tsk s c), init s}"
    using s3(4) s2(3) f2(2) unfolding t'(3) f4(6) by (auto split: if_splits)
  have pu: "parent (tsk s' u) = (if parent (tsk s u) = c then init s else parent (tsk s u))" if "u < TASK_MAX" "slot s u" "u \<noteq> c" for u
    using s3(3) s2(3) that unfolding t'(3) f4(6) by auto
  show ?thesis
    using s2(1) s3(1) k4(3) s'(1-3) f4(2,4,5,8) t'(1,2,4) al' in' cu fm pc pu by (intro exI [of _ r'] exI [of _ s'] exI [of _ L']) simp
qed

lemma task_exit_state:
  fixes s :: "'z fstate_scheme"
  assumes d: "fso_driver putfso I" "I s" and k: "kinv s L" and r: "running s L" and c: "curr s = Some c" "c \<noteq> init s"
    and fam: "family s" and rf: "refs_ok s" "objs_ok s"
  shows "\<exists>r s' L'. task_exit putfso status s = Some (r, s') \<and> scheduled r s' L' \<and>
           exited (tsk s' c) \<and> exit_status (tsk s' c) = status \<and> alive s' = alive s - {c} \<and> curr s' \<noteq> Some c \<and>
           family s' \<and> refs_ok s' \<and> objs_ok s' \<and> other_refs s' = other_refs s \<and>
           (\<forall>t d. fds s' t d = (if t = c \<and> d < OPEN_MAX then None else fds s t d)) \<and>
           (\<forall>t < TASK_MAX. slot s t \<longrightarrow> t \<noteq> c \<longrightarrow> parent (tsk s' t) = (if parent (tsk s t) = c then init s else parent (tsk s t))) \<and>
           parent (tsk s' c) \<in> {parent (tsk s c), init s}"
proof -
  have ca: "c \<in> alive s" using running_not_queued [OF r c(1)] by auto
  then have sc: "slot s c" "c < TASK_MAX" "\<not> exited (tsk s c)" by (simp_all add: alive_def)
  obtain s1 where s1: "fs_clean putfso s = Some s1" "moves s s1" "refs_ok s1" "objs_ok s1" "other_refs s1 = other_refs s"
      "\<forall>t d. fds s1 t d = (if t = c \<and> d < OPEN_MAX then None else fds s t d)"
    using fso_driver.clean_works [OF d rf c(1) sc(1,2)] by blast
  obtain L1 where e1: "evolves s L s1 L1" using s1(2) k by (auto simp: moves_def)
  have f1: "kinv s1 L1" "running s1 L1" "curr s1 = Some c" "c \<noteq> init s1" "init s1 = init s" "slot s1 = slot s" "alive s1 = alive s"
      "\<And>u. parent (tsk s1 u) = parent (tsk s u)"
    using e1 r c evolves_alive [OF e1] by (simp_all add: evolves_def)
  have fam1: "family s1" using fam f1(5-8) by (simp add: family_def)
  obtain r' s' L' where s': "do {
       s2 \<leftarrow> reparent c [0..<TASK_MAX] s1;
       s3 \<leftarrow> exit_notify c s2;
       if task_count s3 - 1 < 0 then None else sched (exit_mark status c s3)
     } = Some (r', s')" "scheduled r' s' L'" "exited (tsk s' c)" "exit_status (tsk s' c) = status" "slot s' = slot s1"
     "alive s' = alive s1 - {c}" "curr s' \<noteq> Some c" "kstate.more s' = kstate.more s1" "\<forall>u. file_desc (tsk s' u) = file_desc (tsk s1 u)"
     "\<forall>u < TASK_MAX. slot s1 u \<longrightarrow> u \<noteq> c \<longrightarrow> parent (tsk s' u) = (if parent (tsk s1 u) = c then init s1 else parent (tsk s1 u))"
     "parent (tsk s' c) \<in> {parent (tsk s1 c), init s1}" "family s'"
    using exit_closed [OF f1(1-4) fam1, of status] by metis
  have t: "fs_file s' = fs_file s1" "fs_fso s' = fs_fso s1" "fds s' = fds s1"
    using fs_of_more [OF s'(8)] s'(9) by (simp_all add: fds_def fun_eq_iff)
  have "refs_ok s'" using s1(3) refs_ok_cong [OF t(1) s'(5)] s'(9) by simp
  moreover have "objs_ok s'" "other_refs s' = other_refs s"
    using s1(4,5) by (simp_all add: objs_ok_def other_refs_def fso_refs_def t fun_eq_iff)
  moreover have "task_exit putfso status s = Some (r', s')"
    using c sc(3) s1(1) s'(1) by (simp add: task_exit_def)
  ultimately show ?thesis using s'(2-4,6,7,10-12) s1(6) f1(5-8) t(3) by (intro exI [of _ r'] exI [of _ s'] exI [of _ L']) simp
qed

section \<open>Correctness\<close>

text \<open>
  C10: A fork creates exactly one task. If the table has a free slot and memory is available, \<^verbatim>\<open>do_fork\<close>
  returns a process identifier that no task had; the child is in the table, alive, a child of the caller,
  with its user, signal handlers, working directory and all its descriptors; every open file counts the new descriptors and
  every object has the references that it had; no other task changes, every task still has a parent that is alive, and the
  scheduler's invariant is kept, the child being on the ready queue of the highest priority.
\<close>

theorem do_fork_child:
  fixes s :: "'z fstate_scheme"
  assumes "kinv s L" and "running s L" and "curr s = Some c" and "refs_ok s" and "objs_ok s" and "family s"
    and "0 \<le> last_pid s" and "last_pid s \<le> PID_MAX" and "\<exists>i < TASK_MAX. \<not> slot s i" and "\<forall>i. atmem i = EZERO"
  shows "\<exists>p i s' L'. do_fork atmem EZERO s = Some (Inr p, s') \<and> kinv s' L' \<and> refs_ok s' \<and> objs_ok s' \<and> other_refs s' = other_refs s \<and> family s' \<and>
           \<not> slot s i \<and> slot s' = (slot s)(i := True) \<and> (\<forall>t. t \<noteq> i \<longrightarrow> tsk s' t = tsk s t) \<and>
           1 \<le> p \<and> p \<le> PID_MAX \<and> \<not> pid_used s p \<and> pid (tsk s' i) = p \<and> parent (tsk s' i) = c \<and>
           i \<in> alive s' \<and> i \<in> set (L' (Ready 0)) \<and> euid (tsk s' i) = euid (tsk s c) \<and>
           (\<forall>k < SIGMAX. signal_handler (tsk s' i) k = signal_handler (tsk s c) k) \<and>
           (\<forall>d. fds s' i d = fds s c d) \<and> cwd (tsk s' i) = cwd (tsk s c)"
proof -
  obtain i where i: "task_getslot atmem s = (EZERO, Some i, with_slot i s)" "i < TASK_MAX" "\<not> slot s i"
    using getslot_cases [of atmem s] assms(9,10) unfolding with_slot_def by metis
  obtain p s' where s': "do_fork atmem EZERO s = Some (Inr p, s')" "kinv s' (L(Ready 0 := L (Ready 0) @ [i]))" "refs_ok s'" "objs_ok s' = objs_ok s"
      "other_refs s' = other_refs s" "1 \<le> p" "p \<le> PID_MAX" "\<not> pid_used s p" "slot s' = (slot s)(i := True)" "init s' = init s"
      "\<forall>t. t \<noteq> i \<longrightarrow> tsk s' t = tsk s t"
      "tsk s' i = (fork_fields (tsk s c) (zero_task\<lparr>parent := c, pid := p\<rparr>))\<lparr>file_desc := file_desc (tsk s c),
              cwd := cwd (tsk s c), tty := tty (tsk s c), ocwd := ocwd (tsk s c)\<rparr>"
    using do_fork_state [OF assms(1-4,7,8) i] by blast
  have f: "pid (tsk s' i) = p" "parent (tsk s' i) = c" "\<not> exited (tsk s' i)" "euid (tsk s' i) = euid (tsk s c)"
      "\<forall>k < SIGMAX. signal_handler (tsk s' i) k = signal_handler (tsk s c) k" "fds s' i d = fds s c d" "cwd (tsk s' i) = cwd (tsk s c)" for d
    unfolding s'(12) fds_def by (simp_all add: fork_fields_def zero_task_def)
  have al: "alive s' = insert i (alive s)" using s'(9,11) f(3) i(2,3) by (auto simp: alive_def)
  have "c \<in> alive s" using running_not_queued [OF assms(2,3)] by simp
  then have "family s'" using assms(6) s'(9-11) f(2) unfolding family_def al by auto
  then show ?thesis using s' assms(5) f i(3) al
    by (intro exI [of _ p] exI [of _ i] exI [of _ s'] exI [of _ "L(Ready 0 := L (Ready 0) @ [i])"]) simp
qed

text \<open>
  A created task starts in the class of its parent: \<^verbatim>\<open>task_creat\<close> returns a fresh process identifier
  and leaves one new task, queued at the parent's priority, with the name to execute
  qualified, caught signals reset to their default, ignored ones still ignored, no alarm and an empty,
  consistent event queue; counts of open files and the scheduler's invariant are kept.
\<close>

theorem task_creat_child:
  fixes s :: "'z fstate_scheme"
  assumes "kinv s L" and "running s L" and "curr s = Some c" and "refs_ok s"
    and "0 \<le> last_pid s" and "last_pid s \<le> PID_MAX" and "\<exists>i < TASK_MAX. \<not> slot s i" and "\<forall>i. atmem i = EZERO"
    and "fs_fqname (cwd (tsk s c)) (tty (tsk s c)) name = Inr fqn"
  shows "\<exists>p i s'. task_creat atmem EZERO name arg n s = Some (Inr p, s') \<and>
           kinv s' (L(rq s c := L (rq s c) @ [i])) \<and> refs_ok s' \<and> \<not> slot s i \<and> slot s' = (slot s)(i := True) \<and>
           (\<forall>t. t \<noteq> i \<longrightarrow> tsk s' t = tsk s t) \<and> \<not> pid_used s p \<and> pid (tsk s' i) = p \<and> parent (tsk s' i) = c \<and>
           exec_name (tsk s' i) = fqn \<and> alarm (tsk s' i) = 0 \<and> ring (tsk s' i) \<and> evq (tsk s' i) = [] \<and>
           (\<forall>k < SIGMAX. signal_handler (tsk s' i) k =
              (if signal_handler (tsk s c) k = SIG_IGN then SIG_IGN else SIG_DFL)) \<and>
           (\<forall>d. fds s' i d = fds s c d)"
proof -
  obtain i where i: "task_getslot atmem s = (EZERO, Some i, with_slot i s)" "i < TASK_MAX" "\<not> slot s i"
    using getslot_cases [of atmem s] assms(7,8) unfolding with_slot_def by metis
  show ?thesis
    using task_creat_state [OF assms(1-6) i assms(9), of arg n] i(3)
    by (auto simp: creat_fields_def reset_signals_def fds_def ring_def evq_def intro!: exI [of _ i])
qed

text \<open>
  C11: A task that exits is gone for good. When a task other than init exits, \<^verbatim>\<open>task_exit\<close> closes all its
  descriptors and no other, the counts of open files and objects following exactly, hands exactly its children to init, records
  the status and gives the processor to another task (or halts it), never coming back: it does not panic, the task is not alive and does
  not run, exactly one task fewer is alive, the scheduler's invariant holds and every task left in the table, zombies
  included, has a parent that is alive. The file systems of the open files are those of an \<open>fso_driver\<close>.
\<close>

theorem task_exit_final:
  fixes s :: "'z fstate_scheme"
  assumes "fso_driver putfso I" and "I s" and "kinv s L" and "running s L" and "curr s = Some c" and "c \<noteq> init s"
    and "family s" and "refs_ok s" and "objs_ok s"
  shows "\<exists>r s' L'. task_exit putfso status s = Some (r, s') \<and> scheduled r s' L' \<and>
           exited (tsk s' c) \<and> exit_status (tsk s' c) = status \<and> alive s' = alive s - {c} \<and> curr s' \<noteq> Some c \<and>
           family s' \<and> refs_ok s' \<and> objs_ok s' \<and> other_refs s' = other_refs s \<and>
           (\<forall>t d. fds s' t d = (if t = c \<and> d < OPEN_MAX then None else fds s t d)) \<and>
           (\<forall>t < TASK_MAX. slot s t \<longrightarrow> t \<noteq> c \<longrightarrow> parent (tsk s' t) = (if parent (tsk s t) = c then init s else parent (tsk s t))) \<and>
           parent (tsk s' c) \<in> {parent (tsk s c), init s}"
  by (rule task_exit_state [OF assms])

text \<open>
  \<^verbatim>\<open>__xwait\<close> reaps. If the caller has an exited child that it waits for, the status, name and pid of
  such a child are returned and its slot is freed, with the invariant and the family intact; with no
  child at all the result is \<^verbatim>\<open>ECHILD\<close> and nothing changes.
\<close>

theorem xwait_reaps:
  assumes "kinv s L" and "family s" and "curr s = Some c"
  shows "if \<exists>i < TASK_MAX. is_child p c s i \<and> exited (tsk s i) then
           \<exists>j s'. sys_xwait tq EZERO p nohang s =
               Some (Inl (Inr (Some \<lparr>xs_exec_name = exec_name (tsk s j), xs_status = exit_status (tsk s j),
                                    xs_pid = pid (tsk s j)\<rparr>)), s') \<and>
             is_child p c s j \<and> exited (tsk s j) \<and> slot s' = (slot s)(j := False) \<and> kinv s' L \<and> family s'
         else (\<forall>i < TASK_MAX. \<not> is_child p c s i) \<longrightarrow> sys_xwait tq EZERO p nohang s = Some (Inl (Inl ECHILD), s)"
proof (cases "\<exists>i < TASK_MAX. is_child p c s i \<and> exited (tsk s i)")
  case True
  then obtain j where j: "List.find (\<lambda>i. is_child p c s i \<and> exited (tsk s i)) [0..<TASK_MAX] = Some j"
    by (metis find_upt_None_iff not_None_eq)
  then have je: "is_child p c s j" "exited (tsk s j)" by (auto simp: find_upt_Some_iff)
  let ?s' = "task_putslot j s"
  have f: "tsk ?s' = tsk s" "slot ?s' = (slot s)(j := False)" "init ?s' = init s" by (simp_all add: task_putslot_def)
  have al: "alive ?s' = alive s" using je(2) by (auto simp: alive_def f)
  have sl: "sleeping ?s' = sleeping s" by (simp add: sleeping_def al f)
  have "kcore ?s' L = kcore s L" by (simp add: kcore_def al sl f) (simp add: task_putslot_def)
  moreover have "tq_inv ?s' L = tq_inv s L" by (rule tq_inv_cong) (simp_all add: task_putslot_def)
  ultimately have "kinv ?s' L" using assms(1) by (simp add: kinv_def)
  moreover have "family ?s'" using assms(2) by (auto simp: family_def al f)
  ultimately show ?thesis
    using True j je assms(3) f by (auto simp: sys_xwait_def intro!: exI [of _ j] exI [of _ ?s'])
next
  case False
  have "sys_xwait tq EZERO p nohang s = Some (Inl (Inl ECHILD), s)" if n: "\<forall>i < TASK_MAX. \<not> is_child p c s i"
  proof -
    have "List.find (\<lambda>i. is_child p c s i \<and> exited (tsk s i)) [0..<TASK_MAX] = None"
      using n by (auto simp: find_upt_None_iff)
    moreover have "\<not> list_ex (is_child p c s) [0..<TASK_MAX]" using n by (auto simp: list_ex_iff)
    ultimately show ?thesis using assms(3) by (simp add: sys_xwait_def)
  qed
  then show ?thesis unfolding if_not_P [OF False] by blast
qed

lemma wrap32_id: "- (2 ^ 31) \<le> x \<Longrightarrow> x < 2 ^ 31 \<Longrightarrow> wrap32 x = x"
  by (simp add: wrap32_def)

text \<open>
  \<^verbatim>\<open>nice\<close> keeps priorities legal, and an unprivileged task cannot improve its own with it, as
  long as the increment is small enough for the addition not to overflow.
\<close>

theorem nice_bounds:
  assumes "curr s = Some c" and "0 \<le> priority (tsk s c)" and "priority (tsk s c) \<le> TASK_PRIO_LOW"
    and "- (2 ^ 31) \<le> inc" and "inc < 2 ^ 31 - 64"
  shows "\<exists>r s'. sys_nice inc s = Some (r, s') \<and>
           0 \<le> priority (tsk s' c) \<and> priority (tsk s' c) \<le> TASK_PRIO_LOW \<and>
           (euid (tsk s c) \<noteq> 0 \<longrightarrow> priority (tsk s c) \<le> priority (tsk s' c))"
proof -
  have w: "wrap32 (priority (tsk s c) + inc) = priority (tsk s c) + inc"
    using assms(2-5) by (intro wrap32_id) auto
  show ?thesis
    using assms by (auto simp: sys_nice_def task_set_prio_def Let_def w upd_task_def)
qed

text \<open>The overflow: an unprivileged task at the default priority asks for the best one, 0.\<close>

lemma nice_overflow:
  assumes "curr s = Some c" and "priority (tsk s c) = TASK_PRIO_USER" and "euid (tsk s c) \<noteq> 0"
  shows "\<exists>s'. sys_nice (2 ^ 31 - 1) s = Some (Inr TASK_PRIO_USER, s') \<and> priority (tsk s' c) = 0"
proof -
  have "wrap32 (TASK_PRIO_USER + (2 ^ 31 - 1)) < 0" by (simp add: wrap32_def)
  then show ?thesis using assms by (simp add: sys_nice_def task_set_prio_def Let_def upd_task_def)
qed

text \<open>
  The event queue of a forked task. \<^verbatim>\<open>do_fork\<close> leaves \<^verbatim>\<open>last_event\<close> at 0 where \<^verbatim>\<open>task_init\<close> and \<^verbatim>\<open>task_creat\<close>
  set it to -1, so the first event is stored in slot 1 while the queue starts at slot 0: what
  the child reads is the zeroed slot, not the event.
\<close>

lemma fork_misreads_event:
  "evq (queued_event e (fork_fields u (zero_task\<lparr>parent := c, pid := p\<rparr>))) = [zero_event]"
  by (simp add: evq_def queued_event_def fork_fields_def zero_task_def Let_def)

section \<open>Witnesses\<close>

text \<open>
  The example of open files again; in \<open>example_family\<close> task 2 is init, so that the running task 0 may exit,
  and in \<open>example_zombie\<close> task 1 has exited.
\<close>

definition example_family :: fstate where
  "example_family = example_files\<lparr>init := 2\<rparr>"

definition example_zombie :: kstate where
  "example_zombie = boot_state\<lparr>slot := (\<lambda>i. i < 2),
     tsk := (\<lambda>_. zero_task)(0 := boot_task, 1 := boot_task\<lparr>pid := 7, exited := True, exit_status := 256\<rparr>)\<rparr>"

lemmas example_files_defs = example_files_def example_family_def kstate.extend_def kstate.defs example_defs

lemma example_files_kinv:
  "kinv example_files example_queues" "running example_files example_queues"
  "kinv example_family example_queues" "running example_family example_queues"
proof -
  have a: "alive example_files = {0, 1, 2}" "alive example_family = {0, 1, 2}"
    by (auto simp: alive_def example_files_defs)
  have b: "sleeping example_files = {2}" "sleeping example_family = {2}"
    unfolding sleeping_def a by (auto simp: example_files_defs)
  show "kinv example_files example_queues" "kinv example_family example_queues"
    unfolding kinv_def kcore_def a b by (auto simp: tq_inv_def example_files_defs)
  show "running example_files example_queues" "running example_family example_queues"
    unfolding running_def a by (auto simp: example_files_defs)
qed

lemma example_family_ok:
  "family example_family" "curr example_family = Some 0" "0 \<noteq> init example_family"
  "refs_ok example_family" "objs_ok example_family"
proof -
  have "alive example_family = {0, 1, 2}" by (auto simp: alive_def example_files_defs)
  then show "family example_family" by (auto simp: family_def example_files_defs)
  show "curr example_family = Some 0" "0 \<noteq> init example_family" by (simp_all add: example_files_defs)
  have f: "fs_file example_family = fs_file example_files" "fs_fso example_family = fs_fso example_files"
      "slot example_family = slot example_files" "fds example_family = fds example_files"
    by (simp_all add: example_family_def fds_def fun_eq_iff)
  show "refs_ok example_family" using example_refs(1) unfolding refs_ok_def file_refs_def f .
  show "objs_ok example_family" using example_refs(2) unfolding objs_ok_def fso_refs_def f .
qed

theorem do_fork_child_witness:
  "\<exists>p i s'. do_fork (\<lambda>_. EZERO) EZERO example_family = Some (Inr p, s') \<and> refs_ok s' \<and> family s' \<and> parent (tsk s' i) = 0 \<and>
     fds s' i 3 = Some 5"
proof -
  have "\<not> slot example_family 3" by (simp add: example_files_defs)
  then have e: "\<exists>i < TASK_MAX. \<not> slot example_family i" by (intro exI [of _ 3]) simp
  have l: "0 \<le> last_pid example_family" "last_pid example_family \<le> PID_MAX" by (simp_all add: example_files_defs)
  have "fds example_family = fds example_files" by (simp add: example_family_def fds_def fun_eq_iff)
  then show ?thesis
    using do_fork_child [OF example_files_kinv(3,4) example_family_ok(2,4,5,1) l e, of "\<lambda>_. EZERO"]
    by (fastforce simp: example_fds)
qed

theorem task_creat_child_witness:
  "\<exists>p i s'. task_creat (\<lambda>_. EZERO) EZERO ''/bin/sh'' ''x'' 1 example_files = Some (Inr p, s') \<and>
     exec_name (tsk s' i) = ''/bin/sh'' \<and> fds s' i 3 = Some 5"
proof -
  have e: "\<exists>i < TASK_MAX. \<not> slot example_files i" by (intro exI [of _ 3]) (simp add: example_files_simps)
  have l: "0 \<le> last_pid example_files" "last_pid example_files \<le> PID_MAX" by (simp_all add: example_files_defs)
  have c: "cwd (tsk example_files 0) = []" "tty (tsk example_files 0) = []" by (simp_all add: example_files_defs)
  have q: "fs_fqname (cwd (tsk example_files 0)) (tty (tsk example_files 0)) ''/bin/sh'' = Inr ''/bin/sh''"
    unfolding c by (simp add: fs_fqname_def fq_loop.simps)
  show ?thesis
    using task_creat_child [OF example_files_kinv(1,2) example_files_simps(2) example_refs(1) l e _ q, of "\<lambda>_. EZERO" "''x''" 1]
    by (fastforce simp: example_fds)
qed

theorem task_exit_final_witness:
  "\<exists>r s' L'. task_exit pipe_putfso 256 example_family = Some (r, s') \<and> scheduled r s' L' \<and>
     exited (tsk s' 0) \<and> family s' \<and> fds s' 0 3 = None \<and> parent (tsk s' 1) = 2"
proof -
  have p: "slot example_family 1" "parent (tsk example_family 1) = 0" "init example_family = 2" by (simp_all add: example_files_defs)
  obtain r s' L' where s': "task_exit pipe_putfso 256 example_family = Some (r, s')" "scheduled r s' L'" "exited (tsk s' 0)" "family s'"
      "\<forall>t d. fds s' t d = (if t = 0 \<and> d < OPEN_MAX then None else fds example_family t d)"
      "\<forall>t < TASK_MAX. slot example_family t \<longrightarrow> t \<noteq> 0 \<longrightarrow>
         parent (tsk s' t) = (if parent (tsk example_family t) = 0 then init example_family else parent (tsk example_family t))"
    using task_exit_final [OF pipe_driver.fso_driver_axioms TrueI example_files_kinv(3,4) example_family_ok(2,3,1,4,5), of 256] by blast
  have "fds s' 0 3 = None" using s'(5) by simp
  moreover have "parent (tsk s' 1) = 2" using s'(6) p by auto
  ultimately show ?thesis using s'(1-4) by blast
qed

lemma example_zombie_ok: "kinv example_zombie (\<lambda>_. [])" "family example_zombie" "curr example_zombie = Some 0"
proof -
  have a: "alive example_zombie = {0}" by (auto simp: alive_def example_zombie_def example_defs)
  have b: "sleeping example_zombie = {}" unfolding sleeping_def a by (simp add: example_zombie_def example_defs)
  show "kinv example_zombie (\<lambda>_. [])"
    unfolding kinv_def kcore_def a b by (auto simp: tq_inv_def example_zombie_def example_defs)
  show "family example_zombie" unfolding family_def a by (auto simp: example_zombie_def example_defs)
  show "curr example_zombie = Some 0" by (simp add: example_zombie_def example_defs)
qed

theorem xwait_reaps_witness:
  "\<exists>j s'. sys_xwait (Waitq 9) EZERO 7 False example_zombie =
     Some (Inl (Inr (Some \<lparr>xs_exec_name = exec_name (tsk example_zombie j),
        xs_status = exit_status (tsk example_zombie j), xs_pid = pid (tsk example_zombie j)\<rparr>)), s') \<and>
     slot s' = (slot example_zombie)(j := False)"
proof -
  have "is_child 7 0 example_zombie 1 \<and> exited (tsk example_zombie 1)"
    by (simp add: is_child_def example_zombie_def example_defs)
  then have "\<exists>i < TASK_MAX. is_child 7 0 example_zombie i \<and> exited (tsk example_zombie i)"
    by (intro exI [of _ 1]) simp
  then show ?thesis using xwait_reaps [OF example_zombie_ok, of 7 "Waitq 9" False] by auto
qed

theorem nice_bounds_witness:
  "\<exists>r s'. sys_nice 5 boot_state = Some (r, s') \<and> priority (tsk s' 0) \<le> TASK_PRIO_LOW"
  using nice_bounds [of boot_state 0 5] by (auto simp: boot_state_def boot_task_def)

end
