(* ===== verification/Ring_Buffer.thy ===== *)
theory Ring_Buffer
  imports Kernel_Prelude
begin

text \<open>
  Bytes in a ring buffer that are copied in and out with two calls of \<^verbatim>\<open>memcpy\<close> where they wrap around, as
  pipes (\<^verbatim>\<open>kern/fs/pipe.c\<close>) and message queues (\<^verbatim>\<open>kern/mqueue.c\<close>) do.
\<close>

text \<open>\<^verbatim>\<open>memcpy(buf + off, bs, length bs)\<close>\<close>

definition memcpy_in :: "'a list \<Rightarrow> nat \<Rightarrow> 'a list \<Rightarrow> 'a list" where
  "memcpy_in buf off bs = take off buf @ bs @ drop (off + length bs) buf"

text \<open>The \<open>n\<close> bytes of a ring buffer from position \<open>r\<close> on.\<close>

definition ring_from :: "'a list \<Rightarrow> nat \<Rightarrow> nat \<Rightarrow> 'a list" where
  "ring_from buf r n = map (\<lambda>k. buf ! ((r + k) mod length buf)) [0..<n]"

lemma length_ring_from [simp]: "length (ring_from buf r n) = n"
  by (simp add: ring_from_def)

lemma nth_ring_from [simp]: "k < n \<Longrightarrow> ring_from buf r n ! k = buf ! ((r + k) mod length buf)"
  by (simp add: ring_from_def)

lemma mod_once: "(a :: nat) < 2 * N \<Longrightarrow> a mod N = (if a < N then a else a - N)"
  by (simp add: mod_if)

lemma ring_take:
  assumes "r < length buf" and "c \<le> n" and "n \<le> length buf"
    and "l = (if c + r > length buf then length buf - r else c)"
  shows "take l (drop r buf) @ take (c - l) buf = take c (ring_from buf r n)"
proof (rule nth_equalityI)
  let ?N = "length buf"
  have l: "l \<le> c" "l + r \<le> ?N" "c - l \<le> ?N" "l < c \<Longrightarrow> l + r = ?N" using assms by auto
  show "length (take l (drop r buf) @ take (c - l) buf) = length (take c (ring_from buf r n))"
    using assms(2) l by simp
  fix k assume "k < length (take l (drop r buf) @ take (c - l) buf)"
  then have k: "k < c" using l by simp
  have "(r + k) mod ?N = (if k < l then r + k else k - l)"
    using k l assms(1-3) mod_once [of "r + k" ?N] by auto
  then show "(take l (drop r buf) @ take (c - l) buf) ! k = take c (ring_from buf r n) ! k"
    using k l assms(2) by (auto simp: nth_append)
qed

lemma ring_drop:
  assumes "c \<le> n"
  shows "ring_from buf ((r + c) mod length buf) (n - c) = drop c (ring_from buf r n)"
  using assms by (auto intro!: nth_equalityI simp: mod_add_left_eq add.assoc)

lemma length_memcpy_in: "off + length bs \<le> length buf \<Longrightarrow> length (memcpy_in buf off bs) = length buf"
  by (simp add: memcpy_in_def)

lemma nth_memcpy_in:
  "off + length bs \<le> length buf \<Longrightarrow> k < length buf \<Longrightarrow>
   memcpy_in buf off bs ! k = (if off \<le> k \<and> k < off + length bs then bs ! (k - off) else buf ! k)"
  by (auto simp: memcpy_in_def nth_append)

lemma ring_put:
  assumes "r < length buf" and "n + length bs \<le> length buf" and "w = (r + n) mod length buf"
    and "l = (if length bs + w > length buf then length buf - w else length bs)"
    and "buf' = memcpy_in (memcpy_in buf w (take l bs)) 0 (drop l bs)"
  shows "length buf' = length buf \<and> ring_from buf' r (n + length bs) = ring_from buf r n @ bs"
proof -
  let ?N = "length buf"
  have w: "w < ?N" using assms(1,3) by (metis mod_less_divisor less_nat_zero_code not_gr_zero)
  have l: "l \<le> length bs" "w + l \<le> ?N" "length bs - l \<le> ?N" using assms(2,4) w by (auto split: if_splits)
  have len1: "length (memcpy_in buf w (take l bs)) = ?N" using l by (intro length_memcpy_in) simp
  have len: "length buf' = ?N" unfolding assms(5) using l len1 length_memcpy_in [of 0 "drop l bs"] by simp
  have nth: "buf' ! k = (if k < length bs - l then bs ! (l + k) else if w \<le> k \<and> k < w + l then bs ! (k - w) else buf ! k)"
    if "k < ?N" for k
    using that l len1 unfolding assms(5) by (subst nth_memcpy_in) (auto simp: nth_memcpy_in add.commute)
  have "ring_from buf' r (n + length bs) ! k = (ring_from buf r n @ bs) ! k" if k: "k < n + length bs" for k
  proof -
    have m: "(r + k) mod ?N = (if r + k < ?N then r + k else r + k - ?N)" using k assms(1,2) by (intro mod_once) simp
    have w': "w = (if r + n < ?N then r + n else r + n - ?N)"
      unfolding assms(3) using assms(1,2) by (intro mod_once) simp
    have lt: "(r + k) mod ?N < ?N" using assms(1) by (intro mod_less_divisor) auto
    show ?thesis
    proof (cases "k < n")
      case True
      then have "\<not> (r + k) mod ?N < length bs - l" "\<not> (w \<le> (r + k) mod ?N \<and> (r + k) mod ?N < w + l)"
        using m w' assms(1,2,4) by (auto split: if_splits)
      then show ?thesis using True k nth [OF lt] by (auto simp: len nth_append)
    next
      case False
      define j where "j = k - n"
      have j: "k = n + j" "j < length bs" using False k by (auto simp: j_def)
      have "(r + k) mod ?N = (if j < l then w + j else j - l)"
        using m w' w assms(1,2,4) j by (auto split: if_splits)
      then have "buf' ! ((r + k) mod ?N) = bs ! j" using nth [OF lt] j l w assms(2,4) by (auto split: if_splits)
      then show ?thesis using j by (simp add: len nth_append)
    qed
  qed
  then show ?thesis using len by (auto intro!: nth_equalityI)
qed

end
