(* ===== verification/Pipe.thy ===== *)
theory Pipe
  imports Process Wakeup Ring_Buffer
begin

text \<open>
  Pipes (\<^verbatim>\<open>kern/fs/pipe.c\<close>): the operations of the pipe file system type on an object \<open>i\<close> of the object
  table, and \<^verbatim>\<open>sys_pipe\<close>.

  \<^verbatim>\<open>pipe_read\<close> and \<^verbatim>\<open>pipe_write\<close> may put the task to sleep. The model runs them up to that point: the
  result then carries the processor's outcome and, for a write, the bytes that are still to be written;
  the loop is entered again when the task runs. The operations that the type does not support
  (\<^verbatim>\<open>pipe_mount\<close>, \<^verbatim>\<open>pipe_lookup\<close>, ...) return \<^verbatim>\<open>ENOSYS\<close>.
\<close>

abbreviation (input) PIPE_BUF :: nat where "PIPE_BUF \<equiv> 8184"

definition readers_q :: "nat \<Rightarrow> qid" where "readers_q i = Waitq (2 * i)"
definition writers_q :: "nat \<Rightarrow> qid" where "writers_q i = Waitq (2 * i + 1)"

section \<open>Operations\<close>

definition pipe_ustate :: "nat \<Rightarrow> 'z fstate_scheme \<Rightarrow> 'z fstate_scheme option" where
  "pipe_ustate i s =
     (let w = o_size (fs_fso s i) < PIPE_BUF; r = o_size (fs_fso s i) \<noteq> 0;
          st = (if w then W_OK else 0) OR (if r then R_OK else 0)
      in do {
        s1 \<leftarrow> fs_state i st s;
        s2 \<leftarrow> (if r then wake_all (readers_q i) s1 else Some s1);
        (if w then wake_all (writers_q i) s2 else Some s2)
      })"

definition pipe_getfso ::
    "errno \<Rightarrow> int \<Rightarrow> nat \<Rightarrow> 'z fstate_scheme \<Rightarrow> (errno \<times> 'z fstate_scheme) option" where
  "pipe_getfso kmalloc now i s =
     (if kmalloc \<noteq> EZERO then Some (kmalloc, s)
      else do {
        c \<leftarrow> curr s;
        let s1 = task_qinit (writers_q i) ''pipewr'' (task_qinit (readers_q i) ''piperd'' s);
        let s2 = upd_fso i (\<lambda>o'. o'\<lparr>p_buf := replicate PIPE_BUF 0, write_p := 0, read_p := 0, o_size := 0,
                   o_mode := 4096 OR 384, o_uid := euid (tsk s1 c), o_gid := egid (tsk s1 c),
                   atime := now, ctime := now, mtime := now, no_seek := True\<rparr>) s1;
        s3 \<leftarrow> fs_setstate i W_OK s2;
        Some (EZERO, s3)
      })"

text \<open>What \<^verbatim>\<open>pipe_read\<close> copies out, and the object afterwards.\<close>

definition pipe_take :: "nat \<Rightarrow> fso \<Rightarrow> 8 word list \<times> fso" where
  "pipe_take count o' =
     (let cnt = (if count > o_size o' then o_size o' else count);
          l = (if cnt + read_p o' > PIPE_BUF then PIPE_BUF - read_p o' else cnt)
      in (take l (drop (read_p o') (p_buf o')) @ take (cnt - l) (p_buf o'),
          o'\<lparr>read_p := (read_p o' + cnt) mod PIPE_BUF, o_size := o_size o' - cnt\<rparr>))"

definition pipe_read ::
    "nat \<Rightarrow> nat \<Rightarrow> bool \<Rightarrow> 'z fstate_scheme \<Rightarrow> (((errno + 8 word list) + outcome) \<times> 'z fstate_scheme) option" where
  "pipe_read i count no_delay s =
     (if o_size (fs_fso s i) = 0 then
        if writer_count (fs_fso s i) = 0 \<or> no_delay then Some (Inl (Inr []), s)
        else do {
          c \<leftarrow> curr s;
          if signal_pending (tsk s c) then Some (Inl (Inl EINTR), s)
          else do {
            (r, s1) \<leftarrow> task_suspend (Some (readers_q i)) WAIT_INTR s;
            Some (case r of Inl e \<Rightarrow> Inl (Inl e) | Inr out \<Rightarrow> Inr out, s1)
          }
        }
      else
        let (bs, o') = pipe_take count (fs_fso s i)
        in do {
          s1 \<leftarrow> pipe_ustate i (upd_fso i (\<lambda>_. o') s);
          Some (Inl (Inr bs), s1)
        })"

text \<open>One round of the loop of \<^verbatim>\<open>pipe_write\<close>: the bytes that fit, and the object afterwards.\<close>

definition pipe_chunk :: "nat \<Rightarrow> fso \<Rightarrow> nat" where
  "pipe_chunk resid o' =
     (let cnt = (if resid > PIPE_BUF then PIPE_BUF else resid)
      in if cnt + o_size o' > PIPE_BUF then PIPE_BUF - o_size o' else cnt)"

definition pipe_put :: "8 word list \<Rightarrow> fso \<Rightarrow> fso" where
  "pipe_put bs o' =
     (let cnt = length bs;
          l = (if cnt + write_p o' > PIPE_BUF then PIPE_BUF - write_p o' else cnt);
          buf1 = memcpy_in (p_buf o') (write_p o') (take l bs);
          buf2 = memcpy_in buf1 0 (drop l bs)
      in o'\<lparr>p_buf := buf2, write_p := (write_p o' + cnt) mod PIPE_BUF, o_size := o_size o' + cnt\<rparr>)"

datatype wres = Wrote nat | Failed errno | Asleep outcome "8 word list"

function pipe_write_loop ::
    "nat \<Rightarrow> bool \<Rightarrow> nat \<Rightarrow> 8 word list \<Rightarrow> 'z fstate_scheme \<Rightarrow> (wres \<times> 'z fstate_scheme) option" where
  "pipe_write_loop i no_delay cnt0 data s =
     (if data = [] then do { s1 \<leftarrow> pipe_ustate i s; Some (Wrote cnt0, s1) }
      else if o_size (fs_fso s i) \<ge> PIPE_BUF then
        if no_delay then Some (Wrote (cnt0 - length data), s)
        else do {
          c \<leftarrow> curr s;
          if signal_pending (tsk s c) then Some (Failed EINTR, s)
          else do {
            s1 \<leftarrow> pipe_ustate i s;
            (r, s2) \<leftarrow> task_suspend (Some (writers_q i)) WAIT_INTR s1;
            Some (case r of Inl e \<Rightarrow> Failed e | Inr out \<Rightarrow> Asleep out data, s2)
          }
        }
      else
        let cnt = pipe_chunk (length data) (fs_fso s i)
        in pipe_write_loop i no_delay cnt0 (drop cnt data) (upd_fso i (pipe_put (take cnt data)) s))"
  by pat_completeness auto

termination pipe_write_loop
  by (relation "measure (\<lambda>(i, nd, t, data, s). length data)")
    (auto simp: pipe_chunk_def Let_def length_greater_0_conv [symmetric] simp del: length_greater_0_conv split: if_splits)

declare pipe_write_loop.simps [simp del]

definition pipe_write ::
    "nat \<Rightarrow> bool \<Rightarrow> 8 word list \<Rightarrow> 'z fstate_scheme \<Rightarrow> (wres \<times> 'z fstate_scheme) option" where
  "pipe_write i no_delay data s =
     (if reader_count (fs_fso s i) = 0 then do {
        (_, s1) \<leftarrow> signal_raise 13 s;
        Some (Failed EPIPE, s1)
      }
      else pipe_write_loop i no_delay (length data) data s)"

definition pipe_chk_perm :: "nat \<Rightarrow> 32 word \<Rightarrow> int \<Rightarrow> int \<Rightarrow> 'z fstate_scheme \<Rightarrow> errno" where
  "pipe_chk_perm i mode uid gid s = EZERO"

definition pipe_nosys :: errno where "pipe_nosys = ENOSYS"

text \<open>
  \<^verbatim>\<open>sys_pipe\<close>: both ends of a new pipe, with every way to fail half way undone. \<open>Inr (d0, d1)\<close> are the
  descriptors for reading and writing.
\<close>

definition sys_pipe ::
    "errno \<Rightarrow> errno \<Rightarrow> int \<Rightarrow> errno \<Rightarrow> 'z fstate_scheme \<Rightarrow> ((errno + (nat \<times> nat)) \<times> 'z fstate_scheme) option" where
  "sys_pipe atmem kmalloc now cpy s = do {
     (r, s1) \<leftarrow> fs_getfso (pipe_getfso kmalloc now) atmem PipeFs (-1) s;
     (case r of
        Inl e \<Rightarrow> Some (Inl e, s1)
      | Inr o' \<Rightarrow> do {
          let s2 = upd_fso o' (\<lambda>p. p\<lparr>o_refcnt := o_refcnt p + 1\<rparr>) s1;
          (case fs_getfile (Some o') 0 s2 of
             (Inl e, s3) \<Rightarrow> do {
               s4 \<leftarrow> fs_putfso pipe_putfso (Some o') s3;
               s5 \<leftarrow> fs_putfso pipe_putfso (Some o') s4;
               Some (Inl e, s5)
             }
           | (Inr f0, s3) \<Rightarrow>
               (case fs_getfile (Some o') 1 s3 of
                  (Inl e, s4) \<Rightarrow> do {
                    s5 \<leftarrow> fs_putfile pipe_putfso f0 s4;
                    s6 \<leftarrow> fs_putfso pipe_putfso (Some o') s5;
                    Some (Inl e, s6)
                  }
                | (Inr f1, s4) \<Rightarrow> do {
                    (r0, s5) \<leftarrow> fs_getfd f0 s4;
                    (case r0 of
                       Inl e \<Rightarrow> do {
                         s6 \<leftarrow> fs_putfile pipe_putfso f0 s5;
                         s7 \<leftarrow> fs_putfile pipe_putfso f1 s6;
                         Some (Inl e, s7)
                       }
                     | Inr d0 \<Rightarrow> do {
                         (r1, s6) \<leftarrow> fs_getfd f1 s5;
                         (case r1 of
                            Inl e \<Rightarrow> do {
                              (_, s7) \<leftarrow> fs_putfd pipe_putfso d0 s6;
                              s8 \<leftarrow> fs_putfile pipe_putfso f1 s7;
                              Some (Inl e, s8)
                            }
                          | Inr d1 \<Rightarrow>
                              if cpy \<noteq> EZERO then do {
                                (_, s7) \<leftarrow> fs_putfd pipe_putfso d0 s6;
                                (_, s8) \<leftarrow> fs_putfd pipe_putfso d1 s7;
                                Some (Inl cpy, s8)
                              }
                              else Some (Inr (d0, d1), s6))
                       })
                  }))
        })
   }"

section \<open>The ring buffer\<close>

text \<open>
  The invariant of a pipe's buffer and the bytes in it, oldest first: the abstraction under which the
  operations are those of a bounded queue.
\<close>

definition pipe_ok :: "fso \<Rightarrow> bool" where
  "pipe_ok o' \<longleftrightarrow> length (p_buf o') = PIPE_BUF \<and> read_p o' < PIPE_BUF \<and> o_size o' \<le> PIPE_BUF \<and>
     write_p o' = (read_p o' + o_size o') mod PIPE_BUF"

definition contents :: "fso \<Rightarrow> 8 word list" where
  "contents o' = ring_from (p_buf o') (read_p o') (o_size o')"

lemma length_contents [simp]: "length (contents o') = o_size o'"
  by (simp add: contents_def)

lemma pipe_take_fifo:
  assumes "pipe_ok o'"
  shows "\<exists>k r. pipe_take n o' = (take n (contents o'), o'\<lparr>read_p := r, o_size := k\<rparr>) \<and>
           pipe_ok (o'\<lparr>read_p := r, o_size := k\<rparr>) \<and> contents (o'\<lparr>read_p := r, o_size := k\<rparr>) = drop n (contents o')"
proof -
  define c where "c = (if n > o_size o' then o_size o' else n)"
  define l where "l = (if c + read_p o' > PIPE_BUF then PIPE_BUF - read_p o' else c)"
  have ok: "length (p_buf o') = PIPE_BUF" "read_p o' < PIPE_BUF" "o_size o' \<le> PIPE_BUF"
    "write_p o' = (read_p o' + o_size o') mod PIPE_BUF" using assms by (simp_all add: pipe_ok_def)
  have c: "c \<le> o_size o'" "take n (contents o') = take c (contents o')" "drop n (contents o') = drop c (contents o')"
    by (simp_all add: c_def)
  have t: "take l (drop (read_p o') (p_buf o')) @ take (c - l) (p_buf o') = take c (contents o')"
    unfolding contents_def by (rule ring_take) (use ok c in \<open>simp_all add: l_def\<close>)
  let ?o = "o'\<lparr>read_p := (read_p o' + c) mod PIPE_BUF, o_size := o_size o' - c\<rparr>"
  have "pipe_take n o' = (take n (contents o'), ?o)"
    unfolding c(2) t [symmetric] by (simp add: pipe_take_def Let_def c_def [symmetric] l_def [symmetric])
  moreover have "pipe_ok ?o"
    using ok c(1) mod_add_left_eq [of "read_p o' + c" PIPE_BUF "o_size o' - c"] by (simp add: pipe_ok_def)
  moreover have "contents ?o = drop n (contents o')"
    unfolding c(3) using ring_drop [OF c(1), of "p_buf o'" "read_p o'"] ok(1) by (simp add: contents_def)
  ultimately show ?thesis by blast
qed

lemma pipe_put_appends:
  assumes "pipe_ok o'" and "o_size o' + length bs \<le> PIPE_BUF"
  shows "pipe_ok (pipe_put bs o')" "contents (pipe_put bs o') = contents o' @ bs"
    "o_size (pipe_put bs o') = o_size o' + length bs"
    "\<exists>b w k. pipe_put bs o' = o'\<lparr>p_buf := b, write_p := w, o_size := k\<rparr>"
proof -
  define l where "l = (if length bs + write_p o' > PIPE_BUF then PIPE_BUF - write_p o' else length bs)"
  define b where "b = memcpy_in (memcpy_in (p_buf o') (write_p o') (take l bs)) 0 (drop l bs)"
  have ok: "length (p_buf o') = PIPE_BUF" "read_p o' < PIPE_BUF" "o_size o' \<le> PIPE_BUF"
    "write_p o' = (read_p o' + o_size o') mod PIPE_BUF" using assms by (simp_all add: pipe_ok_def)
  have p: "pipe_put bs o' = o'\<lparr>p_buf := b, write_p := (write_p o' + length bs) mod PIPE_BUF,
      o_size := o_size o' + length bs\<rparr>"
    by (simp add: pipe_put_def Let_def l_def [symmetric] b_def [symmetric])
  have r: "length b = length (p_buf o') \<and> ring_from b (read_p o') (o_size o' + length bs) = contents o' @ bs"
    unfolding contents_def by (rule ring_put [where w = "write_p o'" and l = l])
      (use ok assms(2) in \<open>simp_all add: l_def b_def\<close>)
  show "pipe_ok (pipe_put bs o')" using p r ok assms(2) by (simp add: pipe_ok_def mod_add_left_eq add.assoc)
  show "contents (pipe_put bs o') = contents o' @ bs" using p r by (simp add: contents_def)
  show "o_size (pipe_put bs o') = o_size o' + length bs" using p by simp
  show "\<exists>b w k. pipe_put bs o' = o'\<lparr>p_buf := b, write_p := w, o_size := k\<rparr>" using p by blast
qed

section \<open>Waking the other end\<close>

definition poll_ok :: "'z fstate_scheme \<Rightarrow> nat \<Rightarrow> bool" where
  "poll_ok s i \<longleftrightarrow> (\<forall>t. polling (fs_fso s i) = Some t \<longrightarrow> t \<in> alive s)"

lemma upd_fso_simps [simp]:
  "tsk (upd_fso i f s) = tsk s" "curr (upd_fso i f s) = curr s" "alive (upd_fso i f s) = alive s"
  "fs_fso (upd_fso i f s) = (fs_fso s)(i := f (fs_fso s i))" "slot (upd_fso i f s) = slot s"
  by (simp_all add: upd_fso_def alive_def)

lemma upd_fso_kinv: "kinv s L \<Longrightarrow> kinv (upd_fso i f s) L"
  by (rule evolves_kinv [OF kquiet_evolves [OF _ kquiet_fso(1)]])

lemma upd_fso_running [simp]: "running (upd_fso i f s) L = running s L"
  by (simp add: running_def split: option.splits)

lemma fs_state_woken:
  assumes "kinv s L" and "poll_ok s i"
  shows "\<exists>s' L'. fs_state i st s = Some s' \<and> woken (upd_fso i (o_state_update (\<lambda>_. st)) s) L s' L'"
proof -
  let ?s1 = "upd_fso i (o_state_update (\<lambda>_. st)) s"
  have k: "kinv ?s1 L" by (rule upd_fso_kinv [OF assms(1)])
  show ?thesis
  proof (cases "o_state (fs_fso s i) = st")
    case True
    then have "?s1 = s" by (auto simp: upd_fso_def)
    then show ?thesis using True woken_refl [OF assms(1)] by (auto simp: fs_state_def)
  next
    case False
    show ?thesis
    proof (cases "polling (fs_fso s i)")
      case None
      then show ?thesis using False wake_all_woken [OF k, of Pollq] woken_refl [OF k]
        by (auto simp: fs_state_def Let_def)
    next
      case (Some t)
      then have "t \<in> alive ?s1" using assms(2) by (simp add: poll_ok_def)
      then show ?thesis using Some False resume_woken [OF k, of t] by (auto simp: fs_state_def Let_def)
    qed
  qed
qed

lemma pipe_queues [simp]: "\<not> is_ready (readers_q i)" "\<not> is_ready (writers_q i)" "readers_q i \<noteq> writers_q j"
  by (auto simp: readers_q_def writers_q_def) presburger

definition pipe_state :: "fso \<Rightarrow> 32 word" where
  "pipe_state o' = (if o_size o' < PIPE_BUF then W_OK else 0) OR (if o_size o' \<noteq> 0 then R_OK else 0)"

lemma pipe_ustate_woken:
  assumes "kinv s L" and "poll_ok s i"
  shows "\<exists>s' L'. pipe_ustate i s = Some s' \<and>
           woken (upd_fso i (o_state_update (\<lambda>_. pipe_state (fs_fso s i))) s) L s' L' \<and>
           (o_size (fs_fso s i) \<noteq> 0 \<longrightarrow> L' (readers_q i) = []) \<and>
           (o_size (fs_fso s i) < PIPE_BUF \<longrightarrow> L' (writers_q i) = [])"
proof -
  let ?o = "fs_fso s i"
  obtain s1 L1 where s1: "fs_state i (pipe_state ?o) s = Some s1"
      "woken (upd_fso i (o_state_update (\<lambda>_. pipe_state ?o)) s) L s1 L1"
    using fs_state_woken [OF assms] by blast
  obtain s2 L2 where s2: "(if o_size ?o \<noteq> 0 then wake_all (readers_q i) s1 else Some s1) = Some s2"
      "woken s1 L1 s2 L2" "o_size ?o \<noteq> 0 \<longrightarrow> L2 (readers_q i) = []"
    using wake_all_woken [OF woken_kinv [OF s1(2)], of "readers_q i"] woken_refl [OF woken_kinv [OF s1(2)]]
    by (cases "o_size ?o = 0") auto
  obtain s3 L3 where s3: "(if o_size ?o < PIPE_BUF then wake_all (writers_q i) s2 else Some s2) = Some s3"
      "woken s2 L2 s3 L3" "o_size ?o < PIPE_BUF \<longrightarrow> L3 (writers_q i) = []"
    using wake_all_woken [OF woken_kinv [OF s2(2)], of "writers_q i"] woken_refl [OF woken_kinv [OF s2(2)]]
    by (cases "o_size ?o < PIPE_BUF") auto
  have "pipe_ustate i s = Some s3"
    using s1(1) s2(1) s3(1) by (simp add: pipe_ustate_def Let_def pipe_state_def cong: if_cong)
  moreover have "L3 (readers_q i) = []" if "o_size ?o \<noteq> 0"
    using woken_queue_empty [OF s3(2)] s2(3) that by simp
  ultimately show ?thesis using woken_trans [OF woken_trans [OF s1(2) s2(2)] s3(2)] s3(3) by blast
qed

section \<open>Reading and writing\<close>

lemma pipe_write_loop_fits:
  assumes "pipe_ok (fs_fso s i)" and "o_size (fs_fso s i) + length bs \<le> PIPE_BUF"
  shows "pipe_write_loop i nd n bs s =
           Option.bind (pipe_ustate i (upd_fso i (pipe_put bs) s)) (\<lambda>s'. Some (Wrote n, s'))"
proof (cases "bs = []")
  case True
  have "pipe_put [] (fs_fso s i) = fs_fso s i"
    using assms(1) by (simp add: pipe_put_def Let_def memcpy_in_def pipe_ok_def)
  then have "upd_fso i (pipe_put []) s = s" by (simp add: upd_fso_def)
  then show ?thesis using True by (simp add: pipe_write_loop.simps)
next
  case False
  then have "length bs > 0" by simp
  then have "pipe_chunk (length bs) (fs_fso s i) = length bs" "\<not> o_size (fs_fso s i) \<ge> PIPE_BUF"
    using assms by (simp add: pipe_chunk_def Let_def, linarith)
  then show ?thesis
    using False by (simp add: pipe_write_loop.simps [of i nd n bs] pipe_write_loop.simps [of i nd n "[]"])
qed

lemma pipe_write_loop_full:
  assumes "pipe_ok (fs_fso s i)" and "cap = PIPE_BUF - o_size (fs_fso s i)" and "cap < length bs"
    and "s1 = upd_fso i (pipe_put (take cap bs)) s"
  shows "pipe_write_loop i nd n bs s =
           (if nd then Some (Wrote (n - (length bs - cap)), s1)
            else do {
              c \<leftarrow> curr s;
              if signal_pending (tsk s c) then Some (Failed EINTR, s1)
              else do {
                s2 \<leftarrow> pipe_ustate i s1;
                (r, s3) \<leftarrow> task_suspend (Some (writers_q i)) WAIT_INTR s2;
                Some (case r of Inl e \<Rightarrow> Failed e | Inr out \<Rightarrow> Asleep out (drop cap bs), s3)
              }
            })"
proof -
  have sz: "o_size (fs_fso s i) \<le> PIPE_BUF" using assms(1) by (simp add: pipe_ok_def)
  have full: "o_size (fs_fso s1 i) \<ge> PIPE_BUF"
    using pipe_put_appends(3) [OF assms(1), of "take cap bs"] assms(2-4) sz by (simp add: min_def)
  have ne: "bs \<noteq> []" "drop cap bs \<noteq> []" using assms(3) by auto
  have "pipe_write_loop i nd n bs s = pipe_write_loop i nd n (drop cap bs) s1"
  proof (cases "cap = 0")
    case True
    have "pipe_put [] (fs_fso s i) = fs_fso s i"
      using assms(1) by (simp add: pipe_put_def Let_def memcpy_in_def pipe_ok_def)
    then show ?thesis using True assms(4) by (simp add: upd_fso_def)
  next
    case False
    then have "pipe_chunk (length bs) (fs_fso s i) = cap" "\<not> o_size (fs_fso s i) \<ge> PIPE_BUF"
      using assms(2,3) sz by (auto simp: pipe_chunk_def Let_def)
    then show ?thesis using ne assms(4) by (simp add: pipe_write_loop.simps [of i nd n bs])
  qed
  also have "\<dots> = (if nd then Some (Wrote (n - length (drop cap bs)), s1)
            else do {
              c \<leftarrow> curr s1;
              if signal_pending (tsk s1 c) then Some (Failed EINTR, s1)
              else do {
                s2 \<leftarrow> pipe_ustate i s1;
                (r, s3) \<leftarrow> task_suspend (Some (writers_q i)) WAIT_INTR s2;
                Some (case r of Inl e \<Rightarrow> Failed e | Inr out \<Rightarrow> Asleep out (drop cap bs), s3)
              }
            })"
    using full ne by (subst pipe_write_loop.simps) (simp add: not_le)
  finally show ?thesis using assms(4) by simp
qed

text \<open>After a step that wakes tasks the object tables are as before.\<close>

lemma woken_fso: "woken s L s' L' \<Longrightarrow> fs_fso s' = fs_fso s"
  for s :: "'z fstate_scheme"
  using fs_of_more(2) [of s' s] by (simp add: woken_def)

lemma pipe_ok_state [simp]:
  "pipe_ok (o'\<lparr>o_state := st\<rparr>) = pipe_ok o'" "contents (o'\<lparr>o_state := st\<rparr>) = contents o'"
  by (simp_all add: pipe_ok_def contents_def)

text \<open>
  Reading a pipe that holds bytes never sleeps and never fails: it returns the oldest bytes, at most as many as
  were asked for, and leaves the rest in order; the ring buffer stays consistent; every task that waits
  for room is woken as soon as there is room, every task that waits for bytes as long as there are bytes, and
  the invariant of the scheduler is kept.
\<close>

theorem pipe_read_fifo:
  fixes s :: "'z fstate_scheme"
  assumes "kinv s L" and "poll_ok s i" and "pipe_ok (fs_fso s i)" and "contents (fs_fso s i) \<noteq> []"
  shows "\<exists>s' L'. pipe_read i n nd s = Some (Inl (Inr (take n (contents (fs_fso s i)))), s') \<and>
           kinv s' L' \<and> pipe_ok (fs_fso s' i) \<and>
           contents (fs_fso s' i) = drop n (contents (fs_fso s i)) \<and>
           (length (contents (fs_fso s' i)) < PIPE_BUF \<longrightarrow> L' (writers_q i) = []) \<and>
           (contents (fs_fso s' i) \<noteq> [] \<longrightarrow> L' (readers_q i) = [])"
proof -
  let ?o = "fs_fso s i"
  obtain k r where t: "pipe_take n ?o = (take n (contents ?o), ?o\<lparr>read_p := r, o_size := k\<rparr>)"
      "pipe_ok (?o\<lparr>read_p := r, o_size := k\<rparr>)" "contents (?o\<lparr>read_p := r, o_size := k\<rparr>) = drop n (contents ?o)"
    using pipe_take_fifo [OF assms(3)] by blast
  let ?s1 = "upd_fso i (\<lambda>_. ?o\<lparr>read_p := r, o_size := k\<rparr>) s"
  have k: "kinv ?s1 L" "poll_ok ?s1 i" using upd_fso_kinv [OF assms(1)] assms(2) by (auto simp: poll_ok_def)
  obtain s' L' where s': "pipe_ustate i ?s1 = Some s'"
      "woken (upd_fso i (o_state_update (\<lambda>_. pipe_state (fs_fso ?s1 i))) ?s1) L s' L'"
      "o_size (fs_fso ?s1 i) \<noteq> 0 \<longrightarrow> L' (readers_q i) = []"
      "o_size (fs_fso ?s1 i) < PIPE_BUF \<longrightarrow> L' (writers_q i) = []"
    using pipe_ustate_woken [OF k] by blast
  have o: "fs_fso s' i = ?o\<lparr>read_p := r, o_size := k, o_state := pipe_state (fs_fso ?s1 i)\<rparr>"
    using woken_fso [OF s'(2)] by simp
  have c: "contents (fs_fso s' i) = drop n (contents ?o)" "pipe_ok (fs_fso s' i)"
    using t(2,3) unfolding o by simp_all
  have sz: "length (contents (fs_fso s' i)) = k" unfolding o by simp
  have "o_size ?o \<noteq> 0" using assms(4) by (metis length_contents length_0_conv)
  then have "pipe_read i n nd s = Some (Inl (Inr (take n (contents ?o))), s')"
    using t(1) s'(1) by (simp add: pipe_read_def)
  then show ?thesis using c sz s'(3,4) woken_kinv [OF s'(2)] by fastforce
qed

text \<open>
  C26: Writing bytes for which there is room to a pipe that has a reader never sleeps and never fails: all bytes
  are appended in order behind those that are there, the ring buffer stays consistent, the invariant of the
  scheduler is kept, and when the pipe holds bytes afterwards no reader is left asleep.
\<close>

theorem pipe_write_fifo:
  fixes s :: "'z fstate_scheme"
  assumes "kinv s L" and "poll_ok s i" and "pipe_ok (fs_fso s i)" and "reader_count (fs_fso s i) \<noteq> 0"
    and "length (contents (fs_fso s i)) + length bs \<le> PIPE_BUF"
  shows "\<exists>s' L'. pipe_write i nd bs s = Some (Wrote (length bs), s') \<and> kinv s' L' \<and>
           pipe_ok (fs_fso s' i) \<and> contents (fs_fso s' i) = contents (fs_fso s i) @ bs \<and>
           (contents (fs_fso s' i) \<noteq> [] \<longrightarrow> L' (readers_q i) = [])"
proof -
  let ?o = "fs_fso s i" and ?s1 = "upd_fso i (pipe_put bs) s"
  note p = pipe_put_appends [OF assms(3) assms(5) [unfolded length_contents]]
  obtain b w k where pf: "pipe_put bs ?o = ?o\<lparr>p_buf := b, write_p := w, o_size := k\<rparr>" using p(4) by blast
  have k: "kinv ?s1 L" "poll_ok ?s1 i" using upd_fso_kinv [OF assms(1)] assms(2) pf by (auto simp: poll_ok_def)
  obtain s' L' where s': "pipe_ustate i ?s1 = Some s'"
      "woken (upd_fso i (o_state_update (\<lambda>_. pipe_state (fs_fso ?s1 i))) ?s1) L s' L'"
      "o_size (fs_fso ?s1 i) \<noteq> 0 \<longrightarrow> L' (readers_q i) = []"
    using pipe_ustate_woken [OF k] by blast
  have o: "fs_fso s' i = (pipe_put bs ?o)\<lparr>o_state := pipe_state (fs_fso ?s1 i)\<rparr>"
    using woken_fso [OF s'(2)] by simp
  have c: "contents (fs_fso s' i) = contents ?o @ bs" "pipe_ok (fs_fso s' i)" using p(1,2) unfolding o by simp_all
  have "o_size (fs_fso ?s1 i) \<noteq> 0" if "contents (fs_fso s' i) \<noteq> []"
    using that p(3) unfolding c(1) by (metis length_append length_contents length_0_conv fun_upd_same upd_fso_simps(4))
  moreover have "pipe_write i nd bs s = Some (Wrote (length bs), s')"
    using pipe_write_loop_fits [OF assms(3) assms(5) [unfolded length_contents]] s'(1) assms(4)
    by (simp add: pipe_write_def)
  ultimately show ?thesis using c s'(3) woken_kinv [OF s'(2)] by blast
qed

text \<open>
  A blocking write of more bytes than there is room for fills the pipe with the first of them, wakes every
  reader, and puts the writer to sleep on the queue for writers; the bytes that it has still to write
  are exactly the others. Nothing is lost and nothing is written twice.
\<close>

theorem pipe_write_blocks:
  fixes s :: "'z fstate_scheme"
  assumes "kinv s L" and "running s L" and "curr s = Some c" and "poll_ok s i" and "pipe_ok (fs_fso s i)"
    and "reader_count (fs_fso s i) \<noteq> 0" and "\<not> signal_pending (tsk s c)" and "unseen_events (tsk s c) = 0"
    and "room = PIPE_BUF - length (contents (fs_fso s i))" and "room < length bs"
  shows "\<exists>out s' L'. pipe_write i False bs s = Some (Asleep out (drop room bs), s') \<and> scheduled out s' L' \<and>
           pipe_ok (fs_fso s' i) \<and> contents (fs_fso s' i) = contents (fs_fso s i) @ take room bs \<and>
           L' (readers_q i) = [] \<and> c \<in> set (L' (writers_q i)) \<and> paused (tsk s' c) = WAIT_INTR"
proof -
  let ?o = "fs_fso s i" and ?s1 = "upd_fso i (pipe_put (take room bs)) s"
  have room: "room = PIPE_BUF - o_size ?o" and fit: "o_size ?o + length (take room bs) \<le> PIPE_BUF"
    using assms(5,9,10) by (auto simp: pipe_ok_def min_def)
  note p = pipe_put_appends [OF assms(5) fit]
  obtain b w k where pf: "pipe_put (take room bs) ?o = ?o\<lparr>p_buf := b, write_p := w, o_size := k\<rparr>" using p(4) by blast
  have k: "kinv ?s1 L" "poll_ok ?s1 i" using upd_fso_kinv [OF assms(1)] assms(4) pf by (auto simp: poll_ok_def)
  let ?s1' = "upd_fso i (o_state_update (\<lambda>_. pipe_state (fs_fso ?s1 i))) ?s1"
  obtain s2 L2 where s2: "pipe_ustate i ?s1 = Some s2" "woken ?s1' L s2 L2"
      "o_size (fs_fso ?s1 i) \<noteq> 0 \<longrightarrow> L2 (readers_q i) = []"
    using pipe_ustate_woken [OF k] by blast
  have sz: "o_size (fs_fso ?s1 i) \<noteq> 0" using p(3) assms(5,9,10) by (auto simp: pipe_ok_def min_def)
  have r2: "running s2 L2" "curr s2 = Some c" using s2(2) assms(2,3) by (auto simp: woken_def)
  have "paused (tsk s c) = 0" using assms(2,3) by (simp add: running_def)
  then have "tsk s2 c = tsk s c" using woken_task(6) [OF s2(2), of c] by simp
  then have "\<not> interrupted WAIT_INTR (tsk s2 c)" using assms(7,8) by (simp add: interrupted_def)
  then obtain out s' L' where s': "task_suspend (Some (writers_q i)) WAIT_INTR s2 = Some (Inr out, s')"
      "scheduled out s' L'" "paused (tsk s' c) = WAIT_INTR" "L' (writers_q i) = L2 (writers_q i) @ [c]"
      "L' (readers_q i) = L2 (readers_q i)"
    using task_suspend_enters [OF woken_kinv [OF s2(2)] r2, of "writers_q i" WAIT_INTR] by auto
  have "fs_fso s' = fs_fso s2"
    using task_suspend_kept [OF s'(1)] fs_of_more(2) [of s' s2] by simp
  then have o: "fs_fso s' i = (pipe_put (take room bs) ?o)\<lparr>o_state := pipe_state (fs_fso ?s1 i)\<rparr>"
    using woken_fso [OF s2(2)] by simp
  have c: "contents (fs_fso s' i) = contents ?o @ take room bs" "pipe_ok (fs_fso s' i)"
    using p(1,2) unfolding o by simp_all
  have "pipe_write i False bs s = Some (Asleep out (drop room bs), s')"
    using pipe_write_loop_full [OF assms(5) room assms(10) refl, of False] assms(3,6,7) s2(1) s'(1)
    by (simp add: pipe_write_def)
  then show ?thesis using c s' s2(3) sz by auto
qed

text \<open>
  Reading an empty pipe: end of file (no bytes) when nobody can write to it any more or when the
  caller must not wait, \<^verbatim>\<open>EINTR\<close> when a signal is pending, and otherwise the reader sleeps at the end
  of the queue for readers while the pipe stays as it is.
\<close>

theorem pipe_read_empty:
  fixes s :: "'z fstate_scheme"
  assumes "kinv s L" and "running s L" and "curr s = Some c" and "contents (fs_fso s i) = []"
    and "unseen_events (tsk s c) = 0"
  shows "if writer_count (fs_fso s i) = 0 \<or> nd then pipe_read i n nd s = Some (Inl (Inr []), s)
         else if signal_pending (tsk s c) then pipe_read i n nd s = Some (Inl (Inl EINTR), s)
         else \<exists>out s' L'. pipe_read i n nd s = Some (Inr out, s') \<and> scheduled out s' L' \<and>
                fs_fso s' = fs_fso s \<and> L' (readers_q i) = L (readers_q i) @ [c] \<and> paused (tsk s' c) = WAIT_INTR"
proof -
  have sz: "o_size (fs_fso s i) = 0" using assms(4) by (metis length_contents length_0_conv)
  consider "writer_count (fs_fso s i) = 0 \<or> nd"
    | "\<not> (writer_count (fs_fso s i) = 0 \<or> nd)" "signal_pending (tsk s c)"
    | "\<not> (writer_count (fs_fso s i) = 0 \<or> nd)" "\<not> signal_pending (tsk s c)" by blast
  then show ?thesis
  proof cases
    case 3
    then have "\<not> interrupted WAIT_INTR (tsk s c)" using assms(5) by (simp add: interrupted_def)
    then obtain out s' L' where s': "task_suspend (Some (readers_q i)) WAIT_INTR s = Some (Inr out, s')"
        "scheduled out s' L'" "paused (tsk s' c) = WAIT_INTR" "L' (readers_q i) = L (readers_q i) @ [c]"
      using task_suspend_enters [OF assms(1-3), of "readers_q i" WAIT_INTR] by auto
    then have "pipe_read i n nd s = Some (Inr out, s')" "fs_fso s' = fs_fso s"
      using 3 sz assms(3) task_suspend_kept [OF s'(1)] fs_of_more(2) [of s' s] by (simp_all add: pipe_read_def)
    then show ?thesis using 3 s' by auto
  qed (use sz assms(3) in \<open>simp_all add: pipe_read_def\<close>)
qed

text \<open>
  Writing to a pipe that nobody can read fails with \<^verbatim>\<open>EPIPE\<close>, writes nothing and, unless the task ignores
  it, raises \<^verbatim>\<open>SIGPIPE\<close> in the writer.
\<close>

theorem pipe_write_epipe:
  fixes s :: "'z fstate_scheme"
  assumes "kinv s L" and "curr s = Some c" and "c \<in> alive s" and "reader_count (fs_fso s i) = 0"
    and "signal_handler (tsk s c) 12 \<noteq> SIG_IGN"
  shows "\<exists>s' L'. pipe_write i nd bs s = Some (Failed EPIPE, s') \<and> kinv s' L' \<and> sent 13 (tsk s c) (tsk s' c) \<and>
           (\<forall>u. u \<noteq> c \<longrightarrow> tsk s' u = tsk s u)"
proof -
  obtain s' L' where s': "signal_send_k c (int 13) s = Some (EZERO, s')" "evolves s L s' L'"
      "sent 13 (tsk s c) (tsk s' c)" "\<forall>u. u \<noteq> c \<longrightarrow> tsk s' u = tsk s u"
    using signal_send_k_sent [OF assms(1,3), of 13] assms(5) by auto
  then have "pipe_write i nd bs s = Some (Failed EPIPE, s')"
    using assms(2,4) by (simp add: pipe_write_def signal_raise_def)
  then show ?thesis using s' evolves_kinv by blast
qed

text \<open>
  A write that must not wait and does not fit fills the pipe and returns the number of bytes written, but
  it does not go through \<open>pipe_ustate\<close>: all queues are as before, and a reader that slept because the pipe was
  empty sleeps on although the pipe is full. The same holds for a write that ends with \<^verbatim>\<open>EINTR\<close>.
\<close>

lemma pipe_write_lost_wakeup:
  fixes s :: "'z fstate_scheme"
  assumes "kinv s L" and "pipe_ok (fs_fso s i)" and "reader_count (fs_fso s i) \<noteq> 0"
    and "room = PIPE_BUF - length (contents (fs_fso s i))" and "room < length bs"
  shows "\<exists>s'. pipe_write i True bs s = Some (Wrote room, s') \<and> kinv s' L \<and> tsk s' = tsk s \<and>
           length (contents (fs_fso s' i)) = PIPE_BUF"
proof -
  let ?s1 = "upd_fso i (pipe_put (take room bs)) s"
  have room: "room = PIPE_BUF - o_size (fs_fso s i)"
      and fit: "o_size (fs_fso s i) + length (take room bs) = PIPE_BUF"
    using assms(2,4,5) by (auto simp: pipe_ok_def min_def)
  have "pipe_write i True bs s = Some (Wrote room, ?s1)"
    using pipe_write_loop_full [OF assms(2) room assms(5) refl, of True] assms(3,5) by (simp add: pipe_write_def)
  moreover have "length (contents (fs_fso ?s1 i)) = PIPE_BUF"
    using pipe_put_appends(3) [OF assms(2), of "take room bs"] fit by simp
  ultimately show ?thesis using upd_fso_kinv [OF assms(1)] by auto
qed

section \<open>Examples\<close>

text \<open>Object 0 is a pipe with a reader and a writer that holds the bytes \<open>bs\<close>; task 2 sleeps on it as a reader.\<close>

definition example_pipe :: "8 word list \<Rightarrow> int \<Rightarrow> fstate" where
  "example_pipe bs readers = example_files\<lparr>fs_fso := (\<lambda>_. zero_fso\<lparr>p_buf := bs @ replicate (PIPE_BUF - length bs) 0,
     write_p := length bs, o_size := length bs, reader_count := readers, writer_count := 1\<rparr>)\<rparr>"

lemma example_pipe_kinv:
  "kinv (example_pipe bs r) example_queues" "running (example_pipe bs r) example_queues"
  "curr (example_pipe bs r) = Some 0" "poll_ok (example_pipe bs r) 0" "example_queues (readers_q 0) = [2]"
  "\<not> signal_pending (tsk (example_pipe bs r) 0)" "unseen_events (tsk (example_pipe bs r) 0) = 0"
proof -
  have e: "example_pipe bs r = fs_fso_update (\<lambda>_. fs_fso (example_pipe bs r)) example_files"
    by (simp add: example_pipe_def)
  have "kquiet example_files (example_pipe bs r)" by (simp add: kquiet_def example_pipe_def)
  then have ev: "evolves example_files example_queues (example_pipe bs r) example_queues"
    using kquiet_evolves example_files_kinv(1) by blast
  then show "kinv (example_pipe bs r) example_queues" "running (example_pipe bs r) example_queues"
    using example_files_kinv(2) by (simp_all add: evolves_def)
  show "curr (example_pipe bs r) = Some 0" by (simp add: example_pipe_def example_files_simps)
  show "poll_ok (example_pipe bs r) 0" by (simp add: poll_ok_def example_pipe_def zero_fso_def)
  show "example_queues (readers_q 0) = [2]" by (simp add: readers_q_def)
  show "\<not> signal_pending (tsk (example_pipe bs r) 0)" "unseen_events (tsk (example_pipe bs r) 0) = 0"
    by (simp_all add: example_pipe_def example_files_defs)
qed

lemma example_pipe_ok:
  assumes "length bs < PIPE_BUF"
  shows "pipe_ok (fs_fso (example_pipe bs r) 0)" "contents (fs_fso (example_pipe bs r) 0) = bs"
    "reader_count (fs_fso (example_pipe bs r) 0) = r" "writer_count (fs_fso (example_pipe bs r) 0) = 1"
  using assms by (auto simp: pipe_ok_def contents_def example_pipe_def zero_fso_def nth_append intro!: nth_equalityI)

theorem pipe_read_fifo_witness:
  "\<exists>s' L'. pipe_read 0 2 False (example_pipe [7, 8, 9] 1) = Some (Inl (Inr [7, 8]), s') \<and> kinv s' L' \<and>
     contents (fs_fso s' 0) = [9] \<and> L' (readers_q 0) = []"
  using pipe_read_fifo [OF example_pipe_kinv(1,4) example_pipe_ok(1), of "[7, 8, 9]" 1 2 False]
  by (auto simp: example_pipe_ok)

theorem pipe_write_fifo_witness:
  "\<exists>s' L'. pipe_write 0 False [5, 6] (example_pipe [] 1) = Some (Wrote 2, s') \<and> kinv s' L' \<and>
     contents (fs_fso s' 0) = [5, 6] \<and> L' (readers_q 0) = []"
  using pipe_write_fifo [OF example_pipe_kinv(1,4) example_pipe_ok(1), of "[]" 1 "[5, 6]" False]
  by (auto simp: example_pipe_ok)

theorem pipe_write_blocks_witness:
  "\<exists>out s' L'. pipe_write 0 False (replicate 8190 1) (example_pipe [3] 1) = Some (Asleep out (replicate 7 1), s') \<and>
     scheduled out s' L' \<and> contents (fs_fso s' 0) = [3] @ replicate 8183 1 \<and> L' (readers_q 0) = [] \<and>
     paused (tsk s' 0) = WAIT_INTR"
proof -
  define bs :: "8 word list" where "bs = replicate 8190 1"
  have bs: "length bs = 8190" "drop 8183 bs = replicate 7 1" "take 8183 bs = replicate 8183 1"
    unfolding bs_def drop_replicate take_replicate length_replicate by simp_all
  let ?s = "example_pipe [3] 1"
  have l: "length [3 :: 8 word] < PIPE_BUF" by simp
  have o: "reader_count (fs_fso ?s 0) \<noteq> 0" "8183 = PIPE_BUF - length (contents (fs_fso ?s 0))" "8183 < length bs"
    unfolding example_pipe_ok [OF l] bs(1) by simp_all
  show ?thesis
    using pipe_write_blocks [OF example_pipe_kinv(1-4) example_pipe_ok(1) [OF l] o(1) example_pipe_kinv(6,7) o(2,3)]
    unfolding example_pipe_ok [OF l] bs bs_def [symmetric] by blast
qed

theorem pipe_read_empty_witness:
  "\<exists>out s' L'. pipe_read 0 10 False (example_pipe [] 1) = Some (Inr out, s') \<and> scheduled out s' L' \<and>
     L' (readers_q 0) = [2, 0] \<and> paused (tsk s' 0) = WAIT_INTR"
proof -
  have l: "length ([] :: 8 word list) < PIPE_BUF" by simp
  have q: "example_queues (readers_q 0) @ [0] = [2, 0]" by (simp add: readers_q_def)
  have w: "\<not> (writer_count (fs_fso (example_pipe [] 1) 0) = 0 \<or> False)" by (simp add: example_pipe_ok [OF l])
  show ?thesis
    using pipe_read_empty [OF example_pipe_kinv(1-3) example_pipe_ok(2) [OF l] example_pipe_kinv(7), of 1 False 10] w
      example_pipe_kinv(6) [of "[]" 1]
    unfolding q by auto
qed

theorem pipe_write_epipe_witness:
  "\<exists>(s :: fstate) s' L'. fs_fso s = fs_fso (example_pipe [] 0) \<and> pipe_write 0 False [1] s = Some (Failed EPIPE, s') \<and> kinv s' L' \<and>
     signal_received (tsk s' 0) 12"
proof -
  let ?s = "upd_task 0 (signal_handler_update (\<lambda>_ _. SIG_DFL)) (example_pipe [] 0)"
  have ev: "evolves (example_pipe [] 0) example_queues ?s example_queues"
    using example_pipe_kinv(1) by (intro evolves_upd) simp_all
  have k: "kinv ?s example_queues" "running ?s example_queues" "curr ?s = Some 0"
    using ev example_pipe_kinv(2,3) by (simp_all add: evolves_def upd_task_def)
  then have a: "0 \<in> alive ?s" by (simp add: running_def)
  have f: "fs_fso ?s = fs_fso (example_pipe [] 0)" "signal_handler (tsk ?s 0) 12 \<noteq> SIG_IGN" by (simp_all add: upd_task_def)
  have r: "reader_count (fs_fso ?s 0) = 0" unfolding f using example_pipe_ok(3) [of "[]" 0] by simp
  have sr: "sent 13 u v \<Longrightarrow> signal_received v 12" for u v by (simp add: sent_def)
  obtain s' L' where s': "pipe_write 0 False [1] ?s = Some (Failed EPIPE, s')" "kinv s' L'"
      "sent 13 (tsk ?s 0) (tsk s' 0)"
    using pipe_write_epipe [OF k(1,3) a r f(2), of False "[1]"] by metis
  show ?thesis by (intro exI [of _ ?s] exI [of _ s'] exI [of _ L'] conjI f(1) s'(1,2) sr [OF s'(3)])
qed

end
