(* ===== verification/Overflow.thy ===== *)
theory Overflow
  imports Kernel_Prelude
begin

text \<open>
  The overflow tests of \<^verbatim>\<open>include/overflow.h\<close>. The macros take an unsigned type as argument; here it is the
  length of the machine word, so that \<^verbatim>\<open>ov_mul_size\<close> is \<open>ov_mul\<close> at \<^verbatim>\<open>size_t\<close>.
\<close>

definition ov_add :: "'w :: len word \<Rightarrow> 'w word \<Rightarrow> bool" where
  "ov_add a b \<longleftrightarrow> a + b < a"

definition ov_mul :: "'w :: len word \<Rightarrow> 'w word \<Rightarrow> bool" where
  "ov_mul a b \<longleftrightarrow> b \<noteq> 0 \<and> (a * b) div b \<noteq> a"

definition ov_neg :: "'w :: len word \<Rightarrow> bool" where
  "ov_neg v \<longleftrightarrow> (v > 0 \<and> - v > 0) \<or> (v < 0 \<and> - v < 0)"

text \<open>The type to which \<^verbatim>\<open>ov_cast\<close> converts is given by its length.\<close>

definition ov_cast :: "'w :: len itself \<Rightarrow> 'v :: len word \<Rightarrow> bool" where
  "ov_cast T v \<longleftrightarrow> ucast (ucast v :: 'w word) \<noteq> v"

text \<open>\<^verbatim>\<open>ov_add\<close> and \<^verbatim>\<open>ov_mul\<close> are true exactly when the sum or the product does not fit in the word.\<close>

theorem ov_exact:
  "(ov_add a b \<longleftrightarrow> unat a + unat b \<ge> 2 ^ LENGTH('w)) \<and> (ov_mul a b \<longleftrightarrow> unat a * unat b \<ge> 2 ^ LENGTH('w))"
  for a b :: "'w :: len word"
proof
  define M :: nat where "M = 2 ^ LENGTH('w)"
  have lt: "unat a < M" "unat b < M" unfolding M_def by (rule unsigned_less)+
  have w: "unat (a + b) = (unat a + unat b) mod M" "unat (a * b) = (unat a * unat b) mod M"
    unfolding M_def by (rule unat_word_ariths)+
  show "ov_add a b \<longleftrightarrow> unat a + unat b \<ge> 2 ^ LENGTH('w)"
  proof (cases "unat a + unat b < M")
    case False
    then have "(unat a + unat b) mod M = unat a + unat b - M" using lt by (simp add: mod_if)
    then show ?thesis using False lt unfolding ov_add_def word_less_nat_alt w M_def [symmetric] by linarith
  qed (simp add: ov_add_def word_less_nat_alt w M_def [symmetric])
  show "ov_mul a b \<longleftrightarrow> unat a * unat b \<ge> 2 ^ LENGTH('w)"
  proof (cases "b = 0")
    case True
    then show ?thesis by (simp add: ov_mul_def)
  next
    case False
    then have b: "unat b > 0" by (simp add: unat_gt_0)
    have "(a * b) div b \<noteq> a \<longleftrightarrow> unat a * unat b mod M div unat b \<noteq> unat a"
      by (simp add: word_unat_eq_iff unat_div w)
    moreover have "unat a * unat b mod M div unat b = unat a" if "unat a * unat b < M"
      using that b by simp
    moreover have "unat a * unat b mod M div unat b < unat a" if "unat a * unat b \<ge> M"
    proof -
      have "unat a * unat b mod M < unat a * unat b"
        using that lt mod_less_divisor [of M "unat a * unat b"] by linarith
      then show ?thesis using b by (simp add: div_less_iff_less_mult)
    qed
    ultimately have "(a * b) div b \<noteq> a \<longleftrightarrow> unat a * unat b \<ge> M" by (metis less_irrefl not_le)
    then show ?thesis using False by (simp add: ov_mul_def M_def)
  qed
qed

text \<open>No unsigned number but 0 has a negative; a conversion loses something exactly when the number is too large for the type.\<close>

lemma ov_neg_exact: "ov_neg v \<longleftrightarrow> v \<noteq> 0"
  by (simp add: ov_neg_def word_gt_0)

lemma ov_cast_exact: "ov_cast TYPE('w :: len) v \<longleftrightarrow> unat v \<ge> 2 ^ LENGTH('w)"
  for v :: "'v :: len word"
proof -
  have v: "unat v mod 2 ^ LENGTH('v) = unat v" by (rule mod_less) (rule unsigned_less)
  have "unat (ucast (ucast v :: 'w word) :: 'v word) = unat v mod 2 ^ LENGTH('w)"
    by (simp only: unsigned_ucast_eq unsigned_take_bit_eq) (simp only: take_bit_eq_mod v)
  then have "ov_cast TYPE('w) v \<longleftrightarrow> unat v mod 2 ^ LENGTH('w) \<noteq> unat v"
    by (simp add: ov_cast_def word_unat_eq_iff)
  then show ?thesis by (metis mod_less mod_less_divisor not_le zero_less_numeral zero_less_power)
qed

end
