(* ===== verification/Sync.thy ===== *)
theory Sync
  imports Wakeup Ring_Buffer Overflow
begin

text \<open>
  Mutexes (\<^verbatim>\<open>kern/mutex.c\<close>), message queues (\<^verbatim>\<open>kern/mqueue.c\<close>) and deferred procedures
  (\<^verbatim>\<open>kern/task_dproc.c\<close>).

  \<open>mstate\<close> extends the kernel state with the mutexes and message queues, named by numbers; their
  task queues are wait queues of the kernel state. The operations block: as for pipes, an operation runs up
  to the moment its task sleeps (\<open>Inr outcome\<close>), and the part of the code that runs when the task is chosen
  again is a definition of its own (\<open>mtx_loop\<close>, and \<open>mq_put\<close> and \<open>mq_get\<close>, whose
  whole body is the loop). Each of these is one step of the machine because the kernel is not preempted: a task in the
  kernel gives up the processor only where it calls \<^verbatim>\<open>sched\<close>, an interrupt switches tasks only on its way back to user mode
  (\<^verbatim>\<open>mach-i386-pc/intr.c\<close>), and no interrupt handler enters or leaves a mutex. \<^verbatim>\<open>mtx_enter\<close> and the message queues also disable interrupts;
  \<^verbatim>\<open>mtx_leave\<close> does not.

  \<open>lockcnt\<close> is a C \<^verbatim>\<open>int\<close>; the model has no bound for it, so it says nothing of a task that enters one mutex 2^31 times without leaving it.
\<close>

record mutex =
  m_owner :: "tid option"
  lockcnt :: int

record mqueue =
  mq_buf :: "8 word list"
  itemsz :: nat
  maxcnt :: nat
  curcnt :: nat
  mq_first :: nat

record mstate = kstate +
  mtx :: "nat \<Rightarrow> mutex"
  mq :: "nat \<Rightarrow> mqueue"

definition mtx_q :: "nat \<Rightarrow> qid" where "mtx_q m = Waitq (512 + 3 * m)"
definition put_q :: "nat \<Rightarrow> qid" where "put_q m = Waitq (513 + 3 * m)"
definition get_q :: "nat \<Rightarrow> qid" where "get_q m = Waitq (514 + 3 * m)"

section \<open>Mutexes\<close>

definition upd_mtx :: "nat \<Rightarrow> tid option \<Rightarrow> int \<Rightarrow> 'z mstate_scheme \<Rightarrow> 'z mstate_scheme" where
  "upd_mtx m own n s = s\<lparr>mtx := (mtx s)(m := \<lparr>m_owner = own, lockcnt = n\<rparr>)\<rparr>"

definition mtx_init :: "nat \<Rightarrow> string \<Rightarrow> 'z mstate_scheme \<Rightarrow> 'z mstate_scheme" where
  "mtx_init m name s = task_qinit (mtx_q m) name (upd_mtx m None 0 s)"

text \<open>The loop of \<^verbatim>\<open>mtx_enter\<close>, and what follows it.\<close>

definition mtx_loop ::
    "nat \<Rightarrow> int \<Rightarrow> 'z mstate_scheme \<Rightarrow> ((errno + outcome) \<times> 'z mstate_scheme) option" where
  "mtx_loop m wait s =
     (if lockcnt (mtx s m) \<noteq> 0 then
        if wait = 0 then Some (Inl EAGAIN, s)
        else task_suspend (Some (mtx_q m)) wait s
      else do { c \<leftarrow> curr s; Some (Inl EZERO, upd_mtx m (Some c) 1 s) })"

definition mtx_enter ::
    "nat \<Rightarrow> int \<Rightarrow> 'z mstate_scheme \<Rightarrow> ((errno + outcome) \<times> 'z mstate_scheme) option" where
  "mtx_enter m wait s = do {
     c \<leftarrow> curr s;
     if m_owner (mtx s m) = None then Some (Inl EZERO, upd_mtx m (Some c) 1 s)
     else if m_owner (mtx s m) = Some c then Some (Inl EZERO, upd_mtx m (Some c) (lockcnt (mtx s m) + 1) s)
     else mtx_loop m wait s
   }"

definition mtx_leave :: "nat \<Rightarrow> 'z mstate_scheme \<Rightarrow> 'z mstate_scheme option" where
  "mtx_leave m s = do {
     c \<leftarrow> curr s;
     if m_owner (mtx s m) \<noteq> Some c then None
     else let n = lockcnt (mtx s m) - 1
          in if n \<noteq> 0 then Some (upd_mtx m (Some c) n s)
             else wake_all (mtx_q m) (upd_mtx m None 0 s)
   }"

section \<open>Message queues\<close>

definition upd_mq :: "nat \<Rightarrow> (mqueue \<Rightarrow> mqueue) \<Rightarrow> 'z mstate_scheme \<Rightarrow> 'z mstate_scheme" where
  "upd_mq m f s = s\<lparr>mq := (mq s)(m := f (mq s m))\<rparr>"

definition zero_mq :: mqueue where
  "zero_mq = \<lparr>mq_buf = [], itemsz = 0, maxcnt = 0, curcnt = 0, mq_first = 0\<rparr>"

text \<open>\<open>kmalloc\<close> is the allocator: an error or the bytes of the new memory.\<close>

definition mq_init ::
    "(nat \<Rightarrow> errno + 8 word list) \<Rightarrow> nat \<Rightarrow> string \<Rightarrow> 64 word \<Rightarrow> 64 word \<Rightarrow> 'z mstate_scheme \<Rightarrow>
     errno \<times> 'z mstate_scheme" where
  "mq_init kmalloc m name isz mcnt s =
     (let s1 = upd_mq m (\<lambda>_. zero_mq) s
      in if ov_mul isz mcnt then (EINVAL, s1)
         else (case kmalloc (unat (isz * mcnt)) of
                 Inl e \<Rightarrow> (e, s1)
               | Inr b \<Rightarrow>
                   (EZERO, upd_mq m (\<lambda>q. q\<lparr>mq_buf := b, itemsz := unat isz, maxcnt := unat mcnt\<rparr>)
                      (task_qinit (get_q m) name (task_qinit (put_q m) name s1)))))"

definition mq_free :: "nat \<Rightarrow> 'z mstate_scheme \<Rightarrow> 'z mstate_scheme" where
  "mq_free m s = upd_mq m (\<lambda>_. zero_mq) s"

definition mq_store :: "8 word list \<Rightarrow> mqueue \<Rightarrow> mqueue" where
  "mq_store data q =
     q\<lparr>mq_buf := memcpy_in (mq_buf q) ((mq_first q + curcnt q) mod maxcnt q) (take (itemsz q) data),
       curcnt := curcnt q + 1\<rparr>"

definition mq_fetch :: "mqueue \<Rightarrow> 8 word list \<times> mqueue" where
  "mq_fetch q =
     (take (itemsz q) (drop (mq_first q mod maxcnt q) (mq_buf q)),
      q\<lparr>curcnt := curcnt q - 1, mq_first := (mq_first q + 1) mod maxcnt q\<rparr>)"

definition mq_put ::
    "nat \<Rightarrow> 8 word list \<Rightarrow> int \<Rightarrow> 'z mstate_scheme \<Rightarrow> ((errno + outcome) \<times> 'z mstate_scheme) option" where
  "mq_put m data wait s =
     (if curcnt (mq s m) \<ge> maxcnt (mq s m) then
        if wait = 0 then Some (Inl EAGAIN, s) else task_suspend (Some (put_q m)) wait s
      else do { s1 \<leftarrow> wake_all (get_q m) (upd_mq m (mq_store data) s); Some (Inl EZERO, s1) })"

definition mq_get ::
    "nat \<Rightarrow> int \<Rightarrow> 'z mstate_scheme \<Rightarrow> (((errno + 8 word list) + outcome) \<times> 'z mstate_scheme) option" where
  "mq_get m wait s =
     (if curcnt (mq s m) = 0 then
        if wait = 0 then Some (Inl (Inl EAGAIN), s)
        else do {
          (r, s1) \<leftarrow> task_suspend (Some (get_q m)) wait s;
          Some (case r of Inl e \<Rightarrow> Inl (Inl e) | Inr out \<Rightarrow> Inr out, s1)
        }
      else
        let (data, q) = mq_fetch (mq s m)
        in do { s1 \<leftarrow> wake_all (put_q m) (upd_mq m (\<lambda>_. q) s); Some (Inl (Inr data), s1) })"

section \<open>Deferred procedures\<close>

record 'p dprocs =
  dp_tab :: "nat \<Rightarrow> 'p option"
  dp_head :: nat
  dp_cnt :: nat

definition task_defer :: "'p option \<Rightarrow> 'p dprocs \<Rightarrow> 'p dprocs option" where
  "task_defer proc d =
     (if proc = None then None
      else if dp_cnt d \<ge> 64 then None
      else let i = (dp_head d + dp_cnt d) mod 64
           in Some (d\<lparr>dp_cnt := dp_cnt d + 1, dp_tab := (dp_tab d)(i := proc)\<rparr>))"

text \<open>
  A procedure may do anything, defer further procedures included: \<open>call\<close> runs it on the table and on
  the rest of the state. The loop may not end, hence the option.
\<close>

partial_function (option) task_rundp ::
    "('p \<Rightarrow> 'p dprocs \<times> 's \<Rightarrow> ('p dprocs \<times> 's) option) \<Rightarrow> 'p dprocs \<times> 's \<Rightarrow> ('p dprocs \<times> 's) option" where
  "task_rundp call ds =
     (case ds of (d, s) \<Rightarrow>
        if dp_cnt d = 0 then Some (d, s)
        else
          let d1 = d\<lparr>dp_cnt := dp_cnt d - 1, dp_head := (dp_head d + 1) mod 64\<rparr>
          in (case dp_tab d (dp_head d) of
                None \<Rightarrow> None
              | Some p \<Rightarrow> Option.bind (call p (d1, s)) (task_rundp call)))"

section \<open>Mutual exclusion\<close>

text \<open>
  Any number of tasks that use one mutex. \<open>holds t\<close> is how often task \<open>t\<close> has entered and not left,
  \<open>waits t\<close> the wait type with which it sleeps, or has just been woken, inside \<^verbatim>\<open>mtx_enter\<close>, 0 outside. A step
  is a call of the running task, the rest of a call that slept, or something that happens behind the
  tasks' backs: the time slice ends, an interrupt or a signal resumes a task, the idle processor finds a task.
\<close>

record 'z users =
  holds :: "tid \<Rightarrow> int"
  waits :: "tid \<Rightarrow> int"
  kern :: "'z mstate_scheme"

definition after_enter ::
    "tid \<Rightarrow> int \<Rightarrow> 'z users \<Rightarrow> (errno + outcome) \<times> 'z mstate_scheme \<Rightarrow> 'z users" where
  "after_enter c wait u r =
     (case r of
        (Inl e, s') \<Rightarrow>
          u\<lparr>holds := (holds u)(c := holds u c + (if e = EZERO then 1 else 0)), waits := (waits u)(c := 0), kern := s'\<rparr>
      | (Inr out, s') \<Rightarrow> u\<lparr>waits := (waits u)(c := wait), kern := s'\<rparr>)"

inductive mtx_step :: "nat \<Rightarrow> 'z users \<Rightarrow> 'z users \<Rightarrow> bool" for m where
  enter: "curr (kern u) = Some c \<Longrightarrow> waits u c = 0 \<Longrightarrow> wait \<in> {0, WAIT_INTR, WAIT_NOINTR} \<Longrightarrow>
     mtx_enter m wait (kern u) = Some r \<Longrightarrow> mtx_step m u (after_enter c wait u r)"
| retry: "curr (kern u) = Some c \<Longrightarrow> waits u c \<noteq> 0 \<Longrightarrow>
     mtx_loop m (waits u c) (kern u) = Some r \<Longrightarrow> mtx_step m u (after_enter c (waits u c) u r)"
| leave: "curr (kern u) = Some c \<Longrightarrow> waits u c = 0 \<Longrightarrow> holds u c > 0 \<Longrightarrow> mtx_leave m (kern u) = Some s' \<Longrightarrow>
     mtx_step m u (u\<lparr>holds := (holds u)(c := holds u c - 1), kern := s'\<rparr>)"
| preempt: "curr (kern u) = Some c \<Longrightarrow> sched (kern u) = Some (out, s') \<Longrightarrow> mtx_step m u (u\<lparr>kern := s'\<rparr>)"
| resume: "t \<in> alive (kern u) \<Longrightarrow> task_resume t (kern u) = Some s' \<Longrightarrow> mtx_step m u (u\<lparr>kern := s'\<rparr>)"
| idle: "curr (kern u) = None \<Longrightarrow> task_count (kern u) \<noteq> task_pcount (kern u) \<Longrightarrow>
     sched_resume prev (kern u) = Some (out, s') \<Longrightarrow> mtx_step m u (u\<lparr>kern := s'\<rparr>)"

inductive mtx_run :: "nat \<Rightarrow> 'z users \<Rightarrow> 'z users \<Rightarrow> bool" for m where
  start: "mtx_run m u u"
| step: "mtx_run m u v \<Longrightarrow> mtx_step m v w \<Longrightarrow> mtx_run m u w"

definition cpu_ok :: "'z kstate_scheme \<Rightarrow> (qid \<Rightarrow> tid list) \<Rightarrow> bool" where
  "cpu_ok s L \<longleftrightarrow> kinv s L \<and> (curr s = None \<or> running s L)"

definition mtx_fresh :: "nat \<Rightarrow> 'z users \<Rightarrow> bool" where
  "mtx_fresh m u \<longleftrightarrow> (\<forall>t. holds u t = 0 \<and> waits u t = 0) \<and> mtx (kern u) m = \<lparr>m_owner = None, lockcnt = 0\<rparr> \<and>
     (\<exists>L. cpu_ok (kern u) L \<and> L (mtx_q m) = [])"

text \<open>
  The lock and its users agree. A task sleeps on the mutex only while somebody holds it, and a user that
  waits either sleeps there or can run.
\<close>

definition lock_ok :: "nat \<Rightarrow> 'z users \<Rightarrow> bool" where
  "lock_ok m u \<longleftrightarrow>
     (case m_owner (mtx (kern u) m) of
        None \<Rightarrow> lockcnt (mtx (kern u) m) = 0 \<and> (\<forall>t. holds u t = 0)
      | Some t \<Rightarrow> lockcnt (mtx (kern u) m) = holds u t \<and> holds u t > 0 \<and> (\<forall>v. v \<noteq> t \<longrightarrow> holds u v = 0))"

definition sleep_ok :: "nat \<Rightarrow> 'z users \<Rightarrow> (qid \<Rightarrow> tid list) \<Rightarrow> bool" where
  "sleep_ok m u L \<longleftrightarrow> cpu_ok (kern u) L \<and>
     (m_owner (mtx (kern u) m) = None \<longrightarrow> L (mtx_q m) = []) \<and>
     (\<forall>t. waits u t \<noteq> 0 \<longrightarrow> (waits u t = WAIT_INTR \<or> waits u t = WAIT_NOINTR) \<and> t \<in> alive (kern u) \<and>
        holds u t = 0 \<and> (paused (tsk (kern u) t) \<noteq> 0 \<longrightarrow> t \<in> set (L (mtx_q m))))"

lemma mtx_q_simps [simp]: "\<not> is_ready (mtx_q m)" "\<not> is_ready (put_q m)" "\<not> is_ready (get_q m)" "put_q m \<noteq> get_q k"
  "get_q m \<noteq> put_q k"
  by (simp_all add: mtx_q_def put_q_def get_q_def) presburger+

lemma mstate_more:
  assumes "kstate.more s' = kstate.more s"
  shows "mtx s' = mtx s" "mq s' = mq s"
  using assms by (cases s; cases s'; simp)+

lemma upd_mtx_simps [simp]:
  "curr (upd_mtx m own n s) = curr s" "tsk (upd_mtx m own n s) = tsk s" "slot (upd_mtx m own n s) = slot s"
  "alive (upd_mtx m own n s) = alive s" "mtx (upd_mtx m own n s) = (mtx s)(m := \<lparr>m_owner = own, lockcnt = n\<rparr>)"
  by (simp_all add: upd_mtx_def alive_def)

lemma upd_mtx_kinv [simp]: "kinv (upd_mtx m own n s) L = kinv s L" "running (upd_mtx m own n s) L = running s L"
proof -
  have "tq_inv (upd_mtx m own n s) L = tq_inv s L" by (rule tq_inv_cong) (simp_all add: upd_mtx_def)
  moreover have "kcore (upd_mtx m own n s) L = kcore s L"
    by (simp add: kcore_def sleeping_def) (simp add: upd_mtx_def)
  ultimately show "kinv (upd_mtx m own n s) L = kinv s L" by (simp add: kinv_def)
  show "running (upd_mtx m own n s) L = running s L" by (simp add: running_def split: option.splits)
qed

lemma upd_mtx_cpu [simp]: "cpu_ok (upd_mtx m own n s) L = cpu_ok s L"
  by (simp add: cpu_ok_def)

lemma woken_cpu: "woken s L s' L' \<Longrightarrow> cpu_ok s L \<Longrightarrow> cpu_ok s' L'"
  by (auto simp: woken_def cpu_ok_def)

text \<open>Steps of the processor that leave the mutexes and the wait queues alone.\<close>

definition passes ::
    "'z mstate_scheme \<Rightarrow> (qid \<Rightarrow> tid list) \<Rightarrow> 'z mstate_scheme \<Rightarrow> (qid \<Rightarrow> tid list) \<Rightarrow> bool" where
  "passes s L s' L' \<longleftrightarrow> cpu_ok s' L' \<and> mtx s' = mtx s \<and> alive s' = alive s \<and>
     (\<forall>q. \<not> is_ready q \<longrightarrow> set (L' q) \<subseteq> set (L q)) \<and>
     (\<forall>q t. \<not> is_ready q \<longrightarrow> t \<in> set (L q) \<longrightarrow> t \<in> set (L' q) \<or> paused (tsk s' t) = 0) \<and>
     (\<forall>t. paused (tsk s t) = 0 \<longrightarrow> paused (tsk s' t) = 0)"

lemma passes_ok:
  assumes "passes (kern u) L s' L'" and "lock_ok m u" and "sleep_ok m u L"
  shows "lock_ok m (u\<lparr>kern := s'\<rparr>)" "sleep_ok m (u\<lparr>kern := s'\<rparr>) L'"
proof -
  show "lock_ok m (u\<lparr>kern := s'\<rparr>)" using assms(1,2) by (simp add: lock_ok_def passes_def split: option.splits)
  have "L' (mtx_q m) = []" if "L (mtx_q m) = []"
    using assms(1) that unfolding passes_def by (metis empty_set mtx_q_simps(1) set_empty subset_empty)
  moreover have "t \<in> set (L' (mtx_q m))" if "waits u t \<noteq> 0" "paused (tsk s' t) \<noteq> 0" for t
    using assms(1,3) that unfolding sleep_ok_def passes_def by (metis mtx_q_simps(1))
  ultimately show "sleep_ok m (u\<lparr>kern := s'\<rparr>) L'"
    using assms(1,3) by (auto simp: sleep_ok_def passes_def)
qed

lemma after_refused:
  assumes "passes (kern u) L s' L'" and "lock_ok m u" and "sleep_ok m u L" and "e \<noteq> EZERO"
  shows "lock_ok m (after_enter c wait u (Inl e, s')) \<and> (\<exists>L'. sleep_ok m (after_enter c wait u (Inl e, s')) L')"
proof -
  have "lock_ok m (after_enter c wait u (Inl e, s'))" "sleep_ok m (after_enter c wait u (Inl e, s')) L'"
    using passes_ok [OF assms(1-3)] assms(4) by (auto simp: after_enter_def lock_ok_def sleep_ok_def split: option.splits)
  then show ?thesis by blast
qed

lemma paused_slice:
  assumes "\<forall>u. tsk s' u = (tsk s u)\<lparr>time_slice := time_slice (tsk s' u)\<rparr>"
  shows "paused (tsk s' t) = paused (tsk s t)" "exited (tsk s' t) = exited (tsk s t)"
  by (subst assms [rule_format], simp)+

lemma scheduled_cpu: "scheduled r s L \<Longrightarrow> cpu_ok s L"
  by (cases r) (auto simp: scheduled_def cpu_ok_def)

lemma sched_passes:
  assumes "cpu_ok s L" and "curr s = Some c" and "sched s = Some (out, s')"
  shows "\<exists>L'. passes s L s' L'"
proof -
  have k: "kinv s L" "running s L" using assms(1,2) by (auto simp: cpu_ok_def)
  have c: "slot s c" "c < TASK_MAX" "\<forall>q. c \<notin> set (L q)" using running_not_queued [OF k(2) assms(2)] by (auto simp: alive_def)
  obtain L' where L': "scheduled out s' L'" "slot s' = slot s" "\<forall>q. \<not> is_ready q \<longrightarrow> L' q = L q"
      "\<forall>u. tsk s' u = (tsk s u)\<lparr>time_slice := time_slice (tsk s' u)\<rparr>"
    using sched_kinv [OF k(1) assms(2) c(1,2)] c(3) assms(3) by auto
  have "alive s' = alive s" using paused_slice [OF L'(4)] L'(2) by (simp add: alive_def)
  then have "passes s L s' L'"
    using scheduled_cpu [OF L'(1)] L'(3) paused_slice [OF L'(4)] mstate_more(1) [of s' s] sched_kept [OF assms(3)]
    by (simp add: passes_def)
  then show ?thesis by blast
qed

lemma idle_passes:
  assumes "cpu_ok s L" and "curr s = None" and "task_count s \<noteq> task_pcount s" and "sched_resume prev s = Some (out, s')"
  shows "\<exists>L'. passes s L s' L'"
proof -
  have k: "kinv s L" using assms(1) by (simp add: cpu_ok_def)
  obtain L' where L': "kinv s' L'" "running s' L'" "slot s' = slot s" "\<forall>q. \<not> is_ready q \<longrightarrow> L' q = L q"
      "\<forall>u. tsk s' u = (tsk s u)\<lparr>time_slice := time_slice (tsk s' u)\<rparr>"
    using sched_resume_kinv [OF k assms(2,3), of prev] assms(4) by auto
  have "kept s' = kept s"
    using assms(4) by (auto simp: sched_resume_def split: Option.bind_splits if_splits dest!: sched_pick_kept)
  moreover have "alive s' = alive s" using paused_slice [OF L'(5)] L'(3) by (simp add: alive_def)
  ultimately have "passes s L s' L'"
    using L' paused_slice [OF L'(5)] mstate_more(1) [of s' s] by (simp add: passes_def cpu_ok_def)
  then show ?thesis by blast
qed

lemma woken_passes:
  assumes "cpu_ok s L" and "woken s L s' L'"
  shows "passes s L s' L'"
  using assms woken_cpu [OF assms(2,1)] woken_alive [OF assms(2)] mstate_more(1) [of s' s]
    woken_task(6) [OF assms(2)] by (auto simp: passes_def woken_def)

lemma unseen_cpu [simp]:
  "cpu_ok (upd_task c (unseen_events_update f) s) L = cpu_ok s L"
  "alive (upd_task c (unseen_events_update f) s) = alive s"
proof -
  let ?s = "upd_task c (unseen_events_update f) s"
  show al: "alive ?s = alive s" by (auto simp: alive_def upd_task_def)
  have "tq_inv ?s L = tq_inv s L" by (rule tq_inv_cong) (simp_all add: upd_task_def)
  then have "kinv ?s L = kinv s L"
    using harmless_kcore [of "unseen_events_update f" c s L] by (simp add: kinv_def)
  moreover have "curr ?s = curr s" "paused (tsk ?s t) = paused (tsk s t)" for t by (simp_all add: upd_task_def)
  moreover from this have "running ?s L = running s L" by (simp add: running_def al split: option.splits)
  ultimately show "cpu_ok ?s L = cpu_ok s L" by (simp add: cpu_ok_def)
qed

lemma mtx_loop_ok:
  assumes "lock_ok m u" and "sleep_ok m u L" and "curr (kern u) = Some c" and "holds u c = 0"
    and "wait \<in> {0, WAIT_INTR, WAIT_NOINTR}" and "mtx_loop m wait (kern u) = Some r"
  shows "lock_ok m (after_enter c wait u r) \<and> (\<exists>L'. sleep_ok m (after_enter c wait u r) L')"
proof -
  let ?s = "kern u"
  have k: "kinv ?s L" "running ?s L" using assms(2,3) by (auto simp: sleep_ok_def cpu_ok_def)
  have c: "c \<in> alive ?s" "paused (tsk ?s c) = 0" "\<forall>q. c \<notin> set (L q)" using running_not_queued [OF k(2) assms(3)] by auto
  show ?thesis
  proof (cases "lockcnt (mtx ?s m) = 0")
    case True
    then have "m_owner (mtx ?s m) = None" using assms(1) by (auto simp: lock_ok_def split: option.splits)
    moreover have "r = (Inl EZERO, upd_mtx m (Some c) 1 ?s)" using assms(3,6) True by (simp add: mtx_loop_def)
    ultimately show ?thesis using assms(1,2) by (auto simp: after_enter_def lock_ok_def sleep_ok_def)
  next
    case False
    then have own: "m_owner (mtx ?s m) \<noteq> None" using assms(1) by (auto simp: lock_ok_def split: option.splits)
    consider "wait = 0" | "wait \<noteq> 0" "interrupted wait (tsk ?s c)" | "wait \<noteq> 0" "\<not> interrupted wait (tsk ?s c)" by blast
    then show ?thesis
    proof cases
      case 1
      then have "r = (Inl EAGAIN, ?s)" using assms(6) False by (simp add: mtx_loop_def)
      moreover have "passes ?s L ?s L" using assms(2) by (simp add: passes_def sleep_ok_def)
      ultimately show ?thesis using after_refused assms(1,2) by blast
    next
      case 2
      let ?s1 = "upd_task c (unseen_events_update (\<lambda>_. 0)) ?s"
      have "passes ?s L ?s1 L" using assms(2) by (simp add: passes_def sleep_ok_def) (simp add: upd_task_def)
      moreover have "r = (Inl EINTR, upd_task c (unseen_events_update (\<lambda>_. 0)) ?s)"
        using suspend_enter_interrupted [OF assms(3) c(2), of "Some (mtx_q m)" wait] assms(5,6) False 2
        by (auto simp: mtx_loop_def task_suspend_def)
      ultimately show ?thesis using after_refused assms(1,2) by blast
    next
      case 3
      then obtain out s' L' where s': "task_suspend (Some (mtx_q m)) wait ?s = Some (Inr out, s')" "scheduled out s' L'"
          "paused (tsk s' c) = wait" "L' (mtx_q m) = L (mtx_q m) @ [c]" "alive s' = alive ?s"
          "\<forall>v. v \<noteq> c \<longrightarrow> paused (tsk s' v) = paused (tsk ?s v)"
        using task_suspend_enters [OF k assms(3), of "mtx_q m" wait] assms(5) by auto
      then have r: "r = (Inr out, s')" using assms(6) False 3(1) by (simp add: mtx_loop_def)
      have "mtx s' = mtx ?s" using mstate_more(1) [of s' ?s] task_suspend_kept [OF s'(1)] by simp
      then have "lock_ok m (after_enter c wait u r)" "sleep_ok m (after_enter c wait u r) L'"
        using assms(1,2,4,5) s' own c(1) scheduled_cpu [OF s'(2)] 3(1)
        by (auto simp: r after_enter_def lock_ok_def sleep_ok_def split: option.splits)
      then show ?thesis by blast
    qed
  qed
qed

lemma mtx_enter_ok:
  assumes "lock_ok m u" and "sleep_ok m u L" and "curr (kern u) = Some c" and "waits u c = 0"
    and "wait \<in> {0, WAIT_INTR, WAIT_NOINTR}" and "mtx_enter m wait (kern u) = Some r"
  shows "lock_ok m (after_enter c wait u r) \<and> (\<exists>L'. sleep_ok m (after_enter c wait u r) L')"
proof (cases "m_owner (mtx (kern u) m) = None \<or> m_owner (mtx (kern u) m) = Some c")
  case True
  then have "r = (Inl EZERO, upd_mtx m (Some c) (lockcnt (mtx (kern u) m) + 1) (kern u))"
    using assms(1,3,6) by (auto simp: mtx_enter_def lock_ok_def split: option.splits)
  then have "lock_ok m (after_enter c wait u r)" "sleep_ok m (after_enter c wait u r) L"
    using assms(1,2,4) True by (auto simp: after_enter_def lock_ok_def sleep_ok_def split: option.splits)
  then show ?thesis by blast
next
  case False
  then have "holds u c = 0" using assms(1) by (auto simp: lock_ok_def split: option.splits)
  moreover have "mtx_loop m wait (kern u) = Some r" using assms(3,6) False by (simp add: mtx_enter_def split: if_splits)
  ultimately show ?thesis using mtx_loop_ok assms by blast
qed

lemma lock_owner:
  assumes "lock_ok m u" and "holds u c > 0"
  shows "mtx (kern u) m = \<lparr>m_owner = Some c, lockcnt = holds u c\<rparr>" "\<forall>v. v \<noteq> c \<longrightarrow> holds u v = 0"
proof -
  obtain x where x: "m_owner (mtx (kern u) m) = Some x" "lockcnt (mtx (kern u) m) = holds u x"
      "\<forall>w. w \<noteq> x \<longrightarrow> holds u w = 0"
    using assms by (cases "m_owner (mtx (kern u) m)") (auto simp: lock_ok_def)
  have "x = c" using x(3) assms(2) by (metis less_irrefl)
  then show "mtx (kern u) m = \<lparr>m_owner = Some c, lockcnt = holds u c\<rparr>" "\<forall>v. v \<noteq> c \<longrightarrow> holds u v = 0"
    using x by simp_all
qed

lemma mtx_leave_ok:
  assumes "lock_ok m u" and "sleep_ok m u L" and "curr (kern u) = Some c" and "waits u c = 0" and "holds u c > 0"
  shows "\<exists>s' L'. mtx_leave m (kern u) = Some s' \<and> lock_ok m (u\<lparr>holds := (holds u)(c := holds u c - 1), kern := s'\<rparr>) \<and>
           sleep_ok m (u\<lparr>holds := (holds u)(c := holds u c - 1), kern := s'\<rparr>) L'"
proof -
  let ?s = "kern u"
  have own: "m_owner (mtx ?s m) = Some c" "lockcnt (mtx ?s m) = holds u c" "\<forall>v. v \<noteq> c \<longrightarrow> holds u v = 0"
    using lock_owner [OF assms(1,5)] by simp_all
  show ?thesis
  proof (cases "holds u c = 1")
    case False
    then have "mtx_leave m ?s = Some (upd_mtx m (Some c) (holds u c - 1) ?s)"
      using assms(3) own by (simp add: mtx_leave_def)
    moreover have "lock_ok m (u\<lparr>holds := (holds u)(c := holds u c - 1), kern := upd_mtx m (Some c) (holds u c - 1) ?s\<rparr>)"
      using False own assms(5) by (auto simp: lock_ok_def)
    moreover have "sleep_ok m (u\<lparr>holds := (holds u)(c := holds u c - 1), kern := upd_mtx m (Some c) (holds u c - 1) ?s\<rparr>) L"
      using assms(2,4) by (auto simp: sleep_ok_def)
    ultimately show ?thesis by blast
  next
    case True
    let ?s1 = "upd_mtx m None 0 ?s"
    have cpu: "cpu_ok ?s1 L" using assms(2) by (simp add: sleep_ok_def)
    obtain s' L' where s': "wake_all (mtx_q m) ?s1 = Some s'" "woken ?s1 L s' L'" "L' (mtx_q m) = []"
      using wake_all_woken [of ?s1 L "mtx_q m"] cpu by (auto simp: cpu_ok_def)
    note p = woken_passes [OF cpu s'(2)]
    have "mtx_leave m ?s = Some s'" using assms(3) own True s'(1) by (simp add: mtx_leave_def)
    moreover have "lock_ok m (u\<lparr>holds := (holds u)(c := holds u c - 1), kern := s'\<rparr>)"
      using p own True by (auto simp: lock_ok_def passes_def)
    moreover have "sleep_ok m (u\<lparr>holds := (holds u)(c := holds u c - 1), kern := s'\<rparr>) L'"
      using p assms(2,4) s'(3) unfolding sleep_ok_def passes_def by (auto split: if_splits) (metis empty_iff empty_set mtx_q_simps(1))+
    ultimately show ?thesis by blast
  qed
qed

lemma mtx_step_ok:
  assumes "mtx_step m u v" and "lock_ok m u" and "sleep_ok m u L"
  shows "lock_ok m v \<and> (\<exists>L'. sleep_ok m v L')"
proof -
  have cpu: "cpu_ok (kern u) L" using assms(3) by (simp add: sleep_ok_def)
  from assms(1) show ?thesis
  proof cases
    case (enter c wait r)
    then show ?thesis using mtx_enter_ok [OF assms(2,3)] by blast
  next
    case (retry c r)
    then have "holds u c = 0" "waits u c \<in> {0, WAIT_INTR, WAIT_NOINTR}" using assms(3) by (auto simp: sleep_ok_def)
    then show ?thesis using mtx_loop_ok [OF assms(2,3)] retry by blast
  next
    case (leave c s')
    then show ?thesis using mtx_leave_ok [OF assms(2,3) leave(2-4)] by auto
  next
    case (preempt c out s')
    then show ?thesis using sched_passes [OF cpu] passes_ok [OF _ assms(2,3)] by blast
  next
    case (resume t s')
    have "kinv (kern u) L" using cpu by (simp add: cpu_ok_def)
    then obtain L' where "woken (kern u) L s' L'" using resume_woken [of "kern u" L t] resume(2,3) by auto
    then show ?thesis using woken_passes [OF cpu] passes_ok [OF _ assms(2,3)] resume(1) by blast
  next
    case (idle prev out s')
    then show ?thesis using idle_passes [OF cpu] passes_ok [OF _ assms(2,3)] by blast
  qed
qed

definition mtx_inv :: "nat \<Rightarrow> 'z users \<Rightarrow> bool" where
  "mtx_inv m u \<longleftrightarrow> lock_ok m u \<and> (\<exists>L. sleep_ok m u L)"

lemma mtx_fresh_inv: "mtx_fresh m u \<Longrightarrow> mtx_inv m u"
  by (fastforce simp: mtx_fresh_def mtx_inv_def lock_ok_def sleep_ok_def)

lemma mtx_run_inv: "mtx_run m u v \<Longrightarrow> mtx_inv m u \<Longrightarrow> mtx_inv m v"
  unfolding mtx_inv_def by (induction rule: mtx_run.induct) (use mtx_step_ok in blast)+

text \<open>
  C27: Mutual exclusion. However the calls of \<^verbatim>\<open>mtx_enter\<close> and \<^verbatim>\<open>mtx_leave\<close> of any number of tasks interleave with each
  other, with preemption and with wake-ups by interrupts and signals, at most one task is inside
  the mutex: it is the recorded owner, and \<^verbatim>\<open>lockcnt\<close> is exactly how often it has entered.
\<close>

theorem mtx_exclusive:
  assumes "mtx_inv m u" and "mtx_run m u v" and "holds v t > 0"
  shows "mtx (kern v) m = \<lparr>m_owner = Some t, lockcnt = holds v t\<rparr> \<and> (\<forall>t'. holds v t' > 0 \<longrightarrow> t' = t)"
proof -
  have "lock_ok m v" using mtx_run_inv [OF assms(2,1)] by (simp add: mtx_inv_def)
  note lock_owner [OF this assms(3)]
  then show ?thesis by (metis less_irrefl)
qed

text \<open>
  C28: No wake-up is lost. Whenever the mutex is free, every task that waits inside \<^verbatim>\<open>mtx_enter\<close>
  is running or on a ready queue, so it will find the mutex free or be put to sleep by a new owner.
\<close>

theorem mtx_no_lost_wakeup:
  assumes "mtx_inv m u" and "mtx_run m u v" and "m_owner (mtx (kern v) m) = None" and "waits v t \<noteq> 0"
  shows "\<exists>L. kinv (kern v) L \<and> (curr (kern v) = Some t \<or> (\<exists>i. t \<in> set (L (Ready i))))"
proof -
  obtain L where ok: "sleep_ok m v L" using mtx_run_inv [OF assms(2,1)] by (auto simp: mtx_inv_def)
  then have k: "kinv (kern v) L" and a: "t \<in> alive (kern v)" and p: "paused (tsk (kern v) t) = 0"
    using assms(3,4) by (auto simp: sleep_ok_def cpu_ok_def)
  then show ?thesis using kcore_runnable [of "kern v" L t] by (auto simp: kinv_def)
qed

text \<open>
  The mutex operations never panic: a task inside the mutex can always leave it, and \<^verbatim>\<open>mtx_enter\<close> and the loop
  after a wake-up always return or put the task to sleep.
\<close>

theorem mtx_progress:
  assumes "mtx_inv m u" and "mtx_run m u v" and "curr (kern v) = Some c" and "wait \<in> {0, WAIT_INTR, WAIT_NOINTR}"
  shows "(\<exists>r. mtx_enter m wait (kern v) = Some r) \<and> (\<exists>r. mtx_loop m wait (kern v) = Some r) \<and>
         (waits v c = 0 \<longrightarrow> holds v c > 0 \<longrightarrow> (\<exists>s'. mtx_leave m (kern v) = Some s'))"
proof -
  obtain L where ok: "lock_ok m v" "sleep_ok m v L" using mtx_run_inv [OF assms(2,1)] by (auto simp: mtx_inv_def)
  have k: "kinv (kern v) L" "running (kern v) L" using ok(2) assms(3) by (auto simp: sleep_ok_def cpu_ok_def)
  have p: "paused (tsk (kern v) c) = 0" using running_not_queued [OF k(2) assms(3)] by simp
  have "\<exists>r. task_suspend (Some (mtx_q m)) wait (kern v) = Some r" if "wait \<noteq> 0"
  proof (cases "interrupted wait (tsk (kern v) c)")
    case True
    then show ?thesis
      using suspend_enter_interrupted [OF assms(3) p, of "Some (mtx_q m)" wait] assms(4) that
      by (auto simp: task_suspend_def)
  next
    case False
    then show ?thesis using task_suspend_enters [OF k assms(3), of "mtx_q m" wait] assms(4) that by auto
  qed
  then have "\<exists>r. mtx_loop m wait (kern v) = Some r" using assms(3) by (simp add: mtx_loop_def)
  then show ?thesis using mtx_leave_ok [OF ok assms(3)] assms(3) by (auto simp: mtx_enter_def)
qed

section \<open>Message queues are bounded queues\<close>

text \<open>
  The slot of an item is its position in the ring, not multiplied by the size of an item; the queue is a
  queue of bytes when items are bytes.
\<close>

definition mq_ok :: "mqueue \<Rightarrow> bool" where
  "mq_ok q \<longleftrightarrow> itemsz q = 1 \<and> length (mq_buf q) = maxcnt q \<and> mq_first q < maxcnt q \<and> curcnt q \<le> maxcnt q"

definition mq_items :: "mqueue \<Rightarrow> 8 word list" where
  "mq_items q = ring_from (mq_buf q) (mq_first q) (curcnt q)"

lemma length_mq_items [simp]: "length (mq_items q) = curcnt q"
  by (simp add: mq_items_def)

lemma mq_store_appends:
  assumes "mq_ok q" and "curcnt q < maxcnt q"
  shows "mq_ok (mq_store [x] q)" "mq_items (mq_store [x] q) = mq_items q @ [x]"
proof -
  define w where "w = (mq_first q + curcnt q) mod maxcnt q"
  have ok: "itemsz q = 1" "length (mq_buf q) = maxcnt q" "mq_first q < maxcnt q"
    using assms(1) by (simp_all add: mq_ok_def)
  then have w: "w < length (mq_buf q)" unfolding w_def by (metis mod_less_divisor less_nat_zero_code not_gr_zero)
  then have l: "1 = (if length [x] + w > length (mq_buf q) then length (mq_buf q) - w else length [x])" by simp
  have r: "length (memcpy_in (memcpy_in (mq_buf q) w (take 1 [x])) 0 (drop 1 [x])) = length (mq_buf q) \<and>
      ring_from (memcpy_in (memcpy_in (mq_buf q) w (take 1 [x])) 0 (drop 1 [x])) (mq_first q) (curcnt q + length [x]) =
      ring_from (mq_buf q) (mq_first q) (curcnt q) @ [x]"
    by (rule ring_put [OF _ _ _ l refl]) (use ok assms(2) in \<open>simp_all add: w_def\<close>)
  have m: "memcpy_in b 0 [] = b" for b :: "8 word list" by (simp add: memcpy_in_def)
  have s: "mq_store [x] q = q\<lparr>mq_buf := memcpy_in (mq_buf q) w [x], curcnt := curcnt q + 1\<rparr>"
    by (simp add: mq_store_def ok w_def)
  show "mq_ok (mq_store [x] q)" using r assms ok by (simp add: s mq_ok_def m)
  show "mq_items (mq_store [x] q) = mq_items q @ [x]" using r by (simp add: s mq_items_def m)
qed

lemma mq_fetch_takes:
  assumes "mq_ok q" and "mq_items q = x # xs"
  shows "fst (mq_fetch q) = [x]" "mq_ok (snd (mq_fetch q))" "mq_items (snd (mq_fetch q)) = xs"
proof -
  have ok: "itemsz q = 1" "length (mq_buf q) = maxcnt q" "mq_first q < maxcnt q" "curcnt q \<le> maxcnt q"
    using assms(1) by (simp_all add: mq_ok_def)
  have c: "curcnt q > 0" using assms(2) by (metis length_mq_items length_greater_0_conv list.distinct(1))
  then have x: "x = mq_buf q ! mq_first q" using assms(2) ok nth_ring_from [of 0 "curcnt q" "mq_buf q" "mq_first q"]
    by (simp add: mq_items_def)
  show "fst (mq_fetch q) = [x]"
    using ok unfolding x by (simp add: mq_fetch_def take_Suc hd_drop_conv_nth)
  show "mq_ok (snd (mq_fetch q))" using ok c by (simp add: mq_ok_def mq_fetch_def)
  show "mq_items (snd (mq_fetch q)) = xs"
    using ring_drop [of 1 "curcnt q" "mq_buf q" "mq_first q"] c ok assms(2) by (simp add: mq_items_def mq_fetch_def)
qed

lemma upd_mq_kinv [simp]: "kinv (upd_mq m f s) L = kinv s L"
proof -
  have "tq_inv (upd_mq m f s) L = tq_inv s L" by (rule tq_inv_cong) (simp_all add: upd_mq_def)
  moreover have "alive (upd_mq m f s) = alive s" by (simp add: alive_def upd_mq_def)
  then have "kcore (upd_mq m f s) L = kcore s L" by (simp add: kcore_def sleeping_def) (simp add: upd_mq_def)
  ultimately show ?thesis by (simp add: kinv_def)
qed

text \<open>
  Message queues of bytes are bounded first-in first-out queues: a put below the limit appends the byte and
  wakes every task that waits for one; a get from a queue that is not empty returns the oldest byte, removes
  it and wakes every task that waits for room; both keep the queue and the scheduler consistent.
\<close>

theorem mq_fifo:
  fixes s :: "'z mstate_scheme"
  assumes "kinv s L" and "mq_ok (mq s m)"
  shows "(curcnt (mq s m) < maxcnt (mq s m) \<longrightarrow>
           (\<exists>s' L'. mq_put m [x] wait s = Some (Inl EZERO, s') \<and> kinv s' L' \<and> L' (get_q m) = [] \<and>
              mq_ok (mq s' m) \<and> mq_items (mq s' m) = mq_items (mq s m) @ [x])) \<and>
         (\<forall>y ys. mq_items (mq s m) = y # ys \<longrightarrow>
           (\<exists>s' L'. mq_get m wait s = Some (Inl (Inr [y]), s') \<and> kinv s' L' \<and> L' (put_q m) = [] \<and>
              mq_ok (mq s' m) \<and> mq_items (mq s' m) = ys))"
proof (intro conjI impI allI)
  assume c: "curcnt (mq s m) < maxcnt (mq s m)"
  let ?s1 = "upd_mq m (mq_store [x]) s"
  have k1: "kinv ?s1 L" using assms(1) by simp
  obtain s' L' where s': "wake_all (get_q m) ?s1 = Some s'" "woken ?s1 L s' L'" "L' (get_q m) = []"
    using wake_all_woken [OF k1, of "get_q m"] by auto
  have "mq s' m = mq_store [x] (mq s m)" using mstate_more(2) [of s' ?s1] s'(2) by (simp add: woken_def upd_mq_def)
  moreover have "mq_put m [x] wait s = Some (Inl EZERO, s')" using c s'(1) by (simp add: mq_put_def)
  ultimately show "\<exists>s' L'. mq_put m [x] wait s = Some (Inl EZERO, s') \<and> kinv s' L' \<and> L' (get_q m) = [] \<and>
      mq_ok (mq s' m) \<and> mq_items (mq s' m) = mq_items (mq s m) @ [x]"
    using mq_store_appends [OF assms(2) c, of x] s'(2,3) woken_kinv by metis
next
  fix y ys assume q: "mq_items (mq s m) = y # ys"
  note f = mq_fetch_takes [OF assms(2) q]
  let ?s1 = "upd_mq m (\<lambda>_. snd (mq_fetch (mq s m))) s"
  have k1: "kinv ?s1 L" using assms(1) by simp
  obtain s' L' where s': "wake_all (put_q m) ?s1 = Some s'" "woken ?s1 L s' L'" "L' (put_q m) = []"
    using wake_all_woken [OF k1, of "put_q m"] by auto
  have m: "mq s' m = snd (mq_fetch (mq s m))" using mstate_more(2) [of s' ?s1] s'(2) by (simp add: woken_def upd_mq_def)
  have "curcnt (mq s m) \<noteq> 0" using q by (metis length_mq_items length_0_conv list.distinct(1))
  then have "mq_get m wait s = Some (Inl (Inr [y]), s')"
    using s'(1) f(1) by (simp add: mq_get_def split_def)
  then show "\<exists>s' L'. mq_get m wait s = Some (Inl (Inr [y]), s') \<and> kinv s' L' \<and> L' (put_q m) = [] \<and>
      mq_ok (mq s' m) \<and> mq_items (mq s' m) = ys"
    using f(2,3) s'(2,3) m woken_kinv by metis
qed

text \<open>With items of two bytes the second item overwrites half of the first.\<close>

lemma mq_items_overlap:
  assumes "q = \<lparr>mq_buf = [0, 0, 0, 0], itemsz = 2, maxcnt = 2, curcnt = 0, mq_first = 0\<rparr>"
  shows "fst (mq_fetch (mq_store [3, 4] (mq_store [1, 2] q))) = [1, 3]"
  by (simp add: assms mq_fetch_def mq_store_def memcpy_in_def)

section \<open>Deferred procedures run in order\<close>

definition dp_ok :: "'p dprocs \<Rightarrow> bool" where
  "dp_ok d \<longleftrightarrow> dp_head d < 64 \<and> dp_cnt d \<le> 64 \<and> (\<forall>k < dp_cnt d. dp_tab d ((dp_head d + k) mod 64) \<noteq> None)"

definition pending :: "'p dprocs \<Rightarrow> 'p list" where
  "pending d = map (\<lambda>k. the (dp_tab d ((dp_head d + k) mod 64))) [0..<dp_cnt d]"

lemma task_defer_appends:
  assumes "dp_ok d" and "dp_cnt d < 64"
  shows "\<exists>d'. task_defer (Some p) d = Some d' \<and> dp_ok d' \<and> pending d' = pending d @ [p]"
proof -
  let ?d = "d\<lparr>dp_cnt := dp_cnt d + 1, dp_tab := (dp_tab d)((dp_head d + dp_cnt d) mod 64 := Some p)\<rparr>"
  have ne: "(dp_head d + k) mod 64 \<noteq> (dp_head d + dp_cnt d) mod 64" if "k < dp_cnt d" for k
    using assms that mod_once [of "dp_head d + k" 64] mod_once [of "dp_head d + dp_cnt d" 64]
    by (auto simp: dp_ok_def split: if_splits)
  have "dp_ok ?d" using assms ne by (auto simp: dp_ok_def less_Suc_eq)
  moreover have "pending ?d = pending d @ [p]" using ne by (simp add: pending_def)
  ultimately show ?thesis using assms(2) by (simp add: task_defer_def Let_def)
qed

lemma dp_take:
  assumes "dp_ok d" and "dp_cnt d \<noteq> 0" and "d1 = d\<lparr>dp_cnt := dp_cnt d - 1, dp_head := (dp_head d + 1) mod 64\<rparr>"
  shows "\<exists>p. dp_tab d (dp_head d) = Some p \<and> dp_ok d1 \<and> pending d = p # pending d1"
proof -
  have "dp_tab d ((dp_head d + 0) mod 64) \<noteq> None" using assms(1,2) unfolding dp_ok_def by blast
  then obtain p where p: "dp_tab d (dp_head d) = Some p" using assms(1) by (auto simp: dp_ok_def)
  have sh: "((dp_head d + 1) mod 64 + k) mod 64 = (dp_head d + Suc k) mod 64" for k
    by (simp add: mod_add_left_eq)
  have "dp_ok d1" using assms sh by (auto simp: dp_ok_def less_diff_conv)
  moreover have "pending d = p # pending d1"
  proof -
    have "[0..<dp_cnt d] = 0 # map Suc [0..<dp_cnt d - 1]"
      using assms(2) by (simp add: map_Suc_upt upt_conv_Cons)
    then show ?thesis using p assms(1) sh by (simp add: pending_def assms(3) dp_ok_def)
  qed
  ultimately show ?thesis using p by blast
qed

text \<open>
  Deferred procedures run once each, in the order in which they were deferred, and the table is empty afterwards:
  \<^verbatim>\<open>task_rundp\<close> terminates without a panic whenever the procedures themselves return and defer nothing.
  \<open>effect\<close> is what a procedure does to the rest of the state.
\<close>

theorem task_rundp_in_order:
  assumes "dp_ok d" and "\<And>p d s. call p (d, s) = Some (d, effect p s)"
  shows "\<exists>d'. task_rundp call (d, s) = Some (d', fold effect (pending d) s) \<and> dp_ok d' \<and> dp_cnt d' = 0"
  using assms(1)
proof (induction "dp_cnt d" arbitrary: d s)
  case 0
  then show ?case by (simp add: task_rundp.simps [of call "(d, s)"] pending_def)
next
  case (Suc n)
  let ?d1 = "d\<lparr>dp_cnt := dp_cnt d - 1, dp_head := (dp_head d + 1) mod 64\<rparr>"
  obtain p where p: "dp_tab d (dp_head d) = Some p" "dp_ok ?d1" "pending d = p # pending ?d1"
    using dp_take [OF Suc.prems _ refl] Suc.hyps(2) by auto
  have "task_rundp call (d, s) = task_rundp call (?d1, effect p s)"
    using Suc.hyps(2) p(1) assms(2) by (simp add: task_rundp.simps [of call "(d, s)"] Let_def)
  moreover have "n = dp_cnt ?d1" using Suc.hyps(2) by simp
  ultimately show ?case using Suc.hyps(1) [of ?d1 "effect p s"] p(2,3) by simp
qed

section \<open>Examples\<close>

text \<open>Task 0 runs and holds mutex 0, task 2 sleeps on it; message queue 0 holds one byte of at most two.\<close>

definition example_mtx :: mstate where
  "example_mtx = kstate.extend
     (example_state\<lparr>t_queue := (\<lambda>_. None)(1 := Some (Ready 32), 2 := Some (mtx_q 0)),
        q_first := (\<lambda>_. None)(Ready 32 := Some 1, mtx_q 0 := Some 2),
        q_last := (\<lambda>_. None)(Ready 32 := Some 1, mtx_q 0 := Some 2)\<rparr>)
     \<lparr>mtx = (\<lambda>_. \<lparr>m_owner = Some 0, lockcnt = 1\<rparr>),
      mq = (\<lambda>_. \<lparr>mq_buf = [9, 7], itemsz = 1, maxcnt = 2, curcnt = 1, mq_first = 1\<rparr>)\<rparr>"

definition example_users :: "unit users" where
  "example_users = \<lparr>holds = (\<lambda>t. if t = 0 then 1 else 0), waits = (\<lambda>t. if t = 2 then WAIT_INTR else 0), kern = example_mtx\<rparr>"

abbreviation mtx_queues :: "qid \<Rightarrow> tid list" where
  "mtx_queues \<equiv> (\<lambda>_. [])(Ready 32 := [1], mtx_q 0 := [2])"

lemmas example_mtx_defs = example_mtx_def kstate.extend_def kstate.defs mtx_q_def example_defs

lemma example_mtx_kinv: "kinv example_mtx mtx_queues" "running example_mtx mtx_queues" "curr example_mtx = Some 0"
    "alive example_mtx = {0, 1, 2}"
proof -
  show a: "alive example_mtx = {0, 1, 2}" by (auto simp: alive_def example_mtx_defs)
  have b: "sleeping example_mtx = {2}" unfolding sleeping_def a by (auto simp: example_mtx_defs)
  show "kinv example_mtx mtx_queues"
    unfolding kinv_def kcore_def a b by (auto simp: tq_inv_def example_mtx_defs)
  show "running example_mtx mtx_queues" unfolding running_def a by (auto simp: example_mtx_defs)
  show "curr example_mtx = Some 0" by (simp add: example_mtx_defs)
qed

lemma example_users_simps [simp]:
  "holds example_users t = (if t = 0 then 1 else 0)" "waits example_users t = (if t = 2 then WAIT_INTR else 0)"
  "kern example_users = example_mtx" "mtx example_mtx m = \<lparr>m_owner = Some 0, lockcnt = 1\<rparr>"
  by (simp_all add: example_users_def example_mtx_def kstate.extend_def kstate.defs)

lemma example_users_inv: "lock_ok 0 example_users" "sleep_ok 0 example_users mtx_queues" "mtx_inv 0 example_users"
proof -
  show a: "lock_ok 0 example_users" by (simp add: lock_ok_def)
  show b: "sleep_ok 0 example_users mtx_queues"
    using example_mtx_kinv by (simp add: sleep_ok_def cpu_ok_def)
  show "mtx_inv 0 example_users" using a b by (auto simp: mtx_inv_def)
qed

theorem mtx_exclusive_witness:
  "holds example_users 0 = 1 \<and> mtx (kern example_users) 0 = \<lparr>m_owner = Some 0, lockcnt = holds example_users 0\<rparr> \<and>
   {t'. holds example_users t' > 0} = {0}"
proof -
  have h: "holds example_users 0 = 1" "holds example_users 0 > 0" by simp_all
  note x = mtx_exclusive [OF example_users_inv(3) mtx_run.start h(2)]
  have "{t'. holds example_users t' > 0} = {0}" using x [THEN conjunct2] h(2) by blast
  then show ?thesis using h(1) x [THEN conjunct1] by (intro conjI)
qed

theorem mtx_no_lost_wakeup_witness:
  "\<exists>s L i. mtx_leave 0 example_mtx = Some s \<and> kinv s L \<and> (curr s = Some 2 \<or> 2 \<in> set (L (Ready i)))"
proof -
  have c: "curr (kern example_users) = Some 0" "waits example_users 0 = 0" "holds example_users 0 > 0"
    using example_mtx_kinv(3) by simp_all
  obtain s where s: "mtx_leave 0 (kern example_users) = Some s"
    using mtx_leave_ok [OF example_users_inv(1,2) c] by blast
  let ?v = "example_users\<lparr>holds := (holds example_users)(0 := holds example_users 0 - 1), kern := s\<rparr>"
  have run: "mtx_run 0 example_users ?v" by (rule mtx_run.step [OF mtx_run.start mtx_step.leave [OF c s]])
  have "lock_ok 0 ?v" using mtx_run_inv [OF run example_users_inv(3)] by (simp add: mtx_inv_def)
  then have "m_owner (mtx (kern ?v) 0) = None" by (auto simp: lock_ok_def split: option.splits if_splits)
  moreover have "waits ?v 2 \<noteq> 0" by simp
  ultimately show ?thesis
    using mtx_no_lost_wakeup [OF example_users_inv(3) run] s by auto
qed

theorem mtx_progress_witness:
  "(\<exists>r. mtx_enter 0 0 example_mtx = Some r) \<and> (\<exists>s'. mtx_leave 0 example_mtx = Some s')"
  using mtx_progress [OF example_users_inv(3) mtx_run.start, of 0 0] example_mtx_kinv(3) by simp

lemma example_mq: "mq_ok (mq example_mtx 0)" "mq_items (mq example_mtx 0) = [7]" "curcnt (mq example_mtx 0) < maxcnt (mq example_mtx 0)"
  by (simp_all add: mq_ok_def mq_items_def ring_from_def example_mtx_def kstate.extend_def kstate.defs)

theorem mq_fifo_witness:
  "(\<exists>s' L'. mq_put 0 [5] 0 example_mtx = Some (Inl EZERO, s') \<and> kinv s' L' \<and> mq_items (mq s' 0) = [7, 5]) \<and>
   (\<exists>s' L'. mq_get 0 0 example_mtx = Some (Inl (Inr [7]), s') \<and> kinv s' L' \<and> mq_items (mq s' 0) = [])"
proof -
  note f = mq_fifo [OF example_mtx_kinv(1) example_mq(1), of 5 0]
  show ?thesis using f example_mq(2,3) by auto
qed

theorem task_rundp_in_order_witness:
  "\<exists>d'. task_rundp (\<lambda>p (d, s). Some (d, s @ [p])) (\<lparr>dp_tab = (\<lambda>_. None)(63 := Some CHR ''a'', 0 := Some CHR ''b''), dp_head = 63, dp_cnt = 2\<rparr>, []) =
     Some (d', ''ab'') \<and> dp_cnt d' = 0"
proof -
  let ?d = "\<lparr>dp_tab = (\<lambda>_. None)(63 := Some CHR ''a'', 0 := Some CHR ''b''), dp_head = 63, dp_cnt = 2\<rparr>"
  have ok: "dp_ok ?d" by (auto simp: dp_ok_def numeral_2_eq_2 less_Suc_eq)
  have p: "pending ?d = ''ab''" by (simp add: pending_def upt_rec)
  show ?thesis
    using task_rundp_in_order [OF ok, of "\<lambda>p (d, s). Some (d, s @ [p])" "\<lambda>p s. s @ [p]" "[]"] unfolding p by auto
qed

end
