(* ===== verification/Clock.thy ===== *)
theory Clock
  imports Wakeup
begin

text \<open>
  The clock (\<^verbatim>\<open>kern/clock.c\<close>): the time of day and the time since boot, processor usage, time slices, and the
  alarms of the tasks with the system calls \<^verbatim>\<open>alarm\<close> and \<^verbatim>\<open>ualarm\<close> (\<^verbatim>\<open>kern/syscall.c\<close>).

  A moment is a pair of seconds (\<^verbatim>\<open>time_t\<close>, 64 bits) and ticks of 4 ms (\<^verbatim>\<open>unsigned\<close>, 32 bits, arithmetic on
  it wraps around). \<^verbatim>\<open>alarm_time\<close> and \<^verbatim>\<open>alarm_ticks\<close> cache the earliest alarm of all tasks, so that
  the interrupt handler looks at the tasks only when one may be due. \<^verbatim>\<open>clock_intr\<close> ends with calls of hooks
  (\<^verbatim>\<open>clock_procs\<close>, \<^verbatim>\<open>win_clock\<close>, \<^verbatim>\<open>fs_clock\<close>), a parameter of the model.
\<close>

section \<open>State and operations\<close>

abbreviation (input) SIGALRM :: nat where "SIGALRM \<equiv> 14"

record 'h cstate = kstate +
  g_cputime_cnt :: int
  g_cputime :: int
  uptime :: int
  upticks :: nat
  c_time :: int
  ticks :: nat
  g_alarm_ticks :: nat
  g_alarm_time :: int
  clock_procs :: "'h list"

definition clock_hz :: nat where "clock_hz = 250"

definition set_alarm :: "int \<Rightarrow> nat \<Rightarrow> ('h, 'z) cstate_scheme \<Rightarrow> ('h, 'z) cstate_scheme" where
  "set_alarm tm tc s =
     (if g_alarm_time s = 0 \<or> tm < g_alarm_time s \<or> (tm = g_alarm_time s \<and> tc < g_alarm_ticks s)
      then s\<lparr>g_alarm_ticks := tc, g_alarm_time := tm\<rparr> else s)"

definition chk_alarm :: "tid \<Rightarrow> ('h, 'z) cstate_scheme \<Rightarrow> ('h, 'z) cstate_scheme option" where
  "chk_alarm p s =
     (if alarm (tsk s p) = 0 then Some s
      else
        let tc = ticks s; tm = c_time s
        in if (alarm (tsk s p) = tm \<and> alarm_ticks (tsk s p) \<le> tc) \<or> alarm (tsk s p) < tm
           then do {
             (_, s1) \<leftarrow> signal_send_k p (int SIGALRM) s;
             let s2 = upd_task p (alarm_update (\<lambda>_. 0)) s1;
             if alarm_repeat (tsk s2 p) \<noteq> 0 then
               let at = (tc + alarm_repeat (tsk s2 p)) mod 2 ^ 32;
                   am = (if at \<ge> clock_hz then tm + int (at div clock_hz) else tm);
                   at' = (if at \<ge> clock_hz then at mod clock_hz else at)
               in Some (set_alarm am at' (upd_task p (\<lambda>u. u\<lparr>alarm_ticks := at', alarm := am\<rparr>) s2))
             else Some s2
           }
           else Some (set_alarm (alarm (tsk s p)) (alarm_ticks (tsk s p)) s))"

fun chk_alarms :: "tid list \<Rightarrow> ('h, 'z) cstate_scheme \<Rightarrow> ('h, 'z) cstate_scheme option" where
  "chk_alarms [] s = Some s"
| "chk_alarms (i # is) s = do { s1 \<leftarrow> (if slot s i then chk_alarm i s else Some s); chk_alarms is s1 }"

text \<open>The parts of \<^verbatim>\<open>clock_intr\<close>, in order: usage, uptime, time, time slice, alarms.\<close>

definition clock_usage :: "('h, 'z) cstate_scheme \<Rightarrow> ('h, 'z) cstate_scheme" where
  "clock_usage s =
     (case curr s of
        None \<Rightarrow> s
      | Some c \<Rightarrow> (upd_task c (\<lambda>u. u\<lparr>cputime_cnt := cputime_cnt u + 1\<rparr>) s)\<lparr>g_cputime_cnt := g_cputime_cnt s + 1\<rparr>)"

definition clock_second :: "('h, 'z) cstate_scheme \<Rightarrow> ('h, 'z) cstate_scheme" where
  "clock_second s =
     s\<lparr>tsk := (\<lambda>i. if i < TASK_MAX \<and> slot s i then (tsk s i)\<lparr>cputime := cputime_cnt (tsk s i), cputime_cnt := 0\<rparr>
                  else tsk s i),
       switch_freq := switch_cnt s, switch_cnt := 0,
       g_cputime := g_cputime_cnt s, g_cputime_cnt := 0, upticks := 0, uptime := uptime s + 1\<rparr>"

definition clock_uptick :: "('h, 'z) cstate_scheme \<Rightarrow> ('h, 'z) cstate_scheme" where
  "clock_uptick s =
     (let s1 = s\<lparr>upticks := (upticks s + 1) mod 2 ^ 32\<rparr> in if upticks s1 \<ge> clock_hz then clock_second s1 else s1)"

definition clock_advance :: "('h, 'z) cstate_scheme \<Rightarrow> ('h, 'z) cstate_scheme" where
  "clock_advance s =
     (let s1 = s\<lparr>ticks := (ticks s + 1) mod 2 ^ 32\<rparr>
      in if ticks s1 \<ge> clock_hz then s1\<lparr>ticks := 0, c_time := c_time s1 + 1\<rparr> else s1)"

definition clock_slice :: "('h, 'z) cstate_scheme \<Rightarrow> ('h, 'z) cstate_scheme" where
  "clock_slice s =
     (case curr s of
        None \<Rightarrow> s
      | Some c \<Rightarrow>
          let s1 = upd_task c (\<lambda>u. u\<lparr>time_slice := time_slice u - 1\<rparr>) s
          in if time_slice (tsk s1 c) < 0 then s1\<lparr>resched := True\<rparr> else s1)"

definition clock_alarms :: "('h, 'z) cstate_scheme \<Rightarrow> ('h, 'z) cstate_scheme option" where
  "clock_alarms s =
     (if g_alarm_time s \<noteq> 0 \<and>
         ((g_alarm_time s = c_time s \<and> g_alarm_ticks s \<le> ticks s) \<or> g_alarm_time s < c_time s)
      then chk_alarms [0..<TASK_MAX] (s\<lparr>g_alarm_time := 0\<rparr>)
      else Some s)"

definition clock_tick :: "('h, 'z) cstate_scheme \<Rightarrow> ('h, 'z) cstate_scheme option" where
  "clock_tick s = clock_alarms (clock_slice (clock_advance (clock_uptick (clock_usage s))))"

definition clock_intr ::
    "(('h, 'z) cstate_scheme \<Rightarrow> ('h, 'z) cstate_scheme option) \<Rightarrow> ('h, 'z) cstate_scheme \<Rightarrow> ('h, 'z) cstate_scheme option" where
  "clock_intr hooks s = Option.bind (clock_tick s) hooks"

definition clock_ihand2 :: "errno \<Rightarrow> 'h \<Rightarrow> ('h, 'z) cstate_scheme \<Rightarrow> errno \<times> ('h, 'z) cstate_scheme" where
  "clock_ihand2 kmalloc proc s =
     (if kmalloc \<noteq> EZERO then (kmalloc, s) else (EZERO, s\<lparr>clock_procs := clock_procs s @ [proc]\<rparr>))"

text \<open>\<^verbatim>\<open>clock_delay\<close> computes when its busy wait ends; \<^verbatim>\<open>delay\<close> is a 64-bit number of ticks, added to a 32-bit one.\<close>

definition delay_end :: "int \<Rightarrow> ('h, 'z) cstate_scheme \<Rightarrow> int \<times> nat" where
  "delay_end delay s =
     (let et = nat ((int (ticks s) + delay) mod 2 ^ 32)
      in (c_time s + int (et div clock_hz), et mod clock_hz))"

text \<open>The system calls; the results are of type \<^verbatim>\<open>unsigned\<close>.\<close>

definition sys_alarm :: "32 word \<Rightarrow> ('h, 'z) cstate_scheme \<Rightarrow> (32 word \<times> ('h, 'z) cstate_scheme) option" where
  "sys_alarm delay s = do {
     c \<leftarrow> curr s;
     let tc = ticks s;
     let tm = c_time s;
     let (ret, s1) = (if alarm (tsk s c) \<noteq> 0
                      then (word_of_int (alarm (tsk s c) - tm), upd_task c (alarm_update (\<lambda>_. 0)) s)
                      else (0, s));
     if delay = 0 then Some (ret, upd_task c (\<lambda>u. u\<lparr>alarm_ticks := 0, alarm := 0\<rparr>) s1)
     else
       let am = tm + int (unat delay)
       in Some (ret, set_alarm am tc (upd_task c (\<lambda>u. u\<lparr>alarm := am, alarm_ticks := tc\<rparr>) s1))
   }"

text \<open>The period and the moment that \<^verbatim>\<open>ualarm\<close> computes from a delay in microseconds.\<close>

definition ualarm_period :: "32 word \<Rightarrow> nat" where
  "ualarm_period u_delay = (unat u_delay * clock_hz + clock_hz - 1) mod 2 ^ 32 div 1000000"

definition ualarm_at :: "int \<Rightarrow> nat \<Rightarrow> 32 word \<Rightarrow> int \<times> nat" where
  "ualarm_at tm tc u_delay =
     (let atc = (tc + unat u_delay * clock_hz mod 2 ^ 32 div 1000000) mod 2 ^ 32
      in if atc \<ge> clock_hz then (tm + int (atc div clock_hz), atc mod clock_hz) else (tm, atc))"

definition sys_ualarm ::
    "32 word \<Rightarrow> bool \<Rightarrow> ('h, 'z) cstate_scheme \<Rightarrow> ((errno + 32 word) \<times> ('h, 'z) cstate_scheme) option" where
  "sys_ualarm u_delay repeat s = do {
     c \<leftarrow> curr s;
     if unat u_delay > 1000000 then Some (Inl EINVAL, s)
     else do {
       let tc = ticks s;
       let tm = c_time s;
       let (ret, s1) = (if alarm (tsk s c) \<noteq> 0
                        then (word_of_int (int (alarm_ticks (tsk s c)) - int tc + (alarm (tsk s c) - tm) * 1000000),
                              upd_task c (alarm_update (\<lambda>_. 0)) s)
                        else (0, s));
       if u_delay = 0 then Some (Inr ret, upd_task c (\<lambda>u. u\<lparr>alarm_ticks := 0, alarm := 0\<rparr>) s1)
       else
         let (atm, atc) = ualarm_at tm tc u_delay
         in Some (Inr ret, set_alarm atm atc
              (upd_task c (\<lambda>u. u\<lparr>alarm_repeat := if repeat then ualarm_period u_delay else 0, alarm_ticks := atc, alarm := atm\<rparr>) s1))
     }
   }"

section \<open>Moments\<close>

text \<open>The order of moments, and the moment as a number of ticks.\<close>

definition no_later :: "int \<Rightarrow> nat \<Rightarrow> int \<Rightarrow> nat \<Rightarrow> bool" where
  "no_later am at bm bt \<longleftrightarrow> am < bm \<or> am = bm \<and> at \<le> bt"

lemma no_later_trans: "no_later a x b y \<Longrightarrow> no_later b y c z \<Longrightarrow> no_later a x c z"
  by (auto simp: no_later_def)

lemma no_later_refl [simp]: "no_later a x a x"
  by (simp add: no_later_def)

definition due :: "('h, 'z) cstate_scheme \<Rightarrow> tid \<Rightarrow> bool" where
  "due s t \<longleftrightarrow> no_later (alarm (tsk s t)) (alarm_ticks (tsk s t)) (c_time s) (ticks s)"

text \<open>A task that has asked for an alarm, and what the cached alarm promises about it.\<close>

definition has_alarm :: "('h, 'z) cstate_scheme \<Rightarrow> tid \<Rightarrow> bool" where
  "has_alarm s t \<longleftrightarrow> t < TASK_MAX \<and> slot s t \<and> alarm (tsk s t) \<noteq> 0"

definition cached :: "('h, 'z) cstate_scheme \<Rightarrow> tid \<Rightarrow> bool" where
  "cached s t \<longleftrightarrow> g_alarm_time s \<noteq> 0 \<and>
     no_later (g_alarm_time s) (g_alarm_ticks s) (alarm (tsk s t)) (alarm_ticks (tsk s t))"

definition alarm_inv :: "('h, 'z) cstate_scheme \<Rightarrow> bool" where
  "alarm_inv s \<longleftrightarrow> (\<forall>t. has_alarm s t \<longrightarrow> cached s t)"

definition clock_ok :: "('h, 'z) cstate_scheme \<Rightarrow> bool" where
  "clock_ok s \<longleftrightarrow> c_time s > 0 \<and> ticks s < clock_hz \<and> (\<forall>t. alarm_repeat (tsk s t) < 2 ^ 32 - clock_hz)"

text \<open>The tasks' own alarm fields, which signals do not touch.\<close>

definition alarms_of :: "task \<Rightarrow> int \<times> nat \<times> nat" where
  "alarms_of u = (alarm u, alarm_ticks u, alarm_repeat u)"

lemma alarms_of_eq:
  "alarms_of v = alarms_of u \<longleftrightarrow> alarm v = alarm u \<and> alarm_ticks v = alarm_ticks u \<and> alarm_repeat v = alarm_repeat u"
  by (auto simp: alarms_of_def)

lemma cstate_more:
  assumes "kstate.more s' = kstate.more s"
  shows "c_time s' = c_time s" "ticks s' = ticks s" "g_alarm_time s' = g_alarm_time s"
    "g_alarm_ticks s' = g_alarm_ticks s"
  using assms by (cases s; cases s'; simp)+

lemma signal_send_k_alarms:
  assumes "signal_send_k p sig s = Some (e, s')"
  shows "alarms_of (tsk s' u) = alarms_of (tsk s u)" "kstate.more s' = kstate.more s"
  using signal_send_k_keeps [of alarms_of, OF _ _ _ assms] by (simp_all add: alarms_of_def resumed_def)

section \<open>Alarms\<close>

lemma set_alarm_fields [simp]:
  "tsk (set_alarm tm tc s) = tsk s" "slot (set_alarm tm tc s) = slot s" "curr (set_alarm tm tc s) = curr s"
  "c_time (set_alarm tm tc s) = c_time s" "ticks (set_alarm tm tc s) = ticks s"
  by (simp_all add: set_alarm_def)

lemma set_alarm_kinv [simp]: "kinv (set_alarm tm tc s) L = kinv s L"
  by (rule kinv_cong) (simp_all add: set_alarm_def)

lemma set_alarm_cached:
  assumes "tm \<noteq> 0"
  shows "g_alarm_time (set_alarm tm tc s) \<noteq> 0"
    "no_later (g_alarm_time (set_alarm tm tc s)) (g_alarm_ticks (set_alarm tm tc s)) tm tc"
    "cached s u \<Longrightarrow> cached (set_alarm tm tc s) u"
  using assms by (auto simp: set_alarm_def cached_def no_later_def)

text \<open>
  What \<^verbatim>\<open>chk_alarm\<close> does to task \<open>p\<close>: an alarm that is due is signalled and then cleared or moved behind the present
  moment, any other alarm is left alone, and what remains is cached.
\<close>

definition alarm_checked :: "tid \<Rightarrow> ('h, 'z) cstate_scheme \<Rightarrow> ('h, 'z) cstate_scheme \<Rightarrow> bool" where
  "alarm_checked p s s' \<longleftrightarrow>
     (has_alarm s' p \<longrightarrow> cached s' p \<and> \<not> due s' p) \<and>
     (has_alarm s p \<longrightarrow> due s p \<longrightarrow> signal_received (tsk s' p) =
        (if p \<in> alive s \<and> signal_handler (tsk s p) (SIGALRM - 1) \<noteq> SIG_IGN then (signal_received (tsk s p))(SIGALRM - 1 := True)
         else signal_received (tsk s p))) \<and>
     (\<not> (has_alarm s p \<and> due s p) \<longrightarrow> tsk s' p = tsk s p)"

definition alarm_frame :: "tid \<Rightarrow> ('h, 'z) cstate_scheme \<Rightarrow> ('h, 'z) cstate_scheme \<Rightarrow> bool" where
  "alarm_frame p s s' \<longleftrightarrow> slot s' = slot s \<and> curr s' = curr s \<and> c_time s' = c_time s \<and> ticks s' = ticks s \<and>
     (\<forall>u. u \<noteq> p \<longrightarrow> tsk s' u = tsk s u) \<and> (\<forall>u. u \<noteq> p \<longrightarrow> cached s u \<longrightarrow> cached s' u) \<and>
     (\<forall>u. alarm_repeat (tsk s' u) = alarm_repeat (tsk s u)) \<and> alive s' = alive s"

lemma next_alarm_later:
  assumes "tc < clock_hz" and "r \<noteq> 0" and "r < 2 ^ 32 - clock_hz" and "at = (tc + r) mod 2 ^ 32"
    and "am = (if at \<ge> clock_hz then tm + int (at div clock_hz) else tm)"
    and "at' = (if at \<ge> clock_hz then at mod clock_hz else at)"
  shows "\<not> no_later am at' tm tc" "am \<ge> tm"
proof -
  have at: "at = tc + r" unfolding assms(4) using assms(1,3) by (intro mod_less) linarith
  have "at div clock_hz \<ge> 1" if "at \<ge> clock_hz" using that by (simp add: clock_hz_def)
  then show "\<not> no_later am at' tm tc" "am \<ge> tm"
    using at assms(2,5,6) by (auto simp: no_later_def)
qed

lemma chk_alarm_works:
  fixes s :: "('h, 'z) cstate_scheme"
  assumes "kinv s L" and "clock_ok s" and "p < TASK_MAX" and "slot s p"
  shows "\<exists>s' L'. chk_alarm p s = Some s' \<and> kinv s' L' \<and> alarm_frame p s s' \<and> alarm_checked p s s'"
proof -
  let ?u = "tsk s p"
  have time: "c_time s > 0" "ticks s < clock_hz" "alarm_repeat ?u < 2 ^ 32 - clock_hz" using assms(2) by (auto simp: clock_ok_def)
  consider "alarm ?u = 0" | "alarm ?u \<noteq> 0" "\<not> due s p" | "alarm ?u \<noteq> 0" "due s p" by blast
  then show ?thesis
  proof cases
    case 1
    then have "chk_alarm p s = Some s" "alarm_frame p s s" "alarm_checked p s s"
      by (simp_all add: chk_alarm_def alarm_frame_def alarm_checked_def has_alarm_def)
    then show ?thesis using assms(1) by blast
  next
    case 2
    let ?s' = "set_alarm (alarm ?u) (alarm_ticks ?u) s"
    have "chk_alarm p s = Some ?s'" using 2 by (auto simp: chk_alarm_def due_def no_later_def)
    moreover have "alarm_frame p s ?s'" using set_alarm_cached(3) [OF 2(1)] by (auto simp: alarm_frame_def alive_def)
    moreover have "alarm_checked p s ?s'"
      using 2 set_alarm_cached(1,2) [OF 2(1), of "alarm_ticks ?u" s] by (auto simp: alarm_checked_def cached_def due_def)
    ultimately show ?thesis using assms(1) set_alarm_kinv by blast
  next
    case 3
    obtain e s1 L1 where s1: "signal_send_k p (int SIGALRM) s = Some (e, s1)" "evolves s L s1 L1"
      using signal_send_k_evolves [OF assms(1,4,3)] by blast
    let ?rec = "if p \<in> alive s \<and> signal_handler ?u (SIGALRM - 1) \<noteq> SIG_IGN then (signal_received ?u)(SIGALRM - 1 := True)
      else signal_received ?u"
    have or: "(\<forall>u. u \<noteq> p \<longrightarrow> tsk s1 u = tsk s u) \<and> signal_received (tsk s1 p) = ?rec"
    proof (cases "p \<in> alive s \<and> signal_handler ?u (SIGALRM - 1) \<noteq> SIG_IGN")
      case True
      then show ?thesis using signal_send_k_sent [OF assms(1), of p SIGALRM] s1(1) by (auto simp: sent_def)
    next
      case False
      then have "s1 = s" using s1(1) assms(3,4) by (auto simp: signal_send_k_def Let_def alive_def split: if_splits)
      then show ?thesis using False by auto
    qed
    then have oth: "tsk s1 u = tsk s u" if "u \<noteq> p" for u using that by blast
    have rec: "signal_received (tsk s1 p) = ?rec" using or by blast
    note al = signal_send_k_alarms [OF s1(1)]
    note f = evolves_fields [OF s1(2)] evolves_alive [OF s1(2)]
    have rp: "alarm_repeat (tsk s1 u) = alarm_repeat (tsk s u)" for u using al(1) [of u] by (simp add: alarms_of_eq)
    have c1: "c_time s1 = c_time s" "ticks s1 = ticks s" "cached s1 u = cached s u" if "u \<noteq> p" for u
      using cstate_more [OF al(2)] oth that by (auto simp: cached_def)
    have c2: "c_time s1 = c_time s" "ticks s1 = ticks s" using cstate_more [OF al(2)] by auto
    let ?s2 = "upd_task p (alarm_update (\<lambda>_. 0)) s1"
    have k2: "kinv ?s2 L1" using evolves_upd [OF evolves_kinv [OF s1(2)], of "alarm_update (\<lambda>_. 0)" p]
      by (auto simp: harmless_def evolves_def)
    have d: "(alarm ?u = c_time s \<and> alarm_ticks ?u \<le> ticks s) \<or> alarm ?u < c_time s"
      using 3(2) by (auto simp: due_def no_later_def)
    show ?thesis
    proof (cases "alarm_repeat ?u = 0")
      case True
      have "chk_alarm p s = Some ?s2" using 3(1) d s1(1) rp [of p] True by (simp add: chk_alarm_def Let_def upd_task_def)
      moreover have "alarm_frame p s ?s2"
        using f oth c1 c2 rp by (auto simp: alarm_frame_def upd_task_def alive_def cached_def)
      moreover have "alarm_checked p s ?s2"
        using rec 3 by (auto simp: alarm_checked_def has_alarm_def upd_task_def assms)
      ultimately show ?thesis using k2 by blast
    next
      case False
      define at where "at = (ticks s + alarm_repeat ?u) mod 2 ^ 32"
      define am where "am = (if at \<ge> clock_hz then c_time s + int (at div clock_hz) else c_time s)"
      define at' where "at' = (if at \<ge> clock_hz then at mod clock_hz else at)"
      note nx = next_alarm_later [OF time(2) False time(3) at_def am_def at'_def]
      have am0: "am \<noteq> 0" using nx(2) time(1) by simp
      let ?s3 = "upd_task p (\<lambda>u. u\<lparr>alarm_ticks := at', alarm := am\<rparr>) ?s2"
      let ?s' = "set_alarm am at' ?s3"
      have k3: "kinv ?s3 L1" using evolves_upd [OF k2, of "\<lambda>u. u\<lparr>alarm_ticks := at', alarm := am\<rparr>" p]
        by (auto simp: harmless_def evolves_def)
      have "chk_alarm p s = Some ?s'" using 3(1) d s1(1) rp [of p] False
        by (simp add: chk_alarm_def Let_def upd_task_def at_def am_def at'_def)
      moreover have "alarm_frame p s ?s'"
      proof -
        have "cached ?s3 u" if "u \<noteq> p" "cached s u" for u using c1(3) [OF that(1)] that by (simp add: cached_def upd_task_def)
        then have "cached ?s' u" if "u \<noteq> p" "cached s u" for u using set_alarm_cached(3) [OF am0] that by blast
        then show ?thesis using f oth c2 rp by (auto simp: alarm_frame_def upd_task_def alive_def)
      qed
      moreover have "alarm_checked p s ?s'"
      proof -
        have "cached ?s' p" "\<not> due ?s' p"
          using set_alarm_cached(1,2) [OF am0, of at' ?s3] nx(1) c2 by (auto simp: cached_def due_def upd_task_def)
        moreover have "signal_received (tsk ?s' p) = ?rec" using rec by (simp add: upd_task_def)
        ultimately show ?thesis using 3 assms(3,4) unfolding alarm_checked_def has_alarm_def by blast
      qed
      ultimately show ?thesis using k3 set_alarm_kinv by blast
    qed
  qed
qed

definition alarms_frame :: "tid set \<Rightarrow> ('h, 'z) cstate_scheme \<Rightarrow> ('h, 'z) cstate_scheme \<Rightarrow> bool" where
  "alarms_frame P s s' \<longleftrightarrow> slot s' = slot s \<and> curr s' = curr s \<and> c_time s' = c_time s \<and> ticks s' = ticks s \<and>
     (\<forall>u. u \<notin> P \<longrightarrow> tsk s' u = tsk s u) \<and> (\<forall>u. u \<notin> P \<longrightarrow> cached s u \<longrightarrow> cached s' u) \<and>
     (\<forall>u. alarm_repeat (tsk s' u) = alarm_repeat (tsk s u)) \<and> alive s' = alive s"

lemma alarms_frame_trans: "alarm_frame p s s1 \<Longrightarrow> alarms_frame P s1 s' \<Longrightarrow> alarms_frame (insert p P) s s'"
  by (simp add: alarm_frame_def alarms_frame_def)

lemma alarm_checked_later:
  assumes "alarm_checked p s s1" and "alarms_frame P s1 s'" and "p \<notin> P"
  shows "alarm_checked p s s'"
proof -
  have e: "tsk s' p = tsk s1 p" "cached s1 p \<Longrightarrow> cached s' p" "due s' p = due s1 p" "has_alarm s' p = has_alarm s1 p"
    using assms(2,3) by (auto simp: alarms_frame_def due_def has_alarm_def)
  then show ?thesis using assms(1) by (auto simp: alarm_checked_def)
qed

lemma alarm_checked_earlier:
  assumes "alarm_frame q s s1" and "alarm_checked p s1 s'" and "p \<noteq> q"
  shows "alarm_checked p s s'"
proof -
  have "tsk s1 p = tsk s p" "due s1 p = due s p" "has_alarm s1 p = has_alarm s p" "alive s1 = alive s"
    using assms(1,3) by (auto simp: alarm_frame_def due_def has_alarm_def)
  then show ?thesis using assms(2) by (auto simp: alarm_checked_def)
qed

lemma chk_alarms_works:
  assumes "kinv s L" and "clock_ok s" and "distinct is" and "\<forall>p \<in> set is. p < TASK_MAX"
  shows "\<exists>s' L'. chk_alarms is s = Some s' \<and> kinv s' L' \<and> alarms_frame (set is) s s' \<and>
           (\<forall>p \<in> set is. alarm_checked p s s')"
  using assms
proof (induction "is" arbitrary: s L)
  case Nil
  then show ?case by (auto simp: alarms_frame_def)
next
  case (Cons p ps)
  obtain s1 L1 where s1: "(if slot s p then chk_alarm p s else Some s) = Some s1" "kinv s1 L1"
      "alarm_frame p s s1" "alarm_checked p s s1"
  proof (cases "slot s p")
    case True
    then show ?thesis using chk_alarm_works [OF Cons.prems(1,2) _ True] Cons.prems(4) that by auto
  next
    case False
    then show ?thesis using Cons.prems(1) that [of s L]
      by (simp add: alarm_frame_def alarm_checked_def has_alarm_def)
  qed
  have "clock_ok s1" using Cons.prems(2) s1(3) by (simp add: clock_ok_def alarm_frame_def)
  then obtain s' L' where s': "chk_alarms ps s1 = Some s'" "kinv s' L'" "alarms_frame (set ps) s1 s'"
      "\<forall>p \<in> set ps. alarm_checked p s1 s'"
    using Cons.IH [OF s1(2)] Cons.prems(3,4) by auto
  have "alarm_checked q s s'" if "q \<in> set (p # ps)" for q
  proof (cases "q = p")
    case True
    then show ?thesis using alarm_checked_later [OF s1(4) s'(3)] Cons.prems(3) by simp
  next
    case False
    then show ?thesis using alarm_checked_earlier [OF s1(3)] s'(4) that by auto
  qed
  moreover have "chk_alarms (p # ps) s = Some s'" using s1(1) s'(1) by simp
  ultimately show ?case using s'(2) alarms_frame_trans [OF s1(3) s'(3)] by auto
qed

section \<open>A tick of the clock\<close>

text \<open>The present moment as a number of ticks.\<close>

definition moment :: "('h, 'z) cstate_scheme \<Rightarrow> int" where
  "moment s = c_time s * int clock_hz + int (ticks s)"

text \<open>Everything in \<^verbatim>\<open>clock_intr\<close> before the alarms.\<close>

definition tick_begin :: "('h, 'z) cstate_scheme \<Rightarrow> ('h, 'z) cstate_scheme" where
  "tick_begin s = clock_slice (clock_advance (clock_uptick (clock_usage s)))"

definition only_times :: "('h, 'z) cstate_scheme \<Rightarrow> ('h, 'z) cstate_scheme \<Rightarrow> bool" where
  "only_times s s' \<longleftrightarrow>
     t_next s' = t_next s \<and> t_prev s' = t_prev s \<and> t_queue s' = t_queue s \<and> q_first s' = q_first s \<and>
     q_last s' = q_last s \<and> slot s' = slot s \<and> curr s' = curr s \<and> task_count s' = task_count s \<and>
     task_pcount s' = task_pcount s \<and>
     g_alarm_time s' = g_alarm_time s \<and> g_alarm_ticks s' = g_alarm_ticks s \<and>
     (\<forall>u. tsk s' u = (tsk s u)\<lparr>cputime := cputime (tsk s' u), cputime_cnt := cputime_cnt (tsk s' u),
                              time_slice := time_slice (tsk s' u)\<rparr>)"

lemma only_times_trans:
  assumes "only_times a b" and "only_times b c"
  shows "only_times a c"
proof -
  have "tsk c u = (tsk a u)\<lparr>cputime := cputime (tsk c u), cputime_cnt := cputime_cnt (tsk c u),
      time_slice := time_slice (tsk c u)\<rparr>" for u
  proof -
    have 1: "tsk c u = (tsk b u)\<lparr>cputime := cputime (tsk c u), cputime_cnt := cputime_cnt (tsk c u),
        time_slice := time_slice (tsk c u)\<rparr>"
      and 2: "tsk b u = (tsk a u)\<lparr>cputime := cputime (tsk b u), cputime_cnt := cputime_cnt (tsk b u),
        time_slice := time_slice (tsk b u)\<rparr>"
      using assms by (auto simp: only_times_def)
    show ?thesis by (subst 1, subst 2) simp
  qed
  then show ?thesis using assms by (simp add: only_times_def)
qed

lemma tick_begin_only_times: "only_times s (tick_begin s)"
proof -
  have "only_times s (clock_usage s)"
    by (auto simp: only_times_def clock_usage_def upd_task_def split: option.splits)
  moreover have "only_times s (clock_uptick s)" for s :: "('h, 'z) cstate_scheme"
    by (auto simp: only_times_def clock_uptick_def clock_second_def Let_def)
  moreover have "only_times s (clock_advance s)" for s :: "('h, 'z) cstate_scheme"
    by (auto simp: only_times_def clock_advance_def Let_def)
  moreover have "only_times s (clock_slice s)" for s :: "('h, 'z) cstate_scheme"
    by (auto simp: only_times_def clock_slice_def upd_task_def Let_def split: option.splits)
  ultimately show ?thesis unfolding tick_begin_def by (meson only_times_trans)
qed

lemma tick_begin_time:
  "c_time (tick_begin s) = c_time (clock_advance s)" "ticks (tick_begin s) = ticks (clock_advance s)"
proof -
  have 1: "c_time (clock_slice s) = c_time s" "ticks (clock_slice s) = ticks s" for s :: "('h, 'z) cstate_scheme"
    by (simp_all add: clock_slice_def upd_task_def Let_def split: option.splits)
  have 2: "c_time (clock_uptick s) = c_time s" "ticks (clock_uptick s) = ticks s" for s :: "('h, 'z) cstate_scheme"
    by (simp_all add: clock_uptick_def clock_second_def Let_def)
  have 3: "c_time (clock_usage s) = c_time s" "ticks (clock_usage s) = ticks s" for s :: "('h, 'z) cstate_scheme"
    by (simp_all add: clock_usage_def upd_task_def split: option.splits)
  show "c_time (tick_begin s) = c_time (clock_advance s)" "ticks (tick_begin s) = ticks (clock_advance s)"
    by (simp_all add: tick_begin_def 1 clock_advance_def Let_def 2 3)
qed

lemma clock_advance_moment:
  assumes "clock_ok s"
  shows "moment (tick_begin s) = moment s + 1" "ticks (tick_begin s) < clock_hz" "c_time (tick_begin s) > 0"
  using assms by (auto simp: moment_def tick_begin_time clock_advance_def Let_def clock_ok_def clock_hz_def)

lemma only_times_fields:
  assumes "only_times s s'"
  shows "alarm (tsk s' u) = alarm (tsk s u)" "alarm_ticks (tsk s' u) = alarm_ticks (tsk s u)"
    "alarm_repeat (tsk s' u) = alarm_repeat (tsk s u)" "signal_received (tsk s' u) = signal_received (tsk s u)"
    "signal_handler (tsk s' u) = signal_handler (tsk s u)" "paused (tsk s' u) = paused (tsk s u)"
    "exited (tsk s' u) = exited (tsk s u)" "priority (tsk s' u) = priority (tsk s u)"
proof -
  have e: "tsk s' u = (tsk s u)\<lparr>cputime := cputime (tsk s' u), cputime_cnt := cputime_cnt (tsk s' u),
      time_slice := time_slice (tsk s' u)\<rparr>"
    using assms by (simp add: only_times_def)
  show "alarm (tsk s' u) = alarm (tsk s u)" "alarm_ticks (tsk s' u) = alarm_ticks (tsk s u)"
    "alarm_repeat (tsk s' u) = alarm_repeat (tsk s u)" "signal_received (tsk s' u) = signal_received (tsk s u)"
    "signal_handler (tsk s' u) = signal_handler (tsk s u)" "paused (tsk s' u) = paused (tsk s u)"
    "exited (tsk s' u) = exited (tsk s u)" "priority (tsk s' u) = priority (tsk s u)"
    by (subst e, simp)+
qed

lemma only_times_kinv:
  assumes "only_times s s'"
  shows "kinv s' L = kinv s L" "alive s' = alive s"
proof -
  note f = only_times_fields [OF assms]
  show al: "alive s' = alive s" using f assms by (simp add: alive_def only_times_def)
  have "tq_inv s' L = tq_inv s L" using assms by (intro tq_inv_cong) (simp_all add: only_times_def)
  then show "kinv s' L = kinv s L" using f assms by (simp add: kinv_def kcore_def sleeping_def al) (simp add: only_times_def)
qed

text \<open>An alarm of \<open>s\<close> that is due at the time of \<open>s'\<close>.\<close>

definition falls_due :: "('h, 'z) cstate_scheme \<Rightarrow> ('h, 'z) cstate_scheme \<Rightarrow> tid \<Rightarrow> bool" where
  "falls_due s s' t \<longleftrightarrow> has_alarm s t \<and> no_later (alarm (tsk s t)) (alarm_ticks (tsk s t)) (c_time s') (ticks s')"

text \<open>
  C29: A clock interrupt never panics and moves the time on by one tick. Exactly the tasks whose alarm is due at the
  new time, that have not exited and do not ignore the signal, receive \<^verbatim>\<open>SIGALRM\<close>, and no other signal is received by anybody. A task
  whose alarm is not due, or that has none, is left alone but for its times of processor usage. Afterwards no alarm is overdue, and the
  cached alarm is no later than any alarm, so that the next one will not be missed either.
\<close>

theorem clock_tick_alarms:
  fixes s :: "('h, 'z) cstate_scheme"
  assumes "kinv s L" and "clock_ok s" and "alarm_inv s"
  shows "\<exists>s' L'. clock_tick s = Some s' \<and> kinv s' L' \<and> clock_ok s' \<and> alarm_inv s' \<and> moment s' = moment s + 1 \<and>
           (\<forall>t. has_alarm s' t \<longrightarrow> \<not> due s' t) \<and>
           (\<forall>t. signal_received (tsk s' t) =
              (if falls_due s s' t \<and> t \<in> alive s \<and> signal_handler (tsk s t) (SIGALRM - 1) \<noteq> SIG_IGN
               then (signal_received (tsk s t))(SIGALRM - 1 := True) else signal_received (tsk s t))) \<and>
           (\<forall>t. \<not> falls_due s s' t \<longrightarrow>
              tsk s' t = (tsk s t)\<lparr>cputime := cputime (tsk s' t), cputime_cnt := cputime_cnt (tsk s' t), time_slice := time_slice (tsk s' t)\<rparr>)"
proof -
  let ?s1 = "tick_begin s"
  note ot = tick_begin_only_times [of s]
  note f = only_times_fields [OF ot] and g = only_times_kinv [OF ot] and m = clock_advance_moment [OF assms(2)]
  have k1: "kinv ?s1 L" using g(1) assms(1) by simp
  have ok1: "clock_ok ?s1" using m assms(2) f(3) by (simp add: clock_ok_def)
  have sl: "slot ?s1 = slot s" "g_alarm_time ?s1 = g_alarm_time s" "g_alarm_ticks ?s1 = g_alarm_ticks s"
    and tu: "tsk ?s1 t = (tsk s t)\<lparr>cputime := cputime (tsk ?s1 t), cputime_cnt := cputime_cnt (tsk ?s1 t), time_slice := time_slice (tsk ?s1 t)\<rparr>" for t
    using ot by (simp_all add: only_times_def)
  have h1: "has_alarm ?s1 t = has_alarm s t" "cached ?s1 t = cached s t" for t
    using f sl by (simp_all add: has_alarm_def cached_def)
  have inv1: "alarm_inv ?s1" using assms(3) h1 by (simp add: alarm_inv_def)
  have due1: "has_alarm s t \<and> due ?s1 t \<longleftrightarrow> falls_due s ?s1 t" for t
    using f by (simp add: due_def falls_due_def)
  have tick: "clock_tick s = clock_alarms ?s1" by (simp add: clock_tick_def tick_begin_def)
  show ?thesis
  proof (cases "g_alarm_time ?s1 \<noteq> 0 \<and> no_later (g_alarm_time ?s1) (g_alarm_ticks ?s1) (c_time ?s1) (ticks ?s1)")
    case True
    let ?s2 = "?s1\<lparr>g_alarm_time := 0\<rparr>"
    have k2: "kinv ?s2 L" using k1 kinv_cong(1) [of ?s2 ?s1 L] by simp
    have ok2: "clock_ok ?s2" using ok1 by (simp add: clock_ok_def)
    obtain s' L' where s': "chk_alarms [0..<TASK_MAX] ?s2 = Some s'" "kinv s' L'"
        "alarms_frame (set [0..<TASK_MAX]) ?s2 s'" "\<forall>p \<in> set [0..<TASK_MAX]. alarm_checked p ?s2 s'"
      using chk_alarms_works [OF k2 ok2, of "[0..<TASK_MAX]"] by auto
    have e: "slot s' = slot s" "c_time s' = c_time ?s1" "ticks s' = ticks ?s1"
        "\<forall>u. alarm_repeat (tsk s' u) = alarm_repeat (tsk s u)"
      using s'(3) sl f(3) by (simp_all add: alarms_frame_def)
    have d2: "has_alarm ?s2 t \<and> due ?s2 t \<longleftrightarrow> falls_due s s' t" "alive ?s2 = alive s" for t
      using h1(1) [of t] g(2) e(2,3) f(1,2) by (simp_all add: due_def has_alarm_def alive_def falls_due_def)
    have ck: "alarm_checked t ?s2 s'" if "t < TASK_MAX" for t using s'(4) that by simp
    have same: "tsk s' t = tsk ?s1 t" if "\<not> falls_due s s' t" for t
    proof (cases "t < TASK_MAX")
      case True
      then show ?thesis using ck [OF True] that d2(1) unfolding alarm_checked_def by auto
    qed (use s'(3) in \<open>auto simp: alarms_frame_def\<close>)
    have "clock_tick s = Some s'" using tick True s'(1) by (auto simp: clock_alarms_def no_later_def)
    moreover have "clock_ok s'" using ok1 e f(3) by (simp add: clock_ok_def)
    moreover have "moment s' = moment s + 1" using m(1) e by (simp add: moment_def)
    moreover have "alarm_inv s'" "\<forall>t. has_alarm s' t \<longrightarrow> \<not> due s' t"
      using ck by (auto simp: alarm_inv_def alarm_checked_def) (auto simp: has_alarm_def)
    moreover have "signal_received (tsk s' t) =
        (if falls_due s s' t \<and> t \<in> alive s \<and> signal_handler (tsk s t) (SIGALRM - 1) \<noteq> SIG_IGN
         then (signal_received (tsk s t))(SIGALRM - 1 := True) else signal_received (tsk s t))" for t
    proof (cases "falls_due s s' t")
      case True
      then have "t < TASK_MAX" by (simp add: falls_due_def has_alarm_def)
      then show ?thesis using ck [of t] True d2(1) [of t] d2(2) f(4) [of t] f(5) [of t] unfolding alarm_checked_def by simp
    next
      case False
      then show ?thesis using same [OF False] f(4) by simp
    qed
    moreover have "tsk s' t = (tsk s t)\<lparr>cputime := cputime (tsk s' t), cputime_cnt := cputime_cnt (tsk s' t), time_slice := time_slice (tsk s' t)\<rparr>"
      if "\<not> falls_due s s' t" for t unfolding same [OF that] by (rule tu)
    ultimately show ?thesis using s'(2) by blast
  next
    case False
    have nd: "\<not> due ?s1 t" if "has_alarm ?s1 t" for t
      using False inv1 that no_later_trans by (fastforce simp: alarm_inv_def cached_def due_def)
    then have no: "\<not> falls_due s ?s1 t" for t using due1 h1(1) by blast
    have "clock_tick s = Some ?s1" using tick False by (auto simp: clock_alarms_def no_later_def)
    then show ?thesis using k1 ok1 inv1 m(1) nd no f(4) tu by (intro exI [of _ ?s1] exI [of _ L]) simp
  qed
qed

section \<open>Asking for an alarm\<close>

lemma harmless_alarm: "harmless (\<lambda>u. u\<lparr>alarm_repeat := r u, alarm_ticks := tc u, alarm := tm u\<rparr>)"
  by (simp add: harmless_def)

text \<open>A task's alarm is replaced and the new one cached; what is cached for the others stays.\<close>

lemma new_alarm_inv:
  fixes s :: "('h, 'z) cstate_scheme"
  assumes "alarm_inv s" and "tsk s1 = (tsk s)(c := u)" and "slot s1 = slot s" and "alarm u = tm" and "alarm_ticks u = tc"
    and "g_alarm_time s1 = g_alarm_time s" and "g_alarm_ticks s1 = g_alarm_ticks s"
  shows "tm = 0 \<Longrightarrow> alarm_inv s1" "tm \<noteq> 0 \<Longrightarrow> alarm_inv (set_alarm tm tc s1)"
proof -
  have oth: "cached s1 t" if "t \<noteq> c" "has_alarm s1 t" for t
    using assms that by (auto simp: alarm_inv_def has_alarm_def cached_def)
  then show "alarm_inv s1" if "tm = 0"
    using that assms(2,4) by (auto simp: alarm_inv_def has_alarm_def)
  show "alarm_inv (set_alarm tm tc s1)" if "tm \<noteq> 0"
  proof -
    have "cached (set_alarm tm tc s1) c"
      using set_alarm_cached(1,2) [OF that, of tc s1] assms(2,4,5) by (simp add: cached_def)
    moreover have "cached (set_alarm tm tc s1) t" if "t \<noteq> c" "has_alarm s1 t" for t
      by (rule set_alarm_cached(3) [OF \<open>tm \<noteq> 0\<close> oth [OF that]])
    ultimately have "cached (set_alarm tm tc s1) t" if "has_alarm s1 t" for t using that by (cases "t = c") auto
    then show ?thesis by (simp add: alarm_inv_def has_alarm_def)
  qed
qed

text \<open>
  \<^verbatim>\<open>alarm(delay)\<close> never fails: with a delay the running task gets an alarm exactly \<open>delay\<close> seconds after the
  present moment, which replaces an older one; without, it has no alarm any more. The promise of the cached
  alarm and the invariant of the scheduler are kept.
\<close>

theorem sys_alarm_sets:
  fixes s :: "('h, 'z) cstate_scheme"
  assumes "kinv s L" and "clock_ok s" and "alarm_inv s" and "curr s = Some c" and "c < TASK_MAX" and "slot s c"
  shows "\<exists>ret s'. sys_alarm delay s = Some (ret, s') \<and> kinv s' L \<and> clock_ok s' \<and> alarm_inv s' \<and> moment s' = moment s \<and>
           (if delay = 0 then \<not> has_alarm s' c
            else has_alarm s' c \<and>
                 alarm (tsk s' c) * int clock_hz + int (alarm_ticks (tsk s' c)) = moment s + int (unat delay) * int clock_hz)"
proof (cases "delay = 0")
  case True
  let ?s' = "upd_task c (\<lambda>u. u\<lparr>alarm_ticks := 0, alarm := 0\<rparr>) s"
  have "\<exists>ret. sys_alarm delay s = Some (ret, ?s')"
    using assms(4) True by (auto simp: sys_alarm_def upd_task_def)
  moreover have "kinv ?s' L"
    using evolves_kinv [OF evolves_upd [OF assms(1), of "\<lambda>u. u\<lparr>alarm_ticks := 0, alarm := 0\<rparr>" c]] by (simp add: harmless_def)
  moreover have "alarm_inv ?s'" by (rule new_alarm_inv(1) [OF assms(3), of ?s' c]) (auto simp: upd_task_def)
  ultimately show ?thesis using True assms(2) by (auto simp: clock_ok_def moment_def has_alarm_def upd_task_def)
next
  case False
  define am where "am = c_time s + int (unat delay)"
  let ?s1 = "upd_task c (\<lambda>u. u\<lparr>alarm := am, alarm_ticks := ticks s\<rparr>) s"
  let ?s' = "set_alarm am (ticks s) ?s1"
  have am: "am \<noteq> 0" using assms(2) unfolding am_def clock_ok_def by linarith
  have "\<exists>ret. sys_alarm delay s = Some (ret, ?s')"
    using assms(4) False by (cases "alarm (tsk s c) = 0") (simp_all add: sys_alarm_def upd_task_def am_def Let_def)
  moreover have "kinv ?s' L"
    using evolves_kinv [OF evolves_upd [OF assms(1), of "\<lambda>u. u\<lparr>alarm := am, alarm_ticks := ticks s\<rparr>" c]] by (simp add: harmless_def)
  moreover have "alarm_inv ?s'" by (rule new_alarm_inv(2) [OF assms(3) _ _ _ _ _ _ am]) (auto simp: upd_task_def)
  moreover have "has_alarm ?s' c" "moment ?s' = moment s" "clock_ok ?s'"
    using am assms(2,5,6) by (auto simp: has_alarm_def moment_def clock_ok_def upd_task_def)
  moreover have "alarm (tsk ?s' c) * int clock_hz + int (alarm_ticks (tsk ?s' c)) = moment s + int (unat delay) * int clock_hz"
    by (simp add: upd_task_def moment_def am_def algebra_simps)
  ultimately show ?thesis using False by auto
qed

lemma sys_ualarm_inv:
  fixes s :: "('h, 'z) cstate_scheme"
  assumes "kinv s L" and "clock_ok s" and "alarm_inv s" and "curr s = Some c"
  shows "\<exists>ret s'. sys_ualarm u_delay repeat s = Some (ret, s') \<and> kinv s' L \<and> clock_ok s' \<and> alarm_inv s'"
proof -
  consider "unat u_delay > 1000000" | "u_delay = 0" | "unat u_delay \<le> 1000000" "u_delay \<noteq> 0" by fastforce
  then show ?thesis
  proof cases
    case 1
    then show ?thesis using assms by (simp add: sys_ualarm_def)
  next
    case 2
    let ?s' = "upd_task c (\<lambda>u. u\<lparr>alarm_ticks := 0, alarm := 0\<rparr>) s"
    have "\<exists>ret. sys_ualarm u_delay repeat s = Some (ret, ?s')"
      using assms(4) 2 by (auto simp: sys_ualarm_def upd_task_def)
    moreover have "kinv ?s' L"
      using evolves_kinv [OF evolves_upd [OF assms(1), of "\<lambda>u. u\<lparr>alarm_ticks := 0, alarm := 0\<rparr>" c]] by (simp add: harmless_def)
    moreover have "alarm_inv ?s'" by (rule new_alarm_inv(1) [OF assms(3), of ?s' c]) (auto simp: upd_task_def)
    ultimately show ?thesis using assms(2) by (auto simp: clock_ok_def upd_task_def)
  next
    case 3
    define rep where "rep = (if repeat then ualarm_period u_delay else 0)"
    obtain atm atc where at: "ualarm_at (c_time s) (ticks s) u_delay = (atm, atc)" by fastforce
    let ?f = "\<lambda>u :: task. u\<lparr>alarm_repeat := rep, alarm_ticks := atc, alarm := atm\<rparr>"
    let ?s1 = "upd_task c ?f s"
    have "ualarm_period u_delay < 2 ^ 32 - clock_hz" unfolding ualarm_period_def
      by (rule le_less_trans [OF div_le_mono [OF less_imp_le [OF mod_less_divisor]]]) (simp_all add: clock_hz_def)
    then have rep: "rep < 2 ^ 32 - clock_hz" by (simp add: rep_def clock_hz_def)
    have atm: "atm \<noteq> 0" using assms(2) at by (auto simp: ualarm_at_def Let_def clock_ok_def split: if_splits)
    have u: "upd_task c ?f (upd_task c (alarm_update (\<lambda>_. 0)) s) = ?s1" by (simp add: upd_task_def)
    have "\<exists>ret. sys_ualarm u_delay repeat s = Some (ret, set_alarm atm atc ?s1)"
      using assms(4) 3 at u by (cases "alarm (tsk s c) = 0") (simp_all add: sys_ualarm_def Let_def rep_def)
    moreover have "kinv (set_alarm atm atc ?s1) L"
      using evolves_kinv [OF evolves_upd [OF assms(1), of ?f c]] by (simp add: harmless_def)
    moreover have "alarm_inv (set_alarm atm atc ?s1)"
      by (rule new_alarm_inv(2) [OF assms(3) _ _ _ _ _ _ atm]) (auto simp: upd_task_def)
    moreover have "clock_ok (set_alarm atm atc ?s1)" using assms(2) rep by (auto simp: clock_ok_def upd_task_def)
    ultimately show ?thesis by blast
  qed
qed

text \<open>
  The period of a repeated \<^verbatim>\<open>ualarm\<close> is meant to be rounded up to ticks, but \<^verbatim>\<open>hz - 1\<close> is added instead of
  \<^verbatim>\<open>999999\<close>: a period below 4 ms (here 3 ms) becomes 0, and the alarm does not repeat.
\<close>

lemma ualarm_period_lost:
  assumes "curr s = Some c"
  shows "\<exists>ret s'. sys_ualarm 3000 True s = Some (ret, s') \<and> alarm_repeat (tsk s' c) = 0"
  using assms by (cases "alarm (tsk s c) = 0") (simp_all add: sys_ualarm_def ualarm_period_def upd_task_def Let_def clock_hz_def split_def)

text \<open>\<^verbatim>\<open>alarm\<close> does not reset the period that an earlier \<^verbatim>\<open>ualarm\<close> left behind: its alarm repeats.\<close>

lemma alarm_keeps_repeat:
  assumes "curr s = Some c"
  shows "\<exists>ret s'. sys_alarm delay s = Some (ret, s') \<and> alarm_repeat (tsk s' c) = alarm_repeat (tsk s c)"
  using assms by (auto simp: sys_alarm_def upd_task_def Let_def)

section \<open>Examples\<close>

text \<open>The last tick of second 7; task 1 has an alarm at second 8 that repeats every 10 ticks.\<close>

definition example_clock :: "unit cstate" where
  "example_clock = kstate.extend
     (example_state\<lparr>tsk := (tsk example_state)(1 := boot_task\<lparr>pid := 2, alarm := 8, alarm_ticks := 0, alarm_repeat := 10,
        signal_handler := (\<lambda>_. SIG_DFL)\<rparr>)\<rparr>)
     \<lparr>g_cputime_cnt = 0, g_cputime = 0, uptime = 0, upticks = 0, c_time = 7, ticks = 249, g_alarm_ticks = 0,
      g_alarm_time = 8, clock_procs = []\<rparr>"

lemmas example_clock_defs = example_clock_def kstate.extend_def kstate.defs example_defs

lemma example_clock_ok:
  "kinv example_clock example_queues" "clock_ok example_clock" "alarm_inv example_clock" "curr example_clock = Some 0"
  "has_alarm example_clock 1" "1 \<in> alive example_clock" "slot example_clock 0"
proof -
  have a: "alive example_clock = {0, 1, 2}" by (auto simp: alive_def example_clock_defs)
  have b: "sleeping example_clock = {2}" unfolding sleeping_def a by (auto simp: example_clock_defs)
  show "kinv example_clock example_queues" unfolding kinv_def kcore_def a b by (auto simp: tq_inv_def example_clock_defs)
  show "clock_ok example_clock" "alarm_inv example_clock"
    by (auto simp: clock_ok_def alarm_inv_def has_alarm_def cached_def no_later_def example_clock_defs clock_hz_def split: if_splits)
  show "curr example_clock = Some 0" "has_alarm example_clock 1" "slot example_clock 0"
    by (simp_all add: has_alarm_def example_clock_defs)
  show "1 \<in> alive example_clock" by (simp add: a)
qed

theorem clock_tick_alarms_witness:
  "\<exists>s'. clock_tick example_clock = Some s' \<and> moment s' = 2000 \<and> signal_received (tsk s' 1) (SIGALRM - 1)"
proof -
  obtain s' where s': "clock_tick example_clock = Some s'" "clock_ok s'" "moment s' = moment example_clock + 1"
      "\<forall>t. signal_received (tsk s' t) =
         (if falls_due example_clock s' t \<and> t \<in> alive example_clock \<and> signal_handler (tsk example_clock t) (SIGALRM - 1) \<noteq> SIG_IGN
          then (signal_received (tsk example_clock t))(SIGALRM - 1 := True) else signal_received (tsk example_clock t))"
    using clock_tick_alarms [OF example_clock_ok(1-3)] by blast
  have m: "moment s' = 2000" using s'(3) by (simp add: moment_def example_clock_defs clock_hz_def)
  moreover have "ticks s' < 250" using s'(2) by (simp add: clock_ok_def clock_hz_def)
  ultimately have c: "c_time s' = 8" unfolding moment_def clock_hz_def by linarith
  then have "ticks s' = 0" using m by (simp add: moment_def clock_hz_def)
  then have "falls_due example_clock s' 1" using c example_clock_ok(5) by (simp add: falls_due_def no_later_def example_clock_defs)
  then have "signal_received (tsk s' 1) (SIGALRM - 1)"
    using s'(4) [rule_format, of 1] example_clock_ok(6) by (simp add: example_clock_defs)
  then show ?thesis using s'(1) m by blast
qed

theorem sys_alarm_sets_witness:
  "\<exists>ret s'. sys_alarm 3 example_clock = Some (ret, s') \<and> alarm_inv s' \<and> has_alarm s' 0 \<and> moment s' = 1999"
  using sys_alarm_sets [OF example_clock_ok(1-4) _ example_clock_ok(7), of 3]
  by (auto simp: moment_def example_clock_defs clock_hz_def)

end
