(* ===== verification/Fs_Name.thy ===== *)
theory Fs_Name
  imports Pipe
begin

text \<open>
  Operations on names (\<^verbatim>\<open>src/kern/fs/misc.c\<close>, the rest of \<^verbatim>\<open>main.c\<close>): from a path to the file system that it is on, and on to the operation of
  the type of this file system.

  The structure \<^verbatim>\<open>fstype\<close> of pointers to functions is the record \<open>fstype\<close>. Types are numbered; \<open>T (Some t)\<close> are the operations of the type \<open>t\<close>,
  \<open>T None\<close> those of pipes, which are on no mounted file system. A file system is named by its index in \<^verbatim>\<open>fs_fs\<close>, an object by its index in
  \<^verbatim>\<open>fs_fso\<close>. \<open>act\<close> is \<^verbatim>\<open>fs_activate\<close>.
\<close>

section \<open>File system types\<close>

type_synonym 'z fres = "(errno \<times> 'z fstate_scheme) option"
type_synonym ('a, 'z) fval = "((errno + 'a) \<times> 'z fstate_scheme) option"

text \<open>
  The buffer of \<^verbatim>\<open>ioctl\<close> in the user's memory: the number that is read from it, or the error of reading, and the result of
  writing to it.
\<close>

type_synonym ubuf = "(errno + nat) \<times> errno"

record rwreq =
  rq_offset :: nat
  rq_fso :: nat
  rq_no_delay :: bool

record 'z fstype =
  ft_name :: string
  ft_mount :: "nat \<Rightarrow> 'z fstate_scheme \<Rightarrow> 'z fres"
  ft_umount :: "nat \<Rightarrow> 'z fstate_scheme \<Rightarrow> 'z fres"
  ft_lookup :: "nat \<Rightarrow> string \<Rightarrow> 'z fstate_scheme \<Rightarrow> (nat, 'z) fval"
  ft_creat :: "nat \<Rightarrow> string \<Rightarrow> 32 word \<Rightarrow> int \<Rightarrow> 'z fstate_scheme \<Rightarrow> (nat, 'z) fval"
  ft_putfso :: "nat \<Rightarrow> 'z fstate_scheme \<Rightarrow> 'z fstate_scheme option"
  ft_syncfso :: "nat \<Rightarrow> 'z fstate_scheme \<Rightarrow> 'z fres"
  ft_readdir :: "nat \<Rightarrow> int \<Rightarrow> 'z fstate_scheme \<Rightarrow> (nat \<times> string, 'z) fval"
  ft_ioctl :: "nat \<Rightarrow> int \<Rightarrow> ubuf \<Rightarrow> 'z fstate_scheme \<Rightarrow> (nat option, 'z) fval"
  ft_read :: "rwreq \<Rightarrow> nat \<Rightarrow> 'z fstate_scheme \<Rightarrow> (((errno + 8 word list) + outcome) \<times> 'z fstate_scheme) option"
  ft_write :: "rwreq \<Rightarrow> 8 word list \<Rightarrow> 'z fstate_scheme \<Rightarrow> (wres \<times> 'z fstate_scheme) option"
  ft_trunc :: "nat \<Rightarrow> 'z fstate_scheme \<Rightarrow> 'z fres"
  ft_chk_perm :: "nat \<Rightarrow> 32 word \<Rightarrow> int \<Rightarrow> int \<Rightarrow> 'z fstate_scheme \<Rightarrow> errno"
  ft_link :: "nat \<Rightarrow> string \<Rightarrow> 'z fstate_scheme \<Rightarrow> 'z fres"
  ft_unlink :: "nat \<Rightarrow> string \<Rightarrow> 'z fstate_scheme \<Rightarrow> 'z fres"
  ft_rename :: "nat \<Rightarrow> string \<Rightarrow> string \<Rightarrow> 'z fstate_scheme \<Rightarrow> 'z fres"
  ft_chdir :: "nat \<Rightarrow> string \<Rightarrow> 'z fstate_scheme \<Rightarrow> 'z fres"
  ft_mkdir :: "nat \<Rightarrow> string \<Rightarrow> 32 word \<Rightarrow> 'z fstate_scheme \<Rightarrow> 'z fres"
  ft_rmdir :: "nat \<Rightarrow> string \<Rightarrow> 'z fstate_scheme \<Rightarrow> 'z fres"
  ft_statfs :: "nat \<Rightarrow> 'z fstate_scheme \<Rightarrow> (nat \<times> int, 'z) fval"
  ft_sync :: "nat \<Rightarrow> 'z fstate_scheme \<Rightarrow> 'z fres"
  ft_ttyname :: "(nat \<Rightarrow> 'z fstate_scheme \<Rightarrow> errno + string) option"

type_synonym 'z fstypes = "nat option \<Rightarrow> 'z fstype"
type_synonym 'z activate = "nat \<Rightarrow> 'z fstate_scheme \<Rightarrow> 'z fres"

definition type_fs :: "'z fstypes \<Rightarrow> 'z fstate_scheme \<Rightarrow> nat \<Rightarrow> 'z fstype" where
  "type_fs T s k = T (fs_type (fs_fs s ! k))"

definition type_of :: "'z fstypes \<Rightarrow> 'z fstate_scheme \<Rightarrow> nat \<Rightarrow> 'z fstype" where
  "type_of T s i = T (fs_type (fs_of s (fs_fso s i)))"

text \<open>The type of pipes. What is not supported returns \<^verbatim>\<open>ENOSYS\<close>.\<close>

definition pipe_ops :: "'z fstype" where
  "pipe_ops =
     \<lparr>ft_name = ''pipe'',
      ft_mount = (\<lambda>k s. Some (pipe_nosys, s)), ft_umount = (\<lambda>k s. Some (pipe_nosys, s)),
      ft_lookup = (\<lambda>k name s. Some (Inl pipe_nosys, s)), ft_creat = (\<lambda>k name mode rdev s. Some (Inl pipe_nosys, s)),
      ft_putfso = pipe_putfso, ft_syncfso = (\<lambda>i s. Some (pipe_nosys, s)), ft_readdir = (\<lambda>i index s. Some (Inl pipe_nosys, s)),
      ft_ioctl = (\<lambda>i cmd buf s. Some (Inl ENOTTY, s)),
      ft_read = (\<lambda>rq n. pipe_read (rq_fso rq) n (rq_no_delay rq)), ft_write = (\<lambda>rq. pipe_write (rq_fso rq) (rq_no_delay rq)),
      ft_trunc = (\<lambda>i s. Some (pipe_nosys, s)), ft_chk_perm = pipe_chk_perm,
      ft_link = (\<lambda>i name s. Some (pipe_nosys, s)), ft_unlink = (\<lambda>k name s. Some (pipe_nosys, s)),
      ft_rename = (\<lambda>k old new s. Some (pipe_nosys, s)), ft_chdir = (\<lambda>k name s. Some (pipe_nosys, s)),
      ft_mkdir = (\<lambda>k name mode s. Some (pipe_nosys, s)), ft_rmdir = (\<lambda>k name s. Some (pipe_nosys, s)),
      ft_statfs = (\<lambda>k s. Some (Inr (0, 0), s)), ft_sync = (\<lambda>k s. Some (pipe_nosys, s)), ft_ttyname = None\<rparr>"

text \<open>The table \<^verbatim>\<open>fs_fstype\<close> of the types that are installed.\<close>

abbreviation (input) FS_MAXFSTYPE :: nat where "FS_MAXFSTYPE \<equiv> 8"

type_synonym type_table = "nat \<Rightarrow> nat option"

definition fs_install :: "nat \<Rightarrow> type_table \<Rightarrow> errno \<times> type_table" where
  "fs_install t tab =
     (case List.find (\<lambda>i. tab i = None) [0..<FS_MAXFSTYPE] of
        Some i \<Rightarrow> (EZERO, tab(i := Some t))
      | None \<Rightarrow> (ENOMEM, tab))"

definition fs_uinstall :: "nat \<Rightarrow> 'z fstate_scheme \<Rightarrow> type_table \<Rightarrow> (errno \<times> type_table) option" where
  "fs_uinstall t s tab =
     (if list_ex (\<lambda>i. o_refcnt (fs_fso s i) \<noteq> 0 \<and> fs_type (fs_of s (fs_fso s i)) = Some t) [0..<fs_fso_high s] then Some (EBUSY, tab)
      else case List.find (\<lambda>i. tab i = Some t) [0..<FS_MAXFSTYPE] of
             Some i \<Rightarrow> Some (EZERO, tab(i := None))
           | None \<Rightarrow> None)"

definition fs_find :: "'z fstypes \<Rightarrow> type_table \<Rightarrow> string \<Rightarrow> errno + nat" where
  "fs_find T tab name =
     (case List.find (\<lambda>i. case tab i of None \<Rightarrow> False | Some t \<Rightarrow> ft_name (T (Some t)) = name) [0..<FS_MAXFSTYPE] of
        None \<Rightarrow> Inl EINVAL
      | Some i \<Rightarrow> (case tab i of None \<Rightarrow> Inl EINVAL | Some t \<Rightarrow> Inr t))"

section \<open>Paths\<close>

text \<open>The \<^verbatim>\<open>putfso\<close> of the type of each object.\<close>

definition putfso :: "'z fstypes \<Rightarrow> nat \<Rightarrow> 'z fstate_scheme \<Rightarrow> 'z fstate_scheme option" where
  "putfso T i s = ft_putfso (type_of T s i) i s"

definition put_fso :: "'z fstypes \<Rightarrow> nat \<Rightarrow> 'z fstate_scheme \<Rightarrow> 'z fstate_scheme option" where
  "put_fso T i s = fs_putfso (putfso T) (Some i) s"

definition chk_perm :: "'z fstypes \<Rightarrow> nat \<Rightarrow> 32 word \<Rightarrow> int \<Rightarrow> int \<Rightarrow> 'z fstate_scheme \<Rightarrow> errno" where
  "chk_perm T i mode uid gid s = fs_chk_perm (ft_chk_perm (type_of T s i)) i mode uid gid s"

definition parse :: "'z activate \<Rightarrow> string \<Rightarrow> 'z fstate_scheme \<Rightarrow> (nat \<times> string \<times> string, 'z) fval" where
  "parse act path s = do { c \<leftarrow> curr s; fs_parsename4 act (fs_fs s) (cwd (tsk s c)) (tty (tsk s c)) path s }"

definition fs_parsename :: "'z activate \<Rightarrow> string \<Rightarrow> 'z fstate_scheme \<Rightarrow> (nat \<times> string, 'z) fval" where
  "fs_parsename act path s = do {
     (r, s1) \<leftarrow> parse act path s;
     Some (case r of Inl e \<Rightarrow> Inl e | Inr (k, name, _) \<Rightarrow> Inr (k, name), s1)
   }"

text \<open>The common form of the operations: an operation of the file system that the path is on, then notification of the directory.\<close>

definition at_path ::
    "'z activate \<Rightarrow> (nat \<Rightarrow> string \<Rightarrow> 'z fstate_scheme \<Rightarrow> 'z fres) \<Rightarrow> string \<Rightarrow> 'z fstate_scheme \<Rightarrow> 'z fres" where
  "at_path act g path s = do {
     (r, s1) \<leftarrow> parse act path s;
     (case r of
        Inl e \<Rightarrow> Some (e, s1)
      | Inr (k, name, fq) \<Rightarrow> do {
          (e, s2) \<leftarrow> g k name s1;
          if e \<noteq> EZERO then Some (e, s2) else do { s3 \<leftarrow> fs_notify fq s2; Some (EZERO, s3) }
        })
   }"

definition fs_lookup :: "'z fstypes \<Rightarrow> 'z activate \<Rightarrow> string \<Rightarrow> 'z fstate_scheme \<Rightarrow> (nat, 'z) fval" where
  "fs_lookup T act path s = do {
     (r, s1) \<leftarrow> fs_parsename act path s;
     (case r of
        Inl e \<Rightarrow> Some (Inl e, s1)
      | Inr (k, name) \<Rightarrow> ft_lookup (type_fs T s1 k) k name s1)
   }"

abbreviation (input) S_IFIFO :: "32 word" where "S_IFIFO \<equiv> 0x1000"

definition fs_creat :: "'z fstypes \<Rightarrow> 'z activate \<Rightarrow> string \<Rightarrow> 32 word \<Rightarrow> int \<Rightarrow> 'z fstate_scheme \<Rightarrow> (nat, 'z) fval" where
  "fs_creat T act path mode rdev s = do {
     c \<leftarrow> curr s;
     if euid (tsk s c) \<noteq> 0 \<and> mode AND 0x7000 \<noteq> 0 \<and> mode AND 0x7000 \<noteq> S_IFIFO then Some (Inl EPERM, s)
     else do {
       (r, s1) \<leftarrow> parse act path s;
       (case r of
          Inl e \<Rightarrow> Some (Inl e, s1)
        | Inr (k, name, fq) \<Rightarrow> do {
            (r2, s2) \<leftarrow> ft_creat (type_fs T s1 k) k name mode rdev s1;
            (case r2 of
               Inl e \<Rightarrow> Some (Inl e, s2)
             | Inr i \<Rightarrow> do { s3 \<leftarrow> fs_notify fq s2; Some (Inr i, s3) })
          })
     }
   }"

definition fs_access :: "'z fstypes \<Rightarrow> 'z activate \<Rightarrow> string \<Rightarrow> 32 word \<Rightarrow> 'z fstate_scheme \<Rightarrow> 'z fres" where
  "fs_access T act path mode s = do {
     (r, s1) \<leftarrow> fs_lookup T act path s;
     (case r of
        Inl e \<Rightarrow> Some (e, s1)
      | Inr i \<Rightarrow> do {
          c \<leftarrow> curr s1;
          let e = chk_perm T i mode (ruid (tsk s1 c)) (rgid (tsk s1 c)) s1;
          s2 \<leftarrow> put_fso T i s1;
          Some (e, s2)
        })
   }"

text \<open>Two paths on the same file system.\<close>

definition at_paths ::
    "'z activate \<Rightarrow> (nat \<Rightarrow> string \<Rightarrow> string \<Rightarrow> 'z fstate_scheme \<Rightarrow> 'z fres) \<Rightarrow> string \<Rightarrow> string \<Rightarrow> 'z fstate_scheme \<Rightarrow> 'z fres" where
  "at_paths act g oldname newname s = do {
     (r1, s1) \<leftarrow> parse act oldname s;
     (case r1 of
        Inl e \<Rightarrow> Some (e, s1)
      | Inr (k1, path1, fq1) \<Rightarrow> do {
          (r2, s2) \<leftarrow> parse act newname s1;
          (case r2 of
             Inl e \<Rightarrow> Some (e, s2)
           | Inr (k2, path2, fq2) \<Rightarrow>
               if k1 \<noteq> k2 then Some (EXDEV, s2)
               else do {
                 (e, s3) \<leftarrow> g k1 path1 path2 s2;
                 if e \<noteq> EZERO then Some (e, s3)
                 else do { s4 \<leftarrow> fs_notify fq1 s3; s5 \<leftarrow> fs_notify fq2 s4; Some (EZERO, s5) }
               })
        })
   }"

definition fs_link :: "'z fstypes \<Rightarrow> 'z activate \<Rightarrow> string \<Rightarrow> string \<Rightarrow> 'z fstate_scheme \<Rightarrow> 'z fres" where
  "fs_link T act oldname newname s = at_paths act
     (\<lambda>k path1 path2 s1. do {
        (r, s2) \<leftarrow> ft_lookup (type_fs T s1 k) k path1 s1;
        (case r of
           Inl e \<Rightarrow> Some (e, s2)
         | Inr i \<Rightarrow> do {
             c \<leftarrow> curr s2;
             if euid (tsk s2 c) \<noteq> 0 \<and> o_uid (fs_fso s2 i) \<noteq> euid (tsk s2 c) then do { s3 \<leftarrow> put_fso T i s2; Some (EACCES, s3) }
             else do {
               (e, s3) \<leftarrow> ft_link (type_fs T s2 k) i path2 s2;
               s4 \<leftarrow> put_fso T i s3;
               Some (e, s4)
             }
           })
      }) oldname newname s"

definition fs_rename :: "'z fstypes \<Rightarrow> 'z activate \<Rightarrow> string \<Rightarrow> string \<Rightarrow> 'z fstate_scheme \<Rightarrow> 'z fres" where
  "fs_rename T act oldname newname s = at_paths act (\<lambda>k path1 path2 s1. ft_rename (type_fs T s1 k) k path1 path2 s1) oldname newname s"

definition fs_unlink :: "'z fstypes \<Rightarrow> 'z activate \<Rightarrow> string \<Rightarrow> 'z fstate_scheme \<Rightarrow> 'z fres" where
  "fs_unlink T act path s = at_path act (\<lambda>k name s1. ft_unlink (type_fs T s1 k) k name s1) path s"

definition fs_mkdir :: "'z fstypes \<Rightarrow> 'z activate \<Rightarrow> string \<Rightarrow> 32 word \<Rightarrow> 'z fstate_scheme \<Rightarrow> 'z fres" where
  "fs_mkdir T act path mode s = at_path act (\<lambda>k name s1. ft_mkdir (type_fs T s1 k) k name mode s1) path s"

definition fs_rmdir :: "'z fstypes \<Rightarrow> 'z activate \<Rightarrow> string \<Rightarrow> 'z fstate_scheme \<Rightarrow> 'z fres" where
  "fs_rmdir T act path s = at_path act (\<lambda>k name s1. ft_rmdir (type_fs T s1 k) k name s1) path s"

definition fs_chdir :: "'z fstypes \<Rightarrow> 'z activate \<Rightarrow> string \<Rightarrow> 'z fstate_scheme \<Rightarrow> 'z fres" where
  "fs_chdir T act path s = do {
     c \<leftarrow> curr s;
     (case fs_fqname (cwd (tsk s c)) (tty (tsk s c)) path of
        Inl e \<Rightarrow> Some (e, s)
      | Inr fq \<Rightarrow>
          if length fq \<ge> PATH_MAX then Some (ENAMETOOLONG, s)
          else do {
            (r, s1) \<leftarrow> fs_parsename act path s;
            (case r of
               Inl e \<Rightarrow> Some (e, s1)
             | Inr (k, name) \<Rightarrow> do {
                 (e, s2) \<leftarrow> ft_chdir (type_fs T s1 k) k name s1;
                 if e \<noteq> EZERO then Some (e, s2)
                 else do { c2 \<leftarrow> curr s2; Some (EZERO, upd_task c2 (cwd_update (\<lambda>_. fq)) s2) }
               })
          })
   }"

text \<open>
  \<^verbatim>\<open>fs_revoke\<close>: every descriptor of every task that is open on the object loses its direction, \<^verbatim>\<open>O_NOIO\<close> is 3. The counts of readers and
  writers stay.
\<close>

definition no_io :: "fs_file \<Rightarrow> fs_file" where
  "no_io f = f\<lparr>ff_omode := ff_omode f - ff_omode f mod 8 + 3\<rparr>"

definition revoke_desc :: "nat \<Rightarrow> tid \<times> nat \<Rightarrow> 'z fstate_scheme \<Rightarrow> 'z fstate_scheme" where
  "revoke_desc i td s =
     (case fds s (fst td) (snd td) of
        None \<Rightarrow> s
      | Some f \<Rightarrow> if slot s (fst td) \<and> ff_fso (fs_file s f) = Some i then upd_file f no_io s else s)"

definition fs_revoke :: "'z fstypes \<Rightarrow> 'z activate \<Rightarrow> string \<Rightarrow> 'z fstate_scheme \<Rightarrow> 'z fres" where
  "fs_revoke T act path s = do {
     (r, s1) \<leftarrow> fs_lookup T act path s;
     (case r of
        Inl e \<Rightarrow> Some (e, s1)
      | Inr i \<Rightarrow> do {
          c \<leftarrow> curr s1;
          if euid (tsk s1 c) \<noteq> 0 \<and> euid (tsk s1 c) \<noteq> o_uid (fs_fso s1 i) then do { s2 \<leftarrow> put_fso T i s1; Some (EACCES, s2) }
          else do {
            s2 \<leftarrow> put_fso T i (fold (revoke_desc i) (List.product [0..<TASK_MAX] [0..<OPEN_MAX]) s1);
            Some (EZERO, s2)
          }
        })
   }"

section \<open>Synchronising\<close>

abbreviation (input) keep_err :: "errno \<Rightarrow> errno \<Rightarrow> errno" where
  "keep_err e e1 \<equiv> if e = EZERO then e1 else e"

fun sync_loop :: "'z fstypes \<Rightarrow> nat \<Rightarrow> nat list \<Rightarrow> errno \<Rightarrow> 'z fstate_scheme \<Rightarrow> 'z fres" where
  "sync_loop T k [] e s = Some (e, s)"
| "sync_loop T k (i # is) e s =
     (if o_fs (fs_fso s i) = Fs k \<and> o_refcnt (fs_fso s i) \<noteq> 0 \<and> o_dirty (fs_fso s i) then do {
        (e1, s1) \<leftarrow> ft_syncfso (type_fs T s k) i s;
        sync_loop T k is (keep_err e e1) s1
      }
      else sync_loop T k is e s)"

definition fs_sync :: "'z fstypes \<Rightarrow> nat \<Rightarrow> 'z fstate_scheme \<Rightarrow> 'z fres" where
  "fs_sync T k s =
     (if read_only (fs_fs s ! k) then Some (EZERO, s)
      else do {
        (e, s1) \<leftarrow> sync_loop T k [0..<fs_fso_high s] EZERO s;
        (e1, s2) \<leftarrow> ft_sync (type_fs T s1 k) k s1;
        Some (keep_err e e1, s2)
      })"

fun syncall_loop :: "'z fstypes \<Rightarrow> nat list \<Rightarrow> errno \<Rightarrow> 'z fstate_scheme \<Rightarrow> 'z fres" where
  "syncall_loop T [] e s = Some (e, s)"
| "syncall_loop T (k # ks) e s =
     (if in_use (fs_fs s ! k) then do {
        (e1, s1) \<leftarrow> fs_sync T k s;
        syncall_loop T ks (keep_err e e1) s1
      }
      else syncall_loop T ks e s)"

definition fs_syncall :: "'z fstypes \<Rightarrow> 'z fstate_scheme \<Rightarrow> 'z fres" where
  "fs_syncall T s = syncall_loop T [0..<FS_MAXFS] EZERO s"

end
