(* ===== verification/Fs_Call.thy ===== *)
theory Fs_Call
  imports Fs_Name Overflow
begin

text \<open>
  The system calls on files (\<^verbatim>\<open>src/kern/fs/syscall.c\<close>). \<open>Inl e\<close> is the return of -1 after \<^verbatim>\<open>uerr(e)\<close>; where a call returns the number of the
  error itself, the result is \<open>ErrVal e\<close>.

  A path is given as what \<^verbatim>\<open>usa\<close> makes of the pointer: an error or the string. For a buffer, \<open>ua\<close> is the result of the check of the user's
  memory (\<^verbatim>\<open>uga\<close>, \<^verbatim>\<open>uaa\<close>, \<^verbatim>\<open>tucpy\<close>), and what is copied to the user is part of the result. Descriptors and open modes are the unsigned numbers
  with the bits of the argument.
\<close>

type_synonym upath = "errno + string"

datatype sysval = Val int | ErrVal errno

section \<open>Calls on paths\<close>

definition sys_done :: "'z fres \<Rightarrow> (int, 'z) fval" where
  "sys_done r = map_option (\<lambda>(e, s). (if e \<noteq> EZERO then Inl e else Inr 0, s)) r"

definition with_path :: "upath \<Rightarrow> (string \<Rightarrow> 'z fstate_scheme \<Rightarrow> ('a, 'z) fval) \<Rightarrow> 'z fstate_scheme \<Rightarrow> ('a, 'z) fval" where
  "with_path p g s = (case p of Inl e \<Rightarrow> Some (Inl e, s) | Inr path \<Rightarrow> g path s)"

definition sys_getcwd :: "nat \<Rightarrow> errno \<Rightarrow> 'z fstate_scheme \<Rightarrow> (string, 'z) fval" where
  "sys_getcwd len ua s = do {
     c \<leftarrow> curr s;
     Some (if length (cwd (tsk s c)) \<ge> len then Inl ENAMETOOLONG
           else if ua \<noteq> EZERO then Inl ua else Inr (cwd (tsk s c)), s)
   }"

definition sys_chdir :: "'z fstypes \<Rightarrow> 'z activate \<Rightarrow> upath \<Rightarrow> bool \<Rightarrow> 'z fstate_scheme \<Rightarrow> (int, 'z) fval" where
  "sys_chdir T act p flags s = with_path p
     (\<lambda>path s. do {
        (e, s1) \<leftarrow> fs_chdir T act path s;
        if e \<noteq> EZERO then Some (Inl e, s1)
        else do { c \<leftarrow> curr s1; Some (Inr 0, upd_task c (ocwd_update (\<lambda>_. flags)) s1) }
      }) s"

definition sys_mkdir :: "'z fstypes \<Rightarrow> 'z activate \<Rightarrow> upath \<Rightarrow> 32 word \<Rightarrow> 'z fstate_scheme \<Rightarrow> (int, 'z) fval" where
  "sys_mkdir T act p mode s = with_path p (\<lambda>path s. sys_done (fs_mkdir T act path mode s)) s"

definition sys_rmdir :: "'z fstypes \<Rightarrow> 'z activate \<Rightarrow> upath \<Rightarrow> 'z fstate_scheme \<Rightarrow> (int, 'z) fval" where
  "sys_rmdir T act p s = with_path p (\<lambda>path s. sys_done (fs_rmdir T act path s)) s"

definition sys_access :: "'z fstypes \<Rightarrow> 'z activate \<Rightarrow> upath \<Rightarrow> 32 word \<Rightarrow> 'z fstate_scheme \<Rightarrow> (int, 'z) fval" where
  "sys_access T act p mode s = with_path p (\<lambda>path s. sys_done (fs_access T act path mode s)) s"

definition sys_mknod :: "'z fstypes \<Rightarrow> 'z activate \<Rightarrow> upath \<Rightarrow> 32 word \<Rightarrow> int \<Rightarrow> 'z fstate_scheme \<Rightarrow> (int, 'z) fval" where
  "sys_mknod T act p mode rdev s = with_path p
     (\<lambda>path s. do {
        (r, s1) \<leftarrow> fs_creat T act path mode rdev s;
        (case r of
           Inl e \<Rightarrow> Some (Inl e, s1)
         | Inr i \<Rightarrow> do { s2 \<leftarrow> put_fso T i s1; Some (Inr 0, s2) })
      }) s"

definition sys_unlink :: "'z fstypes \<Rightarrow> 'z activate \<Rightarrow> upath \<Rightarrow> 'z fstate_scheme \<Rightarrow> (int, 'z) fval" where
  "sys_unlink T act p s = with_path p (\<lambda>path s. sys_done (fs_unlink T act path s)) s"

definition sys_link :: "'z fstypes \<Rightarrow> 'z activate \<Rightarrow> upath \<Rightarrow> upath \<Rightarrow> 'z fstate_scheme \<Rightarrow> (int, 'z) fval" where
  "sys_link T act p q s = with_path p (\<lambda>old. with_path q (\<lambda>new s. sys_done (fs_link T act old new s))) s"

definition sys_rename :: "'z fstypes \<Rightarrow> 'z activate \<Rightarrow> upath \<Rightarrow> upath \<Rightarrow> 'z fstate_scheme \<Rightarrow> (int, 'z) fval" where
  "sys_rename T act p q s = with_path p (\<lambda>old. with_path q (\<lambda>new s. sys_done (fs_rename T act old new s))) s"

definition sys_revoke :: "'z fstypes \<Rightarrow> 'z activate \<Rightarrow> upath \<Rightarrow> 'z fstate_scheme \<Rightarrow> (int, 'z) fval" where
  "sys_revoke T act p s = with_path p (\<lambda>path s. sys_done (fs_revoke T act path s)) s"

definition sys_ctty :: "upath \<Rightarrow> 'z fstate_scheme \<Rightarrow> (int, 'z) fval" where
  "sys_ctty p s = with_path p (\<lambda>path s. do { c \<leftarrow> curr s; Some (Inr 0, upd_task c (tty_update (\<lambda>_. path)) s) }) s"

definition sys_statfs :: "'z fstypes \<Rightarrow> 'z activate \<Rightarrow> upath \<Rightarrow> errno \<Rightarrow> 'z fstate_scheme \<Rightarrow> (nat \<times> int, 'z) fval" where
  "sys_statfs T act p ua s = with_path p
     (\<lambda>path s. do {
        (r, s1) \<leftarrow> fs_lookup T act path s;
        (case r of
           Inl e \<Rightarrow> Some (Inl e, s1)
         | Inr i \<Rightarrow>
             (case o_fs (fs_fso s1 i) of
                PipeFs \<Rightarrow> None
              | Fs k \<Rightarrow> do {
                  (r2, s2) \<leftarrow> ft_statfs (type_of T s1 i) k s1;
                  s3 \<leftarrow> put_fso T i s2;
                  Some (case r2 of Inl e \<Rightarrow> Inl e | Inr st \<Rightarrow> if ua \<noteq> EZERO then Inl ua else Inr st, s3)
                }))
      }) s"

section \<open>Opening\<close>

text \<open>The permission that a mode asks for; modes above 3 are invalid.\<close>

definition open_perm :: "'z fstypes \<Rightarrow> nat \<Rightarrow> nat \<Rightarrow> 'z fstate_scheme \<Rightarrow> errno option" where
  "open_perm T i mode s = do {
     c \<leftarrow> curr s;
     let chk = (\<lambda>m. chk_perm T i m (euid (tsk s c)) (egid (tsk s c)) s);
     Some (if mode mod 8 = 0 then chk R_OK
           else if mode mod 8 = 1 then chk W_OK
           else if mode mod 8 = 2 then chk (R_OK OR W_OK)
           else if mode mod 8 = 3 then EZERO
           else EINVAL)
   }"

definition open_trunc :: "'z fstypes \<Rightarrow> nat \<Rightarrow> nat \<Rightarrow> 'z fstate_scheme \<Rightarrow> 'z fres" where
  "open_trunc T i mode s =
     (if odd (mode div 512) then do {
        c \<leftarrow> curr s;
        let e = chk_perm T i W_OK (euid (tsk s c)) (egid (tsk s c)) s;
        if e \<noteq> EZERO then Some (e, s) else ft_trunc (type_of T s i) i s
      }
      else Some (EZERO, s))"

definition sys_open :: "'z fstypes \<Rightarrow> 'z activate \<Rightarrow> upath \<Rightarrow> nat \<Rightarrow> 'z fstate_scheme \<Rightarrow> (nat, 'z) fval" where
  "sys_open T act p mode s = with_path p
     (\<lambda>path s. do {
        (r, s1) \<leftarrow> fs_lookup T act path s;
        (case r of
           Inl e \<Rightarrow> Some (Inl e, s1)
         | Inr i \<Rightarrow> do {
             e \<leftarrow> open_perm T i mode s1;
             if e \<noteq> EZERO then do { s2 \<leftarrow> put_fso T i s1; Some (Inl e, s2) }
             else do {
               (e, s2) \<leftarrow> open_trunc T i mode s1;
               if e \<noteq> EZERO then do { s3 \<leftarrow> put_fso T i s2; Some (Inl e, s3) }
               else
                 (case fs_getfile (Some i) mode s2 of
                    (Inl e, s3) \<Rightarrow> do { s4 \<leftarrow> put_fso T i s3; Some (Inl e, s4) }
                  | (Inr f, s3) \<Rightarrow> do {
                      (r2, s4) \<leftarrow> fs_getfd f s3;
                      (case r2 of
                         Inl e \<Rightarrow> do { s5 \<leftarrow> fs_putfile (putfso T) f s4; Some (Inl e, s5) }
                       | Inr d \<Rightarrow> Some (Inr d, s4))
                    })
             }
           })
      }) s"

definition sys_close :: "'z fstypes \<Rightarrow> nat \<Rightarrow> 'z fstate_scheme \<Rightarrow> (int, 'z) fval" where
  "sys_close T d s = sys_done (fs_putfd (putfso T) d s)"

section \<open>Calls on descriptors\<close>

definition fdaccess :: "'z fstypes \<Rightarrow> nat \<Rightarrow> 32 word \<Rightarrow> 'z fstate_scheme \<Rightarrow> errno option" where
  "fdaccess T d mode s = fs_fdaccess (\<lambda>i m u g s. ft_chk_perm (type_of T s i) i m u g s) d mode s"

text \<open>A call on the descriptor \<open>d\<close> of the current task, with the open file and its object.\<close>

definition on_fd ::
    "'z fstypes \<Rightarrow> nat \<Rightarrow> 32 word \<Rightarrow> (tid \<Rightarrow> nat \<Rightarrow> 'z fstate_scheme \<Rightarrow> ('a, 'z) fval) \<Rightarrow> 'z fstate_scheme \<Rightarrow> ('a, 'z) fval" where
  "on_fd T d mode g s = do {
     e \<leftarrow> fdaccess T d mode s;
     if e \<noteq> EZERO then Some (Inl e, s)
     else do { c \<leftarrow> curr s; f \<leftarrow> fds s c d; g c f s }
   }"

definition fd_obj :: "'z fstate_scheme \<Rightarrow> nat \<Rightarrow> nat option" where
  "fd_obj s f = ff_fso (fs_file s f)"

text \<open>The end of a transfer of \<open>n\<close> bytes: the position of the file moves.\<close>

definition rw_end :: "nat \<Rightarrow> nat \<Rightarrow> 'z fstate_scheme \<Rightarrow> 'z fstate_scheme option" where
  "rw_end f n s = do {
     i \<leftarrow> fd_obj s f;
     Some (if no_seek (fs_fso s i) then s else upd_file f (\<lambda>p. p\<lparr>ff_offset := (ff_offset p + n) mod 2 ^ 64\<rparr>) s)
   }"

abbreviation (input) nodelay :: "nat \<Rightarrow> bool" where "nodelay omode \<equiv> odd (omode div 4096)"

text \<open>\<open>Inr out\<close> when the task sleeps in the driver; the call then ends with \<open>rw_end\<close> later.\<close>

definition sys_read ::
    "'z fstypes \<Rightarrow> nat \<Rightarrow> nat \<Rightarrow> errno \<Rightarrow> 'z fstate_scheme \<Rightarrow> (8 word list + outcome, 'z) fval" where
  "sys_read T d count ua s = on_fd T d R_OK
     (\<lambda>c f s.
        if ua \<noteq> EZERO then Some (Inl ua, s)
        else do {
          i \<leftarrow> fd_obj s f;
          (r, s1) \<leftarrow> ft_read (type_of T s i)
            \<lparr>rq_offset = ff_offset (fs_file s f), rq_fso = i, rq_no_delay = nodelay (ff_omode (fs_file s f))\<rparr> count s;
          (case r of
             Inl (Inl e) \<Rightarrow> Some (Inl e, s1)
           | Inl (Inr bs) \<Rightarrow> do { s2 \<leftarrow> rw_end f (length bs) s1; Some (Inr (Inl bs), s2) }
           | Inr out \<Rightarrow> Some (Inr (Inr out), s1))
        }) s"

definition sys_write ::
    "'z fstypes \<Rightarrow> nat \<Rightarrow> 8 word list \<Rightarrow> errno \<Rightarrow> 'z fstate_scheme \<Rightarrow> (nat + outcome \<times> 8 word list, 'z) fval" where
  "sys_write T d bs ua s = on_fd T d W_OK
     (\<lambda>c f s.
        if ua \<noteq> EZERO then Some (Inl ua, s)
        else do {
          i \<leftarrow> fd_obj s f;
          let off = (if odd (ff_omode (fs_file s f) div 1024) then o_size (fs_fso s i) else ff_offset (fs_file s f));
          (r, s1) \<leftarrow> ft_write (type_of T s i) \<lparr>rq_offset = off, rq_fso = i, rq_no_delay = nodelay (ff_omode (fs_file s f))\<rparr> bs s;
          (case r of
             Failed e \<Rightarrow> Some (Inl e, s1)
           | Wrote n \<Rightarrow> do { s2 \<leftarrow> rw_end f n s1; Some (Inr (Inl n), s2) }
           | Asleep out rest \<Rightarrow> Some (Inr (Inr (out, rest)), s1))
        }) s"

definition lseek_to :: "nat \<Rightarrow> nat \<Rightarrow> int \<Rightarrow> int \<Rightarrow> nat option" where
  "lseek_to cur len off mode =
     (if mode = 0 then Some (nat (off mod 2 ^ 64))
      else if mode = 1 then Some (nat ((int cur + off) mod 2 ^ 64))
      else if mode = 2 then Some (nat ((int len + off) mod 2 ^ 64))
      else None)"

definition sys_lseek :: "'z fstypes \<Rightarrow> nat \<Rightarrow> int \<Rightarrow> int \<Rightarrow> 'z fstate_scheme \<Rightarrow> (int, 'z) fval" where
  "sys_lseek T d off mode s = on_fd T d 0
     (\<lambda>c f s. do {
        i \<leftarrow> fd_obj s f;
        if no_seek (fs_fso s i) then Some (Inl ESPIPE, s)
        else case lseek_to (ff_offset (fs_file s f)) (o_size (fs_fso s i)) off mode of
          None \<Rightarrow> Some (Inl EINVAL, s)
        | Some n \<Rightarrow> Some (Inr (sint (word_of_nat n :: 64 word)), upd_file f (ff_offset_update (\<lambda>_. n)) s)
      }) s"

text \<open>\<^verbatim>\<open>F_DUPFD\<close> looks at the descriptors from \<open>arg\<close> on; before the start of the table this is outside it.\<close>

definition dup_from :: "nat \<Rightarrow> int \<Rightarrow> 'z fstate_scheme \<Rightarrow> (int, 'z) fval" where
  "dup_from f arg s = do {
     c \<leftarrow> curr s;
     if arg < 0 then None
     else case List.find (\<lambda>i. fds s c i = None) [nat arg..<OPEN_MAX] of
       None \<Rightarrow> Some (Inl EMFILE, s)
     | Some i \<Rightarrow> Some (Inr (int i), upd_file f (\<lambda>p. p\<lparr>ff_refcnt := ff_refcnt p + 1\<rparr>)
         (upd_task c (file_desc_update (\<lambda>t. t(i := (t i)\<lparr>fd_file := Some f\<rparr>))) s))
   }"

definition sys_fcntl :: "'z fstypes \<Rightarrow> nat \<Rightarrow> int \<Rightarrow> int \<Rightarrow> 'z fstate_scheme \<Rightarrow> (int, 'z) fval" where
  "sys_fcntl T d cmd arg s = on_fd T d 0
     (\<lambda>c f s.
        if cmd = 1 then Some (Inr (fd_cloexec (file_desc (tsk s c) d)), s)
        else if cmd = 2 then Some (Inr 0, upd_task c (file_desc_update (\<lambda>t. t(d := (t d)\<lparr>fd_cloexec := arg\<rparr>))) s)
        else if cmd = 3 then dup_from f arg s
        else if cmd = 4 then Some (Inr (int (ff_omode (fs_file s f))), s)
        else if cmd = 5 then
          Some (Inr 0, upd_file f (\<lambda>p. p\<lparr>ff_omode := (ff_omode p - (ff_omode p AND 0x1400)) OR nat (arg AND 0x1400)\<rparr>) s)
        else Some (Inl EINVAL, s)) s"

section \<open>Attributes\<close>

record stat =
  st_ino :: int
  st_dev :: nat
  st_rdev :: int
  st_mode :: "32 word"
  st_nlink :: int
  st_uid :: int
  st_gid :: int
  st_size :: nat
  st_blksize :: nat
  st_blocks :: int
  st_atime :: int
  st_ctime :: int
  st_mtime :: int

text \<open>\<open>bd\<close> is the table \<^verbatim>\<open>blk_dev\<close> of the block cache.\<close>

definition sys_fstat :: "'z fstypes \<Rightarrow> (nat \<Rightarrow> nat option) \<Rightarrow> nat \<Rightarrow> errno \<Rightarrow> 'z fstate_scheme \<Rightarrow> (stat, 'z) fval" where
  "sys_fstat T bd d ua s = on_fd T d 0
     (\<lambda>c f s.
        if ua \<noteq> EZERO then Some (Inl ua, s)
        else do {
          i \<leftarrow> fd_obj s f;
          let o' = fs_fso s i;
          let dv = (case fs_dev (fs_of s o') of
                None \<Rightarrow> 0
              | Some dev \<Rightarrow> (case List.find (\<lambda>j. bd j = Some dev) [0..<32] of None \<Rightarrow> 0 | Some j \<Rightarrow> 0x10000 + (j + 9)));
          Some (Inr \<lparr>st_ino = o_index o', st_dev = dv, st_rdev = o_rdev o', st_mode = o_mode o', st_nlink = nlink o',
            st_uid = o_uid o', st_gid = o_gid o', st_size = o_size o', st_blksize = 512, st_blocks = o_blocks o',
            st_atime = atime o', st_ctime = ctime o', st_mtime = mtime o'\<rparr>, s)
        }) s"

definition sys_fchmod :: "'z fstypes \<Rightarrow> int \<Rightarrow> nat \<Rightarrow> 32 word \<Rightarrow> 'z fstate_scheme \<Rightarrow> (int, 'z) fval" where
  "sys_fchmod T now d mode s = on_fd T d 0
     (\<lambda>c f s. do {
        i \<leftarrow> fd_obj s f;
        let fs = fs_of s (fs_fso s i);
        if \<not> insecure fs \<and> euid (tsk s c) \<noteq> 0 \<and> o_uid (fs_fso s i) \<noteq> euid (tsk s c) then Some (Inl EACCES, s)
        else if read_only fs then Some (Inl EROFS, s)
        else Some (Inr 0, upd_fso i (\<lambda>p. p\<lparr>o_mode := (o_mode p AND NOT 0xfff) OR (mode AND 0xfff), ctime := now, o_dirty := True\<rparr>) s)
      }) s"

definition sys_fchown :: "'z fstypes \<Rightarrow> int \<Rightarrow> nat \<Rightarrow> int \<Rightarrow> int \<Rightarrow> 'z fstate_scheme \<Rightarrow> (int, 'z) fval" where
  "sys_fchown T now d uid gid s = on_fd T d 0
     (\<lambda>c f s. do {
        i \<leftarrow> fd_obj s f;
        if euid (tsk s c) \<noteq> 0 then Some (Inl EACCES, s)
        else if read_only (fs_of s (fs_fso s i)) then Some (Inl EROFS, s)
        else Some (Inr 0, upd_fso i (\<lambda>p. p\<lparr>o_mode := o_mode p AND NOT 0xc00, o_uid := uid, o_gid := gid, ctime := now, o_dirty := True\<rparr>) s)
      }) s"

definition sys_ttyname_r :: "'z fstypes \<Rightarrow> nat \<Rightarrow> int \<Rightarrow> errno \<Rightarrow> 'z fstate_scheme \<Rightarrow> (string, 'z) fval" where
  "sys_ttyname_r T d maxlen ua s = on_fd T d 0
     (\<lambda>c f s. do {
        i \<leftarrow> fd_obj s f;
        Some (case ft_ttyname (type_of T s i) of
            None \<Rightarrow> Inl ENOTTY
          | Some g \<Rightarrow> (case g i s of
              Inl e \<Rightarrow> Inl e
            | Inr name \<Rightarrow> if int (length name) + 1 > maxlen then Inl ENOMEM else if ua \<noteq> EZERO then Inl ua else Inr name), s)
      }) s"

text \<open>The name is copied only for an entry in use.\<close>

definition sys_readdir :: "'z fstypes \<Rightarrow> nat \<Rightarrow> int \<Rightarrow> errno \<Rightarrow> 'z fstate_scheme \<Rightarrow> (nat \<times> string option, 'z) fval" where
  "sys_readdir T d index ua s = on_fd T d R_OK
     (\<lambda>c f s.
        if ua \<noteq> EZERO then Some (Inl ua, s)
        else do {
          i \<leftarrow> fd_obj s f;
          if o_mode (fs_fso s i) AND 0x7000 \<noteq> 0x3000 then Some (Inl ENOTDIR, s)
          else do {
            (r, s1) \<leftarrow> ft_readdir (type_of T s i) i index s;
            Some (case r of
                Inl e \<Rightarrow> Inl e
              | Inr (n, name) \<Rightarrow> Inr (n, if n \<noteq> 0 then Some name else None), s1)
          }
        }) s"

abbreviation (input) FIOCXSTAT :: int where "FIOCXSTAT \<equiv> 0xff02"

text \<open>
  The extended status is the reference count and the poll state. Its buffer is checked by \<open>snd buf\<close>, the result of writing to it.
\<close>

datatype ioctl_out = Xstat int "32 word" | Out "nat option"

definition sys_ioctl ::
    "'z fstypes \<Rightarrow> nat \<Rightarrow> int \<Rightarrow> ubuf \<Rightarrow> 'z fstate_scheme \<Rightarrow> (sysval \<times> ioctl_out, 'z) fval" where
  "sys_ioctl T d cmd buf s = on_fd T d 0
     (\<lambda>c f s. do {
        i \<leftarrow> fd_obj s f;
        if cmd = FIOCXSTAT then
          Some (if euid (tsk s c) \<noteq> 0 then Inr (ErrVal EPERM, Out None)
                else if snd buf \<noteq> EZERO then Inl (snd buf)
                else Inr (Val 0, Xstat (o_refcnt (fs_fso s i)) (o_state (fs_fso s i))), s)
        else do {
          (r, s1) \<leftarrow> ft_ioctl (type_of T s i) i cmd buf s;
          Some (case r of Inl e \<Rightarrow> Inl e | Inr v \<Rightarrow> Inr (Val 0, Out v), s1)
        }
      }) s"

section \<open>Mounted file systems\<close>

record mtab =
  m_prefix :: string
  m_device :: string
  m_fstype :: string
  m_flags :: nat
  m_mounted :: bool

definition mtab_entry :: "'z fstypes \<Rightarrow> (nat \<Rightarrow> string) \<Rightarrow> fs \<Rightarrow> mtab" where
  "mtab_entry T dname f =
     (if in_use f then
        \<lparr>m_prefix = prefix f, m_device = (case fs_dev f of Some d \<Rightarrow> dname d | None \<Rightarrow> ''nodev''), m_fstype = ft_name (T (fs_type f)),
         m_flags = (if read_only f then 1 else 0) + (if no_atime f then 2 else 0) + (if removable f then 4 else 0) + (if insecure f then 8 else 0),
         m_mounted = True\<rparr>
      else \<lparr>m_prefix = [], m_device = [], m_fstype = [], m_flags = 0, m_mounted = False\<rparr>)"

text \<open>\<open>len\<close> is in entries; \<open>ua i\<close> is the result of copying entry \<open>i\<close> to the user.\<close>

definition sys_mtab :: "'z fstypes \<Rightarrow> (nat \<Rightarrow> string) \<Rightarrow> nat \<Rightarrow> (nat \<Rightarrow> errno) \<Rightarrow> 'z fstate_scheme \<Rightarrow> errno + mtab list" where
  "sys_mtab T dname len ua s =
     (if len < FS_MAXFS then Inl EINVAL
      else case List.find (\<lambda>i. ua i \<noteq> EZERO) [0..<FS_MAXFS] of
        Some i \<Rightarrow> Inl (ua i)
      | None \<Rightarrow> Inr (map (\<lambda>i. mtab_entry T dname (fs_fs s ! i)) [0..<FS_MAXFS]))"

definition sys_rfsactive :: "'z fstate_scheme \<Rightarrow> nat" where
  "sys_rfsactive s = length (filter (\<lambda>f. in_use f \<and> removable f \<and> active f) (fs_fs s))"

section \<open>Polling\<close>

record pollfd =
  pf_events :: "32 word"
  pf_fd :: nat

text \<open>The size of an array of \<open>n\<close> elements, as \<^verbatim>\<open>uaa\<close> checks it.\<close>

definition uaa_size :: "32 word \<Rightarrow> 32 word \<Rightarrow> errno + 32 word" where
  "uaa_size sz n = (if sz * n < sz then Inl EINVAL else Inr (sz * n))"

definition poll_obj :: "'z fstate_scheme \<Rightarrow> pollfd \<Rightarrow> nat option" where
  "poll_obj s p = do { c \<leftarrow> curr s; f \<leftarrow> (if pf_fd p < OPEN_MAX then fds s c (pf_fd p) else None); fd_obj s f }"

text \<open>The first loop: the test of the error comes after the loop, so only the last one counts.\<close>

fun poll_check :: "'z fstypes \<Rightarrow> pollfd list \<Rightarrow> errno \<Rightarrow> 'z fstate_scheme \<Rightarrow> errno option" where
  "poll_check T [] e s = Some e"
| "poll_check T (p # ps) e s = do { e1 \<leftarrow> fdaccess T (pf_fd p) (pf_events p) s; poll_check T ps e1 s }"

definition poll1 :: "nat \<Rightarrow> 'z fstate_scheme \<Rightarrow> 'z fstate_scheme option" where
  "poll1 i s = do {
     c \<leftarrow> curr s;
     if pollcnt (fs_fso s i) \<noteq> 0 then do {
       t \<leftarrow> polling (fs_fso s i);
       Some (upd_fso i (\<lambda>p. p\<lparr>polling := None, pollcnt := pollcnt p + 1\<rparr>)
         (upd_task t (multipoll_update (\<lambda>_. 1)) (upd_task c (multipoll_update (\<lambda>_. 1)) s)))
     }
     else Some (upd_fso i (\<lambda>p. p\<lparr>polling := Some c, pollcnt := 1\<rparr>) s)
   }"

definition unpoll1 :: "nat \<Rightarrow> 'z fstate_scheme \<Rightarrow> 'z fstate_scheme option" where
  "unpoll1 i s = do {
     c \<leftarrow> curr s;
     if pollcnt (fs_fso s i) = 0 then None
     else Some (upd_fso i (\<lambda>p. p\<lparr>polling := (if polling p = Some c then None else polling p), pollcnt := pollcnt p - 1\<rparr>) s)
   }"

fun poll_begin :: "'z fstypes \<Rightarrow> pollfd list \<Rightarrow> 'z fstate_scheme \<Rightarrow> 'z fstate_scheme option" where
  "poll_begin T [] s = Some s"
| "poll_begin T (p # ps) s = do {
     e \<leftarrow> fdaccess T (pf_fd p) (pf_events p) s;
     if e \<noteq> EZERO then None
     else do { i \<leftarrow> poll_obj s p; s1 \<leftarrow> poll1 i s; poll_begin T ps s1 }
   }"

fun poll_count :: "pollfd list \<Rightarrow> 'z fstate_scheme \<Rightarrow> nat option" where
  "poll_count [] s = Some 0"
| "poll_count (p # ps) s = do {
     i \<leftarrow> poll_obj s p;
     n \<leftarrow> poll_count ps s;
     Some ((if o_state (fs_fso s i) AND pf_events p \<noteq> 0 then 1 else 0) + n)
   }"

text \<open>The last loop, with the events of each descriptor.\<close>

fun poll_finish :: "pollfd list \<Rightarrow> bool \<Rightarrow> 'z fstate_scheme \<Rightarrow> (32 word list \<times> 'z fstate_scheme) option" where
  "poll_finish [] ndelay s = Some ([], s)"
| "poll_finish (p # ps) ndelay s = do {
     i \<leftarrow> poll_obj s p;
     s1 \<leftarrow> (if ndelay then Some s else unpoll1 i s);
     (rs, s2) \<leftarrow> poll_finish ps ndelay s1;
     Some ((o_state (fs_fso s1 i) AND pf_events p) # rs, s2)
   }"

definition poll_end :: "pollfd list \<Rightarrow> bool \<Rightarrow> nat \<Rightarrow> errno \<Rightarrow> 'z fstate_scheme \<Rightarrow> ((sysval \<times> 32 word list + outcome) \<times> 'z fstate_scheme) option" where
  "poll_end ps ndelay n e s = do {
     (rs, s1) \<leftarrow> poll_finish ps ndelay s;
     c \<leftarrow> curr s1;
     Some (Inl (if n \<noteq> 0 then Val (int n) else if e \<noteq> EZERO then ErrVal e else Val 0, rs), upd_task c (multipoll_update (\<lambda>_. 0)) s1)
   }"

text \<open>One round of the loop; it is entered again when the task is woken.\<close>

definition poll_round :: "pollfd list \<Rightarrow> bool \<Rightarrow> 'z fstate_scheme \<Rightarrow> ((sysval \<times> 32 word list + outcome) \<times> 'z fstate_scheme) option" where
  "poll_round ps ndelay s = do {
     n \<leftarrow> poll_count ps s;
     if n \<noteq> 0 \<or> ndelay then poll_end ps ndelay n EZERO s
     else do {
       (r, s1) \<leftarrow> task_suspend (Some Pollq) WAIT_INTR s;
       (case r of
          Inl e \<Rightarrow> poll_end ps ndelay 0 e s1
        | Inr out \<Rightarrow> Some (Inr out, s1))
     }
   }"

definition sys_poll ::
    "'z fstypes \<Rightarrow> errno \<Rightarrow> pollfd list \<Rightarrow> bool \<Rightarrow> 'z fstate_scheme \<Rightarrow> (sysval \<times> 32 word list + outcome, 'z) fval" where
  "sys_poll T ua ps ndelay s =
     (if ua \<noteq> EZERO then Some (Inl ua, s)
      else do {
        e \<leftarrow> poll_check T ps EZERO s;
        if e \<noteq> EZERO then Some (Inl e, s)
        else do {
          s1 \<leftarrow> (if ndelay then Some s else poll_begin T ps s);
          (r, s2) \<leftarrow> poll_round ps ndelay s1;
          Some (Inr r, s2)
        }
      })"

section \<open>What polling does\<close>

text \<open>The types of pipes and of the native file system add nothing to the permission bits.\<close>

definition plain_perms :: "'z fstypes \<Rightarrow> bool" where
  "plain_perms T \<longleftrightarrow> (\<forall>t. ft_chk_perm (T t) = (\<lambda>i m u g s. EZERO))"

text \<open>The objects in \<open>A\<close> are polled by the task \<open>c\<close> alone.\<close>

definition mark :: "tid \<Rightarrow> nat set \<Rightarrow> 'z fstate_scheme \<Rightarrow> 'z fstate_scheme" where
  "mark c A s = s\<lparr>fs_fso := (\<lambda>i. if i \<in> A then (fs_fso s i)\<lparr>polling := Some c, pollcnt := 1\<rparr> else fs_fso s i)\<rparr>"

lemma mark_simps [simp]:
  "curr (mark c A s) = curr s" "tsk (mark c A s) = tsk s" "fs_file (mark c A s) = fs_file s" "fs_fs (mark c A s) = fs_fs s"
  "o_state (fs_fso (mark c A s) i) = o_state (fs_fso s i)" "fds (mark c A s) = fds s" "mark c {} s = s"
  by (auto simp: mark_def fds_def fun_eq_iff)

lemma poll_obj_mark [simp]: "poll_obj (mark c A s) = poll_obj s"
  by (cases "curr s") (auto simp: poll_obj_def fd_obj_def fun_eq_iff)

lemma fdaccess_mark:
  assumes "plain_perms T"
  shows "fdaccess T d mode (mark c A s) = fdaccess T d mode s"
proof -
  have f: "fs_of (mark c A s) (fs_fso (mark c A s) i) = fs_of s (fs_fso s i)" "o_mode (fs_fso (mark c A s) i) = o_mode (fs_fso s i)" for i
    by (auto simp: mark_def fs_of_def split: fsref.splits)
  have p: "perm_bits b (fs_fso (mark c A s) i) u g = perm_bits b (fs_fso s i) u g" for b i u g by (simp add: mark_def perm_bits_def)
  have "fs_chk_perm (\<lambda>i m u g s. EZERO) i m u g (mark c A s) = fs_chk_perm (\<lambda>i m u g s. EZERO) i m u g s" for i m u g
    unfolding fs_chk_perm_def Let_def f p by simp
  moreover have e: "(\<lambda>i m u g s. ft_chk_perm (type_of T s i) i m u g s) = (\<lambda>i m u g s. EZERO)" using assms by (simp add: plain_perms_def type_of_def)
  ultimately show ?thesis unfolding fdaccess_def e by (cases "curr s") (simp_all add: fs_fdaccess_def Let_def split: option.splits)
qed

lemma poll_check_ok: "\<forall>p \<in> set ps. fdaccess T (pf_fd p) (pf_events p) s = Some EZERO \<Longrightarrow> poll_check T ps EZERO s = Some EZERO"
  by (induction ps) auto

lemma poll_begin_marks:
  assumes "plain_perms T" and "curr s = Some c" and "\<forall>p \<in> set ps. fdaccess T (pf_fd p) (pf_events p) s = Some EZERO \<and> poll_obj s p = Some (ob p)"
    and "distinct (map ob ps)" and "\<forall>p \<in> set ps. pollcnt (fs_fso s (ob p)) = 0" and "A \<inter> ob ` set ps = {}"
  shows "poll_begin T ps (mark c A s) = Some (mark c (A \<union> ob ` set ps) s)"
  using assms(3-6)
proof (induction ps arbitrary: A)
  case (Cons p ps)
  have n: "ob p \<notin> A" "pollcnt (fs_fso (mark c A s) (ob p)) = 0" using Cons.prems by (auto simp: mark_def)
  have "poll1 (ob p) (mark c A s) = Some (mark c (insert (ob p) A) s)"
    using n assms(2) by (auto simp: poll1_def mark_def upd_fso_def fun_eq_iff)
  moreover have "poll_begin T ps (mark c (insert (ob p) A) s) = Some (mark c (insert (ob p) A \<union> ob ` set ps) s)"
    by (rule Cons.IH) (use Cons.prems in auto)
  ultimately show ?case using Cons.prems by (simp add: fdaccess_mark [OF assms(1)])
qed simp

definition ready_events :: "'z fstate_scheme \<Rightarrow> (pollfd \<Rightarrow> nat) \<Rightarrow> pollfd \<Rightarrow> 32 word" where
  "ready_events s ob p = o_state (fs_fso s (ob p)) AND pf_events p"

lemma poll_count_is:
  "\<forall>p \<in> set ps. poll_obj s p = Some (ob p) \<Longrightarrow> poll_count ps s = Some (length (filter (\<lambda>p. ready_events s ob p \<noteq> 0) ps))"
  by (induction ps) (auto simp: ready_events_def)

lemma poll_finish_unmarks:
  assumes "curr s = Some c" and "\<forall>p \<in> set ps. poll_obj s p = Some (ob p)" and "distinct (map ob ps)"
    and "\<forall>p \<in> set ps. pollcnt (fs_fso s (ob p)) = 0 \<and> polling (fs_fso s (ob p)) = None"
  shows "poll_finish ps False (mark c (ob ` set ps) s) = Some (map (ready_events s ob) ps, s)"
  using assms(2-4)
proof (induction ps)
  case (Cons p ps)
  let ?A = "ob ` set ps"
  have n: "ob p \<notin> ?A" "pollcnt (fs_fso s (ob p)) = 0" "polling (fs_fso s (ob p)) = None" using Cons.prems by auto
  have "fs_fso s (ob p) = (fs_fso s (ob p))\<lparr>polling := None, pollcnt := 0\<rparr>" using n(2,3) by (cases "fs_fso s (ob p)") simp
  then have "unpoll1 (ob p) (mark c (insert (ob p) ?A) s) = Some (mark c ?A s)"
    using assms(1) n by (auto simp: unpoll1_def mark_def upd_fso_def fun_eq_iff)
  then show ?case using Cons by (auto simp: ready_events_def)
qed simp

lemma poll_finish_looks:
  "\<forall>p \<in> set ps. poll_obj s p = Some (ob p) \<Longrightarrow> poll_finish ps True s = Some (map (ready_events s ob) ps, s)"
  by (induction ps) (auto simp: ready_events_def)

lemma mark_kinv: "kinv (mark c A s) L = kinv s L" "running (mark c A s) L = running s L"
  using kinv_cong(1,2) [of "mark c A s" s L] by (simp_all add: mark_def)

text \<open>
  C18: A poll of open descriptors, which refer to different objects that nobody else polls. If one of them is ready, or the call must not
  wait, it returns at once: the number of descriptors that are ready, the events that each is ready for, and nothing has changed but
  the flag \<^verbatim>\<open>multipoll\<close> of the task. Otherwise, if a signal or an unseen event is pending, it returns \<^verbatim>\<open>EINTR\<close> and no events; if not, the task
  goes to sleep on the queue of polls, every object knows that it is polled by this task, and another task runs.
\<close>

theorem sys_poll_ready:
  assumes "plain_perms T" and "curr s = Some c"
    and "\<forall>p \<in> set ps. fdaccess T (pf_fd p) (pf_events p) s = Some EZERO \<and> poll_obj s p = Some (ob p)"
    and "ndelay \<or> distinct (map ob ps) \<and> (\<forall>p \<in> set ps. pollcnt (fs_fso s (ob p)) = 0 \<and> polling (fs_fso s (ob p)) = None)"
    and "kinv s L" and "running s L"
  shows "if ndelay \<or> (\<exists>p \<in> set ps. ready_events s ob p \<noteq> 0)
     then sys_poll T EZERO ps ndelay s =
       Some (Inr (Inl (Val (int (length (filter (\<lambda>p. ready_events s ob p \<noteq> 0) ps))), map (ready_events s ob) ps)),
         upd_task c (multipoll_update (\<lambda>_. 0)) s)
     else if interrupted WAIT_INTR (tsk s c)
     then sys_poll T EZERO ps ndelay s =
       Some (Inr (Inl (ErrVal EINTR, map (\<lambda>_. 0) ps)), upd_task c (\<lambda>u. u\<lparr>unseen_events := 0, multipoll := 0\<rparr>) s)
     else \<exists>out s' L'. sys_poll T EZERO ps ndelay s = Some (Inr (Inr out), s') \<and> scheduled out s' L' \<and>
       paused (tsk s' c) = WAIT_INTR \<and> curr s' \<noteq> Some c \<and> L' Pollq = L Pollq @ [c] \<and>
       fs_fso s' = (\<lambda>i. if i \<in> ob ` set ps then (fs_fso s i)\<lparr>polling := Some c, pollcnt := 1\<rparr> else fs_fso s i)"
proof -
  have ck: "poll_check T ps EZERO s = Some EZERO" using assms(3) by (intro poll_check_ok) simp
  have ob: "\<forall>p \<in> set ps. poll_obj s p = Some (ob p)" using assms(3) by simp
  show ?thesis
  proof (cases ndelay)
    case True
    then show ?thesis using ck poll_count_is [OF ob] poll_finish_looks [OF ob] assms(2)
      by (simp add: sys_poll_def poll_round_def poll_end_def)
  next
    case nd: False
    let ?m = "mark c (ob ` set ps) s" and ?n = "length (filter (\<lambda>p. ready_events s ob p \<noteq> 0) ps)"
    have "poll_begin T ps (mark c {} s) = Some (mark c ({} \<union> ob ` set ps) s)"
      by (rule poll_begin_marks) (use assms nd in auto)
    then have b: "poll_begin T ps s = Some ?m" by simp
    have n: "poll_count ps ?m = Some ?n" using poll_count_is [of ps ?m ob] ob by (simp add: ready_events_def)
    note defs = sys_poll_def poll_round_def poll_end_def nd ck b n
    have n0: "?n = 0 \<longleftrightarrow> \<not> (\<exists>p \<in> set ps. ready_events s ob p \<noteq> 0)" by (auto simp: filter_empty_conv)
    consider "?n \<noteq> 0" | "?n = 0" "interrupted WAIT_INTR (tsk s c)" | "?n = 0" "\<not> interrupted WAIT_INTR (tsk s c)" by blast
    then show ?thesis
    proof cases
      case 1
      have "poll_finish ps False ?m = Some (map (ready_events s ob) ps, s)" by (rule poll_finish_unmarks) (use assms ob nd in auto)
      then show ?thesis using 1 n0 assms(2) by (simp add: defs)
    next
      case 2
      let ?u = "upd_task c (unseen_events_update (\<lambda>_. 0)) s"
      have fu: "fds ?u = fds s" by (simp add: fds_def upd_task_def fun_eq_iff)
      have "curr ?u = curr s" "fs_file ?u = fs_file s" by (simp_all add: upd_task_def)
      then have pu: "poll_obj ?u p = poll_obj s p" for p unfolding poll_obj_def fd_obj_def fu by simp
      have "task_suspend (Some Pollq) WAIT_INTR ?m = Some (Inl EINTR, upd_task c (unseen_events_update (\<lambda>_. 0)) ?m)"
        using suspend_enter_interrupted [of ?m c "Some Pollq" WAIT_INTR] 2(2) assms(2) running_not_queued [OF assms(6,2)]
        by (simp add: task_suspend_def)
      moreover have "upd_task c (unseen_events_update (\<lambda>_. 0)) ?m = mark c (ob ` set ps) ?u" by (simp add: mark_def upd_task_def cong: if_cong)
      ultimately have su: "task_suspend (Some Pollq) WAIT_INTR ?m = Some (Inl EINTR, mark c (ob ` set ps) ?u)" by simp
      have "poll_finish ps False (mark c (ob ` set ps) ?u) = Some (map (ready_events ?u ob) ps, ?u)"
        by (rule poll_finish_unmarks) (use assms(2,4) ob pu nd in \<open>auto simp: upd_task_def\<close>)
      moreover have "map (ready_events ?u ob) ps = map (\<lambda>_. 0) ps" using 2(1) n0 by (simp add: ready_events_def upd_task_def)
      moreover have "upd_task c (multipoll_update (\<lambda>_. 0)) ?u = upd_task c (\<lambda>u. u\<lparr>unseen_events := 0, multipoll := 0\<rparr>) s" by (simp add: upd_task_def)
      moreover have "curr ?u = Some c" using assms(2) by (simp add: upd_task_def)
      ultimately show ?thesis using 2 n0 nd su by (simp add: defs)
    next
      case 3
      have "kinv ?m L" "running ?m L" "curr ?m = Some c" using assms(2,5,6) by (simp_all add: mark_kinv)
      then obtain out s' L' where s': "task_suspend (Some Pollq) WAIT_INTR ?m = Some (Inr out, s')" "scheduled out s' L'"
          "paused (tsk s' c) = WAIT_INTR" "curr s' \<noteq> Some c" "L' Pollq = L Pollq @ [c]"
        using task_suspend_enters [of ?m L c Pollq WAIT_INTR] 3(2) by auto
      have "fs_fso s' = fs_fso ?m" using task_suspend_kept [OF s'(1)] fs_of_more(2) [of s' ?m] by simp
      then have f: "fs_fso s' = (\<lambda>i. if i \<in> ob ` set ps then (fs_fso s i)\<lparr>polling := Some c, pollcnt := 1\<rparr> else fs_fso s i)"
        by (simp add: mark_def)
      have "sys_poll T EZERO ps ndelay s = Some (Inr (Inr out), s')" using 3(1) s'(1) by (simp add: defs)
      then show ?thesis using 3 n0 nd s'(2-5) f by auto
    qed
  qed
qed

text \<open>Task 0 polls its descriptor 3, a pipe that holds data.\<close>

theorem sys_poll_ready_witness:
  "sys_poll (\<lambda>_. pipe_ops) EZERO [\<lparr>pf_events = 4, pf_fd = 3\<rparr>] False (upd_fso 7 (o_state_update (\<lambda>_. 6)) example_files) =
     Some (Inr (Inl (Val 1, [4])), upd_task 0 (multipoll_update (\<lambda>_. 0)) (upd_fso 7 (o_state_update (\<lambda>_. 6)) example_files))"
proof -
  let ?s = "upd_fso 7 (o_state_update (\<lambda>_. 6)) example_files" and ?p = "\<lparr>pf_events = 4, pf_fd = 3\<rparr>" and ?T = "\<lambda>_. pipe_ops :: unit fstype"
  have T: "plain_perms ?T" by (simp add: plain_perms_def pipe_ops_def pipe_chk_perm_def fun_eq_iff)
  have c: "curr ?s = Some 0" "fds ?s = fds example_files" "fs_file ?s = fs_file example_files" "tsk ?s = tsk example_files"
    by (simp_all add: upd_fso_def example_files_simps fds_def fun_eq_iff)
  have u: "euid (tsk example_files 0) = 0" by (simp add: example_files_def kstate.defs boot_task_def zero_task_def)
  have q: "fs_chk_perm g i 4 0 gid s = EZERO" for g :: "nat \<Rightarrow> 32 word \<Rightarrow> int \<Rightarrow> int \<Rightarrow> fstate \<Rightarrow> errno" and i gid s
    by (simp add: fs_chk_perm_def Let_def split: prod.split)
  have o: "poll_obj ?s ?p = Some 7" by (simp add: poll_obj_def fd_obj_def c example_fds example_files_simps)
  have a: "fdaccess ?T (pf_fd ?p) (pf_events ?p) ?s = Some EZERO"
    by (simp add: fdaccess_def fs_fdaccess_def c u q example_fds example_files_simps reads_def zero_file_def)
  have r: "ready_events ?s (\<lambda>_. 7) ?p = 4" by (simp add: ready_events_def upd_fso_def)
  have z: "pollcnt (fs_fso ?s 7) = 0" "polling (fs_fso ?s 7) = None" by (simp_all add: upd_fso_def example_files_simps zero_fso_def)
  have k: "kinv ?s example_queues" "running ?s example_queues"
    using kquiet_evolves [OF example_files_kinv(1) kquiet_fso(1)] example_files_kinv(2) unfolding evolves_def by blast+
  show ?thesis using sys_poll_ready [OF T c(1), of "[?p]" "\<lambda>_. 7" False, OF _ _ k] o a r z by simp
qed

section \<open>Findings\<close>

text \<open>
  A descriptor that is not open brings the kernel down when a later one in the array is: the first loop of \<^verbatim>\<open>sys__poll\<close> forgets its error,
  and the second one panics on it.
\<close>

lemma poll_bad_panics:
  assumes "curr s = Some c" and "pf_fd p \<ge> OPEN_MAX" and "fdaccess T (pf_fd q) (pf_events q) s = Some EZERO"
  shows "sys_poll T EZERO [p, q] False s = None"
  using assms by (simp add: sys_poll_def fdaccess_def fs_fdaccess_def)

text \<open>The third task that polls the same file follows the null pointer that the second has left.\<close>

lemma poll_third_crashes:
  assumes "pollcnt (fs_fso s i) = 0" and "poll1 i (s\<lparr>curr := Some a\<rparr>) = Some s1" and "poll1 i (s1\<lparr>curr := Some b\<rparr>) = Some s2"
  shows "poll1 i (s2\<lparr>curr := Some c\<rparr>) = None"
  using assms by (auto simp: poll1_def upd_fso_def upd_task_def)

text \<open>The check of \<^verbatim>\<open>uaa\<close> lets an array through whose size does not fit into 32 bits.\<close>

lemma uaa_overflows: "\<exists>n. uaa_size 12 n = Inr 20 \<and> unat n = 357913943"
  by (rule exI [of _ 357913943]) (simp add: uaa_size_def)

text \<open>After \<^verbatim>\<open>revoke\<close>, closing the file does not take its reader off the count.\<close>

lemma revoke_leaks_reader:
  assumes "fs_file s f = \<lparr>ff_refcnt = 1, ff_fso = Some i, ff_offset = 0, ff_omode = 0\<rparr>" and "o_refcnt (fs_fso s i) = 2"
    and "fs_putfile pipe_putfso f (upd_file f no_io s) = Some s'"
  shows "reader_count (fs_fso s' i) = reader_count (fs_fso s i)"
  using assms by (auto simp: fs_putfile_def fs_putfso_def upd_file_def upd_fso_def no_io_def reads_def writes_def)

end
