(* ===== verification/Fs_Open.thy ===== *)
theory Fs_Open
  imports Fs_Call
begin

text \<open>
  Opening files. The locale \<open>file_namer\<close> is the contract between the system call and the file systems: what looking up a path and letting go of
  an object may do to the tables. Over it, opening a file keeps every reference count exact and leaks nothing on any of its error paths.
\<close>

definition same_tables :: "'z fstate_scheme \<Rightarrow> 'z fstate_scheme \<Rightarrow> bool" where
  "same_tables s s' \<longleftrightarrow> tsk s' = tsk s \<and> slot s' = slot s \<and> curr s' = curr s \<and> fs_file s' = fs_file s"

lemma same_tables_refs:
  assumes "same_tables s s'"
  shows "file_refs s' = file_refs s" "fso_refs s' = fso_refs s" "fds s' = fds s"
proof -
  show f: "fds s' = fds s" using assms by (auto simp: same_tables_def fds_def fun_eq_iff)
  show "file_refs s' = file_refs s" using assms f by (simp add: file_refs_def same_tables_def fun_eq_iff)
  show "fso_refs s' = fso_refs s" using assms by (auto simp: fso_refs_def same_tables_def)
qed

text \<open>The tables are as before, and every object has the references that it had.\<close>

lemma restored:
  assumes "same_tables s s'" and "\<And>j. o_refcnt (fs_fso s' j) = o_refcnt (fs_fso s j)" and "refs_ok s" and "objs_ok s"
  shows "refs_ok s' \<and> objs_ok s' \<and> other_refs s' = other_refs s \<and> fds s' = fds s"
  using assms same_tables_refs [OF assms(1)] by (auto simp: refs_ok_def objs_ok_def other_refs_def same_tables_def fun_eq_iff)

text \<open>The reasons for which \<^verbatim>\<open>open\<close> may fail.\<close>

definition open_fails :: "'z fstypes \<Rightarrow> 'z activate \<Rightarrow> string \<Rightarrow> nat \<Rightarrow> tid \<Rightarrow> 'z fstate_scheme \<Rightarrow> errno \<Rightarrow> bool" where
  "open_fails T act path mode c s e \<longleftrightarrow>
     (\<exists>s1. fs_lookup T act path s = Some (Inl e, s1)) \<or>
     (\<exists>i s1. fs_lookup T act path s = Some (Inr i, s1) \<and>
        (open_perm T i mode s1 = Some e \<or> odd (mode div 512) \<and> chk_perm T i W_OK (euid (tsk s c)) (egid (tsk s c)) s1 = e)) \<or>
     (e = ENFILE \<and> (\<forall>f < FS_MAXFILE. ff_refcnt (fs_file s f) \<noteq> 0)) \<or> (e = EMFILE \<and> (\<forall>d < OPEN_MAX. fds s c d \<noteq> None))"

text \<open>Under an invariant, the objects \<open>held\<close> can be let go, and the invariant does not depend on the tables of descriptors and open files.\<close>

locale obj_store =
  fixes T :: "'z fstypes" and inv :: "'z fstate_scheme \<Rightarrow> bool" and held :: "'z fstate_scheme \<Rightarrow> nat \<Rightarrow> bool"
  assumes put_law: "\<lbrakk>inv s; held s i\<rbrakk> \<Longrightarrow>
      \<exists>s'. put_fso T i s = Some s' \<and> inv s' \<and> same_tables s s' \<and> (\<forall>j. o_refcnt (fs_fso s' j) = o_refcnt (fs_fso s j) - of_bool (j = i))"
    and count_law: "inv s \<Longrightarrow> inv (upd_fso i (count_open d mode) s)" "held (upd_fso i (count_open d mode) s) = held s"
    and file_law: "inv s \<Longrightarrow> inv (upd_file f g s)" "held (upd_file f g s) = held s"
    and desc_law: "inv s \<Longrightarrow> inv (upd_task c (file_desc_update h) s)"
begin

text \<open>Giving back the reference to the object \<open>i\<close> that has been looked up from \<open>s\<close>.\<close>

lemma put_back:
  assumes s1: "inv s1" "held s1 i" "same_tables s s1" "\<And>j. o_refcnt (fs_fso s1 j) = o_refcnt (fs_fso s j) + of_bool (j = i)"
    and s: "refs_ok s" "objs_ok s"
  shows "\<exists>s2. put_fso T i s1 = Some s2 \<and> inv s2 \<and> refs_ok s2 \<and> objs_ok s2 \<and> other_refs s2 = other_refs s \<and> fds s2 = fds s"
proof -
  obtain s2 where p: "put_fso T i s1 = Some s2" "inv s2" "same_tables s1 s2" "\<forall>j. o_refcnt (fs_fso s2 j) = o_refcnt (fs_fso s1 j) - of_bool (j = i)"
    using put_law [OF s1(1,2)] by blast
  have "same_tables s s2" using s1(3) p(3) by (simp add: same_tables_def)
  then show ?thesis using restored [of s s2, OF _ _ s] p s1(4) by simp
qed

text \<open>The last part of \<^verbatim>\<open>sys__open\<close>, with the object \<open>i\<close> that has been looked up from \<open>s\<close>.\<close>

lemma open_file:
  assumes s1: "inv s1" "held s1 i" "same_tables s s1" "\<And>j. o_refcnt (fs_fso s1 j) = o_refcnt (fs_fso s j) + of_bool (j = i)"
    and s: "refs_ok s" "objs_ok s" "curr s = Some c" "slot s c" "c < TASK_MAX"
    and f: "fs_getfile (Some i) mode s1 = (Inr f, s3)"
  shows "\<exists>r s'. do {
       (r2, s4) \<leftarrow> fs_getfd f s3;
       (case r2 of
          Inl e \<Rightarrow> do { s5 \<leftarrow> fs_putfile (putfso T) f s4; Some (Inl e, s5) }
        | Inr d \<Rightarrow> Some (Inr d, s4)) } = Some (r, s') \<and>
     inv s' \<and> refs_ok s' \<and> objs_ok s' \<and> other_refs s' = other_refs s \<and>
     (case r of
        Inl e \<Rightarrow> e = EMFILE \<and> (\<forall>d < OPEN_MAX. fds s c d \<noteq> None) \<and> fds s' = fds s
      | Inr d \<Rightarrow> d < OPEN_MAX \<and> fds s c d = None \<and> (\<forall>e < d. fds s c e \<noteq> None) \<and> fds s' = (fds s)(c := (fds s c)(d := Some f)) \<and>
          fs_file s' f = \<lparr>ff_refcnt = 1, ff_fso = Some i, ff_offset = 0, ff_omode = mode\<rparr> \<and> o_size (fs_fso s' i) = o_size (fs_fso s1 i))"
proof -
  let ?new = "\<lparr>ff_refcnt = 1, ff_fso = Some i, ff_offset = 0, ff_omode = mode\<rparr>"
  have fi: "List.find (\<lambda>x. ff_refcnt (fs_file s1 x) = 0) [0..<FS_MAXFILE] = Some f"
    and s3: "s3 = upd_fso i (count_open 1 mode) (upd_file f (\<lambda>_. ?new) s1)"
    using f by (auto simp: fs_getfile_def Let_def zero_file_def split: option.splits)
  have f0: "f < FS_MAXFILE" "ff_refcnt (fs_file s f) = 0" using fi s1(3) by (auto simp: find_upt_Some_iff same_tables_def)
  have t3: "tsk s3 = tsk s" "slot s3 = slot s" "curr s3 = curr s" "fs_file s3 = (fs_file s)(f := ?new)"
      "\<And>j. o_refcnt (fs_fso s3 j) = o_refcnt (fs_fso s j) + of_bool (j = i)"
    using s1(3,4) unfolding s3 by (auto simp: same_tables_def upd_fso_def upd_file_def count_open_def)
  have fd3: "fds s3 = fds s" using t3(1) by (simp add: fds_def fun_eq_iff)
  have I3: "inv s3" "held s3 i" unfolding s3 using s1(1,2) by (simp_all add: count_law file_law)
  show ?thesis
  proof (cases "List.find (\<lambda>d. fds s c d = None) [0..<OPEN_MAX]")
    case None
    then have g: "fs_getfd f s3 = Some (Inl EMFILE, s3)" using s(3) t3(3) fd3 by (simp add: fs_getfd_def)
    define s4 where "s4 = (if reads mode \<or> writes mode then upd_fso i (count_open (-1) mode) s3 else s3)"
    have t4: "tsk s4 = tsk s" "slot s4 = slot s" "curr s4 = curr s" "fs_file s4 = (fs_file s)(f := ?new)"
        "\<And>j. o_refcnt (fs_fso s4 j) = o_refcnt (fs_fso s j) + of_bool (j = i)"
      using t3 by (auto simp: s4_def upd_fso_def count_open_def)
    have I4: "inv s4" "held s4 i" using I3 by (simp_all add: s4_def count_law)
    obtain s5 where s5: "put_fso T i s4 = Some s5" "inv s5" "same_tables s4 s5" "\<forall>j. o_refcnt (fs_fso s5 j) = o_refcnt (fs_fso s4 j) - of_bool (j = i)"
      using put_law [OF I4] by blast
    let ?s6 = "upd_file f (\<lambda>p. p\<lparr>ff_refcnt := ff_refcnt p - 1\<rparr>) s5"
    have p: "fs_putfile (putfso T) f s3 = Some ?s6"
      using t3(4) s5(1) unfolding put_fso_def s4_def by (cases "reads mode \<or> writes mode") (simp_all add: fs_putfile_def Let_def)
    have t6: "tsk ?s6 = tsk s" "slot ?s6 = slot s" "fs_file ?s6 = (fs_file s)(f := ?new\<lparr>ff_refcnt := 0\<rparr>)" "\<And>j. o_refcnt (fs_fso ?s6 j) = o_refcnt (fs_fso s j)"
      using s5(3,4) t4 by (auto simp: same_tables_def upd_file_def)
    have fd6: "fds ?s6 = fds s" using t6(1) by (simp add: fds_def fun_eq_iff)
    have "fso_refs ?s6 j = fso_refs s j" for j using fso_refs_upd [OF f0(1), of ?s6 s j] t6(3) f0(2) by simp
    then have o: "other_refs ?s6 = other_refs s" using t6(4) by (simp add: other_refs_def fun_eq_iff)
    have "file_refs ?s6 = file_refs s" using t6(2) fd6 by (simp add: file_refs_def fun_eq_iff)
    then have "refs_ok ?s6" using s(1) t6(3) f0(2) by (simp add: refs_ok_def)
    moreover have "objs_ok ?s6" using s(2) t6(3) o unfolding objs_ok_other by simp
    moreover have "\<forall>d < OPEN_MAX. fds s c d \<noteq> None" using None by (simp add: find_upt_None_iff)
    ultimately show ?thesis using g p o fd6 file_law(1) [OF s5(2)] by (intro exI [of _ "Inl EMFILE"] exI [of _ ?s6]) simp
  next
    case (Some d)
    let ?s4 = "upd_task c (file_desc_update (\<lambda>t. t(d := \<lparr>fd_file = Some f, fd_cloexec = 0\<rparr>))) s3"
    have g: "fs_getfd f s3 = Some (Inr d, ?s4)" using Some s(3) t3(3) fd3 by (simp add: fs_getfd_def)
    have d: "d < OPEN_MAX" "fds s c d = None" "\<forall>e < d. fds s c e \<noteq> None" using Some by (auto simp: find_upt_Some_iff)
    have t4: "slot ?s4 = slot s" "fs_file ?s4 = (fs_file s)(f := ?new)" "\<And>j. o_refcnt (fs_fso ?s4 j) = o_refcnt (fs_fso s j) + of_bool (j = i)"
      using t3 by (simp_all add: upd_task_def)
    have fd: "fds ?s4 = (fds s)(c := (fds s c)(d := Some f))" using t3(1) by (auto simp: fds_def upd_task_def fun_eq_iff)
    have "fso_refs ?s4 j = fso_refs s j + of_bool (j = i)" for j using fso_refs_upd [OF f0(1), of ?s4 s j] t4(2) f0(2) by auto
    then have o: "other_refs ?s4 = other_refs s" using t4(3) by (simp add: other_refs_def fun_eq_iff)
    have "file_refs ?s4 g = file_refs s g + of_bool (g = f)" for g
      using file_refs_upd [OF t4(1) s(4,5) d(1), of g] fd d(2) by auto
    then have "refs_ok ?s4" using s(1) t4(2) f0(2) by (auto simp: refs_ok_def)
    moreover have "objs_ok ?s4" using s(2) t4(2) o f0(1) unfolding objs_ok_other by simp
    moreover have "inv ?s4" by (rule desc_law [OF I3(1)])
    moreover have "o_size (fs_fso ?s4 i) = o_size (fs_fso s1 i)" unfolding s3 by (simp add: upd_task_def upd_fso_def upd_file_def count_open_def)
    ultimately show ?thesis using g o d fd t4(2) by (intro exI [of _ "Inr d"] exI [of _ ?s4]) simp
  qed
qed

lemma open_tail:
  assumes s1: "inv s1" "held s1 i" "same_tables s s1" "\<And>j. o_refcnt (fs_fso s1 j) = o_refcnt (fs_fso s j) + of_bool (j = i)"
    and s: "refs_ok s" "objs_ok s" "curr s = Some c" "slot s c" "c < TASK_MAX"
  shows "\<exists>r s'. (case fs_getfile (Some i) mode s1 of
         (Inl e, s3) \<Rightarrow> do { s4 \<leftarrow> put_fso T i s3; Some (Inl e, s4) }
       | (Inr f, s3) \<Rightarrow> do {
           (r2, s4) \<leftarrow> fs_getfd f s3;
           (case r2 of
              Inl e \<Rightarrow> do { s5 \<leftarrow> fs_putfile (putfso T) f s4; Some (Inl e, s5) }
            | Inr d \<Rightarrow> Some (Inr d, s4))
         }) = Some (r, s') \<and>
     inv s' \<and> refs_ok s' \<and> objs_ok s' \<and> other_refs s' = other_refs s \<and>
     (case r of
        Inl e \<Rightarrow> fds s' = fds s \<and>
          (e = ENFILE \<and> (\<forall>f < FS_MAXFILE. ff_refcnt (fs_file s f) \<noteq> 0) \<or> e = EMFILE \<and> (\<forall>d < OPEN_MAX. fds s c d \<noteq> None))
      | Inr d \<Rightarrow> d < OPEN_MAX \<and> fds s c d = None \<and> (\<forall>e < d. fds s c e \<noteq> None) \<and>
          (\<exists>f. fds s' = (fds s)(c := (fds s c)(d := Some f)) \<and>
             fs_file s' f = \<lparr>ff_refcnt = 1, ff_fso = Some i, ff_offset = 0, ff_omode = mode\<rparr>) \<and> o_size (fs_fso s' i) = o_size (fs_fso s1 i))"
proof -
  obtain x s3 where g: "fs_getfile (Some i) mode s1 = (x, s3)" by fastforce
  show ?thesis
  proof (cases x)
    case (Inl e)
    then have "e = ENFILE" "s3 = s1" "\<forall>f < FS_MAXFILE. ff_refcnt (fs_file s f) \<noteq> 0"
      using g s1(3) by (auto simp: fs_getfile_def Let_def find_upt_None_iff same_tables_def split: option.splits)
    then show ?thesis using put_back [OF s1 s(1,2)] g Inl by auto
  next
    case f: (Inr f)
    obtain r s' where r: "do {
       (r2, s4) \<leftarrow> fs_getfd f s3;
       (case r2 of
          Inl e \<Rightarrow> do { s5 \<leftarrow> fs_putfile (putfso T) f s4; Some (Inl e, s5) }
        | Inr d \<Rightarrow> Some (Inr d, s4)) } = Some (r, s')" "inv s'" "refs_ok s'" "objs_ok s'" "other_refs s' = other_refs s"
     "case r of
        Inl e \<Rightarrow> e = EMFILE \<and> (\<forall>d < OPEN_MAX. fds s c d \<noteq> None) \<and> fds s' = fds s
      | Inr d \<Rightarrow> d < OPEN_MAX \<and> fds s c d = None \<and> (\<forall>e < d. fds s c e \<noteq> None) \<and> fds s' = (fds s)(c := (fds s c)(d := Some f)) \<and>
          fs_file s' f = \<lparr>ff_refcnt = 1, ff_fso = Some i, ff_offset = 0, ff_omode = mode\<rparr> \<and> o_size (fs_fso s' i) = o_size (fs_fso s1 i)"
      using open_file [OF s1 s g [unfolded f]] by blast
    show ?thesis unfolding g f prod.case sum.case r(1)
      by (rule exI [of _ r], rule exI [of _ s']) (use r(2-6) in \<open>cases r; auto\<close>)
  qed
qed

end

text \<open>
  Looking up and truncating. Truncation leaves the object with changes that are not written yet, which a weaker invariant \<open>weak\<close> allows.
\<close>

locale file_namer = obj_store T inv held for T :: "'z fstypes" and inv held +
  fixes act :: "'z activate" and weak :: "'z fstate_scheme \<Rightarrow> bool" and named :: "'z fstate_scheme \<Rightarrow> string \<Rightarrow> bool"
  assumes weak_store: "obj_store T weak held"
    and weaken: "inv s \<Longrightarrow> weak s"
    and lookup_law: "\<lbrakk>inv s; named s path\<rbrakk> \<Longrightarrow>
      \<exists>r s'. fs_lookup T act path s = Some (r, s') \<and> inv s' \<and> same_tables s s' \<and>
        (\<forall>j. o_refcnt (fs_fso s' j) = o_refcnt (fs_fso s j) + of_bool (r = Inr j)) \<and> (case r of Inl e \<Rightarrow> e \<noteq> EZERO | Inr i \<Rightarrow> held s' i)"
    and trunc_law: "\<lbrakk>inv s; held s i\<rbrakk> \<Longrightarrow>
      \<exists>s'. ft_trunc (type_of T s i) i s = Some (EZERO, s') \<and> weak s' \<and> held s' i \<and> same_tables s s' \<and>
        (\<forall>j. o_refcnt (fs_fso s' j) = o_refcnt (fs_fso s j)) \<and> o_size (fs_fso s' i) = 0"
begin

lemma open_works:
  assumes s: "inv s" "named s path" "refs_ok s" "objs_ok s" "curr s = Some c" "slot s c" "c < TASK_MAX"
  shows "\<exists>r s'. sys_open T act (Inr path) mode s = Some (r, s') \<and> weak s' \<and> (even (mode div 512) \<longrightarrow> inv s') \<and>
     refs_ok s' \<and> objs_ok s' \<and> other_refs s' = other_refs s \<and>
     (case r of
        Inl e \<Rightarrow> e \<noteq> EZERO \<and> fds s' = fds s \<and> open_fails T act path mode c s e
      | Inr d \<Rightarrow> d < OPEN_MAX \<and> fds s c d = None \<and> (\<forall>e < d. fds s c e \<noteq> None) \<and>
          (\<exists>f i s1. fds s' = (fds s)(c := (fds s c)(d := Some f)) \<and> fs_lookup T act path s = Some (Inr i, s1) \<and> open_perm T i mode s1 = Some EZERO \<and>
             fs_file s' f = \<lparr>ff_refcnt = 1, ff_fso = Some i, ff_offset = 0, ff_omode = mode\<rparr> \<and>
             (odd (mode div 512) \<longrightarrow> chk_perm T i W_OK (euid (tsk s c)) (egid (tsk s c)) s1 = EZERO \<and> o_size (fs_fso s' i) = 0)))"
proof -
  obtain r s1 where l: "fs_lookup T act path s = Some (r, s1)" "inv s1" "same_tables s s1"
      "\<forall>j. o_refcnt (fs_fso s1 j) = o_refcnt (fs_fso s j) + of_bool (r = Inr j)" "case r of Inl e \<Rightarrow> e \<noteq> EZERO | Inr i \<Rightarrow> held s1 i"
    using lookup_law [OF s(1,2)] by blast
  show ?thesis
  proof (cases r)
    case (Inl e)
    then have "sys_open T act (Inr path) mode s = Some (Inl e, s1)" using l(1) by (simp add: sys_open_def with_path_def)
    then show ?thesis using restored [OF l(3) _ s(3,4)] l(1,2,4,5) Inl weaken [OF l(2)] by (simp add: open_fails_def)
  next
    case (Inr i)
    have h: "held s1 i" "\<And>j. o_refcnt (fs_fso s1 j) = o_refcnt (fs_fso s j) + of_bool (j = i)" using l(4,5) Inr by auto
    have c1: "curr s1 = Some c" "tsk s1 = tsk s" using l(3) s(5) by (simp_all add: same_tables_def)
    then obtain e where e: "open_perm T i mode s1 = Some e" by (simp add: open_perm_def)
    let ?w = "chk_perm T i W_OK (euid (tsk s c)) (egid (tsk s c)) s1"
    obtain s2 where p: "put_fso T i s1 = Some s2" "inv s2" "refs_ok s2" "objs_ok s2" "other_refs s2 = other_refs s" "fds s2 = fds s"
      using put_back [OF l(2) h(1) l(3) h(2) s(3,4)] by blast
    note defs = sys_open_def with_path_def l(1) Inr e
    consider "e \<noteq> EZERO" | "e = EZERO" "odd (mode div 512)" "?w \<noteq> EZERO" | "e = EZERO" "odd (mode div 512)" "?w = EZERO"
      | "e = EZERO" "even (mode div 512)" by blast
    then show ?thesis
    proof cases
      case 1
      then show ?thesis using p weaken [OF p(2)] by (intro exI [of _ "Inl e"] exI [of _ s2]) (auto simp: defs open_fails_def)
    next
      case 2
      then have "open_trunc T i mode s1 = Some (?w, s1)" using c1 by (simp add: open_trunc_def)
      then show ?thesis using 2 p weaken [OF p(2)] by (intro exI [of _ "Inl ?w"] exI [of _ s2]) (auto simp: defs open_fails_def)
    next
      case 3
      obtain u where u: "ft_trunc (type_of T s1 i) i s1 = Some (EZERO, u)" "weak u" "held u i" "same_tables s1 u"
          "\<forall>j. o_refcnt (fs_fso u j) = o_refcnt (fs_fso s1 j)" "o_size (fs_fso u i) = 0" using trunc_law [OF l(2) h(1)] by blast
      have su: "same_tables s u" "\<And>j. o_refcnt (fs_fso u j) = o_refcnt (fs_fso s j) + of_bool (j = i)"
        using l(3) u(4,5) h(2) by (simp_all add: same_tables_def)
      have t: "open_trunc T i mode s1 = Some (EZERO, u)" using 3 c1 u(1) by (simp add: open_trunc_def)
      show ?thesis using obj_store.open_tail [OF weak_store u(2,3) su s(3-7), of mode] 3 u(6)
        by (fastforce simp: defs t open_fails_def split: sum.splits)
    next
      case 4
      then have t: "open_trunc T i mode s1 = Some (EZERO, s1)" by (simp add: open_trunc_def)
      show ?thesis using open_tail [OF l(2) h(1) l(3) h(2) s(3-7), of mode] 4 weaken
        by (fastforce simp: defs t open_fails_def split: sum.splits)
    qed
  qed
qed

end

end
