(* ===== verification/Block_Cache.thy ===== *)
theory Block_Cache
  imports Linked_List Ring_Buffer
begin

text \<open>
  The cache of disk blocks (\<^verbatim>\<open>kern/block.c\<close>).

  A buffer (\<^verbatim>\<open>struct block\<close>) is named by its index in \<^verbatim>\<open>blk_blk\<close>. It is on one of 64 lists by its block number, through
  its \<^verbatim>\<open>list_item\<close>, and, while nobody refers to it, on the list of least recently used buffers through its
  \<^verbatim>\<open>lru_item\<close>: two memories of \<^verbatim>\<open>lib/list.c\<close>, one per item. A device (\<^verbatim>\<open>struct bdev\<close>) is named by a
  number. The operations of a driver are called through pointers in the code and are arguments here; \<open>disk\<close>
  is whatever state the drivers keep. \<open>None\<close> is a panic, or an access outside the data of a block.
\<close>

section \<open>State\<close>

abbreviation (input) BLK_SIZE :: nat where "BLK_SIZE \<equiv> 512"
abbreviation (input) BLK_NR_LISTS :: nat where "BLK_NR_LISTS \<equiv> 64"
abbreviation (input) BLK_MAXDEV :: nat where "BLK_MAXDEV \<equiv> 32"
abbreviation (input) BLK_NBLK :: nat where "BLK_NBLK \<equiv> 1024"

record bdev =
  bd_refcnt :: int
  bd_name :: string
  read_cnt :: "64 word"
  write_cnt :: "64 word"
  error_cnt :: "64 word"

record block =
  b_refcnt :: int
  b_valid :: bool
  b_dirty :: bool
  b_dev :: "nat option"
  b_nr :: nat
  b_data :: "8 word list"

record 'd bcache =
  blk_lists :: "(nat, nat) lmem"
  blk_lru :: "(unit, nat) lmem"
  blk :: "nat \<Rightarrow> block"
  blk_count :: nat
  bdevs :: "nat \<Rightarrow> bdev"
  blk_dev :: "nat \<Rightarrow> nat option"
  disk :: 'd

type_synonym 'd drv_read = "nat \<Rightarrow> nat \<Rightarrow> 8 word list \<Rightarrow> 'd \<Rightarrow> (errno \<times> 8 word list \<times> 'd) option"
type_synonym 'd drv_write = "nat \<Rightarrow> nat \<Rightarrow> 8 word list \<Rightarrow> 'd \<Rightarrow> (errno \<times> 'd) option"
type_synonym 'd drv_ctl = "nat \<Rightarrow> 'd \<Rightarrow> (errno \<times> 'd) option"

definition zero_block :: block where
  "zero_block = \<lparr>b_refcnt = 0, b_valid = False, b_dirty = False, b_dev = None, b_nr = 0, b_data = replicate BLK_SIZE 0\<rparr>"

definition upd_blk :: "nat \<Rightarrow> (block \<Rightarrow> block) \<Rightarrow> 'd bcache \<Rightarrow> 'd bcache" where
  "upd_blk b f s = s\<lparr>blk := (blk s)(b := f (blk s b))\<rparr>"

definition upd_bdev :: "nat \<Rightarrow> (bdev \<Rightarrow> bdev) \<Rightarrow> 'd bcache \<Rightarrow> 'd bcache" where
  "upd_bdev d f s = s\<lparr>bdevs := (bdevs s)(d := f (bdevs s d))\<rparr>"

section \<open>Operations\<close>

record blk_statbuf =
  st_dirty :: nat
  st_valid :: nat
  st_total :: nat
  st_free :: nat

definition blk_stat :: "'d bcache \<Rightarrow> blk_statbuf" where
  "blk_stat s =
     fold (\<lambda>i st. st\<lparr>st_dirty := st_dirty st + (if b_dirty (blk s i) then 1 else 0),
                    st_valid := st_valid st + (if b_valid (blk s i) then 1 else 0),
                    st_free := st_free st + (if b_refcnt (blk s i) = 0 then 1 else 0)\<rparr>)
       [0..<blk_count s] \<lparr>st_dirty = 0, st_valid = 0, st_total = blk_count s, st_free = 0\<rparr>"

text \<open>\<open>kmalloc1\<close> and \<open>kmalloc2\<close> are the results of the two allocations; a failure panics.\<close>

definition blk_init :: "errno \<Rightarrow> errno \<Rightarrow> 'd bcache \<Rightarrow> 'd bcache option" where
  "blk_init kmalloc1 kmalloc2 s =
     (if kmalloc1 \<noteq> EZERO \<or> kmalloc2 \<noteq> EZERO then None
      else do {
        h \<leftarrow> iter_opt (list_app 0) [0..<BLK_NBLK] (fold list_init [0..<BLK_NR_LISTS] (blk_lists s));
        l \<leftarrow> iter_opt (list_app ()) [0..<BLK_NBLK] (list_init () (blk_lru s));
        Some (s\<lparr>blk_lists := h, blk_lru := l, blk := (\<lambda>i. if i < BLK_NBLK then zero_block else blk s i),
                blk_count := BLK_NBLK\<rparr>)
      })"

definition blk_install :: "nat \<Rightarrow> 'd bcache \<Rightarrow> errno \<times> 'd bcache" where
  "blk_install dev s =
     (if \<exists>i \<in> set [0..<BLK_MAXDEV]. case blk_dev s i of None \<Rightarrow> False | Some d \<Rightarrow> bd_name (bdevs s d) = bd_name (bdevs s dev)
      then (EEXIST, s)
      else (case List.find (\<lambda>i. blk_dev s i = None) [0..<BLK_MAXDEV] of
              None \<Rightarrow> (ENOMEM, s)
            | Some i \<Rightarrow>
                (EZERO, (upd_bdev dev (\<lambda>d. d\<lparr>read_cnt := 0, write_cnt := 0, error_cnt := 0, bd_refcnt := 0\<rparr>) s)
                          \<lparr>blk_dev := (blk_dev s)(i := Some dev)\<rparr>)))"

definition blk_uinstall :: "nat \<Rightarrow> 'd bcache \<Rightarrow> (errno \<times> 'd bcache) option" where
  "blk_uinstall dev s =
     (if bd_refcnt (bdevs s dev) \<noteq> 0 then None
      else (case List.find (\<lambda>i. blk_dev s i = Some dev) [0..<BLK_MAXDEV] of
              None \<Rightarrow> None
            | Some i \<Rightarrow> Some (EZERO, s\<lparr>blk_dev := (blk_dev s)(i := None)\<rparr>)))"

definition blk_find :: "string \<Rightarrow> 'd bcache \<Rightarrow> errno + nat" where
  "blk_find name s =
     (case List.find (\<lambda>i. case blk_dev s i of None \<Rightarrow> False | Some d \<Rightarrow> bd_name (bdevs s d) = name) [0..<BLK_MAXDEV] of
        None \<Rightarrow> Inl ENODEV
      | Some i \<Rightarrow> (case blk_dev s i of None \<Rightarrow> Inl ENODEV | Some d \<Rightarrow> Inr d))"

definition blk_write :: "'d drv_write \<Rightarrow> nat \<Rightarrow> 'd bcache \<Rightarrow> (errno \<times> 'd bcache) option" where
  "blk_write wr b s =
     (if \<not> b_valid (blk s b) then None
      else if \<not> b_dirty (blk s b) then Some (EZERO, s)
      else do {
        let s1 = upd_blk b (b_dirty_update (\<lambda>_. False)) s;
        dev \<leftarrow> b_dev (blk s1 b);
        (e, d) \<leftarrow> wr dev (b_nr (blk s1 b)) (b_data (blk s1 b)) (disk s1);
        let s2 = s1\<lparr>disk := d\<rparr>;
        Some (e, if e \<noteq> EZERO then upd_bdev dev (\<lambda>v. v\<lparr>error_cnt := error_cnt v + 1\<rparr>) s2
                 else upd_bdev dev (\<lambda>v. v\<lparr>write_cnt := write_cnt v + 1\<rparr>) s2)
      })"

definition is_block :: "nat \<Rightarrow> nat \<Rightarrow> block \<Rightarrow> bool" where
  "is_block dev nr b \<longleftrightarrow> (b_refcnt b \<noteq> 0 \<or> b_valid b) \<and> b_nr b = nr \<and> b_dev b = Some dev"

definition blk_get :: "'d drv_write \<Rightarrow> nat \<Rightarrow> nat \<Rightarrow> 'd bcache \<Rightarrow> ((errno + nat) \<times> 'd bcache) option" where
  "blk_get wr dev nr s = do {
     found \<leftarrow> list_search (i_next (blk_lists s)) (\<lambda>b. is_block dev nr (blk s b)) (blk_count s)
               (l_first (blk_lists s) (nr mod BLK_NR_LISTS));
     (case found of
        Some b \<Rightarrow>
          let s1 = (if b_refcnt (blk s b) = 0 then s\<lparr>blk_lru := list_rm () b (blk_lru s)\<rparr> else s)
          in Some (Inr b, upd_blk b (\<lambda>v. v\<lparr>b_refcnt := b_refcnt v + 1\<rparr>) s1)
      | None \<Rightarrow>
          (case l_first (blk_lru s) () of
             None \<Rightarrow> Some (Inl ENOMEM, s)
           | Some b \<Rightarrow> do {
               let s1 = s\<lparr>blk_lists := list_rm (b_nr (blk s b) mod BLK_NR_LISTS) b (blk_lists s),
                          blk_lru := list_rm () b (blk_lru s)\<rparr>;
               s2 \<leftarrow> (if b_dirty (blk s1 b) then map_option snd (blk_write wr b s1) else Some s1);
               let s3 = upd_blk b (\<lambda>v. v\<lparr>b_refcnt := 1, b_dev := Some dev, b_nr := nr, b_valid := False\<rparr>) s2;
               h \<leftarrow> list_pre (nr mod BLK_NR_LISTS) b (blk_lists s3);
               Some (Inr b, s3\<lparr>blk_lists := h\<rparr>)
             }))
   }"

definition blk_put :: "nat option \<Rightarrow> 'd bcache \<Rightarrow> 'd bcache option" where
  "blk_put bo s =
     (case bo of
        None \<Rightarrow> Some s
      | Some b \<Rightarrow>
          if b_refcnt (blk s b) = 0 then None
          else do {
            let s1 = upd_blk b (\<lambda>v. v\<lparr>b_refcnt := b_refcnt v - 1\<rparr>) s;
            if b_refcnt (blk s1 b) = 0 then do { l \<leftarrow> list_app () b (blk_lru s1); Some (s1\<lparr>blk_lru := l\<rparr>) }
            else Some s1
          })"

definition blk_read ::
    "'d drv_read \<Rightarrow> 'd drv_write \<Rightarrow> nat \<Rightarrow> nat \<Rightarrow> 'd bcache \<Rightarrow> ((errno + nat) \<times> 'd bcache) option" where
  "blk_read rd wr dev nr s = do {
     (r, s1) \<leftarrow> blk_get wr dev nr s;
     (case r of
        Inl e \<Rightarrow> Some (Inl e, s1)
      | Inr b \<Rightarrow>
          if b_valid (blk s1 b) then Some (Inr b, s1)
          else do {
            (e, data, d) \<leftarrow> rd dev (b_nr (blk s1 b)) (b_data (blk s1 b)) (disk s1);
            let s2 = (upd_blk b (b_data_update (\<lambda>_. data)) s1)\<lparr>disk := d\<rparr>;
            if e \<noteq> EZERO then do {
              s3 \<leftarrow> blk_put (Some b) (upd_bdev dev (\<lambda>v. v\<lparr>error_cnt := error_cnt v + 1\<rparr>) s2);
              Some (Inl e, s3)
            }
            else Some (Inr b, upd_blk b (b_valid_update (\<lambda>_. True)) (upd_bdev dev (\<lambda>v. v\<lparr>read_cnt := read_cnt v + 1\<rparr>) s2))
          })
   }"

definition blk_pread ::
    "'d drv_read \<Rightarrow> 'd drv_write \<Rightarrow> nat \<Rightarrow> nat \<Rightarrow> nat \<Rightarrow> nat \<Rightarrow> 'd bcache \<Rightarrow> ((errno + 8 word list) \<times> 'd bcache) option" where
  "blk_pread rd wr dev nr off len s = do {
     (r, s1) \<leftarrow> blk_read rd wr dev nr s;
     (case r of
        Inl e \<Rightarrow> Some (Inl e, s1)
      | Inr b \<Rightarrow>
          if off + len > BLK_SIZE then None
          else do { s2 \<leftarrow> blk_put (Some b) s1; Some (Inr (take len (drop off (b_data (blk s1 b)))), s2) })
   }"

definition blk_pwrite ::
    "'d drv_read \<Rightarrow> 'd drv_write \<Rightarrow> nat \<Rightarrow> nat \<Rightarrow> nat \<Rightarrow> 8 word list \<Rightarrow> 'd bcache \<Rightarrow> (errno \<times> 'd bcache) option" where
  "blk_pwrite rd wr dev nr off buf s = do {
     (r, s1) \<leftarrow> (if length buf \<noteq> BLK_SIZE then blk_read rd wr dev nr s else blk_get wr dev nr s);
     (case r of
        Inl e \<Rightarrow> Some (e, s1)
      | Inr b \<Rightarrow>
          if off + length buf > BLK_SIZE then None
          else do {
            s2 \<leftarrow> blk_put (Some b)
                   (upd_blk b (\<lambda>v. v\<lparr>b_data := memcpy_in (b_data v) off buf, b_dirty := True, b_valid := True\<rparr>) s1);
            Some (EZERO, s2)
          })
   }"

definition sync_block :: "'d drv_write \<Rightarrow> bool \<Rightarrow> bool \<Rightarrow> nat \<Rightarrow> 'd bcache \<Rightarrow> 'd bcache option" where
  "sync_block wr write invalidate b s = do {
     s1 \<leftarrow> (if write \<and> b_dirty (blk s b) then map_option snd (blk_write wr b s) else Some s);
     Some (if invalidate \<and> \<not> b_dirty (blk s1 b) then upd_blk b (b_valid_update (\<lambda>_. False)) s1 else s1)
   }"

text \<open>The loops do not change the list they walk, so they visit the elements it has at the start.\<close>

definition blk_syncdev :: "'d drv_write \<Rightarrow> nat \<Rightarrow> bool \<Rightarrow> bool \<Rightarrow> 'd bcache \<Rightarrow> 'd bcache option" where
  "blk_syncdev wr dev write invalidate s = do {
     bs \<leftarrow> list_walk (i_next (blk_lru s)) (l_first (blk_lru s) ());
     iter_opt (\<lambda>b s. if b_dev (blk s b) = Some dev then sync_block wr write invalidate b s else Some s) bs s
   }"

definition blk_syncall :: "'d drv_write \<Rightarrow> bool \<Rightarrow> bool \<Rightarrow> 'd bcache \<Rightarrow> 'd bcache option" where
  "blk_syncall wr write invalidate s = do {
     bs \<leftarrow> list_walk (i_next (blk_lru s)) (l_first (blk_lru s) ());
     iter_opt (sync_block wr write invalidate) bs s
   }"

definition blk_open :: "'d drv_ctl \<Rightarrow> nat \<Rightarrow> 'd bcache \<Rightarrow> (errno \<times> 'd bcache) option" where
  "blk_open op dev s = do {
     (e, d) \<leftarrow> (if bd_refcnt (bdevs s dev) = 0 then op dev (disk s) else Some (EZERO, disk s));
     if e \<noteq> EZERO then Some (e, s\<lparr>disk := d\<rparr>)
     else Some (EZERO, upd_bdev dev (\<lambda>v. v\<lparr>bd_refcnt := bd_refcnt v + 1\<rparr>) (s\<lparr>disk := d\<rparr>))
   }"

definition blk_close :: "'d drv_write \<Rightarrow> 'd drv_ctl \<Rightarrow> nat \<Rightarrow> 'd bcache \<Rightarrow> (errno \<times> 'd bcache) option" where
  "blk_close wr cl dev s =
     (if bd_refcnt (bdevs s dev) = 0 then None
      else do {
        (e, s1) \<leftarrow> (if bd_refcnt (bdevs s dev) = 1 then do {
                     s0 \<leftarrow> blk_syncdev wr dev True True s;
                     (e, d) \<leftarrow> cl dev (disk s0);
                     Some (e, s0\<lparr>disk := d\<rparr>)
                   }
                   else Some (EZERO, s));
        if e \<noteq> EZERO then Some (e, s1)
        else Some (EZERO, upd_bdev dev (\<lambda>v. v\<lparr>bd_refcnt := bd_refcnt v - 1\<rparr>) s1)
      })"

definition blk_add :: "errno \<Rightarrow> errno \<Rightarrow> int \<Rightarrow> 'd bcache \<Rightarrow> (errno \<times> 'd bcache) option" where
  "blk_add krealloc kmalloc count s =
     (if count < int (blk_count s) then Some (EINVAL, s)
      else if count = int (blk_count s) then Some (EZERO, s)
      else if krealloc \<noteq> EZERO then Some (krealloc, s)
      else if kmalloc \<noteq> EZERO then Some (kmalloc, s)
      else do {
        let new = [blk_count s..<nat count];
        l \<leftarrow> iter_opt (list_pre ()) new (blk_lru s);
        Some (EZERO, s\<lparr>blk_lru := l, blk := (\<lambda>i. if i \<in> set new then zero_block else blk s i),
               blk_lists := (blk_lists s)\<lparr>i_next := (\<lambda>i. if i \<in> set new then None else i_next (blk_lists s) i),
                                          i_prev := (\<lambda>i. if i \<in> set new then None else i_prev (blk_lists s) i)\<rparr>,
               blk_count := nat count\<rparr>)
      })"

section \<open>The invariant of the cache\<close>

definition block_ok :: "block \<Rightarrow> bool" where
  "block_ok b \<longleftrightarrow> b_refcnt b \<ge> 0 \<and> (b_dirty b \<longrightarrow> b_valid b) \<and> (b_valid b \<or> b_refcnt b \<noteq> 0 \<longrightarrow> b_dev b \<noteq> None) \<and>
     length (b_data b) = BLK_SIZE"

text \<open>
  \<open>H i\<close> is the content of the \<open>i\<close>-th list, \<open>R\<close> that of the LRU list. A buffer is on the list of its block
  number, unless it has never been used; the LRU list holds exactly the buffers that nobody refers to; and no
  block of a device is in two buffers.
\<close>

definition cache_inv :: "'d bcache \<Rightarrow> (nat \<Rightarrow> nat list) \<Rightarrow> nat list \<Rightarrow> bool" where
  "cache_inv s H R \<longleftrightarrow>
     lists_rep (blk_lists s) H \<and> lists_rep (blk_lru s) (\<lambda>_. R) \<and>
     (\<forall>i. \<forall>x \<in> set (H i). x < blk_count s \<and> b_nr (blk s x) mod BLK_NR_LISTS = i) \<and>
     (\<forall>x < blk_count s. (\<forall>i. x \<notin> set (H i)) \<longrightarrow>
        i_next (blk_lists s) x = None \<and> i_prev (blk_lists s) x = None \<and> b_refcnt (blk s x) = 0 \<and> \<not> b_valid (blk s x)) \<and>
     set R = {x. x < blk_count s \<and> b_refcnt (blk s x) = 0} \<and>
     (\<forall>x < blk_count s. block_ok (blk s x)) \<and>
     (\<forall>x y dev nr. x < blk_count s \<longrightarrow> y < blk_count s \<longrightarrow> is_block dev nr (blk s x) \<longrightarrow> is_block dev nr (blk s y) \<longrightarrow> x = y)"

lemma cache_inv_lists:
  assumes "cache_inv s H R"
  shows "lists_rep (blk_lists s) H" "lists_rep (blk_lru s) (\<lambda>_. R)" "set R = {x. x < blk_count s \<and> b_refcnt (blk s x) = 0}"
  using assms by (simp_all add: cache_inv_def)

lemma cache_inv_block: "cache_inv s H R \<Longrightarrow> x < blk_count s \<Longrightarrow> block_ok (blk s x)"
  by (simp add: cache_inv_def)

lemma cache_inv_listed:
  "cache_inv s H R \<Longrightarrow> x \<in> set (H i) \<Longrightarrow> x < blk_count s \<and> b_nr (blk s x) mod BLK_NR_LISTS = i"
  by (simp add: cache_inv_def)

lemma cache_inv_unlisted:
  "cache_inv s H R \<Longrightarrow> x < blk_count s \<Longrightarrow> (\<And>i. x \<notin> set (H i)) \<Longrightarrow>
   i_next (blk_lists s) x = None \<and> i_prev (blk_lists s) x = None \<and> b_refcnt (blk s x) = 0 \<and> \<not> b_valid (blk s x)"
  by (simp add: cache_inv_def)

lemma cache_inv_unique:
  "cache_inv s H R \<Longrightarrow> x < blk_count s \<Longrightarrow> y < blk_count s \<Longrightarrow> is_block dev nr (blk s x) \<Longrightarrow> is_block dev nr (blk s y) \<Longrightarrow> x = y"
  by (auto simp: cache_inv_def)

lemma cache_inv_found:
  assumes "cache_inv s H R" and "x < blk_count s" and "is_block dev nr (blk s x)"
  shows "x \<in> set (H (nr mod BLK_NR_LISTS))"
proof -
  have "\<exists>i. x \<in> set (H i)" using cache_inv_unlisted [OF assms(1,2)] assms(3) by (auto simp: is_block_def)
  then show ?thesis using cache_inv_listed [OF assms(1)] assms(3) by (auto simp: is_block_def)
qed

text \<open>The search of \<^verbatim>\<open>blk_get\<close> never runs into its loop detection and finds the buffer of a block, if there is one.\<close>

lemma cache_search:
  assumes "cache_inv s H R"
  shows "\<exists>r. list_search (i_next (blk_lists s)) (\<lambda>b. is_block dev nr (blk s b)) (blk_count s)
               (l_first (blk_lists s) (nr mod BLK_NR_LISTS)) = Some r \<and>
           (case r of Some b \<Rightarrow> b < blk_count s \<and> is_block dev nr (blk s b)
            | None \<Rightarrow> \<forall>x < blk_count s. \<not> is_block dev nr (blk s x))"
proof -
  let ?xs = "H (nr mod BLK_NR_LISTS)" and ?P = "\<lambda>b. is_block dev nr (blk s b)"
  have rep: "lrep (blk_lists s) (nr mod BLK_NR_LISTS) ?xs" using cache_inv_lists(1) [OF assms] by (rule lists_rep_lrep)
  have sub: "set ?xs \<subseteq> {0..<blk_count s}" using cache_inv_listed [OF assms] by auto
  have "length ?xs = card (set ?xs)" using lrep_distinct [OF rep] by (simp add: distinct_card)
  also have "\<dots> \<le> blk_count s" using card_mono [OF _ sub] by simp
  finally have "list_search (i_next (blk_lists s)) ?P (blk_count s) (l_first (blk_lists s) (nr mod BLK_NR_LISTS)) = Some (find ?P ?xs)"
    using list_search_lrep [OF rep] by blast
  moreover have "case find ?P ?xs of Some b \<Rightarrow> b < blk_count s \<and> ?P b | None \<Rightarrow> \<forall>x < blk_count s. \<not> ?P x"
  proof (cases "find ?P ?xs")
    case None
    then have "\<forall>x \<in> set ?xs. \<not> ?P x" by (simp add: find_None_iff)
    then show ?thesis using cache_inv_found [OF assms, of _ dev nr] None by auto
  next
    case (Some b)
    then have "b \<in> set ?xs" "?P b" by (auto simp: find_Some_iff)
    then show ?thesis using Some sub by auto
  qed
  ultimately show ?thesis by blast
qed

section \<open>What the cache stands for\<close>

text \<open>
  The contents of block \<open>nr\<close> of device \<open>dev\<close> as the rest of the kernel sees it: the valid buffer, if there is one, and
  otherwise what the driver has (\<open>sector\<close>).
\<close>

definition view :: "('d \<Rightarrow> nat \<Rightarrow> nat \<Rightarrow> 8 word list) \<Rightarrow> 'd bcache \<Rightarrow> nat \<Rightarrow> nat \<Rightarrow> 8 word list" where
  "view sector s dev nr =
     (case List.find (\<lambda>x. b_valid (blk s x) \<and> is_block dev nr (blk s x)) [0..<blk_count s] of
        Some x \<Rightarrow> b_data (blk s x)
      | None \<Rightarrow> sector (disk s) dev nr)"

lemma view_valid:
  assumes "cache_inv s H R" and "x < blk_count s" and "b_valid (blk s x)" and "is_block dev nr (blk s x)"
  shows "view sector s dev nr = b_data (blk s x)"
proof -
  have "List.find (\<lambda>x. b_valid (blk s x) \<and> is_block dev nr (blk s x)) [0..<blk_count s] = Some x"
    unfolding find_upt_Some_iff
    using assms(2-4) cache_inv_unique [OF assms(1) _ assms(2) _ assms(4)] less_irrefl less_trans by blast
  then show ?thesis by (simp add: view_def)
qed

lemma view_none:
  assumes "\<And>x. x < blk_count s \<Longrightarrow> b_valid (blk s x) \<Longrightarrow> \<not> is_block dev nr (blk s x)"
  shows "view sector s dev nr = sector (disk s) dev nr"
proof -
  have "List.find (\<lambda>x. b_valid (blk s x) \<and> is_block dev nr (blk s x)) [0..<blk_count s] = None"
    using assms by (auto simp: find_None_iff)
  then show ?thesis by (simp add: view_def)
qed

text \<open>
  Every valid buffer is of a block that its device has, and a clean one agrees with the device.
\<close>

definition synced ::
    "('d \<Rightarrow> nat \<Rightarrow> nat \<Rightarrow> 8 word list) \<Rightarrow> ('d \<Rightarrow> nat \<Rightarrow> nat \<Rightarrow> bool) \<Rightarrow> ('d \<Rightarrow> bool) \<Rightarrow> 'd bcache \<Rightarrow> bool" where
  "synced sector has dok s \<longleftrightarrow> dok (disk s) \<and>
     (\<forall>x dev. x < blk_count s \<longrightarrow> b_valid (blk s x) \<longrightarrow> b_dev (blk s x) = Some dev \<longrightarrow>
        has (disk s) dev (b_nr (blk s x)) \<and>
        (\<not> b_dirty (blk s x) \<longrightarrow> b_data (blk s x) = sector (disk s) dev (b_nr (blk s x))))"

definition coherent ::
    "('d \<Rightarrow> nat \<Rightarrow> nat \<Rightarrow> 8 word list) \<Rightarrow> ('d \<Rightarrow> nat \<Rightarrow> nat \<Rightarrow> bool) \<Rightarrow> ('d \<Rightarrow> bool) \<Rightarrow> 'd bcache \<Rightarrow>
     (nat \<Rightarrow> nat list) \<Rightarrow> nat list \<Rightarrow> bool" where
  "coherent sector has dok s H R \<longleftrightarrow> cache_inv s H R \<and> synced sector has dok s"

lemma upd_blk_simps [simp]:
  "blk (upd_blk b f s) = (blk s)(b := f (blk s b))" "blk_lists (upd_blk b f s) = blk_lists s"
  "blk_lru (upd_blk b f s) = blk_lru s" "blk_count (upd_blk b f s) = blk_count s" "disk (upd_blk b f s) = disk s"
  "bdevs (upd_blk b f s) = bdevs s"
  by (simp_all add: upd_blk_def)

lemma upd_bdev_simps [simp]:
  "blk (upd_bdev d g s) = blk s" "blk_lists (upd_bdev d g s) = blk_lists s" "blk_lru (upd_bdev d g s) = blk_lru s"
  "blk_count (upd_bdev d g s) = blk_count s" "disk (upd_bdev d g s) = disk s"
  by (simp_all add: upd_bdev_def)

lemma cache_inv_bdev [simp]: "cache_inv (upd_bdev d g s) H R = cache_inv s H R"
  by (simp add: cache_inv_def)

text \<open>The view depends on these fields of the buffers only.\<close>

definition contents_of :: "block \<Rightarrow> bool \<times> nat option \<times> nat \<times> 8 word list" where
  "contents_of b = (b_valid b, b_dev b, b_nr b, b_data b)"

lemma view_cong:
  assumes "blk_count s' = blk_count s" and "\<And>x. contents_of (blk s' x) = contents_of (blk s x)"
    and "sector (disk s') = sector (disk s)"
  shows "view sector s' = view sector s"
proof -
  have b: "b_valid (blk s' x) = b_valid (blk s x)" "b_dev (blk s' x) = b_dev (blk s x)" "b_nr (blk s' x) = b_nr (blk s x)"
      "b_data (blk s' x) = b_data (blk s x)" for x
    using assms(2) [of x] by (auto simp: contents_of_def)
  have "(b_valid (blk s' x) \<and> is_block dev nr (blk s' x)) = (b_valid (blk s x) \<and> is_block dev nr (blk s x))" for x dev nr
    using b by (auto simp: is_block_def)
  then show ?thesis using assms(1,3) b(4) by (simp add: view_def fun_eq_iff cong: option.case_cong)
qed

lemma view_bdev [simp]: "view sector (upd_bdev d g s) = view sector s"
  by (rule view_cong) simp_all

lemma cache_inv_disk [simp]: "cache_inv (s\<lparr>disk := d\<rparr>) H R = cache_inv s H R"
  by (simp add: cache_inv_def)

text \<open>An update of a buffer that leaves its identity and its references alone.\<close>

lemma cache_inv_upd:
  assumes "cache_inv s H R" and "b < blk_count s" and "b_refcnt (f (blk s b)) = b_refcnt (blk s b)"
    and "b_dev (f (blk s b)) = b_dev (blk s b)" and "b_nr (f (blk s b)) = b_nr (blk s b)" and "block_ok (f (blk s b))"
    and "b_refcnt (blk s b) \<noteq> 0 \<or> (b_valid (f (blk s b)) \<longrightarrow> b_valid (blk s b))"
  shows "cache_inv (upd_blk b f s) H R"
proof -
  have isb: "is_block dv n (blk (upd_blk b f s) x) \<Longrightarrow> is_block dv n (blk s x)" for x dv n
    using assms(3-5,7) by (auto simp: is_block_def split: if_splits)
  show ?thesis
    unfolding cache_inv_def
  proof (intro conjI allI impI ballI)
    show "lists_rep (blk_lists (upd_blk b f s)) H" "lists_rep (blk_lru (upd_blk b f s)) (\<lambda>_. R)"
      using cache_inv_lists [OF assms(1)] by simp_all
  next
    fix i x assume "x \<in> set (H i)"
    then show "x < blk_count (upd_blk b f s)" "b_nr (blk (upd_blk b f s) x) mod BLK_NR_LISTS = i"
      using cache_inv_listed [OF assms(1), of x i] assms(5) by auto
  next
    fix x assume "x < blk_count (upd_blk b f s)" "\<forall>i. x \<notin> set (H i)"
    then have "i_next (blk_lists s) x = None \<and> i_prev (blk_lists s) x = None \<and> b_refcnt (blk s x) = 0 \<and> \<not> b_valid (blk s x)"
      using cache_inv_unlisted [OF assms(1), of x] by auto
    then show "i_next (blk_lists (upd_blk b f s)) x = None" "i_prev (blk_lists (upd_blk b f s)) x = None"
        "b_refcnt (blk (upd_blk b f s) x) = 0" "\<not> b_valid (blk (upd_blk b f s) x)"
      using assms(3,7) by auto
  next
    show "set R = {x. x < blk_count (upd_blk b f s) \<and> b_refcnt (blk (upd_blk b f s) x) = 0}"
      unfolding cache_inv_lists(3) [OF assms(1)] using assms(3) by auto
  next
    fix x assume "x < blk_count (upd_blk b f s)"
    then show "block_ok (blk (upd_blk b f s) x)" using cache_inv_block [OF assms(1)] assms(6) by auto
  next
    fix x y dv n assume "x < blk_count (upd_blk b f s)" "y < blk_count (upd_blk b f s)"
      "is_block dv n (blk (upd_blk b f s) x)" "is_block dv n (blk (upd_blk b f s) y)"
    then show "x = y" using cache_inv_unique [OF assms(1), of x y dv n] isb [of dv n x] isb [of dv n y] upd_blk_simps(4) [of b f s] by metis
  qed
qed

lemma view_upd:
  assumes "cache_inv s H R" and "cache_inv (upd_blk b f s) H' R'" and "b < blk_count s"
    and "is_block dev nr (blk s b)" and "is_block dev nr (f (blk s b))" and "b_valid (f (blk s b))"
  shows "view sector (upd_blk b f s) = (view sector s)(dev := (view sector s dev)(nr := b_data (f (blk s b))))"
proof (intro ext)
  fix dv n
  show "view sector (upd_blk b f s) dv n = ((view sector s)(dev := (view sector s dev)(nr := b_data (f (blk s b))))) dv n"
  proof (cases "dv = dev \<and> n = nr")
    case True
    then show ?thesis using view_valid [OF assms(2), of b dev nr] assms(3,5,6) by simp
  next
    case False
    have e: "(b_valid (blk (upd_blk b f s) x) \<and> is_block dv n (blk (upd_blk b f s) x)) = (b_valid (blk s x) \<and> is_block dv n (blk s x))" for x
      using assms(4,5) False by (auto simp: is_block_def)
    consider x where "x < blk_count s" "b_valid (blk s x)" "is_block dv n (blk s x)"
      | "\<And>x. x < blk_count s \<Longrightarrow> b_valid (blk s x) \<Longrightarrow> \<not> is_block dv n (blk s x)" by blast
    then show ?thesis
    proof cases
      case 1
      have "x \<noteq> b" using 1(3) assms(4) False by (auto simp: is_block_def)
      then show ?thesis using view_valid [OF assms(1) 1] view_valid [OF assms(2), of x dv n] 1 False by auto
    next
      case 2
      then have "\<not> is_block dv n (blk (upd_blk b f s) x)" if "x < blk_count (upd_blk b f s)" "b_valid (blk (upd_blk b f s) x)" for x
        using e [of x] that by (metis upd_blk_simps(4))
      then have "view sector (upd_blk b f s) dv n = view sector s dv n"
        using view_none [of s dv n] view_none [of "upd_blk b f s" dv n] 2 by simp
      then show ?thesis using False by auto
    qed
  qed
qed

text \<open>The lists while a buffer moves from its list, if it is on one, to the front of another.\<close>

definition rehash :: "nat \<Rightarrow> nat \<Rightarrow> (nat \<Rightarrow> nat list) \<Rightarrow> nat \<Rightarrow> nat list" where
  "rehash b j H = (let H1 = (\<lambda>i. remove1 b (H i)) in H1(j := b # H1 j))"

lemma rehash_lists:
  assumes "cache_inv s H R" and "b < blk_count s"
  shows "\<exists>h. list_pre j b (list_rm (b_nr (blk s b) mod BLK_NR_LISTS) b (blk_lists s)) = Some h \<and>
           lists_rep h (rehash b j H) \<and>
           (\<forall>x. x \<noteq> b \<longrightarrow> (\<forall>i. x \<notin> set (H i)) \<longrightarrow>
              i_next h x = i_next (blk_lists s) x \<and> i_prev h x = i_prev (blk_lists s) x)"
proof -
  let ?i = "b_nr (blk s b) mod BLK_NR_LISTS" and ?m = "list_rm (b_nr (blk s b) mod BLK_NR_LISTS) b (blk_lists s)"
  define H1 where "H1 = (\<lambda>i. remove1 b (H i))"
  note rep = cache_inv_lists(1) [OF assms(1)]
  note lr = lists_rep_lrep [OF rep]
  have dist: "distinct (H i)" for i using lrep_distinct [OF lr] .
  have only: "b \<in> set (H i) \<Longrightarrow> i = ?i" for i using cache_inv_listed [OF assms(1)] by blast
  have m: "lists_rep ?m H1 \<and> (\<forall>x. x \<noteq> b \<longrightarrow> (\<forall>i. x \<notin> set (H i)) \<longrightarrow>
      i_next ?m x = i_next (blk_lists s) x \<and> i_prev ?m x = i_prev (blk_lists s) x)"
  proof (cases "b \<in> set (H ?i)")
    case True
    have "H(?i := remove1 b (H ?i)) = H1" using only by (metis (no_types, lifting) H1_def fun_upd_apply remove1_idem ext)
    then have "lists_rep ?m H1" using lists_rep_rm [OF rep True] by simp
    then show ?thesis using list_rm_other [OF lr True] by blast
  next
    case False
    then have nb: "b \<notin> set (H i)" for i using only by blast
    then have "?m = blk_lists s"
      using cache_inv_unlisted [OF assms] by (intro list_rm_detached [OF lr]) auto
    moreover have "H1 = H" using nb by (simp add: H1_def fun_eq_iff remove1_idem)
    ultimately show ?thesis using rep by simp
  qed
  have nb: "b \<notin> set (H1 i)" for i using dist by (simp add: H1_def)
  obtain h where h: "list_pre j b ?m = Some h" "lists_rep h (H1(j := b # H1 j))"
    using lists_rep_pre [OF conjunct1 [OF m] nb] by blast
  have "i_next h x = i_next ?m x \<and> i_prev h x = i_prev ?m x" if "x \<noteq> b" "\<forall>i. x \<notin> set (H i)" for x
    using list_pre_other [OF lists_rep_lrep [OF conjunct1 [OF m]] h(1)] that set_remove1_subset [of b "H j"]
    by (auto simp: H1_def)
  then show ?thesis using h m by (auto simp: rehash_def H1_def [symmetric] Let_def)
qed

lemma in_rehash:
  assumes "\<And>i. distinct (H i)"
  shows "x \<in> set (rehash b j H i) \<longleftrightarrow> (x = b \<and> i = j) \<or> (x \<noteq> b \<and> x \<in> set (H i))"
  using assms by (auto simp: rehash_def Let_def)

text \<open>
  What the cache relies on in a driver: reading and writing a block that the device \<open>has\<close> succeed, reading
  returns what the device holds, and writing changes exactly that block.
\<close>

locale block_driver =
  fixes rd :: "'d drv_read" and wr :: "'d drv_write"
    and sector :: "'d \<Rightarrow> nat \<Rightarrow> nat \<Rightarrow> 8 word list" and has :: "'d \<Rightarrow> nat \<Rightarrow> nat \<Rightarrow> bool" and dok :: "'d \<Rightarrow> bool"
  assumes sector_length: "dok d \<Longrightarrow> has d dev nr \<Longrightarrow> length (sector d dev nr) = BLK_SIZE"
    and rd_law: "dok d \<Longrightarrow> has d dev nr \<Longrightarrow> length buf = BLK_SIZE \<Longrightarrow>
      \<exists>d'. rd dev nr buf d = Some (EZERO, sector d dev nr, d') \<and> dok d' \<and> sector d' = sector d \<and> has d' = has d"
    and wr_law: "dok d \<Longrightarrow> has d dev nr \<Longrightarrow> length buf = BLK_SIZE \<Longrightarrow>
      \<exists>d'. wr dev nr buf d = Some (EZERO, d') \<and> dok d' \<and> has d' = has d \<and>
        sector d' = (sector d)(dev := (sector d dev)(nr := buf))"
begin

lemma write_back:
  assumes "synced sector has dok s" and "b < blk_count s" and "block_ok (blk s b)"
  shows "\<exists>s'. (if b_dirty (blk s b) then map_option snd (blk_write wr b s) else Some s) = Some s' \<and>
           blk s' = (blk s)(b := (blk s b)\<lparr>b_dirty := False\<rparr>) \<and> blk_lists s' = blk_lists s \<and> blk_lru s' = blk_lru s \<and>
           blk_count s' = blk_count s \<and> dok (disk s') \<and> has (disk s') = has (disk s) \<and>
           (\<forall>dev nr. sector (disk s') dev nr =
              (if b_valid (blk s b) \<and> b_dev (blk s b) = Some dev \<and> b_nr (blk s b) = nr then b_data (blk s b)
               else sector (disk s) dev nr))"
proof (cases "b_dirty (blk s b)")
  case True
  then obtain dev where dev: "b_valid (blk s b)" "b_dev (blk s b) = Some dev" "length (b_data (blk s b)) = BLK_SIZE"
    using assms(3) by (auto simp: block_ok_def)
  have "dok (disk s)" "has (disk s) dev (b_nr (blk s b))" using assms(1,2) dev by (auto simp: synced_def)
  then obtain d where d: "wr dev (b_nr (blk s b)) (b_data (blk s b)) (disk s) = Some (EZERO, d)" "dok d"
      "has d = has (disk s)" "sector d = (sector (disk s))(dev := (sector (disk s) dev)(b_nr (blk s b) := b_data (blk s b)))"
    using wr_law dev(3) by blast
  show ?thesis using True dev d by (auto simp: blk_write_def Let_def)
next
  case False
  have "(blk s)(b := (blk s b)\<lparr>b_dirty := False\<rparr>) = blk s" using False by (auto simp: fun_eq_iff)
  moreover have "dok (disk s)" using assms(1) by (simp add: synced_def)
  ultimately show ?thesis using False assms(1,2) by (auto simp: synced_def)
qed

lemma blk_get_hit:
  assumes "coherent sector has dok s H R" and "b < blk_count s" and "is_block dev nr (blk s b)"
  shows "\<exists>s'. blk_get wr dev nr s = Some (Inr b, s') \<and> coherent sector has dok s' H (remove1 b R) \<and>
           view sector s' = view sector s \<and> blk s' = (blk s)(b := (blk s b)\<lparr>b_refcnt := b_refcnt (blk s b) + 1\<rparr>) \<and>
           blk_count s' = blk_count s \<and> disk s' = disk s"
proof -
  have ci: "cache_inv s H R" and sy: "synced sector has dok s" using assms(1) by (auto simp: coherent_def)
  note l = cache_inv_lists [OF ci]
  let ?P = "\<lambda>b. is_block dev nr (blk s b)"
  obtain r where r: "list_search (i_next (blk_lists s)) ?P (blk_count s) (l_first (blk_lists s) (nr mod BLK_NR_LISTS)) = Some r"
      "case r of Some b \<Rightarrow> b < blk_count s \<and> ?P b | None \<Rightarrow> \<forall>x < blk_count s. \<not> ?P x"
    using cache_search [OF ci] by blast
  have "r = Some b" using r(2) assms(2,3) cache_inv_unique [OF ci] by (auto split: option.splits)
  let ?s1 = "if b_refcnt (blk s b) = 0 then s\<lparr>blk_lru := list_rm () b (blk_lru s)\<rparr> else s"
  let ?s' = "upd_blk b (\<lambda>v. v\<lparr>b_refcnt := b_refcnt v + 1\<rparr>) ?s1"
  have g: "blk_get wr dev nr s = Some (Inr b, ?s')" using r(1) \<open>r = Some b\<close> by (simp add: blk_get_def Let_def)
  have bl: "blk ?s' = (blk s)(b := (blk s b)\<lparr>b_refcnt := b_refcnt (blk s b) + 1\<rparr>)" by simp
  have rb: "b_refcnt (blk s b) \<ge> 0" "block_ok (blk s b)" using cache_inv_block [OF ci assms(2)] by (auto simp: block_ok_def)
  have dR: "distinct R" using lrep_distinct [OF lists_rep_lrep [OF l(2), of "()"]] by simp
  have lru: "lists_rep (blk_lru ?s') (\<lambda>_. remove1 b R)"
  proof (cases "b_refcnt (blk s b) = 0")
    case True
    then have "b \<in> set R" using l(3) assms(2) by simp
    then have "lists_rep (list_rm () b (blk_lru s)) ((\<lambda>_. R)(() := remove1 b R))" using lists_rep_rm [OF l(2)] by blast
    moreover have "(\<lambda>_. R)(() := remove1 b R) = (\<lambda>_. remove1 b R)" by (simp add: fun_eq_iff)
    ultimately show ?thesis using True by simp
  next
    case False
    then have "b \<notin> set R" using l(3) by simp
    then show ?thesis using False l(2) by (simp add: remove1_idem)
  qed
  have isb: "is_block dv n (blk ?s' x) \<longleftrightarrow> is_block dv n (blk s x)" for x dv n
    using assms(3) rb(1) by (auto simp: is_block_def)
  have "cache_inv ?s' H (remove1 b R)"
    unfolding cache_inv_def isb
    using ci lru dR rb assms(3) by (auto simp: cache_inv_def block_ok_def is_block_def)
  moreover have "synced sector has dok ?s'" using sy by (simp add: synced_def)
  moreover have "view sector ?s' = view sector s"
    by (rule view_cong) (simp_all add: contents_of_def)
  ultimately show ?thesis using g bl by (intro exI [of _ ?s']) (simp add: coherent_def)
qed

lemma blk_get_miss:
  assumes "coherent sector has dok s H (b # R)" and "\<And>x. x < blk_count s \<Longrightarrow> \<not> is_block dev nr (blk s x)"
  shows "\<exists>s' H'. blk_get wr dev nr s = Some (Inr b, s') \<and> coherent sector has dok s' H' R \<and>
           view sector s' = view sector s \<and> has (disk s') = has (disk s) \<and> blk_count s' = blk_count s \<and>
           blk s' = (blk s)(b := (blk s b)\<lparr>b_refcnt := 1, b_dev := Some dev, b_nr := nr, b_valid := False, b_dirty := False\<rparr>)"
proof -
  have ci: "cache_inv s H (b # R)" and sy: "synced sector has dok s" using assms(1) by (auto simp: coherent_def)
  note l = cache_inv_lists [OF ci]
  have b: "b < blk_count s" "b_refcnt (blk s b) = 0" using l(3) by auto
  have ok: "block_ok (blk s b)" by (rule cache_inv_block [OF ci b(1)])
  have dist: "distinct (H i)" for i using lrep_distinct [OF lists_rep_lrep [OF l(1)]] .
  have dR: "distinct (b # R)" using lrep_distinct [OF lists_rep_lrep [OF l(2), of "()"]] by simp
  let ?j = "nr mod BLK_NR_LISTS"
  obtain r where r: "list_search (i_next (blk_lists s)) (\<lambda>b. is_block dev nr (blk s b)) (blk_count s)
        (l_first (blk_lists s) ?j) = Some r"
      "case r of Some b \<Rightarrow> b < blk_count s \<and> is_block dev nr (blk s b) | None \<Rightarrow> \<forall>x < blk_count s. \<not> is_block dev nr (blk s x)"
    using cache_search [OF ci] by blast
  have rN: "r = None" using r(2) assms(2) by (auto split: option.splits)
  have first: "l_first (blk_lru s) () = Some b" using lrep_first [OF lists_rep_lrep [OF l(2), of "()"]] by simp
  let ?s1 = "s\<lparr>blk_lists := list_rm (b_nr (blk s b) mod BLK_NR_LISTS) b (blk_lists s), blk_lru := list_rm () b (blk_lru s)\<rparr>"
  have sy1: "synced sector has dok ?s1" using sy by (simp add: synced_def)
  obtain s2 where s2: "(if b_dirty (blk ?s1 b) then map_option snd (blk_write wr b ?s1) else Some ?s1) = Some s2"
      "blk s2 = (blk s)(b := (blk s b)\<lparr>b_dirty := False\<rparr>)" "blk_lists s2 = blk_lists ?s1" "blk_lru s2 = blk_lru ?s1"
      "blk_count s2 = blk_count s" "dok (disk s2)" "has (disk s2) = has (disk s)"
      "\<forall>dev nr. sector (disk s2) dev nr =
         (if b_valid (blk s b) \<and> b_dev (blk s b) = Some dev \<and> b_nr (blk s b) = nr then b_data (blk s b) else sector (disk s) dev nr)"
    using write_back [OF sy1, of b] b(1) ok by auto
  let ?nb = "(blk s b)\<lparr>b_refcnt := 1, b_dev := Some dev, b_nr := nr, b_valid := False, b_dirty := False\<rparr>"
  let ?s3 = "upd_blk b (\<lambda>v. v\<lparr>b_refcnt := 1, b_dev := Some dev, b_nr := nr, b_valid := False\<rparr>) s2"
  have b3: "blk ?s3 = (blk s)(b := ?nb)" using s2(2) by (simp add: fun_eq_iff)
  obtain h where h: "list_pre ?j b (list_rm (b_nr (blk s b) mod BLK_NR_LISTS) b (blk_lists s)) = Some h"
      "lists_rep h (rehash b ?j H)"
      "\<forall>x. x \<noteq> b \<longrightarrow> (\<forall>i. x \<notin> set (H i)) \<longrightarrow> i_next h x = i_next (blk_lists s) x \<and> i_prev h x = i_prev (blk_lists s) x"
    using rehash_lists [OF ci b(1)] by blast
  let ?s' = "?s3\<lparr>blk_lists := h\<rparr>"
  have get: "blk_get wr dev nr s = Some (Inr b, ?s')"
    using r(1) rN first s2(1,3) h(1) by (simp add: blk_get_def Let_def)
  have bl: "blk ?s' = (blk s)(b := ?nb)" using b3 by simp
  have lru: "lists_rep (blk_lru ?s') (\<lambda>_. R)"
  proof -
    have "lists_rep (list_rm () b (blk_lru s)) ((\<lambda>_. b # R)(() := remove1 b (b # R)))" by (rule lists_rep_rm [OF l(2)]) simp
    moreover have "(\<lambda>_. b # R)(() := remove1 b (b # R)) = (\<lambda>_. R)" by (simp add: fun_eq_iff)
    ultimately show ?thesis using s2(4) by simp
  qed
  note ir = in_rehash [OF dist, where b = b and j = ?j]
  have isb: "x < blk_count s \<Longrightarrow> is_block dv n (blk ?s' x) \<longleftrightarrow> (if x = b then dv = dev \<and> n = nr else is_block dv n (blk s x))" for x dv n
    unfolding bl by (auto simp: is_block_def)
  have cnt: "blk_count ?s' = blk_count s" using s2(5) by simp
  have "cache_inv ?s' (rehash b ?j H) R"
    unfolding cache_inv_def cnt
  proof (intro conjI allI impI ballI)
    show "lists_rep (blk_lists ?s') (rehash b ?j H)" using h(2) by simp
    show "lists_rep (blk_lru ?s') (\<lambda>_. R)" by (rule lru)
  next
    fix i x assume x: "x \<in> set (rehash b ?j H i)"
    then show "x < blk_count s" "b_nr (blk ?s' x) mod BLK_NR_LISTS = i"
      using b(1) cache_inv_listed [OF ci, of x i] unfolding bl ir by auto
  next
    fix x assume x: "x < blk_count s" "\<forall>i. x \<notin> set (rehash b ?j H i)"
    then have xb: "x \<noteq> b" "\<forall>i. x \<notin> set (H i)" using ir by auto
    then show "i_next (blk_lists ?s') x = None" "i_prev (blk_lists ?s') x = None" "b_refcnt (blk ?s' x) = 0" "\<not> b_valid (blk ?s' x)"
      using cache_inv_unlisted [OF ci x(1)] h(3) unfolding bl by auto
  next
    show "set R = {x. x < blk_count s \<and> b_refcnt (blk ?s' x) = 0}" using l(3) dR unfolding bl by auto
  next
    fix x assume "x < blk_count s"
    then show "block_ok (blk ?s' x)" using cache_inv_block [OF ci] ok unfolding bl by (auto simp: block_ok_def)
  next
    fix x y dv n assume "x < blk_count s" "y < blk_count s" "is_block dv n (blk ?s' x)" "is_block dv n (blk ?s' y)"
    then show "x = y" using isb assms(2) cache_inv_unique [OF ci] by (auto split: if_splits)
  qed
  moreover have "synced sector has dok ?s'"
    unfolding synced_def cnt
  proof (intro conjI allI impI)
    show "dok (disk ?s')" using s2(6) by simp
    fix x dv assume x: "x < blk_count s" "b_valid (blk ?s' x)" "b_dev (blk ?s' x) = Some dv"
    then have xb: "x \<noteq> b" "blk ?s' x = blk s x" using bl by (auto split: if_splits)
    show "has (disk ?s') dv (b_nr (blk ?s' x))" using sy x s2(7) unfolding xb by (simp add: synced_def)
    assume "\<not> b_dirty (blk ?s' x)"
    then have "b_data (blk s x) = sector (disk s) dv (b_nr (blk s x))" using sy x unfolding xb by (simp add: synced_def)
    moreover have "\<not> (b_valid (blk s b) \<and> b_dev (blk s b) = Some dv \<and> b_nr (blk s b) = b_nr (blk s x))"
      using cache_inv_unique [OF ci x(1) b(1), of dv "b_nr (blk s x)"] x xb by (auto simp: is_block_def)
    ultimately show "b_data (blk ?s' x) = sector (disk ?s') dv (b_nr (blk ?s' x))" using s2(8) unfolding xb by auto
  qed
  moreover have "view sector ?s' = view sector s"
  proof (intro ext)
    fix dv n
    consider x where "x < blk_count s" "x \<noteq> b" "b_valid (blk s x)" "is_block dv n (blk s x)"
      | "b_valid (blk s b)" "is_block dv n (blk s b)"
      | "\<And>x. x < blk_count s \<Longrightarrow> b_valid (blk s x) \<Longrightarrow> \<not> is_block dv n (blk s x)" by blast
    then show "view sector ?s' dv n = view sector s dv n"
    proof cases
      case 1
      then have "blk ?s' x = blk s x" using bl by simp
      then show ?thesis
        using view_valid [OF ci 1(1,3,4)] view_valid [OF \<open>cache_inv ?s' _ _\<close>, of x dv n] 1 cnt by simp
    next
      case 2
      have "\<not> is_block dv n (blk ?s' x)" if "x < blk_count ?s'" "b_valid (blk ?s' x)" for x
        using that cache_inv_unique [OF ci _ b(1) _ 2(2), of x] cnt isb [of x] bl by (auto split: if_splits)
      then show ?thesis
        using view_none [of ?s' dv n] view_valid [OF ci b(1) 2] s2(8) 2 by (simp add: is_block_def)
    next
      case 3
      have "\<not> is_block dv n (blk ?s' x)" if "x < blk_count ?s'" "b_valid (blk ?s' x)" for x
        using that 3 cnt isb [of x] bl by (auto split: if_splits)
      moreover have "\<not> (b_valid (blk s b) \<and> b_dev (blk s b) = Some dv \<and> b_nr (blk s b) = n)"
        using 3 [OF b(1)] by (auto simp: is_block_def)
      ultimately show ?thesis using view_none [of ?s' dv n] view_none [of s dv n] 3 s2(8) by auto
    qed
  qed
  ultimately show ?thesis
    using get bl cnt s2(7) by (intro exI [of _ ?s'] exI [of _ "rehash b ?j H"]) (simp add: coherent_def)
qed

lemma blk_put_works:
  assumes "coherent sector has dok s H R" and "b < blk_count s" and "b_refcnt (blk s b) > 0"
  shows "\<exists>s' R'. blk_put (Some b) s = Some s' \<and> coherent sector has dok s' H R' \<and> view sector s' = view sector s \<and>
           blk s' = (blk s)(b := (blk s b)\<lparr>b_refcnt := b_refcnt (blk s b) - 1\<rparr>) \<and> disk s' = disk s \<and> blk_count s' = blk_count s"
proof -
  have ci: "cache_inv s H R" and sy: "synced sector has dok s" using assms(1) by (auto simp: coherent_def)
  note l = cache_inv_lists [OF ci]
  let ?s1 = "upd_blk b (\<lambda>v. v\<lparr>b_refcnt := b_refcnt v - 1\<rparr>) s"
  have nR: "b \<notin> set R" using l(3) assms(3) by auto
  have ok: "block_ok (blk s b)" by (rule cache_inv_block [OF ci assms(2)])
  have lst: "\<exists>i. b \<in> set (H i)" using cache_inv_unlisted [OF ci assms(2)] assms(3) by fastforce
  have isb: "is_block dv n (blk ?s1 x) \<Longrightarrow> is_block dv n (blk s x)" for x dv n
    using assms(3) by (auto simp: is_block_def split: if_splits)
  have inv: "cache_inv s' H R'"
    if "blk s' = blk ?s1" "blk_lists s' = blk_lists s" "blk_count s' = blk_count s" "lists_rep (blk_lru s') (\<lambda>_. R')"
      "set R' = {x. x < blk_count s \<and> b_refcnt (blk ?s1 x) = 0}" for s' R'
    unfolding cache_inv_def that(1-3,5)
  proof (intro conjI allI impI ballI refl)
    show "lists_rep (blk_lists s) H" "lists_rep (blk_lru s') (\<lambda>_. R')" using l(1) that(4) by auto
  next
    fix i x assume "x \<in> set (H i)"
    then show "x < blk_count s" "b_nr (blk ?s1 x) mod BLK_NR_LISTS = i" using cache_inv_listed [OF ci] by auto
  next
    fix x assume "x < blk_count s" "\<forall>i. x \<notin> set (H i)"
    then show "i_next (blk_lists s) x = None" "i_prev (blk_lists s) x = None" "b_refcnt (blk ?s1 x) = 0" "\<not> b_valid (blk ?s1 x)"
      using cache_inv_unlisted [OF ci] lst by auto
  next
    fix x assume "x < blk_count s"
    then show "block_ok (blk ?s1 x)" using cache_inv_block [OF ci] ok assms(3) by (auto simp: block_ok_def)
  next
    fix x y dv n assume "x < blk_count s" "y < blk_count s" "is_block dv n (blk ?s1 x)" "is_block dv n (blk ?s1 y)"
    then show "x = y" using isb cache_inv_unique [OF ci] by blast
  qed
  have sy': "synced sector has dok s'" "view sector s' = view sector s"
    if "blk s' = blk ?s1" "disk s' = disk s" "blk_count s' = blk_count s" for s'
    using sy that by (auto simp: synced_def contents_of_def intro!: view_cong)
  show ?thesis
  proof (cases "b_refcnt (blk s b) = 1")
    case True
    obtain m where m: "list_app () b (blk_lru s) = Some m" "lists_rep m ((\<lambda>_. R)(() := R @ [b]))"
      using lists_rep_app [OF l(2), of b] nR by auto
    have "(\<lambda>_. R)(() := R @ [b]) = (\<lambda>_. R @ [b])" by (simp add: fun_eq_iff)
    then have rep: "lists_rep m (\<lambda>_. R @ [b])" using m(2) by simp
    let ?s' = "?s1\<lparr>blk_lru := m\<rparr>"
    have "blk_put (Some b) s = Some ?s'" using m(1) True by (simp add: blk_put_def Let_def)
    moreover have "cache_inv ?s' H (R @ [b])"
    proof (rule inv)
      show "set (R @ [b]) = {x. x < blk_count s \<and> b_refcnt (blk ?s1 x) = 0}"
        unfolding set_append l(3) using True assms(2) by auto
    qed (use rep in simp_all)
    moreover have "synced sector has dok ?s'" "view sector ?s' = view sector s" by (rule sy'; simp)+
    ultimately show ?thesis by (intro exI [of _ ?s'] exI [of _ "R @ [b]"]) (simp add: coherent_def)
  next
    case False
    then have "blk_put (Some b) s = Some ?s1" using assms(3) by (simp add: blk_put_def Let_def)
    moreover have "cache_inv ?s1 H R"
    proof (rule inv)
      show "set R = {x. x < blk_count s \<and> b_refcnt (blk ?s1 x) = 0}"
        unfolding l(3) using False assms(3) by auto
    qed (use l(2) in simp_all)
    moreover have "synced sector has dok ?s1" "view sector ?s1 = view sector s" by (rule sy'; simp)+
    ultimately show ?thesis by (intro exI [of _ ?s1] exI [of _ R]) (simp add: coherent_def)
  qed
qed

lemma blk_get_works:
  assumes "coherent sector has dok s H R" and "(\<exists>x < blk_count s. is_block dev nr (blk s x)) \<or> R \<noteq> []"
  shows "\<exists>b s' H' R'. blk_get wr dev nr s = Some (Inr b, s') \<and> coherent sector has dok s' H' R' \<and>
           view sector s' = view sector s \<and> has (disk s') = has (disk s) \<and> blk_count s' = blk_count s \<and> b < blk_count s \<and>
           is_block dev nr (blk s' b) \<and> b_refcnt (blk s' b) = b_refcnt (blk s b) + 1 \<and> b_refcnt (blk s b) \<ge> 0 \<and>
           (\<forall>x. x \<noteq> b \<longrightarrow> blk s' x = blk s x) \<and>
           (b_refcnt (blk s b) > 0 \<longrightarrow> is_block dev nr (blk s b) \<and> b_valid (blk s' b) = b_valid (blk s b))"
proof (cases "\<exists>x < blk_count s. is_block dev nr (blk s x)")
  case True
  then obtain b where b: "b < blk_count s" "is_block dev nr (blk s b)" by blast
  have "b_refcnt (blk s b) \<ge> 0"
    using cache_inv_block [of s H R b] assms(1) b(1) by (auto simp: coherent_def block_ok_def)
  moreover from this have "is_block dev nr ((blk s b)\<lparr>b_refcnt := b_refcnt (blk s b) + 1\<rparr>)" using b(2) by (simp add: is_block_def)
  moreover obtain s' where "blk_get wr dev nr s = Some (Inr b, s')" "coherent sector has dok s' H (remove1 b R)"
      "view sector s' = view sector s" "blk s' = (blk s)(b := (blk s b)\<lparr>b_refcnt := b_refcnt (blk s b) + 1\<rparr>)"
      "blk_count s' = blk_count s" "disk s' = disk s"
    using blk_get_hit [OF assms(1) b] by blast
  ultimately show ?thesis using b
    by (intro exI [of _ b] exI [of _ s'] exI [of _ H] exI [of _ "remove1 b R"]) simp
next
  case False
  then obtain b R1 where R: "R = b # R1" using assms(2) by (cases R) auto
  then have b: "b < blk_count s" "b_refcnt (blk s b) = 0"
    using cache_inv_lists(3) [of s H R] assms(1) by (auto simp: coherent_def)
  obtain s' H' where s': "blk_get wr dev nr s = Some (Inr b, s')" "coherent sector has dok s' H' R1"
      "view sector s' = view sector s" "has (disk s') = has (disk s)" "blk_count s' = blk_count s"
      "blk s' = (blk s)(b := (blk s b)\<lparr>b_refcnt := 1, b_dev := Some dev, b_nr := nr, b_valid := False, b_dirty := False\<rparr>)"
    using blk_get_miss [of s H b R1 dev nr] assms(1) False R by auto
  then show ?thesis using b
    by (intro exI [of _ b] exI [of _ s'] exI [of _ H'] exI [of _ R1]) (simp add: is_block_def)
qed

lemma blk_get_nomem:
  assumes "coherent sector has dok s H []" and "\<And>x. x < blk_count s \<Longrightarrow> \<not> is_block dev nr (blk s x)"
  shows "blk_get wr dev nr s = Some (Inl ENOMEM, s)"
proof -
  have ci: "cache_inv s H []" using assms(1) by (simp add: coherent_def)
  have "l_first (blk_lru s) () = None" using lrep_first [OF lists_rep_lrep [OF cache_inv_lists(2) [OF ci], of "()"]] by simp
  moreover obtain r where "list_search (i_next (blk_lists s)) (\<lambda>b. is_block dev nr (blk s b)) (blk_count s)
        (l_first (blk_lists s) (nr mod BLK_NR_LISTS)) = Some r"
      "case r of Some b \<Rightarrow> b < blk_count s \<and> is_block dev nr (blk s b) | None \<Rightarrow> \<forall>x < blk_count s. \<not> is_block dev nr (blk s x)"
    using cache_search [OF ci] by blast
  moreover from this(2) have "r = None" using assms(2) by (auto split: option.splits)
  ultimately show ?thesis by (simp add: blk_get_def)
qed

lemma blk_read_works:
  assumes "coherent sector has dok s H R" and "has (disk s) dev nr"
    and "(\<exists>x < blk_count s. is_block dev nr (blk s x)) \<or> R \<noteq> []"
  shows "\<exists>b s' H' R'. blk_read rd wr dev nr s = Some (Inr b, s') \<and> coherent sector has dok s' H' R' \<and>
           view sector s' = view sector s \<and> has (disk s') = has (disk s) \<and> blk_count s' = blk_count s \<and> b < blk_count s \<and>
           is_block dev nr (blk s' b) \<and> b_refcnt (blk s' b) = b_refcnt (blk s b) + 1 \<and> b_refcnt (blk s b) \<ge> 0 \<and>
           (\<forall>x. x \<noteq> b \<longrightarrow> blk s' x = blk s x) \<and> (b_refcnt (blk s b) > 0 \<longrightarrow> is_block dev nr (blk s b)) \<and>
           b_valid (blk s' b) \<and> b_data (blk s' b) = view sector s dev nr"
proof -
  obtain b s1 H1 R1 where s1: "blk_get wr dev nr s = Some (Inr b, s1)" "coherent sector has dok s1 H1 R1"
      "view sector s1 = view sector s" "has (disk s1) = has (disk s)" "blk_count s1 = blk_count s" "b < blk_count s"
      "is_block dev nr (blk s1 b)" "b_refcnt (blk s1 b) = b_refcnt (blk s b) + 1" "b_refcnt (blk s b) \<ge> 0"
      "\<forall>x. x \<noteq> b \<longrightarrow> blk s1 x = blk s x" "b_refcnt (blk s b) > 0 \<longrightarrow> is_block dev nr (blk s b)"
    using blk_get_works [OF assms(1,3)] by blast
  have ci: "cache_inv s1 H1 R1" and sy: "synced sector has dok s1" using s1(2) by (auto simp: coherent_def)
  have b1: "b < blk_count s1" using s1(5,6) by simp
  show ?thesis
  proof (cases "b_valid (blk s1 b)")
    case True
    then have "blk_read rd wr dev nr s = Some (Inr b, s1)" using s1(1) by (simp add: blk_read_def)
    moreover have "b_data (blk s1 b) = view sector s dev nr" using view_valid [OF ci b1 True s1(7), of sector] s1(3) by simp
    ultimately show ?thesis using s1 True by blast
  next
    case False
    have nr: "b_nr (blk s1 b) = nr" "b_dev (blk s1 b) = Some dev" using s1(7) by (auto simp: is_block_def)
    have bo: "block_ok (blk s1 b)" by (rule cache_inv_block [OF ci b1])
    obtain d where d: "rd dev nr (b_data (blk s1 b)) (disk s1) = Some (EZERO, sector (disk s1) dev nr, d)" "dok d"
        "sector d = sector (disk s1)" "has d = has (disk s1)"
    proof -
      have "dok (disk s1)" "has (disk s1) dev nr" "length (b_data (blk s1 b)) = BLK_SIZE"
        using sy bo assms(2) s1(4) by (simp_all add: synced_def block_ok_def)
      then show ?thesis using rd_law that by blast
    qed
    let ?f = "\<lambda>v. v\<lparr>b_data := sector (disk s1) dev nr, b_valid := True\<rparr>"
    let ?s2 = "(upd_blk b ?f s1)\<lparr>disk := d\<rparr>"
    let ?s' = "upd_bdev dev (\<lambda>v. v\<lparr>read_cnt := read_cnt v + 1\<rparr>) ?s2"
    have rd: "blk_read rd wr dev nr s = Some (Inr b, ?s')"
      using s1(1) False d(1) nr(1) by (simp add: blk_read_def Let_def upd_blk_def upd_bdev_def)
    have len: "length (sector (disk s1) dev nr) = BLK_SIZE"
      using sector_length sy assms(2) s1(4) by (simp add: synced_def)
    have inv: "cache_inv (upd_blk b ?f s1) H1 R1"
      by (rule cache_inv_upd [OF ci b1]) (use bo len s1(8,9) nr in \<open>auto simp: block_ok_def\<close>)
    have "synced sector has dok ?s'"
      using sy nr d assms(2) s1(4) by (auto simp: synced_def)
    moreover have vN: "view sector s1 dev nr = sector (disk s1) dev nr"
      by (rule view_none) (use False cache_inv_unique [OF ci _ b1 _ s1(7)] in blast)
    have "view sector ?s' = view sector s"
    proof -
      have "view sector ?s' = view sector (upd_blk b ?f s1)" by (rule view_cong) (simp_all add: d(3))
      also have "\<dots> = (view sector s1)(dev := (view sector s1 dev)(nr := sector (disk s1) dev nr))"
        using view_upd [OF ci inv b1 s1(7), of sector] s1(7,8,9) by (simp add: is_block_def)
      also have "\<dots> = view sector s" using vN s1(3) by (metis fun_upd_triv)
      finally show ?thesis .
    qed
    moreover have "is_block dev nr (blk ?s' b)" using s1(7) by (simp add: is_block_def)
    moreover have "b_data (blk ?s' b) = view sector s dev nr" using vN s1(3) by simp
    ultimately show ?thesis using rd inv s1 d(4)
      by (intro exI [of _ b] exI [of _ ?s'] exI [of _ H1] exI [of _ R1]) (simp add: coherent_def)
  qed
qed

lemma blk_pread_works:
  assumes "coherent sector has dok s H R" and "has (disk s) dev nr"
    and "(\<exists>x < blk_count s. is_block dev nr (blk s x)) \<or> R \<noteq> []" and "off + len \<le> BLK_SIZE"
  shows "\<exists>s' H' R'. blk_pread rd wr dev nr off len s = Some (Inr (take len (drop off (view sector s dev nr))), s') \<and>
           coherent sector has dok s' H' R' \<and> view sector s' = view sector s \<and> has (disk s') = has (disk s)"
proof -
  obtain b s1 H1 R1 where s1: "blk_read rd wr dev nr s = Some (Inr b, s1)" "coherent sector has dok s1 H1 R1"
      "view sector s1 = view sector s" "has (disk s1) = has (disk s)" "blk_count s1 = blk_count s" "b < blk_count s"
      "b_refcnt (blk s1 b) = b_refcnt (blk s b) + 1" "b_refcnt (blk s b) \<ge> 0" "b_data (blk s1 b) = view sector s dev nr"
    using blk_read_works [OF assms(1-3)] by blast
  obtain s' R' where s': "blk_put (Some b) s1 = Some s'" "coherent sector has dok s' H1 R'" "view sector s' = view sector s1"
      "disk s' = disk s1"
    using blk_put_works [OF s1(2), of b] s1(5-8) by auto
  then have "blk_pread rd wr dev nr off len s = Some (Inr (take len (drop off (view sector s dev nr))), s')"
    using s1(1,9) assms(4) by (simp add: blk_pread_def)
  then show ?thesis using s' s1(3,4) by auto
qed

text \<open>Storing into a buffer that the caller holds, and letting go of it.\<close>

lemma store_and_put:
  assumes "coherent sector has dok s H R" and "has (disk s) dev nr" and "b < blk_count s" and "is_block dev nr (blk s b)"
    and "b_refcnt (blk s b) > 0" and "length data = BLK_SIZE"
  shows "\<exists>s' R'. blk_put (Some b) (upd_blk b (\<lambda>v. v\<lparr>b_data := data, b_dirty := True, b_valid := True\<rparr>) s) = Some s' \<and>
           coherent sector has dok s' H R' \<and> view sector s' = (view sector s)(dev := (view sector s dev)(nr := data)) \<and>
           disk s' = disk s \<and> blk_count s' = blk_count s \<and>
           (\<forall>x. b_refcnt (blk s' x) = b_refcnt (blk s x) - (if x = b then 1 else 0))"
proof -
  have ci: "cache_inv s H R" and sy: "synced sector has dok s" using assms(1) by (auto simp: coherent_def)
  let ?f = "\<lambda>v. v\<lparr>b_data := data, b_dirty := True, b_valid := True\<rparr>"
  let ?s1 = "upd_blk b ?f s"
  have inv: "cache_inv ?s1 H R"
    by (rule cache_inv_upd [OF ci assms(3)])
      (use cache_inv_block [OF ci assms(3)] assms(4-6) in \<open>auto simp: block_ok_def is_block_def\<close>)
  have "synced sector has dok ?s1" using sy assms(2,4) by (auto simp: synced_def is_block_def)
  then have co: "coherent sector has dok ?s1 H R" using inv by (simp add: coherent_def)
  have v: "view sector ?s1 = (view sector s)(dev := (view sector s dev)(nr := data))"
    using view_upd [OF ci inv assms(3,4), of sector] assms(4) by (simp add: is_block_def)
  show ?thesis using blk_put_works [OF co, of b] assms(3,5) v by auto
qed

lemma blk_pwrite_works:
  assumes "coherent sector has dok s H R" and "has (disk s) dev nr"
    and "(\<exists>x < blk_count s. is_block dev nr (blk s x)) \<or> R \<noteq> []" and "off + length buf \<le> BLK_SIZE"
  shows "\<exists>s' H' R'. blk_pwrite rd wr dev nr off buf s = Some (EZERO, s') \<and> coherent sector has dok s' H' R' \<and>
           has (disk s') = has (disk s) \<and> blk_count s' = blk_count s \<and> (\<forall>x. b_refcnt (blk s' x) = b_refcnt (blk s x)) \<and>
           view sector s' = (view sector s)(dev := (view sector s dev)(nr := memcpy_in (view sector s dev nr) off buf))"
proof -
  obtain b s1 H1 R1 where
      s1: "(if length buf \<noteq> BLK_SIZE then blk_read rd wr dev nr s else blk_get wr dev nr s) = Some (Inr b, s1)"
      "coherent sector has dok s1 H1 R1" "view sector s1 = view sector s" "has (disk s1) = has (disk s)"
      "blk_count s1 = blk_count s" "b < blk_count s" "is_block dev nr (blk s1 b)"
      "b_refcnt (blk s1 b) = b_refcnt (blk s b) + 1" "b_refcnt (blk s b) \<ge> 0"
      "length buf \<noteq> BLK_SIZE \<longrightarrow> b_data (blk s1 b) = view sector s dev nr" "\<forall>x. x \<noteq> b \<longrightarrow> blk s1 x = blk s x"
    using blk_read_works [OF assms(1-3)] blk_get_works [OF assms(1,3)] by (cases "length buf = BLK_SIZE") fastforce+
  have b1: "b < blk_count s1" using s1(5,6) by simp
  have bo: "block_ok (blk s1 b)" using cache_inv_block [of s1 H1 R1 b] s1(2) b1 by (simp add: coherent_def)
  then have lb: "length (b_data (blk s1 b)) = BLK_SIZE" by (simp add: block_ok_def)
  let ?d = "memcpy_in (b_data (blk s1 b)) off buf"
  have len: "length ?d = BLK_SIZE" using assms(4) lb length_memcpy_in [of off buf "b_data (blk s1 b)"] by simp
  obtain s' R' where s': "blk_put (Some b) (upd_blk b (\<lambda>v. v\<lparr>b_data := ?d, b_dirty := True, b_valid := True\<rparr>) s1) = Some s'"
      "coherent sector has dok s' H1 R'" "view sector s' = (view sector s1)(dev := (view sector s1 dev)(nr := ?d))" "disk s' = disk s1"
      "blk_count s' = blk_count s1" "\<forall>x. b_refcnt (blk s' x) = b_refcnt (blk s1 x) - (if x = b then 1 else 0)"
    using store_and_put [OF s1(2) _ b1 s1(7) _ len] assms(2) s1(4,8,9) by auto
  have d: "?d = memcpy_in (view sector s dev nr) off buf"
  proof (cases "length buf = BLK_SIZE")
    case True
    have "length (view sector s dev nr) = BLK_SIZE"
    proof (cases "\<exists>x < blk_count s. b_valid (blk s x) \<and> is_block dev nr (blk s x)")
      case True
      then obtain x where x: "x < blk_count s" "b_valid (blk s x)" "is_block dev nr (blk s x)" by blast
      have ci: "cache_inv s H R" using assms(1) by (simp add: coherent_def)
      show ?thesis using view_valid [OF ci x, of sector] cache_inv_block [OF ci x(1)] by (simp add: block_ok_def)
    next
      case False
      then have "view sector s dev nr = sector (disk s) dev nr" by (intro view_none) auto
      moreover have "dok (disk s)" using assms(1) by (simp add: coherent_def synced_def)
      ultimately show ?thesis using sector_length assms(2) by simp
    qed
    then show ?thesis using True assms(4) lb by (simp add: memcpy_in_def)
  next
    case False
    then show ?thesis using s1(10) by simp
  qed
  have "upd_blk b (\<lambda>v. v\<lparr>b_data := memcpy_in (b_data v) off buf, b_dirty := True, b_valid := True\<rparr>) s1 =
      upd_blk b (\<lambda>v. v\<lparr>b_data := ?d, b_dirty := True, b_valid := True\<rparr>) s1" by (simp add: upd_blk_def)
  then have "blk_pwrite rd wr dev nr off buf s = Some (EZERO, s')"
    using s1(1) s'(1) assms(4) by (simp add: blk_pwrite_def)
  then show ?thesis using s'(2-6) s1(3-5,8,11) d by auto
qed

text \<open>Writing back a dirty buffer.\<close>

lemma blk_write_works:
  assumes "coherent sector has dok s H R" and "b < blk_count s" and "b_dirty (blk s b)"
  shows "\<exists>s'. map_option snd (blk_write wr b s) = Some s' \<and> coherent sector has dok s' H R \<and> view sector s' = view sector s \<and>
           blk s' = (blk s)(b := (blk s b)\<lparr>b_dirty := False\<rparr>) \<and> blk_count s' = blk_count s"
proof -
  have ci: "cache_inv s H R" and sy: "synced sector has dok s" using assms(1) by (auto simp: coherent_def)
  have b: "b < blk_count s" by (rule assms(2))
  have ok: "block_ok (blk s b)" by (rule cache_inv_block [OF ci b])
  obtain s1 where s1: "map_option snd (blk_write wr b s) = Some s1" "blk s1 = (blk s)(b := (blk s b)\<lparr>b_dirty := False\<rparr>)"
      "blk_lists s1 = blk_lists s" "blk_lru s1 = blk_lru s" "blk_count s1 = blk_count s" "dok (disk s1)" "has (disk s1) = has (disk s)"
      "\<forall>dev nr. sector (disk s1) dev nr =
         (if b_valid (blk s b) \<and> b_dev (blk s b) = Some dev \<and> b_nr (blk s b) = nr then b_data (blk s b) else sector (disk s) dev nr)"
    using write_back [OF sy b ok] assms(3) by auto
  have e: "is_block dv n (blk s1 x) = is_block dv n (blk s x)" for dv n x using s1(2) by (auto simp: is_block_def)
  have inv1: "cache_inv s1 H R"
  proof -
    have "cache_inv (upd_blk b (b_dirty_update (\<lambda>_. False)) s) H R"
      by (rule cache_inv_upd [OF ci b]) (use ok in \<open>auto simp: block_ok_def\<close>)
    then show ?thesis using s1(2-5) by (simp add: cache_inv_def)
  qed
  have sy1: "synced sector has dok s1"
    unfolding synced_def
  proof (intro conjI allI impI)
    show "dok (disk s1)" by (rule s1(6))
    fix x dv assume x: "x < blk_count s1" "b_valid (blk s1 x)" "b_dev (blk s1 x) = Some dv"
    then have xs: "x < blk_count s" "b_valid (blk s x)" "b_dev (blk s x) = Some dv" "b_nr (blk s1 x) = b_nr (blk s x)"
        "b_data (blk s1 x) = b_data (blk s x)"
      using s1(2,5) by (auto split: if_splits)
    then show "has (disk s1) dv (b_nr (blk s1 x))" using sy s1(7) by (simp add: synced_def)
    assume nd: "\<not> b_dirty (blk s1 x)"
    show "b_data (blk s1 x) = sector (disk s1) dv (b_nr (blk s1 x))"
    proof (cases "x = b")
      case True
      then show ?thesis using s1(8) xs by simp
    next
      case False
      then have "b_data (blk s x) = sector (disk s) dv (b_nr (blk s x))" using nd xs sy s1(2) by (simp add: synced_def)
      moreover have "\<not> (b_valid (blk s b) \<and> b_dev (blk s b) = Some dv \<and> b_nr (blk s b) = b_nr (blk s x))"
        using cache_inv_unique [OF ci xs(1) b, of dv "b_nr (blk s x)"] xs False by (auto simp: is_block_def)
      ultimately show ?thesis using s1(8) xs(4,5) by auto
    qed
  qed
  have "view sector s1 = view sector s"
  proof (intro ext)
    fix dv n
    consider x where "x < blk_count s" "b_valid (blk s x)" "is_block dv n (blk s x)"
      | "\<And>x. x < blk_count s \<Longrightarrow> b_valid (blk s x) \<Longrightarrow> \<not> is_block dv n (blk s x)" by blast
    then show "view sector s1 dv n = view sector s dv n"
    proof cases
      case 1
      then show ?thesis using view_valid [OF ci 1, of sector] view_valid [OF inv1, of x dv n sector] s1(2,5) by (cases "x = b") (auto simp: is_block_def)
    next
      case 2
      have "\<not> is_block dv n (blk s1 x)" if "x < blk_count s1" "b_valid (blk s1 x)" for x
        using 2 [of x] that e s1(2,5) by (auto split: if_splits)
      moreover have "\<not> (b_valid (blk s b) \<and> b_dev (blk s b) = Some dv \<and> b_nr (blk s b) = n)"
        using 2 [OF b] by (auto simp: is_block_def)
      ultimately show ?thesis using view_none [of s dv n sector] view_none [of s1 dv n sector] 2 s1(8) by auto
    qed
  qed
  then show ?thesis using s1(1,2,5) inv1 sy1 by (auto simp: coherent_def)
qed

text \<open>Invalidating a clean buffer that nobody refers to.\<close>

lemma invalidate_works:
  assumes "coherent sector has dok s1 H R" and "b < blk_count s1" and "b_refcnt (blk s1 b) = 0" and "\<not> b_dirty (blk s1 b)"
  shows "coherent sector has dok (upd_blk b (b_valid_update (\<lambda>_. False)) s1) H R"
    "view sector (upd_blk b (b_valid_update (\<lambda>_. False)) s1) = view sector s1"
proof -
  have c1: "cache_inv s1 H R" "synced sector has dok s1" using assms(1) by (auto simp: coherent_def)
  note b1 = assms(2,3) and True = assms(4)
  let ?s' = "upd_blk b (b_valid_update (\<lambda>_. False)) s1"
  have inv': "cache_inv ?s' H R"
    by (rule cache_inv_upd [OF c1(1) b1(1)]) (use cache_inv_block [OF c1(1) b1(1)] True in \<open>auto simp: block_ok_def\<close>)
  have sy': "synced sector has dok ?s'" using c1(2) by (auto simp: synced_def)
  show "coherent sector has dok ?s' H R" using inv' sy' by (simp add: coherent_def)
  show "view sector ?s' = view sector s1"
  proof (intro ext)
    fix dv n
    consider x where "x < blk_count s1" "x \<noteq> b" "b_valid (blk s1 x)" "is_block dv n (blk s1 x)"
      | "b_valid (blk s1 b)" "is_block dv n (blk s1 b)"
      | "\<And>x. x < blk_count s1 \<Longrightarrow> b_valid (blk s1 x) \<Longrightarrow> \<not> is_block dv n (blk s1 x)" by blast
    then show "view sector ?s' dv n = view sector s1 dv n"
    proof cases
      case 1
      then show ?thesis using view_valid [OF c1(1) 1(1,3,4), of sector] view_valid [OF inv', of x dv n sector] by simp
    next
      case 2
      have "\<not> is_block dv n (blk ?s' x)" if "x < blk_count ?s'" "b_valid (blk ?s' x)" for x
        using that cache_inv_unique [OF c1(1) _ b1(1) _ 2(2), of x] by (auto split: if_splits)
      then show ?thesis
        using view_none [of ?s' dv n sector] view_valid [OF c1(1) b1(1) 2, of sector] c1(2) b1(1) True 2
        by (auto simp: synced_def is_block_def)
    next
      case 3
      have "\<not> is_block dv n (blk ?s' x)" if "x < blk_count ?s'" "b_valid (blk ?s' x)" for x
        using that 3 [of x] by (auto split: if_splits)
      then show ?thesis using view_none [of ?s' dv n sector] view_none [of s1 dv n sector] 3 by simp
    qed
  qed
qed

lemma sync_block_works:
  assumes "coherent sector has dok s H R" and "b \<in> set R"
  shows "\<exists>s'. sync_block wr w iv b s = Some s' \<and> coherent sector has dok s' H R \<and> view sector s' = view sector s \<and>
           (w \<longrightarrow> \<not> b_dirty (blk s' b)) \<and> (\<forall>x. x \<noteq> b \<longrightarrow> blk s' x = blk s x) \<and> blk_count s' = blk_count s \<and>
           b_dev (blk s' b) = b_dev (blk s b) \<and> b_refcnt (blk s' b) = b_refcnt (blk s b)"
proof -
  have b: "b < blk_count s" "b_refcnt (blk s b) = 0" using cache_inv_lists(3) [of s H R] assms by (auto simp: coherent_def)
  obtain s1 where s1: "(if w \<and> b_dirty (blk s b) then map_option snd (blk_write wr b s) else Some s) = Some s1"
      "coherent sector has dok s1 H R" "view sector s1 = view sector s" "blk_count s1 = blk_count s"
      "blk s1 = (blk s)(b := (blk s b)\<lparr>b_dirty := b_dirty (blk s b) \<and> \<not> w\<rparr>)"
  proof (cases "w \<and> b_dirty (blk s b)")
    case True
    then show ?thesis using blk_write_works [OF assms(1) b(1)] that by auto
  next
    case False
    then have "(blk s)(b := (blk s b)\<lparr>b_dirty := b_dirty (blk s b) \<and> \<not> w\<rparr>) = blk s" by (auto simp: fun_eq_iff)
    then show ?thesis using that [of s] False assms(1) by auto
  qed
  show ?thesis
  proof (cases "iv \<and> \<not> b_dirty (blk s1 b)")
    case False
    then show ?thesis using s1 by (auto simp: sync_block_def)
  next
    case True
    let ?s' = "upd_blk b (b_valid_update (\<lambda>_. False)) s1"
    have b1: "b < blk_count s1" "b_refcnt (blk s1 b) = 0" using b s1(4,5) by auto
    show ?thesis using True s1 invalidate_works [OF s1(2) b1]
      by (intro exI [of _ ?s']) (auto simp: sync_block_def)
  qed
qed

text \<open>A loop that synchronises the buffers of \<open>bs\<close> that satisfy \<open>P\<close>.\<close>

lemma sync_loop_works:
  assumes "coherent sector has dok s H R" and "set bs \<subseteq> set R"
    and "\<And>b s. step b s = (if P (b_dev (blk s b)) then sync_block wr w iv b s else Some s)"
  shows "\<exists>s'. iter_opt step bs s = Some s' \<and> coherent sector has dok s' H R \<and> view sector s' = view sector s \<and>
           blk_count s' = blk_count s \<and> (\<forall>x. b_dev (blk s' x) = b_dev (blk s x) \<and> b_refcnt (blk s' x) = b_refcnt (blk s x)) \<and>
           (\<forall>x. x \<notin> set bs \<longrightarrow> blk s' x = blk s x) \<and> (w \<longrightarrow> (\<forall>x. \<not> b_dirty (blk s x) \<longrightarrow> \<not> b_dirty (blk s' x))) \<and>
           (w \<longrightarrow> (\<forall>x \<in> set bs. P (b_dev (blk s x)) \<longrightarrow> \<not> b_dirty (blk s' x)))"
  using assms(1,2)
proof (induction bs arbitrary: s)
  case Nil
  then show ?case by simp
next
  case (Cons b bs)
  have "b \<in> set R" using Cons.prems(2) by simp
  then obtain s1 where s1: "step b s = Some s1" "coherent sector has dok s1 H R" "view sector s1 = view sector s"
      "blk_count s1 = blk_count s" "\<forall>x. x \<noteq> b \<longrightarrow> blk s1 x = blk s x"
      "b_dev (blk s1 b) = b_dev (blk s b)" "b_refcnt (blk s1 b) = b_refcnt (blk s b)"
      "w \<longrightarrow> P (b_dev (blk s b)) \<longrightarrow> \<not> b_dirty (blk s1 b)" "w \<longrightarrow> \<not> b_dirty (blk s b) \<longrightarrow> \<not> b_dirty (blk s1 b)"
  proof (cases "P (b_dev (blk s b))")
    case True
    obtain s1 where "sync_block wr w iv b s = Some s1" "coherent sector has dok s1 H R" "view sector s1 = view sector s"
        "blk_count s1 = blk_count s" "\<forall>x. x \<noteq> b \<longrightarrow> blk s1 x = blk s x" "b_dev (blk s1 b) = b_dev (blk s b)"
        "b_refcnt (blk s1 b) = b_refcnt (blk s b)" "w \<longrightarrow> \<not> b_dirty (blk s1 b)"
      using sync_block_works [OF Cons.prems(1) \<open>b \<in> set R\<close>, of w iv] by blast
    then show ?thesis using that [of s1] True unfolding assms(3) by simp
  next
    case False
    then show ?thesis using that [of s] Cons.prems(1) unfolding assms(3) by simp
  qed
  have o: "b_dev (blk s1 x) = b_dev (blk s x)" "b_refcnt (blk s1 x) = b_refcnt (blk s x)" for x
    using s1(5-7) by (cases "x = b"; simp)+
  obtain s' where s': "iter_opt step bs s1 = Some s'" "coherent sector has dok s' H R" "view sector s' = view sector s1"
      "blk_count s' = blk_count s1" "\<forall>x. b_dev (blk s' x) = b_dev (blk s1 x) \<and> b_refcnt (blk s' x) = b_refcnt (blk s1 x)"
      "\<forall>x. x \<notin> set bs \<longrightarrow> blk s' x = blk s1 x" "w \<longrightarrow> (\<forall>x. \<not> b_dirty (blk s1 x) \<longrightarrow> \<not> b_dirty (blk s' x))"
      "w \<longrightarrow> (\<forall>x \<in> set bs. P (b_dev (blk s1 x)) \<longrightarrow> \<not> b_dirty (blk s' x))"
    using Cons.IH [OF s1(2)] Cons.prems(2) by auto
  have "\<not> b_dirty (blk s' x)" if "w" "x \<in> set (b # bs)" "P (b_dev (blk s x))" for x
    using that s'(7,8) s1(8) o by (cases "x = b") auto
  moreover have "\<not> b_dirty (blk s' x)" if "w" "\<not> b_dirty (blk s x)" for x
    using that s'(7) s1(5,9) by (cases "x = b") auto
  ultimately show ?case using s1(1,3-5) s' o by auto
qed

lemma lru_walk:
  assumes "coherent sector has dok s H R"
  shows "list_walk (i_next (blk_lru s)) (l_first (blk_lru s) ()) = Some R"
  using list_walk_lrep [OF lists_rep_lrep [OF cache_inv_lists(2), of s H R "()"]] assms by (simp add: coherent_def)

lemma blk_syncdev_works:
  assumes "coherent sector has dok s H R"
  shows "\<exists>s'. blk_syncdev wr dev True iv s = Some s' \<and> coherent sector has dok s' H R \<and> view sector s' = view sector s \<and>
           (\<forall>nr. (\<forall>x < blk_count s. is_block dev nr (blk s x) \<longrightarrow> b_refcnt (blk s x) = 0) \<longrightarrow>
              sector (disk s') dev nr = view sector s dev nr)"
proof -
  let ?step = "\<lambda>b s. if b_dev (blk s b) = Some dev then sync_block wr True iv b s else Some s"
  obtain s' where s': "iter_opt ?step R s = Some s'" "coherent sector has dok s' H R" "view sector s' = view sector s"
      "blk_count s' = blk_count s" "\<forall>x. b_dev (blk s' x) = b_dev (blk s x) \<and> b_refcnt (blk s' x) = b_refcnt (blk s x)"
      "\<forall>x. x \<notin> set R \<longrightarrow> blk s' x = blk s x" "\<forall>x \<in> set R. b_dev (blk s x) = Some dev \<longrightarrow> \<not> b_dirty (blk s' x)"
    using sync_loop_works [OF assms subset_refl, of ?step "\<lambda>d. d = Some dev" True iv] by auto
  have ci: "cache_inv s' H R" "synced sector has dok s'" using s'(2) by (auto simp: coherent_def)
  have R: "set R = {x. x < blk_count s \<and> b_refcnt (blk s x) = 0}" using cache_inv_lists(3) [of s H R] assms by (simp add: coherent_def)
  have "sector (disk s') dev nr = view sector s dev nr"
    if free: "\<forall>x < blk_count s. is_block dev nr (blk s x) \<longrightarrow> b_refcnt (blk s x) = 0" for nr
  proof (cases "\<exists>x < blk_count s'. b_valid (blk s' x) \<and> is_block dev nr (blk s' x)")
    case True
    then obtain x where x: "x < blk_count s'" "b_valid (blk s' x)" "is_block dev nr (blk s' x)" by blast
    have "x \<in> set R"
    proof (rule ccontr)
      assume "x \<notin> set R"
      then show False using R s'(4,6) free x by auto
    qed
    then have "\<not> b_dirty (blk s' x)" using s'(5,7) x(3) by (auto simp: is_block_def)
    then have "b_data (blk s' x) = sector (disk s') dev nr" using ci(2) x by (auto simp: synced_def is_block_def)
    then show ?thesis using view_valid [OF ci(1) x, of sector] s'(3) by simp
  next
    case False
    then show ?thesis using view_none [of s' dev nr sector] s'(3) by auto
  qed
  then show ?thesis using s' lru_walk [OF assms] by (auto simp: blk_syncdev_def)
qed

end

section \<open>Starting and growing\<close>

lemma lists_rep_empty: "(\<And>i. l_first m i = None \<and> l_last m i = None) \<Longrightarrow> lists_rep m (\<lambda>_. [])"
  by (simp add: lists_rep_def lrep_def)

lemma fold_list_init:
  "l_first (fold list_init is m) i = (if i \<in> set is then None else l_first m i)"
  "l_last (fold list_init is m) i = (if i \<in> set is then None else l_last m i)"
  by (induction "is" arbitrary: m) (auto simp: list_init_def)

text \<open>Static storage: every list head is null.\<close>

definition static_lists :: "'d bcache \<Rightarrow> bool" where
  "static_lists s \<longleftrightarrow> (\<forall>i. l_first (blk_lists s) i = None \<and> l_last (blk_lists s) i = None)"

lemma blk_init_inv:
  assumes "static_lists s"
  shows "\<exists>s'. blk_init EZERO EZERO s = Some s' \<and> cache_inv s' ((\<lambda>_. [])(0 := [0..<BLK_NBLK])) [0..<BLK_NBLK] \<and>
           blk_count s' = BLK_NBLK \<and> disk s' = disk s \<and> (\<forall>x < BLK_NBLK. blk s' x = zero_block)"
proof -
  let ?ids = "[0..<BLK_NBLK]"
  have "lists_rep (fold list_init [0..<BLK_NR_LISTS] (blk_lists s)) (\<lambda>_. [])"
    using assms by (intro lists_rep_empty) (simp add: fold_list_init static_lists_def)
  then obtain h where h: "iter_opt (list_app 0) ?ids (fold list_init [0..<BLK_NR_LISTS] (blk_lists s)) = Some h"
      "lists_rep h ((\<lambda>_. [])(0 := [] @ ?ids))"
    using ll.append_all [of _ "\<lambda>_. []" ?ids 0] by auto
  have "lists_rep (list_init () (blk_lru s)) (\<lambda>_. [])" by (intro lists_rep_empty) (simp add: list_init_def)
  then obtain l where l: "iter_opt (list_app ()) ?ids (list_init () (blk_lru s)) = Some l"
      "lists_rep l ((\<lambda>_. [])(() := [] @ ?ids))"
    using ll.append_all [of _ "\<lambda>_. []" ?ids "()"] by auto
  have u: "(\<lambda>_. [])(() := [] @ ?ids) = (\<lambda>_. ?ids)" by (simp add: fun_eq_iff)
  let ?s' = "s\<lparr>blk_lists := h, blk_lru := l, blk := (\<lambda>i. if i < BLK_NBLK then zero_block else blk s i), blk_count := BLK_NBLK\<rparr>"
  have z: "b_refcnt zero_block = 0" "b_nr zero_block = 0" "block_ok zero_block" "\<not> is_block dev nr zero_block" for dev nr
    by (simp_all add: zero_block_def block_ok_def is_block_def)
  have "cache_inv ?s' ((\<lambda>_. [])(0 := ?ids)) ?ids"
    using h(2) l(2) u z unfolding cache_inv_def by (auto split: if_splits)
  moreover have "blk_init EZERO EZERO s = Some ?s'" using h(1) l(1) by (simp add: blk_init_def)
  ultimately show ?thesis by (intro exI [of _ ?s']) simp
qed

lemma prepend_all:
  "lists_rep m (\<lambda>_. R) \<Longrightarrow> distinct bs \<Longrightarrow> set bs \<inter> set R = {} \<Longrightarrow>
   \<exists>m'. iter_opt (list_pre ()) bs m = Some m' \<and> lists_rep m' (\<lambda>_. rev bs @ R)"
proof (induction bs arbitrary: m R)
  case (Cons b bs)
  obtain m1 where m1: "list_pre () b m = Some m1" "lists_rep m1 ((\<lambda>_. R)(() := b # R))"
    using lists_rep_pre [OF Cons.prems(1), of b "()"] Cons.prems(3) by auto
  have "(\<lambda>_. R)(() := b # R) = (\<lambda>_. b # R)" by (simp add: fun_eq_iff)
  then obtain m' where "iter_opt (list_pre ()) bs m1 = Some m'" "lists_rep m' (\<lambda>_. rev bs @ b # R)"
    using Cons.IH [of m1 "b # R"] m1(2) Cons.prems(2,3) by auto
  then show ?case using m1(1) by simp
qed simp

lemma lists_rep_cong:
  assumes "lists_rep m H" and "l_first m' = l_first m" and "l_last m' = l_last m"
    and "\<And>i x. x \<in> set (H i) \<Longrightarrow> i_next m' x = i_next m x \<and> i_prev m' x = i_prev m x"
  shows "lists_rep m' H"
proof -
  have "dseg (i_next m') (i_prev m') p xs e" if "dseg (i_next m) (i_prev m) p xs e" "set xs \<subseteq> set (H i)" for i xs p e
    using that assms(4) by (induction xs arbitrary: p) auto
  then have "dseg (i_next m') (i_prev m') None (H li) None" if "dseg (i_next m) (i_prev m) None (H li) None" for li
    using that by blast
  then show ?thesis using assms(1-3) by (simp add: lists_rep_def lrep_def)
qed

lemma blk_add_inv:
  assumes "cache_inv s H R"
  shows "\<exists>e s' R'. blk_add EZERO EZERO count s = Some (e, s') \<and> cache_inv s' H R' \<and> view sector s' = view sector s \<and>
           disk s' = disk s \<and> blk_count s' = (if int (blk_count s) \<le> count then nat count else blk_count s)"
proof (cases "int (blk_count s) < count")
  case False
  then show ?thesis using assms by (auto simp: blk_add_def)
next
  case True
  let ?new = "[blk_count s..<nat count]"
  note l = cache_inv_lists [OF assms]
  have old: "x < blk_count s" if "x \<in> set (H i)" for x i using cache_inv_listed [OF assms that] by simp
  have "set ?new \<inter> set R = {}" unfolding l(3) by auto
  then obtain m where m: "iter_opt (list_pre ()) ?new (blk_lru s) = Some m" "lists_rep m (\<lambda>_. rev ?new @ R)"
    using prepend_all [OF l(2) distinct_upt] by blast
  define h where "h = (blk_lists s)\<lparr>i_next := (\<lambda>i. if i \<in> set ?new then None else i_next (blk_lists s) i),
      i_prev := (\<lambda>i. if i \<in> set ?new then None else i_prev (blk_lists s) i)\<rparr>"
  let ?s' = "s\<lparr>blk_lru := m, blk := (\<lambda>i. if i \<in> set ?new then zero_block else blk s i), blk_lists := h, blk_count := nat count\<rparr>"
  have add: "blk_add EZERO EZERO count s = Some (EZERO, ?s')"
    using True m(1) unfolding h_def by (simp add: blk_add_def Let_def)
  have h: "lists_rep h H" by (rule lists_rep_cong [OF l(1)]) (auto simp: h_def dest: old)
  have z: "b_refcnt zero_block = 0" "block_ok zero_block" "\<not> is_block dev nr zero_block" "\<not> b_valid zero_block" for dev nr
    by (simp_all add: zero_block_def block_ok_def is_block_def)
  have cnt: "nat count > blk_count s" using True by simp
  have bl: "blk ?s' x = (if x < blk_count s then blk s x else zero_block)" if "x < nat count" for x using that by auto
  have inv': "cache_inv ?s' H (rev ?new @ R)"
    unfolding cache_inv_def
  proof (intro conjI allI impI ballI)
    show "lists_rep (blk_lists ?s') H" "lists_rep (blk_lru ?s') (\<lambda>_. rev ?new @ R)" using h m(2) by simp_all
  next
    fix i x assume "x \<in> set (H i)"
    then show "x < blk_count ?s'" "b_nr (blk ?s' x) mod BLK_NR_LISTS = i" using cache_inv_listed [OF assms, of x i] cnt by auto
  next
    fix x assume "x < blk_count ?s'" "\<forall>i. x \<notin> set (H i)"
    then show "i_next (blk_lists ?s') x = None" "i_prev (blk_lists ?s') x = None" "b_refcnt (blk ?s' x) = 0" "\<not> b_valid (blk ?s' x)"
      using cache_inv_unlisted [OF assms, of x] z by (auto simp: h_def)
  next
    show "set (rev ?new @ R) = {x. x < blk_count ?s' \<and> b_refcnt (blk ?s' x) = 0}"
      unfolding set_append l(3) using z cnt by auto
  next
    fix x assume "x < blk_count ?s'"
    then show "block_ok (blk ?s' x)" using cache_inv_block [OF assms] z by auto
  next
    fix x y dv n assume "x < blk_count ?s'" "y < blk_count ?s'" "is_block dv n (blk ?s' x)" "is_block dv n (blk ?s' y)"
    then show "x = y" using cache_inv_unique [OF assms, of x y dv n] z(3) by (auto split: if_splits)
  qed
  moreover have "view sector ?s' = view sector s"
  proof (intro ext)
    fix dv n
    show "view sector ?s' dv n = view sector s dv n"
    proof (cases "\<exists>x < blk_count s. b_valid (blk s x) \<and> is_block dv n (blk s x)")
      case True
      then obtain x where x: "x < blk_count s" "b_valid (blk s x)" "is_block dv n (blk s x)" by blast
      have "view sector ?s' dv n = b_data (blk ?s' x)" by (rule view_valid [OF inv']) (use x cnt in auto)
      then show ?thesis using view_valid [OF assms x, of sector] x(1) by simp
    next
      case False
      have "view sector ?s' dv n = sector (disk ?s') dv n" by (rule view_none) (use False z in auto)
      moreover have "view sector s dv n = sector (disk s) dv n" by (rule view_none) (use False in auto)
      ultimately show ?thesis by simp
    qed
  qed
  ultimately show ?thesis using add True by (intro exI [of _ EZERO] exI [of _ ?s'] exI [of _ "rev ?new @ R"]) simp
qed

section \<open>The cache is transparent\<close>

text \<open>
  C24: Reading a block through the cache never panics. Whenever the block is in a buffer or some buffer is free, it returns a
  buffer that holds exactly what the block contains (the last bytes written to it, or else what the device
  holds), without changing the contents of any block, not even of the one whose buffer is taken away; otherwise
  it fails with \<^verbatim>\<open>ENOMEM\<close> and changes nothing. The invariant of the cache, in particular that no block is in two
  buffers, is kept.
\<close>

theorem blk_read_transparent:
  assumes "block_driver rd wr sector has dok" and "coherent sector has dok s H R" and "has (disk s) dev nr"
  shows "if (\<exists>x < blk_count s. is_block dev nr (blk s x)) \<or> R \<noteq> []
         then \<exists>b s' H' R'. blk_read rd wr dev nr s = Some (Inr b, s') \<and> coherent sector has dok s' H' R' \<and>
                view sector s' = view sector s \<and> b_valid (blk s' b) \<and> b_data (blk s' b) = view sector s dev nr \<and>
                b_refcnt (blk s' b) = b_refcnt (blk s b) + 1
         else blk_read rd wr dev nr s = Some (Inl ENOMEM, s)"
proof (cases "(\<exists>x < blk_count s. is_block dev nr (blk s x)) \<or> R \<noteq> []")
  case True
  then show ?thesis using block_driver.blk_read_works [OF assms True] by auto
next
  case False
  then show ?thesis
    using block_driver.blk_get_nomem [OF assms(1), of s H dev nr] assms(2) by (auto simp: blk_read_def)
qed

text \<open>
  C25: A write through the cache changes exactly the bytes written: afterwards, reading any range of any block returns the
  written bytes where they overlap it and the old ones elsewhere, whichever buffers are
  written back or reused in between. The write leaves as many buffers free as it found.
\<close>

theorem blk_write_then_read:
  assumes "block_driver rd wr sector has dok" and "coherent sector has dok s H R" and "R \<noteq> []"
    and "has (disk s) dev nr" and "off + length buf \<le> BLK_SIZE"
    and "has (disk s) dev' nr'" and "off' + len' \<le> BLK_SIZE"
  shows "\<exists>s1 H1 R1 s2 H2 R2. blk_pwrite rd wr dev nr off buf s = Some (EZERO, s1) \<and> coherent sector has dok s1 H1 R1 \<and>
           set R1 = set R \<and>
           blk_pread rd wr dev' nr' off' len' s1 = Some (Inr (take len' (drop off'
              (if dev' = dev \<and> nr' = nr then memcpy_in (view sector s dev nr) off buf else view sector s dev' nr'))), s2) \<and>
           coherent sector has dok s2 H2 R2 \<and> view sector s2 = view sector s1"
proof -
  obtain s1 H1 R1 where s1: "blk_pwrite rd wr dev nr off buf s = Some (EZERO, s1)" "coherent sector has dok s1 H1 R1"
      "has (disk s1) = has (disk s)" "blk_count s1 = blk_count s" "\<forall>x. b_refcnt (blk s1 x) = b_refcnt (blk s x)"
      "view sector s1 = (view sector s)(dev := (view sector s dev)(nr := memcpy_in (view sector s dev nr) off buf))"
    using block_driver.blk_pwrite_works [OF assms(1,2,4) _ assms(5)] assms(3) by blast
  have R: "set R1 = set R"
    using cache_inv_lists(3) [of s1 H1 R1] cache_inv_lists(3) [of s H R] assms(2) s1(2,4,5) by (simp add: coherent_def)
  then have "R1 \<noteq> []" using assms(3) by auto
  then obtain s2 H2 R2 where
      "blk_pread rd wr dev' nr' off' len' s1 = Some (Inr (take len' (drop off' (view sector s1 dev' nr'))), s2)"
      "coherent sector has dok s2 H2 R2" "view sector s2 = view sector s1"
    using block_driver.blk_pread_works [OF assms(1) s1(2) _ _ assms(7), of dev' nr'] assms(6) s1(3) by auto
  then show ?thesis using s1(1,2,6) R
    by (intro exI [of _ s1] exI [of _ H1] exI [of _ R1] exI [of _ s2] exI [of _ H2] exI [of _ R2]) auto
qed

text \<open>
  Synchronising a device never panics and changes the contents of no block, and afterwards the device itself holds
  the contents of each of its blocks that nobody is using.
\<close>

theorem blk_sync_flushes:
  assumes "block_driver rd wr sector has dok" and "coherent sector has dok s H R"
  shows "\<exists>s'. blk_syncdev wr dev True invalidate s = Some s' \<and> coherent sector has dok s' H R \<and>
           view sector s' = view sector s \<and>
           (\<forall>nr. (\<forall>x < blk_count s. is_block dev nr (blk s x) \<longrightarrow> b_refcnt (blk s x) = 0) \<longrightarrow>
              sector (disk s') dev nr = view sector s dev nr)"
  by (rule block_driver.blk_syncdev_works [OF assms])

text \<open>
  A device that has been installed is found under its name, and every other name finds what it found before;
  taking the device out again makes its name unknown and restores the table.
\<close>

theorem blk_install_find:
  assumes "blk_install dev s = (EZERO, s1)"
  shows "blk_find (bd_name (bdevs s dev)) s1 = Inr dev \<and>
         (\<forall>name. name \<noteq> bd_name (bdevs s dev) \<longrightarrow> blk_find name s1 = blk_find name s) \<and>
         (\<exists>s2. blk_uinstall dev s1 = Some (EZERO, s2) \<and> blk_dev s2 = blk_dev s \<and> blk_find (bd_name (bdevs s dev)) s2 = Inl ENODEV)"
proof -
  let ?nm = "\<lambda>name i. case blk_dev s i of None \<Rightarrow> False | Some d \<Rightarrow> bd_name (bdevs s d) = name"
  obtain i where i: "List.find (\<lambda>i. blk_dev s i = None) [0..<BLK_MAXDEV] = Some i"
      and fresh: "\<forall>j < BLK_MAXDEV. \<not> ?nm (bd_name (bdevs s dev)) j"
      and s1: "s1 = (upd_bdev dev (\<lambda>d. d\<lparr>read_cnt := 0, write_cnt := 0, error_cnt := 0, bd_refcnt := 0\<rparr>) s)
                      \<lparr>blk_dev := (blk_dev s)(i := Some dev)\<rparr>"
    using assms by (auto simp: blk_install_def split: if_splits option.splits)
  have i': "i < BLK_MAXDEV" "blk_dev s i = None" using i unfolding find_upt_Some_iff by blast+
  have nm: "(case blk_dev s1 j of None \<Rightarrow> False | Some d \<Rightarrow> bd_name (bdevs s1 d) = name) \<longleftrightarrow>
      (if j = i then bd_name (bdevs s dev) = name else ?nm name j)" for j name
    unfolding s1 by (auto simp: upd_bdev_def split: option.splits)
  have "List.find (\<lambda>j. if j = i then bd_name (bdevs s dev) = bd_name (bdevs s dev) else ?nm (bd_name (bdevs s dev)) j) [0..<BLK_MAXDEV] = Some i"
    unfolding find_upt_Some_iff using i' fresh by fastforce
  then have 1: "blk_find (bd_name (bdevs s dev)) s1 = Inr dev"
    unfolding blk_find_def nm by (simp add: s1)
  have 2: "blk_find name s1 = blk_find name s" if "name \<noteq> bd_name (bdevs s dev)" for name
  proof -
    have "List.find (\<lambda>j. if j = i then bd_name (bdevs s dev) = name else ?nm name j) [0..<BLK_MAXDEV] = List.find (?nm name) [0..<BLK_MAXDEV]"
      using that i'(2) by (intro find_cong) auto
    moreover have "List.find (?nm name) [0..<BLK_MAXDEV] = Some j \<Longrightarrow> j \<noteq> i" for j
      using i'(2) unfolding find_upt_Some_iff by auto
    ultimately show ?thesis unfolding blk_find_def nm by (auto simp: s1 split: option.splits)
  qed
  have "blk_dev s j \<noteq> Some dev" if "j < BLK_MAXDEV" for j using fresh that by (auto dest!: spec [of _ j])
  then have "List.find (\<lambda>j. blk_dev s1 j = Some dev) [0..<BLK_MAXDEV] = Some i"
    unfolding find_upt_Some_iff using i' by (auto simp: s1)
  then have 3: "blk_uinstall dev s1 = Some (EZERO, s1\<lparr>blk_dev := blk_dev s\<rparr>)"
    using i'(2) by (simp add: blk_uinstall_def s1 upd_bdev_def fun_upd_idem)
  have "blk_find (bd_name (bdevs s dev)) (s1\<lparr>blk_dev := blk_dev s\<rparr>) = Inl ENODEV"
  proof -
    have e: "(case blk_dev (s1\<lparr>blk_dev := blk_dev s\<rparr>) j of None \<Rightarrow> False
              | Some d \<Rightarrow> bd_name (bdevs (s1\<lparr>blk_dev := blk_dev s\<rparr>) d) = bd_name (bdevs s dev)) \<longleftrightarrow> ?nm (bd_name (bdevs s dev)) j" for j
      by (auto simp: s1 upd_bdev_def split: option.splits)
    have "List.find (?nm (bd_name (bdevs s dev))) [0..<BLK_MAXDEV] = None" unfolding find_upt_None_iff using fresh .
    then show ?thesis unfolding blk_find_def e by simp
  qed
  then show ?thesis using 1 2 3 by auto
qed

text \<open>
  \<^verbatim>\<open>blk_write\<close> marks a buffer as clean before it knows whether the driver could write it, and \<^verbatim>\<open>blk_get\<close> ignores
  the error: when the write of a reused buffer fails, its data are lost without a trace.
\<close>

lemma blk_get_loses_data:
  assumes "cache_inv s H (b # R)" and "b_dirty (blk s b)" and "b_dev (blk s b) = Some dev0"
    and "wr dev0 (b_nr (blk s b)) (b_data (blk s b)) (disk s) = Some (EIO, disk s)"
    and "\<And>x. x < blk_count s \<Longrightarrow> \<not> is_block dev nr (blk s x)"
  shows "\<exists>s'. blk_get wr dev nr s = Some (Inr b, s') \<and> \<not> b_dirty (blk s' b) \<and> disk s' = disk s"
proof -
  have b: "b < blk_count s" using cache_inv_lists(3) [OF assms(1)] by auto
  have v: "b_valid (blk s b)" using cache_inv_block [OF assms(1) b] assms(2) by (simp add: block_ok_def)
  obtain r where r: "list_search (i_next (blk_lists s)) (\<lambda>b. is_block dev nr (blk s b)) (blk_count s)
        (l_first (blk_lists s) (nr mod BLK_NR_LISTS)) = Some r"
      "case r of Some b \<Rightarrow> b < blk_count s \<and> is_block dev nr (blk s b) | None \<Rightarrow> \<forall>x < blk_count s. \<not> is_block dev nr (blk s x)"
    using cache_search [OF assms(1)] by blast
  have "r = None" using r(2) assms(5) by (auto split: option.splits)
  moreover have "l_first (blk_lru s) () = Some b"
    using lrep_first [OF lists_rep_lrep [OF cache_inv_lists(2) [OF assms(1)], of "()"]] by simp
  moreover obtain h where "list_pre (nr mod BLK_NR_LISTS) b (list_rm (b_nr (blk s b) mod BLK_NR_LISTS) b (blk_lists s)) = Some h"
    using rehash_lists [OF assms(1) b] by blast
  ultimately show ?thesis
    using r(1) assms(2-4) v by (simp add: blk_get_def blk_write_def Let_def)
qed

end
