(* ===== verification/Block_Use.thy ===== *)
theory Block_Use
  imports Block_Cache
begin

text \<open>
  The block cache as its clients see it. A client holds buffers and lets go of them; what it relies on is that the
  contents of the blocks (\<open>view\<close>) change only by what is stored, that the buffers it holds stay its own, and that nobody's
  references are lost.
\<close>

definition refs :: "'d bcache \<Rightarrow> nat \<Rightarrow> int" where
  "refs s x = b_refcnt (blk s x)"

definition free_bufs :: "'d bcache \<Rightarrow> nat set" where
  "free_bufs s = {x. x < blk_count s \<and> refs s x = 0}"

definition nfree :: "'d bcache \<Rightarrow> nat" where
  "nfree s = card (free_bufs s)"

definition ready ::
    "('d \<Rightarrow> nat \<Rightarrow> nat \<Rightarrow> 8 word list) \<Rightarrow> ('d \<Rightarrow> nat \<Rightarrow> nat \<Rightarrow> bool) \<Rightarrow> ('d \<Rightarrow> bool) \<Rightarrow> 'd bcache \<Rightarrow> bool" where
  "ready sector has dok s \<longleftrightarrow> (\<exists>H R. coherent sector has dok s H R)"

text \<open>The caller holds the buffer \<open>b\<close> of a block: it is in use and has the contents of the block.\<close>

definition held :: "'d bcache \<Rightarrow> nat \<Rightarrow> nat \<Rightarrow> nat \<Rightarrow> bool" where
  "held s b dev nr \<longleftrightarrow> b < blk_count s \<and> refs s b > 0 \<and> is_block dev nr (blk s b) \<and> b_valid (blk s b)"

text \<open>Buffers in use stay buffers of the same block.\<close>

definition buf_kept :: "'d bcache \<Rightarrow> 'd bcache \<Rightarrow> bool" where
  "buf_kept s s' \<longleftrightarrow> blk_count s' = blk_count s \<and>
     (\<forall>x. refs s x > 0 \<longrightarrow> b_dev (blk s' x) = b_dev (blk s x) \<and> b_nr (blk s' x) = b_nr (blk s x) \<and>
        (b_valid (blk s x) \<longrightarrow> b_valid (blk s' x)))"

text \<open>An operation that lets go of every buffer it takes.\<close>

definition quiet ::
    "('d \<Rightarrow> nat \<Rightarrow> nat \<Rightarrow> 8 word list) \<Rightarrow> ('d \<Rightarrow> nat \<Rightarrow> nat \<Rightarrow> bool) \<Rightarrow> ('d \<Rightarrow> bool) \<Rightarrow> 'd bcache \<Rightarrow> 'd bcache \<Rightarrow> bool" where
  "quiet sector has dok s s' \<longleftrightarrow> ready sector has dok s' \<and> buf_kept s s' \<and> refs s' = refs s \<and> has (disk s') = has (disk s)"

lemma buf_kept_refl [simp]: "buf_kept s s"
  by (simp add: buf_kept_def)

lemma quiet_refl: "ready sector has dok s \<Longrightarrow> quiet sector has dok s s"
  by (simp add: quiet_def)

lemma buf_kept_trans: "buf_kept s s1 \<Longrightarrow> buf_kept s1 s2 \<Longrightarrow> (\<And>x. refs s x > 0 \<Longrightarrow> refs s1 x > 0) \<Longrightarrow> buf_kept s s2"
  by (simp add: buf_kept_def)

lemma quiet_trans: "quiet sector has dok s s1 \<Longrightarrow> quiet sector has dok s1 s2 \<Longrightarrow> quiet sector has dok s s2"
  using buf_kept_trans [of s s1 s2] by (simp add: quiet_def)

lemma quiet_ready: "quiet sector has dok s s' \<Longrightarrow> ready sector has dok s'"
  by (simp add: quiet_def)

lemma quiet_has: "quiet sector has dok s s' \<Longrightarrow> has (disk s') = has (disk s)"
  by (simp add: quiet_def)

lemma quiet_nfree: "quiet sector has dok s s' \<Longrightarrow> nfree s' = nfree s"
  by (simp add: quiet_def buf_kept_def nfree_def free_bufs_def)

lemma finite_free_bufs [simp]: "finite (free_bufs s)"
  by (simp add: free_bufs_def)

lemma nfree_drop:
  assumes "blk_count s' = blk_count s" and "refs s' = (refs s)(b := r)"
  shows "nfree s \<le> nfree s' + 1"
proof -
  have "free_bufs s \<subseteq> insert b (free_bufs s')" using assms by (auto simp: free_bufs_def)
  then have "card (free_bufs s) \<le> card (insert b (free_bufs s'))" by (intro card_mono) simp_all
  also have "\<dots> \<le> card (free_bufs s') + 1" by (simp add: card_insert_if)
  finally show ?thesis by (simp add: nfree_def)
qed

lemma held_quiet: "held s b dev nr \<Longrightarrow> quiet sector has dok s s' \<Longrightarrow> held s' b dev nr"
  by (auto simp: held_def quiet_def buf_kept_def refs_def is_block_def fun_eq_iff)

lemma held_data:
  assumes "ready sector has dok s" and "held s b dev nr"
  shows "b_data (blk s b) = view sector s dev nr"
proof -
  obtain H R where "cache_inv s H R" using assms(1) by (auto simp: ready_def coherent_def)
  then show ?thesis using assms(2) view_valid [of s H R b dev nr sector] by (simp add: held_def)
qed

lemma held_length: "ready sector has dok s \<Longrightarrow> held s b dev nr \<Longrightarrow> length (b_data (blk s b)) = BLK_SIZE"
  using cache_inv_block by (fastforce simp: ready_def coherent_def held_def block_ok_def)

lemma ready_free:
  assumes "coherent sector has dok s H R" and "nfree s > 0"
  shows "R \<noteq> []"
proof -
  have "set R = free_bufs s" using assms(1) cache_inv_lists(3) [of s H R] by (simp add: coherent_def free_bufs_def refs_def)
  then show ?thesis using assms(2) by (auto simp: nfree_def)
qed

context block_driver
begin

lemma use_get:
  assumes "ready sector has dok s" and "nfree s > 0"
  shows "\<exists>b s'. blk_get wr dev nr s = Some (Inr b, s') \<and> ready sector has dok s' \<and> view sector s' = view sector s \<and>
           has (disk s') = has (disk s) \<and> buf_kept s s' \<and> refs s b \<ge> 0 \<and> refs s' = (refs s)(b := refs s b + 1) \<and>
           b < blk_count s' \<and> is_block dev nr (blk s' b)"
proof -
  obtain H R where c: "coherent sector has dok s H R" using assms(1) by (auto simp: ready_def)
  obtain b s' H' R' where s': "blk_get wr dev nr s = Some (Inr b, s')" "coherent sector has dok s' H' R'"
      "view sector s' = view sector s" "has (disk s') = has (disk s)" "blk_count s' = blk_count s" "b < blk_count s"
      "is_block dev nr (blk s' b)" "b_refcnt (blk s' b) = b_refcnt (blk s b) + 1" "b_refcnt (blk s b) \<ge> 0"
      "\<forall>x. x \<noteq> b \<longrightarrow> blk s' x = blk s x"
      "b_refcnt (blk s b) > 0 \<longrightarrow> is_block dev nr (blk s b) \<and> b_valid (blk s' b) = b_valid (blk s b)"
    using blk_get_works [OF c disjI2 [OF ready_free [OF c assms(2)]], of dev nr] by blast
  have "buf_kept s s'" unfolding buf_kept_def refs_def
  proof (intro conjI allI impI)
    fix x assume x: "b_refcnt (blk s x) > 0"
    show "b_dev (blk s' x) = b_dev (blk s x)" "b_nr (blk s' x) = b_nr (blk s x)"
      using x s'(7,10,11) by (cases "x = b"; simp add: is_block_def)+
    show "b_valid (blk s' x)" if "b_valid (blk s x)" using that x s'(10,11) by (cases "x = b") simp_all
  qed (rule s'(5))
  moreover have "refs s' = (refs s)(b := refs s b + 1)" using s'(8,10) by (auto simp: refs_def fun_eq_iff)
  ultimately show ?thesis using s' by (auto simp: ready_def refs_def)
qed

lemma use_read:
  assumes "ready sector has dok s" and "nfree s > 0" and "has (disk s) dev nr"
  shows "\<exists>b s'. blk_read rd wr dev nr s = Some (Inr b, s') \<and> ready sector has dok s' \<and> view sector s' = view sector s \<and>
           has (disk s') = has (disk s) \<and> buf_kept s s' \<and> refs s b \<ge> 0 \<and> refs s' = (refs s)(b := refs s b + 1) \<and> held s' b dev nr"
proof -
  obtain H R where c: "coherent sector has dok s H R" using assms(1) by (auto simp: ready_def)
  obtain b s' H' R' where s': "blk_read rd wr dev nr s = Some (Inr b, s')" "coherent sector has dok s' H' R'"
      "view sector s' = view sector s" "has (disk s') = has (disk s)" "blk_count s' = blk_count s" "b < blk_count s"
      "is_block dev nr (blk s' b)" "b_refcnt (blk s' b) = b_refcnt (blk s b) + 1" "b_refcnt (blk s b) \<ge> 0"
      "\<forall>x. x \<noteq> b \<longrightarrow> blk s' x = blk s x" "b_refcnt (blk s b) > 0 \<longrightarrow> is_block dev nr (blk s b)" "b_valid (blk s' b)"
    using blk_read_works [OF c assms(3) disjI2 [OF ready_free [OF c assms(2)]]] by blast
  have "buf_kept s s'" unfolding buf_kept_def refs_def
  proof (intro conjI allI impI)
    fix x assume x: "b_refcnt (blk s x) > 0"
    show "b_dev (blk s' x) = b_dev (blk s x)" "b_nr (blk s' x) = b_nr (blk s x)"
      using x s'(7,10,11) by (cases "x = b"; simp add: is_block_def)+
    show "b_valid (blk s' x)" if "b_valid (blk s x)" using that s'(10,12) by (cases "x = b") simp_all
  qed (rule s'(5))
  moreover have "refs s' = (refs s)(b := refs s b + 1)" using s'(8,10) by (auto simp: refs_def fun_eq_iff)
  moreover have "held s' b dev nr" using s'(5-9,12) by (simp add: held_def refs_def)
  ultimately show ?thesis using s' by (auto simp: ready_def refs_def)
qed

lemma use_put:
  assumes "ready sector has dok s" and "b < blk_count s" and "refs s b > 0"
  shows "\<exists>s'. blk_put (Some b) s = Some s' \<and> ready sector has dok s' \<and> view sector s' = view sector s \<and>
           has (disk s') = has (disk s) \<and> buf_kept s s' \<and> refs s' = (refs s)(b := refs s b - 1)"
proof -
  obtain H R where c: "coherent sector has dok s H R" using assms(1) by (auto simp: ready_def)
  obtain s' R' where "blk_put (Some b) s = Some s'" "coherent sector has dok s' H R'" "view sector s' = view sector s"
      "blk s' = (blk s)(b := (blk s b)\<lparr>b_refcnt := b_refcnt (blk s b) - 1\<rparr>)" "disk s' = disk s" "blk_count s' = blk_count s"
    using blk_put_works [OF c assms(2)] assms(3) by (auto simp: refs_def)
  then show ?thesis by (auto simp: ready_def buf_kept_def refs_def fun_eq_iff)
qed

text \<open>Storing into a buffer that has been obtained, before it is let go.\<close>

lemma use_store:
  assumes "ready sector has dok s" and "has (disk s) dev nr" and "b < blk_count s" and "is_block dev nr (blk s b)"
    and "refs s b > 0" and "length data = BLK_SIZE"
  defines "s' \<equiv> upd_blk b (\<lambda>v. v\<lparr>b_data := data, b_dirty := True, b_valid := True\<rparr>) s"
  shows "quiet sector has dok s s'" and "view sector s' = (view sector s)(dev := (view sector s dev)(nr := data))"
    and "held s' b dev nr"
proof -
  obtain H R where "coherent sector has dok s H R" using assms(1) by (auto simp: ready_def)
  then have ci: "cache_inv s H R" and sy: "synced sector has dok s" by (auto simp: coherent_def)
  have ci': "cache_inv s' H R" unfolding s'_def
    by (rule cache_inv_upd [OF ci assms(3)])
      (use cache_inv_block [OF ci assms(3)] assms(4-6) in \<open>auto simp: block_ok_def is_block_def\<close>)
  moreover have "synced sector has dok s'" using sy assms(2,4) unfolding s'_def by (auto simp: synced_def is_block_def)
  moreover have "buf_kept s s'" "refs s' = refs s" "disk s' = disk s" unfolding s'_def by (auto simp: buf_kept_def refs_def fun_eq_iff)
  ultimately show "quiet sector has dok s s'" by (auto simp: quiet_def ready_def coherent_def)
  show "view sector s' = (view sector s)(dev := (view sector s dev)(nr := data))" unfolding s'_def
    using view_upd [OF ci ci' [unfolded s'_def] assms(3,4), of sector] assms(4) by (simp add: is_block_def)
  show "held s' b dev nr" using assms(3-5) unfolding s'_def by (auto simp: held_def refs_def is_block_def)
qed

lemma use_pread:
  assumes "ready sector has dok s" and "nfree s > 0" and "has (disk s) dev nr" and "off + len \<le> BLK_SIZE"
  shows "\<exists>s'. blk_pread rd wr dev nr off len s = Some (Inr (take len (drop off (view sector s dev nr))), s') \<and>
           quiet sector has dok s s' \<and> view sector s' = view sector s"
proof -
  obtain b s1 where s1: "blk_read rd wr dev nr s = Some (Inr b, s1)" "ready sector has dok s1" "view sector s1 = view sector s"
      "has (disk s1) = has (disk s)" "buf_kept s s1" "refs s b \<ge> 0" "refs s1 = (refs s)(b := refs s b + 1)" "held s1 b dev nr"
    using use_read [OF assms(1-3)] by blast
  obtain s2 where s2: "blk_put (Some b) s1 = Some s2" "ready sector has dok s2" "view sector s2 = view sector s1"
      "has (disk s2) = has (disk s1)" "buf_kept s1 s2" "refs s2 = (refs s1)(b := refs s1 b - 1)"
    using use_put [OF s1(2), of b] s1(8) by (auto simp: held_def)
  have "blk_pread rd wr dev nr off len s = Some (Inr (take len (drop off (view sector s dev nr))), s2)"
    using s1(1) s2(1) assms(4) held_data [OF s1(2,8)] s1(3) by (simp add: blk_pread_def)
  moreover have "buf_kept s s2" by (rule buf_kept_trans [OF s1(5) s2(5)]) (use s1(7) in \<open>auto split: if_splits\<close>)
  then have "quiet sector has dok s s2" using s1(4,7) s2(2,4,6) by (simp add: quiet_def)
  ultimately show ?thesis using s1(3) s2(3) by auto
qed

lemma view_length:
  assumes "ready sector has dok s" and "has (disk s) dev nr"
  shows "length (view sector s dev nr) = BLK_SIZE"
proof -
  obtain H R where c: "cache_inv s H R" "synced sector has dok s" using assms(1) by (auto simp: ready_def coherent_def)
  show ?thesis
  proof (cases "\<exists>x < blk_count s. b_valid (blk s x) \<and> is_block dev nr (blk s x)")
    case True
    then obtain x where x: "x < blk_count s" "b_valid (blk s x)" "is_block dev nr (blk s x)" by blast
    show ?thesis using view_valid [OF c(1) x, of sector] cache_inv_block [OF c(1) x(1)] by (simp add: block_ok_def)
  next
    case False
    then have "view sector s dev nr = sector (disk s) dev nr" by (intro view_none) auto
    then show ?thesis using sector_length c(2) assms(2) by (simp add: synced_def)
  qed
qed

text \<open>Taking a buffer without reading it, filling it and letting it go.\<close>

lemma use_fill:
  assumes "ready sector has dok s" and "nfree s > 0" and "has (disk s) dev nr" and "length data = BLK_SIZE"
  shows "\<exists>b s1 s2. blk_get wr dev nr s = Some (Inr b, s1) \<and> length (b_data (blk s1 b)) = BLK_SIZE \<and>
           blk_put (Some b) (upd_blk b (\<lambda>v. v\<lparr>b_data := data, b_dirty := True, b_valid := True\<rparr>) s1) = Some s2 \<and>
           quiet sector has dok s s2 \<and> view sector s2 = (view sector s)(dev := (view sector s dev)(nr := data))"
proof -
  obtain b s1 where s1: "blk_get wr dev nr s = Some (Inr b, s1)" "ready sector has dok s1" "view sector s1 = view sector s"
      "has (disk s1) = has (disk s)" "buf_kept s s1" "refs s b \<ge> 0" "refs s1 = (refs s)(b := refs s b + 1)" "b < blk_count s1"
      "is_block dev nr (blk s1 b)"
    using use_get [OF assms(1,2)] by blast
  have r: "refs s1 b > 0" "has (disk s1) dev nr" using s1(4,6,7) assms(3) by simp_all
  let ?s = "upd_blk b (\<lambda>v. v\<lparr>b_data := data, b_dirty := True, b_valid := True\<rparr>) s1"
  note st = use_store [OF s1(2) r(2) s1(8,9) r(1) assms(4)]
  obtain s2 where s2: "blk_put (Some b) ?s = Some s2" "ready sector has dok s2" "view sector s2 = view sector ?s"
      "has (disk s2) = has (disk ?s)" "buf_kept ?s s2" "refs s2 = (refs ?s)(b := refs ?s b - 1)"
    using use_put [OF quiet_ready [OF st(1)], of b] st(3) by (auto simp: held_def)
  have q: "buf_kept s1 ?s" "refs ?s = refs s1" "has (disk ?s) = has (disk s1)" using st(1) by (simp_all add: quiet_def)
  have "buf_kept s s2"
    by (rule buf_kept_trans [OF buf_kept_trans [OF s1(5) q(1)] s2(5)]) (use s1(7) q(2) in \<open>auto split: if_splits\<close>)
  then have "quiet sector has dok s s2" using s1(4,7) s2(2,4,6) q(2,3) by (simp add: quiet_def)
  moreover have "length (b_data (blk s1 b)) = BLK_SIZE"
    using s1(2,8) cache_inv_block by (fastforce simp: ready_def coherent_def block_ok_def)
  moreover have "view sector s2 = (view sector s)(dev := (view sector s dev)(nr := data))" using s2(3) st(2) s1(3) by simp
  ultimately show ?thesis using s1(1) s2(1) by blast
qed

lemma use_pwrite_block:
  assumes "ready sector has dok s" and "nfree s > 0" and "has (disk s) dev nr" and "length buf = BLK_SIZE"
  shows "\<exists>s'. blk_pwrite rd wr dev nr 0 buf s = Some (EZERO, s') \<and> quiet sector has dok s s' \<and>
           view sector s' = (view sector s)(dev := (view sector s dev)(nr := buf))"
proof -
  obtain b s1 s2 where s: "blk_get wr dev nr s = Some (Inr b, s1)" "length (b_data (blk s1 b)) = BLK_SIZE"
      "blk_put (Some b) (upd_blk b (\<lambda>v. v\<lparr>b_data := buf, b_dirty := True, b_valid := True\<rparr>) s1) = Some s2"
      "quiet sector has dok s s2" "view sector s2 = (view sector s)(dev := (view sector s dev)(nr := buf))"
    using use_fill [OF assms] by blast
  have "upd_blk b (\<lambda>v. v\<lparr>b_data := memcpy_in (b_data v) 0 buf, b_dirty := True, b_valid := True\<rparr>) s1 =
      upd_blk b (\<lambda>v. v\<lparr>b_data := buf, b_dirty := True, b_valid := True\<rparr>) s1"
    using s(2) assms(4) by (simp add: upd_blk_def memcpy_in_def)
  then show ?thesis using s assms(4) by (auto simp: blk_pwrite_def)
qed

end

end
