(* ===== verification/Nat_Bam.thy ===== *)
theory Nat_Bam
  imports Block_Use
begin

text \<open>
  The native file system: numbers stored in a block, and the map of the blocks in use (\<^verbatim>\<open>kern/fs/nat/bmap.c\<close>,
  \<^verbatim>\<open>main.c\<close>, \<^verbatim>\<open>mount.c\<close>).

  \<open>nat_fs\<close> is the part \<^verbatim>\<open>nat\<close> of \<^verbatim>\<open>struct fs\<close>; the operations work on it and on the block cache of \<open>Block_Cache\<close>.
  One block of the map at a time is in the buffer \<open>bam_buf\<close>. Arithmetic on block numbers is modulo \<open>2 ^ 32\<close>.
\<close>

unbundle bit_operations_syntax

section \<open>Numbers in a block\<close>

definition le32 :: "8 word list \<Rightarrow> nat \<Rightarrow> 32 word" where
  "le32 bs k = ucast (bs ! (4 * k)) OR push_bit 8 (ucast (bs ! (4 * k + 1))) OR
               push_bit 16 (ucast (bs ! (4 * k + 2))) OR push_bit 24 (ucast (bs ! (4 * k + 3)))"

definition put32 :: "nat \<Rightarrow> 32 word \<Rightarrow> 8 word list \<Rightarrow> 8 word list" where
  "put32 k w bs = memcpy_in bs (4 * k) [ucast w, ucast (drop_bit 8 w), ucast (drop_bit 16 w), ucast (drop_bit 24 w)]"

lemma length_put32 [simp]: "4 * k + 4 \<le> length bs \<Longrightarrow> length (put32 k w bs) = length bs"
  unfolding put32_def by (intro length_memcpy_in) simp

lemma nth_put32:
  assumes "4 * k + 4 \<le> length bs" and "j < length bs"
  shows "put32 k w bs ! j = (if 4 * k \<le> j \<and> j < 4 * k + 4 then ucast (drop_bit (8 * (j - 4 * k)) w) else bs ! j)"
proof -
  have "[ucast w, ucast (drop_bit 8 w), ucast (drop_bit 16 w), ucast (drop_bit 24 w)] ! i = (ucast (drop_bit (8 * i) w) :: 8 word)"
    if "i < 4" for i using that by (auto simp: less_Suc_eq numeral_eq_Suc)
  then show ?thesis unfolding put32_def using assms by (subst nth_memcpy_in) auto
qed

lemma bit8_high: "8 \<le> n \<Longrightarrow> \<not> bit x n" for x :: "8 word"
  using bit_imp_le_length [of x n] by auto

lemma bit_le32: "bit (le32 bs k) n \<longleftrightarrow> n < 32 \<and> bit (bs ! (4 * k + n div 8)) (n mod 8)"
proof (cases "n < 32")
  case True
  define q where "q = n div 8"
  define r where "r = n mod 8"
  have r: "r < 8" by (simp add: r_def)
  have n: "n = 8 * q + r" by (simp add: q_def r_def)
  have o: "bit (le32 bs k) n \<longleftrightarrow> (\<exists>j < 4. 8 * j \<le> n \<and> bit (bs ! (4 * k + j)) (n - 8 * j))"
  proof -
    have ex4: "(\<exists>j < 4. P j) \<longleftrightarrow> P 0 \<or> P 1 \<or> P 2 \<or> P 3" for P :: "nat \<Rightarrow> bool"
      by (auto simp: less_Suc_eq numeral_eq_Suc)
    show ?thesis unfolding ex4 le32_def using True by (auto simp: bit_or_iff bit_push_bit_iff bit_unsigned_iff)
  qed
  have "8 * j \<le> n \<and> bit (bs ! (4 * k + j)) (n - 8 * j) \<longleftrightarrow> j = q \<and> bit (bs ! (4 * k + q)) r" for j
  proof (cases "j = q")
    case False
    then have "8 * j \<le> n \<Longrightarrow> n - 8 * j \<ge> 8" using n r by arith
    then show ?thesis using False bit8_high by blast
  qed (simp add: n)
  moreover have "q < 4" using True n by simp
  ultimately show ?thesis using True o unfolding q_def r_def by auto
qed (auto dest: bit_imp_le_length)

lemma le32_put32:
  assumes "4 * k + 4 \<le> length bs" and "4 * j + 4 \<le> length bs"
  shows "le32 (put32 k w bs) j = (if j = k then w else le32 bs j)"
proof (rule bit_word_eqI)
  fix n assume "n < LENGTH(32)"
  then have n: "n < 32" "n div 8 < 4" by simp_all
  then have "put32 k w bs ! (4 * j + n div 8) = (if j = k then ucast (drop_bit (8 * (n div 8)) w) else bs ! (4 * j + n div 8))"
    using assms by (subst nth_put32) auto
  then show "bit (le32 (put32 k w bs) j) n = bit (if j = k then w else le32 bs j) n"
    using n by (simp add: bit_le32 bit_simps)
qed

section \<open>State and operations\<close>

record nat_fs =
  bam_block :: nat
  bam_size :: nat
  data_block :: nat
  data_size :: nat
  root_block :: nat
  free_block :: nat
  bam_buf :: "8 word list"
  bam_curr :: nat
  bam_dirty :: bool
  fs_ndirblks :: nat
  fs_nindirlev :: nat

type_synonym 'd nat_res = "(errno \<times> nat_fs \<times> 'd bcache) option"

definition nat_sync_bam :: "'d drv_read \<Rightarrow> 'd drv_write \<Rightarrow> nat \<Rightarrow> nat_fs \<Rightarrow> 'd bcache \<Rightarrow> 'd nat_res" where
  "nat_sync_bam rd wr dev f s =
     (if \<not> bam_dirty f then Some (EZERO, f, s)
      else do {
        (e, s1) \<leftarrow> blk_pwrite rd wr dev (bam_curr f) 0 (bam_buf f) s;
        Some (e, f\<lparr>bam_dirty := False\<rparr>, s1)
      })"

definition nat_switch_bam :: "'d drv_read \<Rightarrow> 'd drv_write \<Rightarrow> nat \<Rightarrow> nat \<Rightarrow> nat_fs \<Rightarrow> 'd bcache \<Rightarrow> 'd nat_res" where
  "nat_switch_bam rd wr dev nr f s =
     (if nr = bam_curr f then Some (EZERO, f, s)
      else do {
        (_, f1, s1) \<leftarrow> nat_sync_bam rd wr dev f s;
        (r, s2) \<leftarrow> blk_pread rd wr dev nr 0 BLK_SIZE s1;
        (case r of
           Inl e \<Rightarrow> Some (e, f1\<lparr>bam_curr := 0\<rparr>, s2)
         | Inr buf \<Rightarrow> Some (EZERO, f1\<lparr>bam_buf := buf, bam_curr := nr\<rparr>, s2))
      })"

definition bam_nr :: "nat \<Rightarrow> nat_fs \<Rightarrow> nat" where
  "bam_nr i f = (bam_block f + i) mod 2 ^ 32"

definition nat_read_bam ::
    "'d drv_read \<Rightarrow> 'd drv_write \<Rightarrow> nat \<Rightarrow> nat \<Rightarrow> nat_fs \<Rightarrow> 'd bcache \<Rightarrow> ((errno + bool) \<times> nat_fs \<times> 'd bcache) option" where
  "nat_read_bam rd wr dev nr f s = do {
     (e, f1, s1) \<leftarrow> nat_switch_bam rd wr dev (bam_nr (nr div BLK_SIZE div 8) f) f s;
     if e \<noteq> EZERO then Some (Inl e, f1, s1)
     else Some (Inr (bam_buf f1 ! ((nr div 8) mod BLK_SIZE) AND push_bit (nr mod 8) 1 \<noteq> 0), f1, s1)
   }"

definition nat_write_bam :: "'d drv_read \<Rightarrow> 'd drv_write \<Rightarrow> nat \<Rightarrow> nat \<Rightarrow> bool \<Rightarrow> nat_fs \<Rightarrow> 'd bcache \<Rightarrow> 'd nat_res" where
  "nat_write_bam rd wr dev nr bused f s = do {
     (e, f1, s1) \<leftarrow> nat_switch_bam rd wr dev (bam_nr (nr div BLK_SIZE div 8) f) f s;
     if e \<noteq> EZERO then Some (e, f1, s1)
     else
       let mask = NOT (push_bit (nr mod 8) 1);
           val = push_bit (nr mod 8) (if bused then 1 else 0);
           i = (nr div 8) mod BLK_SIZE
       in Some (EZERO, f1\<lparr>bam_buf := (bam_buf f1)[i := (bam_buf f1 ! i AND mask) OR val], bam_dirty := True\<rparr>, s1)
   }"

text \<open>The loop that counts the ones at the low end of a word.\<close>

function low_ones :: "32 word \<Rightarrow> nat \<Rightarrow> nat" where
  "low_ones w n = (if w AND 1 \<noteq> 0 then low_ones (drop_bit 1 w) (n + 1) else n)"
  by auto

termination low_ones
proof (relation "measure (\<lambda>(w, n). unat w)")
  fix w :: "32 word" and n :: nat
  assume "w AND 1 \<noteq> 0"
  then have "unat w > 0" by (auto simp: unat_gt_0)
  then show "((drop_bit 1 w, n + 1), w, n) \<in> measure (\<lambda>(w, n). unat w)" by (simp add: unat_div drop_bit_Suc)
qed simp

declare low_ones.simps [simp del]

fun balloc_loop :: "'d drv_read \<Rightarrow> 'd drv_write \<Rightarrow> nat \<Rightarrow> nat list \<Rightarrow> nat_fs \<Rightarrow> 'd bcache \<Rightarrow> ((errno + nat) \<times> nat_fs \<times> 'd bcache) option" where
  "balloc_loop rd wr dev [] f s = Some (Inl ENOSPC, f, s)"
| "balloc_loop rd wr dev (i # is) f s = do {
     (e, f1, s1) \<leftarrow> nat_switch_bam rd wr dev (bam_nr i f) f s;
     if e \<noteq> EZERO then Some (Inl e, f1, s1)
     else (case List.find (\<lambda>k. le32 (bam_buf f1) k \<noteq> 0xffffffff) [0..<BLK_SIZE div 4] of
             None \<Rightarrow> balloc_loop rd wr dev is f1 s1
           | Some k \<Rightarrow>
               let w = le32 (bam_buf f1) k; bn = low_ones w 0
               in Some (Inr ((bn + 4 * k * 8 + i * BLK_SIZE * 8) mod 2 ^ 32),
                        f1\<lparr>bam_buf := put32 k (w OR push_bit (bn mod 32) 1) (bam_buf f1), bam_dirty := True\<rparr>, s1))
   }"

definition nat_balloc :: "'d drv_read \<Rightarrow> 'd drv_write \<Rightarrow> nat \<Rightarrow> nat_fs \<Rightarrow> 'd bcache \<Rightarrow> ((errno + nat) \<times> nat_fs \<times> 'd bcache) option" where
  "nat_balloc rd wr dev f s = balloc_loop rd wr dev [data_block f div BLK_SIZE div 8..<bam_size f] f s"

definition nat_bfree :: "'d drv_read \<Rightarrow> 'd drv_write \<Rightarrow> nat \<Rightarrow> nat \<Rightarrow> nat_fs \<Rightarrow> 'd bcache \<Rightarrow> 'd nat_res" where
  "nat_bfree rd wr dev nr f s =
     nat_write_bam rd wr dev nr False (if free_block f > nr then f\<lparr>free_block := nr\<rparr> else f) s"

definition nat_sync :: "'d drv_read \<Rightarrow> 'd drv_write \<Rightarrow> nat \<Rightarrow> nat_fs \<Rightarrow> 'd bcache \<Rightarrow> 'd nat_res" where
  "nat_sync rd wr dev f s = nat_sync_bam rd wr dev f s"

definition popcnt :: "32 word \<Rightarrow> 32 word" where
  "popcnt v0 =
     (let v1 = (v0 AND 0x55555555) + drop_bit 1 (v0 AND 0xaaaaaaaa);
          v2 = (v1 AND 0x33333333) + drop_bit 2 (v1 AND 0xcccccccc);
          v3 = (v2 AND 0x0f0f0f0f) + drop_bit 4 (v2 AND 0xf0f0f0f0);
          v4 = (v3 AND 0x00ff00ff) + drop_bit 8 (v3 AND 0xff00ff00)
      in (v4 AND 0x0000ffff) + drop_bit 16 (v4 AND 0xffff0000))"

record statfs =
  blk_total :: nat
  blk_free :: nat

fun statfs_loop :: "'d drv_read \<Rightarrow> 'd drv_write \<Rightarrow> nat \<Rightarrow> nat list \<Rightarrow> statfs \<Rightarrow> nat_fs \<Rightarrow> 'd bcache \<Rightarrow> ((errno + statfs) \<times> nat_fs \<times> 'd bcache) option" where
  "statfs_loop rd wr dev [] st f s = Some (Inr st, f, s)"
| "statfs_loop rd wr dev (i # is) st f s = do {
     (e, f1, s1) \<leftarrow> nat_switch_bam rd wr dev (bam_nr i f) f s;
     if e \<noteq> EZERO then Some (Inl e, f1, s1)
     else statfs_loop rd wr dev is
            (fold (\<lambda>k st. if le32 (bam_buf f1) k = 0xffffffff then st
                          else st\<lparr>blk_free := (blk_free st + unat (popcnt (NOT (le32 (bam_buf f1) k)))) mod 2 ^ 32\<rparr>) [0..<BLK_SIZE div 4] st) f1 s1
   }"

definition nat_statfs :: "'d drv_read \<Rightarrow> 'd drv_write \<Rightarrow> nat \<Rightarrow> nat_fs \<Rightarrow> 'd bcache \<Rightarrow> ((errno + statfs) \<times> nat_fs \<times> 'd bcache) option" where
  "nat_statfs rd wr dev f s = statfs_loop rd wr dev [0..<bam_size f] \<lparr>blk_total = data_size f, blk_free = 0\<rparr> f s"

text \<open>
  The super block: the magic string and its terminator, five numbers, the two bytes of the layout of files, and the word \<^verbatim>\<open>dirty\<close>.
\<close>

definition NAT_MAGIC :: "8 word list" where
  "NAT_MAGIC = map (\<lambda>c. of_char c) ''BE32ULF'' @ [0]"

definition sb_load :: "8 word list \<Rightarrow> nat_fs \<Rightarrow> nat_fs" where
  "sb_load sb f =
     f\<lparr>bam_block := unat (le32 sb 2), bam_size := unat (le32 sb 3), data_block := unat (le32 sb 4),
       data_size := unat (le32 sb 5), root_block := unat (le32 sb 6), free_block := unat (le32 sb 4),
       bam_curr := 0, bam_dirty := False, fs_ndirblks := unat (sb ! 28), fs_nindirlev := unat (sb ! 29)\<rparr>"

text \<open>Setting the word \<^verbatim>\<open>dirty\<close> in the buffer \<open>b\<close> of the super block and writing it; errors of the write are ignored.\<close>

definition sb_dirty :: "'d drv_write \<Rightarrow> 32 word \<Rightarrow> nat \<Rightarrow> 'd bcache \<Rightarrow> 'd bcache option" where
  "sb_dirty wr v b s = map_option snd (blk_write wr b (upd_blk b (\<lambda>u. u\<lparr>b_data := put32 8 v (b_data u), b_dirty := True\<rparr>) s))"

definition nat_mount :: "'d drv_read \<Rightarrow> 'd drv_write \<Rightarrow> nat \<Rightarrow> bool \<Rightarrow> nat_fs \<Rightarrow> 'd bcache \<Rightarrow> 'd nat_res" where
  "nat_mount rd wr dev read_only f s = do {
     (r, s1) \<leftarrow> blk_read rd wr dev 1 s;
     (case r of
        Inl e \<Rightarrow> Some (e, f, s1)
      | Inr sbb \<Rightarrow>
          let sb = b_data (blk s1 sbb)
          in if take 8 sb \<noteq> NAT_MAGIC then do { s2 \<leftarrow> blk_put (Some sbb) s1; Some (EINVAL, f, s2) }
             else do {
               s2 \<leftarrow> (if \<not> read_only then sb_dirty wr 1 sbb s1 else Some s1);
               s3 \<leftarrow> blk_put (Some sbb) s2;
               Some (EZERO, sb_load sb f, s3)
             })
   }"

definition nat_umount :: "'d drv_read \<Rightarrow> 'd drv_write \<Rightarrow> nat \<Rightarrow> bool \<Rightarrow> nat_fs \<Rightarrow> 'd bcache \<Rightarrow> 'd nat_res" where
  "nat_umount rd wr dev read_only f s =
     (if read_only then Some (EZERO, f, s)
      else do {
        (_, f1, s1) \<leftarrow> nat_sync_bam rd wr dev f s;
        (r, s2) \<leftarrow> blk_read rd wr dev 1 s1;
        (case r of
           Inl e \<Rightarrow> Some (EZERO, f1, s2)
         | Inr sbb \<Rightarrow> do {
             s3 \<leftarrow> sb_dirty wr 0 sbb s2;
             s4 \<leftarrow> blk_put (Some sbb) s3;
             Some (EZERO, f1, s4)
           })
      })"

section \<open>Bits of the map\<close>

lemma and_bit_zero_iff: "w AND push_bit n 1 \<noteq> 0 \<longleftrightarrow> bit w n" for w :: "'a :: len word"
  by (simp add: bit_iff_and_push_bit_not_eq_0)

lemmas and_power_zero_iff = and_bit_zero_iff [simplified]

lemma low_ones_spec:
  "(\<exists>m. \<not> bit w m \<and> m < 32) \<Longrightarrow>
   \<exists>m < 32. low_ones w n = n + m \<and> \<not> bit w m \<and> (\<forall>j < m. bit w j)"
proof (induction w n rule: low_ones.induct)
  case (1 w n)
  show ?case
  proof (cases "bit w 0")
    case True
    then have odd: "w AND 1 \<noteq> 0" using and_bit_zero_iff [of w 0] by simp
    obtain m where m: "\<not> bit w m" "m < 32" using "1.prems" by blast
    then have "m > 0" using True by (cases m) auto
    then have "\<not> bit (drop_bit 1 w) (m - 1)" "m - 1 < 32" using m by (auto simp: bit_drop_bit_eq)
    then obtain k where k: "k < 32" "low_ones (drop_bit 1 w) (n + 1) = n + 1 + k" "\<not> bit (drop_bit 1 w) k"
        "\<forall>j < k. bit (drop_bit 1 w) j"
      using "1.IH" [OF odd] by blast
    have all: "bit w j" if "j < Suc k" for j using k(4) True that by (cases j) (auto simp: bit_drop_bit_eq)
    have "Suc k < 32"
    proof (rule ccontr)
      assume "\<not> Suc k < 32"
      then have "bit w m" using all [of m] m(2) k(1) by simp
      then show False using m(1) by simp
    qed
    then show ?thesis using k all odd
      by (intro exI [of _ "Suc k"]) (simp add: low_ones.simps [of w] bit_drop_bit_eq)
  next
    case False
    then have "w AND 1 = 0" using and_bit_zero_iff [of w 0] by simp
    then show ?thesis using False by (intro exI [of _ 0]) (simp add: low_ones.simps [of w])
  qed
qed

lemma all_ones_iff: "w = 0xffffffff \<longleftrightarrow> (\<forall>m < 32. bit w m)" for w :: "32 word"
proof -
  have m: "(0xffffffff :: 32 word) = mask 32" by (simp add: mask_eq_exp_minus_1)
  show ?thesis unfolding m by (auto simp: bit_mask_iff intro!: bit_word_eqI)
qed

section \<open>Counting bits\<close>

text \<open>
  One step of \<^verbatim>\<open>popcnt\<close> adds neighbouring fields of \<open>m\<close> bits into fields of \<open>2 m\<close> bits: the sum of the digits in
  base \<open>2 ^ m\<close> becomes the sum of the digits in base \<open>2 ^ (2 * m)\<close>.
\<close>

fun digit_sum :: "nat \<Rightarrow> nat \<Rightarrow> nat \<Rightarrow> nat" where
  "digit_sum b 0 v = 0"
| "digit_sum b (Suc k) v = v mod b + digit_sum b k (v div b)"

fun field_mask :: "nat \<Rightarrow> nat \<Rightarrow> nat" where
  "field_mask m 0 = 0"
| "field_mask m (Suc k) = (2 ^ m - 1) + 2 ^ (2 * m) * field_mask m k"

lemma field_mask_numeral:
  "field_mask m (numeral k) = (2 ^ m - 1) + 2 ^ (2 * m) * field_mask m (pred_numeral k)"
  by (simp add: numeral_eq_Suc)

definition add_fields :: "nat \<Rightarrow> nat \<Rightarrow> nat \<Rightarrow> nat" where
  "add_fields m k v = (v AND field_mask m k) + (v div 2 ^ m AND field_mask m k)"

lemma and_split:
  fixes a b n :: nat
  shows "a AND b = (a mod 2 ^ n AND b mod 2 ^ n) + 2 ^ n * (a div 2 ^ n AND b div 2 ^ n)"
proof -
  have "a AND b = push_bit n (drop_bit n (a AND b)) + take_bit n (a AND b)" by (rule bits_ident [symmetric])
  also have "\<dots> = push_bit n (drop_bit n a AND drop_bit n b) + (take_bit n a AND take_bit n b)"
    by (simp only: take_bit_and drop_bit_and)
  finally show ?thesis by (simp add: take_bit_eq_mod drop_bit_eq_div push_bit_eq_mult mult.commute)
qed

lemma add_fields_Suc:
  "add_fields m (Suc k) v = (v mod 2 ^ m + v div 2 ^ m mod 2 ^ m) + 2 ^ (2 * m) * add_fields m k (v div 2 ^ (2 * m))"
proof -
  have B: "(2 :: nat) ^ (2 * m) = 2 ^ m * 2 ^ m" by (simp add: power_add [symmetric] mult_2)
  have f: "field_mask m (Suc k) mod 2 ^ (2 * m) = 2 ^ m - 1" "field_mask m (Suc k) div 2 ^ (2 * m) = field_mask m k"
  proof -
    define c :: nat where "c = 2 ^ m - 1"
    have "c < 2 ^ (2 * m)" unfolding c_def by (rule less_le_trans [of _ "2 ^ m"]) simp_all
    then show "field_mask m (Suc k) mod 2 ^ (2 * m) = 2 ^ m - 1" "field_mask m (Suc k) div 2 ^ (2 * m) = field_mask m k"
      unfolding field_mask.simps c_def [symmetric] by simp_all
  qed
  have "x mod 2 ^ (2 * m) AND (2 ^ m - 1) = x mod 2 ^ m" for x :: nat
  proof -
    have "x mod 2 ^ (2 * m) AND (2 ^ m - 1) = take_bit m (x mod 2 ^ (2 * m))"
      by (simp add: take_bit_eq_mask mask_eq_exp_minus_1)
    then show ?thesis by (simp add: take_bit_eq_mod B mod_mult2_eq)
  qed
  then show ?thesis
    unfolding add_fields_def and_split [of _ "field_mask m (Suc k)" "2 * m"] f
    by (simp add: div_mult2_eq [symmetric] B algebra_simps)
qed

lemma digit_sum_add_fields:
  assumes "m > 0"
  shows "digit_sum (2 ^ (2 * m)) k (add_fields m k v) = digit_sum (2 ^ m) (2 * k) v"
proof (induction k arbitrary: v)
  case (Suc k)
  have B: "(2 :: nat) ^ (2 * m) = 2 ^ m * 2 ^ m" by (simp add: power_add [symmetric] mult_2)
  have lt: "v mod 2 ^ m + v div 2 ^ m mod 2 ^ m < 2 ^ (2 * m)"
  proof -
    have "v mod 2 ^ m < 2 ^ m" "v div 2 ^ m mod 2 ^ m < 2 ^ m" by simp_all
    then have "v mod 2 ^ m + v div 2 ^ m mod 2 ^ m < 2 * 2 ^ m" by linarith
    also have "\<dots> \<le> 2 ^ m * 2 ^ m" using assms by (intro mult_right_mono) (simp_all add: self_le_power)
    finally show ?thesis using B by simp
  qed
  have "digit_sum (2 ^ (2 * m)) (Suc k) (add_fields m (Suc k) v) =
      v mod 2 ^ m + v div 2 ^ m mod 2 ^ m + digit_sum (2 ^ (2 * m)) k (add_fields m k (v div 2 ^ (2 * m)))"
    unfolding add_fields_Suc using lt by simp
  also have "\<dots> = digit_sum (2 ^ m) (2 * Suc k) v" unfolding Suc by (simp add: div_mult2_eq B)
  finally show ?case .
qed (simp add: add_fields_def)

lemma digit_sum_bits: "digit_sum 2 k v = card {m. m < k \<and> bit v m}"
proof (induction k arbitrary: v)
  case (Suc k)
  have "{m. m < Suc k \<and> bit v m} = (if odd v then {0} else {}) \<union> Suc ` {m. m < k \<and> bit (v div 2) m}"
    by (auto simp: bit_Suc image_iff less_Suc_eq_0_disj bit_0)
  moreover have "card ((if odd v then {0} else {}) \<union> Suc ` {m. m < k \<and> bit (v div 2) m}) =
      v mod 2 + card {m. m < k \<and> bit (v div 2) m}"
    by (subst card_Un_disjoint) (auto simp: card_image odd_iff_mod_2_eq_one)
  ultimately show ?case using Suc [of "v div 2"] by simp
qed simp

lemma unat_less: "unat x < 2 ^ 32" for x :: "32 word"
proof -
  have "unat x < 2 ^ LENGTH(32)" by (rule unsigned_less)
  then show ?thesis by simp
qed

lemma and_le_nat: "x AND y \<le> y" for x y :: nat
proof -
  have "int (x AND y) \<le> int y" by (simp add: of_nat_and_eq)
  then show ?thesis by simp
qed

lemma unat_add_fields:
  fixes v L H :: "32 word"
  assumes "unat L = field_mask m k" and "unat H div 2 ^ m = field_mask m k" and "2 * field_mask m k < 2 ^ 32"
  shows "unat ((v AND L) + drop_bit m (v AND H)) = add_fields m k (unat v)"
proof -
  have a: "unat (v AND L) = (unat v AND field_mask m k)" by (simp add: unsigned_and_eq assms(1))
  have b: "unat (drop_bit m (v AND H)) = (unat v div 2 ^ m AND field_mask m k)"
  proof -
    have t: "take_bit 32 (unat x) = unat x" for x :: "32 word"
      using unat_less [of x] by (simp add: take_bit_nat_eq_self_iff)
    have "unat (drop_bit m (v AND H)) = drop_bit m (unat v AND unat H)" by (simp add: unsigned_drop_bit_eq unsigned_and_eq t)
    also have "\<dots> = (drop_bit m (unat v) AND drop_bit m (unat H))" by (rule drop_bit_and)
    finally show ?thesis using assms(2) by (simp add: drop_bit_eq_div)
  qed
  have "unat (v AND L) + unat (drop_bit m (v AND H)) < 2 ^ 32"
    unfolding a b using and_le_nat [of "unat v" "field_mask m k"] and_le_nat [of "unat v div 2 ^ m" "field_mask m k"] assms(3)
    by linarith
  then show ?thesis unfolding add_fields_def a [symmetric] b [symmetric] by (simp add: unat_word_ariths)
qed

text \<open>\<^verbatim>\<open>popcnt\<close> counts the bits that are set.\<close>

lemma popcnt_card: "unat (popcnt v) = card {m. m < 32 \<and> bit v m}"
proof -
  have m: "field_mask 1 16 = 0x55555555" "field_mask 2 8 = 0x33333333" "field_mask 4 4 = 0x0f0f0f0f"
      "field_mask 8 2 = 0x00ff00ff" "field_mask 16 1 = 0x0000ffff"
    by (simp_all add: field_mask_numeral)
  have 1: "unat ((v AND 0x55555555) + drop_bit 1 (v AND 0xaaaaaaaa)) = add_fields 1 16 (unat v)" for v :: "32 word"
    by (rule unat_add_fields) (simp_all only: m, simp_all)
  have 2: "unat ((v AND 0x33333333) + drop_bit 2 (v AND 0xcccccccc)) = add_fields 2 8 (unat v)" for v :: "32 word"
    by (rule unat_add_fields) (simp_all only: m, simp_all)
  have 3: "unat ((v AND 0x0f0f0f0f) + drop_bit 4 (v AND 0xf0f0f0f0)) = add_fields 4 4 (unat v)" for v :: "32 word"
    by (rule unat_add_fields) (simp_all only: m, simp_all)
  have 4: "unat ((v AND 0x00ff00ff) + drop_bit 8 (v AND 0xff00ff00)) = add_fields 8 2 (unat v)" for v :: "32 word"
    by (rule unat_add_fields) (simp_all only: m, simp_all)
  have 5: "unat ((v AND 0x0000ffff) + drop_bit 16 (v AND 0xffff0000)) = add_fields 16 1 (unat v)" for v :: "32 word"
    by (rule unat_add_fields) (simp_all only: m, simp_all)
  have "unat (popcnt v) = add_fields 16 1 (add_fields 8 2 (add_fields 4 4 (add_fields 2 8 (add_fields 1 16 (unat v)))))"
    unfolding popcnt_def Let_def 5 4 3 2 1 ..
  moreover have "unat (popcnt v) = digit_sum (2 ^ (2 * 16)) 1 (unat (popcnt v))"
    using unat_less [of "popcnt v"] by simp
  ultimately have "unat (popcnt v) = digit_sum (2 ^ 1) (2 * 16) (unat v)"
    using digit_sum_add_fields [of 16 1] digit_sum_add_fields [of 8 2] digit_sum_add_fields [of 4 4]
      digit_sum_add_fields [of 2 8] digit_sum_add_fields [of 1 16] by simp
  then show ?thesis by (simp add: digit_sum_bits bit_unsigned_iff)
qed

section \<open>The map of the blocks in use\<close>

text \<open>
  The file system's idea of the map: the block in the buffer is as the buffer has it, the others as the cache has
  them. \<open>used\<close> is a bit of the map.
\<close>

type_synonym contents = "nat \<Rightarrow> nat \<Rightarrow> 8 word list"

definition bam_view :: "contents \<Rightarrow> nat \<Rightarrow> nat_fs \<Rightarrow> nat \<Rightarrow> 8 word list" where
  "bam_view V dev f i = (if bam_curr f = bam_block f + i then bam_buf f else V dev (bam_block f + i))"

definition map_bit :: "(nat \<Rightarrow> 8 word list) \<Rightarrow> nat \<Rightarrow> bool" where
  "map_bit M n \<longleftrightarrow> bit (M (n div (BLK_SIZE * 8)) ! (n div 8 mod BLK_SIZE)) (n mod 8)"

definition used :: "contents \<Rightarrow> nat \<Rightarrow> nat_fs \<Rightarrow> nat \<Rightarrow> bool" where
  "used V dev f n = map_bit (bam_view V dev f) n"

definition bam_range :: "nat_fs \<Rightarrow> nat set" where
  "bam_range f = {bam_block f..<bam_block f + bam_size f}"

text \<open>Where the parts of the file system are; no operation but \<^verbatim>\<open>nat_mount\<close> changes it.\<close>

definition geometry :: "nat_fs \<Rightarrow> nat \<times> nat \<times> nat \<times> nat \<times> nat \<times> nat \<times> nat" where
  "geometry f = (bam_block f, bam_size f, data_block f, data_size f, root_block f, fs_ndirblks f, fs_nindirlev f)"

definition bam_ok ::
    "('d \<Rightarrow> nat \<Rightarrow> nat \<Rightarrow> 8 word list) \<Rightarrow> ('d \<Rightarrow> nat \<Rightarrow> nat \<Rightarrow> bool) \<Rightarrow> ('d \<Rightarrow> bool) \<Rightarrow> nat \<Rightarrow> nat_fs \<Rightarrow> 'd bcache \<Rightarrow> bool" where
  "bam_ok sector has dok dev f s \<longleftrightarrow>
     ready sector has dok s \<and> nfree s > 0 \<and> 0 < bam_block f \<and> bam_block f + bam_size f \<le> 2 ^ 32 \<and> bam_size f * (BLK_SIZE * 8) \<le> 2 ^ 32 \<and>
     (\<forall>i < bam_size f. has (disk s) dev (bam_block f + i)) \<and>
     (bam_curr f \<noteq> 0 \<longrightarrow> bam_curr f \<in> bam_range f \<and> length (bam_buf f) = BLK_SIZE \<and>
        (\<not> bam_dirty f \<longrightarrow> bam_buf f = view sector s dev (bam_curr f))) \<and>
     (bam_dirty f \<longrightarrow> bam_curr f \<noteq> 0)"

text \<open>What an operation on the map leaves alone.\<close>

definition bam_step ::
    "('d \<Rightarrow> nat \<Rightarrow> nat \<Rightarrow> 8 word list) \<Rightarrow> ('d \<Rightarrow> nat \<Rightarrow> nat \<Rightarrow> bool) \<Rightarrow> ('d \<Rightarrow> bool) \<Rightarrow> nat \<Rightarrow> nat_fs \<Rightarrow> 'd bcache \<Rightarrow> nat_fs \<Rightarrow> 'd bcache \<Rightarrow> bool" where
  "bam_step sector has dok dev f s f' s' \<longleftrightarrow>
     bam_ok sector has dok dev f' s' \<and> quiet sector has dok s s' \<and> geometry f' = geometry f \<and>
     (\<forall>dv nr. \<not> (dv = dev \<and> nr \<in> bam_range f) \<longrightarrow> view sector s' dv nr = view sector s dv nr)"

lemma bam_step_refl: "bam_ok sector has dok dev f s \<Longrightarrow> bam_step sector has dok dev f s f s"
  by (simp add: bam_step_def bam_ok_def quiet_refl)

lemma geometry_fields:
  assumes "geometry f' = geometry f"
  shows "bam_block f' = bam_block f" "bam_size f' = bam_size f" "data_block f' = data_block f" "data_size f' = data_size f"
    "root_block f' = root_block f" "fs_ndirblks f' = fs_ndirblks f" "fs_nindirlev f' = fs_nindirlev f"
    "bam_range f' = bam_range f"
  using assms by (simp_all add: geometry_def bam_range_def)

lemma bam_stepD:
  assumes "bam_step sector has dok dev f s f' s'"
  shows "bam_ok sector has dok dev f' s'" "quiet sector has dok s s'" "geometry f' = geometry f"
    "\<not> (dv = dev \<and> nr \<in> bam_range f) \<Longrightarrow> view sector s' dv nr = view sector s dv nr"
  using assms unfolding bam_step_def by blast+

lemmas bam_step_geometry = geometry_fields [OF bam_stepD(3)]

lemma bam_step_trans:
  "bam_step sector has dok dev f s f1 s1 \<Longrightarrow> bam_step sector has dok dev f1 s1 f2 s2 \<Longrightarrow> bam_step sector has dok dev f s f2 s2"
  using quiet_trans [of sector has dok s s1 s2] geometry_fields(8) [of f1 f] unfolding bam_step_def by simp

lemma bam_nr_eq: "bam_ok sector has dok dev f s \<Longrightarrow> i < bam_size f \<Longrightarrow> bam_nr i f = bam_block f + i"
  by (simp add: bam_nr_def bam_ok_def)

text \<open>Changing the buffer changes one block of the map.\<close>

lemma buffer_store:
  assumes "bam_ok sector has dok dev f s" and "bam_curr f = bam_block f + i" and "i < bam_size f" and "length buf = BLK_SIZE"
  shows "bam_step sector has dok dev f s (f\<lparr>bam_buf := buf, bam_dirty := True\<rparr>) s"
    and "bam_view V dev (f\<lparr>bam_buf := buf, bam_dirty := True\<rparr>) = (bam_view V dev f)(i := buf)"
  using assms by (auto simp: bam_step_def bam_ok_def bam_range_def geometry_def quiet_refl bam_view_def fun_eq_iff)

text \<open>A number from its digits in two bases; the library's rules for \<open>div\<close> and \<open>mod\<close> do the rest.\<close>

lemma two_digits: "n = n div (B * C) * (B * C) + n div B mod C * B + n mod B" for n B C :: nat
  using div_mult_mod_eq [of n "B * C"] mod_mult2_eq [of n B C] by (simp add: mult.commute)

lemma two_digits_eq_iff:
  "n = m \<longleftrightarrow> n div (B * C) = m div (B * C) \<and> n div B mod C = m div B mod C \<and> n mod B = m mod B" for n m B C :: nat
  by (metis two_digits)

lemma map_bit_words: "map_bit M n = bit (le32 (M (n div (BLK_SIZE * 8))) (n div 32 mod 128)) (n mod 32)"
proof -
  have "n mod 32 div 8 = n div 8 mod 4" using mod_mult2_eq [of n 8 4] by simp
  then have "4 * (n div 32 mod 128) + n mod 32 div 8 = n div 8 mod BLK_SIZE"
    using mod_mult2_eq [of "n div 8" 4 128] by (simp add: div_mult2_eq [symmetric])
  moreover have "n mod 32 mod 8 = n mod 8" by (rule mod_mod_cancel) simp
  ultimately show ?thesis by (simp add: map_bit_def bit_le32)
qed

lemma bam_digits:
  assumes "k < 128" and "m < 32"
  shows "(i * (BLK_SIZE * 8) + k * 32 + m) div (BLK_SIZE * 8) = i" "(i * (BLK_SIZE * 8) + k * 32 + m) div 32 mod 128 = k"
    "(i * (BLK_SIZE * 8) + k * 32 + m) mod 32 = m"
proof -
  let ?n = "i * (BLK_SIZE * 8) + k * 32 + m"
  have "?n div 32 = i * 128 + k" using assms by (intro div_nat_eqI) simp_all
  then show "?n div 32 mod 128 = k" using assms(1) by simp
  show "?n div (BLK_SIZE * 8) = i" using assms by (intro div_nat_eqI) simp_all
  show "?n mod 32 = m" using assms(2) by (simp add: mod_add_eq [symmetric, of _ m])
qed

lemma map_bit_set_word:
  assumes "length (M i) = BLK_SIZE" and "k < 128" and "m < 32"
  shows "map_bit (M(i := put32 k (le32 (M i) k OR push_bit m 1) (M i))) n \<longleftrightarrow> n = i * (BLK_SIZE * 8) + k * 32 + m \<or> map_bit M n"
proof -
  have e: "n = i * (BLK_SIZE * 8) + k * 32 + m \<longleftrightarrow> n div (BLK_SIZE * 8) = i \<and> n div 32 mod 128 = k \<and> n mod 32 = m"
    using two_digits_eq_iff [of n "i * (BLK_SIZE * 8) + k * 32 + m" 32 128] bam_digits [OF assms(2,3), of i] by simp
  have "le32 (put32 k (le32 (M i) k OR push_bit m 1) (M i)) j = (if j = k then le32 (M i) k OR push_bit m 1 else le32 (M i) j)"
    if "j < 128" for j using that assms(1,2) by (intro le32_put32) simp_all
  then show ?thesis unfolding map_bit_words e by (auto simp: bit_simps)
qed

lemma map_bit_store:
  assumes "length (M (nr div (BLK_SIZE * 8))) = BLK_SIZE"
  defines "i \<equiv> nr div (BLK_SIZE * 8)" and "k \<equiv> nr div 8 mod BLK_SIZE"
  shows "map_bit (M(i := (M i)[k := (M i ! k AND NOT (push_bit (nr mod 8) 1)) OR push_bit (nr mod 8) (if v then 1 else 0)])) n \<longleftrightarrow>
         (if n = nr then v else map_bit M n)"
proof -
  have e: "n = nr \<longleftrightarrow> n div (BLK_SIZE * 8) = i \<and> n div 8 mod BLK_SIZE = k \<and> n mod 8 = nr mod 8"
    unfolding i_def k_def using two_digits_eq_iff [of n nr 8 BLK_SIZE] by (simp add: mult.commute)
  have k: "k < length (M i)" using assms(1) by (simp add: k_def i_def)
  have m: "n mod 8 < 8" "nr mod 8 < 8" by simp_all
  show ?thesis
  proof (cases "n div (BLK_SIZE * 8) = i \<and> n div 8 mod BLK_SIZE = k")
    case True
    then show ?thesis unfolding map_bit_def e using k m by (auto simp: bit_simps)
  next
    case False
    then show ?thesis unfolding map_bit_def e by (auto simp: nth_list_update)
  qed
qed

context block_driver
begin

lemma sync_bam_works:
  assumes "bam_ok sector has dok dev f s"
  shows "\<exists>f' s'. nat_sync_bam rd wr dev f s = Some (EZERO, f', s') \<and> bam_step sector has dok dev f s f' s' \<and>
           f' = f\<lparr>bam_dirty := False\<rparr> \<and> (\<forall>i < bam_size f. bam_view (view sector s') dev f' i = bam_view (view sector s) dev f i)"
proof (cases "bam_dirty f")
  case False
  then have "f\<lparr>bam_dirty := False\<rparr> = f" by simp
  then show ?thesis using False bam_step_refl [OF assms] by (simp add: nat_sync_bam_def)
next
  case True
  then have c: "bam_curr f \<in> bam_range f" "length (bam_buf f) = BLK_SIZE" using assms by (auto simp: bam_ok_def)
  then have h: "has (disk s) dev (bam_curr f)"
    using assms by (auto simp: bam_ok_def bam_range_def dest!: spec [of _ "bam_curr f - bam_block f"])
  have r: "ready sector has dok s" "nfree s > 0" using assms by (simp_all add: bam_ok_def)
  obtain s' where s': "blk_pwrite rd wr dev (bam_curr f) 0 (bam_buf f) s = Some (EZERO, s')" "quiet sector has dok s s'"
      "view sector s' = (view sector s)(dev := (view sector s dev)(bam_curr f := bam_buf f))"
    using use_pwrite_block [OF r h c(2)] by blast
  have "bam_ok sector has dok dev (f\<lparr>bam_dirty := False\<rparr>) s'"
    using assms s'(3) quiet_ready [OF s'(2)] quiet_has [OF s'(2)] quiet_nfree [OF s'(2)] c
    by (simp add: bam_ok_def bam_range_def)
  then have "bam_step sector has dok dev f s (f\<lparr>bam_dirty := False\<rparr>) s'"
    using s'(2,3) c(1) by (auto simp: bam_step_def geometry_def)
  then show ?thesis using True s'(1,3) by (simp add: nat_sync_bam_def bam_view_def)
qed

lemma switch_bam_works:
  assumes "bam_ok sector has dok dev f s" and "i < bam_size f"
  shows "\<exists>f' s'. nat_switch_bam rd wr dev (bam_nr i f) f s = Some (EZERO, f', s') \<and> bam_step sector has dok dev f s f' s' \<and>
           bam_curr f' = bam_block f + i \<and> length (bam_buf f') = BLK_SIZE \<and> free_block f' = free_block f \<and>
           (\<forall>j < bam_size f. bam_view (view sector s') dev f' j = bam_view (view sector s) dev f j)"
proof (cases "bam_block f + i = bam_curr f")
  case True
  have "bam_block f > 0" using assms(1) by (simp add: bam_ok_def)
  then have "length (bam_buf f) = BLK_SIZE" using assms(1) True by (auto simp: bam_ok_def)
  then show ?thesis using True bam_step_refl [OF assms(1)] bam_nr_eq [OF assms] by (simp add: nat_switch_bam_def)
next
  case False
  note nr = bam_nr_eq [OF assms]
  obtain f1 s1 where s1: "nat_sync_bam rd wr dev f s = Some (EZERO, f1, s1)" "bam_step sector has dok dev f s f1 s1"
      "f1 = f\<lparr>bam_dirty := False\<rparr>" "\<forall>j < bam_size f. bam_view (view sector s1) dev f1 j = bam_view (view sector s) dev f j"
    using sync_bam_works [OF assms(1)] by blast
  have ok1: "bam_ok sector has dok dev f1 s1" using s1(2) by (simp add: bam_step_def)
  have h: "has (disk s1) dev (bam_block f + i)" using ok1 assms(2) s1(3) by (simp add: bam_ok_def)
  have r: "ready sector has dok s1" "nfree s1 > 0" using ok1 by (simp_all add: bam_ok_def)
  let ?buf = "view sector s1 dev (bam_block f + i)"
  have len: "length ?buf = BLK_SIZE" by (rule view_length [OF r(1) h])
  obtain s2 where s2: "blk_pread rd wr dev (bam_block f + i) 0 BLK_SIZE s1 = Some (Inr ?buf, s2)" "quiet sector has dok s1 s2"
      "view sector s2 = view sector s1"
    using use_pread [OF r h, of 0 BLK_SIZE] len by auto
  let ?f = "f1\<lparr>bam_buf := ?buf, bam_curr := bam_block f + i\<rparr>"
  have "bam_ok sector has dok dev ?f s2"
    using ok1 s1(3) s2(3) quiet_ready [OF s2(2)] quiet_has [OF s2(2)] quiet_nfree [OF s2(2)] len assms(2)
    by (simp add: bam_ok_def bam_range_def)
  then have "bam_step sector has dok dev f1 s1 ?f s2" using s2(2,3) by (simp add: bam_step_def geometry_def)
  then have "bam_step sector has dok dev f s ?f s2" by (rule bam_step_trans [OF s1(2)])
  moreover have "bam_view (view sector s2) dev ?f j = bam_view (view sector s1) dev f1 j" if "j < bam_size f" for j
  proof -
    have "bam_curr f1 = bam_block f1 + j \<Longrightarrow> bam_buf f1 = view sector s1 dev (bam_block f1 + j)"
      using ok1 s1(3) by (auto simp: bam_ok_def)
    then show ?thesis using s1(3) s2(3) by (auto simp: bam_view_def)
  qed
  moreover have "nat_switch_bam rd wr dev (bam_nr i f) f s = Some (EZERO, ?f, s2)"
    using False nr s1(1) s2(1) by (simp add: nat_switch_bam_def)
  ultimately show ?thesis using s1(3,4) len by simp
qed

lemma bam_view_length:
  assumes "bam_ok sector has dok dev f s" and "i < bam_size f"
  shows "length (bam_view (view sector s) dev f i) = BLK_SIZE"
  using assms view_length [of s dev "bam_block f + i"] by (auto simp: bam_view_def bam_ok_def)

lemma read_bam_works:
  assumes "bam_ok sector has dok dev f s" and "nr < bam_size f * (BLK_SIZE * 8)"
  shows "\<exists>f' s'. nat_read_bam rd wr dev nr f s = Some (Inr (used (view sector s) dev f nr), f', s') \<and>
           bam_step sector has dok dev f s f' s' \<and>
           (\<forall>j < bam_size f. bam_view (view sector s') dev f' j = bam_view (view sector s) dev f j)"
proof -
  let ?i = "nr div BLK_SIZE div 8"
  have i: "?i < bam_size f" "?i = nr div (BLK_SIZE * 8)" using assms(2) by (simp_all add: less_mult_imp_div_less flip: div_mult2_eq)
  obtain f' s' where s': "nat_switch_bam rd wr dev (bam_nr ?i f) f s = Some (EZERO, f', s')" "bam_step sector has dok dev f s f' s'"
      "bam_curr f' = bam_block f + ?i" "\<forall>j < bam_size f. bam_view (view sector s') dev f' j = bam_view (view sector s) dev f j"
    using switch_bam_works [OF assms(1) i(1)] by blast
  have "bam_buf f' = bam_view (view sector s) dev f ?i" using s'(3) s'(4) [rule_format, OF i(1)] bam_step_geometry(1) [OF s'(2)] by (simp add: bam_view_def)
  then show ?thesis using s' i(2) by (simp add: nat_read_bam_def used_def map_bit_def and_power_zero_iff)
qed

lemma write_bam_works:
  assumes "bam_ok sector has dok dev f s" and "nr < bam_size f * (BLK_SIZE * 8)"
  shows "\<exists>f' s'. nat_write_bam rd wr dev nr v f s = Some (EZERO, f', s') \<and> bam_step sector has dok dev f s f' s' \<and>
           free_block f' = free_block f \<and>
           (\<forall>n < bam_size f * (BLK_SIZE * 8). used (view sector s') dev f' n \<longleftrightarrow> (if n = nr then v else used (view sector s) dev f n))"
proof -
  let ?i = "nr div BLK_SIZE div 8" and ?k = "nr div 8 mod BLK_SIZE"
  have i: "?i < bam_size f" "?i = nr div (BLK_SIZE * 8)" using assms(2) by (simp_all add: less_mult_imp_div_less flip: div_mult2_eq)
  obtain f1 s1 where s1: "nat_switch_bam rd wr dev (bam_nr ?i f) f s = Some (EZERO, f1, s1)" "bam_step sector has dok dev f s f1 s1"
      "bam_curr f1 = bam_block f + ?i" "length (bam_buf f1) = BLK_SIZE" "free_block f1 = free_block f"
      "\<forall>j < bam_size f. bam_view (view sector s1) dev f1 j = bam_view (view sector s) dev f j"
    using switch_bam_works [OF assms(1) i(1)] by blast
  let ?b = "(bam_buf f1)[?k := (bam_buf f1 ! ?k AND NOT (push_bit (nr mod 8) 1)) OR push_bit (nr mod 8) (if v then 1 else 0)]"
  let ?f = "f1\<lparr>bam_buf := ?b, bam_dirty := True\<rparr>"
  note g = bam_step_geometry(1,2) [OF s1(2)] and ok1 = bam_stepD(1) [OF s1(2)]
  have l: "length ?b = BLK_SIZE" using s1(4) by simp
  note st = buffer_store [OF ok1 s1(3) [folded g(1)] i(1) [folded g(2)] l]
  have "bam_step sector has dok dev f s ?f s1" by (rule bam_step_trans [OF s1(2) st(1)])
  moreover have "used (view sector s1) dev ?f n \<longleftrightarrow> (if n = nr then v else used (view sector s) dev f n)"
    if "n < bam_size f * (BLK_SIZE * 8)" for n
  proof -
    have b: "bam_view (view sector s1) dev f1 ?i = bam_buf f1" using s1(3) g(1) by (simp add: bam_view_def)
    have "n div (BLK_SIZE * 8) < bam_size f" using that by (simp add: less_mult_imp_div_less)
    then have "map_bit (bam_view (view sector s1) dev f1) n = map_bit (bam_view (view sector s) dev f) n"
      using s1(6) by (simp add: map_bit_def)
    then show ?thesis unfolding used_def st(2) using map_bit_store [of "bam_view (view sector s1) dev f1" nr v n] b s1(4) i(2) by simp
  qed
  moreover have "nat_write_bam rd wr dev nr v f s = Some (EZERO, ?f, s1)" using s1(1) by (simp add: nat_write_bam_def Let_def)
  ultimately show ?thesis using s1(5) by simp
qed

lemma used_cong:
  assumes "\<forall>j < bam_size f. bam_view V' dev f' j = bam_view V dev f j" and "n < bam_size f * (BLK_SIZE * 8)"
  shows "used V' dev f' n = used V dev f n"
proof -
  have "n div (BLK_SIZE * 8) < bam_size f" using assms(2) by (simp add: less_mult_imp_div_less)
  then show ?thesis using assms(1) by (simp add: used_def map_bit_def)
qed

text \<open>Searching one block of the map.\<close>

lemma find_free_word:
  assumes "length buf = BLK_SIZE" and "M i = buf"
  shows "case List.find (\<lambda>k. le32 buf k \<noteq> 0xffffffff) [0..<BLK_SIZE div 4] of
           None \<Rightarrow> \<forall>n. n div (BLK_SIZE * 8) = i \<longrightarrow> map_bit M n
         | Some k \<Rightarrow> k < 128 \<and> (\<exists>m < 32. low_ones (le32 buf k) 0 = m \<and> \<not> map_bit M (i * (BLK_SIZE * 8) + k * 32 + m))"
proof (cases "List.find (\<lambda>k. le32 buf k \<noteq> 0xffffffff) [0..<BLK_SIZE div 4]")
  case None
  then have "\<forall>k < 128. le32 buf k = 0xffffffff" unfolding find_upt_None_iff by simp
  then show ?thesis using None assms(2) by (auto simp: map_bit_words all_ones_iff)
next
  case (Some k)
  then have k: "k < 128" "le32 buf k \<noteq> 0xffffffff" unfolding find_upt_Some_iff by simp_all
  then obtain m where m: "m < 32" "low_ones (le32 buf k) 0 = m" "\<not> bit (le32 buf k) m"
    using low_ones_spec [of "le32 buf k" 0] unfolding all_ones_iff by auto
  let ?n = "i * (BLK_SIZE * 8) + k * 32 + m"
  have "\<not> map_bit M ?n" unfolding map_bit_words bam_digits [OF k(1) m(1)] assms(2) by (rule m(3))
  then show ?thesis using Some k(1) m(1,2) by auto
qed

lemma balloc_loop_works:
  "bam_ok sector has dok dev f s \<Longrightarrow> (\<forall>i \<in> set is. i < bam_size f) \<Longrightarrow>
   \<exists>r f' s'. balloc_loop rd wr dev is f s = Some (r, f', s') \<and> bam_step sector has dok dev f s f' s' \<and> free_block f' = free_block f \<and>
     (case r of
        Inl e \<Rightarrow> e = ENOSPC \<and> (\<forall>n. n div (BLK_SIZE * 8) \<in> set is \<longrightarrow> used (view sector s) dev f n) \<and>
          (\<forall>n < bam_size f * (BLK_SIZE * 8). used (view sector s') dev f' n = used (view sector s) dev f n)
      | Inr nr \<Rightarrow> nr div (BLK_SIZE * 8) \<in> set is \<and> \<not> used (view sector s) dev f nr \<and>
          (\<forall>n < bam_size f * (BLK_SIZE * 8). used (view sector s') dev f' n \<longleftrightarrow> n = nr \<or> used (view sector s) dev f n))"
proof (induction "is" arbitrary: f s)
  case Nil
  then show ?case using bam_step_refl by fastforce
next
  case (Cons i "is")
  have i: "i < bam_size f" using Cons.prems(2) by simp
  obtain f1 s1 where s1: "nat_switch_bam rd wr dev (bam_nr i f) f s = Some (EZERO, f1, s1)" "bam_step sector has dok dev f s f1 s1"
      "bam_curr f1 = bam_block f + i" "length (bam_buf f1) = BLK_SIZE" "free_block f1 = free_block f"
      "\<forall>j < bam_size f. bam_view (view sector s1) dev f1 j = bam_view (view sector s) dev f j"
    using switch_bam_works [OF Cons.prems(1) i] by blast
  note g = bam_step_geometry(1,2) [OF s1(2)] and ok1 = bam_stepD(1) [OF s1(2)]
  have cur: "bam_view (view sector s1) dev f1 i = bam_buf f1" using s1(3) g(1) by (simp add: bam_view_def)
  note same = used_cong [OF s1(6)] and ff = find_free_word [of "bam_buf f1" "bam_view (view sector s1) dev f1" i, OF s1(4) cur]
  have in_range: "n < bam_size f * (BLK_SIZE * 8)" if "n div (BLK_SIZE * 8) \<in> set (i # is)" for n
    using Cons.prems(2) that by (simp only: div_less_iff_less_mult [symmetric])
  show ?case
  proof (cases "List.find (\<lambda>k. le32 (bam_buf f1) k \<noteq> 0xffffffff) [0..<BLK_SIZE div 4]")
    case None
    have full: "map_bit (bam_view (view sector s1) dev f1) n" if "n div (BLK_SIZE * 8) = i" for n
      using ff that None by simp
    obtain r f' s' where IH: "balloc_loop rd wr dev is f1 s1 = Some (r, f', s')" "bam_step sector has dok dev f1 s1 f' s'"
        "free_block f' = free_block f1"
        "case r of
           Inl e \<Rightarrow> e = ENOSPC \<and> (\<forall>n. n div (BLK_SIZE * 8) \<in> set is \<longrightarrow> used (view sector s1) dev f1 n) \<and>
             (\<forall>n < bam_size f1 * (BLK_SIZE * 8). used (view sector s') dev f' n = used (view sector s1) dev f1 n)
         | Inr nr \<Rightarrow> nr div (BLK_SIZE * 8) \<in> set is \<and> \<not> used (view sector s1) dev f1 nr \<and>
             (\<forall>n < bam_size f1 * (BLK_SIZE * 8). used (view sector s') dev f' n \<longleftrightarrow> n = nr \<or> used (view sector s1) dev f1 n)"
      using Cons.IH [OF ok1] Cons.prems(2) g(2) by auto
    have "balloc_loop rd wr dev (i # is) f s = Some (r, f', s')" using s1(1) None IH(1) by simp
    moreover have "bam_step sector has dok dev f s f' s'" by (rule bam_step_trans [OF s1(2) IH(2)])
    moreover have "used (view sector s) dev f n" if "n div (BLK_SIZE * 8) = i" for n
      using full [OF that] same [of n] in_range [of n] that by (simp add: used_def)
    ultimately show ?thesis using IH(3,4) s1(5) same g(2) in_range
      by (cases r) (auto intro!: exI [of _ r] exI [of _ f'] exI [of _ s'])
  next
    case (Some k)
    obtain m where m: "k < 128" "m < 32" "low_ones (le32 (bam_buf f1) k) 0 = m"
        "\<not> map_bit (bam_view (view sector s1) dev f1) (i * (BLK_SIZE * 8) + k * 32 + m)"
      using ff Some by auto
    let ?n = "i * (BLK_SIZE * 8) + k * 32 + m"
    let ?b = "put32 k (le32 (bam_buf f1) k OR push_bit m 1) (bam_buf f1)"
    let ?f = "f1\<lparr>bam_buf := ?b, bam_dirty := True\<rparr>"
    have l: "length ?b = BLK_SIZE" using s1(4) m(1) by simp
    note st = buffer_store [OF ok1 s1(3) [folded g(1)] i [folded g(2)] l]
    have nn: "?n < bam_size f * (BLK_SIZE * 8)" by (rule in_range) (simp only: bam_digits [OF m(1,2)], simp)
    then have "?n < 2 ^ 32" using Cons.prems(1) by (simp add: bam_ok_def)
    then have "balloc_loop rd wr dev (i # is) f s = Some (Inr ?n, ?f, s1)"
      using s1(1) Some m(2,3) by (simp add: Let_def algebra_simps)
    moreover have "bam_step sector has dok dev f s ?f s1" by (rule bam_step_trans [OF s1(2) st(1)])
    moreover have "used (view sector s1) dev ?f n \<longleftrightarrow> n = ?n \<or> used (view sector s) dev f n" if "n < bam_size f * (BLK_SIZE * 8)" for n
      using map_bit_set_word [of "bam_view (view sector s1) dev f1" i k m n] same [OF that] s1(4) m(1,2) cur
      unfolding used_def st(2) by simp
    moreover have "\<not> used (view sector s) dev f ?n" using m(4) same [OF nn] by (simp add: used_def)
    ultimately show ?thesis using s1(5) bam_digits(1) [OF m(1,2), of i] by auto
  qed
qed

lemma balloc_works:
  assumes "bam_ok sector has dok dev f s"
  shows "\<exists>r f' s'. nat_balloc rd wr dev f s = Some (r, f', s') \<and> bam_step sector has dok dev f s f' s' \<and>
     (case r of
        Inl e \<Rightarrow> e = ENOSPC \<and>
          (\<forall>n. data_block f \<le> n \<longrightarrow> n < bam_size f * (BLK_SIZE * 8) \<longrightarrow> used (view sector s) dev f n) \<and>
          (\<forall>n < bam_size f * (BLK_SIZE * 8). used (view sector s') dev f' n = used (view sector s) dev f n)
      | Inr nr \<Rightarrow> nr < bam_size f * (BLK_SIZE * 8) \<and> \<not> used (view sector s) dev f nr \<and>
          (\<forall>n < bam_size f * (BLK_SIZE * 8). used (view sector s') dev f' n \<longleftrightarrow> n = nr \<or> used (view sector s) dev f n))"
proof -
  let ?is = "[data_block f div BLK_SIZE div 8..<bam_size f]"
  have is_range: "n div (BLK_SIZE * 8) \<in> set ?is \<longleftrightarrow> data_block f div (BLK_SIZE * 8) \<le> n div (BLK_SIZE * 8) \<and> n < bam_size f * (BLK_SIZE * 8)" for n
    by (simp add: div_less_iff_less_mult flip: div_mult2_eq)
  have "\<forall>i \<in> set ?is. i < bam_size f" by simp
  from balloc_loop_works [OF assms this] show ?thesis unfolding is_range nat_balloc_def [symmetric]
    by (elim exE) (rule_tac x = r in exI, rule_tac x = f' in exI, rule_tac x = s' in exI,
      auto simp: div_le_mono split: sum.splits)
qed

lemma bfree_works:
  assumes "bam_ok sector has dok dev f s" and "nr < bam_size f * (BLK_SIZE * 8)"
  shows "\<exists>f' s'. nat_bfree rd wr dev nr f s = Some (EZERO, f', s') \<and> bam_step sector has dok dev f s f' s' \<and>
           (\<forall>n < bam_size f * (BLK_SIZE * 8). used (view sector s') dev f' n \<longleftrightarrow> n \<noteq> nr \<and> used (view sector s) dev f n)"
proof -
  let ?f = "if free_block f > nr then f\<lparr>free_block := nr\<rparr> else f"
  have e: "bam_block ?f = bam_block f" "bam_size ?f = bam_size f" "bam_curr ?f = bam_curr f" "bam_buf ?f = bam_buf f"
      "bam_dirty ?f = bam_dirty f" "geometry ?f = geometry f" "bam_range ?f = bam_range f"
    by (simp_all add: geometry_def bam_range_def)
  have ok: "bam_ok sector has dok dev ?f s" using assms(1) unfolding bam_ok_def e .
  have st: "bam_step sector has dok dev f s ?f s" using bam_step_refl [OF ok] unfolding bam_step_def e .
  have u: "used V dev ?f n = used V dev f n" for V n unfolding used_def bam_view_def [abs_def] e ..
  obtain f' s' where "nat_write_bam rd wr dev nr False ?f s = Some (EZERO, f', s')" "bam_step sector has dok dev ?f s f' s'"
      "\<forall>n < bam_size ?f * (BLK_SIZE * 8). used (view sector s') dev f' n \<longleftrightarrow> (if n = nr then False else used (view sector s) dev ?f n)"
    using write_bam_works [OF ok assms(2) [folded e(2)], of False] by blast
  then show ?thesis using bam_step_trans [OF st] unfolding nat_bfree_def u e(2) by auto
qed

end

section \<open>Free space\<close>

text \<open>The number of clear bits in a block of the map.\<close>

definition clear_bits :: "8 word list \<Rightarrow> nat" where
  "clear_bits buf = (\<Sum>k < 128. card {m. m < 32 \<and> \<not> bit (le32 buf k) m})"

lemma clear_bits_map:
  "clear_bits (M i) = card {n. n div (BLK_SIZE * 8) = i \<and> \<not> map_bit M n}"
proof -
  let ?S = "SIGMA k : {..<128}. {m. m < 32 \<and> \<not> bit (le32 (M i) k) m}"
  let ?h = "\<lambda>(k, m). i * (BLK_SIZE * 8) + k * 32 + m"
  have inj: "inj_on ?h ?S"
  proof (rule inj_onI, clarify)
    fix k m k' m' assume "k < 128" "m < 32" "k' < 128" "m' < 32" "i * (BLK_SIZE * 8) + k * 32 + m = i * (BLK_SIZE * 8) + k' * 32 + m'"
    then show "k = k' \<and> m = m'" using bam_digits [of k m i] bam_digits [of k' m' i] by metis
  qed
  have im: "?h ` ?S = {n. n div (BLK_SIZE * 8) = i \<and> \<not> map_bit M n}"
  proof (intro equalityI subsetI)
    fix n assume n: "n \<in> {n. n div (BLK_SIZE * 8) = i \<and> \<not> map_bit M n}"
    have "n = ?h (n div 32 mod 128, n mod 32)" using two_digits [of n 32 128] n by simp
    moreover have "(n div 32 mod 128, n mod 32) \<in> ?S" using n by (auto simp: map_bit_words)
    ultimately show "n \<in> ?h ` ?S" by blast
  qed (auto simp: map_bit_words bam_digits [simplified])
  show ?thesis using card_image [OF inj, unfolded im] by (simp add: clear_bits_def)
qed

lemma fold_free:
  "blk_total (fold (\<lambda>k st. if le32 buf k = 0xffffffff then st
                 else st\<lparr>blk_free := (blk_free st + unat (popcnt (NOT (le32 buf k)))) mod 2 ^ 32\<rparr>) ks st) = blk_total st \<and>
   blk_free (fold (\<lambda>k st. if le32 buf k = 0xffffffff then st
                 else st\<lparr>blk_free := (blk_free st + unat (popcnt (NOT (le32 buf k)))) mod 2 ^ 32\<rparr>) ks st) mod 2 ^ 32 =
   (blk_free st + (\<Sum>k \<leftarrow> ks. card {m. m < 32 \<and> \<not> bit (le32 buf k) m})) mod 2 ^ 32"
proof (induction ks arbitrary: st)
  case (Cons k ks)
  let ?c = "card {m. m < 32 \<and> \<not> bit (le32 buf k) m}"
  have "{m. m < 32 \<and> bit (NOT (le32 buf k)) m} = {m. m < 32 \<and> \<not> bit (le32 buf k) m}" by (auto simp: bit_simps)
  then have "unat (popcnt (NOT (le32 buf k))) = ?c" by (simp add: popcnt_card)
  moreover have "?c = 0" if "le32 buf k = 0xffffffff" using that all_ones_iff [of "le32 buf k"] by auto
  ultimately show ?case using Cons by (simp add: mod_add_left_eq add.assoc)
qed simp

context block_driver
begin

lemma statfs_loop_works:
  "bam_ok sector has dok dev f s \<Longrightarrow> (\<forall>i \<in> set is. i < bam_size f) \<Longrightarrow>
   \<exists>st' f' s'. statfs_loop rd wr dev is st f s = Some (Inr st', f', s') \<and> bam_step sector has dok dev f s f' s' \<and>
     (\<forall>j < bam_size f. bam_view (view sector s') dev f' j = bam_view (view sector s) dev f j) \<and>
     blk_total st' = blk_total st \<and>
     blk_free st' mod 2 ^ 32 = (blk_free st + (\<Sum>i \<leftarrow> is. clear_bits (bam_view (view sector s) dev f i))) mod 2 ^ 32"
proof (induction "is" arbitrary: f s st)
  case Nil
  then show ?case using bam_step_refl by auto
next
  case (Cons i "is")
  have i: "i < bam_size f" using Cons.prems(2) by simp
  obtain f1 s1 where s1: "nat_switch_bam rd wr dev (bam_nr i f) f s = Some (EZERO, f1, s1)" "bam_step sector has dok dev f s f1 s1"
      "bam_curr f1 = bam_block f + i" "\<forall>j < bam_size f. bam_view (view sector s1) dev f1 j = bam_view (view sector s) dev f j"
    using switch_bam_works [OF Cons.prems(1) i] by blast
  note g = bam_step_geometry(1,2) [OF s1(2)]
  have rest: "\<forall>i \<in> set is. i < bam_size f1" using Cons.prems(2) g(2) by simp
  have cur: "bam_view (view sector s) dev f i = bam_buf f1" using s1(3) g(1) s1(4) [rule_format, OF i] by (simp add: bam_view_def)
  let ?st = "fold (\<lambda>k st. if le32 (bam_buf f1) k = 0xffffffff then st
                 else st\<lparr>blk_free := (blk_free st + unat (popcnt (NOT (le32 (bam_buf f1) k)))) mod 2 ^ 32\<rparr>) [0..<BLK_SIZE div 4] st"
  have st: "blk_total ?st = blk_total st" "blk_free ?st mod 2 ^ 32 = (blk_free st + clear_bits (bam_buf f1)) mod 2 ^ 32"
    using fold_free [of "bam_buf f1" "[0..<BLK_SIZE div 4]" st] by (auto simp: clear_bits_def interv_sum_list_conv_sum_set_nat atLeast0LessThan)
  obtain st' f' s' where IH: "statfs_loop rd wr dev is ?st f1 s1 = Some (Inr st', f', s')" "bam_step sector has dok dev f1 s1 f' s'"
      "\<forall>j < bam_size f1. bam_view (view sector s') dev f' j = bam_view (view sector s1) dev f1 j" "blk_total st' = blk_total ?st"
      "blk_free st' mod 2 ^ 32 = (blk_free ?st + (\<Sum>i \<leftarrow> is. clear_bits (bam_view (view sector s1) dev f1 i))) mod 2 ^ 32"
    using Cons.IH [OF bam_stepD(1) [OF s1(2)] rest, of ?st] by blast
  have "(\<Sum>i \<leftarrow> is. clear_bits (bam_view (view sector s1) dev f1 i)) = (\<Sum>i \<leftarrow> is. clear_bits (bam_view (view sector s) dev f i))"
    using s1(4) Cons.prems(2) by (intro arg_cong [of _ _ sum_list] map_cong) auto
  then have "blk_free st' mod 2 ^ 32 =
      (blk_free st + (\<Sum>i \<leftarrow> i # is. clear_bits (bam_view (view sector s) dev f i))) mod 2 ^ 32"
    using IH(5) mod_add_cong [OF st(2) refl] cur by (simp only: list.map sum_list.Cons add.assoc)
  moreover have "statfs_loop rd wr dev (i # is) st f s = Some (Inr st', f', s')" using s1(1) IH(1) by simp
  ultimately show ?case using bam_step_trans [OF s1(2) IH(2)] IH(3,4) s1(4) st(1) g(2) by auto
qed

end

text \<open>
  \<^verbatim>\<open>nat_balloc\<close> never panics. It hands out a block that was not in use and marks exactly this one, or fails with
  \<^verbatim>\<open>ENOSPC\<close>, and then there was no free block in the part of the map it searches and nothing has changed. Either way the contents
  of all blocks outside the map are as before.
\<close>

theorem balloc_takes_free:
  assumes "block_driver rd wr sector has dok" and "bam_ok sector has dok dev f s"
  shows "\<exists>r f' s'. nat_balloc rd wr dev f s = Some (r, f', s') \<and> bam_ok sector has dok dev f' s' \<and>
     (\<forall>dv nr. \<not> (dv = dev \<and> nr \<in> bam_range f) \<longrightarrow> view sector s' dv nr = view sector s dv nr) \<and>
     (case r of
        Inl e \<Rightarrow> e = ENOSPC \<and>
          (\<forall>n. data_block f \<le> n \<longrightarrow> n < bam_size f * (BLK_SIZE * 8) \<longrightarrow> used (view sector s) dev f n) \<and>
          (\<forall>n < bam_size f * (BLK_SIZE * 8). used (view sector s') dev f' n = used (view sector s) dev f n)
      | Inr nr \<Rightarrow> nr < bam_size f * (BLK_SIZE * 8) \<and> \<not> used (view sector s) dev f nr \<and>
          (\<forall>n < bam_size f * (BLK_SIZE * 8). used (view sector s') dev f' n \<longleftrightarrow> n = nr \<or> used (view sector s) dev f n))"
  using block_driver.balloc_works [OF assms] unfolding bam_step_def by blast

text \<open>
  C23: \<^verbatim>\<open>nat_statfs\<close> reports as free exactly the number of blocks that the map has as not in use (in 32 bits), with the
  bit-parallel \<^verbatim>\<open>popcnt\<close>, and does not change the map.
\<close>

theorem statfs_counts_free:
  assumes "block_driver rd wr sector has dok" and "bam_ok sector has dok dev f s"
  shows "\<exists>st f' s'. nat_statfs rd wr dev f s = Some (Inr st, f', s') \<and> bam_ok sector has dok dev f' s' \<and> blk_total st = data_size f \<and>
     blk_free st mod 2 ^ 32 = card {n. n < bam_size f * (BLK_SIZE * 8) \<and> \<not> used (view sector s) dev f n} mod 2 ^ 32 \<and>
     (\<forall>n < bam_size f * (BLK_SIZE * 8). used (view sector s') dev f' n = used (view sector s) dev f n)"
proof -
  let ?M = "bam_view (view sector s) dev f" and ?N = "bam_size f * (BLK_SIZE * 8)"
  obtain st f' s' where st: "nat_statfs rd wr dev f s = Some (Inr st, f', s')" "bam_step sector has dok dev f s f' s'"
      "\<forall>j < bam_size f. bam_view (view sector s') dev f' j = ?M j" "blk_total st = data_size f"
      "blk_free st mod 2 ^ 32 = (\<Sum>i \<leftarrow> [0..<bam_size f]. clear_bits (?M i)) mod 2 ^ 32"
    using block_driver.statfs_loop_works [OF assms, of "[0..<bam_size f]" "\<lparr>blk_total = data_size f, blk_free = 0\<rparr>"]
    unfolding nat_statfs_def by auto
  have "{n. n < ?N \<and> \<not> used (view sector s) dev f n} = (\<Union>i < bam_size f. {n. n div (BLK_SIZE * 8) = i \<and> \<not> map_bit ?M n})"
    by (auto simp: used_def div_less_iff_less_mult [symmetric])
  moreover have "finite {n. n div (BLK_SIZE * 8) = i \<and> \<not> map_bit ?M n}" for i
    by (rule finite_subset [of _ "{..<Suc i * (BLK_SIZE * 8)}"]) (auto simp: div_less_iff_less_mult [symmetric])
  ultimately have "card {n. n < ?N \<and> \<not> used (view sector s) dev f n} = (\<Sum>i < bam_size f. clear_bits (?M i))"
    by (simp add: clear_bits_map) (subst card_UN_disjoint, auto)
  then show ?thesis using st bam_stepD(1) [OF st(2)] block_driver.used_cong [OF assms(1) st(3)]
    by (auto simp: interv_sum_list_conv_sum_set_nat atLeast0LessThan)
qed

end
