(* ===== verification/Nat_Bmap.thy ===== *)
theory Nat_Bmap
  imports Nat_Bam Fs_File
begin

text \<open>
  The native file system: the blocks of a file (\<^verbatim>\<open>kern/fs/nat/bmap.c\<close>).

  \<open>nat_fso\<close> is \<^verbatim>\<open>struct fso\<close> with its part \<^verbatim>\<open>nat\<close>. The first \<open>ndirblks\<close> entries of \<open>bmap\<close> are blocks of the file, the others
  are roots of trees of \<open>nindirlev\<close> levels of blocks of 128 block numbers each; the number 0 is a hole.
\<close>

unbundle bit_operations_syntax

section \<open>Operations\<close>

abbreviation (input) NBMAP :: nat where "NBMAP \<equiv> 114"

record nat_fso = fso +
  bmap_valid :: bool
  bmap_log :: nat
  bmap_phys :: nat
  bmap :: "32 word list"
  ndirblks :: nat
  nindirlev :: nat

type_synonym 'd bmap_res = "((errno + nat) \<times> nat_fso \<times> nat_fs \<times> 'd bcache) option"
type_synonym 'd fso_res = "(errno \<times> nat_fso \<times> nat_fs \<times> 'd bcache) option"

definition zeros :: "8 word list" where
  "zeros = replicate BLK_SIZE 0"

text \<open>Allocating a block and filling it with zeros, as \<^verbatim>\<open>nat_bmap_dir\<close> and \<^verbatim>\<open>nat_bmap\<close> do.\<close>

definition new_block :: "'d drv_read \<Rightarrow> 'd drv_write \<Rightarrow> nat \<Rightarrow> nat_fs \<Rightarrow> 'd bcache \<Rightarrow> ((errno + nat) \<times> nat_fs \<times> 'd bcache) option" where
  "new_block rd wr dev f s = do {
     (r, f1, s1) \<leftarrow> nat_balloc rd wr dev f s;
     (case r of
        Inl e \<Rightarrow> Some (Inl e, f1, s1)
      | Inr bn \<Rightarrow> do {
          (g, s2) \<leftarrow> blk_get wr dev bn s1;
          (case g of
             Inl e \<Rightarrow> Some (Inl e, f1, s2)
           | Inr bb \<Rightarrow> do {
               s3 \<leftarrow> blk_put (Some bb) (upd_blk bb (\<lambda>v. v\<lparr>b_data := zeros, b_dirty := True, b_valid := True\<rparr>) s2);
               Some (Inr bn, f1, s3)
             })
        })
   }"

definition one_more_block :: "nat_fso \<Rightarrow> nat_fso" where
  "one_more_block b = b\<lparr>o_blocks := (o_blocks b + 1) mod 2 ^ 32, o_dirty := True\<rparr>"

definition nat_bmap_dir :: "'d drv_read \<Rightarrow> 'd drv_write \<Rightarrow> nat \<Rightarrow> nat \<Rightarrow> bool \<Rightarrow> nat_fso \<Rightarrow> nat_fs \<Rightarrow> 'd bcache \<Rightarrow> 'd bmap_res" where
  "nat_bmap_dir rd wr dev log alloc b f s =
     (if log \<ge> NBMAP then Some (Inl EFBIG, b, f, s)
      else if alloc \<and> bmap b ! log = 0 then do {
        (r, f1, s1) \<leftarrow> new_block rd wr dev f s;
        (case r of
           Inl e \<Rightarrow> Some (Inl e, b, f1, s1)
         | Inr bn \<Rightarrow>
             let b1 = one_more_block (b\<lparr>bmap := (bmap b)[log := word_of_nat bn]\<rparr>)
             in Some (Inr (unat (bmap b1 ! log)), b1, f1, s1))
      }
      else Some (Inr (unat (bmap b ! log)), b, f, s))"

text \<open>The loop of \<^verbatim>\<open>nat_bmap\<close>: \<open>j\<close> is \<^verbatim>\<open>indl\<close>, so that \<^verbatim>\<open>shift\<close> is \<open>7 * (j - 1)\<close>.\<close>

fun bmap_walk :: "'d drv_read \<Rightarrow> 'd drv_write \<Rightarrow> nat \<Rightarrow> nat \<Rightarrow> bool \<Rightarrow> nat \<Rightarrow> nat \<Rightarrow> nat_fso \<Rightarrow> nat_fs \<Rightarrow> 'd bcache \<Rightarrow> 'd bmap_res" where
  "bmap_walk rd wr dev log alloc 0 bn b f s = Some (Inr bn, b, f, s)"
| "bmap_walk rd wr dev log alloc (Suc j) bn b f s =
     (if bn = 0 then Some (Inr bn, b, f, s)
      else do {
        (r, s1) \<leftarrow> blk_read rd wr dev bn s;
        (case r of
           Inl e \<Rightarrow> Some (Inl e, b, f, s1)
         | Inr bb \<Rightarrow>
             let k = log div 2 ^ (7 * j) mod 128; c = unat (le32 (b_data (blk s1 bb)) k)
             in if c \<noteq> 0 then do { s2 \<leftarrow> blk_put (Some bb) s1; bmap_walk rd wr dev log alloc j c b f s2 }
                else if \<not> alloc then do { s2 \<leftarrow> blk_put (Some bb) s1; Some (Inr 0, b, f, s2) }
                else do {
                  (r2, f1, s2) \<leftarrow> new_block rd wr dev f s1;
                  (case r2 of
                     Inl e \<Rightarrow> do { s3 \<leftarrow> blk_put (Some bb) s2; Some (Inl e, b, f1, s3) }
                   | Inr c \<Rightarrow> do {
                       s3 \<leftarrow> blk_put (Some bb)
                              (upd_blk bb (\<lambda>v. v\<lparr>b_data := put32 k (word_of_nat c) (b_data v), b_dirty := True\<rparr>) s2);
                       bmap_walk rd wr dev log alloc j c (one_more_block b) f1 s3
                     })
                })
      })"

definition set_bmap :: "nat \<Rightarrow> nat \<Rightarrow> nat_fso \<Rightarrow> nat_fso" where
  "set_bmap log bn b = b\<lparr>bmap_phys := bn, bmap_log := log, bmap_valid := True\<rparr>"

definition bmap_done :: "nat \<Rightarrow> 'd bmap_res \<Rightarrow> 'd fso_res" where
  "bmap_done log r = do {
     (x, b, f, s) \<leftarrow> r;
     Some (case x of Inl e \<Rightarrow> (e, b, f, s) | Inr bn \<Rightarrow> (EZERO, set_bmap log bn b, f, s))
   }"

text \<open>Shifting by 32 bits or more is undefined.\<close>

definition nat_bmap :: "'d drv_read \<Rightarrow> 'd drv_write \<Rightarrow> nat \<Rightarrow> nat \<Rightarrow> bool \<Rightarrow> nat_fso \<Rightarrow> nat_fs \<Rightarrow> 'd bcache \<Rightarrow> 'd fso_res" where
  "nat_bmap rd wr dev log alloc b f s =
     (if bmap_valid b \<and> bmap_log b = log \<and> (\<not> alloc \<or> bmap_phys b \<noteq> 0) then Some (EZERO, b, f, s)
      else if log < ndirblks b then bmap_done log (nat_bmap_dir rd wr dev log alloc b f s)
      else if 7 * nindirlev b \<ge> 32 then None
      else bmap_done log (do {
        (r, b1, f1, s1) \<leftarrow> nat_bmap_dir rd wr dev ((ndirblks b + log div 2 ^ (7 * nindirlev b)) mod 2 ^ 32) alloc b f s;
        (case r of
           Inl e \<Rightarrow> Some (Inl e, b1, f1, s1)
         | Inr bn \<Rightarrow> bmap_walk rd wr dev log alloc (nindirlev b) bn b1 f1 s1)
      }))"

text \<open>
  \<^verbatim>\<open>nat_trunc_indir\<close>, with \<open>j\<close> for its argument \<^verbatim>\<open>indl\<close>; \<open>ks\<close> are the entries still to be freed. The first
  error is returned.
\<close>

definition first_err :: "errno \<Rightarrow> errno \<Rightarrow> errno" where
  "first_err e e1 = (if e = EZERO then e1 else e)"

fun trunc_entries ::
    "'d drv_read \<Rightarrow> 'd drv_write \<Rightarrow> nat \<Rightarrow> (nat \<Rightarrow> nat_fs \<Rightarrow> 'd bcache \<Rightarrow> 'd nat_res) \<Rightarrow> nat \<Rightarrow> nat list \<Rightarrow> errno \<Rightarrow> nat_fs \<Rightarrow> 'd bcache \<Rightarrow> 'd nat_res" where
  "trunc_entries rd wr dev sub bb [] e f s = Some (e, f, s)"
| "trunc_entries rd wr dev sub bb (k # ks) e f s =
     (let c = unat (le32 (b_data (blk s bb)) k)
      in if c = 0 then trunc_entries rd wr dev sub bb ks e f s
         else do {
           (e1, f1, s1) \<leftarrow> sub c f s;
           (e2, f2, s2) \<leftarrow> nat_bfree rd wr dev c f1 s1;
           trunc_entries rd wr dev sub bb ks (first_err (first_err e e1) e2) f2 s2
         })"

fun nat_trunc_indir :: "'d drv_read \<Rightarrow> 'd drv_write \<Rightarrow> nat \<Rightarrow> nat \<Rightarrow> nat \<Rightarrow> nat_fs \<Rightarrow> 'd bcache \<Rightarrow> 'd nat_res" where
  "nat_trunc_indir rd wr dev j bn f s = do {
     (r, s1) \<leftarrow> blk_read rd wr dev bn s;
     (case r of
        Inl e \<Rightarrow> Some (e, f, s1)
      | Inr bb \<Rightarrow> do {
          (e, f2, s2) \<leftarrow> trunc_entries rd wr dev
             (case j of 0 \<Rightarrow> (\<lambda>c f s. Some (EZERO, f, s)) | Suc i \<Rightarrow> nat_trunc_indir rd wr dev i) bb [0..<128] EZERO f s1;
          s3 \<leftarrow> blk_put (Some bb) s2;
          Some (e, f2, s3)
        })
   }"

fun trunc_loop :: "'d drv_read \<Rightarrow> 'd drv_write \<Rightarrow> nat \<Rightarrow> nat list \<Rightarrow> nat_fso \<Rightarrow> nat_fs \<Rightarrow> 'd bcache \<Rightarrow> (nat_fso \<times> nat_fs \<times> 'd bcache) option" where
  "trunc_loop rd wr dev [] b f s = Some (b, f, s)"
| "trunc_loop rd wr dev (i # is) b f s =
     (let bn = unat (bmap b ! i)
      in if bn = 0 then trunc_loop rd wr dev is b f s
         else do {
           (_, f1, s1) \<leftarrow> (if i \<ge> ndirblks b then nat_trunc_indir rd wr dev (nindirlev b - 1) bn f s else Some (EZERO, f, s));
           (_, f2, s2) \<leftarrow> nat_bfree rd wr dev bn f1 s1;
           trunc_loop rd wr dev is (b\<lparr>bmap := (bmap b)[i := 0]\<rparr>) f2 s2
         })"

definition nat_trunc :: "'d drv_read \<Rightarrow> 'd drv_write \<Rightarrow> nat \<Rightarrow> nat_fso \<Rightarrow> nat_fs \<Rightarrow> 'd bcache \<Rightarrow> 'd fso_res" where
  "nat_trunc rd wr dev b f s =
     (if nindirlev b < 1 \<or> nindirlev b > 8 then Some (EINVAL, b, f, s)
      else do {
        (b1, f1, s1) \<leftarrow> trunc_loop rd wr dev [0..<NBMAP] b f s;
        Some (EZERO, b1\<lparr>bmap_valid := False, o_dirty := True, o_blocks := 1, o_size := 0\<rparr>, f1, s1)
      })"

section \<open>The tree of a file\<close>

text \<open>
  A position of the tree: an entry of the direct part of \<open>bmap\<close>, or the node at depth \<open>d\<close> that is reached by the
  index \<open>p\<close> (seven bits of it per level). \<open>blk_at\<close> is the block at a position, 0 for a hole.
\<close>

datatype bpos = Dir nat | Ind nat nat

fun ind :: "contents \<Rightarrow> nat \<Rightarrow> nat_fso \<Rightarrow> nat \<Rightarrow> nat \<Rightarrow> nat" where
  "ind V dev b 0 p = (if ndirblks b + p < NBMAP then unat (bmap b ! (ndirblks b + p)) else 0)"
| "ind V dev b (Suc d) p =
     (if ind V dev b d (p div 128) = 0 then 0 else unat (le32 (V dev (ind V dev b d (p div 128))) (p mod 128)))"

definition blk_at :: "contents \<Rightarrow> nat \<Rightarrow> nat_fso \<Rightarrow> bpos \<Rightarrow> nat" where
  "blk_at V dev b pos = (case pos of Dir l \<Rightarrow> unat (bmap b ! l) | Ind d p \<Rightarrow> ind V dev b d p)"

definition tpos :: "nat_fso \<Rightarrow> bpos set" where
  "tpos b = Dir ` {..<ndirblks b} \<union> (\<lambda>(d, p). Ind d p) ` ({..nindirlev b} \<times> UNIV)"

lemma tpos_simps [simp]: "Dir l \<in> tpos b \<longleftrightarrow> l < ndirblks b" "Ind d p \<in> tpos b \<longleftrightarrow> d \<le> nindirlev b"
  by (auto simp: tpos_def)

lemma blk_at_simps [simp]: "blk_at V dev b (Dir l) = unat (bmap b ! l)" "blk_at V dev b (Ind d p) = ind V dev b d p"
  by (simp_all add: blk_at_def)

text \<open>Where a block of the file is, and its number.\<close>

definition data_pos :: "nat_fso \<Rightarrow> nat \<Rightarrow> bpos" where
  "data_pos b log = (if log < ndirblks b then Dir log else Ind (nindirlev b) log)"

definition lookup :: "contents \<Rightarrow> nat \<Rightarrow> nat_fso \<Rightarrow> nat \<Rightarrow> nat" where
  "lookup V dev b log = blk_at V dev b (data_pos b log)"

text \<open>A block of numbers is at a position above the last level.\<close>

definition inner_pos :: "nat_fso \<Rightarrow> bpos set" where
  "inner_pos b = (\<lambda>(d, p). Ind d p) ` ({..<nindirlev b} \<times> UNIV)"

definition inner_blocks :: "contents \<Rightarrow> nat \<Rightarrow> nat_fso \<Rightarrow> nat set" where
  "inner_blocks V dev b = blk_at V dev b ` inner_pos b - {0}"

text \<open>No block is at two positions of the tree; \<open>U\<close> are the blocks that can be in use by files.\<close>

definition tree_ok :: "nat set \<Rightarrow> contents \<Rightarrow> nat \<Rightarrow> nat_fso \<Rightarrow> bool" where
  "tree_ok U V dev b \<longleftrightarrow> length (bmap b) = NBMAP \<and> ndirblks b \<le> NBMAP \<and>
     (\<forall>pos \<in> tpos b. blk_at V dev b pos \<noteq> 0 \<longrightarrow> blk_at V dev b pos \<in> U) \<and>
     (\<forall>pos \<in> tpos b. \<forall>pos' \<in> tpos b. blk_at V dev b pos = blk_at V dev b pos' \<longrightarrow> blk_at V dev b pos \<noteq> 0 \<longrightarrow> pos = pos')"

lemma tree_ok_in: "tree_ok U V dev b \<Longrightarrow> pos \<in> tpos b \<Longrightarrow> blk_at V dev b pos \<noteq> 0 \<Longrightarrow> blk_at V dev b pos \<in> U"
  by (simp add: tree_ok_def)

lemma tree_ok_inj:
  "tree_ok U V dev b \<Longrightarrow> pos \<in> tpos b \<Longrightarrow> pos' \<in> tpos b \<Longrightarrow> blk_at V dev b pos = blk_at V dev b pos' \<Longrightarrow>
   blk_at V dev b pos \<noteq> 0 \<Longrightarrow> pos = pos'"
  unfolding tree_ok_def by blast

lemma data_pos_in [simp]: "data_pos b log \<in> tpos b"
  by (simp add: data_pos_def)

lemma data_pos_inner: "data_pos b log \<notin> inner_pos b"
  by (auto simp: data_pos_def inner_pos_def)

lemma inner_tpos: "inner_pos b \<subseteq> tpos b"
  by (auto simp: inner_pos_def)

lemma data_pos_inj: "data_pos b log = data_pos b log' \<Longrightarrow> log = log'"
  by (auto simp: data_pos_def split: if_splits)

section \<open>Adding a block to the tree\<close>

lemma le32_zeros [simp]: "k < 128 \<Longrightarrow> le32 zeros k = 0"
  by (simp add: le32_def zeros_def)

lemma unat_of_blk: "c < 2 ^ 32 \<Longrightarrow> unat (word_of_nat c :: 32 word) = c"
  by (simp add: unat_of_nat take_bit_nat_eq_self)

text \<open>The tree depends only on the blocks of numbers in it.\<close>

lemma blk_at_cong:
  assumes "\<And>pos. pos \<in> inner_pos b \<Longrightarrow> blk_at V dev b pos \<noteq> 0 \<Longrightarrow> V' dev (blk_at V dev b pos) = V dev (blk_at V dev b pos)"
    and "pos \<in> tpos b"
  shows "blk_at V' dev b pos = blk_at V dev b pos"
proof -
  have "ind V' dev b d p = ind V dev b d p" if "d \<le> nindirlev b" for d p using that
  proof (induction d arbitrary: p)
    case (Suc d)
    have "Ind d (p div 128) \<in> inner_pos b" using Suc.prems by (auto simp: inner_pos_def)
    from assms(1) [OF this] show ?case using Suc by simp
  qed simp
  then show ?thesis using assms(2) by (cases pos) simp_all
qed

lemma blk_at_fields:
  "bmap b' = bmap b \<Longrightarrow> ndirblks b' = ndirblks b \<Longrightarrow> blk_at V dev b' pos = blk_at V dev b pos"
proof (cases pos)
  case (Ind d p)
  assume "bmap b' = bmap b" "ndirblks b' = ndirblks b"
  then have "ind V dev b' d p = ind V dev b d p" by (induction d arbitrary: p) simp_all
  then show ?thesis using Ind by simp
qed simp

text \<open>A new block of zeros below a block of numbers.\<close>

lemma plant_ind:
  assumes t: "tree_ok U V dev b" and d: "Suc d \<le> nindirlev b" and c: "c \<noteq> 0" "c \<notin> U" "c < 2 ^ 32"
    and b0: "b0 = ind V dev b d (p div 128)" "b0 \<noteq> 0" "length (V dev b0) = BLK_SIZE" and hole: "ind V dev b (Suc d) p = 0"
    and zc: "V' dev c = zeros" and zb: "V' dev b0 = put32 (p mod 128) (word_of_nat c) (V dev b0)"
    and other: "\<And>pos. pos \<in> inner_pos b \<Longrightarrow> blk_at V dev b pos \<noteq> 0 \<Longrightarrow> blk_at V dev b pos \<noteq> b0 \<Longrightarrow>
      V' dev (blk_at V dev b pos) = V dev (blk_at V dev b pos)"
    and pos: "pos \<in> tpos b"
  shows "blk_at V' dev b pos = (if pos = Ind (Suc d) p then c else blk_at V dev b pos)"
proof -
  have "ind V' dev b e q = (if (e, q) = (Suc d, p) then c else ind V dev b e q)" if "e \<le> nindirlev b" for e q using that
  proof (induction e arbitrary: q)
    case (Suc e)
    let ?o = "ind V dev b e (q div 128)"
    have e: "Ind e (q div 128) \<in> tpos b" "Ind e (q div 128) \<in> inner_pos b" "Ind d (p div 128) \<in> tpos b"
      using Suc.prems d by (auto simp: inner_pos_def)
    note IH = Suc.IH [of "q div 128"]
    show ?case
    proof (cases "(e, q div 128) = (Suc d, p)")
      case True
      then have "ind V' dev b (Suc e) q = 0" using IH Suc.prems c(1) zc by simp
      moreover have "ind V dev b (Suc e) q = 0" using True hole by simp
      ultimately show ?thesis using True by auto
    next
      case False
      then have o: "ind V' dev b e (q div 128) = ?o" using IH Suc.prems by auto
      have pq: "(Suc e, q) = (Suc d, p) \<longleftrightarrow> (e, q div 128) = (d, p div 128) \<and> q mod 128 = p mod 128"
        using div_mult_mod_eq [of q 128] div_mult_mod_eq [of p 128] by (metis prod.inject old.nat.inject)
      consider "?o = 0" | "?o \<noteq> 0" "?o = b0" | "?o \<noteq> 0" "?o \<noteq> b0" by blast
      then show ?thesis
      proof cases
        case 1
        then show ?thesis using o b0(1,2) pq by auto
      next
        case 2
        then have "(e, q div 128) = (d, p div 128)" using tree_ok_inj [OF t e(1,3)] b0(1) by simp
        moreover have "le32 (V' dev b0) (q mod 128) = (if q mod 128 = p mod 128 then word_of_nat c else le32 (V dev b0) (q mod 128))"
          unfolding zb by (rule le32_put32) (simp_all add: b0(3))
        ultimately show ?thesis using o 2 pq c(3) by (simp add: unat_of_blk)
      next
        case 3
        then have "V' dev ?o = V dev ?o" using other [OF e(2)] by simp
        then show ?thesis using o 3 pq b0(1) by auto
      qed
    qed
  qed simp
  then show ?thesis using pos by (cases pos) auto
qed

text \<open>A new block of zeros in \<open>bmap\<close> itself.\<close>

lemma plant_bmap:
  assumes t: "tree_ok U V dev b" and k: "k < NBMAP" "bmap b ! k = 0" and c: "c \<noteq> 0" "c \<notin> U" "c < 2 ^ 32"
    and zc: "V' dev c = zeros"
    and other: "\<And>pos. pos \<in> inner_pos b \<Longrightarrow> blk_at V dev b pos \<noteq> 0 \<Longrightarrow> V' dev (blk_at V dev b pos) = V dev (blk_at V dev b pos)"
    and pos: "pos \<in> tpos b"
  shows "blk_at V' dev (b\<lparr>bmap := (bmap b)[k := word_of_nat c]\<rparr>) pos =
    (if pos = (if k < ndirblks b then Dir k else Ind 0 (k - ndirblks b)) then c else blk_at V dev b pos)"
proof -
  let ?b = "b\<lparr>bmap := (bmap b)[k := word_of_nat c]\<rparr>"
  let ?P = "\<lambda>e q. \<not> k < ndirblks b \<and> e = 0 \<and> q = k - ndirblks b"
  have l: "length (bmap b) = NBMAP" using t by (simp add: tree_ok_def)
  have "ind V' dev ?b e q = (if ?P e q then c else ind V dev b e q)" if "e \<le> nindirlev b" for e q using that
  proof (induction e arbitrary: q)
    case 0
    then show ?case using l k c(3) by (auto simp: nth_list_update unat_of_blk)
  next
    case (Suc e)
    have e: "Ind e (q div 128) \<in> inner_pos b" using Suc.prems by (auto simp: inner_pos_def)
    note IH = Suc.IH [of "q div 128"]
    show ?case
    proof (cases "?P e (q div 128)")
      case True
      then have "ind V dev b e (q div 128) = 0" using k(2) by simp
      then show ?thesis using True IH Suc.prems c(1) zc by simp
    next
      case False
      then have "ind V' dev ?b e (q div 128) = ind V dev b e (q div 128)" using IH Suc.prems by auto
      then show ?thesis using other [OF e] by simp
    qed
  qed
  then show ?thesis using pos l k c(3) t by (cases pos) (auto simp: nth_list_update unat_of_blk tree_ok_def)
qed

lemma tree_ok_plant:
  assumes t: "tree_ok U V dev b" and c: "c \<noteq> 0" "c \<notin> U" and U: "U \<subseteq> U'" "c \<in> U'"
    and b': "length (bmap b') = NBMAP" "ndirblks b' = ndirblks b" "nindirlev b' = nindirlev b"
    and at: "\<And>pos. pos \<in> tpos b \<Longrightarrow> blk_at V' dev b' pos = (if pos = pos0 then c else blk_at V dev b pos)"
  shows "tree_ok U' V' dev b'"
proof -
  have tp: "tpos b' = tpos b" using b'(2,3) by (simp add: tpos_def)
  have fresh: "blk_at V dev b pos \<noteq> c" if "pos \<in> tpos b" for pos using tree_ok_in [OF t that] c by auto
  show ?thesis unfolding tree_ok_def tp
  proof (intro conjI ballI impI)
    show "length (bmap b') = NBMAP" "ndirblks b' \<le> NBMAP" using b' t by (simp_all add: tree_ok_def)
  next
    fix pos assume "pos \<in> tpos b" "blk_at V' dev b' pos \<noteq> 0"
    then show "blk_at V' dev b' pos \<in> U'" using at [of pos] tree_ok_in [OF t, of pos] U by (auto split: if_splits)
  next
    fix pos pos' assume "pos \<in> tpos b" "pos' \<in> tpos b" "blk_at V' dev b' pos = blk_at V' dev b' pos'" "blk_at V' dev b' pos \<noteq> 0"
    then show "pos = pos'" using at [of pos] at [of pos'] tree_ok_inj [OF t, of pos pos'] fresh by (auto split: if_splits)
  qed
qed

section \<open>Files in the file system\<close>

definition nblocks :: "nat_fs \<Rightarrow> nat" where
  "nblocks f = bam_size f * (BLK_SIZE * 8)"

text \<open>The free blocks are good blocks outside the map; the blocks that files may consist of.\<close>

definition free_ok :: "contents \<Rightarrow> nat \<Rightarrow> nat_fs \<Rightarrow> (nat \<Rightarrow> bool) \<Rightarrow> bool" where
  "free_ok V dev f D \<longleftrightarrow> (\<forall>n < nblocks f. \<not> used V dev f n \<longrightarrow> n \<noteq> 0 \<and> n \<notin> bam_range f \<and> D n)"

definition live :: "contents \<Rightarrow> nat \<Rightarrow> nat_fs \<Rightarrow> (nat \<Rightarrow> bool) \<Rightarrow> nat set" where
  "live V dev f D = {n. n < nblocks f \<and> used V dev f n \<and> n \<notin> bam_range f \<and> D n}"

definition file_ok ::
    "('d \<Rightarrow> nat \<Rightarrow> nat \<Rightarrow> 8 word list) \<Rightarrow> ('d \<Rightarrow> nat \<Rightarrow> nat \<Rightarrow> bool) \<Rightarrow> ('d \<Rightarrow> bool) \<Rightarrow> nat \<Rightarrow> nat_fso \<Rightarrow> nat_fs \<Rightarrow> 'd bcache \<Rightarrow> bool" where
  "file_ok sector has dok dev b f s \<longleftrightarrow> bam_ok sector has dok dev f s \<and> nfree s \<ge> 2 \<and>
     free_ok (view sector s) dev f (has (disk s) dev) \<and>
     tree_ok (live (view sector s) dev f (has (disk s) dev)) (view sector s) dev b"

lemma nblocks_geometry: "geometry f' = geometry f \<Longrightarrow> nblocks f' = nblocks f"
  by (simp add: nblocks_def geometry_def)

text \<open>Outside the map, one block of the device has new contents, or none.\<close>

definition allocated ::
    "('d \<Rightarrow> nat \<Rightarrow> nat \<Rightarrow> 8 word list) \<Rightarrow> ('d \<Rightarrow> nat \<Rightarrow> nat \<Rightarrow> bool) \<Rightarrow> ('d \<Rightarrow> bool) \<Rightarrow> nat \<Rightarrow> nat set \<Rightarrow> nat_fs \<Rightarrow> 'd bcache \<Rightarrow> nat_fs \<Rightarrow> 'd bcache \<Rightarrow> bool" where
  "allocated sector has dok dev C f s f' s' \<longleftrightarrow>
     bam_ok sector has dok dev f' s' \<and> quiet sector has dok s s' \<and> geometry f' = geometry f \<and>
     (\<forall>dv. dv \<noteq> dev \<longrightarrow> view sector s' dv = view sector s dv) \<and>
     (\<forall>n. n \<notin> bam_range f \<longrightarrow> view sector s' dev n = (if n \<in> C then zeros else view sector s dev n)) \<and>
     (\<forall>n < nblocks f. used (view sector s') dev f' n \<longleftrightarrow> n \<in> C \<or> used (view sector s) dev f n)"

lemma allocated_refl: "bam_ok sector has dok dev f s \<Longrightarrow> allocated sector has dok dev {} f s f s"
  by (simp add: allocated_def bam_ok_def quiet_refl)

context block_driver
begin

lemma used_fill:
  assumes "view sector s' = (view sector s)(dev := (view sector s dev)(c := z))" and "c \<notin> bam_range f" and "n < nblocks f"
  shows "used (view sector s') dev f n = used (view sector s) dev f n"
proof (rule used_cong [OF _ assms(3) [unfolded nblocks_def]], intro allI impI)
  fix j assume "j < bam_size f"
  then have "bam_block f + j \<noteq> c" using assms(2) by (auto simp: bam_range_def)
  then show "bam_view (view sector s') dev f j = bam_view (view sector s) dev f j" using assms(1) by (simp add: bam_view_def)
qed

lemma bam_ok_fill:
  assumes "bam_ok sector has dok dev f s" and "quiet sector has dok s s'"
    and "view sector s' = (view sector s)(dev := (view sector s dev)(c := z))" and "c \<notin> bam_range f"
  shows "bam_ok sector has dok dev f s'"
proof -
  have "bam_curr f \<in> bam_range f \<Longrightarrow> view sector s' dev (bam_curr f) = view sector s dev (bam_curr f)" using assms(3,4) by auto
  then show ?thesis using assms(1) quiet_ready [OF assms(2)] quiet_has [OF assms(2)] quiet_nfree [OF assms(2)] by (auto simp: bam_ok_def)
qed

lemma new_block_works:
  assumes "bam_ok sector has dok dev f s" and "free_ok (view sector s) dev f (has (disk s) dev)"
  shows "\<exists>r f' s'. new_block rd wr dev f s = Some (r, f', s') \<and>
     (case r of
        Inl e \<Rightarrow> e = ENOSPC \<and> allocated sector has dok dev {} f s f' s'
      | Inr c \<Rightarrow> c < nblocks f \<and> \<not> used (view sector s) dev f c \<and> allocated sector has dok dev {c} f s f' s')"
proof -
  obtain r f1 s1 where b: "nat_balloc rd wr dev f s = Some (r, f1, s1)" "bam_step sector has dok dev f s f1 s1"
      "case r of
         Inl e \<Rightarrow> e = ENOSPC \<and>
           (\<forall>n. data_block f \<le> n \<longrightarrow> n < bam_size f * (BLK_SIZE * 8) \<longrightarrow> used (view sector s) dev f n) \<and>
           (\<forall>n < bam_size f * (BLK_SIZE * 8). used (view sector s1) dev f1 n = used (view sector s) dev f n)
       | Inr nr \<Rightarrow> nr < bam_size f * (BLK_SIZE * 8) \<and> \<not> used (view sector s) dev f nr \<and>
           (\<forall>n < bam_size f * (BLK_SIZE * 8). used (view sector s1) dev f1 n \<longleftrightarrow> n = nr \<or> used (view sector s) dev f n)"
    using balloc_works [OF assms(1)] by blast
  note D = bam_stepD [OF b(2)]
  show ?thesis
  proof (cases r)
    case (Inl e)
    have "allocated sector has dok dev {} f s f1 s1"
      unfolding allocated_def using D b(3) Inl by (auto simp: nblocks_def)
    then show ?thesis using b(1,3) Inl by (simp add: new_block_def)
  next
    case (Inr c)
    have c: "c < nblocks f" "\<not> used (view sector s) dev f c"
      using b(3) Inr by (auto simp: nblocks_def)
    then have cc: "c \<notin> bam_range f" "has (disk s1) dev c" using assms(2) quiet_has [OF D(2)] by (auto simp: free_ok_def)
    have r1: "ready sector has dok s1" "nfree s1 > 0" using D(1) by (simp_all add: bam_ok_def)
    obtain bb s2 s3 where s3: "blk_get wr dev c s1 = Some (Inr bb, s2)"
        "blk_put (Some bb) (upd_blk bb (\<lambda>v. v\<lparr>b_data := zeros, b_dirty := True, b_valid := True\<rparr>) s2) = Some s3"
        "quiet sector has dok s1 s3" "view sector s3 = (view sector s1)(dev := (view sector s1 dev)(c := zeros))"
      using use_fill [OF r1 cc(2), of zeros] by (auto simp: zeros_def)
    note g = bam_step_geometry(2,8) [OF b(2)]
    have cg: "c \<notin> bam_range f1" using cc(1) g(2) by simp
    have "allocated sector has dok dev {c} f s f1 s3"
      unfolding allocated_def
    proof (intro conjI allI impI)
      show "bam_ok sector has dok dev f1 s3" by (rule bam_ok_fill [OF D(1) s3(3,4) cg])
      show "quiet sector has dok s s3" by (rule quiet_trans [OF D(2) s3(3)])
      show "geometry f1 = geometry f" by (rule D(3))
    next
      fix dv assume "dv \<noteq> dev"
      then show "view sector s3 dv = view sector s dv" using s3(4) D(4) by (auto simp: fun_eq_iff)
    next
      fix n assume "n \<notin> bam_range f"
      then show "view sector s3 dev n = (if n \<in> {c} then zeros else view sector s dev n)" using s3(4) D(4) by auto
    next
      fix n assume n: "n < nblocks f"
      then have "n < nblocks f1" using g(1) by (simp add: nblocks_def)
      then show "used (view sector s3) dev f1 n \<longleftrightarrow> n \<in> {c} \<or> used (view sector s) dev f n"
        using used_fill [OF s3(4) cg] b(3) Inr n by (auto simp: nblocks_def)
    qed
    then show ?thesis using b(1) Inr s3(1,2) c by (simp add: new_block_def)
  qed
qed

end

section \<open>Growing a file\<close>

text \<open>
  What mapping the block \<open>log\<close> of a file may do: the file keeps its blocks, and gets new ones only on the way to \<open>log\<close>;
  these were free, and the new block of the file is empty. Nothing that belongs to somebody else changes.
\<close>

definition same_file :: "nat_fso \<Rightarrow> nat_fso \<Rightarrow> bool" where
  "same_file b b' \<longleftrightarrow> (\<exists>bm n d. b' = b\<lparr>bmap := bm, o_blocks := n, o_dirty := d\<rparr>)"

definition grows ::
    "('d \<Rightarrow> nat \<Rightarrow> nat \<Rightarrow> 8 word list) \<Rightarrow> ('d \<Rightarrow> nat \<Rightarrow> nat \<Rightarrow> bool) \<Rightarrow> ('d \<Rightarrow> bool) \<Rightarrow> nat \<Rightarrow> nat \<Rightarrow>
     nat_fso \<Rightarrow> nat_fs \<Rightarrow> 'd bcache \<Rightarrow> nat_fso \<Rightarrow> nat_fs \<Rightarrow> 'd bcache \<Rightarrow> bool" where
  "grows sector has dok dev log b f s b' f' s' \<longleftrightarrow>
     file_ok sector has dok dev b' f' s' \<and> quiet sector has dok s s' \<and> geometry f' = geometry f \<and> same_file b b' \<and>
     (\<forall>pos \<in> tpos b. blk_at (view sector s) dev b pos \<noteq> 0 \<longrightarrow> blk_at (view sector s') dev b' pos = blk_at (view sector s) dev b pos) \<and>
     (\<forall>pos \<in> tpos b. blk_at (view sector s) dev b pos = 0 \<longrightarrow> blk_at (view sector s') dev b' pos \<noteq> 0 \<longrightarrow>
        \<not> used (view sector s) dev f (blk_at (view sector s') dev b' pos) \<and>
        (pos \<notin> inner_pos b \<longrightarrow> view sector s' dev (blk_at (view sector s') dev b' pos) = zeros)) \<and>
     (\<forall>log'. log' \<noteq> log \<longrightarrow> lookup (view sector s') dev b' log' = lookup (view sector s) dev b log') \<and>
     (\<forall>n < nblocks f. used (view sector s) dev f n \<longrightarrow> used (view sector s') dev f' n) \<and>
     (\<forall>n < nblocks f. used (view sector s) dev f n \<longrightarrow> n \<notin> bam_range f \<longrightarrow> n \<notin> inner_blocks (view sector s) dev b \<longrightarrow>
        view sector s' dev n = view sector s dev n) \<and>
     (\<forall>dv. dv \<noteq> dev \<longrightarrow> view sector s' dv = view sector s dv)"

lemma same_file_simps:
  assumes "same_file b b'"
  shows "ndirblks b' = ndirblks b" "nindirlev b' = nindirlev b" "tpos b' = tpos b" "inner_pos b' = inner_pos b"
    "data_pos b' log = data_pos b log" "o_size b' = o_size b" "bmap_valid b' = bmap_valid b" "bmap_log b' = bmap_log b"
    "bmap_phys b' = bmap_phys b" "o_mode b' = o_mode b"
  using assms by (auto simp: same_file_def tpos_def inner_pos_def data_pos_def)

lemma same_file_refl [simp]: "same_file b b"
  unfolding same_file_def by (intro exI [of _ "bmap b"] exI [of _ "o_blocks b"] exI [of _ "o_dirty b"]) simp

lemma same_file_trans: "same_file b b1 \<Longrightarrow> same_file b1 b2 \<Longrightarrow> same_file b b2"
  unfolding same_file_def by (elim exE, hypsubst, simp, blast)

lemma file_ok_live:
  assumes "file_ok sector has dok dev b f s" and "pos \<in> tpos b" and "blk_at (view sector s) dev b pos \<noteq> 0"
  shows "blk_at (view sector s) dev b pos < nblocks f" "used (view sector s) dev f (blk_at (view sector s) dev b pos)"
    "blk_at (view sector s) dev b pos \<notin> bam_range f" "has (disk s) dev (blk_at (view sector s) dev b pos)"
  using assms tree_ok_in [of _ "view sector s" dev b pos] by (auto simp: file_ok_def live_def)

lemma file_ok_inj:
  "file_ok sector has dok dev b f s \<Longrightarrow> pos \<in> tpos b \<Longrightarrow> pos' \<in> tpos b \<Longrightarrow>
   blk_at (view sector s) dev b pos = blk_at (view sector s) dev b pos' \<Longrightarrow> blk_at (view sector s) dev b pos \<noteq> 0 \<Longrightarrow> pos = pos'"
  using tree_ok_inj by (fastforce simp: file_ok_def)

lemma grows_refl: "file_ok sector has dok dev b f s \<Longrightarrow> grows sector has dok dev log b f s b f s"
  by (auto simp: grows_def file_ok_def bam_ok_def quiet_refl)

lemma growsD:
  assumes "grows sector has dok dev log b f s b' f' s'"
  shows "file_ok sector has dok dev b' f' s'" "quiet sector has dok s s'" "geometry f' = geometry f" "same_file b b'"
    "pos \<in> tpos b \<Longrightarrow> blk_at (view sector s) dev b pos \<noteq> 0 \<Longrightarrow> blk_at (view sector s') dev b' pos = blk_at (view sector s) dev b pos"
    "pos \<in> tpos b \<Longrightarrow> blk_at (view sector s) dev b pos = 0 \<Longrightarrow> blk_at (view sector s') dev b' pos \<noteq> 0 \<Longrightarrow>
       \<not> used (view sector s) dev f (blk_at (view sector s') dev b' pos)"
    "pos \<in> tpos b \<Longrightarrow> blk_at (view sector s) dev b pos = 0 \<Longrightarrow> blk_at (view sector s') dev b' pos \<noteq> 0 \<Longrightarrow>
       pos \<notin> inner_pos b \<Longrightarrow> view sector s' dev (blk_at (view sector s') dev b' pos) = zeros"
    "log' \<noteq> log \<Longrightarrow> lookup (view sector s') dev b' log' = lookup (view sector s) dev b log'"
    "n < nblocks f \<Longrightarrow> used (view sector s) dev f n \<Longrightarrow> used (view sector s') dev f' n"
    "n < nblocks f \<Longrightarrow> used (view sector s) dev f n \<Longrightarrow> n \<notin> bam_range f \<Longrightarrow> n \<notin> inner_blocks (view sector s) dev b \<Longrightarrow>
       view sector s' dev n = view sector s dev n"
    "dv \<noteq> dev \<Longrightarrow> view sector s' dv = view sector s dv"
  using assms unfolding grows_def by blast+

lemma grows_trans:
  assumes f: "file_ok sector has dok dev b f s"
    and 1: "grows sector has dok dev log b f s b1 f1 s1" and 2: "grows sector has dok dev log b1 f1 s1 b2 f2 s2"
  shows "grows sector has dok dev log b f s b2 f2 s2"
proof -
  note A = growsD [OF 1] and B = growsD [OF 2]
  note S = same_file_simps [OF A(4)] and G = geometry_fields(8) [OF A(3)] nblocks_geometry [OF A(3)]
  let ?V = "view sector s" and ?V1 = "view sector s1" and ?V2 = "view sector s2"
  have fresh: "n \<notin> inner_blocks ?V1 dev b1" if n: "n < nblocks f" "used ?V dev f n" "n \<notin> inner_blocks ?V dev b" for n
  proof
    assume "n \<in> inner_blocks ?V1 dev b1"
    then obtain pos where pos: "pos \<in> inner_pos b" "n = blk_at ?V1 dev b1 pos" "n \<noteq> 0" using S(4) by (auto simp: inner_blocks_def)
    then have t: "pos \<in> tpos b" using inner_tpos by blast
    show False
    proof (cases "blk_at ?V dev b pos = 0")
      case True
      then show ?thesis using A(6) [OF t True] pos(2,3) n(2) by simp
    next
      case False
      then show ?thesis using A(5) [OF t False] pos n(3) by (auto simp: inner_blocks_def)
    qed
  qed
  show ?thesis unfolding grows_def
  proof (intro conjI ballI allI impI)
    show "file_ok sector has dok dev b2 f2 s2" by (rule B(1))
    show "quiet sector has dok s s2" by (rule quiet_trans [OF A(2) B(2)])
    show "geometry f2 = geometry f" using A(3) B(3) by simp
    show "same_file b b2" by (rule same_file_trans [OF A(4) B(4)])
  next
    fix pos assume "pos \<in> tpos b" "blk_at ?V dev b pos \<noteq> 0"
    then show "blk_at ?V2 dev b2 pos = blk_at ?V dev b pos" using A(5) [of pos] B(5) [of pos] S(3) by simp
  next
    fix pos assume p: "pos \<in> tpos b" "blk_at ?V dev b pos = 0" "blk_at ?V2 dev b2 pos \<noteq> 0"
    show "\<not> used ?V dev f (blk_at ?V2 dev b2 pos)"
    proof (cases "blk_at ?V1 dev b1 pos = 0")
      case True
      have "blk_at ?V2 dev b2 pos < nblocks f"
        using file_ok_live(1) [OF B(1), of pos] p(1,3) same_file_simps(3) [OF B(4)] S(3) nblocks_geometry [OF B(3)] G(2) by simp
      then show ?thesis using B(6) [of pos] True p S(3) A(9) by auto
    next
      case False
      then show ?thesis using A(6) [OF p(1,2)] B(5) [of pos] p(1) S(3) by simp
    qed
    assume i: "pos \<notin> inner_pos b"
    show "?V2 dev (blk_at ?V2 dev b2 pos) = zeros"
    proof (cases "blk_at ?V1 dev b1 pos = 0")
      case True
      then show ?thesis using B(7) [of pos] p i S(3,4) by simp
    next
      case False
      have t1: "pos \<in> tpos b1" using p(1) S(3) by simp
      have e: "blk_at ?V2 dev b2 pos = blk_at ?V1 dev b1 pos" by (rule B(5) [OF t1 False])
      note L = file_ok_live [OF A(1) t1 False]
      have "blk_at ?V1 dev b1 pos \<notin> inner_blocks ?V1 dev b1"
        using file_ok_inj [OF A(1) t1 _ _ False] i S(4) inner_tpos [of b1] by (auto simp: inner_blocks_def)
      then have "?V2 dev (blk_at ?V1 dev b1 pos) = ?V1 dev (blk_at ?V1 dev b1 pos)" using B(10) [OF L(1-3)] by simp
      then show ?thesis using A(7) [OF p(1,2) False i] e by simp
    qed
  next
    fix log' assume "log' \<noteq> log"
    then show "lookup ?V2 dev b2 log' = lookup ?V dev b log'" using A(8) [of log'] B(8) [of log'] by simp
  next
    fix n assume n: "n < nblocks f" "used ?V dev f n"
    then show "used ?V2 dev f2 n" using A(9) B(9) G(2) by simp
    assume "n \<notin> bam_range f" "n \<notin> inner_blocks ?V dev b"
    then show "?V2 dev n = ?V dev n" using A(9,10) [OF n] B(10) [of n] fresh [OF n] n G by simp
  next
    fix dv assume "dv \<noteq> dev"
    then show "?V2 dv = ?V dv" using A(11) B(11) by simp
  qed
qed

text \<open>One new block is a way to grow.\<close>

lemma grows_plant:
  assumes F: "file_ok sector has dok dev b f s"
    and Q: "bam_ok sector has dok dev f' s'" "quiet sector has dok s s'" "geometry f' = geometry f"
    and u: "\<And>n. n < nblocks f \<Longrightarrow> used (view sector s') dev f' n \<longleftrightarrow> n = c \<or> used (view sector s) dev f n"
    and c: "c < nblocks f" "\<not> used (view sector s) dev f c"
    and V: "\<And>dv. dv \<noteq> dev \<Longrightarrow> view sector s' dv = view sector s dv" "view sector s' dev c = zeros"
      "\<And>n. n \<notin> bam_range f \<Longrightarrow> n \<noteq> c \<Longrightarrow> n \<notin> inner_blocks (view sector s) dev b \<Longrightarrow> view sector s' dev n = view sector s dev n"
    and at: "\<And>pos. pos \<in> tpos b \<Longrightarrow> blk_at (view sector s') dev b' pos = (if pos = pos0 then c else blk_at (view sector s) dev b pos)"
    and p0: "pos0 \<in> tpos b" "blk_at (view sector s) dev b pos0 = 0" "pos0 \<in> inner_pos b \<or> pos0 = data_pos b log"
    and b': "same_file b b'" "length (bmap b') = NBMAP"
  shows "grows sector has dok dev log b f s b' f' s'"
proof -
  let ?V = "view sector s" and ?V' = "view sector s'" and ?D = "has (disk s) dev"
  have h: "has (disk s') = has (disk s)" by (rule quiet_has [OF Q(2)])
  note G = geometry_fields(8) [OF Q(3)] nblocks_geometry [OF Q(3)]
  have fr: "free_ok ?V dev f ?D" and t: "tree_ok (live ?V dev f ?D) ?V dev b" and nf: "nfree s \<ge> 2" using F by (auto simp: file_ok_def)
  have cc: "c \<noteq> 0" "c \<notin> bam_range f" "?D c" using fr c by (auto simp: free_ok_def)
  have "free_ok ?V' dev f' ?D" using fr u G by (auto simp: free_ok_def)
  moreover have "tree_ok (live ?V' dev f' ?D) ?V' dev b'"
  proof (rule tree_ok_plant [OF t cc(1)])
    show "c \<notin> live ?V dev f ?D" using c(2) by (simp add: live_def)
    show "live ?V dev f ?D \<subseteq> live ?V' dev f' ?D" "c \<in> live ?V' dev f' ?D" using u G cc c(1) by (auto simp: live_def)
  qed (use b' same_file_simps(1,2) [OF b'(1)] at in auto)
  ultimately have ok: "file_ok sector has dok dev b' f' s'"
    using Q(1) quiet_nfree [OF Q(2)] nf h by (simp add: file_ok_def)
  show ?thesis unfolding grows_def
  proof (intro conjI ballI allI impI)
    fix pos assume "pos \<in> tpos b" "blk_at ?V dev b pos \<noteq> 0"
    then show "blk_at ?V' dev b' pos = blk_at ?V dev b pos" using at p0(2) by auto
  next
    fix pos assume "pos \<in> tpos b" "blk_at ?V dev b pos = 0" "blk_at ?V' dev b' pos \<noteq> 0"
    then have e: "blk_at ?V' dev b' pos = c" using at by (auto split: if_splits)
    show "\<not> used ?V dev f (blk_at ?V' dev b' pos)" "?V' dev (blk_at ?V' dev b' pos) = zeros" unfolding e using c(2) V(2) by simp_all
  next
    fix log' assume "log' \<noteq> log"
    then have "data_pos b log' \<noteq> pos0" using p0(3) data_pos_inj data_pos_inner by blast
    then show "lookup ?V' dev b' log' = lookup ?V dev b log'" using at by (simp add: lookup_def same_file_simps(5) [OF b'(1)])
  next
    fix n assume "n < nblocks f" "used ?V dev f n"
    then show "used ?V' dev f' n" using u by simp
    assume "n \<notin> bam_range f" "n \<notin> inner_blocks ?V dev b"
    then show "?V' dev n = ?V dev n" using V(3) c(2) \<open>used ?V dev f n\<close> by auto
  qed (use ok Q b'(1) V(1) in auto)
qed

lemma allocated_at:
  assumes "file_ok sector has dok dev b f s" and "allocated sector has dok dev {} f s f' s'" and "pos \<in> tpos b"
  shows "blk_at (view sector s') dev b pos = blk_at (view sector s) dev b pos"
proof (rule blk_at_cong [OF _ assms(3)])
  fix q assume q: "q \<in> inner_pos b" "blk_at (view sector s) dev b q \<noteq> 0"
  then have "q \<in> tpos b" using inner_tpos by blast
  then show "view sector s' dev (blk_at (view sector s) dev b q) = view sector s dev (blk_at (view sector s) dev b q)"
    using file_ok_live(3) [OF assms(1) _ q(2)] assms(2) by (simp add: allocated_def)
qed

text \<open>The case of a failed allocation, which may have changed which block of the map is in the buffer.\<close>

lemma grows_nothing:
  assumes F: "file_ok sector has dok dev b f s" and A: "allocated sector has dok dev {} f s f' s'"
  shows "grows sector has dok dev log b f s b f' s'"
proof -
  let ?V = "view sector s" and ?V' = "view sector s'" and ?D = "has (disk s) dev"
  have Q: "bam_ok sector has dok dev f' s'" "quiet sector has dok s s'" "geometry f' = geometry f"
    and V: "\<And>dv. dv \<noteq> dev \<Longrightarrow> ?V' dv = ?V dv" "\<And>n. n \<notin> bam_range f \<Longrightarrow> ?V' dev n = ?V dev n"
    and u: "\<And>n. n < nblocks f \<Longrightarrow> used ?V' dev f' n = used ?V dev f n"
    using A by (auto simp: allocated_def)
  have h: "has (disk s') = has (disk s)" by (rule quiet_has [OF Q(2)])
  note G = geometry_fields(8) [OF Q(3)] nblocks_geometry [OF Q(3)]
  note at = allocated_at [OF F A]
  have "live ?V' dev f' ?D = live ?V dev f ?D" using u G by (auto simp: live_def)
  moreover have "tree_ok U ?V' dev b \<longleftrightarrow> tree_ok U ?V dev b" for U unfolding tree_ok_def using at by auto
  ultimately have "file_ok sector has dok dev b f' s'"
    using F Q(1) quiet_nfree [OF Q(2)] h u G by (simp add: file_ok_def free_ok_def)
  then show ?thesis unfolding grows_def using Q V u at by (auto simp: lookup_def)
qed

lemma one_more_block_simps [simp]:
  "bmap (one_more_block b) = bmap b" "ndirblks (one_more_block b) = ndirblks b" "nindirlev (one_more_block b) = nindirlev b"
  by (simp_all add: one_more_block_def)

lemma blk_at_more [simp]: "blk_at V dev (one_more_block b) pos = blk_at V dev b pos"
  by (rule blk_at_fields) simp_all

lemma same_file_more: "same_file b (one_more_block b)" "same_file b (one_more_block (b\<lparr>bmap := bm\<rparr>))"
  unfolding same_file_def one_more_block_def
  by (intro exI [of _ "bmap b"] exI [of _ "(o_blocks b + 1) mod 2 ^ 32"] exI [of _ True], simp)
     (intro exI [of _ bm] exI [of _ "(o_blocks b + 1) mod 2 ^ 32"] exI [of _ True], simp)

context block_driver
begin

lemma bmap_dir_works:
  assumes F: "file_ok sector has dok dev b f s"
    and p0: "pos0 = (if k < ndirblks b then Dir k else Ind 0 (k - ndirblks b))" "pos0 \<in> inner_pos b \<or> pos0 = data_pos b log"
  shows "\<exists>r b' f' s'. nat_bmap_dir rd wr dev k alloc b f s = Some (r, b', f', s') \<and> grows sector has dok dev log b f s b' f' s' \<and>
     (case r of Inl e \<Rightarrow> ((k \<ge> NBMAP \<and> e = EFBIG) \<or> (k < NBMAP \<and> alloc \<and> e = ENOSPC)) \<and>
        lookup (view sector s') dev b' log = lookup (view sector s) dev b log
      | Inr bn \<Rightarrow> k < NBMAP \<and> bn = blk_at (view sector s') dev b' pos0 \<and> (alloc \<longrightarrow> bn \<noteq> 0)) \<and>
     (\<not> alloc \<longrightarrow> b' = b \<and> f' = f \<and> s' = s)"
proof -
  let ?V = "view sector s"
  have t: "tree_ok (live ?V dev f (has (disk s) dev)) ?V dev b" and fr: "free_ok ?V dev f (has (disk s) dev)"
    and ok: "bam_ok sector has dok dev f s" using F by (auto simp: file_ok_def)
  have at0: "blk_at V dev b' pos0 = unat (bmap b' ! k)" if "k < NBMAP" "ndirblks b' = ndirblks b" for V b'
    using that p0(1) by auto
  consider "k \<ge> NBMAP" | "k < NBMAP" "\<not> (alloc \<and> bmap b ! k = 0)" | "k < NBMAP" "alloc" "bmap b ! k = 0" by force
  then show ?thesis
  proof cases
    case 1
    then show ?thesis using grows_refl [OF F] by (simp add: nat_bmap_dir_def)
  next
    case 2
    then have "nat_bmap_dir rd wr dev k alloc b f s = Some (Inr (unat (bmap b ! k)), b, f, s)" by (auto simp: nat_bmap_dir_def)
    moreover have "alloc \<longrightarrow> unat (bmap b ! k) \<noteq> 0" using 2 by (simp add: unat_eq_zero)
    ultimately show ?thesis using grows_refl [OF F] at0 2(1) by auto
  next
    case 3
    obtain r f' s' where n: "new_block rd wr dev f s = Some (r, f', s')"
        "case r of Inl e \<Rightarrow> e = ENOSPC \<and> allocated sector has dok dev {} f s f' s'
         | Inr c \<Rightarrow> c < nblocks f \<and> \<not> used ?V dev f c \<and> allocated sector has dok dev {c} f s f' s'"
      using new_block_works [OF ok fr] by blast
    show ?thesis
    proof (cases r)
      case (Inl e)
      then have "nat_bmap_dir rd wr dev k alloc b f s = Some (Inl ENOSPC, b, f', s')" using n 3 by (auto simp: nat_bmap_dir_def)
      moreover have "lookup (view sector s') dev b log = lookup ?V dev b log"
        using n(2) Inl allocated_at [OF F, of f' s' "data_pos b log"] by (simp add: lookup_def)
      ultimately show ?thesis using n(2) Inl 3 grows_nothing [OF F] by auto
    next
      case (Inr c)
      let ?b = "b\<lparr>bmap := (bmap b)[k := word_of_nat c]\<rparr>"
      have c: "c < nblocks f" "\<not> used ?V dev f c" and A: "allocated sector has dok dev {c} f s f' s'" using n(2) Inr by auto
      have cr: "c \<noteq> 0" "c \<notin> bam_range f" using fr c by (auto simp: free_ok_def)
      have "nblocks f \<le> 2 ^ 32" using ok by (simp add: bam_ok_def nblocks_def)
      then have c32: "c < 2 ^ 32" using c(1) by simp
      have V: "view sector s' dev c = zeros" "\<And>n. n \<notin> bam_range f \<Longrightarrow> n \<noteq> c \<Longrightarrow> view sector s' dev n = ?V dev n"
        using A cr(2) by (auto simp: allocated_def)
      have cU: "c \<notin> live ?V dev f (has (disk s) dev)" using c(2) by (simp add: live_def)
      have l: "length (bmap b) = NBMAP" using t by (simp add: tree_ok_def)
      have at: "blk_at (view sector s') dev ?b pos = (if pos = pos0 then c else blk_at ?V dev b pos)" if "pos \<in> tpos b" for pos
        unfolding p0(1)
      proof (rule plant_bmap [OF t 3(1,3) cr(1) cU c32, where V' = "view sector s'" and pos = pos, OF V(1) _ that])
        fix q assume q: "q \<in> inner_pos b" "blk_at ?V dev b q \<noteq> 0"
        then have "q \<in> tpos b" using inner_tpos by blast
        note L = file_ok_live [OF F this q(2)]
        have "blk_at ?V dev b q \<noteq> c" using L(2) c(2) by auto
        then show "view sector s' dev (blk_at ?V dev b q) = ?V dev (blk_at ?V dev b q)" using V(2) L(3) by simp
      qed
      have t0: "pos0 \<in> tpos b" using p0(2) inner_tpos by auto
      have "blk_at ?V dev b pos0 = 0" using at0 [OF 3(1) refl] 3(3) by simp
      then have "grows sector has dok dev log b f s (one_more_block ?b) f' s'"
        using A c V at t0 p0(2) l same_file_more(2) cr
        by (intro grows_plant [OF F, where c = c and ?pos0.0 = pos0]) (auto simp: allocated_def)
      moreover have "nat_bmap_dir rd wr dev k alloc b f s = Some (Inr c, one_more_block ?b, f', s')"
        using n(1) Inr 3 l c32 by (simp add: nat_bmap_dir_def unat_of_blk)
      moreover have "blk_at (view sector s') dev (one_more_block ?b) pos0 = c" using at [OF t0] by simp
      ultimately show ?thesis using 3 cr(1) by auto
    qed
  qed
qed

end

lemma quiet_bracket:
  assumes "buf_kept s s1" and "refs s1 = (refs s)(x := refs s x + 1)" and "refs s x \<ge> 0" and "has (disk s1) = has (disk s)"
    and "quiet sector has dok s1 s2"
    and "ready sector has dok s3" and "buf_kept s2 s3" and "refs s3 = (refs s2)(x := refs s2 x - 1)" and "has (disk s3) = has (disk s2)"
  shows "quiet sector has dok s s3"
proof -
  have q: "buf_kept s1 s2" "refs s2 = refs s1" "has (disk s2) = has (disk s1)" using assms(5) by (simp_all add: quiet_def)
  have "buf_kept s s3"
    by (rule buf_kept_trans [OF buf_kept_trans [OF assms(1) q(1)] assms(7)]) (use assms(2,3) q(2) in \<open>auto split: if_splits\<close>)
  then show ?thesis using assms q by (simp add: quiet_def)
qed

lemma bam_ok_agree:
  assumes "bam_ok sector has dok dev f s" and "ready sector has dok s'" and "nfree s' > 0" and "has (disk s') = has (disk s)"
    and "\<And>n. n \<in> bam_range f \<Longrightarrow> view sector s' dev n = view sector s dev n"
  shows "bam_ok sector has dok dev f s'"
  using assms by (auto simp: bam_ok_def)

lemma used_agree:
  assumes "\<And>n. n \<in> bam_range f \<Longrightarrow> V' dev n = V dev n" and "n < nblocks f"
  shows "used V' dev f n = used V dev f n"
proof -
  have "n div (BLK_SIZE * 8) < bam_size f" using assms(2) by (simp add: nblocks_def less_mult_imp_div_less)
  then show ?thesis using assms(1) by (simp add: used_def map_bit_def bam_view_def bam_range_def)
qed

lemma ind_zero: "ind V dev b d (q div 128 ^ i) = 0 \<Longrightarrow> ind V dev b (d + i) q = 0"
proof (induction i arbitrary: q)
  case (Suc i)
  have "q div 128 div 128 ^ i = q div 128 ^ Suc i" by (simp add: div_mult2_eq)
  then show ?case using Suc by simp
qed simp

text \<open>Reading and letting go of a buffer does not change the file.\<close>

lemma grows_quiet:
  assumes "file_ok sector has dok dev b f s" and "quiet sector has dok s s'" and "view sector s' = view sector s"
  shows "grows sector has dok dev log b f s b f s'"
proof (rule grows_nothing [OF assms(1)])
  have "bam_ok sector has dok dev f s" using assms(1) by (simp add: file_ok_def)
  then have "bam_ok sector has dok dev f s'"
    by (rule bam_ok_agree) (use assms quiet_ready [OF assms(2)] quiet_has [OF assms(2)] quiet_nfree [OF assms(2)] in \<open>simp_all add: file_ok_def\<close>)
  then show "allocated sector has dok dev {} f s f s'" using assms(2,3) by (simp add: allocated_def)
qed

context block_driver
begin

text \<open>One level down where there is nothing yet: a new block, and its number in the block above.\<close>

lemma walk_alloc:
  assumes F: "file_ok sector has dok dev b f s" and d: "Suc d \<le> nindirlev b" and p: "Ind (Suc d) p \<in> inner_pos b \<or> Ind (Suc d) p = data_pos b log"
    and bn: "bn = ind (view sector s) dev b d (p div 128)" "bn \<noteq> 0" and hole: "ind (view sector s) dev b (Suc d) p = 0"
    and rd: "ready sector has dok s1" "view sector s1 = view sector s" "has (disk s1) = has (disk s)" "buf_kept s s1"
      "refs s bb \<ge> 0" "refs s1 = (refs s)(bb := refs s bb + 1)" "held s1 bb dev bn"
  shows "\<exists>r f1 s2. new_block rd wr dev f s1 = Some (r, f1, s2) \<and>
     (case r of
        Inl e \<Rightarrow> e = ENOSPC \<and> (\<exists>s3. blk_put (Some bb) s2 = Some s3 \<and> grows sector has dok dev log b f s b f1 s3 \<and>
          lookup (view sector s3) dev b log = lookup (view sector s) dev b log)
      | Inr c \<Rightarrow> c \<noteq> 0 \<and> (\<exists>s3. blk_put (Some bb) (upd_blk bb (\<lambda>v. v\<lparr>b_data := put32 (p mod 128) (word_of_nat c) (b_data v), b_dirty := True\<rparr>) s2) = Some s3 \<and>
          grows sector has dok dev log b f s (one_more_block b) f1 s3 \<and> c = ind (view sector s3) dev (one_more_block b) (Suc d) p))"
proof -
  let ?V = "view sector s"
  have ok: "bam_ok sector has dok dev f s" and fr: "free_ok ?V dev f (has (disk s) dev)"
    and t: "tree_ok (live ?V dev f (has (disk s) dev)) ?V dev b" and nf: "nfree s \<ge> 2" using F by (auto simp: file_ok_def)
  have "nfree s1 > 0" using nfree_drop [OF _ rd(6)] rd(4) nf by (auto simp: buf_kept_def)
  then have ok1: "bam_ok sector has dok dev f s1" using bam_ok_agree [OF ok rd(1)] rd(2,3) by simp
  have fr1: "free_ok (view sector s1) dev f (has (disk s1) dev)" using fr rd(2,3) by simp
  have pos: "Ind d (p div 128) \<in> inner_pos b" using d by (auto simp: inner_pos_def)
  then have tp: "Ind d (p div 128) \<in> tpos b" using inner_tpos by blast
  note L = file_ok_live [OF F tp, simplified, folded bn(1), OF bn(2) [unfolded neq0_conv]]
  obtain r f1 s2 where n: "new_block rd wr dev f s1 = Some (r, f1, s2)"
      "case r of Inl e \<Rightarrow> e = ENOSPC \<and> allocated sector has dok dev {} f s1 f1 s2
       | Inr c \<Rightarrow> c < nblocks f \<and> \<not> used (view sector s1) dev f c \<and> allocated sector has dok dev {c} f s1 f1 s2"
    using new_block_works [OF ok1 fr1] by blast
  show ?thesis
  proof (cases r)
    case (Inl e)
    then have A: "allocated sector has dok dev {} f s1 f1 s2" using n(2) by simp
    then have q: "quiet sector has dok s1 s2" and ok2: "bam_ok sector has dok dev f1 s2" by (simp_all add: allocated_def)
    have h2: "held s2 bb dev bn" by (rule held_quiet [OF rd(7) q])
    obtain s3 where s3: "blk_put (Some bb) s2 = Some s3" "ready sector has dok s3" "view sector s3 = view sector s2"
        "has (disk s3) = has (disk s2)" "buf_kept s2 s3" "refs s3 = (refs s2)(bb := refs s2 bb - 1)"
      using use_put [OF quiet_ready [OF q], of bb] h2 by (auto simp: held_def)
    have Q: "quiet sector has dok s s3" by (rule quiet_bracket [OF rd(4,6,5,3) q s3(2,5,6,4)])
    have "bam_ok sector has dok dev f1 s3"
      by (rule bam_ok_agree [OF ok2 s3(2) _ s3(4)]) (use quiet_nfree [OF Q] nf s3(3) in auto)
    then have A3: "allocated sector has dok dev {} f s f1 s3" using A Q rd(2) s3(3) by (simp add: allocated_def)
    then have "grows sector has dok dev log b f s b f1 s3" by (rule grows_nothing [OF F])
    then show ?thesis using n Inl s3(1) allocated_at [OF F A3, of "data_pos b log"] by (auto simp: lookup_def)
  next
    case (Inr c)
    then have A: "allocated sector has dok dev {c} f s1 f1 s2" and c: "c < nblocks f" "\<not> used ?V dev f c" using n(2) rd(2) by auto
    have q: "quiet sector has dok s1 s2" and ok2: "bam_ok sector has dok dev f1 s2" and g: "geometry f1 = geometry f"
      using A by (simp_all add: allocated_def)
    note G = geometry_fields(8) [OF g]
    have cr: "c \<noteq> 0" "c \<notin> bam_range f" using fr c by (auto simp: free_ok_def)
    have "nblocks f \<le> 2 ^ 32" using ok by (simp add: bam_ok_def nblocks_def)
    then have c32: "c < 2 ^ 32" using c(1) by simp
    have cb: "c \<noteq> bn" using L(2) c(2) by auto
    have V2: "view sector s2 dev c = zeros" "\<And>n. n \<notin> bam_range f \<Longrightarrow> n \<noteq> c \<Longrightarrow> view sector s2 dev n = ?V dev n"
      using A cr(2) rd(2) by (auto simp: allocated_def)
    have h2: "held s2 bb dev bn" by (rule held_quiet [OF rd(7) q])
    have r2: "ready sector has dok s2" "has (disk s2) dev bn" using quiet_ready [OF q] quiet_has [OF q] rd(3) L(4) by simp_all
    have lb: "b_data (blk s2 bb) = ?V dev bn" using held_data [OF r2(1) h2] V2(2) L(3) cb by simp
    have len: "length (?V dev bn) = BLK_SIZE" using held_length [OF r2(1) h2] lb by simp
    let ?w = "put32 (p mod 128) (word_of_nat c) (?V dev bn)"
    let ?s = "upd_blk bb (\<lambda>v. v\<lparr>b_data := ?w, b_dirty := True, b_valid := True\<rparr>) s2"
    have eq: "upd_blk bb (\<lambda>v. v\<lparr>b_data := put32 (p mod 128) (word_of_nat c) (b_data v), b_dirty := True\<rparr>) s2 = ?s"
      using h2 lb by (auto simp: upd_blk_def held_def fun_eq_iff)
    have h2': "bb < blk_count s2" "is_block dev bn (blk s2 bb)" "refs s2 bb > 0" using h2 by (simp_all add: held_def)
    have wl: "length ?w = BLK_SIZE" using len by simp
    note st = use_store [OF r2(1,2) h2' wl]
    have q': "quiet sector has dok s1 ?s" by (rule quiet_trans [OF q st(1)])
    obtain s3 where s3: "blk_put (Some bb) ?s = Some s3" "ready sector has dok s3" "view sector s3 = view sector ?s"
        "has (disk s3) = has (disk ?s)" "buf_kept ?s s3" "refs s3 = (refs ?s)(bb := refs ?s bb - 1)"
      using use_put [OF quiet_ready [OF st(1)], of bb] st(3) by (auto simp: held_def)
    have Q: "quiet sector has dok s s3" by (rule quiet_bracket [OF rd(4,6,5,3) q' s3(2,5,6,4)])
    have V3: "view sector s3 dev n = (if n = bn then ?w else view sector s2 dev n)" for n using s3(3) st(2) by simp
    have nr: "n \<noteq> bn" if "n \<in> bam_range f1" for n using that L(3) G by auto
    have ok3: "bam_ok sector has dok dev f1 s3"
      by (rule bam_ok_agree [OF ok2 s3(2)]) (use quiet_nfree [OF Q] nf V3 nr s3(4) quiet_has [OF st(1)] in auto)
    have cU: "c \<notin> live ?V dev f (has (disk s) dev)" using c(2) by (simp add: live_def)
    have at: "blk_at (view sector s3) dev b pos = (if pos = Ind (Suc d) p then c else blk_at ?V dev b pos)" if "pos \<in> tpos b" for pos
    proof (rule plant_ind [OF t d cr(1) cU c32 bn len hole])
      show "view sector s3 dev c = zeros" "view sector s3 dev bn = ?w" using V3 cb V2(1) by simp_all
      fix q assume q: "q \<in> inner_pos b" "blk_at ?V dev b q \<noteq> 0" "blk_at ?V dev b q \<noteq> bn"
      then have "q \<in> tpos b" using inner_tpos by blast
      note L' = file_ok_live [OF F this q(2)]
      have "blk_at ?V dev b q \<noteq> c" using L'(2) c(2) by auto
      then show "view sector s3 dev (blk_at ?V dev b q) = ?V dev (blk_at ?V dev b q)" using V3 V2(2) L'(3) q(3) by simp
    qed (rule that)
    have g': "grows sector has dok dev log b f s (one_more_block b) f1 s3"
    proof (rule grows_plant [OF F ok3 Q g _ c, where ?pos0.0 = "Ind (Suc d) p"])
      fix n assume n: "n < nblocks f"
      then have "used (view sector s3) dev f1 n = used (view sector s2) dev f1 n"
        using nblocks_geometry [OF g] V3 nr by (intro used_agree) auto
      then show "used (view sector s3) dev f1 n \<longleftrightarrow> n = c \<or> used ?V dev f n" using A n rd(2) by (auto simp: allocated_def)
    next
      fix dv assume "dv \<noteq> dev"
      then show "view sector s3 dv = ?V dv" using s3(3) st(2) A rd(2) by (auto simp: allocated_def)
    next
      show "view sector s3 dev c = zeros" using V3 cb V2(1) by simp
    next
      fix n assume "n \<notin> bam_range f" "n \<noteq> c" "n \<notin> inner_blocks ?V dev b"
      moreover from this(3) have "n \<noteq> bn" using pos bn by (force simp: inner_blocks_def)
      ultimately show "view sector s3 dev n = ?V dev n" using V3 V2(2) by simp
    qed (use at p hole d same_file_more(1) t in \<open>auto simp: tree_ok_def\<close>)
    moreover have "c = ind (view sector s3) dev (one_more_block b) (Suc d) p"
      using at [of "Ind (Suc d) p"] d blk_at_more [of "view sector s3" dev b "Ind (Suc d) p"] by simp
    ultimately show ?thesis using n(1) Inr s3(1) cr(1) unfolding eq [symmetric] by auto
  qed
qed

lemma walk_works:
  "file_ok sector has dok dev b f s \<Longrightarrow> j \<le> nindirlev b \<Longrightarrow> ndirblks b \<le> log \<Longrightarrow>
   bn = ind (view sector s) dev b (nindirlev b - j) (log div 128 ^ j) \<Longrightarrow>
   \<exists>r b' f' s'. bmap_walk rd wr dev log alloc j bn b f s = Some (r, b', f', s') \<and> grows sector has dok dev log b f s b' f' s' \<and>
     (case r of Inl e \<Rightarrow> alloc \<and> e = ENOSPC \<and> lookup (view sector s') dev b' log = 0
      | Inr n \<Rightarrow> n = lookup (view sector s') dev b' log \<and> (alloc \<longrightarrow> bn \<noteq> 0 \<longrightarrow> n \<noteq> 0)) \<and>
     (\<not> alloc \<longrightarrow> b' = b \<and> f' = f \<and> view sector s' = view sector s)"
proof (induction j arbitrary: bn b f s)
  case 0
  then show ?case using grows_refl by (fastforce simp: lookup_def data_pos_def)
next
  case (Suc j)
  note F = Suc.prems(1)
  let ?V = "view sector s" and ?p = "log div 128 ^ j" and ?L = "nindirlev b"
  define d where "d = ?L - Suc j"
  have d: "Suc d = ?L - j" "Suc d \<le> ?L" "d < ?L" using Suc.prems(2) by (auto simp: d_def)
  have pd: "?p div 128 = log div 128 ^ Suc j" by (simp add: div_mult2_eq [symmetric] mult.commute)
  have bn: "bn = ind ?V dev b d (?p div 128)" using Suc.prems(4) pd by (simp add: d_def)
  have lk: "data_pos b log = Ind ?L log" using Suc.prems(3) by (simp add: data_pos_def)
  have look0: "lookup ?V dev b log = 0" if "ind ?V dev b (Suc d) ?p = 0"
    using ind_zero [OF that] d(1) Suc.prems(2) lk by (simp add: lookup_def)
  have pp: "Ind (Suc d) ?p \<in> inner_pos b \<or> Ind (Suc d) ?p = data_pos b log"
  proof (cases j)
    case 0
    then show ?thesis using lk d(1) by simp
  next
    case (Suc i)
    then have "Suc d < ?L" using d(1) Suc.prems(2) \<open>Suc j \<le> ?L\<close> by simp
    then show ?thesis by (auto simp: inner_pos_def)
  qed
  show ?case
  proof (cases "bn = 0")
    case True
    then have "ind ?V dev b (Suc d) ?p = 0" using bn by simp
    then show ?thesis using True grows_refl [OF F] look0 by fastforce
  next
    case False
    have "Ind d (?p div 128) \<in> tpos b" using d(3) by simp
    note L = file_ok_live [OF F this, simplified, folded bn, OF False [unfolded neq0_conv]]
    have r: "ready sector has dok s" "nfree s > 0" using F by (auto simp: file_ok_def bam_ok_def)
    obtain bb s1 where s1: "blk_read rd wr dev bn s = Some (Inr bb, s1)" "ready sector has dok s1" "view sector s1 = ?V"
        "has (disk s1) = has (disk s)" "buf_kept s s1" "refs s bb \<ge> 0" "refs s1 = (refs s)(bb := refs s bb + 1)" "held s1 bb dev bn"
      using use_read [OF r L(4)] by blast
    have k: "log div 2 ^ (7 * j) mod 128 = ?p mod 128" by (simp add: power_mult)
    have c: "unat (le32 (b_data (blk s1 bb)) (?p mod 128)) = ind ?V dev b (Suc d) ?p"
      using held_data [OF s1(2,8)] s1(3) bn False by simp
    obtain s2 where s2: "blk_put (Some bb) s1 = Some s2" "ready sector has dok s2" "view sector s2 = view sector s1"
        "has (disk s2) = has (disk s1)" "buf_kept s1 s2" "refs s2 = (refs s1)(bb := refs s1 bb - 1)"
      using use_put [OF s1(2), of bb] s1(8) by (auto simp: held_def)
    have "quiet sector has dok s s2" by (rule quiet_bracket [OF s1(5,7,6,4) quiet_refl [OF s1(2)] s2(2,5,6,4)])
    then have g2: "grows sector has dok dev log b f s b f s2" using s2(3) s1(3) by (intro grows_quiet [OF F]) simp_all
    consider "ind ?V dev b (Suc d) ?p \<noteq> 0" | "ind ?V dev b (Suc d) ?p = 0" "\<not> alloc" | "ind ?V dev b (Suc d) ?p = 0" alloc by blast
    then show ?thesis
    proof cases
      case 1
      let ?c = "ind ?V dev b (Suc d) ?p"
      have w: "bmap_walk rd wr dev log alloc (Suc j) bn b f s = bmap_walk rd wr dev log alloc j ?c b f s2"
        using False s1(1) s2(1) 1 c unfolding bmap_walk.simps k Let_def by simp
      have "?c = ind (view sector s2) dev b (?L - j) ?p" using s2(3) s1(3) d(1) by simp
      moreover have jl: "j \<le> ?L" using Suc.prems(2) by simp
      ultimately obtain r b' f' s' where IH: "bmap_walk rd wr dev log alloc j ?c b f s2 = Some (r, b', f', s')"
          "grows sector has dok dev log b f s2 b' f' s'"
          "case r of Inl e \<Rightarrow> alloc \<and> e = ENOSPC \<and> lookup (view sector s') dev b' log = 0
           | Inr n \<Rightarrow> n = lookup (view sector s') dev b' log \<and> (alloc \<longrightarrow> ?c \<noteq> 0 \<longrightarrow> n \<noteq> 0)"
          "\<not> alloc \<longrightarrow> b' = b \<and> f' = f \<and> view sector s' = view sector s2"
        using Suc.IH [OF growsD(1) [OF g2] jl Suc.prems(3), of ?c] by blast
      have "grows sector has dok dev log b f s b' f' s'" by (rule grows_trans [OF F g2 IH(2)])
      then show ?thesis using w IH 1 s2(3) s1(3) by (auto split: sum.splits)
    next
      case 2
      have "bmap_walk rd wr dev log alloc (Suc j) bn b f s = Some (Inr 0, b, f, s2)"
        using False s1(1) s2(1) 2 c unfolding bmap_walk.simps k Let_def by simp
      then show ?thesis using g2 2 look0 s2(3) s1(3) by auto
    next
      case 3
      obtain r f1 s3 where n: "new_block rd wr dev f s1 = Some (r, f1, s3)"
          "case r of
             Inl e \<Rightarrow> e = ENOSPC \<and> (\<exists>s4. blk_put (Some bb) s3 = Some s4 \<and> grows sector has dok dev log b f s b f1 s4 \<and>
               lookup (view sector s4) dev b log = lookup ?V dev b log)
           | Inr c \<Rightarrow> c \<noteq> 0 \<and> (\<exists>s4. blk_put (Some bb) (upd_blk bb (\<lambda>v. v\<lparr>b_data := put32 (?p mod 128) (word_of_nat c) (b_data v), b_dirty := True\<rparr>) s3) = Some s4 \<and>
               grows sector has dok dev log b f s (one_more_block b) f1 s4 \<and> c = ind (view sector s4) dev (one_more_block b) (Suc d) ?p)"
        using walk_alloc [OF F d(2) pp bn False 3(1) s1(2-8)] by blast
      show ?thesis
      proof (cases r)
        case (Inl e)
        then obtain s4 where s4: "blk_put (Some bb) s3 = Some s4" "grows sector has dok dev log b f s b f1 s4" "e = ENOSPC"
            "lookup (view sector s4) dev b log = 0"
          using n(2) look0 [OF 3(1)] by auto
        then have "bmap_walk rd wr dev log alloc (Suc j) bn b f s = Some (Inl ENOSPC, b, f1, s4)"
          using False s1(1) 3 c n(1) Inl unfolding bmap_walk.simps k Let_def by simp
        then show ?thesis using s4(2,4) 3 by auto
      next
        case (Inr e)
        then obtain s4 where s4: "blk_put (Some bb) (upd_blk bb (\<lambda>v. v\<lparr>b_data := put32 (?p mod 128) (word_of_nat e) (b_data v), b_dirty := True\<rparr>) s3) = Some s4"
            "grows sector has dok dev log b f s (one_more_block b) f1 s4" "e = ind (view sector s4) dev (one_more_block b) (Suc d) ?p" "e \<noteq> 0"
          using n(2) by auto
        have w: "bmap_walk rd wr dev log alloc (Suc j) bn b f s = bmap_walk rd wr dev log alloc j e (one_more_block b) f1 s4"
          using False s1(1) 3 c n(1) Inr s4(1) unfolding bmap_walk.simps k Let_def by simp
        have m: "j \<le> nindirlev (one_more_block b)" "ndirblks (one_more_block b) \<le> log"
            "e = ind (view sector s4) dev (one_more_block b) (nindirlev (one_more_block b) - j) ?p"
          using Suc.prems(2,3) s4(3) d(1) by simp_all
        obtain r b' f' s' where IH: "bmap_walk rd wr dev log alloc j e (one_more_block b) f1 s4 = Some (r, b', f', s')"
            "grows sector has dok dev log (one_more_block b) f1 s4 b' f' s'"
            "case r of Inl e \<Rightarrow> alloc \<and> e = ENOSPC \<and> lookup (view sector s') dev b' log = 0
             | Inr n \<Rightarrow> n = lookup (view sector s') dev b' log \<and> (alloc \<longrightarrow> e \<noteq> 0 \<longrightarrow> n \<noteq> 0)"
          using Suc.IH [OF growsD(1) [OF s4(2)] m] by blast
        have "grows sector has dok dev log b f s b' f' s'" by (rule grows_trans [OF F s4(2) IH(2)])
        then show ?thesis using w IH(1,3) s4(4) 3(2) by (auto split: sum.splits)
      qed
    qed
  qed
qed

end

section \<open>The map of a file\<close>

text \<open>The last answer is remembered in the object.\<close>

definition bmap_cached :: "contents \<Rightarrow> nat \<Rightarrow> nat_fso \<Rightarrow> bool" where
  "bmap_cached V dev b \<longleftrightarrow> (bmap_valid b \<longrightarrow> bmap_phys b = lookup V dev b (bmap_log b))"

definition too_big :: "nat_fso \<Rightarrow> nat \<Rightarrow> bool" where
  "too_big b log \<longleftrightarrow> ndirblks b \<le> log \<and> NBMAP \<le> ndirblks b + log div 128 ^ nindirlev b"

lemma set_bmap_simps [simp]:
  "bmap (set_bmap log n b) = bmap b" "ndirblks (set_bmap log n b) = ndirblks b" "nindirlev (set_bmap log n b) = nindirlev b"
  "bmap_phys (set_bmap log n b) = n" "bmap_log (set_bmap log n b) = log" "bmap_valid (set_bmap log n b)"
  "o_size (set_bmap log n b) = o_size b" "o_mode (set_bmap log n b) = o_mode b"
  by (simp_all add: set_bmap_def)

lemma lookup_fields:
  assumes "bmap b' = bmap b" "ndirblks b' = ndirblks b" "nindirlev b' = nindirlev b"
  shows "lookup V dev b' log = lookup V dev b log"
  using blk_at_fields [OF assms(1,2)] assms by (simp add: lookup_def data_pos_def)

lemma file_ok_fields:
  assumes "bmap b' = bmap b" "ndirblks b' = ndirblks b" "nindirlev b' = nindirlev b"
  shows "file_ok sector has dok dev b' f s = file_ok sector has dok dev b f s"
proof -
  have "tpos b' = tpos b" using assms by (simp add: tpos_def)
  then have "tree_ok U V dev b' = tree_ok U V dev b" for U V using blk_at_fields [OF assms(1,2)] assms by (simp add: tree_ok_def)
  then show ?thesis by (simp add: file_ok_def)
qed

lemma grows_cached:
  assumes "file_ok sector has dok dev b f s" and "grows sector has dok dev log b f s b' f' s'" and "bmap_cached (view sector s) dev b"
    and "bmap_valid b \<Longrightarrow> bmap_log b = log \<Longrightarrow> lookup (view sector s') dev b' log = lookup (view sector s) dev b log"
  shows "bmap_cached (view sector s') dev b'"
  using assms growsD(8) [OF assms(2)] same_file_simps(7-9) [OF growsD(4) [OF assms(2)]]
  by (cases "bmap_log b = log") (auto simp: bmap_cached_def)

context block_driver
begin

text \<open>
  \<open>b1\<close> is the object without the note of the last answer. An error leaves every block of the file where it is; without \<open>alloc\<close>
  nothing changes at all.
\<close>

lemma nat_bmap_works:
  assumes F: "file_ok sector has dok dev b f s" and C: "bmap_cached (view sector s) dev b"
    and lev: "7 * nindirlev b < 32" and log: "log < 2 ^ 31"
  shows "\<exists>e b1 b' f' s'. nat_bmap rd wr dev log alloc b f s = Some (e, b', f', s') \<and> grows sector has dok dev log b f s b1 f' s' \<and>
     (if e = EZERO then (b' = b1 \<or> b' = set_bmap log (bmap_phys b') b1) \<and> bmap_valid b' \<and> bmap_log b' = log \<and>
        bmap_phys b' = lookup (view sector s') dev b1 log \<and> (alloc \<longrightarrow> bmap_phys b' \<noteq> 0)
      else b' = b1 \<and> lookup (view sector s') dev b1 log = lookup (view sector s) dev b log \<and>
        ((too_big b log \<and> e = EFBIG) \<or> (\<not> too_big b log \<and> alloc \<and> e = ENOSPC))) \<and>
     (\<not> alloc \<longrightarrow> b1 = b \<and> f' = f \<and> view sector s' = view sector s)"
proof -
  let ?V = "view sector s"
  have nd: "ndirblks b \<le> NBMAP" using F by (simp add: file_ok_def tree_ok_def)
  consider "bmap_valid b \<and> bmap_log b = log \<and> (\<not> alloc \<or> bmap_phys b \<noteq> 0)"
    | "\<not> (bmap_valid b \<and> bmap_log b = log \<and> (\<not> alloc \<or> bmap_phys b \<noteq> 0))" "log < ndirblks b"
    | "\<not> (bmap_valid b \<and> bmap_log b = log \<and> (\<not> alloc \<or> bmap_phys b \<noteq> 0))" "ndirblks b \<le> log" by linarith
  then show ?thesis
  proof cases
    case 1
    then have "nat_bmap rd wr dev log alloc b f s = Some (EZERO, b, f, s)" by (simp add: nat_bmap_def)
    moreover have "bmap_phys b = lookup ?V dev b log" using 1 C by (simp add: bmap_cached_def)
    ultimately show ?thesis using 1 grows_refl [OF F, of log]
      by (intro exI [of _ EZERO] exI [of _ b] exI [of _ b] exI [of _ f] exI [of _ s]) auto
  next
    case 2
    have p0: "Dir log = (if log < ndirblks b then Dir log else Ind 0 (log - ndirblks b))" "Dir log \<in> inner_pos b \<or> Dir log = data_pos b log"
      using 2(2) by (auto simp: data_pos_def)
    obtain r b1 f' s' where d: "nat_bmap_dir rd wr dev log alloc b f s = Some (r, b1, f', s')" "grows sector has dok dev log b f s b1 f' s'"
        "case r of Inl e \<Rightarrow> ((log \<ge> NBMAP \<and> e = EFBIG) \<or> (log < NBMAP \<and> alloc \<and> e = ENOSPC)) \<and>
           lookup (view sector s') dev b1 log = lookup ?V dev b log
         | Inr bn \<Rightarrow> log < NBMAP \<and> bn = blk_at (view sector s') dev b1 (Dir log) \<and> (alloc \<longrightarrow> bn \<noteq> 0)"
        "\<not> alloc \<longrightarrow> b1 = b \<and> f' = f \<and> s' = s"
      using bmap_dir_works [OF F p0, of alloc] by blast
    have nb: "nat_bmap rd wr dev log alloc b f s = bmap_done log (Some (r, b1, f', s'))" using 2 d(1) by (auto simp: nat_bmap_def)
    have dp: "data_pos b1 log = Dir log" using same_file_simps(5) [OF growsD(4) [OF d(2)]] 2(2) by (simp add: data_pos_def)
    show ?thesis
    proof (cases r)
      case (Inl e)
      then have "e = ENOSPC" "alloc" "lookup (view sector s') dev b1 log = lookup ?V dev b log" using d(3) 2(2) nd by auto
      moreover have "\<not> too_big b log" using 2(2) by (simp add: too_big_def)
      ultimately show ?thesis using nb d(2) Inl by (auto simp: bmap_done_def)
    next
      case (Inr bn)
      then show ?thesis using nb d(2-4) dp by (auto simp: bmap_done_def lookup_def intro!: exI [of _ b1])
    qed
  next
    case 3
    let ?L = "nindirlev b"
    let ?k = "ndirblks b + log div 2 ^ (7 * ?L)"
    have pw: "(2 :: nat) ^ (7 * ?L) = 128 ^ ?L" by (simp add: power_mult)
    have "log div 2 ^ (7 * ?L) \<le> log" "(2 :: nat) ^ 31 + 114 < 2 ^ 32" by simp_all
    then have k: "?k mod 2 ^ 32 = ?k" using nd log by (intro mod_less) linarith
    have p0: "Ind 0 (log div 128 ^ ?L) = (if ?k < ndirblks b then Dir ?k else Ind 0 (?k - ndirblks b))"
        "Ind 0 (log div 128 ^ ?L) \<in> inner_pos b \<or> Ind 0 (log div 128 ^ ?L) = data_pos b log"
      using 3(2) pw by (cases ?L; auto simp: data_pos_def inner_pos_def)+
    obtain r b1 f1 s1 where d: "nat_bmap_dir rd wr dev ?k alloc b f s = Some (r, b1, f1, s1)" "grows sector has dok dev log b f s b1 f1 s1"
        "case r of Inl e \<Rightarrow> ((?k \<ge> NBMAP \<and> e = EFBIG) \<or> (?k < NBMAP \<and> alloc \<and> e = ENOSPC)) \<and>
           lookup (view sector s1) dev b1 log = lookup ?V dev b log
         | Inr bn \<Rightarrow> ?k < NBMAP \<and> bn = blk_at (view sector s1) dev b1 (Ind 0 (log div 128 ^ ?L)) \<and> (alloc \<longrightarrow> bn \<noteq> 0)"
        "\<not> alloc \<longrightarrow> b1 = b \<and> f1 = f \<and> s1 = s"
      using bmap_dir_works [OF F p0, of alloc] by blast
    have tb: "too_big b log \<longleftrightarrow> ?k \<ge> NBMAP" using 3(2) pw by (simp add: too_big_def)
    note S = same_file_simps [OF growsD(4) [OF d(2)]]
    show ?thesis
    proof (cases r)
      case (Inl e)
      then have "nat_bmap rd wr dev log alloc b f s = Some (e, b1, f1, s1)"
        using 3 lev d(1) k by (auto simp: nat_bmap_def bmap_done_def)
      moreover have "e = EFBIG \<and> too_big b log \<or> alloc \<and> \<not> too_big b log \<and> e = ENOSPC"
          "lookup (view sector s1) dev b1 log = lookup ?V dev b log" using d(3) Inl tb by auto
      ultimately show ?thesis using d(2,4) by auto
    next
      case (Inr bn)
      have bn: "bn = ind (view sector s1) dev b1 (nindirlev b1 - ?L) (log div 128 ^ ?L)" "alloc \<longrightarrow> bn \<noteq> 0" "?k < NBMAP"
      proof -
        have x: "?k < NBMAP \<and> bn = ind (view sector s1) dev b1 0 (log div 128 ^ ?L) \<and> (alloc \<longrightarrow> bn \<noteq> 0)"
          using d(3) unfolding Inr sum.case blk_at_simps .
        then show "alloc \<longrightarrow> bn \<noteq> 0" "?k < NBMAP" by blast+
        have "nindirlev b1 - ?L = 0" using S(2) by simp
        then show "bn = ind (view sector s1) dev b1 (nindirlev b1 - ?L) (log div 128 ^ ?L)" using x by (simp only: )
      qed
      have m: "?L \<le> nindirlev b1" "ndirblks b1 \<le> log" using S(1,2) 3(2) by simp_all
      obtain r2 b2 f2 s2 where w: "bmap_walk rd wr dev log alloc ?L bn b1 f1 s1 = Some (r2, b2, f2, s2)"
          "grows sector has dok dev log b1 f1 s1 b2 f2 s2"
          "case r2 of Inl e \<Rightarrow> alloc \<and> e = ENOSPC \<and> lookup (view sector s2) dev b2 log = 0
           | Inr n \<Rightarrow> n = lookup (view sector s2) dev b2 log \<and> (alloc \<longrightarrow> bn \<noteq> 0 \<longrightarrow> n \<noteq> 0)"
          "\<not> alloc \<longrightarrow> b2 = b1 \<and> f2 = f1 \<and> view sector s2 = view sector s1"
        using walk_works [OF growsD(1) [OF d(2)] m bn(1), of alloc] by blast
      have g: "grows sector has dok dev log b f s b2 f2 s2" by (rule grows_trans [OF F d(2) w(2)])
      have nb: "nat_bmap rd wr dev log alloc b f s = bmap_done log (Some (r2, b2, f2, s2))"
        using 3 lev d(1) k Inr w(1) by (auto simp: nat_bmap_def)
      show ?thesis
      proof (cases r2)
        case (Inl e)
        then have "lookup (view sector s2) dev b2 log = 0" using w(3) by simp
        moreover from this have "lookup ?V dev b log = 0"
          using growsD(5) [OF g, of "data_pos b log"] same_file_simps(5) [OF growsD(4) [OF g]] by (fastforce simp: lookup_def)
        ultimately show ?thesis using Inl nb g w(3) tb bn(3) by (auto simp: bmap_done_def)
      next
        case (Inr n)
        then show ?thesis using nb g w(3,4) d(4) bn(2) by (auto simp: bmap_done_def intro!: exI [of _ b2])
      qed
    qed
  qed
qed

end

end
