(* ===== verification/Nat_File.thy ===== *)
theory Nat_File
  imports Nat_Bmap
begin

text \<open>
  The native file system: reading and writing files (\<^verbatim>\<open>kern/fs/nat/rw.c\<close>) and the objects that describe them
  (\<^verbatim>\<open>kern/fs/nat/fso.c\<close>).

  A request is an offset and a count; the bytes read are the result, the bytes to write an argument. \<open>perm\<close> is the
  answer of \<^verbatim>\<open>fs_chk_perm\<close> (\<open>Fs_File\<close>), \<open>now\<close> that of \<^verbatim>\<open>clock_time\<close>; \<open>ro\<close> and \<open>noat\<close> are \<^verbatim>\<open>read_only\<close> and \<^verbatim>\<open>no_atime\<close> of the file system. Offsets are unsigned numbers of 64 bits, so
  the comparisons with 0 in the code never hold.
\<close>

unbundle bit_operations_syntax

section \<open>Reading and writing\<close>

abbreviation (input) S_IFMT :: "32 word" where "S_IFMT \<equiv> 0x7000"
abbreviation (input) S_IFDIR :: "32 word" where "S_IFDIR \<equiv> 0x3000"
abbreviation (input) S_IFREG :: "32 word" where "S_IFREG \<equiv> 0"
abbreviation (input) NAT_FILE_SIZE_MAX :: nat where "NAT_FILE_SIZE_MAX \<equiv> 0x7fffffff"

type_synonym 'd read_res = "((errno + 8 word list) \<times> nat_fso \<times> nat_fs \<times> 'd bcache) option"

text \<open>The part of the request that is in the block of its offset.\<close>

definition chunk :: "nat \<Rightarrow> nat \<Rightarrow> nat" where
  "chunk off count = (if count > BLK_SIZE - off mod BLK_SIZE then BLK_SIZE - off mod BLK_SIZE else count)"

lemma chunk_pos [simp]: "count > 0 \<Longrightarrow> chunk off count > 0"
  by (simp add: chunk_def)

lemma chunk_le: "chunk off count \<le> count" "off mod BLK_SIZE + chunk off count \<le> BLK_SIZE"
  by (auto simp: chunk_def)

function read_loop :: "'d drv_read \<Rightarrow> 'd drv_write \<Rightarrow> nat \<Rightarrow> nat \<Rightarrow> nat \<Rightarrow> nat_fso \<Rightarrow> nat_fs \<Rightarrow> 'd bcache \<Rightarrow> 'd read_res" where
  "read_loop rd wr dev off count b f s =
     (if count = 0 then Some (Inr [], b, f, s)
      else let l = chunk off count in do {
        (e, b1, f1, s1) \<leftarrow> nat_bmap rd wr dev (off div BLK_SIZE) False b f s;
        if e \<noteq> EZERO then Some (Inl e, b1, f1, s1)
        else do {
          (r, s2) \<leftarrow> (if bmap_phys b1 = 0 then Some (Inr (replicate l 0), s1)
                     else do {
                       (r, s2) \<leftarrow> blk_read rd wr dev (bmap_phys b1) s1;
                       (case r of
                          Inl e \<Rightarrow> Some (Inl e, s2)
                        | Inr bb \<Rightarrow> do {
                            s3 \<leftarrow> blk_put (Some bb) s2;
                            Some (Inr (take l (drop (off mod BLK_SIZE) (b_data (blk s2 bb)))), s3)
                          })
                     });
          (case r of
             Inl e \<Rightarrow> Some (Inl e, b1, f1, s2)
           | Inr bs \<Rightarrow> do {
               (r2, rest) \<leftarrow> read_loop rd wr dev (off + l) (count - l) b1 f1 s2;
               Some (case r2 of Inl e \<Rightarrow> Inl e | Inr bs2 \<Rightarrow> Inr (bs @ bs2), rest)
             })
        }
      })"
  by pat_completeness auto

termination read_loop
  by (relation "measure (\<lambda>(rd, wr, dev, off, count, b, f, s). count)") (auto simp: diff_less)

declare read_loop.simps [simp del]

definition nat_read ::
    "'d drv_read \<Rightarrow> 'd drv_write \<Rightarrow> nat \<Rightarrow> errno \<Rightarrow> int \<Rightarrow> bool \<Rightarrow> bool \<Rightarrow> nat \<Rightarrow> nat \<Rightarrow> nat_fso \<Rightarrow> nat_fs \<Rightarrow> 'd bcache \<Rightarrow> 'd read_res" where
  "nat_read rd wr dev perm now ro noat off count b f s =
     (if perm \<noteq> EZERO then Some (Inl perm, b, f, s)
      else if o_mode b AND S_IFMT = S_IFDIR then Some (Inl EISDIR, b, f, s)
      else if o_mode b AND S_IFMT \<noteq> S_IFREG then Some (Inl EINVAL, b, f, s)
      else if off > o_size b then Some (Inr [], b, f, s)
      else let count' = (if (off + count) mod 2 ^ 64 > o_size b then o_size b - off else count);
               b1 = (if \<not> ro \<and> \<not> noat then b\<lparr>atime := now, o_dirty := True\<rparr> else b)
           in read_loop rd wr dev off count' b1 f s)"

definition grow_size :: "nat \<Rightarrow> nat_fso \<Rightarrow> nat_fso" where
  "grow_size n b = (if n > o_size b then b\<lparr>o_size := n, o_dirty := True\<rparr> else b)"

function write_loop :: "'d drv_read \<Rightarrow> 'd drv_write \<Rightarrow> nat \<Rightarrow> nat \<Rightarrow> 8 word list \<Rightarrow> nat_fso \<Rightarrow> nat_fs \<Rightarrow> 'd bcache \<Rightarrow> 'd fso_res" where
  "write_loop rd wr dev off bs b f s =
     (if bs = [] then Some (EZERO, b, f, s)
      else let l = chunk off (length bs) in do {
        (e, b1, f1, s1) \<leftarrow> nat_bmap rd wr dev (off div BLK_SIZE) True b f s;
        if e \<noteq> EZERO then Some (e, b1, f1, s1)
        else if bmap_phys b1 = 0 then None
        else do {
          let b2 = grow_size (off + l) b1;
          (r, s2) \<leftarrow> (if l \<noteq> BLK_SIZE then blk_read rd wr dev (bmap_phys b1) s1 else blk_get wr dev (bmap_phys b1) s1);
          (case r of
             Inl e \<Rightarrow> Some (e, b2, f1, s2)
           | Inr bb \<Rightarrow> do {
               s3 \<leftarrow> blk_put (Some bb)
                      (upd_blk bb (\<lambda>v. v\<lparr>b_data := memcpy_in (b_data v) (off mod BLK_SIZE) (take l bs), b_dirty := True, b_valid := True\<rparr>) s2);
               write_loop rd wr dev (off + l) (drop l bs) b2 f1 s3
             })
        }
      })"
  by pat_completeness auto

termination write_loop
  by (relation "measure (\<lambda>(rd, wr, dev, off, bs, b, f, s). length bs)") (auto simp: diff_less)

declare write_loop.simps [simp del]

definition nat_write ::
    "'d drv_read \<Rightarrow> 'd drv_write \<Rightarrow> nat \<Rightarrow> errno \<Rightarrow> int \<Rightarrow> nat \<Rightarrow> 8 word list \<Rightarrow> nat_fso \<Rightarrow> nat_fs \<Rightarrow> 'd bcache \<Rightarrow> 'd fso_res" where
  "nat_write rd wr dev perm now off bs b f s =
     (if perm \<noteq> EZERO then Some (perm, b, f, s)
      else if o_mode b AND S_IFMT = S_IFDIR then Some (EISDIR, b, f, s)
      else if o_mode b AND S_IFMT \<noteq> S_IFREG then Some (EINVAL, b, f, s)
      else if (off + length bs) mod 2 ^ 64 \<ge> NAT_FILE_SIZE_MAX then Some (EINVAL, b, f, s)
      else write_loop rd wr dev off bs (b\<lparr>mtime := now, o_dirty := True\<rparr>) f s)"

section \<open>The contents of a file\<close>

text \<open>A file is a sequence of bytes; a hole is zero.\<close>

definition content :: "contents \<Rightarrow> nat \<Rightarrow> nat_fso \<Rightarrow> nat \<Rightarrow> 8 word" where
  "content V dev b x = (let n = lookup V dev b (x div BLK_SIZE) in if n = 0 then 0 else V dev n ! (x mod BLK_SIZE))"

text \<open>The blocks of a file, its data and its blocks of numbers.\<close>

definition owns :: "contents \<Rightarrow> nat \<Rightarrow> nat_fso \<Rightarrow> nat set" where
  "owns V dev b = blk_at V dev b ` tpos b - {0}"

definition file_inv ::
    "('d \<Rightarrow> nat \<Rightarrow> nat \<Rightarrow> 8 word list) \<Rightarrow> ('d \<Rightarrow> nat \<Rightarrow> nat \<Rightarrow> bool) \<Rightarrow> ('d \<Rightarrow> bool) \<Rightarrow> nat \<Rightarrow> nat_fso \<Rightarrow> nat_fs \<Rightarrow> 'd bcache \<Rightarrow> bool" where
  "file_inv sector has dok dev b f s \<longleftrightarrow>
     file_ok sector has dok dev b f s \<and> bmap_cached (view sector s) dev b \<and> 7 * nindirlev b < 32"

text \<open>What an operation on one file leaves alone: every block in use that is not the file's own.\<close>

definition spares ::
    "('d \<Rightarrow> nat \<Rightarrow> nat \<Rightarrow> 8 word list) \<Rightarrow> ('d \<Rightarrow> nat \<Rightarrow> nat \<Rightarrow> bool) \<Rightarrow> ('d \<Rightarrow> bool) \<Rightarrow> nat \<Rightarrow>
     nat_fso \<Rightarrow> nat_fs \<Rightarrow> 'd bcache \<Rightarrow> nat_fso \<Rightarrow> nat_fs \<Rightarrow> 'd bcache \<Rightarrow> bool" where
  "spares sector has dok dev b f s b' f' s' \<longleftrightarrow>
     quiet sector has dok s s' \<and> geometry f' = geometry f \<and>
     ndirblks b' = ndirblks b \<and> nindirlev b' = nindirlev b \<and> o_mode b' = o_mode b \<and>
     (\<forall>n < nblocks f. used (view sector s) dev f n \<longrightarrow> used (view sector s') dev f' n \<and>
        (n \<notin> bam_range f \<longrightarrow> n \<notin> owns (view sector s) dev b \<longrightarrow>
           n \<notin> owns (view sector s') dev b' \<and> view sector s' dev n = view sector s dev n)) \<and>
     (\<forall>dv. dv \<noteq> dev \<longrightarrow> view sector s' dv = view sector s dv)"

lemma spares_refl: "ready sector has dok s \<Longrightarrow> spares sector has dok dev b f s b f s"
  by (simp add: spares_def quiet_refl)

lemma spares_trans:
  assumes 1: "spares sector has dok dev b f s b1 f1 s1" and 2: "spares sector has dok dev b1 f1 s1 b2 f2 s2"
  shows "spares sector has dok dev b f s b2 f2 s2"
proof -
  have g: "geometry f1 = geometry f" using 1 by (simp add: spares_def)
  have q: "quiet sector has dok s s2" using quiet_trans [of sector has dok s s1 s2] 1 2 by (simp add: spares_def)
  show ?thesis using 1 2 q geometry_fields(8) [OF g] nblocks_geometry [OF g] unfolding spares_def by simp
qed

lemma data_not_inner:
  assumes "file_ok sector has dok dev b f s" and "lookup (view sector s) dev b log \<noteq> 0"
  shows "lookup (view sector s) dev b log \<notin> inner_blocks (view sector s) dev b"
proof
  assume "lookup (view sector s) dev b log \<in> inner_blocks (view sector s) dev b"
  then obtain pos where pos: "pos \<in> inner_pos b" "lookup (view sector s) dev b log = blk_at (view sector s) dev b pos"
    by (auto simp: inner_blocks_def)
  then have "pos \<in> tpos b" using inner_tpos by blast
  then have "data_pos b log = pos" using file_ok_inj [OF assms(1), of "data_pos b log" pos] pos(2) assms(2) by (simp add: lookup_def)
  then show False using pos(1) data_pos_inner by blast
qed

text \<open>Growing a file does not change its contents, and spares what is not its own.\<close>

lemma grows_content:
  assumes F: "file_ok sector has dok dev b f s" and G: "grows sector has dok dev log b f s b' f' s'"
  shows "content (view sector s') dev b' x = content (view sector s) dev b x"
proof -
  let ?V = "view sector s" and ?V' = "view sector s'" and ?l = "x div BLK_SIZE"
  note g = growsD [OF G]
  have dp: "data_pos b' ?l = data_pos b ?l" by (rule same_file_simps(5) [OF g(4)])
  show ?thesis
  proof (cases "lookup ?V dev b ?l = 0")
    case False
    have e: "lookup ?V' dev b' ?l = lookup ?V dev b ?l" using g(5) [of "data_pos b ?l"] False dp by (simp add: lookup_def)
    have "lookup ?V dev b ?l < nblocks f" "used ?V dev f (lookup ?V dev b ?l)" "lookup ?V dev b ?l \<notin> bam_range f"
      using file_ok_live [OF F, of "data_pos b ?l"] False by (simp_all add: lookup_def)
    from g(10) [OF this data_not_inner [OF F False]] show ?thesis by (simp add: content_def Let_def e)
  next
    case True
    then have "?V' dev (lookup ?V' dev b' ?l) = zeros" if "lookup ?V' dev b' ?l \<noteq> 0"
      using g(7) [of "data_pos b ?l"] that dp data_pos_inner by (simp add: lookup_def)
    then show ?thesis using True by (auto simp: content_def Let_def zeros_def)
  qed
qed

lemma grows_spares:
  assumes F: "file_ok sector has dok dev b f s" and G: "grows sector has dok dev log b f s b' f' s'"
  shows "spares sector has dok dev b f s b' f' s'"
  unfolding spares_def
proof (intro conjI allI impI)
  note g = growsD [OF G]
  let ?V = "view sector s" and ?V' = "view sector s'"
  note S = same_file_simps [OF g(4)]
  show "quiet sector has dok s s'" "geometry f' = geometry f" by (rule g)+
  show "ndirblks b' = ndirblks b" "nindirlev b' = nindirlev b" "o_mode b' = o_mode b" by (rule S)+
  fix n assume n: "n < nblocks f" "used ?V dev f n"
  then show "used ?V' dev f' n" by (rule g)
  assume o: "n \<notin> bam_range f" "n \<notin> owns ?V dev b"
  have "n \<notin> inner_blocks ?V dev b" using o(2) inner_tpos [of b] by (auto simp: owns_def inner_blocks_def)
  then show "?V' dev n = ?V dev n" by (rule g(10) [OF n o(1)])
  show "n \<notin> owns ?V' dev b'"
  proof
    assume "n \<in> owns ?V' dev b'"
    then obtain pos where pos: "pos \<in> tpos b" "n = blk_at ?V' dev b' pos" "n \<noteq> 0" using S(3) by (auto simp: owns_def)
    show False
    proof (cases "blk_at ?V dev b pos = 0")
      case True
      then show ?thesis using g(6) [OF pos(1) True] pos(2,3) n(2) by simp
    next
      case False
      then show ?thesis using g(5) [OF pos(1) False] pos o(2) by (auto simp: owns_def)
    qed
  qed
next
  fix dv assume "dv \<noteq> dev"
  then show "view sector s' dv = view sector s dv" by (rule growsD(11) [OF G])
qed

text \<open>Storing into a block of data changes no block numbers.\<close>

lemma store_data:
  assumes F: "file_ok sector has dok dev b f s" and n: "n = lookup (view sector s) dev b log" "n \<noteq> 0"
    and Q: "quiet sector has dok s s'" and V: "view sector s' = (view sector s)(dev := (view sector s dev)(n := w))"
  shows "file_ok sector has dok dev b f s'"
    and "\<And>pos. pos \<in> tpos b \<Longrightarrow> blk_at (view sector s') dev b pos = blk_at (view sector s) dev b pos"
    and "spares sector has dok dev b f s b f s'"
    and "content (view sector s') dev b x = (if x div BLK_SIZE = log then w ! (x mod BLK_SIZE) else content (view sector s) dev b x)"
proof -
  let ?V = "view sector s" and ?V' = "view sector s'"
  have nl: "n < nblocks f" "used ?V dev f n" "n \<notin> bam_range f" "has (disk s) dev n"
    using file_ok_live [OF F, of "data_pos b log"] n by (simp_all add: lookup_def)
  have ni: "n \<notin> inner_blocks ?V dev b" using data_not_inner [OF F] n by simp
  have at: "blk_at ?V' dev b pos = blk_at ?V dev b pos" if "pos \<in> tpos b" for pos
    by (rule blk_at_cong [OF _ that]) (use V ni in \<open>auto simp: inner_blocks_def\<close>)
  then show "\<And>pos. pos \<in> tpos b \<Longrightarrow> blk_at ?V' dev b pos = blk_at ?V dev b pos" .
  have u: "used ?V' dev f m = used ?V dev f m" if "m < nblocks f" for m
    by (rule used_agree [OF _ that]) (use V nl(3) in auto)
  have h: "has (disk s') = has (disk s)" by (rule quiet_has [OF Q])
  have "live ?V' dev f (has (disk s') dev) = live ?V dev f (has (disk s) dev)" using u h by (auto simp: live_def)
  moreover have "tree_ok U ?V' dev b \<longleftrightarrow> tree_ok U ?V dev b" for U unfolding tree_ok_def using at by auto
  moreover have "bam_ok sector has dok dev f s'"
    by (rule bam_ok_agree [of _ _ _ _ _ s]) (use F V nl(3) quiet_ready [OF Q] quiet_nfree [OF Q] h in \<open>auto simp: file_ok_def\<close>)
  ultimately show "file_ok sector has dok dev b f s'" using F h u quiet_nfree [OF Q] by (simp add: file_ok_def free_ok_def)
  have "owns ?V' dev b = owns ?V dev b" using at by (auto simp: owns_def)
  moreover have "n \<in> owns ?V dev b" using n by (auto simp: owns_def lookup_def)
  ultimately show "spares sector has dok dev b f s b f s'" using Q u V by (auto simp: spares_def)
  have lk: "lookup ?V' dev b l = lookup ?V dev b l" for l using at by (simp add: lookup_def)
  have inj: "lookup ?V dev b l = n \<longleftrightarrow> l = log" for l
    using file_ok_inj [OF F, of "data_pos b l" "data_pos b log"] n data_pos_inj [of b l log] by (auto simp: lookup_def)
  show "content ?V' dev b x = (if x div BLK_SIZE = log then w ! (x mod BLK_SIZE) else content ?V dev b x)"
    using lk inj [of "x div BLK_SIZE"] n V by (auto simp: content_def Let_def)
qed

section \<open>The loops\<close>

lemma in_chunk:
  assumes "i < chunk off count"
  shows "(off + i) div BLK_SIZE = off div BLK_SIZE" "(off + i) mod BLK_SIZE = off mod BLK_SIZE + i"
proof -
  have lt: "off mod BLK_SIZE + i < BLK_SIZE" using assms chunk_le(2) [of off count] by linarith
  have e: "off + i = off div BLK_SIZE * BLK_SIZE + (off mod BLK_SIZE + i)" by simp
  show "(off + i) div BLK_SIZE = off div BLK_SIZE" by (subst e, subst div_mult_self3) (use lt in simp_all)
  show "(off + i) mod BLK_SIZE = off mod BLK_SIZE + i" by (subst e, subst mod_mult_self3) (use lt in simp_all)
qed

lemma chunk_content:
  assumes "n = lookup V dev b (off div BLK_SIZE)" and "n \<noteq> 0 \<Longrightarrow> length (V dev n) = BLK_SIZE"
  shows "map (content V dev b) [off..<off + chunk off count] =
    (if n = 0 then replicate (chunk off count) 0 else take (chunk off count) (drop (off mod BLK_SIZE) (V dev n)))"
proof (rule nth_equalityI)
  show "length (map (content V dev b) [off..<off + chunk off count]) =
      length (if n = 0 then replicate (chunk off count) 0 else take (chunk off count) (drop (off mod BLK_SIZE) (V dev n)))"
    using assms(2) chunk_le(2) [of off count] by simp
  fix i assume "i < length (map (content V dev b) [off..<off + chunk off count])"
  then have i: "i < chunk off count" by simp
  then show "map (content V dev b) [off..<off + chunk off count] ! i =
      (if n = 0 then replicate (chunk off count) 0 else take (chunk off count) (drop (off mod BLK_SIZE) (V dev n))) ! i"
    using in_chunk [OF i] assms chunk_le(2) [of off count] by (auto simp: content_def Let_def)
qed

lemma content_fields:
  "bmap b' = bmap b \<Longrightarrow> ndirblks b' = ndirblks b \<Longrightarrow> nindirlev b' = nindirlev b \<Longrightarrow> content V dev b' x = content V dev b x"
  using lookup_fields [of b' b V dev "x div BLK_SIZE"] by (simp add: content_def)

lemma owns_fields:
  assumes "bmap b' = bmap b" "ndirblks b' = ndirblks b" "nindirlev b' = nindirlev b"
  shows "owns V dev b' = owns V dev b"
proof -
  have "blk_at V dev b' = blk_at V dev b" by (rule ext) (rule blk_at_fields [OF assms(1,2)])
  moreover have "tpos b' = tpos b" using assms by (simp add: tpos_def)
  ultimately show ?thesis unfolding owns_def by simp
qed

text \<open>The object of the file may differ in what is not its map.\<close>

definition same_map :: "nat_fso \<Rightarrow> nat_fso \<Rightarrow> bool" where
  "same_map b b' \<longleftrightarrow> bmap b' = bmap b \<and> ndirblks b' = ndirblks b \<and> nindirlev b' = nindirlev b \<and> o_size b' = o_size b \<and> o_mode b' = o_mode b"

lemma spares_map:
  assumes "spares sector has dok dev b f s b1 f' s'" and "same_map b1 b'"
  shows "spares sector has dok dev b f s b' f' s'"
  using assms owns_fields [of b' b1] unfolding spares_def same_map_def by simp

context block_driver
begin

lemma read_block_works:
  assumes "ready sector has dok s" and "nfree s > 0" and "has (disk s) dev n"
  shows "\<exists>bb s1 s2. blk_read rd wr dev n s = Some (Inr bb, s1) \<and> b_data (blk s1 bb) = view sector s dev n \<and>
           blk_put (Some bb) s1 = Some s2 \<and> quiet sector has dok s s2 \<and> view sector s2 = view sector s"
proof -
  obtain bb s1 where s1: "blk_read rd wr dev n s = Some (Inr bb, s1)" "ready sector has dok s1" "view sector s1 = view sector s"
      "has (disk s1) = has (disk s)" "buf_kept s s1" "refs s bb \<ge> 0" "refs s1 = (refs s)(bb := refs s bb + 1)" "held s1 bb dev n"
    using use_read [OF assms] by blast
  obtain s2 where s2: "blk_put (Some bb) s1 = Some s2" "ready sector has dok s2" "view sector s2 = view sector s1"
      "has (disk s2) = has (disk s1)" "buf_kept s1 s2" "refs s2 = (refs s1)(bb := refs s1 bb - 1)"
    using use_put [OF s1(2), of bb] s1(8) by (auto simp: held_def)
  have "quiet sector has dok s s2" by (rule quiet_bracket [OF s1(5,7,6,4) quiet_refl [OF s1(2)] s2(2,5,6,4)])
  then show ?thesis using s1(1,3) s2(1,3) held_data [OF s1(2,8)] by auto
qed

lemma bmap_keeps:
  assumes I: "file_inv sector has dok dev b f s" and log: "log < 2 ^ 31"
  shows "\<exists>e b1 b' f' s'. nat_bmap rd wr dev log alloc b f s = Some (e, b', f', s') \<and> grows sector has dok dev log b f s b1 f' s' \<and>
     same_map b1 b' \<and> file_inv sector has dok dev b' f' s' \<and>
     (if e = EZERO then bmap_phys b' = lookup (view sector s') dev b' log \<and> (alloc \<longrightarrow> bmap_phys b' \<noteq> 0)
      else (too_big b log \<and> e = EFBIG) \<or> (\<not> too_big b log \<and> alloc \<and> e = ENOSPC)) \<and>
     (\<not> alloc \<longrightarrow> b1 = b \<and> f' = f \<and> view sector s' = view sector s)"
proof -
  have F: "file_ok sector has dok dev b f s" and C: "bmap_cached (view sector s) dev b" and L: "7 * nindirlev b < 32"
    using I by (simp_all add: file_inv_def)
  obtain e b1 b' f' s' where m: "nat_bmap rd wr dev log alloc b f s = Some (e, b', f', s')" "grows sector has dok dev log b f s b1 f' s'"
      "if e = EZERO then (b' = b1 \<or> b' = set_bmap log (bmap_phys b') b1) \<and> bmap_valid b' \<and> bmap_log b' = log \<and>
         bmap_phys b' = lookup (view sector s') dev b1 log \<and> (alloc \<longrightarrow> bmap_phys b' \<noteq> 0)
       else b' = b1 \<and> lookup (view sector s') dev b1 log = lookup (view sector s) dev b log \<and>
         ((too_big b log \<and> e = EFBIG) \<or> (\<not> too_big b log \<and> alloc \<and> e = ENOSPC))"
      "\<not> alloc \<longrightarrow> b1 = b \<and> f' = f \<and> view sector s' = view sector s"
    using nat_bmap_works [OF F C L log] by blast
  have sm: "bmap b' = bmap b1" "ndirblks b' = ndirblks b1" "nindirlev b' = nindirlev b1" "o_size b' = o_size b1" "o_mode b' = o_mode b1"
    using m(3) by (auto split: if_splits) (metis set_bmap_simps)+
  then have same: "same_map b1 b'" by (simp add: same_map_def)
  note g = growsD [OF m(2)]
  have lk: "lookup (view sector s') dev b' log = lookup (view sector s') dev b1 log" by (rule lookup_fields [OF sm(1-3)])
  have "file_ok sector has dok dev b' f' s'" by (rule iffD2 [OF file_ok_fields [OF sm(1-3)] g(1)])
  moreover have "bmap_cached (view sector s') dev b'"
  proof (cases "e = EZERO")
    case True
    then show ?thesis using m(3) lk by (simp add: bmap_cached_def)
  next
    case False
    then have e: "b' = b1" and "lookup (view sector s') dev b1 log = lookup (view sector s) dev b log" using m(3) by simp_all
    then show ?thesis unfolding e by (intro grows_cached [OF F m(2) C]) simp
  qed
  ultimately have "file_inv sector has dok dev b' f' s'"
    using L sm(3) same_file_simps(2) [OF g(4)] by (simp add: file_inv_def)
  moreover have "if e = EZERO then bmap_phys b' = lookup (view sector s') dev b' log \<and> (alloc \<longrightarrow> bmap_phys b' \<noteq> 0)
      else (too_big b log \<and> e = EFBIG) \<or> (\<not> too_big b log \<and> alloc \<and> e = ENOSPC)"
  proof (cases "e = EZERO")
    case True
    show ?thesis using m(3) unfolding lk if_P [OF True] by blast
  next
    case False
    show ?thesis using m(3) unfolding if_not_P [OF False] by blast
  qed
  ultimately show ?thesis using m(1,2,4) same by blast
qed

lemma file_inv_ready:
  "file_inv sector has dok dev b f s \<Longrightarrow> ready sector has dok s \<and> nfree s > 0"
  by (auto simp: file_inv_def file_ok_def bam_ok_def)

lemma read_loop_works:
  "file_inv sector has dok dev b f s \<Longrightarrow> off + count \<le> 2 ^ 31 \<Longrightarrow> (\<forall>x < off + count. \<not> too_big b (x div BLK_SIZE)) \<Longrightarrow>
   \<exists>b' s'. read_loop rd wr dev off count b f s = Some (Inr (map (content (view sector s) dev b) [off..<off + count]), b', f, s') \<and>
     file_inv sector has dok dev b' f s' \<and> same_map b b' \<and> quiet sector has dok s s' \<and> view sector s' = view sector s"
proof (induction count arbitrary: off b s rule: less_induct)
  case (less count)
  note I = less.prems(1)
  let ?V = "view sector s"
  show ?case
  proof (cases "count = 0")
    case True
    then have "read_loop rd wr dev off count b f s = Some (Inr [], b, f, s)" by (subst read_loop.simps) simp
    then show ?thesis using True I quiet_refl [of sector has dok s] file_inv_ready [OF I] by (auto simp: same_map_def)
  next
    case False
    let ?l = "chunk off count" and ?log = "off div BLK_SIZE"
    have l: "0 < ?l" "?l \<le> count" using False chunk_le(1) by simp_all
    have log: "?log < 2 ^ 31" using less.prems(2) False by (simp add: div_less_iff_less_mult)
    have tb: "\<not> too_big b ?log" using less.prems(3) False by (auto dest: spec [of _ off])
    obtain e b1 b' f' s1 where m: "nat_bmap rd wr dev ?log False b f s = Some (e, b', f', s1)" "grows sector has dok dev ?log b f s b1 f' s1"
        "same_map b1 b'" "file_inv sector has dok dev b' f' s1"
        "if e = EZERO then bmap_phys b' = lookup (view sector s1) dev b' ?log \<and> (False \<longrightarrow> bmap_phys b' \<noteq> 0)
         else (too_big b ?log \<and> e = EFBIG) \<or> (\<not> too_big b ?log \<and> False \<and> e = ENOSPC)"
        "b1 = b" "f' = f" "view sector s1 = ?V"
      using bmap_keeps [OF I log, of False] by auto
    have e: "e = EZERO" "bmap_phys b' = lookup ?V dev b' ?log" using m(5) tb unfolding m(8) by (auto split: if_splits)
    have sm: "bmap b' = bmap b" "ndirblks b' = ndirblks b" "nindirlev b' = nindirlev b" using m(3,6) by (simp_all add: same_map_def)
    have q1: "quiet sector has dok s s1" by (rule growsD(2) [OF m(2)])
    define bs where "bs = map (content ?V dev b) [off..<off + ?l]"
    obtain s2 where s2: "(if bmap_phys b' = 0 then Some (Inr (replicate ?l 0), s1)
         else do {
           (r, s2) \<leftarrow> blk_read rd wr dev (bmap_phys b') s1;
           (case r of
              Inl e \<Rightarrow> Some (Inl e, s2)
            | Inr bb \<Rightarrow> do {
                s3 \<leftarrow> blk_put (Some bb) s2;
                Some (Inr (take ?l (drop (off mod BLK_SIZE) (b_data (blk s2 bb)))), s3)
              })
         }) = Some (Inr bs, s2)" "quiet sector has dok s1 s2" "view sector s2 = ?V"
    proof (cases "bmap_phys b' = 0")
      case True
      then have "bs = replicate ?l 0" unfolding bs_def
        using chunk_content [of 0 ?V dev b off count] e(2) lookup_fields [OF sm, of ?V dev ?log] by simp
      then show ?thesis using True that [of s1] quiet_refl file_inv_ready [OF m(4)] m(8) by auto
    next
      case False
      have F: "file_ok sector has dok dev b' f s1" using m(4,7) by (simp add: file_inv_def)
      have h: "has (disk s1) dev (bmap_phys b')"
        using file_ok_live(4) [OF F, of "data_pos b' ?log"] False e(2) m(8) by (simp add: lookup_def)
      obtain bb s2 s3 where x: "blk_read rd wr dev (bmap_phys b') s1 = Some (Inr bb, s2)" "b_data (blk s2 bb) = ?V dev (bmap_phys b')"
          "blk_put (Some bb) s2 = Some s3" "quiet sector has dok s1 s3" "view sector s3 = ?V"
        using read_block_works [OF _ _ h] file_inv_ready [OF m(4)] m(8) by auto
      have "length (?V dev (bmap_phys b')) = BLK_SIZE" using view_length [OF _ h] file_inv_ready [OF m(4)] m(8) by simp
      then have "bs = take ?l (drop (off mod BLK_SIZE) (?V dev (bmap_phys b')))" unfolding bs_def
        using chunk_content [of "bmap_phys b'" ?V dev b off count] e(2) lookup_fields [OF sm, of ?V dev ?log] False by simp
      then show ?thesis using False x that [of s3] by simp
    qed
    have I2: "file_inv sector has dok dev b' f s2"
    proof -
      have "file_ok sector has dok dev b' f s1" using m(4,7) by (simp add: file_inv_def)
      then have "file_ok sector has dok dev b' f s2" using growsD(1) [OF grows_quiet [of sector has dok dev b' f s1 s2]] s2(2,3) m(8) by simp
      then show ?thesis using m(4,7,8) s2(3) by (simp add: file_inv_def)
    qed
    have tb': "\<forall>x < off + ?l + (count - ?l). \<not> too_big b' (x div BLK_SIZE)" using less.prems(3) l(2) sm by (simp add: too_big_def)
    have "count - ?l < count" "off + ?l + (count - ?l) \<le> 2 ^ 31" using l less.prems(2) by simp_all
    from less.IH [OF this(1) I2 this(2) tb'] obtain b2 s3 where IH:
        "read_loop rd wr dev (off + ?l) (count - ?l) b' f s2 =
           Some (Inr (map (content ?V dev b') [off + ?l..<off + ?l + (count - ?l)]), b2, f, s3)"
        "file_inv sector has dok dev b2 f s3" "same_map b' b2" "quiet sector has dok s2 s3" "view sector s3 = ?V"
      unfolding s2(3) by blast
    have ct: "content ?V dev b' x = content ?V dev b x" for x by (rule content_fields [OF sm])
    have up: "[off..<off + count] = [off..<off + ?l] @ [off + ?l..<off + ?l + (count - ?l)]"
      using l(2) upt_add_eq_append [of off "off + ?l" "count - ?l"] by simp
    have "read_loop rd wr dev off count b f s = Some (Inr (map (content ?V dev b) [off..<off + count]), b2, f, s3)"
      using False m(1,7) e(1) s2(1) IH(1) unfolding read_loop.simps [of rd wr dev off count] up bs_def map_append ct Let_def by simp
    moreover have "quiet sector has dok s s3" using quiet_trans [OF quiet_trans [OF q1 s2(2)] IH(4)] .
    moreover have "same_map b b2" using m(3,6) IH(3) by (simp add: same_map_def)
    ultimately show ?thesis using IH(2,5) by blast
  qed
qed

text \<open>Overwriting a part of a block, which is read first unless all of it is overwritten.\<close>

lemma overwrite_works:
  assumes "ready sector has dok s" and "nfree s > 0" and "has (disk s) dev n" and "o' + length bs \<le> BLK_SIZE"
  shows "\<exists>bb s1 s2. (if length bs \<noteq> BLK_SIZE then blk_read rd wr dev n s else blk_get wr dev n s) = Some (Inr bb, s1) \<and>
           blk_put (Some bb) (upd_blk bb (\<lambda>v. v\<lparr>b_data := memcpy_in (b_data v) o' bs, b_dirty := True, b_valid := True\<rparr>) s1) = Some s2 \<and>
           quiet sector has dok s s2 \<and>
           view sector s2 = (view sector s)(dev := (view sector s dev)(n := memcpy_in (view sector s dev n) o' bs))"
proof (cases "length bs = BLK_SIZE")
  case True
  have o: "o' = 0" using assms(4) True by simp
  have len: "length (view sector s dev n) = BLK_SIZE" by (rule view_length [OF assms(1,3)])
  obtain bb s1 s2 where s2: "blk_get wr dev n s = Some (Inr bb, s1)" "length (b_data (blk s1 bb)) = BLK_SIZE"
      "blk_put (Some bb) (upd_blk bb (\<lambda>v. v\<lparr>b_data := bs, b_dirty := True, b_valid := True\<rparr>) s1) = Some s2"
      "quiet sector has dok s s2" "view sector s2 = (view sector s)(dev := (view sector s dev)(n := bs))"
    using use_fill [OF assms(1-3) True] by blast
  have "upd_blk bb (\<lambda>v. v\<lparr>b_data := memcpy_in (b_data v) o' bs, b_dirty := True, b_valid := True\<rparr>) s1 =
      upd_blk bb (\<lambda>v. v\<lparr>b_data := bs, b_dirty := True, b_valid := True\<rparr>) s1"
    using s2(2) True o by (simp add: upd_blk_def memcpy_in_def)
  then show ?thesis using s2 True o len by (auto simp: memcpy_in_def)
next
  case False
  obtain bb s1 where s1: "blk_read rd wr dev n s = Some (Inr bb, s1)" "ready sector has dok s1" "view sector s1 = view sector s"
      "has (disk s1) = has (disk s)" "buf_kept s s1" "refs s bb \<ge> 0" "refs s1 = (refs s)(bb := refs s bb + 1)" "held s1 bb dev n"
    using use_read [OF assms(1-3)] by blast
  let ?w = "memcpy_in (view sector s dev n) o' bs"
  let ?s = "upd_blk bb (\<lambda>v. v\<lparr>b_data := ?w, b_dirty := True, b_valid := True\<rparr>) s1"
  have h: "bb < blk_count s1" "is_block dev n (blk s1 bb)" "refs s1 bb > 0" using s1(8) by (simp_all add: held_def)
  have "b_data (blk s1 bb) = view sector s dev n" using held_data [OF s1(2,8)] s1(3) by simp
  then have eq: "upd_blk bb (\<lambda>v. v\<lparr>b_data := memcpy_in (b_data v) o' bs, b_dirty := True, b_valid := True\<rparr>) s1 = ?s"
    by (simp add: upd_blk_def)
  have len: "length ?w = BLK_SIZE"
    using length_memcpy_in [of o' bs "view sector s dev n"] view_length [OF assms(1,3)] assms(4) by simp
  have h1: "has (disk s1) dev n" using assms(3) s1(4) by simp
  note st = use_store [OF s1(2) h1 h len]
  obtain s2 where s2: "blk_put (Some bb) ?s = Some s2" "ready sector has dok s2" "view sector s2 = view sector ?s"
      "has (disk s2) = has (disk ?s)" "buf_kept ?s s2" "refs s2 = (refs ?s)(bb := refs ?s bb - 1)"
    using use_put [OF quiet_ready [OF st(1)], of bb] st(3) by (auto simp: held_def)
  have "quiet sector has dok s s2" by (rule quiet_bracket [OF s1(5,7,6,4) st(1) s2(2,5,6,4)])
  then show ?thesis using False s1(1,3) s2(1,3) st(2) eq by auto
qed

lemma content_overwritten:
  assumes "length (V dev n) = BLK_SIZE" and "n = lookup V dev b (off div BLK_SIZE)" and "n \<noteq> 0" and "x div BLK_SIZE = off div BLK_SIZE"
    and "l = chunk off (length bs)"
  shows "memcpy_in (V dev n) (off mod BLK_SIZE) (take l bs) ! (x mod BLK_SIZE) =
    (if off \<le> x \<and> x < off + l then bs ! (x - off) else content V dev b x)"
proof -
  have l: "l \<le> length bs" "off mod BLK_SIZE + l \<le> BLK_SIZE" using chunk_le [of off "length bs"] assms(5) by simp_all
  have xo: "x = off div BLK_SIZE * BLK_SIZE + x mod BLK_SIZE" "off = off div BLK_SIZE * BLK_SIZE + off mod BLK_SIZE"
    using assms(4) div_mult_mod_eq [of x BLK_SIZE] by simp_all
  then have i: "off \<le> x \<and> x < off + l \<longleftrightarrow> off mod BLK_SIZE \<le> x mod BLK_SIZE \<and> x mod BLK_SIZE < off mod BLK_SIZE + l"
      and d: "x mod BLK_SIZE - off mod BLK_SIZE = x - off"
    by linarith+
  have "memcpy_in (V dev n) (off mod BLK_SIZE) (take l bs) ! (x mod BLK_SIZE) =
      (if off \<le> x \<and> x < off + l then take l bs ! (x - off) else V dev n ! (x mod BLK_SIZE))"
    unfolding i d [symmetric] using l assms(1) by (subst nth_memcpy_in) auto
  then show ?thesis using assms(2-4) by (auto simp: content_def Let_def)
qed

lemma grow_size_simps [simp]:
  "bmap (grow_size n b) = bmap b" "ndirblks (grow_size n b) = ndirblks b" "nindirlev (grow_size n b) = nindirlev b"
  "o_mode (grow_size n b) = o_mode b" "o_size (grow_size n b) = max (o_size b) n" "bmap_valid (grow_size n b) = bmap_valid b"
  "bmap_log (grow_size n b) = bmap_log b" "bmap_phys (grow_size n b) = bmap_phys b"
  by (simp_all add: grow_size_def)

lemma file_inv_fields:
  assumes "bmap b' = bmap b" "ndirblks b' = ndirblks b" "nindirlev b' = nindirlev b"
    and "bmap_valid b' = bmap_valid b" "bmap_log b' = bmap_log b" "bmap_phys b' = bmap_phys b"
  shows "file_inv sector has dok dev b' f s = file_inv sector has dok dev b f s"
  unfolding file_inv_def file_ok_fields [OF assms(1-3)] bmap_cached_def lookup_fields [OF assms(1-3)] assms(3-6) ..

lemma write_loop_works:
  "file_inv sector has dok dev b f s \<Longrightarrow> off + length bs \<le> 2 ^ 31 \<Longrightarrow>
   \<exists>e k b' f' s'. write_loop rd wr dev off bs b f s = Some (e, b', f', s') \<and> k \<le> length bs \<and>
     (if e = EZERO then k = length bs else e = ENOSPC \<or> e = EFBIG) \<and>
     file_inv sector has dok dev b' f' s' \<and> spares sector has dok dev b f s b' f' s' \<and>
     (\<forall>x. content (view sector s') dev b' x = (if off \<le> x \<and> x < off + k then bs ! (x - off) else content (view sector s) dev b x)) \<and>
     o_size b' = (if k = 0 then o_size b else max (o_size b) (off + k))"
proof (induction bs arbitrary: off b f s rule: length_induct)
  case (1 bs)
  note I = "1.prems"(1)
  let ?V = "view sector s" and ?l = "chunk off (length bs)" and ?log = "off div BLK_SIZE"
  show ?case
  proof (cases "bs = []")
    case True
    then have "write_loop rd wr dev off bs b f s = Some (EZERO, b, f, s)" by (subst write_loop.simps) simp
    then show ?thesis using True I spares_refl [of sector has dok s] file_inv_ready [OF I]
      by (intro exI [of _ EZERO] exI [of _ 0] exI [of _ b] exI [of _ f] exI [of _ s]) auto
  next
    case False
    have l: "0 < ?l" "?l \<le> length bs" "off mod BLK_SIZE + ?l \<le> BLK_SIZE" using False chunk_le by simp_all
    have log: "?log < 2 ^ 31" using "1.prems"(2) False by (cases bs) (auto simp: div_less_iff_less_mult)
    have F: "file_ok sector has dok dev b f s" using I by (simp add: file_inv_def)
    obtain e b0 b1 f1 s1 where m: "nat_bmap rd wr dev ?log True b f s = Some (e, b1, f1, s1)" "grows sector has dok dev ?log b f s b0 f1 s1"
        "same_map b0 b1" "file_inv sector has dok dev b1 f1 s1"
        "if e = EZERO then bmap_phys b1 = lookup (view sector s1) dev b1 ?log \<and> (True \<longrightarrow> bmap_phys b1 \<noteq> 0)
         else (too_big b ?log \<and> e = EFBIG) \<or> (\<not> too_big b ?log \<and> True \<and> e = ENOSPC)"
      using bmap_keeps [OF I log, of True] by blast
    have sm: "bmap b1 = bmap b0" "ndirblks b1 = ndirblks b0" "nindirlev b1 = nindirlev b0" "o_size b1 = o_size b"
      using m(3) same_file_simps(6) [OF growsD(4) [OF m(2)]] by (simp_all add: same_map_def)
    have c1: "content (view sector s1) dev b1 x = content ?V dev b x" for x
      using grows_content [OF F m(2)] content_fields [OF sm(1-3)] by simp
    have sp1: "spares sector has dok dev b f s b1 f1 s1" by (rule spares_map [OF grows_spares [OF F m(2)] m(3)])
    show ?thesis
    proof (cases "e = EZERO")
      case e: False
      then have "write_loop rd wr dev off bs b f s = Some (e, b1, f1, s1)"
        using False m(1) by (subst write_loop.simps) (simp add: Let_def)
      then show ?thesis using e m(4,5) sp1 c1 sm(4)
        by (intro exI [of _ e] exI [of _ 0] exI [of _ b1] exI [of _ f1] exI [of _ s1]) auto
    next
      case True
      then have ph: "bmap_phys b1 = lookup (view sector s1) dev b1 ?log" "bmap_phys b1 \<noteq> 0" using m(5) by simp_all
      have F1: "file_ok sector has dok dev b1 f1 s1" using m(4) by (simp add: file_inv_def)
      have h: "has (disk s1) dev (bmap_phys b1)"
        using file_ok_live(4) [OF F1, of "data_pos b1 ?log"] ph by (simp add: lookup_def)
      have r1: "ready sector has dok s1" "nfree s1 > 0" using file_inv_ready [OF m(4)] by simp_all
      have tl: "length (take ?l bs) = ?l" using l(2) by simp
      let ?w = "memcpy_in (view sector s1 dev (bmap_phys b1)) (off mod BLK_SIZE) (take ?l bs)"
      obtain bb s2 s3 where s3: "(if ?l \<noteq> BLK_SIZE then blk_read rd wr dev (bmap_phys b1) s1 else blk_get wr dev (bmap_phys b1) s1) = Some (Inr bb, s2)"
          "blk_put (Some bb) (upd_blk bb (\<lambda>v. v\<lparr>b_data := memcpy_in (b_data v) (off mod BLK_SIZE) (take ?l bs), b_dirty := True, b_valid := True\<rparr>) s2) = Some s3"
          "quiet sector has dok s1 s3" "view sector s3 = (view sector s1)(dev := (view sector s1 dev)(bmap_phys b1 := ?w))"
        using overwrite_works [OF r1 h, of "off mod BLK_SIZE" "take ?l bs"] l(3) unfolding tl by blast
      note sd = store_data [OF F1 ph s3(3,4)]
      let ?b = "grow_size (off + ?l) b1"
      have I3: "file_inv sector has dok dev ?b f1 s3"
      proof -
        have "bmap_cached (view sector s3) dev b1"
          using m(4) sd(2) by (simp add: file_inv_def bmap_cached_def lookup_def)
        then have "file_inv sector has dok dev b1 f1 s3" using sd(1) m(4) by (simp add: file_inv_def)
        then show ?thesis using file_inv_fields [of ?b b1 dev f1 s3] by simp
      qed
      have sp3: "spares sector has dok dev b f s ?b f1 s3"
      proof -
        have "spares sector has dok dev b f s b1 f1 s3" by (rule spares_trans [OF sp1 sd(3)])
        then show ?thesis using owns_fields [of ?b b1] by (simp add: spares_def)
      qed
      have c3: "content (view sector s3) dev ?b x = (if off \<le> x \<and> x < off + ?l then bs ! (x - off) else content ?V dev b x)" for x
      proof -
        have "content (view sector s3) dev ?b x = content (view sector s3) dev b1 x" by (rule content_fields) simp_all
        also have "\<dots> = (if off \<le> x \<and> x < off + ?l then bs ! (x - off) else content (view sector s1) dev b1 x)"
        proof (cases "x div BLK_SIZE = ?log")
          case True
          then show ?thesis
            using sd(4) [of x] content_overwritten [OF view_length [OF r1(1) h] ph True refl, of bs] by simp
        next
          case False
          have "x div BLK_SIZE = ?log" if "off \<le> x" "x < off + ?l"
            using in_chunk(1) [of "x - off" off "length bs"] that by (simp add: less_diff_conv2)
          then have "\<not> (off \<le> x \<and> x < off + ?l)" using False by blast
          then show ?thesis using sd(4) [of x] False by auto
        qed
        finally show ?thesis using c1 by simp
      qed
      have "length (drop ?l bs) < length bs" "off + ?l + length (drop ?l bs) \<le> 2 ^ 31" using l "1.prems"(2) by simp_all
      from "1.IH" [rule_format, OF this(1) I3 this(2)]
      obtain e' k b' f' s' where IH: "write_loop rd wr dev (off + ?l) (drop ?l bs) ?b f1 s3 = Some (e', b', f', s')" "k \<le> length (drop ?l bs)"
          "if e' = EZERO then k = length (drop ?l bs) else e' = ENOSPC \<or> e' = EFBIG"
          "file_inv sector has dok dev b' f' s'" "spares sector has dok dev ?b f1 s3 b' f' s'"
          "\<forall>x. content (view sector s') dev b' x =
             (if off + ?l \<le> x \<and> x < off + ?l + k then drop ?l bs ! (x - (off + ?l)) else content (view sector s3) dev ?b x)"
          "o_size b' = (if k = 0 then o_size ?b else max (o_size ?b) (off + ?l + k))"
        by blast
      have "write_loop rd wr dev off bs b f s = Some (e', b', f', s')"
        using False m(1) True ph(2) s3(1,2) IH(1) unfolding write_loop.simps [of rd wr dev off bs] Let_def by simp
      moreover have "content (view sector s') dev b' x = (if off \<le> x \<and> x < off + (?l + k) then bs ! (x - off) else content ?V dev b x)" for x
        using IH(6) c3 [of x] l(2) by (auto simp: nth_drop)
      moreover have "o_size b' = max (o_size b) (off + (?l + k))" using IH(7) sm(4) l(1) by (auto simp: max_def)
      moreover have "spares sector has dok dev b f s b' f' s'" by (rule spares_trans [OF sp3 IH(5)])
      moreover have "?l + k \<le> length bs" "if e' = EZERO then ?l + k = length bs else e' = ENOSPC \<or> e' = EFBIG" using IH(2,3) l(2) by auto
      ultimately show ?thesis using IH(4) l(1)
        by (intro exI [of _ e'] exI [of _ "?l + k"] exI [of _ b'] exI [of _ f'] exI [of _ s']) simp
    qed
  qed
qed

end

section \<open>Files are sequences of bytes\<close>

context block_driver
begin

lemma write_works:
  assumes "file_inv sector has dok dev b f s" and "o_mode b AND S_IFMT = S_IFREG"
    and "off + length bs < NAT_FILE_SIZE_MAX"
  shows "\<exists>e k b' f' s'. nat_write rd wr dev EZERO now off bs b f s = Some (e, b', f', s') \<and> k \<le> length bs \<and>
     (if e = EZERO then k = length bs else e = ENOSPC \<or> e = EFBIG) \<and> file_inv sector has dok dev b' f' s' \<and>
     (\<forall>x. content (view sector s') dev b' x = (if off \<le> x \<and> x < off + k then bs ! (x - off) else content (view sector s) dev b x)) \<and>
     o_size b' = (if k = 0 then o_size b else max (o_size b) (off + k)) \<and>
     (\<forall>n < nblocks f. used (view sector s) dev f n \<longrightarrow> n \<notin> bam_range f \<longrightarrow> n \<notin> owns (view sector s) dev b \<longrightarrow>
        view sector s' dev n = view sector s dev n) \<and>
     (\<forall>dv. dv \<noteq> dev \<longrightarrow> view sector s' dv = view sector s dv)"
proof -
  let ?b = "b\<lparr>mtime := now, o_dirty := True\<rparr>"
  have e: "bmap ?b = bmap b" "ndirblks ?b = ndirblks b" "nindirlev ?b = nindirlev b" "bmap_valid ?b = bmap_valid b"
      "bmap_log ?b = bmap_log b" "bmap_phys ?b = bmap_phys b" "o_size ?b = o_size b" by simp_all
  have I: "file_inv sector has dok dev ?b f s" using file_inv_fields [OF e(1-6)] assms(1) by blast
  have big: "off + length bs \<le> 2 ^ 31" "(off + length bs) mod 2 ^ 64 < NAT_FILE_SIZE_MAX" using assms(3) by simp_all
  obtain e' k b' f' s' where w: "write_loop rd wr dev off bs ?b f s = Some (e', b', f', s')" "k \<le> length bs"
      "if e' = EZERO then k = length bs else e' = ENOSPC \<or> e' = EFBIG"
      "file_inv sector has dok dev b' f' s'" "spares sector has dok dev ?b f s b' f' s'"
      "\<forall>x. content (view sector s') dev b' x = (if off \<le> x \<and> x < off + k then bs ! (x - off) else content (view sector s) dev ?b x)"
      "o_size b' = (if k = 0 then o_size ?b else max (o_size ?b) (off + k))"
    using write_loop_works [OF I big(1)] by blast
  have nw: "nat_write rd wr dev EZERO now off bs b f s = Some (e', b', f', s')"
    using w(1) assms(2) big(2) by (simp add: nat_write_def)
  have ct: "content (view sector s) dev ?b x = content (view sector s) dev b x" for x by (rule content_fields [OF e(1-3)])
  have ow: "owns (view sector s) dev ?b = owns (view sector s) dev b" by (rule owns_fields [OF e(1-3)])
  have "\<forall>n < nblocks f. used (view sector s) dev f n \<longrightarrow> n \<notin> bam_range f \<longrightarrow> n \<notin> owns (view sector s) dev b \<longrightarrow>
      view sector s' dev n = view sector s dev n" "\<forall>dv. dv \<noteq> dev \<longrightarrow> view sector s' dv = view sector s dv"
    using w(5) unfolding spares_def ow by blast+
  then show ?thesis using nw w(2-4) w(6,7) [unfolded ct e(7)] by blast
qed

lemma read_works:
  assumes "file_inv sector has dok dev b f s" and "o_mode b AND S_IFMT = S_IFREG"
    and "o_size b \<le> NAT_FILE_SIZE_MAX" and "\<forall>x < o_size b. \<not> too_big b (x div BLK_SIZE)" and "off + count < 2 ^ 64"
  shows "\<exists>b' s'. nat_read rd wr dev EZERO now ro noat off count b f s =
       Some (Inr (map (content (view sector s) dev b) [off..<min (off + count) (o_size b)]), b', f, s') \<and>
     file_inv sector has dok dev b' f s' \<and> same_map b b' \<and> view sector s' = view sector s"
proof (cases "off > o_size b")
  case True
  then show ?thesis using assms(1,2) by (simp add: nat_read_def same_map_def)
next
  case False
  let ?b = "if \<not> ro \<and> \<not> noat then b\<lparr>atime := now, o_dirty := True\<rparr> else b"
  let ?c = "if (off + count) mod 2 ^ 64 > o_size b then o_size b - off else count"
  have e: "bmap ?b = bmap b" "ndirblks ?b = ndirblks b" "nindirlev ?b = nindirlev b" "bmap_valid ?b = bmap_valid b"
      "bmap_log ?b = bmap_log b" "bmap_phys ?b = bmap_phys b" "o_size ?b = o_size b" "o_mode ?b = o_mode b" by simp_all
  have I: "file_inv sector has dok dev ?b f s" using file_inv_fields [OF e(1-6)] assms(1) by blast
  have c: "off + ?c = min (off + count) (o_size b)" "off + ?c \<le> o_size b" using False assms(5) by (auto simp: min_def)
  have big: "off + ?c \<le> 2 ^ 31" using c(2) assms(3) by simp
  have tb: "\<forall>x < off + ?c. \<not> too_big ?b (x div BLK_SIZE)" using assms(4) c(2) e(2,3) by (simp add: too_big_def)
  obtain b' s' where "read_loop rd wr dev off ?c ?b f s = Some (Inr (map (content (view sector s) dev ?b) [off..<off + ?c]), b', f, s')"
      "file_inv sector has dok dev b' f s'" "same_map ?b b'" "view sector s' = view sector s"
    using read_loop_works [OF I big tb] by blast
  moreover have "content (view sector s) dev ?b x = content (view sector s) dev b x" for x by (rule content_fields [OF e(1-3)])
  ultimately show ?thesis using False assms(2) c(1) e by (auto simp: nat_read_def Let_def same_map_def)
qed

end

text \<open>
  C12: Writing to a regular file never panics. It stores the given bytes at the offset, all of them or, when the device is full or
  the file cannot have more blocks, a prefix of them; every other byte of the file stays as it was (holes read as zero), and the size is
  the old one or the end of what was written. No block in use that is not the file's own changes, on this device or another, and
  the invariants of the file, the map and the cache are kept.
\<close>

theorem nat_write_contents:
  assumes "block_driver rd wr sector has dok" and "file_inv sector has dok dev b f s" and "o_mode b AND S_IFMT = S_IFREG"
    and "off + length bs < NAT_FILE_SIZE_MAX"
  shows "\<exists>e k b' f' s'. nat_write rd wr dev EZERO now off bs b f s = Some (e, b', f', s') \<and> k \<le> length bs \<and>
     (if e = EZERO then k = length bs else e = ENOSPC \<or> e = EFBIG) \<and> file_inv sector has dok dev b' f' s' \<and>
     (\<forall>x. content (view sector s') dev b' x = (if off \<le> x \<and> x < off + k then bs ! (x - off) else content (view sector s) dev b x)) \<and>
     o_size b' = (if k = 0 then o_size b else max (o_size b) (off + k)) \<and>
     (\<forall>n < nblocks f. used (view sector s) dev f n \<longrightarrow> n \<notin> bam_range f \<longrightarrow> n \<notin> owns (view sector s) dev b \<longrightarrow>
        view sector s' dev n = view sector s dev n) \<and>
     (\<forall>dv. dv \<noteq> dev \<longrightarrow> view sector s' dv = view sector s dv)"
  using block_driver.write_works [OF assms] .

text \<open>
  Reading from a regular file never panics and returns exactly the bytes of the file in the requested range, up to its size; no block
  of any device changes, and the file keeps its contents.
\<close>

theorem nat_read_contents:
  assumes "block_driver rd wr sector has dok" and "file_inv sector has dok dev b f s" and "o_mode b AND S_IFMT = S_IFREG"
    and "o_size b \<le> NAT_FILE_SIZE_MAX" and "\<forall>x < o_size b. \<not> too_big b (x div BLK_SIZE)" and "off + count < 2 ^ 64"
  shows "\<exists>b' s'. nat_read rd wr dev EZERO now ro noat off count b f s =
       Some (Inr (map (content (view sector s) dev b) [off..<min (off + count) (o_size b)]), b', f, s') \<and>
     file_inv sector has dok dev b' f s' \<and> same_map b b' \<and> view sector s' = view sector s"
  using block_driver.read_works [OF assms] .

end
