(* ===== verification/Nat_Trunc.thy ===== *)
theory Nat_Trunc
  imports Nat_File
begin

text \<open>
  Truncating a file of the native file system (\<^verbatim>\<open>src/kern/fs/nat/bmap.c\<close>): exactly the blocks of the file become free, the
  blocks of numbers included, and nothing else changes.
\<close>

section \<open>Freeing sets of blocks\<close>

definition frees ::
    "('d \<Rightarrow> nat \<Rightarrow> nat \<Rightarrow> 8 word list) \<Rightarrow> ('d \<Rightarrow> nat \<Rightarrow> nat \<Rightarrow> bool) \<Rightarrow> ('d \<Rightarrow> bool) \<Rightarrow> nat \<Rightarrow> nat set \<Rightarrow> nat_fs \<Rightarrow> 'd bcache \<Rightarrow> nat_fs \<Rightarrow> 'd bcache \<Rightarrow> bool" where
  "frees sector has dok dev C f s f' s' \<longleftrightarrow> bam_step sector has dok dev f s f' s' \<and>
     (\<forall>n < nblocks f. used (view sector s') dev f' n \<longleftrightarrow> n \<notin> C \<and> used (view sector s) dev f n)"

lemma frees_refl: "bam_ok sector has dok dev f s \<Longrightarrow> frees sector has dok dev {} f s f s"
  by (simp add: frees_def bam_step_refl)

lemma frees_step: "frees sector has dok dev C f s f' s' \<Longrightarrow> bam_step sector has dok dev f s f' s'"
  by (simp add: frees_def)

lemma frees_trans:
  assumes "frees sector has dok dev C f s f1 s1" and "frees sector has dok dev C' f1 s1 f2 s2"
  shows "frees sector has dok dev (C \<union> C') f s f2 s2"
  using assms bam_step_trans nblocks_geometry [OF bam_stepD(3) [OF frees_step [OF assms(1)]]] unfolding frees_def by auto

text \<open>The numbers in a block of numbers, and all blocks below it.\<close>

definition entries :: "contents \<Rightarrow> nat \<Rightarrow> nat \<Rightarrow> nat set" where
  "entries V dev n = (\<lambda>k. unat (le32 (V dev n) k)) ` {..<128} - {0}"

fun below :: "contents \<Rightarrow> nat \<Rightarrow> nat \<Rightarrow> nat \<Rightarrow> nat set" where
  "below V dev 0 n = entries V dev n"
| "below V dev (Suc j) n = entries V dev n \<union> (\<Union>c \<in> entries V dev n. below V dev j c)"

text \<open>Blocks that can be freed: they are on the device, covered by the map and not part of it.\<close>

definition freeable :: "nat_fs \<Rightarrow> (nat \<Rightarrow> bool) \<Rightarrow> nat set" where
  "freeable f D = {n. n < nblocks f \<and> n \<notin> bam_range f \<and> D n}"

lemma freeable_step:
  assumes "bam_step sector has dok dev f s f' s'"
  shows "freeable f' (has (disk s') dev) = freeable f (has (disk s) dev)"
  using nblocks_geometry [OF bam_stepD(3) [OF assms]] bam_step_geometry(8) [OF assms] quiet_has [OF bam_stepD(2) [OF assms]]
  by (simp add: freeable_def)

lemma entries_cong: "V' dev n = V dev n \<Longrightarrow> entries V' dev n = entries V dev n"
  by (simp add: entries_def)

lemma entries_below: "entries V dev n \<subseteq> below V dev j n"
  by (cases j) auto

lemma below_cong:
  assumes "\<And>m. m \<in> insert n (below V dev j n) \<Longrightarrow> V' dev m = V dev m"
  shows "below V' dev j n = below V dev j n"
  using assms
proof (induction j arbitrary: n)
  case 0
  show ?case using 0 [of n] entries_cong [of V' dev n V] by simp
next
  case (Suc j)
  have e: "entries V' dev n = entries V dev n" by (rule entries_cong) (rule Suc.prems, simp)
  have "below V' dev j c = below V dev j c" if "c \<in> entries V dev n" for c
    by (rule Suc.IH, rule Suc.prems) (use that in auto)
  then show ?case using e by auto
qed

lemma freeable_view:
  assumes "bam_step sector has dok dev f s f' s'" and "insert n (below (view sector s) dev j n) \<subseteq> freeable f D"
  shows "below (view sector s') dev j n = below (view sector s) dev j n"
  by (rule below_cong) (use assms bam_stepD(4) [OF assms(1)] in \<open>auto simp: freeable_def\<close>)

context block_driver
begin

lemma free_block_works:
  assumes "bam_ok sector has dok dev f s" and "n < nblocks f"
  shows "\<exists>f' s'. nat_bfree rd wr dev n f s = Some (EZERO, f', s') \<and> frees sector has dok dev {n} f s f' s'"
  using bfree_works [OF assms(1), of n] assms(2) unfolding frees_def nblocks_def by auto

text \<open>
  Freeing the entries \<open>ks\<close> of a block of numbers whose buffer \<open>bb\<close> is held; \<open>sub\<close> frees what is below an entry.
\<close>

lemma trunc_entries_works:
  assumes "bam_ok sector has dok dev f s" and "held s bb dev n" and "set ks \<subseteq> {..<128}"
    and "n \<in> freeable f (has (disk s) dev)" and "entries (view sector s) dev n \<union> (\<Union>c \<in> entries (view sector s) dev n. B c) \<subseteq> freeable f (has (disk s) dev)"
    and sub: "\<And>c f1 s1. c \<in> entries (view sector s) dev n \<Longrightarrow> bam_step sector has dok dev f s f1 s1 \<Longrightarrow>
       \<exists>f2 s2. sub c f1 s1 = Some (EZERO, f2, s2) \<and> frees sector has dok dev (B c) f1 s1 f2 s2"
  shows "\<exists>f' s'. trunc_entries rd wr dev sub bb ks EZERO f s = Some (EZERO, f', s') \<and>
     frees sector has dok dev (\<Union>c \<in> (\<lambda>k. unat (le32 (view sector s dev n) k)) ` set ks - {0}. insert c (B c)) f s f' s'"
  using assms
proof (induction ks arbitrary: f s)
  case Nil
  then show ?case by (simp add: frees_refl)
next
  case (Cons k ks)
  let ?V = "view sector s"
  let ?c = "unat (le32 (?V dev n) k)"
  have rdy: "ready sector has dok s" using Cons.prems(1) by (simp add: bam_ok_def)
  have d: "b_data (blk s bb) = ?V dev n" by (rule held_data [OF rdy Cons.prems(2)])
  have ks: "set ks \<subseteq> {..<128}" "k < 128" using Cons.prems(3) by auto
  show ?case
  proof (cases "?c = 0")
    case True
    then show ?thesis using Cons.IH [OF Cons.prems(1,2) ks(1) Cons.prems(4-6)] d True by (auto simp: insert_absorb)
  next
    case False
    then have c: "?c \<in> entries ?V dev n" using ks(2) by (auto simp: entries_def)
    obtain f1 s1 where 1: "sub ?c f s = Some (EZERO, f1, s1)" "frees sector has dok dev (B ?c) f s f1 s1"
      using Cons.prems(6) [OF c bam_step_refl [OF Cons.prems(1)]] by blast
    note S1 = bam_stepD [OF frees_step [OF 1(2)]]
    have "?c < nblocks f1" using Cons.prems(5) c nblocks_geometry [OF S1(3)] by (auto simp: freeable_def)
    then obtain f2 s2 where 2: "nat_bfree rd wr dev ?c f1 s1 = Some (EZERO, f2, s2)" "frees sector has dok dev {?c} f1 s1 f2 s2"
      using free_block_works [OF S1(1)] by blast
    have 12: "frees sector has dok dev (insert ?c (B ?c)) f s f2 s2" using frees_trans [OF 1(2) 2(2)] by simp
    note st = frees_step [OF 12]
    note S2 = bam_stepD [OF st] and FR = freeable_step [OF st]
    have v: "view sector s2 dev n = ?V dev n" using S2(4) [of dev n] Cons.prems(4) by (simp add: freeable_def)
    then have e: "entries (view sector s2) dev n = entries ?V dev n" by (rule entries_cong)
    have sb: "\<exists>f4 s4. sub c f3 s3 = Some (EZERO, f4, s4) \<and> frees sector has dok dev (B c) f3 s3 f4 s4"
      if "c \<in> entries (view sector s2) dev n" "bam_step sector has dok dev f2 s2 f3 s3" for c f3 s3
      by (rule Cons.prems(6)) (use that e bam_step_trans [OF st that(2)] in simp_all)
    obtain f' s' where 3: "trunc_entries rd wr dev sub bb ks EZERO f2 s2 = Some (EZERO, f', s')"
        "frees sector has dok dev (\<Union>c \<in> (\<lambda>k. unat (le32 (view sector s2 dev n) k)) ` set ks - {0}. insert c (B c)) f2 s2 f' s'"
      using Cons.IH [OF S2(1) held_quiet [OF Cons.prems(2) S2(2)] ks(1) _ _ sb] Cons.prems(4,5) by (simp only: FR e) blast
    have "insert ?c (B ?c) \<union> (\<Union>c \<in> (\<lambda>k. unat (le32 (?V dev n) k)) ` set ks - {0}. insert c (B c)) =
        (\<Union>c \<in> (\<lambda>k. unat (le32 (?V dev n) k)) ` set (k # ks) - {0}. insert c (B c))" using False by (simp add: insert_Diff_if)
    then have "frees sector has dok dev (\<Union>c \<in> (\<lambda>k. unat (le32 (?V dev n) k)) ` set (k # ks) - {0}. insert c (B c)) f s f' s'"
      using frees_trans [OF 12 3(2)] v by simp
    then show ?thesis using 1(1) 2(1) 3(1) d False by (auto simp: first_err_def)
  qed
qed

text \<open>Holding a buffer while another operation runs.\<close>

lemma use_bracket:
  assumes "buf_kept s s1" and "refs s b \<ge> 0" and "refs s1 = (refs s)(b := refs s b + 1)" and "has (disk s1) = has (disk s)"
    and "b < blk_count s1" and "quiet sector has dok s1 s2"
  shows "\<exists>s3. blk_put (Some b) s2 = Some s3 \<and> quiet sector has dok s s3 \<and> view sector s3 = view sector s2"
proof -
  have q: "ready sector has dok s2" "buf_kept s1 s2" "refs s2 = refs s1" "has (disk s2) = has (disk s1)"
    using assms(6) by (simp_all add: quiet_def)
  then have "b < blk_count s2" "refs s2 b > 0" using assms(2,3,5) by (simp_all add: buf_kept_def)
  then obtain s3 where s3: "blk_put (Some b) s2 = Some s3" "ready sector has dok s3" "view sector s3 = view sector s2"
      "has (disk s3) = has (disk s2)" "buf_kept s2 s3" "refs s3 = (refs s2)(b := refs s2 b - 1)"
    using use_put [OF q(1)] by blast
  have "quiet sector has dok s s3" by (rule quiet_bracket [OF assms(1,3,2,4,6) s3(2,5,6,4)])
  then show ?thesis using s3(1,3) by blast
qed

lemma bam_ok_ready:
  assumes "bam_ok sector has dok dev f s" and "ready sector has dok s'" and "nfree s' > 0" and "has (disk s') = has (disk s)"
    and "view sector s' = view sector s"
  shows "bam_ok sector has dok dev f s'"
  using assms by (simp add: bam_ok_def)

lemma trunc_indir_works:
  assumes "bam_ok sector has dok dev f s" and "nfree s \<ge> j + 2"
    and "insert n (below (view sector s) dev j n) \<subseteq> freeable f (has (disk s) dev)"
  shows "\<exists>f' s'. nat_trunc_indir rd wr dev j n f s = Some (EZERO, f', s') \<and>
     frees sector has dok dev (below (view sector s) dev j n) f s f' s'"
  using assms
proof (induction j arbitrary: n f s rule: less_induct)
  case (less j)
  let ?V = "view sector s" and ?D = "has (disk s) dev"
  let ?sub = "case j of 0 \<Rightarrow> (\<lambda>c f s. Some (EZERO, f, s)) | Suc i \<Rightarrow> nat_trunc_indir rd wr dev i"
  define B where "B c = (case j of 0 \<Rightarrow> {} | Suc i \<Rightarrow> below ?V dev i c)" for c
  have below: "below ?V dev j n = (\<Union>c \<in> entries ?V dev n. insert c (B c))" by (cases j) (auto simp: B_def)
  have n: "n \<in> freeable f ?D" "has (disk s) dev n" using less.prems(3) by (auto simp: freeable_def)
  have rdy: "ready sector has dok s" "nfree s > 0" using less.prems(1) by (simp_all add: bam_ok_def)
  obtain bb s1 where s1: "blk_read rd wr dev n s = Some (Inr bb, s1)" "ready sector has dok s1" "view sector s1 = ?V"
      "has (disk s1) = has (disk s)" "buf_kept s s1" "refs s bb \<ge> 0" "refs s1 = (refs s)(bb := refs s bb + 1)" "held s1 bb dev n"
    using use_read [OF rdy n(2)] by blast
  have "blk_count s1 = blk_count s" using s1(5) by (simp add: buf_kept_def)
  then have nf: "nfree s1 \<ge> j + 1" using nfree_drop [OF _ s1(7)] less.prems(2) by simp
  have ok1: "bam_ok sector has dok dev f s1" by (rule bam_ok_ready [OF less.prems(1) s1(2) _ s1(4,3)]) (use nf in simp)
  have sb: "\<exists>f3 s3. ?sub c f2 s2 = Some (EZERO, f3, s3) \<and> frees sector has dok dev (B c) f2 s2 f3 s3"
    if c: "c \<in> entries (view sector s1) dev n" and st: "bam_step sector has dok dev f s1 f2 s2" for c f2 s2
  proof (cases j)
    case 0
    then show ?thesis using bam_stepD(1) [OF st] by (simp add: B_def frees_refl)
  next
    case (Suc i)
    have sub: "insert c (below ?V dev i c) \<subseteq> freeable f ?D" using less.prems(3) c s1(3) unfolding below by (auto simp: B_def Suc)
    have v: "below (view sector s2) dev i c = below ?V dev i c"
      using freeable_view [OF st] sub s1(3) by simp
    have fr: "freeable f2 (has (disk s2) dev) = freeable f ?D" using freeable_step [OF st] s1(4) by simp
    have "\<exists>f3 s3. nat_trunc_indir rd wr dev i c f2 s2 = Some (EZERO, f3, s3) \<and> frees sector has dok dev (below (view sector s2) dev i c) f2 s2 f3 s3"
      by (rule less.IH) (use Suc bam_stepD(1) [OF st] quiet_nfree [OF bam_stepD(2) [OF st]] nf sub v fr in simp_all)
    then show ?thesis using v by (simp add: B_def Suc)
  qed
  have en: "n \<in> freeable f (has (disk s1) dev)"
      "entries (view sector s1) dev n \<union> (\<Union>c \<in> entries (view sector s1) dev n. B c) \<subseteq> freeable f (has (disk s1) dev)"
    using n(1) less.prems(3) unfolding below s1(3,4) by auto
  have k: "set [0..<128] \<subseteq> {..<128 :: nat}" by auto
  obtain f' s2 where s2: "trunc_entries rd wr dev ?sub bb [0..<128] EZERO f s1 = Some (EZERO, f', s2)"
      "frees sector has dok dev (\<Union>c \<in> (\<lambda>k. unat (le32 (view sector s1 dev n) k)) ` set [0..<128] - {0}. insert c (B c)) f s1 f' s2"
    using trunc_entries_works [OF ok1 s1(8) k en sb] by blast
  then have f: "frees sector has dok dev (below ?V dev j n) f s1 f' s2"
    unfolding below entries_def s1(3) by (simp add: atLeast0LessThan)
  note S = bam_stepD [OF frees_step [OF f]]
  obtain s3 where s3: "blk_put (Some bb) s2 = Some s3" "quiet sector has dok s s3" "view sector s3 = view sector s2"
    using use_bracket [OF s1(5-7,4) _ S(2)] s1(8) by (auto simp: held_def)
  have "bam_ok sector has dok dev f' s3"
    by (rule bam_ok_ready [OF S(1) quiet_ready [OF s3(2)] _ _ s3(3)])
      (use quiet_nfree [OF s3(2)] rdy(2) quiet_has [OF s3(2)] quiet_has [OF S(2)] s1(4) in simp_all)
  then have "frees sector has dok dev (below ?V dev j n) f s f' s3"
    using f S(3,4) s1(3) s3(2,3) unfolding frees_def bam_step_def by simp
  moreover have "nat_trunc_indir rd wr dev j n f s = Some (EZERO, f', s3)"
    by (subst nat_trunc_indir.simps) (use s1(1) s2(1) s3(1) in simp)
  ultimately show ?case by blast
qed

end

section \<open>All blocks of a file\<close>

lemma entries_ind:
  assumes "ind V dev b d p \<noteq> 0"
  shows "x \<in> entries V dev (ind V dev b d p) \<longleftrightarrow> x \<noteq> 0 \<and> (\<exists>q. q div 128 = p \<and> x = ind V dev b (Suc d) q)"
proof
  assume "x \<in> entries V dev (ind V dev b d p)"
  then obtain k where "k < 128" "x = unat (le32 (V dev (ind V dev b d p)) k)" "x \<noteq> 0" by (auto simp: entries_def)
  then show "x \<noteq> 0 \<and> (\<exists>q. q div 128 = p \<and> x = ind V dev b (Suc d) q)"
    using assms by (intro conjI exI [of _ "128 * p + k"]) simp_all
next
  assume "x \<noteq> 0 \<and> (\<exists>q. q div 128 = p \<and> x = ind V dev b (Suc d) q)"
  then show "x \<in> entries V dev (ind V dev b d p)" using assms by (auto simp: entries_def)
qed

lemma below_ind:
  assumes "ind V dev b d p \<noteq> 0"
  shows "x \<in> below V dev j (ind V dev b d p) \<longleftrightarrow> x \<noteq> 0 \<and> (\<exists>k \<le> j. \<exists>q. q div 128 ^ Suc k = p \<and> x = ind V dev b (d + Suc k) q)"
  using assms
proof (induction j arbitrary: d p)
  case 0
  then show ?case using entries_ind [OF 0] by simp
next
  case (Suc j)
  show ?case (is "?L \<longleftrightarrow> _ \<and> ?R")
  proof
    assume ?L
    then consider "x \<in> entries V dev (ind V dev b d p)"
      | c where "c \<in> entries V dev (ind V dev b d p)" "x \<in> below V dev j c" by auto
    then show "x \<noteq> 0 \<and> ?R"
    proof cases
      case 1
      then obtain q where "x \<noteq> 0" "q div 128 = p" "x = ind V dev b (Suc d) q" using entries_ind [OF Suc.prems] by blast
      then have "x \<noteq> 0" "0 \<le> Suc j" "q div 128 ^ Suc 0 = p" "x = ind V dev b (d + Suc 0) q" by (simp_all del: ind.simps)
      then show ?thesis by blast
    next
      case 2
      then obtain q where q: "q div 128 = p" "c = ind V dev b (Suc d) q" "c \<noteq> 0" using entries_ind [OF Suc.prems] by blast
      then obtain k r where "x \<noteq> 0" "k \<le> j" "r div 128 ^ Suc k = q" "x = ind V dev b (Suc d + Suc k) r"
        using Suc.IH [of "Suc d" q] 2(2) by blast
      moreover have "r div 128 ^ Suc (Suc k) = r div 128 ^ Suc k div 128" by (simp only: power_Suc2 [of 128 "Suc k"] div_mult2_eq)
      ultimately have "x \<noteq> 0" "Suc k \<le> Suc j" "r div 128 ^ Suc (Suc k) = p" "x = ind V dev b (d + Suc (Suc k)) r"
        using q(1) by (simp_all del: ind.simps power_Suc)
      then show ?thesis by blast
    qed
  next
    assume R: "x \<noteq> 0 \<and> ?R"
    then obtain k q where k: "k \<le> Suc j" "q div 128 ^ Suc k = p" "x = ind V dev b (d + Suc k) q" by blast
    show ?L
    proof (cases k)
      case 0
      then show ?thesis using entries_ind [OF Suc.prems, of x] k R by auto
    next
      case (Suc i)
      let ?c = "ind V dev b (Suc d) (q div 128 ^ Suc i)"
      have "ind V dev b (Suc d + Suc i) q \<noteq> 0" using k(3) R Suc by (simp del: ind.simps)
      then have "?c \<noteq> 0" by (rule contrapos_nn) (rule ind_zero)
      moreover have "q div 128 ^ Suc i div 128 = p" using k(2) unfolding Suc power_Suc2 [of 128 "Suc i"] div_mult2_eq .
      ultimately have "?c \<in> entries V dev (ind V dev b d p)" using entries_ind [OF Suc.prems, of ?c] by blast
      moreover have "x \<in> below V dev j ?c" unfolding Suc.IH [OF \<open>?c \<noteq> 0\<close>] using R k(1,3) Suc
        by (intro conjI exI [of _ i] exI [of _ q]) (simp_all del: ind.simps)
      ultimately show ?thesis by auto
    qed
  qed
qed

definition piece :: "contents \<Rightarrow> nat \<Rightarrow> nat_fso \<Rightarrow> nat \<Rightarrow> nat set" where
  "piece V dev b i =
     (if unat (bmap b ! i) = 0 then {}
      else insert (unat (bmap b ! i)) (if i \<ge> ndirblks b then below V dev (nindirlev b - 1) (unat (bmap b ! i)) else {}))"

lemma owns_pieces:
  assumes "ndirblks b \<le> NBMAP" and "nindirlev b \<ge> 1"
  shows "owns V dev b = (\<Union>i < NBMAP. piece V dev b i)"
proof (intro set_eqI iffI)
  fix x assume "x \<in> owns V dev b"
  then obtain pos where pos: "pos \<in> tpos b" "x = blk_at V dev b pos" "x \<noteq> 0" by (auto simp: owns_def)
  show "x \<in> (\<Union>i < NBMAP. piece V dev b i)"
  proof (cases pos)
    case (Dir l)
    then show ?thesis using pos assms(1) by (auto simp: piece_def)
  next
    case (Ind d q)
    let ?p = "q div 128 ^ d"
    have h: "ind V dev b 0 ?p \<noteq> 0"
    proof
      assume "ind V dev b 0 ?p = 0"
      then show False using ind_zero [of V dev b 0 q d] pos Ind by (simp del: ind.simps)
    qed
    then have i: "ndirblks b + ?p < NBMAP" "ind V dev b 0 ?p = unat (bmap b ! (ndirblks b + ?p))" by (simp_all split: if_splits)
    have "x = ind V dev b 0 ?p \<or> x \<in> below V dev (nindirlev b - 1) (ind V dev b 0 ?p)"
    proof (cases d)
      case (Suc k)
      then show ?thesis unfolding below_ind [OF h] using pos Ind by (intro disjI2 conjI exI [of _ k] exI [of _ q]) auto
    qed (use pos Ind in simp)
    then show ?thesis using h i by (auto simp: piece_def intro!: bexI [of _ "ndirblks b + ?p"])
  qed
next
  fix x assume "x \<in> (\<Union>i < NBMAP. piece V dev b i)"
  then obtain i where i: "i < NBMAP" "x \<in> piece V dev b i" by blast
  show "x \<in> owns V dev b"
  proof (cases "i < ndirblks b")
    case True
    then have "x = blk_at V dev b (Dir i)" "x \<noteq> 0" using i by (auto simp: piece_def split: if_splits)
    then show ?thesis using True by (auto simp: owns_def intro!: image_eqI [of _ _ "Dir i"])
  next
    case False
    let ?h = "ind V dev b 0 (i - ndirblks b)"
    have h: "?h = unat (bmap b ! i)" using False i(1) by simp
    then have nz: "?h \<noteq> 0" and "x = ?h \<or> x \<in> below V dev (nindirlev b - 1) ?h" using i(2) False by (auto simp: piece_def split: if_splits)
    then consider "x = ?h" | k q where "x \<noteq> 0" "k \<le> nindirlev b - 1" "x = ind V dev b (Suc k) q"
      unfolding below_ind [OF nz] by auto
    then show ?thesis
    proof cases
      case 1
      then show ?thesis using nz by (auto simp: owns_def intro!: image_eqI [of _ _ "Ind 0 (i - ndirblks b)"])
    next
      case 2
      then show ?thesis using assms(2) by (auto simp: owns_def simp del: ind.simps intro!: image_eqI [of _ _ "Ind (Suc k) q"])
    qed
  qed
qed

section \<open>Truncating\<close>

lemma piece_update:
  assumes "i \<noteq> k" and "i < length (bmap b)"
  shows "piece V dev (b\<lparr>bmap := (bmap b)[k := w]\<rparr>) i = piece V dev b i"
  using assms by (simp add: piece_def)

lemma piece_view:
  assumes "bam_step sector has dok dev f s f' s'" and "piece (view sector s) dev b i \<subseteq> freeable f D"
  shows "piece (view sector s') dev b i = piece (view sector s) dev b i"
proof (cases "unat (bmap b ! i) = 0 \<or> i < ndirblks b")
  case True
  then show ?thesis by (auto simp: piece_def)
next
  case False
  then show ?thesis using freeable_view [OF assms(1), of "unat (bmap b ! i)" "nindirlev b - 1" D] assms(2) by (simp add: piece_def)
qed

context block_driver
begin

lemma trunc_loop_works:
  assumes "bam_ok sector has dok dev f s" and "distinct is" and "set is \<subseteq> {..<length (bmap b)}" and "nfree s \<ge> nindirlev b + 1"
    and "nindirlev b \<ge> 1" and "(\<Union>i \<in> set is. piece (view sector s) dev b i) \<subseteq> freeable f (has (disk s) dev)"
  shows "\<exists>bm f' s'. trunc_loop rd wr dev is b f s = Some (b\<lparr>bmap := bm\<rparr>, f', s') \<and> length bm = length (bmap b) \<and>
     (\<forall>i < length bm. bm ! i = (if i \<in> set is then 0 else bmap b ! i)) \<and>
     frees sector has dok dev (\<Union>i \<in> set is. piece (view sector s) dev b i) f s f' s'"
  using assms
proof (induction "is" arbitrary: b f s)
  case Nil
  then show ?case by (intro exI [of _ "bmap b"]) (simp add: frees_refl)
next
  case (Cons i "is")
  let ?V = "view sector s" and ?n = "unat (bmap b ! i)"
  have i: "i < length (bmap b)" "distinct is" "i \<notin> set is" "set is \<subseteq> {..<length (bmap b)}" using Cons.prems(2,3) by auto
  have pi: "piece ?V dev b i \<subseteq> freeable f (has (disk s) dev)"
    and ps: "(\<Union>i \<in> set is. piece ?V dev b i) \<subseteq> freeable f (has (disk s) dev)" using Cons.prems(6) by auto
  show ?case
  proof (cases "?n = 0")
    case True
    then have "bmap b ! i = 0" "piece ?V dev b i = {}" by (simp_all add: piece_def unat_eq_zero)
    moreover obtain bm f' s' where L: "trunc_loop rd wr dev is b f s = Some (b\<lparr>bmap := bm\<rparr>, f', s')" "length bm = length (bmap b)"
        "\<forall>k < length bm. bm ! k = (if k \<in> set is then 0 else bmap b ! k)"
        "frees sector has dok dev (\<Union>k \<in> set is. piece ?V dev b k) f s f' s'"
      using Cons.IH [OF Cons.prems(1) i(2,4) Cons.prems(4,5) ps] by blast
    ultimately show ?thesis using True by (intro exI [of _ bm] exI [of _ f'] exI [of _ s']) simp
  next
    case False
    let ?sub = "if i \<ge> ndirblks b then nat_trunc_indir rd wr dev (nindirlev b - 1) ?n f s else Some (EZERO, f, s)"
    let ?B = "if i \<ge> ndirblks b then below ?V dev (nindirlev b - 1) ?n else {}"
    have pc: "piece ?V dev b i = insert ?n ?B" using False by (simp add: piece_def)
    obtain f1 s1 where 1: "?sub = Some (EZERO, f1, s1)" "frees sector has dok dev ?B f s f1 s1"
      using trunc_indir_works [OF Cons.prems(1), of "nindirlev b - 1" ?n] Cons.prems(4,5) pi[unfolded pc] frees_refl [OF Cons.prems(1)]
      by (cases "i \<ge> ndirblks b") auto
    note S1 = bam_stepD [OF frees_step [OF 1(2)]]
    have "?n < nblocks f1" using pi nblocks_geometry [OF S1(3)] unfolding pc by (simp add: freeable_def)
    then obtain f2 s2 where 2: "nat_bfree rd wr dev ?n f1 s1 = Some (EZERO, f2, s2)" "frees sector has dok dev {?n} f1 s1 f2 s2"
      using free_block_works [OF S1(1)] by blast
    have 12: "frees sector has dok dev (piece ?V dev b i) f s f2 s2" using frees_trans [OF 1(2) 2(2)] unfolding pc by simp
    note st = frees_step [OF 12]
    note S2 = bam_stepD [OF st]
    let ?b = "b\<lparr>bmap := (bmap b)[i := 0]\<rparr>"
    have pv: "piece (view sector s2) dev ?b k = piece ?V dev b k" if "k \<in> set is" for k
    proof -
      have "piece (view sector s2) dev ?b k = piece (view sector s2) dev b k" by (rule piece_update) (use that i in auto)
      also have "\<dots> = piece ?V dev b k" by (rule piece_view [OF st]) (use ps that in blast)
      finally show ?thesis .
    qed
    have u: "(\<Union>k \<in> set is. piece (view sector s2) dev ?b k) = (\<Union>k \<in> set is. piece ?V dev b k)" using pv by simp
    have p: "set is \<subseteq> {..<length (bmap ?b)}" "nindirlev ?b + 1 \<le> nfree s2" "1 \<le> nindirlev ?b"
        "(\<Union>k \<in> set is. piece (view sector s2) dev ?b k) \<subseteq> freeable f2 (has (disk s2) dev)"
      unfolding u freeable_step [OF st] quiet_nfree [OF S2(2)] using i(4) Cons.prems(4,5) ps by simp_all
    obtain bm f' s' where 3: "trunc_loop rd wr dev is ?b f2 s2 = Some (?b\<lparr>bmap := bm\<rparr>, f', s')" "length bm = length (bmap ?b)"
        "\<forall>k < length bm. bm ! k = (if k \<in> set is then 0 else bmap ?b ! k)"
        "frees sector has dok dev (\<Union>k \<in> set is. piece (view sector s2) dev ?b k) f2 s2 f' s'"
      using Cons.IH [OF S2(1) i(2) p] by blast
    have "trunc_loop rd wr dev (i # is) b f s = Some (b\<lparr>bmap := bm\<rparr>, f', s')" using False 1(1) 2(1) 3(1) by simp
    moreover have "frees sector has dok dev (\<Union>k \<in> set (i # is). piece ?V dev b k) f s f' s'"
      using frees_trans [OF 12 3(4)] unfolding u by simp
    moreover have "\<forall>k < length bm. bm ! k = (if k \<in> set (i # is) then 0 else bmap b ! k)" using 3(2,3) i(1,3) by auto
    ultimately show ?thesis using 3(2) by auto
  qed
qed

lemma trunc_works:
  assumes "file_inv sector has dok dev b f s" and "nindirlev b \<ge> 1" and "nfree s \<ge> nindirlev b + 1"
  shows "\<exists>b' f' s'. nat_trunc rd wr dev b f s = Some (EZERO, b', f', s') \<and> file_inv sector has dok dev b' f' s' \<and>
     o_size b' = 0 \<and> o_index b' = o_index b \<and> (\<forall>x. content (view sector s') dev b' x = 0) \<and> owns (view sector s') dev b' = {} \<and>
     frees sector has dok dev (owns (view sector s) dev b) f s f' s'"
proof -
  let ?V = "view sector s" and ?D = "has (disk s) dev"
  have F: "file_ok sector has dok dev b f s" and lev: "7 * nindirlev b < 32" using assms(1) by (simp_all add: file_inv_def)
  have B: "bam_ok sector has dok dev f s" and t: "tree_ok (live ?V dev f ?D) ?V dev b" and fr: "free_ok ?V dev f ?D" and nf: "nfree s \<ge> 2"
    using F by (simp_all add: file_ok_def)
  have nd: "ndirblks b \<le> NBMAP" "length (bmap b) = NBMAP" using t by (simp_all add: tree_ok_def)
  note op = owns_pieces [OF nd(1) assms(2), of ?V dev]
  have own: "owns ?V dev b \<subseteq> freeable f ?D" 
  proof
    fix n assume "n \<in> owns ?V dev b"
    then obtain pos where "pos \<in> tpos b" "blk_at ?V dev b pos \<noteq> 0" "n = blk_at ?V dev b pos" unfolding owns_def by blast
    then show "n \<in> freeable f ?D" using file_ok_live [OF F] by (simp add: freeable_def)
  qed
  have s: "owns ?V dev b = (\<Union>i \<in> set [0..<NBMAP]. piece ?V dev b i)" "set [0..<NBMAP] \<subseteq> {..<length (bmap b)}"
      "(\<Union>i \<in> set [0..<NBMAP]. piece ?V dev b i) \<subseteq> freeable f ?D"
    using own nd(2) by (simp_all only: op set_upt atLeast0LessThan order_refl)
  obtain bm f' s' where L: "trunc_loop rd wr dev [0..<NBMAP] b f s = Some (b\<lparr>bmap := bm\<rparr>, f', s')" "length bm = NBMAP"
      "\<forall>i < length bm. bm ! i = (if i \<in> set [0..<NBMAP] then 0 else bmap b ! i)" "frees sector has dok dev (owns ?V dev b) f s f' s'"
    using trunc_loop_works [OF B distinct_upt s(2) assms(3,2) s(3)] unfolding s(1) [symmetric] nd(2) by blast
  let ?b = "b\<lparr>bmap := bm, bmap_valid := False, o_dirty := True, o_blocks := 1, o_size := 0\<rparr>"
  have z: "bm ! i = 0" if "i < NBMAP" for i using L(2,3) that by simp
  have holes: "blk_at V dev ?b pos = 0" if "pos \<in> tpos ?b" for V pos
  proof (cases pos)
    case (Dir l)
    then show ?thesis using that z nd by simp
  next
    case (Ind d p)
    have "ind V dev ?b 0 q = 0" for q using z by simp
    then show ?thesis using ind_zero [of V dev ?b 0 p d] Ind by simp
  qed
  have trunc: "nat_trunc rd wr dev b f s = Some (EZERO, ?b, f', s')" using L(1) assms(2) lev by (simp add: nat_trunc_def)
  note st = frees_step [OF L(4)]
  note S = bam_stepD [OF st]
  have u: "\<forall>n < nblocks f. used (view sector s') dev f' n \<longleftrightarrow> used ?V dev f n \<and> n \<notin> owns ?V dev b"
    using L(4) by (auto simp: frees_def)
  have G: "nblocks f' = nblocks f" "bam_range f' = bam_range f" "has (disk s') = has (disk s)"
    using nblocks_geometry [OF S(3)] bam_step_geometry(8) [OF st] quiet_has [OF S(2)] by simp_all
  have dp: "data_pos ?b l \<in> tpos ?b" for l by (auto simp: data_pos_def)
  have "free_ok (view sector s') dev f' (has (disk s') dev)"
    unfolding free_ok_def G using u fr own by (auto simp: free_ok_def freeable_def owns_def)
  moreover have "tree_ok U (view sector s') dev ?b" for U unfolding tree_ok_def using holes L(2) nd by auto
  ultimately have "file_inv sector has dok dev ?b f' s'"
    using S(1) nf quiet_nfree [OF S(2)] lev by (simp add: file_inv_def file_ok_def bmap_cached_def)
  moreover have "content (view sector s') dev ?b x = 0" for x using holes [OF dp] by (simp add: content_def lookup_def)
  moreover have "owns (view sector s') dev ?b = {}" using holes by (auto simp: owns_def)
  moreover have "o_size ?b = 0" by simp
  moreover have "o_index ?b = o_index b" by simp
  ultimately show ?thesis using trunc L(4) by blast
qed

end

text \<open>
  C20: Truncating a file never panics. It frees exactly the blocks that the file consisted of, its blocks of numbers included, and
  no other block; the contents of all blocks outside the map stay as they are. The file is empty afterwards, consists of holes, and the invariants of the
  file, the map and the cache hold. Buffers are needed for one block on each level and one for the map.
\<close>

theorem nat_trunc_frees:
  assumes "block_driver rd wr sector has dok" and "file_inv sector has dok dev b f s" and "nindirlev b \<ge> 1"
    and "nfree s \<ge> nindirlev b + 1"
  shows "\<exists>b' f' s'. nat_trunc rd wr dev b f s = Some (EZERO, b', f', s') \<and> file_inv sector has dok dev b' f' s' \<and>
     o_size b' = 0 \<and> (\<forall>x. content (view sector s') dev b' x = 0) \<and> owns (view sector s') dev b' = {} \<and>
     (\<forall>n < nblocks f. used (view sector s') dev f' n \<longleftrightarrow> used (view sector s) dev f n \<and> n \<notin> owns (view sector s) dev b) \<and>
     (\<forall>dv n. \<not> (dv = dev \<and> n \<in> bam_range f) \<longrightarrow> view sector s' dv n = view sector s dv n)"
  using block_driver.trunc_works [OF assms] unfolding frees_def bam_step_def by blast

end
