(* ===== verification/Nat_Fso.thy ===== *)
theory Nat_Fso
  imports Nat_Trunc
begin

text \<open>
  The headers of the files of the native file system (\<^verbatim>\<open>src/kern/fs/nat/fso.c\<close>): a header fills one block, whose number is the index of the
  file, and holds the attributes of the file and the first level of its map. Word \<open>k\<close> of the block is at byte \<open>4 * k\<close>:
  the three times are in the words 0 to 5, \<^verbatim>\<open>uid\<close>, \<^verbatim>\<open>gid\<close>, \<^verbatim>\<open>size\<close>, \<^verbatim>\<open>mode\<close>, \<^verbatim>\<open>nlink\<close>, \<^verbatim>\<open>blocks\<close>, \<^verbatim>\<open>rdev\<close> in the words 6 to 12,
  \<^verbatim>\<open>ndirblks\<close> and \<^verbatim>\<open>nindirlev\<close> are the bytes 52 and 53, and \<^verbatim>\<open>bmap\<close> starts at word 14.
\<close>

section \<open>Operations\<close>

definition le64 :: "8 word list \<Rightarrow> nat \<Rightarrow> 64 word" where
  "le64 bs k = ucast (le32 bs k) OR push_bit 32 (ucast (le32 bs (k + 1)))"

definition put64 :: "nat \<Rightarrow> 64 word \<Rightarrow> 8 word list \<Rightarrow> 8 word list" where
  "put64 k w bs = put32 (k + 1) (ucast (drop_bit 32 w)) (put32 k (ucast w) bs)"

definition nat_imode :: "32 word \<Rightarrow> 32 word" where
  "nat_imode mode =
     (let n = (mode AND S_IFMT) OR 0x124;
          n = (if mode AND 0x92 \<noteq> 0 then n OR 0x92 else n)
      in if mode AND 0x49 \<noteq> 0 then n OR 0x49 else n)"

text \<open>The fields that \<^verbatim>\<open>nat_getfso\<close> takes from the header, and the header that \<^verbatim>\<open>nat_syncfso\<close> writes.\<close>

definition hdr_load :: "bool \<Rightarrow> 8 word list \<Rightarrow> nat_fso \<Rightarrow> nat_fso" where
  "hdr_load insec h b =
     (let b1 = b\<lparr>o_blocks := uint (le32 h 11), o_size := unat (le32 h 8), o_mode := le32 h 9, o_rdev := uint (le32 h 12),
                 o_uid := sint (le32 h 6), o_gid := sint (le32 h 7),
                 atime := sint (le64 h 4), ctime := sint (le64 h 0), mtime := sint (le64 h 2), nlink := uint (le32 h 10)\<rparr>;
          b2 = (if insec then b1\<lparr>o_mode := nat_imode (o_mode b1), o_uid := 0, o_gid := 0\<rparr> else b1)
      in b2\<lparr>bmap := map (\<lambda>i. le32 h (14 + i)) [0..<NBMAP], ndirblks := unat (h ! 52), nindirlev := unat (h ! 53)\<rparr>)"

definition hdr_store :: "bool \<Rightarrow> nat_fso \<Rightarrow> 8 word list" where
  "hdr_store insec b =
     (let h1 = put32 9 (o_mode b) (put32 8 (word_of_nat (o_size b)) (put32 11 (word_of_int (o_blocks b)) zeros));
          h2 = put32 7 (word_of_int (o_gid b)) (put32 6 (word_of_int (o_uid b)) h1);
          h3 = put64 2 (word_of_int (mtime b)) (put64 0 (word_of_int (ctime b)) (put64 4 (word_of_int (atime b)) h2));
          h4 = put32 10 (word_of_int (nlink b)) h3;
          h5 = (if insec then put32 7 0 (put32 6 0 (put32 9 (nat_imode (le32 h4 9)) h4)) else h4);
          h6 = fold (\<lambda>i. put32 (14 + i) (bmap b ! i)) [0..<NBMAP] h5
      in h6[52 := word_of_nat (ndirblks b), 53 := word_of_nat (nindirlev b)])"

text \<open>\<^verbatim>\<open>nat_getfso\<close> without its call of \<^verbatim>\<open>fs_state\<close>, which sets the poll state of the object.\<close>

definition getfso_hdr ::
    "'d drv_read \<Rightarrow> 'd drv_write \<Rightarrow> nat \<Rightarrow> bool \<Rightarrow> nat_fso \<Rightarrow> 'd bcache \<Rightarrow> (errno \<times> nat_fso \<times> 'd bcache) option" where
  "getfso_hdr rd wr dev insec b s = do {
     (r, s1) \<leftarrow> blk_read rd wr dev (nat (o_index b)) s;
     (case r of
        Inl e \<Rightarrow> Some (e, b, s1)
      | Inr bb \<Rightarrow> do {
          s2 \<leftarrow> blk_put (Some bb) s1;
          Some (EZERO, hdr_load insec (b_data (blk s1 bb)) b, s2)
        })
   }"

definition nat_syncfso :: "'d drv_write \<Rightarrow> nat \<Rightarrow> bool \<Rightarrow> nat_fso \<Rightarrow> 'd bcache \<Rightarrow> (errno \<times> nat_fso \<times> 'd bcache) option" where
  "nat_syncfso wr dev insec b s =
     (if \<not> o_dirty b then Some (EZERO, b, s)
      else do {
        (r, s1) \<leftarrow> blk_get wr dev (nat (o_index b)) s;
        (case r of
           Inl e \<Rightarrow> Some (e, b, s1)
         | Inr bb \<Rightarrow> do {
             s2 \<leftarrow> blk_put (Some bb) (upd_blk bb (\<lambda>v. v\<lparr>b_data := hdr_store insec b, b_dirty := True, b_valid := True\<rparr>) s1);
             Some (EZERO, b\<lparr>o_dirty := False\<rparr>, s2)
           })
      })"

definition nat_putfso :: "'d drv_read \<Rightarrow> 'd drv_write \<Rightarrow> nat \<Rightarrow> bool \<Rightarrow> nat_fso \<Rightarrow> nat_fs \<Rightarrow> 'd bcache \<Rightarrow> 'd fso_res" where
  "nat_putfso rd wr dev insec b f s =
     (if nlink b = 0 then do {
        (_, b1, f1, s1) \<leftarrow> nat_trunc rd wr dev b f s;
        (_, f2, s2) \<leftarrow> nat_bfree rd wr dev (nat (o_index b1)) f1 s1;
        Some (EZERO, b1, f2, s2)
      }
      else do {
        (e, b1, s1) \<leftarrow> nat_syncfso wr dev insec b s;
        Some (e, b1, f, s1)
      })"

section \<open>Headers\<close>

lemma le64_put64:
  assumes "4 * k + 8 \<le> length bs"
  shows "le64 (put64 k w bs) k = w"
proof (rule bit_eqI)
  fix n
  have "le32 (put64 k w bs) k = ucast w" "le32 (put64 k w bs) (k + 1) = ucast (drop_bit 32 w)"
    using assms by (simp_all add: put64_def le32_put32)
  then show "bit (le64 (put64 k w bs) k) n = bit w n"
    by (auto simp: le64_def bit_or_iff bit_push_bit_iff bit_unsigned_iff bit_drop_bit_eq dest: bit_imp_le_length)
qed

lemma le32_put64:
  assumes "4 * k + 8 \<le> length bs" and "4 * j + 4 \<le> length bs" and "j \<noteq> k" and "j \<noteq> k + 1"
  shows "le32 (put64 k w bs) j = le32 bs j"
  using assms by (simp add: put64_def le32_put32)

lemma le64_cong:
  assumes "le32 bs' k = le32 bs k" and "le32 bs' (k + 1) = le32 bs (k + 1)"
  shows "le64 bs' k = le64 bs k"
  unfolding le64_def assms ..

lemma le64_put32:
  assumes "4 * k + 4 \<le> length bs" and "4 * j + 8 \<le> length bs" and "k \<noteq> j" and "k \<noteq> j + 1"
  shows "le64 (put32 k w bs) j = le64 bs j"
  by (rule le64_cong) (use assms in \<open>simp_all add: le32_put32\<close>)

lemma le64_put64_other:
  assumes "4 * k + 8 \<le> length bs" and "4 * j + 8 \<le> length bs" and "k \<noteq> j" and "k \<noteq> j + 1" and "j \<noteq> k + 1"
  shows "le64 (put64 k w bs) j = le64 bs j"
  by (rule le64_cong) (use assms in \<open>simp_all add: le32_put64\<close>)

lemma length_put64 [simp]: "4 * k + 8 \<le> length bs \<Longrightarrow> length (put64 k w bs) = length bs"
  by (simp add: put64_def)

lemma length_put_words: "length bs = BLK_SIZE \<Longrightarrow> n \<le> NBMAP \<Longrightarrow> length (fold (\<lambda>i. put32 (14 + i) (w i)) [0..<n] bs) = BLK_SIZE"
  by (induction n) simp_all

lemma le32_put_words:
  assumes "length bs = BLK_SIZE" and "n \<le> NBMAP" and "j < 128"
  shows "le32 (fold (\<lambda>i. put32 (14 + i) (w i)) [0..<n] bs) j = (if 14 \<le> j \<and> j < 14 + n then w (j - 14) else le32 bs j)"
  using assms by (induction n) (auto simp: le32_put32 length_put_words)

lemma le32_update:
  assumes "i div 4 \<noteq> j"
  shows "le32 (bs[i := x]) j = le32 bs j"
proof -
  have "i \<noteq> 4 * j" "i \<noteq> 4 * j + 1" "i \<noteq> 4 * j + 2" "i \<noteq> 4 * j + 3" using assms by auto
  then show ?thesis by (simp add: le32_def)
qed

text \<open>
  The modes of an insecure file system: the type of the file is kept, everybody may read, and everybody may write or execute if anybody may.
\<close>

definition shared_mode :: "32 word \<Rightarrow> 32 word \<Rightarrow> bool" where
  "shared_mode mode m \<longleftrightarrow> m AND S_IFMT = mode AND S_IFMT \<and> (\<forall>k. bit m k \<longrightarrow> k < 9 \<or> bit S_IFMT k) \<and>
     (\<forall>k < 3. bit m (3 * k + 2) \<and> (bit m (3 * k + 1) \<longleftrightarrow> (\<exists>j < 3. bit mode (3 * j + 1))) \<and> (bit m (3 * k) \<longleftrightarrow> (\<exists>j < 3. bit mode (3 * j))))"

lemma mode_words: "(0x124 :: 32 word) = 2 ^ 2 OR 2 ^ 5 OR 2 ^ 8" "(0x92 :: 32 word) = 2 ^ 1 OR 2 ^ 4 OR 2 ^ 7"
  "(0x49 :: 32 word) = 2 ^ 0 OR 2 ^ 3 OR 2 ^ 6" "(0x7000 :: 32 word) = 2 ^ 12 OR 2 ^ 13 OR 2 ^ 14"
  by simp_all

lemma mode_bits: "bit (0x124 :: 32 word) k \<longleftrightarrow> k = 2 \<or> k = 5 \<or> k = 8" "bit (0x92 :: 32 word) k \<longleftrightarrow> k = 1 \<or> k = 4 \<or> k = 7"
  "bit (0x49 :: 32 word) k \<longleftrightarrow> k = 0 \<or> k = 3 \<or> k = 6" "bit (0x7000 :: 32 word) k \<longleftrightarrow> k = 12 \<or> k = 13 \<or> k = 14"
  unfolding mode_words by (auto simp only: bit_or_iff bit_exp_iff possible_bit_word) auto

lemma and_mode: "(w :: 32 word) AND 0x92 \<noteq> 0 \<longleftrightarrow> bit w 1 \<or> bit w 4 \<or> bit w 7" "w AND 0x49 \<noteq> 0 \<longleftrightarrow> bit w 0 \<or> bit w 3 \<or> bit w 6"
  unfolding bit_eq_iff [of "w AND 0x92" 0] bit_eq_iff [of "w AND 0x49" 0]
  by (auto simp: bit_and_iff mode_bits simp del: bit_numeral_word_iff) (auto intro: exI [of _ "Suc 0"] exI [of _ 4] exI [of _ 7] exI [of _ 0] exI [of _ 3] exI [of _ 6])

lemma nat_imode_bit: "bit (nat_imode mode) k \<longleftrightarrow>
    k = 2 \<or> k = 5 \<or> k = 8 \<or> (k = 1 \<or> k = 4 \<or> k = 7) \<and> (bit mode 1 \<or> bit mode 4 \<or> bit mode 7) \<or>
    (k = 0 \<or> k = 3 \<or> k = 6) \<and> (bit mode 0 \<or> bit mode 3 \<or> bit mode 6) \<or> (k = 12 \<or> k = 13 \<or> k = 14) \<and> bit mode k"
  unfolding nat_imode_def Let_def and_mode by (auto simp: bit_or_iff bit_and_iff mode_bits simp del: bit_numeral_word_iff)

lemma nat_imode_shared: "shared_mode mode (nat_imode mode)" "nat_imode (nat_imode mode) = nat_imode mode"
proof -
  have three: "(\<forall>k < 3. Q k) \<longleftrightarrow> Q 0 \<and> Q 1 \<and> Q 2" "(\<exists>k < 3. Q k) \<longleftrightarrow> Q 0 \<or> Q 1 \<or> Q 2" for Q :: "nat \<Rightarrow> bool"
    by (auto simp: less_Suc_eq numeral_3_eq_3 numeral_2_eq_2)
  have "nat_imode mode AND S_IFMT = mode AND S_IFMT" by (rule bit_eqI) (auto simp: bit_and_iff nat_imode_bit mode_bits simp del: bit_numeral_word_iff)
  moreover have "bit (nat_imode mode) k \<longrightarrow> k < 9 \<or> bit S_IFMT k" for k by (auto simp: nat_imode_bit mode_bits simp del: bit_numeral_word_iff)
  ultimately show "shared_mode mode (nat_imode mode)" unfolding shared_mode_def three by (simp add: nat_imode_bit)
  show "nat_imode (nat_imode mode) = nat_imode mode" by (rule bit_eqI) (auto simp: nat_imode_bit)
qed

text \<open>The values that the fields of an object can have in the header.\<close>

definition hdr_range :: "nat_fso \<Rightarrow> bool" where
  "hdr_range b \<longleftrightarrow> 0 \<le> o_blocks b \<and> o_blocks b < 2 ^ 32 \<and> o_size b < 2 ^ 32 \<and> 0 \<le> nlink b \<and> nlink b < 2 ^ 32 \<and>
     - (2 ^ 31) \<le> o_uid b \<and> o_uid b < 2 ^ 31 \<and> - (2 ^ 31) \<le> o_gid b \<and> o_gid b < 2 ^ 31 \<and>
     - (2 ^ 63) \<le> atime b \<and> atime b < 2 ^ 63 \<and> - (2 ^ 63) \<le> ctime b \<and> ctime b < 2 ^ 63 \<and> - (2 ^ 63) \<le> mtime b \<and> mtime b < 2 ^ 63 \<and>
     length (bmap b) = NBMAP \<and> ndirblks b < 256 \<and> nindirlev b < 256"

lemma length_zeros [simp]: "length zeros = BLK_SIZE"
  by (simp add: zeros_def)

text \<open>The header before the map of the file is copied into it.\<close>

definition hdr_attrs :: "nat_fso \<Rightarrow> 8 word list" where
  "hdr_attrs b = put32 10 (word_of_int (nlink b))
     (put64 2 (word_of_int (mtime b)) (put64 0 (word_of_int (ctime b)) (put64 4 (word_of_int (atime b))
       (put32 7 (word_of_int (o_gid b)) (put32 6 (word_of_int (o_uid b))
         (put32 9 (o_mode b) (put32 8 (word_of_nat (o_size b)) (put32 11 (word_of_int (o_blocks b)) zeros))))))))"

lemma hdr_store_attrs:
  "hdr_store insec b = (fold (\<lambda>i. put32 (14 + i) (bmap b ! i)) [0..<NBMAP]
     (if insec then put32 7 0 (put32 6 0 (put32 9 (nat_imode (le32 (hdr_attrs b) 9)) (hdr_attrs b))) else hdr_attrs b))
     [52 := word_of_nat (ndirblks b), 53 := word_of_nat (nindirlev b)]"
  by (simp add: hdr_store_def hdr_attrs_def Let_def del: upt_rec_numeral upt_conv_Cons_Cons)

lemma length_hdr_attrs [simp]: "length (hdr_attrs b) = BLK_SIZE"
  by (simp add: hdr_attrs_def)

lemma length_hdr_store [simp]: "length (hdr_store insec b) = BLK_SIZE"
  by (simp add: hdr_store_attrs length_put_words)

lemma hdr_attrs_words:
  "le32 (hdr_attrs b) 6 = word_of_int (o_uid b)" "le32 (hdr_attrs b) 7 = word_of_int (o_gid b)"
  "le32 (hdr_attrs b) 8 = word_of_nat (o_size b)" "le32 (hdr_attrs b) 9 = o_mode b"
  "le32 (hdr_attrs b) 10 = word_of_int (nlink b)" "le32 (hdr_attrs b) 11 = word_of_int (o_blocks b)"
  "le32 (hdr_attrs b) 12 = 0"
  by (simp_all add: hdr_attrs_def le32_put32 le32_put64 le32_zeros)

lemma hdr_attrs_times:
  "le64 (hdr_attrs b) 0 = word_of_int (ctime b)" "le64 (hdr_attrs b) 2 = word_of_int (mtime b)" "le64 (hdr_attrs b) 4 = word_of_int (atime b)"
  by (simp_all add: hdr_attrs_def le64_put32 le64_put64 le64_put64_other)

lemma hdr_store_words:
  assumes "length (bmap b) = NBMAP"
  shows "le32 (hdr_store insec b) 6 = (if insec then 0 else word_of_int (o_uid b))"
    "le32 (hdr_store insec b) 7 = (if insec then 0 else word_of_int (o_gid b))"
    "le32 (hdr_store insec b) 8 = word_of_nat (o_size b)" "le32 (hdr_store insec b) 9 = (if insec then nat_imode (o_mode b) else o_mode b)"
    "le32 (hdr_store insec b) 10 = word_of_int (nlink b)" "le32 (hdr_store insec b) 11 = word_of_int (o_blocks b)"
    "le32 (hdr_store insec b) 12 = 0" "le64 (hdr_store insec b) 0 = word_of_int (ctime b)"
    "le64 (hdr_store insec b) 2 = word_of_int (mtime b)" "le64 (hdr_store insec b) 4 = word_of_int (atime b)"
    "map (\<lambda>i. le32 (hdr_store insec b) (14 + i)) [0..<NBMAP] = bmap b"
    "hdr_store insec b ! 52 = word_of_nat (ndirblks b)" "hdr_store insec b ! 53 = word_of_nat (nindirlev b)"
proof -
  define h where "h = (if insec then put32 7 0 (put32 6 0 (put32 9 (nat_imode (le32 (hdr_attrs b) 9)) (hdr_attrs b))) else hdr_attrs b)"
  have lh: "length h = BLK_SIZE" by (simp add: h_def)
  have w: "le32 (hdr_store insec b) j = (if 14 \<le> j then bmap b ! (j - 14) else le32 h j)" if "j < 128" "j \<noteq> 13" for j
    using that le32_put_words [of h NBMAP j] lh by (simp add: hdr_store_attrs h_def [symmetric] le32_update)
  have t: "le64 (hdr_store insec b) j = le64 h j" if "j < 12" for j
    by (rule le64_cong) (use that w [of j] w [of "j + 1"] in simp_all)
  have ht: "le64 h j = le64 (hdr_attrs b) j" if "j < 5" for j using that by (simp add: h_def le64_put32)
  show "le32 (hdr_store insec b) 6 = (if insec then 0 else word_of_int (o_uid b))"
    "le32 (hdr_store insec b) 7 = (if insec then 0 else word_of_int (o_gid b))"
    "le32 (hdr_store insec b) 8 = word_of_nat (o_size b)" "le32 (hdr_store insec b) 9 = (if insec then nat_imode (o_mode b) else o_mode b)"
    "le32 (hdr_store insec b) 10 = word_of_int (nlink b)" "le32 (hdr_store insec b) 11 = word_of_int (o_blocks b)"
    "le32 (hdr_store insec b) 12 = 0" by (simp_all add: w h_def le32_put32 hdr_attrs_words)
  show "le64 (hdr_store insec b) 0 = word_of_int (ctime b)" "le64 (hdr_store insec b) 2 = word_of_int (mtime b)"
    "le64 (hdr_store insec b) 4 = word_of_int (atime b)" by (simp_all add: t ht hdr_attrs_times)
  show "map (\<lambda>i. le32 (hdr_store insec b) (14 + i)) [0..<NBMAP] = bmap b"
    by (rule nth_equalityI) (use assms w in simp_all)
  show "hdr_store insec b ! 52 = word_of_nat (ndirblks b)" "hdr_store insec b ! 53 = word_of_nat (nindirlev b)"
    using lh unfolding hdr_store_attrs h_def [symmetric] by (simp_all add: length_put_words)
qed

text \<open>
  Reading back what has been written gives every attribute of the file and its map, except that the device number of a device file is lost,
  and that a file of an insecure file system belongs to root and has a shared mode.
\<close>

lemma hdr_load_store_any:
  assumes "hdr_range b"
  shows "hdr_load insec (hdr_store insec b) z =
    z\<lparr>o_blocks := o_blocks b, o_size := o_size b, o_mode := if insec then nat_imode (o_mode b) else o_mode b, o_rdev := 0,
      o_uid := if insec then 0 else o_uid b, o_gid := if insec then 0 else o_gid b,
      atime := atime b, ctime := ctime b, mtime := mtime b, nlink := nlink b,
      bmap := bmap b, ndirblks := ndirblks b, nindirlev := nindirlev b\<rparr>"
proof -
  have u: "uint (word_of_int x :: 32 word) = x" if "0 \<le> x" "x < 2 ^ 32" for x using that by (simp add: uint_word_of_int)
  have i: "sint (word_of_int x :: 32 word) = x" if "- (2 ^ 31) \<le> x" "x < 2 ^ 31" for x
    using that signed_take_bit_int_eq_self [of 31 x] by (simp add: sint_sbintrunc')
  have l: "sint (word_of_int x :: 64 word) = x" if "- (2 ^ 63) \<le> x" "x < 2 ^ 63" for x
    using that signed_take_bit_int_eq_self [of 63 x] by (simp add: sint_sbintrunc')
  have n: "unat (word_of_nat x :: 32 word) = x" if "x < 2 ^ 32" for x using that by (simp add: unat_of_nat)
  have c: "unat (word_of_nat x :: 8 word) = x" if "x < 256" for x using that by (simp add: unat_of_nat)
  show ?thesis using assms unfolding hdr_load_def Let_def hdr_range_def
    by (cases insec) (simp_all add: hdr_store_words u i l n c nat_imode_shared(2) del: upt_rec_numeral)
qed

lemmas hdr_load_store = hdr_load_store_any [of _ False, unfolded if_False]

lemma hdr_loses_rdev: "\<exists>b. hdr_range b \<and> o_rdev (hdr_load False (hdr_store False b) b) \<noteq> o_rdev b"
proof -
  let ?b = "fso.extend (zero_fso\<lparr>o_rdev := 5\<rparr>) \<lparr>bmap_valid = False, bmap_log = 0, bmap_phys = 0, bmap = replicate NBMAP 0, ndirblks = 100, nindirlev = 1\<rparr> :: nat_fso"
  have r: "hdr_range ?b" by (simp add: hdr_range_def fso.extend_def zero_fso_def)
  have "o_rdev (hdr_load False (hdr_store False ?b) ?b) = 0" unfolding hdr_load_store [OF r] by simp
  moreover have "o_rdev ?b = 5" by (simp add: fso.extend_def)
  ultimately show ?thesis using r by (intro exI [of _ ?b]) simp
qed

section \<open>Objects and headers\<close>

text \<open>
  C22: A file that is synchronised and later brought into core again has all its attributes and its map, except for the device number,
  which is not written. On an insecure file system, moreover, the file comes back as a file of root with the shared mode: of the same type, readable by
  everybody, and writable and executable by everybody if it was by anybody. Only the block of the header changes.
\<close>

theorem nat_syncfso_getfso:
  assumes "block_driver rd wr sector has dok" and "ready sector has dok s" and "nfree s > 0" and "has (disk s) dev (nat (o_index b))"
    and "hdr_range b" and "o_dirty b" and "o_index z = o_index b"
  shows "\<exists>s1 s2 m. nat_syncfso wr dev insec b s = Some (EZERO, b\<lparr>o_dirty := False\<rparr>, s1) \<and>
     getfso_hdr rd wr dev insec z s1 = Some (EZERO, z\<lparr>o_blocks := o_blocks b, o_size := o_size b, o_mode := m, o_rdev := 0,
       o_uid := if insec then 0 else o_uid b, o_gid := if insec then 0 else o_gid b, atime := atime b, ctime := ctime b, mtime := mtime b,
       nlink := nlink b, bmap := bmap b, ndirblks := ndirblks b, nindirlev := nindirlev b\<rparr>, s2) \<and>
     (if insec then shared_mode (o_mode b) m else m = o_mode b) \<and>
     quiet sector has dok s s1 \<and> quiet sector has dok s1 s2 \<and> view sector s2 = view sector s1 \<and>
     (\<forall>e n. (e, n) \<noteq> (dev, nat (o_index b)) \<longrightarrow> view sector s1 e n = view sector s e n)"
proof -
  let ?n = "nat (o_index b)" and ?h = "hdr_store insec b"
  obtain bb s0 s1 where 1: "blk_get wr dev ?n s = Some (Inr bb, s0)"
      "blk_put (Some bb) (upd_blk bb (\<lambda>v. v\<lparr>b_data := ?h, b_dirty := True, b_valid := True\<rparr>) s0) = Some s1"
      "quiet sector has dok s s1" "view sector s1 = (view sector s)(dev := (view sector s dev)(?n := ?h))"
    using block_driver.use_fill [OF assms(1-4) length_hdr_store] by blast
  have r: "ready sector has dok s1" "nfree s1 > 0" "has (disk s1) dev ?n"
    using quiet_ready [OF 1(3)] quiet_nfree [OF 1(3)] quiet_has [OF 1(3)] assms(3,4) by simp_all
  obtain bc s3 s2 where 2: "blk_read rd wr dev ?n s1 = Some (Inr bc, s3)" "b_data (blk s3 bc) = view sector s1 dev ?n"
      "blk_put (Some bc) s3 = Some s2" "quiet sector has dok s1 s2" "view sector s2 = view sector s1"
    using block_driver.read_block_works [OF assms(1) r] by blast
  have "nat_syncfso wr dev insec b s = Some (EZERO, b\<lparr>o_dirty := False\<rparr>, s1)" using 1(1,2) assms(6) by (simp add: nat_syncfso_def)
  moreover have "view sector s1 dev ?n = ?h" using 1(4) by simp
  then have "getfso_hdr rd wr dev insec z s1 = Some (EZERO, hdr_load insec ?h z, s2)" using 2(1-3) assms(7) by (simp add: getfso_hdr_def)
  moreover have "if insec then shared_mode (o_mode b) (if insec then nat_imode (o_mode b) else o_mode b)
      else (if insec then nat_imode (o_mode b) else o_mode b) = o_mode b" by (simp add: nat_imode_shared(1))
  moreover have "\<forall>e n. (e, n) \<noteq> (dev, ?n) \<longrightarrow> view sector s1 e n = view sector s e n" using 1(4) by auto
  ultimately show ?thesis using 1(3) 2(4,5) unfolding hdr_load_store_any [OF assms(5)] by blast
qed

text \<open>
  C21: Letting go of a file without links gives back its header and every block of it, and no other block; nothing else on any device changes.
\<close>

theorem nat_putfso_deletes:
  assumes "block_driver rd wr sector has dok" and "file_inv sector has dok dev b f s" and "nindirlev b \<ge> 1"
    and "nfree s \<ge> nindirlev b + 1" and "nlink b = 0" and "nat (o_index b) < nblocks f"
  shows "\<exists>b' f' s'. nat_putfso rd wr dev insec b f s = Some (EZERO, b', f', s') \<and> bam_ok sector has dok dev f' s' \<and> quiet sector has dok s s' \<and>
     (\<forall>n < nblocks f. used (view sector s') dev f' n \<longleftrightarrow>
        used (view sector s) dev f n \<and> n \<noteq> nat (o_index b) \<and> n \<notin> owns (view sector s) dev b) \<and>
     (\<forall>dv n. \<not> (dv = dev \<and> n \<in> bam_range f) \<longrightarrow> view sector s' dv n = view sector s dv n)"
proof -
  obtain b1 f1 s1 where 1: "nat_trunc rd wr dev b f s = Some (EZERO, b1, f1, s1)" "o_index b1 = o_index b"
      "frees sector has dok dev (owns (view sector s) dev b) f s f1 s1"
    using block_driver.trunc_works [OF assms(1-4)] by blast
  note S = bam_stepD [OF frees_step [OF 1(3)]]
  have "nat (o_index b1) < nblocks f1" using assms(6) 1(2) nblocks_geometry [OF S(3)] by simp
  then obtain f2 s2 where 2: "nat_bfree rd wr dev (nat (o_index b1)) f1 s1 = Some (EZERO, f2, s2)"
      "frees sector has dok dev {nat (o_index b1)} f1 s1 f2 s2"
    using block_driver.free_block_works [OF assms(1) S(1)] by blast
  have "nat_putfso rd wr dev insec b f s = Some (EZERO, b1, f2, s2)" using 1(1) 2(1) assms(5) by (simp add: nat_putfso_def)
  moreover have "frees sector has dok dev (owns (view sector s) dev b \<union> {nat (o_index b)}) f s f2 s2"
    using frees_trans [OF 1(3) 2(2)] 1(2) by simp
  ultimately show ?thesis unfolding frees_def bam_step_def by blast
qed

end
