(* ===== verification/Nat_Dir.thy ===== *)
theory Nat_Dir
  imports Nat_Fso
begin

text \<open>
  Directories of the native file system (\<^verbatim>\<open>src/kern/fs/nat/dir.c\<close>), one directory at a time. The data of a directory are blocks of 16
  entries of 32 bytes: 28 bytes for the name, which ends with a zero byte, and the number of the file's header, zero for an unused entry.

  The operations take the result \<open>perm\<close> of \<^verbatim>\<open>fs_chk_perm\<close> and the time \<open>now\<close>; the whole operations on paths, which call
  them for the objects of the kernel's table, are in the theory \<open>Nat_Path\<close>.
\<close>

section \<open>Operations\<close>

abbreviation (input) NAT_NAME_MAX :: nat where "NAT_NAME_MAX \<equiv> 27"
abbreviation (input) NAT_DIR_SIZE_MAX :: nat where "NAT_DIR_SIZE_MAX \<equiv> 0x00100000"
abbreviation (input) NAT_D_PER_BLOCK :: nat where "NAT_D_PER_BLOCK \<equiv> 16"

definition bytes :: "string \<Rightarrow> 8 word list" where
  "bytes name = map of_char name"

text \<open>The name and the header number of an entry; \<^verbatim>\<open>strcmp\<close> stops at the first zero byte.\<close>

definition d_name :: "8 word list \<Rightarrow> nat \<Rightarrow> 8 word list" where
  "d_name bs i = takeWhile (\<lambda>x. x \<noteq> 0) (drop (32 * i) bs)"

definition d_first_block :: "8 word list \<Rightarrow> nat \<Rightarrow> 32 word" where
  "d_first_block bs i = le32 bs (8 * i + 7)"

definition d_is :: "string \<Rightarrow> 8 word list \<Rightarrow> nat \<Rightarrow> bool" where
  "d_is name bs i \<longleftrightarrow> d_first_block bs i \<noteq> 0 \<and> d_name bs i = bytes name"

type_synonym 'd dir_res = "((errno + nat \<times> nat) \<times> nat_fso \<times> nat_fs \<times> 'd bcache) option"

text \<open>The result of \<^verbatim>\<open>find_entry\<close> is the buffer, which the caller has to let go, and the index of the entry in it.\<close>

fun find_loop :: "'d drv_read \<Rightarrow> 'd drv_write \<Rightarrow> nat \<Rightarrow> string \<Rightarrow> nat list \<Rightarrow> nat_fso \<Rightarrow> nat_fs \<Rightarrow> 'd bcache \<Rightarrow> 'd dir_res" where
  "find_loop rd wr dev name [] b f s = Some (Inl ENOENT, b, f, s)"
| "find_loop rd wr dev name (l # ls) b f s = do {
     (e, b1, f1, s1) \<leftarrow> nat_bmap rd wr dev l False b f s;
     if e \<noteq> EZERO then Some (Inl e, b1, f1, s1)
     else do {
       (r, s2) \<leftarrow> blk_read rd wr dev (bmap_phys b1) s1;
       (case r of
          Inl e \<Rightarrow> Some (Inl e, b1, f1, s2)
        | Inr bb \<Rightarrow>
            (case List.find (d_is name (b_data (blk s2 bb))) [0..<NAT_D_PER_BLOCK] of
               Some i \<Rightarrow> Some (Inr (bb, i), b1, f1, s2)
             | None \<Rightarrow> do {
                 s3 \<leftarrow> blk_put (Some bb) s2;
                 find_loop rd wr dev name ls b1 f1 s3
               }))
     }
   }"

definition find_entry :: "'d drv_read \<Rightarrow> 'd drv_write \<Rightarrow> nat \<Rightarrow> errno \<Rightarrow> string \<Rightarrow> nat_fso \<Rightarrow> nat_fs \<Rightarrow> 'd bcache \<Rightarrow> 'd dir_res" where
  "find_entry rd wr dev perm name b f s =
     (if o_mode b AND S_IFMT \<noteq> S_IFDIR then Some (Inl ENOTDIR, b, f, s)
      else if perm \<noteq> EZERO then Some (Inl perm, b, f, s)
      else find_loop rd wr dev name [0..<o_size b div BLK_SIZE] b f s)"

text \<open>
  The search of \<^verbatim>\<open>new_entry\<close>. \<open>(fb, fi)\<close> is the first unused entry that has been found, its block and its index; \<open>fb\<close> is 0 as long as
  there is none. \<open>None\<close>: the name exists.
\<close>

fun scan_block :: "string \<Rightarrow> 8 word list \<Rightarrow> nat \<Rightarrow> nat list \<Rightarrow> nat \<times> nat \<Rightarrow> (nat \<times> nat) option" where
  "scan_block name bs phys [] fr = Some fr"
| "scan_block name bs phys (i # is) fr =
     (if d_is name bs i then None
      else scan_block name bs phys is (if d_first_block bs i = 0 \<and> fst fr = 0 then (phys, i) else fr))"

fun new_loop :: "'d drv_read \<Rightarrow> 'd drv_write \<Rightarrow> nat \<Rightarrow> string \<Rightarrow> nat list \<Rightarrow> nat \<times> nat \<Rightarrow> nat_fso \<Rightarrow> nat_fs \<Rightarrow> 'd bcache \<Rightarrow> 'd dir_res" where
  "new_loop rd wr dev name [] fr b f s = Some (Inr fr, b, f, s)"
| "new_loop rd wr dev name (l # ls) fr b f s = do {
     (e, b1, f1, s1) \<leftarrow> nat_bmap rd wr dev l False b f s;
     if e \<noteq> EZERO then Some (Inl e, b1, f1, s1)
     else do {
       (r, s2) \<leftarrow> blk_read rd wr dev (bmap_phys b1) s1;
       (case r of
          Inl e \<Rightarrow> Some (Inl e, b1, f1, s2)
        | Inr bb \<Rightarrow> do {
            s3 \<leftarrow> blk_put (Some bb) s2;
            (case scan_block name (b_data (blk s2 bb)) (bmap_phys b1) [0..<NAT_D_PER_BLOCK] fr of
               None \<Rightarrow> Some (Inl EEXIST, b1, f1, s3)
             | Some fr1 \<Rightarrow> new_loop rd wr dev name ls fr1 b1 f1 s3)
          })
     }
   }"

text \<open>A new block at the end of the directory; the buffer is cleared but not let go.\<close>

definition new_dir_block :: "'d drv_read \<Rightarrow> 'd drv_write \<Rightarrow> nat \<Rightarrow> nat_fso \<Rightarrow> nat_fs \<Rightarrow> 'd bcache \<Rightarrow> 'd dir_res" where
  "new_dir_block rd wr dev b f s =
     (if o_size b + BLK_SIZE > NAT_DIR_SIZE_MAX then Some (Inl EFBIG, b, f, s)
      else do {
        (e, b1, f1, s1) \<leftarrow> nat_bmap rd wr dev (o_size b div BLK_SIZE) True b f s;
        if e \<noteq> EZERO then Some (Inl e, b1, f1, s1)
        else do {
          (r, s2) \<leftarrow> blk_get wr dev (bmap_phys b1) s1;
          Some (case r of
             Inl e \<Rightarrow> (Inl e, b1, f1, s2)
           | Inr bb \<Rightarrow> (Inr (bb, 0), b1\<lparr>o_size := o_size b1 + BLK_SIZE, o_dirty := True\<rparr>, f1,
               upd_blk bb (\<lambda>v. v\<lparr>b_data := zeros, b_dirty := True, b_valid := True\<rparr>) s2))
        }
      })"

definition put_dirent :: "nat \<Rightarrow> string \<Rightarrow> nat \<Rightarrow> 8 word list \<Rightarrow> 8 word list" where
  "put_dirent i name first_block bs =
     put32 (8 * i + 7) (word_of_nat first_block) (memcpy_in (memcpy_in bs (32 * i) (replicate 32 0)) (32 * i) (bytes name @ [0]))"

definition new_entry ::
    "'d drv_read \<Rightarrow> 'd drv_write \<Rightarrow> nat \<Rightarrow> errno \<Rightarrow> int \<Rightarrow> string \<Rightarrow> nat \<Rightarrow> nat_fso \<Rightarrow> nat_fs \<Rightarrow> 'd bcache \<Rightarrow> 'd fso_res" where
  "new_entry rd wr dev perm now name first_block b f s =
     (if o_mode b AND S_IFMT \<noteq> S_IFDIR then Some (ENOTDIR, b, f, s)
      else if name = [] then Some (EEXIST, b, f, s)
      else if perm \<noteq> EZERO then Some (perm, b, f, s)
      else if length name > NAT_NAME_MAX then Some (ENAMETOOLONG, b, f, s)
      else do {
        (r, b1, f1, s1) \<leftarrow> new_loop rd wr dev name [0..<o_size b div BLK_SIZE] (0, 0) b f s;
        (case r of
           Inl e \<Rightarrow> Some (e, b1, f1, s1)
         | Inr (fb, fi) \<Rightarrow> do {
             (r2, b2, f2, s2) \<leftarrow>
               (if fb = 0 then new_dir_block rd wr dev b1 f1 s1
                else do {
                  (r, s2) \<leftarrow> blk_read rd wr dev fb s1;
                  Some (case r of Inl e \<Rightarrow> Inl e | Inr bb \<Rightarrow> Inr (bb, fi), b1, f1, s2)
                });
             (case r2 of
                Inl e \<Rightarrow> Some (e, b2, f2, s2)
              | Inr (bb, i) \<Rightarrow> do {
                  s3 \<leftarrow> blk_put (Some bb) (upd_blk bb (\<lambda>v. v\<lparr>b_data := put_dirent i name first_block (b_data v), b_dirty := True\<rparr>) s2);
                  Some (EZERO, b2\<lparr>mtime := now, o_dirty := True\<rparr>, f2, s3)
                })
           })
      })"

fun empty_loop :: "'d drv_read \<Rightarrow> 'd drv_write \<Rightarrow> nat \<Rightarrow> nat list \<Rightarrow> nat_fso \<Rightarrow> nat_fs \<Rightarrow> 'd bcache \<Rightarrow> 'd fso_res" where
  "empty_loop rd wr dev [] b f s = Some (EZERO, b, f, s)"
| "empty_loop rd wr dev (l # ls) b f s = do {
     (e, b1, f1, s1) \<leftarrow> nat_bmap rd wr dev l False b f s;
     if e \<noteq> EZERO then Some (e, b1, f1, s1)
     else do {
       (r, s2) \<leftarrow> blk_read rd wr dev (bmap_phys b1) s1;
       (case r of
          Inl e \<Rightarrow> Some (e, b1, f1, s2)
        | Inr bb \<Rightarrow> do {
            s3 \<leftarrow> blk_put (Some bb) s2;
            if \<exists>i \<in> set [0..<NAT_D_PER_BLOCK]. d_first_block (b_data (blk s2 bb)) i \<noteq> 0 then Some (ENOTEMPTY, b1, f1, s3)
            else empty_loop rd wr dev ls b1 f1 s3
          })
     }
   }"

definition is_empty :: "'d drv_read \<Rightarrow> 'd drv_write \<Rightarrow> nat \<Rightarrow> nat_fso \<Rightarrow> nat_fs \<Rightarrow> 'd bcache \<Rightarrow> 'd fso_res" where
  "is_empty rd wr dev b f s =
     (if o_mode b AND S_IFMT \<noteq> S_IFDIR then Some (ENOTDIR, b, f, s)
      else empty_loop rd wr dev [0..<o_size b div BLK_SIZE] b f s)"

text \<open>Removing an entry, in the buffer that \<^verbatim>\<open>find_entry\<close> has returned.\<close>

definition clear_dirent :: "nat \<Rightarrow> nat \<Rightarrow> 'd bcache \<Rightarrow> 'd bcache" where
  "clear_dirent bb i = upd_blk bb (\<lambda>v. v\<lparr>b_data := memcpy_in (b_data v) (32 * i) (replicate 32 0), b_dirty := True\<rparr>)"

text \<open>
  \<^verbatim>\<open>nat_readdir\<close>; \<open>de\<close> is the structure to fill. Two errors are returned as success with the structure unchanged. The
  name is copied from a local copy of the entry, whose 32 bytes \<^verbatim>\<open>strcpy\<close> may leave when the name is not terminated (\<open>None\<close>).
\<close>

record fs_dirent =
  de_index :: nat
  de_name :: "8 word list"

definition nat_readdir ::
    "'d drv_read \<Rightarrow> 'd drv_write \<Rightarrow> nat \<Rightarrow> errno \<Rightarrow> int \<Rightarrow> fs_dirent \<Rightarrow> nat_fso \<Rightarrow> nat_fs \<Rightarrow> 'd bcache \<Rightarrow>
     (errno \<times> fs_dirent \<times> nat_fso \<times> nat_fs \<times> 'd bcache) option" where
  "nat_readdir rd wr dev perm index de b f s =
     (if index < 0 then Some (EINVAL, de, b, f, s)
      else if perm \<noteq> EZERO then Some (perm, de, b, f, s)
      else if index = 0 then Some (EZERO, \<lparr>de_index = nat (o_index b), de_name = bytes ''.''\<rparr>, b, f, s)
      else if index = 1 then Some (EZERO, \<lparr>de_index = nat (o_index b), de_name = bytes ''..''\<rparr>, b, f, s)
      else let i = nat (index - 2) in
        if i \<ge> o_size b div 32 then Some (ENOENT, de, b, f, s)
        else do {
          (e, b1, f1, s1) \<leftarrow> nat_bmap rd wr dev (i div NAT_D_PER_BLOCK) False b f s;
          if e \<noteq> EZERO then Some (EZERO, de, b1, f1, s1)
          else do {
            (r, s2) \<leftarrow> blk_pread rd wr dev (bmap_phys b1) (i mod NAT_D_PER_BLOCK * 32) 32 s1;
            (case r of
               Inl e \<Rightarrow> Some (EZERO, de, b1, f1, s2)
             | Inr nde \<Rightarrow>
                 if 0 \<notin> set nde then None
                 else Some (EZERO, \<lparr>de_index = unat (le32 nde 7), de_name = takeWhile (\<lambda>x. x \<noteq> 0) nde\<rparr>, b1, f1, s2))
          }
        })"

section \<open>Entries\<close>

definition names :: "string set" where
  "names = {name. name \<noteq> [] \<and> length name \<le> NAT_NAME_MAX \<and> CHR 0x00 \<notin> set name}"

lemma unat_of_char: "unat (of_char c :: 8 word) = of_char c"
  unfolding of_nat_of_char [where 'a = "8 word", symmetric] by (simp add: unat_of_nat)

lemma bytes_inj: "bytes a = bytes b \<longleftrightarrow> a = b"
proof -
  have "inj (of_char :: char \<Rightarrow> 8 word)" by (rule injI) (metis of_char_eq_iff unat_of_char)
  then show ?thesis unfolding bytes_def by (rule inj_map_eq_map)
qed

lemma bytes_names:
  assumes "name \<in> names"
  shows "length (bytes name) \<le> NAT_NAME_MAX" "0 \<notin> set (bytes name)" "bytes name \<noteq> []"
proof -
  have "c = CHR 0x00" if "(of_char c :: 8 word) = 0" for c
  proof -
    have "(of_char c :: nat) = of_char (CHR 0x00)" unfolding unat_of_char [symmetric] that by simp
    then show ?thesis unfolding of_char_eq_iff .
  qed
  then show "length (bytes name) \<le> NAT_NAME_MAX" "0 \<notin> set (bytes name)" "bytes name \<noteq> []"
    using assms by (force simp: names_def bytes_def)+
qed

text \<open>An entry in use has a name that ends inside the entry.\<close>

definition dent_ok :: "8 word list \<Rightarrow> nat \<Rightarrow> bool" where
  "dent_ok bs i \<longleftrightarrow> (d_first_block bs i \<noteq> 0 \<longrightarrow> 0 \<in> set (take 28 (drop (32 * i) bs)))"

lemma d_name_local: "0 \<in> set (take 28 (drop (32 * i) bs)) \<Longrightarrow> d_name bs i = takeWhile (\<lambda>x. x \<noteq> 0) (take 28 (drop (32 * i) bs))"
  unfolding d_name_def by (subst append_take_drop_id [of 28 "drop (32 * i) bs", symmetric], subst takeWhile_append1) auto

text \<open>Two blocks with the same bytes in an entry.\<close>

lemma dent_cong:
  assumes "take 32 (drop (32 * j) bs') = take 32 (drop (32 * j) bs)" and "length bs = BLK_SIZE" and "length bs' = BLK_SIZE" and "j < NAT_D_PER_BLOCK"
  shows "d_first_block bs' j = d_first_block bs j" "dent_ok bs' j = dent_ok bs j"
    "dent_ok bs j \<Longrightarrow> d_first_block bs j \<noteq> 0 \<Longrightarrow> d_name bs' j = d_name bs j"
    "dent_ok bs j \<Longrightarrow> d_is name bs' j = d_is name bs j"
proof -
  have nth: "bs' ! (32 * j + k) = bs ! (32 * j + k)" if "k < 32" for k
    using arg_cong [OF assms(1), of "\<lambda>xs. xs ! k"] that assms(2-4) by simp
  have w: "4 * (8 * j + 7) = 32 * j + 28" "32 * j + 28 + 1 = 32 * j + 29" "32 * j + 28 + 2 = 32 * j + 30" "32 * j + 28 + 3 = 32 * j + 31" by simp_all
  show f: "d_first_block bs' j = d_first_block bs j"
    unfolding d_first_block_def le32_def w by (simp only: nth)
  have t: "take 28 (drop (32 * j) bs') = take 28 (drop (32 * j) bs)"
    using arg_cong [OF assms(1), of "take 28"] by simp
  show "dent_ok bs' j = dent_ok bs j" unfolding dent_ok_def f t ..
  show n: "d_name bs' j = d_name bs j" if "dent_ok bs j" "d_first_block bs j \<noteq> 0"
    using that d_name_local [of j bs] d_name_local [of j bs'] unfolding t dent_ok_def by simp
  show "d_is name bs' j = d_is name bs j" if "dent_ok bs j" using n [OF that] unfolding d_is_def f by auto
qed

lemma length_put_dirent [simp]:
  assumes "length bs = BLK_SIZE" and "i < NAT_D_PER_BLOCK" and "name \<in> names"
  shows "length (put_dirent i name fb bs) = BLK_SIZE"
  using assms bytes_names(1) [OF assms(3)] by (simp add: put_dirent_def length_memcpy_in)

lemma put_dirent_other:
  assumes "length bs = BLK_SIZE" and "i < NAT_D_PER_BLOCK" and "name \<in> names" and "j \<noteq> i" and "j < NAT_D_PER_BLOCK"
  shows "take 32 (drop (32 * j) (put_dirent i name fb bs)) = take 32 (drop (32 * j) bs)"
proof (rule nth_equalityI)
  show "length (take 32 (drop (32 * j) (put_dirent i name fb bs))) = length (take 32 (drop (32 * j) bs))" using assms by simp
  fix k assume "k < length (take 32 (drop (32 * j) (put_dirent i name fb bs)))"
  then have k: "k < 32" "32 * j + k < BLK_SIZE" using assms by simp_all
  have ne: "\<not> (32 * i \<le> 32 * j + k \<and> 32 * j + k < 32 * i + 32)" using assms(4) k(1) by linarith
  let ?z = "memcpy_in bs (32 * i) (replicate 32 0)"
  have lz: "length ?z = BLK_SIZE" using assms(1,2) by (simp add: length_memcpy_in)
  have lm: "length (memcpy_in ?z (32 * i) (bytes name @ [0])) = BLK_SIZE" using bytes_names(1) [OF assms(3)] lz assms(2) by (simp add: length_memcpy_in)
  have "put_dirent i name fb bs ! (32 * j + k) = memcpy_in ?z (32 * i) (bytes name @ [0]) ! (32 * j + k)"
    unfolding put_dirent_def using lm k assms(2) ne by (subst nth_put32) auto
  also have "\<dots> = ?z ! (32 * j + k)" using lz k ne bytes_names(1) [OF assms(3)] assms(2) by (subst nth_memcpy_in) auto
  also have "\<dots> = bs ! (32 * j + k)" using assms(1,2) k ne by (subst nth_memcpy_in) auto
  finally show "take 32 (drop (32 * j) (put_dirent i name fb bs)) ! k = take 32 (drop (32 * j) bs) ! k" using k assms by simp
qed

lemma put_dirent_this:
  assumes "length bs = BLK_SIZE" and "i < NAT_D_PER_BLOCK" and "name \<in> names"
  shows "d_first_block (put_dirent i name fb bs) i = word_of_nat fb" "d_name (put_dirent i name fb bs) i = bytes name"
    "dent_ok (put_dirent i name fb bs) i"
proof -
  let ?n = "bytes name @ [0]" and ?p = "put_dirent i name fb bs"
  let ?z = "memcpy_in bs (32 * i) (replicate 32 0)"
  have ln: "length ?n \<le> 28" using bytes_names(1) [OF assms(3)] by simp
  have lz: "length ?z = BLK_SIZE" using assms(1,2) by (simp add: length_memcpy_in)
  have lm: "length (memcpy_in ?z (32 * i) ?n) = BLK_SIZE" using ln lz assms(2) by (simp add: length_memcpy_in)
  show "d_first_block ?p i = word_of_nat fb" unfolding d_first_block_def put_dirent_def using lm assms(2) by (subst le32_put32) auto
  have pre: "?p ! (32 * i + k) = ?n ! k" if "k < length ?n" for k
  proof -
    have "?p ! (32 * i + k) = memcpy_in ?z (32 * i) ?n ! (32 * i + k)"
      unfolding put_dirent_def using lm that ln assms(2) by (subst nth_put32) auto
    also have "\<dots> = ?n ! k" using lz that ln assms(2) by (subst nth_memcpy_in) auto
    finally show ?thesis .
  qed
  have "take (length ?n) (drop (32 * i) ?p) = ?n"
    by (rule nth_equalityI) (use pre ln assms in simp_all)
  then have e: "drop (32 * i) ?p = ?n @ drop (length ?n) (drop (32 * i) ?p)" by (metis append_take_drop_id)
  show "d_name ?p i = bytes name" unfolding d_name_def by (subst e) (use bytes_names(2) [OF assms(3)] in \<open>simp add: takeWhile_append\<close>)
  have "take 28 (drop (32 * i) ?p) = ?n @ take (28 - length ?n) (drop (length ?n) (drop (32 * i) ?p))"
    by (subst e) (use ln in \<open>simp add: take_Cons'\<close>)
  then show "dent_ok ?p i" unfolding dent_ok_def by simp
qed

definition zero_dirent :: "nat \<Rightarrow> 8 word list \<Rightarrow> 8 word list" where
  "zero_dirent i bs = memcpy_in bs (32 * i) (replicate 32 0)"

lemma length_zero_dirent [simp]: "length bs = BLK_SIZE \<Longrightarrow> i < NAT_D_PER_BLOCK \<Longrightarrow> length (zero_dirent i bs) = BLK_SIZE"
  by (simp add: zero_dirent_def length_memcpy_in)

lemma zero_dirent_other:
  assumes "length bs = BLK_SIZE" and "i < NAT_D_PER_BLOCK" and "j \<noteq> i" and "j < NAT_D_PER_BLOCK"
  shows "take 32 (drop (32 * j) (zero_dirent i bs)) = take 32 (drop (32 * j) bs)"
proof (rule nth_equalityI)
  fix k assume "k < length (take 32 (drop (32 * j) (zero_dirent i bs)))"
  then have k: "k < 32" "32 * j + k < BLK_SIZE" using assms by simp_all
  have "\<not> (32 * i \<le> 32 * j + k \<and> 32 * j + k < 32 * i + 32)" using assms(3) k(1) by linarith
  then have "zero_dirent i bs ! (32 * j + k) = bs ! (32 * j + k)"
    unfolding zero_dirent_def using assms(1,2) k(2) by (subst nth_memcpy_in) auto
  then show "take 32 (drop (32 * j) (zero_dirent i bs)) ! k = take 32 (drop (32 * j) bs) ! k" using k assms by simp
qed (use assms in simp)

lemma zero_dirent_this:
  assumes "length bs = BLK_SIZE" and "i < NAT_D_PER_BLOCK"
  shows "d_first_block (zero_dirent i bs) i = 0"
proof -
  have "zero_dirent i bs ! (32 * i + k) = 0" if "k < 32" for k
    unfolding zero_dirent_def using assms that by (subst nth_memcpy_in) auto
  from this [of 28] this [of 29] this [of 30] this [of 31] show ?thesis by (simp add: d_first_block_def le32_def add.commute)
qed

section \<open>Directories\<close>

text \<open>
  A directory maps names to the numbers of headers. \<open>dir_slot\<close> is the first entry with a name, as a block of the directory and an index.
\<close>

definition dblk :: "contents \<Rightarrow> nat \<Rightarrow> nat_fso \<Rightarrow> nat \<Rightarrow> 8 word list" where
  "dblk V dev b l = V dev (lookup V dev b l)"

definition dir_blocks :: "nat_fso \<Rightarrow> nat list" where
  "dir_blocks b = [0..<o_size b div BLK_SIZE]"

definition slot_in :: "contents \<Rightarrow> nat \<Rightarrow> nat_fso \<Rightarrow> string \<Rightarrow> nat list \<Rightarrow> (nat \<times> nat) option" where
  "slot_in V dev b name ls = List.find (\<lambda>(l, i). d_is name (dblk V dev b l) i) (List.product ls [0..<NAT_D_PER_BLOCK])"

definition dir_map :: "contents \<Rightarrow> nat \<Rightarrow> nat_fso \<Rightarrow> string \<Rightarrow> nat option" where
  "dir_map V dev b name = map_option (\<lambda>(l, i). unat (d_first_block (dblk V dev b l) i)) (slot_in V dev b name (dir_blocks b))"

text \<open>The entries in use of the first \<open>n\<close> blocks \<open>D\<close>, with their names and header numbers.\<close>

definition dent_of :: "(nat \<Rightarrow> 8 word list) \<Rightarrow> nat \<Rightarrow> nat \<times> nat \<Rightarrow> (8 word list \<times> nat) option" where
  "dent_of D n p = (case p of (l, i) \<Rightarrow>
     if l < n \<and> i < NAT_D_PER_BLOCK \<and> d_first_block (D l) i \<noteq> 0 then Some (d_name (D l) i, unat (d_first_block (D l) i)) else None)"

definition dent :: "contents \<Rightarrow> nat \<Rightarrow> nat_fso \<Rightarrow> nat \<times> nat \<Rightarrow> (8 word list \<times> nat) option" where
  "dent V dev b = dent_of (dblk V dev b) (o_size b div BLK_SIZE)"

definition dents_ok :: "(nat \<Rightarrow> 8 word list) \<Rightarrow> nat \<Rightarrow> bool" where
  "dents_ok D n \<longleftrightarrow> (\<forall>l < n. \<forall>i < NAT_D_PER_BLOCK. dent_ok (D l) i)"

text \<open>No holes, names that end, no two entries with the same name.\<close>

definition dir_inv ::
    "('d \<Rightarrow> nat \<Rightarrow> nat \<Rightarrow> 8 word list) \<Rightarrow> ('d \<Rightarrow> nat \<Rightarrow> nat \<Rightarrow> bool) \<Rightarrow> ('d \<Rightarrow> bool) \<Rightarrow> nat \<Rightarrow> nat_fso \<Rightarrow> nat_fs \<Rightarrow> 'd bcache \<Rightarrow> bool" where
  "dir_inv sector has dok dev b f s \<longleftrightarrow> file_inv sector has dok dev b f s \<and> o_mode b AND S_IFMT = S_IFDIR \<and>
     o_size b mod BLK_SIZE = 0 \<and> o_size b \<le> NAT_DIR_SIZE_MAX \<and>
     (\<forall>l < o_size b div BLK_SIZE. lookup (view sector s) dev b l \<noteq> 0) \<and>
     dents_ok (dblk (view sector s) dev b) (o_size b div BLK_SIZE) \<and>
     (\<forall>p q n x y. dent (view sector s) dev b p = Some (n, x) \<longrightarrow> dent (view sector s) dev b q = Some (n, y) \<longrightarrow> p = q)"

lemma find_append: "List.find P (xs @ ys) = (case List.find P xs of None \<Rightarrow> List.find P ys | Some x \<Rightarrow> Some x)"
  by (induction xs) auto

lemma find_map: "List.find P (map g xs) = map_option g (List.find (P \<circ> g) xs)"
  by (induction xs) auto

lemma slot_in_Nil [simp]: "slot_in V dev b name [] = None"
  by (simp add: slot_in_def)

lemma slot_in_Cons:
  "slot_in V dev b name (l # ls) =
     (case List.find (d_is name (dblk V dev b l)) [0..<NAT_D_PER_BLOCK] of Some i \<Rightarrow> Some (l, i) | None \<Rightarrow> slot_in V dev b name ls)"
  by (simp add: slot_in_def find_append find_map comp_def split: option.split)

lemma find_in: "List.find P xs = Some x \<Longrightarrow> P x \<and> x \<in> set xs"
  by (induction xs) (auto split: if_splits)

lemma slot_in_Some:
  assumes "slot_in V dev b name ls = Some (l, i)"
  shows "l \<in> set ls" "i < NAT_D_PER_BLOCK" "d_is name (dblk V dev b l) i"
  using find_in [OF assms [unfolded slot_in_def]] by auto

lemma slot_in_None: "slot_in V dev b name ls = None \<longleftrightarrow> (\<forall>l \<in> set ls. \<forall>i < NAT_D_PER_BLOCK. \<not> d_is name (dblk V dev b l) i)"
  unfolding slot_in_def find_None_iff by auto

lemma dir_map_iff:
  assumes "\<forall>p q n x y. dent V dev b p = Some (n, x) \<longrightarrow> dent V dev b q = Some (n, y) \<longrightarrow> p = q"
  shows "dir_map V dev b name = Some x \<longleftrightarrow> (\<exists>p. dent V dev b p = Some (bytes name, x))"
proof
  assume "dir_map V dev b name = Some x"
  then obtain l i where p: "slot_in V dev b name (dir_blocks b) = Some (l, i)" "x = unat (d_first_block (dblk V dev b l) i)"
    by (auto simp: dir_map_def)
  note s = slot_in_Some [OF p(1)]
  then show "\<exists>p. dent V dev b p = Some (bytes name, x)"
    using p(2) by (intro exI [of _ "(l, i)"]) (simp add: dent_def dent_of_def d_is_def dir_blocks_def)
next
  assume "\<exists>p. dent V dev b p = Some (bytes name, x)"
  then obtain l i where p: "dent V dev b (l, i) = Some (bytes name, x)" by force
  then have e: "l < o_size b div BLK_SIZE \<and> i < NAT_D_PER_BLOCK" "d_is name (dblk V dev b l) i" "x = unat (d_first_block (dblk V dev b l) i)"
    by (auto simp: dent_def dent_of_def d_is_def split: if_splits)
  have "slot_in V dev b name (dir_blocks b) \<noteq> None" unfolding slot_in_None using e(1,2) by (auto simp: dir_blocks_def)
  then obtain l' i' where q: "slot_in V dev b name (dir_blocks b) = Some (l', i')" by auto
  note s = slot_in_Some [OF q]
  have "dent V dev b (l', i') = Some (bytes name, unat (d_first_block (dblk V dev b l') i'))"
    using s by (simp add: dent_def dent_of_def d_is_def dir_blocks_def)
  then have "(l', i') = (l, i)" using assms p by blast
  then show "dir_map V dev b name = Some x" using q e(3) by (simp add: dir_map_def)
qed

text \<open>Changes of one entry.\<close>

lemma dent_of_cong: "(\<And>l. l < n \<Longrightarrow> D' l = D l) \<Longrightarrow> dent_of D' n = dent_of D n"
  by (rule ext) (auto simp: dent_of_def)

lemma dent_of_grow: "dent_of (D(n := zeros)) (Suc n) = dent_of D n"
proof -
  have "d_first_block zeros i = 0" if "i < NAT_D_PER_BLOCK" for i using that le32_zeros [of "8 * i + 7"] by (simp add: d_first_block_def)
  then show ?thesis by (auto simp: dent_of_def fun_eq_iff less_Suc_eq)
qed

lemma dents_ok_grow: "dents_ok D n \<Longrightarrow> dents_ok (D(n := zeros)) (Suc n)"
  by (auto simp: dents_ok_def dent_ok_def zeros_def less_Suc_eq)

lemma dent_of_other:
  assumes "dents_ok D n" and "l0 < n" and "i0 < NAT_D_PER_BLOCK" and "length (D l0) = BLK_SIZE" and "length w = BLK_SIZE"
    and "\<And>j. j \<noteq> i0 \<Longrightarrow> j < NAT_D_PER_BLOCK \<Longrightarrow> take 32 (drop (32 * j) w) = take 32 (drop (32 * j) (D l0))"
  shows "p \<noteq> (l0, i0) \<Longrightarrow> dent_of (D(l0 := w)) n p = dent_of D n p" and "dent_ok w i0 \<Longrightarrow> dents_ok (D(l0 := w)) n"
proof -
  note C = dent_cong [OF assms(6) assms(4,5)]
  have ok: "dent_ok (D l0) j" if "j < NAT_D_PER_BLOCK" for j using assms(1,2) that by (simp add: dents_ok_def)
  show "dent_of (D(l0 := w)) n p = dent_of D n p" if "p \<noteq> (l0, i0)"
  proof (cases p)
    case (Pair l j)
    show ?thesis
    proof (cases "l = l0 \<and> j < NAT_D_PER_BLOCK")
      case True
      then have j: "j \<noteq> i0" "j < NAT_D_PER_BLOCK" using that Pair by auto
      show ?thesis using True Pair C(1) [OF j j(2)] C(3) [OF j j(2) ok [OF j(2)]] by (simp add: dent_of_def)
    qed (auto simp: dent_of_def Pair)
  qed
  assume w: "dent_ok w i0"
  have "dent_ok w j" if j: "j < NAT_D_PER_BLOCK" for j using w C(2) [OF _ j j] ok [OF j] by (cases "j = i0") simp_all
  then show "dents_ok (D(l0 := w)) n" using assms(1) by (simp add: dents_ok_def)
qed

lemma dent_of_put:
  assumes "dents_ok D n" and "l0 < n" and "i0 < NAT_D_PER_BLOCK" and "length (D l0) = BLK_SIZE" and "name \<in> names" and "0 < fb" and "fb < 2 ^ 32"
  shows "dent_of (D(l0 := put_dirent i0 name fb (D l0))) n = (dent_of D n)((l0, i0) := Some (bytes name, fb))"
    and "dents_ok (D(l0 := put_dirent i0 name fb (D l0))) n"
proof -
  note T = put_dirent_this [OF assms(4,3,5), of fb]
  note O = dent_of_other [OF assms(1-4) length_put_dirent [OF assms(4,3,5), of fb] put_dirent_other [OF assms(4,3,5)]]
  show "dents_ok (D(l0 := put_dirent i0 name fb (D l0))) n" by (rule O(2)) (use T(3) in simp_all)
  have fb: "unat (word_of_nat fb :: 32 word) = fb" using assms(7) by (simp add: unat_of_nat)
  moreover from fb have "(word_of_nat fb :: 32 word) \<noteq> 0" using assms(6) by (metis less_numeral_extra(3) unat_0)
  ultimately have "dent_of (D(l0 := put_dirent i0 name fb (D l0))) n (l0, i0) = Some (bytes name, fb)" using T assms(2,3) by (simp add: dent_of_def)
  then show "dent_of (D(l0 := put_dirent i0 name fb (D l0))) n = (dent_of D n)((l0, i0) := Some (bytes name, fb))"
    by (intro ext) (use O(1) in \<open>simp add: fun_upd_apply\<close>)
qed

lemma dent_of_zero:
  assumes "dents_ok D n" and "l0 < n" and "i0 < NAT_D_PER_BLOCK" and "length (D l0) = BLK_SIZE"
  shows "dent_of (D(l0 := zero_dirent i0 (D l0))) n = (dent_of D n)((l0, i0) := None)"
    and "dents_ok (D(l0 := zero_dirent i0 (D l0))) n"
proof -
  note T = zero_dirent_this [OF assms(4,3)]
  note O = dent_of_other [OF assms(1-4) length_zero_dirent [OF assms(4,3)] zero_dirent_other [OF assms(4,3)]]
  show "dents_ok (D(l0 := zero_dirent i0 (D l0))) n" by (rule O(2)) (use T in \<open>simp_all add: dent_ok_def\<close>)
  have "dent_of (D(l0 := zero_dirent i0 (D l0))) n (l0, i0) = None" using T by (simp add: dent_of_def)
  then show "dent_of (D(l0 := zero_dirent i0 (D l0))) n = (dent_of D n)((l0, i0) := None)"
    by (intro ext) (use O(1) in \<open>simp add: fun_upd_apply\<close>)
qed

lemma map_eqI: "(\<And>n x. m n = Some x \<longleftrightarrow> m' n = Some x) \<Longrightarrow> m = m'"
  by (rule ext) (metis option.exhaust)

text \<open>Adding and removing an entry.\<close>

lemma dent_add:
  assumes u: "\<forall>p q n x y. dent V dev b p = Some (n, x) \<longrightarrow> dent V dev b q = Some (n, y) \<longrightarrow> p = q"
    and new: "dir_map V dev b name = None" and upd: "dent V' dev b' = (dent V dev b)(p0 := Some (bytes name, x0))" and free: "dent V dev b p0 = None"
  shows "\<forall>p q n x y. dent V' dev b' p = Some (n, x) \<longrightarrow> dent V' dev b' q = Some (n, y) \<longrightarrow> p = q"
    and "dir_map V' dev b' = (dir_map V dev b)(name \<mapsto> x0)"
proof -
  have no: "dent V dev b p \<noteq> Some (bytes name, x)" for p x using dir_map_iff [OF u, of name x] new by (metis option.distinct(1))
  show u': "\<forall>p q n x y. dent V' dev b' p = Some (n, x) \<longrightarrow> dent V' dev b' q = Some (n, y) \<longrightarrow> p = q"
    unfolding upd using u no by (auto split: if_splits)
  show "dir_map V' dev b' = (dir_map V dev b)(name \<mapsto> x0)"
  proof (rule map_eqI)
    fix n x
    show "dir_map V' dev b' n = Some x \<longleftrightarrow> ((dir_map V dev b)(name \<mapsto> x0)) n = Some x"
    proof (cases "n = name")
      case True
      then show ?thesis unfolding dir_map_iff [OF u'] upd using no [of _ x] by (cases p0) (auto split: if_splits)
    next
      case False
      then have "(\<exists>p. ((dent V dev b)(p0 := Some (bytes name, x0))) p = Some (bytes n, x)) \<longleftrightarrow> (\<exists>p. dent V dev b p = Some (bytes n, x))"
        using free bytes_inj [of name n] by (metis fun_upd_apply option.inject option.distinct(1) prod.inject)
      then show ?thesis unfolding dir_map_iff [OF u'] upd using dir_map_iff [OF u, of n x] False by simp
    qed
  qed
qed

lemma dent_remove:
  assumes u: "\<forall>p q n x y. dent V dev b p = Some (n, x) \<longrightarrow> dent V dev b q = Some (n, y) \<longrightarrow> p = q"
    and upd: "dent V' dev b' = (dent V dev b)(p0 := None)" and old: "dent V dev b p0 = Some (bytes name, x0)"
  shows "\<forall>p q n x y. dent V' dev b' p = Some (n, x) \<longrightarrow> dent V' dev b' q = Some (n, y) \<longrightarrow> p = q"
    and "dir_map V' dev b' = (dir_map V dev b)(name := None)"
proof -
  show u': "\<forall>p q n x y. dent V' dev b' p = Some (n, x) \<longrightarrow> dent V' dev b' q = Some (n, y) \<longrightarrow> p = q"
    unfolding upd using u by (auto split: if_splits)
  show "dir_map V' dev b' = (dir_map V dev b)(name := None)"
  proof (rule map_eqI)
    fix n x
    have eq: "(\<exists>p. ((dent V dev b)(p0 := None)) p = Some (bytes n, x)) \<longleftrightarrow> n \<noteq> name \<and> (\<exists>p. dent V dev b p = Some (bytes n, x))"
    proof (cases "n = name")
      case True
      have "p = p0" if "dent V dev b p = Some (bytes name, x)" for p using u old that by blast
      then show ?thesis using True by (metis fun_upd_apply option.distinct(1))
    next
      case False
      then have "dent V dev b p0 \<noteq> Some (bytes n, x)" using old bytes_inj [of name n] by auto
      then show ?thesis using False by (metis fun_upd_apply option.distinct(1))
    qed
    show "dir_map V' dev b' n = Some x \<longleftrightarrow> ((dir_map V dev b)(name := None)) n = Some x"
      unfolding dir_map_iff [OF u'] upd eq using dir_map_iff [OF u, of n x] by simp
  qed
qed

lemma lookup_small:
  assumes "lookup V dev b l \<noteq> 0"
  shows "\<not> too_big b l"
proof
  assume tb: "too_big b l"
  then have "ind V dev b 0 (l div 128 ^ nindirlev b) = 0" by (simp add: too_big_def)
  from ind_zero [OF this] show False using assms tb by (simp add: lookup_def data_pos_def too_big_def)
qed

text \<open>Taking a buffer: from \<open>s\<close> to \<open>s'\<close> nothing happens but that the caller now holds the buffer \<open>bb\<close> of a block.\<close>

definition took ::
    "('d \<Rightarrow> nat \<Rightarrow> nat \<Rightarrow> 8 word list) \<Rightarrow> ('d \<Rightarrow> nat \<Rightarrow> nat \<Rightarrow> bool) \<Rightarrow> ('d \<Rightarrow> bool) \<Rightarrow> nat \<Rightarrow> nat \<Rightarrow> nat \<Rightarrow> 'd bcache \<Rightarrow> 'd bcache \<Rightarrow> bool" where
  "took sector has dok dev n bb s s' \<longleftrightarrow> ready sector has dok s' \<and> view sector s' = view sector s \<and> has (disk s') = has (disk s) \<and>
     buf_kept s s' \<and> refs s bb \<ge> 0 \<and> refs s' = (refs s)(bb := refs s bb + 1) \<and> held s' bb dev n"

lemma spares_quiet: "quiet sector has dok s s' \<Longrightarrow> view sector s' = view sector s \<Longrightarrow> spares sector has dok dev b f s b f s'"
  by (simp add: spares_def)

lemma same_map_trans: "same_map a b \<Longrightarrow> same_map b c \<Longrightarrow> same_map a c"
  by (simp add: same_map_def)

lemma same_map_refl [simp]: "same_map b b"
  by (simp add: same_map_def)

lemma same_map_lookup: "same_map b b' \<Longrightarrow> lookup V dev b' l = lookup V dev b l"
  by (rule lookup_fields) (simp_all add: same_map_def)

lemma same_map_dblk: "same_map b b' \<Longrightarrow> dblk V dev b' l = dblk V dev b l"
  by (simp add: dblk_def same_map_lookup)

lemma same_map_slot: "same_map b b' \<Longrightarrow> slot_in V dev b' name ls = slot_in V dev b name ls"
  by (simp add: slot_in_def same_map_dblk)

context block_driver
begin

lemma took_data: "took sector has dok dev n bb s s' \<Longrightarrow> b_data (blk s' bb) = view sector s dev n"
  using held_data [of sector has dok s' bb dev n] by (simp add: took_def)

text \<open>Letting go of the buffer after other operations that leave it alone.\<close>

lemma took_put:
  assumes "took sector has dok dev n bb s s1" and "quiet sector has dok s1 s2"
  shows "\<exists>s3. blk_put (Some bb) s2 = Some s3 \<and> quiet sector has dok s s3 \<and> view sector s3 = view sector s2"
  using use_bracket [of s s1 bb s2] assms by (auto simp: took_def held_def)

lemma took_put1:
  assumes "took sector has dok dev n bb s s1"
  shows "\<exists>s3. blk_put (Some bb) s1 = Some s3 \<and> quiet sector has dok s s3 \<and> view sector s3 = view sector s"
  using took_put [OF assms quiet_refl] assms by (auto simp: took_def)

lemma use_took:
  assumes "ready sector has dok s" and "nfree s > 0" and "has (disk s) dev n"
  shows "\<exists>bb s'. blk_read rd wr dev n s = Some (Inr bb, s') \<and> took sector has dok dev n bb s s'"
  using use_read [OF assms] unfolding took_def by blast

lemma file_inv_quiet:
  assumes "file_inv sector has dok dev b f s" and "quiet sector has dok s s'" and "view sector s' = view sector s"
  shows "file_inv sector has dok dev b f s'"
  using assms quiet_ready [OF assms(2)] quiet_nfree [OF assms(2)] quiet_has [OF assms(2)]
  by (simp add: file_inv_def file_ok_def bam_ok_def)

lemma dir_read:
  assumes I: "file_inv sector has dok dev b f s" and l: "l < 2 ^ 31" "lookup (view sector s) dev b l \<noteq> 0"
  shows "\<exists>b1 s1 bb s2. nat_bmap rd wr dev l False b f s = Some (EZERO, b1, f, s1) \<and> same_map b b1 \<and>
     file_inv sector has dok dev b1 f s1 \<and> view sector s1 = view sector s \<and> quiet sector has dok s s1 \<and> bmap_phys b1 = lookup (view sector s) dev b l \<and>
     blk_read rd wr dev (bmap_phys b1) s1 = Some (Inr bb, s2) \<and> took sector has dok dev (lookup (view sector s) dev b l) bb s1 s2 \<and>
     b_data (blk s2 bb) = dblk (view sector s) dev b l"
proof -
  let ?n = "lookup (view sector s) dev b l"
  have F: "file_ok sector has dok dev b f s" using I by (simp add: file_inv_def)
  obtain e b1 b0 s1 where m: "nat_bmap rd wr dev l False b f s = Some (e, b1, f, s1)" "grows sector has dok dev l b f s b f s1"
      "same_map b b1" "file_inv sector has dok dev b1 f s1"
      "if e = EZERO then bmap_phys b1 = lookup (view sector s1) dev b1 l \<and> (False \<longrightarrow> bmap_phys b1 \<noteq> 0)
       else (too_big b l \<and> e = EFBIG) \<or> (\<not> too_big b l \<and> False \<and> e = ENOSPC)" "view sector s1 = view sector s"
    using bmap_keeps [OF I l(1), of False] by blast
  have e: "e = EZERO" using m(5) lookup_small [OF l(2)] by (auto split: if_splits)
  then have p: "bmap_phys b1 = ?n" using m(5,6) same_map_lookup [OF m(3)] by simp
  have q: "quiet sector has dok s s1" by (rule growsD(2) [OF m(2)])
  have "has (disk s) dev ?n" using file_ok_live(4) [OF F, of "data_pos b l"] l(2) by (simp add: lookup_def)
  then have h: "has (disk s1) dev (bmap_phys b1)" using quiet_has [OF q] p by simp
  obtain bb s2 where r: "blk_read rd wr dev (bmap_phys b1) s1 = Some (Inr bb, s2)" "took sector has dok dev (bmap_phys b1) bb s1 s2"
    using use_took [OF conjunct1 [OF file_inv_ready [OF m(4)]] conjunct2 [OF file_inv_ready [OF m(4)]] h] by blast
  have "b_data (blk s2 bb) = dblk (view sector s) dev b l" using took_data [OF r(2)] m(6) p by (simp add: dblk_def)
  then show ?thesis using m(1,3,4,6) q p r e by auto
qed

lemma find_loop_works:
  assumes "file_inv sector has dok dev b f s" and "\<forall>l \<in> set ls. l < 2 ^ 31 \<and> lookup (view sector s) dev b l \<noteq> 0"
  shows "\<exists>b' s1. same_map b b' \<and> file_inv sector has dok dev b' f s1 \<and> view sector s1 = view sector s \<and> quiet sector has dok s s1 \<and>
     (case slot_in (view sector s) dev b name ls of
        None \<Rightarrow> find_loop rd wr dev name ls b f s = Some (Inl ENOENT, b', f, s1)
      | Some (l, i) \<Rightarrow> \<exists>bb s'. find_loop rd wr dev name ls b f s = Some (Inr (bb, i), b', f, s') \<and>
          took sector has dok dev (lookup (view sector s) dev b l) bb s1 s')"
  using assms
proof (induction ls arbitrary: b s)
  case Nil
  then show ?case using quiet_refl [OF conjunct1 [OF file_inv_ready [OF Nil(1)]]] by (intro exI [of _ b] exI [of _ s]) simp
next
  case (Cons l ls)
  let ?V = "view sector s"
  have l: "l < 2 ^ 31" "lookup ?V dev b l \<noteq> 0" using Cons.prems(2) by auto
  obtain b1 s1 bb s2 where r: "nat_bmap rd wr dev l False b f s = Some (EZERO, b1, f, s1)" "same_map b b1"
      "file_inv sector has dok dev b1 f s1" "view sector s1 = ?V" "quiet sector has dok s s1" "bmap_phys b1 = lookup ?V dev b l"
      "blk_read rd wr dev (bmap_phys b1) s1 = Some (Inr bb, s2)" "took sector has dok dev (lookup ?V dev b l) bb s1 s2"
      "b_data (blk s2 bb) = dblk ?V dev b l"
    using dir_read [OF Cons.prems(1) l] by blast
  show ?case
  proof (cases "List.find (d_is name (dblk ?V dev b l)) [0..<NAT_D_PER_BLOCK]")
    case (Some i)
    then have "find_loop rd wr dev name (l # ls) b f s = Some (Inr (bb, i), b1, f, s2)" using r(1,7,9) by simp
    moreover have "slot_in ?V dev b name (l # ls) = Some (l, i)" unfolding slot_in_Cons Some by simp
    ultimately show ?thesis using r(2-5,8) by (intro exI [of _ b1] exI [of _ s1]) simp
  next
    case None
    obtain s3 where s3: "blk_put (Some bb) s2 = Some s3" "quiet sector has dok s1 s3" "view sector s3 = view sector s1"
      using took_put1 [OF r(8)] by blast
    have V3: "view sector s3 = ?V" using s3(3) r(4) by simp
    have "file_inv sector has dok dev b1 f s3" by (rule file_inv_quiet [OF r(3) s3(2,3)])
    moreover have "\<forall>l \<in> set ls. l < 2 ^ 31 \<and> lookup (view sector s3) dev b1 l \<noteq> 0"
      using Cons.prems(2) V3 same_map_lookup [OF r(2)] by simp
    ultimately obtain b' s4 where IH: "same_map b1 b'" "file_inv sector has dok dev b' f s4" "view sector s4 = view sector s3" "quiet sector has dok s3 s4"
        "case slot_in (view sector s3) dev b1 name ls of
           None \<Rightarrow> find_loop rd wr dev name ls b1 f s3 = Some (Inl ENOENT, b', f, s4)
         | Some (l, i) \<Rightarrow> \<exists>bb s'. find_loop rd wr dev name ls b1 f s3 = Some (Inr (bb, i), b', f, s') \<and>
             took sector has dok dev (lookup (view sector s3) dev b1 l) bb s4 s'"
      using Cons.IH by blast
    have step: "find_loop rd wr dev name (l # ls) b f s = find_loop rd wr dev name ls b1 f s3" using r(1,7,9) s3(1) None by simp
    have sl: "slot_in ?V dev b name (l # ls) = slot_in (view sector s3) dev b1 name ls"
      unfolding slot_in_Cons None V3 same_map_slot [OF r(2)] by simp
    have q: "quiet sector has dok s s4" by (rule quiet_trans [OF quiet_trans [OF r(5) s3(2)] IH(4)])
    show ?thesis unfolding step sl using IH same_map_trans [OF r(2) IH(1)] q V3 same_map_lookup [OF r(2)]
      by (intro exI [of _ b'] exI [of _ s4]) (auto split: option.splits)
  qed
qed

text \<open>The same for \<^verbatim>\<open>new_entry\<close>, which also looks for an unused entry.\<close>

lemma scan_block_works:
  "scan_block name bs phys is fr = None \<longleftrightarrow> (\<exists>i \<in> set is. d_is name bs i)"
  "scan_block name bs phys is fr = Some fr' \<Longrightarrow> fr' = fr \<or> (\<exists>i \<in> set is. fr' = (phys, i) \<and> d_first_block bs i = 0)"
  by (induction "is" arbitrary: fr) (auto split: if_splits)

lemma new_loop_works:
  assumes "file_inv sector has dok dev b f s" and "\<forall>l \<in> set ls. l < 2 ^ 31 \<and> lookup (view sector s) dev b l \<noteq> 0"
  shows "\<exists>r b' s'. new_loop rd wr dev name ls fr b f s = Some (r, b', f, s') \<and>
     same_map b b' \<and> file_inv sector has dok dev b' f s' \<and> view sector s' = view sector s \<and> quiet sector has dok s s' \<and>
     (case r of
        Inl e \<Rightarrow> e = EEXIST \<and> slot_in (view sector s) dev b name ls \<noteq> None
      | Inr fr' \<Rightarrow> slot_in (view sector s) dev b name ls = None \<and>
          (fr' = fr \<or> (\<exists>l \<in> set ls. \<exists>i < NAT_D_PER_BLOCK. fr' = (lookup (view sector s) dev b l, i) \<and> d_first_block (dblk (view sector s) dev b l) i = 0)))"
  using assms
proof (induction ls arbitrary: b s fr)
  case Nil
  then show ?case using quiet_refl [OF conjunct1 [OF file_inv_ready [OF Nil(1)]]] by simp
next
  case (Cons l ls)
  let ?V = "view sector s"
  have l: "l < 2 ^ 31" "lookup ?V dev b l \<noteq> 0" using Cons.prems(2) by auto
  obtain b1 s1 bb s2 where r: "nat_bmap rd wr dev l False b f s = Some (EZERO, b1, f, s1)" "same_map b b1"
      "file_inv sector has dok dev b1 f s1" "view sector s1 = ?V" "quiet sector has dok s s1" "bmap_phys b1 = lookup ?V dev b l"
      "blk_read rd wr dev (bmap_phys b1) s1 = Some (Inr bb, s2)" "took sector has dok dev (lookup ?V dev b l) bb s1 s2"
      "b_data (blk s2 bb) = dblk ?V dev b l"
    using dir_read [OF Cons.prems(1) l] by blast
  obtain s3 where s3: "blk_put (Some bb) s2 = Some s3" "quiet sector has dok s1 s3" "view sector s3 = view sector s1"
    using took_put1 [OF r(8)] by blast
  have V3: "view sector s3 = ?V" using s3(3) r(4) by simp
  have I3: "file_inv sector has dok dev b1 f s3" by (rule file_inv_quiet [OF r(3) s3(2,3)])
  have q3: "quiet sector has dok s s3" by (rule quiet_trans [OF r(5) s3(2)])
  let ?scan = "scan_block name (dblk ?V dev b l) (lookup ?V dev b l) [0..<NAT_D_PER_BLOCK] fr"
  show ?case
  proof (cases ?scan)
    case None
    then have "new_loop rd wr dev name (l # ls) fr b f s = Some (Inl EEXIST, b1, f, s3)" using r(1,6,7,9) s3(1) by simp
    moreover have "slot_in ?V dev b name (l # ls) \<noteq> None" 
    proof -
      have "\<exists>i < NAT_D_PER_BLOCK. d_is name (dblk ?V dev b l) i" using iffD1 [OF scan_block_works(1) None] by auto
      then show ?thesis unfolding slot_in_None by (meson list.set_intros(1))
    qed
    ultimately show ?thesis using r(2) I3 V3 q3 by simp
  next
    case (Some fr1)
    have step: "new_loop rd wr dev name (l # ls) fr b f s = new_loop rd wr dev name ls fr1 b1 f s3" using r(1,6,7,9) s3(1) Some by simp
    have "List.find (d_is name (dblk ?V dev b l)) [0..<NAT_D_PER_BLOCK] = None"
      unfolding find_None_iff using Some scan_block_works(1) [of name] by (metis option.distinct(1))
    then have sl: "slot_in ?V dev b name (l # ls) = slot_in (view sector s3) dev b1 name ls"
      unfolding slot_in_Cons V3 same_map_slot [OF r(2)] by simp
    have ls: "\<forall>l \<in> set ls. l < 2 ^ 31 \<and> lookup (view sector s3) dev b1 l \<noteq> 0"
      using Cons.prems(2) V3 same_map_lookup [OF r(2)] by simp
    obtain r' b' s' where IH: "new_loop rd wr dev name ls fr1 b1 f s3 = Some (r', b', f, s')"
        "same_map b1 b'" "file_inv sector has dok dev b' f s'" "view sector s' = view sector s3" "quiet sector has dok s3 s'"
        "case r' of
          Inl e \<Rightarrow> e = EEXIST \<and> slot_in (view sector s3) dev b1 name ls \<noteq> None
        | Inr fr' \<Rightarrow> slot_in (view sector s3) dev b1 name ls = None \<and>
            (fr' = fr1 \<or> (\<exists>l \<in> set ls. \<exists>i < NAT_D_PER_BLOCK. fr' = (lookup (view sector s3) dev b1 l, i) \<and>
              d_first_block (dblk (view sector s3) dev b1 l) i = 0))"
      using Cons.IH [OF I3 ls] by blast
    have fr1: "fr1 = fr \<or> (\<exists>i < NAT_D_PER_BLOCK. fr1 = (lookup ?V dev b l, i) \<and> d_first_block (dblk ?V dev b l) i = 0)"
      using scan_block_works(2) [OF Some] by auto
    have "case r' of
        Inl e \<Rightarrow> e = EEXIST \<and> slot_in ?V dev b name (l # ls) \<noteq> None
      | Inr fr' \<Rightarrow> slot_in ?V dev b name (l # ls) = None \<and>
          (fr' = fr \<or> (\<exists>l \<in> set (l # ls). \<exists>i < NAT_D_PER_BLOCK. fr' = (lookup ?V dev b l, i) \<and> d_first_block (dblk ?V dev b l) i = 0))"
      unfolding sl using IH(6) fr1 unfolding V3 same_map_lookup [OF r(2)] same_map_dblk [OF r(2)] by (auto split: sum.splits)
    then show ?thesis unfolding step using IH(1) same_map_trans [OF r(2) IH(2)] IH(3) IH(4) V3 quiet_trans [OF q3 IH(5)]
      by (intro exI [of _ r'] exI [of _ b'] exI [of _ s']) simp
  qed
qed

text \<open>Storing into a buffer that is held, and letting go of it.\<close>

lemma took_store:
  assumes "took sector has dok dev n bb s s1" and "has (disk s) dev n" and "length (g (view sector s dev n)) = BLK_SIZE"
  shows "\<exists>s3. blk_put (Some bb) (upd_blk bb (\<lambda>v. v\<lparr>b_data := g (b_data v), b_dirty := True\<rparr>) s1) = Some s3 \<and> quiet sector has dok s s3 \<and>
     view sector s3 = (view sector s)(dev := (view sector s dev)(n := g (view sector s dev n)))"
proof -
  let ?w = "g (view sector s dev n)"
  let ?s = "upd_blk bb (\<lambda>v. v\<lparr>b_data := ?w, b_dirty := True, b_valid := True\<rparr>) s1"
  have T: "ready sector has dok s1" "has (disk s1) = has (disk s)" "view sector s1 = view sector s" "held s1 bb dev n" using assms(1) by (simp_all add: took_def)
  then have h: "bb < blk_count s1" "is_block dev n (blk s1 bb)" "refs s1 bb > 0" "b_valid (blk s1 bb)" by (simp_all add: held_def)
  have "upd_blk bb (\<lambda>v. v\<lparr>b_data := g (b_data v), b_dirty := True\<rparr>) s1 = ?s"
    using took_data [OF assms(1)] h(4) by (cases "blk s1 bb") (simp add: upd_blk_def)
  moreover have h1: "has (disk s1) dev n" using assms(2) T(2) by simp
  note st = use_store [OF T(1) h1 h(1-3) assms(3)]
  obtain s3 where "blk_put (Some bb) ?s = Some s3" "quiet sector has dok s s3" "view sector s3 = view sector ?s"
    using took_put [OF assms(1) st(1)] by blast
  ultimately show ?thesis using st(2) T(3) by auto
qed

lemma dir_store:
  assumes I: "file_inv sector has dok dev b f s" and l: "lookup (view sector s) dev b l \<noteq> 0"
    and Q: "quiet sector has dok s s'" and V: "view sector s' = (view sector s)(dev := (view sector s dev)(lookup (view sector s) dev b l := w))"
  shows "file_inv sector has dok dev b f s'" "spares sector has dok dev b f s b f s'"
    "lookup (view sector s') dev b = lookup (view sector s) dev b" "dblk (view sector s') dev b = (dblk (view sector s) dev b)(l := w)"
proof -
  have F: "file_ok sector has dok dev b f s" and C: "bmap_cached (view sector s) dev b" and L: "7 * nindirlev b < 32" using I by (simp_all add: file_inv_def)
  note S = store_data [OF F refl l Q V]
  show "spares sector has dok dev b f s b f s'" by (rule S(3))
  show lk: "lookup (view sector s') dev b = lookup (view sector s) dev b" by (rule ext) (simp add: lookup_def S(2))
  show "file_inv sector has dok dev b f s'" using S(1) C L by (simp add: file_inv_def bmap_cached_def lk)
  have inj: "lookup (view sector s) dev b k = lookup (view sector s) dev b l \<longleftrightarrow> k = l" for k
    using file_ok_inj [OF F, of "data_pos b k" "data_pos b l"] l data_pos_inj [of b k l] by (auto simp: lookup_def)
  show "dblk (view sector s') dev b = (dblk (view sector s) dev b)(l := w)" unfolding dblk_def lk by (rule ext) (simp add: V inj)
qed

lemma dir_grows:
  assumes F: "file_ok sector has dok dev b f s" and G: "grows sector has dok dev n b f s b1 f1 s1" and m: "same_map b1 b'"
    and l: "lookup (view sector s) dev b l \<noteq> 0" "l \<noteq> n"
  shows "lookup (view sector s1) dev b' l = lookup (view sector s) dev b l" "dblk (view sector s1) dev b' l = dblk (view sector s) dev b l"
proof -
  let ?n = "lookup (view sector s) dev b l"
  show lk: "lookup (view sector s1) dev b' l = ?n" using growsD(8) [OF G l(2)] same_map_lookup [OF m] by simp
  have "?n < nblocks f" "used (view sector s) dev f ?n" "?n \<notin> bam_range f" using file_ok_live [OF F, of "data_pos b l"] l(1) by (simp_all add: lookup_def)
  from growsD(10) [OF G this data_not_inner [OF F l(1)]] show "dblk (view sector s1) dev b' l = dblk (view sector s) dev b l" by (simp add: dblk_def lk)
qed

lemma dir_invD:
  assumes "dir_inv sector has dok dev b f s"
  shows "file_inv sector has dok dev b f s" "o_mode b AND S_IFMT = S_IFDIR" "o_size b mod BLK_SIZE = 0" "o_size b \<le> NAT_DIR_SIZE_MAX"
    "l < o_size b div BLK_SIZE \<Longrightarrow> lookup (view sector s) dev b l \<noteq> 0" "dents_ok (dblk (view sector s) dev b) (o_size b div BLK_SIZE)"
    "\<forall>p q n x y. dent (view sector s) dev b p = Some (n, x) \<longrightarrow> dent (view sector s) dev b q = Some (n, y) \<longrightarrow> p = q"
    "o_size b div BLK_SIZE < 2 ^ 31"
proof -
  show "file_inv sector has dok dev b f s" "o_mode b AND S_IFMT = S_IFDIR" "o_size b mod BLK_SIZE = 0" "o_size b \<le> NAT_DIR_SIZE_MAX"
    "l < o_size b div BLK_SIZE \<Longrightarrow> lookup (view sector s) dev b l \<noteq> 0" "dents_ok (dblk (view sector s) dev b) (o_size b div BLK_SIZE)"
    "\<forall>p q n x y. dent (view sector s) dev b p = Some (n, x) \<longrightarrow> dent (view sector s) dev b q = Some (n, y) \<longrightarrow> p = q"
    using assms unfolding dir_inv_def by blast+
  have "o_size b \<le> NAT_DIR_SIZE_MAX" using assms by (simp add: dir_inv_def)
  then show "o_size b div BLK_SIZE < 2 ^ 31" by (intro le_less_trans [OF div_le_dividend]) simp
qed

text \<open>The directory is the same when its blocks are.\<close>

lemma dir_inv_cong:
  assumes D: "dir_inv sector has dok dev b f s" and I: "file_inv sector has dok dev b' f' s'" and sz: "o_size b' = o_size b" "o_mode b' = o_mode b"
    and eq: "\<And>l. l < o_size b div BLK_SIZE \<Longrightarrow> lookup (view sector s') dev b' l = lookup (view sector s) dev b l"
      "\<And>l. l < o_size b div BLK_SIZE \<Longrightarrow> dblk (view sector s') dev b' l = dblk (view sector s) dev b l"
  shows "dir_inv sector has dok dev b' f' s'" "dir_map (view sector s') dev b' = dir_map (view sector s) dev b"
proof -
  note d = dir_invD [OF D]
  have dt: "dent (view sector s') dev b' = dent (view sector s) dev b" unfolding dent_def sz(1) by (rule dent_of_cong) (rule eq(2))
  have "dents_ok (dblk (view sector s') dev b') (o_size b div BLK_SIZE)" using d(6) eq(2) by (simp add: dents_ok_def)
  then show "dir_inv sector has dok dev b' f' s'" using I d(2-5,7) eq(1) unfolding dir_inv_def dt sz by simp
  have "dir_map (view sector s') dev b' n = Some x \<longleftrightarrow> dir_map (view sector s) dev b n = Some x" for n x
    unfolding dir_map_iff [OF d(7)] dir_map_iff [OF d(7) [folded dt]] dt ..
  then show "dir_map (view sector s') dev b' = dir_map (view sector s) dev b" by (rule map_eqI)
qed

lemma dir_inv_same:
  assumes "dir_inv sector has dok dev b f s" and "file_inv sector has dok dev b' f s'" and "same_map b b'" and "view sector s' = view sector s"
  shows "dir_inv sector has dok dev b' f s'" "dir_map (view sector s') dev b' = dir_map (view sector s) dev b"
  using dir_inv_cong [OF assms(1,2)] same_map_lookup [OF assms(3)] same_map_dblk [OF assms(3)] assms(3,4) by (simp_all add: same_map_def)

text \<open>The entry \<open>(l, i)\<close> is written, in a block of the directory or in a new one.\<close>

lemma dir_inv_put:
  assumes D: "dir_inv sector has dok dev b f s" and I: "file_inv sector has dok dev b' f' s'" and mo: "o_mode b' = o_mode b"
    and n: "o_size b' = n * BLK_SIZE" "o_size b' \<le> NAT_DIR_SIZE_MAX" "n = m \<or> n = Suc m" "m = o_size b div BLK_SIZE"
    and lk: "\<And>l. l < n \<Longrightarrow> lookup (view sector s') dev b' l \<noteq> 0"
    and E: "\<And>l. l < n \<Longrightarrow> length (E l) = BLK_SIZE" "\<And>l. l < m \<Longrightarrow> E l = dblk (view sector s) dev b l" "n = Suc m \<Longrightarrow> E m = zeros"
    and w: "\<And>l. l < n \<Longrightarrow> dblk (view sector s') dev b' l = (E(k := put_dirent i name fb (E k))) l"
    and p: "k < n" "i < NAT_D_PER_BLOCK" "d_first_block (E k) i = 0" "name \<in> names" "0 < fb" "fb < 2 ^ 32"
    and new: "dir_map (view sector s) dev b name = None"
  shows "dir_inv sector has dok dev b' f' s' \<and> dir_map (view sector s') dev b' = (dir_map (view sector s) dev b)(name \<mapsto> fb)"
proof -
  note d = dir_invD [OF D]
  let ?V = "view sector s" and ?V' = "view sector s'"
  have dm: "dent_of E m = dent ?V dev b" "dents_ok E m"
    using dent_of_cong [of m E "dblk ?V dev b"] E(2) d(6) n(4) by (simp_all add: dent_def dents_ok_def)
  have en: "dent_of E n = dent ?V dev b" "dents_ok E n"
  proof -
    have e: "E(m := zeros) = E" if "n = Suc m" using E(3) [OF that] by auto
    show "dent_of E n = dent ?V dev b" using n(3) dm(1) dent_of_grow [of E m] e by auto
    show "dents_ok E n" using n(3) dm(2) dents_ok_grow [of E m] e by auto
  qed
  note P = dent_of_put [OF en(2) p(1,2) E(1) [OF p(1)] p(4-6)]
  have sz: "o_size b' div BLK_SIZE = n" "o_size b' mod BLK_SIZE = 0" using n(1) by simp_all
  have "dent ?V' dev b' = dent_of (E(k := put_dirent i name fb (E k))) n" unfolding dent_def sz by (rule dent_of_cong) (rule w)
  then have dt: "dent ?V' dev b' = (dent ?V dev b)((k, i) := Some (bytes name, fb))" using P(1) en(1) by simp
  have fr: "dent ?V dev b (k, i) = None" unfolding en(1) [symmetric] using p(3) by (simp add: dent_of_def)
  note A = dent_add [OF d(7) new dt fr]
  have "dents_ok (dblk ?V' dev b') n" using P(2) w by (simp add: dents_ok_def)
  then have "dir_inv sector has dok dev b' f' s'" using I d(2) mo n(2) sz lk A(1) unfolding dir_inv_def by simp
  then show ?thesis using A(2) by blast
qed

lemma file_inv_same:
  assumes "file_inv sector has dok dev b f s" and "bmap b' = bmap b" "ndirblks b' = ndirblks b" "nindirlev b' = nindirlev b"
    "bmap_valid b' = bmap_valid b" "bmap_log b' = bmap_log b" "bmap_phys b' = bmap_phys b"
  shows "file_inv sector has dok dev b' f s"
  using iffD2 [OF file_inv_fields [OF assms(2-7)] assms(1)] .

lemma new_dir_block_works:
  assumes D: "dir_inv sector has dok dev b f s" and name: "name \<in> names" "0 < fb" "fb < 2 ^ 32" and new: "dir_map (view sector s) dev b name = None"
  shows "(\<exists>e b' f' s'. new_dir_block rd wr dev b f s = Some (Inl e, b', f', s') \<and> (e = EFBIG \<or> e = ENOSPC) \<and> dir_inv sector has dok dev b' f' s' \<and>
            spares sector has dok dev b f s b' f' s' \<and> dir_map (view sector s') dev b' = dir_map (view sector s) dev b) \<or>
         (\<exists>bb b' f' s1 s'. new_dir_block rd wr dev b f s = Some (Inr (bb, 0), b', f', s1) \<and>
            blk_put (Some bb) (upd_blk bb (\<lambda>v. v\<lparr>b_data := put_dirent 0 name fb (b_data v), b_dirty := True\<rparr>) s1) = Some s' \<and>
            dir_inv sector has dok dev b' f' s' \<and> spares sector has dok dev b f s b' f' s' \<and>
            dir_map (view sector s') dev b' = (dir_map (view sector s) dev b)(name \<mapsto> fb))"
proof -
  note d = dir_invD [OF D]
  let ?V = "view sector s" and ?n = "o_size b div BLK_SIZE"
  have F: "file_ok sector has dok dev b f s" using d(1) by (simp add: file_inv_def)
  show ?thesis
  proof (cases "o_size b + BLK_SIZE > NAT_DIR_SIZE_MAX")
    case True
    then have "new_dir_block rd wr dev b f s = Some (Inl EFBIG, b, f, s)" by (simp add: new_dir_block_def)
    then show ?thesis using D spares_refl [OF conjunct1 [OF file_inv_ready [OF d(1)]]] by blast
  next
    case False
    obtain e b1 b2 f2 s2 where m: "nat_bmap rd wr dev ?n True b f s = Some (e, b2, f2, s2)" "grows sector has dok dev ?n b f s b1 f2 s2"
        "same_map b1 b2" "file_inv sector has dok dev b2 f2 s2"
        "if e = EZERO then bmap_phys b2 = lookup (view sector s2) dev b2 ?n \<and> (True \<longrightarrow> bmap_phys b2 \<noteq> 0)
         else (too_big b ?n \<and> e = EFBIG) \<or> (\<not> too_big b ?n \<and> True \<and> e = ENOSPC)"
      using bmap_keeps [OF d(1,8), of True] by blast
    note sf = same_file_simps [OF growsD(4) [OF m(2)]]
    have sz: "o_size b2 = o_size b" "o_mode b2 = o_mode b" using m(3) sf(6,10) by (simp_all add: same_map_def)
    have sp: "spares sector has dok dev b f s b2 f2 s2" by (rule spares_map [OF grows_spares [OF F m(2)] m(3)])
    note old = dir_grows [OF F m(2,3) d(5)]
    show ?thesis
    proof (cases "e = EZERO")
      case False
      then have "new_dir_block rd wr dev b f s = Some (Inl e, b2, f2, s2)" using m(1) \<open>\<not> o_size b + BLK_SIZE > NAT_DIR_SIZE_MAX\<close> by (simp add: new_dir_block_def)
      moreover have "e = EFBIG \<or> e = ENOSPC" using m(5) False by auto
      moreover have "dir_inv sector has dok dev b2 f2 s2" "dir_map (view sector s2) dev b2 = dir_map ?V dev b"
        by (rule dir_inv_cong [OF D m(4) sz]; use old in simp)+
      ultimately show ?thesis using sp by blast
    next
      case True
      let ?p = "bmap_phys b2" and ?w = "put_dirent 0 name fb zeros"
      have p: "?p = lookup (view sector s2) dev b2 ?n" "?p \<noteq> 0" using m(5) True by simp_all
      have F2: "file_ok sector has dok dev b2 f2 s2" using m(4) by (simp add: file_inv_def)
      have h: "has (disk s2) dev ?p" using file_ok_live(4) [OF F2, of "data_pos b2 ?n"] p by (simp add: lookup_def)
      have rdy: "ready sector has dok s2" "nfree s2 > 0" using file_inv_ready [OF m(4)] by simp_all
      obtain bb s3 where g: "blk_get wr dev ?p s2 = Some (Inr bb, s3)" "ready sector has dok s3" "view sector s3 = view sector s2"
          "has (disk s3) = has (disk s2)" "buf_kept s2 s3" "refs s2 bb \<ge> 0" "refs s3 = (refs s2)(bb := refs s2 bb + 1)" "bb < blk_count s3"
          "is_block dev ?p (blk s3 bb)"
        using use_get [OF rdy] by blast
      let ?s = "upd_blk bb (\<lambda>v. v\<lparr>b_data := zeros, b_dirty := True, b_valid := True\<rparr>) s3"
      have g': "has (disk s3) dev ?p" "refs s3 bb > 0" using h g(4,6,7) by simp_all
      note st = use_store [OF g(2) g'(1) g(8,9) g'(2) length_zeros]
      have h': "bb < blk_count ?s" "is_block dev ?p (blk ?s bb)" "refs ?s bb > 0" "b_valid (blk ?s bb)" "has (disk ?s) dev ?p"
        using st(3) quiet_has [OF st(1)] g'(1) by (simp_all add: held_def)
      have lw: "length ?w = BLK_SIZE" using name(1) by simp
      let ?t = "upd_blk bb (\<lambda>v. v\<lparr>b_data := ?w, b_dirty := True, b_valid := True\<rparr>) ?s"
      note st2 = use_store [OF quiet_ready [OF st(1)] h'(5) h'(1-3) lw]
      have eq: "upd_blk bb (\<lambda>v. v\<lparr>b_data := put_dirent 0 name fb (b_data v), b_dirty := True\<rparr>) ?s = ?t"
        by (cases "blk s3 bb") (simp add: upd_blk_def)
      obtain s' where s': "blk_put (Some bb) ?t = Some s'" "quiet sector has dok s2 s'" "view sector s' = view sector ?t"
        using use_bracket [OF g(5-7,4,8) quiet_trans [OF st(1) st2(1)]] by blast
      have V': "view sector s' = (view sector s2)(dev := (view sector s2 dev)(lookup (view sector s2) dev b2 ?n := ?w))"
        unfolding s'(3) st2(2) st(2) g(3) p(1) by simp
      note S = dir_store [OF m(4) p(2) [unfolded p(1)] s'(2) V']
      let ?b = "b2\<lparr>o_size := o_size b2 + BLK_SIZE, o_dirty := True\<rparr>"
      have I: "file_inv sector has dok dev ?b f2 s'" by (rule file_inv_same [OF S(1)]) simp_all
      have mb: "bmap ?b = bmap b2" "ndirblks ?b = ndirblks b2" "nindirlev ?b = nindirlev b2" by simp_all
      have lkb: "lookup V dev ?b l = lookup V dev b2 l" for V l by (rule lookup_fields [OF mb])
      have db: "dblk V dev ?b l = dblk V dev b2 l" for V l by (simp add: dblk_def lkb)
      have nb: "new_dir_block rd wr dev b f s = Some (Inr (bb, 0), ?b, f2, ?s)"
        using m(1) True \<open>\<not> o_size b + BLK_SIZE > NAT_DIR_SIZE_MAX\<close> g(1) by (simp add: new_dir_block_def)
      define E where "E = (dblk ?V dev b)(?n := zeros)"
      have "dir_inv sector has dok dev ?b f2 s' \<and> dir_map (view sector s') dev ?b = (dir_map ?V dev b)(name \<mapsto> fb)"
      proof (rule dir_inv_put [OF D I, where E = E and m = ?n and n = "Suc ?n" and k = ?n and i = 0])
        show "o_mode ?b = o_mode b" using sz by simp
        show "o_size ?b = Suc ?n * BLK_SIZE" "o_size ?b \<le> NAT_DIR_SIZE_MAX"
          using d(3) sz False \<open>\<not> o_size b + BLK_SIZE > NAT_DIR_SIZE_MAX\<close> by auto
        fix l assume l: "l < Suc ?n"
        show "lookup (view sector s') dev ?b l \<noteq> 0" unfolding lkb S(3) using l old(1) d(5) p by (cases "l = ?n") auto
        show "length (E l) = BLK_SIZE"
          using l view_length [OF conjunct1 [OF file_inv_ready [OF d(1)]]] file_ok_live(4) [OF F, of "data_pos b l"] d(5) [of l]
          by (cases "l = ?n") (auto simp: E_def dblk_def lookup_def)
        show "dblk (view sector s') dev ?b l = (E(?n := put_dirent 0 name fb (E ?n))) l"
          unfolding db S(4) using l old(2) by (cases "l = ?n") (auto simp: E_def)
      next
        show "d_first_block (E ?n) 0 = 0" by (simp add: E_def d_first_block_def le32_zeros)
      qed (use new name in \<open>auto simp: E_def\<close>)
      moreover have "spares sector has dok dev b f s ?b f2 s'"
        using spares_trans [OF sp S(2)] owns_fields [OF mb] unfolding spares_def by simp
      ultimately show ?thesis using nb s'(1) eq by (intro disjI2) auto
    qed
  qed
qed

lemma slot_dir_map: "slot_in V dev b name (dir_blocks b) = None \<longleftrightarrow> dir_map V dev b name = None"
  by (simp add: dir_map_def)

lemma dir_blocks_ok:
  assumes "dir_inv sector has dok dev b f s"
  shows "\<forall>l \<in> set (dir_blocks b). l < 2 ^ 31 \<and> lookup (view sector s) dev b l \<noteq> 0"
  using dir_invD(5,8) [OF assms] by (auto simp: dir_blocks_def)

lemma new_entry_works:
  assumes D: "dir_inv sector has dok dev b f s" and name: "name \<in> names" "0 < fb" "fb < 2 ^ 32"
  shows "\<exists>e b' f' s'. new_entry rd wr dev EZERO now name fb b f s = Some (e, b', f', s') \<and> dir_inv sector has dok dev b' f' s' \<and>
     spares sector has dok dev b f s b' f' s' \<and>
     (if e = EZERO then dir_map (view sector s) dev b name = None \<and> dir_map (view sector s') dev b' = (dir_map (view sector s) dev b)(name \<mapsto> fb)
      else dir_map (view sector s') dev b' = dir_map (view sector s) dev b \<and>
        (if dir_map (view sector s) dev b name = None then e = EFBIG \<or> e = ENOSPC else e = EEXIST))"
proof -
  note d = dir_invD [OF D]
  let ?V = "view sector s"
  have nm: "name \<noteq> []" "length name \<le> NAT_NAME_MAX" using name(1) by (simp_all add: names_def)
  obtain r b1 s1 where L: "new_loop rd wr dev name (dir_blocks b) (0, 0) b f s = Some (r, b1, f, s1)" "same_map b b1"
      "file_inv sector has dok dev b1 f s1" "view sector s1 = ?V" "quiet sector has dok s s1"
      "case r of
         Inl e \<Rightarrow> e = EEXIST \<and> slot_in ?V dev b name (dir_blocks b) \<noteq> None
       | Inr fr \<Rightarrow> slot_in ?V dev b name (dir_blocks b) = None \<and>
           (fr = (0, 0) \<or> (\<exists>l \<in> set (dir_blocks b). \<exists>i < NAT_D_PER_BLOCK. fr = (lookup ?V dev b l, i) \<and> d_first_block (dblk ?V dev b l) i = 0))"
    using new_loop_works [OF d(1) dir_blocks_ok [OF D]] by blast
  note S1 = dir_inv_same [OF D L(3,2,4)]
  have F: "file_ok sector has dok dev b f s" using d(1) by (simp add: file_inv_def)
  have sp1: "spares sector has dok dev b f s b1 f s1"
    by (rule spares_map [OF spares_quiet [OF L(5,4)] L(2)])
  show ?thesis
  proof (cases r)
    case (Inl e)
    then have "new_entry rd wr dev EZERO now name fb b f s = Some (EEXIST, b1, f, s1)"
      using L(1,6) d(2) nm by (simp add: new_entry_def dir_blocks_def)
    moreover have "dir_map ?V dev b name \<noteq> None" using L(6) Inl slot_dir_map [of ?V dev b name] by simp
    ultimately show ?thesis using S1 sp1 by auto
  next
    case (Inr fr)
    then have new: "dir_map ?V dev b name = None" using L(6) slot_dir_map [of ?V dev b name] by simp
    have new1: "dir_map (view sector s1) dev b1 name = None" using new S1(2) by simp
    have "fr = (0, 0) \<or> (\<exists>l \<in> set (dir_blocks b). \<exists>i < NAT_D_PER_BLOCK. fr = (lookup ?V dev b l, i) \<and> d_first_block (dblk ?V dev b l) i = 0)"
      using L(6) Inr by simp
    then consider "fr = (0, 0)" | l i where "l < o_size b div BLK_SIZE" "i < NAT_D_PER_BLOCK" "fr = (lookup ?V dev b l, i)" "d_first_block (dblk ?V dev b l) i = 0"
      by (auto simp: dir_blocks_def)
    then show ?thesis
    proof cases
      case 1
      have ne: "new_entry rd wr dev EZERO now name fb b f s = do {
          (r2, b2, f2, s2) \<leftarrow> new_dir_block rd wr dev b1 f s1;
          (case r2 of
             Inl e \<Rightarrow> Some (e, b2, f2, s2)
           | Inr (bb, i) \<Rightarrow> do {
               s3 \<leftarrow> blk_put (Some bb) (upd_blk bb (\<lambda>v. v\<lparr>b_data := put_dirent i name fb (b_data v), b_dirty := True\<rparr>) s2);
               Some (EZERO, b2\<lparr>mtime := now, o_dirty := True\<rparr>, f2, s3)
             })
        }" using L(1) Inr 1 d(2) nm by (simp add: new_entry_def dir_blocks_def)
      from new_dir_block_works [OF S1(1) name new1] show ?thesis
      proof (elim disjE exE conjE, goal_cases)
        case (1 e b' f' s')
        then have "new_entry rd wr dev EZERO now name fb b f s = Some (e, b', f', s')" using ne by simp
        then show ?thesis using 1 new S1(2) spares_trans [OF sp1] by auto
      next
        case (2 e b' f' s')
        then have "new_entry rd wr dev EZERO now name fb b f s = Some (e, b', f', s')" using ne by simp
        then show ?thesis using 2 new S1(2) spares_trans [OF sp1] by auto
      next
        case (3 bb b' f' s2 s')
        let ?b = "b'\<lparr>mtime := now, o_dirty := True\<rparr>"
        have r: "new_entry rd wr dev EZERO now name fb b f s = Some (EZERO, ?b, f', s')" using ne 3(1,2) by simp
        have sm: "same_map b' ?b" by (simp add: same_map_def)
        have I: "file_inv sector has dok dev ?b f' s'" by (rule file_inv_same [OF dir_invD(1) [OF 3(3)]]) simp_all
        note S = dir_inv_same [OF 3(3) I sm refl]
        show ?thesis using r S 3(5) new S1(2) spares_map [OF spares_trans [OF sp1 3(4)] sm] by auto
      qed
    next
      case 2
      have nz: "lookup ?V dev b l \<noteq> 0" by (rule d(5) [OF 2(1)])
      have h: "has (disk s1) dev (lookup ?V dev b l)" "has (disk s) dev (lookup ?V dev b l)"
        using file_ok_live(4) [OF F, of "data_pos b l"] nz quiet_has [OF L(5)] by (simp_all add: lookup_def)
      obtain bb s2 where t: "blk_read rd wr dev (lookup ?V dev b l) s1 = Some (Inr bb, s2)" "took sector has dok dev (lookup ?V dev b l) bb s1 s2"
        using use_took [OF conjunct1 [OF file_inv_ready [OF L(3)]] conjunct2 [OF file_inv_ready [OF L(3)]] h(1)] by blast
      have len: "length (dblk ?V dev b l') = BLK_SIZE" if "l' < o_size b div BLK_SIZE" for l'
        using view_length [OF conjunct1 [OF file_inv_ready [OF d(1)]]] file_ok_live(4) [OF F, of "data_pos b l'"] d(5) [OF that]
        by (simp add: dblk_def lookup_def)
      have lw: "length (put_dirent i name fb (view sector s1 dev (lookup ?V dev b l))) = BLK_SIZE"
        using length_put_dirent [OF len [OF 2(1)] 2(2) name(1)] L(4) by (simp add: dblk_def)
      obtain s3 where s3: "blk_put (Some bb) (upd_blk bb (\<lambda>v. v\<lparr>b_data := put_dirent i name fb (b_data v), b_dirty := True\<rparr>) s2) = Some s3"
          "quiet sector has dok s1 s3"
          "view sector s3 = (view sector s1)(dev := (view sector s1 dev)(lookup ?V dev b l := put_dirent i name fb (view sector s1 dev (lookup ?V dev b l))))"
        using took_store [OF t(2) h(1), of "put_dirent i name fb"] lw by blast
      let ?b = "b1\<lparr>mtime := now, o_dirty := True\<rparr>"
      have r: "new_entry rd wr dev EZERO now name fb b f s = Some (EZERO, ?b, f, s3)"
        using L(1) Inr 2(3) d(2) nm nz t(1) s3(1) by (simp add: new_entry_def dir_blocks_def)
      have lk1: "lookup ?V dev b l = lookup (view sector s1) dev b1 l" using same_map_lookup [OF L(2)] L(4) by simp
      note S = dir_store [OF L(3) nz [unfolded lk1] s3(2) s3(3) [unfolded lk1]]
      have sm: "same_map b1 ?b" by (simp add: same_map_def)
      have I: "file_inv sector has dok dev ?b f s3" by (rule file_inv_same [OF S(1)]) simp_all
      have db: "dblk ?V dev b = dblk (view sector s1) dev b1" unfolding L(4) by (rule ext) (simp add: same_map_dblk [OF L(2)])
      have sz: "o_size b1 = o_size b" "o_mode b1 = o_mode b" using L(2) by (simp_all add: same_map_def)
      have "dir_inv sector has dok dev ?b f s3 \<and> dir_map (view sector s3) dev ?b = (dir_map ?V dev b)(name \<mapsto> fb)"
      proof (rule dir_inv_put [OF D I, where E = "dblk ?V dev b" and m = "o_size b div BLK_SIZE" and n = "o_size b div BLK_SIZE" and k = l and i = i])
        show "o_size ?b = o_size b div BLK_SIZE * BLK_SIZE" using sz d(3) by (simp add: mod_eq_0_iff_dvd)
        fix k assume k: "k < o_size b div BLK_SIZE"
        show "lookup (view sector s3) dev ?b k \<noteq> 0"
          unfolding same_map_lookup [OF sm] S(3) using d(5) [OF k] same_map_lookup [OF L(2)] L(4) by simp
        show "dblk (view sector s3) dev ?b k = ((dblk ?V dev b)(l := put_dirent i name fb (dblk ?V dev b l))) k"
          unfolding same_map_dblk [OF sm] S(4) db by (simp add: dblk_def)
      qed (use len 2 name new d(4) sz in auto)
      then show ?thesis using r new spares_map [OF spares_trans [OF sp1 S(2)] sm] by auto
    qed
  qed
qed

text \<open>
  Finding an entry; \<open>s1\<close> is the state before the buffer of the entry was taken.
\<close>

lemma find_entry_works:
  assumes D: "dir_inv sector has dok dev b f s"
  shows "\<exists>b' s1. same_map b b' \<and> dir_inv sector has dok dev b' f s1 \<and> view sector s1 = view sector s \<and> quiet sector has dok s s1 \<and>
     (case dir_map (view sector s) dev b name of
        None \<Rightarrow> find_entry rd wr dev EZERO name b f s = Some (Inl ENOENT, b', f, s1)
      | Some fb \<Rightarrow> \<exists>l i bb s'. find_entry rd wr dev EZERO name b f s = Some (Inr (bb, i), b', f, s') \<and>
          l < o_size b div BLK_SIZE \<and> i < NAT_D_PER_BLOCK \<and> d_is name (dblk (view sector s) dev b l) i \<and>
          took sector has dok dev (lookup (view sector s) dev b l) bb s1 s' \<and> unat (d_first_block (b_data (blk s' bb)) i) = fb)"
proof -
  note d = dir_invD [OF D]
  let ?V = "view sector s"
  have fe: "find_entry rd wr dev EZERO name b f s = find_loop rd wr dev name (dir_blocks b) b f s" using d(2) by (simp add: find_entry_def dir_blocks_def)
  obtain b' s1 where L: "same_map b b'" "file_inv sector has dok dev b' f s1" "view sector s1 = ?V" "quiet sector has dok s s1"
      "case slot_in ?V dev b name (dir_blocks b) of
         None \<Rightarrow> find_loop rd wr dev name (dir_blocks b) b f s = Some (Inl ENOENT, b', f, s1)
       | Some (l, i) \<Rightarrow> \<exists>bb s'. find_loop rd wr dev name (dir_blocks b) b f s = Some (Inr (bb, i), b', f, s') \<and>
           took sector has dok dev (lookup ?V dev b l) bb s1 s'"
    using find_loop_works [OF d(1) dir_blocks_ok [OF D]] by blast
  note S = dir_inv_same [OF D L(2,1,3)]
  show ?thesis
  proof (cases "slot_in ?V dev b name (dir_blocks b)")
    case None
    then show ?thesis using L S fe slot_dir_map [of ?V dev b name] by (intro exI [of _ b'] exI [of _ s1]) simp
  next
    case (Some p)
    obtain l i where p: "p = (l, i)" by (cases p)
    then obtain bb s' where r: "find_loop rd wr dev name (dir_blocks b) b f s = Some (Inr (bb, i), b', f, s')"
        "took sector has dok dev (lookup ?V dev b l) bb s1 s'" using L(5) Some by auto
    note sl = slot_in_Some [OF Some [unfolded p]]
    have dm: "dir_map ?V dev b name = Some (unat (d_first_block (dblk ?V dev b l) i))" using Some p by (simp add: dir_map_def)
    have "b_data (blk s' bb) = dblk ?V dev b l" using took_data [OF r(2)] L(3) by (simp add: dblk_def)
    then show ?thesis using L(1,3,4) S(1) fe r sl dm
      by (intro exI [of _ b'] exI [of _ s1]) (auto simp: dir_blocks_def)
  qed
qed

text \<open>Removing the entry that has been found.\<close>

lemma clear_dirent_works:
  assumes D: "dir_inv sector has dok dev b f s" and l: "l < o_size b div BLK_SIZE" "i < NAT_D_PER_BLOCK" "d_is name (dblk (view sector s) dev b l) i"
    and t: "took sector has dok dev (lookup (view sector s) dev b l) bb s s1"
  shows "\<exists>s'. blk_put (Some bb) (clear_dirent bb i s1) = Some s' \<and> quiet sector has dok s s' \<and> dir_inv sector has dok dev b f s' \<and>
     spares sector has dok dev b f s b f s' \<and> dir_map (view sector s') dev b = (dir_map (view sector s) dev b)(name := None)"
proof -
  note d = dir_invD [OF D]
  let ?V = "view sector s" and ?n = "lookup (view sector s) dev b l"
  have F: "file_ok sector has dok dev b f s" using d(1) by (simp add: file_inv_def)
  have nz: "?n \<noteq> 0" by (rule d(5) [OF l(1)])
  have h: "has (disk s) dev ?n" using file_ok_live(4) [OF F, of "data_pos b l"] nz by (simp add: lookup_def)
  have len: "length (dblk ?V dev b l) = BLK_SIZE"
    using view_length [OF conjunct1 [OF file_inv_ready [OF d(1)]] h] by (simp add: dblk_def)
  then have lw: "length (zero_dirent i (?V dev ?n)) = BLK_SIZE" using l(2) by (simp add: dblk_def)
  obtain s' where s': "blk_put (Some bb) (clear_dirent bb i s1) = Some s'" "quiet sector has dok s s'"
      "view sector s' = ?V(dev := (?V dev)(?n := zero_dirent i (?V dev ?n)))"
    using took_store [OF t h, of "zero_dirent i"] lw unfolding clear_dirent_def zero_dirent_def by blast
  note S = dir_store [OF d(1) nz s'(2,3)]
  note Z = dent_of_zero [OF d(6) l(1,2) len]
  have db: "dblk (view sector s') dev b = (dblk ?V dev b)(l := zero_dirent i (dblk ?V dev b l))" using S(4) by (simp add: dblk_def)
  have dt: "dent (view sector s') dev b = (dent ?V dev b)((l, i) := None)" unfolding dent_def db by (rule Z(1))
  have old: "dent ?V dev b (l, i) = Some (bytes name, unat (d_first_block (dblk ?V dev b l) i))"
    using l by (simp add: dent_def dent_of_def d_is_def)
  note R = dent_remove [OF d(7) dt old]
  have "dir_inv sector has dok dev b f s'"
    using S(1,3) d(2-5) Z(2) R(1) unfolding dir_inv_def db by simp
  then show ?thesis using s'(1,2) S(2) R(2) by blast
qed

lemma empty_loop_works:
  assumes "file_inv sector has dok dev b f s" and "\<forall>l \<in> set ls. l < 2 ^ 31 \<and> lookup (view sector s) dev b l \<noteq> 0"
  shows "\<exists>b' s'. same_map b b' \<and> file_inv sector has dok dev b' f s' \<and> view sector s' = view sector s \<and> quiet sector has dok s s' \<and>
     empty_loop rd wr dev ls b f s =
       Some (if \<exists>l \<in> set ls. \<exists>i < NAT_D_PER_BLOCK. d_first_block (dblk (view sector s) dev b l) i \<noteq> 0 then ENOTEMPTY else EZERO, b', f, s')"
  using assms
proof (induction ls arbitrary: b s)
  case Nil
  then show ?case using quiet_refl [OF conjunct1 [OF file_inv_ready [OF Nil(1)]]] by (intro exI [of _ b] exI [of _ s]) simp
next
  case (Cons l ls)
  let ?V = "view sector s"
  have l: "l < 2 ^ 31" "lookup ?V dev b l \<noteq> 0" using Cons.prems(2) by auto
  obtain b1 s1 bb s2 where r: "nat_bmap rd wr dev l False b f s = Some (EZERO, b1, f, s1)" "same_map b b1"
      "file_inv sector has dok dev b1 f s1" "view sector s1 = ?V" "quiet sector has dok s s1" "bmap_phys b1 = lookup ?V dev b l"
      "blk_read rd wr dev (bmap_phys b1) s1 = Some (Inr bb, s2)" "took sector has dok dev (lookup ?V dev b l) bb s1 s2"
      "b_data (blk s2 bb) = dblk ?V dev b l"
    using dir_read [OF Cons.prems(1) l] by blast
  obtain s3 where s3: "blk_put (Some bb) s2 = Some s3" "quiet sector has dok s1 s3" "view sector s3 = view sector s1"
    using took_put1 [OF r(8)] by blast
  have V3: "view sector s3 = ?V" using s3(3) r(4) by simp
  have I3: "file_inv sector has dok dev b1 f s3" by (rule file_inv_quiet [OF r(3) s3(2,3)])
  have q3: "quiet sector has dok s s3" by (rule quiet_trans [OF r(5) s3(2)])
  show ?case
  proof (cases "\<exists>i < NAT_D_PER_BLOCK. d_first_block (dblk ?V dev b l) i \<noteq> 0")
    case True
    then have "\<exists>i \<in> set [0..<NAT_D_PER_BLOCK]. d_first_block (b_data (blk s2 bb)) i \<noteq> 0" unfolding r(9) by auto
    then have "empty_loop rd wr dev (l # ls) b f s = Some (ENOTEMPTY, b1, f, s3)" using r(1,7) s3(1) by (simp del: set_upt)
    then show ?thesis using True r(2) I3 V3 q3 by (intro exI [of _ b1] exI [of _ s3]) auto
  next
    case False
    then have "\<not> (\<exists>i \<in> set [0..<NAT_D_PER_BLOCK]. d_first_block (b_data (blk s2 bb)) i \<noteq> 0)" unfolding r(9) by auto
    then have step: "empty_loop rd wr dev (l # ls) b f s = empty_loop rd wr dev ls b1 f s3" using r(1,7) s3(1) by (simp del: set_upt)
    have ls: "\<forall>l \<in> set ls. l < 2 ^ 31 \<and> lookup (view sector s3) dev b1 l \<noteq> 0"
      using Cons.prems(2) V3 same_map_lookup [OF r(2)] by simp
    obtain b' s' where IH: "same_map b1 b'" "file_inv sector has dok dev b' f s'" "view sector s' = view sector s3" "quiet sector has dok s3 s'"
        "empty_loop rd wr dev ls b1 f s3 =
           Some (if \<exists>l \<in> set ls. \<exists>i < NAT_D_PER_BLOCK. d_first_block (dblk (view sector s3) dev b1 l) i \<noteq> 0 then ENOTEMPTY else EZERO, b', f, s')"
      using Cons.IH [OF I3 ls] by blast
    have "(\<exists>m \<in> set (l # ls). \<exists>i < NAT_D_PER_BLOCK. d_first_block (dblk ?V dev b m) i \<noteq> 0) \<longleftrightarrow>
        (\<exists>m \<in> set ls. \<exists>i < NAT_D_PER_BLOCK. d_first_block (dblk (view sector s3) dev b1 m) i \<noteq> 0)"
      unfolding V3 same_map_dblk [OF r(2)] using False by auto
    then show ?thesis unfolding step using IH same_map_trans [OF r(2) IH(1)] V3 quiet_trans [OF q3 IH(4)]
      by (intro exI [of _ b'] exI [of _ s']) simp
  qed
qed

end

section \<open>Directories are maps\<close>

text \<open>
  C19: Adding an entry to a directory never panics. An empty name, a task that may not write to the directory and a name that is too long are
  refused with \<^verbatim>\<open>EEXIST\<close>, the error of the permission check and \<^verbatim>\<open>ENAMETOOLONG\<close>, and nothing changes at all. Otherwise, if the name is not in the
  directory it is added and maps to the header of the file, or the directory or the device is full and no name is added (though a block for them may have
  been); if the name exists the result is \<^verbatim>\<open>EEXIST\<close>. All other names stay. The directory keeps its invariant, and no block in use that is not the
  directory's own changes.
\<close>

theorem new_entry_adds:
  assumes "block_driver rd wr sector has dok" and "dir_inv sector has dok dev b f s" and "CHR 0x00 \<notin> set name" and "0 < fb" and "fb < 2 ^ 32"
  shows "\<exists>e b' f' s'. new_entry rd wr dev perm now name fb b f s = Some (e, b', f', s') \<and> dir_inv sector has dok dev b' f' s' \<and>
     spares sector has dok dev b f s b' f' s' \<and>
     (if name = [] then e = EEXIST \<and> (b', f', s') = (b, f, s)
      else if perm \<noteq> EZERO then e = perm \<and> (b', f', s') = (b, f, s)
      else if length name > NAT_NAME_MAX then e = ENAMETOOLONG \<and> (b', f', s') = (b, f, s)
      else if e = EZERO then dir_map (view sector s) dev b name = None \<and> dir_map (view sector s') dev b' = (dir_map (view sector s) dev b)(name \<mapsto> fb)
      else dir_map (view sector s') dev b' = dir_map (view sector s) dev b \<and>
        (if dir_map (view sector s) dev b name = None then e = EFBIG \<or> e = ENOSPC else e = EEXIST))"
proof (cases "name = [] \<or> perm \<noteq> EZERO \<or> length name > NAT_NAME_MAX")
  case True
  have "o_mode b AND S_IFMT = S_IFDIR" "spares sector has dok dev b f s b f s"
    using block_driver.dir_invD(1,2) [OF assms(1,2)] spares_refl block_driver.file_inv_ready [OF assms(1)] by blast+
  then show ?thesis using True assms(2) by (auto simp: new_entry_def)
next
  case False
  then have n: "name \<in> names" using assms(3) by (auto simp: names_def)
  show ?thesis using block_driver.new_entry_works [OF assms(1,2) n assms(4,5)] False by simp
qed

text \<open>
  Looking up a name that is not in a directory gives \<^verbatim>\<open>ENOENT\<close>; otherwise the entry found holds the header number that the name maps to,
  and when it is cleared and its buffer let go, as the operations that remove names do, exactly this name is gone from the directory and nobody else's block has changed.
\<close>

theorem find_entry_remove:
  assumes "block_driver rd wr sector has dok" and "dir_inv sector has dok dev b f s"
  shows "case dir_map (view sector s) dev b name of
       None \<Rightarrow> \<exists>b' s'. find_entry rd wr dev EZERO name b f s = Some (Inl ENOENT, b', f, s') \<and> dir_inv sector has dok dev b' f s' \<and>
         view sector s' = view sector s
     | Some fb \<Rightarrow> \<exists>bb i b' s1 s2. find_entry rd wr dev EZERO name b f s = Some (Inr (bb, i), b', f, s1) \<and>
         unat (d_first_block (b_data (blk s1 bb)) i) = fb \<and> view sector s1 = view sector s \<and>
         blk_put (Some bb) (clear_dirent bb i s1) = Some s2 \<and> dir_inv sector has dok dev b' f s2 \<and> quiet sector has dok s s2 \<and>
         spares sector has dok dev b f s b' f s2 \<and> dir_map (view sector s2) dev b' = (dir_map (view sector s) dev b)(name := None)"
proof -
  let ?V = "view sector s"
  obtain b' s1 where L: "same_map b b'" "dir_inv sector has dok dev b' f s1" "view sector s1 = ?V" "quiet sector has dok s s1"
      "case dir_map ?V dev b name of
        None \<Rightarrow> find_entry rd wr dev EZERO name b f s = Some (Inl ENOENT, b', f, s1)
      | Some fb \<Rightarrow> \<exists>l i bb s'. find_entry rd wr dev EZERO name b f s = Some (Inr (bb, i), b', f, s') \<and>
          l < o_size b div BLK_SIZE \<and> i < NAT_D_PER_BLOCK \<and> d_is name (dblk ?V dev b l) i \<and>
          took sector has dok dev (lookup ?V dev b l) bb s1 s' \<and> unat (d_first_block (b_data (blk s' bb)) i) = fb"
    using block_driver.find_entry_works [OF assms] by blast
  have e: "dir_map (view sector s1) dev b' = dir_map ?V dev b"
    by (rule block_driver.dir_inv_same(2) [OF assms block_driver.dir_invD(1) [OF assms(1) L(2)] L(1,3)])
  show ?thesis
  proof (cases "dir_map ?V dev b name")
    case None
    then show ?thesis using L by auto
  next
    case (Some fb)
    then obtain l i bb s' where r: "find_entry rd wr dev EZERO name b f s = Some (Inr (bb, i), b', f, s')"
        "l < o_size b div BLK_SIZE" "i < NAT_D_PER_BLOCK" "d_is name (dblk ?V dev b l) i"
        "took sector has dok dev (lookup ?V dev b l) bb s1 s'" "unat (d_first_block (b_data (blk s' bb)) i) = fb"
      using L(5) by auto
    have sz: "o_size b' = o_size b" using L(1) by (simp add: same_map_def)
    obtain s2 where c: "blk_put (Some bb) (clear_dirent bb i s') = Some s2" "quiet sector has dok s1 s2" "dir_inv sector has dok dev b' f s2"
        "spares sector has dok dev b' f s1 b' f s2" "dir_map (view sector s2) dev b' = (dir_map (view sector s1) dev b')(name := None)"
      using block_driver.clear_dirent_works [OF assms(1) L(2), of l i name bb s'] r(2-5) sz
      unfolding L(3) same_map_dblk [OF L(1)] same_map_lookup [OF L(1)] by auto
    have "view sector s' = ?V" using r(5) L(3) by (simp add: took_def)
    moreover have "spares sector has dok dev b f s b' f s2"
      by (rule spares_trans [OF spares_map [OF spares_quiet [OF L(4,3)] L(1)] c(4)])
    ultimately show ?thesis using Some r(1,6) c(1,3) quiet_trans [OF L(4) c(2)] c(5) e by auto
  qed
qed

end
