(* ===== verification/Nat_Path.thy ===== *)
theory Nat_Path
  imports Nat_Dir
begin

text \<open>
  Paths of the native file system (\<^verbatim>\<open>src/kern/fs/nat/dir.c\<close>, \<^verbatim>\<open>fso.c\<close>): the operations that the kernel calls for a path, on the table of in-core
  objects of \<open>Fs_File\<close>. A path has no leading slash; it is empty for the root directory of the file system.

  \<open>nstate\<close> extends the state of the kernel with the part \<^verbatim>\<open>nat\<close> of every object and of every mounted file system, and with the block cache.
  The drivers \<open>rd\<close> and \<open>wr\<close>, the time \<open>now\<close> and the result \<open>atmem\<close> of \<^verbatim>\<open>pg_atmem\<close> are parameters.
\<close>

section \<open>Objects in the table\<close>

type_synonym nat_part = "unit nat_fso_ext"

record 'd nstate = fstate +
  nat_ext :: "nat \<Rightarrow> nat_part"
  nat_of :: "nat \<Rightarrow> nat_fs"
  bufs :: "'d bcache"

type_synonym 'd nres = "(errno \<times> 'd nstate) option"

definition nat_obj :: "'d nstate \<Rightarrow> nat \<Rightarrow> nat_fso" where
  "nat_obj s i = fso.extend (fs_fso s i) (nat_ext s i)"

definition put_obj :: "nat \<Rightarrow> nat_fso \<Rightarrow> 'd nstate \<Rightarrow> 'd nstate" where
  "put_obj i b s = s\<lparr>fs_fso := (fs_fso s)(i := fso.truncate b), nat_ext := (nat_ext s)(i := fso.more b)\<rparr>"

definition zero_part :: nat_part where
  "zero_part = fso.more (fso.extend zero_fso (nat_fso.fields False 0 0 (replicate NBMAP 0) 0 0))"

text \<open>The number and the device of the file system of an object.\<close>

definition obj_fs :: "'d nstate \<Rightarrow> nat \<Rightarrow> (nat \<times> nat) option" where
  "obj_fs s i = (case o_fs (fs_fso s i) of
     PipeFs \<Rightarrow> None
   | Fs k \<Rightarrow> if k < length (fs_fs s) then map_option (Pair k) (fs_dev (fs_fs s ! k)) else None)"

definition on_obj ::
    "nat \<Rightarrow> (nat \<Rightarrow> nat_fso \<Rightarrow> nat_fs \<Rightarrow> 'd bcache \<Rightarrow> ('r \<times> nat_fso \<times> nat_fs \<times> 'd bcache) option) \<Rightarrow> 'd nstate \<Rightarrow> ('r \<times> 'd nstate) option" where
  "on_obj i g s = do {
     (k, dev) \<leftarrow> obj_fs s i;
     (r, b, f, c) \<leftarrow> g dev (nat_obj s i) (nat_of s k) (bufs s);
     Some (r, (put_obj i b s)\<lparr>nat_of := (nat_of s)(k := f), bufs := c\<rparr>)
   }"

definition on_bufs :: "('d bcache \<Rightarrow> 'd bcache option) \<Rightarrow> 'd nstate \<Rightarrow> 'd nstate option" where
  "on_bufs g s = do { c \<leftarrow> g (bufs s); Some (s\<lparr>bufs := c\<rparr>) }"

text \<open>The whole of \<^verbatim>\<open>nat_getfso\<close>, on an object that \<^verbatim>\<open>fs_getfso\<close> has just cleared.\<close>

definition nat_getfso :: "'d drv_read \<Rightarrow> 'd drv_write \<Rightarrow> nat \<Rightarrow> 'd nstate \<Rightarrow> 'd nres" where
  "nat_getfso rd wr i s = do {
     (e, s1) \<leftarrow> on_obj i (\<lambda>dev b f c. do {
         (e, b1, c1) \<leftarrow> getfso_hdr rd wr dev (insecure (fs_of s (fs_fso s i))) b c; Some (e, b1, f, c1) })
       (s\<lparr>nat_ext := (nat_ext s)(i := zero_part)\<rparr>);
     if e \<noteq> EZERO then Some (e, s1)
     else do { s2 \<leftarrow> fs_state i (R_OK OR W_OK) s1; Some (EZERO, s2) }
   }"

definition natfs_putfso :: "'d drv_read \<Rightarrow> 'd drv_write \<Rightarrow> nat \<Rightarrow> 'd nstate \<Rightarrow> 'd nstate option" where
  "natfs_putfso rd wr i s = map_option snd (on_obj i (\<lambda>dev. nat_putfso rd wr dev (insecure (fs_of s (fs_fso s i)))) s)"

definition getobj :: "'d drv_read \<Rightarrow> 'd drv_write \<Rightarrow> errno \<Rightarrow> nat \<Rightarrow> nat \<Rightarrow> 'd nstate \<Rightarrow> ((errno + nat) \<times> 'd nstate) option" where
  "getobj rd wr atmem k index s = fs_getfso (nat_getfso rd wr) atmem (Fs k) (int index) s"

definition putobj :: "'d drv_read \<Rightarrow> 'd drv_write \<Rightarrow> nat option \<Rightarrow> 'd nstate \<Rightarrow> 'd nstate option" where
  "putobj rd wr io s = fs_putfso (natfs_putfso rd wr) io s"

definition nat_chk_perm :: "nat \<Rightarrow> 32 word \<Rightarrow> int \<Rightarrow> int \<Rightarrow> 'd nstate \<Rightarrow> errno" where
  "nat_chk_perm i mode uid gid s = EZERO"

definition perm :: "nat \<Rightarrow> 32 word \<Rightarrow> 'd nstate \<Rightarrow> errno option" where
  "perm i mode s = do { c \<leftarrow> curr s; Some (fs_chk_perm nat_chk_perm i mode (euid (tsk s c)) (egid (tsk s c)) s) }"

definition find_obj :: "'d drv_read \<Rightarrow> 'd drv_write \<Rightarrow> nat \<Rightarrow> string \<Rightarrow> 'd nstate \<Rightarrow> ((errno + nat \<times> nat) \<times> 'd nstate) option" where
  "find_obj rd wr i name s = do { p \<leftarrow> perm i X_OK s; on_obj i (\<lambda>dev. find_entry rd wr dev p name) s }"

definition new_obj :: "'d drv_read \<Rightarrow> 'd drv_write \<Rightarrow> int \<Rightarrow> nat \<Rightarrow> string \<Rightarrow> nat \<Rightarrow> 'd nstate \<Rightarrow> 'd nres" where
  "new_obj rd wr now i name fb s = do { p \<leftarrow> perm i (X_OK OR W_OK) s; on_obj i (\<lambda>dev. new_entry rd wr dev p now name fb) s }"

definition empty_obj :: "'d drv_read \<Rightarrow> 'd drv_write \<Rightarrow> nat \<Rightarrow> 'd nstate \<Rightarrow> 'd nres" where
  "empty_obj rd wr i s = on_obj i (\<lambda>dev. is_empty rd wr dev) s"

text \<open>The header number in the entry \<open>j\<close> of the buffer \<open>bb\<close>.\<close>

definition dent_block :: "nat \<times> nat \<Rightarrow> 'd nstate \<Rightarrow> nat" where
  "dent_block d s = unat (d_first_block (b_data (blk (bufs s) (fst d))) (snd d))"

section \<open>Looking up paths\<close>

definition basename :: "string \<Rightarrow> string" where
  "basename path = rev (takeWhile (\<lambda>c. c \<noteq> slash) (rev path))"

text \<open>
  The loop of \<^verbatim>\<open>nat_lookup_dir\<close> from the directory \<open>dir\<close> on; the result is the directory that holds the last component. When a
  component is too long the function returns the value that \<^verbatim>\<open>err\<close> happens to have, which is 0, and no directory: \<open>Inr None\<close>.
\<close>

function lookup_loop ::
    "'d drv_read \<Rightarrow> 'd drv_write \<Rightarrow> errno \<Rightarrow> nat \<Rightarrow> nat \<Rightarrow> string \<Rightarrow> 'd nstate \<Rightarrow> ((errno + nat option) \<times> 'd nstate) option" where
  "lookup_loop rd wr atmem k dir p s =
     (if slash \<notin> set p then Some (Inr (Some dir), s)
      else let name = takeWhile (\<lambda>c. c \<noteq> slash) p in
        if length name > NAT_NAME_MAX then do { s1 \<leftarrow> putobj rd wr (Some dir) s; Some (Inr None, s1) }
        else do {
          (r, s1) \<leftarrow> find_obj rd wr dir name s;
          s2 \<leftarrow> putobj rd wr (Some dir) s1;
          (case r of
             Inl e \<Rightarrow> Some (Inl e, s2)
           | Inr d \<Rightarrow> do {
               (r2, s3) \<leftarrow> getobj rd wr atmem k (dent_block d s2) s2;
               s4 \<leftarrow> on_bufs (blk_put (Some (fst d))) s3;
               (case r2 of
                  Inl e \<Rightarrow> Some (Inl e, s4)
                | Inr dir2 \<Rightarrow> lookup_loop rd wr atmem k dir2 (tl (dropWhile (\<lambda>c. c \<noteq> slash) p)) s4)
             })
        })"
  by pat_completeness auto

lemma rest_less: "slash \<in> set p \<Longrightarrow> length (dropWhile (\<lambda>c. c \<noteq> slash) p) - Suc 0 < length p"
  using length_dropWhile_le [of "\<lambda>c. c \<noteq> slash" p] by (cases p) (auto simp: less_Suc_eq_le le_diff_conv)

termination lookup_loop
  by (relation "measure (\<lambda>(rd, wr, atmem, k, dir, p, s). length p)") (auto simp: rest_less)

declare lookup_loop.simps [simp del]

definition nat_lookup_dir ::
    "'d drv_read \<Rightarrow> 'd drv_write \<Rightarrow> errno \<Rightarrow> nat \<Rightarrow> string \<Rightarrow> 'd nstate \<Rightarrow> ((errno + nat option) \<times> 'd nstate) option" where
  "nat_lookup_dir rd wr atmem k path s = do {
     (r, s1) \<leftarrow> getobj rd wr atmem k (root_block (nat_of s k)) s;
     (case r of
        Inl e \<Rightarrow> Some (Inl e, s1)
      | Inr dir \<Rightarrow> lookup_loop rd wr atmem k dir path s1)
   }"

text \<open>
  The callers use the directory whenever the result is 0; without one they read a pointer that has not been set, which is \<open>None\<close> here.
\<close>

definition with_dir ::
    "'d drv_read \<Rightarrow> 'd drv_write \<Rightarrow> errno \<Rightarrow> nat \<Rightarrow> string \<Rightarrow> (errno \<Rightarrow> 'd nstate \<Rightarrow> 'a) \<Rightarrow> (nat \<Rightarrow> 'd nstate \<Rightarrow> 'a option) \<Rightarrow> 'd nstate \<Rightarrow> 'a option" where
  "with_dir rd wr atmem k path err use s = do {
     (r, s1) \<leftarrow> nat_lookup_dir rd wr atmem k path s;
     (case r of Inl e \<Rightarrow> Some (err e s1) | Inr None \<Rightarrow> None | Inr (Some dir) \<Rightarrow> use dir s1)
   }"

definition nat_lookup :: "'d drv_read \<Rightarrow> 'd drv_write \<Rightarrow> errno \<Rightarrow> nat \<Rightarrow> string \<Rightarrow> 'd nstate \<Rightarrow> ((errno + nat) \<times> 'd nstate) option" where
  "nat_lookup rd wr atmem k path s = with_dir rd wr atmem k path (\<lambda>e s. (Inl e, s))
     (\<lambda>dir s1.
        if basename path = [] then Some (Inr dir, s1)
        else do {
          (r, s2) \<leftarrow> find_obj rd wr dir (basename path) s1;
          s3 \<leftarrow> putobj rd wr (Some dir) s2;
          (case r of
             Inl e \<Rightarrow> Some (Inl e, s3)
           | Inr d \<Rightarrow> do {
               (r2, s4) \<leftarrow> getobj rd wr atmem k (dent_block d s3) s3;
               s5 \<leftarrow> on_bufs (blk_put (Some (fst d))) s4;
               Some (r2, s5)
             })
        }) s"

section \<open>Changing directories\<close>

definition new_hdr :: "int \<Rightarrow> int \<Rightarrow> int \<Rightarrow> 32 word \<Rightarrow> int \<Rightarrow> nat_fs \<Rightarrow> 8 word list" where
  "new_hdr now uid gid mode rdev f =
     (let h1 = put64 4 (word_of_int now) (put64 0 (word_of_int now) (put64 2 (word_of_int now) zeros));
          h2 = put32 9 mode (put32 7 (word_of_int gid) (put32 6 (word_of_int uid) h1));
          h3 = put32 12 (word_of_int rdev) (put32 11 1 (put32 10 1 h2))
      in h3[52 := word_of_nat (fs_ndirblks f), 53 := word_of_nat (fs_nindirlev f)])"

text \<open>An operation on the map of the file system \<open>k\<close>.\<close>

definition on_fs :: "nat \<Rightarrow> (nat \<Rightarrow> nat_fs \<Rightarrow> 'd bcache \<Rightarrow> ('r \<times> nat_fs \<times> 'd bcache) option) \<Rightarrow> 'd nstate \<Rightarrow> ('r \<times> 'd nstate) option" where
  "on_fs k g s = do {
     dev \<leftarrow> fs_dev (fs_fs s ! k);
     (r, f, c) \<leftarrow> g dev (nat_of s k) (bufs s);
     Some (r, s\<lparr>nat_of := (nat_of s)(k := f), bufs := c\<rparr>)
   }"

text \<open>The header of the new file is written before the file gets its name.\<close>

definition put_hdr :: "'d drv_write \<Rightarrow> nat \<Rightarrow> nat \<Rightarrow> 8 word list \<Rightarrow> 'd nstate \<Rightarrow> 'd nres" where
  "put_hdr wr k n h s = do {
     dev \<leftarrow> fs_dev (fs_fs s ! k);
     (r, c) \<leftarrow> blk_get wr dev n (bufs s);
     (case r of
        Inl e \<Rightarrow> Some (e, s\<lparr>bufs := c\<rparr>)
      | Inr bb \<Rightarrow> do {
          c1 \<leftarrow> blk_put (Some bb) (upd_blk bb (\<lambda>v. v\<lparr>b_data := h, b_dirty := True, b_valid := True\<rparr>) c);
          Some (EZERO, s\<lparr>bufs := c1\<rparr>)
        })
   }"

definition nat_creat ::
    "'d drv_read \<Rightarrow> 'd drv_write \<Rightarrow> errno \<Rightarrow> int \<Rightarrow> nat \<Rightarrow> string \<Rightarrow> 32 word \<Rightarrow> int \<Rightarrow> 'd nstate \<Rightarrow> ((errno + nat) \<times> 'd nstate) option" where
  "nat_creat rd wr atmem now k path mode rdev s = with_dir rd wr atmem k path (\<lambda>e s. (Inl e, s))
     (\<lambda>dir s1. do {
        p \<leftarrow> perm dir W_OK s1;
        if p \<noteq> EZERO then do { s2 \<leftarrow> putobj rd wr (Some dir) s1; Some (Inl p, s2) }
        else do {
          (r, s2) \<leftarrow> on_fs k (nat_balloc rd wr) s1;
          (case r of
             Inl e \<Rightarrow> do { s3 \<leftarrow> putobj rd wr (Some dir) s2; Some (Inl e, s3) }
           | Inr n \<Rightarrow> do {
               c \<leftarrow> curr s2;
               (e, s3) \<leftarrow> put_hdr wr k n (new_hdr now (euid (tsk s2 c)) (egid (tsk s2 c)) mode rdev (nat_of s2 k)) s2;
               if e \<noteq> EZERO then do {
                 (_, s4) \<leftarrow> on_fs k (\<lambda>dev. nat_bfree rd wr dev n) s3;
                 s5 \<leftarrow> putobj rd wr (Some dir) s4;
                 Some (Inl e, s5)
               }
               else do {
                 (e, s4) \<leftarrow> new_obj rd wr now dir (basename path) n s3;
                 s5 \<leftarrow> putobj rd wr (Some dir) s4;
                 if e \<noteq> EZERO then do { (_, s6) \<leftarrow> on_fs k (\<lambda>dev. nat_bfree rd wr dev n) s5; Some (Inl e, s6) }
                 else getobj rd wr atmem k n s5
               }
             })
        }
      }) s"

definition set_dirty :: "nat \<Rightarrow> (fso \<Rightarrow> fso) \<Rightarrow> 'd nstate \<Rightarrow> 'd nstate" where
  "set_dirty i g s = upd_fso i (\<lambda>o'. (g o')\<lparr>o_dirty := True\<rparr>) s"

definition nat_link :: "'d drv_read \<Rightarrow> 'd drv_write \<Rightarrow> errno \<Rightarrow> int \<Rightarrow> nat \<Rightarrow> string \<Rightarrow> 'd nstate \<Rightarrow> 'd nres" where
  "nat_link rd wr atmem now i path s = do {
     (k, _) \<leftarrow> obj_fs s i;
     if o_mode (fs_fso s i) AND S_IFMT = S_IFDIR then Some (EISDIR, s)
     else with_dir rd wr atmem k path Pair
       (\<lambda>dir s1. do {
          (e, s2) \<leftarrow> new_obj rd wr now dir (basename path) (nat (o_index (fs_fso s1 i))) s1;
          s3 \<leftarrow> putobj rd wr (Some dir) s2;
          Some (if e \<noteq> EZERO then (e, s3)
                else (EZERO, set_dirty i (\<lambda>o'. o'\<lparr>ctime := now, nlink := (nlink o' + 1) mod 2 ^ 32\<rparr>) s3))
        }) s
   }"

text \<open>Removing the entry \<open>d\<close> and letting its buffer go.\<close>

definition clear_put :: "nat \<times> nat \<Rightarrow> 'd nstate \<Rightarrow> 'd nstate option" where
  "clear_put d s = on_bufs (\<lambda>c. blk_put (Some (fst d)) (clear_dirent (fst d) (snd d) c)) s"

definition unlink_one :: "fso \<Rightarrow> fso" where
  "unlink_one o' = o'\<lparr>nlink := (nlink o' - 1) mod 2 ^ 32\<rparr>"

definition nat_unlink :: "'d drv_read \<Rightarrow> 'd drv_write \<Rightarrow> errno \<Rightarrow> int \<Rightarrow> nat \<Rightarrow> string \<Rightarrow> 'd nstate \<Rightarrow> 'd nres" where
  "nat_unlink rd wr atmem now k path s = with_dir rd wr atmem k path Pair
     (\<lambda>dir s1. do {
        p \<leftarrow> perm dir (X_OK OR W_OK) s1;
        if p \<noteq> EZERO then do { s2 \<leftarrow> putobj rd wr (Some dir) s1; Some (p, s2) }
        else do {
          (r, s2) \<leftarrow> find_obj rd wr dir (basename path) s1;
          (case r of
             Inl e \<Rightarrow> do { s3 \<leftarrow> putobj rd wr (Some dir) s2; Some (e, s3) }
           | Inr d \<Rightarrow> do {
               (r2, s3) \<leftarrow> getobj rd wr atmem k (dent_block d s2) s2;
               (case r2 of
                  Inl e \<Rightarrow> do {
                    s4 \<leftarrow> on_bufs (blk_put (Some (fst d))) s3;
                    s5 \<leftarrow> putobj rd wr (Some dir) s4;
                    Some (e, s5)
                  }
                | Inr f \<Rightarrow>
                    if o_mode (fs_fso s3 f) AND S_IFMT = S_IFDIR then do {
                      s4 \<leftarrow> on_bufs (blk_put (Some (fst d))) s3;
                      s5 \<leftarrow> putobj rd wr (Some dir) s4;
                      s6 \<leftarrow> putobj rd wr (Some f) s5;
                      Some (EISDIR, s6)
                    }
                    else do {
                      s4 \<leftarrow> clear_put d s3;
                      s5 \<leftarrow> putobj rd wr (Some dir) (set_dirty dir (mtime_update (\<lambda>_. now)) (set_dirty f unlink_one s4));
                      s6 \<leftarrow> putobj rd wr (Some f) s5;
                      Some (EZERO, s6)
                    })
             })
        }
      }) s"

definition nat_chdir :: "'d drv_read \<Rightarrow> 'd drv_write \<Rightarrow> errno \<Rightarrow> nat \<Rightarrow> string \<Rightarrow> 'd nstate \<Rightarrow> 'd nres" where
  "nat_chdir rd wr atmem k path s = do {
     (r, s1) \<leftarrow> nat_lookup rd wr atmem k path s;
     (case r of
        Inl e \<Rightarrow> Some (e, s1)
      | Inr dir \<Rightarrow>
          if o_mode (fs_fso s1 dir) AND S_IFMT \<noteq> S_IFDIR then do { s2 \<leftarrow> putobj rd wr (Some dir) s1; Some (ENOTDIR, s2) }
          else do {
            p \<leftarrow> perm dir X_OK s1;
            s2 \<leftarrow> putobj rd wr (Some dir) s1;
            Some (p, s2)
          })
   }"

abbreviation (input) S_IRIGHTS :: "32 word" where "S_IRIGHTS \<equiv> 0xfff"

definition nat_mkdir :: "'d drv_read \<Rightarrow> 'd drv_write \<Rightarrow> errno \<Rightarrow> int \<Rightarrow> nat \<Rightarrow> string \<Rightarrow> 32 word \<Rightarrow> 'd nstate \<Rightarrow> 'd nres" where
  "nat_mkdir rd wr atmem now k path mode s = do {
     (r, s1) \<leftarrow> nat_creat rd wr atmem now k path (S_IFDIR OR (mode AND S_IRIGHTS)) 0 s;
     (case r of
        Inl e \<Rightarrow> Some (e, s1)
      | Inr dir \<Rightarrow> do { s2 \<leftarrow> putobj rd wr (Some dir) s1; Some (EZERO, s2) })
   }"

definition nat_rmdir :: "'d drv_read \<Rightarrow> 'd drv_write \<Rightarrow> errno \<Rightarrow> int \<Rightarrow> nat \<Rightarrow> string \<Rightarrow> 'd nstate \<Rightarrow> 'd nres" where
  "nat_rmdir rd wr atmem now k path s = with_dir rd wr atmem k path Pair
     (\<lambda>parent s1. do {
        p \<leftarrow> perm parent (X_OK OR W_OK) s1;
        if p \<noteq> EZERO then do { s2 \<leftarrow> putobj rd wr (Some parent) s1; Some (p, s2) }
        else do {
          (r, s2) \<leftarrow> nat_lookup rd wr atmem k path s1;
          (case r of
             Inl e \<Rightarrow> do { s3 \<leftarrow> putobj rd wr (Some parent) s2; Some (e, s3) }
           | Inr dir \<Rightarrow> do {
               (e, s3) \<leftarrow> empty_obj rd wr dir s2;
               if e \<noteq> EZERO then do {
                 s4 \<leftarrow> putobj rd wr (Some parent) s3;
                 s5 \<leftarrow> putobj rd wr (Some dir) s4;
                 Some (e, s5)
               }
               else do {
                 (r2, s4) \<leftarrow> find_obj rd wr parent (basename path) s3;
                 (case r2 of
                    Inl e \<Rightarrow> do {
                      s5 \<leftarrow> putobj rd wr (Some parent) s4;
                      s6 \<leftarrow> putobj rd wr (Some dir) s5;
                      Some (e, s6)
                    }
                  | Inr d \<Rightarrow> do {
                      s5 \<leftarrow> clear_put d (set_dirty parent (mtime_update (\<lambda>_. now)) s4);
                      s6 \<leftarrow> putobj rd wr (Some parent) (set_dirty dir unlink_one s5);
                      s7 \<leftarrow> putobj rd wr (Some dir) s6;
                      Some (EZERO, s7)
                    })
               }
             })
        }
      }) s"

section \<open>Renaming\<close>

text \<open>
  The label \<^verbatim>\<open>clean\<close> of \<^verbatim>\<open>nat_rename\<close>: everything that has been taken is let go. The buffer \<open>d\<close> and the directories \<open>od\<close>, \<open>nd\<close> may be missing.
\<close>

definition rename_clean :: "'d drv_read \<Rightarrow> 'd drv_write \<Rightarrow> (nat \<times> nat) option \<Rightarrow> nat option \<Rightarrow> nat option \<Rightarrow> errno \<Rightarrow> 'd nstate \<Rightarrow> 'd nres" where
  "rename_clean rd wr d od nd e s = do {
     s1 \<leftarrow> on_bufs (blk_put (map_option fst d)) s;
     s2 \<leftarrow> putobj rd wr od s1;
     s3 \<leftarrow> putobj rd wr nd s2;
     Some (e, s3)
   }"

text \<open>The new name exists: its file loses a link, and the entry gets the header number of the entry \<open>d\<close>.\<close>

definition rename_over ::
    "'d drv_read \<Rightarrow> 'd drv_write \<Rightarrow> errno \<Rightarrow> nat \<Rightarrow> nat \<Rightarrow> string \<Rightarrow> nat \<times> nat \<Rightarrow> 'd nstate \<Rightarrow> 'd nres" where
  "rename_over rd wr atmem k nd name d s = do {
     (r, s1) \<leftarrow> find_obj rd wr nd name s;
     (case r of
        Inl e \<Rightarrow> Some (e, s1)
      | Inr n \<Rightarrow> do {
          (r2, s2) \<leftarrow> getobj rd wr atmem k (dent_block n s1) s1;
          (case r2 of
             Inl e \<Rightarrow> do { s3 \<leftarrow> on_bufs (blk_put (Some (fst n))) s2; Some (e, s3) }
           | Inr f \<Rightarrow> do {
               (e, s3) \<leftarrow> (if o_mode (fs_fso s2 f) AND S_IFMT = S_IFDIR then empty_obj rd wr f s2 else Some (EZERO, s2));
               if e \<noteq> EZERO then do {
                 s4 \<leftarrow> on_bufs (blk_put (Some (fst n))) s3;
                 s5 \<leftarrow> putobj rd wr (Some f) s4;
                 Some (e, s5)
               }
               else do {
                 s4 \<leftarrow> putobj rd wr (Some f) (set_dirty f unlink_one s3);
                 s5 \<leftarrow> on_bufs (\<lambda>c. blk_put (Some (fst n))
                        (upd_blk (fst n) (\<lambda>v. v\<lparr>b_data := put_dirent (snd n) name (dent_block d s4) (b_data v), b_dirty := True\<rparr>) c)) s4;
                 Some (EZERO, s5)
               }
             })
        })
   }"

text \<open>
  The last part of \<^verbatim>\<open>nat_rename\<close>, with the entry \<open>d\<close> of the old name: only the branch for \<^verbatim>\<open>EEXIST\<close> leaves with an error, after any other error
  of \<^verbatim>\<open>new_entry\<close> the old entry is cleared as after success.
\<close>

definition rename_move ::
    "'d drv_read \<Rightarrow> 'd drv_write \<Rightarrow> errno \<Rightarrow> int \<Rightarrow> nat \<Rightarrow> nat \<Rightarrow> nat \<Rightarrow> string \<Rightarrow> nat \<times> nat \<Rightarrow> 'd nstate \<Rightarrow> 'd nres" where
  "rename_move rd wr atmem now k od nd name d s = do {
     (e, s1) \<leftarrow> new_obj rd wr now nd name (dent_block d s) s;
     (e1, s2) \<leftarrow> (if e = EEXIST then rename_over rd wr atmem k nd name d s1 else Some (e, s1));
     if e = EEXIST \<and> e1 \<noteq> EZERO then rename_clean rd wr (Some d) (Some od) (Some nd) e1 s2
     else do {
       s3 \<leftarrow> on_bufs (\<lambda>c. Some (clear_dirent (fst d) (snd d) c)) s2;
       rename_clean rd wr (Some d) (Some od) (Some nd) e1
         (set_dirty nd (mtime_update (\<lambda>_. now)) (set_dirty od (mtime_update (\<lambda>_. now)) s3))
     }
   }"

definition nat_rename :: "'d drv_read \<Rightarrow> 'd drv_write \<Rightarrow> errno \<Rightarrow> int \<Rightarrow> nat \<Rightarrow> string \<Rightarrow> string \<Rightarrow> 'd nstate \<Rightarrow> 'd nres" where
  "nat_rename rd wr atmem now k oldname newname s =
     (if oldname = newname then Some (EINVAL, s)
      else if length newname > length oldname \<and> newname ! length oldname = slash \<and> take (length oldname) newname = oldname then Some (EINVAL, s)
      else with_dir rd wr atmem k oldname Pair
        (\<lambda>od s1. do {
           p \<leftarrow> perm od (X_OK OR W_OK) s1;
           if p \<noteq> EZERO then rename_clean rd wr None (Some od) None p s1
           else do {
             (r, s2) \<leftarrow> nat_lookup_dir rd wr atmem k newname s1;
             (case r of
                Inl e \<Rightarrow> rename_clean rd wr None (Some od) None e s2
              | Inr None \<Rightarrow> None
              | Inr (Some nd) \<Rightarrow> do {
                  p \<leftarrow> perm nd W_OK s2;
                  if p \<noteq> EZERO then rename_clean rd wr None (Some od) (Some nd) p s2
                  else do {
                    (r2, s3) \<leftarrow> find_obj rd wr od (basename oldname) s2;
                    (case r2 of
                       Inl e \<Rightarrow> rename_clean rd wr None (Some od) (Some nd) e s3
                     | Inr d \<Rightarrow> rename_move rd wr atmem now k od nd (basename newname) d s3)
                  }
                })
           }
         }) s)"

end
