(* ===== verification/Nat_Lookup.thy ===== *)
theory Nat_Lookup
  imports Nat_Path
begin

text \<open>
  Looking up a path in the native file system. The meaning of a path is defined on the contents of the blocks alone: the headers say which
  files are directories, and a directory maps names to headers. The code gets there through the table of in-core objects, the caches
  of the objects and the block cache; the theorem says that it finds what the path means, and that it lets go of every object and
  buffer it has taken on the way.
\<close>

section \<open>The meaning of a path\<close>

text \<open>The file that a header describes.\<close>

definition hobj :: "contents \<Rightarrow> nat \<Rightarrow> nat \<Rightarrow> nat_fso" where
  "hobj V dev h = hdr_load False (V dev h) (fso.extend (zero_fso\<lparr>o_index := int h\<rparr>) zero_part)"

definition is_dir :: "nat_fso \<Rightarrow> bool" where
  "is_dir b \<longleftrightarrow> o_mode b AND S_IFMT = S_IFDIR"

text \<open>\<open>X h\<close> is the result of the check for permission to search the directory \<open>h\<close>.\<close>

definition entry :: "contents \<Rightarrow> nat \<Rightarrow> (nat \<Rightarrow> errno) \<Rightarrow> nat \<Rightarrow> string \<Rightarrow> errno + nat" where
  "entry V dev X h name =
     (if \<not> is_dir (hobj V dev h) then Inl ENOTDIR
      else if X h \<noteq> EZERO then Inl (X h)
      else case dir_map V dev (hobj V dev h) name of None \<Rightarrow> Inl ENOENT | Some h' \<Rightarrow> Inr h')"

function walk_dirs :: "contents \<Rightarrow> nat \<Rightarrow> (nat \<Rightarrow> errno) \<Rightarrow> nat \<Rightarrow> string \<Rightarrow> errno + nat" where
  "walk_dirs V dev X h p =
     (if slash \<notin> set p then Inr h
      else case entry V dev X h (takeWhile (\<lambda>c. c \<noteq> slash) p) of
        Inl e \<Rightarrow> Inl e
      | Inr h' \<Rightarrow> walk_dirs V dev X h' (tl (dropWhile (\<lambda>c. c \<noteq> slash) p)))"
  by pat_completeness auto

termination walk_dirs
  by (relation "measure (\<lambda>(V, dev, X, h, p). length p)") (auto simp: rest_less)

declare walk_dirs.simps [simp del]

text \<open>No directory in the path has a name that is too long.\<close>

function short_names :: "string \<Rightarrow> bool" where
  "short_names p =
     (if slash \<notin> set p then True
      else length (takeWhile (\<lambda>c. c \<noteq> slash) p) \<le> NAT_NAME_MAX \<and> short_names (tl (dropWhile (\<lambda>c. c \<noteq> slash) p)))"
  by pat_completeness auto

termination short_names
  by (relation "measure length") (auto simp: rest_less)

declare short_names.simps [simp del]

definition resolve :: "contents \<Rightarrow> nat \<Rightarrow> (nat \<Rightarrow> errno) \<Rightarrow> nat \<Rightarrow> string \<Rightarrow> errno + nat" where
  "resolve V dev X root path =
     (case walk_dirs V dev X root path of
        Inl e \<Rightarrow> Inl e
      | Inr d \<Rightarrow> if basename path = [] then Inr d else entry V dev X d (basename path))"

text \<open>The permission to search the directory with a header, for the task that is running.\<close>

definition search_perm :: "'d nstate \<Rightarrow> nat \<Rightarrow> contents \<Rightarrow> nat \<Rightarrow> nat \<Rightarrow> errno" where
  "search_perm s k V dev h = the (perm 0 X_OK (s\<lparr>fs_fso := (\<lambda>_. (fso.truncate (hobj V dev h))\<lparr>o_fs := Fs k\<rparr>)\<rparr>))"

section \<open>Invariants\<close>

text \<open>An in-core object that agrees with its header.\<close>

definition incore :: "contents \<Rightarrow> nat \<Rightarrow> nat_fso \<Rightarrow> bool" where
  "incore V dev b \<longleftrightarrow> o_index b \<ge> 0 \<and> \<not> o_dirty b \<and> bmap_cached V dev b \<and>
     (let d = hobj V dev (nat (o_index b)) in same_map d b \<and> o_uid b = o_uid d \<and> o_gid b = o_gid d \<and> nlink b = nlink d)"

definition tbl :: "contents \<Rightarrow> nat \<Rightarrow> nat \<Rightarrow> nat set \<Rightarrow> 'd nstate \<Rightarrow> bool" where
  "tbl V dev k H s \<longleftrightarrow> k < length (fs_fs s) \<and> fs_dev (fs_fs s ! k) = Some dev \<and> \<not> insecure (fs_fs s ! k) \<and> unique_objs s \<and>
     (\<forall>i \<ge> fs_fso_high s. o_refcnt (fs_fso s i) = 0) \<and>
     (\<forall>i < fs_fso_high s. o_refcnt (fs_fso s i) \<noteq> 0 \<longrightarrow> o_fs (fs_fso s i) = Fs k \<longrightarrow>
        nat (o_index (fs_fso s i)) \<in> H \<and> incore V dev (nat_obj s i))"

text \<open>A set of headers that the directories among them do not lead out of.\<close>

definition tree_inv ::
    "('d \<Rightarrow> nat \<Rightarrow> nat \<Rightarrow> 8 word list) \<Rightarrow> ('d \<Rightarrow> nat \<Rightarrow> nat \<Rightarrow> bool) \<Rightarrow> ('d \<Rightarrow> bool) \<Rightarrow> nat \<Rightarrow> nat set \<Rightarrow> nat_fs \<Rightarrow> 'd bcache \<Rightarrow> bool" where
  "tree_inv sector has dok dev H f c \<longleftrightarrow> ready sector has dok c \<and> nfree c \<ge> 2 \<and>
     (\<forall>h \<in> H. has (disk c) dev h \<and> nlink (hobj (view sector c) dev h) \<noteq> 0 \<and> file_inv sector has dok dev (hobj (view sector c) dev h) f c \<and>
        (is_dir (hobj (view sector c) dev h) \<longrightarrow> dir_inv sector has dok dev (hobj (view sector c) dev h) f c \<and>
           ran (dir_map (view sector c) dev (hobj (view sector c) dev h)) \<subseteq> H))"

text \<open>What operations that only look leave alone.\<close>

definition same_world :: "'d nstate \<Rightarrow> 'd nstate \<Rightarrow> bool" where
  "same_world s s' \<longleftrightarrow> fs_fs s' = fs_fs s \<and> nat_of s' = nat_of s \<and> curr s' = curr s \<and> tsk s' = tsk s \<and> slot s' = slot s \<and> fs_file s' = fs_file s"

lemma nat_obj_put [simp]: "nat_obj (put_obj i b s) j = (if j = i then b else nat_obj s j)"
  by (cases b) (simp add: nat_obj_def put_obj_def fso.defs)

lemma nat_obj_bufs [simp]: "nat_obj (s\<lparr>bufs := c\<rparr>) = nat_obj s" "nat_obj (s\<lparr>nat_of := g\<rparr>) = nat_obj s"
  by (auto simp: nat_obj_def)

lemma nat_obj_fields:
  "o_refcnt (nat_obj s i) = o_refcnt (fs_fso s i)" "o_index (nat_obj s i) = o_index (fs_fso s i)" "o_dirty (nat_obj s i) = o_dirty (fs_fso s i)"
  "nlink (nat_obj s i) = nlink (fs_fso s i)" "o_mode (nat_obj s i) = o_mode (fs_fso s i)" "o_uid (nat_obj s i) = o_uid (fs_fso s i)"
  "o_gid (nat_obj s i) = o_gid (fs_fso s i)" "fso.truncate (nat_obj s i) = fs_fso s i"
  by (simp_all add: nat_obj_def fso.defs)

lemma put_obj_id: "put_obj i (nat_obj s i) s = s"
proof -
  have "fso.more (nat_obj s i) = nat_ext s i" by (simp add: nat_obj_def fso.defs)
  then show ?thesis by (cases s) (simp add: put_obj_def nat_obj_fields)
qed

section \<open>Looking without changing\<close>

lemma bmap_walk_looks: "bmap_walk rd wr dev log False j bn b f s = Some (r, b', f', s') \<Longrightarrow> b' = b"
  by (induction j arbitrary: bn s) (auto simp: Let_def split: if_splits sum.splits bind_splits)

lemma nat_bmap_looks:
  assumes "nat_bmap rd wr dev log False b f s = Some (e, b', f', s')"
  shows "fso.truncate b' = fso.truncate b"
proof -
  have sb: "fso.truncate (set_bmap l n b) = fso.truncate b" for l n by (simp add: set_bmap_def fso.defs)
  have d: "nat_bmap_dir rd wr dev l False b f s = Some (r, b1, f1, s1) \<Longrightarrow> b1 = b" for l r b1 f1 s1
    by (simp add: nat_bmap_dir_def split: if_splits)
  show ?thesis using assms
    by (auto simp: nat_bmap_def bmap_done_def sb dest!: d bmap_walk_looks split: if_splits sum.splits bind_splits)
qed

lemma find_loop_looks:
  "find_loop rd wr dev name ls b f s = Some (r, b', f', s') \<Longrightarrow> fso.truncate b' = fso.truncate b"
proof (induction ls arbitrary: b f s)
  case (Cons l ls)
  then show ?case by (auto dest!: nat_bmap_looks split: if_splits sum.splits option.splits bind_splits)
qed simp

lemma find_entry_looks:
  "find_entry rd wr dev p name b f s = Some (r, b', f', s') \<Longrightarrow> fso.truncate b' = fso.truncate b"
  by (auto simp: find_entry_def dest: find_loop_looks split: if_splits)

text \<open>The permission depends on the object only through its owner and mode.\<close>

lemma perm_cong:
  assumes "o_fs a = o_fs b" "o_mode a = o_mode b" "o_uid a = o_uid b" "o_gid a = o_gid b"
  shows "perm i X_OK (s\<lparr>fs_fso := (\<lambda>_. a)\<rparr>) = perm j X_OK (s\<lparr>fs_fso := (\<lambda>_. b)\<rparr>)"
  using assms by (cases "curr s") (simp_all add: perm_def fs_chk_perm_def fs_of_def perm_bits_def nat_chk_perm_def Let_def split: fsref.splits)

lemma perm_obj: "perm i X_OK s = perm i X_OK (s\<lparr>fs_fso := (\<lambda>_. fs_fso s i)\<rparr>)"
  by (cases "curr s") (simp_all add: perm_def fs_chk_perm_def fs_of_def perm_bits_def nat_chk_perm_def Let_def split: fsref.splits)

lemma perm_search:
  assumes "curr s = Some c" and "incore V dev (nat_obj s i)" and "o_fs (fs_fso s i) = Fs k"
  shows "perm i X_OK s = Some (search_perm s k V dev (nat (o_index (fs_fso s i))))"
proof -
  let ?d = "hobj V dev (nat (o_index (fs_fso s i)))"
  have "o_mode (fs_fso s i) = o_mode ?d" "o_uid (fs_fso s i) = o_uid ?d" "o_gid (fs_fso s i) = o_gid ?d"
    using assms(2) unfolding incore_def Let_def same_map_def nat_obj_fields by simp_all
  then have e: "perm i X_OK s = perm 0 X_OK (s\<lparr>fs_fso := (\<lambda>_. (fso.truncate ?d)\<lparr>o_fs := Fs k\<rparr>)\<rparr>)"
    unfolding perm_obj [of i s] using assms(3) by (intro perm_cong) (simp_all add: fso.defs)
  have "perm 0 X_OK (s\<lparr>fs_fso := f\<rparr>) \<noteq> None" for f using assms(1) by (simp add: perm_def)
  then show ?thesis unfolding e search_perm_def by simp
qed

lemma search_perm_world:
  assumes "same_world s s'"
  shows "search_perm s' k V dev h = search_perm s k V dev h"
proof -
  have "fs_of (s'\<lparr>fs_fso := f\<rparr>) a = fs_of (s\<lparr>fs_fso := f\<rparr>) a" for f a
    using assms by (simp add: same_world_def fs_of_def split: fsref.splits)
  then have "fs_chk_perm nat_chk_perm i m u g (s'\<lparr>fs_fso := f\<rparr>) = fs_chk_perm nat_chk_perm i m u g (s\<lparr>fs_fso := f\<rparr>)" for i m u g f
    by (simp add: fs_chk_perm_def nat_chk_perm_def Let_def split: prod.split)
  then have "perm i m (s'\<lparr>fs_fso := f\<rparr>) = perm i m (s\<lparr>fs_fso := f\<rparr>)" for i m f
    using assms by (simp add: same_world_def perm_def)
  then show ?thesis by (simp add: search_perm_def)
qed

lemma same_world_refl [simp]: "same_world s s"
  by (simp add: same_world_def)

lemma same_world_trans: "same_world a b \<Longrightarrow> same_world b c \<Longrightarrow> same_world a c"
  by (simp add: same_world_def)

lemma tblD:
  assumes "tbl V dev k H s"
  shows "k < length (fs_fs s)" "fs_dev (fs_fs s ! k) = Some dev" "\<not> insecure (fs_fs s ! k)" "unique_objs s"
    "fs_fso_high s \<le> i \<Longrightarrow> o_refcnt (fs_fso s i) = 0"
    "o_refcnt (fs_fso s i) \<noteq> 0 \<Longrightarrow> o_fs (fs_fso s i) = Fs k \<Longrightarrow> i < fs_fso_high s \<and> nat (o_index (fs_fso s i)) \<in> H \<and> incore V dev (nat_obj s i)"
  using assms not_le unfolding tbl_def by blast+

lemma tbl_fs: "tbl V dev k H s \<Longrightarrow> o_fs (fs_fso s i) = Fs k \<Longrightarrow> obj_fs s i = Some (k, dev)"
  by (simp add: obj_fs_def tbl_def)

lemma tree_invD:
  assumes "tree_inv sector has dok dev H f c" and "h \<in> H"
  shows "has (disk c) dev h" "nlink (hobj (view sector c) dev h) \<noteq> 0" "file_inv sector has dok dev (hobj (view sector c) dev h) f c"
    "is_dir (hobj (view sector c) dev h) \<Longrightarrow> dir_inv sector has dok dev (hobj (view sector c) dev h) f c"
    "is_dir (hobj (view sector c) dev h) \<Longrightarrow> dir_map (view sector c) dev (hobj (view sector c) dev h) name = Some h' \<Longrightarrow> h' \<in> H"
  using assms unfolding tree_inv_def by (blast intro: ranI)+

context block_driver
begin

lemma tree_inv_quiet:
  assumes "tree_inv sector has dok dev H f c" and "quiet sector has dok c c'" and "view sector c' = view sector c"
  shows "tree_inv sector has dok dev H f c'"
proof -
  have "dir_inv sector has dok dev b f c'" if "dir_inv sector has dok dev b f c" for b
    using dir_inv_same(1) [OF that file_inv_quiet [OF dir_invD(1) [OF that] assms(2,3)] same_map_refl assms(3)] .
  then show ?thesis using assms file_inv_quiet [OF _ assms(2,3)] quiet_ready [OF assms(2)] quiet_nfree [OF assms(2)] quiet_has [OF assms(2)]
    unfolding tree_inv_def by simp
qed

text \<open>Looking a name up in an object of the table.\<close>

lemma find_obj_works:
  assumes T: "tbl (view sector (bufs s)) dev k H s" and R: "tree_inv sector has dok dev H (nat_of s k) (bufs s)" and c: "curr s = Some c"
    and i: "o_refcnt (fs_fso s i) \<noteq> 0" "o_fs (fs_fso s i) = Fs k"
  defines "V \<equiv> view sector (bufs s)" and "h \<equiv> nat (o_index (fs_fso s i))"
  shows "\<exists>r s' c1. find_obj rd wr i name s = Some (r, s') \<and> same_world s s' \<and> fs_fso s' = fs_fso s \<and> fs_fso_high s' = fs_fso_high s \<and>
     tbl V dev k H s' \<and> quiet sector has dok (bufs s) c1 \<and> view sector c1 = V \<and>
     (case r of
        Inl e \<Rightarrow> entry V dev (search_perm s k V dev) h name = Inl e \<and> bufs s' = c1
      | Inr d \<Rightarrow> (\<exists>n. took sector has dok dev n (fst d) c1 (bufs s')) \<and>
          entry V dev (search_perm s k V dev) h name = Inr (dent_block d s') \<and> dent_block d s' \<in> H)"
proof -
  let ?b = "nat_obj s i" and ?d = "hobj V dev h" and ?f = "nat_of s k"
  have I: "h \<in> H" "incore V dev ?b" using tblD(6) [OF T i] by (simp_all add: V_def h_def)
  have sm: "same_map ?d ?b" and bc: "bmap_cached V dev ?b" using I(2) by (simp_all add: incore_def Let_def nat_obj_fields h_def)
  have p: "perm i X_OK s = Some (search_perm s k V dev h)" unfolding h_def V_def by (rule perm_search [OF c _ i(2)]) (use I(2) in \<open>simp add: V_def\<close>)
  have fo: "find_obj rd wr i name s = do {
      (r, b, f, c) \<leftarrow> find_entry rd wr dev (search_perm s k V dev h) name ?b ?f (bufs s);
      Some (r, (put_obj i b s)\<lparr>nat_of := (nat_of s)(k := f), bufs := c\<rparr>) }"
    unfolding find_obj_def p on_obj_def tbl_fs [OF T i(2)] by simp
  have md: "o_mode ?b = o_mode ?d" using sm by (simp add: same_map_def)
  have rdy: "ready sector has dok (bufs s)" using R by (simp add: tree_inv_def)
  show ?thesis
  proof (cases "is_dir ?d \<and> search_perm s k V dev h = EZERO")
    case False
    then obtain e where e: "entry V dev (search_perm s k V dev) h name = Inl e"
        "find_entry rd wr dev (search_perm s k V dev h) name ?b ?f (bufs s) = Some (Inl e, ?b, ?f, bufs s)"
      unfolding entry_def find_entry_def is_dir_def md by (cases "o_mode ?d AND S_IFMT = S_IFDIR") auto
    have id: "(put_obj i ?b s)\<lparr>nat_of := (nat_of s)(k := ?f), bufs := bufs s\<rparr> = s" unfolding put_obj_id by simp
    then have "find_obj rd wr i name s = Some (Inl e, s)" unfolding fo e(2) by simp
    then show ?thesis using e(1) T quiet_refl [OF rdy] unfolding V_def by auto
  next
    case True
    have D: "dir_inv sector has dok dev ?d ?f (bufs s)" using tree_invD(4) [OF R I(1)] True by (simp add: V_def)
    have mp: "bmap ?b = bmap ?d" "ndirblks ?b = ndirblks ?d" "nindirlev ?b = nindirlev ?d" using sm by (simp_all add: same_map_def)
    have Fb: "file_inv sector has dok dev ?b ?f (bufs s)"
      using dir_invD(1) [OF D] bc unfolding file_inv_def file_ok_fields [OF mp] mp V_def by simp
    note Db = dir_inv_same [OF D Fb sm refl]
    have en: "entry V dev (search_perm s k V dev) h name = (case dir_map V dev ?b name of None \<Rightarrow> Inl ENOENT | Some h' \<Rightarrow> Inr h')"
      using True Db(2) by (simp add: entry_def V_def)
    obtain b' c1 where L: "same_map ?b b'" "dir_inv sector has dok dev b' ?f c1" "view sector c1 = V" "quiet sector has dok (bufs s) c1"
        "case dir_map V dev ?b name of
          None \<Rightarrow> find_entry rd wr dev EZERO name ?b ?f (bufs s) = Some (Inl ENOENT, b', ?f, c1)
        | Some fb \<Rightarrow> \<exists>l i bb c'. find_entry rd wr dev EZERO name ?b ?f (bufs s) = Some (Inr (bb, i), b', ?f, c') \<and>
            l < o_size ?b div BLK_SIZE \<and> i < NAT_D_PER_BLOCK \<and> d_is name (dblk V dev ?b l) i \<and>
            took sector has dok dev (lookup V dev ?b l) bb c1 c' \<and> unat (d_first_block (b_data (blk c' bb)) i) = fb"
      using find_entry_works [OF Db(1)] unfolding V_def by blast
    have after: "tbl V dev k H s1 \<and> same_world s s1 \<and> fs_fso s1 = fs_fso s \<and> fs_fso_high s1 = fs_fso_high s"
      if r: "find_entry rd wr dev EZERO name ?b ?f (bufs s) = Some (r, b', ?f, c')" and s1: "s1 = (put_obj i b' s)\<lparr>nat_of := (nat_of s)(k := ?f), bufs := c'\<rparr>" for r c' s1
    proof -
      have t: "fso.truncate b' = fs_fso s i" using find_entry_looks [OF r] by (simp add: nat_obj_fields)
      then have f: "fs_fso s1 = fs_fso s" "fs_fso_high s1 = fs_fso_high s" "same_world s s1"
        unfolding s1 by (simp_all add: put_obj_def same_world_def)
      have ob: "nat_obj s1 j = (if j = i then b' else nat_obj s j)" for j unfolding s1 by simp
      have "o_index b' = o_index ?b" "o_dirty b' = o_dirty ?b" "o_uid b' = o_uid ?b" "o_gid b' = o_gid ?b" "nlink b' = nlink ?b"
        using arg_cong [OF t, of o_index] arg_cong [OF t, of o_dirty] arg_cong [OF t, of o_uid] arg_cong [OF t, of o_gid] arg_cong [OF t, of nlink]
        by (simp_all add: nat_obj_fields fso.defs)
      moreover have "bmap_cached V dev b'" using dir_invD(1) [OF L(2)] L(3) by (simp add: file_inv_def)
      ultimately have "incore V dev b'" using I(2) same_map_trans [OF _ L(1)] by (simp add: incore_def Let_def)
      then have "tbl V dev k H s1" using T f ob unfolding V_def tbl_def same_world_def unique_objs_def by simp
      then show ?thesis using f by simp
    qed
    show ?thesis
    proof (cases "dir_map V dev ?b name")
      case None
      then have r: "find_entry rd wr dev EZERO name ?b ?f (bufs s) = Some (Inl ENOENT, b', ?f, c1)" using L(5) by simp
      show ?thesis unfolding fo using after [OF r refl] r True en None L(3,4) by (auto simp: V_def)
    next
      case (Some fb)
      then obtain l i' bb c' where r: "find_entry rd wr dev EZERO name ?b ?f (bufs s) = Some (Inr (bb, i'), b', ?f, c')"
          "took sector has dok dev (lookup V dev ?b l) bb c1 c'" "unat (d_first_block (b_data (blk c' bb)) i') = fb" using L(5) by auto
      have "fb \<in> H" using tree_invD(5) [OF R I(1)] True Some Db(2) by (simp add: V_def)
      then show ?thesis unfolding fo using after [OF r(1) refl] r True en Some L(3,4) by (auto simp: V_def dent_block_def)
    qed
  qed
qed

end

section \<open>Taking objects and letting them go\<close>

text \<open>An object of the table that the code refers to.\<close>

definition in_tbl :: "nat \<Rightarrow> 'd nstate \<Rightarrow> nat \<Rightarrow> bool" where
  "in_tbl k s i \<longleftrightarrow> o_refcnt (fs_fso s i) \<noteq> 0 \<and> o_fs (fs_fso s i) = Fs k"

abbreviation (input) add_ref :: "int \<Rightarrow> fso \<Rightarrow> fso" where
  "add_ref d \<equiv> (\<lambda>p. p\<lparr>o_refcnt := o_refcnt p + d\<rparr>)"

lemma nat_obj_upd: "nat_obj (upd_fso i g s) j = fso.extend (if j = i then g (fs_fso s i) else fs_fso s j) (nat_ext s j)"
  by (simp add: nat_obj_def upd_fso_def)

lemma nat_obj_state: "nat_obj (upd_fso i (o_state_update g) s) j = (if j = i then o_state_update g (nat_obj s i) else nat_obj s j)"
  by (cases "fs_fso s i") (simp add: nat_obj_def upd_fso_def fso.defs)

lemma incore_refs: "incore V dev (fso.extend (p\<lparr>o_refcnt := n\<rparr>) m) = incore V dev (fso.extend p m)"
proof -
  have "fso.extend (p\<lparr>o_refcnt := n\<rparr>) m = (fso.extend p m)\<lparr>o_refcnt := n\<rparr>" by (cases p) (simp add: fso.defs)
  moreover have "lookup V dev (b\<lparr>o_refcnt := n\<rparr>) l = lookup V dev b l" for b l by (rule lookup_fields) simp_all
  ultimately show ?thesis by (simp add: incore_def bmap_cached_def same_map_def)
qed

lemma tbl_ref:
  assumes T: "tbl V dev k H s" and i: "o_refcnt (fs_fso s i) \<noteq> 0" and d: "o_refcnt (fs_fso s i) + d \<ge> 0"
  shows "tbl V dev k H (upd_fso i (add_ref d) s)"
proof -
  let ?s = "upd_fso i (add_ref d) s"
  have f: "fs_fso ?s j = (if j = i then (fs_fso s i)\<lparr>o_refcnt := o_refcnt (fs_fso s i) + d\<rparr> else fs_fso s j)" "fs_fso_high ?s = fs_fso_high s"
      "fs_fs ?s = fs_fs s" for j by (simp_all add: upd_fso_def)
  have hi: "i < fs_fso_high s" using tblD(5) [OF T, of i] i by (meson not_le)
  have u: "unique_objs ?s" using tblD(4) [OF T] i d unfolding unique_objs_def f by auto
  have "incore V dev (nat_obj ?s j) = incore V dev (nat_obj s j)" for j by (simp add: nat_obj_upd incore_refs) (simp add: nat_obj_def)
  then show ?thesis using T i u hi unfolding tbl_def f by auto
qed

lemma putobj_works:
  assumes T: "tbl V dev k H s" and i: "in_tbl k s i" and n: "\<And>h. h \<in> H \<Longrightarrow> nlink (hobj V dev h) \<noteq> 0"
  shows "putobj rd wr (Some i) s = Some (upd_fso i (add_ref (-1)) s)" "tbl V dev k H (upd_fso i (add_ref (-1)) s)"
proof -
  have I: "o_refcnt (fs_fso s i) \<noteq> 0" "o_fs (fs_fso s i) = Fs k" using i by (simp_all add: in_tbl_def)
  note inc = tblD(6) [OF T I]
  have "nlink (fs_fso s i) \<noteq> 0" "\<not> o_dirty (fs_fso s i)" using inc n unfolding incore_def Let_def nat_obj_fields by auto
  then have "natfs_putfso rd wr i s = Some ((put_obj i (nat_obj s i) s)\<lparr>nat_of := (nat_of s)(k := nat_of s k), bufs := bufs s\<rparr>)"
    by (simp add: natfs_putfso_def on_obj_def tbl_fs [OF T I(2)] nat_putfso_def nat_syncfso_def nat_obj_fields)
  then have "natfs_putfso rd wr i s = Some s" unfolding put_obj_id by simp
  then show "putobj rd wr (Some i) s = Some (upd_fso i (add_ref (-1)) s)" using I(1) by (simp add: putobj_def fs_putfso_def)
  show "tbl V dev k H (upd_fso i (add_ref (-1)) s)" 
    by (rule tbl_ref [OF T I(1)]) (use tblD(4) [OF T] I(1) in \<open>simp add: unique_objs_def order_less_le\<close>)
qed

text \<open>The error when none of the \<open>N\<close> objects of the table is free, by the counts \<open>R\<close>, and the table does not grow.\<close>

definition no_room :: "errno \<Rightarrow> (nat \<Rightarrow> int) \<Rightarrow> nat \<Rightarrow> errno \<Rightarrow> bool" where
  "no_room atmem R N x \<longleftrightarrow> x \<noteq> EZERO \<and> (\<forall>j < N. R j \<noteq> 0) \<and> (x = ENOMEM \<and> FS_MAXFSO \<le> N \<or> x = atmem)"

text \<open>The three ways of \<^verbatim>\<open>fs_getfso\<close>: the object is in core, there is no room for it, or it gets an entry of the table.\<close>

lemma fs_getfso_cases:
  obtains (found) i where "i < fs_fso_high s" "o_refcnt (fs_fso s i) \<noteq> 0" "o_index (fs_fso s i) = int h" "o_fs (fs_fso s i) = fs"
      "fs_getfso g atmem fs (int h) s = Some (Inr i, upd_fso i (add_ref 1) s)"
  | (full) e where "no_room atmem (\<lambda>i. o_refcnt (fs_fso s i)) (fs_fso_high s) e"
      "fs_getfso g atmem fs (int h) s = Some (Inl e, s)"
  | (fresh) n m where "n < m" "fs_fso_high s \<le> m" "m \<le> max FS_MAXFSO (fs_fso_high s)" "\<forall>i < m. i \<noteq> n \<longrightarrow> i < fs_fso_high s"
      "n < fs_fso_high s \<longrightarrow> o_refcnt (fs_fso s n) = 0"
      "\<forall>i < fs_fso_high s. \<not> (o_refcnt (fs_fso s i) \<noteq> 0 \<and> o_index (fs_fso s i) = int h \<and> o_fs (fs_fso s i) = fs)"
      "fs_getfso g atmem fs (int h) s =
         Option.bind (g n (upd_fso n (\<lambda>_. zero_fso\<lparr>o_index := int h, o_refcnt := 1, o_fs := fs\<rparr>) (s\<lparr>fs_fso_high := m\<rparr>)))
           (\<lambda>(e, s2). Some (if e \<noteq> EZERO then (Inl e, upd_fso n (o_refcnt_update (\<lambda>_. 0)) s2) else (Inr n, s2)))"
proof -
  define P where "P i \<longleftrightarrow> o_refcnt (fs_fso s i) \<noteq> 0 \<and> o_index (fs_fso s i) = int h \<and> o_fs (fs_fso s i) = fs" for i
  have "int h \<noteq> -1" by simp
  then have g: "fs_getfso g atmem fs (int h) s = (case List.find P [0..<fs_fso_high s] of
      Some i \<Rightarrow> Some (Inr i, upd_fso i (add_ref 1) s)
    | None \<Rightarrow>
        (case (case List.find (\<lambda>i. o_refcnt (fs_fso s i) = 0) (rev [0..<fs_fso_high s]) of
                 Some n \<Rightarrow> Inr (n, s)
               | None \<Rightarrow>
                   if fs_fso_high s \<ge> FS_MAXFSO then Inl ENOMEM
                   else if atmem \<noteq> EZERO then Inl atmem
                   else Inr (fs_fso_high s, s\<lparr>fs_fso_high := fs_fso_high s + 1\<rparr>)) of
           Inl e \<Rightarrow> Some (Inl e, s)
         | Inr (n, s1) \<Rightarrow> 
             Option.bind (g n (upd_fso n (\<lambda>_. zero_fso\<lparr>o_index := int h, o_refcnt := 1, o_fs := fs\<rparr>) s1))
               (\<lambda>(e, s2). Some (if e \<noteq> EZERO then (Inl e, upd_fso n (o_refcnt_update (\<lambda>_. 0)) s2) else (Inr n, s2)))))"
    unfolding fs_getfso_def P_def by simp
  show thesis
  proof (cases "List.find P [0..<fs_fso_high s]")
    case (Some i)
    then have "i < fs_fso_high s" "P i" by (simp_all add: find_upt_Some_iff)
    then show thesis by (intro found [of i]) (simp_all add: P_def g Some)
  next
    case N: None
    then have no: "\<forall>i < fs_fso_high s. \<not> P i" by (simp add: find_upt_None_iff)
    show thesis
    proof (cases "List.find (\<lambda>i. o_refcnt (fs_fso s i) = 0) (rev [0..<fs_fso_high s])")
      case (Some n)
      then have "n < fs_fso_high s" "o_refcnt (fs_fso s n) = 0" using find_rev_upt(1) [OF Some] by simp_all
      then show thesis by (intro fresh [of n "fs_fso_high s"]) (use no in \<open>simp_all add: g N Some P_def\<close>)
    next
      case None
      then have al: "\<forall>i < fs_fso_high s. o_refcnt (fs_fso s i) \<noteq> 0" by (simp only: find_rev_upt(2))
      consider "fs_fso_high s \<ge> FS_MAXFSO" | "fs_fso_high s < FS_MAXFSO" "atmem \<noteq> EZERO" | "fs_fso_high s < FS_MAXFSO" "atmem = EZERO" by force
      then show thesis
      proof cases
        case 1
        then show thesis using al by (intro full [of ENOMEM]) (simp_all add: g N None no_room_def)
      next
        case 2
        then show thesis using al by (intro full [of atmem]) (simp_all add: g N None no_room_def)
      next
        case 3
        then show thesis
          by (intro fresh [of "fs_fso_high s" "fs_fso_high s + 1"], unfold g N None) (use no in \<open>simp_all add: P_def less_Suc_eq\<close>)
      qed
    qed
  qed
qed

text \<open>An object that has just been read from its header.\<close>

lemma hdr_load_fields:
  fixes d z
  defines "b \<equiv> hdr_load False d z"
  shows "bmap b = map (\<lambda>i. le32 d (14 + i)) [0..<NBMAP]" "ndirblks b = unat (d ! 52)" "nindirlev b = unat (d ! 53)"
    "o_size b = unat (le32 d 8)" "o_mode b = le32 d 9" "o_uid b = sint (le32 d 6)" "o_gid b = sint (le32 d 7)" "nlink b = uint (le32 d 10)"
    "o_index b = o_index z" "o_dirty b = o_dirty z" "bmap_valid b = bmap_valid z" "o_refcnt b = o_refcnt z" "o_fs b = o_fs z"
    "o_state b = o_state z" "polling b = polling z" "pollcnt b = pollcnt z"
  by (simp_all add: b_def hdr_load_def)

lemma load_incore:
  assumes "o_index z = int h" and "\<not> o_dirty z" and "\<not> bmap_valid z"
  shows "incore V dev ((hdr_load False (V dev h) z)\<lparr>o_state := st\<rparr>)"
  using assms by (simp add: incore_def bmap_cached_def hobj_def same_map_def hdr_load_fields Let_def)

lemma tbl_new:
  assumes T: "tbl V dev k H s" and n: "n < m" "fs_fso_high s \<le> m" "m \<le> FS_MAXFSO" "\<forall>i < m. i \<noteq> n \<longrightarrow> i < fs_fso_high s"
    and no: "\<forall>i < fs_fso_high s. \<not> (o_refcnt (fs_fso s i) \<noteq> 0 \<and> o_index (fs_fso s i) = int h \<and> o_fs (fs_fso s i) = Fs k)"
    and s': "fs_fs s' = fs_fs s" "fs_fso_high s' = m" "\<And>j. j \<noteq> n \<Longrightarrow> nat_obj s' j = nat_obj s j"
    and b: "o_refcnt (nat_obj s' n) = 1" "o_index (nat_obj s' n) = int h" "o_fs (nat_obj s' n) = Fs k" "incore V dev (nat_obj s' n)" and h: "h \<in> H"
  shows "tbl V dev k H s'"
proof -
  have o: "fs_fso s' j = fs_fso s j" if "j \<noteq> n" for j using arg_cong [OF s'(3) [OF that], of fso.truncate] by (simp add: nat_obj_fields)
  have bn: "o_refcnt (fs_fso s' n) = 1" "o_index (fs_fso s' n) = int h" "o_fs (fs_fso s' n) = Fs k"
    using b(1-3) by (simp_all add: nat_obj_def fso.defs)
  have u: "unique_objs s'"
    unfolding unique_objs_def s'(2)
  proof (intro conjI allI impI)
    fix i j assume ij: "i < m" "j < m" "o_refcnt (fs_fso s' i) \<noteq> 0" "o_refcnt (fs_fso s' j) \<noteq> 0" "o_index (fs_fso s' i) \<noteq> -1"
      "o_index (fs_fso s' i) = o_index (fs_fso s' j)" "o_fs (fs_fso s' i) = o_fs (fs_fso s' j)"
    show "i = j" 
    proof (cases "i = n \<or> j = n")
      case True
      then show ?thesis using ij no n(4) bn o by metis
    next
      case False
      then show ?thesis using ij tblD(4) [OF T] n(4) o unfolding unique_objs_def by metis
    qed
  next
    show "0 \<le> o_refcnt (fs_fso s' i)" for i using tblD(4) [OF T] bn(1) o [of i] unfolding unique_objs_def by (cases "i = n") auto
    show "m \<le> FS_MAXFSO" by (rule n(3))
  qed
  have "o_refcnt (fs_fso s' i) = 0" if "m \<le> i" for i using tblD(5) [OF T, of i] o [of i] n that by auto
  moreover have "nat (o_index (fs_fso s' i)) \<in> H \<and> incore V dev (nat_obj s' i)"
    if "i < m" "o_refcnt (fs_fso s' i) \<noteq> 0" "o_fs (fs_fso s' i) = Fs k" for i
  proof (cases "i = n")
    case True
    then show ?thesis using bn b(4) h by simp
  next
    case False
    then show ?thesis using that tblD(6) [OF T, of i] o [of i] s'(3) [of i] by simp
  qed
  ultimately show ?thesis using u tblD(1-3) [OF T] unfolding tbl_def s' by blast
qed

context block_driver
begin

lemma getobj_works:
  assumes T: "tbl V dev k H s" and c: "ready sector has dok (bufs s)" "nfree (bufs s) > 0" "view sector (bufs s) = V"
    and h: "h \<in> H" "has (disk (bufs s)) dev h"
  shows "\<exists>r s'. getobj rd wr atmem k h s = Some (r, s') \<and> same_world s s' \<and> fs_fso_high s \<le> fs_fso_high s' \<and> tbl V dev k H s' \<and>
     quiet sector has dok (bufs s) (bufs s') \<and> view sector (bufs s') = V \<and>
     (\<forall>j. o_refcnt (fs_fso s' j) = o_refcnt (fs_fso s j) + of_bool (r = Inr j)) \<and>
     (case r of
        Inl e \<Rightarrow> no_room atmem (\<lambda>i. o_refcnt (fs_fso s i)) (fs_fso_high s) e
      | Inr i \<Rightarrow> in_tbl k s' i \<and> o_index (fs_fso s' i) = int h)"
proof (cases rule: fs_getfso_cases [where s = s and h = h and fs = "Fs k" and g = "nat_getfso rd wr" and atmem = atmem])
  case (found i)
  have nn: "o_refcnt (fs_fso s i) \<ge> 0" using tblD(4) [OF T] by (simp add: unique_objs_def)
  then have t: "tbl V dev k H (upd_fso i (add_ref 1) s)" using found(2) by (intro tbl_ref [OF T]) simp_all
  have "getobj rd wr atmem k h s = Some (Inr i, upd_fso i (add_ref 1) s)" using found(5) by (simp add: getobj_def)
  then show ?thesis using t found nn quiet_refl [OF c(1)] c(3) by (auto simp: same_world_def upd_fso_def in_tbl_def)
next
  case (full e)
  then have "getobj rd wr atmem k h s = Some (Inl e, s)" by (simp add: getobj_def)
  then show ?thesis using T full quiet_refl [OF c(1)] c(3) by auto
next
  case (fresh n m)
  let ?z = "zero_fso\<lparr>o_index := int h, o_refcnt := 1, o_fs := Fs k\<rparr>"
  let ?b = "fso.extend ?z zero_part"
  let ?s0 = "(upd_fso n (\<lambda>_. ?z) (s\<lparr>fs_fso_high := m\<rparr>))\<lparr>nat_ext := (nat_ext s)(n := zero_part)\<rparr>"
  let ?l = "hdr_load False (V dev h) ?b"
  obtain bb c1 c2 where r: "blk_read rd wr dev h (bufs s) = Some (Inr bb, c1)" "b_data (blk c1 bb) = V dev h" "blk_put (Some bb) c1 = Some c2"
      "quiet sector has dok (bufs s) c2" "view sector c2 = V"
    using read_block_works [OF c(1,2) h(2)] c(3) by auto
  have z: "o_index ?b = int h" "\<not> o_dirty ?b" "\<not> bmap_valid ?b" "o_refcnt ?b = 1" "o_fs ?b = Fs k" "polling ?b = None" "pollcnt ?b = 0" "o_state ?b = 0"
    by (simp_all add: fso.defs zero_part_def zero_fso_def nat_fso.defs)
  have hd: "getfso_hdr rd wr dev False ?b (bufs s) = Some (EZERO, ?l, c2)" using r z(1) by (simp add: getfso_hdr_def)
  let ?s1 = "(put_obj n ?l ?s0)\<lparr>nat_of := (nat_of s)(k := nat_of s k), bufs := c2\<rparr>"
  let ?s2 = "upd_fso n (o_state_update (\<lambda>_. R_OK OR W_OK)) ?s1"
  have f: "obj_fs ?s0 n = Some (k, dev)" "nat_obj ?s0 n = ?b" "fs_fso ?s0 n = ?z" "fs_fs ?s0 = fs_fs s" "bufs ?s0 = bufs s" "nat_of ?s0 = nat_of s"
    using tblD(1,2) [OF T] by (simp_all add: obj_fs_def upd_fso_def nat_obj_def)
  have "fs_state n (R_OK OR W_OK) ?s1 = Some ?s2"
    using z(6-8) by (simp add: fs_state_def Let_def upd_fso_def put_obj_def hdr_load_fields fso.defs)
  moreover have "\<not> insecure (fs_of ?s0 ?z)" using tblD(3) [OF T] by (simp add: fs_of_def upd_fso_def)
  ultimately have "nat_getfso rd wr n (upd_fso n (\<lambda>_. ?z) (s\<lparr>fs_fso_high := m\<rparr>)) = Some (EZERO, ?s2)"
    using hd f by (simp add: nat_getfso_def on_obj_def upd_fso_def fs_of_def)
  then have g: "getobj rd wr atmem k h s = Some (Inr n, ?s2)" using fresh(7) by (simp add: getobj_def)
  have nat_obj_other: "j \<noteq> n \<Longrightarrow> nat_obj ?s0 j = nat_obj s j" for j by (simp add: nat_obj_def upd_fso_def)
  have ob: "nat_obj ?s2 j = (if j = n then ?l\<lparr>o_state := R_OK OR W_OK\<rparr> else nat_obj s j)" for j
    by (simp add: nat_obj_state nat_obj_other)
  have w: "same_world s ?s2" "fs_fso_high ?s2 = m" "bufs ?s2 = c2" by (simp_all add: same_world_def upd_fso_def put_obj_def)
  have n0: "o_refcnt (fs_fso s n) = 0" using fresh(5) tblD(5) [OF T, of n] by linarith
  have rc: "o_refcnt (fs_fso ?s2 j) = o_refcnt (fs_fso s j) + of_bool (n = j)" for j
    using arg_cong [OF ob, of o_refcnt j] z(4) n0 unfolding nat_obj_fields by (auto simp: hdr_load_fields nat_obj_fields)
  have "tbl V dev k H ?s2"
  proof (rule tbl_new [OF T fresh(1,2) _ fresh(4,6)])
    show "m \<le> FS_MAXFSO" using fresh(3) tblD(4) [OF T] by (simp add: unique_objs_def)
  qed (use w ob z h(1) load_incore [OF z(1-3)] in \<open>simp_all add: same_world_def hdr_load_fields\<close>)
  moreover have "in_tbl k ?s2 n" "o_index (fs_fso ?s2 n) = int h"
    using rc [of n] n0 z by (simp_all add: in_tbl_def upd_fso_def put_obj_def hdr_load_fields fso.defs)
  ultimately show ?thesis using g w rc r(4,5) fresh(2) by (intro exI [of _ "Inr n"] exI [of _ ?s2]) auto
qed

text \<open>What a lookup does to the state from \<open>s\<close> to \<open>s'\<close>, and the references that it holds besides those counted in \<open>R\<close>.\<close>

end

definition walked ::
    "('d \<Rightarrow> nat \<Rightarrow> nat \<Rightarrow> 8 word list) \<Rightarrow> ('d \<Rightarrow> nat \<Rightarrow> nat \<Rightarrow> bool) \<Rightarrow> ('d \<Rightarrow> bool) \<Rightarrow> nat \<Rightarrow> nat \<Rightarrow> nat set \<Rightarrow> 'd nstate \<Rightarrow> 'd nstate \<Rightarrow> bool" where
  "walked sector has dok dev k H s s' \<longleftrightarrow> same_world s s' \<and> fs_fso_high s \<le> fs_fso_high s' \<and> tbl (view sector (bufs s)) dev k H s' \<and>
     quiet sector has dok (bufs s) (bufs s') \<and> view sector (bufs s') = view sector (bufs s)"

definition refs_are :: "(nat \<Rightarrow> int) \<Rightarrow> nat option \<Rightarrow> 'd nstate \<Rightarrow> bool" where
  "refs_are R io s \<longleftrightarrow> (\<forall>j. o_refcnt (fs_fso s j) = R j + of_bool (io = Some j))"

definition lookup_inv ::
    "('d \<Rightarrow> nat \<Rightarrow> nat \<Rightarrow> 8 word list) \<Rightarrow> ('d \<Rightarrow> nat \<Rightarrow> nat \<Rightarrow> bool) \<Rightarrow> ('d \<Rightarrow> bool) \<Rightarrow> nat \<Rightarrow> nat \<Rightarrow> nat set \<Rightarrow> 'd nstate \<Rightarrow> bool" where
  "lookup_inv sector has dok dev k H s \<longleftrightarrow>
     tbl (view sector (bufs s)) dev k H s \<and> tree_inv sector has dok dev H (nat_of s k) (bufs s) \<and> curr s \<noteq> None"

lemma walked_trans: "walked sector has dok dev k H a b \<Longrightarrow> walked sector has dok dev k H b c \<Longrightarrow> walked sector has dok dev k H a c"
  unfolding walked_def using same_world_trans quiet_trans by (metis order_trans)

context block_driver
begin

lemma walked_inv:
  assumes "lookup_inv sector has dok dev k H s" and "walked sector has dok dev k H s s'"
  shows "lookup_inv sector has dok dev k H s'"
  using assms tree_inv_quiet [of dev H "nat_of s k" "bufs s" "bufs s'"] unfolding lookup_inv_def walked_def same_world_def by simp

text \<open>One step: the entry \<open>name\<close> of the directory \<open>dir\<close>, which is let go.\<close>

lemma step_works:
  fixes name :: string
  assumes L: "lookup_inv sector has dok dev k H s" and i: "in_tbl k s dir" and R: "refs_are R (Some dir) s"
  defines "V \<equiv> view sector (bufs s)"
  defines "e \<equiv> entry V dev (search_perm s k V dev) (nat (o_index (fs_fso s dir))) name"
  shows "\<exists>r s1 s2. find_obj rd wr dir name s = Some (r, s1) \<and> putobj rd wr (Some dir) s1 = Some s2 \<and>
     (case r of
        Inl x \<Rightarrow> e = Inl x \<and> walked sector has dok dev k H s s2 \<and> refs_are R None s2
      | Inr d \<Rightarrow> \<exists>r2 s3 s4. getobj rd wr atmem k (dent_block d s2) s2 = Some (r2, s3) \<and> on_bufs (blk_put (Some (fst d))) s3 = Some s4 \<and>
          walked sector has dok dev k H s s4 \<and>
          (case r2 of
             Inl x \<Rightarrow> no_room atmem R (fs_fso_high s) x \<and> refs_are R None s4
           | Inr j \<Rightarrow> in_tbl k s4 j \<and> e = Inr (nat (o_index (fs_fso s4 j))) \<and> refs_are R (Some j) s4))"
proof -
  have T: "tbl V dev k H s" "tree_inv sector has dok dev H (nat_of s k) (bufs s)" and "curr s \<noteq> None"
    using L by (simp_all add: lookup_inv_def V_def)
  then obtain c where c: "curr s = Some c" by blast
  have I: "o_refcnt (fs_fso s dir) \<noteq> 0" "o_fs (fs_fso s dir) = Fs k" using i by (simp_all add: in_tbl_def)
  obtain r s1 c1 where 1: "find_obj rd wr dir name s = Some (r, s1)" "same_world s s1" "fs_fso s1 = fs_fso s" "fs_fso_high s1 = fs_fso_high s"
      "tbl V dev k H s1" "quiet sector has dok (bufs s) c1" "view sector c1 = V"
      "case r of Inl x \<Rightarrow> e = Inl x \<and> bufs s1 = c1
       | Inr d \<Rightarrow> (\<exists>n. took sector has dok dev n (fst d) c1 (bufs s1)) \<and> e = Inr (dent_block d s1) \<and> dent_block d s1 \<in> H"
    using find_obj_works [OF T [unfolded V_def] c I] unfolding V_def e_def by blast
  let ?s2 = "upd_fso dir (add_ref (-1)) s1"
  have "in_tbl k s1 dir" using i 1(3) by (simp add: in_tbl_def)
  note P = putobj_works [OF 1(5) this tree_invD(2) [OF T(2), folded V_def]]
  have s2: "same_world s ?s2" "bufs ?s2 = bufs s1" "fs_fso_high ?s2 = fs_fso_high s" "refs_are R None ?s2"
    using 1(2-4) R by (auto simp: same_world_def upd_fso_def refs_are_def)
  show ?thesis
  proof (cases r)
    case (Inl x)
    then have "walked sector has dok dev k H s ?s2" using 1(6-8) P(2) s2 by (simp add: walked_def V_def)
    then show ?thesis using 1(1,8) P(1) s2(4) Inl by auto
  next
    case (Inr d)
    obtain n where t: "took sector has dok dev n (fst d) c1 (bufs ?s2)" and h: "e = Inr (dent_block d ?s2)" "dent_block d ?s2 \<in> H"
      using 1(8) Inr s2(2) by (auto simp: dent_block_def)
    have q: "ready sector has dok (bufs ?s2)" "view sector (bufs ?s2) = V" "has (disk (bufs ?s2)) = has (disk (bufs s))" "nfree c1 \<le> nfree (bufs ?s2) + 1"
      using t 1(7) quiet_has [OF 1(6)] nfree_drop [of "bufs ?s2" c1 "fst d"] by (auto simp: took_def buf_kept_def)
    have "nfree (bufs ?s2) > 0" "has (disk (bufs ?s2)) dev (dent_block d ?s2)"
      using q(3,4) quiet_nfree [OF 1(6)] T(2) tree_invD(1) [OF T(2) h(2)] by (simp_all add: tree_inv_def)
    then obtain r2 s3 where 3: "getobj rd wr atmem k (dent_block d ?s2) ?s2 = Some (r2, s3)" "same_world ?s2 s3" "fs_fso_high ?s2 \<le> fs_fso_high s3" "tbl V dev k H s3"
        "quiet sector has dok (bufs ?s2) (bufs s3)" "view sector (bufs s3) = V"
        "\<forall>j. o_refcnt (fs_fso s3 j) = o_refcnt (fs_fso ?s2 j) + of_bool (r2 = Inr j)"
        "case r2 of Inl x \<Rightarrow> no_room atmem (\<lambda>j. o_refcnt (fs_fso ?s2 j)) (fs_fso_high ?s2) x
         | Inr j \<Rightarrow> in_tbl k s3 j \<and> o_index (fs_fso s3 j) = int (dent_block d ?s2)"
      using getobj_works [OF P(2) q(1) _ q(2) h(2)] by blast
    obtain c4 where 4: "blk_put (Some (fst d)) (bufs s3) = Some c4" "quiet sector has dok c1 c4" "view sector c4 = V"
      using took_put [OF t 3(5)] 3(6) by auto
    let ?s4 = "s3\<lparr>bufs := c4\<rparr>"
    have "tbl V dev k H ?s4" using 3(4) by (simp add: tbl_def unique_objs_def)
    then have "walked sector has dok dev k H s ?s4"
      using same_world_trans [OF s2(1) 3(2)] 3(3) s2(3) quiet_trans [OF 1(6) 4(2)] 4(3) by (simp add: walked_def V_def same_world_def)
    moreover have "on_bufs (blk_put (Some (fst d))) s3 = Some ?s4" using 4(1) by (simp add: on_bufs_def)
    moreover have "refs_are R (case r2 of Inl _ \<Rightarrow> None | Inr j \<Rightarrow> Some j) ?s4" using 3(7) s2(4) by (auto simp: refs_are_def split: sum.splits)
    moreover have "no_room atmem R (fs_fso_high s) x" if "r2 = Inl x" for x
      using 3(8) s2(3,4) that by (simp add: refs_are_def)
    ultimately show ?thesis using 1(1) P(1) 3(1,8) h(1) Inr
      by (intro exI [of _ r] exI [of _ s1] exI [of _ ?s2]) (auto simp: in_tbl_def split: sum.splits)
  qed
qed

lemma walked_refl: "lookup_inv sector has dok dev k H s \<Longrightarrow> walked sector has dok dev k H s s"
  by (simp add: lookup_inv_def walked_def tree_inv_def quiet_refl)

lemma no_room_less: "no_room atmem R M x \<Longrightarrow> N \<le> M \<Longrightarrow> \<forall>j \<ge> N. R j = 0 \<Longrightarrow> no_room atmem R N x"
  by (cases "M = N") (auto simp: no_room_def)

lemma lookup_loop_works:
  assumes "lookup_inv sector has dok dev k H s" and "in_tbl k s dir" and "refs_are R (Some dir) s" and "short_names p"
    and "view sector (bufs s) = V" and "search_perm s k V dev = X" and "N \<le> fs_fso_high s" and none: "\<forall>j \<ge> N. R j = 0"
  shows "\<exists>r s'. lookup_loop rd wr atmem k dir p s = Some (r, s') \<and> walked sector has dok dev k H s s' \<and>
     (case r of
        Inl x \<Rightarrow> refs_are R None s' \<and> (walk_dirs V dev X (nat (o_index (fs_fso s dir))) p = Inl x \<or> no_room atmem R N x)
      | Inr None \<Rightarrow> False
      | Inr (Some j) \<Rightarrow> in_tbl k s' j \<and> refs_are R (Some j) s' \<and>
          walk_dirs V dev X (nat (o_index (fs_fso s dir))) p = Inr (nat (o_index (fs_fso s' j))))"
  using assms(1-7)
proof (induction p arbitrary: s dir rule: short_names.induct)
  case (1 p)
  let ?h = "nat (o_index (fs_fso s dir))" and ?n = "takeWhile (\<lambda>c. c \<noteq> slash) p" and ?p = "tl (dropWhile (\<lambda>c. c \<noteq> slash) p)"
  show ?case
  proof (cases "slash \<in> set p")
    case False
    then show ?thesis using "1.prems" walked_refl [OF "1.prems"(1)] by (simp add: lookup_loop.simps [of _ _ _ _ _ p] walk_dirs.simps [of _ _ _ _ p])
  next
    case True
    then have nn: "\<not> slash \<notin> set p" by simp
    from True have sh: "length ?n \<le> NAT_NAME_MAX" "short_names ?p" using "1.prems"(4) by (simp_all add: short_names.simps [of p])
    have w: "walk_dirs V dev X h p = (case entry V dev X h ?n of Inl x \<Rightarrow> Inl x | Inr h' \<Rightarrow> walk_dirs V dev X h' ?p)" for h
      using True by (simp add: walk_dirs.simps [of _ _ _ _ p])
    obtain r s1 s2 where S: "find_obj rd wr dir ?n s = Some (r, s1)" "putobj rd wr (Some dir) s1 = Some s2"
        "case r of
          Inl x \<Rightarrow> entry V dev X ?h ?n = Inl x \<and> walked sector has dok dev k H s s2 \<and> refs_are R None s2
        | Inr d \<Rightarrow> \<exists>r2 s3 s4. getobj rd wr atmem k (dent_block d s2) s2 = Some (r2, s3) \<and> on_bufs (blk_put (Some (fst d))) s3 = Some s4 \<and>
            walked sector has dok dev k H s s4 \<and>
            (case r2 of
               Inl x \<Rightarrow> no_room atmem R (fs_fso_high s) x \<and> refs_are R None s4
             | Inr j \<Rightarrow> in_tbl k s4 j \<and> entry V dev X ?h ?n = Inr (nat (o_index (fs_fso s4 j))) \<and> refs_are R (Some j) s4)"
      using step_works [OF "1.prems"(1-3), of ?n atmem] "1.prems"(5,6) by blast
    note l = lookup_loop.simps [of rd wr atmem k dir p s]
    show ?thesis
    proof (cases r)
      case (Inl x)
      then have "lookup_loop rd wr atmem k dir p s = Some (Inl x, s2)" unfolding l using True sh(1) S(1,2) by (simp add: Let_def)
      then show ?thesis using S(3) Inl w by simp
    next
      case (Inr d)
      then obtain r2 s3 s4 where D: "getobj rd wr atmem k (dent_block d s2) s2 = Some (r2, s3)" "on_bufs (blk_put (Some (fst d))) s3 = Some s4"
          "walked sector has dok dev k H s s4"
          "case r2 of
             Inl x \<Rightarrow> no_room atmem R (fs_fso_high s) x \<and> refs_are R None s4
           | Inr j \<Rightarrow> in_tbl k s4 j \<and> entry V dev X ?h ?n = Inr (nat (o_index (fs_fso s4 j))) \<and> refs_are R (Some j) s4"
        using S(3) by auto
      show ?thesis
      proof (cases r2)
        case (Inl x)
        then have "lookup_loop rd wr atmem k dir p s = Some (Inl x, s4)" unfolding l using True sh(1) S(1,2) Inr D(1,2) by (simp add: Let_def)
        then show ?thesis using D(3,4) Inl no_room_less [OF _ "1.prems"(7) none] by auto
      next
        case j: (Inr j)
        then have J: "in_tbl k s4 j" "entry V dev X ?h ?n = Inr (nat (o_index (fs_fso s4 j)))" "refs_are R (Some j) s4" using D(4) by simp_all
        have e: "lookup_loop rd wr atmem k dir p s = lookup_loop rd wr atmem k j ?p s4"
          unfolding l using True sh(1) S(1,2) Inr D(1,2) j by (simp add: Let_def)
        have "view sector (bufs s4) = V" "search_perm s4 k V dev = X" "N \<le> fs_fso_high s4"
          using D(3) "1.prems"(5-7) search_perm_world [of s s4 k V dev] by (auto simp: walked_def)
        from "1.IH" [OF nn walked_inv [OF "1.prems"(1) D(3)] J(1,3) sh(2) this]
        show ?thesis unfolding e w J(2) sum.case using walked_trans [OF D(3)] by blast
      qed
    qed
  qed
qed

text \<open>The whole lookup of a path.\<close>

lemma lookup_works:
  assumes L: "lookup_inv sector has dok dev k H s" and root: "root_block (nat_of s k) \<in> H" and sh: "short_names path"
  defines "V \<equiv> view sector (bufs s)"
  defines "m \<equiv> resolve V dev (search_perm s k V dev) (root_block (nat_of s k)) path"
  defines "R \<equiv> \<lambda>j. o_refcnt (fs_fso s j)"
  shows "\<exists>r s'. nat_lookup rd wr atmem k path s = Some (r, s') \<and> walked sector has dok dev k H s s' \<and>
     (case r of
        Inl x \<Rightarrow> refs_are R None s' \<and> (m = Inl x \<or> no_room atmem R (fs_fso_high s) x)
      | Inr j \<Rightarrow> in_tbl k s' j \<and> refs_are R (Some j) s' \<and> m = Inr (nat (o_index (fs_fso s' j))))"
proof -
  let ?X = "search_perm s k V dev" and ?h = "root_block (nat_of s k)" and ?b = "basename path"
  have T: "tbl V dev k H s" "tree_inv sector has dok dev H (nat_of s k) (bufs s)"
    using L by (simp_all add: lookup_inv_def V_def)
  then have c: "ready sector has dok (bufs s)" "nfree (bufs s) > 0" "view sector (bufs s) = V" by (simp_all add: tree_inv_def V_def)
  obtain r0 s0 where 0: "getobj rd wr atmem k ?h s = Some (r0, s0)" "same_world s s0" "fs_fso_high s \<le> fs_fso_high s0" "tbl V dev k H s0"
      "quiet sector has dok (bufs s) (bufs s0)" "view sector (bufs s0) = V" "\<forall>j. o_refcnt (fs_fso s0 j) = o_refcnt (fs_fso s j) + of_bool (r0 = Inr j)"
      "case r0 of Inl e \<Rightarrow> no_room atmem R (fs_fso_high s) e
       | Inr i \<Rightarrow> in_tbl k s0 i \<and> o_index (fs_fso s0 i) = int ?h"
    using getobj_works [OF T(1) c root tree_invD(1) [OF T(2) root]] unfolding R_def by blast
  then have W0: "walked sector has dok dev k H s s0" by (simp add: walked_def V_def)
  have none: "\<forall>j \<ge> fs_fso_high s. R j = 0" using tblD(5) [OF T(1)] by (simp add: R_def)
  note def = nat_lookup_def with_dir_def nat_lookup_dir_def
  show ?thesis
  proof (cases r0)
    case (Inl x)
    then have "nat_lookup rd wr atmem k path s = Some (Inl x, s0)" using 0(1) by (simp add: def)
    then show ?thesis using W0 0(7,8) Inl by (simp add: refs_are_def R_def)
  next
    case (Inr d0)
    have i0: "in_tbl k s0 d0" "refs_are R (Some d0) s0" "nat (o_index (fs_fso s0 d0)) = ?h" using 0(7,8) Inr by (simp_all add: refs_are_def R_def)
    note L0 = walked_inv [OF L W0]
    have X0: "search_perm s0 k V dev = ?X" using search_perm_world [OF 0(2)] by blast
    obtain r1 s1 where 1: "lookup_loop rd wr atmem k d0 path s0 = Some (r1, s1)" "walked sector has dok dev k H s0 s1"
        "case r1 of
           Inl x \<Rightarrow> refs_are R None s1 \<and> (walk_dirs V dev ?X ?h path = Inl x \<or> no_room atmem R (fs_fso_high s) x)
         | Inr None \<Rightarrow> False
         | Inr (Some j) \<Rightarrow> in_tbl k s1 j \<and> refs_are R (Some j) s1 \<and> walk_dirs V dev ?X ?h path = Inr (nat (o_index (fs_fso s1 j)))"
      using lookup_loop_works [OF L0 i0(1,2) sh 0(6) X0 0(3) none] unfolding i0(3) by blast
    note W1 = walked_trans [OF W0 1(2)]
    show ?thesis
    proof (cases r1)
      case (Inl x)
      then have "nat_lookup rd wr atmem k path s = Some (Inl x, s1)" using 0(1) Inr 1(1) by (simp add: def)
      then show ?thesis using W1 1(3) Inl by (auto simp: m_def resolve_def)
    next
      case r1: (Inr o1)
      then obtain j where j: "o1 = Some j" "in_tbl k s1 j" "refs_are R (Some j) s1" "walk_dirs V dev ?X ?h path = Inr (nat (o_index (fs_fso s1 j)))"
        using 1(3) by (cases o1) auto
      show ?thesis
      proof (cases "?b = []")
        case True
        then have "nat_lookup rd wr atmem k path s = Some (Inr j, s1)" using 0(1) Inr 1(1) r1 j(1) by (simp add: def)
        then show ?thesis using W1 j True by (auto simp: m_def resolve_def)
      next
        case False
        then have m: "m = entry V dev ?X (nat (o_index (fs_fso s1 j))) ?b" using j(4) by (simp add: m_def resolve_def)
        have v: "view sector (bufs s1) = V" "search_perm s1 k V dev = ?X" "fs_fso_high s \<le> fs_fso_high s1"
          using W1 search_perm_world [of s s1 k V dev] by (auto simp: walked_def V_def)
        obtain r2 s2 s3 where S: "find_obj rd wr j ?b s1 = Some (r2, s2)" "putobj rd wr (Some j) s2 = Some s3"
            "case r2 of
              Inl x \<Rightarrow> m = Inl x \<and> walked sector has dok dev k H s1 s3 \<and> refs_are R None s3
            | Inr d \<Rightarrow> \<exists>r3 s4 s5. getobj rd wr atmem k (dent_block d s3) s3 = Some (r3, s4) \<and> on_bufs (blk_put (Some (fst d))) s4 = Some s5 \<and>
                walked sector has dok dev k H s1 s5 \<and>
                (case r3 of
                   Inl x \<Rightarrow> no_room atmem R (fs_fso_high s1) x \<and> refs_are R None s5
                 | Inr j \<Rightarrow> in_tbl k s5 j \<and> m = Inr (nat (o_index (fs_fso s5 j))) \<and> refs_are R (Some j) s5)"
          using step_works [OF walked_inv [OF L W1] j(2,3), of ?b atmem] unfolding v m by blast
        have nl: "nat_lookup rd wr atmem k path s = (case r2 of
             Inl e \<Rightarrow> Some (Inl e, s3)
           | Inr d \<Rightarrow> do {
               (r2, s4) \<leftarrow> getobj rd wr atmem k (dent_block d s3) s3;
               s5 \<leftarrow> on_bufs (blk_put (Some (fst d))) s4;
               Some (r2, s5)
             })" using 0(1) Inr 1(1) r1 j(1) False S(1,2) by (simp add: def)
        show ?thesis
        proof (cases r2)
          case (Inl x)
          then show ?thesis using nl S(3) walked_trans [OF W1] by auto
        next
          case (Inr d)
          then obtain r3 s4 s5 where D: "getobj rd wr atmem k (dent_block d s3) s3 = Some (r3, s4)" "on_bufs (blk_put (Some (fst d))) s4 = Some s5"
              "walked sector has dok dev k H s1 s5"
              "case r3 of
                 Inl x \<Rightarrow> no_room atmem R (fs_fso_high s1) x \<and> refs_are R None s5
               | Inr j \<Rightarrow> in_tbl k s5 j \<and> m = Inr (nat (o_index (fs_fso s5 j))) \<and> refs_are R (Some j) s5"
            using S(3) by auto
          then have "nat_lookup rd wr atmem k path s = Some (r3, s5)" using nl Inr by simp
          then show ?thesis using D(4) walked_trans [OF W1 D(3)] no_room_less [OF _ v(3) none] by (auto split: sum.splits)
        qed
      qed
    qed
  qed
qed

end

text \<open>
  C13: Looking up a path finds the file that the path means: the one that the directories on the blocks lead to from the root, as far as the
  running task may search them, with the same error if there is none. The only other error is that every object of the table is in use.
  No block changes, no buffer stays in use, and the only object that has one more reference is the one that is found. This is for paths in which no
  name of a directory, that is, no name in front of a slash, has more than 27 characters (for longer ones the code reports success and returns no directory), and on a
  file system that is not mounted insecure and whose objects in core agree with their headers on the device.
\<close>

theorem nat_lookup_resolves:
  assumes "block_driver rd wr sector has dok" and "lookup_inv sector has dok dev k H s" and "root_block (nat_of s k) \<in> H" and "short_names path"
  shows "\<exists>r s'. nat_lookup rd wr atmem k path s = Some (r, s') \<and> lookup_inv sector has dok dev k H s' \<and>
     same_world s s' \<and> quiet sector has dok (bufs s) (bufs s') \<and> view sector (bufs s') = view sector (bufs s) \<and>
     (\<forall>j. o_refcnt (fs_fso s' j) = o_refcnt (fs_fso s j) + of_bool (r = Inr j)) \<and>
     (let m = resolve (view sector (bufs s)) dev (search_perm s k (view sector (bufs s)) dev) (root_block (nat_of s k)) path
      in case r of
           Inl x \<Rightarrow> m = Inl x \<or> no_room atmem (\<lambda>j. o_refcnt (fs_fso s j)) (fs_fso_high s) x
         | Inr j \<Rightarrow> o_fs (fs_fso s' j) = Fs k \<and> m = Inr (nat (o_index (fs_fso s' j))))"
proof -
  obtain r s' where *: "nat_lookup rd wr atmem k path s = Some (r, s')" "walked sector has dok dev k H s s'"
      "case r of
         Inl x \<Rightarrow> refs_are (\<lambda>j. o_refcnt (fs_fso s j)) None s' \<and>
           (resolve (view sector (bufs s)) dev (search_perm s k (view sector (bufs s)) dev) (root_block (nat_of s k)) path = Inl x \<or>
            no_room atmem (\<lambda>j. o_refcnt (fs_fso s j)) (fs_fso_high s) x)
       | Inr j \<Rightarrow> in_tbl k s' j \<and> refs_are (\<lambda>j. o_refcnt (fs_fso s j)) (Some j) s' \<and>
           resolve (view sector (bufs s)) dev (search_perm s k (view sector (bufs s)) dev) (root_block (nat_of s k)) path = Inr (nat (o_index (fs_fso s' j)))"
    using block_driver.lookup_works [OF assms] by blast
  then show ?thesis using block_driver.walked_inv [OF assms(1,2) *(2)]
    by (intro exI [of _ r] exI [of _ s']) (auto simp: walked_def refs_are_def in_tbl_def Let_def split: sum.splits)
qed

end
