(* ===== verification/Fs_Mount.thy ===== *)
theory Fs_Mount
  imports Fs_Call Nat_Lookup Sync
begin

text \<open>
  Mounting (\<^verbatim>\<open>src/kern/fs/mount.c\<close>), on the state with the block cache, and the types of the file systems that are modelled: pipes and the
  native file system.

  \<open>op\<close> and \<open>cl\<close> are the drivers' \<^verbatim>\<open>open\<close> and \<^verbatim>\<open>close\<close>, \<open>now\<close> is \<^verbatim>\<open>clock_uptime()\<close> in \<open>fs_activate\<close> and \<open>fs_clock\<close>.
\<close>

type_synonym 'd ntype = "('d, unit) nstate_ext fstype"
type_synonym 'd ntypes = "('d, unit) nstate_ext fstypes"

section \<open>The types\<close>

definition nat_part_zero :: nat_fs where
  "nat_part_zero = \<lparr>bam_block = 0, bam_size = 0, data_block = 0, data_size = 0, root_block = 0, free_block = 0, bam_buf = zeros, bam_curr = 0,
     bam_dirty = False, fs_ndirblks = 0, fs_nindirlev = 0\<rparr>"

definition obj_perm :: "nat \<Rightarrow> 32 word \<Rightarrow> (errno \<Rightarrow> 'd nstate \<Rightarrow> 'a option) \<Rightarrow> 'd nstate \<Rightarrow> 'a option" where
  "obj_perm i mode g s = do { p \<leftarrow> perm i mode s; g p s }"

abbreviation (input) FIOCBMAP :: int where "FIOCBMAP \<equiv> 0xff01"

text \<open>The number of the block of the file at the position in the user's buffer.\<close>

definition nat_ioctl :: "'d drv_read \<Rightarrow> 'd drv_write \<Rightarrow> nat \<Rightarrow> int \<Rightarrow> ubuf \<Rightarrow> 'd nstate \<Rightarrow> ((errno + nat option) \<times> 'd nstate) option" where
  "nat_ioctl rd wr i cmd buf s =
     (if cmd \<noteq> FIOCBMAP then Some (Inl ENOTTY, s)
      else obj_perm i R_OK (\<lambda>p s.
        if p \<noteq> EZERO then Some (Inl p, s)
        else case fst buf of
          Inl e \<Rightarrow> Some (Inl e, s)
        | Inr n \<Rightarrow> on_obj i (\<lambda>dev b f c. do {
            (e, b1, f1, c1) \<leftarrow> nat_bmap rd wr dev n False b f c;
            Some (if e \<noteq> EZERO then Inl e else if snd buf \<noteq> EZERO then Inl (snd buf) else Inr (Some (bmap_phys b1)), b1, f1, c1)
          }) s) s)"

definition nat_ops :: "'d drv_read \<Rightarrow> 'd drv_write \<Rightarrow> errno \<Rightarrow> int \<Rightarrow> 'd ntype" where
  "nat_ops rd wr atmem now =
     \<lparr>ft_name = ''native'',
      ft_mount = (\<lambda>k s. on_fs k (\<lambda>dev. nat_mount rd wr dev (read_only (fs_fs s ! k))) s),
      ft_umount = (\<lambda>k s. on_fs k (\<lambda>dev. nat_umount rd wr dev (read_only (fs_fs s ! k))) s),
      ft_lookup = nat_lookup rd wr atmem,
      ft_creat = nat_creat rd wr atmem now,
      ft_putfso = natfs_putfso rd wr,
      ft_syncfso = (\<lambda>i s. on_obj i (\<lambda>dev b f c. do {
          (e, b1, c1) \<leftarrow> nat_syncfso wr dev (insecure (fs_of s (fs_fso s i))) b c; Some (e, b1, f, c1) }) s),
      ft_readdir = (\<lambda>i index. obj_perm i R_OK (\<lambda>p. on_obj i (\<lambda>dev b f c. do {
          (e, de, b1, f1, c1) \<leftarrow> nat_readdir rd wr dev p index \<lparr>de_index = 0, de_name = []\<rparr> b f c;
          Some (if e \<noteq> EZERO then Inl e else Inr (de_index de, map (\<lambda>x. char_of (unat x)) (de_name de)), b1, f1, c1) }))),
      ft_ioctl = nat_ioctl rd wr,
      ft_read = (\<lambda>rq n. obj_perm (rq_fso rq) R_OK (\<lambda>p s. on_obj (rq_fso rq) (\<lambda>dev b f c. do {
          let fs = fs_of s (fs_fso s (rq_fso rq));
          (r, b1, f1, c1) \<leftarrow> nat_read rd wr dev p now (read_only fs) (no_atime fs) (rq_offset rq) n b f c;
          Some (Inl r, b1, f1, c1) }) s)),
      ft_write = (\<lambda>rq bs. obj_perm (rq_fso rq) W_OK (\<lambda>p. on_obj (rq_fso rq) (\<lambda>dev b f c. do {
          (e, b1, f1, c1) \<leftarrow> nat_write rd wr dev p now (rq_offset rq) bs b f c;
          Some (if e \<noteq> EZERO then Failed e else Wrote (length bs), b1, f1, c1) }))),
      ft_trunc = (\<lambda>i. on_obj i (\<lambda>dev. nat_trunc rd wr dev)),
      ft_chk_perm = nat_chk_perm,
      ft_link = nat_link rd wr atmem now,
      ft_unlink = nat_unlink rd wr atmem now,
      ft_rename = nat_rename rd wr atmem now,
      ft_chdir = nat_chdir rd wr atmem,
      ft_mkdir = nat_mkdir rd wr atmem now,
      ft_rmdir = nat_rmdir rd wr atmem now,
      ft_statfs = (\<lambda>k. on_fs k (\<lambda>dev f c. do {
          (r, f1, c1) \<leftarrow> nat_statfs rd wr dev f c;
          Some (case r of Inl e \<Rightarrow> Inl e | Inr st \<Rightarrow> Inr (blk_total st, int (blk_free st)), f1, c1) })),
      ft_sync = (\<lambda>k. on_fs k (\<lambda>dev. nat_sync rd wr dev)),
      ft_ttyname = None\<rparr>"

text \<open>The types that are modelled: pipes have none that is mounted, and every type that is mounted is the native one.\<close>

definition kern_types :: "'d drv_read \<Rightarrow> 'd drv_write \<Rightarrow> errno \<Rightarrow> int \<Rightarrow> 'd ntypes" where
  "kern_types rd wr atmem now t = (case t of None \<Rightarrow> pipe_ops | Some _ \<Rightarrow> nat_ops rd wr atmem now)"

section \<open>Mounting\<close>

definition zero_fs :: fs where
  "zero_fs = \<lparr>prefix = [], removable = False, read_only = False, no_atime = False, insecure = False, active = False, in_use = False,
     unmount_time = 0, fs_type = None, fs_dev = None\<rparr>"

definition upd_fs :: "nat \<Rightarrow> (fs \<Rightarrow> fs) \<Rightarrow> 'z fstate_scheme \<Rightarrow> 'z fstate_scheme" where
  "upd_fs k g s = s\<lparr>fs_fs := (fs_fs s)[k := g (fs_fs s ! k)]\<rparr>"

text \<open>An operation of the cache on the device of a file system, if it has one.\<close>

definition on_dev :: "nat option \<Rightarrow> (nat \<Rightarrow> 'd bcache \<Rightarrow> (errno \<times> 'd bcache) option) \<Rightarrow> 'd nstate \<Rightarrow> 'd nres" where
  "on_dev dv g s =
     (case dv of
        None \<Rightarrow> Some (EZERO, s)
      | Some dev \<Rightarrow> do { (e, c) \<leftarrow> g dev (bufs s); Some (e, s\<lparr>bufs := c\<rparr>) })"

definition set_flags :: "nat \<Rightarrow> fs \<Rightarrow> fs" where
  "set_flags flags f = f\<lparr>read_only := odd flags, no_atime := odd (flags div 2), removable := odd (flags div 4), insecure := odd (flags div 8), in_use := True\<rparr>"

definition fs_mount ::
    "'d ntypes \<Rightarrow> type_table \<Rightarrow> 'd drv_write \<Rightarrow> 'd drv_ctl \<Rightarrow> 'd drv_ctl \<Rightarrow> string \<Rightarrow> string \<Rightarrow> string \<Rightarrow> nat \<Rightarrow> 'd nstate \<Rightarrow> 'd nres" where
  "fs_mount T tab wr op cl pre bdev_name fstype flags s =
     (if list_ex (\<lambda>f. in_use f \<and> (prefix f = pre \<or> (case fs_dev f of None \<Rightarrow> False | Some d \<Rightarrow> bd_name (bdevs (bufs s) d) = bdev_name))) (fs_fs s)
      then Some (EMOUNTED, s)
      else case List.find (\<lambda>k. \<not> in_use (fs_fs s ! k)) [0..<FS_MAXFS] of
        None \<Rightarrow> Some (ENOMEM, s)
      | Some k \<Rightarrow>
          let s1 = (upd_fs k (\<lambda>_. zero_fs\<lparr>prefix := pre\<rparr>) s)\<lparr>nat_of := (nat_of s)(k := nat_part_zero)\<rparr>
          in case (if bdev_name = ''nodev'' then Inr None else map_sum id Some (blk_find bdev_name (bufs s1))) of
            Inl e \<Rightarrow> Some (e, s1)
          | Inr dv \<Rightarrow>
              (case fs_find T tab fstype of
                 Inl e \<Rightarrow> Some (e, upd_fs k (fs_dev_update (\<lambda>_. dv)) s1)
               | Inr t \<Rightarrow> do {
                   let s2 = upd_fs k (\<lambda>f. f\<lparr>fs_dev := dv, fs_type := Some t\<rparr>) s1;
                   (e, s3) \<leftarrow> on_dev dv (blk_open op) s2;
                   if e \<noteq> EZERO then Some (e, s3)
                   else let s4 = upd_fs k (set_flags flags) s3
                     in if odd (flags div 4) then Some (EZERO, s4)
                     else do {
                       (e, s5) \<leftarrow> ft_mount (type_fs T s4 k) k s4;
                       if e \<noteq> EZERO then do {
                         (_, s6) \<leftarrow> on_dev dv (blk_close wr cl) (upd_fs k (in_use_update (\<lambda>_. False)) s5);
                         Some (e, s6)
                       }
                       else Some (EZERO, upd_fs k (active_update (\<lambda>_. True)) s5)
                     }
                 }))"

text \<open>Is a file of the file system in core?\<close>

definition fs_busy :: "nat \<Rightarrow> 'z fstate_scheme \<Rightarrow> bool" where
  "fs_busy k s = list_ex (\<lambda>n. o_refcnt (fs_fso s n) \<noteq> 0 \<and> o_fs (fs_fso s n) = Fs k) [0..<fs_fso_high s]"

definition fs_umount :: "'d ntypes \<Rightarrow> 'd drv_write \<Rightarrow> 'd drv_ctl \<Rightarrow> string \<Rightarrow> 'd nstate \<Rightarrow> 'd nres" where
  "fs_umount T wr cl pre s =
     (case List.find (\<lambda>k. in_use (fs_fs s ! k) \<and> prefix (fs_fs s ! k) = pre) [0..<FS_MAXFS] of
        None \<Rightarrow> Some (ENOENT, s)
      | Some k \<Rightarrow>
          if fs_busy k s then Some (EBUSY, s)
          else do {
            (e, s1) \<leftarrow> (if active (fs_fs s ! k) then ft_umount (type_fs T s k) k s else Some (EZERO, s));
            (e2, s2) \<leftarrow> on_dev (fs_dev (fs_fs s1 ! k)) (blk_close wr cl) s1;
            Some (if e = EZERO then e2 else e, upd_fs k (in_use_update (\<lambda>_. False)) s2)
          })"

section \<open>Removable media\<close>

abbreviation (input) FS_UDELAY :: int where "FS_UDELAY \<equiv> 5"

definition fs_sched_unmount :: "int \<Rightarrow> nat \<Rightarrow> 'z fstate_scheme \<Rightarrow> 'z fstate_scheme option" where
  "fs_sched_unmount now k s =
     (if \<not> removable (fs_fs s ! k) then None else Some (upd_fs k (unmount_time_update (\<lambda>_. now + FS_UDELAY)) s))"

definition sync_drop :: "'d drv_write \<Rightarrow> nat \<Rightarrow> 'd nstate \<Rightarrow> 'd nstate option" where
  "sync_drop wr k s = do { dev \<leftarrow> fs_dev (fs_fs s ! k); on_bufs (blk_syncdev wr dev True True) s }"

definition fs_activate :: "'d ntypes \<Rightarrow> 'd drv_write \<Rightarrow> int \<Rightarrow> nat \<Rightarrow> 'd nstate \<Rightarrow> 'd nres" where
  "fs_activate T wr now k s =
     (if \<not> removable (fs_fs s ! k) then Some (EZERO, s)
      else if active (fs_fs s ! k) then do { s1 \<leftarrow> fs_sched_unmount now k s; Some (EZERO, s1) }
      else do {
        (e, s1) \<leftarrow> ft_mount (type_fs T s k) k s;
        if e \<noteq> EZERO then do { s2 \<leftarrow> sync_drop wr k s1; Some (e, s2) }
        else do { s2 \<leftarrow> fs_sched_unmount now k (upd_fs k (active_update (\<lambda>_. True)) s1); Some (EZERO, s2) }
      })"

definition fs_dumount :: "'d ntypes \<Rightarrow> 'd drv_write \<Rightarrow> int \<Rightarrow> nat \<Rightarrow> 'd nstate \<Rightarrow> 'd nstate option" where
  "fs_dumount T wr now k s =
     (if \<not> active (fs_fs s ! k) then Some s
      else if fs_busy k s then fs_sched_unmount now k s
      else do {
        (_, s1) \<leftarrow> ft_umount (type_fs T s k) k s;
        sync_drop wr k (upd_fs k (active_update (\<lambda>_. False)) s1)
      })"

text \<open>The clock defers \<^verbatim>\<open>fs_dumount\<close> for every file system whose time has come.\<close>

fun fs_clock_loop :: "int \<Rightarrow> nat list \<Rightarrow> nat dprocs \<Rightarrow> 'z fstate_scheme \<Rightarrow> (nat dprocs \<times> 'z fstate_scheme) option" where
  "fs_clock_loop t [] d s = Some (d, s)"
| "fs_clock_loop t (k # ks) d s =
     (let f = fs_fs s ! k
      in if \<not> in_use f \<or> \<not> removable f \<or> \<not> active f \<or> unmount_time f = 0 \<or> unmount_time f > t then fs_clock_loop t ks d s
         else do {
           d1 \<leftarrow> task_defer (Some k) d;
           fs_clock_loop t ks d1 (upd_fs k (unmount_time_update (\<lambda>_. 0)) s)
         })"

definition fs_clock :: "int \<Rightarrow> nat dprocs \<Rightarrow> 'z fstate_scheme \<Rightarrow> (nat dprocs \<times> 'z fstate_scheme) option" where
  "fs_clock t d s = fs_clock_loop t [0..<FS_MAXFS] d s"

definition sys_mount ::
    "'d ntypes \<Rightarrow> type_table \<Rightarrow> 'd drv_write \<Rightarrow> 'd drv_ctl \<Rightarrow> 'd drv_ctl \<Rightarrow> upath \<Rightarrow> upath \<Rightarrow> upath \<Rightarrow> nat \<Rightarrow> 'd nstate \<Rightarrow> ((errno + int) \<times> 'd nstate) option" where
  "sys_mount T tab wr op cl p q r flags s =
     with_path p (\<lambda>pre. with_path q (\<lambda>dev. with_path r (\<lambda>type s. sys_done (fs_mount T tab wr op cl pre dev type flags s)))) s"

definition sys_umount :: "'d ntypes \<Rightarrow> 'd drv_write \<Rightarrow> 'd drv_ctl \<Rightarrow> upath \<Rightarrow> 'd nstate \<Rightarrow> ((errno + int) \<times> 'd nstate) option" where
  "sys_umount T wr cl p s = with_path p (\<lambda>pre s. sys_done (fs_umount T wr cl pre s)) s"

section \<open>The mount table as a map\<close>

text \<open>The file system that is mounted at a prefix.\<close>

definition mount_map :: "'z fstate_scheme \<Rightarrow> string \<Rightarrow> fs option" where
  "mount_map s pre = map_option (\<lambda>k. fs_fs s ! k) (List.find (\<lambda>k. in_use (fs_fs s ! k) \<and> prefix (fs_fs s ! k) = pre) [0..<FS_MAXFS])"

text \<open>
  The entries in use have a type, different prefixes and different devices, and the files in core belong to entries in use.
\<close>

definition mounts_ok :: "'z fstate_scheme \<Rightarrow> bool" where
  "mounts_ok s \<longleftrightarrow> length (fs_fs s) = FS_MAXFS \<and> (\<forall>k < FS_MAXFS. in_use (fs_fs s ! k) \<longrightarrow> fs_type (fs_fs s ! k) \<noteq> None) \<and>
     (\<forall>j < FS_MAXFS. \<forall>k < FS_MAXFS. in_use (fs_fs s ! j) \<longrightarrow> in_use (fs_fs s ! k) \<longrightarrow> j \<noteq> k \<longrightarrow>
        prefix (fs_fs s ! j) \<noteq> prefix (fs_fs s ! k) \<and> (fs_dev (fs_fs s ! j) = None \<or> fs_dev (fs_fs s ! j) \<noteq> fs_dev (fs_fs s ! k))) \<and>
     (\<forall>i k. i < fs_fso_high s \<longrightarrow> o_refcnt (fs_fso s i) \<noteq> 0 \<longrightarrow> o_fs (fs_fso s i) = Fs k \<longrightarrow> k < FS_MAXFS \<and> in_use (fs_fs s ! k))"

lemma mount_map_iff:
  assumes "mounts_ok s"
  shows "mount_map s pre = Some f \<longleftrightarrow> (\<exists>k < FS_MAXFS. in_use (fs_fs s ! k) \<and> prefix (fs_fs s ! k) = pre \<and> fs_fs s ! k = f)"
proof -
  have u: "j = k" if "j < FS_MAXFS" "k < FS_MAXFS" "in_use (fs_fs s ! j)" "in_use (fs_fs s ! k)" "prefix (fs_fs s ! j) = prefix (fs_fs s ! k)" for j k
    using assms that unfolding mounts_ok_def by metis
  show ?thesis
  proof (cases "List.find (\<lambda>k. in_use (fs_fs s ! k) \<and> prefix (fs_fs s ! k) = pre) [0..<FS_MAXFS]")
    case None
    then have "\<not> (in_use (fs_fs s ! k) \<and> prefix (fs_fs s ! k) = pre)" if "k < FS_MAXFS" for k using that by (auto simp: find_None_iff)
    then show ?thesis using None by (auto simp: mount_map_def)
  next
    case (Some k)
    then have "k < FS_MAXFS" "in_use (fs_fs s ! k)" "prefix (fs_fs s ! k) = pre" by (auto simp: find_Some_iff)
    then show ?thesis using Some u by (auto simp: mount_map_def)
  qed
qed

text \<open>Changing one entry of the table.\<close>

lemma mount_map_change:
  assumes s: "mounts_ok s" and s': "mounts_ok s'" and e: "fs_fs s' = (fs_fs s)[k := f]" and k: "k < FS_MAXFS"
  shows "mount_map s' = (if in_use (fs_fs s ! k) then (mount_map s)(prefix (fs_fs s ! k) := None) else mount_map s)
     ++ (if in_use f then [prefix f \<mapsto> f] else Map.empty)"
proof (rule ext)
  fix pre
  have l: "length (fs_fs s) = FS_MAXFS" using s by (simp add: mounts_ok_def)
  have n: "fs_fs s' ! j = (if j = k then f else fs_fs s ! j)" if "j < FS_MAXFS" for j using that k l e by (simp add: nth_list_update)
  have i': "mount_map s' pre = Some g \<longleftrightarrow> in_use f \<and> prefix f = pre \<and> f = g \<or> (\<exists>j < FS_MAXFS. j \<noteq> k \<and> in_use (fs_fs s ! j) \<and> prefix (fs_fs s ! j) = pre \<and> fs_fs s ! j = g)" for g
    unfolding mount_map_iff [OF s'] using k by (auto simp: n cong: conj_cong split: if_splits)
  have i: "mount_map s pre = Some g \<longleftrightarrow> (\<exists>j < FS_MAXFS. in_use (fs_fs s ! j) \<and> prefix (fs_fs s ! j) = pre \<and> fs_fs s ! j = g)" for g by (rule mount_map_iff [OF s])
  have x: "prefix (fs_fs s ! j) \<noteq> prefix (fs_fs s ! k)" if "j < FS_MAXFS" "j \<noteq> k" "in_use (fs_fs s ! j)" "in_use (fs_fs s ! k)" for j
    using s k that unfolding mounts_ok_def by blast
  have y: "prefix (fs_fs s ! j) \<noteq> prefix f" if "j < FS_MAXFS" "j \<noteq> k" "in_use (fs_fs s ! j)" "in_use f" for j
    using s' k that n [of j] n [of k] unfolding mounts_ok_def by (metis (no_types, lifting))
  have "mount_map s' pre = Some g \<longleftrightarrow> ((if in_use (fs_fs s ! k) then (mount_map s)(prefix (fs_fs s ! k) := None) else mount_map s)
      ++ (if in_use f then [prefix f \<mapsto> f] else Map.empty)) pre = Some g" for g
    unfolding i' map_add_Some_iff using i [of g] x y k by (auto; metis)
  then show "mount_map s' pre = ((if in_use (fs_fs s ! k) then (mount_map s)(prefix (fs_fs s ! k) := None) else mount_map s)
      ++ (if in_use f then [prefix f \<mapsto> f] else Map.empty)) pre" by (metis not_None_eq)
qed

text \<open>What a native file system and its device do to the table: nothing.\<close>

lemma on_dev_tables: "on_dev dv g s = Some (e, s') \<Longrightarrow> fs_fs s' = fs_fs s \<and> fs_fso s' = fs_fso s \<and> fs_fso_high s' = fs_fso_high s"
  by (auto simp: on_dev_def split: option.splits bind_splits)

lemma on_fs_tables: "on_fs k g s = Some (r, s') \<Longrightarrow> fs_fs s' = fs_fs s \<and> fs_fso s' = fs_fso s \<and> fs_fso_high s' = fs_fso_high s"
  by (auto simp: on_fs_def split: bind_splits)

lemma upd_fs_tables [simp]: "fs_fso (upd_fs k g s) = fs_fso s" "fs_fso_high (upd_fs k g s) = fs_fso_high s"
    "fs_fs (upd_fs k g s) = (fs_fs s)[k := g (fs_fs s ! k)]" "bufs (upd_fs k g s) = bufs s" "nat_of (upd_fs k g s) = nat_of s"
  by (simp_all add: upd_fs_def)

lemma native_type: "fs_type (fs_fs s ! k) \<noteq> None \<Longrightarrow> type_fs (kern_types rd wr atmem now) s k = nat_ops rd wr atmem now"
  by (auto simp: type_fs_def kern_types_def)

lemma native_tables:
  "ft_mount (nat_ops rd wr atmem now) k s = Some (e, s') \<Longrightarrow> fs_fs s' = fs_fs s \<and> fs_fso s' = fs_fso s \<and> fs_fso_high s' = fs_fso_high s"
  "ft_umount (nat_ops rd wr atmem now) k s = Some (e, s') \<Longrightarrow> fs_fs s' = fs_fs s \<and> fs_fso s' = fs_fso s \<and> fs_fso_high s' = fs_fso_high s"
  by (auto simp: nat_ops_def dest: on_fs_tables)

lemma blk_find_name: "blk_find name s = Inr d \<Longrightarrow> bd_name (bdevs s d) = name"
  by (auto simp: blk_find_def find_Some_iff split: option.splits)

text \<open>The entry \<open>f\<close> that \<^verbatim>\<open>fs_mount\<close> leaves behind, which is in use when there is no error \<open>e\<close>.\<close>

definition leaves_entry :: "nat \<Rightarrow> string \<Rightarrow> nat \<Rightarrow> nat option \<Rightarrow> errno \<Rightarrow> 'd nstate \<Rightarrow> 'd nstate \<Rightarrow> bool" where
  "leaves_entry k pre flags dv e s s' \<longleftrightarrow> (\<exists>f. fs_fs s' = (fs_fs s)[k := f] \<and> fs_fso s' = fs_fso s \<and> fs_fso_high s' = fs_fso_high s \<and>
     (in_use f \<longleftrightarrow> e = EZERO) \<and> prefix f = pre \<and>
     (e = EZERO \<longrightarrow> fs_type f \<noteq> None \<and> fs_dev f = dv \<and> (active f \<longleftrightarrow> \<not> removable f) \<and> read_only f = odd flags \<and> removable f = odd (flags div 4)))"

lemma mount_type_found:
  assumes k: "k < length (fs_fs s)" and m: "do {
      (e, s3) \<leftarrow> on_dev dv (blk_open op) s2;
      if e \<noteq> EZERO then Some (e, s3)
      else if odd (flags div 4) then Some (EZERO, upd_fs k (set_flags flags) s3)
      else do {
        (e, s5) \<leftarrow> ft_mount (type_fs (kern_types rd wr atmem now) (upd_fs k (set_flags flags) s3) k) k (upd_fs k (set_flags flags) s3);
        if e \<noteq> EZERO then do {
          (_, s6) \<leftarrow> on_dev dv (blk_close wr cl) (upd_fs k (in_use_update (\<lambda>_. False)) s5);
          Some (e, s6)
        }
        else Some (EZERO, upd_fs k (active_update (\<lambda>_. True)) s5)
      } } = Some (e, s')"
    and s2: "fs_fs s2 = (fs_fs s)[k := zero_fs\<lparr>prefix := pre, fs_dev := dv, fs_type := Some t\<rparr>]" "fs_fso s2 = fs_fso s" "fs_fso_high s2 = fs_fso_high s"
  shows "leaves_entry k pre flags dv e s s'"
proof -
  let ?f = "zero_fs\<lparr>prefix := pre, fs_dev := dv, fs_type := Some t\<rparr>"
  obtain e1 s3 where o: "on_dev dv (blk_open op) s2 = Some (e1, s3)" using m by (auto split: bind_splits)
  have s3: "fs_fs s3 = (fs_fs s)[k := ?f]" "fs_fso s3 = fs_fso s" "fs_fso_high s3 = fs_fso_high s" using on_dev_tables [OF o] s2 by simp_all
  let ?s4 = "upd_fs k (set_flags flags) s3"
  have s4: "fs_fs ?s4 = (fs_fs s)[k := set_flags flags ?f]" "fs_fs ?s4 ! k = set_flags flags ?f" using s3 k by simp_all
  consider "e1 \<noteq> EZERO" "s' = s3" "e = e1" | "e1 = EZERO" "odd (flags div 4)" "s' = ?s4" "e = EZERO"
    | e2 s5 where "even (flags div 4)" "ft_mount (nat_ops rd wr atmem now) k ?s4 = Some (e2, s5)"
        "if e2 \<noteq> EZERO then e = e2 \<and> (\<exists>e3. on_dev dv (blk_close wr cl) (upd_fs k (in_use_update (\<lambda>_. False)) s5) = Some (e3, s'))
         else e = EZERO \<and> s' = upd_fs k (active_update (\<lambda>_. True)) s5"
    using m [unfolded o] native_type [of ?s4 k] s4(2) by (auto simp: set_flags_def split: if_splits bind_splits)
  then show ?thesis
  proof cases
    case 1
    then show ?thesis using s3 unfolding leaves_entry_def by (intro exI [of _ ?f]) (simp add: zero_fs_def)
  next
    case 2
    then show ?thesis using s3 s4(1) unfolding leaves_entry_def by (intro exI [of _ "set_flags flags ?f"]) (simp add: zero_fs_def set_flags_def)
  next
    case 3
    note s5 = native_tables(1) [OF 3(2), unfolded s4(1)]
    show ?thesis
    proof (cases "e2 = EZERO")
      case True
      then show ?thesis using 3(1,3) s3 s5 k unfolding leaves_entry_def
        by (intro exI [of _ "(set_flags flags ?f)\<lparr>active := True\<rparr>"]) (simp add: zero_fs_def set_flags_def)
    next
      case False
      then obtain e3 where "e = e2" "on_dev dv (blk_close wr cl) (upd_fs k (in_use_update (\<lambda>_. False)) s5) = Some (e3, s')" using 3(3) by auto
      then show ?thesis using False s3 s5 k on_dev_tables unfolding leaves_entry_def
        by (intro exI [of _ "(set_flags flags ?f)\<lparr>in_use := False\<rparr>"]) (fastforce simp: zero_fs_def set_flags_def)
    qed
  qed
qed

abbreviation (input) taken :: "string \<Rightarrow> string \<Rightarrow> 'd nstate \<Rightarrow> fs \<Rightarrow> bool" where
  "taken pre name s f \<equiv> in_use f \<and> (prefix f = pre \<or> (case fs_dev f of None \<Rightarrow> False | Some d \<Rightarrow> bd_name (bdevs (bufs s) d) = name))"

lemma fs_mount_entry:
  assumes l: "length (fs_fs s) = FS_MAXFS" and m: "fs_mount (kern_types rd wr atmem now) tab wr op cl pre name type flags s = Some (e, s')"
  shows "s' = s \<and> e \<noteq> EZERO \<or> \<not> list_ex (taken pre name s) (fs_fs s) \<and>
    (\<exists>k dv. k < FS_MAXFS \<and> \<not> in_use (fs_fs s ! k) \<and> leaves_entry k pre flags dv e s s' \<and> (\<forall>d. dv = Some d \<longrightarrow> bd_name (bdevs (bufs s) d) = name))"
proof (cases "list_ex (taken pre name s) (fs_fs s) \<or> List.find (\<lambda>k. \<not> in_use (fs_fs s ! k)) [0..<FS_MAXFS] = None")
  case True
  then have "s' = s \<and> e \<noteq> EZERO" using m unfolding fs_mount_def by (cases "list_ex (taken pre name s) (fs_fs s)") auto
  then show ?thesis by simp
next
  case False
  then obtain k where f: "List.find (\<lambda>k. \<not> in_use (fs_fs s ! k)) [0..<FS_MAXFS] = Some k" and nt: "\<not> list_ex (taken pre name s) (fs_fs s)" by auto
  then have k: "k < FS_MAXFS" "\<not> in_use (fs_fs s ! k)" by (auto simp: find_Some_iff)
  let ?s1 = "(upd_fs k (\<lambda>_. zero_fs\<lparr>prefix := pre\<rparr>) s)\<lparr>nat_of := (nat_of s)(k := nat_part_zero)\<rparr>"
  let ?dv = "if name = ''nodev'' then Inr None else map_sum id Some (blk_find name (bufs s))"
  have dn: "bd_name (bdevs (bufs s) d) = name" if "?dv = Inr (Some d)" for d
    using that by (cases "blk_find name (bufs s)") (auto simp: blk_find_name split: if_splits)
  have dz: "?dv \<noteq> Inl EZERO" "fs_find T tab type \<noteq> Inl EZERO" for T :: "'a ntypes"
    by (auto simp: blk_find_def fs_find_def split: option.splits if_splits)
  have bz: "bufs ?s1 = bufs s" by simp
  note m' = m [unfolded fs_mount_def if_not_P [OF nt] f option.case Let_def, unfolded bz]
  have "\<exists>dv. leaves_entry k pre flags dv e s s' \<and> (\<forall>d. dv = Some d \<longrightarrow> bd_name (bdevs (bufs s) d) = name)"
  proof (cases ?dv)
    case (Inl e')
    then have "s' = ?s1" "e \<noteq> EZERO" using m' [unfolded Inl sum.case] dz(1) by auto
    then show ?thesis by (intro exI [of _ None]) (auto simp: leaves_entry_def zero_fs_def)
  next
    case dv: (Inr dv)
    have "leaves_entry k pre flags dv e s s'"
    proof (cases "fs_find (kern_types rd wr atmem now) tab type")
      case (Inl e')
      then have "s' = upd_fs k (fs_dev_update (\<lambda>_. dv)) ?s1" "e \<noteq> EZERO" using m' [unfolded dv Inl sum.case] dz(2) by auto
      then show ?thesis using k l by (auto simp: leaves_entry_def zero_fs_def)
    next
      case t: (Inr t)
      show ?thesis by (rule mount_type_found [OF _ m' [unfolded dv t sum.case]]) (use k l in simp_all)
    qed
    then show ?thesis using dn dv by blast
  qed
  then show ?thesis using nt k by blast
qed

lemma mounts_ok_change:
  assumes s: "mounts_ok s" and k: "k < FS_MAXFS" and e: "fs_fs s' = (fs_fs s)[k := f]" "fs_fso s' = fs_fso s" "fs_fso_high s' = fs_fso_high s"
    and new: "in_use f \<Longrightarrow> fs_type f \<noteq> None" "\<And>j. in_use f \<Longrightarrow> j < FS_MAXFS \<Longrightarrow> in_use (fs_fs s ! j) \<Longrightarrow> j \<noteq> k \<Longrightarrow>
        prefix (fs_fs s ! j) \<noteq> prefix f \<and> (fs_dev f = None \<or> fs_dev (fs_fs s ! j) \<noteq> fs_dev f)"
    and old: "in_use (fs_fs s ! k) \<Longrightarrow> \<not> in_use f \<Longrightarrow> \<not> fs_busy k s"
  shows "mounts_ok s'"
proof -
  have l: "length (fs_fs s) = FS_MAXFS" using s by (simp add: mounts_ok_def)
  have n: "fs_fs s' ! j = (if j = k then f else fs_fs s ! j)" if "j < FS_MAXFS" for j using that k l e by (simp add: nth_list_update)
  have "k' < FS_MAXFS \<and> in_use (fs_fs s' ! k')" if "i < fs_fso_high s" "o_refcnt (fs_fso s i) \<noteq> 0" "o_fs (fs_fso s i) = Fs k'" for i k'
  proof -
    have "k' < FS_MAXFS" "in_use (fs_fs s ! k')" using s that unfolding mounts_ok_def by blast+
    moreover have "fs_busy k' s" using that by (auto simp: fs_busy_def list_ex_iff)
    ultimately show ?thesis using old by (auto simp: n)
  qed
  moreover have "\<forall>j < FS_MAXFS. in_use (fs_fs s' ! j) \<longrightarrow> fs_type (fs_fs s' ! j) \<noteq> None" using s new(1) by (auto simp: n mounts_ok_def)
  moreover have "prefix (fs_fs s' ! j) \<noteq> prefix (fs_fs s' ! i) \<and> (fs_dev (fs_fs s' ! j) = None \<or> fs_dev (fs_fs s' ! j) \<noteq> fs_dev (fs_fs s' ! i))"
    if "j < FS_MAXFS" "i < FS_MAXFS" "in_use (fs_fs s' ! j)" "in_use (fs_fs s' ! i)" "j \<noteq> i" for i j
  proof -
    have u: "prefix (fs_fs s ! j) \<noteq> prefix (fs_fs s ! i) \<and> (fs_dev (fs_fs s ! j) = None \<or> fs_dev (fs_fs s ! j) \<noteq> fs_dev (fs_fs s ! i))"
      if "in_use (fs_fs s ! j)" "in_use (fs_fs s ! i)" using s that \<open>j < FS_MAXFS\<close> \<open>i < FS_MAXFS\<close> \<open>j \<noteq> i\<close> unfolding mounts_ok_def by blast
    show ?thesis using that u new(2) [of i] new(2) [of j] by (auto simp: n split: if_splits)
  qed
  ultimately show ?thesis using l e unfolding mounts_ok_def by simp
qed

text \<open>
  C16: The mount table is a map from prefixes to file systems. Mounting keeps its entries well formed: every entry in use has a type, no
  two have the same prefix or the same device, and every file in core belongs to an entry in use. When it succeeds, the map has one
  more file system, at the prefix, which was free, with the flags of the call, and active unless it is removable; when it fails, the map
  is what it was. The types of file systems are those of the model: pipes, and native ones on block devices.
\<close>

theorem fs_mount_adds:
  assumes "mounts_ok s" and "fs_mount (kern_types rd wr atmem now) tab wr op cl pre name type flags s = Some (e, s')"
  shows "mounts_ok s' \<and> fs_fso s' = fs_fso s \<and>
     (if e = EZERO then mount_map s pre = None \<and> (\<exists>f. mount_map s' = (mount_map s)(pre \<mapsto> f) \<and> (active f \<longleftrightarrow> \<not> removable f) \<and>
        read_only f = odd flags \<and> removable f = odd (flags div 4))
      else mount_map s' = mount_map s)"
proof -
  have l: "length (fs_fs s) = FS_MAXFS" using assms(1) by (simp add: mounts_ok_def)
  consider "s' = s" "e \<noteq> EZERO" | k dv where "\<not> list_ex (taken pre name s) (fs_fs s)" "k < FS_MAXFS" "\<not> in_use (fs_fs s ! k)" "leaves_entry k pre flags dv e s s'"
      "\<forall>d. dv = Some d \<longrightarrow> bd_name (bdevs (bufs s) d) = name" using fs_mount_entry [OF l assms(2)] by blast
  then show ?thesis
  proof cases
    case 2
    then obtain f where f: "fs_fs s' = (fs_fs s)[k := f]" "fs_fso s' = fs_fso s" "fs_fso_high s' = fs_fso_high s" "in_use f \<longleftrightarrow> e = EZERO" "prefix f = pre"
        "e = EZERO \<longrightarrow> fs_type f \<noteq> None \<and> fs_dev f = dv \<and> (active f \<longleftrightarrow> \<not> removable f) \<and> read_only f = odd flags \<and> removable f = odd (flags div 4)"
      by (auto simp: leaves_entry_def)
    have free: "prefix (fs_fs s ! j) \<noteq> pre \<and> (dv = None \<or> fs_dev (fs_fs s ! j) \<noteq> dv)" if "j < FS_MAXFS" "in_use (fs_fs s ! j)" for j
    proof -
      have "fs_fs s ! j \<in> set (fs_fs s)" using that(1) l by simp
      then have "\<not> taken pre name s (fs_fs s ! j)" using 2(1) unfolding list_ex_iff by blast
      then show ?thesis using that(2) 2(5) by (cases dv) auto
    qed
    have m: "mounts_ok s'" by (rule mounts_ok_change [OF assms(1) 2(2) f(1-3)]) (use f(4-6) free 2(3) in auto)
    have "mount_map s pre = None" using free mount_map_iff [OF assms(1), of pre] by (cases "mount_map s pre") auto
    then show ?thesis using m f(2,4,5,6) mount_map_change [OF assms(1) m f(1) 2(2)] 2(3) by auto
  qed (use assms(1) in simp)
qed

text \<open>
  C17: Unmounting fails with \<^verbatim>\<open>ENOENT\<close> when nothing is mounted at the prefix and with \<^verbatim>\<open>EBUSY\<close> when a file of the file system is in
  core, and then changes nothing. Otherwise exactly this file system leaves the map, and no file in core is left that belongs to it. The types are
  those of the model, as for mounting.
\<close>

theorem fs_umount_removes:
  assumes "mounts_ok s" and "fs_umount (kern_types rd wr atmem now) wr cl pre s = Some (e, s')"
  shows "mounts_ok s' \<and>
     (case mount_map s pre of
        None \<Rightarrow> e = ENOENT \<and> s' = s
      | Some f \<Rightarrow> e = EBUSY \<and> s' = s \<and> (\<exists>k i. fs_fs s ! k = f \<and> o_refcnt (fs_fso s i) \<noteq> 0 \<and> o_fs (fs_fso s i) = Fs k) \<or>
          mount_map s' = (mount_map s)(pre := None) \<and> fs_fso s' = fs_fso s)"
proof (cases "List.find (\<lambda>k. in_use (fs_fs s ! k) \<and> prefix (fs_fs s ! k) = pre) [0..<FS_MAXFS]")
  case None
  then show ?thesis using assms by (simp add: fs_umount_def mount_map_def)
next
  case (Some k)
  then have k: "k < FS_MAXFS" "in_use (fs_fs s ! k)" "prefix (fs_fs s ! k) = pre" by (auto simp: find_Some_iff)
  have mm: "mount_map s pre = Some (fs_fs s ! k)" using Some by (simp add: mount_map_def)
  have ty: "fs_type (fs_fs s ! k) \<noteq> None" using assms(1) k by (simp add: mounts_ok_def)
  show ?thesis
  proof (cases "fs_busy k s")
    case True
    then show ?thesis using assms Some mm by (auto simp: fs_umount_def fs_busy_def list_ex_iff)
  next
    case False
    obtain e1 s1 e2 s2 where st: "(if active (fs_fs s ! k) then ft_umount (nat_ops rd wr atmem now) k s else Some (EZERO, s)) = Some (e1, s1)"
        "on_dev (fs_dev (fs_fs s1 ! k)) (blk_close wr cl) s1 = Some (e2, s2)" "s' = upd_fs k (in_use_update (\<lambda>_. False)) s2"
      using assms(2) Some False native_type [OF ty] by (auto simp: fs_umount_def split: bind_splits if_splits)
    have "fs_fs s1 = fs_fs s \<and> fs_fso s1 = fs_fso s \<and> fs_fso_high s1 = fs_fso_high s" using st(1) by (auto dest: native_tables(2) split: if_splits)
    then have f: "fs_fs s' = (fs_fs s)[k := (fs_fs s ! k)\<lparr>in_use := False\<rparr>]" "fs_fso s' = fs_fso s" "fs_fso_high s' = fs_fso_high s"
      using on_dev_tables [OF st(2)] st(3) by simp_all
    have m: "mounts_ok s'" by (rule mounts_ok_change [OF assms(1) k(1) f]) (use False in auto)
    then show ?thesis using mm k f(2) mount_map_change [OF assms(1) m f(1) k(1)] by simp
  qed
qed

text \<open>
  The native file system does not look whether it has a device: mounting it on \<^verbatim>\<open>nodev\<close> uses a null pointer, and the system call
  does not look who mounts.
\<close>

lemma mount_nodev_crashes:
  assumes "length (fs_fs s) = FS_MAXFS" and "\<not> list_ex (taken pre ''nodev'' s) (fs_fs s)" and "k < FS_MAXFS" "\<not> in_use (fs_fs s ! k)"
    and "fs_find (kern_types rd wr atmem now) tab type = Inr t" and "even (flags div 4)"
  shows "fs_mount (kern_types rd wr atmem now) tab wr op cl pre ''nodev'' type flags s = None"
proof -
  obtain k' where f: "List.find (\<lambda>k. \<not> in_use (fs_fs s ! k)) [0..<FS_MAXFS] = Some k'"
    using assms(3,4) by (cases "List.find (\<lambda>k. \<not> in_use (fs_fs s ! k)) [0..<FS_MAXFS]") (auto simp: find_None_iff)
  then have "k' < length (fs_fs s)" using assms(1) by (auto simp: find_Some_iff)
  then show ?thesis unfolding fs_mount_def if_not_P [OF assms(2)] f using assms(5,6)
    by (simp add: on_dev_def Let_def type_fs_def set_flags_def kern_types_def nat_ops_def on_fs_def)
qed

end
