(* ===== verification/Nat_Open.thy ===== *)
theory Nat_Open
  imports Fs_Open Fs_Mount
begin

text \<open>
  The native file system satisfies the contract of \<open>Fs_Open\<close>: from the system call \<^verbatim>\<open>open\<close> through the mount table, the lookup of the path in the
  directories and the tables of objects, files and descriptors down to the block cache and its driver.
\<close>

text \<open>
  The file system \<open>k\<close> is of the native type, the objects of it that are in core agree with their headers, the headers \<open>H\<close>, which the
  directories among them do not lead out of, are in order, and there are buffers enough for a file to be truncated.
\<close>

definition nat_mounted ::
    "('d \<Rightarrow> nat \<Rightarrow> nat \<Rightarrow> 8 word list) \<Rightarrow> ('d \<Rightarrow> nat \<Rightarrow> nat \<Rightarrow> bool) \<Rightarrow> ('d \<Rightarrow> bool) \<Rightarrow> nat \<Rightarrow> nat \<Rightarrow> nat set \<Rightarrow> 'd nstate \<Rightarrow> bool" where
  "nat_mounted sector has dok dev k H s \<longleftrightarrow> lookup_inv sector has dok dev k H s \<and> root_block (nat_of s k) \<in> H \<and>
     fs_type (fs_fs s ! k) \<noteq> None \<and> \<not> removable (fs_fs s ! k) \<and>
     nfree (bufs s) \<ge> 5 \<and> (\<forall>h \<in> H. nindirlev (hobj (view sector (bufs s)) dev h) \<ge> 1)"

text \<open>
  The same for objects that may have changes that are not written yet: all that is needed to write them back is that their headers are on the
  device, and that they have a name.
\<close>

definition nat_live ::
    "('d \<Rightarrow> nat \<Rightarrow> nat \<Rightarrow> 8 word list) \<Rightarrow> ('d \<Rightarrow> nat \<Rightarrow> nat \<Rightarrow> bool) \<Rightarrow> ('d \<Rightarrow> bool) \<Rightarrow> nat \<Rightarrow> nat \<Rightarrow> 'd nstate \<Rightarrow> bool" where
  "nat_live sector has dok dev k s \<longleftrightarrow> k < length (fs_fs s) \<and> fs_dev (fs_fs s ! k) = Some dev \<and> fs_type (fs_fs s ! k) \<noteq> None \<and>
     ready sector has dok (bufs s) \<and> nfree (bufs s) > 0 \<and>
     (\<forall>i. in_tbl k s i \<longrightarrow> has (disk (bufs s)) dev (nat (o_index (fs_fso s i))) \<and> nlink (fs_fso s i) \<noteq> 0)"

text \<open>The path is not on another file system, and the names of its directories are not too long.\<close>

definition nat_named :: "nat \<Rightarrow> 'd nstate \<Rightarrow> string \<Rightarrow> bool" where
  "nat_named k s path =
     (case curr s of
        None \<Rightarrow> False
      | Some c \<Rightarrow> (case fs_fqname (cwd (tsk s c)) (tty (tsk s c)) path of
          Inl e \<Rightarrow> True
        | Inr fq \<Rightarrow> (case fs_pathfs (fs_fs s) fq of
            Inl e \<Rightarrow> True
          | Inr (k', l) \<Rightarrow> k' = k \<and> short_names (drop l fq))))"

lemma fq_loop_error: "fq_loop buf src = Inl e \<Longrightarrow> e = ENAMETOOLONG"
  by (induction buf src rule: fq_loop.induct) (subst (asm) (2) fq_loop.simps, auto simp: Let_def split: if_splits option.splits)

lemma fs_fqname_error: "fs_fqname cw ty path = Inl e \<Longrightarrow> e = ENAMETOOLONG"
  by (auto simp: fs_fqname_def Let_def dest: fq_loop_error split: sum.splits if_splits)

lemma fs_pathfs_error: "fs_pathfs fs path = Inl e \<Longrightarrow> e = ENOENT"
  by (auto simp: fs_pathfs_def split: prod.splits option.splits)

lemma entry_error: "entry V dev X h name = Inl e \<Longrightarrow> e \<noteq> EZERO"
  by (auto simp: entry_def split: if_splits option.splits)

lemma walk_dirs_error: "walk_dirs V dev X h p = Inl e \<Longrightarrow> e \<noteq> EZERO"
  by (induction V dev X h p rule: walk_dirs.induct) (subst (asm) (2) walk_dirs.simps, auto dest: entry_error split: if_splits sum.splits)

lemma resolve_error: "resolve V dev X root path = Inl e \<Longrightarrow> e \<noteq> EZERO"
  by (auto simp: resolve_def dest: entry_error walk_dirs_error split: sum.splits if_splits)

lemma nat_obj_count: "nat_obj (upd_fso i (count_open d mode) s) j =
    (if j = i then (nat_obj s i)\<lparr>reader_count := reader_count (count_open d mode (fs_fso s i)), writer_count := writer_count (count_open d mode (fs_fso s i))\<rparr>
     else nat_obj s j)"
  by (cases "fs_fso s i") (simp add: nat_obj_def upd_fso_def count_open_def fso.defs)

lemma tbl_count:
  assumes "tbl V dev k H s"
  shows "tbl V dev k H (upd_fso i (count_open d mode) s)"
proof -
  let ?s = "upd_fso i (count_open d mode) s"
  have f: "o_refcnt (fs_fso ?s j) = o_refcnt (fs_fso s j)" "o_index (fs_fso ?s j) = o_index (fs_fso s j)" "o_fs (fs_fso ?s j) = o_fs (fs_fso s j)"
    "fs_fso_high ?s = fs_fso_high s" "fs_fs ?s = fs_fs s" for j by (simp_all add: upd_fso_def count_open_def)
  have "lookup V dev (b\<lparr>reader_count := x, writer_count := y\<rparr>) l = lookup V dev b l" for b x y l by (rule lookup_fields) simp_all
  then have "incore V dev (b\<lparr>reader_count := x, writer_count := y\<rparr>) = incore V dev b" for b x y
    by (simp add: incore_def bmap_cached_def same_map_def)
  then have "incore V dev (nat_obj ?s j) = incore V dev (nat_obj s j)" for j by (simp add: nat_obj_count)
  then show ?thesis using assms unfolding tbl_def unique_objs_def f by simp
qed

lemma type_of_nat:
  assumes "o_fs (fs_fso s i) = Fs k" and "fs_type (fs_fs s ! k) \<noteq> None"
  shows "type_of (kern_types rd wr atmem now) s i = nat_ops rd wr atmem now"
  using assms by (auto simp: type_of_def fs_of_def kern_types_def)

section \<open>Letting go of objects\<close>

lemma sync_works:
  assumes "block_driver rd wr sector has dok" and "ready sector has dok c" and "nfree c > 0" and "has (disk c) dev (nat (o_index b))"
  shows "\<exists>c'. nat_syncfso wr dev insec b c = Some (EZERO, b\<lparr>o_dirty := False\<rparr>, c') \<and> quiet sector has dok c c'"
proof (cases "o_dirty b")
  case True
  then show ?thesis using block_driver.use_fill [OF assms length_hdr_store, of insec b] by (auto simp: nat_syncfso_def)
next
  case False
  moreover from this have "b\<lparr>o_dirty := False\<rparr> = b" by (cases b) simp
  ultimately show ?thesis using quiet_refl [OF assms(2)] by (simp add: nat_syncfso_def)
qed

lemma put_obj_clean: "put_obj i ((nat_obj s i)\<lparr>o_dirty := x\<rparr>) s = upd_fso i (o_dirty_update (\<lambda>_. x)) s"
  by (cases "fs_fso s i") (simp add: put_obj_def nat_obj_def upd_fso_def fso.defs)

abbreviation (input) drop_ref :: "bool \<Rightarrow> fso \<Rightarrow> fso" where
  "drop_ref x \<equiv> \<lambda>p. p\<lparr>o_dirty := x, o_refcnt := o_refcnt p - 1\<rparr>"

text \<open>An object with a name is written back, if it must be, and its reference dropped.\<close>

lemma live_put:
  assumes D: "block_driver rd wr sector has dok" and L: "nat_live sector has dok dev k s" and i: "in_tbl k s i"
  shows "\<exists>x c. put_fso (kern_types rd wr atmem now) i s = Some ((upd_fso i (drop_ref x) s)\<lparr>bufs := c\<rparr>) \<and> quiet sector has dok (bufs s) c"
proof -
  let ?T = "kern_types rd wr atmem now" and ?insec = "insecure (fs_of s (fs_fso s i))"
  have I: "o_refcnt (fs_fso s i) \<noteq> 0" "o_fs (fs_fso s i) = Fs k" using i by (simp_all add: in_tbl_def)
  have N: "ready sector has dok (bufs s)" "nfree (bufs s) > 0" "has (disk (bufs s)) dev (nat (o_index (nat_obj s i)))" "nlink (nat_obj s i) \<noteq> 0"
    using L i by (simp_all add: nat_live_def nat_obj_fields)
  have fs: "obj_fs s i = Some (k, dev)" "fs_type (fs_fs s ! k) \<noteq> None" using L I(2) by (simp_all add: nat_live_def obj_fs_def)
  have p: "put_fso ?T i s = fs_putfso (natfs_putfso rd wr) (Some i) s"
    using type_of_nat [OF I(2) fs(2), of rd wr atmem now] by (simp add: put_fso_def putfso_def nat_ops_def fs_putfso_def)
  show ?thesis
  proof (cases "o_refcnt (fs_fso s i) = 1")
    case False
    have "upd_fso i (\<lambda>p. p\<lparr>o_refcnt := o_refcnt p - 1\<rparr>) s = (upd_fso i (drop_ref (o_dirty (fs_fso s i))) s)\<lparr>bufs := bufs s\<rparr>"
      by (cases "fs_fso s i") (simp add: upd_fso_def)
    then show ?thesis using False I(1) p quiet_refl [OF N(1)] by (auto simp: fs_putfso_def)
  next
    case True
    obtain c where c: "nat_syncfso wr dev ?insec (nat_obj s i) (bufs s) = Some (EZERO, (nat_obj s i)\<lparr>o_dirty := False\<rparr>, c)" "quiet sector has dok (bufs s) c"
      using sync_works [OF D N(1-3)] by blast
    have "natfs_putfso rd wr i s = Some ((upd_fso i (o_dirty_update (\<lambda>_. False)) s)\<lparr>bufs := c\<rparr>)"
      using c(1) N(4) fs(1) by (simp add: natfs_putfso_def on_obj_def nat_putfso_def put_obj_clean) (simp add: upd_fso_def)
    then have "put_fso ?T i s = Some ((upd_fso i (drop_ref False) s)\<lparr>bufs := c\<rparr>)" using True p by (simp add: fs_putfso_def upd_fso_def)
    then show ?thesis using c(2) by blast
  qed
qed

lemma live_dropped:
  assumes "nat_live sector has dok dev k s" and "quiet sector has dok (bufs s) c" and "in_tbl k s i"
  shows "nat_live sector has dok dev k ((upd_fso i (drop_ref x) s)\<lparr>bufs := c\<rparr>)"
  using assms quiet_ready [OF assms(2)] quiet_nfree [OF assms(2)] quiet_has [OF assms(2)] by (auto simp: nat_live_def in_tbl_def upd_fso_def)

lemma live_store:
  assumes "block_driver rd wr sector has dok"
  shows "obj_store (kern_types rd wr atmem now) (nat_live sector has dok dev k) (in_tbl k)"
proof unfold_locales
  fix s :: "'a nstate" and i
  assume L: "nat_live sector has dok dev k s" and i: "in_tbl k s i"
  show "\<exists>s'. put_fso (kern_types rd wr atmem now) i s = Some s' \<and> nat_live sector has dok dev k s' \<and> same_tables s s' \<and>
      (\<forall>j. o_refcnt (fs_fso s' j) = o_refcnt (fs_fso s j) - of_bool (j = i))"
    using live_put [OF assms L i, of atmem now] live_dropped [OF L _ i] by (fastforce simp: same_tables_def upd_fso_def)
next
  fix s :: "'a nstate" and i d mode
  show "nat_live sector has dok dev k s \<Longrightarrow> nat_live sector has dok dev k (upd_fso i (count_open d mode) s)"
    by (auto simp: nat_live_def in_tbl_def upd_fso_def count_open_def)
  show "in_tbl k (upd_fso i (count_open d mode) s) = in_tbl k s" by (auto simp: fun_eq_iff in_tbl_def upd_fso_def count_open_def)
next
  fix s :: "'a nstate" and f g c h
  show "nat_live sector has dok dev k s \<Longrightarrow> nat_live sector has dok dev k (upd_file f g s)" "in_tbl k (upd_file f g s) = in_tbl k s"
      "nat_live sector has dok dev k s \<Longrightarrow> nat_live sector has dok dev k (upd_task c (file_desc_update h) s)"
    by (auto simp: fun_eq_iff nat_live_def in_tbl_def upd_file_def upd_task_def)
qed

text \<open>Closing files on the native file system and on pipes: the contract of \<open>Fs_File\<close>, with the operations chosen by the type of each object.\<close>

definition nat_closable ::
    "('d \<Rightarrow> nat \<Rightarrow> nat \<Rightarrow> 8 word list) \<Rightarrow> ('d \<Rightarrow> nat \<Rightarrow> nat \<Rightarrow> bool) \<Rightarrow> ('d \<Rightarrow> bool) \<Rightarrow> nat \<Rightarrow> nat \<Rightarrow> 'd nstate \<Rightarrow> bool" where
  "nat_closable sector has dok dev k s \<longleftrightarrow> nat_live sector has dok dev k s \<and>
     (\<forall>i. o_refcnt (fs_fso s i) \<noteq> 0 \<longrightarrow> o_fs (fs_fso s i) = Fs k \<or> o_fs (fs_fso s i) = PipeFs)"

lemma nat_driver:
  assumes D: "block_driver rd wr sector has dok"
  shows "fso_driver (putfso (kern_types rd wr atmem now)) (nat_closable sector has dok dev k)"
proof unfold_locales
  let ?T = "kern_types rd wr atmem now"
  fix s :: "'a nstate" and i
  assume C: "nat_closable sector has dok dev k s" and r: "1 \<le> o_refcnt (fs_fso s i)"
  have L: "nat_live sector has dok dev k s" using C by (simp add: nat_closable_def)
  have go: "let_go i s s'" if "s' = (upd_fso i (\<lambda>p. (g p)\<lparr>o_refcnt := o_refcnt p - 1\<rparr>) s)\<lparr>bufs := c\<rparr>" for g c s'
  proof -
    have "moves s s'" unfolding that by (rule kquiet_moves) (simp add: kquiet_def upd_fso_def)
    then show ?thesis unfolding let_go_def by (simp add: that) (simp add: upd_fso_def fds_def fun_eq_iff)
  qed
  consider (nat) "o_fs (fs_fso s i) = Fs k" | (pipe) "o_fs (fs_fso s i) = PipeFs"
    using C r unfolding nat_closable_def by (metis not_one_le_zero)
  then show "\<exists>s'. fs_putfso (putfso ?T) (Some i) s = Some s' \<and> nat_closable sector has dok dev k s' \<and> let_go i s s'"
  proof cases
    case nat
    then have i: "in_tbl k s i" using r by (simp add: in_tbl_def)
    then obtain x c where p: "put_fso ?T i s = Some ((upd_fso i (drop_ref x) s)\<lparr>bufs := c\<rparr>)" "quiet sector has dok (bufs s) c"
      using live_put [OF D L] by blast
    let ?s' = "(upd_fso i (drop_ref x) s)\<lparr>bufs := c\<rparr>"
    have "nat_closable sector has dok dev k ?s'"
      using live_dropped [OF L p(2) i] C r unfolding nat_closable_def by (auto simp: upd_fso_def)
    moreover have "let_go i s ?s'" by (rule go [of _ c "o_dirty_update (\<lambda>_. x)"]) simp
    ultimately show ?thesis using p(1) by (auto simp: put_fso_def)
  next
    case pipe
    define b where "b = (if o_refcnt (fs_fso s i) = 1 then [] else p_buf (fs_fso s i))"
    let ?s' = "upd_fso i (\<lambda>p. p\<lparr>p_buf := b, o_refcnt := o_refcnt p - 1\<rparr>) s"
    have "type_of ?T s i = pipe_ops" using pipe by (simp add: type_of_def fs_of_def kern_types_def)
    moreover have "upd_fso i (\<lambda>p. p\<lparr>o_refcnt := o_refcnt p - 1\<rparr>) s = ?s'" if "b = p_buf (fs_fso s i)"
      using that by (cases "fs_fso s i") (simp add: upd_fso_def)
    ultimately have "fs_putfso (putfso ?T) (Some i) s = Some ?s'"
      using r by (auto simp: fs_putfso_def putfso_def pipe_ops_def pipe_putfso_def b_def upd_fso_def)
    moreover have "nat_closable sector has dok dev k ?s'"
      using C pipe unfolding nat_closable_def nat_live_def by (auto simp: in_tbl_def upd_fso_def)
    moreover have "let_go i s ?s'" by (rule go [of _ "bufs s" "p_buf_update (\<lambda>_. b)"]) (simp add: upd_fso_def)
    ultimately show ?thesis by blast
  qed
next
  fix s :: "'a nstate" and f g i d om c h m
  assume "nat_closable sector has dok dev k s"
  then show "nat_closable sector has dok dev k (upd_file f g s)" "nat_closable sector has dok dev k (upd_fso i (count_open d om) s)"
    "nat_closable sector has dok dev k (upd_task c (file_desc_update h) s)" "nat_closable sector has dok dev k (upd_task c (multipoll_update m) s)"
    by (auto simp: nat_closable_def nat_live_def in_tbl_def upd_file_def upd_fso_def upd_task_def count_open_def)
qed

section \<open>Truncating\<close>

text \<open>What truncation leaves alone in an object.\<close>

lemma trunc_loop_frame:
  "trunc_loop rd wr dev is b f s = Some (b', f', s') \<Longrightarrow> fso.truncate b' = fso.truncate b"
proof (induction "is" arbitrary: b f s)
  case (Cons i "is")
  have "fso.truncate (b\<lparr>bmap := m\<rparr>) = fso.truncate b" for m by (simp add: fso.defs)
  then show ?case using Cons by (auto simp: Let_def split: if_splits bind_splits)
qed simp

lemma nat_trunc_frame:
  assumes "nat_trunc rd wr dev b f s = Some (e, b', f', s')"
  shows "o_refcnt b' = o_refcnt b" "o_fs b' = o_fs b" "nlink b' = nlink b" "o_index b' = o_index b"
proof -
  have t: "fso.truncate b1 = fso.truncate b \<Longrightarrow> o_refcnt b1 = o_refcnt b \<and> o_fs b1 = o_fs b \<and> nlink b1 = nlink b \<and> o_index b1 = o_index b" for b1
    by (simp add: fso.defs)
  show "o_refcnt b' = o_refcnt b" "o_fs b' = o_fs b" "nlink b' = nlink b" "o_index b' = o_index b"
    using assms by (auto simp: nat_trunc_def dest!: trunc_loop_frame t split: if_splits bind_splits)
qed

lemma mounted_live:
  assumes "nat_mounted sector has dok dev k H s"
  shows "nat_live sector has dok dev k s"
proof -
  have L: "tbl (view sector (bufs s)) dev k H s" "tree_inv sector has dok dev H (nat_of s k) (bufs s)" "fs_type (fs_fs s ! k) \<noteq> None"
    using assms by (simp_all add: nat_mounted_def lookup_inv_def)
  have "ready sector has dok (bufs s)" "nfree (bufs s) > 0" using L(2) by (simp_all add: tree_inv_def)
  moreover have "has (disk (bufs s)) dev (nat (o_index (fs_fso s i))) \<and> nlink (fs_fso s i) \<noteq> 0" if "in_tbl k s i" for i
  proof -
    let ?h = "nat (o_index (fs_fso s i))"
    have h: "?h \<in> H" "incore (view sector (bufs s)) dev (nat_obj s i)" using tblD(6) [OF L(1), of i] that by (simp_all add: in_tbl_def)
    show ?thesis using tree_invD(1,2) [OF L(2) h(1)] h(2) by (simp add: incore_def Let_def nat_obj_fields)
  qed
  ultimately show ?thesis using tblD(1,2) [OF L(1)] L(3) by (simp add: nat_live_def)
qed

lemma trunc_obj:
  assumes D: "block_driver rd wr sector has dok" and m: "nat_mounted sector has dok dev k H s" and i: "in_tbl k s i"
  shows "\<exists>s'. ft_trunc (type_of (kern_types rd wr atmem now) s i) i s = Some (EZERO, s') \<and> nat_live sector has dok dev k s' \<and> in_tbl k s' i \<and>
     same_tables s s' \<and> (\<forall>j. o_refcnt (fs_fso s' j) = o_refcnt (fs_fso s j)) \<and> o_size (fs_fso s' i) = 0"
proof -
  let ?V = "view sector (bufs s)" and ?b = "nat_obj s i" and ?h = "nat (o_index (fs_fso s i))" and ?f = "nat_of s k"
  have L: "tbl ?V dev k H s" "tree_inv sector has dok dev H ?f (bufs s)" "fs_type (fs_fs s ! k) \<noteq> None" "nfree (bufs s) \<ge> 5"
    using m by (simp_all add: nat_mounted_def lookup_inv_def)
  have I: "o_refcnt (fs_fso s i) \<noteq> 0" "o_fs (fs_fso s i) = Fs k" using i by (simp_all add: in_tbl_def)
  have h: "?h \<in> H" "incore ?V dev ?b" using tblD(6) [OF L(1) I] by simp_all
  have sm: "same_map (hobj ?V dev ?h) ?b" and bc: "bmap_cached ?V dev ?b" using h(2) by (simp_all add: incore_def Let_def nat_obj_fields)
  have mp: "bmap ?b = bmap (hobj ?V dev ?h)" "ndirblks ?b = ndirblks (hobj ?V dev ?h)" "nindirlev ?b = nindirlev (hobj ?V dev ?h)"
    using sm by (simp_all add: same_map_def)
  have F: "file_inv sector has dok dev ?b ?f (bufs s)"
    using tree_invD(3) [OF L(2) h(1)] bc unfolding file_inv_def file_ok_fields [OF mp] mp by simp
  have lev: "nindirlev ?b \<ge> 1" using m h(1) mp(3) by (simp add: nat_mounted_def)
  have "nindirlev ?b \<le> 4" using F by (simp add: file_inv_def)
  then have nf: "nfree (bufs s) \<ge> nindirlev ?b + 1" using L(4) by simp
  obtain b' f' c' where t: "nat_trunc rd wr dev ?b ?f (bufs s) = Some (EZERO, b', f', c')" "o_size b' = 0"
      "frees sector has dok dev (owns ?V dev ?b) ?f (bufs s) f' c'" using block_driver.trunc_works [OF D F lev nf] by blast
  note q = bam_stepD(2) [OF frees_step [OF t(3)]] and fr = nat_trunc_frame [OF t(1)]
  let ?s' = "(put_obj i b' s)\<lparr>nat_of := (nat_of s)(k := f'), bufs := c'\<rparr>"
  have "ft_trunc (type_of (kern_types rd wr atmem now) s i) i s = Some (EZERO, ?s')"
    using type_of_nat [OF I(2) L(3), of rd wr atmem now] t(1) tbl_fs [OF L(1) I(2)] by (simp add: nat_ops_def on_obj_def)
  moreover have f: "o_refcnt (fs_fso ?s' j) = o_refcnt (fs_fso s j)" "o_fs (fs_fso ?s' j) = o_fs (fs_fso s j)" "nlink (fs_fso ?s' j) = nlink (fs_fso s j)"
      "o_index (fs_fso ?s' j) = o_index (fs_fso s j)" for j
    using fr by (auto simp: put_obj_def nat_obj_def fso.defs)
  moreover have "o_size (fs_fso ?s' i) = 0" "same_tables s ?s'" using t(2) by (simp_all add: put_obj_def fso.defs same_tables_def)
  moreover have "nat_live sector has dok dev k ?s'"
    using mounted_live [OF m] quiet_ready [OF q] quiet_nfree [OF q] quiet_has [OF q] unfolding nat_live_def in_tbl_def f
    by (simp add: put_obj_def)
  ultimately show ?thesis using i by (intro exI [of _ ?s']) (simp add: in_tbl_def)
qed

section \<open>Opening\<close>

lemma mounted_store:
  assumes D: "block_driver rd wr sector has dok"
  shows "obj_store (kern_types rd wr atmem now) (nat_mounted sector has dok dev k H) (in_tbl k)"
proof unfold_locales
  let ?T = "kern_types rd wr atmem now"
  fix s :: "'a nstate" and i
  assume m: "nat_mounted sector has dok dev k H s" and i: "in_tbl k s i"
  have L: "tbl (view sector (bufs s)) dev k H s" "tree_inv sector has dok dev H (nat_of s k) (bufs s)" "fs_type (fs_fs s ! k) \<noteq> None"
    using m by (simp_all add: nat_mounted_def lookup_inv_def)
  note P = putobj_works [OF L(1) i tree_invD(2) [OF L(2)]]
  have "putfso ?T i s = natfs_putfso rd wr i s" using type_of_nat [OF _ L(3), of i rd wr atmem now] i by (simp add: putfso_def in_tbl_def nat_ops_def)
  then have "put_fso ?T i s = putobj rd wr (Some i) s" by (simp add: put_fso_def putobj_def fs_putfso_def)
  then show "\<exists>s'. put_fso ?T i s = Some s' \<and> nat_mounted sector has dok dev k H s' \<and> same_tables s s' \<and>
      (\<forall>j. o_refcnt (fs_fso s' j) = o_refcnt (fs_fso s j) - of_bool (j = i))"
    using P m by (auto simp: nat_mounted_def lookup_inv_def same_tables_def upd_fso_def)
next
  fix s :: "'a nstate" and i d mode
  show "nat_mounted sector has dok dev k H s \<Longrightarrow> nat_mounted sector has dok dev k H (upd_fso i (count_open d mode) s)"
    using tbl_count [of "view sector (bufs s)" dev k H s i d mode] by (simp add: nat_mounted_def lookup_inv_def upd_fso_def)
  show "in_tbl k (upd_fso i (count_open d mode) s) = in_tbl k s" by (auto simp: fun_eq_iff in_tbl_def upd_fso_def count_open_def)
next
  fix s :: "'a nstate" and f g c h
  show "nat_mounted sector has dok dev k H s \<Longrightarrow> nat_mounted sector has dok dev k H (upd_file f g s)" "in_tbl k (upd_file f g s) = in_tbl k s"
      "nat_mounted sector has dok dev k H s \<Longrightarrow> nat_mounted sector has dok dev k H (upd_task c (file_desc_update h) s)"
    by (simp_all add: fun_eq_iff nat_mounted_def lookup_inv_def tbl_def unique_objs_def in_tbl_def upd_file_def upd_task_def nat_obj_def)
qed

lemma nat_namer:
  assumes D: "block_driver rd wr sector has dok"
  shows "file_namer (kern_types rd wr atmem now) (nat_mounted sector has dok dev k H) (in_tbl k)
     (fs_activate (kern_types rd wr atmem now) wr up) (nat_live sector has dok dev k) (nat_named k)"
proof (intro file_namer.intro file_namer_axioms.intro)
  show "obj_store (kern_types rd wr atmem now) (nat_mounted sector has dok dev k H) (in_tbl k)" by (rule mounted_store [OF D])
  show "obj_store (kern_types rd wr atmem now) (nat_live sector has dok dev k) (in_tbl k)" by (rule live_store [OF D])
  show "nat_mounted sector has dok dev k H s \<Longrightarrow> nat_live sector has dok dev k s" for s :: "'a nstate" by (rule mounted_live)
  show "\<exists>s'. ft_trunc (type_of (kern_types rd wr atmem now) s i) i s = Some (EZERO, s') \<and> nat_live sector has dok dev k s' \<and> in_tbl k s' i \<and>
      same_tables s s' \<and> (\<forall>j. o_refcnt (fs_fso s' j) = o_refcnt (fs_fso s j)) \<and> o_size (fs_fso s' i) = 0"
    if "nat_mounted sector has dok dev k H s" "in_tbl k s i" for s :: "'a nstate" and i by (rule trunc_obj [OF D that])
next
  let ?T = "kern_types rd wr atmem now"
  let ?act = "fs_activate ?T wr up"
  fix s :: "'a nstate" and path
  assume m: "nat_mounted sector has dok dev k H s" and n: "nat_named k s path"
  have L: "lookup_inv sector has dok dev k H s" "root_block (nat_of s k) \<in> H" "fs_type (fs_fs s ! k) \<noteq> None" "\<not> removable (fs_fs s ! k)"
    using m by (simp_all add: nat_mounted_def)
  obtain c where c: "curr s = Some c" using n by (auto simp: nat_named_def split: option.splits)
  let ?fq = "fs_fqname (cwd (tsk s c)) (tty (tsk s c)) path"
  have fail: "\<exists>r s'. fs_lookup ?T ?act path s = Some (r, s') \<and> nat_mounted sector has dok dev k H s' \<and> same_tables s s' \<and>
      (\<forall>j. o_refcnt (fs_fso s' j) = o_refcnt (fs_fso s j) + of_bool (r = Inr j)) \<and> (case r of Inl e \<Rightarrow> e \<noteq> EZERO | Inr i \<Rightarrow> in_tbl k s' i)"
    if "fs_lookup ?T ?act path s = Some (Inl e, s)" "e \<noteq> EZERO" for e using that m by (simp add: same_tables_def)
  note defs = fs_lookup_def fs_parsename_def parse_def fs_parsename4_def c
  show "\<exists>r s'. fs_lookup ?T ?act path s = Some (r, s') \<and> nat_mounted sector has dok dev k H s' \<and> same_tables s s' \<and>
      (\<forall>j. o_refcnt (fs_fso s' j) = o_refcnt (fs_fso s j) + of_bool (r = Inr j)) \<and> (case r of Inl e \<Rightarrow> e \<noteq> EZERO | Inr i \<Rightarrow> in_tbl k s' i)"
  proof (cases ?fq)
    case (Inl e)
    then show ?thesis using fs_fqname_error by (intro fail [of e]) (auto simp: defs)
  next
    case fq: (Inr fq)
    show ?thesis
    proof (cases "fs_pathfs (fs_fs s) fq")
      case (Inl e)
      then show ?thesis using fq fs_pathfs_error by (intro fail [of e]) (auto simp: defs)
    next
      case (Inr kl)
      then obtain l where l: "kl = (k, l)" "short_names (drop l fq)" using n c fq by (auto simp: nat_named_def)
      have "ft_lookup (type_fs ?T s k) = nat_lookup rd wr atmem" using L(3) by (auto simp: type_fs_def kern_types_def nat_ops_def)
      then have e: "fs_lookup ?T ?act path s = nat_lookup rd wr atmem k (drop l fq) s"
        using fq Inr l(1) L(4) by (simp add: defs fs_activate_def)
      obtain r s' where w: "nat_lookup rd wr atmem k (drop l fq) s = Some (r, s')" "walked sector has dok dev k H s s'"
          "case r of
             Inl x \<Rightarrow> refs_are (\<lambda>j. o_refcnt (fs_fso s j)) None s' \<and>
               (resolve (view sector (bufs s)) dev (search_perm s k (view sector (bufs s)) dev) (root_block (nat_of s k)) (drop l fq) = Inl x \<or>
                no_room atmem (\<lambda>j. o_refcnt (fs_fso s j)) (fs_fso_high s) x)
           | Inr j \<Rightarrow> in_tbl k s' j \<and> refs_are (\<lambda>j. o_refcnt (fs_fso s j)) (Some j) s' \<and>
               resolve (view sector (bufs s)) dev (search_perm s k (view sector (bufs s)) dev) (root_block (nat_of s k)) (drop l fq) = Inr (nat (o_index (fs_fso s' j)))"
        using block_driver.lookup_works [OF D L(1,2) l(2)] by blast
      have sw: "same_world s s'" using w(2) by (simp add: walked_def)
      then have "nat_mounted sector has dok dev k H s'" "same_tables s s'"
        using block_driver.walked_inv [OF D L(1) w(2)] m w(2) quiet_nfree by (fastforce simp: nat_mounted_def same_world_def same_tables_def walked_def)+
      then show ?thesis unfolding e using w(1,3)
        by (intro exI [of _ r] exI [of _ s']) (auto simp: refs_are_def no_room_def dest: resolve_error split: sum.splits)
    qed
  qed
qed


end
