(* ===== verification/Nat_Rw.thy ===== *)
theory Nat_Rw
  imports Nat_Open
begin

text \<open>
  Reading and writing files of the native file system through a descriptor: the system calls on top of the contents of files.
\<close>

section \<open>What writing leaves alone\<close>

definition attrs :: "nat_fso \<Rightarrow> fsref \<times> int \<times> int \<times> 32 word \<times> bool \<times> nat \<times> nat" where
  "attrs b = (o_fs b, o_uid b, o_gid b, o_mode b, no_seek b, ndirblks b, nindirlev b)"

lemma one_more_attrs [simp]: "attrs (one_more_block b) = attrs b"
  by (simp add: attrs_def one_more_block_def)

lemma bmap_dir_attrs: "nat_bmap_dir rd wr dev log alloc b f s = Some (r, b', f', s') \<Longrightarrow> attrs b' = attrs b"
  by (auto simp: nat_bmap_dir_def Let_def attrs_def one_more_block_def split: if_splits sum.splits bind_splits)

lemma bmap_walk_attrs: "bmap_walk rd wr dev log alloc j bn b f s = Some (r, b', f', s') \<Longrightarrow> attrs b' = attrs b"
proof (induction j arbitrary: bn b f s alloc)
  case (Suc j)
  show ?case using Suc.prems by (auto simp: Let_def dest!: Suc.IH split: if_splits sum.splits bind_splits)
qed simp

lemma nat_bmap_attrs: "nat_bmap rd wr dev log alloc b f s = Some (e, b', f', s') \<Longrightarrow> attrs b' = attrs b"
proof -
  have "attrs (set_bmap log n b) = attrs b" for n b by (simp add: attrs_def set_bmap_def)
  then show "nat_bmap rd wr dev log alloc b f s = Some (e, b', f', s') \<Longrightarrow> attrs b' = attrs b"
    by (auto simp: nat_bmap_def bmap_done_def dest!: bmap_dir_attrs bmap_walk_attrs split: if_splits sum.splits bind_splits)
qed

lemma write_loop_attrs: "write_loop rd wr dev off bs b f s = Some (e, b', f', s') \<Longrightarrow> attrs b' = attrs b"
proof (induction "length bs" arbitrary: off bs b f s rule: less_induct)
  case less
  have g: "attrs (grow_size n b) = attrs b" for n b by (simp add: attrs_def grow_size_def)
  have IH: "write_loop rd wr dev off' bs' (grow_size n b1) f1 s1 = Some (e, b', f', s') \<Longrightarrow> length bs' < length bs \<Longrightarrow> attrs b' = attrs b1"
    for off' bs' n b1 f1 s1 using less.hyps [of bs' off' "grow_size n b1" f1 s1] by (simp add: g)
  show ?case using less.prems
    by (subst (asm) write_loop.simps) (auto simp: Let_def g dest!: IH nat_bmap_attrs split: if_splits sum.splits bind_splits)
qed

lemma nat_write_attrs: "nat_write rd wr dev p now off bs b f s = Some (e, b', f', s') \<Longrightarrow> attrs b' = attrs b"
  by (auto simp: nat_write_def dest!: write_loop_attrs split: if_splits) (simp_all add: attrs_def)

section \<open>Descriptors\<close>

lemma kern_plain: "plain_perms (kern_types rd wr atmem now)"
  by (simp add: plain_perms_def kern_types_def pipe_ops_def pipe_chk_perm_def nat_ops_def nat_chk_perm_def fun_eq_iff split: option.splits)

text \<open>A descriptor of the running task that is open on the object \<open>i\<close>.\<close>

definition open_on :: "'z fstate_scheme \<Rightarrow> tid \<Rightarrow> nat \<Rightarrow> nat \<Rightarrow> nat \<Rightarrow> bool" where
  "open_on s c d f i \<longleftrightarrow> curr s = Some c \<and> d < OPEN_MAX \<and> fds s c d = Some f \<and> ff_fso (fs_file s f) = Some i"

lemma fdaccess_perm:
  assumes "plain_perms T" and "open_on s c d f i"
  shows "fdaccess T d mode s =
    Some (if mode AND R_OK \<noteq> 0 \<and> \<not> reads (ff_omode (fs_file s f)) \<or> mode AND W_OK \<noteq> 0 \<and> \<not> writes (ff_omode (fs_file s f)) then EBADF
          else if mode AND X_OK \<noteq> 0 then EINVAL
          else fs_chk_perm (\<lambda>i m u g s. EZERO) i mode (euid (tsk s c)) (egid (tsk s c)) s)"
proof -
  have e: "(\<lambda>i m u g s. ft_chk_perm (type_of T s i) i m u g s) = (\<lambda>i m u g s. EZERO)" using assms(1) by (simp add: plain_perms_def type_of_def)
  show ?thesis unfolding fdaccess_def e using assms(2) by (simp add: fs_fdaccess_def open_on_def Let_def)
qed

lemma perm_chk: "curr s = Some c \<Longrightarrow> perm i mode s = Some (fs_chk_perm (\<lambda>i m u g s. EZERO) i mode (euid (tsk s c)) (egid (tsk s c)) s)"
  by (simp add: perm_def nat_chk_perm_def [abs_def])

lemma chk_perm_fields:
  assumes "fs_fs s' = fs_fs s" and "o_fs (fs_fso s' i) = o_fs (fs_fso s i)" "o_mode (fs_fso s' i) = o_mode (fs_fso s i)"
    "o_uid (fs_fso s' i) = o_uid (fs_fso s i)" "o_gid (fs_fso s' i) = o_gid (fs_fso s i)"
  shows "fs_chk_perm (\<lambda>i m u g s. EZERO) i mode u g s' = fs_chk_perm (\<lambda>i m u g s. EZERO) i mode u g s"
proof -
  have f: "fs_of s' (fs_fso s' i) = fs_of s (fs_fso s i)" using assms by (simp add: fs_of_def split: fsref.splits)
  have p: "perm_bits b (fs_fso s' i) u g = perm_bits b (fs_fso s i) u g" for b using assms by (simp add: perm_bits_def)
  show ?thesis unfolding fs_chk_perm_def Let_def f p assms(3) by simp
qed

text \<open>The object \<open>i\<close> is a file of the file system \<open>k\<close>, which is a native one on the device \<open>dev\<close>.\<close>

definition nat_file :: "'d nstate \<Rightarrow> nat \<Rightarrow> nat \<Rightarrow> nat \<Rightarrow> bool" where
  "nat_file s i k dev \<longleftrightarrow> obj_fs s i = Some (k, dev) \<and> fs_type (fs_fs s ! k) \<noteq> None"

lemma nat_file_type: "nat_file s i k dev \<Longrightarrow> type_of (kern_types rd wr atmem now) s i = nat_ops rd wr atmem now"
  by (rule type_of_nat [of _ _ k]) (auto simp: nat_file_def obj_fs_def split: fsref.splits if_splits)

text \<open>The state after an operation on the file \<open>i\<close>.\<close>

definition after_op :: "'d nstate \<Rightarrow> nat \<Rightarrow> nat \<Rightarrow> nat_fso \<Rightarrow> nat_fs \<Rightarrow> 'd bcache \<Rightarrow> 'd nstate" where
  "after_op s i k b f c = (put_obj i b s)\<lparr>nat_of := (nat_of s)(k := f), bufs := c\<rparr>"

lemma after_op_simps [simp]:
  "curr (after_op s i k b f c) = curr s" "tsk (after_op s i k b f c) = tsk s" "fds (after_op s i k b f c) = fds s"
  "fs_file (after_op s i k b f c) = fs_file s" "fs_fs (after_op s i k b f c) = fs_fs s" "nat_obj (after_op s i k b f c) i = b"
  "nat_of (after_op s i k b f c) k = f" "bufs (after_op s i k b f c) = c" "fs_fso (after_op s i k b f c) i = fso.truncate b"
  by (simp_all add: after_op_def) (simp_all add: put_obj_def fds_def fun_eq_iff)

lemma trunc_fields: "o_fs (fso.truncate b) = o_fs b" "o_mode (fso.truncate b) = o_mode b" "o_uid (fso.truncate b) = o_uid b" "o_gid (fso.truncate b) = o_gid b"
    "no_seek (fso.truncate b) = no_seek b" "o_size (fso.truncate b) = o_size b"
  by (simp_all add: fso.defs)

lemma nat_obj_size: "o_size (nat_obj s i) = o_size (fs_fso s i)" "no_seek (nat_obj s i) = no_seek (fs_fso s i)"
  by (simp_all add: nat_obj_def fso.defs)

lemma nat_file_eq: "nat_file s i k dev \<longleftrightarrow> o_fs (fs_fso s i) = Fs k \<and> k < length (fs_fs s) \<and> fs_dev (fs_fs s ! k) = Some dev \<and> fs_type (fs_fs s ! k) \<noteq> None"
  by (auto simp: nat_file_def obj_fs_def split: fsref.splits)

lemma after_op_attrs:
  assumes "attrs b = attrs (nat_obj s i)"
  shows "o_fs (fs_fso (after_op s i k b f c) i) = o_fs (fs_fso s i)" "o_mode (fs_fso (after_op s i k b f c) i) = o_mode (fs_fso s i)"
    "o_uid (fs_fso (after_op s i k b f c) i) = o_uid (fs_fso s i)" "o_gid (fs_fso (after_op s i k b f c) i) = o_gid (fs_fso s i)"
    "no_seek (fs_fso (after_op s i k b f c) i) = no_seek (fs_fso s i)"
  using assms trunc_fields [of "nat_obj s i"] unfolding nat_obj_fields(8) by (simp_all add: attrs_def trunc_fields)

lemma after_op_file: "nat_file s i k dev \<Longrightarrow> attrs b = attrs (nat_obj s i) \<Longrightarrow> nat_file (after_op s i k b f c) i k dev"
  unfolding nat_file_eq after_op_simps(5) using after_op_attrs(1) [of b s i k f c] by metis

lemma upd_offset_simps [simp]:
  "nat_obj (upd_file f g s) = nat_obj s" "nat_of (upd_file f g s) = nat_of s" "bufs (upd_file f g s) = bufs s" "fs_fso (upd_file f g s) = fs_fso s"
  "fs_fs (upd_file f g s) = fs_fs s" "nat_file (upd_file f g s) i k dev = nat_file s i k dev" "curr (upd_file f g s) = curr s" "tsk (upd_file f g s) = tsk s"
  "fds (upd_file f g s) = fds s" "fs_file (upd_file f g s) f = g (fs_file s f)"
  by (simp_all add: upd_file_def nat_obj_def [abs_def] nat_file_eq fds_def [abs_def])

lemma rw_end_moves:
  assumes "ff_fso (fs_file s f) = Some i" and "\<not> no_seek (fs_fso s i)" and "ff_offset (fs_file s f) + n < 2 ^ 64"
  shows "rw_end f n s = Some (upd_file f (ff_offset_update (\<lambda>_. ff_offset (fs_file s f) + n)) s)"
  using assms by (simp add: rw_end_def fd_obj_def upd_file_def)

context block_driver
begin

lemma sys_write_works:
  assumes o: "open_on s c d f i" and n: "nat_file s i k dev" and a: "fdaccess (kern_types rd wr atmem now) d W_OK s = Some EZERO"
    and I: "file_inv sector has dok dev (nat_obj s i) (nat_of s k) (bufs s)" and reg: "o_mode (fs_fso s i) AND S_IFMT = S_IFREG"
    and off: "ff_offset (fs_file s f) = off" "off + length bs < NAT_FILE_SIZE_MAX" and m: "ff_omode (fs_file s f) = 2" and sk: "\<not> no_seek (fs_fso s i)"
  shows "\<exists>e k' b' g' c'. sys_write (kern_types rd wr atmem now) d bs EZERO s =
       (if e \<noteq> EZERO then Some (Inl e, after_op s i k b' g' c')
        else Some (Inr (Inl (length bs)), upd_file f (ff_offset_update (\<lambda>_. off + length bs)) (after_op s i k b' g' c'))) \<and>
     k' \<le> length bs \<and> (if e = EZERO then k' = length bs else e = ENOSPC \<or> e = EFBIG) \<and> file_inv sector has dok dev b' g' c' \<and>
     (\<forall>x. content (view sector c') dev b' x = (if off \<le> x \<and> x < off + k' then bs ! (x - off) else content (view sector (bufs s)) dev (nat_obj s i) x)) \<and>
     o_size b' = (if k' = 0 then o_size (fs_fso s i) else max (o_size (fs_fso s i)) (off + k')) \<and> attrs b' = attrs (nat_obj s i)"
proof -
  let ?T = "kern_types rd wr atmem now"
  have r: "o_mode (nat_obj s i) AND S_IFMT = S_IFREG" using reg by (simp add: nat_obj_fields)
  obtain e k' b' g' c' where w: "nat_write rd wr dev EZERO now off bs (nat_obj s i) (nat_of s k) (bufs s) = Some (e, b', g', c')" "k' \<le> length bs"
      "if e = EZERO then k' = length bs else e = ENOSPC \<or> e = EFBIG" "file_inv sector has dok dev b' g' c'"
      "\<forall>x. content (view sector c') dev b' x = (if off \<le> x \<and> x < off + k' then bs ! (x - off) else content (view sector (bufs s)) dev (nat_obj s i) x)"
      "o_size b' = (if k' = 0 then o_size (nat_obj s i) else max (o_size (nat_obj s i)) (off + k'))"
    using write_works [OF I r off(2), of now] by blast
  have c: "curr s = Some c" "fds s c d = Some f" "ff_fso (fs_file s f) = Some i" using o by (simp_all add: open_on_def)
  have "perm i W_OK s = Some EZERO" unfolding perm_chk [OF c(1)] using a unfolding fdaccess_perm [OF kern_plain o] by (simp split: if_splits)
  then have ft: "ft_write (type_of ?T s i) \<lparr>rq_offset = off, rq_fso = i, rq_no_delay = False\<rparr> bs s =
      Some (if e \<noteq> EZERO then Failed e else Wrote (length bs), after_op s i k b' g' c')"
    unfolding nat_file_type [OF n] using n w(1) by (simp add: nat_ops_def obj_perm_def on_obj_def nat_file_def after_op_def)
  have A: "attrs b' = attrs (nat_obj s i)" by (rule nat_write_attrs [OF w(1)])
  have ns: "\<not> no_seek (fs_fso (after_op s i k b' g' c') i)" using after_op_attrs(5) [OF A] sk by metis
  let ?s = "after_op s i k b' g' c'"
  have "rw_end f (length bs) ?s = Some (upd_file f (ff_offset_update (\<lambda>_. ff_offset (fs_file ?s f) + length bs)) ?s)"
    by (rule rw_end_moves [of _ _ i]) (use ns c off in \<open>simp_all only: after_op_simps, simp_all\<close>)
  then have rw: "rw_end f (length bs) ?s = Some (upd_file f (ff_offset_update (\<lambda>_. off + length bs)) ?s)" using off(1) by simp
  have "sys_write ?T d bs EZERO s =
       (if e \<noteq> EZERO then Some (Inl e, ?s) else Some (Inr (Inl (length bs)), upd_file f (ff_offset_update (\<lambda>_. off + length bs)) ?s))"
    using a c ft m off(1) rw by (simp add: sys_write_def on_fd_def fd_obj_def)
  then show ?thesis using w(2-6) A unfolding nat_obj_size by blast
qed

lemma sys_read_works:
  assumes o: "open_on s c d f i" and n: "nat_file s i k dev" and a: "fdaccess (kern_types rd wr atmem now) d R_OK s = Some EZERO"
    and I: "file_inv sector has dok dev (nat_obj s i) (nat_of s k) (bufs s)" and reg: "o_mode (fs_fso s i) AND S_IFMT = S_IFREG"
    and off: "ff_offset (fs_file s f) = off" "off + count < 2 ^ 64" and m: "ff_omode (fs_file s f) = 2" and sk: "\<not> no_seek (fs_fso s i)"
    and sz: "o_size (fs_fso s i) \<le> NAT_FILE_SIZE_MAX" "\<forall>x < o_size (fs_fso s i). \<not> too_big (nat_obj s i) (x div BLK_SIZE)"
  shows "\<exists>s'. sys_read (kern_types rd wr atmem now) d count EZERO s =
       Some (Inr (Inl (map (content (view sector (bufs s)) dev (nat_obj s i)) [off..<min (off + count) (o_size (fs_fso s i))])), s')"
proof -
  let ?T = "kern_types rd wr atmem now" and ?fs = "fs_of s (fs_fso s i)"
  let ?bs = "map (content (view sector (bufs s)) dev (nat_obj s i)) [off..<min (off + count) (o_size (fs_fso s i))]"
  have r: "o_mode (nat_obj s i) AND S_IFMT = S_IFREG" "o_size (nat_obj s i) \<le> NAT_FILE_SIZE_MAX"
      "\<forall>x < o_size (nat_obj s i). \<not> too_big (nat_obj s i) (x div BLK_SIZE)" using reg sz by (simp_all add: nat_obj_fields nat_obj_size)
  obtain b' c' where w: "nat_read rd wr dev EZERO now (read_only ?fs) (no_atime ?fs) off count (nat_obj s i) (nat_of s k) (bufs s) =
      Some (Inr ?bs, b', nat_of s k, c')"
    using read_works [OF I r off(2), of now "read_only ?fs" "no_atime ?fs"] unfolding nat_obj_size by blast
  have c: "curr s = Some c" "fds s c d = Some f" "ff_fso (fs_file s f) = Some i" using o by (simp_all add: open_on_def)
  have "perm i R_OK s = Some EZERO" unfolding perm_chk [OF c(1)] using a unfolding fdaccess_perm [OF kern_plain o] by (simp split: if_splits)
  then have ft: "ft_read (type_of ?T s i) \<lparr>rq_offset = off, rq_fso = i, rq_no_delay = False\<rparr> count s =
      Some (Inl (Inr ?bs), after_op s i k b' (nat_of s k) c')"
    unfolding nat_file_type [OF n] using n w by (simp add: nat_ops_def obj_perm_def on_obj_def nat_file_def after_op_def Let_def)
  have "rw_end f (length ?bs) (after_op s i k b' (nat_of s k) c') \<noteq> None" using c by (simp add: rw_end_def fd_obj_def)
  then show ?thesis using a c ft m off(1) by (auto simp: sys_read_def on_fd_def fd_obj_def)
qed

lemma sys_write_read_works:
  assumes o: "open_on s c d f i" and n: "nat_file s i k dev" and a: "fdaccess (kern_types rd wr atmem now) d (R_OK OR W_OK) s = Some EZERO"
    and I: "file_inv sector has dok dev (nat_obj s i) (nat_of s k) (bufs s)" and reg: "o_mode (fs_fso s i) AND S_IFMT = S_IFREG"
    and off: "ff_offset (fs_file s f) = off" "off + length bs < NAT_FILE_SIZE_MAX" and m: "ff_omode (fs_file s f) = 2" and sk: "\<not> no_seek (fs_fso s i)"
    and sz: "o_size (fs_fso s i) \<le> NAT_FILE_SIZE_MAX" "\<forall>x < max (o_size (fs_fso s i)) (off + length bs). \<not> too_big (nat_obj s i) (x div BLK_SIZE)"
  shows "\<exists>r s1. sys_write (kern_types rd wr atmem now) d bs EZERO s = Some (r, s1) \<and>
     (case r of
        Inl e \<Rightarrow> e = ENOSPC \<or> e = EFBIG
      | Inr n \<Rightarrow> n = Inl (length bs) \<and>
          (\<exists>s2 s3. sys_lseek (kern_types rd wr atmem now) d (int off) 0 s1 = Some (Inr (int off), s2) \<and>
             sys_read (kern_types rd wr atmem now) d (length bs) EZERO s2 = Some (Inr (Inl bs), s3)))"
proof -
  let ?T = "kern_types rd wr atmem now"
  note acc = fdaccess_perm [OF kern_plain]
  have aw: "fdaccess ?T d W_OK s = Some EZERO" and ar: "fdaccess ?T d R_OK s = Some EZERO" and a0: "fdaccess ?T d 0 s = Some EZERO"
    using a unfolding acc [OF o] by (auto simp: fs_chk_perm_def Let_def m split: if_splits prod.splits)
  obtain e k' b' g' c' where w: "sys_write ?T d bs EZERO s =
       (if e \<noteq> EZERO then Some (Inl e, after_op s i k b' g' c')
        else Some (Inr (Inl (length bs)), upd_file f (ff_offset_update (\<lambda>_. off + length bs)) (after_op s i k b' g' c')))"
      "k' \<le> length bs" "if e = EZERO then k' = length bs else e = ENOSPC \<or> e = EFBIG" "file_inv sector has dok dev b' g' c'"
      "\<forall>x. content (view sector c') dev b' x = (if off \<le> x \<and> x < off + k' then bs ! (x - off) else content (view sector (bufs s)) dev (nat_obj s i) x)"
      "o_size b' = (if k' = 0 then o_size (fs_fso s i) else max (o_size (fs_fso s i)) (off + k'))" "attrs b' = attrs (nat_obj s i)"
    using sys_write_works [OF o n aw I reg off m sk] by blast
  let ?a = "after_op s i k b' g' c'"
  show ?thesis
  proof (cases "e = EZERO")
    case True
    let ?s1 = "upd_file f (ff_offset_update (\<lambda>_. off + length bs)) ?a" and ?s2 = "upd_file f (ff_offset_update (\<lambda>_. off)) (upd_file f (ff_offset_update (\<lambda>_. off + length bs)) ?a)"
    note A = after_op_attrs [OF w(7), of k g' c']
    have P: "fs_chk_perm (\<lambda>i m u g s. EZERO) i mode u g ?a = fs_chk_perm (\<lambda>i m u g s. EZERO) i mode u g s" for mode u g
      by (rule chk_perm_fields) (use A in \<open>simp_all only: after_op_simps(5)\<close>)
    have P': "fs_chk_perm (\<lambda>i m u g s. EZERO) i mode u g (upd_file f h s') = fs_chk_perm (\<lambda>i m u g s. EZERO) i mode u g s'" for mode u g h and s' :: "'a nstate"
      by (rule chk_perm_fields) simp_all
    have oo: "open_on ?s1 c d f i" "open_on ?s2 c d f i" using o by (simp_all add: open_on_def)
    have acc1: "fdaccess ?T d 0 ?s1 = Some EZERO" and acc2: "fdaccess ?T d R_OK ?s2 = Some EZERO"
      using a0 ar unfolding acc [OF o] acc [OF oo(1)] acc [OF oo(2)] by (simp_all add: P P' split: if_splits)
    have ns: "\<not> no_seek (fs_fso ?s1 i)" "\<not> no_seek (fs_fso ?s2 i)" using A(5) sk by (metis upd_offset_simps(4))+
    have of: "off < 2 ^ 31" using off(2) by simp
    then have "sint (word_of_nat off :: 64 word) = int off" by (simp add: signed_of_nat signed_take_bit_int_eq_self)
    then have l: "sys_lseek ?T d (int off) 0 ?s1 = Some (Inr (int off), ?s2)"
      using acc1 oo(1) ns(1) of by (simp add: sys_lseek_def on_fd_def fd_obj_def lseek_to_def open_on_def)
    have sz': "o_size b' = max (o_size (fs_fso s i)) (off + length bs) \<or> length bs = 0 \<and> o_size b' = o_size (fs_fso s i)"
      using w(3,6) True by auto
    have "too_big b' x = too_big (nat_obj s i) x" for x using w(7) by (simp add: too_big_def attrs_def)
    then have tb: "\<forall>x < o_size (fs_fso ?s2 i). \<not> too_big (nat_obj ?s2 i) (x div BLK_SIZE)" "o_size (fs_fso ?s2 i) \<le> NAT_FILE_SIZE_MAX"
      using sz sz' off(2) by (auto simp: trunc_fields)
    have n2: "nat_file ?s2 i k dev" using after_op_file [OF n w(7)] by simp
    have reg2: "o_mode (fs_fso ?s2 i) AND S_IFMT = S_IFREG" using A(2) reg by (metis upd_offset_simps(4))
    have I2: "file_inv sector has dok dev (nat_obj ?s2 i) (nat_of ?s2 k) (bufs ?s2)" using w(4) by simp
    have o2: "ff_offset (fs_file ?s2 f) = off" "off + length bs < 2 ^ 64" "ff_omode (fs_file ?s2 f) = 2" using off m by simp_all
    obtain s3 where s3: "sys_read ?T d (length bs) EZERO ?s2 =
        Some (Inr (Inl (map (content (view sector c') dev b') [off..<min (off + length bs) (o_size (fs_fso ?s2 i))])), s3)"
      using sys_read_works [OF oo(2) n2 acc2 I2 reg2 o2 ns(2) tb(2,1)] by auto
    have "map (content (view sector c') dev b') [off..<min (off + length bs) (o_size (fs_fso ?s2 i))] = bs"
      using sz' w(3,5) True by (intro nth_equalityI) (auto simp: trunc_fields)
    then show ?thesis using w(1) True l s3 by auto
  qed (use w(1,3) in auto)
qed

end

text \<open>
  C15: Through a descriptor that is open for reading and writing on a regular file of a native file system, what \<^verbatim>\<open>write\<close> stored is what
  \<^verbatim>\<open>read\<close> returns: the write fails with \<^verbatim>\<open>ENOSPC\<close> or \<^verbatim>\<open>EFBIG\<close>, or it reports that all bytes are written, \<^verbatim>\<open>lseek\<close> takes the
  descriptor back to where the write began, and reading as many bytes gives the same bytes. None of the calls panics.
\<close>

theorem sys_write_read:
  assumes "block_driver rd wr sector has dok"
    and "open_on s c d f i" "nat_file s i k dev" and "fdaccess (kern_types rd wr atmem now) d (R_OK OR W_OK) s = Some EZERO"
    and "file_inv sector has dok dev (nat_obj s i) (nat_of s k) (bufs s)" and "o_mode (fs_fso s i) AND S_IFMT = S_IFREG"
    and "ff_offset (fs_file s f) = off" "off + length bs < NAT_FILE_SIZE_MAX" and "ff_omode (fs_file s f) = 2" and "\<not> no_seek (fs_fso s i)"
    and "o_size (fs_fso s i) \<le> NAT_FILE_SIZE_MAX" "\<forall>x < max (o_size (fs_fso s i)) (off + length bs). \<not> too_big (nat_obj s i) (x div BLK_SIZE)"
  shows "\<exists>r s1. sys_write (kern_types rd wr atmem now) d bs EZERO s = Some (r, s1) \<and>
     (case r of
        Inl e \<Rightarrow> e = ENOSPC \<or> e = EFBIG
      | Inr n \<Rightarrow> n = Inl (length bs) \<and>
          (\<exists>s2 s3. sys_lseek (kern_types rd wr atmem now) d (int off) 0 s1 = Some (Inr (int off), s2) \<and>
             sys_read (kern_types rd wr atmem now) d (length bs) EZERO s2 = Some (Inr (Inl bs), s3)))"
  by (rule block_driver.sys_write_read_works [OF assms])

end
