(* ===== verification/Ram_Disk.thy ===== *)
theory Ram_Disk
  imports Block_Cache Overflow
begin

text \<open>
  The RAM disk driver (\<^verbatim>\<open>drv/rd.drv.c\<close>), the driver on which the contract of the block cache
  with its drivers is discharged.

  \<^verbatim>\<open>rd_units\<close> is a function of the unit; a unit number outside the table is an access out of bounds. The pointer to the
  image is null, points to memory that has been freed, or to an array of bytes. \<open>None\<close> is undefined behaviour:
  an access outside an array, through a pointer that is not valid, or a second \<^verbatim>\<open>free\<close>.
\<close>

section \<open>State and operations\<close>

abbreviation (input) RD_MAX :: nat where "RD_MAX \<equiv> 8"
abbreviation (input) BIO_INFO :: "32 word" where "BIO_INFO \<equiv> 0x6201"
abbreviation (input) RDIOCNEW :: "32 word" where "RDIOCNEW \<equiv> 0x7201"
abbreviation (input) BIO_TYPE_SSD :: int where "BIO_TYPE_SSD \<equiv> 4"
abbreviation (input) BIO_OS_SELF :: int where "BIO_OS_SELF \<equiv> 0xcc"

datatype rd_image = Null | Freed | Image "8 word list"

record rd_unit =
  image :: rd_image
  rd_size :: "32 word"

type_synonym rd_units = "nat \<Rightarrow> rd_unit"

record bio_info =
  bi_type :: int
  bi_os :: int
  bi_offset :: nat
  bi_size :: nat
  bi_ncyl :: int
  bi_nhead :: int
  bi_nsect :: int

definition rd_open :: "rd_units drv_ctl" where
  "rd_open unit d = Some (EZERO, d)"

definition rd_close :: "rd_units drv_ctl" where
  "rd_close unit d = Some (EZERO, d)"

definition rd_free :: "rd_image \<Rightarrow> rd_image option" where
  "rd_free p = (case p of Null \<Rightarrow> Some Null | Freed \<Rightarrow> None | Image bs \<Rightarrow> Some Freed)"

text \<open>
  \<open>fu\<close> is what \<^verbatim>\<open>fucpy\<close> copies in, \<open>tu\<close> what \<^verbatim>\<open>tucpy\<close> answers, \<open>kmalloc\<close> the result of the allocation, and \<open>sz\<close> the
  value of the local variable of this name, which is not initialised when the code reads it.
\<close>

definition rd_ioctl ::
    "(errno + 32 word) \<Rightarrow> (bio_info \<Rightarrow> errno) \<Rightarrow> errno \<Rightarrow> 'w :: len word \<Rightarrow> nat \<Rightarrow> 32 word \<Rightarrow> rd_units \<Rightarrow> (errno \<times> rd_units) option" where
  "rd_ioctl fu tu kmalloc sz unit cmd d =
     (if unit \<ge> RD_MAX then None
      else if cmd = BIO_INFO then
        Some (tu \<lparr>bi_type = BIO_TYPE_SSD, bi_os = BIO_OS_SELF, bi_offset = 0, bi_size = unat (rd_size (d unit)),
                  bi_ncyl = 0, bi_nhead = 0, bi_nsect = 0\<rparr>, d)
      else if cmd = RDIOCNEW then
        (case fu of
           Inl e \<Rightarrow> Some (e, d)
         | Inr bc \<Rightarrow>
             if ov_mul sz (ucast bc) then Some (EINVAL, d)
             else do {
               p \<leftarrow> rd_free (image (d unit));
               let d1 = d(unit := (d unit)\<lparr>image := p, rd_size := 0\<rparr>);
               if bc = 0 then Some (EZERO, d1)
               else if kmalloc \<noteq> EZERO then Some (kmalloc, d1)
               else Some (EZERO, d1(unit := \<lparr>image = Image (replicate (unat (bc * 512)) 0), rd_size = bc\<rparr>))
             })
      else Some (ENOTTY, d))"

definition rd_read :: "rd_units drv_read" where
  "rd_read unit nr buf d =
     (if unit \<ge> RD_MAX then None
      else let u = d unit; n = word_of_nat nr :: 32 word; off = unat (512 * n) in
        if n \<ge> rd_size u then Some (EINVAL, buf, d)
        else (case image u of
                Image bs \<Rightarrow> if off + BLK_SIZE \<le> length bs then Some (EZERO, take BLK_SIZE (drop off bs), d) else None
              | _ \<Rightarrow> None))"

definition rd_write :: "rd_units drv_write" where
  "rd_write unit nr buf d =
     (if unit \<ge> RD_MAX then None
      else let u = d unit; n = word_of_nat nr :: 32 word; off = unat (512 * n) in
        if n \<ge> rd_size u then Some (EINVAL, d)
        else (case image u of
                Image bs \<Rightarrow>
                  if off + BLK_SIZE \<le> length bs
                  then Some (EZERO, d(unit := u\<lparr>image := Image (memcpy_in bs off (take BLK_SIZE buf))\<rparr>)) else None
              | _ \<Rightarrow> None))"

text \<open>The device of unit \<open>i\<close> is \<open>i\<close>; \<open>rd_bdev\<close> is the structure that every device starts from.\<close>

definition rd_name :: "nat \<Rightarrow> string" where
  "rd_name i = ''rd'' @ [char_of (48 + i)]"

definition rd_bdev :: "nat \<Rightarrow> bdev" where
  "rd_bdev i = \<lparr>bd_refcnt = 0, bd_name = rd_name i, read_cnt = 0, write_cnt = 0, error_cnt = 0\<rparr>"

fun onload_loop :: "nat \<Rightarrow> nat \<Rightarrow> rd_units bcache \<Rightarrow> (errno \<times> rd_units bcache) option" where
  "onload_loop 0 i s = Some (EZERO, s)" |
  "onload_loop (Suc k) i s =
     (let (e, s1) = blk_install i (upd_bdev i (\<lambda>_. rd_bdev i) s) in
      if e \<noteq> EZERO then do { s2 \<leftarrow> iter_opt (\<lambda>j s. map_option snd (blk_uinstall j s)) (rev [0..<i]) s1; Some (e, s2) }
      else onload_loop k (Suc i) s1)"

definition rd_onload :: "rd_units bcache \<Rightarrow> (errno \<times> rd_units bcache) option" where
  "rd_onload s = onload_loop RD_MAX 0 s"

definition rd_onunload :: "rd_units bcache \<Rightarrow> (errno \<times> rd_units bcache) option" where
  "rd_onunload s = do {
     s' \<leftarrow> iter_opt (\<lambda>i s. do {
              (e, s1) \<leftarrow> blk_uinstall i s;
              p \<leftarrow> rd_free (image (disk s1 i));
              Some (s1\<lparr>disk := (disk s1)(i := (disk s1 i)\<lparr>image := p\<rparr>)\<rparr>)
            }) [0..<RD_MAX] s;
     Some (EZERO, s')
   }"

section \<open>The driver keeps the contract of the cache\<close>

definition rd_has :: "rd_units \<Rightarrow> nat \<Rightarrow> nat \<Rightarrow> bool" where
  "rd_has d unit nr \<longleftrightarrow> unit < RD_MAX \<and> nr < unat (rd_size (d unit))"

definition rd_sector :: "rd_units \<Rightarrow> nat \<Rightarrow> nat \<Rightarrow> 8 word list" where
  "rd_sector d unit nr = (case image (d unit) of Image bs \<Rightarrow> take BLK_SIZE (drop (BLK_SIZE * nr) bs) | _ \<Rightarrow> [])"

text \<open>A unit without blocks has no image to speak of; otherwise the image has all the blocks, and fewer than \<open>2 ^ 23\<close>.\<close>

definition unit_ok :: "rd_unit \<Rightarrow> bool" where
  "unit_ok u \<longleftrightarrow> rd_size u = 0 \<or> (unat (rd_size u) < 2 ^ 23 \<and> (\<exists>bs. image u = Image bs \<and> length bs = BLK_SIZE * unat (rd_size u)))"

definition rd_ok :: "rd_units \<Rightarrow> bool" where
  "rd_ok d \<longleftrightarrow> (\<forall>i < RD_MAX. unit_ok (d i))"

lemma block_in_image: "nr < n \<Longrightarrow> BLK_SIZE * nr + BLK_SIZE \<le> BLK_SIZE * n" for nr n :: nat
  by simp

lemma rd_inside:
  assumes "rd_ok d" and "rd_has d unit nr"
  shows "\<exists>bs. image (d unit) = Image bs \<and> length bs = BLK_SIZE * unat (rd_size (d unit)) \<and> BLK_SIZE * nr + BLK_SIZE \<le> length bs \<and>
           unat (512 * (word_of_nat nr :: 32 word)) = BLK_SIZE * nr \<and> (word_of_nat nr :: 32 word) < rd_size (d unit)"
proof -
  have u: "unit < RD_MAX" "nr < unat (rd_size (d unit))" using assms(2) by (auto simp: rd_has_def)
  then have "unit_ok (d unit)" "rd_size (d unit) \<noteq> 0" using assms(1) by (auto simp: rd_ok_def)
  then obtain bs where bs: "image (d unit) = Image bs" "length bs = BLK_SIZE * unat (rd_size (d unit))" "unat (rd_size (d unit)) < 2 ^ 23"
    by (auto simp: unit_ok_def)
  have "nr < 2 ^ 23" using u(2) bs(3) by simp
  then have n: "unat (word_of_nat nr :: 32 word) = nr" by (simp add: unat_of_nat take_bit_nat_eq_self)
  moreover have "unat (512 * (word_of_nat nr :: 32 word)) = BLK_SIZE * nr"
    using \<open>nr < 2 ^ 23\<close> n by (simp add: unat_word_ariths)
  ultimately show ?thesis using bs u(2) by (simp add: word_less_nat_alt)
qed

text \<open>A block of an array that consists of blocks, after one of them has been overwritten.\<close>

lemma drop_memcpy_block:
  assumes "length buf = B" and "length bs = B * n" and "B * nr + B \<le> length bs"
  shows "take B (drop (B * m) (memcpy_in bs (B * nr) buf)) = (if m = nr then buf else take B (drop (B * m) bs))"
proof (rule nth_equalityI)
  have l: "length (memcpy_in bs (B * nr) buf) = length bs" using assms by (intro length_memcpy_in) simp
  then show "length (take B (drop (B * m) (memcpy_in bs (B * nr) buf))) = length (if m = nr then buf else take B (drop (B * m) bs))"
    using assms by simp
  fix k assume k: "k < length (take B (drop (B * m) (memcpy_in bs (B * nr) buf)))"
  then have B: "k < B" by simp
  have "B * nr \<le> B * m + k \<and> B * m + k < B * nr + B \<longleftrightarrow> m = nr"
  proof
    assume a: "B * nr \<le> B * m + k \<and> B * m + k < B * nr + B"
    have "(B * m + k) div B = nr" using a by (intro div_nat_eqI) (simp_all add: algebra_simps)
    then show "m = nr" using B by simp
  qed (use B in simp)
  then have "memcpy_in bs (B * nr) buf ! (B * m + k) = (if m = nr then buf ! k else bs ! (B * m + k))"
    using k assms(1,3) l by (subst nth_memcpy_in) auto
  then show "take B (drop (B * m) (memcpy_in bs (B * nr) buf)) ! k = (if m = nr then buf else take B (drop (B * m) bs)) ! k"
    using k assms(1) l by auto
qed

interpretation rdd: block_driver rd_read rd_write rd_sector rd_has rd_ok
proof unfold_locales
  fix d unit nr assume a: "rd_ok d" "rd_has d unit nr"
  then show "length (rd_sector d unit nr) = BLK_SIZE" using rd_inside [OF a] by (auto simp: rd_sector_def)
next
  fix d unit nr and buf :: "8 word list"
  assume a: "rd_ok d" "rd_has d unit nr" "length buf = BLK_SIZE"
  then show "\<exists>d'. rd_read unit nr buf d = Some (EZERO, rd_sector d unit nr, d') \<and> rd_ok d' \<and> rd_sector d' = rd_sector d \<and> rd_has d' = rd_has d"
    using rd_inside [OF a(1,2)] by (auto simp: rd_read_def rd_sector_def rd_has_def Let_def)
next
  fix d unit nr and buf :: "8 word list"
  assume a: "rd_ok d" "rd_has d unit nr" "length buf = BLK_SIZE"
  obtain bs where bs: "image (d unit) = Image bs" "length bs = BLK_SIZE * unat (rd_size (d unit))" "BLK_SIZE * nr + BLK_SIZE \<le> length bs"
      "unat (512 * (word_of_nat nr :: 32 word)) = BLK_SIZE * nr" "(word_of_nat nr :: 32 word) < rd_size (d unit)"
    using rd_inside [OF a(1,2)] by blast
  let ?bs = "memcpy_in bs (BLK_SIZE * nr) buf"
  let ?d = "d(unit := (d unit)\<lparr>image := Image ?bs\<rparr>)"
  have u: "unit < RD_MAX" using a(2) by (simp add: rd_has_def)
  have "rd_write unit nr buf d = Some (EZERO, ?d)" using bs u a(3) by (simp add: rd_write_def Let_def)
  moreover have len: "length ?bs = length bs" using bs(3) a(3) by (intro length_memcpy_in) simp
  then have "rd_ok ?d" using a(1) bs(1,2) u by (auto simp: rd_ok_def unit_ok_def)
  moreover have h: "rd_has ?d = rd_has d" by (auto simp: rd_has_def fun_eq_iff)
  moreover have "rd_sector ?d = (rd_sector d)(unit := (rd_sector d unit)(nr := buf))"
  proof (intro ext)
    fix v m
    show "rd_sector ?d v m = ((rd_sector d)(unit := (rd_sector d unit)(nr := buf))) v m"
      using drop_memcpy_block [OF a(3) bs(2), of nr m] bs(1,3) by (auto simp: rd_sector_def)
  qed
  ultimately show "\<exists>d'. rd_write unit nr buf d = Some (EZERO, d') \<and> rd_ok d' \<and> rd_has d' = rd_has d \<and>
      rd_sector d' = (rd_sector d)(unit := (rd_sector d unit)(nr := buf))" by blast
qed

section \<open>A new disk\<close>

text \<open>
  \<^verbatim>\<open>RDIOCNEW\<close> gives a unit exactly the number of blocks asked for, each of zeros, and touches no other unit; the
  blocks fit in the memory that was allocated when fewer than \<open>2 ^ 23\<close> are asked for.
\<close>

theorem rd_new_disk:
  assumes "rd_ok d" and "unit < RD_MAX" and "image (d unit) \<noteq> Freed" and "bc \<noteq> 0" and "unat bc < 2 ^ 23"
    and "\<not> ov_mul sz (ucast bc)"
  shows "\<exists>d'. rd_ioctl (Inr bc) tu EZERO sz unit RDIOCNEW d = Some (EZERO, d') \<and> rd_ok d' \<and> (\<forall>v. v \<noteq> unit \<longrightarrow> d' v = d v) \<and>
           (\<forall>nr. rd_has d' unit nr \<longleftrightarrow> nr < unat bc) \<and> (\<forall>nr < unat bc. rd_sector d' unit nr = replicate BLK_SIZE 0)"
proof -
  let ?d = "d(unit := \<lparr>image = Image (replicate (unat (bc * 512)) 0), rd_size = bc\<rparr>)"
  obtain p where "rd_free (image (d unit)) = Some p" using assms(3) by (cases "image (d unit)") (auto simp: rd_free_def)
  then have "rd_ioctl (Inr bc) tu EZERO sz unit RDIOCNEW d = Some (EZERO, ?d)"
    using assms(2,4,6) by (simp add: rd_ioctl_def Let_def)
  moreover have n: "unat (bc * 512) = BLK_SIZE * unat bc"
    using assms(5) by (simp add: unat_word_ariths mult.commute)
  then have "rd_ok ?d" using assms(1,5) by (auto simp: rd_ok_def unit_ok_def)
  moreover have "take BLK_SIZE (drop (BLK_SIZE * nr) (replicate (BLK_SIZE * unat bc) (0 :: 8 word))) = replicate BLK_SIZE 0"
    if "nr < unat bc" for nr using block_in_image [OF that] by (simp add: min_def)
  ultimately show ?thesis using n assms(2) by (intro exI [of _ ?d]) (simp add: rd_sector_def rd_has_def)
qed

text \<open>
  The number of bytes is computed in 32 bits from an unchecked product: the overflow test reads the variable before it
  is set. A request for \<open>2 ^ 23\<close> blocks allocates nothing, and the first access is outside the image.
\<close>

lemma rd_new_wraps:
  assumes "unit < RD_MAX" and "image (d unit) = Null"
  shows "rd_ioctl (Inr (2 ^ 23)) tu EZERO (0 :: 32 word) unit RDIOCNEW d = Some (EZERO, d(unit := \<lparr>image = Image [], rd_size = 2 ^ 23\<rparr>)) \<and>
         rd_read unit 0 buf (d(unit := \<lparr>image = Image [], rd_size = 2 ^ 23\<rparr>)) = None"
  using assms by (simp add: rd_ioctl_def rd_free_def ov_mul_def rd_read_def Let_def)

text \<open>Emptying a disk leaves the pointer to the freed image in place: the next request frees it again.\<close>

lemma rd_new_double_free:
  assumes "unit < RD_MAX" and "image (d unit) = Image bs"
  shows "\<exists>d'. rd_ioctl (Inr 0) tu EZERO (sz :: 32 word) unit RDIOCNEW d = Some (EZERO, d') \<and>
           rd_ioctl (Inr 0) tu EZERO sz unit RDIOCNEW d' = None"
  using assms by (simp add: rd_ioctl_def rd_free_def ov_mul_def Let_def)

section \<open>A cache over a RAM disk\<close>

definition rd_static :: rd_units where
  "rd_static = (\<lambda>_. \<lparr>image = Null, rd_size = 0\<rparr>)"

lemma rd_static_ok: "rd_ok rd_static"
  by (simp add: rd_ok_def unit_ok_def rd_static_def)

theorem rd_new_disk_witness:
  "\<exists>d'. rd_ioctl (Inr 4) (\<lambda>_. EZERO) EZERO (0 :: 32 word) 1 RDIOCNEW rd_static = Some (EZERO, d') \<and> rd_ok d' \<and>
     rd_has d' 1 3 \<and> \<not> rd_has d' 1 4 \<and> rd_sector d' 1 3 = replicate BLK_SIZE 0"
proof -
  have "image (rd_static 1) \<noteq> Freed" "\<not> ov_mul (0 :: 32 word) (ucast (4 :: 32 word))"
    by (simp_all add: rd_static_def ov_mul_def)
  then show ?thesis using rd_new_disk [OF rd_static_ok, of 1 4 "0 :: 32 word" "\<lambda>_. EZERO"] by auto
qed

text \<open>The state of the system with a RAM disk of four blocks as unit 1, before the cache is initialised.\<close>

definition rd_example :: rd_units where
  "rd_example = rd_static(1 := \<lparr>image = Image (replicate 2048 0), rd_size = 4\<rparr>)"

definition cache_on :: "rd_units \<Rightarrow> rd_units bcache" where
  "cache_on d = \<lparr>blk_lists = \<lparr>l_first = \<lambda>_. None, l_last = \<lambda>_. None, i_next = \<lambda>_. None, i_prev = \<lambda>_. None\<rparr>,
     blk_lru = \<lparr>l_first = \<lambda>_. None, l_last = \<lambda>_. None, i_next = \<lambda>_. None, i_prev = \<lambda>_. None\<rparr>,
     blk = \<lambda>_. zero_block, blk_count = 0, bdevs = rd_bdev, blk_dev = \<lambda>_. None, disk = d\<rparr>"

lemma rd_example_ok: "rd_ok rd_example"
  by (simp add: rd_ok_def unit_ok_def rd_example_def rd_static_def)

lemma rd_example_block: "nr < 4 \<Longrightarrow> rd_has rd_example 1 nr \<and> rd_sector rd_example 1 nr = replicate BLK_SIZE 0"
  using block_in_image [of nr 4] by (simp add: rd_has_def rd_sector_def rd_example_def min_def)

lemma cache_started:
  assumes "rd_ok d"
  shows "\<exists>s H R. blk_init EZERO EZERO (cache_on d) = Some s \<and> coherent rd_sector rd_has rd_ok s H R \<and> R \<noteq> [] \<and> disk s = d \<and>
     view rd_sector s = rd_sector d \<and> (\<forall>x < blk_count s. b_refcnt (blk s x) = 0) \<and> blk_count s = BLK_NBLK"
proof -
  obtain s where s: "blk_init EZERO EZERO (cache_on d) = Some s"
      "cache_inv s ((\<lambda>_. [])(0 := [0..<BLK_NBLK])) [0..<BLK_NBLK]"
      "blk_count s = BLK_NBLK" "disk s = d" "\<And>x. x < BLK_NBLK \<Longrightarrow> blk s x = zero_block"
    using blk_init_inv [of "cache_on d"] by (auto simp: static_lists_def cache_on_def)
  have nv: "\<not> b_valid (blk s x)" if "x < blk_count s" for x using s(5) [of x] that s(3) by (simp add: zero_block_def)
  then have "view rd_sector s dv n = rd_sector (disk s) dv n" for dv n by (intro view_none) blast
  then have "view rd_sector s = rd_sector d" using s(4) by (simp add: fun_eq_iff)
  moreover have "coherent rd_sector rd_has rd_ok s ((\<lambda>_. [])(0 := [0..<BLK_NBLK])) [0..<BLK_NBLK]"
    using s(2,4) nv assms by (simp add: coherent_def synced_def)
  moreover have "[0..<BLK_NBLK] \<noteq> []" by simp
  moreover have "\<forall>x < blk_count s. b_refcnt (blk s x) = 0" using s(3,5) by (simp add: zero_block_def)
  ultimately show ?thesis using s(1,3,4) by blast
qed

theorem blk_read_transparent_witness:
  "\<exists>s b s'. blk_init EZERO EZERO (cache_on rd_example) = Some s \<and> blk_read rd_read rd_write 1 2 s = Some (Inr b, s') \<and>
     b_data (blk s' b) = replicate BLK_SIZE 0"
proof -
  obtain s H R where s: "blk_init EZERO EZERO (cache_on rd_example) = Some s" "coherent rd_sector rd_has rd_ok s H R" "R \<noteq> []"
      "disk s = rd_example" "view rd_sector s = rd_sector rd_example"
    using cache_started [OF rd_example_ok] by blast
  then show ?thesis
    using blk_read_transparent [OF rdd.block_driver_axioms s(2), of 1 2] rd_example_block [of 2] by auto
qed

theorem blk_write_then_read_witness:
  "\<exists>s s1 s2. blk_init EZERO EZERO (cache_on rd_example) = Some s \<and> blk_pwrite rd_read rd_write 1 2 510 [7, 8] s = Some (EZERO, s1) \<and>
     blk_pread rd_read rd_write 1 2 509 3 s1 = Some (Inr [0, 7, 8], s2)"
proof -
  obtain s H R where s: "blk_init EZERO EZERO (cache_on rd_example) = Some s" "coherent rd_sector rd_has rd_ok s H R" "R \<noteq> []"
      "disk s = rd_example" "view rd_sector s = rd_sector rd_example"
    using cache_started [OF rd_example_ok] by blast
  have "memcpy_in (replicate 512 (0 :: 8 word)) 510 [7, 8] = replicate 510 0 @ [7, 8]" by (simp add: memcpy_in_def)
  moreover have "take 3 (drop 509 (replicate 510 (0 :: 8 word) @ [7, 8])) = [0, 7, 8]" by simp
  ultimately show ?thesis
    using blk_write_then_read [OF rdd.block_driver_axioms s(2,3), of 1 2 510 "[7, 8]" 1 2 509 3] rd_example_block [of 2] s
    by auto
qed

theorem blk_sync_flushes_witness:
  "\<exists>s s1 s2. blk_init EZERO EZERO (cache_on rd_example) = Some s \<and> blk_pwrite rd_read rd_write 1 2 510 [7, 8] s = Some (EZERO, s1) \<and>
     blk_syncdev rd_write 1 True True s1 = Some s2 \<and> rd_sector (disk s2) 1 2 = replicate 510 0 @ [7, 8]"
proof -
  obtain s H R where s: "blk_init EZERO EZERO (cache_on rd_example) = Some s" "coherent rd_sector rd_has rd_ok s H R" "R \<noteq> []"
      "disk s = rd_example" "view rd_sector s = rd_sector rd_example" "\<forall>x < blk_count s. b_refcnt (blk s x) = 0"
    using cache_started [OF rd_example_ok] by blast
  have m: "memcpy_in (replicate 512 (0 :: 8 word)) 510 [7, 8] = replicate 510 0 @ [7, 8]" by (simp add: memcpy_in_def)
  have h: "rd_has (disk s) 1 2" "view rd_sector s 1 2 = replicate 512 0" using rd_example_block [of 2] s(4,5) by simp_all
  have "510 + length [7, 8 :: 8 word] \<le> 512" by simp
  from rdd.blk_pwrite_works [OF s(2) h(1) disjI2 [OF s(3)] this]
  obtain s1 H1 R1 where s1: "blk_pwrite rd_read rd_write 1 2 510 [7, 8] s = Some (EZERO, s1)"
      "coherent rd_sector rd_has rd_ok s1 H1 R1" "blk_count s1 = blk_count s" "\<forall>x. b_refcnt (blk s1 x) = b_refcnt (blk s x)"
      "view rd_sector s1 1 2 = replicate 510 0 @ [7, 8]"
    unfolding h(2) m by auto
  obtain s2 where "blk_syncdev rd_write 1 True True s1 = Some s2" "rd_sector (disk s2) 1 2 = view rd_sector s1 1 2"
    using blk_sync_flushes [OF rdd.block_driver_axioms s1(2), of 1 True] s1(3,4) s(6) by auto
  then show ?thesis using s(1) s1(1,5) by auto
qed

theorem blk_install_find_witness:
  "blk_find ''rd3'' (snd (blk_install 3 (cache_on rd_example))) = Inr 3"
proof -
  have "blk_install 3 (cache_on rd_example) = (EZERO, snd (blk_install 3 (cache_on rd_example)))"
    by (simp add: blk_install_def cache_on_def upt_rec)
  moreover have "rd_name 3 = ''rd3''" by code_simp
  then have "bd_name (bdevs (cache_on rd_example) 3) = ''rd3''" by (simp add: cache_on_def rd_bdev_def)
  ultimately show ?thesis using blk_install_find [of 3 "cache_on rd_example" "snd (blk_install 3 (cache_on rd_example))"] by simp
qed

end
