(* ===== verification/Nat_Example.thy ===== *)
theory Nat_Example
  imports Nat_Rw Ram_Disk
begin

text \<open>
  A small file system on a RAM disk: eight blocks, of which the boot block, the super block, the map (block 2), the
  header of one file (block 3), and the only block (block 4) and the header (block 5) of the root directory are in use.
  The theorems on the native file system hold of it.
\<close>

definition ex_map :: "8 word list" where
  "ex_map = 0x3f # replicate 511 0xff"

text \<open>The directory has one entry: the file.\<close>

definition ex_dirblk :: "8 word list" where
  "ex_dirblk = put_dirent 0 ''a'' 3 zeros"

definition ex_fs :: nat_fs where
  "ex_fs = \<lparr>bam_block = 2, bam_size = 1, data_block = 3, data_size = 5, root_block = 5, free_block = 3, bam_buf = [], bam_curr = 0,
     bam_dirty = False, fs_ndirblks = 100, fs_nindirlev = 1\<rparr>"

text \<open>A regular file of 1000 bytes without blocks: one hole.\<close>

definition ex_file :: nat_fso where
  "ex_file = fso.extend (zero_fso\<lparr>o_refcnt := 1, o_index := 3, nlink := 1, o_blocks := 1, o_size := 1000\<rparr>)
     \<lparr>bmap_valid = False, bmap_log = 0, bmap_phys = 0, bmap = replicate 114 0, ndirblks = 100, nindirlev = 1\<rparr>"

text \<open>A directory with the block 4.\<close>

definition ex_dir :: nat_fso where
  "ex_dir = fso.extend (zero_fso\<lparr>o_refcnt := 1, o_index := 5, nlink := 1, o_blocks := 2, o_mode := 0x31ff, o_size := 512\<rparr>)
     \<lparr>bmap_valid = False, bmap_log = 0, bmap_phys = 0, bmap = 4 # replicate 113 0, ndirblks = 100, nindirlev = 1\<rparr>"

definition ex_disk :: rd_units where
  "ex_disk = rd_static(1 := \<lparr>image = Image (replicate 1024 0 @ ex_map @ hdr_store False ex_file @ ex_dirblk @ hdr_store False ex_dir @ replicate 1024 0), rd_size = 8\<rparr>)"

lemma ex_name: "''a'' \<in> names"
  by (simp add: names_def)

lemma length_ex_dirblk: "length ex_dirblk = BLK_SIZE"
  unfolding ex_dirblk_def by (rule length_put_dirent) (simp_all add: ex_name)

lemma ex_disk_ok: "rd_ok ex_disk"
  by (simp add: rd_ok_def unit_ok_def ex_disk_def rd_static_def ex_map_def length_ex_dirblk)

lemma ex_disk_has: "rd_has ex_disk 1 n \<longleftrightarrow> n < 8"
  by (simp add: rd_has_def ex_disk_def)

lemma ex_disk_map: "rd_sector ex_disk 1 2 = ex_map"
  by (simp add: rd_sector_def ex_disk_def ex_map_def)

lemma ex_disk_dir: "rd_sector ex_disk 1 4 = ex_dirblk"
  by (simp add: rd_sector_def ex_disk_def ex_map_def length_ex_dirblk)

lemma ex_disk_hdrs: "rd_sector ex_disk 1 3 = hdr_store False ex_file" "rd_sector ex_disk 1 5 = hdr_store False ex_dir"
  by (simp_all add: rd_sector_def ex_disk_def ex_map_def length_ex_dirblk)

lemma ex_used:
  assumes "V 1 2 = ex_map" and "n < 4096"
  shows "used V 1 ex_fs n \<longleftrightarrow> \<not> (6 \<le> n \<and> n < 8)"
proof -
  have z: "n div 4096 = 0" "n div 8 < 512" using assms(2) by simp_all
  then have u: "used V 1 ex_fs n \<longleftrightarrow> bit (ex_map ! (n div 8)) (n mod 8)"
    using assms by (simp add: used_def map_bit_def bam_view_def ex_fs_def)
  show ?thesis
  proof (cases "n < 8")
    case True
    then have "n \<in> {0, 1, 2, 3, 4, 5, 6, 7}" by auto
    then show ?thesis unfolding u by (auto simp: ex_map_def bit_numeral_rec bit_Suc)
  next
    case False
    then have "ex_map ! (n div 8) = 0xff" using z(2) by (simp add: ex_map_def nth_Cons')
    moreover have "bit (0xff :: 8 word) (n mod 8)" using bit_mask_iff [where 'a = "8 word" and m = 8 and n = "n mod 8"] by (simp add: mask_eq_exp_minus_1)
    ultimately show ?thesis unfolding u using False by simp
  qed
qed

lemma ex_file_holes: "blk_at V dev ex_file pos = 0" if "pos \<in> tpos ex_file"
proof (cases pos)
  case (Dir l)
  then show ?thesis using that by (simp add: ex_file_def fso.extend_def)
next
  case (Ind d p)
  have "ind V dev ex_file 0 q = 0" for q by (simp add: ex_file_def fso.extend_def)
  then show ?thesis using ind_zero [of V dev ex_file 0 p d] Ind by simp
qed

lemma ex_dir_fields:
  "bmap ex_dir = 4 # replicate 113 0" "ndirblks ex_dir = 100" "nindirlev ex_dir = 1" "bmap_valid ex_dir = False" "o_size ex_dir = 512"
  "o_mode ex_dir = 0x31ff"
  by (simp_all add: ex_dir_def fso.extend_def)

lemma ex_dir_tree: "blk_at V dev ex_dir pos = (if pos = Dir 0 then 4 else 0)" if "pos \<in> tpos ex_dir"
proof (cases pos)
  case (Dir l)
  then show ?thesis using that by (simp add: ex_dir_fields nth_Cons')
next
  case (Ind d p)
  have "ind V dev ex_dir 0 q = 0" for q by (simp add: ex_dir_fields nth_Cons')
  then show ?thesis using ind_zero [of V dev ex_dir 0 p d] Ind by simp
qed

lemma ex_dir_lookup: "lookup V dev ex_dir 0 = 4"
  using ex_dir_tree [of "Dir 0"] by (simp add: lookup_def data_pos_def ex_dir_fields)

lemma ex_dir_dent:
  assumes "V 1 4 = ex_dirblk"
  shows "dent V 1 ex_dir = (\<lambda>_. None)((0, 0) := Some (bytes ''a'', 3))" "dents_ok (dblk V 1 ex_dir) (o_size ex_dir div BLK_SIZE)"
proof -
  let ?Z = "\<lambda>_ :: nat. zeros"
  have n1: "o_size ex_dir div BLK_SIZE = Suc 0" by (simp add: ex_dir_fields)
  have f: "?Z(0 := zeros) = ?Z" by auto
  have "dent_of ?Z 0 = (\<lambda>_. None)" "dents_ok ?Z 0" by (auto simp: dent_of_def dents_ok_def)
  then have z: "dents_ok ?Z (Suc 0)" "dent_of ?Z (Suc 0) = (\<lambda>_. None)"
    using dents_ok_grow [of ?Z 0] dent_of_grow [of ?Z 0] unfolding f by simp_all
  have P: "dent_of (?Z(0 := ex_dirblk)) (Suc 0) = (\<lambda>_. None)((0, 0) := Some (bytes ''a'', 3))" "dents_ok (?Z(0 := ex_dirblk)) (Suc 0)"
    using dent_of_put [OF z(1), of 0 0 "''a''" 3] ex_name z(2) unfolding ex_dirblk_def by simp_all
  have db: "dblk V 1 ex_dir 0 = ex_dirblk" by (simp only: dblk_def ex_dir_lookup assms)
  have eq: "dblk V 1 ex_dir l = (?Z(0 := ex_dirblk)) l" if "l < Suc 0" for l using that db by simp
  show "dent V 1 ex_dir = (\<lambda>_. None)((0, 0) := Some (bytes ''a'', 3))"
    unfolding dent_def n1 P(1) [symmetric] by (rule dent_of_cong) (rule eq)
  show "dents_ok (dblk V 1 ex_dir) (o_size ex_dir div BLK_SIZE)" unfolding n1 using P(2) db by (simp add: dents_ok_def)
qed

text \<open>The only name in the directory.\<close>

lemma ex_dir_map:
  assumes "V 1 4 = ex_dirblk"
  shows "dir_map V 1 ex_dir = [''a'' \<mapsto> 3]"
proof (rule map_eqI)
  fix n x
  have u: "\<forall>p q n x y. dent V 1 ex_dir p = Some (n, x) \<longrightarrow> dent V 1 ex_dir q = Some (n, y) \<longrightarrow> p = q"
    unfolding ex_dir_dent(1) [of V, OF assms] by (auto split: if_splits)
  have "dir_map V 1 ex_dir n = Some x \<longleftrightarrow> (\<exists>p. dent V 1 ex_dir p = Some (bytes n, x))" by (rule dir_map_iff [OF u])
  also have "\<dots> \<longleftrightarrow> n = ''a'' \<and> x = 3" unfolding ex_dir_dent(1) [of V, OF assms] using bytes_inj [of "''a''" n] by (auto split: if_splits)
  finally show "dir_map V 1 ex_dir n = Some x \<longleftrightarrow> [''a'' \<mapsto> 3] n = Some x" by auto
qed

text \<open>The state after the cache has been initialised.\<close>

lemma ex_started:
  "\<exists>s. blk_init EZERO EZERO (cache_on ex_disk) = Some s \<and> view rd_sector s 1 2 = ex_map \<and> bam_ok rd_sector rd_has rd_ok 1 ex_fs s \<and>
     file_inv rd_sector rd_has rd_ok 1 ex_file ex_fs s \<and> dir_inv rd_sector rd_has rd_ok 1 ex_dir ex_fs s \<and> nfree s = BLK_NBLK \<and>
     view rd_sector s 1 4 = ex_dirblk \<and> disk s = ex_disk \<and> view rd_sector s = rd_sector ex_disk"
proof -
  obtain s H R where s: "blk_init EZERO EZERO (cache_on ex_disk) = Some s" "coherent rd_sector rd_has rd_ok s H R" "disk s = ex_disk"
      "view rd_sector s = rd_sector ex_disk" "\<forall>x < blk_count s. b_refcnt (blk s x) = 0" "blk_count s = BLK_NBLK"
    using cache_started [OF ex_disk_ok] by blast
  have "free_bufs s = {..<BLK_NBLK}" using s(5,6) by (auto simp: free_bufs_def refs_def)
  then have nf: "nfree s = BLK_NBLK" by (simp add: nfree_def)
  have V: "view rd_sector s 1 2 = ex_map" using s(4) ex_disk_map by simp
  have ok: "bam_ok rd_sector rd_has rd_ok 1 ex_fs s"
    using s(2,3) nf ex_disk_has by (auto simp: bam_ok_def ready_def ex_fs_def)
  have n: "nblocks ex_fs = 4096" "bam_range ex_fs = {2}" by (auto simp: nblocks_def bam_range_def ex_fs_def)
  have fr: "free_ok (view rd_sector s) 1 ex_fs (rd_has (disk s) 1)"
    unfolding free_ok_def n using ex_used [of "view rd_sector s", OF V] s(3) ex_disk_has by auto
  have "tree_ok U (view rd_sector s) 1 ex_file" for U
    unfolding tree_ok_def using ex_file_holes by (auto simp: ex_file_def fso.extend_def)
  moreover have "\<not> bmap_valid ex_file" "nindirlev ex_file = 1" by (simp_all add: ex_file_def fso.extend_def)
  ultimately have f: "file_inv rd_sector rd_has rd_ok 1 ex_file ex_fs s" using ok nf fr by (simp add: file_inv_def file_ok_def bmap_cached_def)
  have V4: "view rd_sector s 1 4 = ex_dirblk" using s(4) ex_disk_dir by simp
  have "4 \<in> live (view rd_sector s) 1 ex_fs (rd_has (disk s) 1)"
    unfolding live_def n using ex_used [of "view rd_sector s" 4, OF V] s(3) ex_disk_has by simp
  then have "tree_ok (live (view rd_sector s) 1 ex_fs (rd_has (disk s) 1)) (view rd_sector s) 1 ex_dir"
    unfolding tree_ok_def using ex_dir_tree by (auto simp: ex_dir_fields)
  then have d: "file_inv rd_sector rd_has rd_ok 1 ex_dir ex_fs s"
    using ok nf fr by (simp add: file_inv_def file_ok_def bmap_cached_def ex_dir_fields)
  note E = ex_dir_dent [of "view rd_sector s", OF V4]
  have "dir_inv rd_sector rd_has rd_ok 1 ex_dir ex_fs s"
    unfolding dir_inv_def E(1) using d E(2) ex_dir_lookup by (auto simp: ex_dir_fields split: if_splits)
  then show ?thesis using s(1,3,4) V V4 ok f nf by blast
qed

theorem balloc_takes_free_witness:
  "\<exists>s n f' s'. blk_init EZERO EZERO (cache_on ex_disk) = Some s \<and> nat_balloc rd_read rd_write 1 ex_fs s = Some (Inr n, f', s') \<and> n \<in> {6, 7}"
proof -
  obtain s where s: "blk_init EZERO EZERO (cache_on ex_disk) = Some s" "view rd_sector s 1 2 = ex_map" "bam_ok rd_sector rd_has rd_ok 1 ex_fs s"
    using ex_started by blast
  have n: "bam_size ex_fs = 1" "data_block ex_fs = 3" by (simp_all add: ex_fs_def)
  note u = ex_used [of "view rd_sector s", OF s(2)]
  have big: "bam_size ex_fs * (BLK_SIZE * 8) = 4096" by (simp add: n)
  obtain r f' s' where r: "nat_balloc rd_read rd_write 1 ex_fs s = Some (r, f', s')"
      "case r of
        Inl e \<Rightarrow> e = ENOSPC \<and> (\<forall>n. 3 \<le> n \<longrightarrow> n < 4096 \<longrightarrow> used (view rd_sector s) 1 ex_fs n) \<and>
          (\<forall>n < 4096. used (view rd_sector s') 1 f' n = used (view rd_sector s) 1 ex_fs n)
      | Inr nr \<Rightarrow> nr < 4096 \<and> \<not> used (view rd_sector s) 1 ex_fs nr \<and>
          (\<forall>n < 4096. used (view rd_sector s') 1 f' n \<longleftrightarrow> n = nr \<or> used (view rd_sector s) 1 ex_fs n)"
    using balloc_takes_free [OF rdd.block_driver_axioms s(3)] unfolding big n(2) by blast
  have "\<not> used (view rd_sector s) 1 ex_fs 6" by (simp only: u) simp
  then obtain m where m: "r = Inr m" "m < 4096" "\<not> used (view rd_sector s) 1 ex_fs m" using r(2) by (cases r) fastforce+
  then have "6 \<le> m \<and> m < 8" using u [OF m(2)] by blast
  then have "m \<in> {6, 7}" by auto
  then show ?thesis using s(1) r(1) m(1) by blast
qed

theorem statfs_counts_free_witness:
  "\<exists>s st f' s'. blk_init EZERO EZERO (cache_on ex_disk) = Some s \<and> nat_statfs rd_read rd_write 1 ex_fs s = Some (Inr st, f', s') \<and>
     blk_total st = 5 \<and> blk_free st mod 2 ^ 32 = 2"
proof -
  obtain s where s: "blk_init EZERO EZERO (cache_on ex_disk) = Some s" "view rd_sector s 1 2 = ex_map" "bam_ok rd_sector rd_has rd_ok 1 ex_fs s"
    using ex_started by blast
  have n: "bam_size ex_fs = 1" "data_size ex_fs = 5" by (simp_all add: ex_fs_def)
  have "{n. n < 4096 \<and> \<not> used (view rd_sector s) 1 ex_fs n} = {6..<8}" using ex_used [of "view rd_sector s", OF s(2)] by auto
  then show ?thesis using statfs_counts_free [OF rdd.block_driver_axioms s(3)] s(1) n by auto
qed

lemma ex_file_regular: "o_mode ex_file AND S_IFMT = S_IFREG" "o_size ex_file = 1000"
  by (simp_all add: ex_file_def fso.extend_def zero_fso_def)

lemma ex_file_content: "content V dev ex_file x = 0"
  using ex_file_holes [where pos = "data_pos ex_file (x div BLK_SIZE)"] by (simp add: content_def lookup_def)

theorem nat_read_contents_witness:
  "\<exists>s b' s'. blk_init EZERO EZERO (cache_on ex_disk) = Some s \<and>
     nat_read rd_read rd_write 1 EZERO 0 False False 997 10 ex_file ex_fs s = Some (Inr [0, 0, 0], b', ex_fs, s')"
proof -
  obtain s where s: "blk_init EZERO EZERO (cache_on ex_disk) = Some s" "file_inv rd_sector rd_has rd_ok 1 ex_file ex_fs s"
    using ex_started by blast
  have sz: "o_size ex_file \<le> NAT_FILE_SIZE_MAX" "997 + 10 < (2 :: nat) ^ 64" by (simp_all add: ex_file_regular(2))
  have tb: "\<forall>x < o_size ex_file. \<not> too_big ex_file (x div BLK_SIZE)"
    by (auto simp: ex_file_regular(2) too_big_def ex_file_def fso.extend_def)
  have "map (content (view rd_sector s) 1 ex_file) [997..<min (997 + 10) (o_size ex_file)] = [0, 0, 0]"
    by (simp add: ex_file_content ex_file_regular(2) upt_rec)
  then show ?thesis
    using nat_read_contents [OF rdd.block_driver_axioms s(2) ex_file_regular(1) sz(1) tb sz(2), of 0 False False] s(1) by auto
qed

theorem nat_write_contents_witness:
  "\<exists>s e k b' f' s'. blk_init EZERO EZERO (cache_on ex_disk) = Some s \<and>
     nat_write rd_read rd_write 1 EZERO 0 510 [1, 2, 3] ex_file ex_fs s = Some (e, b', f', s') \<and> k \<le> (3 :: nat) \<and>
     content (view rd_sector s') 1 b' 512 = (if 2 < k then 3 else 0) \<and> o_size b' = 1000"
proof -
  obtain s where s: "blk_init EZERO EZERO (cache_on ex_disk) = Some s" "file_inv rd_sector rd_has rd_ok 1 ex_file ex_fs s"
    using ex_started by blast
  have sz: "510 + length [1, 2, 3 :: 8 word] < NAT_FILE_SIZE_MAX" by simp
  note works = nat_write_contents [OF rdd.block_driver_axioms s(2) ex_file_regular(1) sz, of 0]
  obtain e k b' f' s' where w: "nat_write rd_read rd_write 1 EZERO 0 510 [1, 2, 3] ex_file ex_fs s = Some (e, b', f', s')" "k \<le> length [1, 2, 3 :: 8 word]"
      "content (view rd_sector s') 1 b' 512 = (if 510 \<le> (512 :: nat) \<and> 512 < 510 + k then [1, 2, 3] ! (512 - 510) else content (view rd_sector s) 1 ex_file 512)"
      "o_size b' = (if k = 0 then o_size ex_file else max (o_size ex_file) (510 + k))"
    using works by blast
  have "o_size b' = 1000" using w(2,4) ex_file_regular(2) by (auto simp: max_def)
  moreover have "content (view rd_sector s') 1 b' 512 = (if 2 < k then 3 else 0)" unfolding w(3) ex_file_content by simp
  moreover have "k \<le> 3" using w(2) by simp
  ultimately show ?thesis using s(1) w(1) by blast
qed

theorem nat_trunc_frees_witness:
  "\<exists>s b' f' s'. blk_init EZERO EZERO (cache_on ex_disk) = Some s \<and> nat_trunc rd_read rd_write 1 ex_dir ex_fs s = Some (EZERO, b', f', s') \<and>
     o_size b' = 0 \<and> used (view rd_sector s) 1 ex_fs 4 \<and> \<not> used (view rd_sector s') 1 f' 4"
proof -
  obtain s where s: "blk_init EZERO EZERO (cache_on ex_disk) = Some s" "view rd_sector s 1 2 = ex_map"
      "dir_inv rd_sector rd_has rd_ok 1 ex_dir ex_fs s" "nfree s = BLK_NBLK"
    using ex_started by blast
  have I: "file_inv rd_sector rd_has rd_ok 1 ex_dir ex_fs s" using s(3) by (simp add: dir_inv_def)
  have p: "nindirlev ex_dir \<ge> 1" "nfree s \<ge> nindirlev ex_dir + 1" using s(4) by (simp_all add: ex_dir_fields)
  have "4 \<in> owns (view rd_sector s) 1 ex_dir"
    using ex_dir_tree [of "Dir 0"] by (auto simp: owns_def ex_dir_fields intro!: image_eqI [of _ _ "Dir 0"])
  moreover have "4 < nblocks ex_fs" by (simp add: nblocks_def ex_fs_def)
  ultimately show ?thesis using nat_trunc_frees [OF rdd.block_driver_axioms I p] s(1) ex_used [of "view rd_sector s" 4, OF s(2)] by auto
qed

theorem nat_syncfso_getfso_witness:
  "\<exists>s s1 s2 b. blk_init EZERO EZERO (cache_on ex_disk) = Some s \<and>
     nat_syncfso rd_write 1 True (ex_file\<lparr>o_dirty := True\<rparr>) s = Some (EZERO, ex_file, s1) \<and>
     getfso_hdr rd_read rd_write 1 True (ex_dir\<lparr>o_index := 3\<rparr>) s1 = Some (EZERO, b, s2) \<and> o_size b = 1000 \<and> bit (o_mode b) 2 \<and> bmap b = replicate 114 0"
proof -
  obtain s where s: "blk_init EZERO EZERO (cache_on ex_disk) = Some s" "file_inv rd_sector rd_has rd_ok 1 ex_file ex_fs s" "disk s = ex_disk"
    using ex_started by blast
  let ?b = "ex_file\<lparr>o_dirty := True\<rparr>"
  have r: "ready rd_sector rd_has rd_ok s" "nfree s > 0" using block_driver.file_inv_ready [OF rdd.block_driver_axioms s(2)] by simp_all
  have h: "rd_has (disk s) 1 (nat (o_index ?b))" unfolding s(3) ex_disk_has by (simp add: ex_file_def fso.extend_def)
  have g: "hdr_range ?b" "o_dirty ?b" "o_index (ex_dir\<lparr>o_index := 3\<rparr>) = o_index ?b"
    by (simp_all add: hdr_range_def ex_file_def fso.extend_def zero_fso_def)
  have e: "?b\<lparr>o_dirty := False\<rparr> = ex_file" "o_size ?b = 1000" "bmap ?b = replicate 114 0"
    by (simp_all add: ex_file_def fso.extend_def zero_fso_def)
  obtain s1 s2 m where "nat_syncfso rd_write 1 True ?b s = Some (EZERO, ex_file, s1)" "shared_mode (o_mode ?b) m"
      "getfso_hdr rd_read rd_write 1 True (ex_dir\<lparr>o_index := 3\<rparr>) s1 =
         Some (EZERO, (ex_dir\<lparr>o_index := 3\<rparr>)\<lparr>o_blocks := o_blocks ?b, o_size := 1000, o_mode := m, o_rdev := 0, o_uid := 0, o_gid := 0, atime := atime ?b,
           ctime := ctime ?b, mtime := mtime ?b, nlink := nlink ?b, bmap := replicate 114 0, ndirblks := ndirblks ?b, nindirlev := nindirlev ?b\<rparr>, s2)"
    using nat_syncfso_getfso [OF rdd.block_driver_axioms, OF r h g, where insec = True] unfolding e if_True by blast
  moreover from this(2) [unfolded shared_mode_def, THEN conjunct2, THEN conjunct2, rule_format, of 0] have "bit m 2"
    by (simp add: numeral_2_eq_2)
  ultimately show ?thesis using s(1) by auto
qed

theorem nat_putfso_deletes_witness:
  "\<exists>s b' f' s'. blk_init EZERO EZERO (cache_on ex_disk) = Some s \<and>
     nat_putfso rd_read rd_write 1 False (ex_dir\<lparr>nlink := 0, o_index := 3\<rparr>) ex_fs s = Some (EZERO, b', f', s') \<and>
     \<not> used (view rd_sector s') 1 f' 3 \<and> \<not> used (view rd_sector s') 1 f' 4 \<and> used (view rd_sector s') 1 f' 2"
proof -
  obtain s where s: "blk_init EZERO EZERO (cache_on ex_disk) = Some s" "view rd_sector s 1 2 = ex_map"
      "dir_inv rd_sector rd_has rd_ok 1 ex_dir ex_fs s" "nfree s = BLK_NBLK"
    using ex_started by blast
  let ?b = "ex_dir\<lparr>nlink := 0, o_index := 3\<rparr>"
  have "file_inv rd_sector rd_has rd_ok 1 ex_dir ex_fs s" using s(3) by (simp add: dir_inv_def)
  then have I: "file_inv rd_sector rd_has rd_ok 1 ?b ex_fs s" by (rule block_driver.file_inv_same [OF rdd.block_driver_axioms]) simp_all
  have p: "nindirlev ?b \<ge> 1" "nfree s \<ge> nindirlev ?b + 1" "nlink ?b = 0" "nat (o_index ?b) < nblocks ex_fs"
    using s(4) by (simp_all add: ex_dir_fields nblocks_def ex_fs_def)
  have o: "owns (view rd_sector s) 1 ?b = owns (view rd_sector s) 1 ex_dir" by (rule owns_fields) simp_all
  have "owns (view rd_sector s) 1 ex_dir = {4}"
    using ex_dir_tree by (auto simp: owns_def ex_dir_fields intro!: image_eqI [of _ _ "Dir 0"] split: if_splits)
  moreover have "nblocks ex_fs = 4096" by (simp add: nblocks_def ex_fs_def)
  ultimately show ?thesis
    using nat_putfso_deletes [OF rdd.block_driver_axioms I p, of False] s(1) ex_used [of "view rd_sector s" 2, OF s(2)] unfolding o by auto
qed

theorem new_entry_adds_witness:
  "\<exists>s e b' f' s'. blk_init EZERO EZERO (cache_on ex_disk) = Some s \<and>
     new_entry rd_read rd_write 1 EZERO 0 ''b'' 6 ex_dir ex_fs s = Some (e, b', f', s') \<and>
     dir_map (view rd_sector s') 1 b' = (if e = EZERO then [''a'' \<mapsto> 3, ''b'' \<mapsto> 6] else [''a'' \<mapsto> 3])"
proof -
  obtain s where s: "blk_init EZERO EZERO (cache_on ex_disk) = Some s" "dir_inv rd_sector rd_has rd_ok 1 ex_dir ex_fs s"
      "view rd_sector s 1 4 = ex_dirblk"
    using ex_started by blast
  have "CHR 0x00 \<notin> set ''b''" "(0 :: nat) < 6" "(6 :: nat) < 2 ^ 32" by simp_all
  from new_entry_adds [OF rdd.block_driver_axioms s(2) this, of EZERO 0] show ?thesis
    unfolding ex_dir_map [of "view rd_sector s", OF s(3)] using s(1) by (auto split: if_splits)
qed

theorem find_entry_remove_witness:
  "\<exists>s bb i b' s1 s2. blk_init EZERO EZERO (cache_on ex_disk) = Some s \<and>
     find_entry rd_read rd_write 1 EZERO ''a'' ex_dir ex_fs s = Some (Inr (bb, i), b', ex_fs, s1) \<and>
     blk_put (Some bb) (clear_dirent bb i s1) = Some s2 \<and> dir_map (view rd_sector s2) 1 b' = Map.empty"
proof -
  obtain s where s: "blk_init EZERO EZERO (cache_on ex_disk) = Some s" "dir_inv rd_sector rd_has rd_ok 1 ex_dir ex_fs s"
      "view rd_sector s 1 4 = ex_dirblk"
    using ex_started by blast
  have m: "dir_map (view rd_sector s) 1 ex_dir = [''a'' \<mapsto> 3]" by (rule ex_dir_map [of "view rd_sector s", OF s(3)])
  then show ?thesis using find_entry_remove [OF rdd.block_driver_axioms s(2), of "''a''"] s(1) unfolding m by auto
qed

text \<open>The kernel with the file system mounted and none of its files in core.\<close>

definition ex_kernel :: "rd_units bcache \<Rightarrow> rd_units nstate" where
  "ex_kernel c = fstate.extend
     (example_files\<lparr>fs_fs := [\<lparr>prefix = [], removable = False, read_only = False, no_atime = False, insecure = False,
        active = True, in_use = True, unmount_time = 0, fs_type = Some 0, fs_dev = Some 1\<rparr>]\<rparr>)
     \<lparr>nat_ext = (\<lambda>_. zero_part), nat_of = (\<lambda>_. ex_fs), bufs = c\<rparr>"

lemma ex_kernel_simps:
  "fs_fso (ex_kernel c) = fs_fso example_files" "fs_fso_high (ex_kernel c) = 8" "curr (ex_kernel c) = Some 0" "tsk (ex_kernel c) = tsk example_files"
  "nat_of (ex_kernel c) = (\<lambda>_. ex_fs)" "bufs (ex_kernel c) = c" "length (fs_fs (ex_kernel c)) = 1"
  "fs_dev (fs_fs (ex_kernel c) ! 0) = Some 1" "\<not> insecure (fs_fs (ex_kernel c) ! 0)" "\<not> read_only (fs_fs (ex_kernel c) ! 0)"
  by (simp_all add: ex_kernel_def fstate.defs example_files_simps) (simp_all add: example_files_def kstate.defs)

lemma ex_hdr_range: "hdr_range ex_file" "hdr_range ex_dir"
  by (simp_all add: hdr_range_def ex_file_def ex_dir_def fso.extend_def zero_fso_def)

lemma ex_hobj: "hobj (rd_sector ex_disk) 1 3 = ex_file\<lparr>o_refcnt := 0\<rparr>" "hobj (rd_sector ex_disk) 1 5 = ex_dir\<lparr>o_refcnt := 0\<rparr>"
  unfolding hobj_def ex_disk_hdrs hdr_load_store [OF ex_hdr_range(1)] hdr_load_store [OF ex_hdr_range(2)]
  by (simp_all add: ex_file_def ex_dir_def fso.defs nat_fso.defs zero_part_def zero_fso_def)

lemma ex_root_dir: "is_dir (hobj (rd_sector ex_disk) 1 5)" "dir_map (rd_sector ex_disk) 1 (hobj (rd_sector ex_disk) 1 5) = [''a'' \<mapsto> 3]"
proof -
  show "is_dir (hobj (rd_sector ex_disk) 1 5)" unfolding ex_hobj by (simp add: is_dir_def ex_dir_fields)
  have "same_map ex_dir (ex_dir\<lparr>o_refcnt := 0\<rparr>)" by (simp add: same_map_def)
  note sm = same_map_dblk [OF this] same_map_slot [OF this]
  have "dir_blocks (ex_dir\<lparr>o_refcnt := 0\<rparr>) = dir_blocks ex_dir" by (simp add: dir_blocks_def)
  then have "dir_map (rd_sector ex_disk) 1 (ex_dir\<lparr>o_refcnt := 0\<rparr>) = dir_map (rd_sector ex_disk) 1 ex_dir" by (simp add: dir_map_def sm fun_eq_iff)
  then show "dir_map (rd_sector ex_disk) 1 (hobj (rd_sector ex_disk) 1 5) = [''a'' \<mapsto> 3]"
    unfolding ex_hobj using ex_dir_map [of "rd_sector ex_disk"] ex_disk_dir by simp
qed

lemma ex_lookup_inv:
  "\<exists>c. blk_init EZERO EZERO (cache_on ex_disk) = Some c \<and> view rd_sector c = rd_sector ex_disk \<and>
     lookup_inv rd_sector rd_has rd_ok 1 0 {3, 5} (ex_kernel c) \<and> nfree c = BLK_NBLK"
proof -
  obtain c where c: "blk_init EZERO EZERO (cache_on ex_disk) = Some c" "file_inv rd_sector rd_has rd_ok 1 ex_file ex_fs c"
      "dir_inv rd_sector rd_has rd_ok 1 ex_dir ex_fs c" "nfree c = BLK_NBLK" "view rd_sector c 1 4 = ex_dirblk" "disk c = ex_disk"
      "view rd_sector c = rd_sector ex_disk" using ex_started by blast
  let ?V = "rd_sector ex_disk"
  have F: "file_inv rd_sector rd_has rd_ok 1 (hobj ?V 1 3) ex_fs c" "file_inv rd_sector rd_has rd_ok 1 (hobj ?V 1 5) ex_fs c"
    unfolding ex_hobj using c(2,3) by (auto intro: block_driver.file_inv_same [OF rdd.block_driver_axioms] simp: dir_inv_def)
  have sm: "same_map ex_dir (hobj ?V 1 5)" unfolding ex_hobj by (simp add: same_map_def)
  note D = block_driver.dir_inv_same [OF rdd.block_driver_axioms c(3) F(2) sm refl]
  have "ready rd_sector rd_has rd_ok c" using block_driver.file_inv_ready [OF rdd.block_driver_axioms c(2)] by simp
  moreover have "\<not> is_dir (hobj ?V 1 3)" unfolding is_dir_def ex_hobj by (simp add: ex_file_def fso.extend_def zero_fso_def)
  moreover have "nlink (hobj ?V 1 3) = 1" "nlink (hobj ?V 1 5) = 1" unfolding ex_hobj by (simp_all add: ex_file_def ex_dir_def fso.extend_def)
  ultimately have "tree_inv rd_sector rd_has rd_ok 1 {3, 5} ex_fs c"
    using F D(1) ex_root_dir(2) c(4,6) ex_disk_has unfolding tree_inv_def c(7) by simp
  moreover have "tbl ?V 1 0 {3, 5} (ex_kernel c)"
    unfolding tbl_def unique_objs_def by (auto simp: ex_kernel_simps example_files_simps zero_fso_def)
  ultimately show ?thesis using c(1,4,7) by (auto simp: lookup_inv_def ex_kernel_simps)
qed

lemma ex_search: "search_perm (ex_kernel c) 0 (rd_sector ex_disk) 1 5 = EZERO"
  unfolding search_perm_def ex_hobj
  by (simp add: perm_def fs_chk_perm_def fs_of_def perm_bits_def nat_chk_perm_def Let_def ex_kernel_simps fso.defs ex_dir_fields)

lemma ex_resolve:
  "resolve (rd_sector ex_disk) 1 (search_perm (ex_kernel c) 0 (rd_sector ex_disk) 1) (root_block (nat_of (ex_kernel c) 0)) ''a'' = Inr 3"
  using ex_search ex_root_dir by (simp add: resolve_def walk_dirs.simps basename_def entry_def ex_kernel_simps ex_fs_def)

theorem nat_lookup_resolves_witness:
  "\<exists>c j s'. blk_init EZERO EZERO (cache_on ex_disk) = Some c \<and>
     nat_lookup rd_read rd_write EZERO 0 ''a'' (ex_kernel c) = Some (Inr j, s') \<and> o_index (fs_fso s' j) = 3 \<and>
     o_refcnt (fs_fso s' j) = o_refcnt (fs_fso (ex_kernel c) j) + 1"
proof -
  obtain c where c: "blk_init EZERO EZERO (cache_on ex_disk) = Some c" "view rd_sector c = rd_sector ex_disk"
      "lookup_inv rd_sector rd_has rd_ok 1 0 {3, 5} (ex_kernel c)" using ex_lookup_inv by blast
  let ?V = "rd_sector ex_disk" and ?s = "ex_kernel c"
  have p: "root_block (nat_of ?s 0) \<in> {3, 5}" "short_names ''a''" by (simp_all add: ex_kernel_simps ex_fs_def short_names.simps)
  obtain x s' where x: "nat_lookup rd_read rd_write EZERO 0 ''a'' ?s = Some (x, s')"
      "\<forall>j. o_refcnt (fs_fso s' j) = o_refcnt (fs_fso ?s j) + of_bool (x = Inr j)"
      "case x of Inl e \<Rightarrow> Inr 3 = (Inl e :: errno + nat) \<or> no_room EZERO (\<lambda>j. o_refcnt (fs_fso ?s j)) (fs_fso_high ?s) e
       | Inr j \<Rightarrow> o_fs (fs_fso s' j) = Fs 0 \<and> Inr 3 = (Inr (nat (o_index (fs_fso s' j))) :: errno + nat)"
    using nat_lookup_resolves [OF rdd.block_driver_axioms c(3) p, of EZERO] unfolding ex_kernel_simps(6) c(2) Let_def ex_resolve by blast
  then obtain j where j: "x = Inr j" "o_fs (fs_fso s' j) = Fs 0" "o_index (fs_fso s' j) = 3"
    by (cases x) (auto simp: no_room_def ex_kernel_simps)
  then show ?thesis using c(1) x(1,2) by auto
qed

text \<open>Opening the file of the example.\<close>

interpretation onat: file_namer "kern_types rd_read rd_write atmem now" "nat_mounted rd_sector rd_has rd_ok dev k H" "in_tbl k"
  "fs_activate (kern_types rd_read rd_write atmem now) rd_write up" "nat_live rd_sector rd_has rd_ok dev k" "nat_named k"
  by (rule nat_namer [OF rdd.block_driver_axioms])

interpretation cnat: fso_driver "putfso (kern_types rd_read rd_write atmem now)" "nat_closable rd_sector rd_has rd_ok dev k"
  by (rule nat_driver [OF rdd.block_driver_axioms])

lemma ex_kernel_tables:
  "fs_file (ex_kernel c) = fs_file example_files" "slot (ex_kernel c) = slot example_files" "fds (ex_kernel c) = fds example_files"
  "euid (tsk (ex_kernel c) 0) = 0" "tty (tsk (ex_kernel c) 0) = []" "fs_type (fs_fs (ex_kernel c) ! 0) = Some 0" "\<not> removable (fs_fs (ex_kernel c) ! 0)"
  by (simp_all add: ex_kernel_def fstate.defs fds_def fun_eq_iff) (simp_all add: example_files_def kstate.defs boot_task_def zero_task_def)

lemma ex_kernel_refs: "refs_ok (ex_kernel c)" "objs_ok (ex_kernel c)"
proof -
  have "file_refs (ex_kernel c) = file_refs example_files" by (simp add: file_refs_def ex_kernel_tables fun_eq_iff)
  then show "refs_ok (ex_kernel c)" using example_refs(1) by (simp add: refs_ok_def ex_kernel_tables)
  have "fso_refs (ex_kernel c) = fso_refs example_files" by (simp add: fso_refs_def ex_kernel_tables fun_eq_iff)
  then show "objs_ok (ex_kernel c)" using example_refs(2) by (simp add: objs_ok_def ex_kernel_tables ex_kernel_simps)
qed

lemma ex_path: "fs_fqname cw [] ''/a'' = Inr ''/a''" "fs_pathfs (fs_fs (ex_kernel c)) ''/a'' = Inr (0, 1)"
proof -
  show "fs_fqname cw [] ''/a'' = Inr ''/a''" by (simp add: fs_fqname_def fq_loop.simps)
  show "fs_pathfs (fs_fs (ex_kernel c)) ''/a'' = Inr (0, 1)" by (simp add: fs_pathfs_def ex_kernel_def fstate.defs prefix_matches_def)
qed

lemma ex_finds:
  assumes "view rd_sector c = rd_sector ex_disk" and "lookup_inv rd_sector rd_has rd_ok 1 0 {3, 5} (ex_kernel c)"
  shows "\<exists>j s'. nat_lookup rd_read rd_write EZERO 0 ''a'' (ex_kernel c) = Some (Inr j, s') \<and> same_world (ex_kernel c) s' \<and> o_fs (fs_fso s' j) = Fs 0"
proof -
  have p: "root_block (nat_of (ex_kernel c) 0) \<in> {3, 5}" "short_names ''a''" by (simp_all add: ex_kernel_simps ex_fs_def short_names.simps)
  have nr: "\<not> no_room EZERO (\<lambda>j. o_refcnt (fs_fso (ex_kernel c) j)) (fs_fso_high (ex_kernel c)) e" for e
    by (auto simp: no_room_def ex_kernel_simps)
  let ?R = "\<lambda>j. o_refcnt (fs_fso (ex_kernel c) j)"
  obtain r s' where w: "nat_lookup rd_read rd_write EZERO 0 ''a'' (ex_kernel c) = Some (r, s')" "walked rd_sector rd_has rd_ok 1 0 {3, 5} (ex_kernel c) s'"
      "case r of
         Inl x \<Rightarrow> refs_are ?R None s' \<and> (Inr 3 = (Inl x :: errno + nat) \<or> no_room EZERO ?R (fs_fso_high (ex_kernel c)) x)
       | Inr j \<Rightarrow> in_tbl 0 s' j \<and> refs_are ?R (Some j) s' \<and> Inr 3 = (Inr (nat (o_index (fs_fso s' j))) :: errno + nat)"
    using block_driver.lookup_works [OF rdd.block_driver_axioms assms(2) p, of EZERO] unfolding ex_kernel_simps(6) assms(1) ex_resolve by blast
  then show ?thesis using nr by (cases r) (auto simp: walked_def in_tbl_def)
qed

lemma sum_caseD: "(case r of Inl a \<Rightarrow> P a | Inr b \<Rightarrow> Q b) \<Longrightarrow> (\<exists>a. r = Inl a \<and> P a) \<or> (\<exists>b. r = Inr b \<and> Q b)"
  by (cases r) auto


text \<open>The file of the example, open for reading and writing.\<close>

definition ex_open :: "rd_units bcache \<Rightarrow> rd_units nstate" where
  "ex_open c = upd_file 5 (ff_omode_update (\<lambda>_. 2)) (put_obj 7 ex_file (ex_kernel c))"

lemma put_obj_tables: "fs_fs (put_obj i b s) = fs_fs s" "curr (put_obj i b s) = curr s" "tsk (put_obj i b s) = tsk s" "fds (put_obj i b s) = fds s"
    "fs_file (put_obj i b s) = fs_file s" "nat_of (put_obj i b s) = nat_of s" "bufs (put_obj i b s) = bufs s" "fs_fso (put_obj i b s) i = fso.truncate b"
  by (simp_all add: put_obj_def fds_def [abs_def])

lemma ex_open_file:
  "nat_obj (ex_open c) 7 = ex_file" "nat_of (ex_open c) 0 = ex_fs" "bufs (ex_open c) = c" "fs_fso (ex_open c) 7 = fso.truncate ex_file"
  "fs_file (ex_open c) 5 = zero_file\<lparr>ff_refcnt := 1, ff_fso := Some 7, ff_omode := 2\<rparr>" "fs_fs (ex_open c) = fs_fs (ex_kernel c)"
  "tsk (ex_open c) = tsk example_files" "curr (ex_open c) = Some 0" "fds (ex_open c) = fds example_files"
  by (simp_all add: ex_open_def put_obj_tables ex_kernel_simps ex_kernel_tables example_files_simps)

lemma ex_open_on: "open_on (ex_open c) 0 3 5 7" "nat_file (ex_open c) 7 0 1"
  "fdaccess (kern_types rd_read rd_write EZERO 0) 3 (R_OK OR W_OK) (ex_open c) = Some EZERO"
proof -
  have f: "o_fs (fso.truncate ex_file) = Fs 0" by (simp add: ex_file_def fso.defs zero_fso_def)
  show o: "open_on (ex_open c) 0 3 5 7" by (simp add: open_on_def ex_open_file example_fds)
  show "nat_file (ex_open c) 7 0 1" unfolding nat_file_eq ex_open_file f by (simp add: ex_kernel_simps ex_kernel_tables)
  show "fdaccess (kern_types rd_read rd_write EZERO 0) 3 (R_OK OR W_OK) (ex_open c) = Some EZERO"
    unfolding fdaccess_perm [OF kern_plain o] ex_open_file(5-7) using ex_kernel_tables(4) [of c] ex_kernel_simps(10) [of c]
    by (simp add: fs_chk_perm_def Let_def fs_of_def ex_open_file f ex_kernel_simps reads_def writes_def split: prod.split)
qed

lemma ex_open_closable:
  assumes "blk_init EZERO EZERO (cache_on ex_disk) = Some c"
  shows "nat_closable rd_sector rd_has rd_ok 1 0 (ex_open c)" "refs_ok (ex_open c)" "objs_ok (ex_open c)"
proof -
  have c: "ready rd_sector rd_has rd_ok c" "nfree c > 0" "disk c = ex_disk"
    using ex_started assms block_driver.file_inv_ready [OF rdd.block_driver_axioms, of 1 ex_file ex_fs c] by auto
  have ff: "ff_refcnt (fs_file (ex_open c) f) = ff_refcnt (fs_file example_files f)" "ff_fso (fs_file (ex_open c) f) = ff_fso (fs_file example_files f)" for f
    by (auto simp: ex_open_def upd_file_def put_obj_tables ex_kernel_tables)
  have ob: "fs_fso (ex_open c) i = (if i = 7 then fso.truncate ex_file else zero_fso)" for i
    by (simp add: ex_open_def upd_file_def put_obj_def ex_kernel_simps example_files_simps)
  have sl: "slot (ex_open c) = slot example_files" by (simp add: ex_open_def upd_file_def put_obj_def ex_kernel_tables)
  have x: "o_refcnt (fso.truncate ex_file) = 1" "o_fs (fso.truncate ex_file) = Fs 0" "o_index (fso.truncate ex_file) = 3" "nlink (fso.truncate ex_file) = 1"
      "o_refcnt zero_fso = 0" by (simp_all add: ex_file_def fso.defs zero_fso_def)
  have fs: "fs_fs (ex_open c) = fs_fs (ex_kernel c)" "bufs (ex_open c) = c" by (simp_all add: ex_open_file)
  have "in_tbl 0 (ex_open c) i \<Longrightarrow> i = 7" for i by (simp add: in_tbl_def ob x split: if_splits)
  then have "nat_live rd_sector rd_has rd_ok 1 0 (ex_open c)"
    unfolding nat_live_def fs using c ex_disk_has by (auto simp: ex_kernel_simps ex_kernel_tables ob x)
  then show "nat_closable rd_sector rd_has rd_ok 1 0 (ex_open c)" by (auto simp: nat_closable_def ob x split: if_splits)
  have "file_refs (ex_open c) = file_refs example_files" by (simp add: file_refs_def ex_open_file sl fun_eq_iff)
  then show "refs_ok (ex_open c)" using example_refs(1) by (simp add: refs_ok_def ff)
  have "fso_refs (ex_open c) i = of_bool (i = 7)" for i using example_fso_refs [of i] by (simp add: fso_refs_def ff)
  then show "objs_ok (ex_open c)" using example_refs(2) unfolding objs_ok_def ff by (auto simp: ob x)
qed

text \<open>The task of the example closes its files, one on the native file system.\<close>

theorem fs_clean_closes_witness:
  "\<exists>c s'. blk_init EZERO EZERO (cache_on ex_disk) = Some c \<and> fs_clean (putfso (kern_types rd_read rd_write EZERO 0)) (ex_open c) = Some s' \<and>
     refs_ok s' \<and> (\<forall>d < OPEN_MAX. fds s' 0 d = None) \<and> o_refcnt (fs_fso s' 7) = fso_refs s' 7"
proof -
  obtain c where c: "blk_init EZERO EZERO (cache_on ex_disk) = Some c" using ex_started by blast
  have k: "curr (ex_open c) = Some 0" "slot (ex_open c) 0" "(0 :: nat) < TASK_MAX"
    by (simp_all add: ex_open_file) (simp add: ex_open_def upd_file_def put_obj_def ex_kernel_tables example_files_simps)
  have z: "o_refcnt (fs_fso (ex_open c) 7) - fso_refs (ex_open c) 7 = 0"
  proof -
    have "ff_refcnt (fs_file (ex_open c) f) = ff_refcnt (fs_file example_files f)" "ff_fso (fs_file (ex_open c) f) = ff_fso (fs_file example_files f)" for f
      by (auto simp: ex_open_def upd_file_def put_obj_tables ex_kernel_tables)
    then show ?thesis using example_fso_refs [of 7] by (simp add: fso_refs_def ex_open_file) (simp add: ex_file_def fso.defs)
  qed
  obtain s' where s': "fs_clean (putfso (kern_types rd_read rd_write EZERO 0)) (ex_open c) = Some s'" "refs_ok s'"
      "\<forall>i. o_refcnt (fs_fso s' i) - fso_refs s' i = o_refcnt (fs_fso (ex_open c) i) - fso_refs (ex_open c) i"
      "\<forall>t d. fds s' t d = (if t = 0 \<and> d < OPEN_MAX then None else fds (ex_open c) t d)"
    using fs_clean_closes [OF cnat.fso_driver_axioms ex_open_closable [OF c] k] by blast
  have "o_refcnt (fs_fso s' 7) - fso_refs s' 7 = 0" using s'(3) z by simp
  then show ?thesis using c s'(1,2,4) by auto
qed

theorem sys_write_read_witness:
  "\<exists>c r s1. blk_init EZERO EZERO (cache_on ex_disk) = Some c \<and>
     sys_write (kern_types rd_read rd_write EZERO 0) 3 [1, 2, 3] EZERO (ex_open c) = Some (r, s1) \<and>
     (r = Inl ENOSPC \<or> r = Inl EFBIG \<or> r = Inr (Inl 3) \<and>
        (\<exists>s2 s3. sys_lseek (kern_types rd_read rd_write EZERO 0) 3 0 0 s1 = Some (Inr 0, s2) \<and>
           sys_read (kern_types rd_read rd_write EZERO 0) 3 3 EZERO s2 = Some (Inr (Inl [1, 2, 3]), s3)))"
proof -
  obtain c where c: "blk_init EZERO EZERO (cache_on ex_disk) = Some c" "file_inv rd_sector rd_has rd_ok 1 ex_file ex_fs c" using ex_started by blast
  let ?s = "ex_open c"
  have I: "file_inv rd_sector rd_has rd_ok 1 (nat_obj ?s 7) (nat_of ?s 0) (bufs ?s)" using c(2) by (simp add: ex_open_file)
  have z: "o_size (fs_fso ?s 7) = 1000" "o_mode (fs_fso ?s 7) AND S_IFMT = S_IFREG" "\<not> no_seek (fs_fso ?s 7)"
    using ex_file_regular by (simp_all add: ex_open_file trunc_fields) (simp add: ex_file_def fso.defs zero_fso_def)
  have "ndirblks ex_file = 100" by (simp add: ex_file_def fso.defs)
  then have b: "\<not> too_big (nat_obj ?s 7) (x div BLK_SIZE)" if "x < 1000" for x using that by (simp add: too_big_def ex_open_file)
  have f: "ff_offset (fs_file ?s 5) = 0" "0 + length [1, 2, 3 :: 8 word] < NAT_FILE_SIZE_MAX" "ff_omode (fs_file ?s 5) = 2"
    by (simp_all add: ex_open_file zero_file_def)
  have g: "o_size (fs_fso ?s 7) \<le> NAT_FILE_SIZE_MAX" "\<forall>x < max (o_size (fs_fso ?s 7)) (0 + length [1, 2, 3 :: 8 word]). \<not> too_big (nat_obj ?s 7) (x div BLK_SIZE)"
    using b by (simp_all add: z(1))
  show ?thesis using sys_write_read [OF rdd.block_driver_axioms ex_open_on I z(2) f z(3) g] c(1)
    by (auto dest!: sum_caseD simp: numeral_3_eq_3)
qed

text \<open>Mounting and unmounting a removable file system without a device, on a table that is empty but for the given first entry.\<close>

definition ex_table :: "fs \<Rightarrow> rd_units nstate" where
  "ex_table f = (ex_kernel (cache_on ex_disk))\<lparr>fs_fs := f # replicate 15 zero_fs\<rparr>"

abbreviation (input) ex_entry :: fs where
  "ex_entry \<equiv> zero_fs\<lparr>prefix := ''/mnt'', removable := True, in_use := True, fs_type := Some 0\<rparr>"

lemma ex_table_nth: "fs_fs (ex_table f) ! 0 = f" "0 < k \<Longrightarrow> k < FS_MAXFS \<Longrightarrow> fs_fs (ex_table f) ! k = zero_fs"
  by (simp_all add: ex_table_def nth_Cons')

lemma ex_table_ok: "in_use f \<Longrightarrow> fs_type f \<noteq> None \<Longrightarrow> mounts_ok (ex_table f)" "mounts_ok (ex_table zero_fs)"
proof -
  have n: "fs_fs (ex_table f) ! k = (if k = 0 then f else zero_fs)" if "k < FS_MAXFS" for k f using that by (simp add: ex_table_nth)
  have o: "o_refcnt (fs_fso (ex_table f) i) \<noteq> 0 \<Longrightarrow> o_fs (fs_fso (ex_table f) i) = PipeFs" for i f
    by (auto simp: ex_table_def ex_kernel_simps example_files_simps zero_fso_def split: if_splits)
  have l: "length (fs_fs (ex_table f)) = FS_MAXFS" for f by (simp add: ex_table_def)
  have z: "\<not> in_use zero_fs" by (simp add: zero_fs_def)
  show "in_use f \<Longrightarrow> fs_type f \<noteq> None \<Longrightarrow> mounts_ok (ex_table f)" "mounts_ok (ex_table zero_fs)" using z o unfolding mounts_ok_def by (auto simp: n l)
qed

theorem fs_mount_adds_witness:
  "\<exists>s'. fs_mount (kern_types rd_read rd_write EZERO 0) [0 \<mapsto> 0] rd_write rd_open rd_close ''/mnt'' ''nodev'' ''native'' 4 (ex_table zero_fs) = Some (EZERO, s') \<and>
     mount_map (ex_table zero_fs) ''/mnt'' = None \<and> mount_map s' ''/mnt'' \<noteq> None \<and> mounts_ok s'"
proof -
  let ?T = "kern_types rd_read rd_write EZERO 0" and ?s = "ex_table zero_fs"
  have u: "[0..<FS_MAXFS] = 0 # [1..<FS_MAXFS]" "[0..<FS_MAXFSTYPE] = 0 # [1..<FS_MAXFSTYPE]" by (simp_all add: upt_conv_Cons)
  have t: "\<not> list_ex (taken ''/mnt'' ''nodev'' ?s) (fs_fs ?s)" by (auto simp: list_ex_iff ex_table_def zero_fs_def)
  have f: "fs_find ?T [0 \<mapsto> 0] ''native'' = Inr 0" unfolding fs_find_def u(2) by (simp add: kern_types_def nat_ops_def)
  have "List.find (\<lambda>k. \<not> in_use (fs_fs ?s ! k)) [0..<FS_MAXFS] = Some 0" unfolding u(1) by (simp add: ex_table_nth zero_fs_def)
  then obtain s' where m: "fs_mount ?T [0 \<mapsto> 0] rd_write rd_open rd_close ''/mnt'' ''nodev'' ''native'' 4 ?s = Some (EZERO, s')"
    using t unfolding fs_mount_def by (simp add: f on_dev_def Let_def)
  show ?thesis using m fs_mount_adds [OF ex_table_ok(2) m] by auto
qed

theorem fs_umount_removes_witness:
  "\<exists>s'. fs_umount (kern_types rd_read rd_write EZERO 0) rd_write rd_close ''/mnt'' (ex_table ex_entry) = Some (EZERO, s') \<and>
     mount_map (ex_table ex_entry) ''/mnt'' = Some ex_entry \<and> mount_map s' ''/mnt'' = None"
proof -
  let ?T = "kern_types rd_read rd_write EZERO 0" and ?s = "ex_table ex_entry"
  have u: "[0..<FS_MAXFS] = 0 # [1..<FS_MAXFS]" by (simp add: upt_conv_Cons)
  have f: "List.find (\<lambda>k. in_use (fs_fs ?s ! k) \<and> prefix (fs_fs ?s ! k) = ''/mnt'') [0..<FS_MAXFS] = Some 0"
    unfolding u by (simp add: ex_table_nth zero_fs_def)
  have b: "\<not> fs_busy 0 ?s" by (auto simp: fs_busy_def list_ex_iff ex_table_def ex_kernel_simps example_files_simps zero_fso_def)
  obtain s' where m: "fs_umount ?T rd_write rd_close ''/mnt'' ?s = Some (EZERO, s')"
    using b unfolding fs_umount_def f by (simp add: ex_table_nth zero_fs_def on_dev_def)
  have mm: "mount_map ?s ''/mnt'' = Some ex_entry" using f by (simp add: mount_map_def ex_table_nth)
  have ok: "mounts_ok ?s" by (rule ex_table_ok) (simp_all add: zero_fs_def)
  show ?thesis using m mm fs_umount_removes [OF ok m] by auto
qed

end
