(* ===== verification/Pty.thy ===== *)
theory Pty
  imports Fs_Name
begin

text \<open>
  Pseudo terminals (\<^verbatim>\<open>kern/fs/pty/ptyfs.c\<close>): the file system type whose files are the two ends of a terminal, with the line
  discipline between them. What the master end (\<^verbatim>\<open>ptm\<close>) writes is the input of the terminal; in canonical mode it is edited
  line by line in \<^verbatim>\<open>canon_buf\<close>, echoed to the output and handed to the slave end (\<^verbatim>\<open>pts\<close>) with the end of the line.
  What the slave writes is the output, which the master reads.

  The kernel state is extended by the table of terminals. A routine that puts its task to sleep is modelled up to that point;
  when the task is woken it continues with \<open>ptm_read\<close>, \<open>pts_wait\<close>, \<open>ptm_loop\<close> or \<open>pts_loop\<close> again.
\<close>

section \<open>Terminals\<close>

abbreviation (input) PTY_MAX :: nat where "PTY_MAX \<equiv> 64"
abbreviation (input) MAX_CANON :: nat where "MAX_CANON \<equiv> 256"
abbreviation (input) PTY_BUF :: nat where "PTY_BUF \<equiv> 1870"
abbreviation (input) ROOT_INDEX :: int where "ROOT_INDEX \<equiv> 1"
abbreviation (input) PTMX_INDEX :: int where "PTMX_INDEX \<equiv> 2"
abbreviation (input) PTM_INDEX :: int where "PTM_INDEX \<equiv> 3"
abbreviation (input) PTS_INDEX :: int where "PTS_INDEX \<equiv> 67"

abbreviation (input) SIGHUP :: int where "SIGHUP \<equiv> 1"
abbreviation (input) SIGINT :: int where "SIGINT \<equiv> 2"
abbreviation (input) SIGQUIT :: int where "SIGQUIT \<equiv> 3"

text \<open>The special characters are \<^verbatim>\<open>c_cc\<close>, in the order of their indices.\<close>

record termios =
  c_iflag :: "32 word"
  c_oflag :: "32 word"
  c_lflag :: "32 word"
  c_cflag :: "32 word"
  v_intr :: "8 word"
  v_quit :: "8 word"
  v_erase :: "8 word"
  v_kill :: "8 word"
  v_eof :: "8 word"
  v_werase :: "8 word"
  v_status :: "8 word"
  v_reprint :: "8 word"

abbreviation (input) ISIG :: "32 word" where "ISIG \<equiv> 1"
abbreviation (input) ICANON :: "32 word" where "ICANON \<equiv> 2"
abbreviation (input) ECHO :: "32 word" where "ECHO \<equiv> 4"
abbreviation (input) ECHONL :: "32 word" where "ECHONL \<equiv> 8"
abbreviation (input) ECHOCTL :: "32 word" where "ECHOCTL \<equiv> 16"

record pty =
  ptm_fso :: "nat option"
  pts_fso :: "nat option"
  p_locked :: bool
  canon_buf :: "8 word list"
  in_buf :: "8 word list"
  out_buf :: "8 word list"
  pty_size :: "int \<times> int"
  tio :: termios
  canon_count :: nat
  canon_intr :: bool
  canon_eot :: bool
  in_count :: nat
  in_p0 :: nat
  in_p1 :: nat
  out_count :: nat
  out_p0 :: nat
  out_p1 :: nat

record ptstate = fstate +
  pty_tab :: "nat \<Rightarrow> pty option"
  pty_mounted :: bool

definition zero_pty :: pty where
  "zero_pty = \<lparr>ptm_fso = None, pts_fso = None, p_locked = False, canon_buf = replicate MAX_CANON 0, in_buf = replicate PTY_BUF 0,
     out_buf = replicate PTY_BUF 0, pty_size = (0, 0),
     tio = \<lparr>c_iflag = 0, c_oflag = 0, c_lflag = 0, c_cflag = 0, v_intr = 0, v_quit = 0, v_erase = 0, v_kill = 0, v_eof = 0, v_werase = 0,
       v_status = 0, v_reprint = 0\<rparr>,
     canon_count = 0, canon_intr = False, canon_eot = False, in_count = 0, in_p0 = 0, in_p1 = 0, out_count = 0, out_p0 = 0, out_p1 = 0\<rparr>"

definition upd_pty :: "nat \<Rightarrow> (pty \<Rightarrow> pty) \<Rightarrow> ptstate \<Rightarrow> ptstate" where
  "upd_pty k f s = s\<lparr>pty_tab := (pty_tab s)(k := map_option f (pty_tab s k))\<rparr>"

definition flag :: "32 word \<Rightarrow> pty \<Rightarrow> bool" where
  "flag m p \<longleftrightarrow> c_lflag (tio p) AND m \<noteq> 0"

section \<open>Waking the ends\<close>

abbreviation (input) ptm_readers :: "nat \<Rightarrow> qid" where "ptm_readers k \<equiv> Ptyq k 0"
abbreviation (input) ptm_writers :: "nat \<Rightarrow> qid" where "ptm_writers k \<equiv> Ptyq k 1"
abbreviation (input) pts_readers :: "nat \<Rightarrow> qid" where "pts_readers k \<equiv> Ptyq k 2"
abbreviation (input) pts_writers :: "nat \<Rightarrow> qid" where "pts_writers k \<equiv> Ptyq k 3"

definition set_end :: "nat option \<Rightarrow> 32 word \<Rightarrow> ptstate \<Rightarrow> ptstate option" where
  "set_end f st s = (case f of None \<Rightarrow> Some s | Some i \<Rightarrow> fs_setstate i st s)"

definition pty_resume_ptm_r :: "nat \<Rightarrow> ptstate \<Rightarrow> ptstate option" where
  "pty_resume_ptm_r k s = do { p \<leftarrow> pty_tab s k; s1 \<leftarrow> set_end (ptm_fso p) R_OK s; wake_all (ptm_readers k) s1 }"

definition pty_resume_ptm_w :: "nat \<Rightarrow> ptstate \<Rightarrow> ptstate option" where
  "pty_resume_ptm_w k s = do { p \<leftarrow> pty_tab s k; s1 \<leftarrow> set_end (ptm_fso p) W_OK s; wake_all (ptm_writers k) s1 }"

definition pty_resume_pts_r :: "nat \<Rightarrow> ptstate \<Rightarrow> ptstate option" where
  "pty_resume_pts_r k s = do { p \<leftarrow> pty_tab s k; s1 \<leftarrow> set_end (pts_fso p) R_OK s; wake_all (pts_readers k) s1 }"

definition pty_resume_pts_w :: "nat \<Rightarrow> ptstate \<Rightarrow> ptstate option" where
  "pty_resume_pts_w k s = do { p \<leftarrow> pty_tab s k; s1 \<leftarrow> set_end (pts_fso p) W_OK s; wake_all (pts_writers k) s1 }"

section \<open>Files\<close>

definition pty_mount :: "nat \<Rightarrow> ptstate \<Rightarrow> (errno \<times> ptstate) option" where
  "pty_mount k s = Some (if pty_mounted s then (EBUSY, s) else (EZERO, s\<lparr>pty_mounted := True\<rparr>))"

definition pty_umount :: "nat \<Rightarrow> ptstate \<Rightarrow> (errno \<times> ptstate) option" where
  "pty_umount k s = Some (EZERO, s\<lparr>pty_mounted := False\<rparr>)"

text \<open>The number of a terminal in the index of an object of the given kind.\<close>

definition end_nr :: "int \<Rightarrow> int \<Rightarrow> nat option" where
  "end_nr base index = (if base \<le> index \<and> index < base + int PTY_MAX then Some (nat (index - base)) else None)"

definition pty_getfso :: "int \<Rightarrow> nat \<Rightarrow> ptstate \<Rightarrow> (errno \<times> ptstate) option" where
  "pty_getfso now i s =
     (let s1 = upd_fso i (\<lambda>f. f\<lparr>atime := now, ctime := now, mtime := now, o_blocks := 0, nlink := 1, o_size := 0\<rparr>) s;
          ix = o_index (fs_fso s i)
      in if ix = ROOT_INDEX then do {
           s2 \<leftarrow> fs_state i (R_OK OR W_OK) (upd_fso i (\<lambda>f. f\<lparr>o_uid := 0, o_gid := 0, o_mode := 0x31ed\<rparr>) s1);
           Some (EZERO, s2)
         }
         else
           let s2 = upd_fso i (\<lambda>f. f\<lparr>o_rdev := 2 * 65536 + ix\<rparr>) s1
           in case end_nr PTM_INDEX ix of
                Some k \<Rightarrow> do {
                  p \<leftarrow> pty_tab s2 k;
                  c \<leftarrow> curr s2;
                  let s3 = upd_pty k (\<lambda>p. p\<lparr>tio := \<lparr>c_iflag = 0, c_oflag = 0, c_lflag = ICANON OR ISIG OR ECHO OR ECHONL OR ECHOCTL, c_cflag = 0,
                        v_intr = 3, v_quit = 28, v_erase = 8, v_kill = 21, v_eof = 4, v_werase = 23, v_status = 20, v_reprint = 18\<rparr>,
                      ptm_fso := Some i, p_locked := True\<rparr>) s2;
                  s4 \<leftarrow> fs_state i W_OK (upd_fso i (\<lambda>f. f\<lparr>o_mode := 0x2180, o_uid := euid (tsk s c), o_gid := egid (tsk s c), no_seek := True\<rparr>) s3);
                  Some (EZERO, s4)
                }
              | None \<Rightarrow>
                  (case end_nr PTS_INDEX ix of
                     Some k \<Rightarrow> do {
                       p \<leftarrow> pty_tab s2 k;
                       m \<leftarrow> ptm_fso p;
                       let s3 = upd_pty k (pts_fso_update (\<lambda>_. Some i)) s2;
                       let s4 = upd_fso i (\<lambda>f. f\<lparr>o_mode := 0x2180, o_uid := o_uid (fs_fso s3 m), o_gid := o_gid (fs_fso s3 m), no_seek := True\<rparr>) s3;
                       s5 \<leftarrow> fs_setstate i ((if out_count p < PTY_BUF then W_OK else 0) OR (if in_count p \<noteq> 0 then R_OK else 0)) s4;
                       Some (EZERO, s5)
                     }
                   | None \<Rightarrow> Some (EINVAL, s2)))"

definition is_digit :: "char \<Rightarrow> bool" where
  "is_digit c \<longleftrightarrow> 48 \<le> (of_char c :: nat) \<and> (of_char c :: nat) \<le> 57"

definition digit :: "char \<Rightarrow> nat" where
  "digit c = of_char c - 48"

text \<open>The number of the terminal that a name like \<^verbatim>\<open>pts007\<close> means.\<close>

definition pts_nr :: "string \<Rightarrow> nat option" where
  "pts_nr name =
     (if length name = 6 \<and> take 3 name = ''pts'' \<and> is_digit (name ! 3) \<and> is_digit (name ! 4) \<and> is_digit (name ! 5)
      then Some (digit (name ! 3) * 100 + digit (name ! 4) * 10 + digit (name ! 5)) else None)"

definition pty_lookup :: "errno \<Rightarrow> errno \<Rightarrow> int \<Rightarrow> nat \<Rightarrow> string \<Rightarrow> ptstate \<Rightarrow> ((errno + nat) \<times> ptstate) option" where
  "pty_lookup atmem kmalloc now fs name s =
     (if name = [] then fs_getfso (pty_getfso now) atmem (Fs fs) ROOT_INDEX s
      else if name = ''ptmx'' then
        (case List.find (\<lambda>i. pty_tab s i = None) [0..<PTY_MAX] of
           None \<Rightarrow> Some (Inl ENOMEM, s)
         | Some i \<Rightarrow>
             if kmalloc \<noteq> EZERO then Some (Inl kmalloc, s)
             else
               let s1 = s\<lparr>pty_tab := (pty_tab s)(i := Some zero_pty)\<rparr>;
                   s2 = task_qinit (pts_writers i) ''ptswr'' (task_qinit (pts_readers i) ''ptsrd''
                     (task_qinit (ptm_writers i) ''ptmwr'' (task_qinit (ptm_readers i) ''ptmrd'' s1)))
               in fs_getfso (pty_getfso now) atmem (Fs fs) (PTM_INDEX + int i) s2)
      else
        (case pts_nr name of
           None \<Rightarrow> Some (Inl ENOENT, s)
         | Some i \<Rightarrow>
             if i \<ge> PTY_MAX then Some (Inl ENOENT, s)
             else
               (case pty_tab s i of
                  None \<Rightarrow> Some (Inl ENOENT, s)
                | Some p \<Rightarrow>
                    if p_locked p then Some (Inl EPERM, s)
                    else fs_getfso (pty_getfso now) atmem (Fs fs) (PTS_INDEX + int i) s)))"

definition pty_putfso :: "nat \<Rightarrow> ptstate \<Rightarrow> ptstate option" where
  "pty_putfso i s = do {
     s1 \<leftarrow> (case end_nr PTM_INDEX (o_index (fs_fso s i)) of
        None \<Rightarrow> Some s
      | Some k \<Rightarrow> do {
          p \<leftarrow> pty_tab s k;
          if pts_fso p \<noteq> None then do {
            s1 \<leftarrow> pty_resume_pts_r k (upd_pty k (ptm_fso_update (\<lambda>_. None)) s);
            pty_resume_pts_w k s1
          }
          else Some (s\<lparr>pty_tab := (pty_tab s)(k := None)\<rparr>)
        });
     (case end_nr PTS_INDEX (o_index (fs_fso s1 i)) of
        None \<Rightarrow> Some s1
      | Some k \<Rightarrow> do {
          p \<leftarrow> pty_tab s1 k;
          if ptm_fso p \<noteq> None then pty_resume_ptm_r k (upd_pty k (pts_fso_update (\<lambda>_. None)) s1)
          else Some (s1\<lparr>pty_tab := (pty_tab s1)(k := None)\<rparr>)
        })
   }"

definition pts_name :: "nat \<Rightarrow> string" where
  "pts_name i = ''pts'' @ [char_of (48 + i div 100 mod 10), char_of (48 + i div 10 mod 10), char_of (48 + i mod 10)]"

text \<open>A hole in the directory is an entry with the index 0.\<close>

definition pty_readdir :: "nat \<Rightarrow> int \<Rightarrow> ptstate \<Rightarrow> ((errno + nat \<times> string) \<times> ptstate) option" where
  "pty_readdir i index s =
     Some (if index = 0 then Inr (1, ''.'')
           else if index = 1 then Inr (1, ''..'')
           else
             let ix = index - 2
             in if ix = PTMX_INDEX then Inr (2, ''ptmx'')
                else if PTS_INDEX \<le> ix \<and> ix < PTS_INDEX + int PTY_MAX \<and> pty_tab s (nat (ix - PTS_INDEX)) \<noteq> None
                then Inr (nat ix, pts_name (nat (ix - PTS_INDEX)))
                else if ix < PTS_INDEX + int PTY_MAX then Inr (0, [])
                else Inl ENOENT, s)"

section \<open>Signals and control\<close>

text \<open>Every task with a descriptor that is open on the slave end gets the signal.\<close>

definition on_end :: "nat option \<Rightarrow> tid \<Rightarrow> ptstate \<Rightarrow> bool" where
  "on_end fo t s = list_ex (\<lambda>d. case fds s t d of None \<Rightarrow> False | Some f \<Rightarrow> ff_fso (fs_file s f) = fo) [0..<OPEN_MAX]"

fun pty_signal_loop :: "nat option \<Rightarrow> int \<Rightarrow> tid list \<Rightarrow> ptstate \<Rightarrow> ptstate option" where
  "pty_signal_loop fo nr [] s = Some s"
| "pty_signal_loop fo nr (t # ts) s = do {
     s1 \<leftarrow> (if slot s t \<and> on_end fo t s then map_option snd (signal_send_k t nr s) else Some s);
     pty_signal_loop fo nr ts s1
   }"

definition pty_signal :: "nat \<Rightarrow> int \<Rightarrow> ptstate \<Rightarrow> ptstate option" where
  "pty_signal k nr s = do { p \<leftarrow> pty_tab s k; pty_signal_loop (pts_fso p) nr [0..<TASK_MAX] s }"

datatype pty_out = Nothing | Name string | Tio termios | Wsize "int \<times> int"

abbreviation (input) PTY_PTSNAME :: int where "PTY_PTSNAME \<equiv> 0x5000"
abbreviation (input) PTY_UNLOCK :: int where "PTY_UNLOCK \<equiv> 0x5001"
abbreviation (input) PTY_SSIZE :: int where "PTY_SSIZE \<equiv> 0x5002"
abbreviation (input) PTY_GSIZE :: int where "PTY_GSIZE \<equiv> 0x5003"
abbreviation (input) PTY_SHUP :: int where "PTY_SHUP \<equiv> 0x5004"
abbreviation (input) TCGETS :: int where "TCGETS \<equiv> 0x7401"

text \<open>
  \<open>ti\<close> and \<open>sz\<close> are what the user's buffer holds for the commands that read it, or the error of reading; \<open>cpy\<close> is the result of writing to it.
\<close>

definition pty_ioctl ::
    "nat \<Rightarrow> int \<Rightarrow> errno + termios \<Rightarrow> errno + int \<times> int \<Rightarrow> errno \<Rightarrow> ptstate \<Rightarrow> ((errno + pty_out) \<times> ptstate) option" where
  "pty_ioctl i cmd ti sz cpy s =
     (let ix = o_index (fs_fso s i); m = end_nr PTM_INDEX ix
      in case (case m of None \<Rightarrow> end_nr PTS_INDEX ix | Some k \<Rightarrow> Some k) of
           None \<Rightarrow> Some (Inl ENOTTY, s)
         | Some k \<Rightarrow> do {
             c \<leftarrow> curr s;
             let chk = (\<lambda>mode. fs_chk_perm (\<lambda>i m u g s. EZERO) i mode (euid (tsk s c)) (egid (tsk s c)) s);
             let out = (\<lambda>r. Some (if cpy \<noteq> EZERO then Inl cpy else Inr r, s));
             if cmd = PTY_PTSNAME then if chk R_OK \<noteq> EZERO then Some (Inl (chk R_OK), s) else out (Name (pts_name k))
             else if cmd = PTY_UNLOCK \<and> m \<noteq> None then
               if chk W_OK \<noteq> EZERO then Some (Inl (chk W_OK), s)
               else do { p \<leftarrow> pty_tab s k; Some (Inr Nothing, upd_pty k (p_locked_update (\<lambda>_. False)) s) }
             else if cmd = PTY_SHUP \<and> m \<noteq> None then
               if chk W_OK \<noteq> EZERO then Some (Inl (chk W_OK), s)
               else do { s1 \<leftarrow> pty_signal k SIGHUP s; Some (Inr Nothing, s1) }
             else if 0x7402 \<le> cmd \<and> cmd \<le> 0x7404 then
               if chk W_OK \<noteq> EZERO then Some (Inl (chk W_OK), s)
               else case ti of
                 Inl e \<Rightarrow> Some (Inl e, s)
               | Inr t \<Rightarrow> do { p \<leftarrow> pty_tab s k; Some (Inr Nothing, upd_pty k (tio_update (\<lambda>_. t)) s) }
             else if cmd = TCGETS then
               if chk R_OK \<noteq> EZERO then Some (Inl (chk R_OK), s) else do { p \<leftarrow> pty_tab s k; out (Tio (tio p)) }
             else if cmd = PTY_GSIZE then do { p \<leftarrow> pty_tab s k; out (Wsize (pty_size p)) }
             else if cmd = PTY_SSIZE then
               (case sz of
                  Inl e \<Rightarrow> Some (Inl e, s)
                | Inr z \<Rightarrow> do { p \<leftarrow> pty_tab s k; Some (Inr Nothing, upd_pty k (pty_size_update (\<lambda>_. z)) s) })
             else Some (Inl ENOTTY, s)
           })"

section \<open>Reading\<close>

text \<open>Taking bytes from the ring buffers.\<close>

fun out_get :: "nat \<Rightarrow> pty \<Rightarrow> 8 word list \<times> pty" where
  "out_get 0 p = ([], p)"
| "out_get (Suc n) p =
     (let (bs, p') = out_get n (p\<lparr>out_count := out_count p - 1, out_p1 := (out_p1 p + 1) mod PTY_BUF\<rparr>)
      in (out_buf p ! out_p1 p # bs, p'))"

fun in_get :: "nat \<Rightarrow> pty \<Rightarrow> 8 word list \<times> pty" where
  "in_get 0 p = ([], p)"
| "in_get (Suc n) p =
     (let (bs, p') = in_get n (p\<lparr>in_count := in_count p - 1, in_p1 := (in_p1 p + 1) mod PTY_BUF\<rparr>)
      in (in_buf p ! in_p1 p # bs, p'))"

text \<open>
  The result of a read: an error, the bytes, a number of bytes that have not been stored (the code of the slave end sets the
  count to \<^verbatim>\<open>EAGAIN\<close>, which is 15, where it means the error), or the task sleeps.
\<close>

datatype rres = RFail errno | RBytes "8 word list" | RCount nat | RSleep outcome

definition ptm_read :: "nat \<Rightarrow> nat \<Rightarrow> bool \<Rightarrow> ptstate \<Rightarrow> (rres \<times> ptstate) option" where
  "ptm_read k count no_delay s = do {
     p \<leftarrow> pty_tab s k;
     if out_count p = 0 then
       if no_delay then Some (RFail EAGAIN, s)
       else do {
         (r, s1) \<leftarrow> task_suspend (Some (ptm_readers k)) WAIT_INTR s;
         Some (case r of Inl e \<Rightarrow> RFail e | Inr out \<Rightarrow> RSleep out, s1)
       }
     else
       let (bs, p') = out_get (if count > out_count p then out_count p else count) p;
           s1 = upd_pty k (\<lambda>_. p') s
       in do {
         s2 \<leftarrow> (if out_count p' = 0 then do { f \<leftarrow> ptm_fso p'; fs_clrstate f R_OK s1 } else Some s1);
         s3 \<leftarrow> pty_resume_pts_w k s2;
         Some (RBytes bs, s3)
       }
   }"

text \<open>The checks at the label \<^verbatim>\<open>restart\<close> of \<^verbatim>\<open>pts_read\<close>; \<open>None\<close> inside is that none of them ends the call.\<close>

definition pts_hangup :: "nat \<Rightarrow> ptstate \<Rightarrow> (rres option \<times> ptstate) option" where
  "pts_hangup k s = do {
     p \<leftarrow> pty_tab s k;
     if ptm_fso p = None then do { (_, s1) \<leftarrow> signal_raise SIGHUP s; Some (Some (RBytes []), s1) }
     else if canon_intr p then do {
       (_, s1) \<leftarrow> signal_raise SIGINT s;
       Some (Some (RFail EINTR), upd_pty k (\<lambda>p. p\<lparr>canon_count := 0, canon_intr := False\<rparr>) s1)
     }
     else Some (None, s)
   }"

definition pts_copy :: "nat \<Rightarrow> nat \<Rightarrow> ptstate \<Rightarrow> (rres \<times> ptstate) option" where
  "pts_copy k count s = do {
     p \<leftarrow> pty_tab s k;
     let (bs, p') = in_get (if count > in_count p then in_count p else count) p;
     let s1 = upd_pty k (\<lambda>_. p') s;
     s2 \<leftarrow> (if in_count p' = 0 then do { f \<leftarrow> pts_fso p'; fs_clrstate f R_OK s1 } else Some s1);
     s3 \<leftarrow> pty_resume_ptm_w k s2;
     Some (RBytes bs, s3)
   }"

definition pts_wait :: "nat \<Rightarrow> nat \<Rightarrow> bool \<Rightarrow> ptstate \<Rightarrow> (rres \<times> ptstate) option" where
  "pts_wait k count no_delay s = do {
     p \<leftarrow> pty_tab s k;
     if in_count p \<noteq> 0 then pts_copy k count s
     else if no_delay then Some (RCount 15, s)
     else if canon_intr p \<or> ptm_fso p = None then do {
       (r, s1) \<leftarrow> pts_hangup k s;
       map_option (\<lambda>r. (r, s1)) r
     }
     else if canon_eot p then pts_copy k count (upd_pty k (canon_eot_update (\<lambda>_. False)) s)
     else do {
       (r, s1) \<leftarrow> task_suspend (Some (pts_readers k)) WAIT_INTR s;
       Some (case r of Inl e \<Rightarrow> RFail e | Inr out \<Rightarrow> RSleep out, s1)
     }
   }"

definition pts_read :: "nat \<Rightarrow> nat \<Rightarrow> bool \<Rightarrow> ptstate \<Rightarrow> (rres \<times> ptstate) option" where
  "pts_read k count no_delay s = do {
     (r, s1) \<leftarrow> pts_hangup k s;
     (case r of Some r \<Rightarrow> Some (r, s1) | None \<Rightarrow> pts_wait k count no_delay s1)
   }"

definition pty_read :: "nat \<Rightarrow> nat \<Rightarrow> bool \<Rightarrow> ptstate \<Rightarrow> (rres \<times> ptstate) option" where
  "pty_read i count no_delay s =
     (case end_nr PTM_INDEX (o_index (fs_fso s i)) of
        Some k \<Rightarrow> ptm_read k count no_delay s
      | None \<Rightarrow>
          (case end_nr PTS_INDEX (o_index (fs_fso s i)) of
             Some k \<Rightarrow> pts_read k count no_delay s
           | None \<Rightarrow> Some (RFail EPERM, s)))"

section \<open>Echo\<close>

definition out_put :: "8 word \<Rightarrow> pty \<Rightarrow> pty" where
  "out_put ch p = p\<lparr>out_buf := (out_buf p)[out_p0 p := ch], out_count := out_count p + 1, out_p0 := (out_p0 p + 1) mod PTY_BUF\<rparr>"

definition pty_echo :: "nat \<Rightarrow> 8 word \<Rightarrow> ptstate \<Rightarrow> ptstate option" where
  "pty_echo k ch s = do {
     p \<leftarrow> pty_tab s k;
     if out_count p \<noteq> PTY_BUF then pty_resume_ptm_r k (upd_pty k (out_put ch) s) else Some s
   }"

fun pty_echos :: "nat \<Rightarrow> 8 word list \<Rightarrow> ptstate \<Rightarrow> ptstate option" where
  "pty_echos k [] s = Some s"
| "pty_echos k (c # cs) s = do { s1 \<leftarrow> pty_echo k c s; pty_echos k cs s1 }"

text \<open>How a character is echoed, and how its echo is erased.\<close>

definition cecho :: "pty \<Rightarrow> 8 word \<Rightarrow> 8 word list" where
  "cecho p ch =
     (if flag ECHOCTL p \<and> ch < 32 then [94, ch + 64]
      else if flag ECHOCTL p \<and> ch = 127 then [94, 63]
      else [ch])"

definition pty_cecho :: "nat \<Rightarrow> 8 word \<Rightarrow> ptstate \<Rightarrow> ptstate option" where
  "pty_cecho k ch s = do { p \<leftarrow> pty_tab s k; pty_echos k (cecho p ch) s }"

definition erasure :: "pty \<Rightarrow> 8 word \<Rightarrow> 8 word list" where
  "erasure p ch = (if (ch < 32 \<or> ch = 127) \<and> flag ECHOCTL p then [8, 8, 32, 32, 8, 8] else [8, 32, 8])"

definition pty_erase_ch :: "nat \<Rightarrow> 8 word \<Rightarrow> ptstate \<Rightarrow> ptstate option" where
  "pty_erase_ch k ch s = do { p \<leftarrow> pty_tab s k; pty_echos k (erasure p ch) s }"

section \<open>The line discipline\<close>

definition in_put :: "8 word \<Rightarrow> pty \<Rightarrow> pty" where
  "in_put ch p = p\<lparr>in_buf := (in_buf p)[in_p0 p := ch], in_p0 := (in_p0 p + 1) mod PTY_BUF, in_count := in_count p + 1\<rparr>"

fun in_puts :: "8 word list \<Rightarrow> pty \<Rightarrow> pty" where
  "in_puts [] p = p"
| "in_puts (c # cs) p = (if in_count p \<ge> PTY_BUF then p else in_puts cs (in_put c p))"

definition canon_put :: "8 word \<Rightarrow> pty \<Rightarrow> pty" where
  "canon_put ch p = p\<lparr>canon_buf := (canon_buf p)[canon_count p := ch], canon_count := canon_count p + 1\<rparr>"

text \<open>The line so far.\<close>

definition canon_line :: "pty \<Rightarrow> 8 word list" where
  "canon_line p = take (canon_count p) (canon_buf p)"

text \<open>The loop for \<^verbatim>\<open>VKILL\<close>, and the body of \<^verbatim>\<open>VERASE\<close>.\<close>

definition erase_last :: "nat \<Rightarrow> ptstate \<Rightarrow> ptstate option" where
  "erase_last k s = do {
     p \<leftarrow> pty_tab s k;
     let s1 = upd_pty k (\<lambda>p. p\<lparr>canon_count := canon_count p - 1\<rparr>) s;
     if flag ECHO p then pty_erase_ch k (canon_buf p ! (canon_count p - 1)) s1 else Some s1
   }"

fun erase_all :: "nat \<Rightarrow> nat \<Rightarrow> ptstate \<Rightarrow> ptstate option" where
  "erase_all k 0 s = Some s"
| "erase_all k (Suc n) s = do { s1 \<leftarrow> erase_last k s; erase_all k n s1 }"

fun pty_cechos :: "nat \<Rightarrow> 8 word list \<Rightarrow> ptstate \<Rightarrow> ptstate option" where
  "pty_cechos k [] s = Some s"
| "pty_cechos k (c # cs) s = do { s1 \<leftarrow> pty_cecho k c s; pty_cechos k cs s1 }"

definition echo_ctl :: "nat \<Rightarrow> 8 word \<Rightarrow> ptstate \<Rightarrow> ptstate option" where
  "echo_ctl k ch s = do {
     p \<leftarrow> pty_tab s k;
     if flag ECHO p then do { s1 \<leftarrow> pty_cecho k ch s; pty_echo k 10 s1 } else Some s
   }"

definition interrupt :: "nat \<Rightarrow> int \<Rightarrow> 8 word \<Rightarrow> ptstate \<Rightarrow> ptstate option" where
  "interrupt k sig ch s = do {
     p \<leftarrow> pty_tab s k;
     s1 \<leftarrow> (if flag ISIG p then do { s1 \<leftarrow> pty_signal k sig s; Some (upd_pty k (canon_count_update (\<lambda>_. 0)) s1) } else Some s);
     echo_ctl k ch s1
   }"

definition pty_canon_input :: "nat \<Rightarrow> 8 word \<Rightarrow> ptstate \<Rightarrow> ptstate option" where
  "pty_canon_input k ch s = do {
     p \<leftarrow> pty_tab s k;
     if ch = v_kill (tio p) then erase_all k (canon_count p) s
     else if ch = v_eof (tio p) then echo_ctl k ch (upd_pty k (canon_eot_update (\<lambda>_. True)) s)
     else if ch = v_intr (tio p) then interrupt k SIGINT ch s
     else if ch = v_reprint (tio p) then
       if flag ECHO p then do { s1 \<leftarrow> pty_echos k [10, 62, 32] s; pty_cechos k (canon_line p) s1 } else Some s
     else if ch = v_quit (tio p) then interrupt k SIGQUIT ch s
     else if ch = v_erase (tio p) then if canon_count p \<noteq> 0 then erase_last k s else Some s
     else if ch = 13 then Some s
     else if ch = 10 then do {
       s1 \<leftarrow> (if canon_count p < MAX_CANON then
                 let s1 = upd_pty k (canon_put 10) s
                 in if flag (ECHO OR ECHONL) p then pty_echo k 10 s1 else Some s1
               else Some s);
       p1 \<leftarrow> pty_tab s1 k;
       pty_resume_pts_r k (upd_pty k (\<lambda>p. (in_puts (canon_line p) p)\<lparr>canon_count := 0\<rparr>) s1)
     }
     else if canon_count p < MAX_CANON then
       let s1 = upd_pty k (canon_put ch) s
       in if flag ECHO p then pty_cecho k ch s1 else Some s1
     else Some s
   }"

section \<open>Writing\<close>

text \<open>The count of the request is a 32-bit number.\<close>

definition left_over :: "nat \<Rightarrow> nat \<Rightarrow> nat" where
  "left_over count left = (count + 2 ^ 32 - left) mod 2 ^ 32"

definition written :: "nat \<Rightarrow> nat \<Rightarrow> errno \<Rightarrow> wres" where
  "written count left e = (let n = left_over count left in if n \<noteq> 0 \<or> e = EZERO then Wrote n else Failed e)"

definition ptm_end :: "nat \<Rightarrow> nat \<Rightarrow> nat \<Rightarrow> errno \<Rightarrow> ptstate \<Rightarrow> (wres \<times> ptstate) option" where
  "ptm_end k count left e s = do {
     p \<leftarrow> pty_tab s k;
     s1 \<leftarrow> (if in_count p \<ge> PTY_BUF then do { f \<leftarrow> ptm_fso p; fs_clrstate f W_OK s } else Some s);
     s2 \<leftarrow> pty_resume_pts_r k s1;
     Some (written count left e, s2)
   }"

text \<open>
  The loop over the bytes. \<open>raw\<close> is that the task waits for room for the first byte; \<open>ue\<close> is the error of reading from the user's memory when
  \<open>data\<close> has ended before the \<open>left\<close> bytes. \<open>left\<close> is the \<^verbatim>\<open>int\<close> that the code counts down from the \<^verbatim>\<open>size_t\<close> of the request: the two agree
  for requests of less than 2^31 bytes, and the model is about these.
\<close>

function ptm_loop :: "nat \<Rightarrow> bool \<Rightarrow> errno \<Rightarrow> nat \<Rightarrow> bool \<Rightarrow> nat \<Rightarrow> 8 word list \<Rightarrow> ptstate \<Rightarrow> (wres \<times> ptstate) option" where
  "ptm_loop k no_delay ue count raw left data s =
     (if left = 0 then ptm_end k count left EZERO s
      else
        case data of
          [] \<Rightarrow> ptm_end k count left ue s
        | ch # data' \<Rightarrow> do {
            p \<leftarrow> pty_tab s k;
            if \<not> raw \<and> flag ICANON p then do {
              s1 \<leftarrow> pty_canon_input k ch s;
              ptm_loop k no_delay ue count False (left - 1) data' s1
            }
            else if in_count p \<ge> PTY_BUF then
              if no_delay then ptm_end k (left_over count left) left EZERO s
              else do {
                c \<leftarrow> curr s;
                if signal_pending (tsk s c) then ptm_end k count left EINTR s
                else do {
                  s1 \<leftarrow> pty_resume_pts_r k s;
                  (r, s2) \<leftarrow> task_suspend (Some (ptm_writers k)) WAIT_INTR s1;
                  (case r of
                     Inl e \<Rightarrow> ptm_end k count left e s2
                   | Inr out \<Rightarrow> Some (Asleep out data, s2))
                }
              }
            else do {
              let s1 = upd_pty k (in_put ch) s;
              s2 \<leftarrow> (if flag ECHO p then pty_echo k ch s1 else Some s1);
              ptm_loop k no_delay ue count False (left - 1) data' s2
            }
          })"
  by pat_completeness auto
termination by (relation "measure (\<lambda>(k, nd, ue, count, raw, left, data, s). length data)") auto

declare ptm_loop.simps [simp del]

definition ptm_write :: "nat \<Rightarrow> bool \<Rightarrow> errno \<Rightarrow> nat \<Rightarrow> 8 word list \<Rightarrow> ptstate \<Rightarrow> (wres \<times> ptstate) option" where
  "ptm_write k no_delay ue count data s = (if count = 0 then Some (Wrote 0, s) else ptm_loop k no_delay ue count False count data s)"

definition pts_end :: "nat \<Rightarrow> nat \<Rightarrow> nat \<Rightarrow> errno \<Rightarrow> ptstate \<Rightarrow> (wres \<times> ptstate) option" where
  "pts_end k count left e s = do {
     p \<leftarrow> pty_tab s k;
     s1 \<leftarrow> (if out_count p \<ge> PTY_BUF then do { f \<leftarrow> pts_fso p; fs_clrstate f W_OK s } else Some s);
     s2 \<leftarrow> pty_resume_ptm_r k s1;
     Some (written count left e, s2)
   }"

function pts_loop :: "nat \<Rightarrow> bool \<Rightarrow> errno \<Rightarrow> nat \<Rightarrow> nat \<Rightarrow> 8 word list \<Rightarrow> ptstate \<Rightarrow> (wres \<times> ptstate) option" where
  "pts_loop k no_delay ue count left data s =
     (if left = 0 then pts_end k count left EZERO s
      else
        case data of
          [] \<Rightarrow> pts_end k count left ue s
        | ch # data' \<Rightarrow> do {
            p \<leftarrow> pty_tab s k;
            if out_count p \<ge> PTY_BUF then
              if ptm_fso p = None then do { (_, s1) \<leftarrow> signal_raise SIGHUP s; pts_end k 0 left EZERO s1 }
              else if canon_intr p then do {
                (_, s1) \<leftarrow> signal_raise SIGINT s;
                pts_end k count left EINTR (upd_pty k (canon_intr_update (\<lambda>_. False)) s1)
              }
              else if no_delay then pts_end k count left EZERO s
              else do {
                c \<leftarrow> curr s;
                if signal_pending (tsk s c) then pts_end k count left EINTR s
                else do {
                  s1 \<leftarrow> pty_resume_ptm_r k s;
                  (r, s2) \<leftarrow> task_suspend (Some (pts_writers k)) WAIT_INTR s1;
                  (case r of
                     Inl e \<Rightarrow> pts_end k count left e s2
                   | Inr out \<Rightarrow> Some (Asleep out data, s2))
                }
              }
            else pts_loop k no_delay ue count (left - 1) data' (upd_pty k (out_put ch) s)
          })"
  by pat_completeness auto
termination by (relation "measure (\<lambda>(k, nd, ue, count, left, data, s). length data)") auto

declare pts_loop.simps [simp del]

definition pts_write :: "nat \<Rightarrow> bool \<Rightarrow> errno \<Rightarrow> nat \<Rightarrow> 8 word list \<Rightarrow> ptstate \<Rightarrow> (wres \<times> ptstate) option" where
  "pts_write k no_delay ue count data s = (if count = 0 then Some (Wrote 0, s) else pts_loop k no_delay ue count count data s)"

definition pty_write :: "nat \<Rightarrow> bool \<Rightarrow> errno \<Rightarrow> nat \<Rightarrow> 8 word list \<Rightarrow> ptstate \<Rightarrow> (wres \<times> ptstate) option" where
  "pty_write i no_delay ue count data s =
     (case end_nr PTM_INDEX (o_index (fs_fso s i)) of
        Some k \<Rightarrow> ptm_write k no_delay ue count data s
      | None \<Rightarrow>
          (case end_nr PTS_INDEX (o_index (fs_fso s i)) of
             Some k \<Rightarrow> pts_write k no_delay ue count data s
           | None \<Rightarrow> Some (Failed EPERM, s)))"

text \<open>The name of a terminal; \<open>n\<close> is the size of the buffer for it.\<close>

definition pty_ttyname :: "nat \<Rightarrow> nat \<Rightarrow> ptstate \<Rightarrow> errno + string" where
  "pty_ttyname i n s =
     (let pre = prefix (fs_of s (fs_fso s i))
      in if length pre + 8 > n then Inl ENOMEM
         else Inr (pre @ ''/'' @ pts_name (nat (o_index (fs_fso s i) - PTS_INDEX))))"

definition pty_chdir :: "nat \<Rightarrow> string \<Rightarrow> ptstate \<Rightarrow> (errno \<times> ptstate) option" where
  "pty_chdir k name s = Some (if name \<noteq> [] then ENOENT else EZERO, s)"

text \<open>
  The operations that change nothing: \<^verbatim>\<open>pty_creat\<close>, \<^verbatim>\<open>pty_link\<close>, \<^verbatim>\<open>pty_unlink\<close>, \<^verbatim>\<open>pty_rename\<close>, \<^verbatim>\<open>pty_mkdir\<close> and \<^verbatim>\<open>pty_rmdir\<close> return the first code,
  \<^verbatim>\<open>pty_syncfso\<close>, \<^verbatim>\<open>pty_trunc\<close>, \<^verbatim>\<open>pty_chk_perm\<close>, \<^verbatim>\<open>pty_statfs\<close> and \<^verbatim>\<open>pty_sync\<close> the second.
\<close>

definition pty_creat :: errno where "pty_creat = EPERM"
definition pty_trunc :: errno where "pty_trunc = EZERO"

end
