(* ===== verification/Pty_Line.thy ===== *)
theory Pty_Line
  imports Pty Clock
begin

text \<open>
  What the line discipline of the pseudo terminals means. A terminal is seen as four things: the line that is being typed, the
  input that the slave can read, the output that the master can read and the mark of an end of file. On these the discipline is
  the pure function \<open>type_char\<close>; the routines of \<^verbatim>\<open>ptyfs.c\<close> with their buffers, wake-ups and signals implement it.
\<close>

section \<open>The terminal as the user sees it\<close>

record aterm =
  a_line :: "8 word list"
  a_input :: "8 word list"
  a_output :: "8 word list"
  a_eot :: bool

definition on :: "termios \<Rightarrow> 32 word \<Rightarrow> bool" where
  "on t m \<longleftrightarrow> c_lflag t AND m \<noteq> 0"

definition is_ctl :: "8 word \<Rightarrow> bool" where
  "is_ctl ch \<longleftrightarrow> ch < 32 \<or> ch = 127"

text \<open>A control character is shown as a caret and a letter.\<close>

definition echoed :: "termios \<Rightarrow> 8 word \<Rightarrow> 8 word list" where
  "echoed t ch = (if on t ECHOCTL \<and> is_ctl ch then [94, ch XOR 64] else [ch])"

definition wiped :: "termios \<Rightarrow> 8 word \<Rightarrow> 8 word list" where
  "wiped t ch = (let n = length (echoed t ch) in replicate n 8 @ replicate n 32 @ replicate n 8)"

text \<open>Both queues hold at most \<^verbatim>\<open>PTY_BUF\<close> bytes; what does not fit is lost.\<close>

definition show_out :: "bool \<Rightarrow> 8 word list \<Rightarrow> aterm \<Rightarrow> aterm" where
  "show_out b cs a = (if b then a\<lparr>a_output := take PTY_BUF (a_output a @ cs)\<rparr> else a)"

definition type_char :: "termios \<Rightarrow> 8 word \<Rightarrow> aterm \<Rightarrow> aterm" where
  "type_char t ch a =
     (let echo = show_out (on t ECHO)
      in if ch = v_kill t then echo (concat (map (wiped t) (rev (a_line a)))) (a\<lparr>a_line := []\<rparr>)
         else if ch = v_eof t then echo (echoed t ch @ [10]) (a\<lparr>a_eot := True\<rparr>)
         else if ch = v_intr t then echo (echoed t ch @ [10]) (if on t ISIG then a\<lparr>a_line := []\<rparr> else a)
         else if ch = v_reprint t then echo ([10, 62, 32] @ concat (map (echoed t) (a_line a))) a
         else if ch = v_quit t then echo (echoed t ch @ [10]) (if on t ISIG then a\<lparr>a_line := []\<rparr> else a)
         else if ch = v_erase t then
           if a_line a = [] then a else echo (wiped t (last (a_line a))) (a\<lparr>a_line := butlast (a_line a)\<rparr>)
         else if ch = 13 then a
         else if ch = 10 then
           let fits = length (a_line a) < MAX_CANON; l = a_line a @ (if fits then [10] else [])
           in show_out (fits \<and> on t (ECHO OR ECHONL)) [10] (a\<lparr>a_line := [], a_input := take PTY_BUF (a_input a @ l)\<rparr>)
         else if length (a_line a) < MAX_CANON then echo (echoed t ch) (a\<lparr>a_line := a_line a @ [ch]\<rparr>)
         else a)"

section \<open>The invariant of a terminal and its view\<close>

definition ring_ok :: "8 word list \<Rightarrow> nat \<Rightarrow> nat \<Rightarrow> nat \<Rightarrow> bool" where
  "ring_ok buf r n w \<longleftrightarrow> length buf = PTY_BUF \<and> r < PTY_BUF \<and> n \<le> PTY_BUF \<and> w = (r + n) mod PTY_BUF"

definition pty_ok :: "pty \<Rightarrow> bool" where
  "pty_ok p \<longleftrightarrow> length (canon_buf p) = MAX_CANON \<and> canon_count p \<le> MAX_CANON \<and>
     ring_ok (in_buf p) (in_p1 p) (in_count p) (in_p0 p) \<and> ring_ok (out_buf p) (out_p1 p) (out_count p) (out_p0 p)"

definition in_data :: "pty \<Rightarrow> 8 word list" where
  "in_data p = ring_from (in_buf p) (in_p1 p) (in_count p)"

definition out_data :: "pty \<Rightarrow> 8 word list" where
  "out_data p = ring_from (out_buf p) (out_p1 p) (out_count p)"

definition view :: "pty \<Rightarrow> aterm" where
  "view p = \<lparr>a_line = canon_line p, a_input = in_data p, a_output = out_data p, a_eot = canon_eot p\<rparr>"

text \<open>What the line discipline leaves alone.\<close>

definition ends :: "pty \<Rightarrow> nat option \<times> nat option \<times> bool \<times> (int \<times> int) \<times> termios \<times> bool" where
  "ends p = (ptm_fso p, pts_fso p, p_locked p, pty_size p, tio p, canon_intr p)"

lemma ring_step:
  assumes "ring_ok buf r n w" and "n < PTY_BUF"
  shows "ring_ok (buf[w := x]) r (n + 1) ((w + 1) mod PTY_BUF)" "ring_from (buf[w := x]) r (n + 1) = ring_from buf r n @ [x]"
proof -
  have ok: "length buf = PTY_BUF" "r < PTY_BUF" "w = (r + n) mod PTY_BUF" using assms(1) by (simp_all add: ring_ok_def)
  show "ring_ok (buf[w := x]) r (n + 1) ((w + 1) mod PTY_BUF)"
    using ok assms(2) by (simp add: ring_ok_def mod_Suc_eq)
  have w: "w < PTY_BUF" using ok(3) by simp
  have ne: "(r + j) mod PTY_BUF \<noteq> w" if "j < n" for j
    using that ok assms(2) mod_once [of "r + j" PTY_BUF] mod_once [of "r + n" PTY_BUF] by (auto split: if_splits)
  show "ring_from (buf[w := x]) r (n + 1) = ring_from buf r n @ [x]"
  proof (rule nth_equalityI)
    fix i assume "i < length (ring_from (buf[w := x]) r (n + 1))"
    then consider "i < n" | "i = n" by fastforce
    then show "ring_from (buf[w := x]) r (n + 1) ! i = (ring_from buf r n @ [x]) ! i"
    proof cases
      case 1
      then show ?thesis using ne [OF 1] ok(1) by (simp add: nth_append nth_list_update_neq [OF not_sym])
    next
      case 2
      then show ?thesis using ok(1,3) w by (simp add: nth_append)
    qed
  qed simp
qed

lemma ring_next:
  assumes "ring_ok buf r n w" and "c \<le> n"
  shows "ring_ok buf ((r + c) mod PTY_BUF) (n - c) w" "ring_from buf ((r + c) mod PTY_BUF) (n - c) = drop c (ring_from buf r n)"
  using assms ring_drop [of c n buf r] mod_add_left_eq [of "r + c" PTY_BUF "n - c"] by (auto simp: ring_ok_def)

lemma data_length [simp]: "length (in_data p) = in_count p" "length (out_data p) = out_count p"
  by (simp_all add: in_data_def out_data_def)

lemma view_simps [simp]:
  "a_line (view p) = canon_line p" "a_input (view p) = in_data p" "a_output (view p) = out_data p" "a_eot (view p) = canon_eot p"
  by (simp_all add: view_def)

lemma length_line [simp]: "pty_ok p \<Longrightarrow> length (canon_line p) = canon_count p"
  by (simp add: pty_ok_def canon_line_def)

lemma counts_ok: "pty_ok p \<Longrightarrow> in_count p \<le> PTY_BUF" "pty_ok p \<Longrightarrow> out_count p \<le> PTY_BUF" "pty_ok p \<Longrightarrow> canon_count p \<le> MAX_CANON"
  by (simp_all add: pty_ok_def ring_ok_def)

lemma flag_on: "flag m p = on (tio p) m"
  by (simp add: flag_def on_def)

lemma cecho_shown: "cecho p ch = echoed (tio p) ch"
proof -
  have all: "\<forall>n \<in> set [0..<32]. (word_of_nat n :: 8 word) + 64 = word_of_nat n XOR 64" by code_simp
  have "ch + 64 = ch XOR 64" if "ch < 32"
    using bspec [OF all, of "unat ch"] that by (simp add: word_less_nat_alt)
  then show ?thesis by (auto simp: cecho_def echoed_def is_ctl_def flag_on)
qed

lemma erasure_wiped: "erasure p ch = wiped (tio p) ch"
  by (simp add: erasure_def wiped_def echoed_def is_ctl_def flag_on Let_def numeral_2_eq_2)

section \<open>Putting and taking bytes\<close>

lemma out_put_view:
  assumes "pty_ok p" and "out_count p < PTY_BUF"
  shows "pty_ok (out_put ch p)" "view (out_put ch p) = (view p)\<lparr>a_output := out_data p @ [ch]\<rparr>" "ends (out_put ch p) = ends p"
  using assms ring_step [of "out_buf p" "out_p1 p" "out_count p" "out_p0 p" ch]
  by (simp_all add: out_put_def pty_ok_def view_def out_data_def in_data_def canon_line_def ends_def)

lemma in_put_view:
  assumes "pty_ok p" and "in_count p < PTY_BUF"
  shows "pty_ok (in_put ch p)" "view (in_put ch p) = (view p)\<lparr>a_input := in_data p @ [ch]\<rparr>" "ends (in_put ch p) = ends p"
  using assms ring_step [of "in_buf p" "in_p1 p" "in_count p" "in_p0 p" ch]
  by (simp_all add: in_put_def pty_ok_def view_def out_data_def in_data_def canon_line_def ends_def)

lemma in_puts_view:
  assumes "pty_ok p"
  shows "pty_ok (in_puts cs p) \<and> view (in_puts cs p) = (view p)\<lparr>a_input := take PTY_BUF (in_data p @ cs)\<rparr> \<and> ends (in_puts cs p) = ends p"
  using assms
proof (induction cs arbitrary: p)
  case Nil
  then show ?case using counts_ok(1) [OF Nil] by (simp add: view_def)
next
  case (Cons c cs)
  show ?case
  proof (cases "in_count p < PTY_BUF")
    case True
    note i = in_put_view [OF Cons.prems True, of c]
    have "in_data (in_put c p) = in_data p @ [c]" using i(2) by (metis view_simps(2) aterm.select_convs(2) aterm.surjective aterm.update_convs(2))
    then show ?thesis using Cons.IH [OF i(1)] i(2,3) True by simp
  next
    case False
    then have "in_count p = PTY_BUF" using counts_ok(1) [OF Cons.prems] by simp
    then show ?thesis using Cons.prems by (simp add: view_def)
  qed
qed

lemma out_get_view:
  assumes "pty_ok p" and "n \<le> out_count p"
  shows "\<exists>p'. out_get n p = (take n (out_data p), p') \<and> pty_ok p' \<and> view p' = (view p)\<lparr>a_output := drop n (out_data p)\<rparr> \<and> ends p' = ends p"
  using assms
proof (induction n arbitrary: p)
  case 0
  then show ?case by (simp add: view_def)
next
  case (Suc n)
  let ?p = "p\<lparr>out_count := out_count p - 1, out_p1 := (out_p1 p + 1) mod PTY_BUF\<rparr>"
  have r: "ring_ok (out_buf p) (out_p1 p) (out_count p) (out_p0 p)" using Suc.prems(1) by (simp add: pty_ok_def)
  have ok: "pty_ok ?p" and d: "out_data ?p = drop 1 (out_data p)"
    using ring_next [OF r, of 1] Suc.prems by (simp_all add: pty_ok_def out_data_def)
  have n: "n \<le> out_count ?p" using Suc.prems(2) by simp
  obtain p' where p': "out_get n ?p = (take n (out_data ?p), p')" "pty_ok p'"
      "view p' = (view ?p)\<lparr>a_output := drop n (out_data ?p)\<rparr>" "ends p' = ends ?p"
    using Suc.IH [OF ok n] by blast
  have h: "out_buf p ! out_p1 p = out_data p ! 0" using r Suc.prems(2) by (simp add: out_data_def ring_ok_def)
  have "take (Suc n) (out_data p) = out_data p ! 0 # take n (drop 1 (out_data p))"
    using Suc.prems(2) by (cases "out_data p") (auto dest: arg_cong [where f = length])
  then have "out_get (Suc n) p = (take (Suc n) (out_data p), p')" using p'(1) d h by simp
  moreover have "view p' = (view p)\<lparr>a_output := drop (Suc n) (out_data p)\<rparr>"
    using p'(3) d by (simp add: view_def canon_line_def in_data_def)
  ultimately show ?case using p'(2,4) by (simp add: ends_def)
qed

lemma in_get_view:
  assumes "pty_ok p" and "n \<le> in_count p"
  shows "\<exists>p'. in_get n p = (take n (in_data p), p') \<and> pty_ok p' \<and> view p' = (view p)\<lparr>a_input := drop n (in_data p)\<rparr> \<and> ends p' = ends p"
  using assms
proof (induction n arbitrary: p)
  case 0
  then show ?case by (simp add: view_def)
next
  case (Suc n)
  let ?p = "p\<lparr>in_count := in_count p - 1, in_p1 := (in_p1 p + 1) mod PTY_BUF\<rparr>"
  have r: "ring_ok (in_buf p) (in_p1 p) (in_count p) (in_p0 p)" using Suc.prems(1) by (simp add: pty_ok_def)
  have ok: "pty_ok ?p" and d: "in_data ?p = drop 1 (in_data p)"
    using ring_next [OF r, of 1] Suc.prems by (simp_all add: pty_ok_def in_data_def)
  have n: "n \<le> in_count ?p" using Suc.prems(2) by simp
  obtain p' where p': "in_get n ?p = (take n (in_data ?p), p')" "pty_ok p'"
      "view p' = (view ?p)\<lparr>a_input := drop n (in_data ?p)\<rparr>" "ends p' = ends ?p"
    using Suc.IH [OF ok n] by blast
  have h: "in_buf p ! in_p1 p = in_data p ! 0" using r Suc.prems(2) by (simp add: in_data_def ring_ok_def)
  have "take (Suc n) (in_data p) = in_data p ! 0 # take n (drop 1 (in_data p))"
    using Suc.prems(2) by (cases "in_data p") (auto dest: arg_cong [where f = length])
  then have "in_get (Suc n) p = (take (Suc n) (in_data p), p')" using p'(1) d h by simp
  moreover have "view p' = (view p)\<lparr>a_input := drop (Suc n) (in_data p)\<rparr>"
    using p'(3) d by (simp add: view_def canon_line_def out_data_def)
  ultimately show ?case using p'(2,4) by (simp add: ends_def)
qed

section \<open>Steps of a terminal\<close>

text \<open>
  What the operations do to the kernel around the terminal: they wake tasks and change the poll state of objects, and the
  invariant of the scheduler holds afterwards.
\<close>

definition tstep :: "nat \<Rightarrow> pty \<Rightarrow> ptstate \<Rightarrow> (qid \<Rightarrow> tid list) \<Rightarrow> ptstate \<Rightarrow> (qid \<Rightarrow> tid list) \<Rightarrow> bool" where
  "tstep k p' s L s' L' \<longleftrightarrow> kinv s' L' \<and> alive s' = alive s \<and> curr s' = curr s \<and> slot s' = slot s \<and>
     (running s L \<longrightarrow> running s' L') \<and> fs_fs s' = fs_fs s \<and> fs_file s' = fs_file s \<and>
     (\<forall>i. \<exists>st. fs_fso s' i = (fs_fso s i)\<lparr>o_state := st\<rparr>) \<and>
     pty_tab s' = (pty_tab s)(k := Some p') \<and> pty_mounted s' = pty_mounted s"

definition at_term :: "nat \<Rightarrow> pty \<Rightarrow> ptstate \<Rightarrow> (qid \<Rightarrow> tid list) \<Rightarrow> bool" where
  "at_term k p s L \<longleftrightarrow> kinv s L \<and> (\<forall>i. poll_ok s i) \<and> pty_tab s k = Some p"

lemma tstep_at:
  assumes "at_term k p s L" and "tstep k p' s L s' L'"
  shows "at_term k p' s' L'"
proof -
  have "poll_ok s' i" for i
  proof -
    obtain st where "fs_fso s' i = (fs_fso s i)\<lparr>o_state := st\<rparr>" using assms(2) by (auto simp: tstep_def)
    moreover have "poll_ok s i" using assms(1) by (simp add: at_term_def)
    ultimately show ?thesis using assms(2) by (simp add: poll_ok_def tstep_def)
  qed
  then show ?thesis using assms(2) by (simp add: at_term_def tstep_def)
qed

lemma tstep_trans:
  assumes "tstep k p1 s L s1 L1" and "tstep k p2 s1 L1 s2 L2"
  shows "tstep k p2 s L s2 L2"
proof -
  have "\<exists>st. fs_fso s2 i = (fs_fso s i)\<lparr>o_state := st\<rparr>" for i
  proof -
    obtain a b where "fs_fso s1 i = (fs_fso s i)\<lparr>o_state := a\<rparr>" "fs_fso s2 i = (fs_fso s1 i)\<lparr>o_state := b\<rparr>"
      using assms unfolding tstep_def by metis
    then show ?thesis by (intro exI [of _ b]) simp
  qed
  then show ?thesis using assms by (simp add: tstep_def)
qed

lemma fso_same: "\<exists>st. o' = o'\<lparr>o_state := st\<rparr>" for o' :: fso
  by (rule exI [of _ "o_state o'"]) simp

lemma upd_pty_step: "at_term k p s L \<Longrightarrow> tstep k (f p) s L (upd_pty k f s) L"
  using kinv_cong(1,2) [of "upd_pty k f s" s L] kinv_cong(3) [of "upd_pty k f s" s]
  by (simp add: upd_pty_def tstep_def at_term_def fso_same)

lemma more_fields:
  fixes s :: ptstate
  assumes "kstate.more s' = kstate.more s"
  shows "fs_fso s' = fs_fso s" "fs_fs s' = fs_fs s" "fs_file s' = fs_file s" "pty_tab s' = pty_tab s" "pty_mounted s' = pty_mounted s"
  using assms by (cases s; cases s'; simp)+

lemma tstep_more:
  assumes "at_term k p s L" and "kstate.more s' = kstate.more s" and "kinv s' L'" and "alive s' = alive s" and "curr s' = curr s"
    and "slot s' = slot s" and "running s L \<longrightarrow> running s' L'"
  shows "tstep k p s L s' L'"
  using assms more_fields [OF assms(2)] by (auto simp: tstep_def at_term_def fso_same)

lemma woken_step: "at_term k p s L \<Longrightarrow> woken s L s' L' \<Longrightarrow> tstep k p s L s' L'"
  using woken_alive [of s L s' L'] by (intro tstep_more) (simp_all add: woken_def)

lemma tstep_refl:
  assumes "at_term k p s L"
  shows "tstep k p s L s L"
  by (rule woken_step [OF assms woken_refl]) (use assms in \<open>simp add: at_term_def\<close>)

text \<open>No task goes to sleep.\<close>

definition still :: "(qid \<Rightarrow> tid list) \<Rightarrow> (qid \<Rightarrow> tid list) \<Rightarrow> bool" where
  "still L L' \<longleftrightarrow> (\<forall>q. \<not> is_ready q \<longrightarrow> L q = [] \<longrightarrow> L' q = [])"

lemma woken_still: "woken s L s' L' \<Longrightarrow> still L L'"
  using woken_queue_empty by (auto simp: still_def)

lemma still_trans: "still L L' \<Longrightarrow> still L' L'' \<Longrightarrow> still L L''"
  by (auto simp: still_def)

lemma fs_state_step:
  assumes "at_term k p s L"
  shows "\<exists>s' L'. fs_state i st s = Some s' \<and> tstep k p s L s' L' \<and> still L L'"
proof -
  let ?s1 = "upd_fso i (o_state_update (\<lambda>_. st)) s"
  obtain s' L' where s': "fs_state i st s = Some s'" "woken ?s1 L s' L'"
    using fs_state_woken [of s L i st] assms by (auto simp: at_term_def)
  have u: "fs_fs ?s1 = fs_fs s" "fs_file ?s1 = fs_file s" "pty_tab ?s1 = pty_tab s" "pty_mounted ?s1 = pty_mounted s"
    by (simp_all add: upd_fso_def)
  have e: "\<exists>st'. fs_fso ?s1 j = (fs_fso s j)\<lparr>o_state := st'\<rparr>" for j by (cases "j = i") (auto intro: fso_same)
  have "pty_tab s = (pty_tab s)(k := Some p)" "kinv s L" using assms by (auto simp: at_term_def)
  then have t1: "tstep k p s L ?s1 L" using u e upd_fso_kinv [of s L i] by (simp add: tstep_def)
  show ?thesis using s' tstep_trans [OF t1 woken_step [OF tstep_at [OF assms t1] s'(2)]] woken_still by blast
qed

lemma set_end_step:
  assumes "at_term k p s L"
  shows "\<exists>s' L'. set_end e st s = Some s' \<and> tstep k p s L s' L' \<and> still L L'"
proof (cases e)
  case None
  then show ?thesis using tstep_refl [OF assms] by (auto simp: set_end_def still_def)
next
  case (Some i)
  then show ?thesis using fs_state_step [OF assms] by (auto simp: set_end_def fs_setstate_def)
qed

lemma resume_step:
  assumes "at_term k p s L" and "\<not> is_ready q"
  shows "\<exists>s' L'. Option.bind (set_end e st s) (wake_all q) = Some s' \<and> tstep k p s L s' L' \<and> L' q = [] \<and> still L L'"
proof -
  obtain s1 L1 where s1: "set_end e st s = Some s1" "tstep k p s L s1 L1" "still L L1" using set_end_step [OF assms(1)] by blast
  have a: "at_term k p s1 L1" by (rule tstep_at [OF assms(1) s1(2)])
  obtain s2 L2 where s2: "wake_all q s1 = Some s2" "woken s1 L1 s2 L2" "L2 q = []"
    using wake_all_woken [OF _ assms(2), of s1 L1] a by (auto simp: at_term_def)
  show ?thesis using s1 s2 tstep_trans [OF s1(2) woken_step [OF a s2(2)]] still_trans [OF s1(3) woken_still [OF s2(2)]] by auto
qed

lemma ptyq_wait [simp]: "\<not> is_ready (Ptyq k j)"
  by simp

lemma pty_resume_step:
  assumes "at_term k p s L"
  shows "\<exists>s' L'. pty_resume_ptm_r k s = Some s' \<and> tstep k p s L s' L' \<and> L' (ptm_readers k) = [] \<and> still L L'"
    "\<exists>s' L'. pty_resume_ptm_w k s = Some s' \<and> tstep k p s L s' L' \<and> L' (ptm_writers k) = [] \<and> still L L'"
    "\<exists>s' L'. pty_resume_pts_r k s = Some s' \<and> tstep k p s L s' L' \<and> L' (pts_readers k) = [] \<and> still L L'"
    "\<exists>s' L'. pty_resume_pts_w k s = Some s' \<and> tstep k p s L s' L' \<and> L' (pts_writers k) = [] \<and> still L L'"
  using assms resume_step [OF assms ptyq_wait]
  by (simp_all add: at_term_def pty_resume_ptm_r_def pty_resume_ptm_w_def pty_resume_pts_r_def pty_resume_pts_w_def)

section \<open>Programs on a terminal\<close>

text \<open>
  \<open>runs k p f F\<close>: on every state in which terminal \<open>k\<close> is \<open>p\<close>, the routine \<open>f\<close> returns, is a step of the terminal, keeps its invariant and
  changes the view by \<open>F\<close>. The rules below follow the structure of the code.
\<close>

definition runs :: "nat \<Rightarrow> pty \<Rightarrow> (ptstate \<Rightarrow> ptstate option) \<Rightarrow> (aterm \<Rightarrow> aterm) \<Rightarrow> bool" where
  "runs k p f F \<longleftrightarrow> (pty_ok p \<longrightarrow> (\<forall>s L. at_term k p s L \<longrightarrow>
     (\<exists>s' L' p'. f s = Some s' \<and> tstep k p' s L s' L' \<and> pty_ok p' \<and> ends p' = ends p \<and> view p' = F (view p))))"

lemma runsI:
  assumes "\<And>s L. pty_ok p \<Longrightarrow> at_term k p s L \<Longrightarrow>
    \<exists>s' L' p'. f s = Some s' \<and> tstep k p' s L s' L' \<and> pty_ok p' \<and> ends p' = ends p \<and> view p' = F (view p)"
  shows "runs k p f F"
  using assms by (auto simp: runs_def)

lemma runsD:
  assumes "runs k p f F" and "pty_ok p" and "at_term k p s L"
  obtains s' L' p' where "f s = Some s'" "tstep k p' s L s' L'" "at_term k p' s' L'" "pty_ok p'" "ends p' = ends p" "view p' = F (view p)"
  using assms tstep_at unfolding runs_def by blast

lemma runs_bind:
  assumes "runs k p f F"
    and "\<And>p1. pty_ok p \<Longrightarrow> pty_ok p1 \<Longrightarrow> ends p1 = ends p \<Longrightarrow> view p1 = F (view p) \<Longrightarrow> runs k p1 g G"
  shows "runs k p (\<lambda>s. Option.bind (f s) g) (\<lambda>a. G (F a))"
proof (rule runsI)
  fix s L assume p: "pty_ok p" "at_term k p s L"
  obtain s1 L1 p1 where 1: "f s = Some s1" "tstep k p1 s L s1 L1" "at_term k p1 s1 L1" "pty_ok p1" "ends p1 = ends p" "view p1 = F (view p)"
    by (rule runsD [OF assms(1) p])
  obtain s2 L2 p2 where 2: "g s1 = Some s2" "tstep k p2 s1 L1 s2 L2" "pty_ok p2" "ends p2 = ends p1" "view p2 = G (view p1)"
    by (rule runsD [OF assms(2) [OF p(1) 1(4-6)] 1(4) 1(3)])
  show "\<exists>s' L' p'. Option.bind (f s) g = Some s' \<and> tstep k p' s L s' L' \<and> pty_ok p' \<and> ends p' = ends p \<and> view p' = G (F (view p))"
    using 1 2 tstep_trans [OF 1(2) 2(2)] by (intro exI [of _ s2] exI [of _ L2] exI [of _ p2]) simp
qed

lemma runs_get: "runs k p (h p) F \<Longrightarrow> runs k p (\<lambda>s. Option.bind (pty_tab s k) (\<lambda>p. h p s)) F"
  by (simp add: runs_def at_term_def)

lemma runs_upd:
  assumes "pty_ok p \<Longrightarrow> pty_ok (f p)" and "ends (f p) = ends p" and "pty_ok p \<Longrightarrow> view (f p) = F (view p)" and "runs k (f p) g G"
  shows "runs k p (\<lambda>s. g (upd_pty k f s)) (\<lambda>a. G (F a))"
proof (rule runsI)
  fix s L assume p: "pty_ok p" "at_term k p s L"
  note u = upd_pty_step [OF p(2), of f]
  obtain s2 L2 p2 where 2: "g (upd_pty k f s) = Some s2" "tstep k p2 (upd_pty k f s) L s2 L2" "pty_ok p2" "ends p2 = ends (f p)" "view p2 = G (view (f p))"
    by (rule runsD [OF assms(4) assms(1) [OF p(1)] tstep_at [OF p(2) u]])
  show "\<exists>s' L' p'. g (upd_pty k f s) = Some s' \<and> tstep k p' s L s' L' \<and> pty_ok p' \<and> ends p' = ends p \<and> view p' = G (F (view p))"
    using 2 tstep_trans [OF u 2(2)] assms(2) assms(3) [OF p(1)] by (intro exI [of _ s2] exI [of _ L2] exI [of _ p2]) simp
qed

lemma runs_skip: "runs k p Some (\<lambda>a. a)"
  by (rule runsI) (use tstep_refl in blast)

lemma runs_view: "(pty_ok p \<Longrightarrow> F (view p) = G (view p)) \<Longrightarrow> runs k p f F \<Longrightarrow> runs k p f G"
  by (auto simp: runs_def)

lemma runs_if: "(b \<Longrightarrow> runs k p f F) \<Longrightarrow> (\<not> b \<Longrightarrow> runs k p g F) \<Longrightarrow> runs k p (\<lambda>s. if b then f s else g s) F"
  by (simp add: runs_def)

lemma runs_case:
  assumes "runs k p f F" and "runs k p g G"
  shows "runs k p (\<lambda>s. if b then f s else g s) (\<lambda>a. if b then F a else G a)"
  using assms by (cases b) simp_all

lemma runs_resume: "runs k p (pty_resume_ptm_r k) (\<lambda>a. a)" "runs k p (pty_resume_pts_r k) (\<lambda>a. a)"
  using pty_resume_step [of k p] by (auto intro!: runsI) blast+

section \<open>Echo\<close>

lemma runs_echo: "runs k p (pty_echo k ch) (show_out True [ch])"
proof -
  have "runs k p (\<lambda>s. if out_count p \<noteq> PTY_BUF then pty_resume_ptm_r k (upd_pty k (out_put ch) s) else Some s) (show_out True [ch])"
  proof (rule runs_if)
    assume ne: "out_count p \<noteq> PTY_BUF"
    have lt: "out_count p < PTY_BUF" if "pty_ok p" using counts_ok(2) [OF that] ne by simp
    have "runs k p (\<lambda>s. pty_resume_ptm_r k (upd_pty k (out_put ch) s)) (\<lambda>a. show_out True [ch] a)"
      by (rule runs_upd [where G = "\<lambda>a. a"])
        (use out_put_view [of p ch] lt runs_resume in \<open>auto simp: show_out_def out_put_def ends_def\<close>)
    then show "runs k p (\<lambda>s. pty_resume_ptm_r k (upd_pty k (out_put ch) s)) (show_out True [ch])" by simp
  next
    assume "\<not> out_count p \<noteq> PTY_BUF"
    then show "runs k p Some (show_out True [ch])"
      by (intro runs_view [OF _ runs_skip]) (simp add: show_out_def view_def)
  qed
  then show ?thesis
    unfolding pty_echo_def by (intro runs_get)
qed

lemma show_out_append: "show_out b ds (show_out b cs a) = show_out b (cs @ ds) a"
  by (simp add: show_out_def min_def)

lemma show_out_nil: "pty_ok p \<Longrightarrow> show_out b [] (view p) = view p"
  using counts_ok(2) [of p] by (simp add: show_out_def view_def)

lemma runs_echos: "runs k p (pty_echos k cs) (show_out True cs)"
proof (induction cs arbitrary: p)
  case Nil
  have "pty_echos k [] = Some" by (rule ext) simp
  then show ?case using runs_view [OF _ runs_skip, of p "show_out True []" k] show_out_nil [of p True] by simp
next
  case (Cons c cs)
  have "runs k p (\<lambda>s. Option.bind (pty_echo k c s) (pty_echos k cs)) (\<lambda>a. show_out True cs (show_out True [c] a))"
    by (rule runs_bind [OF runs_echo Cons])
  moreover have "pty_echos k (c # cs) = (\<lambda>s. Option.bind (pty_echo k c s) (pty_echos k cs))" by (rule ext) simp
  ultimately show ?case by (simp add: show_out_append)
qed

lemma runs_cecho: "runs k p (pty_cecho k ch) (show_out True (echoed (tio p) ch))"
  using runs_get [where h = "\<lambda>p. pty_echos k (cecho p ch)"] runs_echos by (simp add: pty_cecho_def [abs_def] cecho_shown)

lemma runs_erase_ch: "runs k p (pty_erase_ch k ch) (show_out True (wiped (tio p) ch))"
  using runs_get [where h = "\<lambda>p. pty_echos k (erasure p ch)"] runs_echos by (simp add: pty_erase_ch_def [abs_def] erasure_wiped)

lemma ends_tio: "ends p1 = ends p \<Longrightarrow> tio p1 = tio p"
  by (simp add: ends_def)

lemma runs_cechos: "runs k p (pty_cechos k cs) (show_out True (concat (map (echoed (tio p)) cs)))"
proof (induction cs arbitrary: p)
  case Nil
  have "pty_cechos k [] = Some" by (rule ext) simp
  then show ?case using runs_view [OF _ runs_skip, of p "show_out True []" k] show_out_nil [of p True] by simp
next
  case (Cons c cs)
  have "runs k p (\<lambda>s. Option.bind (pty_cecho k c s) (pty_cechos k cs))
      (\<lambda>a. show_out True (concat (map (echoed (tio p)) cs)) (show_out True (echoed (tio p) c) a))"
    by (rule runs_bind [OF runs_cecho]) (use Cons ends_tio in metis)
  moreover have "pty_cechos k (c # cs) = (\<lambda>s. Option.bind (pty_cecho k c s) (pty_cechos k cs))" by (rule ext) simp
  ultimately show ?case by (simp add: show_out_append)
qed

lemma runs_echo_ctl: "runs k p (echo_ctl k ch) (show_out (on (tio p) ECHO) (echoed (tio p) ch @ [10]))"
proof -
  have "runs k p (\<lambda>s. if flag ECHO p then Option.bind (pty_cecho k ch s) (pty_echo k 10) else Some s)
      (show_out (on (tio p) ECHO) (echoed (tio p) ch @ [10]))"
  proof (rule runs_if)
    assume "flag ECHO p"
    then show "runs k p (\<lambda>s. Option.bind (pty_cecho k ch s) (pty_echo k 10)) (show_out (on (tio p) ECHO) (echoed (tio p) ch @ [10]))"
      using runs_bind [OF runs_cecho runs_echo, of k p ch 10] by (simp add: flag_on show_out_append)
  qed (rule runs_view [OF _ runs_skip], simp add: flag_on show_out_def)
  then show ?thesis unfolding echo_ctl_def by (intro runs_get)
qed

section \<open>Editing the line\<close>

lemma canon_put_view:
  assumes "pty_ok p" and "canon_count p < MAX_CANON"
  shows "pty_ok (canon_put ch p)" "view (canon_put ch p) = (view p)\<lparr>a_line := canon_line p @ [ch]\<rparr>" "ends (canon_put ch p) = ends p"
  using assms by (simp_all add: canon_put_def pty_ok_def view_def canon_line_def in_data_def out_data_def ends_def take_Suc_conv_app_nth)

lemma drop_last_view:
  assumes "pty_ok p"
  shows "pty_ok (p\<lparr>canon_count := canon_count p - n\<rparr>)"
    "view (p\<lparr>canon_count := canon_count p - n\<rparr>) = (view p)\<lparr>a_line := take (canon_count p - n) (canon_line p)\<rparr>"
    "ends (p\<lparr>canon_count := canon_count p - n\<rparr>) = ends p"
  using assms by (auto simp: pty_ok_def view_def canon_line_def in_data_def out_data_def ends_def)

lemma runs_echo_if:
  assumes "flag m p = b" and "runs k p f (show_out True cs)"
  shows "runs k p (\<lambda>s. if flag m p then f s else Some s) (show_out b cs)"
  using assms by (intro runs_if) (auto simp: show_out_def intro: runs_view [OF _ runs_skip])

definition rub_out :: "termios \<Rightarrow> aterm \<Rightarrow> aterm" where
  "rub_out t a = show_out (on t ECHO) (wiped t (last (a_line a))) (a\<lparr>a_line := butlast (a_line a)\<rparr>)"

lemma runs_erase_last:
  assumes "canon_count p \<noteq> 0"
  shows "runs k p (erase_last k) (rub_out (tio p))"
proof -
  let ?f = "\<lambda>p. p\<lparr>canon_count := canon_count p - 1\<rparr>"
  let ?c = "canon_buf p ! (canon_count p - 1)"
  let ?G = "show_out (on (tio p) ECHO) (wiped (tio p) ?c)"
  let ?F = "\<lambda>a. a\<lparr>a_line := butlast (a_line a)\<rparr>"
  have tf: "tio (?f p) = tio p" by simp
  have "runs k p (\<lambda>s. (\<lambda>s. if flag ECHO (?f p) then pty_erase_ch k ?c s else Some s) (upd_pty k ?f s)) (\<lambda>a. ?G (?F a))"
  proof (rule runs_upd [where F = ?F])
    show "runs k (?f p) (\<lambda>s. if flag ECHO (?f p) then pty_erase_ch k ?c s else Some s) ?G"
      by (rule runs_echo_if) (use runs_erase_ch [of k "?f p" ?c] in \<open>simp_all add: flag_on\<close>)
  qed (use drop_last_view [of p 1] in \<open>simp_all add: ends_def butlast_conv_take\<close>)
  moreover have "?c = last (canon_line p)" if "pty_ok p"
    using that assms by (subst last_conv_nth) (auto simp: canon_line_def pty_ok_def)
  ultimately have "runs k p (\<lambda>s. (\<lambda>s. if flag ECHO (?f p) then pty_erase_ch k ?c s else Some s) (upd_pty k ?f s)) (rub_out (tio p))"
    by (elim runs_view [rotated]) (simp add: rub_out_def)
  then have "runs k p (\<lambda>s. let s1 = upd_pty k ?f s in if flag ECHO p then pty_erase_ch k ?c s1 else Some s1) (rub_out (tio p))"
    by (simp only: flag_on Let_def tf)
  then show ?thesis unfolding erase_last_def by (intro runs_get)
qed

lemma rub_out_line: "a_line (rub_out t a) = butlast (a_line a)"
  by (simp add: rub_out_def show_out_def)

lemma rub_out_all:
  assumes "length (a_output a) \<le> PTY_BUF"
  shows "(rub_out t ^^ length (a_line a)) a = show_out (on t ECHO) (concat (map (wiped t) (rev (a_line a)))) (a\<lparr>a_line := []\<rparr>)"
  using assms
proof (induction "a_line a" arbitrary: a rule: rev_induct)
  case Nil
  then show ?case by (simp add: show_out_def)
next
  case (snoc c cs)
  have c: "a_line a = cs @ [c]" using snoc(2) by simp
  have r: "a_line (rub_out t a) = cs" "length (a_output (rub_out t a)) \<le> PTY_BUF"
    using c snoc(3) by (auto simp: rub_out_def show_out_def min_def)
  have e: "length (a_line a) = Suc (length (a_line (rub_out t a)))" using c r(1) by simp
  show ?case
    unfolding e funpow_Suc_right comp_def snoc(1) [OF r(1) [symmetric] r(2)]
    using c by (simp add: rub_out_def show_out_def min_def)
qed

lemma runs_erase_all: "pty_ok p \<Longrightarrow> n = canon_count p \<Longrightarrow> runs k p (erase_all k n) (\<lambda>a. ((rub_out (tio p)) ^^ length (a_line a)) a)"
proof (induction n arbitrary: p)
  case 0
  have "erase_all k 0 = Some" by (rule ext) simp
  then show ?case using 0 runs_view [OF _ runs_skip, of p _ k] by (simp add: canon_line_def)
next
  case (Suc n)
  have "runs k p (\<lambda>s. Option.bind (erase_last k s) (erase_all k n))
      (\<lambda>a. ((rub_out (tio p)) ^^ length (a_line (rub_out (tio p) a))) (rub_out (tio p) a))"
  proof (rule runs_bind [OF runs_erase_last])
    fix p1 assume p1: "pty_ok p1" "ends p1 = ends p" "view p1 = rub_out (tio p) (view p)"
    have "length (canon_line p1) = length (canon_line p) - 1"
      using arg_cong [OF p1(3), of a_line] by (simp add: rub_out_line)
    then show "runs k p1 (erase_all k n) (\<lambda>a. ((rub_out (tio p)) ^^ length (a_line a)) a)"
      using Suc.IH [OF p1(1)] Suc.prems p1(1) ends_tio [OF p1(2)] by fastforce
  qed (use Suc.prems in simp)
  moreover have "erase_all k (Suc n) = (\<lambda>s. Option.bind (erase_last k s) (erase_all k n))" by (rule ext) simp
  moreover have "length (canon_line p) = Suc (length (canon_line p) - 1)" using Suc.prems by simp
  ultimately show ?case
    by (simp, elim runs_view [rotated]) (metis (no_types) funpow_Suc_right comp_apply rub_out_line length_butlast view_simps(1))
qed

lemma runs_signal_loop: "\<forall>t \<in> set ts. t < TASK_MAX \<Longrightarrow> runs k p (pty_signal_loop fo nr ts) (\<lambda>a. a)"
proof (induction ts arbitrary: p)
  case Nil
  have "pty_signal_loop fo nr [] = Some" by (rule ext) simp
  then show ?case using runs_skip by simp
next
  case (Cons t ts)
  let ?f = "\<lambda>s. if slot s t \<and> on_end fo t s then map_option snd (signal_send_k t nr s) else Some s"
  have "runs k p ?f (\<lambda>a. a)"
  proof (rule runsI)
    fix s L assume a: "pty_ok p" "at_term k p s L"
    have "\<exists>s' L'. ?f s = Some s' \<and> tstep k p s L s' L'"
    proof (cases "slot s t \<and> on_end fo t s")
      case True
      then obtain e s' L' where s': "signal_send_k t nr s = Some (e, s')" "evolves s L s' L'"
        using signal_send_k_evolves [of s L t nr] a(2) Cons.prems by (auto simp: at_term_def)
      have "tstep k p s L s' L'"
        using s' evolves_alive [OF s'(2)] signal_send_k_alarms(2) [OF s'(1)] by (intro tstep_more [OF a(2)]) (simp_all add: evolves_def)
      then show ?thesis using True s' by auto
    next
      case False
      then show ?thesis using tstep_refl [OF a(2)] by auto
    qed
    then show "\<exists>s' L' p'. ?f s = Some s' \<and> tstep k p' s L s' L' \<and> pty_ok p' \<and> ends p' = ends p \<and> view p' = view p" using a(1) by blast
  qed
  moreover have "runs k p1 (pty_signal_loop fo nr ts) (\<lambda>a. a)" for p1 using Cons by simp
  ultimately have "runs k p (\<lambda>s. Option.bind (?f s) (pty_signal_loop fo nr ts)) (\<lambda>a. a)" by (rule runs_bind)
  moreover have "pty_signal_loop fo nr (t # ts) = (\<lambda>s. Option.bind (?f s) (pty_signal_loop fo nr ts))" by (rule ext) simp
  ultimately show ?case by simp
qed

lemma runs_signal: "runs k p (pty_signal k nr) (\<lambda>a. a)"
  unfolding pty_signal_def by (intro runs_get runs_signal_loop) simp

lemma view_no_line:
  assumes "pty_ok p"
  shows "pty_ok (p\<lparr>canon_count := 0\<rparr>)" "view (p\<lparr>canon_count := 0\<rparr>) = (view p)\<lparr>a_line := []\<rparr>" "ends (p\<lparr>canon_count := 0\<rparr>) = ends p"
  using assms by (simp_all add: pty_ok_def view_def canon_line_def in_data_def out_data_def ends_def)

lemma runs_interrupt:
  "runs k p (interrupt k sig ch)
     (\<lambda>a. show_out (on (tio p) ECHO) (echoed (tio p) ch @ [10]) (if on (tio p) ISIG then a\<lparr>a_line := []\<rparr> else a))"
proof -
  let ?h = "\<lambda>s. if flag ISIG p then Option.bind (pty_signal k sig s) (\<lambda>s1. Some (upd_pty k (canon_count_update (\<lambda>_. 0)) s1)) else Some s"
  let ?H = "\<lambda>a. if on (tio p) ISIG then a\<lparr>a_line := []\<rparr> else a"
  have clear: "runs k p1 (\<lambda>s. Some (upd_pty k (canon_count_update (\<lambda>_. 0)) s)) (\<lambda>a. a\<lparr>a_line := []\<rparr>)" for p1
    using runs_upd [of p1 "canon_count_update (\<lambda>_. 0)" "\<lambda>a. a\<lparr>a_line := []\<rparr>" k Some "\<lambda>a. a"] runs_skip
    by (simp add: view_no_line) (simp add: ends_def)
  have "runs k p ?h ?H"
  proof (rule runs_if)
    assume "flag ISIG p"
    moreover have "runs k p (\<lambda>s. Option.bind (pty_signal k sig s) (\<lambda>s1. Some (upd_pty k (canon_count_update (\<lambda>_. 0)) s1))) (\<lambda>a. a\<lparr>a_line := []\<rparr>)"
      by (rule runs_bind [OF runs_signal clear])
    ultimately show "runs k p (\<lambda>s. Option.bind (pty_signal k sig s) (\<lambda>s1. Some (upd_pty k (canon_count_update (\<lambda>_. 0)) s1))) ?H"
      by (simp add: flag_on)
  next
    assume "\<not> flag ISIG p"
    then show "runs k p Some ?H" using runs_skip by (simp add: flag_on)
  qed
  then have "runs k p (\<lambda>s. Option.bind (?h s) (echo_ctl k ch)) (\<lambda>a. show_out (on (tio p) ECHO) (echoed (tio p) ch @ [10]) (?H a))"
    by (rule runs_bind) (use runs_echo_ctl ends_tio in metis)
  then show ?thesis unfolding interrupt_def by (rule runs_get)
qed

lemma runs_eof: "runs k p (\<lambda>s. echo_ctl k ch (upd_pty k (canon_eot_update (\<lambda>_. True)) s))
   (\<lambda>a. show_out (on (tio p) ECHO) (echoed (tio p) ch @ [10]) (a\<lparr>a_eot := True\<rparr>))"
proof (rule runs_upd [where F = "\<lambda>a. a\<lparr>a_eot := True\<rparr>"])
  show "runs k (canon_eot_update (\<lambda>_. True) p) (echo_ctl k ch) (show_out (on (tio p) ECHO) (echoed (tio p) ch @ [10]))"
    using runs_echo_ctl [of k "canon_eot_update (\<lambda>_. True) p" ch] by simp
qed (simp_all add: pty_ok_def view_def canon_line_def in_data_def out_data_def ends_def)

text \<open>A character that goes into the line.\<close>

lemma runs_put:
  assumes "canon_count p < MAX_CANON" and "\<And>p. runs k p e (show_out True (cs (tio p)))"
  shows "runs k p (\<lambda>s. let s1 = upd_pty k (canon_put ch) s in if flag m p then e s1 else Some s1)
    (\<lambda>a. show_out (on (tio p) m) (cs (tio p)) (a\<lparr>a_line := a_line a @ [ch]\<rparr>))"
proof -
  let ?q = "canon_put ch p"
  have q: "tio ?q = tio p" by (simp add: canon_put_def)
  have "runs k p (\<lambda>s. (\<lambda>s. if flag m ?q then e s else Some s) (upd_pty k (canon_put ch) s))
    (\<lambda>a. show_out (on (tio p) m) (cs (tio p)) (a\<lparr>a_line := a_line a @ [ch]\<rparr>))"
  proof (rule runs_upd [where F = "\<lambda>a. a\<lparr>a_line := a_line a @ [ch]\<rparr>"])
    show "runs k ?q (\<lambda>s. if flag m ?q then e s else Some s) (show_out (on (tio p) m) (cs (tio p)))"
      by (rule runs_echo_if) (use assms(2) [of ?q] q in \<open>simp_all add: flag_on\<close>)
  qed (use canon_put_view [of p ch] assms(1) in \<open>simp_all add: ends_def canon_put_def\<close>)
  then show ?thesis by (simp only: flag_on q Let_def)
qed

lemma runs_hand_over:
  "runs k p (\<lambda>s. Option.bind (pty_tab s k) (\<lambda>p1. pty_resume_pts_r k (upd_pty k (\<lambda>p. (in_puts (canon_line p) p)\<lparr>canon_count := 0\<rparr>) s)))
     (\<lambda>a. a\<lparr>a_line := [], a_input := take PTY_BUF (a_input a @ a_line a)\<rparr>)"
proof -
  let ?f = "\<lambda>p. (in_puts (canon_line p) p)\<lparr>canon_count := 0\<rparr>"
  let ?F = "\<lambda>a. a\<lparr>a_line := [], a_input := take PTY_BUF (a_input a @ a_line a)\<rparr>"
  have e: "ends (in_puts cs q) = ends q" for cs q
    by (induction cs arbitrary: q) (simp_all add: in_put_def ends_def)
  have "runs k p (\<lambda>s. pty_resume_pts_r k (upd_pty k ?f s)) (\<lambda>a. (\<lambda>a. a) (?F a))"
  proof (rule runs_upd)
    show "ends (?f p) = ends p" using e [of "canon_line p" p] by (simp add: ends_def)
    show "pty_ok (?f p)" if "pty_ok p" using in_puts_view [OF that] view_no_line(1) by blast
    show "view (?f p) = ?F (view p)" if "pty_ok p" using in_puts_view [OF that, of "canon_line p"] view_no_line(2) by simp
  qed (rule runs_resume(2))
  then show ?thesis using runs_get [of k p "\<lambda>_ s. pty_resume_pts_r k (upd_pty k ?f s)" ?F] by simp
qed

lemma runs_newline:
  "runs k p (\<lambda>s. Option.bind
       (if canon_count p < MAX_CANON then
          let s1 = upd_pty k (canon_put 10) s in if flag (ECHO OR ECHONL) p then pty_echo k 10 s1 else Some s1
        else Some s)
       (\<lambda>s1. Option.bind (pty_tab s1 k) (\<lambda>p1. pty_resume_pts_r k (upd_pty k (\<lambda>p. (in_puts (canon_line p) p)\<lparr>canon_count := 0\<rparr>) s1))))
     (\<lambda>a. let fits = length (a_line a) < MAX_CANON; l = a_line a @ (if fits then [10] else [])
       in show_out (fits \<and> on (tio p) (ECHO OR ECHONL)) [10] (a\<lparr>a_line := [], a_input := take PTY_BUF (a_input a @ l)\<rparr>))"
proof (cases "canon_count p < MAX_CANON")
  case True
  let ?F = "\<lambda>a. show_out (on (tio p) (ECHO OR ECHONL)) [10] (a\<lparr>a_line := a_line a @ [10]\<rparr>)"
  have "runs k p (\<lambda>s. if canon_count p < MAX_CANON then
      let s1 = upd_pty k (canon_put 10) s in if flag (ECHO OR ECHONL) p then pty_echo k 10 s1 else Some s1 else Some s) ?F"
    using runs_put [OF True, of k "pty_echo k 10" "\<lambda>_. [10]" 10] runs_echo True by (simp only: if_True)
  from runs_bind [OF this runs_hand_over] show ?thesis
    by (rule runs_view [rotated]) (use True in \<open>simp add: Let_def show_out_def\<close>)
next
  case False
  have "runs k p (\<lambda>s. if canon_count p < MAX_CANON then
      let s1 = upd_pty k (canon_put 10) s in if flag (ECHO OR ECHONL) p then pty_echo k 10 s1 else Some s1 else Some s) (\<lambda>a. a)"
    using runs_skip False by (simp only: if_False)
  from runs_bind [OF this runs_hand_over] show ?thesis
    by (rule runs_view [rotated]) (use False in \<open>simp add: Let_def show_out_def\<close>)
qed

lemma runs_reprint:
  "runs k p (\<lambda>s. if flag ECHO p then Option.bind (pty_echos k [10, 62, 32] s) (pty_cechos k (canon_line p)) else Some s)
     (\<lambda>a. show_out (on (tio p) ECHO) ([10, 62, 32] @ concat (map (echoed (tio p)) (a_line a))) a)"
proof (rule runs_if)
  let ?cs = "concat (map (echoed (tio p)) (canon_line p))"
  assume e: "flag ECHO p"
  have "runs k p (\<lambda>s. Option.bind (pty_echos k [10, 62, 32] s) (pty_cechos k (canon_line p))) (\<lambda>a. show_out True ?cs (show_out True [10, 62, 32] a))"
    by (rule runs_bind [OF runs_echos]) (use runs_cechos ends_tio in metis)
  then show "runs k p (\<lambda>s. Option.bind (pty_echos k [10, 62, 32] s) (pty_cechos k (canon_line p)))
     (\<lambda>a. show_out (on (tio p) ECHO) ([10, 62, 32] @ concat (map (echoed (tio p)) (a_line a))) a)"
    by (rule runs_view [rotated]) (use e in \<open>simp add: flag_on show_out_append\<close>)
qed (rule runs_view [OF _ runs_skip], simp add: flag_on show_out_def)

text \<open>The line discipline is the function \<open>type_char\<close>.\<close>

lemma runs_canon_input: "runs k p (pty_canon_input k ch) (type_char (tio p) ch)"
proof (cases "pty_ok p")
  case ok: True
  have kill: "runs k p (erase_all k (canon_count p)) (\<lambda>a. show_out (on (tio p) ECHO) (concat (map (wiped (tio p)) (rev (a_line a)))) (a\<lparr>a_line := []\<rparr>))"
    by (rule runs_view [OF _ runs_erase_all [OF ok refl]]) (use rub_out_all [of "view p" "tio p"] counts_ok(2) [OF ok] in simp)
  have erase: "runs k p (\<lambda>s. if canon_count p \<noteq> 0 then erase_last k s else Some s)
      (\<lambda>a. if a_line a = [] then a else rub_out (tio p) a)"
  proof (rule runs_if)
    assume "canon_count p \<noteq> 0"
    then have "canon_line p \<noteq> []" using length_line [OF ok] by fastforce
    then show "runs k p (erase_last k) (\<lambda>a. if a_line a = [] then a else rub_out (tio p) a)"
      by (intro runs_view [OF _ runs_erase_last]) (use \<open>canon_count p \<noteq> 0\<close> in simp_all)
  qed (rule runs_view [OF _ runs_skip], simp add: canon_line_def)
  have plain: "runs k p (\<lambda>s. if canon_count p < MAX_CANON then
        let s1 = upd_pty k (canon_put ch) s in if flag ECHO p then pty_cecho k ch s1 else Some s1 else Some s)
      (\<lambda>a. if length (a_line a) < MAX_CANON then show_out (on (tio p) ECHO) (echoed (tio p) ch) (a\<lparr>a_line := a_line a @ [ch]\<rparr>) else a)"
  proof (rule runs_if)
    assume c: "canon_count p < MAX_CANON"
    show "runs k p (\<lambda>s. let s1 = upd_pty k (canon_put ch) s in if flag ECHO p then pty_cecho k ch s1 else Some s1)
      (\<lambda>a. if length (a_line a) < MAX_CANON then show_out (on (tio p) ECHO) (echoed (tio p) ch) (a\<lparr>a_line := a_line a @ [ch]\<rparr>) else a)"
      by (rule runs_view [OF _ runs_put [OF c runs_cecho]]) (use c in simp)
  qed (rule runs_view [OF _ runs_skip], simp)
  note c = kill runs_eof [of k p ch] runs_interrupt [of k p] runs_reprint [of k p] erase [unfolded rub_out_def] runs_newline [of k p] plain runs_skip
  show ?thesis
    unfolding pty_canon_input_def type_char_def [abs_def] Let_def by (intro runs_get runs_case c [unfolded Let_def])
qed (simp add: runs_def)

section \<open>Reading and writing\<close>

lemma clr_step:
  assumes "at_term k p s L" and "e \<noteq> None"
  shows "\<exists>s' L'. (if b then Option.bind e (\<lambda>f. fs_clrstate f st s) else Some s) = Some s' \<and> tstep k p s L s' L'"
proof -
  obtain i where i: "e = Some i" using assms(2) by blast
  obtain s' L' where "fs_state i (o_state (fs_fso s i) AND NOT st) s = Some s'" "tstep k p s L s' L'"
    using fs_state_step [OF assms(1)] by blast
  then show ?thesis using i tstep_refl [OF assms(1)] by (cases b) (auto simp: fs_clrstate_def)
qed

lemma ptm_end_step:
  assumes "at_term k p s L" and "ptm_fso p \<noteq> None"
  shows "\<exists>s' L'. ptm_end k count left e s = Some (written count left e, s') \<and> tstep k p s L s' L' \<and> L' (pts_readers k) = []"
proof -
  obtain s1 L1 where s1: "(if in_count p \<ge> PTY_BUF then Option.bind (ptm_fso p) (\<lambda>f. fs_clrstate f W_OK s) else Some s) = Some s1"
      "tstep k p s L s1 L1" using clr_step [OF assms] by blast
  obtain s2 L2 where s2: "pty_resume_pts_r k s1 = Some s2" "tstep k p s1 L1 s2 L2" "L2 (pts_readers k) = []"
    using pty_resume_step(3) [OF tstep_at [OF assms(1) s1(2)]] by blast
  show ?thesis using s1 s2 assms(1) tstep_trans [OF s1(2) s2(2)] by (auto simp: ptm_end_def at_term_def)
qed

lemma pts_end_step:
  assumes "at_term k p s L" and "pts_fso p \<noteq> None"
  shows "\<exists>s' L'. pts_end k count left e s = Some (written count left e, s') \<and> tstep k p s L s' L' \<and> L' (ptm_readers k) = []"
proof -
  obtain s1 L1 where s1: "(if out_count p \<ge> PTY_BUF then Option.bind (pts_fso p) (\<lambda>f. fs_clrstate f W_OK s) else Some s) = Some s1"
      "tstep k p s L s1 L1" using clr_step [OF assms] by blast
  obtain s2 L2 where s2: "pty_resume_ptm_r k s1 = Some s2" "tstep k p s1 L1 s2 L2" "L2 (ptm_readers k) = []"
    using pty_resume_step(1) [OF tstep_at [OF assms(1) s1(2)]] by blast
  show ?thesis using s1 s2 assms(1) tstep_trans [OF s1(2) s2(2)] by (auto simp: pts_end_def at_term_def)
qed

lemma written_all: "count < 2 ^ 32 \<Longrightarrow> written count 0 EZERO = Wrote count"
  by (simp add: written_def left_over_def Let_def)

lemma ptm_loop_canon:
  assumes "at_term k p s L" and "pty_ok p" and "on (tio p) ICANON" and "ptm_fso p \<noteq> None" and "count < 2 ^ 32"
  shows "\<exists>s' L' p'. ptm_loop k nd ue count False (length data) data s = Some (Wrote count, s') \<and> tstep k p' s L s' L' \<and> pty_ok p' \<and>
           ends p' = ends p \<and> view p' = fold (type_char (tio p)) data (view p) \<and> L' (pts_readers k) = []"
  using assms
proof (induction data arbitrary: s L p)
  case Nil
  then show ?case
    using ptm_end_step [OF Nil(1,4), of count 0 EZERO] written_all [OF Nil(5)] by (auto simp: ptm_loop.simps [of k])
next
  case (Cons c data)
  obtain s1 L1 p1 where 1: "pty_canon_input k c s = Some s1" "tstep k p1 s L s1 L1" "at_term k p1 s1 L1" "pty_ok p1" "ends p1 = ends p"
      "view p1 = type_char (tio p) c (view p)"
    by (rule runsD [OF runs_canon_input Cons.prems(2,1)])
  have e: "tio p1 = tio p" "ptm_fso p1 \<noteq> None" using 1(5) Cons.prems(4) by (simp_all add: ends_def)
  obtain s2 L2 p2 where 2: "ptm_loop k nd ue count False (length data) data s1 = Some (Wrote count, s2)" "tstep k p2 s1 L1 s2 L2" "pty_ok p2"
      "ends p2 = ends p1" "view p2 = fold (type_char (tio p)) data (view p1)" "L2 (pts_readers k) = []"
    using Cons.IH [OF 1(3,4)] Cons.prems(3,5) e by auto
  have "ptm_loop k nd ue count False (length (c # data)) (c # data) s = Some (Wrote count, s2)"
    using 1(1) 2(1) Cons.prems(1,3) by (simp add: ptm_loop.simps [of k _ _ _ _ _ "c # data"] at_term_def flag_on)
  then show ?case using tstep_trans [OF 1(2) 2(2)] 1 2 by (intro exI [of _ s2] exI [of _ L2] exI [of _ p2]) simp
qed

text \<open>
  C31: In canonical mode, what the master writes is taken completely and at once: the terminal afterwards is the
  one that the editor \<open>type_char\<close> gives for these bytes, one after the other; every task that waits to read from the slave is
  woken, and the invariants of the scheduler and of the terminal are kept.
\<close>

theorem ptm_write_edits:
  assumes "at_term k p s L" and "pty_ok p" and "on (tio p) ICANON" and "ptm_fso p \<noteq> None" and "length data < 2 ^ 32"
  shows "\<exists>s' L' p'. ptm_write k nd ue (length data) data s = Some (Wrote (length data), s') \<and> at_term k p' s' L' \<and> pty_ok p' \<and>
           ends p' = ends p \<and> view p' = fold (type_char (tio p)) data (view p) \<and> (data = [] \<or> L' (pts_readers k) = [])"
proof (cases data)
  case Nil
  then show ?thesis using assms(1,2) by (auto simp: ptm_write_def)
next
  case (Cons c cs)
  obtain s' L' p' where s': "ptm_loop k nd ue (length data) False (length data) data s = Some (Wrote (length data), s')" "tstep k p' s L s' L'"
      "pty_ok p'" "ends p' = ends p" "view p' = fold (type_char (tio p)) data (view p)" "L' (pts_readers k) = []"
    using ptm_loop_canon [OF assms(1-5)] by blast
  have "ptm_write k nd ue (length data) data s = Some (Wrote (length data), s')" using s'(1) Cons by (simp add: ptm_write_def)
  then show ?thesis using s'(3-6) tstep_at [OF assms(1) s'(2)] by blast
qed

lemma ptm_loop_raw:
  assumes "at_term k p s L" and "pty_ok p" and "\<not> on (tio p) ICANON" and "ptm_fso p \<noteq> None" and "count < 2 ^ 32"
    and "in_count p + length data \<le> PTY_BUF"
  shows "\<exists>s' L' p'. ptm_loop k nd ue count False (length data) data s = Some (Wrote count, s') \<and> tstep k p' s L s' L' \<and> pty_ok p' \<and>
           ends p' = ends p \<and> in_data p' = in_data p @ data \<and> L' (pts_readers k) = []"
  using assms
proof (induction data arbitrary: s L p)
  case Nil
  then show ?case
    using ptm_end_step [OF Nil(1,4), of count 0 EZERO] written_all [OF Nil(5)] by (auto simp: ptm_loop.simps [of k])
next
  case (Cons c data)
  have lt: "in_count p < PTY_BUF" using Cons.prems(6) by simp
  note i = in_put_view [OF Cons.prems(2) lt, of c]
  have e: "runs k (in_put c p) (\<lambda>s. if flag ECHO (in_put c p) then pty_echo k c s else Some s) (show_out (flag ECHO (in_put c p)) [c])"
    by (rule runs_echo_if [OF refl runs_echo])
  note u = upd_pty_step [OF Cons.prems(1), of "in_put c"]
  obtain s1 L1 p1 where 1: "(if flag ECHO (in_put c p) then pty_echo k c (upd_pty k (in_put c) s) else Some (upd_pty k (in_put c) s)) = Some s1"
      "tstep k p1 (upd_pty k (in_put c) s) L s1 L1" "at_term k p1 s1 L1" "pty_ok p1" "ends p1 = ends (in_put c p)"
      "view p1 = show_out (flag ECHO (in_put c p)) [c] (view (in_put c p))"
    by (rule runsD [OF e i(1) tstep_at [OF Cons.prems(1) u]])
  have q: "flag ECHO (in_put c p) = flag ECHO p" by (simp add: flag_def in_put_def)
  have d: "in_data p1 = in_data p @ [c]" using arg_cong [OF 1(6), of a_input] i(2) by (simp add: show_out_def)
  have n: "in_count p1 + length data \<le> PTY_BUF" using arg_cong [OF d, of length] Cons.prems(6) by simp
  have t: "tio p1 = tio p" "ptm_fso p1 \<noteq> None" using 1(5) i(3) Cons.prems(4) by (simp_all add: ends_def)
  obtain s2 L2 p2 where 2: "ptm_loop k nd ue count False (length data) data s1 = Some (Wrote count, s2)" "tstep k p2 s1 L1 s2 L2" "pty_ok p2"
      "ends p2 = ends p1" "in_data p2 = in_data p1 @ data" "L2 (pts_readers k) = []"
    using Cons.IH [OF 1(3,4)] Cons.prems(3,5) t n by auto
  have "ptm_loop k nd ue count False (length (c # data)) (c # data) s = Some (Wrote count, s2)"
    using 1(1) 2(1) Cons.prems(1,3) lt
    by (simp add: ptm_loop.simps [of k _ _ _ _ _ "c # data"] at_term_def flag_on [of ICANON] q Let_def)
  then show ?case using tstep_trans [OF u tstep_trans [OF 1(2) 2(2)]] 1(5) 2 i(3) d
    by (intro exI [of _ s2] exI [of _ L2] exI [of _ p2]) simp
qed

lemma pts_loop_fits:
  assumes "at_term k p s L" and "pty_ok p" and "pts_fso p \<noteq> None" and "count < 2 ^ 32" and "out_count p + length data \<le> PTY_BUF"
  shows "\<exists>s' L' p'. pts_loop k nd ue count (length data) data s = Some (Wrote count, s') \<and> tstep k p' s L s' L' \<and> pty_ok p' \<and>
           ends p' = ends p \<and> view p' = (view p)\<lparr>a_output := out_data p @ data\<rparr> \<and> L' (ptm_readers k) = []"
  using assms
proof (induction data arbitrary: s L p)
  case Nil
  then show ?case
    using pts_end_step [OF Nil(1,3), of count 0 EZERO] written_all [OF Nil(4)] by (auto simp: pts_loop.simps [of k] view_def)
next
  case (Cons c data)
  have lt: "out_count p < PTY_BUF" using Cons.prems(5) by simp
  note o' = out_put_view [OF Cons.prems(2) lt, of c]
  note u = upd_pty_step [OF Cons.prems(1), of "out_put c"]
  have d: "out_data (out_put c p) = out_data p @ [c]" using arg_cong [OF o'(2), of a_output] by simp
  have n: "out_count (out_put c p) + length data \<le> PTY_BUF" using arg_cong [OF d, of length] Cons.prems(5) by simp
  have t: "pts_fso (out_put c p) \<noteq> None" using o'(3) Cons.prems(3) by (simp add: ends_def)
  obtain s2 L2 p2 where 2: "pts_loop k nd ue count (length data) data (upd_pty k (out_put c) s) = Some (Wrote count, s2)"
      "tstep k p2 (upd_pty k (out_put c) s) L s2 L2" "pty_ok p2"
      "ends p2 = ends (out_put c p)" "view p2 = (view (out_put c p))\<lparr>a_output := out_data (out_put c p) @ data\<rparr>" "L2 (ptm_readers k) = []"
    using Cons.IH [OF tstep_at [OF Cons.prems(1) u] o'(1) t Cons.prems(4) n] by blast
  have "pts_loop k nd ue count (length (c # data)) (c # data) s = Some (Wrote count, s2)"
    using 2(1) Cons.prems(1) lt by (simp add: pts_loop.simps [of k _ _ _ _ "c # data"] at_term_def)
  then show ?case using tstep_trans [OF u 2(2)] 2 o'(2,3) d by (intro exI [of _ s2] exI [of _ L2] exI [of _ p2]) simp
qed

lemma min_count: "(if n > c then c else n) = min n c" for n c :: nat
  by simp

lemma pts_copy_step:
  assumes "at_term k p s L" and "pty_ok p" and "pts_fso p \<noteq> None"
  shows "\<exists>s' L' p'. pts_copy k n s = Some (RBytes (take n (in_data p)), s') \<and> tstep k p' s L s' L' \<and> pty_ok p' \<and> ends p' = ends p \<and>
           view p' = (view p)\<lparr>a_input := drop n (in_data p)\<rparr> \<and> L' (ptm_writers k) = []"
proof -
  have m: "take (min n (in_count p)) (in_data p) = take n (in_data p)" "drop (min n (in_count p)) (in_data p) = drop n (in_data p)"
    by (simp_all add: min_def)
  obtain p' where p': "in_get (min n (in_count p)) p = (take n (in_data p), p')" "pty_ok p'"
      "view p' = (view p)\<lparr>a_input := drop n (in_data p)\<rparr>" "ends p' = ends p"
    using in_get_view [OF assms(2), of "min n (in_count p)"] m by auto
  note u = upd_pty_step [OF assms(1), of "\<lambda>_. p'"]
  have f: "pts_fso p' \<noteq> None" using assms(3) p'(4) by (simp add: ends_def)
  obtain s1 L1 where s1: "(if in_count p' = 0 then Option.bind (pts_fso p') (\<lambda>f. fs_clrstate f R_OK (upd_pty k (\<lambda>_. p') s)) else Some (upd_pty k (\<lambda>_. p') s)) = Some s1"
      "tstep k p' (upd_pty k (\<lambda>_. p') s) L s1 L1" using clr_step [OF tstep_at [OF assms(1) u] f] by blast
  obtain s2 L2 where s2: "pty_resume_ptm_w k s1 = Some s2" "tstep k p' s1 L1 s2 L2" "L2 (ptm_writers k) = []"
    using pty_resume_step(2) [OF tstep_at [OF tstep_at [OF assms(1) u] s1(2)]] by blast
  have "pts_copy k n s = Some (RBytes (take n (in_data p)), s2)"
    using p'(1) s1(1) s2(1) assms(1) by (simp add: pts_copy_def min_count at_term_def Let_def)
  then show ?thesis using p' s2(3) tstep_trans [OF tstep_trans [OF u s1(2)] s2(2)] by blast
qed

lemma pts_read_step:
  assumes "at_term k p s L" and "pty_ok p" and "pts_fso p \<noteq> None" and "ptm_fso p \<noteq> None" and "\<not> canon_intr p" and "in_data p \<noteq> []"
  shows "\<exists>s' L' p'. pts_read k n nd s = Some (RBytes (take n (in_data p)), s') \<and> tstep k p' s L s' L' \<and> pty_ok p' \<and> ends p' = ends p \<and>
           view p' = (view p)\<lparr>a_input := drop n (in_data p)\<rparr> \<and> L' (ptm_writers k) = []"
proof -
  have "in_count p \<noteq> 0" using assms(6) by (metis data_length(1) length_0_conv)
  then have "pts_read k n nd s = pts_copy k n s"
    using assms(1,4,5) by (auto simp: pts_read_def pts_hangup_def pts_wait_def at_term_def)
  then show ?thesis using pts_copy_step [OF assms(1-3)] by simp
qed

lemma ptm_read_step:
  assumes "at_term k p s L" and "pty_ok p" and "ptm_fso p \<noteq> None" and "out_data p \<noteq> []"
  shows "\<exists>s' L' p'. ptm_read k n nd s = Some (RBytes (take n (out_data p)), s') \<and> tstep k p' s L s' L' \<and> pty_ok p' \<and> ends p' = ends p \<and>
           view p' = (view p)\<lparr>a_output := drop n (out_data p)\<rparr> \<and> L' (pts_writers k) = []"
proof -
  have c: "out_count p \<noteq> 0" using assms(4) by (metis data_length(2) length_0_conv)
  have m: "take (min n (out_count p)) (out_data p) = take n (out_data p)" "drop (min n (out_count p)) (out_data p) = drop n (out_data p)"
    by (simp_all add: min_def)
  obtain p' where p': "out_get (min n (out_count p)) p = (take n (out_data p), p')" "pty_ok p'"
      "view p' = (view p)\<lparr>a_output := drop n (out_data p)\<rparr>" "ends p' = ends p"
    using out_get_view [OF assms(2), of "min n (out_count p)"] m by auto
  note u = upd_pty_step [OF assms(1), of "\<lambda>_. p'"]
  have f: "ptm_fso p' \<noteq> None" using assms(3) p'(4) by (simp add: ends_def)
  obtain s1 L1 where s1: "(if out_count p' = 0 then Option.bind (ptm_fso p') (\<lambda>f. fs_clrstate f R_OK (upd_pty k (\<lambda>_. p') s)) else Some (upd_pty k (\<lambda>_. p') s)) = Some s1"
      "tstep k p' (upd_pty k (\<lambda>_. p') s) L s1 L1" using clr_step [OF tstep_at [OF assms(1) u] f] by blast
  obtain s2 L2 where s2: "pty_resume_pts_w k s1 = Some s2" "tstep k p' s1 L1 s2 L2" "L2 (pts_writers k) = []"
    using pty_resume_step(4) [OF tstep_at [OF tstep_at [OF assms(1) u] s1(2)]] by blast
  have "ptm_read k n nd s = Some (RBytes (take n (out_data p)), s2)"
    using p'(1) s1(1) s2(1) assms(1) c by (simp add: ptm_read_def min_count at_term_def Let_def)
  then show ?thesis using p' s2(3) tstep_trans [OF tstep_trans [OF u s1(2)] s2(2)] by blast
qed

section \<open>A line from the keyboard to the program\<close>

text \<open>What is left of the characters when the erase and the kill character have been applied.\<close>

fun edited :: "termios \<Rightarrow> 8 word list \<Rightarrow> 8 word list \<Rightarrow> 8 word list" where
  "edited t l [] = l"
| "edited t l (c # cs) = edited t (if c = v_kill t then [] else if c = v_erase t then butlast l else l @ [c]) cs"

definition typable :: "termios \<Rightarrow> 8 word \<Rightarrow> bool" where
  "typable t c \<longleftrightarrow> c \<notin> {v_eof t, v_intr t, v_reprint t, v_quit t, 13, 10}"

lemma fold_typable:
  assumes "\<forall>c \<in> set cs. typable t c" and "length (a_line a) + length cs \<le> MAX_CANON"
  shows "a_line (fold (type_char t) cs a) = edited t (a_line a) cs \<and> a_input (fold (type_char t) cs a) = a_input a \<and>
           length (edited t (a_line a) cs) \<le> length (a_line a) + length cs"
  using assms
proof (induction cs arbitrary: a)
  case (Cons c cs)
  have c: "c \<noteq> v_eof t" "c \<noteq> v_intr t" "c \<noteq> v_reprint t" "c \<noteq> v_quit t" "c \<noteq> 13" "c \<noteq> 10" using Cons.prems(1) by (auto simp: typable_def)
  let ?l = "if c = v_kill t then [] else if c = v_erase t then butlast (a_line a) else a_line a @ [c]"
  have "length (a_line a) < MAX_CANON" using Cons.prems(2) by simp
  then have s: "a_line (type_char t c a) = ?l" "a_input (type_char t c a) = a_input a"
    using c by (simp_all add: type_char_def show_out_def Let_def)
  have l: "length ?l + length cs \<le> length (a_line a) + length (c # cs)" by auto
  then have l': "length (a_line (type_char t c a)) + length cs \<le> MAX_CANON"
    using arg_cong [OF s(1), of length] Cons.prems(2) by linarith
  have "a_line (fold (type_char t) cs (type_char t c a)) = edited t ?l cs \<and> a_input (fold (type_char t) cs (type_char t c a)) = a_input a \<and>
      length (edited t ?l cs) \<le> length ?l + length cs"
    using Cons.IH [of "type_char t c a", OF _ l'] Cons.prems(1) unfolding s by simp
  then show ?case using l by (simp only: fold_simps edited.simps simp_thms) (blast intro: le_trans)
qed simp

text \<open>
  C30: From the keyboard to the program: the characters of a line, with erase and kill characters among them, and the end of the line
  are written to the master of a terminal in canonical mode whose queues are empty; the write takes them all, and a read from the slave then
  returns the edited line with the newline, or as much of it as the program asked for, and leaves the rest of the line for the next read.
\<close>

theorem typed_line_read:
  assumes "at_term k p s L" and "pty_ok p" and "on (tio p) ICANON" and "ptm_fso p \<noteq> None" and "pts_fso p \<noteq> None" and "\<not> canon_intr p"
    and "canon_line p = []" and "in_data p = []" and "length cs < MAX_CANON" and "\<forall>c \<in> set cs. typable (tio p) c"
    and "10 \<notin> {v_kill (tio p), v_eof (tio p), v_intr (tio p), v_reprint (tio p), v_quit (tio p), v_erase (tio p)}"
    and "line = edited (tio p) [] cs @ [10]"
  shows "\<exists>s1 s2 L2 p2. ptm_write k nd ue (length (cs @ [10])) (cs @ [10]) s = Some (Wrote (length (cs @ [10])), s1) \<and>
           pts_read k n nd' s1 = Some (RBytes (take n line), s2) \<and> at_term k p2 s2 L2 \<and> pty_ok p2 \<and>
           canon_line p2 = [] \<and> in_data p2 = drop n line \<and> ends p2 = ends p"
proof -
  let ?t = "tio p" and ?d = "cs @ [10]"
  let ?a = "fold (type_char ?t) cs (view p)"
  have f: "a_line ?a = edited ?t [] cs" "a_input ?a = []" "length (edited ?t [] cs) < MAX_CANON"
    using fold_typable [OF assms(10), of "view p"] assms(7-9) by auto
  have v: "a_line (fold (type_char ?t) ?d (view p)) = []" "a_input (fold (type_char ?t) ?d (view p)) = line"
    using f assms(11,12) by (simp_all add: type_char_def show_out_def Let_def)
  have n: "length ?d < 2 ^ 32" using assms(9) by simp
  obtain s1 L1 p1 where 1: "ptm_loop k nd ue (length ?d) False (length ?d) ?d s = Some (Wrote (length ?d), s1)" "tstep k p1 s L s1 L1" "pty_ok p1"
      "ends p1 = ends p" "view p1 = fold (type_char ?t) ?d (view p)"
    using ptm_loop_canon [OF assms(1-4) n] by blast
  have a1: "at_term k p1 s1 L1" by (rule tstep_at [OF assms(1) 1(2)])
  have p1: "canon_line p1 = []" "in_data p1 = line" using arg_cong [OF 1(5), of a_line] arg_cong [OF 1(5), of a_input] v by simp_all
  have e1: "pts_fso p1 \<noteq> None" "ptm_fso p1 \<noteq> None" "\<not> canon_intr p1" using 1(4) assms(4-6) by (simp_all add: ends_def)
  have "in_data p1 \<noteq> []" using p1(2) assms(12) by simp
  then obtain s2 L2 p2 where 2: "pts_read k n nd' s1 = Some (RBytes (take n line), s2)" "tstep k p2 s1 L1 s2 L2" "pty_ok p2" "ends p2 = ends p1"
      "view p2 = (view p1)\<lparr>a_input := drop n line\<rparr>"
    using pts_read_step [OF a1 1(3) e1] unfolding p1(2) by blast
  have "ptm_write k nd ue (length ?d) ?d s = Some (Wrote (length ?d), s1)" using 1(1) by (simp add: ptm_write_def)
  moreover have "canon_line p2 = []" "in_data p2 = drop n line"
    using arg_cong [OF 2(5), of a_line] arg_cong [OF 2(5), of a_input] p1(1) by simp_all
  ultimately show ?thesis using 1(4) 2(1,3,4) tstep_at [OF a1 2(2)] by metis
qed

text \<open>
  What a program writes to the slave end is read at the master end: as long as it fits into the output queue the write takes all bytes at
  once, and a read from the master returns the oldest output, old and new in the order of writing, and leaves the rest.
\<close>

theorem output_read:
  assumes "at_term k p s L" and "pty_ok p" and "ptm_fso p \<noteq> None" and "pts_fso p \<noteq> None" and "data \<noteq> []"
    and "length (out_data p) + length data \<le> PTY_BUF"
  shows "\<exists>s1 s2 L2 p2. pts_write k nd ue (length data) data s = Some (Wrote (length data), s1) \<and>
           ptm_read k n nd' s1 = Some (RBytes (take n (out_data p @ data)), s2) \<and> at_term k p2 s2 L2 \<and> pty_ok p2 \<and>
           view p2 = (view p)\<lparr>a_output := drop n (out_data p @ data)\<rparr> \<and> ends p2 = ends p"
proof -
  have n: "length data < 2 ^ 32" "out_count p + length data \<le> PTY_BUF" using assms(6) by simp_all
  obtain s1 L1 p1 where 1: "pts_loop k nd ue (length data) (length data) data s = Some (Wrote (length data), s1)" "tstep k p1 s L s1 L1" "pty_ok p1"
      "ends p1 = ends p" "view p1 = (view p)\<lparr>a_output := out_data p @ data\<rparr>"
    using pts_loop_fits [OF assms(1,2,4) n] by blast
  have a1: "at_term k p1 s1 L1" by (rule tstep_at [OF assms(1) 1(2)])
  have d1: "out_data p1 = out_data p @ data" using arg_cong [OF 1(5), of a_output] by simp
  have e1: "ptm_fso p1 \<noteq> None" "out_data p1 \<noteq> []" using 1(4) assms(3,5) d1 by (simp_all add: ends_def)
  obtain s2 L2 p2 where 2: "ptm_read k n nd' s1 = Some (RBytes (take n (out_data p @ data)), s2)" "tstep k p2 s1 L1 s2 L2" "pty_ok p2" "ends p2 = ends p1"
      "view p2 = (view p1)\<lparr>a_output := drop n (out_data p @ data)\<rparr>"
    using ptm_read_step [OF a1 1(3) e1] unfolding d1 by blast
  have "pts_write k nd ue (length data) data s = Some (Wrote (length data), s1)" using 1(1) assms(5) by (simp add: pts_write_def)
  moreover have "view p2 = (view p)\<lparr>a_output := drop n (out_data p @ data)\<rparr>" using 2(5) 1(5) by simp
  ultimately show ?thesis using 1(4) 2(1,3,4) tstep_at [OF a1 2(2)] by metis
qed

section \<open>Hanging up\<close>

lemma signal_raise_step:
  assumes "at_term k p s L" and "curr s = Some c" and "slot s c" and "c < TASK_MAX"
  shows "\<exists>e s' L'. signal_raise sig s = Some (e, s') \<and> tstep k p s L s' L'"
proof -
  obtain e s' L' where s': "signal_send_k c sig s = Some (e, s')" "evolves s L s' L'"
    using signal_send_k_evolves [OF _ assms(3,4), of L sig] assms(1) by (auto simp: at_term_def)
  have "tstep k p s L s' L'"
    using s' evolves_alive [OF s'(2)] signal_send_k_alarms(2) [OF s'(1)] by (intro tstep_more [OF assms(1)]) (simp_all add: evolves_def)
  then show ?thesis using s'(1) assms(2) by (auto simp: signal_raise_def)
qed

text \<open>
  C32: Closing the master of a terminal whose slave is open hangs the terminal up: no task stays asleep at the slave, and from then on every read
  from the slave ends at once with no bytes (and a hang-up signal), whatever is in the buffers. The terminal itself stays until
  the slave is closed, too.
\<close>

theorem hang_up:
  assumes "at_term k p s L" and "o_index (fs_fso s i) = PTM_INDEX + int k" and "k < PTY_MAX" and "pts_fso p \<noteq> None"
    and "curr s = Some c" and "slot s c" and "c < TASK_MAX"
  shows "\<exists>s1 L1. pty_putfso i s = Some s1 \<and> at_term k (p\<lparr>ptm_fso := None\<rparr>) s1 L1 \<and> L1 (pts_readers k) = [] \<and> L1 (pts_writers k) = [] \<and>
           (\<exists>s2 L2. pts_read k n nd s1 = Some (RBytes [], s2) \<and> at_term k (p\<lparr>ptm_fso := None\<rparr>) s2 L2)"
proof -
  let ?f = "ptm_fso_update (\<lambda>_. None)"
  have m: "end_nr PTM_INDEX (PTM_INDEX + int k) = Some k" "end_nr PTS_INDEX (PTM_INDEX + int k) = None"
    using assms(3) by (simp_all add: end_nr_def)
  note u = upd_pty_step [OF assms(1), of ?f]
  note a0 = tstep_at [OF assms(1) u]
  obtain s1 L1 where 1: "pty_resume_pts_r k (upd_pty k ?f s) = Some s1" "tstep k (?f p) (upd_pty k ?f s) L s1 L1" "L1 (pts_readers k) = []"
    using pty_resume_step(3) [OF a0] by blast
  note a1 = tstep_at [OF a0 1(2)]
  obtain s2 L2 where 2: "pty_resume_pts_w k s1 = Some s2" "tstep k (?f p) s1 L1 s2 L2" "L2 (pts_writers k) = []" "still L1 L2"
    using pty_resume_step(4) [OF a1] by blast
  note a2 = tstep_at [OF a1 2(2)]
  have t: "tstep k (?f p) s L s2 L2" by (rule tstep_trans [OF u tstep_trans [OF 1(2) 2(2)]])
  have r: "L2 (pts_readers k) = []" using 1(3) 2(4) by (simp add: still_def)
  obtain st where "fs_fso s2 i = (fs_fso s i)\<lparr>o_state := st\<rparr>" using t by (auto simp: tstep_def)
  then have ix: "o_index (fs_fso s2 i) = PTM_INDEX + int k" using assms(2) by simp
  have put: "pty_putfso i s = Some s2"
    using 1(1) 2(1) assms(1,2,4) m ix by (auto simp: pty_putfso_def at_term_def)
  obtain e s3 L3 where 3: "signal_raise SIGHUP s2 = Some (e, s3)" "tstep k (?f p) s2 L2 s3 L3"
    using signal_raise_step [OF a2, of c SIGHUP] t assms(5-7) by (auto simp: tstep_def)
  have "pts_read k n nd s2 = Some (RBytes [], s3)" using 3(1) a2 by (simp add: pts_read_def pts_hangup_def at_term_def)
  then show ?thesis using put a2 r 2(3) tstep_at [OF a2 3(2)] by blast
qed

text \<open>The terminal is freed with its last end.\<close>

lemma pty_putfso_last:
  assumes "k < PTY_MAX" and "pty_tab s k = Some p"
    and "o_index (fs_fso s i) = PTM_INDEX + int k \<and> pts_fso p = None \<or> o_index (fs_fso s i) = PTS_INDEX + int k \<and> ptm_fso p = None"
  shows "pty_putfso i s = Some (s\<lparr>pty_tab := (pty_tab s)(k := None)\<rparr>)"
proof -
  have "end_nr PTM_INDEX (PTM_INDEX + int k) = Some k" "end_nr PTS_INDEX (PTM_INDEX + int k) = None"
      "end_nr PTM_INDEX (PTS_INDEX + int k) = None" "end_nr PTS_INDEX (PTS_INDEX + int k) = Some k"
    using assms(1) by (simp_all add: end_nr_def)
  then show ?thesis using assms(2,3) by (elim disjE) (simp_all add: pty_putfso_def)
qed

text \<open>The names in the directory are the names that are looked up.\<close>

lemma digit_char:
  assumes "d < 10"
  shows "is_digit (char_of (48 + d))" "digit (char_of (48 + d)) = d"
  using assms by (simp_all add: is_digit_def digit_def of_char_of)

lemma pts_nr_digits:
  "pts_nr (''pts'' @ [x, y, z]) = (if is_digit x \<and> is_digit y \<and> is_digit z then Some (digit x * 100 + digit y * 10 + digit z) else None)"
  by (simp add: pts_nr_def nth_append)

lemma pts_nr_name:
  assumes "k < PTY_MAX"
  shows "pts_nr (pts_name k) = Some k"
proof -
  define a b where "a = k div 10 mod 10" and "b = k mod 10"
  have k: "a * 10 + b = k" "k div 100 mod 10 = 0" using assms by (simp_all add: a_def b_def)
  have "a < 10" "b < 10" by (simp_all add: a_def b_def)
  then show ?thesis
    unfolding pts_name_def pts_nr_digits a_def [symmetric] b_def [symmetric] k(2) using k(1) digit_char [of 0] by (simp add: digit_char)
qed

section \<open>Where the counts are wrong\<close>

text \<open>
  A write to the master in raw mode that must not wait and finds the input queue full subtracts what is left twice: it
  reports the number \<open>2 ^ 32 - n\<close> of bytes where nothing has been written.
\<close>

lemma ptm_write_full:
  assumes "at_term k p s L" and "\<not> on (tio p) ICANON" and "ptm_fso p \<noteq> None" and "in_count p = PTY_BUF" and "data \<noteq> []"
    and "length data < 2 ^ 32"
  shows "\<exists>s'. ptm_write k True ue (length data) data s = Some (Wrote (2 ^ 32 - length data), s')"
proof -
  let ?n = "length data"
  obtain c cs where d: "data = c # cs" using assms(5) by (cases data) auto
  have w: "written (left_over ?n ?n) ?n EZERO = Wrote (2 ^ 32 - ?n)" using d assms(6) by (simp add: written_def left_over_def Let_def)
  obtain s' where "ptm_end k (left_over ?n ?n) ?n EZERO s = Some (written (left_over ?n ?n) ?n EZERO, s')"
    using ptm_end_step [OF assms(1,3)] by blast
  then have "ptm_loop k True ue ?n False ?n data s = Some (Wrote (2 ^ 32 - ?n), s')"
    using d assms(1,2,4) w by (simp add: ptm_loop.simps [of k _ _ _ _ _ "c # cs"] at_term_def flag_on [of ICANON])
  then show ?thesis using d by (simp add: ptm_write_def)
qed

text \<open>A read from the slave that must not wait and finds no input succeeds with a count of 15, the number of \<^verbatim>\<open>EAGAIN\<close>.\<close>

lemma pts_read_no_delay:
  "pty_tab s k = Some p \<Longrightarrow> ptm_fso p \<noteq> None \<Longrightarrow> \<not> canon_intr p \<Longrightarrow> in_count p = 0 \<Longrightarrow> pts_read k n True s = Some (RCount 15, s)"
  by (auto simp: pts_read_def pts_hangup_def pts_wait_def)

section \<open>Examples\<close>

text \<open>Terminal 0 with both ends open (objects 8 and 9), as \<open>pty_getfso\<close> and the command \<^verbatim>\<open>PTY_UNLOCK\<close> leave it.\<close>

definition example_term :: pty where
  "example_term = zero_pty\<lparr>ptm_fso := Some 8, pts_fso := Some 9,
     tio := \<lparr>c_iflag = 0, c_oflag = 0, c_lflag = 31, c_cflag = 0, v_intr = 3, v_quit = 28, v_erase = 8, v_kill = 21, v_eof = 4, v_werase = 23,
       v_status = 20, v_reprint = 18\<rparr>\<rparr>"

definition example_pty :: ptstate where
  "example_pty = kstate.extend example_state
     \<lparr>fs_file = (\<lambda>_. zero_file), fs_fso = (\<lambda>_. zero_fso)(8 := zero_fso\<lparr>o_refcnt := 1, o_index := 3\<rparr>, 9 := zero_fso\<lparr>o_refcnt := 1, o_index := 67\<rparr>),
      fs_fso_high = 10, fs_fs = [], pty_tab = [0 \<mapsto> example_term], pty_mounted = True\<rparr>"

lemmas example_pty_defs = example_pty_def kstate.extend_def kstate.defs example_defs

lemma example_pty_at: "at_term 0 example_term example_pty example_queues" "curr example_pty = Some 0" "slot example_pty 0"
proof -
  have a: "alive example_pty = {0, 1, 2}" by (auto simp: alive_def example_pty_defs)
  have b: "sleeping example_pty = {2}" unfolding sleeping_def a by (auto simp: example_pty_defs)
  have "kinv example_pty example_queues" unfolding kinv_def kcore_def a b by (auto simp: tq_inv_def example_pty_defs)
  moreover have "poll_ok example_pty i" for i by (simp add: poll_ok_def example_pty_def kstate.extend_def zero_fso_def)
  ultimately show "at_term 0 example_term example_pty example_queues" by (simp add: at_term_def example_pty_def kstate.extend_def)
  show "curr example_pty = Some 0" "slot example_pty 0" by (simp_all add: example_pty_defs)
qed

lemma example_term_ok:
  "pty_ok example_term" "canon_line example_term = []" "in_data example_term = []" "out_data example_term = []"
  "ptm_fso example_term = Some 8" "pts_fso example_term = Some 9" "\<not> canon_intr example_term" "on (tio example_term) ICANON"
  by (simp_all add: example_term_def zero_pty_def pty_ok_def ring_ok_def canon_line_def in_data_def out_data_def ring_from_def on_def)

lemma example_tio:
  "v_intr (tio example_term) = 3" "v_quit (tio example_term) = 28" "v_erase (tio example_term) = 8" "v_kill (tio example_term) = 21"
  "v_eof (tio example_term) = 4" "v_reprint (tio example_term) = 18" "c_lflag (tio example_term) = 31"
  by (simp_all add: example_term_def)

lemma example_view: "view example_term = \<lparr>a_line = [], a_input = [], a_output = [], a_eot = False\<rparr>"
  by (simp add: view_def example_term_ok) (simp add: example_term_def zero_pty_def)

text \<open>Typing \<^verbatim>\<open>lx\<close>, erase, \<^verbatim>\<open>s\<close> and the end of the line.\<close>

theorem typed_line_read_witness:
  "\<exists>s1 s2. ptm_write 0 False EZERO 5 [108, 120, 8, 115, 10] example_pty = Some (Wrote 5, s1) \<and>
     pts_read 0 2 False s1 = Some (RBytes [108, 115], s2)"
proof -
  let ?cs = "[108, 120, 8, 115] :: 8 word list"
  have e: "edited (tio example_term) [] ?cs = [108, 115]" by (simp add: example_tio)
  have n: "length (?cs @ [10]) = 5" by simp
  show ?thesis
    using typed_line_read [OF example_pty_at(1) example_term_ok(1,8) _ _ example_term_ok(7,2,3), of ?cs "[108, 115, 10]" False EZERO 2 False]
    unfolding n e by (auto simp: example_term_ok(5,6) example_tio typable_def)
qed

theorem ptm_write_edits_witness:
  "\<exists>s1 p1. ptm_write 0 False EZERO 3 [108, 8, 10] example_pty = Some (Wrote 3, s1) \<and> pty_tab s1 0 = Some p1 \<and>
     in_data p1 = [10] \<and> out_data p1 = [108, 8, 32, 8, 10]"
proof -
  obtain s' L' p' where s': "ptm_write 0 False EZERO (length [108, 8, 10 :: 8 word]) [108, 8, 10] example_pty = Some (Wrote (length [108, 8, 10 :: 8 word]), s')"
      "at_term 0 p' s' L'" "view p' = fold (type_char (tio example_term)) [108, 8, 10] (view example_term)"
    using ptm_write_edits [OF example_pty_at(1) example_term_ok(1,8), of "[108, 8, 10]" False EZERO] example_term_ok(5) by auto
  have v: "fold (type_char (tio example_term)) [108, 8, 10] (view example_term) = \<lparr>a_line = [], a_input = [10], a_output = [108, 8, 32, 8, 10], a_eot = False\<rparr>"
    by (simp add: example_view example_tio type_char_def show_out_def on_def echoed_def wiped_def is_ctl_def Let_def)
  have "in_data p' = [10]" "out_data p' = [108, 8, 32, 8, 10]"
    using arg_cong [OF s'(3), of a_input] arg_cong [OF s'(3), of a_output] unfolding v by simp_all
  then show ?thesis using s'(1,2) by (auto simp: at_term_def numeral_3_eq_3)
qed

theorem output_read_witness:
  "\<exists>s1 s2. pts_write 0 False EZERO 3 [104, 105, 33] example_pty = Some (Wrote 3, s1) \<and>
     ptm_read 0 2 False s1 = Some (RBytes [104, 105], s2)"
  using output_read [OF example_pty_at(1) example_term_ok(1), of "[104, 105, 33]" False EZERO 2 False] example_term_ok(4-6)
  by (auto simp: numeral_3_eq_3)

theorem hang_up_witness:
  "\<exists>s1 s2. pty_putfso 8 example_pty = Some s1 \<and> pts_read 0 5 False s1 = Some (RBytes [], s2)"
  using hang_up [OF example_pty_at(1), of 8 0 5 False] example_pty_at(2,3) example_term_ok(6)
  by (auto simp: example_pty_def kstate.extend_def)

end
