(* ===== verification/Lib_String.thy ===== *)
theory Lib_String
  imports Kernel_Prelude "HOL-Library.Sublist"
begin

text \<open>
  The string functions of the C library (\<^verbatim>\<open>lib/string\<close>), which the kernel uses, too. The memory is a function from addresses to
  bytes; a pointer is an address, a null pointer is \<open>None\<close>. A loop that runs until a terminating zero may not end, so it is a partial function and \<open>None\<close> of the surrounding
  option is that it never returns. A \<^verbatim>\<open>char\<close> is signed: where it is compared with an \<^verbatim>\<open>int\<close> it is \<open>sint\<close> of the byte.
\<close>

type_synonym cmem = "nat \<Rightarrow> 8 word"

section \<open>Areas of memory\<close>

fun memcpy :: "nat \<Rightarrow> nat \<Rightarrow> nat \<Rightarrow> cmem \<Rightarrow> cmem" where
  "memcpy d s 0 m = m"
| "memcpy d s (Suc n) m = memcpy (d + 1) (s + 1) n (m(d := m s))"

text \<open>\<open>d\<close> and \<open>s\<close> are the pointers of the loop, which start at the ends.\<close>

fun rev_loop :: "nat \<Rightarrow> nat \<Rightarrow> nat \<Rightarrow> cmem \<Rightarrow> cmem" where
  "rev_loop d s 0 m = m"
| "rev_loop d s (Suc n) m = rev_loop (d - 1) (s - 1) n (m(d - 1 := m (s - 1)))"

definition memcpy_rev :: "nat \<Rightarrow> nat \<Rightarrow> nat \<Rightarrow> cmem \<Rightarrow> cmem" where
  "memcpy_rev dest src n m = rev_loop (dest + n) (src + n) n m"

definition memmove :: "nat \<Rightarrow> nat \<Rightarrow> nat \<Rightarrow> cmem \<Rightarrow> cmem" where
  "memmove dest src n m = (if dest < src then memcpy dest src n m else memcpy_rev dest src n m)"

fun set_loop :: "nat \<Rightarrow> 8 word \<Rightarrow> nat \<Rightarrow> cmem \<Rightarrow> cmem" where
  "set_loop p c 0 m = m"
| "set_loop p c (Suc n) m = set_loop (p + 1) c n (m(p := c))"

definition memset :: "nat \<Rightarrow> int \<Rightarrow> nat \<Rightarrow> cmem \<Rightarrow> cmem" where
  "memset s c n m = set_loop s (word_of_int c) n m"

definition bcopy :: "nat \<Rightarrow> nat \<Rightarrow> nat \<Rightarrow> cmem \<Rightarrow> cmem" where
  "bcopy s d len m = memcpy d s len m"

definition bzero :: "nat \<Rightarrow> nat \<Rightarrow> cmem \<Rightarrow> cmem" where
  "bzero p len m = memset p 0 len m"

fun memcmp :: "nat \<Rightarrow> nat \<Rightarrow> nat \<Rightarrow> cmem \<Rightarrow> int" where
  "memcmp p q 0 m = 0"
| "memcmp p q (Suc n) m = (if m p < m q then -1 else if m p > m q then 1 else memcmp (p + 1) (q + 1) n m)"

text \<open>\<^verbatim>\<open>p\<close> is the pointer of the loop; what is returned is \<^verbatim>\<open>s\<close>.\<close>

fun chr_loop :: "nat \<Rightarrow> nat \<Rightarrow> int \<Rightarrow> nat \<Rightarrow> cmem \<Rightarrow> nat option" where
  "chr_loop s p c 0 m = None"
| "chr_loop s p c (Suc n) m = (if sint (m p) = c then Some s else chr_loop s (p + 1) c n m)"

definition memchr :: "nat \<Rightarrow> int \<Rightarrow> nat \<Rightarrow> cmem \<Rightarrow> nat option" where
  "memchr s c n m = chr_loop s s c n m"

fun memccpy :: "nat \<Rightarrow> nat \<Rightarrow> nat \<Rightarrow> nat \<Rightarrow> cmem \<Rightarrow> nat option \<times> cmem" where
  "memccpy d s c 0 m = (None, m)"
| "memccpy d s c (Suc n) m =
     (let m1 = m(d := m s) in if c = unat (m1 d) then (Some d, m1) else memccpy (d + 1) (s + 1) c n m1)"

section \<open>Strings\<close>

partial_function (option) len_loop :: "nat \<Rightarrow> nat \<Rightarrow> cmem \<Rightarrow> nat option" where
  "len_loop s i m = (if m (s + i) \<noteq> 0 then len_loop s (i + 1) m else Some i)"

definition strlen :: "nat \<Rightarrow> cmem \<Rightarrow> nat option" where
  "strlen s m = len_loop s 0 m"

partial_function (option) cpy_loop :: "nat \<Rightarrow> nat \<Rightarrow> cmem \<Rightarrow> cmem option" where
  "cpy_loop d s m = (let m1 = m(d := m s) in if m s \<noteq> 0 then cpy_loop (d + 1) (s + 1) m1 else Some m1)"

definition strcpy :: "nat \<Rightarrow> nat \<Rightarrow> cmem \<Rightarrow> cmem option" where
  "strcpy dest src m = cpy_loop dest src m"

definition strcat :: "nat \<Rightarrow> nat \<Rightarrow> cmem \<Rightarrow> cmem option" where
  "strcat dest src m = do { l \<leftarrow> strlen dest m; strcpy (dest + l) src m }"

fun ncpy_loop :: "nat \<Rightarrow> nat \<Rightarrow> nat \<Rightarrow> cmem \<Rightarrow> cmem" where
  "ncpy_loop d s 0 m = m"
| "ncpy_loop d s (Suc n) m =
     (let m1 = m(d := m s) in if m1 s = 0 then memset d 0 (Suc n) m1 else ncpy_loop (d + 1) (s + 1) n m1)"

definition strncpy :: "nat \<Rightarrow> nat \<Rightarrow> nat \<Rightarrow> cmem \<Rightarrow> cmem" where
  "strncpy dest src n m = ncpy_loop dest src n m"

definition strncat :: "nat \<Rightarrow> nat \<Rightarrow> nat \<Rightarrow> cmem \<Rightarrow> cmem option" where
  "strncat dest src n m = do { l \<leftarrow> strlen dest m; Some (strncpy (dest + l) src n m) }"

partial_function (option) strcmp :: "nat \<Rightarrow> nat \<Rightarrow> cmem \<Rightarrow> int option" where
  "strcmp p q m = (if m p < m q then Some (-1) else if m p > m q then Some 1 else if m p = 0 then Some 0 else strcmp (p + 1) (q + 1) m)"

fun strncmp :: "nat \<Rightarrow> nat \<Rightarrow> nat \<Rightarrow> cmem \<Rightarrow> int" where
  "strncmp p q 0 m = 0"
| "strncmp p q (Suc n) m = (if m p < m q then -1 else if m p > m q then 1 else if m p = 0 then 0 else strncmp (p + 1) (q + 1) n m)"

text \<open>The result inside is the pointer, \<open>None\<close> the null pointer.\<close>

partial_function (option) strchr :: "nat \<Rightarrow> int \<Rightarrow> cmem \<Rightarrow> nat option option" where
  "strchr s c m = (if sint (m s) = c then Some (Some s) else if m s = 0 then Some None else strchr (s + 1) c m)"

partial_function (option) rchr_loop :: "nat \<Rightarrow> int \<Rightarrow> nat option \<Rightarrow> cmem \<Rightarrow> (nat option \<times> nat) option" where
  "rchr_loop p c cp m = (if m p = 0 then Some (cp, p) else rchr_loop (p + 1) c (if sint (m p) = c then Some p else cp) m)"

definition strrchr :: "nat \<Rightarrow> int \<Rightarrow> cmem \<Rightarrow> nat option option" where
  "strrchr s c m = do { (cp, p) \<leftarrow> rchr_loop s c None m; Some (if c = 0 then Some p else cp) }"

partial_function (option) spn_loop :: "bool \<Rightarrow> nat \<Rightarrow> nat \<Rightarrow> nat \<Rightarrow> cmem \<Rightarrow> nat option" where
  "spn_loop stop s cs i m =
     (if m (s + i) = 0 then Some i
      else do {
        r \<leftarrow> strchr cs (sint (m (s + i))) m;
        if (r \<noteq> None) = stop then Some i else spn_loop stop s cs (i + 1) m
      })"

definition strspn :: "nat \<Rightarrow> nat \<Rightarrow> cmem \<Rightarrow> nat option" where
  "strspn s accept m = spn_loop False s accept 0 m"

definition strcspn :: "nat \<Rightarrow> nat \<Rightarrow> cmem \<Rightarrow> nat option" where
  "strcspn s reject m = spn_loop True s reject 0 m"

definition strpbrk :: "nat \<Rightarrow> nat \<Rightarrow> cmem \<Rightarrow> nat option option" where
  "strpbrk s accept m = do { i \<leftarrow> spn_loop True s accept 0 m; Some (if m (s + i) = 0 then None else Some (s + i)) }"

partial_function (option) str_loop :: "nat \<Rightarrow> nat \<Rightarrow> nat option \<Rightarrow> cmem \<Rightarrow> nat option option" where
  "str_loop t len p m =
     (case p of
        None \<Rightarrow> Some None
      | Some p \<Rightarrow>
          if strncmp p t len m = 0 then Some (Some p)
          else do { r \<leftarrow> strchr (p + 1) (sint (m t)) m; str_loop t len r m })"

definition strstr :: "nat \<Rightarrow> nat \<Rightarrow> cmem \<Rightarrow> nat option option" where
  "strstr s t m = do {
     len \<leftarrow> strlen t m;
     if len = 0 then Some (Some s) else str_loop t len (Some s) m
   }"

partial_function (option) skip_loop :: "nat \<Rightarrow> nat \<Rightarrow> cmem \<Rightarrow> nat option" where
  "skip_loop p delim m =
     (if m p = 0 then Some p
      else do {
        r \<leftarrow> strchr delim (sint (m p)) m;
        if r = None then Some p else skip_loop (p + 1) delim m
      })"

text \<open>\<open>tp\<close> is the static variable \<^verbatim>\<open>strtok_p\<close>; it is returned with the result and the memory.\<close>

definition strtok :: "nat option \<Rightarrow> nat \<Rightarrow> nat \<Rightarrow> cmem \<Rightarrow> (nat option \<times> nat \<times> cmem) option" where
  "strtok s delim tp m = do {
     let tp0 = (case s of Some p \<Rightarrow> p | None \<Rightarrow> tp);
     r \<leftarrow> skip_loop tp0 delim m;
     if m r = 0 then Some (None, r, m)
     else do {
       l \<leftarrow> strcspn r delim m;
       if m (r + l) \<noteq> 0 then Some (Some r, r + l + 1, m(r + l := 0)) else Some (Some r, r + l, m)
     }
   }"

section \<open>Copying areas\<close>

text \<open>The memory with \<open>n\<close> bytes from \<open>s\<close> at \<open>d\<close>.\<close>

definition copied :: "nat \<Rightarrow> nat \<Rightarrow> nat \<Rightarrow> cmem \<Rightarrow> cmem" where
  "copied d s n m = (\<lambda>a. if d \<le> a \<and> a < d + n then m (s + (a - d)) else m a)"

lemma memcpy_copied:
  assumes "d \<le> s \<or> s + n \<le> d"
  shows "memcpy d s n m = copied d s n m"
  using assms
proof (induction n arbitrary: d s m)
  case 0
  show ?case by (auto simp: copied_def fun_eq_iff)
next
  case (Suc n)
  have "memcpy (d + 1) (s + 1) n (m(d := m s)) = copied (d + 1) (s + 1) n (m(d := m s))" by (rule Suc.IH) (use Suc.prems in auto)
  also have "\<dots> = copied d s (Suc n) m"
  proof
    fix a
    show "copied (d + 1) (s + 1) n (m(d := m s)) a = copied d s (Suc n) m a"
      using Suc.prems by (cases "a = d") (auto simp: copied_def Suc_diff_Suc)
  qed
  finally show ?case by simp
qed

lemma rev_loop_copied:
  assumes "s \<le> d"
  shows "rev_loop (d + n) (s + n) n m = copied d s n m"
  using assms
proof (induction n arbitrary: m)
  case 0
  show ?case by (auto simp: copied_def fun_eq_iff)
next
  case (Suc n)
  have "rev_loop (d + n) (s + n) n (m(d + n := m (s + n))) = copied d s n (m(d + n := m (s + n)))" by (rule Suc.IH [OF Suc.prems])
  also have "\<dots> = copied d s (Suc n) m"
  proof
    fix a
    show "copied d s n (m(d + n := m (s + n))) a = copied d s (Suc n) m a"
      using Suc.prems by (cases "a = d + n") (auto simp: copied_def)
  qed
  finally show ?case by simp
qed

text \<open>
  \<^verbatim>\<open>memmove\<close> copies correctly whether or not the two areas overlap: afterwards the destination holds the bytes that the source held
  before, and nothing else has changed.
\<close>

theorem memmove_copies: "memmove d s n m = copied d s n m"
  using memcpy_copied [of d s n m] rev_loop_copied [of s d n m] by (simp add: memmove_def memcpy_rev_def)

lemma set_loop_fills: "set_loop p c n m = (\<lambda>a. if p \<le> a \<and> a < p + n then c else m a)"
  by (induction n arbitrary: p m) (auto simp: fun_eq_iff)

section \<open>Strings in memory\<close>

fun cstr :: "cmem \<Rightarrow> nat \<Rightarrow> 8 word list \<Rightarrow> bool" where
  "cstr m p [] \<longleftrightarrow> m p = 0"
| "cstr m p (x # xs) \<longleftrightarrow> m p = x \<and> x \<noteq> 0 \<and> cstr m (Suc p) xs"

lemma cstr_drop: "cstr m p xs \<Longrightarrow> k \<le> length xs \<Longrightarrow> cstr m (p + k) (drop k xs)"
proof (induction xs arbitrary: p k)
  case (Cons x xs)
  then show ?case using Cons.IH [of "Suc p" "k - 1"] by (cases k) auto
qed simp

lemma cstr_nth: "cstr m p xs \<Longrightarrow> i < length xs \<Longrightarrow> m (p + i) = xs ! i"
proof (induction xs arbitrary: p i)
  case (Cons x xs)
  then show ?case using Cons.IH [of "Suc p" "i - 1"] by (cases i) auto
qed simp

lemma cstr_end: "cstr m p xs \<Longrightarrow> m (p + length xs) = 0"
  using cstr_drop [of m p xs "length xs"] by simp

lemma cstr_no_zero: "cstr m p xs \<Longrightarrow> 0 \<notin> set xs"
  by (induction xs arbitrary: p) auto

lemma cstr_cong: "(\<And>i. i \<le> length xs \<Longrightarrow> m' (p + i) = m (p + i)) \<Longrightarrow> cstr m' p xs = cstr m p xs"
proof (induction xs arbitrary: p)
  case Nil
  then show ?case using Nil [of 0] by simp
next
  case (Cons x xs)
  have "cstr m' (Suc p) xs = cstr m (Suc p) xs"
  proof (rule Cons.IH)
    fix i assume "i \<le> length xs"
    then show "m' (Suc p + i) = m (Suc p + i)" using Cons.prems [of "Suc i"] by simp
  qed
  then show ?case using Cons.prems [of 0] by simp
qed

lemma strlen_length: "cstr m s xs \<Longrightarrow> strlen s m = Some (length xs)"
proof -
  have "len_loop s i m = Some (i + length xs)" if "cstr m (s + i) xs" for i
    using that
  proof (induction xs arbitrary: i)
    case (Cons x xs)
    then show ?case using Cons.IH [of "i + 1"] by (subst len_loop.simps) simp
  qed (subst len_loop.simps, simp)
  then show "cstr m s xs \<Longrightarrow> strlen s m = Some (length xs)" by (simp add: strlen_def)
qed

lemma strcpy_copied:
  assumes "cstr m s xs" and "d + length xs < s \<or> s + length xs < d"
  shows "strcpy d s m = Some (copied d s (length xs + 1) m)"
proof -
  have "cpy_loop d s m = Some (memcpy d s (length xs + 1) m)" using assms
  proof (induction xs arbitrary: d s m)
    case (Cons x xs)
    have "cstr (m(d := m s)) (Suc s) xs = cstr m (Suc s) xs" by (rule cstr_cong) (use Cons.prems(2) in auto)
    then have "cpy_loop (d + 1) (s + 1) (m(d := m s)) = Some (memcpy (d + 1) (s + 1) (length xs + 1) (m(d := m s)))"
      using Cons.prems by (intro Cons.IH) (auto simp del: fun_upd_apply)
    then show ?case using Cons.prems(1) by (subst cpy_loop.simps) (simp add: Let_def)
  qed (subst cpy_loop.simps, simp add: Let_def)
  then show ?thesis using memcpy_copied [of d s "length xs + 1" m] assms(2) by (auto simp: strcpy_def)
qed

lemma copied_cstr: "cstr m s xs \<Longrightarrow> cstr (copied d s (length xs + 1) m) d xs"
proof -
  assume c: "cstr m s xs"
  have "cstr m' d xs" if "\<And>i. i \<le> length xs \<Longrightarrow> m' (d + i) = m (s + i)" for m'
    using c that
  proof (induction xs arbitrary: s d)
    case Nil
    then show ?case using Nil(2) [of 0] by simp
  next
    case (Cons x xs)
    have "cstr m' (Suc d) xs"
    proof (rule Cons.IH)
      show "cstr m (Suc s) xs" using Cons.prems(1) by simp
      fix i assume "i \<le> length xs"
      then show "m' (Suc d + i) = m (Suc s + i)" using Cons.prems(2) [of "Suc i"] by simp
    qed
    then show ?case using Cons.prems(1) Cons.prems(2) [of 0] by simp
  qed
  then show ?thesis by (simp add: copied_def)
qed

text \<open>The result of \<^verbatim>\<open>strcmp\<close> is the lexicographic order of the bytes.\<close>

fun lex_sign :: "8 word list \<Rightarrow> 8 word list \<Rightarrow> int" where
  "lex_sign [] [] = 0"
| "lex_sign [] (y # ys) = -1"
| "lex_sign (x # xs) [] = 1"
| "lex_sign (x # xs) (y # ys) = (if x < y then -1 else if y < x then 1 else lex_sign xs ys)"

lemma strcmp_lex:
  assumes "cstr m p xs" and "cstr m q ys"
  shows "strcmp p q m = Some (lex_sign xs ys)"
  using assms
proof (induction xs ys arbitrary: p q rule: lex_sign.induct)
  case (4 x xs y ys)
  then show ?case by (subst strcmp.simps) auto
qed (subst strcmp.simps, auto simp: word_gt_0)+

lemma strncmp_take:
  assumes "cstr m p xs" and "cstr m q ys"
  shows "strncmp p q n m = lex_sign (take n xs) (take n ys)"
  using assms
proof (induction n arbitrary: p q xs ys)
  case (Suc n)
  then show ?case by (cases xs; cases ys) (auto simp: word_gt_0)
qed simp

lemma lex_sign_zero [simp]: "lex_sign xs ys = 0 \<longleftrightarrow> xs = ys"
  by (induction xs ys rule: lex_sign.induct) auto

lemma strncmp_prefix:
  assumes "cstr m p xs" and "cstr m q ys"
  shows "strncmp p q (length ys) m = 0 \<longleftrightarrow> prefix ys xs"
  using strncmp_take [OF assms, of "length ys"] take_is_prefix [of "length ys" xs] by (auto simp: prefix_def)

lemma sint_eq [simp]: "sint x = sint y \<longleftrightarrow> x = y" for x y :: "8 word"
  by (rule signed_word_eqI [THEN iffI]) simp_all

lemma strchr_first:
  assumes "cstr m s xs" and "c \<noteq> 0"
  shows "strchr s (sint c) m = Some (if c \<in> set xs then Some (s + length (takeWhile (\<lambda>x. x \<noteq> c) xs)) else None)"
  using assms
proof (induction xs arbitrary: s)
  case Nil
  then show ?case using sint_eq [of c 0] by (subst strchr.simps) auto
next
  case (Cons x xs)
  then show ?case by (subst strchr.simps) auto
qed

section \<open>Searching\<close>

lemma spn_loop_length:
  assumes "cstr m (s + i) xs" and "cstr m t cs"
  shows "spn_loop stop s t i m = Some (i + length (takeWhile (\<lambda>x. (x \<in> set cs) \<noteq> stop) xs))"
  using assms(1)
proof (induction xs arbitrary: i)
  case (Cons x xs)
  have "strchr t (sint x) m = Some (if x \<in> set cs then Some (t + length (takeWhile (\<lambda>y. y \<noteq> x) cs)) else None)"
    using strchr_first [OF assms(2), of x] Cons.prems by simp
  then show ?case using Cons.prems Cons.IH [of "i + 1"] by (subst spn_loop.simps) auto
qed (subst spn_loop.simps, simp)

lemma strspn_length:
  assumes "cstr m s xs" and "cstr m t cs"
  shows "strspn s t m = Some (length (takeWhile (\<lambda>x. x \<in> set cs) xs))" "strcspn s t m = Some (length (takeWhile (\<lambda>x. x \<notin> set cs) xs))"
  using spn_loop_length [of m s 0 xs t cs] assms by (simp_all add: strspn_def strcspn_def)

text \<open>The first position in \<open>xs\<close> at which \<open>ys\<close> occurs.\<close>

fun first_at :: "8 word list \<Rightarrow> 8 word list \<Rightarrow> nat option" where
  "first_at ys [] = (if ys = [] then Some 0 else None)"
| "first_at ys (x # xs) = (if prefix ys (x # xs) then Some 0 else map_option Suc (first_at ys xs))"

lemma first_at_None: "first_at ys xs = None \<longleftrightarrow> \<not> sublist ys xs"
  by (induction xs) (auto simp: sublist_Cons_right)

lemma first_at_Some:
  "first_at ys xs = Some i \<Longrightarrow> i \<le> length xs \<and> prefix ys (drop i xs) \<and> (\<forall>j < i. \<not> prefix ys (drop j xs))"
proof (induction xs arbitrary: i)
  case (Cons x xs)
  show ?case
  proof (cases "prefix ys (x # xs)")
    case True
    then show ?thesis using Cons.prems by simp
  next
    case False
    then obtain k where k: "first_at ys xs = Some k" "i = Suc k" using Cons.prems by auto
    have "\<not> prefix ys (drop j (x # xs))" if "j < i" for j
      using that Cons.IH [OF k(1)] k(2) False by (cases j) auto
    then show ?thesis using Cons.IH [OF k(1)] k(2) by auto
  qed
qed (auto split: if_splits)

lemma first_at_skip:
  assumes "\<forall>x \<in> set ws. x \<noteq> y"
  shows "first_at (y # ys) (ws @ xs) = map_option (\<lambda>i. length ws + i) (first_at (y # ys) xs)"
  using assms by (induction ws; cases "first_at (y # ys) xs") auto

lemma str_loop_first:
  assumes "cstr m p xs" and "xs \<noteq> []" and "cstr m t (y # ys)"
  shows "str_loop t (length (y # ys)) (Some p) m = Some (map_option (\<lambda>i. p + i) (first_at (y # ys) xs))"
  using assms(1,2)
proof (induction "length xs" arbitrary: p xs rule: less_induct)
  case less
  obtain x zs where xs: "xs = x # zs" using less.prems(2) by (cases xs) auto
  have z: "cstr m (p + 1) zs" using less.prems(1) xs by simp
  have y: "m t = y" "y \<noteq> 0" using assms(3) by auto
  show ?case
  proof (cases "prefix (y # ys) xs")
    case True
    then show ?thesis using strncmp_prefix [OF less.prems(1) assms(3)] xs by (subst str_loop.simps) simp
  next
    case False
    then have n: "strncmp p t (length (y # ys)) m \<noteq> 0" using strncmp_prefix [OF less.prems(1) assms(3)] by simp
    let ?w = "takeWhile (\<lambda>x. x \<noteq> y) zs"
    have s: "strchr (p + 1) (sint (m t)) m = Some (if y \<in> set zs then Some (p + 1 + length ?w) else None)"
      using strchr_first [OF z y(2)] y(1) by simp
    have f: "first_at (y # ys) xs = map_option Suc (first_at (y # ys) zs)" using False unfolding xs by auto
    show ?thesis
    proof (cases "y \<in> set zs")
      case True
      let ?r = "dropWhile (\<lambda>x. x \<noteq> y) zs"
      have r: "?r = drop (length ?w) zs" by (rule dropWhile_eq_drop)
      have ne: "?r \<noteq> []" using True by (auto simp: dropWhile_eq_Nil_conv)
      have c: "cstr m (p + 1 + length ?w) ?r" using cstr_drop [OF z length_takeWhile_le] r by simp
      have "length ?r < length xs" using xs length_dropWhile_le [of "\<lambda>x. x \<noteq> y" zs] by simp
      then have i: "str_loop t (length (y # ys)) (Some (p + 1 + length ?w)) m = Some (map_option (\<lambda>i. p + 1 + length ?w + i) (first_at (y # ys) ?r))"
        by (rule less.hyps [OF _ c ne])
      have "first_at (y # ys) zs = map_option (\<lambda>i. length ?w + i) (first_at (y # ys) ?r)"
        using first_at_skip [of ?w y ys ?r] set_takeWhileD [of _ "\<lambda>x. x \<noteq> y" zs] by (simp add: takeWhile_dropWhile_id)
      then show ?thesis
        using n s f i True by (subst str_loop.simps; cases "first_at (y # ys) ?r") auto
    next
      case False
      then have "first_at (y # ys) zs = None"
        unfolding first_at_None by (metis set_mono_sublist list.set_intros(1) subsetD)
      then show ?thesis using n s f False by (subst str_loop.simps) (simp add: str_loop.simps)
    qed
  qed
qed

text \<open>
  \<^verbatim>\<open>strstr\<close> finds the first occurrence: on a string that is not empty it ends for every pattern and returns the pointer to the
  smallest position at which the pattern stands, or the null pointer when the pattern is nowhere in the string.
\<close>

theorem strstr_first:
  assumes "cstr m s xs" and "cstr m t ys" and "xs \<noteq> []"
  shows "\<exists>r. strstr s t m = Some r \<and>
           (case r of
              None \<Rightarrow> \<not> sublist ys xs
            | Some p \<Rightarrow> s \<le> p \<and> p \<le> s + length xs \<and> prefix ys (drop (p - s) xs) \<and> (\<forall>j < p - s. \<not> prefix ys (drop j xs)))"
proof (cases ys)
  case Nil
  then show ?thesis using strlen_length [OF assms(2)] by (simp add: strstr_def)
next
  case (Cons y zs)
  have "strstr s t m = Some (map_option (\<lambda>i. s + i) (first_at ys xs))"
    using strlen_length [OF assms(2)] str_loop_first [OF assms(1,3)] assms(2) Cons by (simp add: strstr_def)
  then show ?thesis using first_at_None [of ys xs] first_at_Some [of ys xs] by (cases "first_at ys xs") auto
qed

section \<open>Tokens\<close>

lemma skip_loop_skips:
  assumes "cstr m p xs" and "cstr m d ds"
  shows "skip_loop p d m = Some (p + length (takeWhile (\<lambda>x. x \<in> set ds) xs))"
  using assms(1)
proof (induction xs arbitrary: p)
  case (Cons x xs)
  have "strchr d (sint x) m = Some (if x \<in> set ds then Some (d + length (takeWhile (\<lambda>y. y \<noteq> x) ds)) else None)"
    using strchr_first [OF assms(2), of x] Cons.prems by simp
  then show ?case using Cons.prems Cons.IH [of "p + 1"] by (subst skip_loop.simps) auto
qed (subst skip_loop.simps, simp)

lemma cstr_cut:
  assumes "cstr m p xs" and "k \<le> length xs"
  shows "cstr (m(p + k := 0)) p (take k xs)"
  using assms
proof (induction xs arbitrary: p k)
  case (Cons x xs)
  then show ?case using Cons.IH [of "Suc p" "k - 1"] by (cases k) auto
qed simp

text \<open>
  A call of \<^verbatim>\<open>strtok\<close> skips the delimiters at the start of the rest of the string and returns the longest piece without delimiters as a string of
  its own; what follows the delimiter after it is left for the next call, and the string of delimiters is untouched. When only
  delimiters are left it returns the null pointer and changes nothing.
\<close>

theorem strtok_next:
  assumes "cstr m p xs" and "cstr m d ds" and "d + length ds < p \<or> p + length xs < d"
    and "ys = dropWhile (\<lambda>x. x \<in> set ds) xs" and "tok = takeWhile (\<lambda>x. x \<notin> set ds) ys" and "q = (case s of None \<Rightarrow> tp | Some a \<Rightarrow> a)" and "q = p"
  shows "\<exists>r tp' m'. strtok s d tp m = Some (r, tp', m') \<and> cstr m' tp' (drop (length tok + 1) ys) \<and> cstr m' d ds \<and>
           (if ys = [] then r = None \<and> m' = m else \<exists>a. r = Some a \<and> tok \<noteq> [] \<and> cstr m' a tok)"
proof -
  let ?k = "length (takeWhile (\<lambda>x. x \<in> set ds) xs)"
  let ?r = "p + ?k"
  have skip: "skip_loop p d m = Some ?r" by (rule skip_loop_skips [OF assms(1,2)])
  have ys: "cstr m ?r ys" using cstr_drop [OF assms(1) length_takeWhile_le] assms(4) by (simp add: dropWhile_eq_drop)
  have len: "?k + length ys = length xs"
    using arg_cong [OF takeWhile_dropWhile_id [of "\<lambda>x. x \<in> set ds" xs], of length] unfolding assms(4) length_append .
  show ?thesis
  proof (cases ys)
    case Nil
    then have "m ?r = 0" using ys by simp
    then show ?thesis using skip Nil assms(2,5-7) by (auto simp: strtok_def split: option.splits)
  next
    case (Cons y zs)
    then have ne: "m ?r \<noteq> 0" "y \<notin> set ds" using ys assms(4) hd_dropWhile [of "\<lambda>x. x \<in> set ds" xs] by auto
    have tok: "tok \<noteq> []" "length tok \<le> length ys" using Cons ne(2) assms(5) length_takeWhile_le by auto
    have l: "strcspn ?r d m = Some (length tok)" using strspn_length(2) [OF ys assms(2)] assms(5) by simp
    have tk: "take (length tok) ys = tok" using assms(5) takeWhile_eq_take [of _ ys] by metis
    show ?thesis
    proof (cases "length tok = length ys")
      case True
      then have "m (?r + length tok) = 0" "tok = ys" using cstr_end [OF ys] tk by auto
      then have "strtok s d tp m = Some (Some ?r, ?r + length tok, m)" using skip ne l assms(6,7) by (auto simp: strtok_def split: option.splits)
      moreover have "cstr m (?r + length tok) (drop (length tok + 1) ys)" using \<open>m (?r + length tok) = 0\<close> True by simp
      ultimately show ?thesis using ys \<open>tok = ys\<close> tok(1) assms(2) Cons by auto
    next
      case False
      then have lt: "length tok < length ys" using tok(2) by simp
      let ?m = "m(?r + length tok := 0)"
      have "m (?r + length tok) \<noteq> 0"
        using cstr_nth [OF ys lt] cstr_no_zero [OF ys] nth_mem [OF lt] by metis
      then have st: "strtok s d tp m = Some (Some ?r, ?r + length tok + 1, ?m)" using skip ne l assms(6,7) by (auto simp: strtok_def split: option.splits)
      have "cstr ?m ?r tok" using cstr_cut [OF ys tok(2)] tk by simp
      moreover have "cstr ?m (?r + length tok + 1) (drop (length tok + 1) ys) = cstr m (?r + length tok + 1) (drop (length tok + 1) ys)"
        by (rule cstr_cong) simp
      then have "cstr ?m (?r + length tok + 1) (drop (length tok + 1) ys)" using cstr_drop [OF ys, of "length tok + 1"] lt by simp
      moreover have "cstr ?m d ds = cstr m d ds" by (rule cstr_cong) (use assms(3) lt len in auto)
      ultimately show ?thesis using st tok(1) assms(2) Cons by auto
    qed
  qed
qed

section \<open>Where the functions are wrong\<close>

text \<open>\<^verbatim>\<open>memchr\<close> returns its argument, not the position of the character.\<close>

lemma memchr_start: "memchr s c n m = Some p \<Longrightarrow> p = s"
proof -
  have "chr_loop s q c n m = Some p \<Longrightarrow> p = s" for q by (induction n arbitrary: q) (auto split: if_splits)
  then show "memchr s c n m = Some p \<Longrightarrow> p = s" by (simp add: memchr_def)
qed

text \<open>\<^verbatim>\<open>strncat\<close> does not terminate the string when the limit is reached: the byte behind the copied ones keeps its value.\<close>

lemma strncat_unterminated:
  assumes "cstr m d xs"
  shows "\<exists>m'. strncat d s n m = Some m' \<and> m' (d + length xs + n) = m (d + length xs + n)"
proof -
  have "a \<ge> e + n \<Longrightarrow> ncpy_loop e s n m a = m a" for a e s m
    by (induction n arbitrary: e s m) (auto simp: Let_def memset_def set_loop_fills)
  then show ?thesis using strlen_length [OF assms] by (simp add: strncat_def strncpy_def)
qed

text \<open>\<^verbatim>\<open>strstr\<close> on an empty string goes on behind its end.\<close>

lemma strstr_beyond:
  assumes "cstr m s []" and "cstr m (s + 1) ys" and "cstr m t ys" and "ys \<noteq> []"
  shows "strstr s t m = Some (Some (s + 1))"
proof -
  obtain y zs where y: "ys = y # zs" using assms(4) by (cases ys) auto
  have "m t = y" "y \<noteq> 0" using assms(3) y by auto
  then have c: "strchr (s + 1) (sint (m t)) m = Some (Some (s + 1))" using strchr_first [OF assms(2), of y] y by simp
  have "strncmp s t (length ys) m \<noteq> 0" using strncmp_prefix [OF assms(1,3)] y by simp
  moreover have "str_loop t (length ys) (Some (s + 1)) m = Some (Some (s + 1))"
    using str_loop_first [of m "s + 1" ys t y zs] assms(2,3) y by simp
  ultimately have "str_loop t (length ys) (Some s) m = Some (Some (s + 1))" using c by (subst str_loop.simps) simp
  then show ?thesis using strlen_length [OF assms(3)] y by (simp add: strstr_def)
qed

section \<open>Examples\<close>

text \<open>The strings \<^verbatim>\<open>banana\<close> at 10 and \<^verbatim>\<open>na\<close> at 20.\<close>

definition example_mem :: cmem where
  "example_mem = (\<lambda>_. 0)(10 := 98, 11 := 97, 12 := 110, 13 := 97, 14 := 110, 15 := 97, 20 := 110, 21 := 97)"

lemma example_cstr: "cstr example_mem 10 [98, 97, 110, 97, 110, 97]" "cstr example_mem 20 [110, 97]"
  by (simp_all add: example_mem_def)

theorem strstr_first_witness: "\<exists>r. strstr 10 20 example_mem = Some r \<and> r \<noteq> None"
proof -
  obtain r where r: "strstr 10 20 example_mem = Some r"
      "case r of None \<Rightarrow> \<not> sublist [110, 97] [98, 97, 110, 97, 110, 97 :: 8 word]
       | Some p \<Rightarrow> 10 \<le> p \<and> p \<le> 10 + length [98, 97, 110, 97, 110, 97 :: 8 word] \<and>
           prefix [110, 97] (drop (p - 10) [98, 97, 110, 97, 110, 97 :: 8 word]) \<and>
           (\<forall>j < p - 10. \<not> prefix [110, 97] (drop j [98, 97, 110, 97, 110, 97 :: 8 word]))"
    using strstr_first [OF example_cstr] by auto
  have "sublist [110, 97] [98, 97, 110, 97, 110, 97 :: 8 word]" by (simp add: sublist_Cons_right)
  then show ?thesis using r by (cases r) auto
qed

text \<open>The tokens of \<^verbatim>\<open>banana\<close> between \<^verbatim>\<open>n\<close> and \<^verbatim>\<open>a\<close>: the first one is \<^verbatim>\<open>b\<close>.\<close>

theorem strtok_next_witness: "\<exists>a tp' m'. strtok (Some 10) 20 0 example_mem = Some (Some a, tp', m') \<and> cstr m' a [98]"
proof -
  have t: "takeWhile (\<lambda>x. x \<notin> set [110, 97]) [98, 97, 110, 97, 110, 97] = [98 :: 8 word]"
    "dropWhile (\<lambda>x. x \<in> set [110, 97]) [98, 97, 110, 97, 110, 97] = [98, 97, 110, 97, 110, 97 :: 8 word]" by simp_all
  show ?thesis
    using strtok_next [OF example_cstr _ t(2) [symmetric] t(1) [symmetric], where s = "Some 10" and tp = 0 and q = 10] by auto
qed

end
