(* ===== verification/Lib_Time.thy ===== *)
theory Lib_Time
  imports Kernel_Prelude "HOL-Library.Signed_Division"
begin

text \<open>
  The calendar of the C library (\<^verbatim>\<open>lib/time.c\<close>): broken-down times, the conversions \<^verbatim>\<open>gmtime\<close> and \<^verbatim>\<open>mktime\<close>, the
  correction \<^verbatim>\<open>cltime\<close> and formatting. Years count from 1900 and months from 0, as in \<^verbatim>\<open>struct tm\<close>. The integers of
  the code are \<open>int\<close>: no operation leaves the range of its type on the times the theorems are about.

  A reference calendar counts the days of years and months one by one; \<^verbatim>\<open>mktime\<close> computes the same in
  closed form, and \<^verbatim>\<open>gmtime\<close> is its inverse from 1753 to 9999.
\<close>

section \<open>Broken-down times\<close>

record tm =
  tm_sec :: int
  tm_min :: int
  tm_hour :: int
  tm_year :: int
  tm_mon :: int
  tm_mday :: int
  tm_wday :: int
  tm_yday :: int
  tm_isdst :: int

abbreviation (input) YEAR_MIN :: int where "YEAR_MIN \<equiv> -147"
abbreviation (input) YEAR_MAX :: int where "YEAR_MAX \<equiv> 8099"

definition monthlen :: "int list" where
  "monthlen = [31, 28, 31, 30, 31, 30, 31, 31, 30, 31, 30, 31]"

definition monthacc :: "int list" where
  "monthacc = [0, 31, 59, 90, 120, 151, 181, 212, 243, 273, 304, 334]"

definition isleap :: "int \<Rightarrow> bool" where
  "isleap y \<longleftrightarrow> y smod 4 = 0 \<and> (y smod 100 \<noteq> 0 \<or> (y + 300) smod 400 = 0)"

definition yearsecs :: "int \<Rightarrow> int" where
  "yearsecs y = (365 + of_bool (isleap y)) * 86400"

definition monthdays :: "int \<Rightarrow> int \<Rightarrow> int" where
  "monthdays y m = (if isleap y \<and> m = 1 then monthlen ! nat m + 1 else monthlen ! nat m)"

definition monthsecs :: "int \<Rightarrow> int \<Rightarrow> int" where
  "monthsecs y m = monthdays y m * 86400"

section \<open>From seconds to broken-down times\<close>

text \<open>The loops over years; \<open>None\<close> is the null pointer that \<^verbatim>\<open>gmtime\<close> returns for a year it does not know.\<close>

function gm_down :: "int \<Rightarrow> int \<Rightarrow> (int \<times> int) option" where
  "gm_down t y =
     (if t < 0 then if y - 1 < YEAR_MIN then None else gm_down (t + yearsecs (y - 1)) (y - 1)
      else Some (t, y))"
  by pat_completeness auto
termination by (relation "measure (\<lambda>(t, y). nat (y - YEAR_MIN + 1))") auto

function gm_up :: "int \<Rightarrow> int \<Rightarrow> (int \<times> int) option" where
  "gm_up t y =
     (if t \<ge> yearsecs y then if y + 1 > YEAR_MAX then None else gm_up (t - yearsecs y) (y + 1)
      else Some (t, y))"
  by pat_completeness auto
termination by (relation "measure (\<lambda>(t, y). nat (YEAR_MAX + 1 - y))") auto

text \<open>The loop over months, with \<open>None\<close> for a month outside the table.\<close>

function gm_month :: "int \<Rightarrow> int \<Rightarrow> int \<Rightarrow> (int \<times> int) option" where
  "gm_month y t m =
     (if m < 0 \<or> m > 11 then None
      else if t \<ge> monthsecs y m then gm_month y (t - monthsecs y m) (m + 1)
      else Some (t, m))"
  by pat_completeness auto
termination by (relation "measure (\<lambda>(y, t, m). nat (12 - m))") auto

declare gm_down.simps [simp del] gm_up.simps [simp del] gm_month.simps [simp del]

text \<open>The result is \<open>None\<close> for an access outside a table and \<open>Some None\<close> for the null pointer.\<close>

definition gmtime :: "int \<Rightarrow> tm option option" where
  "gmtime time =
     (let t7 = time smod (86400 * 7);
          t7 = (if t7 < 0 then t7 + 86400 * 7 else t7)
      in case gm_down time 70 of
           None \<Rightarrow> Some None
         | Some (t, y) \<Rightarrow>
             (case gm_up t y of
                None \<Rightarrow> Some None
              | Some (t, y) \<Rightarrow> do {
                  (t', m) \<leftarrow> gm_month y t 0;
                  Some (Some \<lparr>tm_sec = t7 smod 60, tm_min = (t7 sdiv 60) smod 60, tm_hour = (t7 sdiv 3600) smod 24,
                    tm_year = y, tm_mon = m, tm_mday = t' sdiv 86400 + 1, tm_wday = (t7 sdiv 86400 + 4) smod 7,
                    tm_yday = t sdiv 86400, tm_isdst = -1\<rparr>)
                }))"

text \<open>The time zone of the library is the constant 0.\<close>

abbreviation (input) timezone :: int where "timezone \<equiv> 0"

definition localtime :: "int \<Rightarrow> tm option option" where
  "localtime time = gmtime (timezone + time)"

section \<open>From broken-down times to seconds\<close>

definition divrd :: "int \<Rightarrow> int \<Rightarrow> int" where
  "divrd a b = (if a < 0 then (a - b + 1) sdiv b else a sdiv b)"

definition mktime :: "tm \<Rightarrow> int" where
  "mktime time =
     (if tm_year time < YEAR_MIN \<or> tm_mon time < 0 \<or> tm_mday time < 0 \<or> tm_hour time < 0 \<or> tm_min time < 0 \<or> tm_sec time < 0 then -1
      else
        let y = tm_year time + tm_mon time sdiv 12;
            m = tm_mon time smod 12;
            t = (tm_mday time - 1) * 86400 + tm_hour time * 3600 + tm_min time * 60 + tm_sec time + monthacc ! nat m * 86400;
            ly = y + of_bool (m > 1)
        in t + 86400 * 365 * (y - 70) + 86400 * divrd (ly - 69) 4 - 86400 * divrd (ly - 1) 100 + 86400 * divrd (ly + 299) 400 - timezone)"

section \<open>Correcting a broken-down time\<close>

definition cl_day_end :: "tm \<Rightarrow> tm" where
  "cl_day_end t = t\<lparr>tm_hour := 23, tm_min := 59, tm_sec := 59\<rparr>"

definition cl_day_start :: "tm \<Rightarrow> tm" where
  "cl_day_start t = t\<lparr>tm_hour := 0, tm_min := 0, tm_sec := 0\<rparr>"

definition cltime :: "tm \<Rightarrow> tm" where
  "cltime t =
     (if tm_year t > YEAR_MAX then cl_day_end (t\<lparr>tm_year := YEAR_MAX, tm_mon := 11, tm_mday := monthdays YEAR_MAX 11\<rparr>)
      else if tm_year t < YEAR_MIN then
        \<lparr>tm_sec = 0, tm_min = 0, tm_hour = 0, tm_year = YEAR_MIN, tm_mon = 0, tm_mday = 1, tm_wday = 0, tm_yday = 0, tm_isdst = 0\<rparr>
      else if tm_mon t > 11 then cl_day_end (t\<lparr>tm_mon := 11, tm_mday := monthdays (tm_year t) 11\<rparr>)
      else if tm_mon t < 0 then cl_day_start (t\<lparr>tm_mon := 0, tm_mday := 1\<rparr>)
      else if tm_mday t > monthdays (tm_year t) (tm_mon t) then cl_day_end (t\<lparr>tm_mday := monthdays (tm_year t) (tm_mon t)\<rparr>)
      else if tm_mday t < 1 then cl_day_start (t\<lparr>tm_mday := 1\<rparr>)
      else if tm_hour t > 23 then cl_day_end t
      else if tm_hour t < 0 then cl_day_start t
      else if tm_min t > 59 then t\<lparr>tm_min := 59, tm_sec := 59\<rparr>
      else if tm_min t < 0 then t\<lparr>tm_min := 0, tm_sec := 0\<rparr>
      else if tm_sec t > 59 then t\<lparr>tm_sec := 59\<rparr>
      else if tm_sec t < 0 then t\<lparr>tm_sec := 0\<rparr>
      else t)"

section \<open>Formatting\<close>

definition wday_full :: "string list" where
  "wday_full = [''Sunday'', ''Monday'', ''Tuesday'', ''Wednesday'', ''Thursday'', ''Friday'', ''Saturday'']"

definition month_full :: "string list" where
  "month_full = [''January'', ''February'', ''March'', ''April'', ''May'', ''June'', ''July'', ''August'', ''September'', ''October'', ''November'', ''December'']"

definition wday_abbr :: "string list" where
  "wday_abbr = [''Sun'', ''Mon'', ''Tue'', ''Wed'', ''Thu'', ''Fri'', ''Sat'']"

definition month_abbr :: "string list" where
  "month_abbr = [''Jan'', ''Feb'', ''Mar'', ''Apr'', ''May'', ''Jun'', ''Jul'', ''Aug'', ''Sep'', ''Oct'', ''Nov'', ''Dec'']"

text \<open>An entry of a table, \<open>None\<close> outside it.\<close>

definition entry_of :: "string list \<Rightarrow> int \<Rightarrow> string option" where
  "entry_of xs i = (if 0 \<le> i \<and> i < int (length xs) then Some (xs ! nat i) else None)"

definition dig :: "int \<Rightarrow> char" where
  "dig n = char_of (nat ((48 + n) mod 256))"

text \<open>The last two, three, four decimal digits of a number, with a leading digit as it comes.\<close>

abbreviation (input) d2 :: "int \<Rightarrow> string" where "d2 n \<equiv> [dig (n sdiv 10), dig (n smod 10)]"
abbreviation (input) d2y :: "int \<Rightarrow> string" where "d2y n \<equiv> [dig ((n sdiv 10) smod 10), dig (n smod 10)]"
abbreviation (input) d4 :: "int \<Rightarrow> string" where
  "d4 n \<equiv> [dig ((n sdiv 1000) smod 10), dig ((n sdiv 100) smod 10), dig ((n sdiv 10) smod 10), dig (n smod 10)]"
abbreviation (input) d2nz :: "int \<Rightarrow> string" where
  "d2nz n \<equiv> [if n sdiv 10 \<noteq> 0 then dig (n sdiv 10) else CHR '' '', dig (n smod 10)]"

fun dec_nat :: "nat \<Rightarrow> string" where
  "dec_nat n = (if n < 10 then [] else dec_nat (n div 10)) @ [dig (int (n mod 10))]"

declare dec_nat.simps [simp del]

text \<open>The conversion \<^verbatim>\<open>%i\<close> of \<^verbatim>\<open>sprintf\<close>.\<close>

definition dec :: "int \<Rightarrow> string" where
  "dec n = (if n < 0 then CHR ''-'' # dec_nat (nat (- n)) else dec_nat (nat n))"

definition pad :: "char \<Rightarrow> nat \<Rightarrow> string \<Rightarrow> string" where
  "pad c w s = replicate (w - length s) c @ s"

definition asctime :: "tm \<Rightarrow> string option" where
  "asctime t = do {
     wd \<leftarrow> entry_of wday_abbr (tm_wday t);
     mo \<leftarrow> entry_of month_abbr (tm_mon t);
     Some (wd @ '' '' @ mo @ '' '' @ pad CHR '' '' 2 (dec (tm_mday t)) @ '' '' @ pad CHR ''0'' 2 (dec (tm_hour t)) @ '':'' @
       pad CHR ''0'' 2 (dec (tm_min t)) @ '':'' @ pad CHR ''0'' 2 (dec (tm_sec t)) @ '' '' @ dec (tm_year t + 1900) @ [CHR 0x0A])
   }"

definition ctime :: "int \<Rightarrow> string option option" where
  "ctime time = do {
     r \<leftarrow> localtime time;
     (case r of None \<Rightarrow> Some None | Some t \<Rightarrow> do { s \<leftarrow> asctime t; Some (Some s) })
   }"

text \<open>What a conversion of \<^verbatim>\<open>strftime\<close> puts out; the conversions for the number of the week are not implemented by the code.\<close>

definition locale_date :: "tm \<Rightarrow> string" where
  "locale_date t = d4 (tm_year t + 1900) @ ''-'' @ d2 (tm_mon t + 1) @ ''-'' @ d2 (tm_mday t)"

definition locale_time :: "tm \<Rightarrow> string" where
  "locale_time t = d2 (tm_hour t) @ '':'' @ d2 (tm_min t) @ '':'' @ d2 (tm_sec t)"

definition h12 :: "tm \<Rightarrow> int" where
  "h12 t = (tm_hour t + 11) smod 12 + 1"

definition conv :: "tm \<Rightarrow> char \<Rightarrow> string option" where
  "conv t c =
     (if c = CHR ''A'' then entry_of wday_full (tm_wday t)
      else if c = CHR ''a'' then entry_of wday_abbr (tm_wday t)
      else if c = CHR ''B'' then entry_of month_full (tm_mon t)
      else if c = CHR ''b'' \<or> c = CHR ''h'' then entry_of month_abbr (tm_mon t)
      else Some
       (if c = CHR ''c'' then locale_date t @ '' '' @ locale_time t
        else if c = CHR ''C'' then take 2 (d4 (tm_year t + 1900))
        else if c = CHR ''d'' then d2 (tm_mday t)
        else if c = CHR ''D'' then d2 (tm_mon t + 1) @ ''/'' @ d2 (tm_mday t) @ ''/'' @ d2y (tm_year t + 1900)
        else if c = CHR ''e'' then d2nz (tm_mday t)
        else if c = CHR ''F'' \<or> c = CHR ''x'' then locale_date t
        else if c = CHR ''G'' \<or> c = CHR ''Y'' then d4 (tm_year t + 1900)
        else if c = CHR ''g'' \<or> c = CHR ''y'' then d2y (tm_year t + 1900)
        else if c = CHR ''H'' then d2 (tm_hour t)
        else if c = CHR ''I'' then d2 (h12 t)
        else if c = CHR ''j'' then [dig ((tm_yday t + 1) sdiv 100), dig (((tm_yday t + 1) sdiv 10) smod 10), dig ((tm_yday t + 1) smod 10)]
        else if c = CHR ''k'' then d2nz (tm_hour t)
        else if c = CHR ''l'' then d2nz (h12 t)
        else if c = CHR ''m'' then d2 (tm_mon t + 1)
        else if c = CHR ''M'' then d2 (tm_min t)
        else if c = CHR ''n'' then [CHR 0x0A]
        else if c = CHR ''p'' then (if tm_hour t < 12 then ''AM'' else ''PM'')
        else if c = CHR ''P'' then (if tm_hour t < 12 then ''am'' else ''pm'')
        else if c = CHR ''r'' then d2 (h12 t) @ '':'' @ d2 (tm_min t) @ '':'' @ d2 (tm_sec t) @ '' '' @ (if tm_hour t < 12 then ''AM'' else ''PM'')
        else if c = CHR ''R'' then d2 (tm_hour t) @ '':'' @ d2 (tm_min t)
        else if c = CHR ''s'' then dec (mktime t)
        else if c = CHR ''S'' then d2 (tm_sec t)
        else if c = CHR ''t'' then [CHR 0x09]
        else if c = CHR ''T'' \<or> c = CHR ''X'' then locale_time t
        else if c = CHR ''u'' then [dig (1 + (tm_wday t + 6) smod 7)]
        else if c = CHR ''U'' \<or> c = CHR ''V'' \<or> c = CHR ''W'' then ''??''
        else if c = CHR ''w'' then [dig (tm_wday t)]
        else if c = CHR ''z'' then ''+00''
        else if c = CHR ''Z'' then ''GMT''
        else [c]))"

text \<open>The macros \<^verbatim>\<open>PUTC\<close> and \<^verbatim>\<open>PUTS\<close>; \<open>Inl\<close> is their \<^verbatim>\<open>return 0\<close>, with what has been stored.\<close>

fun puts_to :: "nat \<Rightarrow> string \<Rightarrow> string \<Rightarrow> string + string" where
  "puts_to mx [] out = Inr out"
| "puts_to mx (c # cs) out = (if length out + 1 < mx then puts_to mx cs (out @ [c]) else Inl out)"

text \<open>The modifiers \<^verbatim>\<open>E\<close> and \<^verbatim>\<open>O\<close> are skipped; a format that ends here is read beyond its end.\<close>

fun skip_alt :: "string \<Rightarrow> (char \<times> string) option" where
  "skip_alt [] = None"
| "skip_alt (c # cs) = (if c = CHR ''O'' \<or> c = CHR ''E'' then skip_alt cs else Some (c, cs))"

lemma skip_alt_shorter: "skip_alt fmt = Some (c, fmt') \<Longrightarrow> length fmt' < length fmt"
  by (induction fmt) (auto split: if_splits)

function strftime_loop :: "nat \<Rightarrow> tm \<Rightarrow> string \<Rightarrow> string \<Rightarrow> (string + string) option" where
  "strftime_loop mx t [] out = Some (Inr out)"
| "strftime_loop mx t (c # fmt) out =
     (if c = CHR ''%'' then
        (case skip_alt fmt of
           None \<Rightarrow> None
         | Some (d, fmt') \<Rightarrow> do {
             s \<leftarrow> conv t d;
             (case puts_to mx s out of Inl out' \<Rightarrow> Some (Inl out') | Inr out' \<Rightarrow> strftime_loop mx t fmt' out')
           })
      else (case puts_to mx [c] out of Inl out' \<Rightarrow> Some (Inl out') | Inr out' \<Rightarrow> strftime_loop mx t fmt out'))"
  by pat_completeness auto
termination by (relation "measure (\<lambda>(mx, t, fmt, out). length fmt)") (auto dest: skip_alt_shorter)

text \<open>The result and the characters stored at \<^verbatim>\<open>s\<close>, with the terminating zero when the format has been processed.\<close>

definition strftime :: "nat \<Rightarrow> string \<Rightarrow> tm \<Rightarrow> (nat \<times> string) option" where
  "strftime mx fmt t = do {
     r \<leftarrow> strftime_loop mx t fmt [];
     Some (case r of
        Inl out \<Rightarrow> (0, out)
      | Inr out \<Rightarrow> (if length out < mx then length out else 0, out @ [CHR 0x00]))
   }"

section \<open>A calendar that counts\<close>

text \<open>The days of the year before a month, and the days from the start of 1970 to the start of a year.\<close>

definition days_before :: "int \<Rightarrow> int \<Rightarrow> int" where
  "days_before y m = (\<Sum>i = 0..<m. monthdays y i)"

definition year_days :: "int \<Rightarrow> int" where
  "year_days y = 365 + of_bool (isleap y)"

definition year_start :: "int \<Rightarrow> int" where
  "year_start y = (if y \<ge> 70 then \<Sum>i = 70..<y. year_days i else - (\<Sum>i = y..<70. year_days i))"

definition seconds :: "tm \<Rightarrow> int" where
  "seconds t = (year_start (tm_year t) + days_before (tm_year t) (tm_mon t) + tm_mday t - 1) * 86400 + tm_hour t * 3600 + tm_min t * 60 + tm_sec t"

text \<open>Broken-down times that mean a second of the calendar.\<close>

definition tm_valid :: "tm \<Rightarrow> bool" where
  "tm_valid t \<longleftrightarrow> YEAR_MIN \<le> tm_year t \<and> tm_year t \<le> YEAR_MAX \<and> 0 \<le> tm_mon t \<and> tm_mon t \<le> 11 \<and>
     1 \<le> tm_mday t \<and> tm_mday t \<le> monthdays (tm_year t) (tm_mon t) \<and> 0 \<le> tm_hour t \<and> tm_hour t \<le> 23 \<and>
     0 \<le> tm_min t \<and> tm_min t \<le> 59 \<and> 0 \<le> tm_sec t \<and> tm_sec t \<le> 59"

text \<open>The day of the week and the day of the year go with the date.\<close>

definition tm_normal :: "tm \<Rightarrow> bool" where
  "tm_normal t \<longleftrightarrow> tm_wday t = (seconds t div 86400 + 4) mod 7 \<and> tm_yday t = days_before (tm_year t) (tm_mon t) + tm_mday t - 1 \<and> tm_isdst t = -1"

lemma isleap_dvd: "isleap y \<longleftrightarrow> 4 dvd y \<and> (\<not> 100 dvd y \<or> 400 dvd y + 300)"
proof -
  have "a smod b = 0 \<longleftrightarrow> b dvd a" if "b > 0" for a b :: int
  proof (cases "a \<ge> 0")
    case False
    have "(- a) mod b = 0 \<longleftrightarrow> b dvd a" using dvd_minus_iff [of b a] by (simp only: dvd_eq_mod_eq_0)
    then show ?thesis using that False by (simp add: smod_int_alt_def sgn_if)
  qed (use that in \<open>simp add: smod_int_alt_def sgn_if dvd_eq_mod_eq_0\<close>)
  then show ?thesis by (simp add: isleap_def)
qed

lemma sum_up: "a \<le> b \<Longrightarrow> (\<Sum>i = a..<b + 1. f i) = (\<Sum>i = a..<b. f i) + f b" for a b :: int and f :: "int \<Rightarrow> int"
proof -
  assume "a \<le> b"
  then have "{a..<b + 1} = insert b {a..<b}" by auto
  then show ?thesis by simp
qed

lemma sum_down: "a < b \<Longrightarrow> (\<Sum>i = a..<b. f i) = f a + (\<Sum>i = a + 1..<b. f i)" for a b :: int and f :: "int \<Rightarrow> int"
proof -
  assume "a < b"
  then have "{a..<b} = insert a {a + 1..<b}" by auto
  then show ?thesis by simp
qed

lemma year_start_step: "year_start (y + 1) = year_start y + year_days y"
proof (cases "y \<ge> 70")
  case True
  then show ?thesis using sum_up [of 70 y year_days] by (simp add: year_start_def)
next
  case False
  then show ?thesis using sum_down [of y 70 year_days] by (auto simp: year_start_def)
qed

lemma year_start_70 [simp]: "year_start 70 = 0"
  by (simp add: year_start_def)

lemma divrd_div: "b > 0 \<Longrightarrow> divrd a b = a div b"
proof (cases "a < 0")
  case True
  assume b: "b > 0"
  have "(a - b + 1) sdiv b = - ((b - 1 - a) div b)" using True b by (auto simp: signed_divide_int_def sgn_if abs_if algebra_simps)
  also have "\<dots> = a div b"
  proof -
    have "b - 1 - a = b * (- (a div b)) + (b - 1 - a mod b)" using div_mult_mod_eq [of a b] by (simp add: algebra_simps)
    moreover have "0 \<le> b - 1 - a mod b" "b - 1 - a mod b < b" using b pos_mod_sign [of b a] pos_mod_bound [of b a] by linarith+
    ultimately have "(b - 1 - a) div b = - (a div b)" by (rule int_div_pos_eq)
    then show ?thesis by simp
  qed
  finally show ?thesis using True by (simp add: divrd_def)
qed (auto simp: divrd_def signed_divide_int_def sgn_if)

lemma div_step: "b > 0 \<Longrightarrow> (x + 1) div b = x div b + of_bool (b dvd x + 1)" for b x :: int
proof (cases "b dvd x + 1")
  case True
  assume b: "b > 0"
  from True obtain k where k: "x + 1 = b * k" by (auto simp: dvd_def)
  then have "x = b * (k - 1) + (b - 1)" by (simp add: algebra_simps)
  then have "x div b = k - 1" using b by (intro int_div_pos_eq [of _ _ _ "b - 1"]) auto
  then show ?thesis using True k b by simp
next
  case False
  assume b: "b > 0"
  have "x mod b \<noteq> b - 1"
  proof
    assume "x mod b = b - 1"
    then have "x + 1 = b * (x div b + 1)" using mult_div_mod_eq [of b x] by (simp add: distrib_left)
    then show False using False by simp
  qed
  then have "x mod b + 1 < b" "0 \<le> x mod b + 1" using b pos_mod_bound [of b x] pos_mod_sign [of b x] by linarith+
  moreover have "x + 1 = b * (x div b) + (x mod b + 1)" by simp
  ultimately have "(x + 1) div b = x div b" by (intro int_div_pos_eq) auto
  then show ?thesis using False by simp
qed

text \<open>The leap days between 1970 and the start of a year, in closed form.\<close>

definition leap_days :: "int \<Rightarrow> int" where
  "leap_days ly = divrd (ly - 69) 4 - divrd (ly - 1) 100 + divrd (ly + 299) 400"

lemma leap_days_step: "leap_days (y + 1) = leap_days y + of_bool (isleap y)"
proof -
  have nested: "(C \<longrightarrow> B) \<Longrightarrow> (B \<longrightarrow> A) \<Longrightarrow> of_bool (A \<and> (\<not> B \<or> C)) = (of_bool A - of_bool B + of_bool C :: int)" for A B C :: bool
    by (cases A; cases B; cases C) simp_all
  have s: "(y - 69 + 1) div 4 = (y - 69) div 4 + of_bool (4 dvd y - 69 + 1)" "(y - 1 + 1) div 100 = (y - 1) div 100 + of_bool (100 dvd y - 1 + 1)"
    "(y + 299 + 1) div 400 = (y + 299) div 400 + of_bool (400 dvd y + 299 + 1)" by (rule div_step; simp)+
  have e: "leap_days (y + 1) = (y - 69 + 1) div 4 - (y - 1 + 1) div 100 + (y + 299 + 1) div 400"
    by (simp add: leap_days_def divrd_div algebra_simps)
  have a: "4 dvd y - 69 + 1 \<longleftrightarrow> 4 dvd y" by presburger
  have b: "100 dvd y - 1 + 1 \<longleftrightarrow> 100 dvd y" "400 dvd y + 299 + 1 \<longleftrightarrow> 400 dvd y + 300" by (simp_all add: algebra_simps)
  have c: "100 dvd y" if "400 dvd y + 300"
  proof -
    have "100 dvd y + 300" by (rule dvd_trans [OF _ that]) simp
    then show ?thesis using dvd_add_left_iff [of 100 300 y] by simp
  qed
  have d: "4 dvd y" if "100 dvd y" using that by (rule dvd_trans [rotated]) simp
  have "of_bool (isleap y) = (of_bool (4 dvd y) - of_bool (100 dvd y) + of_bool (400 dvd y + 300) :: int)"
    unfolding isleap_dvd by (rule nested) (use c d in blast)+
  then show ?thesis unfolding e s a b unfolding leap_days_def divrd_div [of 4, simplified] divrd_div [of 100, simplified] divrd_div [of 400, simplified] by simp
qed

lemma year_start_closed: "year_start y = 365 * (y - 70) + leap_days y"
proof -
  have z: "leap_days 70 = 0" by (simp add: leap_days_def divrd_div)
  have "year_start (70 + int n) = 365 * int n + leap_days (70 + int n)" "year_start (70 - int n) = - 365 * int n + leap_days (70 - int n)" for n
  proof (induction n)
    case (Suc n)
    show "year_start (70 + int (Suc n)) = 365 * int (Suc n) + leap_days (70 + int (Suc n))"
      using Suc year_start_step [of "70 + int n"] leap_days_step [of "70 + int n"] by (simp add: year_days_def algebra_simps)
    show "year_start (70 - int (Suc n)) = - 365 * int (Suc n) + leap_days (70 - int (Suc n))"
      using Suc year_start_step [of "69 - int n"] leap_days_step [of "69 - int n"] by (simp add: year_days_def algebra_simps)
  qed (simp_all add: z)
  from this [of "nat (y - 70)"] this [of "nat (70 - y)"] show ?thesis by (cases "y \<ge> 70") (simp_all add: algebra_simps)
qed

lemma month_cases: "0 \<le> m \<Longrightarrow> m \<le> 11 \<Longrightarrow> m \<in> {0, 1, 2, 3, 4, 5, 6, 7, 8, 9, 10, 11}" for m :: int
  by (simp, presburger)

lemma days_before_step: "0 \<le> m \<Longrightarrow> days_before y (m + 1) = days_before y m + monthdays y m"
  using sum_up [of 0 m "monthdays y"] by (simp add: days_before_def)

lemma days_before_table: "0 \<le> m \<Longrightarrow> m \<le> 12 \<Longrightarrow>
  days_before y m = (if m = 12 then 365 else monthacc ! nat m) + of_bool (isleap y \<and> m > 1)"
proof -
  have z: "days_before y 0 = 0" by (simp add: days_before_def)
  have s: "days_before y 1 = 31" "days_before y 2 = 59 + of_bool (isleap y)" using days_before_step [of 0 y] days_before_step [of 1 y] z
    by (simp_all add: monthdays_def monthlen_def)
  note d = days_before_step [of _ y, unfolded monthdays_def monthlen_def]
  have "days_before y 3 = 90 + of_bool (isleap y)" "days_before y 4 = 120 + of_bool (isleap y)" "days_before y 5 = 151 + of_bool (isleap y)"
    "days_before y 6 = 181 + of_bool (isleap y)" "days_before y 7 = 212 + of_bool (isleap y)" "days_before y 8 = 243 + of_bool (isleap y)"
    "days_before y 9 = 273 + of_bool (isleap y)" "days_before y 10 = 304 + of_bool (isleap y)" "days_before y 11 = 334 + of_bool (isleap y)"
    "days_before y 12 = 365 + of_bool (isleap y)"
    using s d [of 2] d [of 3] d [of 4] d [of 5] d [of 6] d [of 7] d [of 8] d [of 9] d [of 10] d [of 11] by simp_all
  moreover assume "0 \<le> m" "m \<le> 12"
  ultimately show ?thesis using z s month_cases [of m] by (cases "m = 12") (auto simp: monthacc_def)
qed

lemma monthdays_pos: "0 \<le> m \<Longrightarrow> m \<le> 11 \<Longrightarrow> monthdays y m > 0"
  using month_cases [of m] by (auto simp: monthdays_def monthlen_def)

lemma mktime_seconds: "tm_valid t \<Longrightarrow> mktime t = seconds t"
proof -
  assume v: "tm_valid t"
  then have m: "tm_mon t sdiv 12 = 0" "tm_mon t smod 12 = tm_mon t" by (auto simp: tm_valid_def signed_divide_int_def signed_modulo_int_def sgn_if)
  let ?y = "tm_year t" and ?ly = "tm_year t + of_bool (tm_mon t > 1)"
  have "leap_days ?ly = leap_days ?y + of_bool (isleap ?y \<and> tm_mon t > 1)" using leap_days_step [of ?y] by auto
  then have "year_start ?y + days_before ?y (tm_mon t) = monthacc ! nat (tm_mon t) + 365 * (?y - 70) + leap_days ?ly"
    using v year_start_closed [of ?y] days_before_table [of "tm_mon t" ?y] by (simp add: tm_valid_def)
  then show ?thesis using v m by (simp add: mktime_def Let_def seconds_def tm_valid_def leap_days_def algebra_simps)
qed

section \<open>The loops of gmtime\<close>

lemma yearsecs_days: "yearsecs y = year_days y * 86400" and year_days_pos: "year_days y > 0"
  by (simp_all add: yearsecs_def year_days_def)

lemma year_start_mono: "a \<le> b \<Longrightarrow> year_start a \<le> year_start b"
proof -
  assume "a \<le> b"
  have "year_start a \<le> year_start (a + int n)" for n
  proof (induction n)
    case (Suc n)
    then show ?case using year_start_step [of "a + int n"] year_days_pos [of "a + int n"] by (simp add: algebra_simps)
  qed simp
  from this [of "nat (b - a)"] \<open>a \<le> b\<close> show ?thesis by simp
qed

text \<open>The second \<open>T\<close> of the calendar is the second \<open>T - 86400 * year_start y\<close> of the year \<open>y\<close>.\<close>

abbreviation (input) in_year :: "int \<Rightarrow> int \<Rightarrow> int" where "in_year T y \<equiv> T - 86400 * year_start y"

lemma in_year_step: "in_year T (y + 1) = in_year T y - yearsecs y" "in_year T (y - 1) = in_year T y + yearsecs (y - 1)"
  using year_start_step [of y] year_start_step [of "y - 1"] by (simp_all add: yearsecs_days algebra_simps)

lemma gm_down_works: "YEAR_MIN \<le> y \<Longrightarrow>
  (if T < 86400 * year_start YEAR_MIN then gm_down (in_year T y) y = None
   else \<exists>y'. gm_down (in_year T y) y = Some (in_year T y', y') \<and> YEAR_MIN \<le> y' \<and> y' \<le> y \<and> in_year T y' \<ge> 0)"
proof (induction "nat (y - YEAR_MIN)" arbitrary: y)
  case 0
  then have "y = YEAR_MIN" by simp
  then show ?case by (simp add: gm_down.simps [of "in_year T YEAR_MIN" YEAR_MIN])
next
  case (Suc n)
  then have y: "n = nat (y - 1 - YEAR_MIN)" "YEAR_MIN \<le> y - 1" by simp_all
  have m: "86400 * year_start YEAR_MIN \<le> 86400 * year_start y" using year_start_mono [of YEAR_MIN y] Suc.prems by simp
  show ?case
  proof (cases "in_year T y < 0")
    case True
    then have "gm_down (in_year T y) y = gm_down (in_year T (y - 1)) (y - 1)"
      using y(2) by (simp add: gm_down.simps [of "in_year T y"] in_year_step(2))
    then show ?thesis using Suc.hyps(1) [OF y] by (force split: if_splits)
  next
    case False
    then show ?thesis using m Suc.prems by (auto simp: gm_down.simps [of "in_year T y"])
  qed
qed

lemma gm_up_works: "y \<le> YEAR_MAX \<Longrightarrow> in_year T y \<ge> 0 \<Longrightarrow>
  (if T \<ge> 86400 * year_start (YEAR_MAX + 1) then gm_up (in_year T y) y = None
   else \<exists>y'. gm_up (in_year T y) y = Some (in_year T y', y') \<and> y \<le> y' \<and> y' \<le> YEAR_MAX \<and> in_year T y' \<ge> 0 \<and> in_year T y' < yearsecs y')"
proof (induction "nat (YEAR_MAX - y)" arbitrary: y)
  case 0
  then have "y = YEAR_MAX" by simp
  then show ?case using 0 in_year_step(1) [of T YEAR_MAX] by (auto simp: gm_up.simps [of "in_year T YEAR_MAX" YEAR_MAX])
next
  case (Suc n)
  then have y: "n = nat (YEAR_MAX - (y + 1))" "y + 1 \<le> YEAR_MAX" by simp_all
  have m: "86400 * year_start (y + 1) \<le> 86400 * year_start (YEAR_MAX + 1)" using year_start_mono [of "y + 1" "YEAR_MAX + 1"] y(2) by simp
  show ?case
  proof (cases "in_year T y \<ge> yearsecs y")
    case True
    then have "gm_up (in_year T y) y = gm_up (in_year T (y + 1)) (y + 1)" "in_year T (y + 1) \<ge> 0"
      using y(2) by (simp_all add: gm_up.simps [of "in_year T y"] in_year_step(1))
    then show ?thesis using Suc.hyps(1) [OF y] by (force split: if_splits)
  next
    case False
    then show ?thesis using m Suc.prems in_year_step(1) [of T y] by (auto simp: gm_up.simps [of "in_year T y"])
  qed
qed

lemma gm_month_works: "0 \<le> m \<Longrightarrow> m \<le> 11 \<Longrightarrow> 86400 * days_before y m \<le> s \<Longrightarrow> s < yearsecs y \<Longrightarrow>
  \<exists>m'. gm_month y (s - 86400 * days_before y m) m = Some (s - 86400 * days_before y m', m') \<and> 0 \<le> m' \<and> m' \<le> 11 \<and>
     86400 * days_before y m' \<le> s \<and> s < 86400 * (days_before y m' + monthdays y m')"
proof (induction "nat (11 - m)" arbitrary: m)
  case 0
  then have m: "m = 11" by simp
  have "86400 * (days_before y 11 + monthdays y 11) = yearsecs y"
    using days_before_table [of 11 y] by (simp add: monthdays_def monthlen_def monthacc_def yearsecs_def)
  then show ?case using 0 m by (auto simp: gm_month.simps [of y _ 11] monthsecs_def algebra_simps)
next
  case (Suc n)
  then have m: "n = nat (11 - (m + 1))" "0 \<le> m + 1" "m + 1 \<le> 11" by simp_all
  note d = days_before_step [OF Suc.prems(1), of y]
  show ?case
  proof (cases "s - 86400 * days_before y m \<ge> monthsecs y m")
    case True
    then have "gm_month y (s - 86400 * days_before y m) m = gm_month y (s - 86400 * days_before y (m + 1)) (m + 1)" "86400 * days_before y (m + 1) \<le> s"
      unfolding d using Suc.prems m by (simp_all add: gm_month.simps [of y _ m] monthsecs_def right_diff_distrib distrib_left mult.commute diff_diff_eq)
    then show ?thesis using Suc.hyps(1) [OF m] Suc.prems(4) by simp
  next
    case False
    then show ?thesis using Suc.prems by (auto simp: gm_month.simps [of y _ m] monthsecs_def algebra_simps)
  qed
qed

section \<open>The time of the day\<close>

lemma week_parts: "b > 0 \<Longrightarrow> c > 0 \<Longrightarrow> d dvd c \<Longrightarrow> (T mod (b * c)) div b mod d = T div b mod d" for T b c d :: int
  by (simp add: zmod_zmult2_eq mod_mod_cancel)

lemma day_parts: "T = 86400 * (T div 86400) + (T div 3600 mod 24) * 3600 + (T div 60 mod 60) * 60 + T mod 60" for T :: int
proof -
  have e: "(3600 :: int) * 24 = 86400" "(60 :: int) * 60 = 3600" by simp_all
  have "T mod 86400 = 3600 * (T div 3600 mod 24) + T mod 3600" using zmod_zmult2_eq [of 24 T 3600] unfolding e by simp
  moreover have "T mod 3600 = 60 * (T div 60 mod 60) + T mod 60" using zmod_zmult2_eq [of 60 T 60] unfolding e by simp
  ultimately show ?thesis using mult_div_mod_eq [of 86400 T] by linarith
qed

lemma gmtime_cases:
  "gmtime T =
     (case gm_down T 70 of
        None \<Rightarrow> Some None
      | Some (t, y) \<Rightarrow>
          (case gm_up t y of
             None \<Rightarrow> Some None
           | Some (t, y) \<Rightarrow> do {
               (t', m) \<leftarrow> gm_month y t 0;
               Some (Some \<lparr>tm_sec = T mod 60, tm_min = T div 60 mod 60, tm_hour = T div 3600 mod 24,
                 tm_year = y, tm_mon = m, tm_mday = t' sdiv 86400 + 1, tm_wday = (T div 86400 + 4) mod 7,
                 tm_yday = t sdiv 86400, tm_isdst = -1\<rparr>)
             }))"
proof -
  have s: "a smod b = a mod b" "a sdiv b = a div b" if "a \<ge> 0" "b > 0" for a b :: int
    using that by (auto simp: signed_modulo_int_def signed_divide_int_def sgn_if)
  let ?u = "T smod (86400 * 7)"
  have t7: "(if ?u < 0 then ?u + 86400 * 7 else ?u) = T mod (86400 * 7)"
  proof -
    have "\<not> T mod (86400 * 7) < 0" "T mod (86400 * 7) < 86400 * 7" by (simp_all add: not_less)
    then show ?thesis by (simp add: signed_modulo_int_eq_modulo_int)
  qed
  let ?t = "T mod (86400 * 7)"
  have nn: "?t \<ge> 0" "?t div 60 \<ge> 0" "?t div 3600 \<ge> 0" "?t div 86400 + 4 \<ge> 0" by (simp_all add: pos_imp_zdiv_nonneg_iff add_nonneg_nonneg)
  have e: "86400 * 7 = (60 :: int) * 10080" "86400 * 7 = (3600 :: int) * 168" by simp_all
  have p: "?t mod 60 = T mod 60" by (rule mod_mod_cancel) simp
  have q: "?t div 60 mod 60 = T div 60 mod 60" unfolding e(1) by (rule week_parts) simp_all
  have r: "?t div 3600 mod 24 = T div 3600 mod 24" unfolding e(2) by (rule week_parts) simp_all
  have "?t div 86400 mod 7 = T div 86400 mod 7" by (rule week_parts) simp_all
  then have w: "(?t div 86400 + 4) mod 7 = (T div 86400 + 4) mod 7" by (rule mod_add_cong) (rule refl)
  show ?thesis unfolding gmtime_def Let_def t7 unfolding s [OF nn(1) zero_less_numeral] s [OF nn(2) zero_less_numeral] s [OF nn(3) zero_less_numeral] s [OF nn(4) zero_less_numeral]
      p q r w ..
qed

section \<open>The conversions are inverse\<close>

abbreviation (input) first_second :: int where "first_second \<equiv> 86400 * year_start YEAR_MIN"
abbreviation (input) end_second :: int where "end_second \<equiv> 86400 * year_start (YEAR_MAX + 1)"

lemma gmtime_works:
  assumes "first_second \<le> T" "T < end_second"
  shows "\<exists>tm. gmtime T = Some (Some tm) \<and> tm_valid tm \<and> tm_normal tm \<and> seconds tm = T"
proof -
  obtain y0 where d: "gm_down T 70 = Some (in_year T y0, y0)" "YEAR_MIN \<le> y0" "y0 \<le> 70" "in_year T y0 \<ge> 0"
    using gm_down_works [of 70 T] assms(1) by auto
  obtain y where u: "gm_up (in_year T y0) y0 = Some (in_year T y, y)" "y0 \<le> y" "y \<le> YEAR_MAX" "in_year T y \<ge> 0" "in_year T y < yearsecs y"
    using gm_up_works [of y0 T] d assms(2) by auto
  have "days_before y 0 = 0" by (simp add: days_before_def)
  then obtain m where m: "gm_month y (in_year T y) 0 = Some (in_year T y - 86400 * days_before y m, m)" "0 \<le> m" "m \<le> 11"
      "86400 * days_before y m \<le> in_year T y" "in_year T y < 86400 * (days_before y m + monthdays y m)"
    using gm_month_works [of 0 y "in_year T y"] u(4,5) by auto
  let ?D = "T div 86400 - year_start y"
  have D: "in_year T y div 86400 = ?D" "(in_year T y - 86400 * days_before y m) div 86400 = ?D - days_before y m"
    using div_mult_self4 [of 86400 "- year_start y" T] div_mult_self4 [of 86400 "- year_start y - days_before y m" T]
    by (simp_all add: algebra_simps)
  have s: "a sdiv 86400 = a div 86400" if "a \<ge> 0" for a :: int using that by (auto simp: signed_divide_int_def sgn_if)
  let ?tm = "\<lparr>tm_sec = T mod 60, tm_min = T div 60 mod 60, tm_hour = T div 3600 mod 24, tm_year = y, tm_mon = m,
      tm_mday = ?D - days_before y m + 1, tm_wday = (T div 86400 + 4) mod 7, tm_yday = ?D, tm_isdst = -1\<rparr>"
  have g: "gmtime T = Some (Some ?tm)" unfolding gmtime_cases using d(1) u(1) m u(4) D by (simp add: s)
  let ?d = "?D - days_before y m + 1"
  have "?D - days_before y m \<ge> 0" using m(4) D(2) by (metis diff_ge_0_iff_ge pos_imp_zdiv_nonneg_iff zero_less_numeral)
  then have lo: "1 \<le> ?d" by simp
  have "in_year T y - 86400 * days_before y m < monthdays y m * 86400" using m(5) by (simp add: algebra_simps)
  then have "(in_year T y - 86400 * days_before y m) div 86400 < monthdays y m" by (simp add: div_less_iff_less_mult)
  then have hi: "?d \<le> monthdays y m" unfolding D(2) by simp
  have r: "0 \<le> x mod 60" "x mod 60 \<le> 59" "0 \<le> x mod 24" "x mod 24 \<le> 23" for x :: int
    using pos_mod_sign [of 60 x] pos_mod_bound [of 60 x] pos_mod_sign [of 24 x] pos_mod_bound [of 24 x] by linarith+
  have "YEAR_MIN \<le> y" using d(2) u(2) by simp
  then have v: "tm_valid ?tm" unfolding tm_valid_def tm.simps using u(3) m(2,3) lo hi r by blast
  have "(a + b + (D - a - b + 1) - 1) * 86400 + h * 3600 + n * 60 + s = 86400 * D + h * 3600 + n * 60 + s" for a b D h n s :: int by simp
  then have "seconds ?tm = 86400 * (T div 86400) + (T div 3600 mod 24) * 3600 + (T div 60 mod 60) * 60 + T mod 60" unfolding seconds_def tm.simps .
  then have sec: "seconds ?tm = T" using day_parts [of T] by (simp only:)
  have "b + (D - b + 1) - 1 = D" for b D :: int by simp
  then have "tm_normal ?tm" unfolding tm_normal_def sec tm.simps by (simp only: simp_thms)
  then show ?thesis using g v sec by blast
qed

lemma gmtime_none: "T < first_second \<or> end_second \<le> T \<Longrightarrow> gmtime T = Some None"
proof (cases "T < first_second")
  case True
  then show ?thesis unfolding gmtime_cases using gm_down_works [of 70 T] by simp
next
  case False
  assume "T < first_second \<or> end_second \<le> T"
  then have "end_second \<le> T" using False by simp
  moreover obtain y0 where d: "gm_down T 70 = Some (in_year T y0, y0)" "y0 \<le> 70" "in_year T y0 \<ge> 0"
    using gm_down_works [of 70 T] False by auto
  ultimately show ?thesis unfolding gmtime_cases d(1) using gm_up_works [of y0 T] by simp
qed

lemma days_before_mono: "0 \<le> a \<Longrightarrow> a \<le> b \<Longrightarrow> b \<le> 12 \<Longrightarrow> days_before y a \<le> days_before y b"
proof -
  assume ab: "0 \<le> a" "a \<le> b" "b \<le> 12"
  have "a + int n \<le> 12 \<longrightarrow> days_before y a \<le> days_before y (a + int n)" for n
  proof (induction n)
    case (Suc n)
    show ?case
    proof
      assume n: "a + int (Suc n) \<le> 12"
      then have "0 < monthdays y (a + int n)" using ab(1) monthdays_pos [of "a + int n" y] by simp
      then show "days_before y a \<le> days_before y (a + int (Suc n))"
        using Suc n days_before_step [of "a + int n" y] ab(1) by (simp add: algebra_simps)
    qed
  qed simp
  from this [of "nat (b - a)"] ab show ?thesis by simp
qed

text \<open>The number of the day, and what it says about the year and the month.\<close>

abbreviation (input) day_nr :: "tm \<Rightarrow> int" where
  "day_nr t \<equiv> year_start (tm_year t) + days_before (tm_year t) (tm_mon t) + tm_mday t - 1"

lemma day_nr_bounds:
  assumes "tm_valid t"
  shows "year_start (tm_year t) \<le> day_nr t" "day_nr t < year_start (tm_year t + 1)"
    "year_start (tm_year t) + days_before (tm_year t) (tm_mon t) \<le> day_nr t" "day_nr t < year_start (tm_year t) + days_before (tm_year t) (tm_mon t + 1)"
proof -
  have v: "0 \<le> tm_mon t" "tm_mon t \<le> 11" "1 \<le> tm_mday t" "tm_mday t \<le> monthdays (tm_year t) (tm_mon t)" using assms by (simp_all add: tm_valid_def)
  have z: "0 \<le> days_before (tm_year t) (tm_mon t)" using days_before_mono [of 0 "tm_mon t" "tm_year t"] v by (simp add: days_before_def)
  have y: "days_before (tm_year t) (tm_mon t + 1) \<le> year_days (tm_year t)"
    using days_before_mono [of "tm_mon t + 1" 12 "tm_year t"] days_before_table [of 12 "tm_year t"] v by (simp add: year_days_def)
  note s = days_before_step [OF v(1), of "tm_year t"] year_start_step [of "tm_year t"]
  show "year_start (tm_year t) \<le> day_nr t" "day_nr t < year_start (tm_year t + 1)"
    "year_start (tm_year t) + days_before (tm_year t) (tm_mon t) \<le> day_nr t" "day_nr t < year_start (tm_year t) + days_before (tm_year t) (tm_mon t + 1)"
    using v z y s by linarith+
qed

lemma day_nr_inj:
  assumes "tm_valid a" "tm_valid b" "day_nr a = day_nr b"
  shows "tm_year a = tm_year b" "tm_mon a = tm_mon b" "tm_mday a = tm_mday b"
proof -
  note da = day_nr_bounds [OF assms(1)] and db = day_nr_bounds [OF assms(2)]
  have v: "0 \<le> tm_mon a" "tm_mon a \<le> 11" "0 \<le> tm_mon b" "tm_mon b \<le> 11" using assms by (simp_all add: tm_valid_def)
  show y: "tm_year a = tm_year b"
  proof (rule ccontr)
    assume "tm_year a \<noteq> tm_year b"
    then have "year_start (tm_year a + 1) \<le> year_start (tm_year b) \<or> year_start (tm_year b + 1) \<le> year_start (tm_year a)"
      using year_start_mono by (cases "tm_year a < tm_year b") auto
    then show False using da(1,2) db(1,2) assms(3) by linarith
  qed
  show m: "tm_mon a = tm_mon b"
  proof (rule ccontr)
    assume "tm_mon a \<noteq> tm_mon b"
    then have "days_before (tm_year b) (tm_mon a + 1) \<le> days_before (tm_year b) (tm_mon b) \<or> days_before (tm_year b) (tm_mon b + 1) \<le> days_before (tm_year b) (tm_mon a)"
      using days_before_mono v by (cases "tm_mon a < tm_mon b") auto
    then show False using da(3,4) db(3,4) assms(3) y by (simp only:) linarith
  qed
  show "tm_mday a = tm_mday b" using assms(3) y m by simp
qed

lemma seconds_inj:
  assumes "tm_valid a" "tm_valid b" "tm_normal a" "tm_normal b" "seconds a = seconds b"
  shows "a = b"
proof -
  let ?p = "\<lambda>t. tm_hour t * 3600 + tm_min t * 60 + tm_sec t"
  have r: "0 \<le> ?p t \<and> ?p t < 86400" if "tm_valid t" for t using that unfolding tm_valid_def by linarith
  have s: "seconds t = day_nr t * 86400 + ?p t" for t by (simp add: seconds_def)
  have u: "x = y \<and> p = q" if "x * b + p = y * b + q" "0 \<le> p \<and> p < b" "0 \<le> q \<and> q < b" for x y p q b :: int
  proof -
    have "(x * b + p) div b = x" if "0 \<le> p \<and> p < b" for x p using that by (simp add: div_pos_pos_trivial)
    then have "x = y" using that by metis
    then show ?thesis using that(1) by simp
  qed
  have e: "day_nr a = day_nr b" "?p a = ?p b" using u [of "day_nr a" 86400 "?p a" "day_nr b" "?p b"] r [OF assms(1)] r [OF assms(2)] assms(5) unfolding s by blast+
  have m: "0 \<le> tm_sec t \<and> tm_sec t < 60" "0 \<le> tm_min t \<and> tm_min t < 60" if "tm_valid t" for t using that by (simp_all add: tm_valid_def)
  have "(tm_hour a * 60 + tm_min a) * 60 + tm_sec a = (tm_hour b * 60 + tm_min b) * 60 + tm_sec b" using e(2) by simp
  from u [OF this m(1) [OF assms(1)] m(1) [OF assms(2)]]
  have "tm_hour a = tm_hour b \<and> tm_min a = tm_min b \<and> tm_sec a = tm_sec b" using u [OF _ m(2) [OF assms(1)] m(2) [OF assms(2)]] by blast
  moreover note day_nr_inj [OF assms(1,2) e(1)]
  moreover have "tm_wday a = tm_wday b" "tm_isdst a = tm_isdst b" "tm_yday a = tm_yday b" using assms(3-5) calculation by (simp_all only: tm_normal_def)
  ultimately show ?thesis by simp
qed

lemma seconds_range: "tm_valid t \<Longrightarrow> first_second \<le> seconds t \<and> seconds t < end_second"
proof -
  assume v: "tm_valid t"
  then have "0 \<le> tm_hour t * 3600 + tm_min t * 60 + tm_sec t" "tm_hour t * 3600 + tm_min t * 60 + tm_sec t < 86400" unfolding tm_valid_def by linarith+
  moreover have "year_start YEAR_MIN \<le> day_nr t" using year_start_mono [of YEAR_MIN "tm_year t"] day_nr_bounds(1) [OF v] v by (simp add: tm_valid_def)
  moreover have "day_nr t < year_start (YEAR_MAX + 1)" using year_start_mono [of "tm_year t + 1" "YEAR_MAX + 1"] day_nr_bounds(2) [OF v] v by (simp add: tm_valid_def)
  moreover have "86400 * a \<le> D * 86400 + r \<and> D * 86400 + r < 86400 * b" if "0 \<le> r" "r < 86400" "a \<le> D" "D < b" for a b D r :: int using that by auto
  moreover have "seconds t = day_nr t * 86400 + (tm_hour t * 3600 + tm_min t * 60 + tm_sec t)" by (simp add: seconds_def)
  ultimately show ?thesis by metis
qed

text \<open>
  C34: \<^verbatim>\<open>mktime\<close> computes in closed form what a calendar says that counts the days of the years and months one by one: for every
  broken-down time from 1753 to 9999 the result is the number of seconds since the start of 1970.
\<close>

theorem mktime_counts: "tm_valid t \<Longrightarrow> mktime t = seconds t"
  by (rule mktime_seconds)

theorem mktime_counts_witness:
  "mktime \<lparr>tm_sec = 7, tm_min = 46, tm_hour = 1, tm_year = 104, tm_mon = 1, tm_mday = 29, tm_wday = 0, tm_yday = 0, tm_isdst = -1\<rparr> =
     seconds \<lparr>tm_sec = 7, tm_min = 46, tm_hour = 1, tm_year = 104, tm_mon = 1, tm_mday = 29, tm_wday = 0, tm_yday = 0, tm_isdst = -1\<rparr>"
  by (rule mktime_counts) (simp add: tm_valid_def monthdays_def monthlen_def isleap_dvd)

text \<open>
  C33: The conversions between seconds and broken-down times are inverse to each other. \<^verbatim>\<open>gmtime\<close> ends for every time and reads no
  table out of its bounds. From the first second of 1753 to the last of 9999 it gives a date that exists, with the day of the week
  and of the year that belong to it, which \<^verbatim>\<open>mktime\<close> takes back to the same second; outside it returns a null pointer. And every
  such date is what \<^verbatim>\<open>gmtime\<close> makes of its \<^verbatim>\<open>mktime\<close>.
\<close>

theorem gmtime_mktime:
  "(if first_second \<le> T \<and> T < end_second then \<exists>tm. gmtime T = Some (Some tm) \<and> tm_valid tm \<and> tm_normal tm \<and> mktime tm = T else gmtime T = Some None) \<and>
   (tm_valid t \<and> tm_normal t \<longrightarrow> gmtime (mktime t) = Some (Some t))"
proof -
  have 1: "if first_second \<le> T \<and> T < end_second then \<exists>tm. gmtime T = Some (Some tm) \<and> tm_valid tm \<and> tm_normal tm \<and> mktime tm = T else gmtime T = Some None" for T
    using gmtime_works [of T] gmtime_none [of T] mktime_seconds by (auto simp: not_less)
  have "gmtime (mktime t) = Some (Some t)" if "tm_valid t" "tm_normal t"
  proof -
    have "\<exists>tm. gmtime (seconds t) = Some (Some tm) \<and> tm_valid tm \<and> tm_normal tm \<and> seconds tm = seconds t"
      using gmtime_works seconds_range [OF that(1)] by blast
    then show ?thesis using seconds_inj that mktime_seconds by metis
  qed
  then show ?thesis using 1 by blast
qed

theorem gmtime_mktime_witness:
  "gmtime (mktime \<lparr>tm_sec = 7, tm_min = 46, tm_hour = 1, tm_year = 70, tm_mon = 1, tm_mday = 2, tm_wday = 1, tm_yday = 32, tm_isdst = -1\<rparr>) =
     Some (Some \<lparr>tm_sec = 7, tm_min = 46, tm_hour = 1, tm_year = 70, tm_mon = 1, tm_mday = 2, tm_wday = 1, tm_yday = 32, tm_isdst = -1\<rparr>)"
proof -
  let ?t = "\<lparr>tm_sec = 7, tm_min = 46, tm_hour = 1, tm_year = 70, tm_mon = 1, tm_mday = 2, tm_wday = 1, tm_yday = 32, tm_isdst = -1\<rparr>"
  have d: "days_before 70 1 = 31" using days_before_table [of 1 70] by (simp add: monthacc_def)
  have "tm_valid ?t" by (simp add: tm_valid_def monthdays_def monthlen_def)
  moreover have "tm_normal ?t" by (simp add: tm_normal_def seconds_def d)
  ultimately show ?thesis using gmtime_mktime [of 0 ?t] by blast
qed

section \<open>Formatting\<close>

text \<open>
  What the conversions mean, for a date that exists, independently of the code: names and decimal numbers of a fixed width. Not defined here
  are the numbers of weeks and the years that go with them (\<^verbatim>\<open>%g\<close>, \<^verbatim>\<open>%G\<close>, \<^verbatim>\<open>%U\<close>, \<^verbatim>\<open>%V\<close>, \<^verbatim>\<open>%W\<close>) and the offset of the time zone (\<^verbatim>\<open>%z\<close>), which
  the code does not implement, and characters that are no conversion.
\<close>

definition decimal :: "nat \<Rightarrow> nat \<Rightarrow> string" where
  "decimal w n = map (\<lambda>i. char_of (48 + n div 10 ^ (w - 1 - i) mod 10)) [0..<w]"

definition spaced :: "nat \<Rightarrow> string" where
  "spaced n = (if n < 10 then '' '' @ decimal 1 n else decimal 2 n)"

definition day_name :: "int \<Rightarrow> string" where
  "day_name d = [''Sunday'', ''Monday'', ''Tuesday'', ''Wednesday'', ''Thursday'', ''Friday'', ''Saturday''] ! nat d"

definition month_name :: "int \<Rightarrow> string" where
  "month_name m = [''January'', ''February'', ''March'', ''April'', ''May'', ''June'',
     ''July'', ''August'', ''September'', ''October'', ''November'', ''December''] ! nat m"

definition iso_date :: "tm \<Rightarrow> string" where
  "iso_date t = decimal 4 (nat (tm_year t + 1900)) @ ''-'' @ decimal 2 (nat (tm_mon t + 1)) @ ''-'' @ decimal 2 (nat (tm_mday t))"

definition iso_time :: "tm \<Rightarrow> string" where
  "iso_time t = decimal 2 (nat (tm_hour t)) @ '':'' @ decimal 2 (nat (tm_min t)) @ '':'' @ decimal 2 (nat (tm_sec t))"

definition clock_hour :: "tm \<Rightarrow> nat" where
  "clock_hour t = (if nat (tm_hour t) mod 12 = 0 then 12 else nat (tm_hour t) mod 12)"

definition meaning :: "tm \<Rightarrow> char \<Rightarrow> string option" where
  "meaning t = map_of
     [(CHR ''a'', take 3 (day_name (tm_wday t))), (CHR ''A'', day_name (tm_wday t)),
      (CHR ''b'', take 3 (month_name (tm_mon t))), (CHR ''h'', take 3 (month_name (tm_mon t))), (CHR ''B'', month_name (tm_mon t)),
      (CHR ''c'', iso_date t @ '' '' @ iso_time t), (CHR ''x'', iso_date t), (CHR ''X'', iso_time t), (CHR ''F'', iso_date t), (CHR ''T'', iso_time t),
      (CHR ''D'', decimal 2 (nat (tm_mon t + 1)) @ ''/'' @ decimal 2 (nat (tm_mday t)) @ ''/'' @ decimal 2 (nat (tm_year t + 1900) mod 100)),
      (CHR ''C'', decimal 2 (nat (tm_year t + 1900) div 100)), (CHR ''y'', decimal 2 (nat (tm_year t + 1900) mod 100)),
      (CHR ''Y'', decimal 4 (nat (tm_year t + 1900))), (CHR ''m'', decimal 2 (nat (tm_mon t + 1))),
      (CHR ''d'', decimal 2 (nat (tm_mday t))), (CHR ''e'', spaced (nat (tm_mday t))), (CHR ''j'', decimal 3 (nat (tm_yday t + 1))),
      (CHR ''H'', decimal 2 (nat (tm_hour t))), (CHR ''k'', spaced (nat (tm_hour t))),
      (CHR ''I'', decimal 2 (clock_hour t)), (CHR ''l'', spaced (clock_hour t)),
      (CHR ''M'', decimal 2 (nat (tm_min t))), (CHR ''S'', decimal 2 (nat (tm_sec t))),
      (CHR ''R'', decimal 2 (nat (tm_hour t)) @ '':'' @ decimal 2 (nat (tm_min t))),
      (CHR ''r'', decimal 2 (clock_hour t) @ '':'' @ decimal 2 (nat (tm_min t)) @ '':'' @ decimal 2 (nat (tm_sec t)) @ (if tm_hour t < 12 then '' AM'' else '' PM'')),
      (CHR ''p'', if tm_hour t < 12 then ''AM'' else ''PM''), (CHR ''P'', if tm_hour t < 12 then ''am'' else ''pm''),
      (CHR ''s'', dec (seconds t)), (CHR ''u'', decimal 1 (if tm_wday t = 0 then 7 else nat (tm_wday t))), (CHR ''w'', decimal 1 (nat (tm_wday t))),
      (CHR ''Z'', ''GMT''), (CHR ''n'', [CHR 0x0A]), (CHR ''t'', [CHR 0x09]), (CHR ''%'', ''%'')]"

text \<open>What a format means, whatever the room; the modifiers \<^verbatim>\<open>E\<close> and \<^verbatim>\<open>O\<close> do not change a conversion.\<close>

fun format_means :: "tm \<Rightarrow> string \<Rightarrow> string option" where
  "format_means t [] = Some []"
| "format_means t [c] = (if c = CHR ''%'' then None else Some [c])"
| "format_means t (c # d # fmt) =
     (if c \<noteq> CHR ''%'' then map_option (\<lambda>r. c # r) (format_means t (d # fmt))
      else if d = CHR ''E'' \<or> d = CHR ''O'' then format_means t (c # fmt)
      else case (meaning t d, format_means t fmt) of (Some s, Some r) \<Rightarrow> Some (s @ r) | _ \<Rightarrow> None)"

text \<open>A date that exists, with a day of the week and a day of the year.\<close>

definition tm_dated :: "tm \<Rightarrow> bool" where
  "tm_dated t \<longleftrightarrow> tm_valid t \<and> 0 \<le> tm_wday t \<and> tm_wday t \<le> 6 \<and> 0 \<le> tm_yday t \<and> tm_yday t \<le> 365"

lemma dig_code_of: "d < 10 \<Longrightarrow> dig (int d) = char_of (48 + d)"
  by (simp add: dig_def nat_add_distrib)

lemma decimal_digits:
  "decimal 1 n = [char_of (48 + n mod 10)]" "decimal 2 n = [char_of (48 + n div 10 mod 10), char_of (48 + n mod 10)]"
  "decimal 3 n = [char_of (48 + n div 100 mod 10), char_of (48 + n div 10 mod 10), char_of (48 + n mod 10)]"
  "decimal 4 n = [char_of (48 + n div 1000 mod 10), char_of (48 + n div 100 mod 10), char_of (48 + n div 10 mod 10), char_of (48 + n mod 10)]"
  by (simp_all add: decimal_def numeral_2_eq_2 numeral_3_eq_3 upt_conv_Cons eval_nat_numeral del: div_Suc_eq_div_add3 mod_Suc_eq_mod_add3)

lemma dig_nat: "0 \<le> d \<Longrightarrow> d < 10 \<Longrightarrow> dig d = char_of (48 + nat d)"
  using dig_code_of [of "nat d"] by simp

lemma sdiv_nonneg: "0 \<le> a \<Longrightarrow> 0 < b \<Longrightarrow> a sdiv b = a div b" and smod_nonneg: "0 \<le> a \<Longrightarrow> 0 < b \<Longrightarrow> a smod b = a mod b" for a b :: int
  by (auto simp: signed_divide_int_def signed_modulo_int_def sgn_if)

text \<open>A digit of the code, and the digits of a number with two, three and four of them.\<close>

lemma dig_mod: "0 \<le> n \<Longrightarrow> 0 < k \<Longrightarrow> dig ((n sdiv k) smod 10) = char_of (48 + nat n div nat k mod 10)"
  by (simp add: sdiv_nonneg smod_nonneg pos_imp_zdiv_nonneg_iff dig_nat nat_mod_distrib nat_div_distrib)

lemma dig_mod1: "0 \<le> n \<Longrightarrow> dig (n smod 10) = char_of (48 + nat n mod 10)"
  by (simp add: smod_nonneg dig_nat nat_mod_distrib)

lemma dig_top: "0 \<le> n \<Longrightarrow> 0 < k \<Longrightarrow> n < 10 * k \<Longrightarrow> dig (n sdiv k) = char_of (48 + nat n div nat k mod 10)"
proof -
  assume a: "0 \<le> n" "0 < k" "n < 10 * k"
  then have "nat n < 10 * nat k" by linarith
  then have "nat n div nat k < 10" by (rule less_mult_imp_div_less)
  then show ?thesis using a dig_code_of [of "nat n div nat k"] by (simp add: sdiv_nonneg zdiv_int)
qed

lemma year_digits: "decimal 2 (m mod 100) = [char_of (48 + m div 10 mod 10), char_of (48 + m mod 10)]"
proof -
  have "m mod 100 mod 10 = m mod 10" by (rule mod_mod_cancel) simp
  moreover have "m mod 100 div 10 mod 10 = m div 10 mod 10" using mod_mult2_eq [of m 10 10] by simp
  ultimately show ?thesis by (simp add: decimal_digits)
qed

lemma century_digits: "decimal 2 (m div 100) = [char_of (48 + m div 1000 mod 10), char_of (48 + m div 100 mod 10)]"
  by (simp add: decimal_digits div_mult2_eq [symmetric])

lemma spaced_digits: "0 \<le> n \<Longrightarrow> n < 100 \<Longrightarrow> spaced (nat n) = d2nz n"
proof -
  assume n: "0 \<le> n" "n < 100"
  show ?thesis
  proof (cases "n < 10")
    case True
    then have "nat n < 10" by simp
    then show ?thesis using n True by (simp add: spaced_def sdiv_nonneg dig_mod1 decimal_digits [unfolded One_nat_def])
  next
    case False
    then have "n sdiv 10 \<noteq> 0" "\<not> nat n < 10" using n by (auto simp: sdiv_nonneg)
    then show ?thesis using n by (simp add: spaced_def dig_top dig_mod1 decimal_digits)
  qed
qed

lemma clock_h12: "0 \<le> tm_hour t \<Longrightarrow> clock_hour t = nat (h12 t)"
proof -
  assume h: "0 \<le> tm_hour t"
  let ?r = "tm_hour t mod 12"
  have r: "(tm_hour t + 11) mod 12 = (?r + 11) mod 12" by (simp add: mod_add_left_eq)
  have "(?r + 11) mod 12 + 1 = (if ?r = 0 then 12 else ?r)"
  proof (cases "?r = 0")
    case False
    have "0 \<le> ?r" "?r < 12" by simp_all
    then have "0 \<le> ?r - 1" "?r - 1 < 12" using False by linarith+
    then have "(?r - 1 + 12) mod 12 = ?r - 1" by (simp only: mod_add_self2 mod_pos_pos_trivial)
    then show ?thesis using False by (simp add: algebra_simps)
  qed simp
  moreover have "nat (tm_hour t) mod 12 = nat ?r" using h by (simp add: nat_mod_distrib)
  moreover have "?r \<le> 0 \<longleftrightarrow> ?r = 0" using pos_mod_sign [of 12 "tm_hour t"] by linarith
  ultimately show ?thesis using h r by (simp add: h12_def clock_hour_def smod_nonneg)
qed

lemma h12_range: "0 \<le> tm_hour t \<Longrightarrow> 0 \<le> h12 t" "0 \<le> tm_hour t \<Longrightarrow> h12 t < 100"
proof -
  assume "0 \<le> tm_hour t"
  moreover have "0 \<le> (tm_hour t + 11) mod 12" "(tm_hour t + 11) mod 12 < 12" by simp_all
  ultimately show "0 \<le> h12 t" "h12 t < 100" by (auto simp: h12_def smod_nonneg)
qed

lemma monthdays_le: "0 \<le> m \<Longrightarrow> m \<le> 11 \<Longrightarrow> monthdays y m \<le> 31"
  by (drule (1) month_cases) (auto simp: monthdays_def monthlen_def)

lemma names:
  "0 \<le> d \<Longrightarrow> d \<le> 6 \<Longrightarrow> entry_of wday_full d = Some (day_name d) \<and> entry_of wday_abbr d = Some (take 3 (day_name d))"
  "0 \<le> m \<Longrightarrow> m \<le> 11 \<Longrightarrow> entry_of month_full m = Some (month_name m) \<and> entry_of month_abbr m = Some (take 3 (month_name m))"
proof -
  assume "0 \<le> d" "d \<le> 6"
  then have "d \<in> {0, 1, 2, 3, 4, 5, 6}" by auto
  then show "entry_of wday_full d = Some (day_name d) \<and> entry_of wday_abbr d = Some (take 3 (day_name d))"
    by (auto simp: entry_of_def wday_full_def wday_abbr_def day_name_def)
next
  show "0 \<le> m \<Longrightarrow> m \<le> 11 \<Longrightarrow> entry_of month_full m = Some (month_name m) \<and> entry_of month_abbr m = Some (take 3 (month_name m))"
    by (drule (1) month_cases) (auto simp: entry_of_def month_full_def month_abbr_def month_name_def)
qed

lemma week_day_digit: "0 \<le> d \<Longrightarrow> d \<le> 6 \<Longrightarrow> [dig (1 + (d + 6) smod 7)] = decimal 1 (if d = 0 then 7 else nat d) \<and> [dig d] = decimal 1 (nat d)" for d :: int
proof -
  assume "0 \<le> d" "d \<le> 6"
  then have "d \<in> {0, 1, 2, 3, 4, 5, 6}" by auto
  then show ?thesis by (auto simp: smod_nonneg dig_nat decimal_def)
qed

lemma conv_meaning:
  assumes "tm_dated t" "meaning t c = Some s"
  shows "conv t c = Some s"
proof -
  have r: "0 \<le> tm_wday t" "tm_wday t \<le> 6" "0 \<le> tm_yday t" "tm_yday t \<le> 365" "0 \<le> tm_mon t" "tm_mon t \<le> 11" "1 \<le> tm_mday t" "tm_mday t \<le> 31"
    "0 \<le> tm_hour t" "tm_hour t \<le> 23" "0 \<le> tm_min t" "tm_min t \<le> 59" "0 \<le> tm_sec t" "tm_sec t \<le> 59" "0 \<le> tm_year t + 1900" "mktime t = seconds t"
    using assms(1) monthdays_le [of "tm_mon t" "tm_year t"] by (auto simp: tm_dated_def tm_valid_def mktime_seconds)
  have h: "0 \<le> h12 t" "h12 t < 100" using h12_range [OF r(9)] by auto
  have d: "0 \<le> n \<and> n < 100" if "n \<in> {tm_mon t + 1, tm_mday t, tm_hour t, tm_min t, tm_sec t, h12 t}" for n using that r h by auto
  have m: "0 \<le> n" if "n \<in> {tm_mon t + 1, tm_mday t, tm_hour t, tm_min t, tm_sec t, h12 t, tm_yday t + 1, tm_year t + 1900}" for n using that r h by auto
  have top: "dig (n sdiv 10) = char_of (48 + nat n div 10 mod 10)" if "n \<in> {tm_mon t + 1, tm_mday t, tm_hour t, tm_min t, tm_sec t, h12 t}" for n
    using dig_top [of n 10] d [OF that] by simp
  have top3: "dig ((tm_yday t + 1) sdiv 100) = char_of (48 + nat (tm_yday t + 1) div 100 mod 10)" using dig_top [of "tm_yday t + 1" 100] r by simp
  have sp: "spaced (nat n) = d2nz n" if "n \<in> {tm_mday t, tm_hour t, h12 t}" for n using spaced_digits [of n] d [of n] that by blast
  have rest: "dig ((n sdiv 10) smod 10) = char_of (48 + nat n div 10 mod 10)" "dig ((n sdiv 100) smod 10) = char_of (48 + nat n div 100 mod 10)"
      "dig ((n sdiv 1000) smod 10) = char_of (48 + nat n div 1000 mod 10)" "dig (n smod 10) = char_of (48 + nat n mod 10)"
    if "n \<in> {tm_mon t + 1, tm_mday t, tm_hour t, tm_min t, tm_sec t, h12 t, tm_yday t + 1, tm_year t + 1900}" for n
    using dig_mod [OF m [OF that], of 10] dig_mod [OF m [OF that], of 100] dig_mod [OF m [OF that], of 1000] dig_mod1 [OF m [OF that]] by simp_all
  note e = names(1) [OF r(1,2)] names(2) [OF r(5,6)] week_day_digit [OF r(1,2), THEN conjunct1, symmetric] week_day_digit [OF r(1,2), THEN conjunct2, symmetric]
    clock_h12 [OF r(9)] r(16)
  show ?thesis using map_of_SomeD [OF assms(2) [unfolded meaning_def]]
    apply (simp only: list.set insert_iff empty_iff prod.inject iso_date_def iso_time_def e)
    apply (elim disjE conjE FalseE)
    apply (simp_all only: sp year_digits century_digits insert_iff simp_thms)
    apply (simp_all add: conv_def locale_date_def locale_time_def e decimal_digits top top3 rest)
    done
qed

text \<open>The same with the conversions of the code.\<close>

function conv_all :: "tm \<Rightarrow> string \<Rightarrow> string option" where
  "conv_all t [] = Some []"
| "conv_all t (c # fmt) =
     (if c = CHR ''%'' then
        (case skip_alt fmt of
           None \<Rightarrow> None
         | Some (d, fmt') \<Rightarrow> do { s \<leftarrow> conv t d; r \<leftarrow> conv_all t fmt'; Some (s @ r) })
      else do { r \<leftarrow> conv_all t fmt; Some (c # r) })"
  by pat_completeness auto
termination by (relation "measure (\<lambda>(t, fmt). length fmt)") (auto dest: skip_alt_shorter)

lemma puts_to_fits:
  "puts_to mx s out = (if s = [] \<or> length out + length s < mx then Inr (out @ s) else Inl (out @ take (mx - 1 - length out) s))"
  by (induction mx s out rule: puts_to.induct) (auto simp: take_Cons' not_less)

lemma strftime_loop_expands: "conv_all t fmt = Some e \<Longrightarrow>
  strftime_loop mx t fmt out = Some (if e = [] \<or> length out + length e < mx then Inr (out @ e) else Inl (out @ take (mx - 1 - length out) e))"
proof (induction mx t fmt out arbitrary: e rule: strftime_loop.induct)
  case (2 mx t c fmt out)
  show ?case
  proof (cases "c = CHR ''%''")
    case True
    with 2(3) obtain d fmt' s r where s: "skip_alt fmt = Some (d, fmt')" "conv t d = Some s" "conv_all t fmt' = Some r" "e = s @ r"
      by (auto split: option.splits bind_splits)
    note IH = 2(1) [OF True s(1) refl s(2) _ s(3)]
    show ?thesis
    proof (cases "s = [] \<or> length out + length s < mx")
      case fits: True
      then have p: "puts_to mx s out = Inr (out @ s)" unfolding puts_to_fits by (rule if_P)
      show ?thesis using True s p IH [OF p] fits by (auto simp: take_append diff_diff_eq add.commute)
    next
      case False
      then have p: "puts_to mx s out = Inl (out @ take (mx - 1 - length out) s)" unfolding puts_to_fits by (rule if_not_P)
      show ?thesis using True s p False by (auto simp: not_less)
    qed
  next
    case False
    with 2(3) obtain r where r: "conv_all t fmt = Some r" "e = c # r" by (auto split: bind_splits)
    note IH = 2(2) [OF False _ r(1)]
    show ?thesis
    proof (cases "length out + 1 < mx")
      case fits: True
      then show ?thesis using False r IH [of "out @ [c]"] by (auto simp: take_Cons')
    next
      case no: False
      then show ?thesis using False r by (auto simp: take_Cons')
    qed
  qed
qed simp

lemma conv_all_skips: "d = CHR ''E'' \<or> d = CHR ''O'' \<Longrightarrow> conv_all t (CHR ''%'' # d # fmt) = conv_all t (CHR ''%'' # fmt)"
  by auto

lemma conv_all_meaning: "tm_dated t \<Longrightarrow> format_means t fmt = Some e \<Longrightarrow> conv_all t fmt = Some e"
proof (induction t fmt arbitrary: e rule: format_means.induct)
  case (3 t c d fmt)
  consider "c \<noteq> CHR ''%''" | "c = CHR ''%''" "d = CHR ''E'' \<or> d = CHR ''O''" | "c = CHR ''%''" "\<not> (d = CHR ''E'' \<or> d = CHR ''O'')" by blast
  then show ?case
  proof cases
    case 1
    then show ?thesis using 3(1) [OF 1 3(4)] 3(5) by (auto simp del: conv_all.simps(2) simp: conv_all.simps(2) [of t c])
  next
    case 2
    then show ?thesis using 3(2) [OF _ 2(2) 3(4)] 3(5) conv_all_skips [OF 2(2)] by (simp del: conv_all.simps(2))
  next
    case c: 3
    then obtain s r where "meaning t d = Some s" "format_means t fmt = Some r" "e = s @ r" using 3(5) by (auto split: option.splits)
    then show ?thesis using 3(3) [OF _ c(2) 3(4)] c conv_meaning [OF 3(4)] by simp
  qed
qed (auto split: if_splits)

text \<open>
  C35: on a date that exists \<^verbatim>\<open>strftime\<close> stores exactly what the format means, with a terminating zero, when this fits into \<^verbatim>\<open>max\<close>
  characters, and returns its length; otherwise it returns 0 and has stored the first \<^verbatim>\<open>max - 1\<close> characters of it. It stores no more than \<^verbatim>\<open>max\<close>
  characters, but for an empty text with \<^verbatim>\<open>max\<close> zero, when it stores the terminating zero outside the buffer.
\<close>

theorem strftime_expands:
  assumes "tm_dated t" and "format_means t fmt = Some e"
  shows "\<exists>n w. strftime mx fmt t = Some (n, w) \<and>
     (if length e < mx then n = length e \<and> w = e @ [CHR 0x00] \<and> length w \<le> mx
      else if mx = 0 \<and> e = [] then n = 0 \<and> w = [CHR 0x00]
      else n = 0 \<and> w = take (mx - 1) e \<and> length w \<le> mx)"
  using strftime_loop_expands [OF conv_all_meaning [OF assms], of mx "[]"] by (auto simp: strftime_def)

theorem strftime_expands_witness:
  "strftime 5 ''%H:%M'' \<lparr>tm_sec = 7, tm_min = 46, tm_hour = 1, tm_year = 70, tm_mon = 1, tm_mday = 2, tm_wday = 1, tm_yday = 32, tm_isdst = -1\<rparr> = Some (0, ''01:4'') \<and>
   strftime 6 ''%H:%M'' \<lparr>tm_sec = 7, tm_min = 46, tm_hour = 1, tm_year = 70, tm_mon = 1, tm_mday = 2, tm_wday = 1, tm_yday = 32, tm_isdst = -1\<rparr> = Some (5, ''01:46'' @ [CHR 0x00])"
proof -
  let ?t = "\<lparr>tm_sec = 7, tm_min = 46, tm_hour = 1, tm_year = 70, tm_mon = 1, tm_mday = 2, tm_wday = 1, tm_yday = 32, tm_isdst = -1\<rparr>"
  have d: "tm_dated ?t" by (simp add: tm_dated_def tm_valid_def monthdays_def monthlen_def)
  have e: "format_means ?t ''%H:%M'' = Some ''01:46''" by (simp add: meaning_def decimal_digits char_of_def bit_0)
  show ?thesis using strftime_expands [OF d e, of 5] strftime_expands [OF d e, of 6] by auto
qed

text \<open>With no room at all the terminating zero is stored outside the buffer.\<close>

lemma strftime_no_room: "strftime 0 [] t = Some (0, [CHR 0x00])"
  by (simp add: strftime_def)

text \<open>The correction \<^verbatim>\<open>cltime\<close> gives a date that exists and leaves one that exists alone.\<close>

lemma cltime_valid: "tm_valid (cltime t)" "tm_valid t \<Longrightarrow> cltime t = t"
proof -
  have m: "0 \<le> m \<Longrightarrow> m \<le> 11 \<Longrightarrow> 1 \<le> monthdays y m" for y m using monthdays_pos [of m y] by simp
  show "tm_valid (cltime t)" using m [of 11 YEAR_MAX] m [of 0 YEAR_MIN] m [of 11 "tm_year t"] m [of 0 "tm_year t"] m [of "tm_mon t" "tm_year t"]
    unfolding cltime_def cl_day_end_def cl_day_start_def tm_valid_def by simp
  show "tm_valid t \<Longrightarrow> cltime t = t" by (simp add: cltime_def tm_valid_def)
qed

end
