(* ===== verification/Lib_Stdlib.thy ===== *)
theory Lib_Stdlib
  imports Lib_String Lib_Time "HOL-Library.Multiset"
begin

text \<open>
  General utilities of the C library (\<^verbatim>\<open>lib/stdlib\<close>, \<^verbatim>\<open>lib/ctype\<close>): sorting and searching arrays, reading numbers, the classes of
  characters. An array is the list of its elements, each a list of bytes; a pointer to an element is its index, and reading outside the
  array is \<open>None\<close>. Two pointers compare as their addresses do, which are the indices times the size of an element. The comparison function that the caller passes is an argument; the locale \<open>comparison\<close> is what the library may rely on.
\<close>

type_synonym elem = "8 word list"

section \<open>Sorting\<close>

definition elem_at :: "elem list \<Rightarrow> nat \<Rightarrow> elem option" where
  "elem_at xs p = (if p < length xs then Some (xs ! p) else None)"

text \<open>\<^verbatim>\<open>swap\<close> exchanges the elements \<open>i\<close> and \<open>j\<close> byte by byte.\<close>

fun swap_loop :: "nat \<Rightarrow> nat \<Rightarrow> nat \<Rightarrow> nat \<Rightarrow> elem list \<Rightarrow> elem list" where
  "swap_loop i j k 0 xs = xs"
| "swap_loop i j k (Suc n) xs =
     (let t = xs ! i ! k; xs1 = xs[i := (xs ! i)[k := xs ! j ! k]]; xs2 = xs1[j := (xs1 ! j)[k := t]]
      in swap_loop i j (k + 1) n xs2)"

definition swap :: "nat \<Rightarrow> nat \<Rightarrow> nat \<Rightarrow> elem list \<Rightarrow> elem list" where
  "swap p0 p1 sz xs = swap_loop p0 p1 0 sz xs"

partial_function (option) up_loop :: "(elem \<Rightarrow> elem \<Rightarrow> int) \<Rightarrow> nat \<Rightarrow> nat \<Rightarrow> nat \<Rightarrow> elem list \<Rightarrow> nat \<Rightarrow> nat option" where
  "up_loop cmp sz start end' xs p0 = do {
     a \<leftarrow> elem_at xs p0;
     b \<leftarrow> elem_at xs start;
     if cmp a b \<le> 0 \<and> p0 * sz < end' * sz then up_loop cmp sz start end' xs (p0 + 1) else Some p0
   }"

partial_function (option) down_loop :: "(elem \<Rightarrow> elem \<Rightarrow> int) \<Rightarrow> nat \<Rightarrow> nat \<Rightarrow> elem list \<Rightarrow> nat \<Rightarrow> nat option" where
  "down_loop cmp sz start xs p1 = do {
     a \<leftarrow> elem_at xs p1;
     b \<leftarrow> elem_at xs start;
     if cmp a b \<ge> 0 \<and> p1 * sz > start * sz then down_loop cmp sz start xs (p1 - 1) else Some p1
   }"

partial_function (option) part_loop ::
    "(elem \<Rightarrow> elem \<Rightarrow> int) \<Rightarrow> nat \<Rightarrow> nat \<Rightarrow> nat \<Rightarrow> nat \<Rightarrow> nat \<Rightarrow> elem list \<Rightarrow> (nat \<times> elem list) option" where
  "part_loop cmp sz start end' p0 p1 xs =
     (if p0 * sz < p1 * sz then do {
        p0' \<leftarrow> up_loop cmp sz start end' xs p0;
        p1' \<leftarrow> down_loop cmp sz start xs p1;
        part_loop cmp sz start end' p0' p1' (if p0' * sz < p1' * sz then swap p0' p1' sz xs else xs)
      }
      else Some (p1, xs))"

partial_function (option) sub_sort ::
    "(elem \<Rightarrow> elem \<Rightarrow> int) \<Rightarrow> nat \<Rightarrow> nat \<Rightarrow> nat \<Rightarrow> elem list \<Rightarrow> elem list option" where
  "sub_sort cmp sz start end' xs =
     (if int (start * sz) > int (end' * sz) - int sz then Some xs
      else do {
        (p1, xs1) \<leftarrow> part_loop cmp sz start end' start end' xs;
        let xs2 = swap start p1 sz xs1;
        xs3 \<leftarrow> sub_sort cmp sz start p1 xs2;
        sub_sort cmp sz (p1 + 1) end' xs3
      })"

text \<open>The number of elements is the length of the list.\<close>

definition qsort :: "(elem \<Rightarrow> elem \<Rightarrow> int) \<Rightarrow> nat \<Rightarrow> elem list \<Rightarrow> elem list option" where
  "qsort cmp sz xs = (if length xs = 0 then Some xs else sub_sort cmp sz 0 (length xs - 1) xs)"

section \<open>Searching\<close>

partial_function (option) bsearch_loop ::
    "(elem \<Rightarrow> elem \<Rightarrow> int) \<Rightarrow> elem \<Rightarrow> elem list \<Rightarrow> nat \<Rightarrow> nat \<Rightarrow> nat option option" where
  "bsearch_loop cmp key xs s e = do {
     let i = s + e div 2;
     p \<leftarrow> elem_at xs i;
     let r = cmp p key;
     if r = 0 then Some (Some i)
     else
       let e' = (if r > 0 then i else e); s' = (if r > 0 then s else i + 1)
       in if s' < e' then bsearch_loop cmp key xs s' e' else Some None
   }"

definition bsearch :: "(elem \<Rightarrow> elem \<Rightarrow> int) \<Rightarrow> elem \<Rightarrow> elem list \<Rightarrow> nat option option" where
  "bsearch cmp key xs = bsearch_loop cmp key xs 0 (length xs)"

section \<open>Characters and numbers\<close>

abbreviation (input) ord_of :: "char \<Rightarrow> nat" where "ord_of c \<equiv> of_char c"

definition isdigit :: "nat \<Rightarrow> bool" where "isdigit c \<longleftrightarrow> c \<ge> 48 \<and> c \<le> 57"
definition isupper :: "nat \<Rightarrow> bool" where "isupper c \<longleftrightarrow> c \<ge> 65 \<and> c \<le> 90"
definition islower :: "nat \<Rightarrow> bool" where "islower c \<longleftrightarrow> c \<ge> 97 \<and> c \<le> 122"
definition isalpha :: "nat \<Rightarrow> bool" where "isalpha c \<longleftrightarrow> islower c \<or> isupper c"
definition isalnum :: "nat \<Rightarrow> bool" where "isalnum c \<longleftrightarrow> isalpha c \<or> isdigit c"
definition iscntrl :: "nat \<Rightarrow> bool" where "iscntrl c \<longleftrightarrow> c < 32"
definition isprint :: "nat \<Rightarrow> bool" where "isprint c \<longleftrightarrow> c \<ge> 32 \<and> c < 127"
definition isspace :: "nat \<Rightarrow> bool" where "isspace c \<longleftrightarrow> c = 32 \<or> c = 9 \<or> c = 13 \<or> c = 10 \<or> c = 11 \<or> c = 10"
definition isgraph :: "nat \<Rightarrow> bool" where "isgraph c \<longleftrightarrow> isprint c \<and> \<not> isspace c"
definition ispunct :: "nat \<Rightarrow> bool" where "ispunct c \<longleftrightarrow> isprint c \<and> \<not> isalnum c \<and> \<not> isspace c"
definition isxdigit :: "nat \<Rightarrow> bool" where "isxdigit c \<longleftrightarrow> isdigit c \<or> (c \<ge> 65 \<and> c \<le> 70) \<or> (c \<ge> 97 \<and> c \<le> 102)"
definition tolower :: "int \<Rightarrow> int" where "tolower c = (if c \<ge> 65 \<and> c \<le> 90 then c - 65 + 97 else c)"
definition toupper :: "int \<Rightarrow> int" where "toupper c = (if c \<ge> 97 \<and> c \<le> 122 then c - 97 + 65 else c)"

text \<open>
  A string is the list of its characters before the terminating zero, a pointer into it is the rest of the string. The width of the
  numbers is that of \<open>v\<close>: 32 bits for \<^verbatim>\<open>strtoul\<close>, 64 for \<^verbatim>\<open>strtoull\<close>. The result is the number, the end pointer and whether \<^verbatim>\<open>errno\<close> was set.
\<close>

definition digit_of :: "nat \<Rightarrow> int option" where
  "digit_of c =
     (if isdigit c then Some (int c - 48)
      else if isupper c then Some (int c - 65 + 10)
      else if islower c then Some (int c - 97 + 10)
      else None)"

fun ul_loop :: "int \<Rightarrow> 'w :: len word \<Rightarrow> string \<Rightarrow> 'w word \<times> string \<times> bool" where
  "ul_loop base v [] = (v, [], False)"
| "ul_loop base v (c # cs) =
     (case digit_of (ord_of c) of
        None \<Rightarrow> (v, c # cs, False)
      | Some d \<Rightarrow>
          if d < 0 \<or> d \<ge> base then (v, c # cs, False)
          else
            let v' = v * word_of_int base
            in if v' div word_of_int base \<noteq> v then (v', c # cs, True)
               else ul_loop base (v' + word_of_int d) cs)"

definition skip_space :: "string \<Rightarrow> string" where
  "skip_space cs = dropWhile (\<lambda>c. isspace (ord_of c)) cs"

definition has_0x :: "string \<Rightarrow> bool" where
  "has_0x cs \<longleftrightarrow> length cs \<ge> 2 \<and> cs ! 0 = CHR ''0'' \<and> (cs ! 1 = CHR ''x'' \<or> cs ! 1 = CHR ''X'')"

definition strtoul :: "string \<Rightarrow> int \<Rightarrow> 'w :: len word \<times> string \<times> bool" where
  "strtoul nptr base =
     (let p = skip_space nptr
      in if base = 0 then
           if has_0x p then ul_loop 16 0 (drop 2 p)
           else if p \<noteq> [] \<and> hd p = CHR ''0'' then ul_loop 8 0 (tl p)
           else ul_loop 10 0 p
         else ul_loop base 0 (if base = 16 \<and> has_0x p then drop 2 p else p))"

text \<open>The end pointer is not set when the number is out of range.\<close>

definition strtol :: "'w :: len itself \<Rightarrow> string \<Rightarrow> int \<Rightarrow> int \<times> string option \<times> bool" where
  "strtol T nptr base =
     (let p = skip_space nptr;
          neg = (p \<noteq> [] \<and> hd p = CHR ''-'');
          q = (if p \<noteq> [] \<and> (hd p = CHR ''-'' \<or> hd p = CHR ''+'') then tl p else p);
          (uv, ep, er) = strtoul q base :: 'w word \<times> string \<times> bool;
          lmax = 2 ^ (LENGTH('w) - 1) - 1
      in if neg then
           if uint uv > lmax + 1 then (- lmax - 1, None, True) else (sint (- uv), Some ep, er)
         else if uint uv > 2 ^ 63 - 1 then (lmax, None, True)
         else (sint uv, Some ep, er))"

definition atoi :: "string \<Rightarrow> int" where
  "atoi nptr = fst (strtol TYPE(32) nptr 10)"

definition strtoull :: "string \<Rightarrow> int \<Rightarrow> 64 word \<times> string \<times> bool" where
  "strtoull nptr base = strtoul nptr base"

definition strtoll :: "string \<Rightarrow> int \<Rightarrow> int \<times> string option \<times> bool" where
  "strtoll nptr base = strtol TYPE(64) nptr base"

definition atol :: "'w :: len itself \<Rightarrow> string \<Rightarrow> int" where
  "atol T nptr = fst (strtol T nptr 10)"

text \<open>The result of \<^verbatim>\<open>atoll\<close> is a \<^verbatim>\<open>long\<close>, whose width is \<open>'w\<close>.\<close>

definition atoll :: "'w :: len itself \<Rightarrow> string \<Rightarrow> int" where
  "atoll T nptr = sint (word_of_int (fst (strtoll nptr 10)) :: 'w word)"

definition abs_c :: "32 word \<Rightarrow> 32 word" where
  "abs_c v = (if sint v < 0 then - v else v)"

definition labs :: "'w :: len word \<Rightarrow> 'w word" where
  "labs v = (if sint v < 0 then - v else v)"

definition imaxabs :: "64 word \<Rightarrow> 64 word" where
  "imaxabs v = (if sint v < 0 then - v else v)"

definition llabs :: "64 word \<Rightarrow> 64 word" where
  "llabs v = (if sint v < 0 then - v else 0)"

text \<open>Quotient and remainder; \<open>None\<close> is the trap of the division.\<close>

record 'a div_t =
  quot :: 'a
  rem :: 'a

definition ldiv :: "'w :: len word \<Rightarrow> 'w word \<Rightarrow> 'w word div_t option" where
  "ldiv num den =
     (if den = 0 \<or> (sint num = - (2 ^ (LENGTH('w) - 1)) \<and> sint den = -1) then None
      else Some \<lparr>quot = word_of_int (sint num sdiv sint den), rem = word_of_int (sint num smod sint den)\<rparr>)"

definition div_c :: "32 word \<Rightarrow> 32 word \<Rightarrow> 32 word div_t option" where
  "div_c num den = ldiv num den"

definition lldiv :: "64 word \<Rightarrow> 64 word \<Rightarrow> 64 word div_t option" where
  "lldiv num den = ldiv num den"

definition imaxdiv :: "64 word \<Rightarrow> 64 word \<Rightarrow> 64 word div_t option" where
  "imaxdiv num den = ldiv num den"

text \<open>The generator of random numbers; the state is \<^verbatim>\<open>rand_st\<close>.\<close>

definition srand :: "32 word \<Rightarrow> 32 word" where
  "srand seed = (let st = seed AND 0xffff in if st = 0 then 1 else st)"

definition rand :: "32 word \<Rightarrow> 32 word \<times> 32 word" where
  "rand st = (let st' = (st * 3 + 7) AND 0xffff in (drop_bit 1 st' AND 0x7fff, st'))"

section \<open>Exchanging elements\<close>

lemma swap_loop_neq:
  assumes "i \<noteq> j" and "i < length xs" and "j < length xs" and "length (xs ! i) = k + n" and "length (xs ! j) = k + n"
  shows "swap_loop i j k n xs = xs[i := take k (xs ! i) @ drop k (xs ! j), j := take k (xs ! j) @ drop k (xs ! i)]"
  using assms
proof (induction n arbitrary: k xs)
  case (Suc n)
  let ?a = "xs ! i" and ?b = "xs ! j"
  let ?xs = "xs[i := ?a[k := ?b ! k], j := ?b[k := ?a ! k]]"
  have cut: "take (Suc k) (y[k := z ! k]) @ drop (Suc k) (z[k := w]) = take k y @ drop k z" if "k < length y" "k < length z" for y z :: "8 word list" and w
    using that by (simp add: take_Suc_conv_app_nth Cons_nth_drop_Suc)
  have "swap_loop i j k (Suc n) xs = swap_loop i j (Suc k) n ?xs" using Suc.prems(1,2,3) by (simp add: Let_def)
  also have "\<dots> = ?xs[i := take (Suc k) (?xs ! i) @ drop (Suc k) (?xs ! j), j := take (Suc k) (?xs ! j) @ drop (Suc k) (?xs ! i)]"
    by (rule Suc.IH) (use Suc.prems in auto)
  also have "\<dots> = xs[i := take k ?a @ drop k ?b, j := take k ?b @ drop k ?a]"
    using Suc.prems cut [of ?a ?b] cut [of ?b ?a] by (simp add: list_update_swap [of i j])
  finally show ?case .
qed simp

lemma swap_same: "i < length xs \<Longrightarrow> swap_loop i i k n xs = xs"
  by (induction n arbitrary: k) (simp_all add: Let_def)

lemma swap_eq:
  assumes "i < length xs" and "j < length xs" and "length (xs ! i) = n" and "length (xs ! j) = n"
  shows "swap i j n xs = xs[i := xs ! j, j := xs ! i]"
  using assms swap_loop_neq [of i j xs 0 n] swap_same [of i xs] by (cases "i = j") (simp_all add: swap_def)

text \<open>Rearranging the elements from \<open>s\<close> to \<open>e\<close>.\<close>

definition arr :: "nat \<Rightarrow> elem list \<Rightarrow> bool" where
  "arr n xs \<longleftrightarrow> (\<forall>x \<in> set xs. length x = n)"

definition keeps :: "nat \<Rightarrow> nat \<Rightarrow> elem list \<Rightarrow> elem list \<Rightarrow> bool" where
  "keeps s e xs ys \<longleftrightarrow> length ys = length xs \<and> mset ys = mset xs \<and> (\<forall>q. q < s \<or> e < q \<longrightarrow> ys ! q = xs ! q)"

lemma arr_nth: "arr n xs \<Longrightarrow> i < length xs \<Longrightarrow> length (xs ! i) = n"
  by (simp add: arr_def)

lemma keeps_arr: "keeps s e xs ys \<Longrightarrow> arr n ys = arr n xs"
  by (metis arr_def keeps_def set_mset_mset)

lemma keeps_refl: "keeps s e xs xs"
  by (simp add: keeps_def)

lemma keeps_trans: "keeps s e xs ys \<Longrightarrow> keeps s' e' ys zs \<Longrightarrow> s \<le> s' \<Longrightarrow> e' \<le> e \<Longrightarrow> keeps s e xs zs"
  by (auto simp: keeps_def)

lemma keeps_swap:
  assumes "arr n xs" and "s \<le> i" and "i \<le> e" and "s \<le> j" and "j \<le> e" and "e < length xs"
  shows "keeps s e xs (swap i j n xs)" "swap i j n xs = xs[i := xs ! j, j := xs ! i]"
proof -
  show eq: "swap i j n xs = xs[i := xs ! j, j := xs ! i]" using assms by (intro swap_eq) (auto simp: arr_nth)
  have "mset (xs[i := xs ! j, j := xs ! i]) = mset xs" using mset_swap [of j xs i] assms by simp
  then show "keeps s e xs (swap i j n xs)" unfolding eq using assms by (auto simp: keeps_def)
qed

lemma keeps_range:
  assumes "keeps s e xs ys" and "e < length xs" and "\<And>q. s \<le> q \<Longrightarrow> q \<le> e \<Longrightarrow> P (xs ! q)" and "s \<le> q" and "q \<le> e"
  shows "P (ys ! q)"
proof -
  let ?r = "\<lambda>zs. take (Suc e - s) (drop s zs)"
  have split: "zs = take s zs @ ?r zs @ drop (Suc e) zs" for zs :: "elem list"
    using assms(4,5) append_take_drop_id [of "Suc e - s" "drop s zs"] append_take_drop_id [of s zs] by (simp add: Suc_diff_le)
  have l: "length ys = length xs" using assms(1) by (simp add: keeps_def)
  have "take s ys = take s xs" "drop (Suc e) ys = drop (Suc e) xs"
    using assms(1) l by (auto intro!: nth_equalityI simp: keeps_def)
  then have "mset (?r ys) = mset (?r xs)"
    using assms(1) arg_cong [OF split [of xs], of mset] arg_cong [OF split [of ys], of mset] by (simp add: keeps_def)
  then have eq: "set (?r ys) = set (?r xs)" by (metis set_mset_mset)
  have "ys ! q = ?r ys ! (q - s)" "q - s < length (?r ys)" using assms(2,4,5) l by simp_all
  then have "ys ! q \<in> set (?r xs)" using eq by (metis nth_mem)
  then obtain k where "k < Suc e - s" "ys ! q = ?r xs ! k" "s + k < length xs" by (auto simp: in_set_conv_nth)
  then show ?thesis using assms(3) [of "s + k"] by simp
qed

section \<open>What the comparison promises\<close>

locale comparison =
  fixes n :: nat and cmp :: "elem \<Rightarrow> elem \<Rightarrow> int"
  assumes cmp_refl: "length a = n \<Longrightarrow> cmp a a = 0"
    and cmp_sym: "length a = n \<Longrightarrow> length b = n \<Longrightarrow> cmp a b < 0 \<longleftrightarrow> cmp b a > 0"
    and cmp_trans: "length a = n \<Longrightarrow> length b = n \<Longrightarrow> length c = n \<Longrightarrow> cmp a b \<le> 0 \<Longrightarrow> cmp b c \<le> 0 \<Longrightarrow> cmp a c \<le> 0"

text \<open>The elements of an array that can be sorted take room.\<close>

locale sized_comparison = comparison +
  assumes size_pos: "0 < n"
begin

declare size_pos [simp]

lemma addr_small [simp]: "int p * int n > int q * int n - int n \<longleftrightarrow> \<not> p < q"
proof -
  have "int q * int n - int n = (int q - 1) * int n" by (simp add: algebra_simps)
  moreover have "0 < int n" by (simp only: size_pos of_nat_0_less_iff)
  ultimately have "int p * int n > int q * int n - int n \<longleftrightarrow> int p > int q - 1" using mult_less_cancel_right_pos [of "int n" "int q - 1" "int p"] by (simp only:)
  then show ?thesis by auto
qed

lemma up_spec:
  assumes "s \<le> p" and "p \<le> e" and "e < length xs"
  shows "\<exists>p'. up_loop cmp n s e xs p = Some p' \<and> p \<le> p' \<and> p' \<le> e \<and> (\<forall>q. p \<le> q \<and> q < p' \<longrightarrow> cmp (xs ! q) (xs ! s) \<le> 0) \<and>
           (p' < e \<longrightarrow> cmp (xs ! p') (xs ! s) > 0)"
  using assms
proof (induction "e - p" arbitrary: p)
  case 0
  then show ?case by (subst up_loop.simps) (simp add: elem_at_def)
next
  case (Suc k)
  show ?case
  proof (cases "cmp (xs ! p) (xs ! s) \<le> 0")
    case True
    have "k = e - (p + 1)" "s \<le> p + 1" "p + 1 \<le> e" using Suc by auto
    then obtain p' where p': "up_loop cmp n s e xs (p + 1) = Some p'" "p + 1 \<le> p'" "p' \<le> e"
        "\<forall>q. p + 1 \<le> q \<and> q < p' \<longrightarrow> cmp (xs ! q) (xs ! s) \<le> 0" "p' < e \<longrightarrow> cmp (xs ! p') (xs ! s) > 0"
      using Suc(1) [of "p + 1"] Suc.prems(3) by blast
    have "up_loop cmp n s e xs p = Some p'" using p'(1) True Suc.prems \<open>p + 1 \<le> e\<close> by (subst up_loop.simps) (simp add: elem_at_def)
    moreover have "cmp (xs ! q) (xs ! s) \<le> 0" if "p \<le> q" "q < p'" for q
      using that p'(4) True by (cases "q = p") auto
    ultimately show ?thesis using p' by auto
  next
    case False
    then show ?thesis using Suc by (subst up_loop.simps) (auto simp: elem_at_def)
  qed
qed

lemma down_spec:
  assumes "s \<le> p" and "p < length xs"
  shows "\<exists>p'. down_loop cmp n s xs p = Some p' \<and> s \<le> p' \<and> p' \<le> p \<and> (\<forall>q. p' < q \<and> q \<le> p \<longrightarrow> cmp (xs ! q) (xs ! s) \<ge> 0) \<and>
           (p' > s \<longrightarrow> cmp (xs ! p') (xs ! s) < 0)"
  using assms
proof (induction "p - s" arbitrary: p)
  case 0
  then show ?case by (subst down_loop.simps) (simp add: elem_at_def)
next
  case (Suc k)
  show ?case
  proof (cases "cmp (xs ! p) (xs ! s) \<ge> 0")
    case True
    have lt: "s < p" using Suc(2) by simp
    have "k = p - 1 - s" "s \<le> p - 1" "p - 1 < length xs" using Suc by auto
    then obtain p' where p': "down_loop cmp n s xs (p - 1) = Some p'" "s \<le> p'" "p' \<le> p - 1"
        "\<forall>q. p' < q \<and> q \<le> p - 1 \<longrightarrow> cmp (xs ! q) (xs ! s) \<ge> 0" "p' > s \<longrightarrow> cmp (xs ! p') (xs ! s) < 0"
      using Suc(1) [of "p - 1"] by blast
    have "down_loop cmp n s xs p = Some p'" using p'(1) True Suc.prems lt by (subst down_loop.simps) (simp add: elem_at_def)
    moreover have "cmp (xs ! q) (xs ! s) \<ge> 0" if "p' < q" "q \<le> p" for q
      using that p'(4) True by (cases "q = p") auto
    ultimately show ?thesis using p' by auto
  next
    case False
    then show ?thesis using Suc by (subst down_loop.simps) (auto simp: elem_at_def)
  qed
qed

lemma cmp_flip: "length a = n \<Longrightarrow> length b = n \<Longrightarrow> cmp a b \<ge> 0 \<longleftrightarrow> cmp b a \<le> 0"
  using cmp_sym by (metis not_le)

lemma part_spec:
  assumes "p0 < p1" and "s \<le> p0" and "p1 \<le> e" and "e < length xs" and "arr n xs" and "cmp (xs ! p0) (xs ! s) \<le> 0"
    and "\<forall>q. s \<le> q \<and> q < p0 \<longrightarrow> cmp (xs ! q) (xs ! s) \<le> 0" and "\<forall>q. p1 < q \<and> q \<le> e \<longrightarrow> cmp (xs ! q) (xs ! s) \<ge> 0"
  shows "\<exists>r ys. part_loop cmp n s e p0 p1 xs = Some (r, ys) \<and> s \<le> r \<and> r \<le> e \<and> keeps s e xs ys \<and> ys ! s = xs ! s \<and>
           (\<forall>q. s \<le> q \<and> q \<le> r \<longrightarrow> cmp (ys ! q) (xs ! s) \<le> 0) \<and> (\<forall>q. r < q \<and> q \<le> e \<longrightarrow> cmp (ys ! q) (xs ! s) \<ge> 0) \<and>
           (r = e \<longrightarrow> ys = xs \<and> cmp (xs ! e) (xs ! s) < 0)"
  using assms
proof (induction "p1 - p0" arbitrary: p0 p1 xs rule: less_induct)
  case less
  obtain u where u: "up_loop cmp n s e xs p0 = Some u" "p0 \<le> u" "u \<le> e" "\<And>q. p0 \<le> q \<Longrightarrow> q < u \<Longrightarrow> cmp (xs ! q) (xs ! s) \<le> 0"
      "u < e \<Longrightarrow> cmp (xs ! u) (xs ! s) > 0"
    using up_spec [of s p0 e xs] less.prems(1-4) by auto
  obtain d where d: "down_loop cmp n s xs p1 = Some d" "s \<le> d" "d \<le> p1" "\<And>q. d < q \<Longrightarrow> q \<le> p1 \<Longrightarrow> cmp (xs ! q) (xs ! s) \<ge> 0"
      "d > s \<Longrightarrow> cmp (xs ! d) (xs ! s) < 0"
    using down_spec [of s p1 xs] less.prems(1-4) by auto
  have pu: "p0 < u" using u(2,3,5) less.prems(1,3,6) by (cases "u = p0") auto
  have lo: "cmp (xs ! q) (xs ! s) \<le> 0" if "s \<le> q" "q < u" for q using that u(4) less.prems(7) by (cases "q < p0") auto
  have hi: "cmp (xs ! q) (xs ! s) \<ge> 0" if "d < q" "q \<le> e" for q using that d(4) less.prems(8) by (cases "q \<le> p1") auto
  have step: "part_loop cmp n s e p0 p1 xs = part_loop cmp n s e u d (if u < d then swap u d n xs else xs)"
    using less.prems(1) u(1) d(1) by (subst part_loop.simps) simp
  show ?case
  proof (cases "u < d")
    case True
    let ?ys = "xs[u := xs ! d, d := xs ! u]"
    have b: "s \<le> u" "d \<le> e" "s < u" using less.prems(2,3) d(3) pu by auto
    note k = keeps_swap [OF less.prems(5) b(1) u(3) d(2) b(2) less.prems(4)]
    have nth: "?ys ! u = xs ! d" "?ys ! d = xs ! u" "\<And>q. q \<noteq> u \<Longrightarrow> q \<noteq> d \<Longrightarrow> ?ys ! q = xs ! q"
      using True b less.prems(4) u(3) by (simp_all add: nth_list_update)
    have s: "?ys ! s = xs ! s" using nth(3) [of s] b(3) True by simp
    have "\<exists>r ys. part_loop cmp n s e u d ?ys = Some (r, ys) \<and> s \<le> r \<and> r \<le> e \<and> keeps s e ?ys ys \<and> ys ! s = ?ys ! s \<and>
           (\<forall>q. s \<le> q \<and> q \<le> r \<longrightarrow> cmp (ys ! q) (?ys ! s) \<le> 0) \<and> (\<forall>q. r < q \<and> q \<le> e \<longrightarrow> cmp (ys ! q) (?ys ! s) \<ge> 0) \<and>
           (r = e \<longrightarrow> ys = ?ys \<and> cmp (?ys ! e) (?ys ! s) < 0)"
    proof (rule less.hyps)
      show "d - u < p1 - p0" using True pu d(3) by linarith
      show "arr n ?ys" using keeps_arr [OF k(1)] k(2) less.prems(5) by simp
      show "cmp (?ys ! u) (?ys ! s) \<le> 0" using nth(1) s d(5) b(3) True by simp
      show "\<forall>q. s \<le> q \<and> q < u \<longrightarrow> cmp (?ys ! q) (?ys ! s) \<le> 0" using nth(3) s lo True by auto
      show "\<forall>q. d < q \<and> q \<le> e \<longrightarrow> cmp (?ys ! q) (?ys ! s) \<ge> 0" using nth(3) s hi True by auto
    qed (use True b less.prems(4) in auto)
    then obtain r ys where r: "part_loop cmp n s e u d ?ys = Some (r, ys)" "s \<le> r" "r \<le> e" "keeps s e ?ys ys" "ys ! s = xs ! s"
        "\<forall>q. s \<le> q \<and> q \<le> r \<longrightarrow> cmp (ys ! q) (xs ! s) \<le> 0" "\<forall>q. r < q \<and> q \<le> e \<longrightarrow> cmp (ys ! q) (xs ! s) \<ge> 0"
        "r = e \<longrightarrow> ys = ?ys \<and> cmp (?ys ! e) (?ys ! s) < 0" unfolding s by blast
    have "r \<noteq> e"
    proof
      assume e: "r = e"
      then have c: "cmp (?ys ! e) (xs ! s) < 0" using r(8) s by simp
      show False
      proof (cases "d = e")
        case True
        then show False using c nth(2) u(5) \<open>u < d\<close> by simp
      next
        case False
        then show False using c nth(3) [of e] hi [of e] b(2) True by simp
      qed
    qed
    then show ?thesis using r True step k keeps_trans [OF k(1)] by auto
  next
    case False
    have "part_loop cmp n s e p0 p1 xs = Some (d, xs)" using step False by (subst (asm) part_loop.simps) simp
    moreover have "cmp (xs ! q) (xs ! s) \<le> 0" if "s \<le> q" "q \<le> d" for q
    proof (cases "q = d")
      case True
      have "length (xs ! s) = n" using less.prems(1-5) by (intro arr_nth) auto
      then show ?thesis using True d(2,5) cmp_refl by (cases "d = s") auto
    next
      case q: False
      then show ?thesis using that False lo by auto
    qed
    moreover have "d = e \<longrightarrow> cmp (xs ! e) (xs ! s) < 0" using d(5) less.prems(1,2,3) by auto
    ultimately show ?thesis using d(2,3) hi less.prems(3) keeps_refl by auto
  qed
qed

definition sorted_on :: "nat \<Rightarrow> nat \<Rightarrow> elem list \<Rightarrow> bool" where
  "sorted_on s e xs \<longleftrightarrow> (\<forall>a b. s \<le> a \<and> a < b \<and> b \<le> e \<longrightarrow> cmp (xs ! a) (xs ! b) \<le> 0)"

definition work :: "nat \<Rightarrow> nat \<Rightarrow> elem list \<Rightarrow> nat" where
  "work s e xs = 2 * (e - s) + (if cmp (xs ! e) (xs ! s) < 0 then 1 else 0)"

lemma sub_sort_spec:
  assumes "arr n xs" and "e < length xs"
  shows "\<exists>ys. sub_sort cmp n s e xs = Some ys \<and> keeps s e xs ys \<and> sorted_on s e ys"
  using assms
proof (induction "work s e xs" arbitrary: s e xs rule: less_induct)
  case less
  show ?case
  proof (cases "s < e")
    case False
    then show ?thesis using keeps_refl by (subst sub_sort.simps) (auto simp: sorted_on_def)
  next
    case True
    have len: "length (xs ! q) = n" if "q \<le> e" for q using that less.prems by (intro arr_nth) auto
    have i: "cmp (xs ! s) (xs ! s) \<le> 0" using cmp_refl len True by simp
    obtain r ys where r: "part_loop cmp n s e s e xs = Some (r, ys)" "s \<le> r" "r \<le> e" "keeps s e xs ys" "ys ! s = xs ! s"
        "\<And>q. s \<le> q \<Longrightarrow> q \<le> r \<Longrightarrow> cmp (ys ! q) (xs ! s) \<le> 0" "\<And>q. r < q \<Longrightarrow> q \<le> e \<Longrightarrow> cmp (ys ! q) (xs ! s) \<ge> 0"
        "r = e \<Longrightarrow> ys = xs \<and> cmp (xs ! e) (xs ! s) < 0"
      using part_spec [of s e s e xs] True less.prems i by auto
    have l1: "length ys = length xs" "arr n ys" using r(4) keeps_arr [OF r(4)] less.prems(1) by (simp_all add: keeps_def)
    let ?zs = "swap s r n ys"
    have zs: "?zs = ys[s := ys ! r, r := ys ! s]" "keeps s e ys ?zs"
      using keeps_swap [OF l1(2), of s s e r] r(2,3) True l1(1) less.prems(2) by auto
    have kz: "keeps s e xs ?zs" by (rule keeps_trans [OF r(4) zs(2)]) simp_all
    have az: "arr n ?zs" "length ?zs = length xs" using keeps_arr [OF kz] kz less.prems(1) by (simp_all add: keeps_def)
    have nth: "?zs ! r = xs ! s" "?zs ! s = ys ! r" "\<And>q. q \<noteq> s \<Longrightarrow> q \<noteq> r \<Longrightarrow> ?zs ! q = ys ! q"
      unfolding zs(1) using r(2,3,5) l1(1) less.prems(2) by (simp_all add: nth_list_update)
    have lo: "cmp (?zs ! q) (xs ! s) \<le> 0" if "s \<le> q" "q \<le> r" for q
      using that nth r(2,6) i by (cases "q = r"; cases "q = s") auto
    have hi: "cmp (?zs ! q) (xs ! s) \<ge> 0" if "r < q" "q \<le> e" for q using that nth(3) r(2,7) by auto
    have "work s r ?zs < work s e xs"
    proof (cases "r = e")
      case True
      then have "?zs ! e = xs ! s" "?zs ! s = xs ! e" "cmp (xs ! e) (xs ! s) < 0" using nth(1,2) r(8) by auto
      then show ?thesis using True cmp_sym [of "xs ! e" "xs ! s"] len \<open>s < e\<close> by (simp add: work_def)
    qed (use r(2,3) True in \<open>auto simp: work_def\<close>)
    then obtain vs where vs: "sub_sort cmp n s r ?zs = Some vs" "keeps s r ?zs vs" "sorted_on s r vs"
      using less.hyps [of s r ?zs] az less.prems(2) r(3) by auto
    have av: "arr n vs" "length vs = length xs" using keeps_arr [OF vs(2)] vs(2) az by (simp_all add: keeps_def)
    have "work (r + 1) e vs < work s e xs" using r(2) True by (auto simp: work_def)
    then obtain ws where ws: "sub_sort cmp n (r + 1) e vs = Some ws" "keeps (r + 1) e vs ws" "sorted_on (r + 1) e ws"
      using less.hyps [of "r + 1" e vs] av less.prems(2) by auto
    have kw: "keeps s e xs ws" using keeps_trans [OF keeps_trans [OF kz vs(2)] ws(2)] r(2,3) by simp
    have run: "sub_sort cmp n s e xs = Some ws" using True r(1) vs(1) ws(1) by (subst sub_sort.simps) (simp add: Let_def)
    have low: "ws ! q = vs ! q" if "q \<le> r" for q using that ws(2) by (simp add: keeps_def)
    have L: "cmp (ws ! q) (xs ! s) \<le> 0" if "s \<le> q" "q \<le> r" for q
      using keeps_range [OF vs(2), of "\<lambda>x. cmp x (xs ! s) \<le> 0" q] lo that low az(2) r(3) less.prems(2) by auto
    have H: "cmp (ws ! q) (xs ! s) \<ge> 0" if "r < q" "q \<le> e" for q
    proof (rule keeps_range [OF ws(2)])
      show "e < length vs" using av(2) less.prems(2) by simp
      show "cmp (vs ! x) (xs ! s) \<ge> 0" if "r + 1 \<le> x" "x \<le> e" for x using that hi [of x] vs(2) by (simp add: keeps_def)
    qed (use that in auto)
    have lw: "length (ws ! q) = n" if "q \<le> e" for q
      using that keeps_arr [OF kw] kw less.prems by (intro arr_nth) (auto simp: keeps_def)
    have "cmp (ws ! a) (ws ! b) \<le> 0" if ab: "s \<le> a" "a < b" "b \<le> e" for a b
    proof (cases "b \<le> r")
      case True
      then show ?thesis using vs(3) ab low by (auto simp: sorted_on_def)
    next
      case b: False
      show ?thesis
      proof (cases "a \<le> r")
        case a: True
        have "cmp (xs ! s) (ws ! b) \<le> 0" using H [of b] b ab cmp_flip [of "ws ! b" "xs ! s"] lw len True by simp
        then show ?thesis using cmp_trans [of "ws ! a" "xs ! s" "ws ! b"] L [of a] a ab lw len True by simp
      next
        case False
        then show ?thesis using ws(3) ab by (auto simp: sorted_on_def)
      qed
    qed
    then show ?thesis using run kw by (auto simp: sorted_on_def)
  qed
qed

lemma qsort_spec:
  assumes "arr n xs"
  shows "\<exists>ys. qsort cmp n xs = Some ys \<and> mset ys = mset xs \<and> sorted_wrt (\<lambda>a b. cmp a b \<le> 0) ys"
proof (cases "xs = []")
  case True
  then show ?thesis by (simp add: qsort_def)
next
  case False
  then obtain ys where "sub_sort cmp n 0 (length xs - 1) xs = Some ys" "keeps 0 (length xs - 1) xs ys" "sorted_on 0 (length xs - 1) ys"
    using sub_sort_spec [OF assms, of "length xs - 1" 0] by auto
  then show ?thesis using False by (auto simp: qsort_def keeps_def sorted_on_def sorted_wrt_iff_nth_less)
qed

end

text \<open>The comparison of two elements with \<^verbatim>\<open>memcmp\<close>: one lies in front of the other in memory.\<close>

definition mem_of :: "8 word list \<Rightarrow> cmem" where
  "mem_of bs = (\<lambda>i. if i < length bs then bs ! i else 0)"

definition cmp_bytes :: "nat \<Rightarrow> elem \<Rightarrow> elem \<Rightarrow> int" where
  "cmp_bytes n a b = memcmp 0 n n (mem_of (a @ b))"

lemma memcmp_lex:
  assumes "length xs = k" and "length ys = k" and "\<And>i. i < k \<Longrightarrow> m (p + i) = xs ! i" and "\<And>i. i < k \<Longrightarrow> m (q + i) = ys ! i"
  shows "memcmp p q k m = lex_sign xs ys"
  using assms
proof (induction k arbitrary: p q xs ys)
  case (Suc k)
  obtain x xs' y ys' where xy: "xs = x # xs'" "ys = y # ys'" using Suc.prems(1,2) by (auto simp: length_Suc_conv)
  have "m p = x" "m q = y" using Suc.prems(3,4) [of 0] xy by auto
  moreover have "memcmp (p + 1) (q + 1) k m = lex_sign xs' ys'"
  proof (rule Suc.IH)
    fix i assume "i < k"
    then show "m (p + 1 + i) = xs' ! i" "m (q + 1 + i) = ys' ! i" using Suc.prems(3,4) [of "Suc i"] xy by auto
  qed (use Suc.prems xy in auto)
  ultimately show ?case using xy by simp
qed simp

lemma cmp_bytes_lex: "length a = n \<Longrightarrow> length b = n \<Longrightarrow> cmp_bytes n a b = lex_sign a b"
  unfolding cmp_bytes_def by (rule memcmp_lex) (simp_all add: mem_of_def nth_append)

lemma lex_sign_flip: "lex_sign a b = - lex_sign b a"
  by (induction a b rule: lex_sign.induct) auto

lemma lex_sign_trans: "lex_sign a b \<le> 0 \<Longrightarrow> lex_sign b c \<le> 0 \<Longrightarrow> lex_sign a c \<le> 0"
proof (induction a b arbitrary: c rule: lex_sign.induct)
  case (2 y ys)
  then show ?case by (cases c) auto
next
  case (4 x xs y ys)
  then show ?case by (cases c) (auto split: if_splits)
qed auto

interpretation byte_order: comparison n "cmp_bytes n" for n
proof unfold_locales
  fix a b c :: elem
  assume a: "length a = n"
  then show "cmp_bytes n a a = 0" by (simp add: cmp_bytes_lex)
  assume b: "length b = n"
  then show "cmp_bytes n a b < 0 \<longleftrightarrow> cmp_bytes n b a > 0" using a lex_sign_flip [of a b] by (simp add: cmp_bytes_lex)
  assume "length c = n" "cmp_bytes n a b \<le> 0" "cmp_bytes n b c \<le> 0"
  then show "cmp_bytes n a c \<le> 0" using a b lex_sign_trans [of a b c] by (simp add: cmp_bytes_lex)
qed

interpretation sized_byte_order: sized_comparison "Suc n" "cmp_bytes (Suc n)" for n
  by unfold_locales simp

text \<open>Elements of size 0 are never sorted: the code calls itself with the same arguments for ever.\<close>

lemma sub_sort_zero: "sub_sort cmp 0 s e xs = None"
proof -
  have "sz \<noteq> 0" if "sub_sort cmp sz s e xs = Some r" for sz s e xs r
  proof (rule sub_sort.raw_induct [where P = "\<lambda>cmp sz s e xs r. sz \<noteq> 0", OF _ that])
    fix f and cmp :: "elem \<Rightarrow> elem \<Rightarrow> int" and sz s e xs r
    assume IH: "\<And>cmp sz s e xs r. f cmp sz s e xs = Some r \<Longrightarrow> sz \<noteq> 0"
      and b: "(if int (s * sz) > int (e * sz) - int sz then Some xs
        else Option.bind (part_loop cmp sz s e s e xs) (\<lambda>(p1, xs1). let xs2 = swap s p1 sz xs1 in
          Option.bind (f cmp sz s p1 xs2) (\<lambda>xs3. f cmp sz (p1 + 1) e xs3))) = Some r"
    show "sz \<noteq> 0"
    proof
      assume "sz = 0"
      then show False using b by (auto simp: Let_def split: Option.bind_splits prod.splits dest: IH)
    qed
  qed
  then show ?thesis by (cases "sub_sort cmp 0 s e xs") blast+
qed

lemma qsort_zero: "xs \<noteq> [] \<Longrightarrow> qsort cmp 0 xs = None"
  by (simp add: qsort_def sub_sort_zero)

text \<open>
  C36: \<^verbatim>\<open>qsort\<close> sorts: for elements that take room and every comparison that orders them totally it ends, touches nothing outside the array, and
  the array afterwards holds the same elements in ascending order.
\<close>

theorem qsort_sorts:
  assumes "comparison n cmp" and "0 < n" and "\<forall>x \<in> set xs. length x = n"
  shows "\<exists>ys. qsort cmp n xs = Some ys \<and> mset ys = mset xs \<and> sorted_wrt (\<lambda>a b. cmp a b \<le> 0) ys"
  using sized_comparison.qsort_spec [OF sized_comparison.intro, OF assms(1) sized_comparison_axioms.intro, OF assms(2)] assms(3) by (simp add: arr_def)

theorem qsort_sorts_witness: "\<exists>ys. qsort (cmp_bytes 1) 1 [[3], [1], [2]] = Some ys \<and> mset ys = {#[1], [2], [3]#}"
  using qsort_sorts [OF byte_order.comparison_axioms, of 1 "[[3], [1], [2]]"] by (auto simp: add_mset_commute)

section \<open>Binary search\<close>

text \<open>What is found is equal to the key.\<close>

lemma bsearch_found:
  assumes "bsearch cmp key xs = Some (Some i)"
  shows "i < length xs \<and> cmp (xs ! i) key = 0"
proof -
  have "(\<forall>i. r = Some i \<longrightarrow> i < length xs \<and> cmp (xs ! i) key = 0)" if "bsearch_loop cmp key xs s e = Some r" for s e r
  proof (rule bsearch_loop.raw_induct [where P = "\<lambda>cmp key xs s e r. \<forall>i. r = Some i \<longrightarrow> i < length xs \<and> cmp (xs ! i) key = 0", OF _ that])
    fix f and cmp :: "elem \<Rightarrow> elem \<Rightarrow> int" and key xs s e r
    assume IH: "\<And>cmp key xs s e r. f cmp key xs s e = Some r \<Longrightarrow> \<forall>i. r = Some i \<longrightarrow> i < length xs \<and> cmp (xs ! i) key = (0 :: int)"
      and b: "(let i = s + e div 2 in Option.bind (elem_at xs i) (\<lambda>p. let r = cmp p key in
           if r = 0 then Some (Some i)
           else let e' = (if r > 0 then i else e); s' = (if r > 0 then s else i + 1) in if s' < e' then f cmp key xs s' e' else Some None)) = Some r"
    then show "\<forall>i. r = Some i \<longrightarrow> i < length xs \<and> cmp (xs ! i) key = 0"
      by (auto simp: Let_def elem_at_def split: if_splits Option.bind_splits)
  qed
  then show ?thesis using assms by (simp add: bsearch_def)
qed

text \<open>
  The middle is computed as \<^verbatim>\<open>s + e / 2\<close> instead of \<^verbatim>\<open>(s + e) / 2\<close>: whenever the key is behind the middle of the array and more than one element is
  left there, the next access is behind the end of the array.
\<close>

lemma bsearch_beyond:
  assumes "cmp (xs ! (length xs div 2)) key < 0" and "length xs div 2 + 1 < length xs"
  shows "bsearch cmp key xs = None"
proof -
  let ?n = "length xs"
  have "bsearch_loop cmp key xs 0 ?n = bsearch_loop cmp key xs (?n div 2 + 1) ?n"
    using assms by (subst bsearch_loop.simps) (simp add: elem_at_def Let_def)
  also have "\<dots> = None"
  proof -
    have "\<not> ?n div 2 + 1 + ?n div 2 < ?n" by presburger
    then have "elem_at xs (?n div 2 + 1 + ?n div 2) = None" by (simp only: elem_at_def if_False)
    then show ?thesis by (subst bsearch_loop.simps) (simp only: Let_def Option.bind.simps)
  qed
  finally show ?thesis by (simp add: bsearch_def)
qed

section \<open>Reading numbers\<close>

lemma dig_digit: "d < 10 \<Longrightarrow> digit_of (of_char (dig (int d))) = Some (int d)"
  by (simp add: dig_def digit_of_def isdigit_def of_char_of nat_add_distrib nat_mod_distrib)

lemma ul_loop_step:
  assumes "digit_of (of_char c) = Some d" and "0 \<le> d" and "d < base" and "v * word_of_int base = v'" and "v' div word_of_int base = v"
  shows "ul_loop base v (c # cs) = ul_loop base (v' + word_of_int d) cs"
  using assms by simp

lemma ul_loop_dec:
  assumes "n < 2 ^ LENGTH('w)" and "(10 :: nat) < 2 ^ LENGTH('w)"
  shows "ul_loop 10 (0 :: 'w :: len word) (dec_nat n @ cs) = ul_loop 10 (word_of_nat n) cs"
  using assms(1)
proof (induction n arbitrary: cs rule: dec_nat.induct)
  case (1 n)
  let ?q = "n div 10" and ?d = "n mod 10"
  have q: "?q * 10 < 2 ^ LENGTH('w)" "?q < 2 ^ LENGTH('w)" using 1(2) div_times_less_eq_dividend [of n 10] div_le_dividend [of n 10] by linarith+
  have init: "ul_loop 10 0 ((if n < 10 then [] else dec_nat ?q) @ dig (int ?d) # cs) = ul_loop 10 (word_of_nat ?q :: 'w word) (dig (int ?d) # cs)"
    using 1(1) [OF _ q(2)] by (cases "n < 10") auto
  have un: "unat (word_of_nat k :: 'w word) = k" if "k < 2 ^ LENGTH('w)" for k using that by (simp add: unat_of_nat)
  have t: "unat (10 :: 'w word) = 10" using un [OF assms(2)] by simp
  have w: "word_of_nat ?q * word_of_int 10 = (word_of_nat (?q * 10) :: 'w word)" by (simp only: of_nat_mult) simp
  have "unat (word_of_nat (?q * 10) div 10 :: 'w word) = unat (word_of_nat ?q :: 'w word)"
    unfolding unat_div t un [OF q(1)] un [OF q(2)] by simp
  then have "word_of_nat (?q * 10) div 10 = (word_of_nat ?q :: 'w word)" by (simp only: word_unat_eq_iff)
  then have dv: "word_of_nat (?q * 10) div word_of_int 10 = (word_of_nat ?q :: 'w word)" by (simp only: of_int_numeral)
  have "word_of_nat (?q * 10) + word_of_int (int ?d) = (word_of_nat n :: 'w word)"
    by (simp only: of_int_of_nat_eq of_nat_add [symmetric] div_mult_mod_eq)
  moreover have "digit_of (of_char (dig (int ?d))) = Some (int ?d)" by (rule dig_digit) simp
  then have "ul_loop 10 (word_of_nat ?q :: 'w word) (dig (int ?d) # cs) = ul_loop 10 (word_of_nat (?q * 10) + word_of_int (int ?d)) cs"
    by (rule ul_loop_step [OF _ _ _ w dv]) simp_all
  ultimately have "ul_loop 10 (word_of_nat ?q :: 'w word) (dig (int ?d) # cs) = ul_loop 10 (word_of_nat n) cs" by (simp only:)
  then show ?case using init by (subst dec_nat.simps) simp
qed

lemma dec_nat_start: "\<exists>d cs. d < 10 \<and> dec_nat n = dig (int d) # cs"
proof (induction n rule: dec_nat.induct)
  case (1 n)
  show ?case
  proof (cases "n < 10")
    case True
    then show ?thesis by (subst dec_nat.simps) (auto intro!: exI [of _ n])
  next
    case False
    then show ?thesis using 1 by (subst dec_nat.simps) auto
  qed
qed

lemma dig_code: "d < 10 \<Longrightarrow> of_char (dig (int d)) = 48 + d"
  by (simp add: dig_def of_char_of nat_add_distrib nat_mod_distrib)

lemma skip_dec: "skip_space (dec_nat n @ cs) = dec_nat n @ cs" "hd (dec_nat n @ cs) \<noteq> CHR ''-''" "hd (dec_nat n @ cs) \<noteq> CHR ''+''" "dec_nat n \<noteq> []"
proof -
  obtain d ds where d: "d < 10" "dec_nat n = dig (int d) # ds" using dec_nat_start by blast
  have c: "of_char (dig (int d)) = 48 + d" by (rule dig_code [OF d(1)])
  have "dig (int d) \<noteq> x" if "of_char x < (48 :: nat)" for x using c that by auto
  then show "hd (dec_nat n @ cs) \<noteq> CHR ''-''" "hd (dec_nat n @ cs) \<noteq> CHR ''+''" using d(2) by simp_all
  show "skip_space (dec_nat n @ cs) = dec_nat n @ cs" using d(2) c by (simp add: skip_space_def isspace_def)
  show "dec_nat n \<noteq> []" using d(2) by simp
qed

lemma strtoul_dec:
  assumes "n < 2 ^ LENGTH('w)" and "(10 :: nat) < 2 ^ LENGTH('w)"
  shows "strtoul (dec_nat n) 10 = (word_of_nat n :: 'w :: len word, [], False)"
  using ul_loop_dec [OF assms, of "[]"] skip_dec(1) [of n "[]"] by (simp add: strtoul_def)

text \<open>
  C37: Printing and reading numbers are inverse: for every number in the range of the type, \<^verbatim>\<open>strtol\<close> (32 bits) and \<^verbatim>\<open>strtoll\<close> (64 bits) read the
  decimal digits that the conversion \<^verbatim>\<open>%i\<close> prints as exactly this number, the smallest one included, consume all of them
  and report no error.
\<close>

theorem strtol_dec:
  fixes n :: int
  assumes "LENGTH('w :: len) \<in> {32, 64}" and "- (2 ^ (LENGTH('w) - 1)) \<le> n" and "n < 2 ^ (LENGTH('w) - 1)"
  shows "strtol TYPE('w) (dec n) 10 = (n, Some [], False)"
proof -
  let ?L = "LENGTH('w)"
  have p: "(2 :: int) ^ ?L = 2 * 2 ^ (?L - 1)" using assms(1) by (auto simp flip: power_Suc)
  have ten: "(10 :: nat) < 2 ^ ?L" using assms(1) by auto
  have le: "(2 :: int) ^ (?L - 1) \<le> 2 ^ 63" using assms(1) by auto
  define k where "k = nat \<bar>n\<bar>"
  have k: "int k \<le> 2 ^ (?L - 1)" "int k < 2 ^ ?L" using assms(2,3) p by (auto simp: k_def)
  then have kn: "k < 2 ^ ?L" by (metis of_nat_less_iff of_nat_numeral of_nat_power)
  have u: "uint (word_of_nat k :: 'w word) = int k" using kn by (simp only: uint_nat) (simp add: unat_of_nat)
  have si: "sint (word_of_int n :: 'w word) = n" using assms(2,3) by (simp add: signed_of_int signed_take_bit_int_eq_self)
  note s = strtoul_dec [OF kn ten] skip_dec(1-3) [of k "[]"] skip_dec(4) [of k]
  show ?thesis
  proof (cases "n < 0")
    case True
    have d: "dec n = CHR ''-'' # dec_nat k" using True by (simp add: dec_def k_def)
    have "skip_space (dec n) = dec n" unfolding d skip_space_def by (simp add: isspace_def)
    moreover have "- word_of_nat k = (word_of_int n :: 'w word)" using True by (simp add: k_def)
    ultimately show ?thesis using s(1) u k(1) si d by (simp add: strtol_def Let_def)
  next
    case False
    have d: "dec n = dec_nat k" using False by (simp add: dec_def k_def)
    have "word_of_nat k = (word_of_int n :: 'w word)" using False by (simp add: k_def)
    moreover have "int k < 2 ^ 63" using False assms(3) le by (simp add: k_def)
    ultimately show ?thesis using s u si d by (simp add: strtol_def Let_def)
  qed
qed

theorem strtol_dec_witness: "strtol TYPE(32) (dec (- 2147483648)) 10 = (- 2147483648, Some [], False)"
  using strtol_dec [where 'w = 32, of "- 2147483648"] by simp

text \<open>\<^verbatim>\<open>strtoul\<close> checks the multiplication for overflow but not the addition: 4294967299 is read as 3, without an error.\<close>

lemma strtoul_wraps: "strtoul ''4294967299'' 10 = (3 :: 32 word, [], False)"
  by (simp add: strtoul_def skip_space_def digit_of_def isdigit_def isspace_def Let_def)

text \<open>\<^verbatim>\<open>strtol\<close> compares a 32-bit number with \<^verbatim>\<open>LLONG_MAX\<close>: a number above \<^verbatim>\<open>LONG_MAX\<close> becomes negative, without an error.\<close>

lemma strtol_negative: "strtol TYPE(32) ''4294967295'' 10 = (- 1, Some [], False)"
  by (simp add: strtol_def strtoul_def skip_space_def digit_of_def isdigit_def isspace_def Let_def)

text \<open>The form feed is no space.\<close>

lemma isspace_form_feed: "\<not> isspace 12"
  by (simp add: isspace_def)

section \<open>Absolute values and quotients\<close>

lemma quot_range:
  fixes a b M :: int
  assumes "- M \<le> a" and "a < M" and "b \<noteq> 0" and "a \<noteq> - M \<or> b \<noteq> - 1"
  shows "- M \<le> a sdiv b \<and> a sdiv b < M"
proof (cases "\<bar>b\<bar> = 1")
  case True
  then have "b = 1 \<or> b = - 1" by linarith
  then show ?thesis using assms by (auto simp: signed_divide_int_def sgn_if)
next
  case False
  then have b: "\<bar>b\<bar> \<ge> 2" using assms(3) by linarith
  have "\<bar>a\<bar> div \<bar>b\<bar> \<le> \<bar>a\<bar> div 2" using b by (intro zdiv_mono2) auto
  moreover have "\<bar>a\<bar> div \<bar>b\<bar> \<ge> 0" using b by (intro pos_imp_zdiv_nonneg_iff [THEN iffD2]) auto
  moreover have "\<bar>a sdiv b\<bar> \<le> \<bar>\<bar>a\<bar> div \<bar>b\<bar>\<bar>" by (auto simp: signed_divide_int_def abs_mult sgn_if)
  ultimately show ?thesis using assms(1,2) by (auto simp: abs_if split: if_splits)
qed

lemma rem_range: "(b :: int) \<noteq> 0 \<Longrightarrow> \<bar>a smod b\<bar> < \<bar>b\<bar>"
  using smod_int_range [of b a] by auto

lemma sint_word_of_int: "- (2 ^ (LENGTH('w) - 1)) \<le> x \<Longrightarrow> x < 2 ^ (LENGTH('w) - 1) \<Longrightarrow> sint (word_of_int x :: 'w :: len word) = x"
  unfolding sint_sbintrunc' by (rule signed_take_bit_int_eq_self)

text \<open>Wherever the division does not trap, quotient and remainder are exact.\<close>

lemma ldiv_exact:
  fixes num den :: "'w :: len word"
  assumes "ldiv num den = Some r"
  shows "sint num = sint (quot r) * sint den + sint (rem r) \<and> \<bar>sint (rem r)\<bar> < \<bar>sint den\<bar>"
proof -
  let ?M = "2 ^ (LENGTH('w) - 1) :: int"
  have den: "sint den \<noteq> 0" "sint num \<noteq> - ?M \<or> sint den \<noteq> - 1" and r: "r = \<lparr>quot = word_of_int (sint num sdiv sint den), rem = word_of_int (sint num smod sint den)\<rparr>"
    using assms signed_eq_0_iff [of den] by (simp_all add: ldiv_def split: if_splits)
  have n: "- ?M \<le> sint num" "sint num < ?M" "- ?M \<le> sint den" "sint den < ?M"
    using sint_greater_eq [of num] sint_less [of num] sint_greater_eq [of den] sint_less [of den] by simp_all
  have q: "sint (quot r) = sint num sdiv sint den"
    using quot_range [OF n(1,2) den] by (simp add: r sint_word_of_int)
  have m: "sint (rem r) = sint num smod sint den"
    using rem_range [OF den(1), of "sint num"] n(3,4) by (simp add: r, intro sint_word_of_int) linarith+
  show ?thesis unfolding q m using rem_range [OF den(1)] by (simp add: sdiv_mult_smod_eq)
qed

text \<open>The absolute value of a positive number of type \<^verbatim>\<open>long long\<close> is 0.\<close>

lemma llabs_zero: "0 \<le> sint v \<Longrightarrow> llabs v = 0"
  by (simp add: llabs_def)

text \<open>\<^verbatim>\<open>atoll\<close> loses the upper half of the number where \<^verbatim>\<open>long\<close> has 32 bits.\<close>

lemma atoll_truncates: "atoll TYPE(32) ''4294967296'' = 0"
  by code_simp

end
