(* ===== verification/Lib_Printf.thy ===== *)
theory Lib_Printf
  imports Lib_Stdlib
begin

text \<open>
  Formatted output (\<^verbatim>\<open>lib/stdio/vfprintf.c\<close>). The stream is what has been put out and the number \<open>lim\<close> of characters that it takes: the first
  \<^verbatim>\<open>fputc\<close> beyond fails, and so does every later one. \<open>Inl\<close> is the result \<open>-1\<close>, with the output up to the failure. The arguments are a list of
  numbers and strings; \<open>None\<close> of the surrounding option is \<^verbatim>\<open>abort\<close>, an argument that is missing or of another kind, or a format that is read beyond
  its end.
\<close>

datatype varg = Num int | Str "string option"

record fmt =
  f_sign :: bool
  f_zero :: bool
  f_left :: bool
  f_spc :: bool
  f_precision :: int
  f_width :: int
  f_size :: int

text \<open>Characters that are put out one by one; with \<open>put_ign\<close> the result of \<^verbatim>\<open>fputc\<close> is not looked at.\<close>

definition put :: "nat \<Rightarrow> string \<Rightarrow> string \<Rightarrow> string + string" where
  "put lim cs out = (if length (out @ cs) \<le> lim then Inr (out @ cs) else Inl (take lim (out @ cs)))"

definition put_ign :: "nat \<Rightarrow> string \<Rightarrow> string \<Rightarrow> string" where
  "put_ign lim cs out = (if length out \<le> lim then take lim (out @ cs) else out)"

definition bind_out :: "string + string \<Rightarrow> (string \<Rightarrow> string + string) \<Rightarrow> string + string" where
  "bind_out r f = (case r of Inl out \<Rightarrow> Inl out | Inr out \<Rightarrow> f out)"

section \<open>Numbers\<close>

fun div_times :: "nat \<Rightarrow> nat \<Rightarrow> nat \<Rightarrow> nat" where
  "div_times 0 v base = v"
| "div_times (Suc c) v base = div_times c (v div base) base"

definition digit_char :: "nat \<Rightarrow> char" where
  "digit_char d = char_of (if d \<le> 9 then 48 + d else 97 + d - 10)"

text \<open>The loop of \<^verbatim>\<open>putn\<close>, from the digit \<open>i - 1\<close> downwards.\<close>

fun putn_from :: "nat \<Rightarrow> bool \<Rightarrow> nat \<Rightarrow> nat \<Rightarrow> string" where
  "putn_from 0 z v base = []"
| "putn_from (Suc i) z v base =
     (let digit = div_times i v base mod base
      in if digit = 0 \<and> \<not> z then putn_from i z v base else digit_char digit # putn_from i True v base)"

definition putn :: "nat \<Rightarrow> nat \<Rightarrow> nat \<Rightarrow> string \<Rightarrow> string + string" where
  "putn lim v base out = put lim (putn_from 33 False v base) out"

partial_function (option) nr_loop :: "nat \<Rightarrow> nat \<Rightarrow> nat \<Rightarrow> nat option" where
  "nr_loop cnt v base = (if v = 0 then Some cnt else nr_loop (cnt + 1) (v div base) base)"

definition nr_digits :: "nat \<Rightarrow> nat \<Rightarrow> nat option" where
  "nr_digits v base = nr_loop 0 v base"

definition sgn_of :: "fmt \<Rightarrow> bool \<Rightarrow> string" where
  "sgn_of f neg = (if neg then ''-'' else if f_sign f then ''+'' else if f_spc f then '' '' else [])"

definition fmtputn :: "nat \<Rightarrow> fmt \<Rightarrow> nat \<Rightarrow> nat \<Rightarrow> bool \<Rightarrow> string \<Rightarrow> (string + string) option" where
  "fmtputn lim f base v neg out = do {
     dcnt \<leftarrow> nr_digits v base;
     let prec = (if f_precision f \<ge> 0 then f_precision f else 1);
     let pcnt0 = f_width f - (if prec > int dcnt then prec else int dcnt) - int (length (sgn_of f neg));
     let pcnt = nat (if pcnt0 < 0 then 0 else pcnt0);
     Some (bind_out (if \<not> f_left f \<and> \<not> f_zero f then put lim (replicate pcnt CHR '' '') out else Inr out) (\<lambda>o1.
       bind_out (put lim (sgn_of f neg) o1) (\<lambda>o2.
       bind_out (if \<not> f_left f \<and> f_zero f then put lim (replicate pcnt CHR ''0'') o2 else Inr o2) (\<lambda>o3.
       let o4 = put_ign lim (replicate (nat (prec - int dcnt)) CHR ''0'') o3 in
       bind_out (putn lim v base o4) (\<lambda>o5.
       if f_left f then put lim (replicate pcnt CHR '' '') o5 else Inr o5)))))
   }"

definition fmtputs :: "nat \<Rightarrow> fmt \<Rightarrow> string option \<Rightarrow> string \<Rightarrow> string + string" where
  "fmtputs lim f str out =
     (let s = (case str of None \<Rightarrow> ''(null)'' | Some s \<Rightarrow> s);
          len = (if f_precision f > 0 \<and> int (length s) > f_precision f then nat (f_precision f) else length s);
          nspc = (if int len < f_width f then nat (f_width f) - len else 0)
      in bind_out (if \<not> f_left f then put lim (replicate nspc CHR '' '') out else Inr out) (\<lambda>o1.
         bind_out (put lim (take len s) o1) (\<lambda>o2.
         if f_left f then put lim (replicate nspc CHR '' '') o2 else Inr o2)))"

section \<open>The format\<close>

definition no_fmt :: fmt where
  "no_fmt = \<lparr>f_sign = False, f_zero = False, f_left = False, f_spc = False, f_precision = -1, f_width = 0, f_size = 0\<rparr>"

text \<open>The flag \<^verbatim>\<open>#\<close> is read and has no effect.\<close>

fun get_flags :: "fmt \<Rightarrow> string \<Rightarrow> fmt \<times> string" where
  "get_flags f [] = (f, [])"
| "get_flags f (c # cs) =
     (if c = CHR ''0'' then get_flags (f\<lparr>f_zero := True\<rparr>) cs
      else if c = CHR ''-'' then get_flags (f\<lparr>f_left := True\<rparr>) cs
      else if c = CHR ''#'' then get_flags f cs
      else if c = CHR '' '' then get_flags (f\<lparr>f_sign := False, f_spc := True\<rparr>) cs
      else if c = CHR ''+'' then get_flags (f\<lparr>f_sign := True, f_spc := False\<rparr>) cs
      else (f, c # cs))"

fun get_digits :: "int \<Rightarrow> string \<Rightarrow> int \<times> string" where
  "get_digits n [] = (n, [])"
| "get_digits n (c # cs) = (if isdigit (of_char c) then get_digits (n * 10 + (of_char c - 48)) cs else (n, c # cs))"

definition get_prec :: "fmt \<Rightarrow> string \<Rightarrow> fmt \<times> string" where
  "get_prec f cs =
     (if cs \<noteq> [] \<and> hd cs = CHR ''.'' then
        if tl cs \<noteq> [] \<and> hd (tl cs) = CHR ''-'' then (f\<lparr>f_precision := 0\<rparr>, snd (get_digits 0 (tl (tl cs))))
        else let (n, cs') = get_digits 0 (tl cs) in (f\<lparr>f_precision := n\<rparr>, cs')
      else (f, cs))"

fun get_size :: "fmt \<Rightarrow> string \<Rightarrow> fmt \<times> string" where
  "get_size f [] = (f, [])"
| "get_size f (c # cs) =
     (if c = CHR ''L'' \<or> c = CHR ''l'' then get_size (f\<lparr>f_size := f_size f + 1\<rparr>) cs
      else if c = CHR ''h'' then get_size (f\<lparr>f_size := f_size f - 1\<rparr>) cs
      else if c = CHR ''t'' then get_size (f\<lparr>f_size := 4\<rparr>) cs
      else if c = CHR ''j'' then get_size (f\<lparr>f_size := 3\<rparr>) cs
      else (f, c # cs))"

definition get_format :: "string \<Rightarrow> fmt \<times> string" where
  "get_format cs =
     (let (f1, cs1) = get_flags no_fmt cs; (w, cs2) = get_digits 0 cs1; (f3, cs3) = get_prec (f1\<lparr>f_width := w\<rparr>) cs2
      in get_size f3 cs3)"

section \<open>Arguments\<close>

text \<open>The number of bits of the argument; \<open>None\<close> is \<^verbatim>\<open>abort\<close>.\<close>

definition arg_bits :: "int \<Rightarrow> nat option" where
  "arg_bits size' = (if size' \<in> {-2, -1, 0, 1, 4, 5} then Some 32 else if size' \<in> {2, 3} then Some 64 else None)"

fun arg_num :: "varg list \<Rightarrow> (int \<times> varg list) option" where
  "arg_num (Num n # as) = Some (n, as)"
| "arg_num _ = None"

text \<open>The value and whether it is negative; a pointer difference is extended with its sign, also where it is taken as unsigned.\<close>

definition get_num :: "bool \<Rightarrow> int \<Rightarrow> varg list \<Rightarrow> (nat \<times> bool \<times> varg list) option" where
  "get_num signedval size' as = do {
     w \<leftarrow> arg_bits size';
     (n, as') \<leftarrow> arg_num as;
     let sv = signed_take_bit (w - 1) n;
     Some (if signedval then (nat \<bar>sv\<bar>, sv < 0, as')
           else (nat (take_bit 64 (if size' = 4 then sv else take_bit w n)), False, as'))
   }"

definition conv_num :: "char \<Rightarrow> (nat \<times> bool) option" where
  "conv_num c =
     (if c = CHR ''d'' \<or> c = CHR ''i'' then Some (10, True)
      else if c = CHR ''u'' then Some (10, False)
      else if c = CHR ''o'' then Some (8, False)
      else if c = CHR ''p'' \<or> c = CHR ''x'' \<or> c = CHR ''X'' then Some (16, False)
      else None)"

text \<open>One conversion; \<open>em\<close> is what \<^verbatim>\<open>strerror\<close> returns for the current error.\<close>

definition convert :: "nat \<Rightarrow> string option \<Rightarrow> fmt \<Rightarrow> char \<Rightarrow> varg list \<Rightarrow> string \<Rightarrow> ((string + string) \<times> varg list) option" where
  "convert lim em f c as out =
     (case conv_num c of
        Some (base, signedval) \<Rightarrow> do {
          (v, neg, as') \<leftarrow> get_num signedval (if c = CHR ''p'' then 5 else f_size f) as;
          r \<leftarrow> fmtputn lim f base v neg out;
          Some (r, as')
        }
      | None \<Rightarrow>
          if c = CHR ''m'' then Some (fmtputs lim f em out, as)
          else if c = CHR ''s'' then (case as of Str s # as' \<Rightarrow> Some (fmtputs lim f s out, as') | _ \<Rightarrow> None)
          else if c = CHR ''c'' then (case as of Num n # as' \<Rightarrow> Some (put lim [char_of (nat (n mod 256))] out, as') | _ \<Rightarrow> None)
          else Some (put lim [CHR ''%'', c] out, as))"

lemma get_digits_length: "length (snd (get_digits n cs)) \<le> length cs"
  by (induction n cs rule: get_digits.induct) auto

lemma get_size_length: "length (snd (get_size f cs)) \<le> length cs"
  by (induction f cs rule: get_size.induct) auto

lemma get_flags_length: "length (snd (get_flags f cs)) \<le> length cs"
  by (induction f cs rule: get_flags.induct) auto

lemma get_prec_length: "length (snd (get_prec f cs)) \<le> length cs"
proof -
  have "length (snd (get_digits 0 (tl cs))) \<le> length cs" "length (snd (get_digits 0 (tl (tl cs)))) \<le> length cs"
    using get_digits_length [of 0 "tl cs"] get_digits_length [of 0 "tl (tl cs)"] by simp_all
  then show ?thesis by (auto simp: get_prec_def split: prod.split)
qed

lemma get_format_length: "get_format cs = (f, cs') \<Longrightarrow> length cs' \<le> length cs"
  using get_flags_length [of no_fmt cs] get_digits_length [of 0 "snd (get_flags no_fmt cs)"]
    get_prec_length [of "(fst (get_flags no_fmt cs))\<lparr>f_width := fst (get_digits 0 (snd (get_flags no_fmt cs)))\<rparr>" "snd (get_digits 0 (snd (get_flags no_fmt cs)))"]
    get_size_length
  by (auto simp: get_format_def Let_def split: prod.splits) (metis le_trans snd_conv)

function vfprintf :: "nat \<Rightarrow> string option \<Rightarrow> string \<Rightarrow> varg list \<Rightarrow> string \<Rightarrow> (string + string) option" where
  "vfprintf lim em [] as out = Some (Inr out)"
| "vfprintf lim em (c # cs) as out =
     (if c = CHR ''%'' then
        if cs \<noteq> [] \<and> hd cs = CHR ''%'' then
          (case put lim ''%'' out of Inl o1 \<Rightarrow> Some (Inl o1) | Inr o1 \<Rightarrow> vfprintf lim em (tl cs) as o1)
        else
          (case get_format cs of
             (f, []) \<Rightarrow> None
           | (f, d # cs') \<Rightarrow> do {
               (r, as') \<leftarrow> convert lim em f d as out;
               (case r of Inl o1 \<Rightarrow> Some (Inl o1) | Inr o1 \<Rightarrow> vfprintf lim em cs' as' o1)
             })
      else (case put lim [c] out of Inl o1 \<Rightarrow> Some (Inl o1) | Inr o1 \<Rightarrow> vfprintf lim em cs as o1))"
  by pat_completeness auto
termination by (relation "measure (\<lambda>(lim, em, cs, as, out). length cs)") (auto dest!: get_format_length [OF sym])

declare vfprintf.simps [simp del]

section \<open>Digits\<close>

text \<open>A number in a base, without leading zeros: no digits for 0.\<close>

fun num_str :: "nat \<Rightarrow> nat \<Rightarrow> string" where
  "num_str b v = (if v = 0 \<or> b < 2 then [] else num_str b (v div b) @ [digit_char (v mod b)])"

declare num_str.simps [simp del]

text \<open>The last \<open>i\<close> digits.\<close>

fun fixed :: "nat \<Rightarrow> nat \<Rightarrow> nat \<Rightarrow> string" where
  "fixed b 0 v = []"
| "fixed b (Suc i) v = digit_char (v div b ^ i mod b) # fixed b i v"

lemma div_times_power: "div_times c v b = v div b ^ c"
  by (induction c arbitrary: v) (simp_all add: div_mult2_eq)

lemma putn_from_fixed: "putn_from i True v b = fixed b i v"
  by (induction i) (simp_all add: div_times_power Let_def)

lemma fixed_snoc: "fixed b (Suc i) v = fixed b i (v div b) @ [digit_char (v mod b)]"
  by (induction i) (simp_all add: div_mult2_eq)

lemma fixed_num_str:
  assumes "2 \<le> b" and "b ^ i \<le> v" and "v < b ^ Suc i"
  shows "fixed b (Suc i) v = num_str b v"
  using assms(2,3)
proof (induction i arbitrary: v)
  case 0
  then show ?case using assms(1) by (simp add: num_str.simps [of b v]) (simp add: num_str.simps)
next
  case (Suc i)
  have b: "b > 0" using assms(1) by simp
  have l: "b ^ i \<le> v div b" using Suc.prems(1) b by (simp add: less_eq_div_iff_mult_less_eq mult.commute)
  have u: "v div b < b ^ Suc i" using Suc.prems(2) b by (simp add: div_less_iff_less_mult mult.commute)
  have "v \<noteq> 0" using Suc.prems(1) b by (metis le_zero_eq power_not_zero not_gr_zero)
  then show ?case using Suc.IH [OF l u] assms(1) by (simp only: fixed_snoc [of b "Suc i"]) (simp add: num_str.simps [of b v])
qed

lemma putn_num_str: "2 \<le> b \<Longrightarrow> v < b ^ i \<Longrightarrow> putn_from i False v b = num_str b v"
proof (induction i)
  case 0
  then show ?case by (simp add: num_str.simps)
next
  case (Suc i)
  have d: "v div b ^ i mod b = v div b ^ i" using Suc.prems by (simp add: div_less_iff_less_mult)
  show ?case
  proof (cases "v < b ^ i")
    case True
    then show ?thesis using Suc.IH [OF Suc.prems(1) True] by (simp add: div_times_power Let_def)
  next
    case False
    then have "v div b ^ i \<noteq> 0" using Suc.prems(1) by (simp add: div_eq_0_iff)
    then have "putn_from (Suc i) False v b = fixed b (Suc i) v"
      using d by (simp add: div_times_power Let_def putn_from_fixed)
    then show ?thesis using fixed_num_str [OF Suc.prems(1) _ Suc.prems(2)] False by simp
  qed
qed

lemma nr_digits_length: "2 \<le> b \<Longrightarrow> nr_digits v b = Some (length (num_str b v))"
proof -
  assume b: "2 \<le> b"
  have "nr_loop cnt v b = Some (cnt + length (num_str b v))" for cnt
  proof (induction v arbitrary: cnt rule: less_induct)
    case (less v)
    show ?case
    proof (cases "v = 0")
      case True
      then show ?thesis by (subst nr_loop.simps) (simp add: num_str.simps)
    next
      case False
      then have "v div b < v" using b by simp
      then show ?thesis using less [of "v div b"] False b by (subst nr_loop.simps) (simp add: num_str.simps [of b v])
    qed
  qed
  then show ?thesis by (simp add: nr_digits_def)
qed

lemma digit_dig: "d < 10 \<Longrightarrow> digit_char d = dig (int d)"
  by (simp add: digit_char_def dig_def nat_add_distrib nat_mod_distrib)

lemma dec_num_str: "dec_nat n = (if n = 0 then ''0'' else num_str 10 n)"
proof (induction n rule: less_induct)
  case (less n)
  have "(of_char (CHR ''0'') :: nat) = 48" by simp
  then have "char_of (48 :: nat) = CHR ''0''" by (metis char_of_char)
  then have z: "dig 0 = CHR ''0''" by (simp add: dig_def)
  show ?case
  proof (cases "n < 10")
    case True
    then show ?thesis using digit_dig [of n] z
      by (subst dec_nat.simps) (simp add: num_str.simps [of 10 n] num_str.simps [of 10 0])
  next
    case False
    then have "n div 10 < n" "n div 10 \<noteq> 0" by (simp_all add: div_eq_0_iff)
    then show ?thesis using less [of "n div 10"] False digit_dig [of "n mod 10"]
      by (subst dec_nat.simps) (simp add: num_str.simps [of 10 n])
  qed
qed

section \<open>Decimal fields\<close>

text \<open>What \<^verbatim>\<open>%i\<close> puts out for a number: the sign and the digits, filled up to the width with spaces in front of them or with zeros after the sign.\<close>

definition field :: "fmt \<Rightarrow> int \<Rightarrow> string" where
  "field f n =
     (let sg = (if n < 0 then ''-'' else []); body = dec_nat (nat \<bar>n\<bar>); k = nat (f_width f) - length (sg @ body)
      in if f_zero f then sg @ replicate k CHR ''0'' @ body else replicate k CHR '' '' @ sg @ body)"

definition plain :: "fmt \<Rightarrow> bool" where
  "plain f \<longleftrightarrow> \<not> f_left f \<and> \<not> f_sign f \<and> \<not> f_spc f \<and> f_precision f = -1 \<and> 0 \<le> f_width f"

lemma put_fits: "length (out @ cs) \<le> lim \<Longrightarrow> put lim cs out = Inr (out @ cs)"
  by (simp add: put_def)

lemma bind_out_Inr [simp]: "bind_out (Inr x) f = f x"
  by (simp add: bind_out_def)

lemma field_parts:
  assumes "plain f" and "v = nat \<bar>n\<bar>" and "d = length (num_str 10 v)" and "sg = sgn_of f (n < 0)"
  shows "(if (1 :: int) > int d then 1 else int d) = int (length (dec_nat v))"
    "sg = (if n < 0 then ''-'' else [])"
    "replicate (nat (1 - int d)) CHR ''0'' @ num_str 10 v = dec_nat v"
proof -
  have "(if (1 :: int) > int d then 1 else int d) = int (length (dec_nat v)) \<and> replicate (nat (1 - int d)) CHR ''0'' @ num_str 10 v = dec_nat v"
  proof (cases "v = 0")
    case True
    then have "num_str 10 v = []" by (subst num_str.simps) simp
    then show ?thesis using True assms(3) by (simp add: dec_num_str)
  next
    case False
    then have "num_str 10 v \<noteq> []" by (subst num_str.simps) simp
    then obtain c cs where "num_str 10 v = c # cs" by (cases "num_str 10 v") auto
    then show ?thesis using False assms(3) by (simp add: dec_num_str)
  qed
  then show "(if (1 :: int) > int d then 1 else int d) = int (length (dec_nat v))" "replicate (nat (1 - int d)) CHR ''0'' @ num_str 10 v = dec_nat v"
    by blast+
  show "sg = (if n < 0 then ''-'' else [])" using assms(1,4) by (simp add: sgn_of_def plain_def)
qed

lemma pad_count: "0 \<le> w \<Longrightarrow> nat (if w - int a - int b < 0 then 0 else w - int a - int b) = nat w - (b + a)"
  by auto

lemma fmtputn_field:
  assumes "plain f" and "nat \<bar>n\<bar> < 10 ^ 33" and "length (out @ field f n) \<le> lim"
  shows "fmtputn lim f 10 (nat \<bar>n\<bar>) (n < 0) out = Some (Inr (out @ field f n))"
proof -
  define v d sg where "v = nat \<bar>n\<bar>" and "d = length (num_str 10 v)" and "sg = sgn_of f (n < 0)"
  note p = field_parts [OF assms(1) v_def d_def sg_def]
  define k where "k = nat (f_width f) - length (sg @ dec_nat v)"
  have nr: "nr_digits v 10 = Some d" using nr_digits_length [of 10 v] by (simp add: d_def)
  have pc: "nat (if f_width f - int (length (dec_nat v)) - int (length sg) < 0 then 0 else f_width f - int (length (dec_nat v)) - int (length sg)) = k"
    unfolding k_def length_append by (rule pad_count) (use assms(1) in \<open>simp add: plain_def\<close>)
  have fl: "field f n = (if f_zero f then sg @ replicate k CHR ''0'' @ dec_nat v else replicate k CHR '' '' @ sg @ dec_nat v)"
    using p(2) by (simp add: field_def k_def v_def Let_def)
  have f: "f_precision f = -1" "\<not> f_left f" using assms(1) by (simp_all add: plain_def)
  have pn: "putn_from 33 False v 10 = num_str 10 v" using putn_num_str [of 10 v 33] assms(2) by (simp add: v_def)
  have tail: "bind_out (putn lim v 10 (put_ign lim (replicate (nat (1 - int d)) CHR ''0'') o3)) Inr = Inr (o3 @ dec_nat v)"
    if "length (o3 @ dec_nat v) \<le> lim" for o3
  proof -
    have l: "length (o3 @ replicate (nat (1 - int d)) CHR ''0'' @ num_str 10 v) \<le> lim" using that p(3) by simp
    then have "put_ign lim (replicate (nat (1 - int d)) CHR ''0'') o3 = o3 @ replicate (nat (1 - int d)) CHR ''0''" by (simp add: put_ign_def)
    then show ?thesis using l p(3) put_fits [of "o3 @ replicate (nat (1 - int d)) CHR ''0''" "num_str 10 v" lim] by (simp add: putn_def pn)
  qed
  have prec: "(if 0 \<le> f_precision f then f_precision f else 1) = 1" using f(1) by simp
  have run: "fmtputn lim f 10 v (n < 0) out =
      Some (bind_out (if \<not> f_left f \<and> \<not> f_zero f then put lim (replicate k CHR '' '') out else Inr out) (\<lambda>o1.
        bind_out (put lim sg o1) (\<lambda>o2.
        bind_out (if \<not> f_left f \<and> f_zero f then put lim (replicate k CHR ''0'') o2 else Inr o2) (\<lambda>o3.
        bind_out (putn lim v 10 (put_ign lim (replicate (nat (1 - int d)) CHR ''0'') o3)) (\<lambda>o5.
        if f_left f then put lim (replicate k CHR '' '') o5 else Inr o5)))))"
    unfolding fmtputn_def nr sg_def [symmetric] by (simp only: Option.bind.simps Let_def prec p(1) pc)
  have len: "length out + k + length sg + length (dec_nat v) \<le> lim" using assms(3) fl by (simp split: if_splits)
  show ?thesis
    using run f(2) len fl tail [of "out @ sg @ replicate k CHR ''0''"] tail [of "out @ replicate k CHR '' '' @ sg"]
    by (cases "f_zero f") (simp_all add: put_fits v_def)
qed

section \<open>Conversions\<close>

lemma vf_chr: "c \<noteq> CHR ''%'' \<Longrightarrow> length (out @ [c]) \<le> lim \<Longrightarrow> vfprintf lim em (c # cs) as out = vfprintf lim em cs as (out @ [c])"
  by (simp add: vfprintf.simps put_def)

lemma vf_num:
  assumes "get_format cs = (f, CHR ''i'' # cs')" and "plain f" and "f_size f = 0" and "- (2 ^ 31) \<le> n" and "n < 2 ^ 31"
    and "length (out @ field f n) \<le> lim" and "cs = c # cs1" and "c \<noteq> CHR ''%''"
  shows "vfprintf lim em (CHR ''%'' # cs) (Num n # as) out = vfprintf lim em cs' as (out @ field f n)"
proof -
  have s: "signed_take_bit 31 n = n" using assms(4,5) by (simp add: signed_take_bit_int_eq_self)
  have "nat \<bar>n\<bar> < 10 ^ 33" using assms(4,5) by simp
  then have "fmtputn lim f 10 (nat \<bar>n\<bar>) (n < 0) out = Some (Inr (out @ field f n))" by (rule fmtputn_field [OF assms(2) _ assms(6)])
  then have "convert lim em f (CHR ''i'') (Num n # as) out = Some (Inr (out @ field f n), as)"
    using s assms(3) by (simp add: convert_def conv_num_def get_num_def arg_bits_def)
  then show ?thesis using assms(1,7,8) by (simp add: vfprintf.simps)
qed

lemma vf_str:
  assumes "length (out @ s) \<le> lim"
  shows "vfprintf lim em (CHR ''%'' # CHR ''s'' # cs) (Str (Some s) # as) out = vfprintf lim em cs as (out @ s)"
  using assms by (simp add: vfprintf.simps get_format_def get_prec_def no_fmt_def isdigit_def convert_def conv_num_def fmtputs_def put_def Let_def)

lemma field_dec: "f_width f = 0 \<Longrightarrow> field f n = dec n"
  by (simp add: field_def dec_def Let_def)

lemma field_two:
  assumes "f_width f = 2"
  shows "field f n = pad (if f_zero f then CHR ''0'' else CHR '' '') 2 (dec n)"
proof (cases "n < 0")
  case True
  have "length (dec_nat (nat (- n))) \<ge> 1" using skip_dec(4) [of "nat (- n)"] by (simp add: Suc_leI)
  then show ?thesis using True assms by (simp add: field_def dec_def pad_def Let_def)
next
  case False
  then show ?thesis using assms by (simp add: field_def dec_def pad_def Let_def)
qed

abbreviation (input) two_wide :: "bool \<Rightarrow> fmt" where "two_wide z \<equiv> no_fmt\<lparr>f_zero := z, f_width := 2\<rparr>"

lemma vf_int:
  assumes "- (2 ^ 31) \<le> n" and "n < 2 ^ 31"
  shows "length (out @ dec n) \<le> lim \<Longrightarrow> vfprintf lim em (''%i'' @ cs) (Num n # as) out = vfprintf lim em cs as (out @ dec n)"
    "length (out @ pad CHR '' '' 2 (dec n)) \<le> lim \<Longrightarrow>
       vfprintf lim em (''%2i'' @ cs) (Num n # as) out = vfprintf lim em cs as (out @ pad CHR '' '' 2 (dec n))"
    "length (out @ pad CHR ''0'' 2 (dec n)) \<le> lim \<Longrightarrow>
       vfprintf lim em (''%02i'' @ cs) (Num n # as) out = vfprintf lim em cs as (out @ pad CHR ''0'' 2 (dec n))"
proof -
  have p: "plain no_fmt" "plain (two_wide z)" "f_size no_fmt = 0" "f_size (two_wide z) = 0" for z by (simp_all add: plain_def no_fmt_def)
  have w: "field no_fmt n = dec n" "field (two_wide z) n = pad (if z then CHR ''0'' else CHR '' '') 2 (dec n)" for z
    using field_dec [of no_fmt n] field_two [of "two_wide z" n] by (simp_all add: no_fmt_def)
  have g: "get_format (CHR ''i'' # cs) = (no_fmt, CHR ''i'' # cs)" "get_format (CHR ''2'' # CHR ''i'' # cs) = (two_wide False, CHR ''i'' # cs)"
    "get_format (CHR ''0'' # CHR ''2'' # CHR ''i'' # cs) = (two_wide True, CHR ''i'' # cs)"
    by (simp_all add: get_format_def get_prec_def no_fmt_def isdigit_def Let_def)
  show "length (out @ dec n) \<le> lim \<Longrightarrow> vfprintf lim em (''%i'' @ cs) (Num n # as) out = vfprintf lim em cs as (out @ dec n)"
    using vf_num [OF g(1) p(1,3) assms, of out lim] w(1) by simp
  show "length (out @ pad CHR '' '' 2 (dec n)) \<le> lim \<Longrightarrow>
       vfprintf lim em (''%2i'' @ cs) (Num n # as) out = vfprintf lim em cs as (out @ pad CHR '' '' 2 (dec n))"
    using vf_num [OF g(2) p(2,4) assms, of out lim] w(2) [of False] by simp
  show "length (out @ pad CHR ''0'' 2 (dec n)) \<le> lim \<Longrightarrow>
       vfprintf lim em (''%02i'' @ cs) (Num n # as) out = vfprintf lim em cs as (out @ pad CHR ''0'' 2 (dec n))"
    using vf_num [OF g(3) p(2,4) assms, of out lim] w(2) [of True] by simp
qed

text \<open>
  C38: The time strings of \<^verbatim>\<open>asctime\<close> are what the code of \<^verbatim>\<open>vfprintf\<close> makes of its format and the fields of the time: parsing the format,
  fetching the arguments, computing the digits from the highest place downwards, filling up with spaces or zeros. On a stream with room for
  it the call succeeds and puts out exactly this string.
\<close>

theorem asctime_printf:
  assumes "asctime t = Some s" and "length s \<le> lim"
    and "\<forall>n \<in> {tm_mday t, tm_hour t, tm_min t, tm_sec t, tm_year t + 1900}. - (2 ^ 31) \<le> n \<and> n < 2 ^ 31"
  shows "vfprintf lim em (''%s %s %2i %02i:%02i:%02i %i'' @ [CHR 0x0A])
           [Str (entry_of wday_abbr (tm_wday t)), Str (entry_of month_abbr (tm_mon t)), Num (tm_mday t), Num (tm_hour t), Num (tm_min t),
            Num (tm_sec t), Num (tm_year t + 1900)] [] = Some (Inr s)"
proof -
  obtain wd mo where e: "entry_of wday_abbr (tm_wday t) = Some wd" "entry_of month_abbr (tm_mon t) = Some mo"
    using assms(1) by (auto simp: asctime_def split: Option.bind_splits)
  define a b c d y where "a = pad CHR '' '' 2 (dec (tm_mday t))" and "b = pad CHR ''0'' 2 (dec (tm_hour t))" and "c = pad CHR ''0'' 2 (dec (tm_min t))"
    and "d = pad CHR ''0'' 2 (dec (tm_sec t))" and "y = dec (tm_year t + 1900)"
  have s: "s = wd @ '' '' @ mo @ '' '' @ a @ '' '' @ b @ '':'' @ c @ '':'' @ d @ '' '' @ y @ [CHR 0x0A]"
    using assms(1) e by (simp add: asctime_def a_def b_def c_def d_def y_def)
  have r: "- (2 ^ 31) \<le> tm_mday t" "tm_mday t < 2 ^ 31" "- (2 ^ 31) \<le> tm_hour t" "tm_hour t < 2 ^ 31" "- (2 ^ 31) \<le> tm_min t" "tm_min t < 2 ^ 31"
      "- (2 ^ 31) \<le> tm_sec t" "tm_sec t < 2 ^ 31" "- (2 ^ 31) \<le> tm_year t + 1900" "tm_year t + 1900 < 2 ^ 31" using assms(3) by simp_all
  note v = vf_int(2) [OF r(1,2), folded a_def, simplified] vf_int(3) [OF r(3,4), folded b_def, simplified] vf_int(3) [OF r(5,6), folded c_def, simplified]
    vf_int(3) [OF r(7,8), folded d_def, simplified] vf_int(1) [OF r(9,10), folded y_def, simplified]
  show ?thesis
    using assms(2) unfolding e s by (simp add: vf_str vf_chr v) (simp add: vfprintf.simps)
qed

text \<open>The epoch.\<close>

theorem asctime_printf_witness:
  "vfprintf 63 None (''%s %s %2i %02i:%02i:%02i %i'' @ [CHR 0x0A])
     [Str (Some ''Thu''), Str (Some ''Jan''), Num 1, Num 0, Num 0, Num 0, Num 1970] [] =
   Some (Inr (''Thu Jan  1 00:00:00 1970'' @ [CHR 0x0A]))"
proof -
  let ?t = "\<lparr>tm_sec = 0, tm_min = 0, tm_hour = 0, tm_year = 70, tm_mon = 0, tm_mday = 1, tm_wday = 4, tm_yday = 0, tm_isdst = 0\<rparr> :: tm"
  have e: "entry_of wday_abbr (tm_wday ?t) = Some ''Thu''" "entry_of month_abbr (tm_mon ?t) = Some ''Jan''"
    by (simp_all add: entry_of_def wday_abbr_def month_abbr_def)
  have a: "asctime ?t = Some (''Thu Jan  1 00:00:00 1970'' @ [CHR 0x0A])" by code_simp
  show ?thesis using asctime_printf [OF a, of 63 None] unfolding e by simp
qed

section \<open>Where the output is wrong\<close>

text \<open>The precision 0 does not shorten a string.\<close>

lemma precision_zero: "vfprintf 10 None ''%.0s'' [Str (Some ''abc'')] [] = Some (Inr ''abc'')"
  by (simp add: vfprintf.simps get_format_def get_prec_def no_fmt_def isdigit_def convert_def conv_num_def fmtputs_def put_def Let_def)

end
