(* ===== verification/Lib_Sha.thy ===== *)
theory Lib_Sha
  imports Lib_Printf
begin

unbundle bit_operations_syntax

text \<open>
  The hash function of the C library (\<^verbatim>\<open>lib/sha/sha.c\<close>). The specification is the text of the standard: padding, blocks, the message schedule as a
  recursive function. The members \<^verbatim>\<open>a\<close> to \<^verbatim>\<open>h\<close> of \<^verbatim>\<open>struct sha256\<close> are
  never used and left out; the memory that \<^verbatim>\<open>sha256_creat\<close> allocates is the record.
\<close>

section \<open>The code\<close>

record sha256 =
  hash :: "32 word list"
  sha_length :: "64 word"
  resid :: "64 word"

definition sha256_ihash :: "32 word list" where
  "sha256_ihash = [0x6a09e667, 0xbb67ae85, 0x3c6ef372, 0xa54ff53a, 0x510e527f, 0x9b05688c, 0x1f83d9ab, 0x5be0cd19]"

definition sha256_cpfrac :: "32 word list" where
  "sha256_cpfrac =
    [0x428a2f98, 0x71374491, 0xb5c0fbcf, 0xe9b5dba5] @
    [0x3956c25b, 0x59f111f1, 0x923f82a4, 0xab1c5ed5] @
    [0xd807aa98, 0x12835b01, 0x243185be, 0x550c7dc3] @
    [0x72be5d74, 0x80deb1fe, 0x9bdc06a7, 0xc19bf174] @
    [0xe49b69c1, 0xefbe4786, 0x0fc19dc6, 0x240ca1cc] @
    [0x2de92c6f, 0x4a7484aa, 0x5cb0a9dc, 0x76f988da] @
    [0x983e5152, 0xa831c66d, 0xb00327c8, 0xbf597fc7] @
    [0xc6e00bf3, 0xd5a79147, 0x06ca6351, 0x14292967] @
    [0x27b70a85, 0x2e1b2138, 0x4d2c6dfc, 0x53380d13] @
    [0x650a7354, 0x766a0abb, 0x81c2c92e, 0x92722c85] @
    [0xa2bfe8a1, 0xa81a664b, 0xc24b8b70, 0xc76c51a3] @
    [0xd192e819, 0xd6990624, 0xf40e3585, 0x106aa070] @
    [0x19a4c116, 0x1e376c08, 0x2748774c, 0x34b0bcb5] @
    [0x391c0cb3, 0x4ed8aa4a, 0x5b9cca4f, 0x682e6ff3] @
    [0x748f82ee, 0x78a5636f, 0x84c87814, 0x8cc70208] @
    [0x90befffa, 0xa4506ceb, 0xbef9a3f7, 0xc67178f2]"

definition sha_rotr32 :: "32 word \<Rightarrow> nat \<Rightarrow> 32 word" where
  "sha_rotr32 v cnt = drop_bit cnt v OR push_bit (32 - cnt) v"

definition sha256_Ch :: "32 word \<Rightarrow> 32 word \<Rightarrow> 32 word \<Rightarrow> 32 word" where
  "sha256_Ch x y z = (x AND y) XOR (NOT x AND z)"

definition sha256_Maj :: "32 word \<Rightarrow> 32 word \<Rightarrow> 32 word \<Rightarrow> 32 word" where
  "sha256_Maj x y z = (x AND y) XOR (x AND z) XOR (y AND z)"

definition sha256_E0 :: "32 word \<Rightarrow> 32 word" where
  "sha256_E0 v = sha_rotr32 v 2 XOR sha_rotr32 v 13 XOR sha_rotr32 v 22"

definition sha256_E1 :: "32 word \<Rightarrow> 32 word" where
  "sha256_E1 v = sha_rotr32 v 6 XOR sha_rotr32 v 11 XOR sha_rotr32 v 25"

definition sha256_r0 :: "32 word \<Rightarrow> 32 word" where
  "sha256_r0 v = sha_rotr32 v 7 XOR sha_rotr32 v 18 XOR drop_bit 3 v"

definition sha256_r1 :: "32 word \<Rightarrow> 32 word" where
  "sha256_r1 v = sha_rotr32 v 17 XOR sha_rotr32 v 19 XOR drop_bit 10 v"

text \<open>The loop that fills the rest of \<^verbatim>\<open>w\<close>; the list grows by one word at a time.\<close>

fun expand :: "nat \<Rightarrow> 32 word list \<Rightarrow> 32 word list" where
  "expand 0 w = w"
| "expand (Suc n) w =
     (let i = length w in expand n (w @ [sha256_r1 (w ! (i - 2)) + w ! (i - 7) + sha256_r0 (w ! (i - 15)) + w ! (i - 16)]))"

text \<open>The variables \<^verbatim>\<open>a\<close> to \<^verbatim>\<open>h\<close>.\<close>

type_synonym regs = "32 word \<times> 32 word \<times> 32 word \<times> 32 word \<times> 32 word \<times> 32 word \<times> 32 word \<times> 32 word"

fun rounds :: "nat \<Rightarrow> nat \<Rightarrow> 32 word list \<Rightarrow> regs \<Rightarrow> regs" where
  "rounds i 0 w v = v"
| "rounds i (Suc n) w (a, b, c, d, e, f, g, h) =
     (let t1 = h + sha256_E1 e + sha256_Ch e f g + sha256_cpfrac ! i + w ! i;
          t2 = sha256_E0 a + sha256_Maj a b c
      in rounds (i + 1) n w (t1 + t2, a, b, c, d + t1, e, f, g))"

definition add_regs :: "32 word list \<Rightarrow> regs \<Rightarrow> 32 word list" where
  "add_regs hs v = (case v of (a, b, c, d, e, f, g, h) \<Rightarrow>
     [hs ! 0 + a, hs ! 1 + b, hs ! 2 + c, hs ! 3 + d, hs ! 4 + e, hs ! 5 + f, hs ! 6 + g, hs ! 7 + h])"

definition sha256_step :: "32 word list \<Rightarrow> sha256 \<Rightarrow> sha256" where
  "sha256_step src sha =
     (let w = expand 48 src; hs = hash sha
      in sha\<lparr>hash := add_regs hs (rounds 0 64 w (hs ! 0, hs ! 1, hs ! 2, hs ! 3, hs ! 4, hs ! 5, hs ! 6, hs ! 7))\<rparr>)"

definition sha256_init :: "64 word \<Rightarrow> sha256" where
  "sha256_init len =
     (let sha = \<lparr>hash = sha256_ihash, sha_length = len, resid = len\<rparr>
      in if len = 0 then sha256_step ((replicate 16 0)[0 := 0x80000000]) sha else sha)"

definition betoh :: "32 word \<Rightarrow> 32 word" where
  "betoh v =
     (let v1 = push_bit 8 (v AND 0x00ff00ff) OR drop_bit 8 (v AND 0xff00ff00)
      in push_bit 16 (v1 AND 0x0000ffff) OR drop_bit 16 v1)"

text \<open>The words that lie in memory as the given bytes.\<close>

definition le32 :: "8 word \<Rightarrow> 8 word \<Rightarrow> 8 word \<Rightarrow> 8 word \<Rightarrow> 32 word" where
  "le32 a b c d = ucast a OR push_bit 8 (ucast b) OR push_bit 16 (ucast c) OR push_bit 24 (ucast d)"

definition words_of :: "8 word list \<Rightarrow> 32 word list" where
  "words_of bs = map (\<lambda>i. le32 (bs ! (4 * i)) (bs ! (4 * i + 1)) (bs ! (4 * i + 2)) (bs ! (4 * i + 3))) [0..<16]"

definition SHA256_CHUNK :: nat where "SHA256_CHUNK = 64"

definition feed_words :: "nat \<Rightarrow> 8 word list \<Rightarrow> 64 word \<Rightarrow> 32 word list" where
  "feed_words bsz src len =
     (let s0 = map betoh (words_of (take bsz src @ replicate (SHA256_CHUNK - bsz) 0))
      in if bsz < SHA256_CHUNK then
           let s1 = (if bsz < SHA256_CHUNK - 8 then (s0[15 := ucast (drop_bit 29 len)])[15 := ucast (push_bit 3 len)] else s0)
           in s1[bsz div 4 := s1 ! (bsz div 4) OR drop_bit (bsz mod 4 * 8) 0x80000000]
         else s0)"

definition last_words :: "nat \<Rightarrow> 64 word \<Rightarrow> 32 word list" where
  "last_words bsz len =
     (let s = ((replicate 16 0)[14 := ucast (drop_bit 29 len)])[15 := ucast (push_bit 3 len)]
      in if bsz \<ge> SHA256_CHUNK then s[0 := 0x80000000] else s)"

definition sha256_feed :: "8 word list \<Rightarrow> sha256 \<Rightarrow> sha256" where
  "sha256_feed src sha =
     (let bsz = (if resid sha > of_nat SHA256_CHUNK then SHA256_CHUNK else unat (resid sha));
          sha1 = sha256_step (feed_words bsz src (sha_length sha)) sha;
          sha2 = sha1\<lparr>resid := resid sha1 - of_nat bsz\<rparr>
      in if resid sha2 = 0 \<and> bsz \<ge> SHA256_CHUNK - 8 then sha256_step (last_words bsz (sha_length sha2)) sha2 else sha2)"

definition sha256_read :: "sha256 \<Rightarrow> 8 word list" where
  "sha256_read sha = concat (map (\<lambda>v. [ucast (drop_bit 24 v), ucast (drop_bit 16 v), ucast (drop_bit 8 v), ucast v]) (hash sha))"

section \<open>The standard\<close>

definition Sigma0 :: "32 word \<Rightarrow> 32 word" where "Sigma0 x = word_rotr 2 x XOR word_rotr 13 x XOR word_rotr 22 x"
definition Sigma1 :: "32 word \<Rightarrow> 32 word" where "Sigma1 x = word_rotr 6 x XOR word_rotr 11 x XOR word_rotr 25 x"
definition sigma0 :: "32 word \<Rightarrow> 32 word" where "sigma0 x = word_rotr 7 x XOR word_rotr 18 x XOR drop_bit 3 x"
definition sigma1 :: "32 word \<Rightarrow> 32 word" where "sigma1 x = word_rotr 17 x XOR word_rotr 19 x XOR drop_bit 10 x"

fun schedule :: "32 word list \<Rightarrow> nat \<Rightarrow> 32 word" where
  "schedule M t =
     (if t < 16 then M ! t else sigma1 (schedule M (t - 2)) + schedule M (t - 7) + sigma0 (schedule M (t - 15)) + schedule M (t - 16))"

declare schedule.simps [simp del]

definition fips_round :: "32 word list \<Rightarrow> nat \<Rightarrow> regs \<Rightarrow> regs" where
  "fips_round M t = (\<lambda>(a, b, c, d, e, f, g, h).
     let T1 = h + Sigma1 e + ((e AND f) XOR (NOT e AND g)) + sha256_cpfrac ! t + schedule M t;
         T2 = Sigma0 a + ((a AND b) XOR (a AND c) XOR (b AND c))
     in (T1 + T2, a, b, c, d + T1, e, f, g))"

definition compress :: "32 word list \<Rightarrow> 32 word list \<Rightarrow> 32 word list" where
  "compress M hs = add_regs hs (fold (fips_round M) [0..<64] (hs ! 0, hs ! 1, hs ! 2, hs ! 3, hs ! 4, hs ! 5, hs ! 6, hs ! 7))"

text \<open>Blocks of 16 words, each of four bytes with the most significant one first.\<close>

definition be_words :: "8 word list \<Rightarrow> 32 word list" where
  "be_words bs = map (\<lambda>i. word_rcat (take 4 (drop (4 * i) bs))) [0..<16]"

definition be_bytes :: "nat \<Rightarrow> 'w :: len word \<Rightarrow> 8 word list" where
  "be_bytes n v = map (\<lambda>i. ucast (drop_bit (8 * i) v)) (rev [0..<n])"

fun pieces :: "8 word list \<Rightarrow> 8 word list list" where
  "pieces bs = (if bs = [] then [] else take 64 bs # pieces (drop 64 bs))"

declare pieces.simps [simp del]

definition pad_tail :: "nat \<Rightarrow> 8 word list" where
  "pad_tail n = 0x80 # replicate ((119 - n mod 64) mod 64) 0 @ be_bytes 8 (of_nat (8 * n) :: 64 word)"

definition sha256_spec :: "8 word list \<Rightarrow> 8 word list" where
  "sha256_spec m = concat (map (be_bytes 4) (fold (\<lambda>b. compress (be_words b)) (pieces (m @ pad_tail (length m))) sha256_ihash))"

text \<open>The constants are the first 32 bits of the fractional parts of the square and cube roots of the first primes.\<close>

definition sha_primes :: "int list" where
  "sha_primes = [2, 3, 5, 7, 11, 13, 17, 19, 23, 29, 31, 37, 41, 43, 47, 53, 59, 61, 67, 71, 73, 79, 83, 89, 97, 101, 103, 107, 109, 113, 127, 131, 137, 139, 149, 151, 157, 163, 167, 173, 179, 181, 191, 193, 197, 199, 211, 223, 227, 229, 233, 239, 241, 251, 257, 263, 269, 271, 277, 281, 283, 293, 307, 311]"

lemma ihash_sqrt:
  "list_all2 (\<lambda>p k. list_ex (\<lambda>n. (n * 2 ^ 32 + uint k)\<^sup>2 \<le> p * 2 ^ 64 \<and> p * 2 ^ 64 < (n * 2 ^ 32 + uint k + 1)\<^sup>2) [1, 2, 3, 4]) (take 8 sha_primes) sha256_ihash"
  by code_simp

lemma cpfrac_cbrt:
  "list_all2 (\<lambda>p k. list_ex (\<lambda>n. (n * 2 ^ 32 + uint k) ^ 3 \<le> p * 2 ^ 96 \<and> p * 2 ^ 96 < (n * 2 ^ 32 + uint k + 1) ^ 3) [1, 2, 3, 4, 5, 6]) sha_primes sha256_cpfrac"
  by code_simp

section \<open>The compression function\<close>

lemma rotr_eq:
  assumes "0 < n" and "n < 32"
  shows "sha_rotr32 v n = word_rotr n v"
proof (rule bit_word_eqI)
  fix k assume "k < LENGTH(32)"
  then have k: "k < 32" by simp
  show "bit (sha_rotr32 v n) k = bit (word_rotr n v) k"
  proof (cases "k + n < 32")
    case True
    then have "(k + n) mod 32 = k + n" and "\<not> 32 - n \<le> k" by simp_all
    then show ?thesis using k by (simp add: sha_rotr32_def bit_simps bit_word_rotr_iff add.commute)
  next
    case False
    then have "(k + n) mod 32 = k - (32 - n)" using k assms(2) by (simp add: le_mod_geq)
    moreover have "\<not> bit v (n + k)" using False bit_imp_le_length [of v "n + k"] by auto
    moreover have "32 - n \<le> k" using False by simp
    ultimately show ?thesis using k False by (simp add: sha_rotr32_def bit_simps bit_word_rotr_iff)
  qed
qed

lemma Sigma_eq: "sha256_E0 v = Sigma0 v" "sha256_E1 v = Sigma1 v" "sha256_r0 v = sigma0 v" "sha256_r1 v = sigma1 v"
  by (simp_all add: sha256_E0_def sha256_E1_def sha256_r0_def sha256_r1_def Sigma0_def Sigma1_def sigma0_def sigma1_def rotr_eq)

lemma expand_schedule:
  assumes "w = map (schedule M) [0..<length w]" and "16 \<le> length w"
  shows "expand n w = map (schedule M) [0..<length w + n]"
  using assms
proof (induction n arbitrary: w)
  case (Suc n)
  have nth: "w ! i = schedule M i" if "i < length w" for i using Suc.prems(1) that by (metis add_0 nth_map_upt diff_zero)
  have s: "schedule M (length w) = sigma1 (w ! (length w - 2)) + w ! (length w - 7) + sigma0 (w ! (length w - 15)) + w ! (length w - 16)"
    using Suc.prems(2) by (subst schedule.simps) (simp add: nth)
  show ?case using Suc.IH [of "w @ [schedule M (length w)]"] Suc.prems by (simp add: Let_def Sigma_eq s)
qed simp

lemma schedule_init: "length M = 16 \<Longrightarrow> M = map (schedule M) [0..<length M]"
  by (rule nth_equalityI) (simp_all add: schedule.simps)

lemma rounds_fold:
  assumes "\<And>i. i < k + n \<Longrightarrow> w ! i = schedule M i"
  shows "rounds k n w v = fold (fips_round M) [k..<k + n] v"
  using assms
proof (induction k n w v rule: rounds.induct)
  case (2 i n w a b c d e f g h)
  then show ?case
    by (simp add: upt_conv_Cons [of i] fips_round_def Let_def Sigma_eq sha256_Ch_def sha256_Maj_def del: upt_Suc)
qed simp

lemma sha256_step_compress:
  assumes "length src = 16"
  shows "sha256_step src sha = sha\<lparr>hash := compress src (hash sha)\<rparr>"
proof -
  have "expand 48 src = map (schedule src) [0..<64]" using expand_schedule [OF schedule_init [OF assms], of 48] assms by simp
  then show ?thesis using rounds_fold [of 0 64 "expand 48 src" src] by (simp add: sha256_step_def compress_def Let_def)
qed

section \<open>Bytes and words\<close>

lemma add_or_byte: "\<forall>n < k. \<not> bit (v :: 32 word) n \<Longrightarrow> 8 \<le> k \<Longrightarrow> ucast (d :: 8 word) + v = v OR ucast d"
  by (subst disjunctive_add) (auto simp: bit_simps or.commute dest: bit_imp_le_length)

lemma word_rcat4: "(word_rcat [a, b, c, d] :: 32 word) = push_bit 24 (ucast (a :: 8 word)) OR push_bit 16 (ucast b) OR push_bit 8 (ucast c) OR ucast d"
proof -
  have "(word_rcat [a, b, c, d] :: 32 word) = ucast d + push_bit 8 (ucast c + push_bit 8 (ucast b + push_bit 8 (ucast a)))"
    by (simp add: word_rcat_def push_bit_eq_mult unsigned_ucast_eq algebra_simps)
  also have "\<dots> = push_bit 24 (ucast a) OR push_bit 16 (ucast b) OR push_bit 8 (ucast c) OR ucast d"
    by (subst (1 2 3) add_or_byte [where k = 8]) (auto simp: bit_simps or.assoc)
  finally show ?thesis .
qed

lemma betoh_or: "betoh (x OR y) = betoh x OR betoh y"
  by (simp add: betoh_def Let_def bit.conj_disj_distrib2 or.assoc or.left_commute or.commute)

lemma betoh_bytes: 
  "betoh (ucast (a :: 8 word)) = push_bit 24 (ucast a)"
  "betoh (push_bit 8 (ucast a)) = push_bit 16 (ucast a)"
  "betoh (push_bit 16 (ucast a)) = push_bit 8 (ucast a)"
  "betoh (push_bit 24 (ucast a)) = ucast a"
proof -
  have m: "(0x00ff00ff :: 32 word) = mask 8 OR push_bit 16 (mask 8)" "(0xff00ff00 :: 32 word) = push_bit 8 (mask 8) OR push_bit 24 (mask 8)" "(0xffff :: 32 word) = mask 16"
    by (simp_all add: mask_eq_exp_minus_1)
  show "betoh (ucast a) = push_bit 24 (ucast a)"
  unfolding betoh_def Let_def m by (rule bit_word_eqI) (auto simp: bit_simps dest: bit_imp_le_length)
  show "betoh (push_bit 8 (ucast a)) = push_bit 16 (ucast a)"
  unfolding betoh_def Let_def m by (rule bit_word_eqI) (auto simp: bit_simps dest: bit_imp_le_length)
  show "betoh (push_bit 16 (ucast a)) = push_bit 8 (ucast a)"
  unfolding betoh_def Let_def m by (rule bit_word_eqI) (auto simp: bit_simps dest: bit_imp_le_length)
  show "betoh (push_bit 24 (ucast a)) = ucast a"
  unfolding betoh_def Let_def m by (rule bit_word_eqI) (auto simp: bit_simps dest: bit_imp_le_length)
qed

lemma betoh_le32: "betoh (le32 a b c d) = word_rcat [a, b, c, d]"
  by (simp add: word_rcat4 le32_def betoh_or betoh_bytes or.assoc or.left_commute or.commute)

lemma betoh_words:
  assumes "length bs = 64"
  shows "map betoh (words_of bs) = be_words bs"
proof -
  have "betoh (le32 (bs ! (4 * i)) (bs ! (4 * i + 1)) (bs ! (4 * i + 2)) (bs ! (4 * i + 3))) = word_rcat (take 4 (drop (4 * i) bs))" if "i < 16" for i
  proof -
    have "take 4 (drop (4 * i) bs) = [bs ! (4 * i), bs ! (4 * i + 1), bs ! (4 * i + 2), bs ! (4 * i + 3)]"
      using that assms by (intro nth_equalityI) (auto simp: less_Suc_eq eval_nat_numeral)
    then show ?thesis by (simp add: betoh_le32)
  qed
  then show ?thesis by (simp add: words_of_def be_words_def)
qed

lemma length_be_words [simp]: "length (be_words bs) = 16"
  by (simp add: be_words_def)

lemma nth_be_words:
  "i < 16 \<Longrightarrow> length bs = 64 \<Longrightarrow> be_words bs ! i = word_rcat [bs ! (4 * i), bs ! (4 * i + 1), bs ! (4 * i + 2), bs ! (4 * i + 3)]"
  by (simp add: betoh_words [symmetric] words_of_def betoh_le32)

text \<open>Setting the bit behind the message, and the length in the last eight bytes.\<close>

lemma be_words_mark:
  assumes "length bs = 64" and "n < 64" and "bs ! n = 0"
  shows "be_words (bs[n := 0x80]) = (be_words bs)[n div 4 := be_words bs ! (n div 4) OR drop_bit (n mod 4 * 8) 0x80000000]"
proof (rule nth_equalityI)
  fix i assume "i < length (be_words (bs[n := 0x80]))"
  then have i: "i < 16" by simp
  have n: "n = 4 * (n div 4) + n mod 4" "n mod 4 < 4" by simp_all
  show "be_words (bs[n := 0x80]) ! i = (be_words bs)[n div 4 := be_words bs ! (n div 4) OR drop_bit (n mod 4 * 8) 0x80000000] ! i"
  proof (cases "i = n div 4")
    case True
    consider "n = 4 * i" "n mod 4 = 0" | "n = 4 * i + 1" "n mod 4 = 1" | "n = 4 * i + 2" "n mod 4 = 2" | "n = 4 * i + 3" "n mod 4 = 3"
      using n True by linarith
    then show ?thesis
      by cases (use assms i True in \<open>simp_all add: nth_be_words word_rcat4 or.assoc or.left_commute or.commute\<close>)
  next
    case False
    then have "n \<noteq> 4 * i + j" if "j < 4" for j using that by auto
    from this [of 0] this [of 1] this [of 2] this [of 3] show ?thesis using False i assms(1) by (simp add: nth_be_words)
  qed
qed simp

lemma rcat_bytes: "(word_rcat [ucast (drop_bit 24 w), ucast (drop_bit 16 w), ucast (drop_bit 8 w), ucast (w :: 64 word) :: 8 word] :: 32 word) = ucast w"
proof (rule bit_word_eqI)
  fix n assume "n < LENGTH(32)"
  then have n: "n < 32" by simp
  define k where "k = n mod 8"
  have "k < 8" by (simp add: k_def)
  moreover have "n = k \<or> n = 8 + k \<or> n = 16 + k \<or> n = 24 + k" using n unfolding k_def by presburger
  ultimately show "bit (word_rcat [ucast (drop_bit 24 w), ucast (drop_bit 16 w), ucast (drop_bit 8 w), ucast w :: 8 word] :: 32 word) n = bit (ucast w :: 32 word) n"
    by (elim disjE) (simp_all add: word_rcat4 bit_simps)
qed

lemma be_words_length:
  assumes "length bs = 56"
  shows "be_words (bs @ be_bytes 8 v) = (be_words (bs @ replicate 8 0))[14 := ucast (drop_bit 32 v), 15 := ucast (v :: 64 word)]"
proof (rule nth_equalityI)
  fix i assume "i < length (be_words (bs @ be_bytes 8 v))"
  then have i: "i < 16" by simp
  have b: "be_bytes 8 v = [ucast (drop_bit 56 v), ucast (drop_bit 48 v), ucast (drop_bit 40 v), ucast (drop_bit 32 v), ucast (drop_bit 24 v), ucast (drop_bit 16 v), ucast (drop_bit 8 v), ucast v]"
    by (simp add: be_bytes_def upt_rec)
  consider "i < 14" | "i = 14" | "i = 15" using i by linarith
  then show "be_words (bs @ be_bytes 8 v) ! i = (be_words (bs @ replicate 8 0))[14 := ucast (drop_bit 32 v), 15 := ucast v] ! i"
  proof cases
    case 1
    then show ?thesis using assms by (simp add: nth_be_words b nth_append)
  next
    case 2
    then show ?thesis using assms rcat_bytes [of "drop_bit 32 v"] by (simp add: nth_be_words b nth_append)
  next
    case 3
    then show ?thesis using assms rcat_bytes [of v] by (simp add: nth_be_words b nth_append)
  qed
qed simp

section \<open>Chunks and blocks\<close>

lemma feed_words_full: "64 \<le> length src \<Longrightarrow> feed_words 64 src len = be_words (take 64 src)"
  by (simp add: feed_words_def SHA256_CHUNK_def betoh_words)

lemma mark_append: "length src < 64 \<Longrightarrow> (src @ replicate (64 - length src) 0)[length src := (x :: 8 word)] = src @ x # replicate (63 - length src) 0"
  by (cases "64 - length src") (auto simp: diff_Suc_eq_diff_pred)

lemma feed_words_tail:
  assumes "length src < 64" and "56 \<le> length src"
  shows "feed_words (length src) src len = be_words (src @ 0x80 # replicate (63 - length src) 0)"
proof -
  let ?bs = "src @ replicate (64 - length src) 0"
  have b: "length ?bs = 64" "?bs ! length src = 0" using assms by (simp_all add: nth_append)
  have "?bs[length src := 0x80] = src @ 0x80 # replicate (63 - length src) 0"
    by (rule mark_append [OF assms(1)])
  then show ?thesis using be_words_mark [OF b(1) assms(1) b(2)] assms by (simp add: feed_words_def SHA256_CHUNK_def betoh_words Let_def)
qed

lemma feed_words_last:
  assumes "length src < 56" and "ucast (drop_bit 29 len) = (0 :: 32 word)"
  shows "feed_words (length src) src len = be_words (src @ 0x80 # replicate (55 - length src) 0 @ be_bytes 8 (push_bit 3 len))"
proof -
  let ?n = "length src"
  let ?bs = "src @ replicate (64 - ?n) 0" and ?v = "push_bit 3 len"
  have b: "length ?bs = 64" "?bs ! ?n = 0" "?n < 64" using assms by (simp_all add: nth_append)
  have m: "?bs[?n := 0x80] = (src @ 0x80 # replicate (55 - ?n) 0) @ replicate 8 0"
    using mark_append [OF b(3), of "0x80"] assms(1) by (simp flip: replicate_add)
  have z: "be_words (?bs[?n := 0x80]) ! 14 = 0" unfolding m using assms(1) by (auto simp: nth_be_words nth_append word_rcat4)
  have hi: "ucast (drop_bit 32 ?v) = (0 :: 32 word)"
    using assms(2) by (auto simp: bit_eq_iff bit_simps)
  have "be_words (src @ 0x80 # replicate (55 - ?n) 0 @ be_bytes 8 ?v) = (be_words (?bs[?n := 0x80]))[14 := 0, 15 := ucast ?v]"
    using be_words_length [of "src @ 0x80 # replicate (55 - ?n) 0" ?v] assms(1) by (simp add: m hi)
  also have "\<dots> = (be_words (?bs[?n := 0x80]))[15 := ucast ?v]" using z by (metis list_update_id)
  also have "\<dots> = feed_words ?n src len"
  proof -
    have "?n div 4 < 15" "?n div 4 \<noteq> 15" using assms(1) by auto
    then show ?thesis using be_words_mark [OF b(1,3,2)] assms(1)
      by (simp add: feed_words_def SHA256_CHUNK_def betoh_words [OF b(1), simplified] Let_def list_update_swap)
  qed
  finally show ?thesis ..
qed

lemma last_words_eq:
  "last_words bsz len = be_words ((if bsz \<ge> 64 then 0x80 else 0) # replicate 55 0 @ be_bytes 8 (push_bit 3 len))"
proof -
  let ?v = "push_bit 3 len"
  have hi: "ucast (drop_bit 32 ?v) = (ucast (drop_bit 29 len) :: 32 word)" by (auto simp: bit_eq_iff bit_simps)
  have z: "be_words (replicate 64 0) = replicate 16 0"
    by (rule nth_equalityI) (simp_all add: nth_be_words word_rcat4)
  have "(replicate 64 0)[0 := 0x80 :: 8 word] = 0x80 # replicate 63 0" by (simp add: numeral_eq_Suc)
  then have m: "be_words (0x80 # replicate 63 0) = (replicate 16 0)[0 := 0x80000000]"
    using be_words_mark [of "replicate 64 0" 0] by (simp add: z)
  show ?thesis
    using be_words_length [of "(if bsz \<ge> 64 then 0x80 else 0) # replicate 55 0" ?v] z m
    by (simp add: last_words_def SHA256_CHUNK_def Let_def hi list_update_swap flip: replicate_Suc replicate_add)
qed

lemma be_bytes_bits: "be_bytes 8 (of_nat (8 * n) :: 64 word) = be_bytes 8 (push_bit 3 (of_nat n :: 64 word))"
  by (simp add: push_bit_eq_mult mult.commute)

lemma pieces_append: "length bs = 64 \<Longrightarrow> pieces (bs @ cs) = bs # pieces cs"
  by (subst pieces.simps) auto

lemma pieces_one: "bs \<noteq> [] \<Longrightarrow> length bs \<le> 64 \<Longrightarrow> pieces bs = [bs]"
  by (subst pieces.simps) (simp add: pieces.simps [of "[]"])

text \<open>The lengths for which the length field is right: it has a second half only in a block of its own.\<close>

definition len_ok :: "nat \<Rightarrow> bool" where
  "len_ok n \<longleftrightarrow> n < 2 ^ 61 \<and> (n < 2 ^ 29 \<or> n mod 64 = 0 \<or> n mod 64 \<ge> 56)"

lemma len_high:
  assumes "n < 2 ^ 29"
  shows "ucast (drop_bit 29 (of_nat n :: 64 word)) = (0 :: 32 word)"
proof -
  have "unat (of_nat n :: 64 word) = n" using assms by (simp add: unat_of_nat)
  then have "unat (drop_bit 29 (of_nat n :: 64 word)) = 0" using assms unfolding unat_drop_bit_eq by (simp add: drop_bit_eq_div)
  then show ?thesis by (simp add: unat_eq_0)
qed

lemma pad_tail_cases:
  assumes "n mod 64 = r"
  shows "r < 56 \<Longrightarrow> pad_tail n = 0x80 # replicate (55 - r) 0 @ be_bytes 8 (push_bit 3 (of_nat n :: 64 word))"
    and "56 \<le> r \<Longrightarrow> pad_tail n = (0x80 # replicate (63 - r) 0) @ (replicate 56 0 @ be_bytes 8 (push_bit 3 (of_nat n :: 64 word)))"
proof -
  have "r < 64" using assms by auto
  show "r < 56 \<Longrightarrow> pad_tail n = 0x80 # replicate (55 - r) 0 @ be_bytes 8 (push_bit 3 (of_nat n :: 64 word))"
    using assms by (simp add: pad_tail_def be_bytes_bits [symmetric] le_mod_geq del: of_nat_mult)
  show "56 \<le> r \<Longrightarrow> pad_tail n = (0x80 # replicate (63 - r) 0) @ (replicate 56 0 @ be_bytes 8 (push_bit 3 (of_nat n :: 64 word)))"
    using assms \<open>r < 64\<close> by (simp add: pad_tail_def be_bytes_bits [symmetric] append_assoc [symmetric] replicate_add [symmetric] del: of_nat_mult append_assoc)
qed

definition run_blocks :: "8 word list list \<Rightarrow> 32 word list \<Rightarrow> 32 word list" where
  "run_blocks bs hs = fold (\<lambda>b. compress (be_words b)) bs hs"

lemma feed_compress:
  "sha256_feed src sha =
     (let bsz = (if resid sha > of_nat 64 then 64 else unat (resid sha));
          sha2 = sha\<lparr>hash := compress (feed_words bsz src (sha_length sha)) (hash sha), resid := resid sha - of_nat bsz\<rparr>
      in if resid sha2 = 0 \<and> bsz \<ge> 56 then sha2\<lparr>hash := compress (last_words bsz (sha_length sha)) (hash sha2)\<rparr> else sha2)"
proof -
  have "length (feed_words bsz src len) = 16" for bsz len by (simp add: feed_words_def words_of_def Let_def)
  moreover have "length (last_words bsz len) = 16" for bsz len by (simp add: last_words_def Let_def)
  ultimately show ?thesis by (simp add: sha256_feed_def sha256_step_compress SHA256_CHUNK_def Let_def)
qed

lemma of_nat_64:
  assumes "n < 2 ^ 61"
  shows "unat (of_nat n :: 64 word) = n" and "(of_nat n :: 64 word) > of_nat 64 \<longleftrightarrow> n > 64"
proof -
  show u: "unat (of_nat n :: 64 word) = n" using assms by (simp add: unat_of_nat)
  have "unat (of_nat 64 :: 64 word) = 64" by simp
  then show "(of_nat n :: 64 word) > of_nat 64 \<longleftrightarrow> n > 64" unfolding word_less_nat_alt u by simp
qed

lemma feed_chunk:
  assumes "resid sha = of_nat (length m)" and "64 < length m" and "length m < 2 ^ 61"
  shows "sha256_feed (take 64 m) sha = sha\<lparr>hash := compress (be_words (take 64 m)) (hash sha), resid := of_nat (length m - 64)\<rparr>"
proof -
  have r: "resid sha > of_nat 64" "resid sha - of_nat 64 = of_nat (length m - 64)"
    using assms of_nat_64 [OF assms(3)] by (simp_all add: of_nat_diff)
  have "length m - 64 < 2 ^ 61" using assms(3) by simp
  then have "resid sha - of_nat 64 \<noteq> 0" unfolding r(2) using of_nat_64(1) [of "length m - 64"] assms(2) by auto
  then show ?thesis using r assms(2) by (simp add: feed_compress Let_def feed_words_full)
qed

lemma feed_end:
  assumes "resid sha = of_nat (length m)" and "sha_length sha = of_nat L" and "0 < length m" and "length m \<le> 64" and "L mod 64 = length m mod 64" and "len_ok L"
  shows "hash (sha256_feed m sha) = run_blocks (pieces (m @ pad_tail L)) (hash sha)"
proof -
  let ?n = "length m" and ?len = "be_bytes 8 (push_bit 3 (of_nat L :: 64 word))"
  have lb: "length ?len = 8" by (simp add: be_bytes_def)
  have b: "\<not> resid sha > of_nat 64" "unat (resid sha) = ?n" "resid sha - of_nat ?n = 0"
    using assms(1,4) of_nat_64 [of ?n] by simp_all
  consider "?n < 56" | "56 \<le> ?n" "?n < 64" | "?n = 64" using assms(4) by linarith
  then show ?thesis
  proof cases
    case 1
    then have "L mod 64 = ?n" using assms(5) by simp
    note p = pad_tail_cases(1) [OF this 1]
    have "L < 2 ^ 29" using \<open>L mod 64 = ?n\<close> assms(3,6) 1 by (auto simp: len_ok_def)
    note w = feed_words_last [OF 1 len_high [OF this]]
    have "pieces (m @ pad_tail L) = [m @ pad_tail L]" by (rule pieces_one) (use 1 assms(3) lb p in auto)
    then show ?thesis using b 1 w assms(2) by (simp add: feed_compress run_blocks_def p)
  next
    case 2
    then have "L mod 64 = ?n" using assms(5) by simp
    note p = pad_tail_cases(2) [OF this 2(1)]
    have "pieces ((m @ 0x80 # replicate (63 - ?n) 0) @ (replicate 56 0 @ ?len)) = [m @ 0x80 # replicate (63 - ?n) 0, replicate 56 0 @ ?len]"
      using 2 lb by (subst pieces_append) (auto simp: pieces_one)
    moreover have "last_words ?n (of_nat L) = be_words (replicate 56 0 @ ?len)"
      using 2 by (simp add: last_words_eq flip: replicate_Suc append_Cons)
    ultimately show ?thesis using b 2 feed_words_tail [OF 2(2,1)] assms(2) by (simp add: feed_compress run_blocks_def p)
  next
    case 3
    then have "L mod 64 = 0" using assms(5) by simp
    note p = pad_tail_cases(1) [OF this, simplified]
    have "pieces (m @ pad_tail L) = [m, pad_tail L]"
      using 3 lb by (subst pieces_append) (auto simp: pieces_one p)
    then show ?thesis using b 3 feed_words_full [of m] assms(2) by (simp add: feed_compress run_blocks_def p last_words_eq)
  qed
qed

lemma feed_all:
  assumes "resid sha = of_nat (length m)" and "sha_length sha = of_nat L" and "0 < length m" and "length m < 2 ^ 61" and "L mod 64 = length m mod 64" and "len_ok L"
  shows "hash (fold sha256_feed (pieces m) sha) = run_blocks (pieces (m @ pad_tail L)) (hash sha)"
  using assms
proof (induction "length m" arbitrary: m sha rule: less_induct)
  case less
  show ?case
  proof (cases "length m \<le> 64")
    case True
    then show ?thesis using feed_end [OF less.prems(1-3) _ less.prems(5,6)] less.prems(3) by (simp add: pieces_one)
  next
    case False
    have t: "length (take 64 m) = 64" "m = take 64 m @ drop 64 m" using False by auto
    have d: "length (drop 64 m) mod 64 = length m mod 64" using False by (simp add: le_mod_geq)
    let ?s = "sha\<lparr>hash := compress (be_words (take 64 m)) (hash sha), resid := of_nat (length m - 64)\<rparr>"
    have f: "sha256_feed (take 64 m) sha = ?s" using feed_chunk [OF less.prems(1) _ less.prems(4)] False by simp
    have "hash (fold sha256_feed (pieces (drop 64 m)) ?s) = run_blocks (pieces (drop 64 m @ pad_tail L)) (hash ?s)"
      by (rule less.hyps) (use False less.prems d in \<open>auto simp: \<close>)
    moreover have "pieces m = take 64 m # pieces (drop 64 m)" "pieces (m @ pad_tail L) = take 64 m # pieces (drop 64 m @ pad_tail L)"
      using pieces_append [OF t(1), of "drop 64 m"] pieces_append [OF t(1), of "drop 64 m @ pad_tail L"] t(2) by (simp_all flip: append_assoc)
    ultimately show ?thesis by (simp add: f run_blocks_def)
  qed
qed

lemma sha256_read_bytes: "sha256_read sha = concat (map (be_bytes 4) (hash sha))"
proof -
  have "be_bytes 4 v = [ucast (drop_bit 24 v), ucast (drop_bit 16 v), ucast (drop_bit 8 v), ucast v]" for v :: "32 word"
    by (simp add: be_bytes_def upt_rec)
  then show ?thesis by (simp only: sha256_read_def cong: map_cong)
qed

lemma init_empty: "hash (sha256_init 0) = run_blocks (pieces (pad_tail 0)) sha256_ihash"
proof -
  have p: "pad_tail 0 = 0x80 # replicate 55 0 @ be_bytes 8 (push_bit 3 (0 :: 64 word))" using pad_tail_cases(1) [of 0 0] by simp
  have "pieces (pad_tail 0) = [pad_tail 0]" by (rule pieces_one) (simp_all add: pad_tail_def be_bytes_def)
  moreover have "be_words (pad_tail 0) = (replicate 16 0)[0 := 0x80000000]"
    using last_words_eq [of 64 0] by (simp add: p last_words_def SHA256_CHUNK_def Let_def numeral_eq_Suc)
  ultimately show ?thesis by (simp add: sha256_init_def sha256_step_compress run_blocks_def)
qed

lemma sha256_fed:
  assumes "len_ok (length m)"
  shows "sha256_read (fold sha256_feed (pieces m) (sha256_init (of_nat (length m)))) = sha256_spec m"
proof (cases "m = []")
  case True
  then show ?thesis using init_empty by (simp add: pieces.simps [of "[]"] sha256_read_bytes sha256_spec_def run_blocks_def)
next
  case False
  have l: "length m < 2 ^ 61" using assms by (simp add: len_ok_def)
  have "unat (of_nat (length m) :: 64 word) \<noteq> 0" using of_nat_64(1) [OF l] False by simp
  then have "(of_nat (length m) :: 64 word) \<noteq> 0" by auto
  then have i: "sha256_init (of_nat (length m)) = \<lparr>hash = sha256_ihash, sha_length = of_nat (length m), resid = of_nat (length m)\<rparr>"
    by (simp add: sha256_init_def Let_def)
  have "hash (fold sha256_feed (pieces m) (sha256_init (of_nat (length m)))) = run_blocks (pieces (m @ pad_tail (length m))) sha256_ihash"
    using feed_all [of "sha256_init (of_nat (length m))" m "length m"] assms l False by (simp add: i)
  then show ?thesis by (simp add: sha256_read_bytes sha256_spec_def run_blocks_def)
qed

text \<open>
  C39: The hash is SHA-256: feeding a message chunk by chunk gives what the standard specifies, with its padding, its blocks, its message schedule and
  its rotations, for the empty message, for a last chunk that leaves room for the length and for one that does not. The hypothesis
  on the length excludes the messages of 512 megabytes and more whose length shares a block with the end of the message.
\<close>

theorem sha256_standard:
  assumes "length m < 2 ^ 61" and "length m < 2 ^ 29 \<or> length m mod 64 = 0 \<or> length m mod 64 \<ge> 56"
  shows "sha256_read (fold sha256_feed (pieces m) (sha256_init (of_nat (length m)))) = sha256_spec m"
  using assms by (intro sha256_fed) (simp add: len_ok_def)

theorem sha256_standard_witness: "sha256_read (sha256_feed [0x61, 0x62, 0x63] (sha256_init 3)) = sha256_spec [0x61, 0x62, 0x63]"
  using sha256_standard [of "[0x61, 0x62, 0x63]"] by (simp add: pieces_one)

text \<open>Where message and length share a block the upper half of the length is stored in the place of the lower half and overwritten: it does not count.\<close>

lemma sha256_length_lost:
  assumes "length src < 56" and "resid sha = of_nat (length src)"
  shows "hash (sha256_feed src (sha\<lparr>sha_length := sha_length sha + 2 ^ 29\<rparr>)) = hash (sha256_feed src sha)"
proof -
  have "unat (resid sha) = length src" "\<not> resid sha > of_nat 64" using assms of_nat_64 [of "length src"] by simp_all
  moreover have "ucast (push_bit 3 (l + 2 ^ 29)) = (ucast (push_bit 3 l) :: 32 word)" for l :: "64 word"
    by transfer (simp add: take_bit_eq_mod push_bit_eq_mult mod_mod_cancel algebra_simps)
  ultimately show ?thesis using assms(1) by (simp add: feed_compress feed_words_def SHA256_CHUNK_def Let_def)
qed

end
