(* ===== verification/Lib_Passwd.thy ===== *)
theory Lib_Passwd
  imports Lib_Sha
begin

text \<open>
  The passwords of users (\<^verbatim>\<open>lib/passwd/passwd.c\<close>): hashing a password, storing it in the file of secrets, checking it and removing a user; reading a line
  of a file (\<^verbatim>\<open>fgets\<close> in \<^verbatim>\<open>lib/stdio/putget.c\<close>, \<^verbatim>\<open>get_line\<close>). A file is the string of its characters, a stream that is read the rest of it. The
  results of the system calls that may fail are given in a record; what is written to a stream is stored, as the code, which ignores the results of
  \<^verbatim>\<open>fprintf\<close> and \<^verbatim>\<open>fclose\<close>, takes for granted. The lock file is free and there is memory for a hash.
\<close>

section \<open>Lines\<close>

abbreviation (input) nl :: char where "nl \<equiv> CHR 0x0A"

fun fgets_loop :: "nat \<Rightarrow> string \<Rightarrow> string \<Rightarrow> string option \<times> string" where
  "fgets_loop 0 s f = (None, f)"
| "fgets_loop (Suc n) s [] = (if s = [] then None else Some s, [])"
| "fgets_loop (Suc n) s (c # f) =
     (if c = CHR 0x00 then fgets_loop (Suc n) s f
      else if c = nl then (Some (s @ [c]), f)
      else fgets_loop n (s @ [c]) f)"

definition fgets :: "nat \<Rightarrow> string \<Rightarrow> string option \<times> string" where
  "fgets sz f = fgets_loop (sz - 1) [] f"

lemma fgets_loop_shorter: "fgets_loop n s f = (Some l, f') \<Longrightarrow> length f' \<le> length f \<and> (s = [] \<longrightarrow> length f' < length f)"
  by (induction n s f rule: fgets_loop.induct) (auto split: if_splits)

function get_line :: "nat \<Rightarrow> string \<Rightarrow> string option \<times> string" where
  "get_line len f =
     (case fgets len f of
        (None, f') \<Rightarrow> (None, f')
      | (Some s, f') \<Rightarrow> let buf = takeWhile (\<lambda>c. c \<noteq> nl) s in if buf = [] then get_line len f' else (Some buf, f'))"
  by pat_completeness auto
termination
  by (relation "measure (length \<circ> snd)") (auto simp: fgets_def dest!: sym [THEN fgets_loop_shorter])

declare get_line.simps [simp del]

lemma get_line_shorter: "get_line len f = (Some l, f') \<Longrightarrow> length f' < length f"
proof (induction len f rule: get_line.induct)
  case (1 len f)
  show ?case
  proof (cases "fgets len f")
    case (Pair r g)
    then show ?thesis
      using 1 fgets_loop_shorter [of "len - 1" "[]" f _ g] by (fastforce simp: get_line.simps [of len f] fgets_def Let_def split: option.splits if_splits)
  qed
qed

text \<open>The loops over the lines of a file read these lines.\<close>

function read_lines :: "nat \<Rightarrow> string \<Rightarrow> string list" where
  "read_lines len f = (case get_line len f of (None, f') \<Rightarrow> [] | (Some buf, f') \<Rightarrow> buf # read_lines len f')"
  by pat_completeness auto
termination
  by (relation "measure (length \<circ> snd)") (auto dest!: sym [THEN get_line_shorter])

declare read_lines.simps [simp del]

definition put_lines :: "string list \<Rightarrow> string" where
  "put_lines ls = concat (map (\<lambda>l. l @ [nl]) ls)"

definition PASSWD_BUF :: nat where "PASSWD_BUF = 4096"

section \<open>Hashes\<close>

definition LOGNAME_MAX :: nat where "LOGNAME_MAX = 31"
definition PASSWD_MAX :: nat where "PASSWD_MAX = 31"

text \<open>The two digits of \<^verbatim>\<open>%02x\<close>.\<close>

definition hex2 :: "8 word \<Rightarrow> string" where
  "hex2 b = [digit_char (unat b div 16), digit_char (unat b mod 16)]"

definition hash_pass :: "string \<Rightarrow> string \<Rightarrow> string option" where
  "hash_pass name pass =
     (if length name > LOGNAME_MAX \<or> length pass > PASSWD_MAX then None
      else
        let ibuf = map of_char (name @ ''/'' @ pass) @ [0];
            sha = sha256_init (of_nat (length name + length pass));
            chunks = map (\<lambda>i. drop (SHA256_CHUNK * i) ibuf) [0..<(LOGNAME_MAX + PASSWD_MAX + 2) div SHA256_CHUNK];
            sha1 = fold sha256_feed chunks sha
        in Some (concat (map hex2 (sha256_read sha1))))"

section \<open>The file of secrets\<close>

record pw_files =
  passwd :: "string option"
  npasswd :: "string option"
  opasswd :: "string option"
  secret :: "string option"
  nsecret :: "string option"
  osecret :: "string option"

record pw_env =
  geteuid :: nat
  creat_err :: errno
  rename_err :: errno
  rename2_err :: errno
  creat_passwd_err :: errno
  rename_passwd_err :: errno
  rename2_passwd_err :: errno

definition has_name :: "string \<Rightarrow> string \<Rightarrow> bool" where
  "has_name name buf \<longleftrightarrow> take (length name) buf = name \<and> length name < length buf \<and> buf ! length name = CHR '':''"

definition move_secret :: "pw_env \<Rightarrow> pw_files \<Rightarrow> errno \<times> pw_files" where
  "move_secret env s =
     (if rename_err env \<noteq> EZERO then (rename_err env, s)
      else
        let s1 = s\<lparr>osecret := secret s, secret := None\<rparr>
        in if rename2_err env \<noteq> EZERO then (rename2_err env, s1)
           else (EZERO, s1\<lparr>secret := nsecret s1, nsecret := None\<rparr>))"

definition move_passwd :: "pw_env \<Rightarrow> pw_files \<Rightarrow> errno \<times> pw_files" where
  "move_passwd env s =
     (if rename_passwd_err env \<noteq> EZERO then (rename_passwd_err env, s)
      else
        let s1 = s\<lparr>opasswd := passwd s, passwd := None\<rparr>
        in if rename2_passwd_err env \<noteq> EZERO then (rename2_passwd_err env, s1)
           else (EZERO, s1\<lparr>passwd := npasswd s1, npasswd := None\<rparr>))"

definition secret_line :: "string \<Rightarrow> string \<Rightarrow> string" where
  "secret_line name h = name @ '':'' @ h"

definition setpass :: "pw_env \<Rightarrow> string \<Rightarrow> string \<Rightarrow> pw_files \<Rightarrow> errno \<times> pw_files" where
  "setpass env name pass s =
     (case hash_pass name pass of
        None \<Rightarrow> (EINVAL, s)
      | Some h \<Rightarrow>
          if geteuid env \<noteq> 0 then (EPERM, s)
          else
            (case secret s of
               None \<Rightarrow> (ENOENT, s)
             | Some fi \<Rightarrow>
                 if creat_err env \<noteq> EZERO then (creat_err env, s)
                 else
                   let ls = read_lines PASSWD_BUF fi;
                       fo = map (\<lambda>buf. if has_name name buf then secret_line name h else buf) ls;
                       fo1 = (if list_ex (has_name name) ls then fo else fo @ [secret_line name h])
                   in move_secret env (s\<lparr>nsecret := Some (put_lines fo1)\<rparr>)))"

definition chkpass :: "string \<Rightarrow> string \<Rightarrow> pw_files \<Rightarrow> errno" where
  "chkpass name pass s =
     (case hash_pass name pass of
        None \<Rightarrow> EINVAL
      | Some h \<Rightarrow>
          (case secret s of
             None \<Rightarrow> ENOENT
           | Some f \<Rightarrow>
               (case find (has_name name) (read_lines PASSWD_BUF f) of
                  None \<Rightarrow> EACCES
                | Some buf \<Rightarrow> if drop (length name + 1) buf \<noteq> h then EACCES else EZERO)))"

definition deluser :: "pw_env \<Rightarrow> string \<Rightarrow> pw_files \<Rightarrow> errno \<times> pw_files" where
  "deluser env name s =
     (if geteuid env \<noteq> 0 then (EPERM, s)
      else
        (case secret s of
           None \<Rightarrow> (ENOENT, s)
         | Some fi \<Rightarrow>
             if creat_err env \<noteq> EZERO then (creat_err env, s)
             else
               let keep = filter (\<lambda>buf. \<not> has_name name buf);
                   (e, s1) = move_secret env (s\<lparr>nsecret := Some (put_lines (keep (read_lines PASSWD_BUF fi)))\<rparr>)
               in if e \<noteq> EZERO then (e, s1)
                  else
                    (case passwd s1 of
                       None \<Rightarrow> (ENOENT, s1)
                     | Some fp \<Rightarrow>
                         if creat_passwd_err env \<noteq> EZERO then (creat_passwd_err env, s1)
                         else move_passwd env (s1\<lparr>npasswd := Some (put_lines (keep (read_lines PASSWD_BUF fp)))\<rparr>))))"

section \<open>Lines that are read back\<close>

definition line :: "string \<Rightarrow> bool" where
  "line l \<longleftrightarrow> l \<noteq> [] \<and> nl \<notin> set l \<and> CHR 0x00 \<notin> set l \<and> length l < PASSWD_BUF - 1"

lemma fgets_loop_line:
  "nl \<notin> set l \<Longrightarrow> CHR 0x00 \<notin> set l \<Longrightarrow> length l < n \<Longrightarrow> fgets_loop n s (l @ nl # f) = (Some (s @ l @ [nl]), f)"
proof (induction l arbitrary: n s)
  case Nil
  then show ?case by (cases n) auto
next
  case (Cons c l)
  then show ?case by (cases n) auto
qed

lemma fgets_loop_clean:
  "fgets_loop n s f = (Some b, f') \<Longrightarrow>
   \<exists>l. (b = s @ l \<or> b = s @ l @ [nl]) \<and> nl \<notin> set l \<and> CHR 0x00 \<notin> set l \<and> length l < n"
proof (induction n s f rule: fgets_loop.induct)
  case (3 n s c f)
  consider (zero) "c = CHR 0x00" | (end_of_line) "c = nl" | (other) "c \<noteq> CHR 0x00" "c \<noteq> nl" by blast
  then show ?case
  proof cases
    case zero
    then show ?thesis using 3(1,3) by simp
  next
    case end_of_line
    then show ?thesis using 3(3) by (intro exI [of _ "[]"]) simp
  next
    case other
    then obtain l where "b = (s @ [c]) @ l \<or> b = (s @ [c]) @ l @ [nl]" "nl \<notin> set l" "CHR 0x00 \<notin> set l" "length l < n"
      using 3(2,3) by auto
    then show ?thesis using other by (intro exI [of _ "c # l"]) auto
  qed
qed (auto split: if_splits)

lemma get_line_line: "get_line PASSWD_BUF f = (Some l, f') \<Longrightarrow> line l"
proof (induction PASSWD_BUF f rule: get_line.induct)
  case (1 f)
  obtain r g where p: "fgets PASSWD_BUF f = (r, g)" by fastforce
  then obtain b where b: "r = Some b" using 1(2) by (cases r) (simp_all add: get_line.simps [of _ f])
  show ?case
  proof (cases "takeWhile (\<lambda>c. c \<noteq> nl) b = []")
    case True
    then show ?thesis using 1 p b by (simp add: get_line.simps [of _ f])
  next
    case False
    obtain k where "b = k \<or> b = k @ [nl]" "nl \<notin> set k" "CHR 0x00 \<notin> set k" "length k < PASSWD_BUF - 1"
      using fgets_loop_clean [of "PASSWD_BUF - 1" "[]" f b g] p b by (auto simp: fgets_def)
    moreover have "l = takeWhile (\<lambda>c. c \<noteq> nl) b" using 1(2) p b False by (simp add: get_line.simps [of _ f])
    moreover have "takeWhile (\<lambda>c. c \<noteq> nl) b = k" if "nl \<notin> set k" "b = k \<or> b = k @ [nl]" for k
      using that by (auto simp: takeWhile_append intro: takeWhile_eq_all_conv [THEN iffD2])
    ultimately show ?thesis using False by (auto simp: line_def)
  qed
qed

lemma read_lines_line: "l \<in> set (read_lines PASSWD_BUF f) \<Longrightarrow> line l"
proof (induction PASSWD_BUF f rule: read_lines.induct)
  case (1 f)
  then show ?case by (auto simp: read_lines.simps [of _ f] dest: sym [THEN get_line_line] split: prod.splits option.splits)
qed

lemma get_line_put: "line l \<Longrightarrow> get_line PASSWD_BUF (l @ nl # f) = (Some l, f)"
proof -
  assume l: "line l"
  then have "fgets PASSWD_BUF (l @ nl # f) = (Some (l @ [nl]), f)" using fgets_loop_line [of l "PASSWD_BUF - 1" "[]" f] by (simp add: fgets_def line_def)
  moreover have "takeWhile (\<lambda>c. c \<noteq> nl) (l @ [nl]) = l" using l by (subst takeWhile_append2) (auto simp: line_def)
  ultimately show ?thesis using l by (simp add: get_line.simps line_def)
qed

lemma read_put_lines: "\<forall>l \<in> set ls. line l \<Longrightarrow> read_lines PASSWD_BUF (put_lines ls) = ls"
proof (induction ls)
  case Nil
  show ?case by (simp add: put_lines_def read_lines.simps get_line.simps fgets_def PASSWD_BUF_def numeral_eq_Suc)
next
  case (Cons l ls)
  then show ?case using get_line_put [of l "put_lines ls"] by (simp add: put_lines_def read_lines.simps [of _ "l @ _"])
qed

section \<open>Storing and checking\<close>

lemma digit_char_clean: "d < 16 \<Longrightarrow> digit_char d \<noteq> nl \<and> digit_char d \<noteq> CHR 0x00"
proof -
  assume "d < 16"
  then have "d \<in> set [0..<16]" by simp
  moreover have "\<forall>d \<in> set [0..<16]. digit_char d \<noteq> nl \<and> digit_char d \<noteq> CHR 0x00" by code_simp
  ultimately show ?thesis by blast
qed

lemma hex2_clean: "nl \<notin> set (hex2 b) \<and> CHR 0x00 \<notin> set (hex2 b)"
proof -
  have "unat b < 256" using unsigned_less [of b] by simp
  then have "unat b div 16 < 16" by (simp add: less_mult_imp_div_less)
  then show ?thesis using digit_char_clean [of "unat b div 16"] digit_char_clean [of "unat b mod 16"] by (auto simp: hex2_def)
qed

lemma length_sha256_read: "length (sha256_read (sha256_feed src sha)) = 32"
proof -
  have "length (hash (sha256_step ws s)) = 8" for ws s by (simp add: sha256_step_def add_regs_def Let_def split: prod.splits)
  then have "length (hash (sha256_feed src sha)) = 8" by (simp add: sha256_feed_def Let_def)
  then show ?thesis by (simp add: sha256_read_def length_concat comp_def sum_list_triv)
qed

lemma hash_pass_eq:
  "hash_pass name pass =
     (if length name > 31 \<or> length pass > 31 then None
      else Some (concat (map hex2 (sha256_read (sha256_feed (map of_char (name @ ''/'' @ pass) @ [0]) (sha256_init (of_nat (length name + length pass))))))))"
  by (simp add: hash_pass_def LOGNAME_MAX_def PASSWD_MAX_def SHA256_CHUNK_def Let_def)

lemma hash_pass_clean:
  assumes "hash_pass name pass = Some h"
  shows "length name \<le> 31" and "length h = 64" and "nl \<notin> set h" and "CHR 0x00 \<notin> set h"
proof -
  obtain bs where h: "h = concat (map hex2 bs)" "length bs = 32" "length name \<le> 31"
    using assms by (auto simp: hash_pass_eq length_sha256_read split: if_splits)
  show "length h = 64" using h(2) by (simp add: h(1) length_concat hex2_def comp_def sum_list_triv)
  show "nl \<notin> set h" "CHR 0x00 \<notin> set h" using hex2_clean by (auto simp: h(1))
  show "length name \<le> 31" by (rule h(3))
qed

lemma has_name_line: "has_name name (secret_line name h) \<and> drop (length name + 1) (secret_line name h) = h"
  by (simp add: has_name_def secret_line_def nth_append)

lemma has_name_unique:
  assumes "has_name name buf" and "has_name name' buf" and "CHR '':'' \<notin> set name" and "CHR '':'' \<notin> set name'"
  shows "name = name'"
proof -
  have "takeWhile (\<lambda>c. c \<noteq> CHR '':'') buf = n" if "has_name n buf" "CHR '':'' \<notin> set n" for n
  proof -
    have "buf = n @ CHR '':'' # drop (length n + 1) buf"
      using that(1) id_take_nth_drop [of "length n" buf] by (simp add: has_name_def)
    moreover have "takeWhile (\<lambda>c. c \<noteq> CHR '':'') (n @ CHR '':'' # x) = n" for x using that(2) by (subst takeWhile_append2) auto
    ultimately show ?thesis by metis
  qed
  then show ?thesis using assms by metis
qed

lemma line_secret:
  assumes "hash_pass name pass = Some h" and "nl \<notin> set name" and "CHR 0x00 \<notin> set name"
  shows "line (secret_line name h)"
  using hash_pass_clean [OF assms(1)] assms(2,3) by (auto simp: line_def secret_line_def PASSWD_BUF_def)

text \<open>What a successful call stores.\<close>

lemma setpass_stores:
  assumes "setpass env name pass s = (EZERO, s')" and "nl \<notin> set name" and "CHR 0x00 \<notin> set name"
  obtains h f where "hash_pass name pass = Some h" and "secret s = Some f"
    and "\<exists>g. secret s' = Some g \<and> read_lines PASSWD_BUF g =
      map (\<lambda>b. if has_name name b then secret_line name h else b) (read_lines PASSWD_BUF f) @
      (if list_ex (has_name name) (read_lines PASSWD_BUF f) then [] else [secret_line name h])"
proof -
  obtain h where h: "hash_pass name pass = Some h" using assms(1) by (cases "hash_pass name pass") (auto simp: setpass_def)
  then obtain f where f: "secret s = Some f" using assms(1) by (cases "secret s") (auto simp: setpass_def split: if_splits)
  let ?ls = "map (\<lambda>b. if has_name name b then secret_line name h else b) (read_lines PASSWD_BUF f) @
      (if list_ex (has_name name) (read_lines PASSWD_BUF f) then [] else [secret_line name h])"
  have "secret s' = Some (put_lines ?ls)"
    using assms(1) h f by (auto simp: setpass_def move_secret_def Let_def split: if_splits)
  moreover have "\<forall>l \<in> set ?ls. line l" using line_secret [OF h assms(2,3)] read_lines_line [of _ f] by auto
  ultimately show ?thesis using that [OF h f] read_put_lines by blast
qed

lemma find_set:
  "find (has_name name) (map (\<lambda>b. if has_name name b then secret_line name h else b) ls @ (if list_ex (has_name name) ls then [] else [secret_line name h])) =
   Some (secret_line name h)"
  by (induction ls) (auto simp: has_name_line)

lemma find_other:
  assumes "\<And>b. has_name name b \<Longrightarrow> \<not> has_name name' b"
  shows "find (has_name name') (map (\<lambda>b. if has_name name b then secret_line name h else b) ls @ (if list_ex (has_name name) ls then [] else [secret_line name h])) =
   find (has_name name') ls"
proof -
  have "\<not> has_name name' (secret_line name h)" using assms has_name_line by blast
  then have "find (has_name name') (map (\<lambda>b. if has_name name b then secret_line name h else b) ls @ (if P then [] else [secret_line name h])) = find (has_name name') ls" for P
    by (induction ls) (auto dest: assms)
  then show ?thesis .
qed

text \<open>
  C40: After a password was set it is accepted, and the passwords of all other users are accepted or refused as before: whatever the file of secrets
  contained, with or without an entry of the user, with empty lines or lines that do not fit the buffer.
\<close>

theorem setpass_chkpass:
  assumes "setpass env name pass s = (EZERO, s')" and "nl \<notin> set name" and "CHR 0x00 \<notin> set name" and "CHR '':'' \<notin> set name"
  shows "chkpass name pass s' = EZERO \<and>
    (\<forall>name' pass'. name' \<noteq> name \<and> CHR '':'' \<notin> set name' \<longrightarrow> chkpass name' pass' s' = chkpass name' pass' s)"
proof -
  obtain h f g where h: "hash_pass name pass = Some h" "secret s = Some f" "secret s' = Some g"
    "read_lines PASSWD_BUF g = map (\<lambda>b. if has_name name b then secret_line name h else b) (read_lines PASSWD_BUF f) @
      (if list_ex (has_name name) (read_lines PASSWD_BUF f) then [] else [secret_line name h])"
    by (rule setpass_stores [OF assms(1-3)]) blast
  have "find (has_name name) (read_lines PASSWD_BUF g) = Some (secret_line name h)" unfolding h(4) by (rule find_set)
  then have "chkpass name pass s' = EZERO" using h(1,3) has_name_line [of name h] by (simp add: chkpass_def)
  moreover have "chkpass name' pass' s' = chkpass name' pass' s" if "name' \<noteq> name" "CHR '':'' \<notin> set name'" for name' pass'
  proof -
    have "\<not> has_name name' b" if "has_name name b" for b
      using that has_name_unique [of name b name'] assms(4) \<open>name' \<noteq> name\<close> \<open>CHR '':'' \<notin> set name'\<close> by blast
    then have "find (has_name name') (read_lines PASSWD_BUF g) = find (has_name name') (read_lines PASSWD_BUF f)" unfolding h(4) by (rule find_other)
    then show ?thesis using h(2,3) by (cases "hash_pass name' pass'") (simp_all add: chkpass_def)
  qed
  ultimately show ?thesis by blast
qed

definition example_files :: pw_files where
  "example_files = \<lparr>passwd = None, npasswd = None, opasswd = None, secret = Some ''root:1'', nsecret = None, osecret = None\<rparr>"

definition example_env :: pw_env where
  "example_env = \<lparr>geteuid = 0, creat_err = EZERO, rename_err = EZERO, rename2_err = EZERO, creat_passwd_err = EZERO, rename_passwd_err = EZERO, rename2_passwd_err = EZERO\<rparr>"

theorem setpass_chkpass_witness: "chkpass ''ann'' ''secret'' (snd (setpass example_env ''ann'' ''secret'' example_files)) = EZERO"
proof -
  obtain h where h: "hash_pass ''ann'' ''secret'' = Some h" by (simp add: hash_pass_eq)
  have "setpass example_env ''ann'' ''secret'' example_files = (EZERO, snd (setpass example_env ''ann'' ''secret'' example_files))"
    by (simp add: setpass_def h example_files_def example_env_def move_secret_def Let_def)
  from setpass_chkpass [OF this] show ?thesis by simp
qed

text \<open>A user that was removed has no password that is accepted.\<close>

lemma deluser_refused:
  assumes "deluser env name s = (EZERO, s')"
  shows "chkpass name pass s' \<noteq> EZERO"
proof -
  obtain f where f: "secret s = Some f" using assms by (cases "secret s") (auto simp: deluser_def split: if_splits)
  let ?ls = "filter (\<lambda>b. \<not> has_name name b) (read_lines PASSWD_BUF f)"
  have "secret s' = Some (put_lines ?ls)"
    using assms f by (auto simp: deluser_def move_secret_def move_passwd_def Let_def split: if_splits prod.splits option.splits)
  moreover have "read_lines PASSWD_BUF (put_lines ?ls) = ?ls" by (rule read_put_lines) (auto dest: read_lines_line)
  moreover have "find (has_name name) ?ls = None" by (auto simp: find_None_iff)
  ultimately show ?thesis by (simp add: chkpass_def split: option.splits)
qed

section \<open>What is hashed\<close>

lemma feed_prefix: "take (unat (resid sha)) src = take (unat (resid sha)) src' \<Longrightarrow> unat (resid sha) \<le> 64 \<Longrightarrow> sha256_feed src sha = sha256_feed src' sha"
  by (simp add: feed_compress feed_words_def word_less_nat_alt Let_def)

lemma resid_init: "resid (sha256_init n) = n"
  by (cases "n = 0") (simp_all add: sha256_init_def sha256_step_def Let_def)

text \<open>The length that is hashed leaves out one character: the last character of a password does not count.\<close>

lemma hash_pass_last: "hash_pass name (pass @ [c]) = hash_pass name (pass @ [d])"
proof (cases "length name > 31 \<or> length pass + 1 > 31")
  case False
  let ?sha = "sha256_init (of_nat (length name + length (pass @ [c])))"
  have "length name + length pass + 1 < 2 ^ 61" using False by simp
  then have r: "unat (resid ?sha) = length name + length pass + 1"
    using of_nat_64(1) [of "length name + length pass + 1"] by (simp add: resid_init)
  have "sha256_feed (map of_char (name @ ''/'' @ pass @ [c]) @ [0]) ?sha = sha256_feed (map of_char (name @ ''/'' @ pass @ [d]) @ [0]) ?sha"
    by (rule feed_prefix) (use r False in simp_all)
  then show ?thesis by (simp add: hash_pass_eq)
qed (auto simp: hash_pass_eq)

end
