(* ===== verification/Lib_Ring.thy ===== *)
theory Lib_Ring
  imports Ring_Buffer
begin

text \<open>
  The ring buffers of the C library, which drivers use, too (\<^verbatim>\<open>lib/ringbuf.c\<close>, \<^verbatim>\<open>lib/ringbuf_kern.c\<close>): a bounded queue of bytes. The size
  \<^verbatim>\<open>rb->size\<close> is the length of the buffer; \<open>None\<close> is the panic of \<^verbatim>\<open>rb_check\<close>. In the operations on user memory \<open>e1\<close> and \<open>e2\<close> are the
  results of the two copies.
\<close>

record ringbuf =
  rb_size :: nat
  rb_head :: nat
  rb_util :: nat
  rb_buf :: "8 word list"

definition rb_check :: "ringbuf \<Rightarrow> bool" where
  "rb_check rb \<longleftrightarrow> \<not> rb_util rb > rb_size rb"

definition rb_init :: "8 word list \<Rightarrow> nat \<Rightarrow> ringbuf" where
  "rb_init buf sz = \<lparr>rb_size = sz, rb_head = 0, rb_util = 0, rb_buf = buf\<rparr>"

text \<open>The two copies into the buffer and the two copies out of it, which all operations share.\<close>

definition rb_store :: "nat \<Rightarrow> nat \<Rightarrow> 8 word list \<Rightarrow> ringbuf \<Rightarrow> 8 word list" where
  "rb_store tail sz data rb =
     (if tail + sz > rb_size rb then
        let split = rb_size rb - tail
        in memcpy_in (memcpy_in (rb_buf rb) tail (take split data)) 0 (take (sz - split) (drop split data))
      else memcpy_in (rb_buf rb) tail (take sz data))"

definition rb_fetch :: "nat \<Rightarrow> nat \<Rightarrow> ringbuf \<Rightarrow> 8 word list" where
  "rb_fetch off sz rb =
     (if off + sz > rb_size rb then
        let split = rb_size rb - off in take split (drop off (rb_buf rb)) @ take (sz - split) (rb_buf rb)
      else take sz (drop off (rb_buf rb)))"

definition rb_write :: "8 word list \<Rightarrow> ringbuf \<Rightarrow> (nat \<times> ringbuf) option" where
  "rb_write data rb =
     (let tail = (rb_head rb + rb_util rb) mod rb_size rb
      in if \<not> rb_check rb then None
         else
           let sz = (if length data > rb_size rb - rb_util rb then rb_size rb - rb_util rb else length data)
           in Some (sz, rb\<lparr>rb_buf := rb_store tail sz data rb, rb_util := rb_util rb + sz\<rparr>))"

definition rb_read :: "nat \<Rightarrow> ringbuf \<Rightarrow> (8 word list \<times> ringbuf) option" where
  "rb_read n rb =
     (if \<not> rb_check rb then None
      else
        let sz = (if n > rb_util rb then rb_util rb else n)
        in Some (rb_fetch (rb_head rb) sz rb, rb\<lparr>rb_head := (rb_head rb + sz) mod rb_size rb, rb_util := rb_util rb - sz\<rparr>))"

definition rb_peek :: "nat \<Rightarrow> nat \<Rightarrow> ringbuf \<Rightarrow> 8 word list option" where
  "rb_peek n off rb =
     (if \<not> rb_check rb then None
      else if off \<ge> rb_util rb then Some []
      else
        let sz = (if n > rb_util rb - off then rb_util rb - off else n)
        in Some (rb_fetch ((off + rb_head rb) mod rb_size rb) sz rb))"

text \<open>The copy that does not wrap around is not checked.\<close>

definition rb_uwrite :: "errno \<Rightarrow> errno \<Rightarrow> 8 word list \<Rightarrow> ringbuf \<Rightarrow> (errno + nat) \<times> ringbuf" where
  "rb_uwrite e1 e2 data rb =
     (let tail = (rb_head rb + rb_util rb) mod rb_size rb;
          sz = (if length data > rb_size rb - rb_util rb then rb_size rb - rb_util rb else length data);
          split = rb_size rb - tail
      in if tail + sz > rb_size rb \<and> e1 \<noteq> EZERO then (Inl e1, rb)
         else if tail + sz > rb_size rb \<and> e2 \<noteq> EZERO then (Inl e2, rb\<lparr>rb_buf := memcpy_in (rb_buf rb) tail (take split data)\<rparr>)
         else (Inr sz, rb\<lparr>rb_buf := rb_store tail sz data rb, rb_util := rb_util rb + sz\<rparr>))"

definition rb_uread :: "errno \<Rightarrow> errno \<Rightarrow> nat \<Rightarrow> ringbuf \<Rightarrow> (errno + 8 word list) \<times> ringbuf" where
  "rb_uread e1 e2 n rb =
     (let sz = (if n > rb_util rb then rb_util rb else n)
      in if e1 \<noteq> EZERO then (Inl e1, rb)
         else if rb_head rb + sz > rb_size rb \<and> e2 \<noteq> EZERO then (Inl e2, rb)
         else (Inr (rb_fetch (rb_head rb) sz rb), rb\<lparr>rb_head := (rb_head rb + sz) mod rb_size rb, rb_util := rb_util rb - sz\<rparr>))"

section \<open>A bounded queue\<close>

definition rb_ok :: "ringbuf \<Rightarrow> bool" where
  "rb_ok rb \<longleftrightarrow> length (rb_buf rb) = rb_size rb \<and> rb_head rb < rb_size rb \<and> rb_util rb \<le> rb_size rb"

definition rb_data :: "ringbuf \<Rightarrow> 8 word list" where
  "rb_data rb = ring_from (rb_buf rb) (rb_head rb) (rb_util rb)"

lemma rb_store_pieces:
  assumes "w < rb_size rb" and "sz \<le> length data"
  shows "rb_store w sz data rb = memcpy_in (memcpy_in (rb_buf rb) w (take (if sz + w > rb_size rb then rb_size rb - w else sz) (take sz data))) 0
    (drop (if sz + w > rb_size rb then rb_size rb - w else sz) (take sz data))"
proof (cases "sz + w > rb_size rb")
  case True
  then have "min (rb_size rb - w) sz = rb_size rb - w" by linarith
  then show ?thesis using True by (simp add: rb_store_def Let_def drop_take add.commute)
next
  case False
  then show ?thesis by (simp add: rb_store_def memcpy_in_def add.commute)
qed

lemma rb_store_appends:
  assumes "rb_ok rb" and "rb_util rb + sz \<le> rb_size rb" and "sz \<le> length data"
  shows "length (rb_store ((rb_head rb + rb_util rb) mod rb_size rb) sz data rb) = rb_size rb"
    "ring_from (rb_store ((rb_head rb + rb_util rb) mod rb_size rb) sz data rb) (rb_head rb) (rb_util rb + sz) = rb_data rb @ take sz data"
proof -
  let ?w = "(rb_head rb + rb_util rb) mod rb_size rb"
  define l where "l = (if sz + ?w > rb_size rb then rb_size rb - ?w else sz)"
  have ok: "length (rb_buf rb) = rb_size rb" "rb_head rb < rb_size rb" using assms(1) by (simp_all add: rb_ok_def)
  have w: "?w < rb_size rb" using ok(2) by (intro mod_less_divisor) linarith
  have b: "rb_store ?w sz data rb = memcpy_in (memcpy_in (rb_buf rb) ?w (take l (take sz data))) 0 (drop l (take sz data))"
    unfolding l_def by (rule rb_store_pieces [OF w assms(3)])
  have "length (rb_store ?w sz data rb) = length (rb_buf rb) \<and>
      ring_from (rb_store ?w sz data rb) (rb_head rb) (rb_util rb + length (take sz data)) = ring_from (rb_buf rb) (rb_head rb) (rb_util rb) @ take sz data"
    by (rule ring_put [where w = ?w and l = l]) (use ok assms b in \<open>simp_all add: l_def min_absorb2\<close>)
  then show "length (rb_store ?w sz data rb) = rb_size rb"
    "ring_from (rb_store ?w sz data rb) (rb_head rb) (rb_util rb + sz) = rb_data rb @ take sz data"
    using ok(1) assms(3) by (simp_all add: rb_data_def min_absorb2)
qed

lemma rb_fetch_takes:
  assumes "rb_ok rb" and "sz \<le> k" and "k \<le> rb_size rb" and "r < rb_size rb"
  shows "rb_fetch r sz rb = take sz (ring_from (rb_buf rb) r k)"
proof -
  define l where "l = (if sz + r > rb_size rb then rb_size rb - r else sz)"
  have ok: "length (rb_buf rb) = rb_size rb" using assms(1) by (simp add: rb_ok_def)
  have "rb_fetch r sz rb = take l (drop r (rb_buf rb)) @ take (sz - l) (rb_buf rb)"
    by (simp add: rb_fetch_def l_def Let_def add.commute)
  also have "\<dots> = take sz (ring_from (rb_buf rb) r k)" by (rule ring_take) (use ok assms in \<open>simp_all add: l_def\<close>)
  finally show ?thesis .
qed

lemma rb_okD:
  assumes "rb_ok rb"
  shows "length (rb_buf rb) = rb_size rb" "rb_head rb < rb_size rb" "rb_util rb \<le> rb_size rb" "rb_check rb"
  using assms by (simp_all add: rb_ok_def rb_check_def)

text \<open>
  The ring buffers are bounded queues: a write appends as much as fits and says how much that was, a read takes the oldest bytes, a look at an
  offset returns the bytes from there on and changes nothing; wherever the data wrap around in the buffer.
\<close>

lemma rb_write_appends:
  assumes "rb_ok rb"
  shows "\<exists>rb'. rb_write data rb = Some (min (length data) (rb_size rb - rb_util rb), rb') \<and> rb_ok rb' \<and>
    rb_data rb' = rb_data rb @ take (rb_size rb - rb_util rb) data"
proof -
  define sz where "sz = min (length data) (rb_size rb - rb_util rb)"
  have sz: "(if length data > rb_size rb - rb_util rb then rb_size rb - rb_util rb else length data) = sz" by (simp add: sz_def)
  have t: "take sz data = take (rb_size rb - rb_util rb) data" by (simp add: sz_def min_def)
  note s = rb_store_appends [OF assms, of sz data]
  show ?thesis unfolding rb_write_def Let_def sz using rb_okD [OF assms] s t
    by (auto simp: rb_ok_def rb_data_def sz_def [symmetric]) (auto simp: sz_def)
qed

lemma rb_read_takes:
  assumes "rb_ok rb"
  shows "\<exists>rb'. rb_read n rb = Some (take n (rb_data rb), rb') \<and> rb_ok rb' \<and> rb_data rb' = drop n (rb_data rb)"
proof -
  note ok = rb_okD [OF assms]
  define sz where "sz = min n (rb_util rb)"
  have sz: "(if n > rb_util rb then rb_util rb else n) = sz" by (simp add: sz_def)
  have t: "take sz (rb_data rb) = take n (rb_data rb)" "drop sz (rb_data rb) = drop n (rb_data rb)"
    by (simp_all add: sz_def min_def rb_data_def)
  have f: "rb_fetch (rb_head rb) sz rb = take n (rb_data rb)"
    using rb_fetch_takes [OF assms, of sz "rb_util rb" "rb_head rb"] ok t by (simp add: sz_def rb_data_def)
  have d: "ring_from (rb_buf rb) ((rb_head rb + sz) mod rb_size rb) (rb_util rb - sz) = drop n (rb_data rb)"
    using ring_drop [of sz "rb_util rb" "rb_buf rb" "rb_head rb"] ok t(2) by (simp add: sz_def rb_data_def)
  have "(rb_head rb + sz) mod rb_size rb < rb_size rb" using ok by (intro mod_less_divisor) linarith
  then show ?thesis unfolding rb_read_def Let_def sz f using ok d by (simp add: rb_ok_def rb_data_def)
qed

lemma rb_peek_looks:
  assumes "rb_ok rb"
  shows "rb_peek n off rb = Some (take n (drop off (rb_data rb)))"
proof (cases "off \<ge> rb_util rb")
  case True
  then show ?thesis using rb_okD [OF assms] by (simp add: rb_peek_def rb_data_def)
next
  case False
  note ok = rb_okD [OF assms]
  define sz where "sz = min n (rb_util rb - off)"
  have sz: "(if n > rb_util rb - off then rb_util rb - off else n) = sz" by (simp add: sz_def)
  have r: "(off + rb_head rb) mod rb_size rb < rb_size rb" using ok by (intro mod_less_divisor) linarith
  have "rb_fetch ((off + rb_head rb) mod rb_size rb) sz rb = take sz (drop off (rb_data rb))"
    using rb_fetch_takes [OF assms _ _ r, of sz "rb_util rb - off"] ring_drop [of off "rb_util rb" "rb_buf rb" "rb_head rb"] ok False
    by (simp add: sz_def rb_data_def add.commute)
  also have "\<dots> = take n (drop off (rb_data rb))" by (simp add: sz_def min_def rb_data_def)
  finally show ?thesis using False ok by (simp add: rb_peek_def Let_def sz)
qed

lemma rb_init_empty: "length buf = sz \<Longrightarrow> 0 < sz \<Longrightarrow> rb_ok (rb_init buf sz) \<and> rb_data (rb_init buf sz) = []"
  by (simp add: rb_init_def rb_ok_def rb_data_def ring_from_def)

text \<open>The operations on user memory do the same when the copies succeed.\<close>

lemma rb_u_same:
  assumes "rb_ok rb"
  shows "rb_write data rb = (case rb_uwrite EZERO EZERO data rb of (Inr n, rb') \<Rightarrow> Some (n, rb') | (Inl e, rb') \<Rightarrow> None)"
    and "rb_read n rb = (case rb_uread EZERO EZERO n rb of (Inr bs, rb') \<Rightarrow> Some (bs, rb') | (Inl e, rb') \<Rightarrow> None)"
  using rb_okD [OF assms] by (simp_all add: rb_write_def rb_read_def rb_uwrite_def rb_uread_def Let_def)

text \<open>The check of the user's memory is missing where the data do not wrap around.\<close>

lemma rb_uwrite_unchecked: "rb_ok rb \<Longrightarrow> length data \<le> rb_size rb - rb_head rb - rb_util rb \<Longrightarrow> \<exists>rb'. rb_uwrite e1 e2 data rb = (Inr (length data), rb')"
  by (auto simp: rb_uwrite_def rb_ok_def Let_def mod_if)

end
