(* ===== verification/Spec2Isabelle.thy ===== *)
theory Spec2Isabelle
  imports Linked_List Pipe Sync Clock Nat_Example Pty_Line Lib_Passwd Lib_Ring
begin

text \<open>
  \<^bold>\<open>The kernel of Vanadium.\<close>

  The program is an operating system: a monolithic kernel (\<^verbatim>\<open>src/kern\<close>) with loadable drivers (\<^verbatim>\<open>src/drv\<close>),
  file systems (\<^verbatim>\<open>src/kern/fs\<close>, \<^verbatim>\<open>src/kern/fs/nat\<close>), a C library (\<^verbatim>\<open>src/lib\<close>), a window system, and user
  programs (\<^verbatim>\<open>src/cmd\<close>). This development models the core of the kernel: the tasks, what they wait for and how they
  are scheduled, signals and events, the descriptors through which they reach files, pipes, the locks and queues
  drivers are made of, the clock, the cache of disk blocks with a driver below it and the native file system above it, the pseudo
  terminals, and the parts of the C library that have an algorithm of their own.

  \<^bold>\<open>Conventions.\<close> A structure is a \<^theory_text>\<open>record\<close>; a pointer to a structure of a table is the index in the table, a null pointer is
  \<open>None\<close>. A kernel routine is a function on the state that returns an \<^verbatim>\<open>errno\<close> or a sum of an \<^verbatim>\<open>errno\<close>
  and a result, together with the new state; the value \<open>None\<close> of the surrounding option is a panic (or an access
  outside an array). The states of the components extend each other by record extension: \<open>kstate\<close> (the task
  table), \<open>fstate\<close> (and the files), \<open>mstate\<close> (and mutexes and message queues), \<open>cstate\<close> (and the clock), \<open>nstate\<close> (and the native file systems with the cache), \<open>ptstate\<close> (and the terminals); the
  operations are polymorphic in what follows. The kernel is not preemptive: a routine runs until it
  suspends its task, which the model makes visible as the outcome of the call (\<open>outcome\<close>); what a task does
  after it is woken is another definition (\<open>mtx_loop\<close>, \<open>pipe_write_loop\<close>), so that theorems about
  interleavings are about sequences of such steps.

  \<^bold>\<open>The theories.\<close>
  \<^item> \<open>Kernel_Prelude\<close>: error codes (\<^verbatim>\<open>include/kern/errno.h\<close>), doubly linked segments, walks along a list, lemmas on \<open>find\<close>
    and on bounded sequences that all components share.
  \<^item> \<open>Linked_List\<close>: the intrusive lists of \<^verbatim>\<open>lib/list.c\<close>, as a memory of list heads and items; the
    locale \<open>list_store\<close> states what clients rely on. Shown: every operation refines the operation
    on sequences; \<^verbatim>\<open>list_check\<close> returns exactly on well-linked lists.
  \<^item> \<open>Task_Queue\<close>: the queues of tasks in \<^verbatim>\<open>kern/task.c\<close>, refining first-in first-out queues.
  \<^item> \<open>Task\<close>: the task table, process identifiers, \<^verbatim>\<open>task_resume\<close> and the loop that wakes a queue.
  \<^item> \<open>Sched\<close>: \<^verbatim>\<open>kern/sched.c\<close> and \<^verbatim>\<open>task_suspend\<close>. The scheduler invariant \<open>kinv\<close> (a runnable task is running or on
    the ready queue of its priority, a sleeping one on at most one wait queue, the counters
    are right) holds after \<^verbatim>\<open>task_init\<close> and is kept by every operation of every theory above.
  \<^item> \<open>Signal\<close>: \<^verbatim>\<open>kern/signal.c\<close>, \<^verbatim>\<open>kern/event.c\<close> and their system calls.
  \<^item> \<open>Fs_Path\<close>: qualified path names and the mount table (\<^verbatim>\<open>kern/fs/main.c\<close>).
  \<^item> \<open>Fs_File\<close>: descriptors, open files, in-core objects, permissions (\<^verbatim>\<open>kern/fs/fdesc.c\<close>, \<^verbatim>\<open>main.c\<close>, \<^verbatim>\<open>misc.c\<close>); the invariant is
    that every reference count is exactly the number of references.
  \<^item> \<open>Process\<close>: \<^verbatim>\<open>task_creat\<close>, \<^verbatim>\<open>fork\<close>, \<^verbatim>\<open>exit\<close>, \<^verbatim>\<open>xwait\<close>, \<^verbatim>\<open>nice\<close>, over tasks and files together.
  \<^item> \<open>Wakeup\<close>: what waking tasks leaves unchanged, for the components that sleep and wake.
  \<^item> \<open>Ring_Buffer\<close>, \<open>Overflow\<close>: circular buffers as sequences, \<^verbatim>\<open>memcpy\<close> into a buffer; the exactness of \<^verbatim>\<open>include/overflow.h\<close>.
  \<^item> \<open>Pipe\<close>: \<^verbatim>\<open>kern/fs/pipe.c\<close>, a bounded sequence of bytes with blocking readers and writers.
  \<^item> \<open>Sync\<close>: \<^verbatim>\<open>kern/mutex.c\<close>, \<^verbatim>\<open>kern/mqueue.c\<close>, \<^verbatim>\<open>kern/task_dproc.c\<close>. All interleavings of the users of a mutex
    are an inductive step relation; mutual exclusion and no lost wake-up are proved by rule induction.
  \<^item> \<open>Clock\<close>: the clock interrupt and alarms (\<^verbatim>\<open>kern/clock.c\<close>).
  \<^item> \<open>Block_Cache\<close>: \<^verbatim>\<open>kern/block.c\<close>. The locale \<open>block_driver\<close> is the contract between the cache and
    a driver; over it the cache is transparent: the contents \<open>view\<close> of the blocks do not depend on which buffers hold them.
  \<^item> \<open>Ram_Disk\<close>: \<^verbatim>\<open>drv/rd.drv.c\<close>, the driver that interprets the contract.
  \<^item> \<open>Block_Use\<close>: the cache as a client sees it: buffers that are held, operations that let go of all they take (\<open>quiet\<close>).
  \<^item> \<open>Nat_Bam\<close>: the native file system (\<^verbatim>\<open>kern/fs/nat\<close>), its map of the blocks in use, super block, mounting and \<^verbatim>\<open>statfs\<close>.
  \<^item> \<open>Nat_Bmap\<close>: the tree of blocks of a file and \<^verbatim>\<open>nat_bmap\<close>, which finds or allocates one. The invariant \<open>tree_ok\<close> says that no block is at two
    positions; \<open>grows\<close> is what an allocation may do.
  \<^item> \<open>Nat_File\<close>: \<^verbatim>\<open>nat_read\<close> and \<^verbatim>\<open>nat_write\<close>: a file is a sequence of bytes; \<open>spares\<close> says that the blocks of others do not change.
  \<^item> \<open>Nat_Trunc\<close>: truncating a file frees exactly its blocks.
  \<^item> \<open>Nat_Fso\<close>: the headers of files, byte by byte (\<^verbatim>\<open>fso.c\<close>): what is written is read back; deleting files.
  \<^item> \<open>Nat_Dir\<close>: one directory (\<^verbatim>\<open>dir.c\<close>): a map from names to headers.
  \<^item> \<open>Nat_Path\<close>: the operations on paths, over the table of in-core objects, the directories and the cache together.
  \<^item> \<open>Nat_Lookup\<close>: looking up a path on the disk: the walk through the directories on the blocks is the specification \<open>resolve\<close>; the
    table of in-core objects stays a true image of the headers, and no reference or buffer is lost.
  \<^item> \<open>Fs_Name\<close>: the operations of a type of file system as a record of functions (\<^verbatim>\<open>struct fstype\<close>), the table of types, and the operations on
    paths that dispatch to them (\<^verbatim>\<open>kern/fs/main.c\<close>, \<^verbatim>\<open>misc.c\<close>).
  \<^item> \<open>Fs_Call\<close>: the system calls on paths and descriptors (\<^verbatim>\<open>kern/fs/syscall.c\<close>), \<^verbatim>\<open>poll\<close> among them. A pointer that a user passes is the
    string it points to or the error of its check.
  \<^item> \<open>Fs_Open\<close>: the locale \<open>file_namer\<close> is what \<^verbatim>\<open>open\<close> relies on in a type of file system; over it every path through \<^verbatim>\<open>open\<close>
    keeps the reference counts exact. \<open>Nat_Open\<close>: the native file system fulfils it.
  \<^item> \<open>Fs_Mount\<close>: mounting, unmounting, removable media (\<^verbatim>\<open>kern/fs/mount.c\<close>) and the table of operations of the native type; the mount table is a
    map from prefixes to file systems.
  \<^item> \<open>Nat_Rw\<close>: \<^verbatim>\<open>write\<close>, \<^verbatim>\<open>lseek\<close> and \<^verbatim>\<open>read\<close> through a descriptor, down to the blocks of the device.
  \<^item> \<open>Pty\<close>: the pseudo terminals (\<^verbatim>\<open>kern/fs/pty/ptyfs.c\<close>): both ends of a terminal with the line discipline between them.
  \<^item> \<open>Pty_Line\<close>: the line discipline is the pure editor \<open>type_char\<close> on the line, the input, the output and the end-of-file mark; \<open>runs\<close> is a small logic for
    routines on a terminal whose rules follow the code. Shown: what is typed, edited, is what the program reads; what it prints is what the master
    reads; closing the master wakes everyone.
  \<^item> \<open>Lib_Time\<close>: the calendar of the C library (\<^verbatim>\<open>lib/time.c\<close>): \<^verbatim>\<open>mktime\<close> agrees with a calendar that counts, \<^verbatim>\<open>gmtime\<close> is its inverse, \<^verbatim>\<open>strftime\<close>
    stays in its buffer.
  \<^item> \<open>Lib_String\<close>: \<^verbatim>\<open>lib/string\<close> on a memory of bytes: \<^verbatim>\<open>memmove\<close> copies whatever the overlap, \<^verbatim>\<open>strstr\<close> finds the first occurrence, \<^verbatim>\<open>strtok\<close> the next
    token; loops that only a terminating zero ends return for every string \<open>cstr\<close>.
  \<^item> \<open>Lib_Stdlib\<close>: \<^verbatim>\<open>lib/stdlib\<close> and \<^verbatim>\<open>lib/ctype\<close>. The locale \<open>comparison\<close> is what \<^verbatim>\<open>qsort\<close> relies on in the function that the caller passes; it is
    interpreted on \<^verbatim>\<open>memcmp\<close>. Shown: \<^verbatim>\<open>qsort\<close> ends and sorts, \<^verbatim>\<open>strtol\<close> reads what is printed, quotients are exact.
  \<^item> \<open>Lib_Printf\<close>: \<^verbatim>\<open>vfprintf\<close> (\<^verbatim>\<open>lib/stdio/vfprintf.c\<close>) on a stream that takes a bounded number of characters.
  \<^item> \<open>Lib_Sha\<close>: the hash function of \<^verbatim>\<open>lib/sha/sha.c\<close>. Shown: fed chunk by chunk it is the SHA-256 of the standard; the tables of constants are the roots of the
    first primes.
  \<^item> \<open>Lib_Passwd\<close>: the file of secrets (\<^verbatim>\<open>lib/passwd/passwd.c\<close>), read and written line by line: a password that was set is accepted, other users keep theirs,
    a removed user has none.
  \<^item> \<open>Lib_Ring\<close>: the ring buffers of \<^verbatim>\<open>lib/ringbuf.c\<close> and \<^verbatim>\<open>lib/ringbuf_kern.c\<close> as bounded queues.
  \<^item> \<open>Nat_Example\<close>: a file system on a RAM disk, on which the theorems are instantiated.

  \<^bold>\<open>Loops.\<close> Loops that may not end are \<^theory_text>\<open>partial_function (option)\<close> (\<open>sched_pick\<close>, \<open>newpid_loop\<close>, \<open>wake_all\<close>, the
    delivery loop of signals, walks along lists), so not returning is \<open>None\<close>; that they end with a result is part of the
    theorems. \<open>list_search\<close> has the bound that \<^verbatim>\<open>blk_get\<close> itself counts down.

  \<^bold>\<open>Findings.\<close> Where the code does not do what it means to, a lemma shows it: \<open>pipe_write_lost_wakeup\<close>, \<open>mq_items_overlap\<close>,
    \<open>ualarm_period_lost\<close>, \<open>alarm_keeps_repeat\<close>, \<open>blk_get_loses_data\<close>, \<open>rd_new_wraps\<close>, \<open>rd_new_double_free\<close>, \<open>hdr_loses_rdev\<close>,
    \<open>poll_bad_panics\<close>, \<open>poll_third_crashes\<close>, \<open>uaa_overflows\<close>, \<open>revoke_leaks_reader\<close>, \<open>mount_nodev_crashes\<close>,
    \<open>ptm_write_full\<close>, \<open>pts_read_no_delay\<close>, \<open>strftime_no_room\<close>,
    \<open>memchr_start\<close>, \<open>strncat_unterminated\<close>, \<open>strstr_beyond\<close>, \<open>bsearch_beyond\<close>, \<open>strtoul_wraps\<close>, \<open>strtol_negative\<close>, \<open>isspace_form_feed\<close>,
    \<open>llabs_zero\<close>, \<open>atoll_truncates\<close>, \<open>precision_zero\<close>, \<open>rb_uwrite_unchecked\<close>, \<open>sha256_length_lost\<close>,
    \<open>hash_pass_last\<close>.

  \<^bold>\<open>Not modelled.\<close> Machine-dependent code (paging, interrupts, the switch of stacks, FPU state) and what the code
    takes from the hardware are parameters or left out; so are program loading, the file systems of devices
    and the boot image (further types behind the same table of operations) and the other drivers. Programs, the window system, the streams, the heap, the
    regular expressions and the wrappers of system calls of the C library, the compiler and the vendored libraries are outside the kernel's core.
\<close>

end
